(* ===== verification/Columnar_Prelude.thy ===== *)
theory Columnar_Prelude
  imports Main "HOL-Library.Word"
begin

unbundle bit_operations_syntax

section \<open>Shared types, byte and bit lemmas\<close>

text \<open>
  The vocabulary every component shares: machine words at the widths of the source,
  byte strings as lists of 8-bit words, the decode errors, the little-endian view of a
  \<open>uint64\<close> that \<open>memcpy\<close> gives on the hosts the format requires, and the bit view of a
  byte string (bit \<open>p\<close> of the stream is bit \<open>p mod 8\<close> of byte \<open>p div 8\<close>, least
  significant first). The codecs are proved by reasoning bit by bit in this view.
\<close>

type_synonym byte = "8 word"
type_synonym u16 = "16 word"
type_synonym u32 = "32 word"
type_synonym u64 = "64 word"

text \<open>
  A decoder raises \<open>Corrupt\<close> with the message of the source's \<open>ereport\<close>. \<open>Loop_Exhausted\<close> is
  not an error of the program: it is the value of a \<open>for (;;)\<close> loop whose fuel ran out, and
  every routine with such a loop is proved never to return it.
\<close>

datatype decode_error = Corrupt string | Loop_Exhausted

type_synonym 'a result = "decode_error + 'a"

definition res_bind :: "'a result \<Rightarrow> ('a \<Rightarrow> 'b result) \<Rightarrow> 'b result" where
  "res_bind r f = (case r of Inl e \<Rightarrow> Inl e | Inr x \<Rightarrow> f x)"

lemma res_bind_simps [simp]: "res_bind (Inl e) f = Inl e" "res_bind (Inr x) f = f x"
  by (simp_all add: res_bind_def)

lemma res_bind_Inr: "res_bind r f = Inr y \<longleftrightarrow> (\<exists>x. r = Inr x \<and> f x = Inr y)"
  by (cases r) auto

named_theorems byte_simps \<open>conversions between byte strings and words\<close>
named_theorems bit_views \<open>bit-level characterisations of the packing routines\<close>

subsection \<open>Lists\<close>

lemma list_eq_nthI:
  assumes "length xs = length ys" and "\<And>i. i < length xs \<Longrightarrow> xs ! i = ys ! i"
  shows "xs = ys"
  using assms by (rule nth_equalityI)

lemma fold_emit:
  "fold (\<lambda>x (p, out). (p + w, out @ [f x p])) xs (p0, out0) =
   (p0 + length xs * w, out0 @ map (\<lambda>i. f (xs ! i) (p0 + i * w)) [0..<length xs])"
proof (induction xs arbitrary: p0 out0)
  case Nil
  then show ?case by simp
next
  case (Cons x xs)
  have "map (\<lambda>i. f ((x # xs) ! i) (p0 + i * w)) [0..<length (x # xs)] =
        f x p0 # map (\<lambda>i. f (xs ! i) (p0 + w + i * w)) [0..<length xs]"
    by (rule list_eq_nthI) (auto simp: nth_Cons' algebra_simps simp del: upt_Suc)
  with Cons show ?case by (simp del: upt_Suc)
qed

lemma length_concat_const:
  "(\<And>x. x \<in> set xs \<Longrightarrow> length (f x) = w) \<Longrightarrow> length (concat (map f xs)) = length xs * w"
  by (induction xs) auto

lemma first_nat:
  assumes "P (n :: nat)"
  obtains m where "m \<le> n" "P m" "\<forall>e < m. \<not> P e"
  by (rule that[of "LEAST m. P m"]) (auto intro: LeastI Least_le assms dest: not_less_Least)

lemma div8_mod8:
  fixes p q r :: nat
  shows "p = 8 * q + r \<Longrightarrow> r < 8 \<Longrightarrow> p div 8 = q \<and> p mod 8 = r"
  by simp

lemma div8_window:
  fixes p q r w nb :: nat
  assumes "p < 8 * q + r + w" and "r + w \<le> 8 * nb"
  shows "p div 8 < q + nb"
  using assms by (simp add: div_less_iff_less_mult)

lemma byte_distance:
  fixes a b c d :: nat
  assumes "c \<le> a"
  shows "8 * (a - c) + b - d = (8 * a + b) - (8 * c + d)"
    and "d \<le> 8 * (a - c) + b \<longleftrightarrow> 8 * c + d \<le> 8 * a + b"
  using assms by (auto simp: diff_mult_distrib2)

subsection \<open>Little-endian words\<close>

primrec le_word :: "byte list \<Rightarrow> u64" where
  "le_word [] = 0"
| "le_word (b # bs) = ucast b OR push_bit 8 (le_word bs)"

primrec le_bytes :: "nat \<Rightarrow> u64 \<Rightarrow> byte list" where
  "le_bytes 0 v = []"
| "le_bytes (Suc k) v = ucast v # le_bytes k (drop_bit 8 v)"

definition bufbit :: "byte list \<Rightarrow> nat \<Rightarrow> bool" where
  "bufbit bs p \<longleftrightarrow> p div 8 < length bs \<and> bit (bs ! (p div 8)) (p mod 8)"

lemma length_le_bytes [simp]: "length (le_bytes k v) = k"
  by (induction k arbitrary: v) auto

lemma bufbit_Nil [simp]: "\<not> bufbit [] p"
  by (simp add: bufbit_def)

lemma bufbit_Cons:
  "bufbit (b # bs) p \<longleftrightarrow> (if p < 8 then bit b p else bufbit bs (p - 8))"
  by (auto simp: bufbit_def nth_Cons' div_if mod_if)

lemma bufbit_append:
  "bufbit (xs @ ys) p \<longleftrightarrow>
     (if p < 8 * length xs then bufbit xs p else bufbit ys (p - 8 * length xs))"
  by (induction xs arbitrary: p) (auto simp: bufbit_Cons algebra_simps)

lemma bufbit_set_bit:
  assumes "pos < 8 * length bs"
  shows "bufbit (bs[pos div 8 := bs ! (pos div 8) OR push_bit (pos mod 8) 1]) p \<longleftrightarrow> bufbit bs p \<or> p = pos"
proof (cases "p div 8 = pos div 8")
  case True
  then have "p = pos \<longleftrightarrow> p mod 8 = pos mod 8" by (metis mult_div_mod_eq)
  moreover have "pos div 8 < length bs" using assms by (simp add: less_mult_imp_div_less mult.commute)
  ultimately show ?thesis using True by (auto simp: bufbit_def bit_simps)
qed (auto simp: bufbit_def)

lemma bufbit_replicate_0 [simp]: "\<not> bufbit (replicate n 0) p"
  by (simp add: bufbit_def)

lemma bufbit_drop: "bufbit (drop k bs) p \<longleftrightarrow> bufbit bs (8 * k + p)"
  by (auto simp: bufbit_def add.commute)

lemma bufbit_take: "bufbit (take k bs) p \<longleftrightarrow> p < 8 * k \<and> bufbit bs p"
  by (auto simp: bufbit_def)

lemma bufbit_lt: "bufbit bs p \<Longrightarrow> p < 8 * length bs"
  by (auto simp: bufbit_def)

lemma byte_list_eqI:
  assumes "length xs = length ys"
    and "\<And>p. p < 8 * length xs \<Longrightarrow> bufbit xs p = bufbit ys p"
  shows "xs = ys"
proof (rule list_eq_nthI[OF assms(1)])
  fix i assume i: "i < length xs"
  show "xs ! i = ys ! i"
  proof (rule bit_word_eqI)
    fix n assume n: "n < LENGTH(8)"
    from n i have "bufbit xs (8 * i + n) = bufbit ys (8 * i + n)"
      by (intro assms(2)) auto
    with n i assms(1) show "bit (xs ! i) n = bit (ys ! i) n"
      by (simp add: bufbit_def)
  qed
qed

lemma bit_le_word [bit_views]: "bit (le_word bs) i \<longleftrightarrow> i < 64 \<and> bufbit bs i"
proof (induction bs arbitrary: i)
  case Nil
  then show ?case by simp
next
  case (Cons b bs)
  have "bit (le_word (b # bs)) i \<longleftrightarrow> i < 64 \<and> bit b i \<or> 8 \<le> i \<and> i < 64 \<and> bit (le_word bs) (i - 8)"
    by (simp add: bit_simps)
  moreover have "bit b i \<Longrightarrow> i < 8" using bit_imp_le_length[of b i] by simp
  moreover have "i < 64 \<Longrightarrow> bit (le_word bs) (i - 8) = bufbit bs (i - 8)"
    using Cons[of "i - 8"] by auto
  ultimately show ?case by (cases "i < 8") (auto simp: bufbit_Cons)
qed

lemma bufbit_le_bytes [bit_views]: "bufbit (le_bytes k v) p \<longleftrightarrow> p < 8 * k \<and> bit v p"
proof (induction k arbitrary: v p)
  case 0
  then show ?case by simp
next
  case (Suc k)
  then show ?case by (auto simp: bufbit_Cons bit_simps)
qed

lemma le_word_le_bytes [byte_simps]: "le_word (le_bytes k v) = take_bit (8 * k) v"
  by (rule bit_word_eqI) (auto simp: bit_views bit_simps)

lemma le_word_le_bytes_8 [simp]: "le_word (le_bytes 8 v) = v"
  by (rule bit_word_eqI) (auto simp: bit_views bit_simps)

lemma le_bytes_le_word [byte_simps]:
  "length bs = k \<Longrightarrow> k \<le> 8 \<Longrightarrow> le_bytes k (le_word bs) = bs"
  by (rule byte_list_eqI) (auto simp: bit_views)

lemma le_bytes_take_bit: "le_bytes k (take_bit (8 * k) v) = le_bytes k v"
  by (rule byte_list_eqI) (auto simp: bit_views bit_simps)

lemma le_bytes_inj_take_bit:
  "take_bit (8 * k) v = take_bit (8 * k) v' \<Longrightarrow> le_bytes k v = le_bytes k v'"
  by (metis le_bytes_take_bit)

lemma le_bytes_eq_iff:
  "le_bytes k v = le_bytes k v' \<longleftrightarrow> take_bit (8 * k) v = take_bit (8 * k) v'"
  by (metis le_bytes_inj_take_bit le_word_le_bytes)

text \<open>A 32-bit length or count: the four bytes \<open>memcpy\<close> writes for a \<open>uint32\<close>.\<close>

definition u32_bytes :: "nat \<Rightarrow> byte list" where
  "u32_bytes n = le_bytes 4 (of_nat n)"

definition u32_of :: "byte list \<Rightarrow> nat" where
  "u32_of bs = unat (le_word (take 4 bs))"

lemma length_u32_bytes [simp]: "length (u32_bytes n) = 4"
  by (simp add: u32_bytes_def)

lemma u32_of_bytes [simp]: "n < 2 ^ 32 \<Longrightarrow> u32_of (u32_bytes n @ rest) = n"
  by (simp add: u32_of_def u32_bytes_def byte_simps unsigned_take_bit_eq unat_of_nat
      take_bit_nat_eq_self)

lemma byte_of_nat_unat [simp]: "n < 256 \<Longrightarrow> unat (of_nat n :: byte) = n"
  by (simp add: unat_of_nat)

end
