(* ===== verification/Bitpack.thy ===== *)
theory Bitpack
  imports Columnar_Prelude
begin

unbundle bit_operations_syntax

section \<open>Fixed-width values and bit packing\<close>

text \<open>
  The helpers at the head of \<open>src/src/columnar_encoding.c\<close>: loading and storing a
  fixed-width value as a \<open>uint64\<close>, \<open>bits_needed\<close>, the byte-at-a-time packer
  \<open>bitpack\<close>, the word-at-a-time reader \<open>bitunpack\<close> with its bit-at-a-time tail, the
  zigzag map, and the per-bit reference routines \<open>ref_bitpack\<close> and \<open>ref_bitunpack\<close> that
  the self-test of the source compares them with. Every routine is characterised by the
  bits it reads or writes; equality with the reference and the round trip follow.
\<close>

subsection \<open>Definitions\<close>

definition load_uint :: "byte list \<Rightarrow> nat \<Rightarrow> u64" where
  "load_uint p w = le_word (take w p)"

definition store_uint :: "u64 \<Rightarrow> nat \<Rightarrow> byte list" where
  "store_uint v w = le_bytes w v"

text \<open>\<open>load_vals\<close> is the loop that every fixed-width encoder starts with.\<close>

definition load_vals :: "byte list \<Rightarrow> nat \<Rightarrow> nat \<Rightarrow> u64 list" where
  "load_vals raw w n = map (\<lambda>i. load_uint (drop (i * w) raw) w) [0..<n]"

lemma unat_shiftr_1: "unat (drop_bit (Suc 0) (m :: u64)) = unat m div 2"
  by (simp add: drop_bit_Suc unat_div)

function bits_needed_loop :: "nat \<Rightarrow> u64 \<Rightarrow> nat" where
  "bits_needed_loop n maxval =
     (if maxval > 0 then bits_needed_loop (n + 1) (drop_bit 1 maxval) else n)"
  by pat_completeness auto
termination
proof (relation "measure (\<lambda>(n, m). unat m)")
  fix n :: nat and maxval :: u64
  assume "0 < maxval"
  then show "((n + 1, drop_bit 1 maxval), n, maxval) \<in> measure (\<lambda>(n, m). unat m)"
    by (simp add: unat_shiftr_1 unat_gt_0 word_gt_0)
qed simp

declare bits_needed_loop.simps [simp del]

definition bits_needed :: "u64 \<Rightarrow> nat" where
  "bits_needed maxval = bits_needed_loop 0 maxval"

definition field_mask :: "nat \<Rightarrow> u64" where
  "field_mask width = (if width = 64 then NOT 0 else push_bit width 1 - 1)"

text \<open>
  One field of \<open>bitpack\<close>: the value, already masked, is OR-ed in byte by byte at bit
  position \<open>bitpos\<close>. The casts to \<open>uint32\<close> of the source are the \<open>mod 2 ^ 32\<close>.
\<close>

definition pack_byte :: "u64 \<Rightarrow> u64 \<Rightarrow> nat \<Rightarrow> byte" where
  "pack_byte lo hi k =
     (if k < 8 then ucast (drop_bit (8 * k) lo) else ucast (drop_bit (8 * (k - 8)) hi))"

definition bitpack_field :: "nat \<Rightarrow> u64 \<Rightarrow> nat \<Rightarrow> byte list \<Rightarrow> byte list" where
  "bitpack_field width v bitpos buf =
     (let bytepos = (bitpos div 8) mod 2 ^ 32;
          bitoff = bitpos mod 8;
          lo = push_bit bitoff v;
          hi = (if bitoff \<noteq> 0 then drop_bit (64 - bitoff) v else 0);
          nb = (bitoff + width + 7) div 8
      in fold (\<lambda>k b. b[bytepos + k := b ! (bytepos + k) OR pack_byte lo hi k]) [0..<nb] buf)"

definition bitpack :: "u64 list \<Rightarrow> nat \<Rightarrow> byte list" where
  "bitpack vals width =
     (if width = 0 \<or> vals = [] then []
      else let totalbits = length vals * width;
               nbytes = ((totalbits + 7) div 8) mod 2 ^ 32;
               mask = field_mask width
           in snd (fold (\<lambda>x (bitpos, buf).
                     (bitpos + width, bitpack_field width (x AND mask) bitpos buf))
                   vals (0, replicate nbytes 0)))"

text \<open>The bit-at-a-time assembly of one value: the tail of \<open>bitunpack\<close>, and the oracle.\<close>

definition gather_bits :: "byte list \<Rightarrow> nat \<Rightarrow> nat \<Rightarrow> u64" where
  "gather_bits inp width bitpos =
     fold (\<lambda>b v. if bit (inp ! ((bitpos + b) div 8)) ((bitpos + b) mod 8)
                 then v OR push_bit b 1 else v) [0..<width] 0"

text \<open>The wide load: one unaligned 64-bit read and at most one more byte.\<close>

definition wide_load :: "byte list \<Rightarrow> nat \<Rightarrow> nat \<Rightarrow> u64" where
  "wide_load inp width bitpos =
     (let lo = le_word (take 8 (drop (bitpos div 8) inp));
          shift = bitpos mod 8;
          v = drop_bit shift lo;
          v' = (if shift + width > 64
                then v OR push_bit (64 - shift) (ucast (inp ! (bitpos div 8 + 8))) else v)
      in v' AND field_mask width)"

definition bitunpack_nfast :: "nat \<Rightarrow> nat \<Rightarrow> nat" where
  "bitunpack_nfast n width =
     (let nbytes = ((n * width + 7) div 8) mod 2 ^ 32
      in if nbytes \<ge> 9
         then let maxIdx = (8 * (nbytes - 9)) div width
              in if maxIdx + 1 < n then maxIdx + 1 else n
         else 0)"

definition bitunpack :: "byte list \<Rightarrow> nat \<Rightarrow> nat \<Rightarrow> u64 list result" where
  "bitunpack inp n width =
     (if width > 64 then Inl (Corrupt ''bit width out of range'')
      else if width = 0 then Inr (replicate n 0)
      else if (n * width + 7) div 8 > length inp
      then Inl (Corrupt ''bit-packed body exceeds encoded length'')
      else let nFast = bitunpack_nfast n width;
               (bitpos, out) = fold (\<lambda>i (bitpos, out).
                   (bitpos + width, out @ [wide_load inp width bitpos])) [0..<nFast] (0, []);
               (bitpos', out') = fold (\<lambda>i (bitpos, out).
                   (bitpos + width, out @ [gather_bits inp width bitpos])) [nFast..<n] (bitpos, out)
           in Inr out')"

definition zigzag :: "u64 \<Rightarrow> u64" where
  "zigzag x = push_bit 1 x XOR signed_drop_bit 63 x"

definition unzigzag :: "u64 \<Rightarrow> u64" where
  "unzigzag z = drop_bit 1 z XOR - (z AND 1)"

text \<open>The pre-rewrite loops the source keeps as an oracle.\<close>

definition ref_bitunpack :: "byte list \<Rightarrow> nat \<Rightarrow> nat \<Rightarrow> u64 list" where
  "ref_bitunpack inp n width =
     (if width = 0 then replicate n 0
      else snd (fold (\<lambda>i (bitpos, out). (bitpos + width, out @ [gather_bits inp width bitpos]))
             [0..<n] (0, [])))"

definition ref_put_field :: "nat \<Rightarrow> u64 \<Rightarrow> nat \<Rightarrow> byte list \<Rightarrow> byte list" where
  "ref_put_field width v bitpos buf =
     fold (\<lambda>b buf. if bit v b
              then buf[(bitpos + b) div 8 :=
                     buf ! ((bitpos + b) div 8) OR push_bit ((bitpos + b) mod 8) 1]
              else buf) [0..<width] buf"

definition ref_bitpack :: "u64 list \<Rightarrow> nat \<Rightarrow> byte list" where
  "ref_bitpack vals width =
     (if width = 0 \<or> vals = [] then []
      else let nbytes = ((length vals * width + 7) div 8) mod 2 ^ 32
           in snd (fold (\<lambda>v (bitpos, buf). (bitpos + width, ref_put_field width v bitpos buf))
                   vals (0, replicate nbytes 0)))"

subsection \<open>Masks and the width of a field\<close>

lemma bit_field_mask [bit_views]: "width \<le> 64 \<Longrightarrow> bit (field_mask width) i \<longleftrightarrow> i < width"
proof -
  assume w: "width \<le> 64"
  have "push_bit width 1 - 1 = (mask width :: u64)"
    by (simp add: mask_eq_exp_minus_1 push_bit_eq_mult)
  with w show ?thesis
    by (cases "i < 64") (auto simp: field_mask_def bit_simps dest: bit_imp_le_length)
qed

lemma and_field_mask: "width \<le> 64 \<Longrightarrow> v AND field_mask width = take_bit width v"
  by (rule bit_word_eqI) (auto simp: bit_views bit_simps)

lemma bits_needed_loop_bounds:
  "\<exists>k. bits_needed_loop n m = n + k \<and> unat m < 2 ^ k \<and> (k > 0 \<longrightarrow> 2 ^ (k - 1) \<le> unat m)"
proof (induction n m rule: bits_needed_loop.induct)
  case (1 n m)
  show ?case
  proof (cases "m > 0")
    case True
    with "1" obtain k where k: "bits_needed_loop (n + 1) (drop_bit 1 m) = n + 1 + k"
      "unat m div 2 < 2 ^ k" "k > 0 \<longrightarrow> 2 ^ (k - 1) \<le> unat m div 2"
      unfolding One_nat_def unat_shiftr_1 by blast
    have "bits_needed_loop n m = n + Suc k"
      using True k(1) by (subst bits_needed_loop.simps) simp
    moreover have "unat m < 2 ^ Suc k" using k(2) by simp
    moreover have "2 ^ k \<le> unat m"
      using k(3) True by (cases k) (auto simp: word_gt_0 unat_gt_0 Suc_le_eq)
    ultimately show ?thesis by (intro exI[of _ "Suc k"]) simp
  next
    case False
    then show ?thesis by (subst bits_needed_loop.simps) (simp add: word_gt_0)
  qed
qed

lemma bits_needed_upper: "unat m < 2 ^ bits_needed m"
  and bits_needed_lower: "bits_needed m > 0 \<Longrightarrow> 2 ^ (bits_needed m - 1) \<le> unat m"
  using bits_needed_loop_bounds[of 0 m] by (auto simp: bits_needed_def)

lemma bits_needed_le_64: "bits_needed m \<le> 64"
proof (rule ccontr)
  assume "\<not> bits_needed m \<le> 64"
  then have "2 ^ (bits_needed m - 1) \<le> unat m" and "64 \<le> bits_needed m - 1"
    by (simp_all only: bits_needed_lower)
  moreover have "unat m < 2 ^ 64" using unsigned_less[of m] by simp
  moreover have "(2::nat) ^ 64 \<le> 2 ^ (bits_needed m - 1)"
    using \<open>64 \<le> bits_needed m - 1\<close> by (rule power_increasing) simp
  ultimately show False by linarith
qed

lemma take_bit_bits_needed: "v \<le> m \<Longrightarrow> take_bit (bits_needed m) v = v"
proof -
  assume "v \<le> m"
  then have "unat v < 2 ^ bits_needed m"
    using bits_needed_upper[of m] by (simp add: word_le_nat_alt)
  then show ?thesis
    by (simp add: word_unat_eq_iff unsigned_take_bit_eq take_bit_nat_eq_self)
qed

subsection \<open>Writers: the field contract and the packed buffer\<close>

text \<open>
  The contract of a routine that ORs one field into a zeroed buffer: it keeps the length
  and adds exactly the low \<open>w\<close> bits of the value at the given bit position. A loop over
  such a routine determines every bit of the buffer.
\<close>

locale field_writer =
  fixes put :: "nat \<Rightarrow> u64 \<Rightarrow> nat \<Rightarrow> byte list \<Rightarrow> byte list"
  assumes put_length: "length (put w v pos buf) = length buf"
    and put_bits: "0 < w \<Longrightarrow> w \<le> 64 \<Longrightarrow> length buf < 2 ^ 32 \<Longrightarrow> pos + w \<le> 8 * length buf \<Longrightarrow>
      bufbit (put w v pos buf) p \<longleftrightarrow> bufbit buf p \<or> pos \<le> p \<and> p < pos + w \<and> bit v (p - pos)"
begin

lemma put_all_length:
  "length (snd (fold (\<lambda>v (pos, buf). (pos + w, put w v pos buf)) vals (pos, buf))) = length buf"
  by (induction vals arbitrary: pos buf) (auto simp: put_length)

lemma put_all_bits:
  assumes "0 < w" "w \<le> 64" "length buf < 2 ^ 32" "pos + length vals * w \<le> 8 * length buf"
  shows "bufbit (snd (fold (\<lambda>v (pos, buf). (pos + w, put w v pos buf)) vals (pos, buf))) p \<longleftrightarrow>
    bufbit buf p \<or> pos \<le> p \<and> p < pos + length vals * w
      \<and> bit (vals ! ((p - pos) div w)) ((p - pos) mod w)"
  using assms(3,4)
proof (induction vals arbitrary: pos buf)
  case Nil
  then show ?case by auto
next
  case (Cons v vals)
  have fit: "pos + w \<le> 8 * length buf" "pos + w + length vals * w \<le> 8 * length buf"
    using Cons.prems by (auto simp: algebra_simps)
  have later: "pos + w \<le> p \<Longrightarrow> (p - pos) div w = Suc ((p - (pos + w)) div w)
      \<and> (p - pos) mod w = (p - (pos + w)) mod w"
    using assms(1) by (simp add: div_if[of "p - pos"] mod_if[of "p - pos"])
  have first: "pos \<le> p \<Longrightarrow> p < pos + w \<Longrightarrow> (p - pos) div w = 0 \<and> (p - pos) mod w = p - pos"
    by simp
  have "bufbit (put w v pos buf) p \<longleftrightarrow> bufbit buf p \<or> pos \<le> p \<and> p < pos + w \<and> bit v (p - pos)"
    using put_bits assms(1,2) Cons.prems(1) fit(1) by blast
  with Cons.IH[of "put w v pos buf" "pos + w"] Cons.prems fit(2) later first show ?case
    by (cases "p < pos + w") (auto simp: put_length)
qed

end

lemma fold_or_length:
  "length (fold (\<lambda>k b. b[bp + k := b ! (bp + k) OR f k]) ks buf) = length (buf :: byte list)"
  by (induction ks arbitrary: buf) auto

lemma fold_or_bits:
  fixes buf :: "byte list"
  assumes "bp + nb \<le> length buf"
  shows "bufbit (fold (\<lambda>k b. b[bp + k := b ! (bp + k) OR f k]) [0..<nb] buf) p \<longleftrightarrow>
    bufbit buf p \<or> bp \<le> p div 8 \<and> p div 8 < bp + nb \<and> bit (f (p div 8 - bp)) (p mod 8)"
  using assms
proof (induction nb)
  case 0
  then show ?case by auto
next
  case (Suc nb)
  define b where "b = fold (\<lambda>k b. b[bp + k := b ! (bp + k) OR f k]) [0..<nb] buf"
  have len: "length b = length buf" unfolding b_def by (rule fold_or_length)
  have "bufbit (b[bp + nb := b ! (bp + nb) OR f nb]) p \<longleftrightarrow>
      bufbit b p \<or> p div 8 = bp + nb \<and> bit (f nb) (p mod 8)"
    using Suc.prems len by (auto simp: bufbit_def nth_list_update bit_simps)
  with Suc show ?case by (auto simp: b_def less_Suc_eq)
qed

lemma bit_pack_byte:
  assumes "off < 8" "k \<le> 8" "j < 8"
  shows "bit (pack_byte (push_bit off v) (if off \<noteq> 0 then drop_bit (64 - off) v else 0) k) j \<longleftrightarrow>
    off \<le> 8 * k + j \<and> bit v (8 * k + j - off)"
proof (cases "k < 8")
  case True
  with assms show ?thesis by (auto simp: pack_byte_def bit_simps)
next
  case False
  with assms have "k = 8" by simp
  with assms show ?thesis
    by (auto simp: pack_byte_def bit_simps algebra_simps dest: bit_imp_le_length)
qed

lemma bitpack_field_bits:
  assumes w: "0 < width" "width \<le> 64" and len: "length buf < 2 ^ 32"
    and fit: "pos + width \<le> 8 * length buf"
  shows "bufbit (bitpack_field width (v AND field_mask width) pos buf) p \<longleftrightarrow>
    bufbit buf p \<or> pos \<le> p \<and> p < pos + width \<and> bit v (p - pos)"
proof -
  let ?v = "v AND field_mask width"
  define nb where "nb = (pos mod 8 + width + 7) div 8"
  have nb9: "nb \<le> 9" using w unfolding nb_def by linarith
  have bp: "(pos div 8) mod 2 ^ 32 = pos div 8" using len fit w by simp
  have "8 * nb \<le> pos mod 8 + width + 7" and pos: "8 * (pos div 8) + pos mod 8 = pos"
    by (simp_all add: nb_def)
  with fit have rng: "pos div 8 + nb \<le> length buf" by linarith
  have "pos mod 8 + width \<le> 8 * nb" unfolding nb_def by linarith
  then have cov: "p < pos + width \<Longrightarrow> p div 8 < pos div 8 + nb"
    using div8_window[of p "pos div 8" "pos mod 8" width nb] pos by simp
  have "bufbit (bitpack_field width ?v pos buf) p \<longleftrightarrow> bufbit buf p \<or> pos div 8 \<le> p div 8 \<and>
     p div 8 < pos div 8 + nb \<and> bit (pack_byte (push_bit (pos mod 8) ?v)
       (if pos mod 8 \<noteq> 0 then drop_bit (64 - pos mod 8) ?v else 0) (p div 8 - pos div 8)) (p mod 8)"
    unfolding bitpack_field_def Let_def bp nb_def[symmetric] by (rule fold_or_bits[OF rng])
  also have "\<dots> \<longleftrightarrow> bufbit buf p \<or> pos \<le> p \<and> p < pos + width \<and> bit v (p - pos)"
  proof (cases "pos div 8 \<le> p div 8 \<and> p div 8 < pos div 8 + nb")
    case True
    then have k: "p div 8 - pos div 8 \<le> 8" using nb9 by linarith
    have at: "8 * (p div 8 - pos div 8) + p mod 8 - pos mod 8 = p - pos"
      and le: "pos mod 8 \<le> 8 * (p div 8 - pos div 8) + p mod 8 \<longleftrightarrow> pos \<le> p"
      using True byte_distance(1)[of "pos div 8" "p div 8" "p mod 8" "pos mod 8"]
        byte_distance(2)[of "pos div 8" "p div 8" "pos mod 8" "p mod 8"] by simp_all
    show ?thesis
      using True w bit_pack_byte[OF _ k, of "pos mod 8" "p mod 8" ?v]
      by (auto simp: at le bit_and_iff bit_field_mask)
  next
    case False
    moreover have "pos \<le> p \<Longrightarrow> pos div 8 \<le> p div 8" by (rule div_le_mono)
    ultimately show ?thesis using cov by auto
  qed
  finally show ?thesis .
qed

interpretation packer: field_writer "\<lambda>w v. bitpack_field w (v AND field_mask w)"
proof unfold_locales
  fix w v pos and buf :: "byte list"
  show "length (bitpack_field w (v AND field_mask w) pos buf) = length buf"
    by (simp add: bitpack_field_def Let_def fold_or_length)
qed (rule bitpack_field_bits)

lemma ref_put_field_length: "length (ref_put_field w v pos buf) = length buf"
proof -
  have "length (fold (\<lambda>b buf. if bit v b then buf[(pos + b) div 8 :=
      buf ! ((pos + b) div 8) OR push_bit ((pos + b) mod 8) 1] else buf) bs buf) = length buf"
    for bs by (induction bs arbitrary: buf) auto
  then show ?thesis by (simp add: ref_put_field_def)
qed

lemma ref_put_field_bits:
  assumes "pos + w \<le> 8 * length buf"
  shows "bufbit (ref_put_field w v pos buf) p \<longleftrightarrow>
    bufbit buf p \<or> pos \<le> p \<and> p < pos + w \<and> bit v (p - pos)"
  using assms
proof (induction w)
  case 0
  then show ?case by (auto simp: ref_put_field_def)
next
  case (Suc w)
  define b where "b = ref_put_field w v pos buf"
  have len: "length b = length buf" unfolding b_def by (rule ref_put_field_length)
  have step: "ref_put_field (Suc w) v pos buf = (if bit v w
      then b[(pos + w) div 8 := b ! ((pos + w) div 8) OR push_bit ((pos + w) mod 8) 1] else b)"
    by (simp add: ref_put_field_def b_def)
  have in_range: "(pos + w) div 8 < length b" using Suc.prems len by linarith
  have "bufbit (b[(pos + w) div 8 := b ! ((pos + w) div 8) OR push_bit ((pos + w) mod 8) 1]) p
      \<longleftrightarrow> bufbit b p \<or> p = pos + w"
  proof -
    have "p = pos + w \<longleftrightarrow> p div 8 = (pos + w) div 8 \<and> p mod 8 = (pos + w) mod 8"
      by (metis div_mult_mod_eq)
    with in_range show ?thesis
      by (auto simp: bufbit_def nth_list_update bit_simps)
  qed
  with Suc show ?case by (auto simp: step b_def[symmetric] less_Suc_eq)
qed

interpretation ref_packer: field_writer ref_put_field
  by unfold_locales (simp_all add: ref_put_field_length ref_put_field_bits)

subsection \<open>The packed buffer\<close>

text \<open>
  \<open>pack_fits\<close> says that the number of packed bytes is a \<open>uint32\<close>, the type the source
  keeps it in. Every caller has it: the packed body is no longer than the raw stream,
  whose length is a \<open>uint32\<close>.
\<close>

definition pack_fits :: "nat \<Rightarrow> nat \<Rightarrow> bool" where
  "pack_fits n width \<longleftrightarrow> (n * width + 7) div 8 < 2 ^ 32"

lemma pack_fitsI: "width \<le> 8 * w \<Longrightarrow> n * w < 2 ^ 32 \<Longrightarrow> pack_fits n width"
proof -
  assume a: "width \<le> 8 * w" "n * w < 2 ^ 32"
  have "n * width \<le> n * (8 * w)" using a(1) by (rule mult_le_mono2)
  then have "n * width \<le> 8 * (n * w)" by (simp add: algebra_simps)
  with a(2) show ?thesis unfolding pack_fits_def by linarith
qed

lemma pack_bytes_cover: "n \<le> 8 * ((n + 7) div (8::nat))"
  by linarith

lemma length_bitpack:
  assumes "pack_fits (length vals) width"
  shows "length (bitpack vals width) = (length vals * width + 7) div 8"
  using assms
  by (auto simp: bitpack_def Let_def packer.put_all_length pack_fits_def)

lemma bufbit_bitpack [bit_views]:
  assumes "width \<le> 64" and "pack_fits (length vals) width"
  shows "bufbit (bitpack vals width) p \<longleftrightarrow>
    p < length vals * width \<and> bit (vals ! (p div width)) (p mod width)"
proof (cases "width = 0 \<or> vals = []")
  case True
  then show ?thesis by (auto simp: bitpack_def)
next
  case False
  let ?nb = "(length vals * width + 7) div 8"
  have "?nb mod 2 ^ 32 = ?nb" using assms(2) by (simp add: pack_fits_def)
  moreover have "0 + length vals * width \<le> 8 * length (replicate ?nb 0)"
    using pack_bytes_cover[of "length vals * width"] by simp
  ultimately show ?thesis
    using False assms packer.put_all_bits[of width "replicate ?nb 0" 0 vals p]
    by (simp add: bitpack_def pack_fits_def)
qed

lemma bufbit_ref_bitpack:
  assumes "width \<le> 64" and "pack_fits (length vals) width"
  shows "bufbit (ref_bitpack vals width) p \<longleftrightarrow>
    p < length vals * width \<and> bit (vals ! (p div width)) (p mod width)"
proof (cases "width = 0 \<or> vals = []")
  case True
  then show ?thesis by (auto simp: ref_bitpack_def)
next
  case False
  let ?nb = "(length vals * width + 7) div 8"
  have "?nb mod 2 ^ 32 = ?nb" using assms(2) by (simp add: pack_fits_def)
  moreover have "0 + length vals * width \<le> 8 * length (replicate ?nb 0)"
    using pack_bytes_cover[of "length vals * width"] by simp
  ultimately show ?thesis
    using False assms ref_packer.put_all_bits[of width "replicate ?nb 0" 0 vals p]
    by (simp add: ref_bitpack_def pack_fits_def)
qed

lemma length_ref_bitpack:
  assumes "pack_fits (length vals) width"
  shows "length (ref_bitpack vals width) = (length vals * width + 7) div 8"
  using assms
  by (auto simp: ref_bitpack_def Let_def ref_packer.put_all_length pack_fits_def)

lemma bitpack_eq_reference:
  assumes "width \<le> 64" and "pack_fits (length vals) width"
  shows "bitpack vals width = ref_bitpack vals width"
  using assms
  by (intro byte_list_eqI)
     (simp_all add: bufbit_bitpack bufbit_ref_bitpack length_bitpack length_ref_bitpack)

subsection \<open>Readers: the field contract\<close>

lemma bit_gather_loop:
  assumes "width \<le> 64"
  shows "bit (fold (\<lambda>b v. if P b then v OR push_bit b 1 else v) [0..<width] (v0 :: u64)) j \<longleftrightarrow>
    bit v0 j \<or> j < width \<and> P j"
  using assms
proof (induction width)
  case 0
  then show ?case by simp
next
  case (Suc width)
  then show ?case by (auto simp: bit_simps less_Suc_eq)
qed

lemma bit_gather_bits [bit_views]:
  assumes "width \<le> 64" and "pos + width \<le> 8 * length inp"
  shows "bit (gather_bits inp width pos) j \<longleftrightarrow> j < width \<and> bufbit inp (pos + j)"
proof -
  have "j < width \<Longrightarrow> (pos + j) div 8 < length inp" using assms(2) by linarith
  then show ?thesis
    using assms(1) by (auto simp: gather_bits_def bit_gather_loop bufbit_def)
qed

lemma bit_wide_load:
  assumes "width \<le> 64" and "pos div 8 + 9 \<le> length inp"
  shows "bit (wide_load inp width pos) j \<longleftrightarrow> j < width \<and> bufbit inp (pos + j)"
proof -
  define q r where "q = pos div 8" and "r = pos mod 8"
  have pos: "pos = 8 * q + r" and r: "r < 8" by (simp_all add: q_def r_def)
  have lo: "bit (drop_bit r (le_word (take 8 (drop q inp)))) j \<longleftrightarrow> r + j < 64 \<and> bufbit inp (pos + j)"
    by (auto simp: bit_views bit_simps bufbit_take bufbit_drop pos algebra_simps)
  have hi: "bit (push_bit (64 - r) (ucast (inp ! (q + 8))) :: u64) j \<longleftrightarrow>
      64 \<le> r + j \<and> j < 64 \<and> bufbit inp (pos + j)" if "r + width > 64"
  proof -
    have at: "(pos + j) div 8 = q + 8 \<and> (pos + j) mod 8 = j + r - 64" if "64 \<le> r + j" "j < 64"
    proof -
      have "pos + j = 8 * (q + 8) + (j + r - 64)" using that by (simp add: pos)
      moreover have "j + r - 64 < 8" using r that by linarith
      ultimately show ?thesis by (rule div8_mod8)
    qed
    have "bit (push_bit (64 - r) (ucast (inp ! (q + 8))) :: u64) j \<longleftrightarrow>
        64 \<le> r + j \<and> j < 64 \<and> bit (inp ! (q + 8)) (j + r - 64)"
      using r by (auto simp: bit_simps algebra_simps)
    with at assms(2) show ?thesis by (auto simp: bufbit_def q_def)
  qed
  show ?thesis
    using assms(1) lo hi
    by (auto simp: wide_load_def Let_def bit_or_iff bit_and_iff bit_field_mask
        q_def[symmetric] r_def[symmetric])
qed

lemma wide_load_eq_gather:
  assumes "0 < width" "width \<le> 64" and "pos div 8 + 9 \<le> length inp" and "pos + width \<le> 8 * length inp"
  shows "wide_load inp width pos = gather_bits inp width pos"
  using assms by (intro bit_word_eqI) (simp add: bit_wide_load bit_gather_bits)

lemma bitunpack_nfast_le: "bitunpack_nfast n width \<le> n"
  by (simp add: bitunpack_nfast_def Let_def)

lemma bitunpack_nfast_window:
  assumes "0 < width" and "i < bitunpack_nfast n width"
  shows "(i * width) div 8 + 9 \<le> (n * width + 7) div 8"
proof -
  define nb where "nb = ((n * width + 7) div 8) mod 2 ^ 32"
  from assms(2) have nb: "nb \<ge> 9" and i: "i \<le> (8 * (nb - 9)) div width"
    by (auto simp: bitunpack_nfast_def Let_def nb_def split: if_splits)
  have "i * width \<le> (8 * (nb - 9)) div width * width" using i by (rule mult_le_mono1)
  also have "\<dots> \<le> 8 * (nb - 9)" by simp
  finally have "(i * width) div 8 + 9 \<le> nb" using nb by linarith
  also have "nb \<le> (n * width + 7) div 8" by (simp add: nb_def)
  finally show ?thesis .
qed

lemma field_in_body:
  fixes i n width len :: nat
  assumes "i < n" and "(n * width + 7) div 8 \<le> len"
  shows "i * width + width \<le> 8 * len"
proof -
  have "Suc i * width \<le> n * width" using assms(1) by (intro mult_le_mono1) simp
  with assms(2) show ?thesis by simp
qed

lemma bitunpack_ok:
  assumes "width \<le> 64" and "(n * width + 7) div 8 \<le> length inp"
  shows "bitunpack inp n width = Inr (map (\<lambda>i. gather_bits inp width (i * width)) [0..<n])"
proof (cases "width = 0")
  case True
  then show ?thesis by (simp add: bitunpack_def gather_bits_def map_replicate_const)
next
  case False
  let ?k = "bitunpack_nfast n width"
  have fast: "map (\<lambda>i. wide_load inp width (i * width)) [0..<?k] =
      map (\<lambda>i. gather_bits inp width (i * width)) [0..<?k]"
  proof (rule map_cong[OF refl])
    fix i assume "i \<in> set [0..<?k]"
    then have "i < ?k" by simp
    moreover from this have "i < n" using bitunpack_nfast_le[of n width] by simp
    ultimately show "wide_load inp width (i * width) = gather_bits inp width (i * width)"
      using False assms bitunpack_nfast_window[of width i n] field_in_body[of i n width]
      by (intro wide_load_eq_gather) auto
  qed
  have split: "[0..<n] = [0..<?k] @ [?k..<n]"
    using upt_add_eq_append[of 0 ?k "n - ?k"] bitunpack_nfast_le[of n width] by simp
  have tail: "map (\<lambda>i. gather_bits inp width (?k * width + i * width)) [0..<n - ?k] =
      map (\<lambda>i. gather_bits inp width (i * width)) [?k..<n]"
    by (rule list_eq_nthI) (auto simp: algebra_simps)
  have "bitunpack inp n width = Inr (map (\<lambda>i. wide_load inp width (i * width)) [0..<?k] @
      map (\<lambda>i. gather_bits inp width (?k * width + i * width)) [0..<n - ?k])"
    using False assms by (simp add: bitunpack_def fold_emit Let_def)
  then show ?thesis by (simp only: fast tail split map_append)
qed

lemma ref_bitunpack_eq:
  "ref_bitunpack inp n width = map (\<lambda>i. gather_bits inp width (i * width)) [0..<n]"
  by (simp add: ref_bitunpack_def fold_emit map_replicate_const gather_bits_def)

subsection \<open>Round trips\<close>

lemma gather_bits_bitpack:
  assumes "0 < width" "width \<le> 64" and "pack_fits (length vals) width" and "i < length vals"
  shows "gather_bits (bitpack vals width @ rest) width (i * width) = take_bit width (vals ! i)"
proof (rule bit_word_eqI)
  fix j assume "j < LENGTH(64)"
  have in_body: "i * width + width \<le> 8 * length (bitpack vals width)"
    using assms by (simp add: length_bitpack field_in_body)
  then have cover: "i * width + width \<le> 8 * length (bitpack vals width @ rest)" by simp
  have "bufbit (bitpack vals width @ rest) (i * width + j) \<longleftrightarrow> bit (vals ! i) j" if "j < width"
  proof -
    have "Suc i * width \<le> length vals * width" using assms(4) by (intro mult_le_mono1) simp
    then have lt: "i * width + j < length vals * width" using that by simp
    have "i * width + j < 8 * length (bitpack vals width)" using in_body that by linarith
    moreover have "(i * width + j) div width = i" "(i * width + j) mod width = j"
      using that assms(1) by simp_all
    ultimately show ?thesis
      using lt by (simp add: bufbit_append bufbit_bitpack[OF assms(2,3)])
  qed
  then show "bit (gather_bits (bitpack vals width @ rest) width (i * width)) j =
      bit (take_bit width (vals ! i)) j"
    using assms(2) by (auto simp: bit_gather_bits[OF assms(2) cover] bit_take_bit_iff)
qed

lemma bitunpack_bitpack:
  assumes "width \<le> 64" and "pack_fits (length vals) width" and "n = length vals"
    and "\<And>v. v \<in> set vals \<Longrightarrow> take_bit width v = v"
  shows "bitunpack (bitpack vals width @ rest) n width = Inr vals"
proof -
  have "bitunpack (bitpack vals width @ rest) n width =
      Inr (map (\<lambda>i. gather_bits (bitpack vals width @ rest) width (i * width)) [0..<n])"
    using assms(1-3) by (intro bitunpack_ok) (simp_all add: length_bitpack)
  also have "map (\<lambda>i. gather_bits (bitpack vals width @ rest) width (i * width)) [0..<n] = vals"
  proof (rule list_eq_nthI)
    fix i assume "i < length (map (\<lambda>i. gather_bits (bitpack vals width @ rest) width (i * width)) [0..<n])"
    then have i: "i < length vals" using assms(3) by simp
    with assms(4) have self: "take_bit width (vals ! i) = vals ! i" by simp
    show "map (\<lambda>i. gather_bits (bitpack vals width @ rest) width (i * width)) [0..<n] ! i = vals ! i"
    proof (cases "width = 0")
      case True
      with self i show ?thesis by (simp add: gather_bits_def assms(3))
    next
      case False
      with i self show ?thesis by (simp add: gather_bits_bitpack assms)
    qed
  qed (simp add: assms(3))
  finally show ?thesis .
qed

lemma bit_signed_drop_bit_63: "bit (signed_drop_bit 63 (x :: u64)) j \<longleftrightarrow> j < 64 \<and> bit x 63"
proof -
  have "bit (signed_drop_bit 63 x) j \<longleftrightarrow> j < 64 \<and> bit x (if 64 - 63 \<le> j then 63 else 63 + j)"
    by (auto simp: bit_signed_drop_bit_iff dest: bit_imp_le_length)
  then show ?thesis by (cases j) auto
qed

lemma bit_zigzag: "bit (zigzag x) j \<longleftrightarrow> j < 64 \<and> ((j > 0 \<and> bit x (j - 1)) \<noteq> bit x 63)"
  by (auto simp: zigzag_def bit_xor_iff bit_push_bit_iff bit_signed_drop_bit_63
      simp del: push_bit_Suc)

lemma unzigzag_zigzag [simp]: "unzigzag (zigzag x) = x"
proof -
  have low: "zigzag x AND 1 = (if bit x 63 then 1 else 0)"
    by (rule bit_word_eqI) (auto simp: bit_zigzag bit_and_iff bit_1_iff)
  show ?thesis
  proof (rule bit_word_eqI)
    fix j assume "j < LENGTH(64)"
    then have j: "j < 64" by simp
    then have "j = 63 \<or> j < 63" by linarith
    with j show "bit (unzigzag (zigzag x)) j = bit x j"
      by (auto simp: unzigzag_def low bit_xor_iff bit_drop_bit_eq bit_zigzag)
  qed
qed

lemma load_store_uint: "w \<le> 8 \<Longrightarrow> length p \<ge> w \<Longrightarrow> store_uint (load_uint p w) w = take w p"
  by (simp add: load_uint_def store_uint_def byte_simps)

lemma load_uint_store_uint: "load_uint (store_uint v w @ rest) w = take_bit (8 * w) v"
  by (simp add: load_uint_def store_uint_def byte_simps)

lemma length_load_vals [simp]: "length (load_vals raw w n) = n"
  by (simp add: load_vals_def)

lemma load_vals_Suc: "load_vals raw w (Suc n) = load_uint raw w # load_vals (drop w raw) w n"
  by (simp add: load_vals_def map_upt_Suc algebra_simps del: upt_Suc)

lemma store_load_vals:
  "w \<le> 8 \<Longrightarrow> length raw = n * w \<Longrightarrow>
   concat (map (\<lambda>v. store_uint v w) (load_vals raw w n)) = raw"
proof (induction n arbitrary: raw)
  case 0
  then show ?case by (simp add: load_vals_def)
next
  case (Suc n)
  then have "concat (map (\<lambda>v. store_uint v w) (load_vals (drop w raw) w n)) = drop w raw"
    by (intro Suc.IH) simp_all
  with Suc.prems show ?case by (simp add: load_vals_Suc load_store_uint)
qed

lemma load_vals_take_bit: "v \<in> set (load_vals raw w n) \<Longrightarrow> take_bit (8 * w) v = v"
  by (auto simp: load_vals_def load_uint_def bit_eq_iff bit_simps bit_views bufbit_take)

subsection \<open>Properties\<close>

text \<open>
  C31: The word-at-a-time packer \<open>bitpack\<close> writes, for every field width from 0 to 64, exactly
  the bytes of the bit-by-bit packer it replaced, as long as the packed size fits the
  32-bit size the source computes.
\<close>

theorem bitpack_is_reference:
  assumes "width \<le> 64" and "pack_fits (length vals) width"
  shows "bitpack vals width = ref_bitpack vals width"
  using assms by (rule bitpack_eq_reference)

theorem bitpack_is_reference_witness:
  "pack_fits 3 5 \<and> bitpack [1, 2, 31] 5 = ref_bitpack [1, 2, 31] 5"
  using bitpack_is_reference[of 5 "[1, 2, 31]"] by (simp add: pack_fits_def)

text \<open>
  C32: Unpacking gives back what was packed: \<open>bitunpack\<close>, with its eight-byte fast path over
  the body and the bit-gathering tail, reads \<open>n\<close> values from the packed bytes (with
  anything after them) and returns exactly the packed values, when each value fits its
  width; and on any input long enough it returns what the bit-by-bit reader returns.
\<close>

theorem bitunpack_correct:
  assumes "width \<le> 64" and "pack_fits (length vals) width"
    and "\<And>v. v \<in> set vals \<Longrightarrow> take_bit width v = v"
    and "(n * width + 7) div 8 \<le> length inp"
  shows "bitunpack (bitpack vals width @ rest) (length vals) width = Inr vals \<and>
    bitunpack inp n width = Inr (ref_bitunpack inp n width)"
  using assms bitunpack_bitpack[of width vals "length vals" rest]
  by (simp add: bitunpack_ok ref_bitunpack_eq)

theorem bitunpack_correct_witness:
  "bitunpack (bitpack [1, 2, 31] 5 @ [7]) 3 5 = Inr [1, 2, 31] \<and>
   bitunpack [3, 4, 5] 4 6 = Inr (ref_bitunpack [3, 4, 5] 4 6)"
proof -
  have "take_bit 5 v = v" if "v \<in> set [1, 2, 31]" for v :: u64
    using that by (auto simp: take_bit_eq_mod)
  from bitunpack_correct[of 5 "[1, 2, 31]" 0 "[]" "[7]", OF _ _ this]
  have "bitunpack (bitpack [1, 2, 31] 5 @ [7]) 3 5 = Inr [1, 2, 31]"
    by (simp add: pack_fits_def numeral_3_eq_3)
  with bitunpack_correct[of 6 "[]" 4 "[3, 4, 5]" "[]"] show ?thesis by (simp add: pack_fits_def)
qed

end
