(* ===== verification/Encoding_Int.thy ===== *)
theory Encoding_Int
  imports Bitpack
begin

unbundle bit_operations_syntax

section \<open>Fixed-width encodings: RLE, FOR, DELTA and DOD\<close>

text \<open>
  The run-length, frame-of-reference, delta and delta-of-delta codecs of
  \<open>src/src/columnar_encoding.c\<close>. An encoder returns \<open>None\<close> where the source returns
  \<open>false\<close> (the encoding does not beat the raw size); a decoder returns \<open>Inl\<close> with the
  message of \<open>DECODE_CORRUPT\<close> where the source raises. \<open>raw\<close> is the value stream, so its
  length is the \<open>rawLen\<close> of the source. Signed 64-bit arithmetic wraps (PostgreSQL
  is compiled with \<open>-fwrapv\<close>), so the differences are word differences.
\<close>

subsection \<open>Definitions\<close>

definition val_at :: "byte list \<Rightarrow> nat \<Rightarrow> nat \<Rightarrow> byte list" where
  "val_at raw w i = take w (drop (i * w) raw)"

function rle_run :: "byte list \<Rightarrow> nat \<Rightarrow> nat \<Rightarrow> nat \<Rightarrow> nat \<Rightarrow> nat" where
  "rle_run raw w n i run =
     (if i + run < n \<and> val_at raw w (i + run) = val_at raw w i
      then rle_run raw w n i (run + 1) else run)"
  by pat_completeness auto
termination by (relation "measure (\<lambda>(raw, w, n, i, run). n - (i + run))") auto

declare rle_run.simps [simp del]

lemma rle_run_ge: "run \<le> rle_run raw w n i run"
proof (induction raw w n i run rule: rle_run.induct)
  case (1 raw w n i run)
  then show ?case by (subst rle_run.simps) auto
qed

function rle_loop :: "byte list \<Rightarrow> nat \<Rightarrow> nat \<Rightarrow> nat \<Rightarrow> byte list \<Rightarrow> byte list option" where
  "rle_loop raw w n i buf =
     (if i < n
      then let run = rle_run raw w n i 1;
               buf' = buf @ u32_bytes run @ val_at raw w i
           in if length buf' \<ge> length raw then None
              else rle_loop raw w n (i + run) buf'
      else Some buf)"
  by pat_completeness auto
termination
proof (relation "measure (\<lambda>(raw, w, n, i, buf). n - i)")
  fix raw w n i buf run x
  assume "i < n" "run = rle_run raw w n i 1"
  moreover have "1 \<le> rle_run raw w n i 1" by (rule rle_run_ge)
  ultimately show "((raw, w, n, i + run, x), raw, w, n, i, buf) \<in>
      measure (\<lambda>(raw, w, n, i, buf). n - i)" by simp
qed simp

declare rle_loop.simps [simp del]

definition encode_rle :: "byte list \<Rightarrow> nat \<Rightarrow> nat \<Rightarrow> byte list option" where
  "encode_rle raw w n = rle_loop raw w n 0 []"

fun rle_copy :: "nat \<Rightarrow> nat \<Rightarrow> nat \<Rightarrow> byte list \<Rightarrow> byte list" where
  "rle_copy 0 produced n val = []"
| "rle_copy (Suc run) produced n val =
     (if produced < n then val @ rle_copy run (produced + 1) n val else [])"

function rle_decode_loop ::
  "byte list \<Rightarrow> nat \<Rightarrow> nat \<Rightarrow> nat \<Rightarrow> byte list \<Rightarrow> byte list result" where
  "rle_decode_loop p w n produced out =
     (if produced < n
      then if length p < 4 then Inl (Corrupt ''RLE run header past encoded length'')
           else let run = u32_of p; p' = drop 4 p
                in if length p' < w then Inl (Corrupt ''RLE run value past encoded length'')
                   else rle_decode_loop (drop w p') w n (min n (produced + run))
                          (out @ rle_copy run produced n (take w p'))
      else Inr out)"
  by pat_completeness auto
termination
  by (relation "measure (\<lambda>(p, w, n, produced, out). length p)") auto

declare rle_decode_loop.simps [simp del]

definition decode_rle :: "byte list \<Rightarrow> nat \<Rightarrow> nat \<Rightarrow> byte list result" where
  "decode_rle enc w n = rle_decode_loop enc w n 0 []"

text \<open>The scans for the smallest value and for the largest offset or delta.\<close>

definition scan_min :: "u64 list \<Rightarrow> u64" where
  "scan_min vals = fold (\<lambda>v m. if v < m then v else m) (tl vals) (hd vals)"

definition scan_max :: "u64 list \<Rightarrow> u64" where
  "scan_max vals = fold (\<lambda>v m. if v > m then v else m) vals 0"

text \<open>The element widths every decoder of this group accepts.\<close>

definition valid_width :: "nat \<Rightarrow> bool" where
  "valid_width w \<longleftrightarrow> w = 1 \<or> w = 2 \<or> w = 4 \<or> w = 8"

definition beats_raw :: "byte list \<Rightarrow> byte list \<Rightarrow> byte list option" where
  "beats_raw raw buf = (if length buf \<ge> length raw then None else Some buf)"

definition encode_for :: "byte list \<Rightarrow> nat \<Rightarrow> nat \<Rightarrow> byte list option" where
  "encode_for raw w n =
     (let vals = load_vals raw w n;
          minv = scan_min vals;
          offs = map (\<lambda>v. v - minv) vals;
          width = bits_needed (scan_max offs)
      in beats_raw raw ([of_nat w, of_nat width] @ le_bytes 8 minv @ bitpack offs width))"

definition decode_for :: "byte list \<Rightarrow> nat \<Rightarrow> nat \<Rightarrow> byte list result" where
  "decode_for enc n rawLen =
     (if length enc < 10 then Inl (Corrupt ''FOR header truncated'')
      else let w = unat (enc ! 0); width = unat (enc ! 1)
      in if \<not> valid_width w then Inl (Corrupt ''FOR element width invalid'')
      else if n * w \<noteq> rawLen then Inl (Corrupt ''FOR raw length mismatch'')
      else let minv = le_word (take 8 (drop 2 enc))
      in case bitunpack (drop 10 enc) n width of
           Inl e \<Rightarrow> Inl e
         | Inr vals \<Rightarrow> Inr (concat (map (\<lambda>v. store_uint (v + minv) w) vals)))"

definition encode_delta :: "byte list \<Rightarrow> nat \<Rightarrow> nat \<Rightarrow> byte list option" where
  "encode_delta raw w n =
     (let vals = load_vals raw w n;
          base = vals ! 0;
          deltas = map (\<lambda>i. zigzag (vals ! i - vals ! (i - 1))) [1..<n];
          width = bits_needed (scan_max deltas)
      in beats_raw raw ([of_nat w, of_nat width] @ le_bytes 8 base
           @ (if n > 1 then bitpack deltas width else [])))"

definition delta_rebuild :: "u64 list \<Rightarrow> u64 \<Rightarrow> nat \<Rightarrow> nat \<Rightarrow> byte list" where
  "delta_rebuild deltas base w n =
     snd (fold (\<lambda>i (cur, out).
            let cur' = cur + unzigzag (deltas ! (i - 1))
            in (cur', out @ store_uint cur' w))
          [1..<n] (base, if n > 0 then store_uint base w else []))"

definition decode_delta :: "byte list \<Rightarrow> nat \<Rightarrow> nat \<Rightarrow> byte list result" where
  "decode_delta enc n rawLen =
     (if length enc < 10 then Inl (Corrupt ''DELTA header truncated'')
      else let w = unat (enc ! 0); width = unat (enc ! 1)
      in if \<not> valid_width w then Inl (Corrupt ''DELTA element width invalid'')
      else if n * w \<noteq> rawLen then Inl (Corrupt ''DELTA raw length mismatch'')
      else let base = le_word (take 8 (drop 2 enc))
      in case (if n > 1 then bitunpack (drop 10 enc) (n - 1) width else Inr []) of
           Inl e \<Rightarrow> Inl e
         | Inr deltas \<Rightarrow> Inr (delta_rebuild deltas base w n))"

definition encode_dod :: "byte list \<Rightarrow> nat \<Rightarrow> nat \<Rightarrow> byte list option" where
  "encode_dod raw w n =
     (let vals = load_vals raw w n;
          base = vals ! 0;
          firstDelta = (if n > 1 then vals ! 1 - vals ! 0 else 0);
          dods = map (\<lambda>i. zigzag ((vals ! i - vals ! (i - 1))
                                  - (vals ! (i - 1) - vals ! (i - 2)))) [2..<n];
          width = bits_needed (scan_max dods)
      in beats_raw raw ([of_nat w, of_nat width] @ le_bytes 8 base @ le_bytes 8 firstDelta
           @ (if n > 2 then bitpack dods width else [])))"

definition dod_rebuild :: "u64 list \<Rightarrow> u64 \<Rightarrow> u64 \<Rightarrow> nat \<Rightarrow> nat \<Rightarrow> byte list" where
  "dod_rebuild dods firstDelta base w n =
     snd (snd (fold (\<lambda>i (delta, cur, out).
            let delta' = (if i \<ge> 2 then delta + unzigzag (dods ! (i - 2)) else delta);
                cur' = cur + delta'
            in (delta', cur', out @ store_uint cur' w))
          [1..<n] (firstDelta, base, if n > 0 then store_uint base w else [])))"

definition decode_dod :: "byte list \<Rightarrow> nat \<Rightarrow> nat \<Rightarrow> byte list result" where
  "decode_dod enc n rawLen =
     (if length enc < 18 then Inl (Corrupt ''DOD header truncated'')
      else let w = unat (enc ! 0); width = unat (enc ! 1)
      in if \<not> valid_width w then Inl (Corrupt ''DOD element width invalid'')
      else if n * w \<noteq> rawLen then Inl (Corrupt ''DOD raw length mismatch'')
      else let base = le_word (take 8 (drop 2 enc));
               firstDelta = le_word (take 8 (drop 10 enc))
      in case (if n > 2 then bitunpack (drop 18 enc) (n - 2) width else Inr []) of
           Inl e \<Rightarrow> Inl e
         | Inr dods \<Rightarrow> Inr (dod_rebuild dods firstDelta base w n))"

text \<open>
  The packing encoders first \<open>palloc\<close> an array of \<open>n\<close> \<open>uint64\<close>, which raises an error
  above \<open>MaxAllocSize\<close>; \<open>alloc_ok\<close> says that this allocation succeeds.
\<close>

definition MaxAllocSize :: nat where
  "MaxAllocSize = 0x3fffffff"

definition alloc_ok :: "nat \<Rightarrow> bool" where
  "alloc_ok n \<longleftrightarrow> 8 * n \<le> MaxAllocSize"

lemma alloc_ok_pack_fits: "alloc_ok n \<Longrightarrow> width \<le> 64 \<Longrightarrow> m \<le> n \<Longrightarrow> pack_fits m width"
proof -
  assume a: "alloc_ok n" "width \<le> 64" "m \<le> n"
  have "m * width \<le> n * 64" using a(2,3) by (rule mult_le_mono[rotated])
  with a(1) show ?thesis by (simp add: alloc_ok_def MaxAllocSize_def pack_fits_def)
qed

subsection \<open>Run-length encoding\<close>

lemma rle_run_spec:
  assumes "i + run \<le> n" and "\<And>k. k < run \<Longrightarrow> val_at raw w (i + k) = val_at raw w i"
  shows "i + rle_run raw w n i run \<le> n \<and>
    (\<forall>k < rle_run raw w n i run. val_at raw w (i + k) = val_at raw w i)"
  using assms
proof (induction raw w n i run rule: rle_run.induct)
  case (1 raw w n i run)
  show ?case
  proof (cases "i + run < n \<and> val_at raw w (i + run) = val_at raw w i")
    case True
    then have "i + (run + 1) \<le> n" by simp
    moreover have "\<And>k. k < run + 1 \<Longrightarrow> val_at raw w (i + k) = val_at raw w i"
      using True "1.prems"(2) by (metis add.commute less_Suc_eq plus_1_eq_Suc)
    ultimately have "i + rle_run raw w n i (run + 1) \<le> n \<and>
        (\<forall>k < rle_run raw w n i (run + 1). val_at raw w (i + k) = val_at raw w i)"
      by (rule "1.IH"[OF True])
    moreover have "rle_run raw w n i run = rle_run raw w n i (run + 1)"
      by (subst rle_run.simps) (simp only: True simp_thms if_True)
    ultimately show ?thesis by metis
  next
    case False
    then have "rle_run raw w n i run = run"
      by (subst rle_run.simps) (simp only: simp_thms if_False)
    with "1.prems" show ?thesis by simp
  qed
qed

lemma val_at_append:
  assumes "(i + r) * w \<le> length raw"
  shows "concat (map (val_at raw w) [i..<i + r]) = take (r * w) (drop (i * w) raw)"
  using assms
proof (induction r)
  case 0
  then show ?case by simp
next
  case (Suc r)
  have "take (Suc r * w) (drop (i * w) raw) =
      take (r * w) (drop (i * w) raw) @ take w (drop (r * w) (drop (i * w) raw))"
    by (metis add.commute mult_Suc take_add)
  with Suc show ?case by (simp add: val_at_def algebra_simps)
qed

lemma rle_copy_eq:
  "produced + run \<le> n \<Longrightarrow> rle_copy run produced n val = concat (replicate run val)"
  by (induction run arbitrary: produced) auto

lemma run_bytes:
  assumes "(i + r) * w \<le> length raw"
    and "\<forall>k < r. val_at raw w (i + k) = val_at raw w i"
  shows "concat (replicate r (val_at raw w i)) = take (r * w) (drop (i * w) raw)"
proof -
  have "map (val_at raw w) [i..<i + r] = replicate r (val_at raw w i)"
    using assms(2) by (intro list_eq_nthI) auto
  with val_at_append[OF assms(1)] show ?thesis by metis
qed

lemma rle_loop_roundtrip:
  assumes "rle_loop raw w n i buf = Some res" and "i \<le> n" and "length raw = n * w" and "n < 2 ^ 32"
  shows "\<exists>tail. res = buf @ tail \<and>
    (\<forall>out. rle_decode_loop tail w n i out = Inr (out @ drop (i * w) raw))"
  using assms
proof (induction raw w n i buf rule: rle_loop.induct)
  case (1 raw w n i buf)
  show ?case
  proof (cases "i < n")
    case False
    with "1.prems" have "res = buf" and "i = n"
      by (auto simp: rle_loop.simps[of raw w n i buf])
    with "1.prems"(3) show ?thesis
      by (intro exI[of _ "[]"]) (simp add: rle_decode_loop.simps)
  next
    case True
    define run where "run = rle_run raw w n i 1"
    define v where "v = val_at raw w i"
    have run: "i + run \<le> n" "\<forall>k < run. val_at raw w (i + k) = v"
      using rle_run_spec[of i 1 n raw w] True by (auto simp: run_def v_def)
    have len_v: "length v = w"
    proof -
      have "Suc i * w \<le> n * w" using True by (intro mult_le_mono1) simp
      then show ?thesis using "1.prems"(3) by (simp add: v_def val_at_def)
    qed
    have rec: "rle_loop raw w n (i + run) (buf @ u32_bytes run @ v) = Some res"
      using "1.prems"(1) True
      by (simp add: rle_loop.simps[of raw w n i buf] run_def v_def Let_def split: if_splits)
    moreover have "\<not> length raw \<le> length (buf @ u32_bytes run @ v)"
      using "1.prems"(1) True
      by (simp add: rle_loop.simps[of raw w n i buf] run_def v_def Let_def split: if_splits)
    ultimately obtain tail where tail: "res = (buf @ u32_bytes run @ v) @ tail"
        "\<And>out. rle_decode_loop tail w n (i + run) out = Inr (out @ drop ((i + run) * w) raw)"
      using "1.IH"[OF True run_def] run(1) "1.prems" by (auto simp: v_def)
    have "(i + run) * w \<le> length raw" using run(1) "1.prems"(3) by (simp add: mult_le_mono1)
    then have bytes: "concat (replicate run v) = take (run * w) (drop (i * w) raw)"
      using run_bytes run(2) unfolding v_def by blast
    have "rle_decode_loop (u32_bytes run @ v @ tail) w n i out = Inr (out @ drop (i * w) raw)" for out
    proof -
      have "run < 2 ^ 32" using run(1) "1.prems"(4) by linarith
      then have "rle_decode_loop (u32_bytes run @ v @ tail) w n i out =
          rle_decode_loop tail w n (i + run) (out @ concat (replicate run v))"
        using True run(1)
        by (subst rle_decode_loop.simps) (simp add: len_v rle_copy_eq)
      also have "\<dots> = Inr (out @ take (run * w) (drop (i * w) raw) @ drop (run * w) (drop (i * w) raw))"
        by (simp add: tail(2) bytes algebra_simps)
      finally show ?thesis by (simp only: append_take_drop_id)
    qed
    with tail(1) show ?thesis by (intro exI[of _ "u32_bytes run @ v @ tail"]) simp
  qed
qed

lemma decode_encode_rle:
  assumes "encode_rle raw w n = Some enc" and "length raw = n * w" and "n < 2 ^ 32"
  shows "decode_rle enc w n = Inr raw"
  using rle_loop_roundtrip[OF assms(1)[unfolded encode_rle_def] _ assms(2,3)]
  by (auto simp: decode_rle_def)

subsection \<open>Frame of reference, delta and delta of delta\<close>

lemma fold_max_ge: "v \<in> set vs \<or> v \<le> m \<Longrightarrow> v \<le> fold (\<lambda>v m. if v > m then v else m) vs (m :: u64)"
proof (induction vs arbitrary: m)
  case Nil
  then show ?case by simp
next
  case (Cons x vs)
  have "v \<in> set vs \<or> v \<le> (if x > m then x else m)"
    using Cons.prems by auto
  then show ?case using Cons.IH by simp
qed

lemma scan_max_ge: "v \<in> set vs \<Longrightarrow> v \<le> scan_max vs"
  unfolding scan_max_def by (rule fold_max_ge) simp

lemma take_bit_scan: "v \<in> set vs \<Longrightarrow> take_bit (bits_needed (scan_max vs)) v = v"
  by (intro take_bit_bits_needed scan_max_ge)

lemma packed_roundtrip:
  assumes "alloc_ok n" and "length vs \<le> n"
  shows "bitunpack (bitpack vs (bits_needed (scan_max vs)) @ rest) (length vs)
           (bits_needed (scan_max vs)) = Inr vs"
  using assms
  by (intro bitunpack_bitpack)
     (auto simp: bits_needed_le_64 take_bit_scan intro: alloc_ok_pack_fits)

lemma packed_roundtrip':
  assumes "alloc_ok n" and "length vs = m" and "m \<le> n"
  shows "bitunpack (bitpack vs (bits_needed (scan_max vs))) m (bits_needed (scan_max vs)) = Inr vs"
  using packed_roundtrip[of n vs "[]"] assms by simp

lemma unat_of_nat_width: "unat (of_nat (bits_needed m) :: byte) = bits_needed m"
  using bits_needed_le_64[of m] by simp

lemma valid_width_cases: "valid_width w \<Longrightarrow> w \<le> 8 \<and> 0 < w"
  by (auto simp: valid_width_def)

lemma unat_valid_width: "valid_width w \<Longrightarrow> unat (of_nat w :: byte) = w"
  by (auto simp: valid_width_def)

lemma beats_raw_Some: "beats_raw raw buf = Some enc \<longleftrightarrow> enc = buf \<and> length buf < length raw"
  by (auto simp: beats_raw_def)

lemma drop_header10: "drop 10 (a # b # le_bytes 8 m @ rest) = rest"
  by simp

lemma drop_header18: "drop 18 (a # b # le_bytes 8 m @ le_bytes 8 d @ rest) = rest"
  by simp

lemma take_header8: "take 8 (drop 2 (a # b # le_bytes 8 m @ rest)) = le_bytes 8 m"
  by simp

lemma take_header8': "take 8 (drop 10 (a # b # le_bytes 8 m @ le_bytes 8 d @ rest)) = le_bytes 8 d"
  by simp

lemmas headers = drop_header10 drop_header18 take_header8 take_header8'

lemma decode_encode_for:
  assumes enc: "encode_for raw w n = Some enc" and w: "valid_width w"
    and len: "length raw = n * w" and alloc: "alloc_ok n"
  shows "decode_for enc n (length raw) = Inr raw"
proof -
  define vals where "vals = load_vals raw w n"
  define minv where "minv = scan_min vals"
  define offs where "offs = map (\<lambda>v. v - minv) vals"
  define width where "width = bits_needed (scan_max offs)"
  have enc': "enc = of_nat w # of_nat width # le_bytes 8 minv @ bitpack offs width"
    using enc by (simp add: encode_for_def Let_def beats_raw_Some vals_def minv_def offs_def width_def)
  have "bitunpack (bitpack offs width) n width = Inr offs"
    unfolding width_def by (rule packed_roundtrip'[OF alloc]) (simp_all add: offs_def vals_def)
  then have "decode_for enc n (length raw) = Inr (concat (map (\<lambda>v. store_uint (v + minv) w) offs))"
    using w by (simp add: decode_for_def enc' headers Let_def len unat_valid_width width_def
        unat_of_nat_width)
  also have "map (\<lambda>v. store_uint (v + minv) w) offs = map (\<lambda>v. store_uint v w) vals"
    by (simp add: offs_def)
  finally show ?thesis
    using store_load_vals[of w raw n] valid_width_cases[OF w] len by (simp add: vals_def)
qed

lemma delta_loop:
  assumes "k < length vals" and "\<And>i. 0 < i \<Longrightarrow> i \<le> k \<Longrightarrow> unzigzag (deltas ! (i - 1)) = vals ! i - vals ! (i - 1)"
  shows "fold (\<lambda>i (cur, out). let cur' = cur + unzigzag (deltas ! (i - 1))
           in (cur', out @ store_uint cur' w)) [1..<Suc k] (vals ! 0, store_uint (vals ! 0) w)
    = (vals ! k, concat (map (\<lambda>v. store_uint v w) (take (Suc k) vals)))"
  using assms
proof (induction k)
  case 0
  then show ?case by (cases vals) auto
next
  case (Suc k)
  from Suc.prems(2)[of "Suc k"] have "vals ! k + unzigzag (deltas ! k) = vals ! Suc k" by simp
  moreover have "[1..<Suc (Suc k)] = [1..<Suc k] @ [Suc k]" by simp
  ultimately show ?case
    using Suc by (simp add: take_Suc_conv_app_nth Let_def del: upt_Suc)
qed

lemma delta_rebuild_eq:
  assumes "0 < length vals" and "deltas = map (\<lambda>i. zigzag (vals ! i - vals ! (i - 1))) [1..<length vals]"
  shows "delta_rebuild deltas (vals ! 0) w (length vals) = concat (map (\<lambda>v. store_uint v w) vals)"
proof -
  obtain k where k: "length vals = Suc k" using assms(1) by (cases "length vals") auto
  have "unzigzag (deltas ! (i - 1)) = vals ! i - vals ! (i - 1)" if "0 < i" "i \<le> k" for i
    using that k nth_upt[of 1 "i - 1" "Suc k"] by (simp add: assms(2) del: upt_Suc)
  then show ?thesis
    using delta_loop[of k vals deltas w] k by (simp add: delta_rebuild_def del: upt_Suc)
qed

lemma decode_encode_delta:
  assumes enc: "encode_delta raw w n = Some enc" and w: "valid_width w"
    and len: "length raw = n * w" and n: "0 < n" and alloc: "alloc_ok n"
  shows "decode_delta enc n (length raw) = Inr raw"
proof -
  define vals where "vals = load_vals raw w n"
  define deltas where "deltas = map (\<lambda>i. zigzag (vals ! i - vals ! (i - 1))) [1..<n]"
  define width where "width = bits_needed (scan_max deltas)"
  have enc': "enc = of_nat w # of_nat width # le_bytes 8 (vals ! 0)
      @ (if n > 1 then bitpack deltas width else [])"
    using enc by (simp add: encode_delta_def Let_def beats_raw_Some vals_def deltas_def width_def)
  have unp: "bitunpack (bitpack deltas width) (n - 1) width = Inr deltas"
    unfolding width_def by (rule packed_roundtrip'[OF alloc]) (simp_all add: deltas_def)
  have "\<not> n > 1 \<Longrightarrow> deltas = []" by (simp add: deltas_def)
  with unp w have "decode_delta enc n (length raw) = Inr (delta_rebuild deltas (vals ! 0) w n)"
    by (simp add: decode_delta_def enc' headers len unat_valid_width
        unat_of_nat_width[of "scan_max deltas", folded width_def])
  also have "delta_rebuild deltas (vals ! 0) w n = concat (map (\<lambda>v. store_uint v w) vals)"
    using delta_rebuild_eq[of vals deltas w] n by (simp add: vals_def deltas_def)
  finally show ?thesis
    using store_load_vals[of w raw n] valid_width_cases[OF w] len by (simp add: vals_def)
qed

lemma dod_loop:
  assumes "k < length vals"
    and "\<And>i. i + 2 \<le> k \<Longrightarrow> unzigzag (dods ! i) =
      (vals ! (i + 2) - vals ! (i + 1)) - (vals ! (i + 1) - vals ! i)"
    and "k > 0 \<Longrightarrow> fd = vals ! 1 - vals ! 0"
  shows "fold (\<lambda>i (delta, cur, out).
           let delta' = (if i \<ge> 2 then delta + unzigzag (dods ! (i - 2)) else delta);
               cur' = cur + delta' in (delta', cur', out @ store_uint cur' w))
           [1..<Suc k] (fd, vals ! 0, store_uint (vals ! 0) w)
    = (if k = 0 then fd else vals ! k - vals ! (k - 1), vals ! k,
       concat (map (\<lambda>v. store_uint v w) (take (Suc k) vals)))"
  using assms
proof (induction k)
  case 0
  then show ?case by (cases vals) auto
next
  case (Suc k)
  show ?case
  proof (cases k)
    case 0
    with Suc.prems show ?thesis by (cases vals) (auto simp: take_Suc_conv_app_nth Let_def)
  next
    case (Suc j)
    with Suc.prems(2)[of j] have "vals ! k - vals ! j + unzigzag (dods ! j) = vals ! Suc k - vals ! k"
      by simp
    moreover have "[1..<Suc (Suc k)] = [1..<Suc k] @ [Suc k]" by simp
    ultimately show ?thesis
      using Suc.IH Suc.prems Suc by (simp add: take_Suc_conv_app_nth Let_def del: upt_Suc)
  qed
qed

lemma dod_rebuild_eq:
  assumes "0 < length vals"
    and "dods = map (\<lambda>i. zigzag ((vals ! i - vals ! (i - 1)) - (vals ! (i - 1) - vals ! (i - 2))))
      [2..<length vals]"
    and "fd = (if length vals > 1 then vals ! 1 - vals ! 0 else 0)"
  shows "dod_rebuild dods fd (vals ! 0) w (length vals) = concat (map (\<lambda>v. store_uint v w) vals)"
proof -
  obtain k where k: "length vals = Suc k" using assms(1) by (cases "length vals") auto
  have "unzigzag (dods ! i) = (vals ! (i + 2) - vals ! (i + 1)) - (vals ! (i + 1) - vals ! i)"
    if "i + 2 \<le> k" for i
    using that k nth_upt[of 2 i "Suc k"] by (simp add: assms(2) del: upt_Suc)
  then show ?thesis
    using dod_loop[of k vals dods fd w] k assms(3) by (simp add: dod_rebuild_def del: upt_Suc)
qed

lemma decode_encode_dod:
  assumes enc: "encode_dod raw w n = Some enc" and w: "valid_width w"
    and len: "length raw = n * w" and n: "0 < n" and alloc: "alloc_ok n"
  shows "decode_dod enc n (length raw) = Inr raw"
proof -
  define vals where "vals = load_vals raw w n"
  define fd where "fd = (if n > 1 then vals ! 1 - vals ! 0 else 0)"
  define dods where "dods = map (\<lambda>i. zigzag ((vals ! i - vals ! (i - 1))
      - (vals ! (i - 1) - vals ! (i - 2)))) [2..<n]"
  define width where "width = bits_needed (scan_max dods)"
  have enc': "enc = of_nat w # of_nat width # le_bytes 8 (vals ! 0) @ le_bytes 8 fd
      @ (if n > 2 then bitpack dods width else [])"
    using enc
    by (simp add: encode_dod_def Let_def beats_raw_Some vals_def dods_def width_def fd_def)
  have unp: "bitunpack (bitpack dods width) (n - 2) width = Inr dods"
    unfolding width_def by (rule packed_roundtrip'[OF alloc]) (simp_all add: dods_def)
  have "\<not> n > 2 \<Longrightarrow> dods = []" by (simp add: dods_def)
  with unp w have "decode_dod enc n (length raw) = Inr (dod_rebuild dods fd (vals ! 0) w n)"
    by (simp add: decode_dod_def enc' headers len unat_valid_width
        unat_of_nat_width[of "scan_max dods", folded width_def])
  also have "dod_rebuild dods fd (vals ! 0) w n = concat (map (\<lambda>v. store_uint v w) vals)"
    using dod_rebuild_eq[of vals dods fd w] n by (simp add: vals_def dods_def fd_def)
  finally show ?thesis
    using store_load_vals[of w raw n] valid_width_cases[OF w] len by (simp add: vals_def)
qed

subsection \<open>Properties\<close>

text \<open>
  Run-length decoding inverts run-length encoding: whenever \<open>encode_rle\<close> finds the
  encoded form shorter than the raw values, \<open>decode_rle\<close> returns the raw bytes exactly,
  for values of any width.
\<close>

lemma rle_roundtrip:
  assumes "encode_rle raw w n = Some enc" and "length raw = n * w" and "n < 2 ^ 32"
  shows "decode_rle enc w n = Inr raw"
  using assms by (rule decode_encode_rle)

text \<open>
  Frame-of-reference decoding inverts its encoding: for integers of 1, 2, 4 or 8 bytes
  the decoder rebuilds every value from the minimum and the packed offsets, wrap-around
  of the 64-bit arithmetic included.
\<close>

lemma for_roundtrip:
  assumes "encode_for raw w n = Some enc" and "valid_width w"
    and "length raw = n * w" and "alloc_ok n"
  shows "decode_for enc n (length raw) = Inr raw"
  using assms by (rule decode_encode_for)

text \<open>
  Delta decoding inverts delta encoding: the running sum of the zigzagged differences
  rebuilds the values, whatever the differences wrap to.
\<close>

lemma delta_roundtrip:
  assumes "encode_delta raw w n = Some enc" and "valid_width w"
    and "length raw = n * w" and "0 < n" and "alloc_ok n"
  shows "decode_delta enc n (length raw) = Inr raw"
  using assms by (rule decode_encode_delta)

text \<open>
  Delta-of-delta decoding inverts its encoding: first value, first difference and the
  zigzagged second differences rebuild the values.
\<close>

lemma dod_roundtrip:
  assumes "encode_dod raw w n = Some enc" and "valid_width w"
    and "length raw = n * w" and "0 < n" and "alloc_ok n"
  shows "decode_dod enc n (length raw) = Inr raw"
  using assms by (rule decode_encode_dod)

end
