(* ===== verification/Bitstream.thy ===== *)
theory Bitstream
  imports Encoding_Int
begin

unbundle bit_operations_syntax

section \<open>The bit writer and the bit reader\<close>

text \<open>
  The streaming \<open>BitWriter\<close> and \<open>BitReader\<close> of \<open>src/src/columnar_encoding.c\<close>, the
  per-bit reference writer \<open>ref_bw_put\<close>, the zero counts \<open>clz_in\<close> and \<open>ctz_in\<close> with
  their reference loops. A writer is abstracted to the list of bits it has written; a reader consumes a prefix of that
  list. \<open>pg_leftmost_one_pos64\<close> and \<open>pg_rightmost_one_pos64\<close> belong to PostgreSQL: they
  are the fields of a \<open>bitutils\<close> argument, with their documented behaviour as the
  hypothesis \<open>bitutils_ok\<close>.
\<close>

subsection \<open>Definitions\<close>

record bitwriter =
  bw_buf :: "byte list"
  bw_cur :: byte
  bw_nbits :: nat

definition bw_init :: bitwriter where
  "bw_init = \<lparr>bw_buf = [], bw_cur = 0, bw_nbits = 0\<rparr>"

fun bw_drain :: "u64 \<Rightarrow> nat \<Rightarrow> byte list \<Rightarrow> u64 \<times> nat \<times> byte list" where
  "bw_drain acc have_bits buf =
     (if have_bits \<ge> 8
      then bw_drain (drop_bit 8 acc) (have_bits - 8) (buf @ [ucast (acc AND 0xff)])
      else (acc, have_bits, buf))"

declare bw_drain.simps [simp del]

function bw_put_loop :: "bitwriter \<Rightarrow> u64 \<Rightarrow> nat \<Rightarrow> bitwriter" where
  "bw_put_loop bw v bits =
     (if bits > 0
      then let tk = (if bits < 57 then bits else 57);
               chunk = v AND (push_bit tk 1 - 1);
               acc = ucast (bw_cur bw) OR push_bit (bw_nbits bw) chunk;
               (acc', have_bits, buf) = bw_drain acc (bw_nbits bw + tk) (bw_buf bw)
           in bw_put_loop \<lparr>bw_buf = buf, bw_cur = ucast (acc' AND 0xff), bw_nbits = have_bits\<rparr>
                (drop_bit tk v) (bits - tk)
      else bw)"
  by pat_completeness auto
termination by (relation "measure (\<lambda>(bw, v, bits). bits)") (auto split: if_splits)

declare bw_put_loop.simps [simp del]

definition bw_put :: "bitwriter \<Rightarrow> u64 \<Rightarrow> nat \<Rightarrow> bitwriter" where
  "bw_put bw v bits =
     (if bits = 0 then bw
      else bw_put_loop bw (if bits < 64 then v AND (push_bit bits 1 - 1) else v) bits)"

definition bw_flush :: "bitwriter \<Rightarrow> bitwriter" where
  "bw_flush bw =
     (if bw_nbits bw > 0
      then \<lparr>bw_buf = bw_buf bw @ [bw_cur bw], bw_cur = 0, bw_nbits = 0\<rparr> else bw)"

definition ref_bw_bit :: "bool \<Rightarrow> bitwriter \<Rightarrow> bitwriter" where
  "ref_bw_bit b bw =
     (let cur = (if b then bw_cur bw OR push_bit (bw_nbits bw) 1 else bw_cur bw);
          nbits = bw_nbits bw + 1
      in if nbits = 8 then \<lparr>bw_buf = bw_buf bw @ [cur], bw_cur = 0, bw_nbits = 0\<rparr>
         else bw\<lparr>bw_cur := cur, bw_nbits := nbits\<rparr>)"

definition ref_bw_put :: "bitwriter \<Rightarrow> u64 \<Rightarrow> nat \<Rightarrow> bitwriter" where
  "ref_bw_put bw v bits = fold (\<lambda>i. ref_bw_bit (bit v i)) [0..<bits] bw"

record bitreader =
  br_data :: "byte list"
  br_nbits :: nat
  br_bitpos :: nat

definition br_init :: "byte list \<Rightarrow> bitreader" where
  "br_init data = \<lparr>br_data = data, br_nbits = length data * 8, br_bitpos = 0\<rparr>"

definition br_get :: "bitreader \<Rightarrow> nat \<Rightarrow> (u64 \<times> bitreader) result" where
  "br_get br bits =
     (if bits > 64 then Inl (Corrupt ''bit field width out of range'')
      else if br_bitpos br + bits > br_nbits br
      then Inl (Corrupt ''bit reader ran past encoded length'')
      else Inr (gather_bits (br_data br) bits (br_bitpos br),
                br\<lparr>br_bitpos := br_bitpos br + bits\<rparr>))"

record bitutils =
  leftmost_one_pos64 :: "u64 \<Rightarrow> nat"
  rightmost_one_pos64 :: "u64 \<Rightarrow> nat"

text \<open>
  The documented behaviour of PostgreSQL's bit scans, for a nonzero word: the position of
  the most, respectively the least significant set bit.
\<close>

definition bitutils_ok :: "bitutils \<Rightarrow> bool" where
  "bitutils_ok B \<longleftrightarrow> (\<forall>x. x \<noteq> 0 \<longrightarrow>
     bit x (leftmost_one_pos64 B x) \<and> (\<forall>j > leftmost_one_pos64 B x. \<not> bit x j) \<and>
     bit x (rightmost_one_pos64 B x) \<and> (\<forall>j < rightmost_one_pos64 B x. \<not> bit x j))"

definition clz_in :: "bitutils \<Rightarrow> u64 \<Rightarrow> nat \<Rightarrow> nat" where
  "clz_in B x tot = (if x = 0 then tot else (tot - 1) - leftmost_one_pos64 B x)"

definition ctz_in :: "bitutils \<Rightarrow> u64 \<Rightarrow> nat" where
  "ctz_in B x = (if x = 0 then 0 else rightmost_one_pos64 B x)"

function ref_clz_loop :: "u64 \<Rightarrow> nat \<Rightarrow> nat \<Rightarrow> nat" where
  "ref_clz_loop x tot n =
     (if n < tot \<and> \<not> bit x (tot - 1 - n) then ref_clz_loop x tot (n + 1) else n)"
  by pat_completeness auto
termination by (relation "measure (\<lambda>(x, tot, n). tot - n)") auto

declare ref_clz_loop.simps [simp del]

definition ref_clz_in :: "u64 \<Rightarrow> nat \<Rightarrow> nat" where
  "ref_clz_in x tot = ref_clz_loop x tot 0"

function ref_ctz_loop :: "u64 \<Rightarrow> nat \<Rightarrow> nat" where
  "ref_ctz_loop x n = (if n < 64 \<and> \<not> bit x n then ref_ctz_loop x (n + 1) else n)"
  by pat_completeness auto
termination by (relation "measure (\<lambda>(x, n). 64 - n)") auto

declare ref_ctz_loop.simps [simp del]

definition ref_ctz_in :: "u64 \<Rightarrow> nat" where
  "ref_ctz_in x = ref_ctz_loop x 0"

subsection \<open>The writer as a list of bits\<close>

definition bytes_bits :: "byte list \<Rightarrow> bool list" where
  "bytes_bits bs = concat (map (\<lambda>b. map (bit b) [0..<8]) bs)"

definition word_bits :: "u64 \<Rightarrow> nat \<Rightarrow> bool list" where
  "word_bits v k = map (bit v) [0..<k]"

definition bw_bits :: "bitwriter \<Rightarrow> bool list" where
  "bw_bits bw = bytes_bits (bw_buf bw) @ map (bit (bw_cur bw)) [0..<bw_nbits bw]"

definition bw_ok :: "bitwriter \<Rightarrow> bool" where
  "bw_ok bw \<longleftrightarrow> bw_nbits bw < 8 \<and> (\<forall>j. bit (bw_cur bw) j \<longrightarrow> j < bw_nbits bw)"

lemma length_word_bits [simp]: "length (word_bits v k) = k"
  by (simp add: word_bits_def)

lemma bytes_bits_append [simp]: "bytes_bits (xs @ ys) = bytes_bits xs @ bytes_bits ys"
  by (simp add: bytes_bits_def)

lemma bytes_bits_Cons: "bytes_bits (b # bs) = map (bit b) [0..<8] @ bytes_bits bs"
  by (simp add: bytes_bits_def)

lemma bytes_bits_Nil [simp]: "bytes_bits [] = []"
  by (simp add: bytes_bits_def)

lemma length_bytes_bits [simp]: "length (bytes_bits bs) = 8 * length bs"
  by (induction bs) (simp_all add: bytes_bits_Cons)

lemma bytes_bits_nth: "p < 8 * length bs \<Longrightarrow> bytes_bits bs ! p = bufbit bs p"
  by (induction bs arbitrary: p) (auto simp: bytes_bits_Cons nth_append bufbit_Cons)

lemma map_upt_append:
  fixes a b :: nat
  shows "map f [0..<a + b] = map f [0..<a] @ map (\<lambda>i. f (a + i)) [0..<b]"
  by (rule list_eq_nthI) (auto simp: nth_append)

lemma word_bits_split:
  "word_bits v (a + b) = word_bits v a @ word_bits (drop_bit a v) b"
  by (simp add: word_bits_def map_upt_append bit_drop_bit_eq)

lemma bit_low_byte: "bit (ucast (acc AND 0xff) :: byte) j \<longleftrightarrow> j < 8 \<and> bit (acc :: u64) j"
proof -
  have "acc AND 0xff = take_bit 8 acc" by (simp add: take_bit_eq_mask mask_numeral)
  then show ?thesis by (simp only: bit_unsigned_iff bit_take_bit_iff) auto
qed

lemma and_shift_mask: "v AND (push_bit tk 1 - 1) = take_bit tk (v :: u64)"
proof -
  have "push_bit tk 1 - 1 = (mask tk :: u64)"
    by (simp add: mask_eq_exp_minus_1 push_bit_eq_mult)
  then show ?thesis by (simp only: take_bit_eq_mask)
qed

lemma bw_drain_bits:
  assumes "\<forall>j. bit acc j \<longrightarrow> j < hv" and "bw_drain acc hv buf = (acc', hv', buf')"
  shows "hv' < 8 \<and> (\<forall>j. bit acc' j \<longrightarrow> j < hv') \<and>
    bytes_bits buf' @ word_bits acc' hv' = bytes_bits buf @ word_bits acc hv"
  using assms
proof (induction acc hv buf rule: bw_drain.induct)
  case (1 acc hv buf)
  show ?case
  proof (cases "hv \<ge> 8")
    case True
    have "bw_drain (drop_bit 8 acc) (hv - 8) (buf @ [ucast (acc AND 0xff)]) = (acc', hv', buf')"
      using "1.prems"(2) True by (simp add: bw_drain.simps[of acc hv buf])
    moreover have "\<forall>j. bit (drop_bit 8 acc) j \<longrightarrow> j < hv - 8"
      using "1.prems"(1) by (auto simp: bit_drop_bit_eq less_diff_conv add.commute)
    moreover have "map (bit (ucast (acc AND 0xff) :: byte)) [0..<8] = word_bits acc 8"
      by (rule list_eq_nthI) (auto simp: word_bits_def bit_low_byte)
    moreover have "word_bits acc hv = word_bits acc 8 @ word_bits (drop_bit 8 acc) (hv - 8)"
      using word_bits_split[of acc 8 "hv - 8"] True by simp
    ultimately show ?thesis using "1.IH"[OF True] by (simp add: bytes_bits_Cons)
  next
    case False
    with "1.prems" show ?thesis by (simp add: bw_drain.simps[of acc hv buf])
  qed
qed

lemma bw_put_loop_bits:
  assumes "bw_ok bw" and "bits \<le> 64"
  shows "bw_ok (bw_put_loop bw v bits) \<and> bw_bits (bw_put_loop bw v bits) = bw_bits bw @ word_bits v bits"
  using assms
proof (induction bits arbitrary: bw v rule: less_induct)
  case (less bits)
  show ?case
  proof (cases "bits > 0")
    case False
    with less.prems show ?thesis by (simp add: bw_put_loop.simps[of bw v 0] word_bits_def)
  next
    case True
    define tk where "tk = (if bits < 57 then bits else 57)"
    define acc where "acc = ucast (bw_cur bw) OR push_bit (bw_nbits bw) (v AND (push_bit tk 1 - 1))"
    obtain acc' hv' buf' where dr: "bw_drain acc (bw_nbits bw + tk) (bw_buf bw) = (acc', hv', buf')"
      by (metis prod_cases3)
    define bw' where "bw' = \<lparr>bw_buf = buf', bw_cur = ucast (acc' AND 0xff), bw_nbits = hv'\<rparr>"
    have ok: "bw_nbits bw < 8" "\<And>j. bit (bw_cur bw) j \<Longrightarrow> j < bw_nbits bw"
      using less.prems(1) by (auto simp: bw_ok_def)
    have tk: "tk \<le> 57" "tk \<le> bits" by (auto simp: tk_def)
    have acc_bit: "bit acc j \<longleftrightarrow> bit (bw_cur bw) j \<or>
        bw_nbits bw \<le> j \<and> j < bw_nbits bw + tk \<and> bit v (j - bw_nbits bw)" for j
      using ok tk by (auto simp: acc_def and_shift_mask bit_simps simp del: push_bit_of_1 dest: bit_imp_le_length)
    have acc_lt: "\<forall>j. bit acc j \<longrightarrow> j < bw_nbits bw + tk"
      using ok by (auto simp: acc_bit trans_less_add1)
    have acc_bits: "word_bits acc (bw_nbits bw + tk) =
        map (bit (bw_cur bw)) [0..<bw_nbits bw] @ word_bits v tk"
      using ok by (auto simp: word_bits_def map_upt_append acc_bit)
    have d: "hv' < 8" "\<forall>j. bit acc' j \<longrightarrow> j < hv'"
        "bytes_bits buf' @ word_bits acc' hv' = bytes_bits (bw_buf bw) @ word_bits acc (bw_nbits bw + tk)"
      using bw_drain_bits[OF acc_lt dr] by auto
    have cur: "bit (ucast (acc' AND 0xff) :: byte) j \<longleftrightarrow> bit acc' j" for j
      using d(1,2) by (auto simp: bit_low_byte)
    have "bw_ok bw'" using d by (simp add: bw_ok_def bw'_def cur)
    moreover have "bw_bits bw' = bw_bits bw @ word_bits v tk"
    proof -
      have "map (bit (ucast (acc' AND 0xff) :: byte)) [0..<hv'] = word_bits acc' hv'"
        by (simp add: word_bits_def cur)
      then show ?thesis using d(3) acc_bits by (simp add: bw_bits_def bw'_def)
    qed
    moreover have "bw_put_loop bw v bits = bw_put_loop bw' (drop_bit tk v) (bits - tk)"
      using True dr
      by (simp add: bw_put_loop.simps[of bw v bits] Let_def tk_def acc_def bw'_def)
    moreover have "word_bits v bits = word_bits v tk @ word_bits (drop_bit tk v) (bits - tk)"
      using word_bits_split[of v tk "bits - tk"] tk by simp
    moreover have "bw_ok (bw_put_loop bw' (drop_bit tk v) (bits - tk)) \<and>
        bw_bits (bw_put_loop bw' (drop_bit tk v) (bits - tk)) =
        bw_bits bw' @ word_bits (drop_bit tk v) (bits - tk)"
      using True less.prems(2) \<open>bw_ok bw'\<close> by (intro less.IH) (auto simp: tk_def)
    ultimately show ?thesis by simp
  qed
qed

lemma bw_put_bits:
  assumes "bw_ok bw" and "bits \<le> 64"
  shows "bw_ok (bw_put bw v bits)" and "bw_bits (bw_put bw v bits) = bw_bits bw @ word_bits v bits"
proof -
  have "word_bits (if bits < 64 then v AND (push_bit bits 1 - 1) else v) bits = word_bits v bits"
    unfolding and_shift_mask by (auto simp: word_bits_def bit_simps)
  then show "bw_ok (bw_put bw v bits)" "bw_bits (bw_put bw v bits) = bw_bits bw @ word_bits v bits"
    using bw_put_loop_bits[OF assms] assms by (auto simp: bw_put_def word_bits_def)
qed

lemma bw_init_ok [simp]: "bw_ok bw_init" "bw_bits bw_init = []"
  by (simp_all add: bw_ok_def bw_bits_def bw_init_def)

lemma bw_flush_bits:
  assumes "bw_ok bw"
  shows "\<exists>pad. bytes_bits (bw_buf (bw_flush bw)) = bw_bits bw @ pad"
proof (cases "bw_nbits bw > 0")
  case True
  have "map (bit (bw_cur bw)) [0..<8] = map (bit (bw_cur bw)) [0..<bw_nbits bw] @
      map (\<lambda>i. bit (bw_cur bw) (bw_nbits bw + i)) [0..<8 - bw_nbits bw]"
    using map_upt_append[of "bit (bw_cur bw)" "bw_nbits bw" "8 - bw_nbits bw"] assms
    by (simp add: bw_ok_def)
  with True show ?thesis
    by (simp add: bw_flush_def bw_bits_def bytes_bits_Cons)
next
  case False
  then show ?thesis by (simp add: bw_flush_def bw_bits_def)
qed

text \<open>A well-formed writer is determined by its bits, so the reference writer is the same.\<close>

lemma bw_eqI:
  assumes "bw_ok a" "bw_ok b" and "bw_bits a = bw_bits b"
  shows "a = b"
proof -
  have "8 * length (bw_buf a) + bw_nbits a = 8 * length (bw_buf b) + bw_nbits b"
    using arg_cong[OF assms(3), of length] by (simp add: bw_bits_def)
  moreover have "bw_nbits a < 8" "bw_nbits b < 8" using assms(1,2) by (auto simp: bw_ok_def)
  ultimately have len: "length (bw_buf a) = length (bw_buf b)" "bw_nbits a = bw_nbits b"
    by presburger+
  with assms(3) have bb: "bytes_bits (bw_buf a) = bytes_bits (bw_buf b)"
    and cc: "map (bit (bw_cur a)) [0..<bw_nbits a] = map (bit (bw_cur b)) [0..<bw_nbits a]"
    by (simp_all add: bw_bits_def del: map_eq_conv)
  have "bw_buf a = bw_buf b"
    by (rule byte_list_eqI) (use bb len in \<open>simp_all flip: bytes_bits_nth\<close>)
  moreover have "bw_cur a = bw_cur b"
  proof (rule bit_word_eqI)
    fix j assume "j < LENGTH(8)"
    show "bit (bw_cur a) j = bit (bw_cur b) j"
      using cc assms(1,2) len(2) by (cases "j < bw_nbits a") (auto simp: bw_ok_def)
  qed
  ultimately show ?thesis using len by simp
qed

lemma ref_bw_bit_bits:
  assumes "bw_ok bw"
  shows "bw_ok (ref_bw_bit b bw) \<and> bw_bits (ref_bw_bit b bw) = bw_bits bw @ [b]"
proof -
  let ?k = "bw_nbits bw"
  let ?cur = "if b then bw_cur bw OR push_bit ?k 1 else bw_cur bw"
  have k: "?k < 8" and clear: "\<And>j. bit (bw_cur bw) j \<Longrightarrow> j < ?k"
    using assms by (auto simp: bw_ok_def)
  have bit: "bit ?cur j \<longleftrightarrow> bit (bw_cur bw) j \<or> b \<and> j = ?k" for j
    using k by (auto simp: bit_simps)
  have new: "map (bit ?cur) [0..<Suc ?k] = map (bit (bw_cur bw)) [0..<?k] @ [b]"
    using clear[of ?k] by (auto simp: bit)
  show ?thesis
  proof (cases "Suc ?k = 8")
    case True
    with new have "map (bit ?cur) [0..<8] = map (bit (bw_cur bw)) [0..<?k] @ [b]" by metis
    with True show ?thesis
      by (simp add: ref_bw_bit_def Let_def bw_ok_def bw_bits_def bytes_bits_Cons del: map_append)
  next
    case False
    with k clear have "bw_ok (ref_bw_bit b bw)"
      by (auto simp: ref_bw_bit_def Let_def bw_ok_def bit_simps less_Suc_eq split: if_splits)
    moreover have "bw_bits (ref_bw_bit b bw) = bytes_bits (bw_buf bw) @ map (bit ?cur) [0..<Suc ?k]"
      using False by (simp add: ref_bw_bit_def Let_def bw_bits_def)
    ultimately show ?thesis using new by (simp add: bw_bits_def)
  qed
qed

lemma ref_bw_put_bits:
  assumes "bw_ok bw"
  shows "bw_ok (ref_bw_put bw v bits) \<and> bw_bits (ref_bw_put bw v bits) = bw_bits bw @ word_bits v bits"
proof (induction bits)
  case 0
  with assms show ?case by (simp add: ref_bw_put_def word_bits_def)
next
  case (Suc bits)
  then show ?case using ref_bw_bit_bits by (simp add: ref_bw_put_def word_bits_def)
qed

lemma bw_put_eq_reference:
  assumes "bw_ok bw" and "bits \<le> 64"
  shows "bw_put bw v bits = ref_bw_put bw v bits"
  using bw_put_bits[OF assms] ref_bw_put_bits[OF assms(1)] by (intro bw_eqI) auto

subsection \<open>The reader consumes the bits a writer wrote\<close>

definition br_rest :: "bitreader \<Rightarrow> bool list" where
  "br_rest br = drop (br_bitpos br) (bytes_bits (br_data br))"

definition br_ok :: "bitreader \<Rightarrow> bool" where
  "br_ok br \<longleftrightarrow> br_nbits br = 8 * length (br_data br) \<and> br_bitpos br \<le> br_nbits br"

lemma br_init_ok [simp]: "br_ok (br_init data)" "br_rest (br_init data) = bytes_bits data"
  by (simp_all add: br_ok_def br_rest_def br_init_def)

lemma br_get_bits:
  assumes "br_ok br" and "br_rest br = word_bits v k @ rest" and "k \<le> 64"
  obtains br' where "br_get br k = Inr (take_bit k v, br')" "br_ok br'" "br_rest br' = rest"
proof -
  let ?p = "br_bitpos br" and ?d = "br_data br"
  let ?br = "br\<lparr>br_bitpos := ?p + k\<rparr>"
  have le: "?p + k \<le> 8 * length ?d"
    using arg_cong[OF assms(2), of length] assms(1) by (auto simp: br_rest_def br_ok_def)
  have nth: "bufbit ?d (?p + j) = bit v j" if "j < k" for j
  proof -
    have "bufbit ?d (?p + j) = bytes_bits ?d ! (?p + j)"
      using le that by (intro bytes_bits_nth[symmetric]) auto
    also have "\<dots> = br_rest br ! j" using le that by (auto simp: br_rest_def)
    also have "\<dots> = bit v j" using that by (simp add: assms(2) nth_append word_bits_def)
    finally show ?thesis .
  qed
  have "gather_bits ?d k ?p = take_bit k v"
  using le assms(3) by (intro bit_word_eqI) (auto simp: bit_gather_bits bit_take_bit_iff nth)
  moreover have "br_rest ?br = rest"
    using arg_cong[OF assms(2), of "drop k"] by (simp add: br_rest_def add.commute)
  ultimately show thesis using that[of ?br] le assms(1,3)
    by (simp add: br_get_def br_ok_def)
qed

subsection \<open>Leading and trailing zeros\<close>

lemma ref_clz_loop_first:
  assumes "bit x l" and "\<forall>j > l. \<not> bit x j" and "l < tot" and "n \<le> tot - 1 - l"
  shows "ref_clz_loop x tot n = tot - 1 - l"
  using assms
proof (induction "tot - n" arbitrary: n)
  case 0
  then show ?case by auto
next
  case (Suc d)
  show ?case
  proof (cases "n = tot - 1 - l")
    case True
    with Suc.prems show ?thesis by (simp add: ref_clz_loop.simps[of x tot "tot - Suc l"])
  next
    case False
    with Suc.prems have "l < tot - 1 - n" by auto
    with Suc.prems False show ?thesis
      using Suc.hyps by (simp add: ref_clz_loop.simps[of x tot n])
  qed
qed

lemma ref_ctz_loop_first:
  assumes "bit x r" and "\<forall>j < r. \<not> bit x j" and "n \<le> r"
  shows "ref_ctz_loop (x :: u64) n = r"
  using assms
proof (induction "64 - n" arbitrary: n)
  case 0
  then show ?case using bit_imp_le_length[of x r] by simp
next
  case (Suc d)
  then show ?case using Suc.hyps(1)[of "n + 1"]
    by (cases "n = r") (auto simp: ref_ctz_loop.simps[of x n] ref_ctz_loop.simps[of x r])
qed

lemma clz_in_eq_reference:
  assumes "bitutils_ok B" and "x \<noteq> 0" and "take_bit tot x = x"
  shows "clz_in B x tot = ref_clz_in x tot"
proof -
  let ?l = "leftmost_one_pos64 B x"
  have l: "bit x ?l" "\<forall>j > ?l. \<not> bit x j" using assms(1,2) by (auto simp: bitutils_ok_def)
  have "bit (take_bit tot x) ?l" using l(1) by (simp only: assms(3))
  then have "?l < tot" by (simp add: bit_take_bit_iff)
  with l assms(2) show ?thesis by (simp add: clz_in_def ref_clz_in_def ref_clz_loop_first)
qed

lemma ctz_in_eq_reference:
  assumes "bitutils_ok B" and "x \<noteq> 0"
  shows "ctz_in B x = ref_ctz_in x"
  using assms by (auto simp: bitutils_ok_def ctz_in_def ref_ctz_in_def intro: ref_ctz_loop_first[symmetric])

text \<open>Scans written with the reference loops, as an instance of the hypothesis.\<close>

definition loop_bitutils :: bitutils where
  "loop_bitutils = \<lparr>leftmost_one_pos64 = (\<lambda>x. 63 - ref_clz_in x 64),
                    rightmost_one_pos64 = ref_ctz_in\<rparr>"

lemma first_bit_exists:
  assumes "x \<noteq> (0 :: u64)"
  obtains r where "bit x r" "\<forall>j < r. \<not> bit x j"
proof -
  from assms obtain i where "bit x i" by (auto simp: bit_eq_iff)
  then show thesis using that exists_least_iff[of "bit x"] by blast
qed

lemma last_bit_exists:
  assumes "x \<noteq> (0 :: u64)"
  obtains l where "bit x l" "\<forall>j > l. \<not> bit x j" "l < 64"
proof -
  from assms obtain i where "bit x i" by (auto simp: bit_eq_iff)
  moreover have bound: "\<forall>j. bit x j \<longrightarrow> j < 64" using bit_imp_le_length[of x] by auto
  ultimately show thesis
    using that[of "Greatest (bit x)"] GreatestI_nat[of "bit x" i 64] Greatest_le_nat[of "bit x" _ 64]
    by (metis less_imp_le not_le)
qed

lemma loop_bitutils_ok: "bitutils_ok loop_bitutils"
  unfolding bitutils_ok_def
proof (intro allI impI)
  fix x :: u64 assume x: "x \<noteq> 0"
  obtain r where r: "bit x r" "\<forall>j < r. \<not> bit x j" using first_bit_exists[OF x] .
  obtain l where l: "bit x l" "\<forall>j > l. \<not> bit x j" "l < 64" using last_bit_exists[OF x] .
  have "ref_ctz_in x = r" using r by (simp add: ref_ctz_in_def ref_ctz_loop_first)
  moreover have "63 - ref_clz_in x 64 = l"
    using ref_clz_loop_first[OF l(1,2), of 64 0] l(3) by (simp add: ref_clz_in_def)
  ultimately show "bit x (leftmost_one_pos64 loop_bitutils x) \<and>
      (\<forall>j > leftmost_one_pos64 loop_bitutils x. \<not> bit x j) \<and>
      bit x (rightmost_one_pos64 loop_bitutils x) \<and>
      (\<forall>j < rightmost_one_pos64 loop_bitutils x. \<not> bit x j)"
    using r l by (simp add: loop_bitutils_def)
qed

subsection \<open>Properties\<close>

text \<open>
  C33: The bit writer that moves up to 57 bits at a time leaves, from any well-formed state
  and for any field of up to 64 bits, exactly the state of the bit-by-bit writer it
  replaced, well-formed again; and the bit scans agree with their loops on every nonzero
  word of the counted width.
\<close>

theorem bit_writer_is_reference:
  assumes "bw_ok bw" and "bits \<le> 64" and "bitutils_ok B" and "x \<noteq> 0" and "take_bit tot x = x"
  shows "bw_put bw v bits = ref_bw_put bw v bits \<and> bw_ok (bw_put bw v bits) \<and>
    clz_in B x tot = ref_clz_in x tot \<and> ctz_in B x = ref_ctz_in x"
  using assms bw_put_bits by (simp add: bw_put_eq_reference clz_in_eq_reference ctz_in_eq_reference)

theorem bit_writer_is_reference_witness:
  "bw_put bw_init 5 3 = ref_bw_put bw_init 5 3 \<and> clz_in loop_bitutils 5 32 = ref_clz_in 5 32"
  using bit_writer_is_reference[of bw_init 3 loop_bitutils 5 32 5] loop_bitutils_ok
  by (simp add: bw_ok_def bw_init_def take_bit_eq_mod)

text \<open>
  What the bit writer appends, the bit reader takes off: a reader standing before a field
  of \<open>k \<le> 64\<close> bits returns the value cut to \<open>k\<close> bits and stands before the rest, and never
  reads past the encoded length.
\<close>

lemma bit_reader_reads_fields:
  assumes "br_ok br" and "br_rest br = word_bits v k @ rest" and "k \<le> 64"
  shows "\<exists>br'. br_get br k = Inr (take_bit k v, br') \<and> br_ok br' \<and> br_rest br' = rest"
proof -
  obtain br' where "br_get br k = Inr (take_bit k v, br')" "br_ok br'" "br_rest br' = rest"
    using assms by (rule br_get_bits)
  then show ?thesis by blast
qed

end
