(* ===== verification/Gorilla.thy ===== *)
theory Gorilla
  imports Bitstream
begin

unbundle bit_operations_syntax

section \<open>GORILLA\<close>

text \<open>
  The GORILLA float codec of \<open>src/src/columnar_encoding.c\<close> over the bit writer and
  reader: the first value verbatim, then per value one control bit and, when the value
  changed, the leading-zero count, the length and the meaningful bits of its XOR with the
  previous value. The round trip reads back each value from the bits its step appended.
\<close>

subsection \<open>Definitions\<close>

definition gorilla_field :: "nat \<Rightarrow> nat" where
  "gorilla_field w = (if w = 8 then 6 else 5)"

definition gorilla_put :: "bitutils \<Rightarrow> nat \<Rightarrow> bitwriter \<Rightarrow> u64 \<Rightarrow> u64 \<Rightarrow> bitwriter" where
  "gorilla_put B w bw prev v =
     (let tot = w * 8; field = gorilla_field w; x = v XOR prev
      in if x = 0 then bw_put bw 0 1
         else let lz = clz_in B x tot; tz = ctz_in B x; mlen = tot - lz - tz
              in bw_put (bw_put (bw_put (bw_put bw 1 1) (of_nat lz) field)
                           (of_nat (mlen - 1)) field) (drop_bit tz x) mlen)"

definition encode_gorilla :: "bitutils \<Rightarrow> byte list \<Rightarrow> nat \<Rightarrow> nat \<Rightarrow> byte list option" where
  "encode_gorilla B raw w n =
     (let vals = load_vals raw w n;
          bw0 = bw_put bw_init (vals ! 0) (w * 8);
          bw = fst (fold (\<lambda>v (bw, prev). (gorilla_put B w bw prev v, v)) (tl vals) (bw0, vals ! 0))
      in beats_raw raw (bw_buf (bw_flush bw)))"

definition gorilla_get :: "nat \<Rightarrow> bitreader \<Rightarrow> u64 \<Rightarrow> (u64 \<times> bitreader) result" where
  "gorilla_get w br prev =
     (case br_get br 1 of Inl e \<Rightarrow> Inl e
      | Inr (c, br1) \<Rightarrow>
          if c = 0 then Inr (prev, br1)
          else case br_get br1 (gorilla_field w) of Inl e \<Rightarrow> Inl e
          | Inr (lz, br2) \<Rightarrow>
              case br_get br2 (gorilla_field w) of Inl e \<Rightarrow> Inl e
              | Inr (m, br3) \<Rightarrow>
                  let tot = w * 8; mlen = unat m + 1
                  in if mlen > tot \<or> unat lz + mlen > tot
                     then Inl (Corrupt ''GORILLA XOR field out of range'')
                     else case br_get br3 mlen of Inl e \<Rightarrow> Inl e
                     | Inr (meaningful, br4) \<Rightarrow>
                         Inr (prev XOR push_bit (tot - unat lz - mlen) meaningful, br4))"

fun gorilla_loop :: "nat \<Rightarrow> nat \<Rightarrow> bitreader \<Rightarrow> u64 \<Rightarrow> byte list \<Rightarrow> byte list result" where
  "gorilla_loop w 0 br prev out = Inr out"
| "gorilla_loop w (Suc k) br prev out =
     (case gorilla_get w br prev of Inl e \<Rightarrow> Inl e
      | Inr (v, br') \<Rightarrow> gorilla_loop w k br' v (out @ store_uint v w))"

definition decode_gorilla :: "byte list \<Rightarrow> nat \<Rightarrow> nat \<Rightarrow> byte list result" where
  "decode_gorilla enc w n =
     (case br_get (br_init enc) (w * 8) of Inl e \<Rightarrow> Inl e
      | Inr (prev, br) \<Rightarrow> gorilla_loop w (n - 1) br prev (if n > 0 then store_uint prev w else []))"

subsection \<open>Round trip\<close>

definition gorilla_bits :: "bitutils \<Rightarrow> nat \<Rightarrow> u64 \<Rightarrow> u64 \<Rightarrow> bool list" where
  "gorilla_bits B w prev v =
     (let tot = w * 8; x = v XOR prev; lz = clz_in B x tot; tz = ctz_in B x; mlen = tot - lz - tz
      in if x = 0 then word_bits 0 1
         else word_bits 1 1 @ word_bits (of_nat lz) (gorilla_field w) @
              word_bits (of_nat (mlen - 1)) (gorilla_field w) @ word_bits (drop_bit tz x) mlen)"

lemma gorilla_put_bits:
  assumes "bw_ok bw" and "w \<le> 8"
  shows "bw_ok (gorilla_put B w bw prev v)"
    and "bw_bits (gorilla_put B w bw prev v) = bw_bits bw @ gorilla_bits B w prev v"
  using assms by (auto simp: gorilla_put_def gorilla_bits_def Let_def gorilla_field_def bw_put_bits)

fun gorilla_stream :: "bitutils \<Rightarrow> nat \<Rightarrow> u64 \<Rightarrow> u64 list \<Rightarrow> bool list" where
  "gorilla_stream B w prev [] = []"
| "gorilla_stream B w prev (v # vs) = gorilla_bits B w prev v @ gorilla_stream B w v vs"

lemma gorilla_fold_bits:
  assumes "bw_ok bw" and "w \<le> 8"
  shows "let bw' = fst (fold (\<lambda>v (bw, prev). (gorilla_put B w bw prev v, v)) vs (bw, prev))
         in bw_ok bw' \<and> bw_bits bw' = bw_bits bw @ gorilla_stream B w prev vs"
  using assms(1)
proof (induction vs arbitrary: bw prev)
  case (Cons v vs)
  have "bw_ok (gorilla_put B w bw prev v)" using Cons.prems assms(2) by (rule gorilla_put_bits)
  from Cons.IH[OF this, of v] Cons.prems assms(2) show ?case
    by (simp add: Let_def gorilla_put_bits)
qed simp

text \<open>The significant window of a nonzero XOR, at the widths GORILLA runs on.\<close>

lemma xor_window:
  assumes B: "bitutils_ok B" and x: "x \<noteq> 0" "take_bit (w * 8) x = x" and w: "w \<le> 8"
  defines "lz \<equiv> clz_in B x (w * 8)" and "tz \<equiv> ctz_in B x"
  shows "lz + tz < w * 8"
    and "push_bit tz (take_bit (w * 8 - lz - tz) (drop_bit tz x)) = x"
proof -
  let ?l = "leftmost_one_pos64 B x" and ?r = "rightmost_one_pos64 B x"
  have lr: "bit x ?l" "bit x ?r" "\<And>j. bit x j \<Longrightarrow> ?r \<le> j \<and> j \<le> ?l"
    using B x(1) by (auto simp: bitutils_ok_def not_le[symmetric])
  have "bit (take_bit (w * 8) x) ?l" using lr(1) by (simp only: x(2))
  then have l: "?l < w * 8" by (simp add: bit_take_bit_iff)
  have "?r \<le> ?l" using lr by blast
  moreover have eq: "lz = w * 8 - 1 - ?l" "tz = ?r"
    using x(1) by (simp_all add: lz_def tz_def clz_in_def ctz_in_def)
  ultimately show "lz + tz < w * 8" using l by simp
  have len: "w * 8 - lz - tz = Suc ?l - ?r" using l by (simp add: eq)
  show "push_bit tz (take_bit (w * 8 - lz - tz) (drop_bit tz x)) = x"
    unfolding len unfolding eq(2)
    by (rule bit_word_eqI) (use lr(3) \<open>?r \<le> ?l\<close> in \<open>fastforce simp: bit_simps\<close>)
qed

lemma gorilla_get_changed:
  assumes "br_get br 1 = Inr (c, br1)" "c \<noteq> 0" "br_get br1 (gorilla_field w) = Inr (a, br2)"
    and "br_get br2 (gorilla_field w) = Inr (b, br3)" "unat a = lz" "unat b + 1 = m"
    and "br_get br3 m = Inr (y, br4)" "lz + m + tz = w * 8"
  shows "gorilla_get w br prev = Inr (prev XOR push_bit tz y, br4)"
proof -
  have "w * 8 - unat a - (unat b + 1) = tz" using assms(5,6,8) by arith
  with assms show ?thesis by (simp add: gorilla_get_def Let_def)
qed

lemma gorilla_get_bits:
  assumes B: "bitutils_ok B" and w: "w = 4 \<or> w = 8"
    and v: "take_bit (w * 8) v = v" "take_bit (w * 8) prev = prev"
    and br: "br_ok br" "br_rest br = gorilla_bits B w prev v @ rest"
  obtains br' where "gorilla_get w br prev = Inr (v, br')" "br_ok br'" "br_rest br' = rest"
proof (cases "v XOR prev = 0")
  case True
  then have "v = prev" by (auto simp: bit_eq_iff bit_xor_iff)
  moreover obtain br' where "br_get br 1 = Inr (take_bit 1 0, br')" "br_ok br'" "br_rest br' = rest"
    using br True by (auto simp: gorilla_bits_def elim: br_get_bits)
  ultimately show thesis using that by (simp add: gorilla_get_def)
next
  case False
  let ?x = "v XOR prev"
  define lz where "lz = clz_in B ?x (w * 8)"
  define tz where "tz = ctz_in B ?x"
  define m where "m = w * 8 - lz - tz"
  let ?f = "gorilla_field w"
  have tx: "take_bit (w * 8) ?x = ?x" using v by simp
  have win: "lz + tz < w * 8" "push_bit tz (take_bit m (drop_bit tz ?x)) = ?x"
    using xor_window[OF B False tx] w by (auto simp: lz_def tz_def m_def)
  have f: "?f \<le> 64" "w * 8 = 2 ^ ?f" using w by (auto simp: gorilla_field_def)
  have "br_rest br = word_bits 1 1 @ word_bits (of_nat lz) ?f @ word_bits (of_nat (m - 1)) ?f @
      word_bits (drop_bit tz ?x) m @ rest"
    using br(2) False by (simp add: gorilla_bits_def Let_def lz_def tz_def m_def)
  then obtain br1 where 1: "br_get br 1 = Inr (take_bit 1 1, br1)" "br_ok br1"
      "br_rest br1 = word_bits (of_nat lz) ?f @ word_bits (of_nat (m - 1)) ?f @
        word_bits (drop_bit tz ?x) m @ rest"
    using br(1) by (auto elim: br_get_bits)
  obtain br2 where 2: "br_get br1 ?f = Inr (take_bit ?f (of_nat lz), br2)" "br_ok br2"
      "br_rest br2 = word_bits (of_nat (m - 1)) ?f @ word_bits (drop_bit tz ?x) m @ rest"
    using br_get_bits[OF 1(2,3) f(1)] .
  obtain br3 where 3: "br_get br2 ?f = Inr (take_bit ?f (of_nat (m - 1)), br3)" "br_ok br3"
      "br_rest br3 = word_bits (drop_bit tz ?x) m @ rest"
    using br_get_bits[OF 2(2,3) f(1)] .
  have m: "0 < m" "m \<le> 64" "lz + m + tz = w * 8" using win(1) w by (auto simp: m_def)
  obtain br4 where 4: "br_get br3 m = Inr (take_bit m (drop_bit tz ?x), br4)" "br_ok br4"
      "br_rest br4 = rest"
    using br_get_bits[OF 3(2,3) m(2)] .
  have small: "unat (take_bit ?f (of_nat k :: u64)) = k" if "k < w * 8" for k
    using that f(2) w by (auto simp: unsigned_take_bit_eq unat_of_nat take_bit_nat_eq_self)
  have u: "unat (take_bit ?f (of_nat lz :: u64)) = lz"
      "unat (take_bit ?f (of_nat (m - 1) :: u64)) + 1 = m"
    using m win(1) small[of lz] small[of "m - 1"] by simp_all
  have "gorilla_get w br prev = Inr (prev XOR push_bit tz (take_bit m (drop_bit tz ?x)), br4)"
    by (rule gorilla_get_changed[OF 1(1) _ 2(1) 3(1) u 4(1)]) (use m(3) in simp_all)
  moreover have "prev XOR ?x = v" by (auto simp: bit_eq_iff bit_xor_iff)
  ultimately show thesis using that[of br4] 4(2,3) win(2) by metis
qed

lemma gorilla_loop_stream:
  assumes B: "bitutils_ok B" and w: "w = 4 \<or> w = 8"
    and "\<forall>v \<in> set (prev # vs). take_bit (w * 8) v = v"
    and "br_ok br" "br_rest br = gorilla_stream B w prev vs @ rest"
  shows "gorilla_loop w (length vs) br prev out =
    Inr (out @ concat (map (\<lambda>v. store_uint v w) vs))"
  using assms(3-)
proof (induction vs arbitrary: prev br out)
  case (Cons v vs)
  obtain br' where "gorilla_get w br prev = Inr (v, br')" "br_ok br'"
      "br_rest br' = gorilla_stream B w v vs @ rest"
    using gorilla_get_bits[OF B w, of v prev br "gorilla_stream B w v vs @ rest"] Cons.prems by auto
  with Cons show ?case by simp
qed simp

lemma decode_encode_gorilla:
  assumes B: "bitutils_ok B" and w: "w = 4 \<or> w = 8" and n: "0 < n" "length raw = n * w"
    and enc: "encode_gorilla B raw w n = Some enc"
  shows "decode_gorilla enc w n = Inr raw \<and> length enc < length raw"
proof -
  let ?vals = "load_vals raw w n"
  obtain v0 vs where vals: "?vals = v0 # vs" using n(1) by (cases n) (simp_all add: load_vals_Suc)
  then have len: "length vs = n - 1" using length_load_vals[of raw w n] by simp
  let ?bw0 = "bw_put bw_init v0 (w * 8)"
  define bw where "bw = fst (fold (\<lambda>v (bw, prev). (gorilla_put B w bw prev v, v)) vs (?bw0, v0))"
  have w8: "w \<le> 8" "w * 8 \<le> 64" using w by auto
  have tb: "\<forall>v \<in> set (v0 # vs). take_bit (w * 8) v = v"
    using load_vals_take_bit[of _ raw w n] by (simp add: vals mult.commute)
  have ok: "bw_ok bw" "bw_bits bw = word_bits v0 (w * 8) @ gorilla_stream B w v0 vs"
    using gorilla_fold_bits[of ?bw0 w B vs v0] w8 by (auto simp: bw_def Let_def bw_put_bits)
  have e: "enc = bw_buf (bw_flush bw)" "length enc < length raw"
    using enc beats_raw_Some by (auto simp: encode_gorilla_def Let_def vals bw_def)
  obtain pad where "bytes_bits enc = bw_bits bw @ pad" using bw_flush_bits[OF ok(1)] e(1) by auto
  then have rest: "br_rest (br_init enc) = word_bits v0 (w * 8) @ gorilla_stream B w v0 vs @ pad"
    by (simp add: ok)
  obtain br where br: "br_get (br_init enc) (w * 8) = Inr (take_bit (w * 8) v0, br)"
      "br_ok br" "br_rest br = gorilla_stream B w v0 vs @ pad"
    using br_get_bits[OF br_init_ok(1) rest w8(2)] .
  have "decode_gorilla enc w n = Inr (concat (map (\<lambda>v. store_uint v w) ?vals))"
    using br gorilla_loop_stream[OF B w tb br(2,3)] tb n(1) len
    by (simp add: decode_gorilla_def vals)
  with store_load_vals[OF w8(1) n(2)] e(2) show ?thesis by simp
qed

subsection \<open>Properties\<close>

text \<open>
  GORILLA is lossless: for float4 and float8 chunks, whatever the bit patterns (NaNs
  and signed zeros included), the encoder either declines or its output is shorter than
  the chunk and decodes to exactly the chunk's bytes. PostgreSQL's bit scans are assumed
  to find the first and the last set bit.
\<close>

lemma gorilla_roundtrip:
  assumes "bitutils_ok B" and "w = 4 \<or> w = 8" and "0 < n" and "length raw = n * w"
  shows "case encode_gorilla B raw w n of
      None \<Rightarrow> True
    | Some enc \<Rightarrow> decode_gorilla enc w n = Inr raw \<and> length enc < length raw"
  using decode_encode_gorilla[OF assms] by (simp split: option.split)

end
