(* ===== verification/Encoding_Alp.thy ===== *)
theory Encoding_Alp
  imports Encoding_Int
begin

unbundle bit_operations_syntax

section \<open>ALP: decimal floating-point encoding\<close>

text \<open>
  \<open>alp_try\<close>, \<open>encode_alp\<close> and \<open>decode_alp\<close> of \<open>src/src/columnar_encoding.c\<close>. A \<open>double\<close>
  is its 64-bit pattern and a \<open>float\<close> its 32-bit pattern; the arithmetic of the floating
  point unit and of the C library is the record \<open>fpu\<close>, an argument of the codec. The
  round trip needs no law about it: the encoder keeps a value as an integer only when
  the decoder's own arithmetic gives back its bytes.
\<close>

subsection \<open>Definitions\<close>

record fpu =
  fp_mul :: "u64 \<Rightarrow> u64 \<Rightarrow> u64"
  fp_add :: "u64 \<Rightarrow> u64 \<Rightarrow> u64"
  fp_div :: "u64 \<Rightarrow> u64 \<Rightarrow> u64"
  fp_less :: "u64 \<Rightarrow> u64 \<Rightarrow> bool"
  fp_leq :: "u64 \<Rightarrow> u64 \<Rightarrow> bool"
  fp_isfinite :: "u64 \<Rightarrow> bool"
  fp_lit :: "int \<Rightarrow> int \<Rightarrow> u64"  \<comment> \<open>the literal \<open>m * 10 ^ k\<close>\<close>
  fp_of_int64 :: "u64 \<Rightarrow> u64"
  fp_of_uint :: "nat \<Rightarrow> u64"
  fp_llround :: "u64 \<Rightarrow> u64"
  fp_of_float :: "u32 \<Rightarrow> u64"
  fp_to_float :: "u64 \<Rightarrow> u32"

definition ALP_MAX_EXP :: nat where
  "ALP_MAX_EXP = 18"

definition alp_F10 :: "fpu \<Rightarrow> nat \<Rightarrow> u64" where
  "alp_F10 F e = fp_lit F 1 (int e)"

definition alp_IF10 :: "fpu \<Rightarrow> nat \<Rightarrow> u64" where
  "alp_IF10 F e = fp_lit F 1 (- int e)"

text \<open>\<open>(double) enc * F10[f] * IF10[e]\<close> as the \<open>w\<close> bytes that are compared or stored.\<close>

definition alp_rec :: "fpu \<Rightarrow> nat \<Rightarrow> nat \<Rightarrow> nat \<Rightarrow> u64 \<Rightarrow> byte list" where
  "alp_rec F w e f enc =
     (let rec = fp_mul F (fp_mul F (fp_of_int64 F enc) (alp_F10 F f)) (alp_IF10 F e)
      in if w = 8 then le_bytes 8 rec else le_bytes 4 (ucast (fp_to_float F rec)))"

definition alp_try :: "fpu \<Rightarrow> byte list \<Rightarrow> nat \<Rightarrow> nat \<Rightarrow> nat \<Rightarrow> u64 option" where
  "alp_try F vp w e f =
     (let d = (if w = 8 then load_uint vp 8 else fp_of_float F (ucast (load_uint vp 4)))
      in if \<not> fp_isfinite F d then None
         else let scaled = fp_mul F (fp_mul F d (alp_F10 F e)) (alp_IF10 F f)
         in if fp_leq F (fp_lit F 9 18) scaled \<or> fp_leq F scaled (fp_lit F (-9) 18) then None
            else let enc = fp_llround F scaled
            in if alp_rec F w e f enc \<noteq> take (if w = 8 then 8 else 4) vp then None
               else Some enc)"

text \<open>The sampled integer range and exception count of one \<open>(e, f)\<close>.\<close>

record alp_stats =
  s_enc :: nat
  s_exc :: nat
  s_mn :: u64
  s_mx :: u64
  s_first :: bool

definition alp_sample_step :: "u64 option \<Rightarrow> alp_stats \<Rightarrow> alp_stats" where
  "alp_sample_step r s =
     (case r of
        Some enc \<Rightarrow>
          if s_first s
          then s\<lparr>s_enc := s_enc s + 1, s_mn := enc, s_mx := enc, s_first := False\<rparr>
          else s\<lparr>s_enc := s_enc s + 1,
                 s_mn := (if enc <s s_mn s then enc else s_mn s),
                 s_mx := (if s_mx s <s enc then enc else s_mx s)\<rparr>
      | None \<Rightarrow> s\<lparr>s_exc := s_exc s + 1\<rparr>)"

definition alp_step :: "nat \<Rightarrow> nat" where
  "alp_step n =
     (let sample = (if n < 64 then n else 64);
          step = (if sample > 0 then n div sample else 1)
      in if step = 0 then 1 else step)"

definition alp_sample :: "fpu \<Rightarrow> byte list \<Rightarrow> nat \<Rightarrow> nat \<Rightarrow> nat \<Rightarrow> nat \<Rightarrow> alp_stats" where
  "alp_sample F raw w n e f =
     fold (\<lambda>k. alp_sample_step (alp_try F (drop (k * w) raw) w e f))
          (filter (\<lambda>k. k mod alp_step n = 0) [0..<n])
          \<lparr>s_enc = 0, s_exc = 0, s_mn = 0, s_mx = 0, s_first = True\<rparr>"

definition alp_cost :: "fpu \<Rightarrow> nat \<Rightarrow> nat \<Rightarrow> alp_stats \<Rightarrow> u64" where
  "alp_cost F w n s =
     (let bits = bits_needed (s_mx s - s_mn s);
          u = fp_of_uint F
      in fp_add F (fp_div F (fp_mul F (u n) (u bits)) (fp_lit F 8 0))
           (fp_mul F (fp_mul F (fp_div F (u (s_exc s)) (u (s_enc s + s_exc s))) (u n))
              (u (4 + w))))"

text \<open>The state of the search: \<open>(bestCost, bestE, bestF)\<close>, with \<open>bestCost = -1\<close> at first.\<close>

definition alp_consider ::
  "fpu \<Rightarrow> byte list \<Rightarrow> nat \<Rightarrow> nat \<Rightarrow> nat \<times> nat \<Rightarrow> u64 \<times> nat \<times> nat \<Rightarrow> u64 \<times> nat \<times> nat" where
  "alp_consider F raw w n ef best =
     (case ef of (e, f) \<Rightarrow>
        let s = alp_sample F raw w n e f
        in if s_enc s = 0 then best
           else let cost = alp_cost F w n s
                in if fp_less F (fst best) (fp_lit F 0 0) \<or> fp_less F cost (fst best)
                   then (cost, e, f) else best)"

definition alp_choose :: "fpu \<Rightarrow> byte list \<Rightarrow> nat \<Rightarrow> nat \<Rightarrow> (nat \<times> nat) option" where
  "alp_choose F raw w n =
     (let (bestCost, bestE, bestF) =
        fold (alp_consider F raw w n)
          (concat (map (\<lambda>e. map (Pair e) [0..<e + 1]) [0..<ALP_MAX_EXP + 1]))
          (fp_lit F (-1) 0, 0, 0)
      in if fp_less F bestCost (fp_lit F 0 0) then None else Some (bestE, bestF))"

definition alp_base_step :: "u64 option \<Rightarrow> u64 option \<Rightarrow> u64 option" where
  "alp_base_step r b =
     (case (r, b) of
        (None, _) \<Rightarrow> b
      | (Some enc, None) \<Rightarrow> Some enc
      | (Some enc, Some forBase) \<Rightarrow> if enc <s forBase then Some enc else b)"

definition encode_alp :: "fpu \<Rightarrow> byte list \<Rightarrow> nat \<Rightarrow> nat \<Rightarrow> byte list option" where
  "encode_alp F raw w n =
     (case alp_choose F raw w n of
        None \<Rightarrow> None
      | Some (e, f) \<Rightarrow>
          let rs = map (\<lambda>i. alp_try F (drop (i * w) raw) w e f) [0..<n]
          in case fold alp_base_step rs None of
               None \<Rightarrow> None
             | Some forBase \<Rightarrow>
                 let offs = map (\<lambda>r. case r of None \<Rightarrow> 0 | Some enc \<Rightarrow> enc - forBase) rs;
                     intWidth = bits_needed (scan_max offs);
                     exc = filter (\<lambda>i. rs ! i = None) [0..<n]
                 in beats_raw raw
                      ([of_nat e, of_nat f, of_nat intWidth, 0] @ le_bytes 8 forBase
                       @ u32_bytes (length exc) @ bitpack offs intWidth
                       @ concat (map (\<lambda>i. u32_bytes i @ take w (drop (i * w) raw)) exc)))"

fun alp_patch :: "nat \<Rightarrow> nat \<Rightarrow> nat \<Rightarrow> byte list \<Rightarrow> byte list \<Rightarrow> byte list result" where
  "alp_patch 0 w n p raw = Inr raw"
| "alp_patch (Suc k) w n p raw =
     (if length p < 4 + w then Inl (Corrupt ''ALP exception past encoded length'')
      else let pos = u32_of p; p' = drop 4 p
           in if pos \<ge> n then Inl (Corrupt ''ALP exception position out of range'')
              else alp_patch k w n (drop w p')
                     (take (pos * w) raw @ take w p' @ drop (pos * w + w) raw))"

definition decode_alp :: "fpu \<Rightarrow> byte list \<Rightarrow> nat \<Rightarrow> nat \<Rightarrow> nat \<Rightarrow> byte list result" where
  "decode_alp F enc w n rawLen =
     (if w \<noteq> 4 \<and> w \<noteq> 8 then Inl (Corrupt ''ALP on a non-float column'')
      else if n * w \<noteq> rawLen then Inl (Corrupt ''ALP raw length does not match value count'')
      else if length enc < 16 then Inl (Corrupt ''ALP header truncated'')
      else let e = unat (enc ! 0); f = unat (enc ! 1); intWidth = unat (enc ! 2);
               forBase = le_word (take 8 (drop 4 enc)); nExc = u32_of (drop 12 enc);
               p = drop 16 enc
      in if e > ALP_MAX_EXP \<or> f > e then Inl (Corrupt ''ALP exponent out of range'')
      else if intWidth > 64 then Inl (Corrupt ''ALP bit width out of range'')
      else let packedBytes = ((n * intWidth + 7) div 8) mod 2 ^ 32
      in if packedBytes > length p then Inl (Corrupt ''ALP offsets past encoded length'')
      else case bitunpack p n intWidth of
             Inl err \<Rightarrow> Inl err
           | Inr offs \<Rightarrow> alp_patch nExc w n (drop packedBytes p)
                           (concat (map (\<lambda>o'. alp_rec F w e f (forBase + o')) offs)))"

subsection \<open>The chosen exponents are in the decoder's range\<close>

definition alp_ef_ok :: "nat \<times> nat \<Rightarrow> bool" where
  "alp_ef_ok ef \<longleftrightarrow> fst ef \<le> ALP_MAX_EXP \<and> snd ef \<le> fst ef"

lemma alp_consider_range:
  "alp_ef_ok ef \<Longrightarrow> alp_ef_ok (snd b) \<Longrightarrow> alp_ef_ok (snd (alp_consider F raw w n ef b))"
  by (auto simp: alp_consider_def Let_def split: prod.splits)

lemma alp_choose_range:
  assumes "alp_choose F raw w n = Some ef"
  shows "alp_ef_ok ef"
proof -
  have inv: "alp_ef_ok (snd (fold (alp_consider F raw w n) efs b))"
    if "\<forall>ef \<in> set efs. alp_ef_ok ef" and "alp_ef_ok (snd b)" for efs b
    using that by (induction efs arbitrary: b) (simp_all add: alp_consider_range)
  let ?efs = "concat (map (\<lambda>e. map (Pair e) [0..<e + 1]) [0..<ALP_MAX_EXP + 1])"
  have "alp_ef_ok (snd (fold (alp_consider F raw w n) ?efs (fp_lit F (-1) 0, 0, 0)))"
    by (rule inv) (auto simp: alp_ef_ok_def)
  with assms show ?thesis by (auto simp: alp_choose_def Let_def split: prod.splits if_splits)
qed

subsection \<open>Round trip\<close>

lemma alp_try_rec:
  assumes "alp_try F vp w e f = Some enc" and "w = 4 \<or> w = 8"
  shows "alp_rec F w e f enc = take w vp"
  using assms by (auto simp: alp_try_def Let_def split: if_splits)

lemma length_alp_rec: "w = 4 \<or> w = 8 \<Longrightarrow> length (alp_rec F w e f v) = w"
  by (auto simp: alp_rec_def Let_def)

text \<open>Overwriting the bytes of position \<open>pos\<close> replaces the value at \<open>pos\<close>.\<close>

lemma concat_patch:
  assumes "\<forall>c \<in> set cs. length c = w" and "pos < length cs"
  shows "take (pos * w) (concat cs) @ b @ drop (pos * w + w) (concat cs) = concat (cs[pos := b])"
  using assms
proof (induction cs arbitrary: pos)
  case (Cons c cs)
  show ?case
  proof (cases pos)
    case (Suc p)
    with Cons show ?thesis by (simp add: add.assoc)
  qed (use Cons in simp)
qed simp

lemma alp_patch_exceptions:
  assumes "\<forall>i \<in> set exc. i < n" and "n < 2 ^ 32" and "length cs = n"
    and "\<forall>c \<in> set cs. length c = w" and "\<forall>i < n. length (g i) = w"
  shows "alp_patch (length exc) w n (concat (map (\<lambda>i. u32_bytes i @ g i) exc)) (concat cs) =
    Inr (concat (fold (\<lambda>i cs. cs[i := g i]) exc cs))"
  using assms(1,3,4)
proof (induction exc arbitrary: cs)
  case (Cons i exc)
  let ?cs = "cs[i := g i]"
  have i: "i < n" "i < 2 ^ 32" "length (g i) = w" using Cons.prems(1) assms(2,5) by auto
  have "\<forall>c \<in> set ?cs. length c = w"
    using Cons.prems(3) i(3) set_update_subset_insert[of cs i "g i"] by auto
  with Cons.IH[of ?cs] Cons.prems show ?case
    using i concat_patch[OF Cons.prems(3), of i "g i"] by simp
qed simp

lemma fold_list_update_nth:
  "length (fold (\<lambda>i cs. cs[i := g i]) exc cs) = length cs \<and>
   (j < length cs \<longrightarrow> fold (\<lambda>i cs. cs[i := g i]) exc cs ! j = (if j \<in> set exc then g j else cs ! j))"
  by (induction exc arbitrary: cs) (auto simp: nth_list_update)

text \<open>What the decoder does with a buffer of the encoder's layout.\<close>

lemma decode_alp_layout:
  assumes w: "w = 4 \<or> w = 8" and n: "alloc_ok n" "length offs = n" and k: "k \<le> n"
    and ef: "e \<le> ALP_MAX_EXP" "f \<le> e" and width: "width = bits_needed (scan_max offs)"
  shows "decode_alp F ([of_nat e, of_nat f, of_nat width, 0] @ le_bytes 8 forBase @ u32_bytes k
           @ bitpack offs width @ tail) w n (n * w) =
         alp_patch k w n tail (concat (map (\<lambda>o'. alp_rec F w e f (forBase + o')) offs))"
proof -
  have unp: "bitunpack (bitpack offs width @ tail) n width = Inr offs"
    using packed_roundtrip[OF n(1), of offs tail] n(2) by (simp add: width)
  have w64: "width \<le> 64" by (simp add: width bits_needed_le_64)
  have "pack_fits n width" using alloc_ok_pack_fits[OF n(1) w64] by simp
  then have lp: "(n * width + 7) div 8 mod 4294967296 = length (bitpack offs width)"
    using length_bitpack[of offs width] n(2) by (simp add: pack_fits_def)
  have b: "unat (of_nat width :: byte) = width" "unat (of_nat e :: byte) = e"
      "unat (of_nat f :: byte) = f"
    using ef w64 by (simp_all add: ALP_MAX_EXP_def)
  have "k < 2 ^ 32" using n(1) k by (simp add: alloc_ok_def MaxAllocSize_def)
  then show ?thesis
    using w ef w64 unfolding decode_alp_def by (auto simp: Let_def b unp lp)
qed

lemma length_val_at: "length raw = n * w \<Longrightarrow> i < n \<Longrightarrow> length (val_at raw w i) = w"
proof -
  assume "length raw = n * w" "i < n"
  then have "Suc i * w \<le> length raw" by (metis Suc_leI mult_le_mono1)
  then show ?thesis by (simp add: val_at_def)
qed

lemma concat_val_at:
  assumes "w \<le> 8" and "length raw = n * w"
  shows "concat (map (val_at raw w) [0..<n]) = raw"
proof -
  have "map (val_at raw w) [0..<n] = map (\<lambda>v. store_uint v w) (load_vals raw w n)"
    using length_val_at[OF assms(2)] assms(1)
    by (auto simp: val_at_def load_vals_def load_uint_def store_uint_def byte_simps)
  then show ?thesis using store_load_vals[OF assms] by simp
qed

text \<open>Patching the exceptions over the reconstructed values gives every original value.\<close>

lemma alp_patched_values:
  assumes w: "w = 4 \<or> w = 8" and rs: "rs = map (\<lambda>i. alp_try F (drop (i * w) raw) w e f) [0..<n]"
    and cs: "cs = map (\<lambda>r. alp_rec F w e f (base + (case r of None \<Rightarrow> 0 | Some enc \<Rightarrow> enc - base))) rs"
  shows "fold (\<lambda>i cs. cs[i := val_at raw w i]) (filter (\<lambda>i. rs ! i = None) [0..<n]) cs =
    map (val_at raw w) [0..<n]" (is "fold ?u ?exc cs = _")
proof (rule list_eq_nthI)
  note upd = fold_list_update_nth[of "val_at raw w" ?exc cs]
  have len: "length cs = n" by (simp add: cs rs)
  with upd show "length (fold ?u ?exc cs) = length (map (val_at raw w) [0..<n])" by simp
  fix j assume "j < length (fold ?u ?exc cs)"
  then have j: "j < n" using upd len by simp
  have "cs ! j = val_at raw w j" if "rs ! j \<noteq> None"
    using that j w alp_try_rec[of F "drop (j * w) raw" w e f]
    by (auto simp: cs rs val_at_def)
  then show "fold ?u ?exc cs ! j = map (val_at raw w) [0..<n] ! j"
    using fold_list_update_nth[of "val_at raw w" ?exc cs j] len j by auto
qed

lemma decode_encode_alp:
  assumes w: "w = 4 \<or> w = 8" and len: "length raw = n * w" and n: "alloc_ok n"
    and enc: "encode_alp F raw w n = Some enc"
  shows "decode_alp F enc w n (length raw) = Inr raw \<and> length enc < length raw"
proof -
  obtain e f where ef: "alp_choose F raw w n = Some (e, f)"
    using enc by (auto simp: encode_alp_def split: option.splits)
  define rs where "rs = map (\<lambda>i. alp_try F (drop (i * w) raw) w e f) [0..<n]"
  obtain base where base: "fold alp_base_step rs None = Some base"
    using enc ef by (auto simp: encode_alp_def rs_def Let_def split: option.splits)
  define offs where "offs = map (\<lambda>r. case r of None \<Rightarrow> 0 | Some enc \<Rightarrow> enc - base) rs"
  define width where "width = bits_needed (scan_max offs)"
  define exc where "exc = filter (\<lambda>i. rs ! i = None) [0..<n]"
  define cs where "cs = map (\<lambda>o'. alp_rec F w e f (base + o')) offs"
  let ?tail = "concat (map (\<lambda>i. u32_bytes i @ val_at raw w i) exc)"
  have e: "enc = [of_nat e, of_nat f, of_nat width, 0] @ le_bytes 8 base @ u32_bytes (length exc)
        @ bitpack offs width @ ?tail" "length enc < length raw"
    using enc ef base unfolding encode_alp_def
    by (simp_all add: Let_def beats_raw_Some rs_def offs_def width_def exc_def val_at_def)
  have n32: "n < 2 ^ 32" using n by (simp add: alloc_ok_def MaxAllocSize_def)
  have loffs: "length offs = n" by (simp add: offs_def rs_def)
  have lexc: "length exc \<le> n" using length_filter_le[of _ "[0..<n]"] by (simp add: exc_def)
  have cs: "length cs = n" "\<forall>c \<in> set cs. length c = w"
    using w loffs by (auto simp: cs_def length_alp_rec)
  have "decode_alp F enc w n (length raw) = alp_patch (length exc) w n ?tail (concat cs)"
    using alp_choose_range[OF ef] lexc unfolding e(1) len cs_def alp_ef_ok_def
    by (intro decode_alp_layout[OF w n loffs _ _ _ width_def]) auto
  also have "\<dots> = Inr (concat (fold (\<lambda>i cs. cs[i := val_at raw w i]) exc cs))"
    by (rule alp_patch_exceptions[OF _ n32 cs]) (auto simp: exc_def length_val_at[OF len])
  also have "fold (\<lambda>i cs. cs[i := val_at raw w i]) exc cs = map (val_at raw w) [0..<n]"
    unfolding exc_def by (rule alp_patched_values[OF w rs_def, where base = base]) (simp add: cs_def offs_def)
  also have "concat (map (val_at raw w) [0..<n]) = raw"
    using w len by (intro concat_val_at) auto
  finally show ?thesis using e(2) by simp
qed

subsection \<open>Properties\<close>

text \<open>
  C30: ALP is lossless whatever the floating-point unit computes: the encoder keeps a scaled
  integer only after checking that it gives back the very bytes of the value, and stores
  every other value verbatim, so the decoder on the same unit returns the chunk exactly
  and the encoding is shorter than the chunk.
\<close>

theorem alp_roundtrip:
  assumes "w = 4 \<or> w = 8" and "length raw = n * w" and "alloc_ok n"
  shows "case encode_alp F raw w n of
      None \<Rightarrow> True
    | Some enc \<Rightarrow> decode_alp F enc w n (length raw) = Inr raw \<and> length enc < length raw"
  using decode_encode_alp[OF assms] by (simp split: option.split)

theorem alp_roundtrip_witness:
  "\<forall>F. case encode_alp F (replicate 40 9) 8 5 of
     None \<Rightarrow> True
   | Some enc \<Rightarrow> decode_alp F enc 8 5 40 = Inr (replicate 40 9) \<and> length enc < 40"
proof
  fix F
  from alp_roundtrip[of 8 "replicate 40 9" 5 F]
  show "case encode_alp F (replicate 40 9) 8 5 of
     None \<Rightarrow> True
   | Some enc \<Rightarrow> decode_alp F enc 8 5 40 = Inr (replicate 40 9) \<and> length enc < 40"
    by (simp add: alloc_ok_def MaxAllocSize_def split: option.splits)
qed

end
