(* ===== verification/Value_Stream.thy ===== *)
theory Value_Stream
  imports Encoding_Int
begin

unbundle bit_operations_syntax

section \<open>The raw value stream\<close>

text \<open>
  A column chunk is built as a packed stream of values: \<open>PgColumnarEncodeValue\<close> appends
  one, \<open>PgColumnarDecodeValue\<close> reads one back and \<open>pgcolumnar_skip_value\<close> steps over one
  (\<open>src/src/columnar_reader.c\<close>), the varlena sizes coming from
  \<open>PgColumnarVarSizeAnyUnaligned\<close> and its bounded variant (\<open>src/src/columnar.h\<close>). A cursor
  with its \<open>end\<close> is the list of bytes from the one to the other. PostgreSQL's own
  varlena macros, detoasting and by-value datum accessors are the record \<open>pg_datum\<close>; what
  the source relies on is \<open>pg_datum_ok\<close>.
\<close>

subsection \<open>Definitions\<close>

record attr =
  attlen :: int
  attbyval :: bool
  atttypid :: nat

datatype datum = ByVal u64 | ByRef "byte list"

record pg_datum =
  varatt_is_1b :: "byte list \<Rightarrow> bool"
  varatt_is_1b_e :: "byte list \<Rightarrow> bool"
  varatt_is_external :: "byte list \<Rightarrow> bool"
  varsize_any :: "byte list \<Rightarrow> nat"
  pg_detoast_datum :: "byte list \<Rightarrow> byte list"
  store_att_byval :: "u64 \<Rightarrow> nat \<Rightarrow> byte list"
  fetch_att :: "byte list \<Rightarrow> nat \<Rightarrow> u64"

definition FLOAT4OID :: nat where "FLOAT4OID = 700"
definition FLOAT8OID :: nat where "FLOAT8OID = 701"

definition is_packable_int :: "attr \<Rightarrow> bool" where
  "is_packable_int att \<longleftrightarrow> attbyval att \<and> atttypid att \<noteq> FLOAT4OID \<and> atttypid att \<noteq> FLOAT8OID \<and>
     (attlen att = 1 \<or> attlen att = 2 \<or> attlen att = 4 \<or> attlen att = 8)"

definition is_gorilla_float :: "attr \<Rightarrow> bool" where
  "is_gorilla_float att \<longleftrightarrow> attbyval att \<and> (atttypid att = FLOAT4OID \<or> atttypid att = FLOAT8OID)"

definition PgColumnarVarSizeAnyUnaligned :: "pg_datum \<Rightarrow> byte list \<Rightarrow> nat" where
  "PgColumnarVarSizeAnyUnaligned V p =
     (if varatt_is_1b V p \<or> varatt_is_1b_e V p then varsize_any V p mod 2 ^ 32
      else (u32_of p div 4) mod 2 ^ 30)"

definition PgColumnarVarSizeAnyUnalignedBounded :: "pg_datum \<Rightarrow> byte list \<Rightarrow> nat result" where
  "PgColumnarVarSizeAnyUnalignedBounded V p =
     (if p = [] then Inl (Corrupt ''varlena value starts at or past the value stream end'')
      else if varatt_is_external V p
      then Inl (Corrupt ''external TOAST pointer in a native value stream'')
      else if \<not> varatt_is_1b V p \<and> length p < 4
      then Inl (Corrupt ''varlena header runs past the value stream end'')
      else let len = PgColumnarVarSizeAnyUnaligned V p
           in if len < 1 \<or> length p < len
              then Inl (Corrupt ''varlena value length runs past the value stream end'')
              else Inr len)"

definition PgColumnarEncodeValueByLen ::
  "pg_datum \<Rightarrow> byte list \<Rightarrow> bool \<Rightarrow> int \<Rightarrow> datum \<Rightarrow> byte list result" where
  "PgColumnarEncodeValueByLen V buf byval len value =
     (if byval then
        case value of ByVal v \<Rightarrow> Inr (buf @ store_att_byval V v (nat len))
        | ByRef b \<Rightarrow> Inl (Corrupt ''not a by-value datum'')
      else case value of ByVal v \<Rightarrow> Inl (Corrupt ''not a pointer datum'')
        | ByRef b \<Rightarrow>
            if len > 0 then Inr (buf @ take (nat len) b)
            else if len = -1 then Inr (buf @ pg_detoast_datum V b)
            else Inl (Corrupt ''columnar phase 1 does not support column type with attlen''))"

definition PgColumnarEncodeValue ::
  "pg_datum \<Rightarrow> byte list \<Rightarrow> attr \<Rightarrow> datum \<Rightarrow> byte list result" where
  "PgColumnarEncodeValue V buf att value =
     PgColumnarEncodeValueByLen V buf (attbyval att) (attlen att) value"

definition past_end :: decode_error where
  "past_end = Corrupt ''fixed-length value runs past the value stream end''"

definition PgColumnarDecodeValueByLen ::
  "pg_datum \<Rightarrow> bool \<Rightarrow> int \<Rightarrow> byte list \<Rightarrow> (datum \<times> byte list) result" where
  "PgColumnarDecodeValueByLen V byval len p =
     (if byval then
        if int (length p) < len then Inl past_end
        else Inr (ByVal (fetch_att V p (nat len)), drop (nat len) p)
      else if len > 0 then
        if int (length p) < len then Inl past_end
        else Inr (ByRef (take (nat len) p), drop (nat len) p)
      else res_bind (PgColumnarVarSizeAnyUnalignedBounded V p)
             (\<lambda>n. Inr (ByRef (take n p), drop n p)))"

definition PgColumnarDecodeValue ::
  "pg_datum \<Rightarrow> attr \<Rightarrow> byte list \<Rightarrow> (datum \<times> byte list) result" where
  "PgColumnarDecodeValue V att p = PgColumnarDecodeValueByLen V (attbyval att) (attlen att) p"

definition pgcolumnar_skip_value :: "pg_datum \<Rightarrow> attr \<Rightarrow> byte list \<Rightarrow> byte list result" where
  "pgcolumnar_skip_value V att p =
     (if attbyval att \<or> attlen att > 0 then
        if int (length p) < attlen att then Inl past_end else Inr (drop (nat (attlen att)) p)
      else res_bind (PgColumnarVarSizeAnyUnalignedBounded V p) (\<lambda>n. Inr (drop n p)))"

subsection \<open>What the source relies on of PostgreSQL\<close>

text \<open>
  \<open>store_att_byval\<close> writes \<open>len\<close> bytes from which \<open>fetch_att\<close> reads the datum back, for the
  datums \<open>byval_ok\<close> of that length; a detoasted value has a plain four-byte header that
  holds its own length.
\<close>

definition pg_datum_ok :: "pg_datum \<Rightarrow> (u64 \<Rightarrow> nat \<Rightarrow> bool) \<Rightarrow> bool" where
  "pg_datum_ok V byval_ok \<longleftrightarrow>
     (\<forall>v n rest. byval_ok v n \<longrightarrow> length (store_att_byval V v n) = n \<and>
        fetch_att V (store_att_byval V v n @ rest) n = v) \<and>
     (\<forall>b rest. let d = pg_detoast_datum V b in
        4 \<le> length d \<and> \<not> varatt_is_1b V (d @ rest) \<and> \<not> varatt_is_1b_e V (d @ rest) \<and>
        \<not> varatt_is_external V (d @ rest) \<and> (u32_of d div 4) mod 2 ^ 30 = length d \<and>
        pg_detoast_datum V d = d)"

text \<open>The datums a column of this attribute can hold, and the value a reader sees.\<close>

definition datum_fits :: "(u64 \<Rightarrow> nat \<Rightarrow> bool) \<Rightarrow> attr \<Rightarrow> datum \<Rightarrow> bool" where
  "datum_fits byval_ok att d =
     (case d of
        ByVal v \<Rightarrow> attbyval att \<and> 0 < attlen att \<and> byval_ok v (nat (attlen att))
      | ByRef b \<Rightarrow> \<not> attbyval att \<and>
          (attlen att = -1 \<or> 0 < attlen att \<and> length b = nat (attlen att)))"

definition stored_datum :: "pg_datum \<Rightarrow> attr \<Rightarrow> datum \<Rightarrow> datum" where
  "stored_datum V att d =
     (case d of ByVal v \<Rightarrow> d
      | ByRef b \<Rightarrow> if attlen att = -1 then ByRef (pg_detoast_datum V b) else d)"

subsection \<open>One value\<close>

lemma u32_of_append: "4 \<le> length d \<Longrightarrow> u32_of (d @ rest) = u32_of d"
  by (simp add: u32_of_def)

lemma unbounded_size_detoasted:
  assumes "pg_datum_ok V ok"
  shows "PgColumnarVarSizeAnyUnaligned V (pg_detoast_datum V b @ rest) = length (pg_detoast_datum V b)"
proof -
  let ?d = "pg_detoast_datum V b"
  have d: "4 \<le> length ?d" "\<not> varatt_is_1b V (?d @ rest)" "\<not> varatt_is_1b_e V (?d @ rest)"
      "(u32_of ?d div 4) mod 2 ^ 30 = length ?d"
    using assms by (auto simp: pg_datum_ok_def Let_def)
  then show ?thesis by (simp only: PgColumnarVarSizeAnyUnaligned_def u32_of_append) simp
qed

lemma bounded_size_detoasted:
  assumes "pg_datum_ok V ok"
  shows "PgColumnarVarSizeAnyUnalignedBounded V (pg_detoast_datum V b @ rest) =
    Inr (length (pg_detoast_datum V b))"
proof -
  let ?d = "pg_detoast_datum V b"
  have "4 \<le> length ?d" "\<not> varatt_is_1b V (?d @ rest)" "\<not> varatt_is_1b_e V (?d @ rest)"
      "\<not> varatt_is_external V (?d @ rest)"
    using assms by (auto simp: pg_datum_ok_def Let_def)
  with unbounded_size_detoasted[OF assms] show ?thesis
    by (auto simp: PgColumnarVarSizeAnyUnalignedBounded_def Let_def)
qed

text \<open>The bytes a value occupies in the stream.\<close>

definition value_bytes :: "pg_datum \<Rightarrow> attr \<Rightarrow> datum \<Rightarrow> byte list" where
  "value_bytes V att d =
     (case d of ByVal v \<Rightarrow> store_att_byval V v (nat (attlen att))
      | ByRef b \<Rightarrow> if attlen att = -1 then pg_detoast_datum V b else b)"

lemma encode_value_bytes:
  assumes "pg_datum_ok V ok" and "datum_fits ok att d"
  shows "PgColumnarEncodeValue V buf att d = Inr (buf @ value_bytes V att d)"
  using assms
  by (cases d) (auto simp: datum_fits_def PgColumnarEncodeValue_def PgColumnarEncodeValueByLen_def
      value_bytes_def split: if_splits)

lemma decode_value_bytes:
  assumes "pg_datum_ok V ok" and "datum_fits ok att d"
  shows "PgColumnarDecodeValue V att (value_bytes V att d @ rest) = Inr (stored_datum V att d, rest)"
  using assms
  by (cases d) (auto simp: datum_fits_def PgColumnarDecodeValue_def PgColumnarDecodeValueByLen_def
      stored_datum_def value_bytes_def pg_datum_ok_def bounded_size_detoasted[OF assms(1)] split: if_splits)

lemma stored_datum_idem:
  "pg_datum_ok V ok \<Longrightarrow> stored_datum V att (stored_datum V att d) = stored_datum V att d"
  by (cases d) (auto simp: stored_datum_def pg_datum_ok_def Let_def)

lemma skip_value_eq_decode:
  "pgcolumnar_skip_value V att p =
     res_bind (PgColumnarDecodeValue V att p) (\<lambda>(d, p'). Inr p')"
  by (cases "PgColumnarVarSizeAnyUnalignedBounded V p")
     (auto simp: pgcolumnar_skip_value_def PgColumnarDecodeValue_def PgColumnarDecodeValueByLen_def)

lemma bounded_size_in_range:
  "PgColumnarVarSizeAnyUnalignedBounded V p = Inr n \<Longrightarrow> 0 < n \<and> n \<le> length p"
  by (auto simp: PgColumnarVarSizeAnyUnalignedBounded_def Let_def split: if_splits)

subsection \<open>A stream of values\<close>

definition append_values :: "pg_datum \<Rightarrow> attr \<Rightarrow> datum list \<Rightarrow> byte list result" where
  "append_values V att ds =
     fold (\<lambda>d r. res_bind r (\<lambda>buf. PgColumnarEncodeValue V buf att d)) ds (Inr [])"

fun read_values :: "pg_datum \<Rightarrow> attr \<Rightarrow> nat \<Rightarrow> byte list \<Rightarrow> (datum list \<times> byte list) result" where
  "read_values V att 0 p = Inr ([], p)"
| "read_values V att (Suc n) p =
     res_bind (PgColumnarDecodeValue V att p) (\<lambda>(d, p').
       res_bind (read_values V att n p') (\<lambda>(ds, p''). Inr (d # ds, p'')))"

lemma value_bytes_size:
  assumes "pg_datum_ok V ok" and "datum_fits ok att d"
  shows "0 < length (value_bytes V att d)"
    and "(if attlen att > 0 then nat (attlen att)
      else PgColumnarVarSizeAnyUnaligned V (value_bytes V att d @ rest)) = length (value_bytes V att d)"
proof -
  have "4 \<le> length (pg_detoast_datum V b)" for b
    using assms(1) by (auto simp: pg_datum_ok_def Let_def)
  then have big: "0 < length (pg_detoast_datum V b)" for b by (rule less_le_trans[rotated]) simp
  have dt: "PgColumnarVarSizeAnyUnaligned V (pg_detoast_datum V b @ rest) = length (pg_detoast_datum V b)" for b
    using unbounded_size_detoasted[OF assms(1)] .
  have st: "0 < n \<Longrightarrow> ok v n \<Longrightarrow> length (store_att_byval V v n) = n" for v n
    using assms(1) by (simp add: pg_datum_ok_def)
  show "0 < length (value_bytes V att d)"
      "(if attlen att > 0 then nat (attlen att)
        else PgColumnarVarSizeAnyUnaligned V (value_bytes V att d @ rest)) = length (value_bytes V att d)"
    using assms(2) big dt st
    by (cases d; simp add: datum_fits_def value_bytes_def split: if_splits; force)+
qed

lemma append_values_bytes:
  assumes "pg_datum_ok V ok" and "\<forall>d \<in> set ds. datum_fits ok att d"
  shows "append_values V att ds = Inr (concat (map (value_bytes V att) ds))"
proof -
  have "fold (\<lambda>d r. res_bind r (\<lambda>buf. PgColumnarEncodeValue V buf att d)) ds (Inr buf) =
      Inr (buf @ concat (map (value_bytes V att) ds))" for buf
    using assms(2) by (induction ds arbitrary: buf) (simp_all add: encode_value_bytes[OF assms(1)])
  then show ?thesis by (simp add: append_values_def)
qed

lemma read_values_bytes:
  assumes "pg_datum_ok V ok" and "\<forall>d \<in> set ds. datum_fits ok att d"
  shows "read_values V att (length ds) (concat (map (value_bytes V att) ds) @ rest) =
    Inr (map (stored_datum V att) ds, rest)"
  using assms(2) by (induction ds) (simp_all add: decode_value_bytes[OF assms(1)])

text \<open>The bytes of \<open>n\<close> consecutive values, given the size of the value at a cursor.\<close>

fun split_values :: "(byte list \<Rightarrow> nat) \<Rightarrow> nat \<Rightarrow> byte list \<Rightarrow> byte list list" where
  "split_values sz 0 p = []"
| "split_values sz (Suc n) p = take (sz p) p # split_values sz n (drop (sz p) p)"

fun tiles :: "(byte list \<Rightarrow> nat) \<Rightarrow> nat \<Rightarrow> byte list \<Rightarrow> bool" where
  "tiles sz 0 p = (p = [])"
| "tiles sz (Suc n) p = (sz p \<le> length p \<and> tiles sz n (drop (sz p) p))"

lemma concat_split_values: "tiles sz n p \<Longrightarrow> concat (split_values sz n p) = p"
  by (induction sz n p rule: tiles.induct) simp_all

lemma length_split_values [simp]: "length (split_values sz n p) = n"
  by (induction sz n p rule: split_values.induct) simp_all

lemma tiles_const: "tiles (\<lambda>_. w) n p \<longleftrightarrow> length p = n * w"
  by (induction n arbitrary: p) auto

subsection \<open>A little-endian instance of PostgreSQL's accessors\<close>

definition le_byval_ok :: "u64 \<Rightarrow> nat \<Rightarrow> bool" where
  "le_byval_ok v n \<longleftrightarrow> n \<le> 8 \<and> take_bit (8 * n) v = v"

definition flat_varlena :: "byte list \<Rightarrow> bool" where
  "flat_varlena b \<longleftrightarrow> 4 \<le> length b \<and> length b < 2 ^ 30 \<and> take 4 b = u32_bytes (4 * length b)"

definition le_pg_datum :: pg_datum where
  "le_pg_datum = \<lparr>varatt_is_1b = (\<lambda>p. odd (unat (hd p))), varatt_is_1b_e = (\<lambda>p. hd p = 1),
     varatt_is_external = (\<lambda>p. hd p = 1), varsize_any = (\<lambda>p. unat (hd p) div 2),
     pg_detoast_datum = (\<lambda>b. if flat_varlena b then b
       else let d = take (2 ^ 30 - 5) b in u32_bytes (4 * (4 + length d)) @ d),
     store_att_byval = (\<lambda>v n. le_bytes n v), fetch_att = (\<lambda>p n. le_word (take n p))\<rparr>"

lemma detoasted_flat: "flat_varlena (pg_detoast_datum le_pg_datum b)"
  by (simp add: le_pg_datum_def flat_varlena_def Let_def min_def)

lemma flat_varlena_header:
  assumes "flat_varlena d"
  shows "even (unat (hd (d @ rest)))" "hd (d @ rest) \<noteq> 1" "u32_of d = 4 * length d"
proof -
  let ?m = "length d"
  have m: "4 \<le> ?m" "?m < 2 ^ 30" "take 4 d = u32_bytes (4 * ?m)" using assms by (simp_all add: flat_varlena_def)
  have d: "d = u32_bytes (4 * ?m) @ drop 4 d" using m(3) by (metis append_take_drop_id)
  have "hd (d @ rest) = hd (u32_bytes (4 * ?m) @ drop 4 d @ rest)" by (metis d append_assoc)
  also have "\<dots> = ucast (of_nat (4 * ?m) :: u64)" by (simp add: u32_bytes_def numeral_eq_Suc)
  finally have hd: "hd (d @ rest) = ucast (of_nat (4 * ?m) :: u64)" .
  have "unat (of_nat (4 * ?m) :: u64) = 4 * ?m" using m(2) by (simp only: unat_of_nat) simp
  then have "unat (ucast (of_nat (4 * ?m) :: u64) :: byte) = 4 * ?m mod 256"
    by (simp only: unsigned_ucast_eq) (simp add: take_bit_eq_mod)
  then show ev: "even (unat (hd (d @ rest)))" by (simp add: hd dvd_mod_iff)
  then show "hd (d @ rest) \<noteq> 1" by (metis odd_one unat_1)
  have "u32_of (u32_bytes (4 * ?m) @ drop 4 d) = 4 * ?m" using m(2) by (intro u32_of_bytes) simp
  then show "u32_of d = 4 * ?m" using d by metis
qed

lemma le_pg_datum_ok: "pg_datum_ok le_pg_datum le_byval_ok"
proof -
  have by_value: "length (le_bytes n v) = n \<and> le_word (take n (le_bytes n v @ rest)) = v"
    if "le_byval_ok v n" for v n rest
    using that by (simp add: le_byval_ok_def le_word_le_bytes)
  have header: "4 \<le> length d \<and> even (unat (hd (d @ rest))) \<and> hd (d @ rest) \<noteq> 1 \<and>
      (u32_of d div 4) mod 2 ^ 30 = length d \<and> pg_detoast_datum le_pg_datum d = d"
    if "flat_varlena d" for d rest
    using flat_varlena_header[OF that] that by (simp add: flat_varlena_def le_pg_datum_def)
  have flags: "varatt_is_1b le_pg_datum p = odd (unat (hd p))" "varatt_is_1b_e le_pg_datum p = (hd p = 1)"
      "varatt_is_external le_pg_datum p = (hd p = 1)" "store_att_byval le_pg_datum v n = le_bytes n v"
      "fetch_att le_pg_datum p n = le_word (take n p)" for p v n
    by (simp_all add: le_pg_datum_def)
  show ?thesis using by_value header[OF detoasted_flat] unfolding pg_datum_ok_def Let_def flags by blast
qed

subsection \<open>Properties\<close>

text \<open>
  C35: A column's values written one after the other are read back one after the other: for
  by-value, fixed-length and variable-length columns, the append loop succeeds and the
  read loop returns each stored datum (a variable-length one in its detoasted form) and
  ends exactly at the end of the stream.
\<close>

theorem value_stream_roundtrip:
  assumes "pg_datum_ok V ok" and "\<forall>d \<in> set ds. datum_fits ok att d"
  shows "\<exists>bs. append_values V att ds = Inr bs \<and>
    read_values V att (length ds) bs = Inr (map (stored_datum V att) ds, [])"
  using append_values_bytes[OF assms] read_values_bytes[OF assms, of "[]"] by simp

theorem value_stream_roundtrip_witness:
  "\<exists>bs. append_values le_pg_datum \<lparr>attlen = -1, attbyval = False, atttypid = 25\<rparr> [ByRef [1, 2], ByRef []] = Inr bs \<and>
    read_values le_pg_datum \<lparr>attlen = -1, attbyval = False, atttypid = 25\<rparr> 2 bs =
      Inr (map (stored_datum le_pg_datum \<lparr>attlen = -1, attbyval = False, atttypid = 25\<rparr>) [ByRef [1, 2], ByRef []], [])"
  using value_stream_roundtrip[OF le_pg_datum_ok,
      of "[ByRef [1, 2], ByRef []]" "\<lparr>attlen = -1, attbyval = False, atttypid = 25\<rparr>"]
  by (simp add: datum_fits_def numeral_2_eq_2)

text \<open>
  C36: The reader's bounds check holds on any bytes at all: a size the bounded varlena scan
  accepts is at least one and ends inside the stream, and skipping a value moves the
  cursor, or fails, exactly as decoding it would.
\<close>

theorem value_cursor_in_bounds:
  "(case PgColumnarVarSizeAnyUnalignedBounded V p of
      Inl e \<Rightarrow> True | Inr n \<Rightarrow> 0 < n \<and> n \<le> length p) \<and>
   pgcolumnar_skip_value V att p = res_bind (PgColumnarDecodeValue V att p) (\<lambda>(d, p'). Inr p')"
  using bounded_size_in_range skip_value_eq_decode by (simp split: sum.split)

end
