(* ===== verification/Probe.thy ===== *)
theory Probe
  imports Columnar_Prelude
begin

unbundle bit_operations_syntax

section \<open>Open addressing with linear probing\<close>

text \<open>
  Four routines of \<open>src/src/columnar_encoding.c\<close> probe a power-of-two table from a hashed
  slot to the next one, wrapping with \<open>& mask\<close>, until a slot stops them: the dictionary
  build, the FSST symbol lookup, the FSST candidate counter and the distinct count of
  \<open>PgColumnarFsstDictWins\<close>. The loops have no bound of their own. \<open>probe\<close> gives them one
  unit of fuel per slot; the locale shows that a table with a free slot never needs more,
  and that a lookup finds exactly the keys that were inserted.
\<close>

primrec probe :: "nat \<Rightarrow> (nat \<Rightarrow> bool) \<Rightarrow> nat \<Rightarrow> nat \<Rightarrow> nat result" where
  "probe 0 stop msk s = Inl Loop_Exhausted"
| "probe (Suc fuel) stop msk s =
     (if stop s then Inr s else probe fuel stop msk ((s + 1) AND msk))"

lemma and_mask_mod: "(n :: nat) AND (2 ^ k - 1) = n mod 2 ^ k"
  by (simp add: take_bit_eq_mod[symmetric] take_bit_eq_mask mask_eq_exp_minus_1)

lemma probe_Inr:
  assumes "s < 2 ^ k"
  shows "probe fuel stop (2 ^ k - 1) s = Inr t \<longleftrightarrow>
    (\<exists>d < fuel. t = (s + d) mod 2 ^ k \<and> stop t \<and> (\<forall>e < d. \<not> stop ((s + e) mod 2 ^ k)))"
  using assms
proof (induction fuel arbitrary: s)
  case (Suc fuel)
  let ?s = "(s + 1) mod 2 ^ k"
  have shift: "(?s + d) mod 2 ^ k = (s + Suc d) mod 2 ^ k" for d
    by (simp add: mod_add_left_eq)
  have s0: "(s + 0) mod 2 ^ k = s" using Suc.prems by simp
  have IH: "probe fuel stop (2 ^ k - 1) ?s = Inr t \<longleftrightarrow>
      (\<exists>d < fuel. t = (s + Suc d) mod 2 ^ k \<and> stop t \<and> (\<forall>e < d. \<not> stop ((s + Suc e) mod 2 ^ k)))"
    by (subst Suc.IH) (simp_all only: shift, simp)
  show ?case
  proof (cases "stop s")
    case True
    then have "(\<forall>e < d. \<not> stop ((s + e) mod 2 ^ k)) \<longleftrightarrow> d = 0" for d
      using s0 by (metis gr0I not_less0)
    then show ?thesis using True s0 by (auto 0 3 intro: exI[of _ 0])
  next
    case False
    have ex: "(\<exists>d < Suc fuel. P d) \<longleftrightarrow> P 0 \<or> (\<exists>d < fuel. P (Suc d))" for P
      using less_Suc_eq_0_disj by auto
    have al: "(\<forall>e < Suc d. P e) \<longleftrightarrow> P 0 \<and> (\<forall>e < d. P (Suc e))" for P d
      using less_Suc_eq_0_disj by auto
    have step: "probe (Suc fuel) stop (2 ^ k - 1) s = probe fuel stop (2 ^ k - 1) ?s"
      using False by (simp only: probe.simps and_mask_mod if_False)
    show ?thesis unfolding step IH ex al s0 using False by blast
  qed
qed simp

text \<open>
  A table is abstracted to the key each slot holds. Its invariant is that the probe
  path of a stored key, from its hash to its slot, has no empty slot.
\<close>

definition occupied :: "nat \<Rightarrow> (nat \<Rightarrow> 'k option) \<Rightarrow> nat set" where
  "occupied k T = {s. s < 2 ^ k \<and> T s \<noteq> None}"

definition paths_ok :: "nat \<Rightarrow> ('k \<Rightarrow> nat) \<Rightarrow> (nat \<Rightarrow> 'k option) \<Rightarrow> bool" where
  "paths_ok k hash T \<longleftrightarrow> (\<forall>s < 2 ^ k. \<forall>x. T s = Some x \<longrightarrow>
     (\<exists>d < 2 ^ k. s = (hash x + d) mod 2 ^ k \<and> (\<forall>e < d. T ((hash x + e) mod 2 ^ k) \<noteq> None)))"

lemma finite_occupied [simp]: "finite (occupied k T)"
  by (simp add: occupied_def)

lemma occupied_empty [simp]: "occupied k (\<lambda>s. None) = {}"
  by (simp add: occupied_def)

lemma paths_ok_empty [simp]: "paths_ok k hash (\<lambda>s. None)"
  by (simp add: paths_ok_def)

lemma free_slot:
  assumes "card (occupied k T) < 2 ^ k"
  obtains u where "u < 2 ^ k" "T u = None"
proof -
  have "card (occupied k T) \<noteq> card {..<2 ^ k :: nat}" using assms by (simp add: card_lessThan)
  then have "occupied k T \<noteq> {..<2 ^ k}" by metis
  moreover have "occupied k T \<subseteq> {..<2 ^ k}" by (auto simp: occupied_def)
  ultimately obtain u where "u \<in> {..<2 ^ k} - occupied k T" by blast
  then show thesis using that[of u] by (simp add: occupied_def)
qed

lemma card_occupied_insert:
  assumes "t < 2 ^ k" and "T t = None"
  shows "card (occupied k (T(t \<mapsto> x))) = Suc (card (occupied k T))"
proof -
  have "occupied k (T(t \<mapsto> x)) = insert t (occupied k T)" using assms by (auto simp: occupied_def)
  moreover have "t \<notin> occupied k T" using assms by (simp add: occupied_def)
  ultimately show ?thesis by simp
qed

lemma probe_returns:
  assumes "s < 2 ^ k" and "u < 2 ^ k" and "stop u"
  obtains t where "probe (2 ^ k) stop (2 ^ k - 1) s = Inr t" "t < 2 ^ k" "stop t"
proof -
  let ?P = "\<lambda>d. stop ((s + d) mod 2 ^ k)"
  define c where "c = (u + 2 ^ k - s) mod 2 ^ k"
  have "(s + c) mod 2 ^ k = (s + (u + 2 ^ k - s)) mod 2 ^ k" by (simp add: c_def mod_add_right_eq)
  then have "?P c" using assms by simp
  then obtain d where d: "d \<le> c" "?P d" "\<forall>e < d. \<not> ?P e" by (rule first_nat)
  moreover have "c < 2 ^ k" by (simp add: c_def)
  ultimately have "probe (2 ^ k) stop (2 ^ k - 1) s = Inr ((s + d) mod 2 ^ k)"
    unfolding probe_Inr[OF assms(1)] by (intro exI[of _ d]) auto
  then show thesis using that d(2) by simp
qed

locale open_table =
  fixes k :: nat and hash :: "'k \<Rightarrow> nat"
  assumes hash_range: "hash x < 2 ^ k"
begin

lemma lookup_returns:
  assumes "card (occupied k T) < 2 ^ k" and "\<And>s. T s = None \<Longrightarrow> stop s"
  obtains t where "probe (2 ^ k) stop (2 ^ k - 1) (hash x) = Inr t" "t < 2 ^ k" "stop t"
proof -
  obtain u where u: "u < 2 ^ k" "T u = None" using free_slot[OF assms(1)] .
  then show thesis using probe_returns[of "hash x" k u stop] hash_range assms(2) that by blast
qed

lemma lookup_present:
  assumes "paths_ok k hash T" and "s < 2 ^ k" "T s = Some x"
    and stop: "\<And>s. s < 2 ^ k \<Longrightarrow> stop s \<longleftrightarrow> T s = None \<or> T s = Some x"
  obtains t where "probe (2 ^ k) stop (2 ^ k - 1) (hash x) = Inr t" "t < 2 ^ k" "T t = Some x"
proof -
  obtain d where d: "d < 2 ^ k" "s = (hash x + d) mod 2 ^ k"
      "\<forall>e < d. T ((hash x + e) mod 2 ^ k) \<noteq> None"
    using assms(1-3) unfolding paths_ok_def by blast
  let ?P = "\<lambda>d. T ((hash x + d) mod 2 ^ k) = Some x"
  have "?P d" using d assms(3) by simp
  then obtain c where c: "c \<le> d" "?P c" "\<forall>e < c. \<not> ?P e" by (rule first_nat)
  then have "probe (2 ^ k) stop (2 ^ k - 1) (hash x) = Inr ((hash x + c) mod 2 ^ k)"
    using d unfolding probe_Inr[OF hash_range] by (intro exI[of _ c]) (auto simp: stop)
  then show thesis using that c(2) by simp
qed

lemma insert_paths_ok:
  assumes "paths_ok k hash T" and "probe (2 ^ k) stop (2 ^ k - 1) (hash x) = Inr t"
    and "\<And>s. T s = None \<Longrightarrow> stop s"
  shows "paths_ok k hash (T(t \<mapsto> x))"
  unfolding paths_ok_def
proof (intro allI impI)
  fix s y assume s: "s < 2 ^ k" "(T(t \<mapsto> x)) s = Some y"
  obtain d where d: "d < 2 ^ k" "t = (hash x + d) mod 2 ^ k"
      "\<forall>e < d. T ((hash x + e) mod 2 ^ k) \<noteq> None"
    using assms(2,3) unfolding probe_Inr[OF hash_range] by blast
  show "\<exists>d < 2 ^ k. s = (hash y + d) mod 2 ^ k \<and>
      (\<forall>e < d. (T(t \<mapsto> x)) ((hash y + e) mod 2 ^ k) \<noteq> None)"
  proof (cases "s = t")
    case True
    with s d show ?thesis by (intro exI[of _ d]) auto
  next
    case False
    then have "T s = Some y" using s by simp
    then obtain c where "c < 2 ^ k" "s = (hash y + c) mod 2 ^ k"
        "\<forall>e < c. T ((hash y + e) mod 2 ^ k) \<noteq> None"
      using assms(1) s(1) unfolding paths_ok_def by blast
    then show ?thesis by (intro exI[of _ c]) auto
  qed
qed

end

end
