(* ===== verification/Encoding_Dict.thy ===== *)
theory Encoding_Dict
  imports Value_Stream Probe
begin

unbundle bit_operations_syntax

section \<open>DICT: dictionary encoding\<close>

text \<open>
  \<open>encode_dict\<close> and \<open>decode_dict\<close> of \<open>src/src/columnar_encoding.c\<close>, with the FNV-1a hash
  and the open-addressing index of distinct values. The arrays \<open>distOff\<close> and \<open>distLen\<close>
  are one list of pairs; the hash array \<open>hslot\<close> is a function from slots to entries. The
  build is proved equal to the linear first-seen dictionary it replaced, its probing loop
  is proved to return, and decoding gives back the value stream.
\<close>

subsection \<open>Definitions\<close>

definition pgcolumnar_fnv1a :: "byte list \<Rightarrow> u64" where
  "pgcolumnar_fnv1a p =
     fold (\<lambda>b h. (h XOR ucast b) * 1099511628211) p 1469598103934665603"

definition DICT_MAX_DISTINCT :: nat where
  "DICT_MAX_DISTINCT = 1024"

definition DICT_HASH_SLOTS :: nat where
  "DICT_HASH_SLOTS = 2048"

definition value_size :: "pg_datum \<Rightarrow> int \<Rightarrow> byte list \<Rightarrow> nat" where
  "value_size V w p = (if w > 0 then nat w else PgColumnarVarSizeAnyUnaligned V p)"

record dict_state =
  d_hslot :: "nat \<Rightarrow> nat"
  d_dist :: "(nat \<times> nat) list"
  d_codes :: "nat list"
  d_pos :: nat

definition dict_init :: dict_state where
  "dict_init = \<lparr>d_hslot = (\<lambda>_. 0), d_dist = [], d_codes = [], d_pos = 0\<rparr>"

definition dict_entry :: "byte list \<Rightarrow> nat \<times> nat \<Rightarrow> byte list" where
  "dict_entry raw ol = take (snd ol) (drop (fst ol) raw)"

definition dict_stop :: "byte list \<Rightarrow> dict_state \<Rightarrow> nat \<Rightarrow> nat \<Rightarrow> bool" where
  "dict_stop raw st vlen s \<longleftrightarrow>
     (let entry = d_hslot st s
      in entry = 0 \<or>
         (snd (d_dist st ! (entry - 1)) = vlen \<and>
          dict_entry raw (d_dist st ! (entry - 1)) = take vlen (drop (d_pos st) raw)))"

text \<open>One value. The inner \<open>None\<close> is the source's \<open>return false\<close>.\<close>

definition dict_step :: "pg_datum \<Rightarrow> int \<Rightarrow> byte list \<Rightarrow> dict_state \<Rightarrow> dict_state option result" where
  "dict_step V w raw st =
     (let vp = drop (d_pos st) raw;
          vlen = value_size V w vp;
          h = pgcolumnar_fnv1a (take vlen vp);
          pos' = (d_pos st + vlen) mod 2 ^ 32;
          nd = length (d_dist st)
      in res_bind (probe DICT_HASH_SLOTS (dict_stop raw st vlen) (DICT_HASH_SLOTS - 1)
                     (unat (h AND of_nat (DICT_HASH_SLOTS - 1))))
           (\<lambda>s. if d_hslot st s \<noteq> 0
                then Inr (Some (st\<lparr>d_codes := d_codes st @ [d_hslot st s - 1], d_pos := pos'\<rparr>))
                else if nd \<ge> DICT_MAX_DISTINCT then Inr None
                else Inr (Some \<lparr>d_hslot = (d_hslot st)(s := nd + 1),
                                d_dist = d_dist st @ [(d_pos st, vlen)],
                                d_codes = d_codes st @ [nd], d_pos = pos'\<rparr>)))"

fun dict_loop ::
  "pg_datum \<Rightarrow> int \<Rightarrow> byte list \<Rightarrow> nat \<Rightarrow> dict_state \<Rightarrow> dict_state option result" where
  "dict_loop V w raw 0 st = Inr (Some st)"
| "dict_loop V w raw (Suc n) st =
     res_bind (dict_step V w raw st)
       (\<lambda>r. case r of None \<Rightarrow> Inr None | Some st' \<Rightarrow> dict_loop V w raw n st')"

definition dict_serialize :: "int \<Rightarrow> byte list list \<Rightarrow> nat list \<Rightarrow> byte list" where
  "dict_serialize w ents codes =
     (let nd = length ents; codeWidth = bits_needed (if nd > 0 then of_nat (nd - 1) else 0)
      in u32_bytes nd
         @ concat (map (\<lambda>e. if w > 0 then e else u32_bytes (length e) @ e) ents)
         @ [of_nat codeWidth] @ bitpack (map of_nat codes) codeWidth)"

definition encode_dict :: "pg_datum \<Rightarrow> byte list \<Rightarrow> int \<Rightarrow> nat \<Rightarrow> byte list option result" where
  "encode_dict V raw w n =
     res_bind (dict_loop V w raw n dict_init)
       (\<lambda>r. case r of
          None \<Rightarrow> Inr None
        | Some st \<Rightarrow>
            Inr (beats_raw raw (dict_serialize w (map (dict_entry raw) (d_dist st)) (d_codes st))))"

fun dict_read_entries :: "int \<Rightarrow> nat \<Rightarrow> byte list \<Rightarrow> (byte list list \<times> byte list) result" where
  "dict_read_entries w 0 p = Inr ([], p)"
| "dict_read_entries w (Suc nd) p =
     (if w > 0
      then if length p < nat w then Inl (Corrupt ''DICT fixed entry past encoded length'')
           else res_bind (dict_read_entries w nd (drop (nat w) p))
                  (\<lambda>(es, p'). Inr (take (nat w) p # es, p'))
      else if length p < 4 then Inl (Corrupt ''DICT varlen header past encoded length'')
      else let dlen = u32_of p; q = drop 4 p
           in if dlen > length q then Inl (Corrupt ''DICT varlen entry past encoded length'')
              else res_bind (dict_read_entries w nd (drop dlen q))
                     (\<lambda>(es, p'). Inr (take dlen q # es, p')))"

fun dict_emit :: "byte list list \<Rightarrow> u64 list \<Rightarrow> nat \<Rightarrow> byte list \<Rightarrow> byte list result" where
  "dict_emit ents [] rawLen out =
     (if length out \<noteq> rawLen then Inl (Corrupt ''DICT output length does not match raw length'')
      else Inr out)"
| "dict_emit ents (c # cs) rawLen out =
     (let code = unat c mod 2 ^ 32
      in if code \<ge> length ents then Inl (Corrupt ''DICT code out of range'')
         else if length (ents ! code) > rawLen - length out
         then Inl (Corrupt ''DICT output exceeds raw length'')
         else dict_emit ents cs rawLen (out @ ents ! code))"

definition decode_dict :: "byte list \<Rightarrow> int \<Rightarrow> nat \<Rightarrow> nat \<Rightarrow> byte list result" where
  "decode_dict enc w n rawLen =
     (if length enc < 4 then Inl (Corrupt ''DICT header truncated'')
      else res_bind (dict_read_entries w (u32_of enc) (drop 4 enc))
        (\<lambda>(ents, p).
           if p = [] then Inl (Corrupt ''DICT code width past encoded length'')
           else res_bind (bitunpack (tl p) n (unat (hd p)))
                  (\<lambda>codes. dict_emit ents codes rawLen [])))"

text \<open>The linear build: scan the distinct values seen so far for each value.\<close>

fun index_of :: "'a \<Rightarrow> 'a list \<Rightarrow> nat" where
  "index_of x [] = 0"
| "index_of x (y # ys) = (if x = y then 0 else Suc (index_of x ys))"

fun dict_linear ::
  "byte list list \<Rightarrow> byte list list \<Rightarrow> nat list \<Rightarrow> (byte list list \<times> nat list) option" where
  "dict_linear [] ents codes = Some (ents, codes)"
| "dict_linear (v # vs) ents codes =
     (if v \<in> set ents then dict_linear vs ents (codes @ [index_of v ents])
      else if length ents \<ge> DICT_MAX_DISTINCT then None
      else dict_linear vs (ents @ [v]) (codes @ [length ents]))"

subsection \<open>The hash index finds exactly the values seen so far\<close>

lemma index_of_less: "x \<in> set xs \<Longrightarrow> index_of x xs < length xs"
  by (induction xs) auto

lemma nth_index_of: "x \<in> set xs \<Longrightarrow> xs ! index_of x xs = x"
  by (induction xs) auto

lemma index_of_nth: "distinct xs \<Longrightarrow> i < length xs \<Longrightarrow> index_of (xs ! i) xs = i"
  by (induction xs arbitrary: i) (auto simp: nth_Cons' less_Suc_eq_0_disj)

definition dict_hash :: "byte list \<Rightarrow> nat" where
  "dict_hash v = unat (pgcolumnar_fnv1a v AND of_nat (DICT_HASH_SLOTS - 1))"

lemma and_2047_less: "unat ((h :: u64) AND 2047) < 2048"
  using word_and_le1[of h 2047] by (simp add: word_le_nat_alt)

interpretation dict_table: open_table 11 dict_hash
  by unfold_locales (use and_2047_less in \<open>simp add: dict_hash_def DICT_HASH_SLOTS_def\<close>)

text \<open>The table the state stands for, and the invariant of the build.\<close>

definition dict_keys :: "byte list \<Rightarrow> dict_state \<Rightarrow> byte list list" where
  "dict_keys raw st = map (dict_entry raw) (d_dist st)"

definition dict_tab :: "byte list \<Rightarrow> dict_state \<Rightarrow> nat \<Rightarrow> byte list option" where
  "dict_tab raw st s =
     (if d_hslot st s = 0 then None else Some (dict_keys raw st ! (d_hslot st s - 1)))"

definition dict_inv :: "byte list \<Rightarrow> dict_state \<Rightarrow> bool" where
  "dict_inv raw st \<longleftrightarrow>
     paths_ok 11 dict_hash (dict_tab raw st) \<and>
     card (occupied 11 (dict_tab raw st)) = length (d_dist st) \<and>
     length (d_dist st) \<le> DICT_MAX_DISTINCT \<and> distinct (dict_keys raw st) \<and>
     (\<forall>s. d_hslot st s \<le> length (d_dist st)) \<and>
     (\<forall>i < length (d_dist st). \<exists>s < 2048. d_hslot st s = i + 1) \<and>
     (\<forall>ol \<in> set (d_dist st). fst ol + snd ol \<le> length raw)"

lemma dict_init_inv: "dict_inv raw dict_init"
proof -
  have "dict_tab raw dict_init = (\<lambda>s. None)" by (simp add: dict_tab_def dict_init_def fun_eq_iff)
  then show ?thesis by (simp add: dict_inv_def) (simp add: dict_init_def dict_keys_def)
qed

lemma dict_slot_entry:
  assumes "dict_inv raw st" and "d_hslot st s \<noteq> 0"
  shows "d_hslot st s - 1 < length (d_dist st)"
proof -
  have "d_hslot st s \<le> length (d_dist st)" using assms(1) by (simp add: dict_inv_def)
  with assms(2) show ?thesis by linarith
qed

lemma length_dict_keys [simp]: "length (dict_keys raw st) = length (d_dist st)"
  by (simp add: dict_keys_def)

lemma dict_tab_key: "dict_inv raw st \<Longrightarrow> dict_tab raw st s = Some v \<Longrightarrow> v \<in> set (dict_keys raw st)"
  using dict_slot_entry[of raw st s] by (auto simp: dict_tab_def split: if_splits)

lemma dict_stop_tab:
  assumes inv: "dict_inv raw st" and len: "d_pos st + vlen \<le> length raw"
  shows "dict_stop raw st vlen s \<longleftrightarrow>
    dict_tab raw st s = None \<or> dict_tab raw st s = Some (take vlen (drop (d_pos st) raw))"
proof (cases "d_hslot st s = 0")
  case False
  then have i: "d_hslot st s - 1 < length (d_dist st)"
    by (rule dict_slot_entry[OF inv])
  let ?ol = "d_dist st ! (d_hslot st s - 1)"
  have "fst ?ol + snd ?ol \<le> length raw" using inv i by (auto simp: dict_inv_def)
  then have "length (dict_entry raw ?ol) = snd ?ol" by (auto simp: dict_entry_def)
  moreover have "length (take vlen (drop (d_pos st) raw)) = vlen" using len by simp
  ultimately show ?thesis
    using False i by (auto simp: dict_stop_def Let_def dict_tab_def dict_keys_def)
qed (simp add: dict_stop_def dict_tab_def)

text \<open>A value seen before gets its code; a new one is appended, until the cap.\<close>

lemma dict_step_seen:
  assumes inv: "dict_inv raw st" and len: "d_pos st + vlen \<le> length raw" "length raw < 2 ^ 32"
    and vlen: "vlen = value_size V w (drop (d_pos st) raw)"
    and v: "v = take vlen (drop (d_pos st) raw)" "v \<in> set (dict_keys raw st)"
  shows "dict_step V w raw st =
    Inr (Some (st\<lparr>d_codes := d_codes st @ [index_of v (dict_keys raw st)], d_pos := d_pos st + vlen\<rparr>))"
proof -
  let ?keys = "dict_keys raw st"
  obtain i where i: "i < length (d_dist st)" "?keys ! i = v"
    using v(2) by (auto simp: in_set_conv_nth dict_keys_def)
  obtain s where "s < 2 ^ 11" "dict_tab raw st s = Some v"
    using inv i by (auto simp: dict_inv_def dict_tab_def)
  then obtain t where t: "probe (2 ^ 11) (dict_stop raw st vlen) (2 ^ 11 - 1) (dict_hash v) = Inr t"
      "t < 2 ^ 11" "dict_tab raw st t = Some v"
    using dict_table.lookup_present[of "dict_tab raw st" s v "dict_stop raw st vlen"] inv
    by (auto simp: dict_inv_def dict_stop_tab[OF inv len(1)] v(1)[symmetric])
  then have h: "d_hslot st t \<noteq> 0" "?keys ! (d_hslot st t - 1) = v"
    by (auto simp: dict_tab_def split: if_splits)
  have "d_hslot st t - 1 < length ?keys"
    using dict_slot_entry[OF inv h(1)] by simp
  then have "index_of v ?keys = d_hslot st t - 1"
    using index_of_nth[of ?keys "d_hslot st t - 1"] inv h(2) by (simp add: dict_inv_def)
  then show ?thesis
    using t(1) h(1) len
    by (simp add: dict_step_def Let_def vlen[symmetric] v(1)[symmetric] dict_hash_def DICT_HASH_SLOTS_def)
qed

lemma dict_step_new:
  assumes inv: "dict_inv raw st" and len: "d_pos st + vlen \<le> length raw" "length raw < 2 ^ 32"
    and vlen: "vlen = value_size V w (drop (d_pos st) raw)"
    and v: "v = take vlen (drop (d_pos st) raw)" "v \<notin> set (dict_keys raw st)"
  obtains t where "t < 2048" "d_hslot st t = 0"
    and "paths_ok 11 dict_hash ((dict_tab raw st)(t \<mapsto> v))"
    and "dict_step V w raw st = (if length (d_dist st) \<ge> DICT_MAX_DISTINCT then Inr None
        else Inr (Some \<lparr>d_hslot = (d_hslot st)(t := length (d_dist st) + 1),
               d_dist = d_dist st @ [(d_pos st, vlen)],
               d_codes = d_codes st @ [length (d_dist st)], d_pos = d_pos st + vlen\<rparr>))"
proof -
  let ?T = "dict_tab raw st"
  have "card (occupied 11 ?T) < 2 ^ 11" using inv by (simp add: dict_inv_def DICT_MAX_DISTINCT_def)
  then obtain t where t: "probe (2 ^ 11) (dict_stop raw st vlen) (2 ^ 11 - 1) (dict_hash v) = Inr t"
      "t < 2 ^ 11" "dict_stop raw st vlen t"
    by (rule dict_table.lookup_returns[of ?T "dict_stop raw st vlen" v])
       (auto simp: dict_stop_tab[OF inv len(1)])
  have "?T s \<noteq> Some v" for s using v(2) dict_tab_key[OF inv, of s v] by blast
  then have h: "d_hslot st t = 0"
    using t(3) by (auto simp: dict_stop_tab[OF inv len(1)] v(1)[symmetric] dict_tab_def split: if_splits)
  have "paths_ok 11 dict_hash (?T(t \<mapsto> v))"
    using inv t(1) by (intro dict_table.insert_paths_ok[where stop = "dict_stop raw st vlen"])
      (auto simp: dict_inv_def dict_stop_tab[OF inv len(1)])
  moreover have "dict_step V w raw st = (if length (d_dist st) \<ge> DICT_MAX_DISTINCT then Inr None
        else Inr (Some \<lparr>d_hslot = (d_hslot st)(t := length (d_dist st) + 1),
               d_dist = d_dist st @ [(d_pos st, vlen)],
               d_codes = d_codes st @ [length (d_dist st)], d_pos = d_pos st + vlen\<rparr>))"
    using t(1) h len
    by (simp add: dict_step_def Let_def vlen[symmetric] v(1)[symmetric] dict_hash_def DICT_HASH_SLOTS_def)
  ultimately show thesis using that[of t] t(2) h by simp
qed

lemma dict_insert_inv:
  assumes inv: "dict_inv raw st" and room: "length (d_dist st) < DICT_MAX_DISTINCT"
    and len: "d_pos st + vlen \<le> length raw"
    and v: "v = take vlen (drop (d_pos st) raw)" "v \<notin> set (dict_keys raw st)"
    and t: "t < 2048" "d_hslot st t = 0" "paths_ok 11 dict_hash ((dict_tab raw st)(t \<mapsto> v))"
    and st': "st' = \<lparr>d_hslot = (d_hslot st)(t := length (d_dist st) + 1),
               d_dist = d_dist st @ [(d_pos st, vlen)], d_codes = cs, d_pos = pos'\<rparr>"
  shows "dict_inv raw st' \<and> dict_keys raw st' = dict_keys raw st @ [v]"
proof -
  have keys: "dict_keys raw st' = dict_keys raw st @ [v]"
    by (simp add: st' dict_keys_def dict_entry_def v(1))
  have le: "d_hslot st s \<le> length (d_dist st)" for s using inv by (simp add: dict_inv_def)
  have tab: "dict_tab raw st' = (dict_tab raw st)(t \<mapsto> v)"
  proof
    fix s
    have hs: "d_hslot st' s = (if s = t then length (d_dist st) + 1 else d_hslot st s)" for s
      by (simp add: st')
    show "dict_tab raw st' s = ((dict_tab raw st)(t \<mapsto> v)) s"
      using dict_slot_entry[OF inv, of s]
      by (cases "s = t") (simp_all add: dict_tab_def keys nth_append hs)
  qed
  have "card (occupied 11 (dict_tab raw st')) = length (d_dist st')"
    using inv t(1,2) card_occupied_insert[of t 11 "dict_tab raw st" v]
    by (simp add: tab dict_inv_def) (simp add: st' dict_tab_def)
  moreover have "\<exists>s < 2048. d_hslot st' s = i + 1" if "i < length (d_dist st')" for i
  proof (cases "i = length (d_dist st)")
    case False
    with that have "i < length (d_dist st)" by (simp add: st')
    then obtain s where "s < 2048" "d_hslot st s = i + 1" using inv by (auto simp: dict_inv_def)
    with t(2) show ?thesis by (intro exI[of _ s]) (auto simp: st')
  qed (use t(1) in \<open>auto simp: st'\<close>)
  moreover have "\<forall>s. d_hslot st' s \<le> length (d_dist st')"
    using le by (auto simp: st' le_SucI)
  moreover have "distinct (dict_keys raw st')"
    using inv v(2) unfolding keys by (simp add: dict_inv_def)
  moreover have "length (d_dist st') \<le> DICT_MAX_DISTINCT"
      "\<forall>ol \<in> set (d_dist st'). fst ol + snd ol \<le> length raw"
    using inv room len by (auto simp: dict_inv_def st')
  ultimately have "dict_inv raw st'" using t(3) by (simp add: dict_inv_def tab)
  with keys show ?thesis by simp
qed

subsection \<open>The hashed build is the linear build\<close>

lemma dict_loop_linear:
  assumes "dict_inv raw st" and "length raw < 2 ^ 32" and "d_pos st \<le> length raw"
    and "tiles (value_size V w) n (drop (d_pos st) raw)"
  shows "\<exists>r. dict_loop V w raw n st = Inr r \<and>
    map_option (\<lambda>st'. (dict_keys raw st', d_codes st')) r =
      dict_linear (split_values (value_size V w) n (drop (d_pos st) raw)) (dict_keys raw st) (d_codes st)"
  using assms
proof (induction n arbitrary: st)
  case (Suc n)
  define vlen where "vlen = value_size V w (drop (d_pos st) raw)"
  define v where "v = take vlen (drop (d_pos st) raw)"
  have len: "d_pos st + vlen \<le> length raw" using Suc.prems(3,4) by (auto simp: vlen_def)
  have tl: "tiles (value_size V w) n (drop (d_pos st + vlen) raw)"
    using Suc.prems(4) by (simp add: vlen_def add.commute)
  have sv: "split_values (value_size V w) (Suc n) (drop (d_pos st) raw) =
      v # split_values (value_size V w) n (drop (d_pos st + vlen) raw)"
    by (simp add: v_def vlen_def add.commute)
  show ?case
  proof (cases "v \<in> set (dict_keys raw st)")
    case True
    let ?st = "st\<lparr>d_codes := d_codes st @ [index_of v (dict_keys raw st)], d_pos := d_pos st + vlen\<rparr>"
    have "dict_keys raw ?st = dict_keys raw st" "dict_tab raw ?st = dict_tab raw st"
      by (simp_all add: dict_keys_def dict_tab_def fun_eq_iff)
    moreover from this have "dict_inv raw ?st" using Suc.prems(1) by (simp add: dict_inv_def)
    ultimately show ?thesis
      using Suc.IH[of ?st] Suc.prems(2) len tl True
        dict_step_seen[OF Suc.prems(1) len Suc.prems(2) vlen_def v_def True]
      by (simp only: sv dict_loop.simps) simp
  next
    case False
    obtain t where t: "t < 2048" "d_hslot st t = 0"
        "paths_ok 11 dict_hash ((dict_tab raw st)(t \<mapsto> v))"
      and step: "dict_step V w raw st = (if length (d_dist st) \<ge> DICT_MAX_DISTINCT then Inr None
        else Inr (Some \<lparr>d_hslot = (d_hslot st)(t := length (d_dist st) + 1),
               d_dist = d_dist st @ [(d_pos st, vlen)],
               d_codes = d_codes st @ [length (d_dist st)], d_pos = d_pos st + vlen\<rparr>))"
      using dict_step_new[OF Suc.prems(1) len Suc.prems(2) vlen_def v_def False] .
    show ?thesis
    proof (cases "length (d_dist st) \<ge> DICT_MAX_DISTINCT")
      case True
      with False step show ?thesis by (simp only: sv dict_loop.simps) simp
    next
      case room: False
      let ?st = "\<lparr>d_hslot = (d_hslot st)(t := length (d_dist st) + 1),
               d_dist = d_dist st @ [(d_pos st, vlen)],
               d_codes = d_codes st @ [length (d_dist st)], d_pos = d_pos st + vlen\<rparr>"
      have "dict_inv raw ?st \<and> dict_keys raw ?st = dict_keys raw st @ [v]"
        using room by (intro dict_insert_inv[OF Suc.prems(1) _ len v_def False t refl]) simp
      then show ?thesis
        using Suc.IH[of ?st] Suc.prems(2) len tl False step room
        by (simp only: sv dict_loop.simps) simp
    qed
  qed
qed simp

subsection \<open>Round trip\<close>

lemma dict_linear_spec:
  assumes "dict_linear vs ents codes = Some (ents', codes')"
    and "\<forall>c \<in> set codes. c < length ents" and "map ((!) ents) codes = prev"
  shows "(\<forall>c \<in> set codes'. c < length ents') \<and> map ((!) ents') codes' = prev @ vs \<and>
    set ents' \<subseteq> set ents \<union> set vs"
  using assms
proof (induction vs arbitrary: ents codes prev)
  case (Cons v vs)
  show ?case
  proof (cases "v \<in> set ents")
    case True
    with Cons.prems Cons.IH[of ents "codes @ [index_of v ents]" "prev @ [v]"] show ?thesis
      by (auto simp: index_of_less nth_index_of)
  next
    case False
    have "map ((!) (ents @ [v])) codes = prev"
      using Cons.prems(2,3) by (auto simp: nth_append)
    with False Cons.prems Cons.IH[of "ents @ [v]" "codes @ [length ents]" "prev @ [v]"] show ?thesis
      by (auto simp: less_SucI split: if_splits)
  qed
qed simp

definition dict_entry_ok :: "int \<Rightarrow> byte list \<Rightarrow> bool" where
  "dict_entry_ok w e \<longleftrightarrow> (if w > 0 then length e = nat w else length e < 2 ^ 32)"

lemma dict_read_entries_serialized:
  assumes "\<forall>e \<in> set ents. dict_entry_ok w e"
  shows "dict_read_entries w (length ents)
      (concat (map (\<lambda>e. if w > 0 then e else u32_bytes (length e) @ e) ents) @ rest) = Inr (ents, rest)"
  using assms by (induction ents) (auto simp: dict_entry_ok_def)

lemma dict_emit_codes:
  assumes "\<forall>c \<in> set cs. c < length ents" and "length ents \<le> 2 ^ 32"
    and "rawLen = length out + length (concat (map ((!) ents) cs))"
  shows "dict_emit ents (map of_nat cs) rawLen out = Inr (out @ concat (map ((!) ents) cs))"
  using assms
proof (induction cs arbitrary: out)
  case (Cons c cs)
  then have "unat (of_nat c :: u64) mod 2 ^ 32 = c" by (simp add: unat_of_nat)
  with Cons show ?case by (simp add: Let_def)
qed simp

lemma decode_dict_serialized:
  assumes ents: "\<forall>e \<in> set ents. dict_entry_ok w e" "length ents \<le> DICT_MAX_DISTINCT"
    and codes: "length codes = n" "\<forall>c \<in> set codes. c < length ents" and n: "alloc_ok n"
    and len: "rawLen = length (concat (map ((!) ents) codes))"
  shows "decode_dict (dict_serialize w ents codes) w n rawLen = Inr (concat (map ((!) ents) codes))"
proof -
  define m where "m = (if length ents > 0 then of_nat (length ents - 1) else 0 :: u64)"
  let ?w = "bits_needed m"
  have nd: "length ents < 2 ^ 32" "length ents \<le> 1024" using ents(2) by (simp_all add: DICT_MAX_DISTINCT_def)
  have "take_bit ?w v = v" if v: "v \<in> set (map of_nat codes)" for v :: u64
  proof -
    obtain c where c: "v = of_nat c" "c < length ents" using v codes(2) by auto
    then have "unat m = length ents - 1" "unat v = c"
      using nd by (auto simp: m_def unat_of_nat simp del: of_nat_diff)
    then have "v \<le> m" using c(2) by (simp add: word_le_nat_alt)
    then show ?thesis by (rule take_bit_bits_needed)
  qed
  then have "bitunpack (bitpack (map of_nat codes) ?w @ []) n ?w = Inr (map of_nat codes)"
    using codes(1) alloc_ok_pack_fits[OF n bits_needed_le_64]
    by (intro bitunpack_bitpack) (simp_all add: bits_needed_le_64)
  moreover have "dict_emit ents (map of_nat codes) rawLen [] = Inr (concat (map ((!) ents) codes))"
    using dict_emit_codes[of codes ents rawLen "[]"] codes(2) nd len by simp
  ultimately show ?thesis
    using nd dict_read_entries_serialized[OF ents(1)]
    unfolding decode_dict_def dict_serialize_def Let_def m_def[symmetric]
    by (simp add: unat_of_nat_width)
qed

lemma value_bytes_tile:
  assumes "pg_datum_ok V ok" and "\<forall>d \<in> set ds. datum_fits ok att d"
  shows "tiles (value_size V (attlen att)) (length ds) (concat (map (value_bytes V att) ds))"
  using assms(2)
proof (induction ds)
  case (Cons d ds)
  then have "value_size V (attlen att) (value_bytes V att d @ concat (map (value_bytes V att) ds)) =
      length (value_bytes V att d)"
    using value_bytes_size(2)[OF assms(1), of att d] by (simp add: value_size_def)
  with Cons show ?case by simp
qed simp

lemma split_values_sizes:
  assumes "tiles sz n p" and "v \<in> set (split_values sz n p)"
  shows "length v \<le> length p" and "(\<And>q. sz q = k) \<Longrightarrow> length v = k"
  using assms by (induction sz n p rule: tiles.induct) (auto simp: le_diff_conv)

text \<open>The build returns; what it returns is the linear dictionary, serialised.\<close>

definition encode_dict_ref :: "pg_datum \<Rightarrow> byte list \<Rightarrow> int \<Rightarrow> nat \<Rightarrow> byte list option" where
  "encode_dict_ref V raw w n =
     (case dict_linear (split_values (value_size V w) n raw) [] [] of
        None \<Rightarrow> None
      | Some (ents, codes) \<Rightarrow> beats_raw raw (dict_serialize w ents codes))"

lemma encode_dict_eq_reference:
  assumes "tiles (value_size V w) n raw" and "length raw < 2 ^ 32"
  shows "encode_dict V raw w n = Inr (encode_dict_ref V raw w n)"
proof -
  obtain r where r: "dict_loop V w raw n dict_init = Inr r"
      "map_option (\<lambda>st'. (dict_keys raw st', d_codes st')) r =
        dict_linear (split_values (value_size V w) n raw) [] []"
    using dict_loop_linear[OF dict_init_inv assms(2), of V w n] assms(1)
    by (auto simp: dict_init_def dict_keys_def)
  then show ?thesis
    by (cases r) (auto simp: encode_dict_def encode_dict_ref_def dict_keys_def[symmetric] split: option.splits)
qed

lemma dict_linear_bound:
  "dict_linear vs ents codes = Some (ents', codes') \<Longrightarrow> length ents \<le> DICT_MAX_DISTINCT \<Longrightarrow>
   length ents' \<le> DICT_MAX_DISTINCT"
  by (induction vs ents codes rule: dict_linear.induct) (auto split: if_splits)

lemma decode_encode_dict:
  assumes tile: "tiles (value_size V w) n raw" and len: "length raw < 2 ^ 32" and n: "alloc_ok n"
    and enc: "encode_dict V raw w n = Inr (Some enc)"
  shows "decode_dict enc w n (length raw) = Inr raw \<and> length enc < length raw"
proof -
  let ?vs = "split_values (value_size V w) n raw"
  obtain ents codes where lin: "dict_linear ?vs [] [] = Some (ents, codes)"
    and e: "enc = dict_serialize w ents codes" "length enc < length raw"
    using enc encode_dict_eq_reference[OF tile len]
    by (auto simp: encode_dict_ref_def beats_raw_Some split: option.splits)
  have spec: "set ents \<subseteq> set ?vs" "length codes = n" "\<forall>c \<in> set codes. c < length ents"
      "map ((!) ents) codes = ?vs"
    using dict_linear_spec[OF lin, of "[]"] length_split_values[of "value_size V w" n raw]
    by (auto dest: arg_cong[of _ _ length])
  have "dict_entry_ok w v" if "v \<in> set ?vs" for v
    using split_values_sizes(1)[OF tile that] split_values_sizes(2)[OF tile that, of "nat w"] len
    by (auto simp: dict_entry_ok_def value_size_def)
  then have "decode_dict enc w n (length raw) = Inr (concat ?vs)"
    using decode_dict_serialized[of ents w codes n "length raw"] spec n dict_linear_bound[OF lin]
      concat_split_values[OF tile] by (auto simp: e(1) subset_iff)
  then show ?thesis using concat_split_values[OF tile] e(2) by simp
qed

subsection \<open>Properties\<close>

text \<open>
  C16: The hashed dictionary build is the linear one: for any stream that its values tile,
  the open-addressing table finds every value already seen and only those, never runs out
  of probes, declines at the same distinct-value limit and gives the same dictionary, the
  same codes and the same bytes as a scan of the distinct values so far.
\<close>

theorem dict_build_is_linear:
  assumes "tiles (value_size V w) n raw" and "length raw < 2 ^ 32"
  shows "encode_dict V raw w n = Inr (encode_dict_ref V raw w n)"
  using assms by (rule encode_dict_eq_reference)

theorem dict_build_is_linear_witness:
  "encode_dict le_pg_datum (concat [[1, 2], [3, 4], [1, 2]]) 2 3 =
     Inr (encode_dict_ref le_pg_datum (concat [[1, 2], [3, 4], [1, 2]]) 2 3)"
proof -
  have "value_size le_pg_datum 2 = (\<lambda>_. 2)" by (simp add: value_size_def fun_eq_iff)
  then show ?thesis
    using dict_build_is_linear[of le_pg_datum 2 3 "concat [[1, 2], [3, 4], [1, 2]]"]
    by (simp add: tiles_const)
qed

text \<open>
  C29: Dictionary decoding inverts dictionary encoding, for fixed-width and for
  variable-length values: an accepted encoding is shorter than the chunk and decodes to
  exactly its bytes.
\<close>

theorem dict_roundtrip:
  assumes "tiles (value_size V w) n raw" and "length raw < 2 ^ 32" and "alloc_ok n"
  shows "\<exists>r. encode_dict V raw w n = Inr r \<and>
    (case r of None \<Rightarrow> True
     | Some enc \<Rightarrow> decode_dict enc w n (length raw) = Inr raw \<and> length enc < length raw)"
  using encode_dict_eq_reference[OF assms(1,2)] decode_encode_dict[OF assms]
  by (auto split: option.split)

theorem dict_roundtrip_witness:
  "\<exists>enc. encode_dict le_pg_datum (replicate 48 0) 16 3 = Inr (Some enc) \<and>
     decode_dict enc 16 3 48 = Inr (replicate 48 0) \<and> length enc < 48"
proof -
  have sz: "value_size le_pg_datum 16 = (\<lambda>_. 16)" by (simp add: value_size_def fun_eq_iff)
  have "encode_dict le_pg_datum (replicate 48 0) 16 3 = Inr (encode_dict_ref le_pg_datum (replicate 48 0) 16 3)"
    by (rule encode_dict_eq_reference) (simp_all add: sz tiles_const)
  moreover have "encode_dict_ref le_pg_datum (replicate 48 0) 16 3 \<noteq> None"
    unfolding encode_dict_ref_def sz by code_simp
  ultimately show ?thesis
    using dict_roundtrip[of le_pg_datum 16 3 "replicate 48 0"]
    by (auto simp: sz tiles_const alloc_ok_def MaxAllocSize_def)
qed

end
