(* ===== verification/Fsst.thy ===== *)
theory Fsst
  imports Encoding_Dict
begin

unbundle bit_operations_syntax

section \<open>FSST: static symbol tables\<close>

text \<open>
  The FSST codec of \<open>src/src/columnar_encoding.c\<close> against a chunk-shared symbol table: the
  open-addressed symbol lookup, the greedy longest match, the code stream and its decoder
  with the 8-byte stores into the slack, and the table's serialised form. A symbol is its
  packed bytes with its length; a table is the list of them. The lookup is shown to find
  exactly the table's symbols, the match to be the longest one, and decoding to give back
  the encoded bytes.
\<close>

subsection \<open>Definitions\<close>

type_synonym fsst_sym = "u64 \<times> nat"

definition FSST_MAX_SYMBOLS :: nat where "FSST_MAX_SYMBOLS = 255"
definition FSST_ESCAPE :: byte where "FSST_ESCAPE = 255"
definition FSST_MAX_SYMLEN :: nat where "FSST_MAX_SYMLEN = 8"
definition FSST_MIN_RAWLEN :: nat where "FSST_MIN_RAWLEN = 64"
definition FSST_DECODE_SLACK :: nat where "FSST_DECODE_SLACK = 8"

definition fsst_hash :: "u64 \<Rightarrow> nat \<Rightarrow> nat" where
  "fsst_hash val len =
     (let h = val * 0x9E3779B97F4A7C15;
          h' = h XOR (of_nat len * 0x100000001B3);
          h'' = h' XOR drop_bit 29 h'
      in unat (ucast h'' :: u32))"

record fsst_lookup =
  lk_key :: "nat \<Rightarrow> fsst_sym"
  lk_code :: "nat \<Rightarrow> nat option"
  lk_mask :: nat

function grow_pow2 :: "nat \<Rightarrow> nat \<Rightarrow> nat" where
  "grow_pow2 cap lim = (if 0 < cap \<and> cap < lim then grow_pow2 (2 * cap) lim else cap)"
  by pat_completeness auto
termination by (relation "measure (\<lambda>(cap, lim). lim - cap)") auto

declare grow_pow2.simps [simp del]

definition fsst_insert :: "fsst_lookup \<Rightarrow> nat \<Rightarrow> fsst_sym \<Rightarrow> fsst_lookup result" where
  "fsst_insert lk s sy =
     res_bind (probe (lk_mask lk + 1) (\<lambda>slot. lk_code lk slot = None) (lk_mask lk)
                 (fsst_hash (fst sy) (snd sy) AND lk_mask lk))
       (\<lambda>slot. Inr (lk\<lparr>lk_code := (lk_code lk)(slot \<mapsto> s), lk_key := (lk_key lk)(slot := sy)\<rparr>))"

fun fsst_insert_all :: "nat \<Rightarrow> fsst_sym list \<Rightarrow> fsst_lookup \<Rightarrow> fsst_lookup result" where
  "fsst_insert_all s [] lk = Inr lk"
| "fsst_insert_all s (sy # syms) lk =
     res_bind (fsst_insert lk s sy) (fsst_insert_all (s + 1) syms)"

definition fsst_lookup_build :: "fsst_sym list \<Rightarrow> fsst_lookup result" where
  "fsst_lookup_build t =
     (let cap = grow_pow2 512 (length t * 4 + 4)
      in fsst_insert_all 0 t
           \<lparr>lk_key = (\<lambda>_. (0, 0)), lk_code = (\<lambda>_. None), lk_mask = cap - 1\<rparr>)"

definition fsst_lookup_find :: "fsst_lookup \<Rightarrow> u64 \<Rightarrow> nat \<Rightarrow> nat option result" where
  "fsst_lookup_find lk val len =
     res_bind (probe (lk_mask lk + 1)
                 (\<lambda>slot. lk_code lk slot = None \<or> lk_key lk slot = (val, len)) (lk_mask lk)
                 (fsst_hash val len AND lk_mask lk))
       (\<lambda>slot. Inr (lk_code lk slot))"

text \<open>The loop over \<open>L\<close> from the longest candidate down to one byte.\<close>

fun fsst_match_loop :: "fsst_lookup \<Rightarrow> byte list \<Rightarrow> nat \<Rightarrow> (nat \<times> nat) option result" where
  "fsst_match_loop lk p 0 = Inr None"
| "fsst_match_loop lk p (Suc k) =
     res_bind (fsst_lookup_find lk (le_word (take (Suc k) p)) (Suc k))
       (\<lambda>c. case c of Some c \<Rightarrow> Inr (Some (c, Suc k)) | None \<Rightarrow> fsst_match_loop lk p k)"

definition fsst_longest_match :: "fsst_lookup \<Rightarrow> byte list \<Rightarrow> (nat \<times> nat) option result" where
  "fsst_longest_match lk p =
     fsst_match_loop lk p (if length p < FSST_MAX_SYMLEN then length p else FSST_MAX_SYMLEN)"

definition fsst_serialize_table :: "fsst_sym list \<Rightarrow> byte list" where
  "fsst_serialize_table t =
     of_nat (length t) # concat (map (\<lambda>(v, l). of_nat l # le_bytes l v) t)"

fun fsst_read_symbols :: "nat \<Rightarrow> byte list \<Rightarrow> fsst_sym list result" where
  "fsst_read_symbols 0 p = Inr []"
| "fsst_read_symbols (Suc k) [] = Inl (Corrupt ''FSST shared table symbol length past end'')"
| "fsst_read_symbols (Suc k) (b # p) =
     (let L = unat b
      in if L < 1 \<or> L > FSST_MAX_SYMLEN
         then Inl (Corrupt ''FSST shared table symbol length invalid'')
         else if length p < L then Inl (Corrupt ''FSST shared table symbol bytes past end'')
         else res_bind (fsst_read_symbols k (drop L p))
                (\<lambda>syms. Inr ((le_word (take L p), L) # syms)))"

definition fsst_deserialize_table :: "byte list \<Rightarrow> fsst_sym list result" where
  "fsst_deserialize_table p =
     (case p of [] \<Rightarrow> Inl (Corrupt ''FSST shared table truncated'')
      | b # q \<Rightarrow>
          if unat b > FSST_MAX_SYMBOLS
          then Inl (Corrupt ''FSST shared table symbol count out of range'')
          else fsst_read_symbols (unat b) q)"

lemma fsst_match_loop_len:
  "fsst_match_loop lk p k = Inr (Some (c, L)) \<Longrightarrow> 1 \<le> L \<and> L \<le> k"
proof (induction k)
  case (Suc k)
  then obtain r where "fsst_lookup_find lk (le_word (take (Suc k) p)) (Suc k) = Inr r"
    by (auto simp: res_bind_Inr)
  with Suc show ?case by (cases r) auto
qed simp

lemma fsst_longest_match_len:
  "fsst_longest_match lk p = Inr (Some (c, L)) \<Longrightarrow> 1 \<le> L \<and> L \<le> length p \<and> L \<le> 8"
  using fsst_match_loop_len[of lk p _ c L]
  by (force simp: fsst_longest_match_def FSST_MAX_SYMLEN_def split: if_splits)

function fsst_encode_loop ::
  "fsst_lookup \<Rightarrow> nat \<Rightarrow> byte list \<Rightarrow> byte list \<Rightarrow> byte list option result" where
  "fsst_encode_loop lk rawLen [] buf = Inr (Some buf)"
| "fsst_encode_loop lk rawLen (b # p) buf =
     (case fsst_longest_match lk (b # p) of
        Inl e \<Rightarrow> Inl e
      | Inr None \<Rightarrow>
          if length buf + 2 \<ge> rawLen then Inr None
          else fsst_encode_loop lk rawLen p (buf @ [FSST_ESCAPE, b])
      | Inr (Some (c, L)) \<Rightarrow>
          if length buf + 1 \<ge> rawLen then Inr None
          else fsst_encode_loop lk rawLen (drop L (b # p)) (buf @ [of_nat c]))"
  by pat_completeness auto
termination
  by (relation "measure (\<lambda>(lk, rawLen, p, buf). length p)")
     (use fsst_longest_match_len in \<open>fastforce+\<close>)

definition encode_fsst_shared :: "byte list \<Rightarrow> byte list \<Rightarrow> byte list option result" where
  "encode_fsst_shared raw table =
     (if length raw < FSST_MIN_RAWLEN then Inr None
      else res_bind (fsst_deserialize_table table)
        (\<lambda>t. if t = [] then Inr None
             else res_bind (fsst_lookup_build t)
               (\<lambda>lk. res_bind (fsst_encode_loop lk (length raw) raw [])
                  (\<lambda>r. case r of None \<Rightarrow> Inr None | Some buf \<Rightarrow> Inr (beats_raw raw buf)))))"

text \<open>
  The decoder's output buffer has \<open>FSST_DECODE_SLACK\<close> bytes past the raw length; a symbol
  is stored as all eight bytes of its packed value, and the output position advances by
  the symbol's length.
\<close>

definition put_bytes :: "byte list \<Rightarrow> nat \<Rightarrow> byte list \<Rightarrow> byte list" where
  "put_bytes buf pos bs = take pos buf @ bs @ drop (pos + length bs) buf"

function fsst_decode_loop ::
  "fsst_sym list \<Rightarrow> nat \<Rightarrow> byte list \<Rightarrow> nat \<Rightarrow> byte list \<Rightarrow> byte list result" where
  "fsst_decode_loop t rawLen [] outPos raw =
     (if outPos \<noteq> rawLen then Inl (Corrupt ''FSST output length does not match raw length'')
      else Inr (take rawLen raw))"
| "fsst_decode_loop t rawLen (c # p) outPos raw =
     (if c = FSST_ESCAPE
      then case p of
             [] \<Rightarrow> Inl (Corrupt ''FSST escape at encoded length'')
           | b # q \<Rightarrow>
               if outPos \<ge> rawLen then Inl (Corrupt ''FSST output exceeds raw length'')
               else fsst_decode_loop t rawLen q (outPos + 1) (put_bytes raw outPos [b])
      else if unat c \<ge> length t then Inl (Corrupt ''FSST code out of range'')
      else let (v, L) = t ! unat c
           in if L > rawLen - outPos then Inl (Corrupt ''FSST output exceeds raw length'')
              else fsst_decode_loop t rawLen p (outPos + L) (put_bytes raw outPos (le_bytes 8 v)))"
  by pat_completeness auto
termination by (relation "measure (\<lambda>(t, rawLen, p, outPos, raw). length p)") auto

definition decode_fsst_shared :: "byte list \<Rightarrow> byte list \<Rightarrow> nat \<Rightarrow> byte list result" where
  "decode_fsst_shared enc table rawLen =
     (case table of
        [] \<Rightarrow> Inl (Corrupt ''FSST shared table missing'')
      | b # q \<Rightarrow>
          if unat b > FSST_MAX_SYMBOLS
          then Inl (Corrupt ''FSST shared table symbol count out of range'')
          else res_bind (fsst_read_symbols (unat b) q)
            (\<lambda>t. fsst_decode_loop t rawLen enc 0
                   (replicate ((if rawLen > 0 then rawLen else 1) + FSST_DECODE_SLACK) 0)))"

subsection \<open>Symbol tables\<close>

definition fsst_sym_ok :: "fsst_sym \<Rightarrow> bool" where
  "fsst_sym_ok sy \<longleftrightarrow> 1 \<le> snd sy \<and> snd sy \<le> FSST_MAX_SYMLEN \<and> take_bit (8 * snd sy) (fst sy) = fst sy"

lemma fsst_read_symbols_ok:
  "fsst_read_symbols k p = Inr t \<Longrightarrow> length t = k \<and> (\<forall>sy \<in> set t. fsst_sym_ok sy)"
proof (induction k p arbitrary: t rule: fsst_read_symbols.induct)
  case (3 k b p)
  have "take_bit (8 * L) (le_word (take L p)) = le_word (take L p)" for L
    by (rule bit_word_eqI) (auto simp: bit_simps bit_views bufbit_take)
  then have "1 \<le> L \<Longrightarrow> L \<le> FSST_MAX_SYMLEN \<Longrightarrow> fsst_sym_ok (le_word (take L p), L)" for L
    by (simp add: fsst_sym_ok_def)
  with 3 show ?case by (auto simp: Let_def res_bind_Inr not_less split: if_splits)
qed auto

lemma fsst_deserialize_ok:
  assumes "fsst_deserialize_table p = Inr t"
  shows "length t \<le> 255 \<and> (\<forall>sy \<in> set t. fsst_sym_ok sy)"
  using assms fsst_read_symbols_ok
  by (auto simp: fsst_deserialize_table_def FSST_MAX_SYMBOLS_def split: list.splits if_splits)

lemma fsst_read_serialized:
  assumes "\<forall>sy \<in> set t. fsst_sym_ok sy"
  shows "fsst_read_symbols (length t) (concat (map (\<lambda>(v, l). of_nat l # le_bytes l v) t) @ rest) = Inr t"
  using assms
  by (induction t) (auto simp: fsst_sym_ok_def FSST_MAX_SYMLEN_def byte_simps)

lemma fsst_deserialize_serialize:
  assumes "\<forall>sy \<in> set t. fsst_sym_ok sy" and "length t \<le> FSST_MAX_SYMBOLS"
  shows "fsst_deserialize_table (fsst_serialize_table t) = Inr t"
  using assms fsst_read_serialized[of t "[]"]
  by (simp add: fsst_deserialize_table_def fsst_serialize_table_def FSST_MAX_SYMBOLS_def)

subsection \<open>The symbol lookup\<close>

definition fsst_slot :: "nat \<Rightarrow> fsst_sym \<Rightarrow> nat" where
  "fsst_slot k sy = fsst_hash (fst sy) (snd sy) AND (2 ^ k - 1)"

interpretation fsst_tab: open_table k "fsst_slot k" for k
  by unfold_locales (simp add: fsst_slot_def and_mask_mod del: One_nat_def)

definition fsst_keys :: "fsst_lookup \<Rightarrow> nat \<Rightarrow> fsst_sym option" where
  "fsst_keys lk s = (if lk_code lk s = None then None else Some (lk_key lk s))"

definition fsst_lookup_ok :: "nat \<Rightarrow> fsst_sym list \<Rightarrow> fsst_lookup \<Rightarrow> bool" where
  "fsst_lookup_ok k t lk \<longleftrightarrow> lk_mask lk = 2 ^ k - 1 \<and>
     paths_ok k (fsst_slot k) (fsst_keys lk) \<and> card (occupied k (fsst_keys lk)) = length t \<and>
     (\<forall>s c. lk_code lk s = Some c \<longrightarrow> c < length t \<and> lk_key lk s = t ! c) \<and>
     (\<forall>sy \<in> set t. \<exists>s < 2 ^ k. fsst_keys lk s = Some sy)"

lemma fsst_insert_ok:
  assumes ok: "fsst_lookup_ok k t lk" and room: "length t < 2 ^ k"
  obtains lk' where "fsst_insert lk (length t) sy = Inr lk'" "fsst_lookup_ok k (t @ [sy]) lk'"
proof -
  let ?T = "fsst_keys lk" and ?stop = "\<lambda>slot. lk_code lk slot = None"
  have mask: "lk_mask lk + 1 = 2 ^ k" "lk_mask lk = 2 ^ k - 1" using ok by (auto simp: fsst_lookup_ok_def)
  have stop: "?T s = None \<longleftrightarrow> ?stop s" for s by (simp add: fsst_keys_def)
  have "card (occupied k ?T) < 2 ^ k" using ok room by (simp add: fsst_lookup_ok_def)
  then obtain s where s: "probe (2 ^ k) ?stop (2 ^ k - 1) (fsst_slot k sy) = Inr s"
      "s < 2 ^ k" "?stop s"
    by (rule fsst_tab.lookup_returns[of k ?T ?stop sy]) (auto simp: stop)
  define lk' where "lk' = lk\<lparr>lk_code := (lk_code lk)(s \<mapsto> length t), lk_key := (lk_key lk)(s := sy)\<rparr>"
  have ins: "fsst_insert lk (length t) sy = Inr lk'"
    using s(1) unfolding fsst_insert_def mask fsst_slot_def by (simp add: mask lk'_def)
  have keys: "fsst_keys lk' = ?T(s \<mapsto> sy)" by (auto simp: fsst_keys_def lk'_def fun_eq_iff)
  have "paths_ok k (fsst_slot k) (fsst_keys lk')"
    unfolding keys using ok s(1)
    by (intro fsst_tab.insert_paths_ok[where stop = ?stop]) (auto simp: fsst_lookup_ok_def stop)
  moreover have "card (occupied k (fsst_keys lk')) = length (t @ [sy])"
    using ok s card_occupied_insert[of s k ?T sy] by (simp add: keys stop fsst_lookup_ok_def)
  moreover have "c < length (t @ [sy]) \<and> lk_key lk' u = (t @ [sy]) ! c"
    if "lk_code lk' u = Some c" for u c
    using that ok by (cases "u = s") (auto simp: lk'_def fsst_lookup_ok_def nth_append less_SucI)
  moreover have "\<exists>u < 2 ^ k. fsst_keys lk' u = Some x" if x: "x \<in> set (t @ [sy])" for x
  proof (cases "x = sy")
    case False
    then obtain u where u: "u < 2 ^ k" "?T u = Some x" using x ok by (auto simp: fsst_lookup_ok_def)
    then have "u \<noteq> s" using s(3) by (auto simp: fsst_keys_def)
    with u show ?thesis by (auto simp: keys)
  qed (use s(2) keys in auto)
  moreover have "lk_mask lk' = 2 ^ k - 1" by (simp add: lk'_def mask)
  ultimately have "fsst_lookup_ok k (t @ [sy]) lk'" by (simp add: fsst_lookup_ok_def)
  with ins show thesis by (rule that)
qed

lemma fsst_insert_all_ok:
  assumes "fsst_lookup_ok k t lk" and "length t + length syms \<le> 2 ^ k"
  shows "\<exists>lk'. fsst_insert_all (length t) syms lk = Inr lk' \<and> fsst_lookup_ok k (t @ syms) lk'"
  using assms
proof (induction syms arbitrary: t lk)
  case (Cons sy syms)
  obtain lk' where "fsst_insert lk (length t) sy = Inr lk'" "fsst_lookup_ok k (t @ [sy]) lk'"
    using fsst_insert_ok[OF Cons.prems(1), of sy] Cons.prems(2) by auto
  with Cons.IH[of "t @ [sy]" lk'] Cons.prems(2) show ?case by auto
qed auto

lemma grow_pow2_pow2:
  assumes "cap = 2 ^ j"
  shows "\<exists>k. grow_pow2 cap lim = 2 ^ k \<and> j \<le> k \<and> lim \<le> 2 ^ k"
  using assms
proof (induction cap lim arbitrary: j rule: grow_pow2.induct)
  case (1 cap lim)
  show ?case
  proof (cases "cap < lim")
    case True
    then have "0 < cap \<and> cap < lim" using "1.prems" by simp
    from "1.IH"[OF this, of "Suc j"] "1.prems" obtain k
      where "grow_pow2 (2 * cap) lim = 2 ^ k" "Suc j \<le> k" "lim \<le> 2 ^ k" by auto
    with True show ?thesis using "1.prems" by (subst grow_pow2.simps) (auto intro!: exI[of _ k])
  next
    case False
    then show ?thesis using "1.prems" by (subst grow_pow2.simps) (auto intro!: exI[of _ j])
  qed
qed

lemma fsst_lookup_build_ok:
  obtains k lk where "fsst_lookup_build t = Inr lk" "fsst_lookup_ok k t lk" "length t < 2 ^ k"
proof -
  obtain k where k: "grow_pow2 512 (length t * 4 + 4) = 2 ^ k" "length t * 4 + 4 \<le> 2 ^ k"
    using grow_pow2_pow2[of 512 9 "length t * 4 + 4"] by auto
  let ?lk = "\<lparr>lk_key = (\<lambda>_. (0, 0)), lk_code = (\<lambda>_. None), lk_mask = 2 ^ k - 1\<rparr> :: fsst_lookup"
  have "fsst_keys ?lk = (\<lambda>_. None)" by (simp add: fsst_keys_def fun_eq_iff)
  then have "fsst_lookup_ok k [] ?lk" by (simp add: fsst_lookup_ok_def)
  with fsst_insert_all_ok[of k "[]" ?lk t] k show thesis
    using that by (auto simp: fsst_lookup_build_def Let_def)
qed

lemma fsst_lookup_find_ok:
  assumes ok: "fsst_lookup_ok k t lk" and room: "length t < 2 ^ k"
  shows "\<exists>r. fsst_lookup_find lk v l = Inr r \<and>
    (case r of None \<Rightarrow> (v, l) \<notin> set t | Some c \<Rightarrow> c < length t \<and> t ! c = (v, l))"
proof -
  let ?T = "fsst_keys lk" and ?x = "(v, l)"
  let ?stop = "\<lambda>slot. lk_code lk slot = None \<or> lk_key lk slot = ?x"
  have mask: "lk_mask lk + 1 = 2 ^ k" "lk_mask lk = 2 ^ k - 1" using ok by (auto simp: fsst_lookup_ok_def)
  have stop: "?stop s \<longleftrightarrow> ?T s = None \<or> ?T s = Some ?x" for s by (auto simp: fsst_keys_def)
  have find: "fsst_lookup_find lk v l = res_bind (probe (2 ^ k) ?stop (2 ^ k - 1) (fsst_slot k ?x))
      (\<lambda>s. Inr (lk_code lk s))"
    unfolding fsst_lookup_find_def mask by (simp add: fsst_slot_def mask)
  have code: "lk_code lk s = Some c \<Longrightarrow> c < length t \<and> t ! c = lk_key lk s" for s c
    using ok by (simp add: fsst_lookup_ok_def)
  show ?thesis
  proof (cases "?x \<in> set t")
    case True
    then obtain s where s: "s < 2 ^ k" "?T s = Some ?x" using ok by (auto simp: fsst_lookup_ok_def)
    have "paths_ok k (fsst_slot k) ?T" using ok by (simp add: fsst_lookup_ok_def)
    then obtain u where u: "probe (2 ^ k) ?stop (2 ^ k - 1) (fsst_slot k ?x) = Inr u" "?T u = Some ?x"
      using s stop by (elim fsst_tab.lookup_present[where s = s and stop = ?stop]) blast+
    then obtain c where "lk_code lk u = Some c" "lk_key lk u = ?x"
      by (auto simp: fsst_keys_def split: if_splits)
    with code[of u c] u(1) show ?thesis by (simp add: find)
  next
    case False
    have "card (occupied k ?T) < 2 ^ k" using ok room by (simp add: fsst_lookup_ok_def)
    then obtain u where u: "probe (2 ^ k) ?stop (2 ^ k - 1) (fsst_slot k ?x) = Inr u" "?stop u"
      by (rule fsst_tab.lookup_returns[of k ?T ?stop ?x]) (auto simp: stop)
    moreover have "lk_code lk u = None"
      using u(2) code[of u] False by (cases "lk_code lk u") (auto, metis nth_mem)
    ultimately show ?thesis using False by (simp add: find)
  qed
qed

text \<open>A table built for lookups: every key has an answer, and it is the right one.\<close>

definition fsst_finds :: "fsst_sym list \<Rightarrow> fsst_lookup \<Rightarrow> bool" where
  "fsst_finds t lk \<longleftrightarrow> (\<forall>v l. \<exists>r. fsst_lookup_find lk v l = Inr r \<and>
     (case r of None \<Rightarrow> (v, l) \<notin> set t | Some c \<Rightarrow> c < length t \<and> t ! c = (v, l)))"

lemma fsst_lookup_build_finds:
  obtains lk where "fsst_lookup_build t = Inr lk" "fsst_finds t lk"
proof -
  obtain k lk where "fsst_lookup_build t = Inr lk" "fsst_lookup_ok k t lk" "length t < 2 ^ k"
    by (rule fsst_lookup_build_ok)
  then show thesis using that fsst_lookup_find_ok by (simp add: fsst_finds_def)
qed

lemma fsst_match_loop_spec:
  assumes "fsst_finds t lk"
  shows "\<exists>r. fsst_match_loop lk p k = Inr r \<and>
    (case r of
       None \<Rightarrow> \<forall>L. 1 \<le> L \<and> L \<le> k \<longrightarrow> (le_word (take L p), L) \<notin> set t
     | Some (c, L) \<Rightarrow> c < length t \<and> t ! c = (le_word (take L p), L) \<and> 1 \<le> L \<and> L \<le> k \<and>
         (\<forall>M. L < M \<and> M \<le> k \<longrightarrow> (le_word (take M p), M) \<notin> set t))"
proof (induction k)
  case (Suc k)
  obtain r where r: "fsst_lookup_find lk (le_word (take (Suc k) p)) (Suc k) = Inr r"
      "case r of None \<Rightarrow> (le_word (take (Suc k) p), Suc k) \<notin> set t
        | Some c \<Rightarrow> c < length t \<and> t ! c = (le_word (take (Suc k) p), Suc k)"
    using assms unfolding fsst_finds_def by blast
  show ?case
  proof (cases r)
    case None
    with r Suc show ?thesis by (auto simp: le_Suc_eq split: option.splits)
  next
    case (Some c)
    with r show ?thesis by auto
  qed
qed auto

lemma fsst_longest_match_spec:
  assumes "fsst_finds t lk"
  shows "\<exists>r. fsst_longest_match lk p = Inr r \<and>
    (case r of
       None \<Rightarrow> \<forall>L. 1 \<le> L \<and> L \<le> min (length p) 8 \<longrightarrow> (le_word (take L p), L) \<notin> set t
     | Some (c, L) \<Rightarrow> c < length t \<and> t ! c = (le_word (take L p), L) \<and> 1 \<le> L \<and> L \<le> min (length p) 8 \<and>
         (\<forall>M. L < M \<and> M \<le> min (length p) 8 \<longrightarrow> (le_word (take M p), M) \<notin> set t))"
proof -
  have "(if length p < FSST_MAX_SYMLEN then length p else FSST_MAX_SYMLEN) = min (length p) 8"
    by (simp add: FSST_MAX_SYMLEN_def)
  with fsst_match_loop_spec[OF assms, of p "min (length p) 8"] show ?thesis
    by (simp only: fsst_longest_match_def)
qed

subsection \<open>Round trip\<close>

text \<open>
  The decoder's buffer after the bytes \<open>dn\<close> have been produced: its first bytes are \<open>dn\<close>, and a
  symbol's 8-byte store leaves exactly the symbol's bytes in front of the new position.
\<close>

definition fsst_out :: "nat \<Rightarrow> byte list \<Rightarrow> byte list \<Rightarrow> bool" where
  "fsst_out rawLen dn raw \<longleftrightarrow>
     rawLen + FSST_DECODE_SLACK \<le> length raw \<and> length dn \<le> rawLen \<and> take (length dn) raw = dn"

lemma length_put_bytes: "pos + length bs \<le> length buf \<Longrightarrow> length (put_bytes buf pos bs) = length buf"
  by (simp add: put_bytes_def)

lemma fsst_out_byte:
  assumes "fsst_out rawLen dn raw" and "length dn < rawLen"
  shows "fsst_out rawLen (dn @ [b]) (put_bytes raw (length dn) [b])"
  using assms by (auto simp: fsst_out_def length_put_bytes) (auto simp: put_bytes_def)

lemma fsst_out_symbol:
  assumes "fsst_out rawLen dn raw" and "length dn + L \<le> rawLen" and "L \<le> 8"
  shows "fsst_out rawLen (dn @ take L (le_bytes 8 v)) (put_bytes raw (length dn) (le_bytes 8 v))"
  using assms by (auto simp: fsst_out_def length_put_bytes FSST_DECODE_SLACK_def min_def)
    (auto simp: put_bytes_def)

lemma take_le_bytes_word: "L \<le> 8 \<Longrightarrow> L \<le> length p \<Longrightarrow> take L (le_bytes 8 (le_word (take L p))) = take L p"
  by (rule byte_list_eqI) (auto simp: bit_views bufbit_take)

lemma fsst_decode_symbol:
  assumes "c < length t" "length t \<le> 255" "t ! c = (v, L)" "L \<le> n - pos"
  shows "fsst_decode_loop t n (of_nat c # p) pos raw =
    fsst_decode_loop t n p (pos + L) (put_bytes raw pos (le_bytes 8 v))"
proof -
  have "unat (of_nat c :: byte) = c" using assms(1,2) by simp
  moreover have "of_nat c \<noteq> FSST_ESCAPE"
  proof
    assume "of_nat c = FSST_ESCAPE"
    then have "unat (of_nat c :: byte) = 255" by (simp add: FSST_ESCAPE_def)
    with assms(1,2) show False by simp
  qed
  ultimately show ?thesis using assms by simp
qed

text \<open>What the encoder emits after \<open>buf\<close> is what the decoder turns into the rest of the input.\<close>

lemma fsst_decode_encode_loop:
  assumes finds: "fsst_finds t lk" and t: "length t \<le> 255"
    and enc: "fsst_encode_loop lk rawLen p buf = Inr (Some out)"
    and st: "fsst_out n dn raw" "n = length dn + length p"
  shows "\<exists>codes. out = buf @ codes \<and> fsst_decode_loop t n codes (length dn) raw = Inr (dn @ p)"
  using enc st
proof (induction p arbitrary: buf dn raw rule: length_induct)
  case (1 p)
  show ?case
  proof (cases p)
    case Nil
    with 1 show ?thesis by (auto simp: fsst_out_def)
  next
    case (Cons b q)
    obtain r where r: "fsst_longest_match lk p = Inr r"
      "case r of None \<Rightarrow> True
       | Some (c, L) \<Rightarrow> c < length t \<and> t ! c = (le_word (take L p), L) \<and> 1 \<le> L \<and> L \<le> min (length p) 8"
      using fsst_longest_match_spec[OF finds, of p] by (auto split: option.splits)
    show ?thesis
    proof (cases r)
      case None
      have "fsst_encode_loop lk rawLen q (buf @ [FSST_ESCAPE, b]) = Inr (Some out)"
        using "1.prems"(1) r(1) None by (simp add: Cons split: if_splits)
      moreover have "fsst_out n (dn @ [b]) (put_bytes raw (length dn) [b])"
        using "1.prems" by (intro fsst_out_byte) (simp_all add: Cons)
      ultimately obtain codes where "out = buf @ [FSST_ESCAPE, b] @ codes"
          "fsst_decode_loop t n codes (length (dn @ [b])) (put_bytes raw (length dn) [b]) =
            Inr ((dn @ [b]) @ q)"
        using "1.IH"[rule_format, of q] "1.prems"(3) by (force simp: Cons)
      then show ?thesis using "1.prems"(3)
        by (intro exI[of _ "[FSST_ESCAPE, b] @ codes"]) (simp add: Cons)
    next
      case (Some cL)
      obtain c L where cL: "cL = (c, L)" by (cases cL)
      let ?v = "le_word (take L p)"
      have c: "c < length t" "t ! c = (?v, L)" "1 \<le> L" "L \<le> length p" "L \<le> 8"
        using r(2) Some cL by auto
      have e: "fsst_encode_loop lk rawLen (drop L p) (buf @ [of_nat c]) = Inr (Some out)"
        using "1.prems"(1) r(1) Some cL by (simp add: Cons split: if_splits)
      have o: "fsst_out n (dn @ take L p) (put_bytes raw (length dn) (le_bytes 8 ?v))"
        using fsst_out_symbol[OF "1.prems"(2), of L ?v] c "1.prems"(3) by (simp add: take_le_bytes_word)
      have "length (drop L p) < length p" "n = length (dn @ take L p) + length (drop L p)"
        using c Cons "1.prems"(3) by simp_all
      from "1.IH"[rule_format, OF this(1) e o this(2)]
      obtain codes where codes: "out = (buf @ [of_nat c]) @ codes"
          "fsst_decode_loop t n codes (length (dn @ take L p))
             (put_bytes raw (length dn) (le_bytes 8 ?v)) = Inr ((dn @ take L p) @ drop L p)" by blast
      have "L \<le> n - length dn" using c(4) "1.prems"(3) by simp
      from fsst_decode_symbol[OF c(1) t c(2) this] codes c(4) show ?thesis
        by (intro exI[of _ "of_nat c # codes"]) simp
    qed
  qed
qed

lemma decode_fsst_deserialized:
  assumes "fsst_deserialize_table table = Inr t"
  shows "decode_fsst_shared enc table rawLen = fsst_decode_loop t rawLen enc 0
    (replicate ((if rawLen > 0 then rawLen else 1) + FSST_DECODE_SLACK) 0)"
  using assms by (auto simp: fsst_deserialize_table_def decode_fsst_shared_def split: list.splits if_splits)

lemma decode_encode_fsst:
  assumes "encode_fsst_shared raw table = Inr (Some enc)"
  shows "decode_fsst_shared enc table (length raw) = Inr raw \<and> length enc < length raw"
proof -
  obtain t lk where t: "fsst_deserialize_table table = Inr t" "fsst_lookup_build t = Inr lk"
    and loop: "fsst_encode_loop lk (length raw) raw [] = Inr (Some enc)" "length enc < length raw"
    using assms
    by (auto simp: encode_fsst_shared_def res_bind_Inr beats_raw_Some split: if_splits option.splits)
  have "fsst_finds t lk" using fsst_lookup_build_finds[of t] t(2) by (metis sum.inject(2))
  moreover have "length t \<le> 255" using fsst_deserialize_ok[OF t(1)] by simp
  moreover have "fsst_out (length raw) []
      (replicate ((if length raw > 0 then length raw else 1) + FSST_DECODE_SLACK) 0)"
    by (simp add: fsst_out_def)
  ultimately show ?thesis
    using fsst_decode_encode_loop[OF _ _ loop(1), of t "length raw" "[]"] loop(2)
    by (auto simp: decode_fsst_deserialized[OF t(1)])
qed

text \<open>The encoder ends, whatever the table: with an error of the table's parse or a result.\<close>

lemma fsst_encode_loop_returns:
  assumes "fsst_finds t lk"
  shows "\<exists>r. fsst_encode_loop lk rawLen p buf = Inr r"
proof (induction p arbitrary: buf rule: length_induct)
  case (1 p)
  show ?case
  proof (cases p)
    case (Cons b q)
    obtain r where r: "fsst_longest_match lk p = Inr r"
      "case r of None \<Rightarrow> True | Some (c, L) \<Rightarrow> 1 \<le> L"
      using fsst_longest_match_spec[OF assms, of p] by (auto split: option.splits)
    show ?thesis
    proof (cases r)
      case None
      with r(1) 1 show ?thesis by (simp add: Cons)
    next
      case (Some cL)
      then obtain c L where "r = Some (c, L)" "1 \<le> L" using r(2) by (cases cL) auto
      with r(1) 1 show ?thesis by (simp add: Cons)
    qed
  qed simp
qed

lemma encode_fsst_returns:
  assumes "fsst_deserialize_table table = Inr t"
  shows "\<exists>r. encode_fsst_shared raw table = Inr r"
proof -
  obtain lk where lk: "fsst_lookup_build t = Inr lk" "fsst_finds t lk" by (rule fsst_lookup_build_finds)
  with fsst_encode_loop_returns[OF lk(2), of "length raw" raw "[]"] assms show ?thesis
    by (auto simp: encode_fsst_shared_def split: option.splits)
qed

subsection \<open>Properties\<close>

text \<open>
  C27: FSST is lossless with any readable symbol table: the encoder returns (its probes and
  its loop always end), and what it returns, if it does not decline, is shorter than the
  input and is decoded to exactly the input, the wide stores of the decoder never
  disturbing a byte before the output position.
\<close>

theorem fsst_roundtrip:
  assumes "fsst_deserialize_table table = Inr t"
  shows "\<exists>r. encode_fsst_shared raw table = Inr r \<and>
    (case r of None \<Rightarrow> True
     | Some enc \<Rightarrow> decode_fsst_shared enc table (length raw) = Inr raw \<and> length enc < length raw)"
  using encode_fsst_returns[OF assms, of raw] decode_encode_fsst[of raw table]
  by (auto split: option.split)

theorem fsst_roundtrip_witness:
  "\<exists>r. encode_fsst_shared (replicate 80 97) [1, 2, 97, 97] = Inr r \<and>
    (case r of None \<Rightarrow> True
     | Some enc \<Rightarrow> decode_fsst_shared enc [1, 2, 97, 97] 80 = Inr (replicate 80 97) \<and> length enc < 80)"
proof -
  have "fsst_deserialize_table [1, 2, 97, 97] = Inr [(0x6161, 2)]" by code_simp
  from fsst_roundtrip[OF this, of "replicate 80 97"] show ?thesis by (simp only: length_replicate)
qed

text \<open>
  C15: Over the hash table built from any symbol list, the match the encoder takes at a
  position is the longest symbol of the table that is a prefix of the input there, and
  there is none exactly when no symbol is; the probe loops always end.
\<close>

theorem fsst_match_is_longest:
  "\<exists>lk r. fsst_lookup_build t = Inr lk \<and> fsst_longest_match lk p = Inr r \<and>
    (case r of
       None \<Rightarrow> \<forall>L. 1 \<le> L \<and> L \<le> min (length p) 8 \<longrightarrow> (le_word (take L p), L) \<notin> set t
     | Some (c, L) \<Rightarrow> c < length t \<and> t ! c = (le_word (take L p), L) \<and> 1 \<le> L \<and> L \<le> min (length p) 8 \<and>
         (\<forall>M. L < M \<and> M \<le> min (length p) 8 \<longrightarrow> (le_word (take M p), M) \<notin> set t))"
proof -
  obtain lk where "fsst_lookup_build t = Inr lk" "fsst_finds t lk" by (rule fsst_lookup_build_finds)
  then show ?thesis using fsst_longest_match_spec[of t lk p] by blast
qed

theorem fsst_match_is_longest_witness:
  "\<exists>lk r. fsst_lookup_build [(97, 1)] = Inr lk \<and> fsst_longest_match lk [97] = Inr r \<and>
    (case r of
       None \<Rightarrow> \<forall>L. 1 \<le> L \<and> L \<le> min (length [97 :: byte]) 8 \<longrightarrow> (le_word (take L [97]), L) \<notin> set [(97, 1)]
     | Some (c, L) \<Rightarrow> c < length [(97 :: u64, 1 :: nat)] \<and> [(97, 1)] ! c = (le_word (take L [97]), L) \<and> 1 \<le> L \<and>
         L \<le> min (length [97 :: byte]) 8 \<and>
         (\<forall>M. L < M \<and> M \<le> min (length [97 :: byte]) 8 \<longrightarrow> (le_word (take M [97]), M) \<notin> set [(97, 1)]))"
  by (rule fsst_match_is_longest)

text \<open>
  A symbol table survives storage: serialising at most 255 symbols of one to eight bytes
  and reading them back gives the same table.
\<close>

lemma fsst_table_roundtrip:
  assumes "\<forall>sy \<in> set t. fsst_sym_ok sy" and "length t \<le> FSST_MAX_SYMBOLS"
  shows "fsst_deserialize_table (fsst_serialize_table t) = Inr t"
  using assms by (rule fsst_deserialize_serialize)

end
