(* ===== verification/Fsst_Build.thy ===== *)
theory Fsst_Build
  imports Fsst
begin

unbundle bit_operations_syntax

section \<open>Building an FSST symbol table\<close>

text \<open>
  \<open>build_fsst_table\<close> and its parts in \<open>src/src/columnar_encoding.c\<close>: the candidate counter,
  the candidate order, the counting pass over the sample, the four rounds,
  \<open>PgColumnarFsstBuildChunkTable\<close>, and the distinct count \<open>PgColumnarFsstDictWins\<close> that
  decides whether the build is worth its cost. The counter cells are a function from
  slots to cells. The build is shown to end for every corpus and to give a table that
  the serialised form can carry: at most 255 symbols of one to eight bytes.
\<close>

subsection \<open>Definitions\<close>

definition FSST_ROUNDS :: nat where "FSST_ROUNDS = 4"
definition FSST_SAMPLE_CAP :: nat where "FSST_SAMPLE_CAP = 262144"
definition FSST_COUNT_SLOTS :: nat where "FSST_COUNT_SLOTS = 2 ^ 17"

text \<open>A used cell holds its key and its accumulated gain.\<close>

type_synonym fsst_cells = "nat \<Rightarrow> (fsst_sym \<times> u32) option"

definition fsst_count_add ::
  "nat \<Rightarrow> fsst_sym \<Rightarrow> nat \<Rightarrow> fsst_cells \<times> nat \<Rightarrow> (fsst_cells \<times> nat) result" where
  "fsst_count_add msk key gain st =
     (let (tbl, nUsed) = st
      in res_bind (probe (msk + 1)
                     (\<lambda>slot. case tbl slot of None \<Rightarrow> True | Some (x, n) \<Rightarrow> x = key) msk
                     (fsst_hash (fst key) (snd key) AND msk))
           (\<lambda>slot. case tbl slot of
              Some (x, n) \<Rightarrow> Inr (tbl(slot \<mapsto> (x, n + of_nat gain)), nUsed)
            | None \<Rightarrow>
                if nUsed \<ge> (msk + 1) - (msk + 1) div 4 then Inr (tbl, nUsed)
                else Inr (tbl(slot \<mapsto> (key, of_nat gain)), nUsed + 1)))"

record fsst_cand =
  cand_count :: u32
  cand_val :: u64
  cand_len :: nat

definition fsst_cand_cmp :: "fsst_cand \<Rightarrow> fsst_cand \<Rightarrow> int" where
  "fsst_cand_cmp x y =
     (if cand_count x \<noteq> cand_count y then (if cand_count x > cand_count y then -1 else 1)
      else if cand_len x \<noteq> cand_len y then (if cand_len x > cand_len y then -1 else 1)
      else if cand_val x \<noteq> cand_val y then (if cand_val x < cand_val y then -1 else 1)
      else 0)"

text \<open>\<open>qsort\<close> with that comparison.\<close>

fun cand_insert :: "fsst_cand \<Rightarrow> fsst_cand list \<Rightarrow> fsst_cand list" where
  "cand_insert x [] = [x]"
| "cand_insert x (y # ys) =
     (if fsst_cand_cmp x y \<le> 0 then x # y # ys else y # cand_insert x ys)"

definition cand_sort :: "fsst_cand list \<Rightarrow> fsst_cand list" where
  "cand_sort cs = foldr cand_insert cs []"

record fsst_pass =
  fp_cells :: fsst_cells
  fp_used :: nat
  fp_prev :: fsst_sym

text \<open>One position of the counting pass: the matched symbol, or the single byte.\<close>

definition fsst_pass_step ::
  "nat \<Rightarrow> fsst_sym \<Rightarrow> fsst_pass \<Rightarrow> fsst_pass result" where
  "fsst_pass_step msk sy st =
     (let (val, len) = sy; (prevVal, prevLen) = fp_prev st
      in res_bind (fsst_count_add msk sy len (fp_cells st, fp_used st))
           (\<lambda>st1. res_bind
              (if prevLen > 0 \<and> prevLen + len \<le> FSST_MAX_SYMLEN
               then let catLen = prevLen + len
                    in fsst_count_add msk (prevVal OR push_bit (prevLen * 8) val, catLen) catLen st1
               else Inr st1)
              (\<lambda>(cells, used). Inr \<lparr>fp_cells = cells, fp_used = used, fp_prev = sy\<rparr>)))"

function fsst_pass_loop ::
  "nat \<Rightarrow> fsst_sym list \<Rightarrow> fsst_lookup \<Rightarrow> byte list \<Rightarrow> fsst_pass \<Rightarrow> fsst_pass result" where
  "fsst_pass_loop msk t lk [] st = Inr st"
| "fsst_pass_loop msk t lk (b # p) st =
     (case fsst_longest_match lk (b # p) of
        Inl e \<Rightarrow> Inl e
      | Inr (Some (c, L)) \<Rightarrow>
          res_bind (fsst_pass_step msk (t ! c) st) (fsst_pass_loop msk t lk (drop L (b # p)))
      | Inr None \<Rightarrow>
          res_bind (fsst_pass_step msk (ucast b, 1) st) (fsst_pass_loop msk t lk p))"
  by pat_completeness auto
termination
  by (relation "measure (\<lambda>(msk, t, lk, p, st). length p)")
     (use fsst_longest_match_len in \<open>fastforce+\<close>)

definition fsst_cands :: "nat \<Rightarrow> fsst_cells \<Rightarrow> fsst_cand list" where
  "fsst_cands slots cells =
     concat (map (\<lambda>s. case cells s of None \<Rightarrow> []
        | Some ((v, l), n) \<Rightarrow> [\<lparr>cand_count = n, cand_val = v, cand_len = l\<rparr>]) [0..<slots])"

fun fsst_rounds :: "nat \<Rightarrow> nat \<Rightarrow> byte list \<Rightarrow> fsst_sym list \<Rightarrow> fsst_sym list result" where
  "fsst_rounds 0 slots sample cur = Inr cur"
| "fsst_rounds (Suc k) slots sample cur =
     res_bind (fsst_lookup_build cur) (\<lambda>lk.
       res_bind (fsst_pass_loop (slots - 1) cur lk sample
                   \<lparr>fp_cells = (\<lambda>_. None), fp_used = 0, fp_prev = (0, 0)\<rparr>) (\<lambda>st.
         let cands = fsst_cands slots (fp_cells st)
         in if cands = [] then Inr []
            else fsst_rounds k slots sample
                   (map (\<lambda>c. (cand_val c, cand_len c))
                      (take FSST_MAX_SYMBOLS (cand_sort cands)))))"

definition build_fsst_table :: "byte list \<Rightarrow> fsst_sym list result" where
  "build_fsst_table corpus =
     (let sample = take FSST_SAMPLE_CAP corpus;
          slots = grow_pow2 4096 (min (length sample * 2) FSST_COUNT_SLOTS)
      in fsst_rounds FSST_ROUNDS slots sample [])"

definition PgColumnarFsstBuildChunkTable :: "byte list \<Rightarrow> attr \<Rightarrow> byte list option result" where
  "PgColumnarFsstBuildChunkTable corpus att =
     (if attlen att \<noteq> -1 then Inr None
      else if length corpus < FSST_MIN_RAWLEN then Inr None
      else res_bind (build_fsst_table corpus)
             (\<lambda>t. if t = [] then Inr None else Inr (Some (fsst_serialize_table t))))"

definition FSST_CARD_SLOTS :: nat where "FSST_CARD_SLOTS = 4096"

text \<open>
  The set of value hashes: \<open>slot\<close> and \<open>used\<close> of the source are one optional hash per slot.
  A corpus is below \<open>MaxAllocSize\<close> and a value size below \<open>2 ^ 30\<close>, so \<open>pos + vlen\<close> stays
  within \<open>uint32\<close>.
\<close>

function dict_wins_loop ::
  "pg_datum \<Rightarrow> byte list \<Rightarrow> nat \<Rightarrow> (nat \<Rightarrow> u64 option) \<Rightarrow> nat \<Rightarrow> bool result" where
  "dict_wins_loop V corpus pos tab cnt =
     (if pos < length corpus
      then let vlen = PgColumnarVarSizeAnyUnaligned V (drop pos corpus)
           in if vlen = 0 \<or> pos + vlen > length corpus then Inr False
              else let h = pgcolumnar_fnv1a (take vlen (drop pos corpus))
                   in res_bind (probe FSST_CARD_SLOTS (\<lambda>s. tab s = None \<or> tab s = Some h)
                                  (FSST_CARD_SLOTS - 1) (unat (h AND of_nat (FSST_CARD_SLOTS - 1))))
                        (\<lambda>s. if tab s = None
                             then if cnt + 1 > DICT_MAX_DISTINCT then Inr False
                                  else dict_wins_loop V corpus (pos + vlen) (tab(s \<mapsto> h)) (cnt + 1)
                             else dict_wins_loop V corpus (pos + vlen) tab cnt)
      else Inr True)"
  by pat_completeness auto
termination by (relation "measure (\<lambda>(V, corpus, pos, tab, cnt). length corpus - pos)") auto

declare dict_wins_loop.simps [simp del]

definition PgColumnarFsstDictWins :: "pg_datum \<Rightarrow> byte list \<Rightarrow> bool result" where
  "PgColumnarFsstDictWins V corpus = dict_wins_loop V corpus 0 (\<lambda>_. None) 0"

subsection \<open>The candidate counter\<close>

definition cell_keys :: "fsst_cells \<Rightarrow> nat \<Rightarrow> fsst_sym option" where
  "cell_keys tbl s = map_option fst (tbl s)"

text \<open>
  The counter holds well-formed keys only, counts its used cells, and stays below three
  quarters of the table.
\<close>

definition cells_ok :: "nat \<Rightarrow> fsst_cells \<times> nat \<Rightarrow> bool" where
  "cells_ok k st \<longleftrightarrow> (\<forall>s x n. fst st s = Some (x, n) \<longrightarrow> fsst_sym_ok x) \<and>
     card (occupied k (cell_keys (fst st))) = snd st \<and> snd st \<le> 2 ^ k - 2 ^ k div 4"

lemma fsst_count_add_ok:
  assumes ok: "cells_ok k st" and key: "fsst_sym_ok key" and k: "2 \<le> k"
  obtains st' where "fsst_count_add (2 ^ k - 1) key gain st = Inr st'" "cells_ok k st'"
proof -
  obtain tbl n where st: "st = (tbl, n)" by (cases st)
  let ?stop = "\<lambda>slot. case tbl slot of None \<Rightarrow> True | Some (x, n) \<Rightarrow> x = key"
  have wf: "\<And>s x m. tbl s = Some (x, m) \<Longrightarrow> fsst_sym_ok x"
    and cd: "card (occupied k (cell_keys tbl)) = n" and n: "n \<le> 2 ^ k - 2 ^ k div 4"
    using ok by (auto simp: cells_ok_def st)
  have "(2::nat) ^ 2 \<le> 2 ^ k" using k by (rule power_increasing) simp
  then have "n < 2 ^ k" using n by simp
  then obtain s where s: "probe (2 ^ k) ?stop (2 ^ k - 1) (fsst_slot k key) = Inr s" "s < 2 ^ k" "?stop s"
    using fsst_tab.lookup_returns[of k "cell_keys tbl" ?stop key] cd
    by (auto simp: cell_keys_def split: option.splits)
  have add: "fsst_count_add (2 ^ k - 1) key gain st =
      (case tbl s of Some (x, m) \<Rightarrow> Inr (tbl(s \<mapsto> (x, m + of_nat gain)), n)
       | None \<Rightarrow> if n \<ge> 2 ^ k - 2 ^ k div 4 then Inr (tbl, n)
                else Inr (tbl(s \<mapsto> (key, of_nat gain)), n + 1))"
    using s(1) unfolding fsst_count_add_def st fsst_slot_def by simp
  show thesis
  proof (cases "tbl s")
    case None
    have "cell_keys (tbl(s \<mapsto> (key, of_nat gain))) = (cell_keys tbl)(s \<mapsto> key)"
      by (auto simp: cell_keys_def fun_eq_iff)
    then have "card (occupied k (cell_keys (tbl(s \<mapsto> (key, of_nat gain))))) = n + 1"
      using card_occupied_insert[of s k "cell_keys tbl" key] s(2) cd None
      by (simp add: cell_keys_def)
    moreover have "\<And>u x m. (tbl(s \<mapsto> (key, of_nat gain))) u = Some (x, m) \<Longrightarrow> fsst_sym_ok x"
      using key wf by (auto split: if_splits)
    ultimately have "n < 2 ^ k - 2 ^ k div 4 \<Longrightarrow> cells_ok k (tbl(s \<mapsto> (key, of_nat gain)), n + 1)"
      by (simp add: cells_ok_def)
    then have "n < 2 ^ k - 2 ^ k div 4 \<Longrightarrow> thesis" using add None by (intro that) auto
    moreover have "n \<ge> 2 ^ k - 2 ^ k div 4 \<Longrightarrow> thesis"
      using add None ok by (intro that[of "(tbl, n)"]) (auto simp: st)
    ultimately show thesis by linarith
  next
    case (Some xm)
    obtain x m where xm: "xm = (x, m)" by (cases xm)
    have "cell_keys (tbl(s \<mapsto> (x, m + of_nat gain))) = cell_keys tbl"
      using Some xm by (auto simp: cell_keys_def fun_eq_iff)
    moreover have "\<And>u y j. (tbl(s \<mapsto> (x, m + of_nat gain))) u = Some (y, j) \<Longrightarrow> fsst_sym_ok y"
      using wf Some xm by (auto split: if_splits)
    ultimately have "cells_ok k (tbl(s \<mapsto> (x, m + of_nat gain)), n)"
      using ok by (simp add: cells_ok_def st)
    then show thesis using add Some xm by (intro that) auto
  qed
qed

subsection \<open>A counting pass\<close>

lemma fsst_sym_ok_concat:
  assumes "fsst_sym_ok (v, a)" "fsst_sym_ok (u, b)" "a + b \<le> FSST_MAX_SYMLEN"
  shows "fsst_sym_ok (v OR push_bit (a * 8) u, a + b)"
proof -
  have tv: "take_bit (8 * a) v = v" and tu: "take_bit (8 * b) u = u"
    using assms(1,2) by (simp_all add: fsst_sym_ok_def)
  have vb: "j < 8 * a" if "bit v j" for j using that tv by (metis bit_take_bit_iff)
  have ub: "j < 8 * b" if "bit u j" for j using that tu by (metis bit_take_bit_iff)
  have "take_bit (8 * (a + b)) (v OR push_bit (a * 8) u) = v OR push_bit (a * 8) u"
    by (rule bit_word_eqI) (auto simp: bit_simps dest: vb ub)
  with assms show ?thesis by (simp add: fsst_sym_ok_def)
qed

lemma fsst_sym_ok_byte: "fsst_sym_ok (ucast (b :: byte), 1)"
proof -
  have "take_bit 8 (ucast b :: u64) = ucast b"
    by (rule bit_word_eqI) (auto simp: bit_simps dest: bit_imp_le_length)
  then show ?thesis by (simp add: fsst_sym_ok_def FSST_MAX_SYMLEN_def)
qed

definition pass_ok :: "nat \<Rightarrow> fsst_pass \<Rightarrow> bool" where
  "pass_ok k st \<longleftrightarrow> cells_ok k (fp_cells st, fp_used st) \<and>
     (snd (fp_prev st) > 0 \<longrightarrow> fsst_sym_ok (fp_prev st))"

lemma fsst_pass_step_ok:
  assumes ok: "pass_ok k st" and sy: "fsst_sym_ok sy" and k: "2 \<le> k"
  obtains st' where "fsst_pass_step (2 ^ k - 1) sy st = Inr st'" "pass_ok k st'"
proof -
  obtain v l where vl: "sy = (v, l)" by (cases sy)
  obtain pv pl where p: "fp_prev st = (pv, pl)" by (cases "fp_prev st")
  obtain st1 where st1: "fsst_count_add (2 ^ k - 1) sy l (fp_cells st, fp_used st) = Inr st1" "cells_ok k st1"
    using fsst_count_add_ok[OF _ sy k, of "(fp_cells st, fp_used st)" l] ok by (auto simp: pass_ok_def)
  have "\<exists>st2. (if pl > 0 \<and> pl + l \<le> FSST_MAX_SYMLEN
         then fsst_count_add (2 ^ k - 1) (pv OR push_bit (pl * 8) v, pl + l) (pl + l) st1
         else Inr st1) = Inr st2 \<and> cells_ok k st2"
  proof (cases "pl > 0 \<and> pl + l \<le> FSST_MAX_SYMLEN")
    case True
    then have "fsst_sym_ok (pv OR push_bit (pl * 8) v, pl + l)"
      using ok sy by (intro fsst_sym_ok_concat) (auto simp: pass_ok_def p vl)
    then obtain st2 where "fsst_count_add (2 ^ k - 1) (pv OR push_bit (pl * 8) v, pl + l) (pl + l) st1 = Inr st2"
        "cells_ok k st2" using fsst_count_add_ok[OF st1(2) _ k] by blast
    with True show ?thesis by simp
  next
    case False
    with st1(2) show ?thesis by (cases st1) auto
  qed
  then obtain st2 where "(if pl > 0 \<and> pl + l \<le> FSST_MAX_SYMLEN
         then fsst_count_add (2 ^ k - 1) (pv OR push_bit (pl * 8) v, pl + l) (pl + l) st1
         else Inr st1) = Inr st2" "cells_ok k st2" by blast
  then have "fsst_pass_step (2 ^ k - 1) sy st = Inr \<lparr>fp_cells = fst st2, fp_used = snd st2, fp_prev = sy\<rparr>"
    using st1(1) unfolding fsst_pass_step_def Let_def vl p by (simp only: prod.case res_bind_simps) (simp add: split_beta)
  with \<open>cells_ok k st2\<close> sy show thesis by (intro that) (auto simp: pass_ok_def)
qed

lemma fsst_pass_loop_ok:
  assumes finds: "fsst_finds t lk" and t: "\<forall>sy \<in> set t. fsst_sym_ok sy" and k: "2 \<le> k"
    and "pass_ok k st"
  shows "\<exists>st'. fsst_pass_loop (2 ^ k - 1) t lk p st = Inr st' \<and> pass_ok k st'"
  using assms(4)
proof (induction p arbitrary: st rule: length_induct)
  case (1 p)
  show ?case
  proof (cases p)
    case (Cons b q)
    obtain r where r: "fsst_longest_match lk p = Inr r"
      "case r of None \<Rightarrow> True | Some (c, L) \<Rightarrow> c < length t \<and> 1 \<le> L"
      using fsst_longest_match_spec[OF finds, of p] by (auto split: option.splits)
    show ?thesis
    proof (cases r)
      case None
      obtain st1 where "fsst_pass_step (2 ^ k - 1) (ucast b, 1) st = Inr st1" "pass_ok k st1"
        using fsst_pass_step_ok[OF "1.prems" fsst_sym_ok_byte k] .
      with None r(1) "1.IH"[rule_format, of q st1] show ?thesis by (simp add: Cons)
    next
      case (Some cL)
      then obtain c L where cL: "r = Some (c, L)" "c < length t" "1 \<le> L" using r(2) by (cases cL) auto
      then have "fsst_sym_ok (t ! c)" using t by simp
      then obtain st1 where "fsst_pass_step (2 ^ k - 1) (t ! c) st = Inr st1" "pass_ok k st1"
        using fsst_pass_step_ok[OF "1.prems" _ k] by blast
      with cL r(1) "1.IH"[rule_format, of "drop L p" st1] show ?thesis by (simp add: Cons)
    qed
  qed (use 1 in simp)
qed

subsection \<open>The rounds\<close>

lemma set_cand_insert [simp]: "set (cand_insert x xs) = insert x (set xs)"
  by (induction xs) auto

lemma set_cand_sort [simp]: "set (cand_sort cs) = set cs"
  unfolding cand_sort_def by (induction cs) auto

lemma fsst_cands_ok:
  assumes "cells_ok k (cells, used)" and "c \<in> set (fsst_cands slots cells)"
  shows "fsst_sym_ok (cand_val c, cand_len c)"
  using assms by (auto simp: fsst_cands_def cells_ok_def split: option.splits) metis

definition fsst_table_ok :: "fsst_sym list \<Rightarrow> bool" where
  "fsst_table_ok t \<longleftrightarrow> length t \<le> FSST_MAX_SYMBOLS \<and> (\<forall>sy \<in> set t. fsst_sym_ok sy)"

lemma fsst_rounds_ok:
  assumes k: "2 \<le> k" and "fsst_table_ok cur"
  shows "\<exists>t. fsst_rounds n (2 ^ k) sample cur = Inr t \<and> fsst_table_ok t"
  using assms(2)
proof (induction n arbitrary: cur)
  case (Suc n)
  obtain lk where lk: "fsst_lookup_build cur = Inr lk" "fsst_finds cur lk" by (rule fsst_lookup_build_finds)
  let ?st0 = "\<lparr>fp_cells = (\<lambda>_. None), fp_used = 0, fp_prev = (0, 0)\<rparr> :: fsst_pass"
  have "cell_keys (\<lambda>_. None) = (\<lambda>_. None)" by (simp add: cell_keys_def fun_eq_iff)
  then have "pass_ok k ?st0" by (simp add: pass_ok_def cells_ok_def)
  moreover have "\<forall>sy \<in> set cur. fsst_sym_ok sy" using Suc.prems by (simp add: fsst_table_ok_def)
  ultimately obtain st where st: "fsst_pass_loop (2 ^ k - 1) cur lk sample ?st0 = Inr st" "pass_ok k st"
    using fsst_pass_loop_ok[OF lk(2) _ k] by blast
  let ?cands = "fsst_cands (2 ^ k) (fp_cells st)"
  let ?next = "map (\<lambda>c. (cand_val c, cand_len c)) (take FSST_MAX_SYMBOLS (cand_sort ?cands))"
  have "fsst_table_ok ?next"
    using st(2) fsst_cands_ok[of k "fp_cells st" "fp_used st"]
    by (auto simp: fsst_table_ok_def pass_ok_def dest!: in_set_takeD)
  moreover have "fsst_table_ok []" by (simp add: fsst_table_ok_def)
  ultimately show ?case using Suc.IH[of ?next] lk(1) st(1) by (simp add: Let_def)
qed simp

lemma build_fsst_table_ok: "\<exists>t. build_fsst_table corpus = Inr t \<and> fsst_table_ok t"
proof -
  let ?lim = "min (length (take FSST_SAMPLE_CAP corpus) * 2) FSST_COUNT_SLOTS"
  obtain k where k: "grow_pow2 4096 ?lim = 2 ^ k" "12 \<le> k"
    using grow_pow2_pow2[of 4096 12 ?lim] by auto
  then show ?thesis
    using fsst_rounds_ok[of k "[]" FSST_ROUNDS "take FSST_SAMPLE_CAP corpus"]
    by (simp add: build_fsst_table_def Let_def fsst_table_ok_def)
qed

lemma build_chunk_table_ok:
  obtains r where "PgColumnarFsstBuildChunkTable corpus att = Inr r"
    "\<And>table. r = Some table \<Longrightarrow>
       \<exists>t. t \<noteq> [] \<and> table = fsst_serialize_table t \<and> fsst_deserialize_table table = Inr t"
proof -
  obtain t where t: "build_fsst_table corpus = Inr t" "fsst_table_ok t" using build_fsst_table_ok by blast
  then have "fsst_deserialize_table (fsst_serialize_table t) = Inr t"
    by (intro fsst_deserialize_serialize) (auto simp: fsst_table_ok_def)
  with t show thesis
    by (intro that[of "if attlen att \<noteq> -1 \<or> length corpus < FSST_MIN_RAWLEN \<or> t = [] then None
                       else Some (fsst_serialize_table t)"])
       (auto simp: PgColumnarFsstBuildChunkTable_def split: if_splits)
qed

text \<open>The comparison is a strict linear order on candidates, so the sort has one answer.\<close>

lemma fsst_cand_cmp_zero: "fsst_cand_cmp x y = 0 \<longleftrightarrow> x = y"
  by (auto simp: fsst_cand_cmp_def)

lemma fsst_cand_cmp_flip: "fsst_cand_cmp y x = - fsst_cand_cmp x y"
  by (auto simp: fsst_cand_cmp_def)

lemma fsst_cand_cmp_trans:
  "fsst_cand_cmp x y \<le> 0 \<Longrightarrow> fsst_cand_cmp y z \<le> 0 \<Longrightarrow> fsst_cand_cmp x z \<le> 0"
  by (auto simp: fsst_cand_cmp_def split: if_splits)

lemma cand_insert_sorted:
  "sorted_wrt (\<lambda>x y. fsst_cand_cmp x y \<le> 0) xs \<Longrightarrow>
   sorted_wrt (\<lambda>x y. fsst_cand_cmp x y \<le> 0) (cand_insert x xs)"
  by (induction xs) (auto simp: fsst_cand_cmp_flip[of _ x] intro: fsst_cand_cmp_trans)

lemma cand_sort_sorted: "sorted_wrt (\<lambda>x y. fsst_cand_cmp x y \<le> 0) (cand_sort cs)"
  unfolding cand_sort_def by (induction cs) (simp_all add: cand_insert_sorted)

subsection \<open>The distinct count\<close>

definition card_hash :: "u64 \<Rightarrow> nat" where
  "card_hash h = unat (h AND of_nat (FSST_CARD_SLOTS - 1))"

lemma and_4095_less: "unat ((h :: u64) AND 4095) < 4096"
  using word_and_le1[of h 4095] by (simp add: word_le_nat_alt)

interpretation card_table: open_table 12 card_hash
  by unfold_locales (use and_4095_less in \<open>simp add: card_hash_def FSST_CARD_SLOTS_def\<close>)

lemma dict_wins_loop_returns:
  assumes "card (occupied 12 tab) = cnt" and "cnt \<le> DICT_MAX_DISTINCT"
  shows "\<exists>r. dict_wins_loop V corpus pos tab cnt = Inr r"
  using assms
proof (induction "length corpus - pos" arbitrary: pos tab cnt rule: less_induct)
  case less
  define vlen where "vlen = PgColumnarVarSizeAnyUnaligned V (drop pos corpus)"
  define h where "h = pgcolumnar_fnv1a (take vlen (drop pos corpus))"
  show ?case
  proof (cases "pos < length corpus \<and> \<not> (vlen = 0 \<or> pos + vlen > length corpus)")
    case True
    have "card (occupied 12 tab) < 2 ^ 12" using less.prems by (simp add: DICT_MAX_DISTINCT_def)
    then obtain s where s: "probe (2 ^ 12) (\<lambda>s. tab s = None \<or> tab s = Some h) (2 ^ 12 - 1) (card_hash h) = Inr s"
        "s < 2 ^ 12"
      by (rule card_table.lookup_returns[of tab "\<lambda>s. tab s = None \<or> tab s = Some h" h]) auto
    have step: "dict_wins_loop V corpus pos tab cnt =
        (if tab s = None then if cnt + 1 > DICT_MAX_DISTINCT then Inr False
           else dict_wins_loop V corpus (pos + vlen) (tab(s \<mapsto> h)) (cnt + 1)
         else dict_wins_loop V corpus (pos + vlen) tab cnt)"
      using True s(1) unfolding card_hash_def
      by (subst dict_wins_loop.simps) (simp add: vlen_def h_def Let_def FSST_CARD_SLOTS_def)
    have shorter: "length corpus - (pos + vlen) < length corpus - pos" using True by auto
    have "tab s = None \<Longrightarrow> card (occupied 12 (tab(s \<mapsto> h))) = cnt + 1"
      using card_occupied_insert[of s 12 tab h] s(2) less.prems(1) by simp
    then show ?thesis
      unfolding step using less.hyps[OF shorter, of "tab(s \<mapsto> h)" "cnt + 1"]
        less.hyps[OF shorter less.prems] by auto
  next
    case False
    then show ?thesis by (subst dict_wins_loop.simps) (auto simp: vlen_def Let_def)
  qed
qed

lemma dict_wins_returns: "\<exists>r. PgColumnarFsstDictWins V corpus = Inr r"
  unfolding PgColumnarFsstDictWins_def by (rule dict_wins_loop_returns) simp_all

subsection \<open>Properties\<close>

text \<open>
  C28: Training always ends with a usable table: for every corpus the training rounds (parsing
  with the previous table, counting in a growing hash table, sorting the candidates)
  return a table of at most 255 symbols of one to eight bytes, and what the chunk-table
  builder stores is a nonempty table that the reader's deserialiser accepts.
\<close>

theorem fsst_training_ok:
  "(\<exists>t. build_fsst_table corpus = Inr t \<and> fsst_table_ok t) \<and>
   (\<exists>r. PgColumnarFsstBuildChunkTable corpus att = Inr r \<and>
     (case r of None \<Rightarrow> True
      | Some table \<Rightarrow> \<exists>t. t \<noteq> [] \<and> table = fsst_serialize_table t \<and> fsst_deserialize_table table = Inr t))"
proof -
  obtain r where "PgColumnarFsstBuildChunkTable corpus att = Inr r"
    "\<And>table. r = Some table \<Longrightarrow>
       \<exists>t. t \<noteq> [] \<and> table = fsst_serialize_table t \<and> fsst_deserialize_table table = Inr t"
    using build_chunk_table_ok by blast
  then show ?thesis using build_fsst_table_ok by (auto split: option.split)
qed

text \<open>
  The candidate order is a total order and the sort respects it: the comparator is
  antisymmetric and zero only on equal candidates, the sorted list has the same
  candidates, and no later one is greater than an earlier one, so the choice of symbols
  is a function of the candidates alone.
\<close>

lemma fsst_candidates_sorted:
  "sorted_wrt (\<lambda>x y. fsst_cand_cmp x y \<le> 0) (cand_sort cs) \<and> set (cand_sort cs) = set cs \<and>
   fsst_cand_cmp y x = - fsst_cand_cmp x y \<and> (fsst_cand_cmp x y = 0 \<longleftrightarrow> x = y)"
  by (simp add: cand_sort_sorted fsst_cand_cmp_zero fsst_cand_cmp_flip[symmetric])

end
