(* ===== verification/Encode_Chunk.thy ===== *)
theory Encode_Chunk
  imports Gorilla Encoding_Alp Fsst_Build
begin

unbundle bit_operations_syntax

section \<open>Choosing, applying and reversing an encoding\<close>

text \<open>
  The public entry points of \<open>src/src/columnar_encoding.c\<close>: the windowed sample
  \<open>build_sample\<close>, the adaptive selection \<open>PgColumnarEncodeChunk\<close>, the validating dispatch
  \<open>PgColumnarDecodeChunk\<close>, the encoding names and the run iterator. The machine and
  PostgreSQL parameters of the codecs, with the sampling setting, are the record
  \<open>codec_env\<close>. Every codec is an interpretation of one locale: what it encodes, the
  dispatch decodes. The selection is proved once against that interface.
\<close>

subsection \<open>Definitions\<close>

record codec_env =
  env_bits :: bitutils
  env_fpu :: fpu
  env_pg :: pg_datum
  env_sample_rows :: nat

definition ENC_NONE :: nat where "ENC_NONE = 0"
definition ENC_RLE :: nat where "ENC_RLE = 1"
definition ENC_FOR :: nat where "ENC_FOR = 2"
definition ENC_DELTA :: nat where "ENC_DELTA = 3"
definition ENC_GORILLA :: nat where "ENC_GORILLA = 4"
definition ENC_DOD :: nat where "ENC_DOD = 5"
definition ENC_DICT :: nat where "ENC_DICT = 6"
definition ENC_ALP :: nat where "ENC_ALP = 7"
definition ENC_FSST :: nat where "ENC_FSST = 8"

lemmas enc_codes = ENC_NONE_def ENC_RLE_def ENC_FOR_def ENC_DELTA_def ENC_GORILLA_def
  ENC_DOD_def ENC_DICT_def ENC_ALP_def ENC_FSST_def

definition PgColumnarEncodingName :: "nat \<Rightarrow> string" where
  "PgColumnarEncodingName encodingType =
     (if encodingType = ENC_NONE then ''none''
      else if encodingType = ENC_RLE then ''rle''
      else if encodingType = ENC_FOR then ''for''
      else if encodingType = ENC_DELTA then ''delta''
      else if encodingType = ENC_GORILLA then ''gorilla''
      else if encodingType = ENC_DOD then ''dod''
      else if encodingType = ENC_DICT then ''dict''
      else if encodingType = ENC_ALP then ''alp''
      else if encodingType = ENC_FSST then ''fsst''
      else ''unknown'')"

definition ENCODE_SAMPLE_WINDOW :: nat where "ENCODE_SAMPLE_WINDOW = 64"
definition ENCODE_SAMPLE_MIN :: nat where "ENCODE_SAMPLE_MIN = 128"

definition sample_start :: "nat \<Rightarrow> nat \<Rightarrow> nat \<Rightarrow> nat \<Rightarrow> nat" where
  "sample_start n win nwin i = (i * (n - win)) div (nwin - 1)"

definition build_sample :: "byte list \<Rightarrow> nat \<Rightarrow> nat \<Rightarrow> nat \<Rightarrow> (byte list \<times> nat) option" where
  "build_sample raw w n want =
     (if want = 0 \<or> n \<le> want then None
      else let win = (if want < ENCODE_SAMPLE_WINDOW then want else ENCODE_SAMPLE_WINDOW);
               nwin = want div win
      in if nwin < 2 \<or> n \<le> win then None
         else Some (concat (map (\<lambda>i. take (win * w) (drop (sample_start n win nwin i * w) raw))
                                [0..<nwin]), nwin * win))"

definition encode_candidate ::
  "codec_env \<Rightarrow> attr \<Rightarrow> nat \<Rightarrow> byte list \<Rightarrow> nat \<Rightarrow> byte list option result" where
  "encode_candidate E att code raw n =
     (let w = nat (attlen att)
      in if code = ENC_RLE then Inr (encode_rle raw w n)
         else if code = ENC_FOR then Inr (encode_for raw w n)
         else if code = ENC_DELTA then Inr (encode_delta raw w n)
         else if code = ENC_DOD then Inr (encode_dod raw w n)
         else if code = ENC_GORILLA then Inr (encode_gorilla (env_bits E) raw w n)
         else if code = ENC_ALP then Inr (encode_alp (env_fpu E) raw w n)
         else if code = ENC_DICT then encode_dict (env_pg E) raw (attlen att) n
         else Inr None)"

text \<open>The candidates of a fixed-width column, in the order the source tries them.\<close>

definition fixed_candidates :: "attr \<Rightarrow> nat list" where
  "fixed_candidates att =
     [ENC_RLE] @ (if is_packable_int att then [ENC_FOR, ENC_DELTA, ENC_DOD] else [])
     @ (if is_gorilla_float att then [ENC_GORILLA, ENC_ALP] else [])"

text \<open>\<open>SAMPLE_TRY\<close>: the two best candidates on the sample, as \<open>((best0, cand0), (best1, cand1))\<close>.\<close>

definition sample_try ::
  "nat \<Rightarrow> byte list option \<Rightarrow> (nat \<times> nat) \<times> (nat \<times> nat) \<Rightarrow> (nat \<times> nat) \<times> (nat \<times> nat)" where
  "sample_try code r st =
     (case r of None \<Rightarrow> st
      | Some buf \<Rightarrow>
          if length buf < fst (fst st) then ((length buf, code), fst st)
          else if length buf < fst (snd st) then (fst st, (length buf, code))
          else st)"

definition best_on_sample ::
  "codec_env \<Rightarrow> attr \<Rightarrow> byte list \<Rightarrow> nat \<Rightarrow> ((nat \<times> nat) \<times> (nat \<times> nat)) result" where
  "best_on_sample E att sample sampleN =
     (let sampleRawLen = (sampleN * nat (attlen att)) mod 2 ^ 32
      in fold (\<lambda>code r. res_bind r (\<lambda>st.
                 res_bind (encode_candidate E att code sample sampleN)
                   (\<lambda>buf. Inr (sample_try code buf st))))
           (fixed_candidates att @ [ENC_DICT])
           (Inr ((sampleRawLen, ENC_NONE), (sampleRawLen, ENC_NONE))))"

text \<open>The running best: its code, its buffer and its length.\<close>

record best_enc =
  best_code :: nat
  best_buf :: "byte list option"
  best_len :: nat

definition keep_best :: "nat \<Rightarrow> byte list option \<Rightarrow> best_enc \<Rightarrow> best_enc" where
  "keep_best code r b =
     (case r of None \<Rightarrow> b
      | Some buf \<Rightarrow>
          if length buf < best_len b
          then \<lparr>best_code = code, best_buf = Some buf, best_len = length buf\<rparr> else b)"

definition try_codes ::
  "codec_env \<Rightarrow> attr \<Rightarrow> nat list \<Rightarrow> byte list \<Rightarrow> nat \<Rightarrow> best_enc \<Rightarrow> best_enc result" where
  "try_codes E att codes raw n b =
     fold (\<lambda>code r. res_bind r (\<lambda>b.
             res_bind (encode_candidate E att code raw n) (\<lambda>buf. Inr (keep_best code buf b))))
       codes (Inr b)"

definition finish_enc :: "byte list \<Rightarrow> best_enc \<Rightarrow> nat \<times> byte list" where
  "finish_enc raw b = (best_code b, case best_buf b of Some buf \<Rightarrow> buf | None \<Rightarrow> raw)"

definition encode_exhaustive ::
  "codec_env \<Rightarrow> byte list \<Rightarrow> attr \<Rightarrow> nat \<Rightarrow> byte list option \<Rightarrow> best_enc result" where
  "encode_exhaustive E raw att n fsstTable =
     (let w = attlen att;
          codes = (if w > 0 then fixed_candidates att else [])
                  @ (if w > 0 \<or> w = -1 then [ENC_DICT] else [])
      in res_bind (try_codes E att codes raw n
                     \<lparr>best_code = ENC_NONE, best_buf = None, best_len = length raw\<rparr>)
           (\<lambda>b. case fsstTable of
              None \<Rightarrow> Inr b
            | Some table \<Rightarrow>
                if w = -1 \<and> best_len b > length raw - length raw div 4
                then res_bind (encode_fsst_shared raw table) (\<lambda>r. Inr (keep_best ENC_FSST r b))
                else Inr b))"

definition PgColumnarEncodeChunk ::
  "codec_env \<Rightarrow> byte list \<Rightarrow> attr \<Rightarrow> nat \<Rightarrow> byte list option \<Rightarrow> (nat \<times> byte list) result" where
  "PgColumnarEncodeChunk E raw att valueCount fsstTable =
     (let n = valueCount mod 2 ^ 32; w = attlen att;
          start = \<lparr>best_code = ENC_NONE, best_buf = None, best_len = length raw\<rparr>
      in if raw = [] \<or> n = 0 then Inr (ENC_NONE, raw)
         else case (if w > 0 \<and> env_sample_rows E \<ge> ENCODE_SAMPLE_MIN
                    then build_sample raw (nat w) n (env_sample_rows E mod 2 ^ 32) else None) of
           Some (sample, sampleN) \<Rightarrow>
             res_bind (best_on_sample E att sample sampleN)
               (\<lambda>((l0, c0), (l1, c1)).
                  res_bind (try_codes E att [c0, c1] raw n start) (\<lambda>b. Inr (finish_enc raw b)))
         | None \<Rightarrow>
             res_bind (encode_exhaustive E raw att n fsstTable)
               (\<lambda>b. Inr (if best_code b = ENC_NONE then (ENC_NONE, raw) else finish_enc raw b)))"

definition decode_precheck :: "nat \<Rightarrow> attr \<Rightarrow> nat \<Rightarrow> nat \<Rightarrow> nat \<Rightarrow> decode_error option" where
  "decode_precheck encodingType att n encLen rawLen =
     (if encodingType \<in> {ENC_RLE, ENC_FOR, ENC_DELTA, ENC_GORILLA, ENC_DOD} then
        if attlen att \<noteq> 1 \<and> attlen att \<noteq> 2 \<and> attlen att \<noteq> 4 \<and> attlen att \<noteq> 8
        then Some (Corrupt ''fixed-width encoding on a non-fixed-width column'')
        else if n * nat (attlen att) \<noteq> rawLen
        then Some (Corrupt ''raw length does not match value count'') else None
      else if encodingType = ENC_ALP then
        if attlen att \<noteq> 4 \<and> attlen att \<noteq> 8 then Some (Corrupt ''ALP on a non-float column'')
        else if n * nat (attlen att) \<noteq> rawLen
        then Some (Corrupt ''raw length does not match value count'') else None
      else if encodingType = ENC_NONE then
        if encLen \<noteq> rawLen then Some (Corrupt ''uncompressed length mismatch'') else None
      else None)"

definition PgColumnarDecodeChunk ::
  "codec_env \<Rightarrow> byte list \<Rightarrow> nat \<Rightarrow> attr \<Rightarrow> nat \<Rightarrow> nat \<Rightarrow> byte list option \<Rightarrow> byte list result" where
  "PgColumnarDecodeChunk E enc encodingType att valueCount rawLen fsstTable =
     (let n = valueCount mod 2 ^ 32; w = nat (attlen att)
      in if valueCount > 2 ^ 32 - 1 then Inl (Corrupt ''value count too large'')
         else case decode_precheck encodingType att n (length enc) rawLen of
           Some e \<Rightarrow> Inl e
         | None \<Rightarrow>
             if encodingType = ENC_NONE then Inr enc
             else if encodingType = ENC_RLE then decode_rle enc w n
             else if encodingType = ENC_FOR then decode_for enc n rawLen
             else if encodingType = ENC_DELTA then decode_delta enc n rawLen
             else if encodingType = ENC_GORILLA then decode_gorilla enc w n
             else if encodingType = ENC_DOD then decode_dod enc n rawLen
             else if encodingType = ENC_ALP then decode_alp (env_fpu E) enc w n rawLen
             else if encodingType = ENC_DICT then decode_dict enc (attlen att) n rawLen
             else if encodingType = ENC_FSST then
               (case fsstTable of
                  None \<Rightarrow> Inl (Corrupt ''FSST vector without a chunk-shared table'')
                | Some table \<Rightarrow>
                    if table = [] then Inl (Corrupt ''FSST vector without a chunk-shared table'')
                    else decode_fsst_shared enc table rawLen)
             else Inl (Corrupt ''unknown value encoding type''))"

record block_reader =
  br_raw :: "byte list"
  br_valueCount :: nat
  br_width :: nat
  br_pos :: nat

definition PgColumnarBlockReaderInit :: "byte list \<Rightarrow> nat \<Rightarrow> nat \<Rightarrow> block_reader" where
  "PgColumnarBlockReaderInit raw valueCount width =
     \<lparr>br_raw = raw, br_valueCount = valueCount, br_width = width, br_pos = 0\<rparr>"

definition PgColumnarBlockNextRun :: "block_reader \<Rightarrow> (byte list \<times> nat \<times> block_reader) option" where
  "PgColumnarBlockNextRun br =
     (if br_pos br \<ge> br_valueCount br then None
      else let run = rle_run (br_raw br) (br_width br) (br_valueCount br) (br_pos br) 1
           in Some (val_at (br_raw br) (br_width br) (br_pos br), run,
                    br\<lparr>br_pos := br_pos br + run\<rparr>))"

subsection \<open>The sample stays inside the stream\<close>

lemma sample_start_bound:
  assumes "2 \<le> nwin" and "i < nwin" and "win \<le> n"
  shows "sample_start n win nwin i + win \<le> n"
proof -
  have "i * (n - win) \<le> (nwin - 1) * (n - win)" using assms(2) by (intro mult_le_mono1) simp
  then have "sample_start n win nwin i \<le> ((nwin - 1) * (n - win)) div (nwin - 1)"
    unfolding sample_start_def by (rule div_le_mono)
  also have "\<dots> = n - win" using assms(1) by simp
  finally have "sample_start n win nwin i \<le> n - win" .
  with assms(3) show ?thesis by simp
qed

lemma build_sample_length:
  assumes "build_sample raw w n want = Some (sample, sampleN)" and "length raw = n * w"
  shows "length sample = sampleN * w" and "0 < sampleN" and "sampleN \<le> want"
proof -
  define win where "win = (if want < ENCODE_SAMPLE_WINDOW then want else ENCODE_SAMPLE_WINDOW)"
  define nwin where "nwin = want div win"
  have s: "sample = concat (map (\<lambda>i. take (win * w) (drop (sample_start n win nwin i * w) raw)) [0..<nwin])"
    and sn: "sampleN = nwin * win" and c: "2 \<le> nwin" "win < n" "0 < want"
    using assms(1) by (auto simp: build_sample_def Let_def win_def nwin_def split: if_splits)
  have "length (take (win * w) (drop (sample_start n win nwin i * w) raw)) = win * w" if i: "i < nwin" for i
  proof -
    have "sample_start n win nwin i + win \<le> n" using sample_start_bound[of nwin i win n] c i by simp
    then have "(sample_start n win nwin i + win) * w \<le> n * w" by (rule mult_le_mono1)
    then show ?thesis by (simp add: assms(2) add_mult_distrib)
  qed
  then have "length sample = length [0..<nwin] * (win * w)"
    unfolding s by (intro length_concat_const) simp
  then show "length sample = sampleN * w" by (simp add: sn)
  show "sampleN \<le> want" by (simp add: sn nwin_def)
  have "0 < win" using c(1) by (auto simp: nwin_def intro: gr0I)
  then show "0 < sampleN" using c(1) by (simp add: sn)
qed

subsection \<open>The interface of a codec\<close>

text \<open>
  A stream the chunk layer may be given: values of the column's width that tile it, a
  count and a length in the ranges of the source's types, and packing arrays that
  \<open>palloc\<close> grants.
\<close>

definition chunk_ok :: "codec_env \<Rightarrow> attr \<Rightarrow> byte list \<Rightarrow> nat \<Rightarrow> bool" where
  "chunk_ok E att raw n \<longleftrightarrow> bitutils_ok (env_bits E) \<and> 0 < n \<and> alloc_ok n \<and> length raw < 2 ^ 32 \<and>
     tiles (value_size (env_pg E) (attlen att)) n raw"

text \<open>The catalog's float types have the widths of their bit patterns.\<close>

definition attr_ok :: "attr \<Rightarrow> bool" where
  "attr_ok att \<longleftrightarrow> (atttypid att = FLOAT4OID \<longrightarrow> attlen att = 4) \<and>
     (atttypid att = FLOAT8OID \<longrightarrow> attlen att = 8)"

lemma chunk_ok_fixed:
  assumes "chunk_ok E att raw n" and "0 < attlen att"
  shows "length raw = n * nat (attlen att)"
proof -
  have "value_size (env_pg E) (attlen att) = (\<lambda>_. nat (attlen att))"
    using assms(2) by (simp add: value_size_def fun_eq_iff)
  with assms(1) show ?thesis by (simp add: chunk_ok_def tiles_const)
qed

lemma chunk_ok_n: "chunk_ok E att raw n \<Longrightarrow> n < 2 ^ 32"
  by (simp add: chunk_ok_def alloc_ok_def MaxAllocSize_def)

text \<open>
  The widths the dispatch accepts for a run-length chunk; the encoder tries RLE at every
  positive width.
\<close>

definition fixed_width :: "attr \<Rightarrow> bool" where
  "fixed_width att \<longleftrightarrow> attlen att \<in> {1, 2, 4, 8}"

definition readable :: "attr \<Rightarrow> nat \<Rightarrow> bool" where
  "readable att code \<longleftrightarrow> (code = ENC_RLE \<longrightarrow> fixed_width att)"

text \<open>What the running best promises: the dispatch gives the stream back.\<close>

definition best_ok :: "codec_env \<Rightarrow> attr \<Rightarrow> byte list option \<Rightarrow> byte list \<Rightarrow> nat \<Rightarrow> best_enc \<Rightarrow> bool" where
  "best_ok E att tbl raw n b \<longleftrightarrow> best_len b \<le> length raw \<and> best_code b \<le> ENC_FSST \<and>
     (best_code b = ENC_RLE \<longrightarrow> 0 < attlen att) \<and>
     (case best_buf b of
        None \<Rightarrow> best_code b = ENC_NONE
      | Some e \<Rightarrow> best_code b \<noteq> ENC_NONE \<and> length e < length raw \<and>
          (readable att (best_code b) \<longrightarrow>
           PgColumnarDecodeChunk E e (best_code b) att n (length raw) tbl = Inr raw))"

lemma decode_rle_fixed_width:
  "PgColumnarDecodeChunk E e ENC_RLE att n l tbl = Inr raw \<Longrightarrow> 0 < attlen att"
  by (auto simp: PgColumnarDecodeChunk_def decode_precheck_def Let_def split: if_splits)

locale chunk_codec =
  fixes E :: codec_env and att :: attr and tbl :: "byte list option" and code :: nat
    and enc :: "byte list \<Rightarrow> nat \<Rightarrow> byte list option result"
    and handles :: bool
  assumes code_encodes: "code \<noteq> ENC_NONE" "code \<le> ENC_FSST"
    and decodes: "handles \<Longrightarrow> chunk_ok E att raw n \<Longrightarrow> enc raw n = Inr (Some e) \<Longrightarrow>
      PgColumnarDecodeChunk E e code att n (length raw) tbl = Inr raw \<and> length e < length raw"
begin

lemma keep_best_ok:
  assumes "handles" "chunk_ok E att raw n" "enc raw n = Inr r" "best_ok E att tbl raw n b"
  shows "best_ok E att tbl raw n (keep_best code r b)"
proof (cases r)
  case (Some e)
  then have "PgColumnarDecodeChunk E e code att n (length raw) tbl = Inr raw" "length e < length raw"
    using decodes[of raw n e] assms by auto
  then show ?thesis using assms(4) Some code_encodes decode_rle_fixed_width
    by (auto simp: keep_best_def best_ok_def)
qed (use assms in \<open>simp add: keep_best_def\<close>)

end

lemma decode_precheck_fixed:
  "code \<in> {ENC_RLE, ENC_FOR, ENC_DELTA, ENC_GORILLA, ENC_DOD} \<Longrightarrow> fixed_width att \<Longrightarrow>
   decode_precheck code att n l (n * nat (attlen att)) = None"
  by (auto simp: decode_precheck_def fixed_width_def)

lemma fixed_width_valid:
  "fixed_width att \<Longrightarrow> valid_width (nat (attlen att)) \<and> 0 < attlen att"
  by (auto simp: fixed_width_def valid_width_def)

lemma packable_fixed: "is_packable_int att \<Longrightarrow> fixed_width att"
  by (auto simp: is_packable_int_def fixed_width_def)

lemma gorilla_float_width:
  "attr_ok att \<Longrightarrow> is_gorilla_float att \<Longrightarrow> fixed_width att \<and> (nat (attlen att) = 4 \<or> nat (attlen att) = 8)"
  by (auto simp: is_gorilla_float_def attr_ok_def fixed_width_def)

lemma dispatch_fixed:
  assumes "fixed_width att" and "n < 2 ^ 32" and "rawLen = n * nat (attlen att)"
  shows "PgColumnarDecodeChunk E e ENC_RLE att n rawLen tbl = decode_rle e (nat (attlen att)) n"
    and "PgColumnarDecodeChunk E e ENC_FOR att n rawLen tbl = decode_for e n rawLen"
    and "PgColumnarDecodeChunk E e ENC_DELTA att n rawLen tbl = decode_delta e n rawLen"
    and "PgColumnarDecodeChunk E e ENC_DOD att n rawLen tbl = decode_dod e n rawLen"
    and "PgColumnarDecodeChunk E e ENC_GORILLA att n rawLen tbl = decode_gorilla e (nat (attlen att)) n"
  using assms
  by (simp_all add: PgColumnarDecodeChunk_def Let_def decode_precheck_fixed) (simp_all add: enc_codes)

lemma dispatch_alp:
  assumes "attlen att = 4 \<or> attlen att = 8" and "n < 2 ^ 32" and "rawLen = n * nat (attlen att)"
  shows "PgColumnarDecodeChunk E e ENC_ALP att n rawLen tbl =
    decode_alp (env_fpu E) e (nat (attlen att)) n rawLen"
  using assms by (auto simp: PgColumnarDecodeChunk_def Let_def decode_precheck_def enc_codes)

lemma dispatch_var:
  assumes "n < 2 ^ 32"
  shows "PgColumnarDecodeChunk E e ENC_DICT att n rawLen tbl = decode_dict e (attlen att) n rawLen"
    and "table \<noteq> [] \<Longrightarrow>
      PgColumnarDecodeChunk E e ENC_FSST att n rawLen (Some table) = decode_fsst_shared e table rawLen"
  using assms by (auto simp: PgColumnarDecodeChunk_def Let_def decode_precheck_def enc_codes)

lemma rle_loop_shorter:
  "rle_loop raw w n i buf = Some out \<Longrightarrow> length buf < length raw \<Longrightarrow> length out < length raw"
proof (induction raw w n i buf rule: rle_loop.induct)
  case (1 raw w n i buf)
  define run where "run = rle_run raw w n i 1"
  define buf' where "buf' = buf @ u32_bytes run @ val_at raw w i"
  show ?case
  proof (cases "i < n")
    case True
    then have "\<not> length buf' \<ge> length raw" "rle_loop raw w n (i + run) buf' = Some out"
      using "1.prems"(1) by (subst (asm) rle_loop.simps, simp add: run_def buf'_def Let_def split: if_splits)+
    with "1.IH"[OF True run_def buf'_def] show ?thesis by simp
  next
    case False
    with "1.prems" show ?thesis by (subst (asm) rle_loop.simps) simp
  qed
qed

lemma fixed_encoders_shorter:
  "encode_rle raw w n = Some e \<Longrightarrow> raw \<noteq> [] \<Longrightarrow> length e < length raw"
  "encode_for raw w n = Some e \<Longrightarrow> length e < length raw"
  "encode_delta raw w n = Some e \<Longrightarrow> length e < length raw"
  "encode_dod raw w n = Some e \<Longrightarrow> length e < length raw"
  using rle_loop_shorter[of raw w n 0 "[]" e]
  by (simp_all add: encode_rle_def encode_for_def encode_delta_def encode_dod_def Let_def beats_raw_Some)

text \<open>The facts every fixed-width codec of a good chunk starts from.\<close>

lemma chunk_ok_facts:
  assumes "chunk_ok E att raw n" and "fixed_width att"
  shows "length raw = n * nat (attlen att)" "n < 2 ^ 32" "valid_width (nat (attlen att))"
    "raw \<noteq> []" "0 < n" "alloc_ok n" "bitutils_ok (env_bits E)"
proof -
  have w: "0 < attlen att" "valid_width (nat (attlen att))" using fixed_width_valid[OF assms(2)] by auto
  show len: "length raw = n * nat (attlen att)" by (rule chunk_ok_fixed[OF assms(1) w(1)])
  show n: "0 < n" "alloc_ok n" "bitutils_ok (env_bits E)" using assms(1) by (auto simp: chunk_ok_def)
  show "n < 2 ^ 32" by (rule chunk_ok_n[OF assms(1)])
  show "valid_width (nat (attlen att))" by (rule w)
  show "raw \<noteq> []" using len n(1) w(1) by auto
qed

subsection \<open>Every codec satisfies it\<close>

interpretation rle: chunk_codec E att tbl ENC_RLE "\<lambda>raw n. Inr (encode_rle raw (nat (attlen att)) n)"
    "fixed_width att" for E att tbl
proof
  fix raw n e assume h: "fixed_width att" "chunk_ok E att raw n"
    "Inr (encode_rle raw (nat (attlen att)) n) = (Inr (Some e) :: byte list option result)"
  note f = chunk_ok_facts[OF h(2,1)]
  from h(3) show "PgColumnarDecodeChunk E e ENC_RLE att n (length raw) tbl = Inr raw \<and> length e < length raw"
    using decode_encode_rle[OF _ f(1,2)] fixed_encoders_shorter(1) f(4)
    by (simp add: dispatch_fixed(1)[OF h(1) f(2,1)])
qed (simp_all add: enc_codes)

interpretation frame: chunk_codec E att tbl ENC_FOR "\<lambda>raw n. Inr (encode_for raw (nat (attlen att)) n)"
    "is_packable_int att" for E att tbl
proof
  fix raw n e assume h: "is_packable_int att" "chunk_ok E att raw n"
    "Inr (encode_for raw (nat (attlen att)) n) = (Inr (Some e) :: byte list option result)"
  note fw = packable_fixed[OF h(1)]
  note f = chunk_ok_facts[OF h(2) fw]
  from h(3) show "PgColumnarDecodeChunk E e ENC_FOR att n (length raw) tbl = Inr raw \<and> length e < length raw"
    using decode_encode_for[OF _ f(3,1,6)] fixed_encoders_shorter(2)
    by (simp add: dispatch_fixed(2)[OF fw f(2,1)])
qed (simp_all add: enc_codes)

interpretation delta: chunk_codec E att tbl ENC_DELTA "\<lambda>raw n. Inr (encode_delta raw (nat (attlen att)) n)"
    "is_packable_int att" for E att tbl
proof
  fix raw n e assume h: "is_packable_int att" "chunk_ok E att raw n"
    "Inr (encode_delta raw (nat (attlen att)) n) = (Inr (Some e) :: byte list option result)"
  note fw = packable_fixed[OF h(1)]
  note f = chunk_ok_facts[OF h(2) fw]
  from h(3) show "PgColumnarDecodeChunk E e ENC_DELTA att n (length raw) tbl = Inr raw \<and> length e < length raw"
    using decode_encode_delta[OF _ f(3,1,5,6)] fixed_encoders_shorter(3)
    by (simp add: dispatch_fixed(3)[OF fw f(2,1)])
qed (simp_all add: enc_codes)

interpretation dod: chunk_codec E att tbl ENC_DOD "\<lambda>raw n. Inr (encode_dod raw (nat (attlen att)) n)"
    "is_packable_int att" for E att tbl
proof
  fix raw n e assume h: "is_packable_int att" "chunk_ok E att raw n"
    "Inr (encode_dod raw (nat (attlen att)) n) = (Inr (Some e) :: byte list option result)"
  note fw = packable_fixed[OF h(1)]
  note f = chunk_ok_facts[OF h(2) fw]
  from h(3) show "PgColumnarDecodeChunk E e ENC_DOD att n (length raw) tbl = Inr raw \<and> length e < length raw"
    using decode_encode_dod[OF _ f(3,1,5,6)] fixed_encoders_shorter(4)
    by (simp add: dispatch_fixed(4)[OF fw f(2,1)])
qed (simp_all add: enc_codes)

interpretation gorilla: chunk_codec E att tbl ENC_GORILLA
    "\<lambda>raw n. Inr (encode_gorilla (env_bits E) raw (nat (attlen att)) n)"
    "attr_ok att \<and> is_gorilla_float att" for E att tbl
proof
  fix raw n e assume h: "attr_ok att \<and> is_gorilla_float att" "chunk_ok E att raw n"
    "Inr (encode_gorilla (env_bits E) raw (nat (attlen att)) n) = (Inr (Some e) :: byte list option result)"
  have fw: "fixed_width att" "nat (attlen att) = 4 \<or> nat (attlen att) = 8"
    using gorilla_float_width h(1) by auto
  note f = chunk_ok_facts[OF h(2) fw(1)]
  from h(3) show "PgColumnarDecodeChunk E e ENC_GORILLA att n (length raw) tbl = Inr raw \<and> length e < length raw"
    using decode_encode_gorilla[OF f(7) fw(2) f(5,1)]
    by (simp add: dispatch_fixed(5)[OF fw(1) f(2,1)])
qed (simp_all add: enc_codes)

interpretation alp: chunk_codec E att tbl ENC_ALP
    "\<lambda>raw n. Inr (encode_alp (env_fpu E) raw (nat (attlen att)) n)"
    "attr_ok att \<and> is_gorilla_float att" for E att tbl
proof
  fix raw n e assume h: "attr_ok att \<and> is_gorilla_float att" "chunk_ok E att raw n"
    "Inr (encode_alp (env_fpu E) raw (nat (attlen att)) n) = (Inr (Some e) :: byte list option result)"
  have fw: "fixed_width att" "nat (attlen att) = 4 \<or> nat (attlen att) = 8"
    using gorilla_float_width h(1) by auto
  then have w: "attlen att = 4 \<or> attlen att = 8" by (auto simp: fixed_width_def)
  note f = chunk_ok_facts[OF h(2) fw(1)]
  from h(3) show "PgColumnarDecodeChunk E e ENC_ALP att n (length raw) tbl = Inr raw \<and> length e < length raw"
    using decode_encode_alp[OF fw(2) f(1,6)] by (simp add: dispatch_alp[OF w f(2,1)])
qed (simp_all add: enc_codes)

interpretation dict: chunk_codec E att tbl ENC_DICT
    "\<lambda>raw n. encode_dict (env_pg E) raw (attlen att) n" True for E att tbl
proof
  fix raw n e assume h: "chunk_ok E att raw n" "encode_dict (env_pg E) raw (attlen att) n = Inr (Some e)"
  then have "decode_dict e (attlen att) n (length raw) = Inr raw \<and> length e < length raw"
    by (intro decode_encode_dict) (auto simp: chunk_ok_def)
  then show "PgColumnarDecodeChunk E e ENC_DICT att n (length raw) tbl = Inr raw \<and> length e < length raw"
    by (simp add: dispatch_var(1)[OF chunk_ok_n[OF h(1)]])
qed (simp_all add: enc_codes)

interpretation fsst: chunk_codec E att "Some table" ENC_FSST "\<lambda>raw n. encode_fsst_shared raw table" True
    for E att table
proof
  fix raw n e assume h: "chunk_ok E att raw n" "encode_fsst_shared raw table = Inr (Some e)"
  have "decode_fsst_shared e table (length raw) = Inr raw \<and> length e < length raw"
    by (rule decode_encode_fsst[OF h(2)])
  moreover from this have "table \<noteq> []" by (auto simp: decode_fsst_shared_def)
  ultimately show "PgColumnarDecodeChunk E e ENC_FSST att n (length raw) (Some table) = Inr raw \<and>
      length e < length raw"
    by (simp add: dispatch_var(2)[OF chunk_ok_n[OF h(1)]])
qed (simp_all add: enc_codes)

subsection \<open>The selection\<close>

definition candidate_codes :: "attr \<Rightarrow> nat set" where
  "candidate_codes att = {ENC_NONE, ENC_DICT} \<union> (if attlen att > 0 then set (fixed_candidates att) else {})"

lemma encode_candidate_simps:
  "encode_candidate E att ENC_RLE raw n = Inr (encode_rle raw (nat (attlen att)) n)"
  "encode_candidate E att ENC_FOR raw n = Inr (encode_for raw (nat (attlen att)) n)"
  "encode_candidate E att ENC_DELTA raw n = Inr (encode_delta raw (nat (attlen att)) n)"
  "encode_candidate E att ENC_DOD raw n = Inr (encode_dod raw (nat (attlen att)) n)"
  "encode_candidate E att ENC_GORILLA raw n = Inr (encode_gorilla (env_bits E) raw (nat (attlen att)) n)"
  "encode_candidate E att ENC_ALP raw n = Inr (encode_alp (env_fpu E) raw (nat (attlen att)) n)"
  "encode_candidate E att ENC_DICT raw n = encode_dict (env_pg E) raw (attlen att) n"
  "encode_candidate E att ENC_NONE raw n = Inr None"
  by (simp_all add: encode_candidate_def Let_def enc_codes)

lemma encode_candidate_returns:
  assumes "tiles (value_size (env_pg E) (attlen att)) n raw" and "length raw < 2 ^ 32"
  shows "\<exists>r. encode_candidate E att code raw n = Inr r"
  using encode_dict_eq_reference[OF assms] by (auto simp: encode_candidate_def Let_def)

lemma keep_best_unreadable_rle:
  assumes c: "chunk_ok E att raw n" and w: "0 < attlen att" and nf: "\<not> fixed_width att"
    and b: "best_ok E att tbl raw n b"
  shows "best_ok E att tbl raw n (keep_best ENC_RLE (encode_rle raw (nat (attlen att)) n) b)"
proof -
  have "length raw = n * nat (attlen att)" by (rule chunk_ok_fixed[OF c w])
  then have "raw \<noteq> []" using c w by (auto simp: chunk_ok_def)
  then have "encode_rle raw (nat (attlen att)) n = Some e \<Longrightarrow> length e < length raw" for e
    using fixed_encoders_shorter(1) by blast
  with b nf w show ?thesis
    by (auto simp: keep_best_def best_ok_def readable_def enc_codes split: option.splits)
qed

lemma candidate_keeps_best:
  assumes c: "chunk_ok E att raw n" and att: "attr_ok att" and code: "code \<in> candidate_codes att"
    and r: "encode_candidate E att code raw n = Inr r" and b: "best_ok E att tbl raw n b"
  shows "best_ok E att tbl raw n (keep_best code r b)"
proof -
  have "code = ENC_NONE \<or> code = ENC_DICT \<or> code = ENC_RLE \<and> 0 < attlen att \<or>
      code \<in> {ENC_FOR, ENC_DELTA, ENC_DOD} \<and> is_packable_int att \<or>
      code \<in> {ENC_GORILLA, ENC_ALP} \<and> is_gorilla_float att"
    using code by (auto simp: candidate_codes_def fixed_candidates_def split: if_splits)
  then show ?thesis
  proof (elim disjE)
    assume "code = ENC_RLE \<and> 0 < attlen att"
    with r show ?thesis
      using rle.keep_best_ok[OF _ c _ b] keep_best_unreadable_rle[OF c _ _ b]
      by (cases "fixed_width att") (auto simp: encode_candidate_simps)
  next
    assume "code = ENC_NONE"
    with r b show ?thesis by (simp add: encode_candidate_simps keep_best_def)
  next
    assume "code = ENC_DICT"
    with r show ?thesis using dict.keep_best_ok[OF _ c _ b] by (simp add: encode_candidate_simps)
  next
    assume "code \<in> {ENC_FOR, ENC_DELTA, ENC_DOD} \<and> is_packable_int att"
    with r show ?thesis
      using frame.keep_best_ok[OF _ c _ b] delta.keep_best_ok[OF _ c _ b] dod.keep_best_ok[OF _ c _ b]
      by (auto simp: encode_candidate_simps)
  next
    assume "code \<in> {ENC_GORILLA, ENC_ALP} \<and> is_gorilla_float att"
    with r att show ?thesis
      using gorilla.keep_best_ok[OF _ c _ b] alp.keep_best_ok[OF _ c _ b]
      by (auto simp: encode_candidate_simps)
  qed
qed

lemma try_codes_ok:
  assumes c: "chunk_ok E att raw n" and att: "attr_ok att"
    and "set codes \<subseteq> candidate_codes att" and "best_ok E att tbl raw n b"
  shows "\<exists>b'. try_codes E att codes raw n b = Inr b' \<and> best_ok E att tbl raw n b'"
  using assms(3,4)
proof (induction codes arbitrary: b)
  case (Cons code codes)
  obtain r where r: "encode_candidate E att code raw n = Inr r"
    using encode_candidate_returns[of E att n raw code] c by (auto simp: chunk_ok_def)
  then have "best_ok E att tbl raw n (keep_best code r b)"
    using candidate_keeps_best[OF c att _ r] Cons.prems by simp
  with Cons r show ?case by (simp add: try_codes_def)
qed (simp add: try_codes_def)

lemma best_on_sample_codes:
  assumes w: "0 < attlen att" and len: "length sample = sampleN * nat (attlen att)" "length sample < 2 ^ 32"
  obtains l0 c0 l1 c1 where "best_on_sample E att sample sampleN = Inr ((l0, c0), (l1, c1))"
    "{c0, c1} \<subseteq> candidate_codes att"
proof -
  let ?f = "\<lambda>code r. res_bind r (\<lambda>st. res_bind (encode_candidate E att code sample sampleN)
              (\<lambda>buf. Inr (sample_try code buf st)))"
  have "value_size (env_pg E) (attlen att) = (\<lambda>_. nat (attlen att))"
    using w by (simp add: value_size_def fun_eq_iff)
  then have ret: "\<exists>r. encode_candidate E att code sample sampleN = Inr r" for code
    using encode_candidate_returns[of E att sampleN sample code] len by (simp add: tiles_const)
  have fold: "\<exists>st'. fold ?f codes (Inr st) = Inr st' \<and>
      {snd (fst st'), snd (snd st')} \<subseteq> {snd (fst st), snd (snd st)} \<union> set codes" for codes st
  proof (induction codes arbitrary: st)
    case (Cons code codes)
    obtain r where r: "encode_candidate E att code sample sampleN = Inr r" using ret by blast
    have "{snd (fst (sample_try code r st)), snd (snd (sample_try code r st))} \<subseteq>
        {snd (fst st), snd (snd st), code}" by (auto simp: sample_try_def split: option.splits)
    with Cons[of "sample_try code r st"] r show ?case by (auto; blast)
  qed simp
  let ?l = "(sampleN * nat (attlen att)) mod 2 ^ 32"
  obtain st where st: "best_on_sample E att sample sampleN = Inr st"
      "{snd (fst st), snd (snd st)} \<subseteq> {ENC_NONE} \<union> set (fixed_candidates att @ [ENC_DICT])"
    using fold[of "fixed_candidates att @ [ENC_DICT]" "((?l, ENC_NONE), (?l, ENC_NONE))"]
    unfolding best_on_sample_def Let_def by (elim exE conjE) (simp only: fst_conv snd_conv insert_absorb2)
  then show thesis using w
    by (intro that[of "fst (fst st)" "snd (fst st)" "fst (snd st)" "snd (snd st)"])
       (auto simp: candidate_codes_def)
qed

text \<open>The shared symbol table, when there is one, is one the encoder can read.\<close>

definition table_ok :: "byte list option \<Rightarrow> bool" where
  "table_ok tbl \<longleftrightarrow> (case tbl of None \<Rightarrow> True | Some table \<Rightarrow> \<exists>t. fsst_deserialize_table table = Inr t)"

lemma encode_exhaustive_ok:
  assumes c: "chunk_ok E att raw n" and att: "attr_ok att" and t: "table_ok tbl"
  shows "\<exists>b. encode_exhaustive E raw att n tbl = Inr b \<and> best_ok E att tbl raw n b"
proof -
  let ?start = "\<lparr>best_code = ENC_NONE, best_buf = None, best_len = length raw\<rparr>"
  let ?codes = "(if attlen att > 0 then fixed_candidates att else [])
      @ (if attlen att > 0 \<or> attlen att = -1 then [ENC_DICT] else [])"
  have "set ?codes \<subseteq> candidate_codes att" by (auto simp: candidate_codes_def)
  moreover have "best_ok E att tbl raw n ?start" by (simp add: best_ok_def enc_codes)
  ultimately obtain b where b: "try_codes E att ?codes raw n ?start = Inr b" "best_ok E att tbl raw n b"
    using try_codes_ok[OF c att] by blast
  show ?thesis
  proof (cases tbl)
    case None
    with b show ?thesis by (simp add: encode_exhaustive_def Let_def)
  next
    case (Some table)
    then obtain r where r: "encode_fsst_shared raw table = Inr r"
      using t encode_fsst_returns[of table _ raw] by (fastforce simp: table_ok_def)
    have "best_ok E att (Some table) raw n (keep_best ENC_FSST r b)"
      using fsst.keep_best_ok[OF _ c r, of b] b(2) by (simp add: Some)
    with b r Some show ?thesis by (auto simp: encode_exhaustive_def Let_def)
  qed
qed

lemma finish_enc_decodes:
  assumes c: "chunk_ok E att raw n" and b: "best_ok E att tbl raw n b" and fin: "finish_enc raw b = (code, out)"
  shows "length out \<le> length raw \<and> code \<le> ENC_FSST \<and> (code = ENC_RLE \<longrightarrow> 0 < attlen att) \<and>
    (readable att code \<longrightarrow> PgColumnarDecodeChunk E out code att n (length raw) tbl = Inr raw)"
proof (cases "best_buf b")
  case None
  then show ?thesis using b fin chunk_ok_n[OF c]
    by (auto simp: best_ok_def finish_enc_def PgColumnarDecodeChunk_def decode_precheck_def Let_def enc_codes)
next
  case (Some e)
  then show ?thesis using b fin by (auto simp: best_ok_def finish_enc_def)
qed

lemma build_sample_count:
  "build_sample raw w n want = Some (sample, sampleN) \<Longrightarrow> length raw = n * w \<Longrightarrow> sampleN \<le> n"
  using build_sample_length(3)[of raw w n want sample sampleN]
  by (auto simp: build_sample_def Let_def split: if_splits)

lemma sampled_codes_ok:
  assumes c: "chunk_ok E att raw n" and w: "0 < attlen att"
    and bs: "build_sample raw (nat (attlen att)) n want = Some (sample, sampleN)"
  obtains l0 c0 l1 c1 where "best_on_sample E att sample sampleN = Inr ((l0, c0), (l1, c1))"
    "set [c0, c1] \<subseteq> candidate_codes att"
proof -
  have raw_len: "length raw = n * nat (attlen att)" by (rule chunk_ok_fixed[OF c w])
  have "sampleN * nat (attlen att) \<le> length raw"
    unfolding raw_len using build_sample_count[OF bs raw_len] by (rule mult_le_mono1)
  then have "length sample = sampleN * nat (attlen att)" "length sample < 2 ^ 32"
    using build_sample_length(1)[OF bs raw_len] c by (auto simp: chunk_ok_def)
  then show thesis using best_on_sample_codes[OF w, of sample sampleN E] that by (metis list.simps(15) set_empty2)
qed

lemma encode_chunk_best:
  assumes c: "chunk_ok E att raw n" and att: "attr_ok att" and t: "table_ok tbl"
  shows "\<exists>b. PgColumnarEncodeChunk E raw att n tbl = Inr (finish_enc raw b) \<and> best_ok E att tbl raw n b"
proof -
  have n: "n mod 2 ^ 32 = n" "n \<noteq> 0" using chunk_ok_n[OF c] c by (auto simp: chunk_ok_def)
  let ?start = "\<lparr>best_code = ENC_NONE, best_buf = None, best_len = length raw\<rparr>"
  have start: "best_ok E att tbl raw n ?start" by (simp add: best_ok_def enc_codes)
  let ?s = "if attlen att > 0 \<and> env_sample_rows E \<ge> ENCODE_SAMPLE_MIN
      then build_sample raw (nat (attlen att)) n (env_sample_rows E mod 2 ^ 32) else None"
  show ?thesis
  proof (cases "raw = []")
    case True
    with start show ?thesis
      by (intro exI[of _ ?start]) (simp add: PgColumnarEncodeChunk_def finish_enc_def)
  next
    case raw: False
    show ?thesis
    proof (cases ?s)
      case None
      obtain b where b: "encode_exhaustive E raw att n tbl = Inr b" "best_ok E att tbl raw n b"
        using encode_exhaustive_ok[OF c att t] by blast
      then have "best_code b = ENC_NONE \<Longrightarrow> finish_enc raw b = (ENC_NONE, raw)"
        by (auto simp: best_ok_def finish_enc_def split: option.splits)
      with None raw n b show ?thesis by (intro exI[of _ b]) (simp add: PgColumnarEncodeChunk_def Let_def)
    next
      case (Some sn)
      obtain sample sampleN where sn: "sn = (sample, sampleN)" by (cases sn)
      then obtain l0 c0 l1 c1 where best: "best_on_sample E att sample sampleN = Inr ((l0, c0), (l1, c1))"
          "set [c0, c1] \<subseteq> candidate_codes att"
        using Some sampled_codes_ok[OF c] by (auto split: if_splits)
      obtain b where "try_codes E att [c0, c1] raw n ?start = Inr b" "best_ok E att tbl raw n b"
        using try_codes_ok[OF c att best(2) start] by blast
      with raw n best(1) Some sn show ?thesis
        by (intro exI[of _ b]) (simp add: PgColumnarEncodeChunk_def Let_def)
    qed
  qed
qed

lemma encode_chunk_decodes:
  assumes c: "chunk_ok E att raw n" and att: "attr_ok att" and t: "table_ok tbl"
  obtains code out where "PgColumnarEncodeChunk E raw att n tbl = Inr (code, out)"
    "length out \<le> length raw" "code \<le> ENC_FSST" "code = ENC_RLE \<Longrightarrow> 0 < attlen att"
    "readable att code \<Longrightarrow> PgColumnarDecodeChunk E out code att n (length raw) tbl = Inr raw"
proof -
  obtain b where b: "PgColumnarEncodeChunk E raw att n tbl = Inr (finish_enc raw b)"
      "best_ok E att tbl raw n b" using encode_chunk_best[OF assms] by blast
  obtain code out where "finish_enc raw b = (code, out)" by (cases "finish_enc raw b")
  with b finish_enc_decodes[OF c b(2), of code out] show thesis by (intro that[of code out]) auto
qed

subsection \<open>A run-length chunk the dispatch rejects\<close>

definition uuid_att :: attr where
  "uuid_att = \<lparr>attlen = 16, attbyval = False, atttypid = 2950\<rparr>"

lemma uuid_size: "value_size V (attlen uuid_att) = (\<lambda>_. 16)"
  by (simp add: value_size_def uuid_att_def fun_eq_iff)

lemma uuid_rle: "encode_rle (replicate 48 0) 16 3 = Some (u32_bytes 3 @ replicate 16 0)"
  by code_simp

lemma uuid_dict:
  "encode_dict V (replicate 48 0) 16 3 = Inr (Some (u32_bytes 1 @ replicate 16 0 @ [0]))"
proof -
  have sz: "value_size V 16 = (\<lambda>_. 16)" by (simp add: value_size_def fun_eq_iff)
  have "dict_linear (split_values (\<lambda>_. 16) 3 (replicate 48 0)) [] [] = Some ([replicate 16 0], [0, 0, 0])"
    by code_simp
  moreover have "dict_serialize 16 [replicate 16 0] [0, 0, 0] = u32_bytes 1 @ replicate 16 0 @ [0]"
    by code_simp
  ultimately show ?thesis
    by (subst encode_dict_eq_reference)
       (simp_all add: sz tiles_const encode_dict_ref_def beats_raw_def)
qed

subsection \<open>A concrete environment\<close>

definition plain_fpu :: fpu where
  "plain_fpu = \<lparr>fp_mul = (\<lambda>a b. a * b), fp_add = (\<lambda>a b. a + b), fp_div = (\<lambda>a b. a div b),
     fp_less = (\<lambda>a b. a <s b), fp_leq = (\<lambda>a b. a \<le>s b), fp_isfinite = (\<lambda>a. True),
     fp_lit = (\<lambda>m k. of_int m * 10 ^ nat k), fp_of_int64 = (\<lambda>a. a), fp_of_uint = of_nat,
     fp_llround = (\<lambda>a. a), fp_of_float = ucast, fp_to_float = ucast\<rparr>"

definition plain_env :: codec_env where
  "plain_env = \<lparr>env_bits = loop_bitutils, env_fpu = plain_fpu, env_pg = le_pg_datum, env_sample_rows = 0\<rparr>"

definition int8_att :: attr where
  "int8_att = \<lparr>attlen = 8, attbyval = True, atttypid = 20\<rparr>"

lemma int8_chunk_ok: "chunk_ok plain_env int8_att (replicate 24 1) 3"
proof -
  have "value_size le_pg_datum 8 = (\<lambda>_. 8)" by (simp add: value_size_def fun_eq_iff)
  then show ?thesis
    by (simp add: chunk_ok_def plain_env_def int8_att_def loop_bitutils_ok alloc_ok_def
        MaxAllocSize_def tiles_const)
qed

subsection \<open>Properties\<close>

text \<open>
  C10: Choosing an encoding never loses a chunk: for every column type, with or without a
  shared symbol table, on the exhaustive and on the sampled path, the encoder returns a
  known code and bytes no longer than the chunk, and the decoder given that code returns
  exactly the chunk, with one exception: a run-length result at a width other than 1, 2,
  4 or 8.
\<close>

theorem encode_chunk_roundtrip:
  assumes "chunk_ok E att raw n" and "attr_ok att" and "table_ok tbl"
  shows "\<exists>code out. PgColumnarEncodeChunk E raw att n tbl = Inr (code, out) \<and>
    length out \<le> length raw \<and> code \<le> ENC_FSST \<and>
    (\<not> (code = ENC_RLE \<and> attlen att \<notin> {1, 2, 4, 8}) \<longrightarrow>
      PgColumnarDecodeChunk E out code att n (length raw) tbl = Inr raw)"
proof -
  obtain code out where "PgColumnarEncodeChunk E raw att n tbl = Inr (code, out)"
    "length out \<le> length raw" "code \<le> ENC_FSST"
    "readable att code \<Longrightarrow> PgColumnarDecodeChunk E out code att n (length raw) tbl = Inr raw"
    using encode_chunk_decodes[OF assms] by blast
  then show ?thesis unfolding readable_def fixed_width_def by blast
qed

theorem encode_chunk_roundtrip_witness:
  "\<exists>code out. PgColumnarEncodeChunk plain_env (replicate 24 1) int8_att 3 None = Inr (code, out) \<and>
    PgColumnarDecodeChunk plain_env out code int8_att 3 24 None = Inr (replicate 24 1)"
  using encode_chunk_roundtrip[OF int8_chunk_ok, of None]
  by (auto simp: attr_ok_def table_ok_def int8_att_def FLOAT4OID_def FLOAT8OID_def)

text \<open>
  C17: The exception is real. A chunk of three equal uuid values (width 16) is encoded as one
  run, which beats the dictionary, and the decoder refuses the result: the encoder tries
  run-length encoding at every positive width, the decoder's cross-check admits it only
  at widths 1, 2, 4 and 8.
\<close>

theorem uuid_run_unreadable:
  assumes "env_sample_rows E < ENCODE_SAMPLE_MIN"
  shows "PgColumnarEncodeChunk E (replicate 48 0) uuid_att 3 None =
      Inr (ENC_RLE, u32_bytes 3 @ replicate 16 0) \<and>
    PgColumnarDecodeChunk E (u32_bytes 3 @ replicate 16 0) ENC_RLE uuid_att 3 48 None =
      Inl (Corrupt ''fixed-width encoding on a non-fixed-width column'')"
proof -
  define raw :: "byte list" where "raw = replicate 48 0"
  define run :: "byte list" where "run = u32_bytes 3 @ replicate 16 0"
  define ents :: "byte list" where "ents = u32_bytes 1 @ replicate 16 0 @ [0]"
  have lens: "length raw = 48" "length run = 20" "length ents = 21" "raw \<noteq> []"
    by (simp_all add: raw_def run_def ents_def)
  have enc: "encode_candidate E uuid_att ENC_RLE raw 3 = Inr (Some run)"
      "encode_candidate E uuid_att ENC_DICT raw 3 = Inr (Some ents)"
    using uuid_rle uuid_dict
    by (simp_all add: encode_candidate_def uuid_att_def enc_codes raw_def run_def ents_def)
  have codes: "fixed_candidates uuid_att = [ENC_RLE]"
    by (simp add: fixed_candidates_def is_packable_int_def is_gorilla_float_def uuid_att_def)
  have "encode_exhaustive E raw uuid_att 3 None =
      Inr \<lparr>best_code = ENC_RLE, best_buf = Some run, best_len = length run\<rparr>"
    unfolding encode_exhaustive_def codes
    by (simp add: try_codes_def enc keep_best_def lens uuid_att_def Let_def)
       (simp add: uuid_att_def[symmetric] enc lens)
  then show ?thesis using assms lens
    by (simp add: PgColumnarEncodeChunk_def PgColumnarDecodeChunk_def decode_precheck_def finish_enc_def
        uuid_att_def[symmetric] raw_def[symmetric] run_def[symmetric] Let_def)
       (simp add: uuid_att_def enc_codes)
qed

theorem uuid_run_unreadable_witness:
  "PgColumnarDecodeChunk plain_env (u32_bytes 3 @ replicate 16 0) ENC_RLE uuid_att 3 48 None =
     Inl (Corrupt ''fixed-width encoding on a non-fixed-width column'')"
  using uuid_run_unreadable[of plain_env] by (simp add: plain_env_def ENCODE_SAMPLE_MIN_def)

text \<open>
  The sample the encoder trains its choice on stays inside the chunk: every window ends
  at or before the last value, and the sample it builds has exactly the reported number
  of values, at least one and no more than was asked for.
\<close>

lemma sample_in_bounds:
  assumes "length raw = n * w" and "build_sample raw w n want = Some (sample, sampleN)"
  shows "length sample = sampleN * w \<and> 0 < sampleN \<and> sampleN \<le> want \<and>
    (\<forall>win nwin i. 2 \<le> nwin \<and> i < nwin \<and> win \<le> n \<longrightarrow> sample_start n win nwin i + win \<le> n)"
  using build_sample_length[OF assms(2,1)] sample_start_bound by blast

end
