(* ===== verification/Compression.thy ===== *)
theory Compression
  imports Fsst_Build
begin

section \<open>Block compression\<close>

text \<open>
  \<open>src/src/columnar_compression.c\<close>: the guarded calls of the block codecs, the fallback to
  the raw bytes when a codec is absent or does not shrink them, and the checked reverse;
  and \<open>PgColumnarFsstHelpsCompressed\<close> (\<open>columnar_encoding.c\<close>), which compares FSST with
  the plain stream after compression. pglz, lz4 and zstd are libraries: they are the
  record \<open>codec_lib\<close>, with the round trip their documentation promises as \<open>codec_lib_ok\<close>. A
  codec that is compiled out has its \<open>have_\<close> flag false.
\<close>

subsection \<open>Definitions\<close>

record codec_lib =
  pglz_compress :: "byte list \<Rightarrow> byte list option"
  pglz_decompress :: "byte list \<Rightarrow> nat \<Rightarrow> byte list option"
  have_liblz4 :: bool
  lz4_compressBound :: "nat \<Rightarrow> nat"
  lz4_compress :: "byte list \<Rightarrow> byte list option"
  lz4_decompress :: "byte list \<Rightarrow> nat \<Rightarrow> byte list option"
  have_libzstd :: bool
  zstd_bound_error :: "nat \<Rightarrow> bool"
  zstd_compress :: "int \<Rightarrow> byte list \<Rightarrow> byte list option"
  zstd_decompress :: "byte list \<Rightarrow> nat \<Rightarrow> byte list option"

definition COMP_NONE :: nat where "COMP_NONE = 0"
definition COMP_PGLZ :: nat where "COMP_PGLZ = 1"
definition COMP_LZ4 :: nat where "COMP_LZ4 = 2"
definition COMP_ZSTD :: nat where "COMP_ZSTD = 3"

lemmas comp_codes = COMP_NONE_def COMP_PGLZ_def COMP_LZ4_def COMP_ZSTD_def

definition INT32_MAX :: nat where "INT32_MAX = 2147483647"
definition LZ4_MAX_INPUT_SIZE :: nat where "LZ4_MAX_INPUT_SIZE = 0x7E000000"

definition try_pglz :: "codec_lib \<Rightarrow> byte list \<Rightarrow> byte list option" where
  "try_pglz K raw =
     (if raw = [] \<or> length raw > INT32_MAX then None
      else case pglz_compress K raw of
        None \<Rightarrow> None
      | Some c \<Rightarrow> if length c \<ge> length raw then None else Some c)"

definition try_lz4 :: "codec_lib \<Rightarrow> byte list \<Rightarrow> byte list option" where
  "try_lz4 K raw =
     (if raw = [] \<or> length raw > LZ4_MAX_INPUT_SIZE then None
      else case lz4_compress K raw of
        None \<Rightarrow> None
      | Some c \<Rightarrow> if c = [] \<or> length c \<ge> length raw then None else Some c)"

definition try_zstd :: "codec_lib \<Rightarrow> int \<Rightarrow> byte list \<Rightarrow> byte list option" where
  "try_zstd K level raw =
     (if raw = [] then None
      else case zstd_compress K level raw of
        None \<Rightarrow> None
      | Some c \<Rightarrow> if length c \<ge> length raw \<or> length c > INT32_MAX then None else Some c)"

text \<open>The bytes, the codec used and its level.\<close>

definition PgColumnarCompressValueStream ::
  "codec_lib \<Rightarrow> byte list \<Rightarrow> nat \<Rightarrow> int \<Rightarrow> byte list \<times> nat \<times> int" where
  "PgColumnarCompressValueStream K raw requestedType level =
     (if raw = [] then ([], COMP_NONE, 0)
      else let plain = (raw, COMP_NONE, 0)
      in if requestedType = COMP_PGLZ then
           (case try_pglz K raw of Some c \<Rightarrow> (c, COMP_PGLZ, 0) | None \<Rightarrow> plain)
         else if requestedType = COMP_LZ4 then
           (if have_liblz4 K \<and> lz4_compressBound K (length raw) > 0
            then case try_lz4 K raw of Some c \<Rightarrow> (c, COMP_LZ4, 0) | None \<Rightarrow> plain
            else plain)
         else if requestedType = COMP_ZSTD then
           (if have_libzstd K \<and> \<not> zstd_bound_error K (length raw)
            then case try_zstd K level raw of Some c \<Rightarrow> (c, COMP_ZSTD, level) | None \<Rightarrow> plain
            else plain)
         else plain)"

definition expect_length :: "nat \<Rightarrow> string \<Rightarrow> byte list option \<Rightarrow> byte list result" where
  "expect_length rawLen msg r =
     (case r of None \<Rightarrow> Inl (Corrupt msg)
      | Some d \<Rightarrow> if length d \<noteq> rawLen then Inl (Corrupt msg) else Inr d)"

definition PgColumnarDecompressValueStream ::
  "codec_lib \<Rightarrow> byte list \<Rightarrow> nat \<Rightarrow> nat \<Rightarrow> byte list result" where
  "PgColumnarDecompressValueStream K cmp compressionType rawLen =
     (if rawLen = 0 then Inr []
      else if compressionType = COMP_NONE then
        (if length cmp \<noteq> rawLen
         then Inl (Corrupt ''uncompressed stream length does not match expected'') else Inr cmp)
      else if compressionType = COMP_PGLZ then
        expect_length rawLen ''pglz decompression produced the wrong length''
          (pglz_decompress K cmp rawLen)
      else if compressionType = COMP_LZ4 then
        (if have_liblz4 K
         then expect_length rawLen ''lz4 decompression produced the wrong length''
                (lz4_decompress K cmp rawLen)
         else Inl (Corrupt ''this build was compiled without lz4 support''))
      else if compressionType = COMP_ZSTD then
        (if have_libzstd K
         then expect_length rawLen ''zstd decompression failed or produced the wrong length''
                (zstd_decompress K cmp rawLen)
         else Inl (Corrupt ''this build was compiled without zstd support''))
      else Inl (Corrupt ''unknown compression type''))"

text \<open>\<open>minGain\<close> is the setting \<open>pgcolumnar.fsst_min_gain_percent\<close>, between 0 and 100.\<close>

definition PgColumnarFsstHelpsCompressed ::
  "codec_lib \<Rightarrow> nat \<Rightarrow> byte list \<Rightarrow> byte list \<Rightarrow> nat \<Rightarrow> int \<Rightarrow> bool result" where
  "PgColumnarFsstHelpsCompressed K minGain corpus table compressionType compressionLevel =
     (if compressionType = COMP_NONE then Inr True
      else res_bind (encode_fsst_shared corpus table)
        (\<lambda>r. case r of
           None \<Rightarrow> Inr False
         | Some codes \<Rightarrow>
             let (plainComp, _) = PgColumnarCompressValueStream K corpus compressionType compressionLevel;
                 (codesComp, _) = PgColumnarCompressValueStream K codes compressionType compressionLevel
             in Inr ((length codesComp + length table) * 100 < length plainComp * (100 - minGain))))"

subsection \<open>Round trip\<close>

definition codec_lib_ok :: "codec_lib \<Rightarrow> bool" where
  "codec_lib_ok K \<longleftrightarrow>
     (\<forall>raw c. pglz_compress K raw = Some c \<longrightarrow> pglz_decompress K c (length raw) = Some raw) \<and>
     (\<forall>raw c. lz4_compress K raw = Some c \<longrightarrow> lz4_decompress K c (length raw) = Some raw) \<and>
     (\<forall>level raw c. zstd_compress K level raw = Some c \<longrightarrow> zstd_decompress K c (length raw) = Some raw)"

lemma try_codecs_invert:
  assumes "codec_lib_ok K"
  shows "try_pglz K raw = Some c \<Longrightarrow> pglz_decompress K c (length raw) = Some raw"
    and "try_lz4 K raw = Some c \<Longrightarrow> lz4_decompress K c (length raw) = Some raw"
    and "try_zstd K level raw = Some c \<Longrightarrow> zstd_decompress K c (length raw) = Some raw"
  using assms
  by (simp_all add: codec_lib_ok_def try_pglz_def try_lz4_def try_zstd_def split: if_splits option.splits)

text \<open>The outcomes of a compression: the bytes as they are, or what one codec made of them.\<close>

lemma compress_cases:
  assumes "PgColumnarCompressValueStream K raw ty level = (out, used, lvl)"
  obtains "out = raw" "used = COMP_NONE"
  | "try_pglz K raw = Some out" "used = COMP_PGLZ"
  | "try_lz4 K raw = Some out" "used = COMP_LZ4" "have_liblz4 K"
  | "try_zstd K level raw = Some out" "used = COMP_ZSTD" "have_libzstd K"
  using assms
  by (auto simp: PgColumnarCompressValueStream_def Let_def split: if_splits option.splits)

lemma decompress_compress:
  assumes "codec_lib_ok K" and "PgColumnarCompressValueStream K raw ty level = (out, used, lvl)"
  shows "PgColumnarDecompressValueStream K out used (length raw) = Inr raw"
  using assms(2)
proof (cases rule: compress_cases)
qed (simp_all add: PgColumnarDecompressValueStream_def expect_length_def comp_codes
       try_codecs_invert[OF assms(1)])

lemma compress_not_longer:
  assumes "PgColumnarCompressValueStream K raw ty level = (out, used, lvl)"
  shows "length out \<le> length raw" and "used \<noteq> COMP_NONE \<Longrightarrow> length out < length raw"
    and "used = COMP_NONE \<Longrightarrow> out = raw"
  using assms
  by (auto simp: PgColumnarCompressValueStream_def try_pglz_def try_lz4_def try_zstd_def comp_codes Let_def
      split: if_splits option.splits)

lemma compress_used:
  "PgColumnarCompressValueStream K raw ty level = (out, used, lvl) \<Longrightarrow> used = COMP_NONE \<or> used = ty"
  by (auto simp: PgColumnarCompressValueStream_def Let_def split: if_splits option.splits)

text \<open>Libraries that never shrink anything, and one codec that drops a run of zeros.\<close>

definition null_codec_lib :: codec_lib where
  "null_codec_lib = \<lparr>
     pglz_compress = (\<lambda>raw. if raw = replicate (length raw) 0 then Some [0] else None),
     pglz_decompress = (\<lambda>c n. Some (replicate n 0)),
     have_liblz4 = False, lz4_compressBound = (\<lambda>n. n), lz4_compress = (\<lambda>_. None),
     lz4_decompress = (\<lambda>_ _. None),
     have_libzstd = False, zstd_bound_error = (\<lambda>_. False), zstd_compress = (\<lambda>_ _. None),
     zstd_decompress = (\<lambda>_ _. None)\<rparr>"

lemma null_codec_lib_ok: "codec_lib_ok null_codec_lib"
  by (auto simp: codec_lib_ok_def null_codec_lib_def)

subsection \<open>Properties\<close>

text \<open>
  The block codec layer is lossless and never grows a stream: for every codec and level,
  decompressing with the codec the compressor reports returns the stream; the output is
  shorter when a codec was used and the stream itself when none was; the reported codec
  is the requested one or none. The libraries are assumed to invert themselves.
\<close>

lemma value_stream_compression:
  assumes "codec_lib_ok K" and "PgColumnarCompressValueStream K raw ty level = (out, used, lvl)"
  shows "PgColumnarDecompressValueStream K out used (length raw) = Inr raw \<and>
    (if used = COMP_NONE then out = raw else used = ty \<and> length out < length raw)"
  using decompress_compress[OF assms] compress_not_longer[OF assms(2)] compress_used[OF assms(2)]
  by auto

end
