(* ===== verification/Encdesc.thy ===== *)
theory Encdesc
  imports Columnar_Prelude
begin

unbundle bit_operations_syntax

section \<open>The encoding descriptor\<close>

text \<open>
  The wire codec of \<open>src/src/columnar_encdesc.h\<close>: a header (version, flags, vector count),
  one 13-byte entry per vector, written and read field by field. A read of what was put
  gives the fields back, for the \<open>uint8\<close> and \<open>uint32\<close> ranges of the struct.
\<close>

subsection \<open>Definitions\<close>

definition ENCDESC_BASELINE :: nat where "ENCDESC_BASELINE = 0"
definition ENCDESC_VERSION :: nat where "ENCDESC_VERSION = 3"
definition ENCDESC_MIN_READABLE :: nat where "ENCDESC_MIN_READABLE = 2"
definition ENCDESC_FLAG_NO_VALIDITY :: byte where "ENCDESC_FLAG_NO_VALIDITY = 1"
definition ENCDESC_HEADER_LEN :: nat where "ENCDESC_HEADER_LEN = 6"
definition ENCDESC_ENTRY_LEN :: nat where "ENCDESC_ENTRY_LEN = 13"
definition ENCDESC_SHARED_LEN_BYTES :: nat where "ENCDESC_SHARED_LEN_BYTES = 4"

lemmas encdesc_consts = ENCDESC_BASELINE_def ENCDESC_VERSION_def ENCDESC_MIN_READABLE_def
  ENCDESC_FLAG_NO_VALIDITY_def ENCDESC_HEADER_LEN_def ENCDESC_ENTRY_LEN_def
  ENCDESC_SHARED_LEN_BYTES_def

record encdesc_entry =
  ent_type :: nat
  ent_valueCount :: nat
  ent_rawLen :: nat
  ent_encLen :: nat

definition PgColumnarEncdescPutHeaderFlags :: "byte list \<Rightarrow> nat \<Rightarrow> byte \<Rightarrow> byte list" where
  "PgColumnarEncdescPutHeaderFlags desc vectorCount flags =
     desc @ [of_nat ENCDESC_VERSION] @ [flags] @ u32_bytes vectorCount"

definition PgColumnarEncdescVersionSupported :: "byte list \<Rightarrow> bool" where
  "PgColumnarEncdescVersionSupported desc \<longleftrightarrow>
     unat (desc ! 0) \<ge> ENCDESC_MIN_READABLE \<and> unat (desc ! 0) \<le> ENCDESC_VERSION"

definition PgColumnarEncdescOmitsValidity :: "byte list option \<Rightarrow> bool" where
  "PgColumnarEncdescOmitsValidity d =
     (case d of None \<Rightarrow> False
      | Some desc \<Rightarrow>
          if length desc < ENCDESC_HEADER_LEN then False
          else if unat (desc ! 0) = ENCDESC_BASELINE then False
          else (desc ! 1) AND ENCDESC_FLAG_NO_VALIDITY \<noteq> 0)"

definition PgColumnarEncdescPutEntry ::
  "byte list \<Rightarrow> nat \<Rightarrow> nat \<Rightarrow> nat \<Rightarrow> nat \<Rightarrow> byte list" where
  "PgColumnarEncdescPutEntry desc ty valueCount rawLen encLen =
     desc @ [of_nat ty] @ u32_bytes valueCount @ u32_bytes rawLen @ u32_bytes encLen"

definition PgColumnarEncdescReadVectorCount :: "byte list \<Rightarrow> nat" where
  "PgColumnarEncdescReadVectorCount desc = u32_of (drop 2 desc)"

definition PgColumnarEncdescTotalValueCount :: "byte list option \<Rightarrow> int" where
  "PgColumnarEncdescTotalValueCount d =
     (case d of None \<Rightarrow> -1
      | Some desc \<Rightarrow>
          if length desc < ENCDESC_HEADER_LEN then -1
          else let vectorCount = PgColumnarEncdescReadVectorCount desc;
                   entriesEnd = ENCDESC_HEADER_LEN + vectorCount * ENCDESC_ENTRY_LEN
               in if entriesEnd > length desc then -1
                  else int (fold (\<lambda>i tot. tot + u32_of (drop (ENCDESC_HEADER_LEN + i * ENCDESC_ENTRY_LEN + 1) desc))
                              [0..<vectorCount] 0))"

definition PgColumnarEncdescReadEntry :: "byte list \<Rightarrow> encdesc_entry \<times> byte list" where
  "PgColumnarEncdescReadEntry dp =
     (\<lparr>ent_type = unat (dp ! 0), ent_valueCount = u32_of (drop 1 dp),
       ent_rawLen = u32_of (drop 5 dp), ent_encLen = u32_of (drop 9 dp)\<rparr>,
      drop ENCDESC_ENTRY_LEN dp)"

subsection \<open>Reading back\<close>

definition entry_ok :: "encdesc_entry \<Rightarrow> bool" where
  "entry_ok e \<longleftrightarrow> ent_type e < 2 ^ 8 \<and> ent_valueCount e < 2 ^ 32 \<and> ent_rawLen e < 2 ^ 32 \<and>
     ent_encLen e < 2 ^ 32"

definition entry_bytes :: "encdesc_entry \<Rightarrow> byte list" where
  "entry_bytes e = PgColumnarEncdescPutEntry [] (ent_type e) (ent_valueCount e) (ent_rawLen e) (ent_encLen e)"

lemma length_entry_bytes [simp]: "length (entry_bytes e) = 13"
  by (simp add: entry_bytes_def PgColumnarEncdescPutEntry_def)

lemma put_entry_append:
  "PgColumnarEncdescPutEntry desc ty vc rl el =
   desc @ entry_bytes \<lparr>ent_type = ty, ent_valueCount = vc, ent_rawLen = rl, ent_encLen = el\<rparr>"
  by (simp add: PgColumnarEncdescPutEntry_def entry_bytes_def)

lemma read_entry_put:
  assumes "entry_ok e"
  shows "PgColumnarEncdescReadEntry (entry_bytes e @ rest) = (e, rest)"
proof -
  have "drop 5 (b # u32_bytes n @ xs) = xs" "drop 9 (b # u32_bytes n @ u32_bytes m @ xs) = xs"
      "drop 13 (b # u32_bytes n @ u32_bytes m @ u32_bytes k @ xs) = xs" for b n m k xs
    by (simp_all add: drop_Cons')
  with assms show ?thesis
    by (cases e) (simp add: PgColumnarEncdescReadEntry_def entry_bytes_def PgColumnarEncdescPutEntry_def
        entry_ok_def ENCDESC_ENTRY_LEN_def)
qed

definition header_bytes :: "nat \<Rightarrow> byte \<Rightarrow> byte list" where
  "header_bytes vc flags = PgColumnarEncdescPutHeaderFlags [] vc flags"

lemma length_header_bytes [simp]: "length (header_bytes vc flags) = 6"
  by (simp add: header_bytes_def PgColumnarEncdescPutHeaderFlags_def)

lemma header_reads:
  assumes "vc < 2 ^ 32"
  shows "PgColumnarEncdescVersionSupported (header_bytes vc flags @ rest)"
    and "PgColumnarEncdescReadVectorCount (header_bytes vc flags @ rest) = vc"
    and "PgColumnarEncdescOmitsValidity (Some (header_bytes vc flags @ rest)) \<longleftrightarrow> flags AND 1 \<noteq> 0"
  using assms
  by (simp_all add: header_bytes_def PgColumnarEncdescPutHeaderFlags_def PgColumnarEncdescVersionSupported_def
      PgColumnarEncdescReadVectorCount_def PgColumnarEncdescOmitsValidity_def encdesc_consts)

lemma nth_entry:
  assumes "i < length es" and "entry_ok (es ! i)"
  shows "fst (PgColumnarEncdescReadEntry (drop (6 + i * 13) (header_bytes vc flags @ concat (map entry_bytes es) @ rest))) = es ! i"
proof -
  have len: "length (concat (map entry_bytes xs)) = length xs * 13" for xs
    by (rule length_concat_const) simp
  have "concat (map entry_bytes es) = concat (map entry_bytes (take i es)) @ entry_bytes (es ! i) @
      concat (map entry_bytes (drop (Suc i) es))"
    using id_take_nth_drop[OF assms(1)] by (metis concat.simps(2) concat_append list.simps(9) map_append)
  then have "drop (6 + i * 13) (header_bytes vc flags @ concat (map entry_bytes es) @ rest) =
      entry_bytes (es ! i) @ concat (map entry_bytes (drop (Suc i) es)) @ rest"
    using assms(1) by (simp add: len)
  then show ?thesis using read_entry_put[OF assms(2)] by simp
qed

lemma total_value_count:
  assumes "length es < 2 ^ 32" and "\<forall>e \<in> set es. entry_ok e"
  shows "PgColumnarEncdescTotalValueCount (Some (header_bytes (length es) flags @ concat (map entry_bytes es) @ rest))
    = int (sum_list (map ent_valueCount es))"
proof -
  let ?d = "header_bytes (length es) flags @ concat (map entry_bytes es) @ rest"
  have len: "length (concat (map entry_bytes es)) = length es * 13"
    by (rule length_concat_const) simp
  have vc: "u32_of (drop (6 + i * 13 + 1) ?d) = ent_valueCount (es ! i)" if i: "i < length es" for i
  proof -
    have "u32_of (drop (6 + i * 13 + 1) ?d) =
        ent_valueCount (fst (PgColumnarEncdescReadEntry (drop (6 + i * 13) ?d)))"
      by (simp add: PgColumnarEncdescReadEntry_def add.commute del: drop_append)
    with nth_entry[OF i, of "length es" flags rest] assms(2) i show ?thesis by simp
  qed
  have "fold (\<lambda>i tot. tot + u32_of (drop (6 + i * 13 + 1) ?d)) [0..<k] 0 =
      sum_list (map ent_valueCount (take k es))" if "k \<le> length es" for k
    using that
  proof (induction k)
    case (Suc k)
    then show ?case using vc[of k] by (simp add: take_Suc_conv_app_nth del: drop_append)
  qed simp
  from this[of "length es"] show ?thesis
    using header_reads(2)[OF assms(1), of flags "concat (map entry_bytes es) @ rest"]
    by (simp add: PgColumnarEncdescTotalValueCount_def Let_def encdesc_consts len del: drop_append)
qed

subsection \<open>Properties\<close>

text \<open>
  C34: An encoding descriptor is read as it was written: a header followed by its entries
  is accepted, gives back the vector count and the omitted-validity flag, each entry at
  its fixed offset, and the total value count as the sum over the entries.
\<close>

theorem encdesc_roundtrip:
  assumes "length es < 2 ^ 32" and "\<forall>e \<in> set es. entry_ok e" and "i < length es"
  shows "let d = fold (\<lambda>e b. PgColumnarEncdescPutEntry b (ent_type e) (ent_valueCount e) (ent_rawLen e) (ent_encLen e)) es
              (PgColumnarEncdescPutHeaderFlags [] (length es) flags) @ rest
    in PgColumnarEncdescVersionSupported d \<and> PgColumnarEncdescReadVectorCount d = length es \<and>
       (PgColumnarEncdescOmitsValidity (Some d) \<longleftrightarrow> flags AND 1 \<noteq> 0) \<and>
       fst (PgColumnarEncdescReadEntry (drop (6 + i * 13) d)) = es ! i \<and>
       PgColumnarEncdescTotalValueCount (Some d) = int (sum_list (map ent_valueCount es))"
proof -
  have put: "fold (\<lambda>e b. PgColumnarEncdescPutEntry b (ent_type e) (ent_valueCount e) (ent_rawLen e) (ent_encLen e)) es b
      = b @ concat (map entry_bytes es)" for b
    by (induction es arbitrary: b) (simp_all add: PgColumnarEncdescPutEntry_def entry_bytes_def)
  show ?thesis
    using header_reads[OF assms(1), of flags] nth_entry[OF assms(3)] total_value_count[OF assms(1,2)] assms(2,3)
    by (simp add: put header_bytes_def[symmetric] Let_def)
qed

theorem encdesc_roundtrip_witness:
  "let e = \<lparr>ent_type = 3, ent_valueCount = 5, ent_rawLen = 40, ent_encLen = 12\<rparr>;
       d = PgColumnarEncdescPutEntry (PgColumnarEncdescPutHeaderFlags [] 1 1) 3 5 40 12
   in fst (PgColumnarEncdescReadEntry (drop 6 d)) = e \<and> PgColumnarEncdescTotalValueCount (Some d) = 5"
  using encdesc_roundtrip[of "[\<lparr>ent_type = 3, ent_valueCount = 5, ent_rawLen = 40, ent_encLen = 12\<rparr>]" 0 1 "[]"]
  by (simp add: entry_ok_def Let_def)

end
