(* ===== verification/Sketch.thy ===== *)
theory Sketch
  imports Bitstream Encoding_Alp Value_Stream
begin

unbundle bit_operations_syntax

section \<open>The distinct-count sketch\<close>

text \<open>
  \<open>pgc_sketch_add\<close> (\<open>src/src/columnar.h\<close>) and the aggregate \<open>approx_count_distinct\<close> of
  \<open>src/src/columnar_sketch.c\<close>: transition, combine, serialise, deserialise and final
  function over 2048 one-byte HyperLogLog registers. The type's extended hash, whether
  it exists and whether the collation is deterministic are the arguments of the
  transition function; the floating-point operations of the estimate are the \<open>fpu\<close> and
  the two \<open>libm\<close> functions. The registers depend on the set of hashes only, so a parallel
  plan returns the serial answer.
\<close>

subsection \<open>Definitions\<close>

definition PGC_SKETCH_LOG2M :: nat where "PGC_SKETCH_LOG2M = 11"
definition PGC_SKETCH_REGISTERS :: nat where "PGC_SKETCH_REGISTERS = 2 ^ PGC_SKETCH_LOG2M"

definition sketch_rank :: "bitutils \<Rightarrow> u64 \<Rightarrow> byte" where
  "sketch_rank B h =
     (let w = drop_bit PGC_SKETCH_LOG2M h
      in if w = 0 then of_nat (64 - PGC_SKETCH_LOG2M + 1) else of_nat (rightmost_one_pos64 B w + 1))"

definition sketch_slot :: "u64 \<Rightarrow> nat" where
  "sketch_slot h = unat (h AND of_nat (PGC_SKETCH_REGISTERS - 1))"

definition pgc_sketch_add :: "bitutils \<Rightarrow> u64 \<Rightarrow> byte list \<Rightarrow> byte list" where
  "pgc_sketch_add B h regs =
     (if sketch_rank B h > regs ! sketch_slot h then regs[sketch_slot h := sketch_rank B h] else regs)"

record libm =
  ldexp1 :: "int \<Rightarrow> u64"  \<comment> \<open>\<open>ldexp(1.0, e)\<close>\<close>
  fp_log :: "u64 \<Rightarrow> u64"

definition pgc_sketch_estimate :: "fpu \<Rightarrow> libm \<Rightarrow> byte list \<Rightarrow> u64" where
  "pgc_sketch_estimate F L regs =
     (let m = fp_of_uint F PGC_SKETCH_REGISTERS;
          alpha = fp_div F (fp_lit F 7213 (-4)) (fp_add F (fp_lit F 1 0) (fp_div F (fp_lit F 1079 (-3)) m));
          (sum, zeros) = fold (\<lambda>j (sum, zeros).
              (fp_add F sum (ldexp1 L (- int (unat (regs ! j)))),
               if regs ! j = 0 then zeros + 1 else zeros)) [0..<PGC_SKETCH_REGISTERS] (fp_lit F 0 0, 0 :: nat);
          raw = fp_div F (fp_mul F (fp_mul F alpha m) m) sum
      in if fp_leq F raw (fp_mul F (fp_lit F 25 (-1)) m) \<and> zeros > 0
         then fp_mul F m (fp_log L (fp_div F m (fp_of_uint F zeros)))
         else raw)"

record sketch_state =
  haveHash :: bool
  hashFn :: "datum \<Rightarrow> u64"
  regs :: "byte list"

definition pgc_sketch_state_new :: sketch_state where
  "pgc_sketch_state_new = \<lparr>haveHash = False, hashFn = (\<lambda>_. 0), regs = replicate PGC_SKETCH_REGISTERS 0\<rparr>"

text \<open>What the transition function finds in the type cache and the collation.\<close>

record sketch_type =
  extended_hash :: "(datum \<Rightarrow> u64) option"
  collation_deterministic :: bool

definition pgcolumnar_acd_transfn ::
  "bitutils \<Rightarrow> sketch_type \<Rightarrow> sketch_state option \<Rightarrow> datum option \<Rightarrow> sketch_state result" where
  "pgcolumnar_acd_transfn B T st arg =
     (let state = (case st of None \<Rightarrow> pgc_sketch_state_new | Some s \<Rightarrow> s)
      in case arg of
           None \<Rightarrow> Inr state
         | Some v \<Rightarrow>
             res_bind
               (if haveHash state then Inr state
                else case extended_hash T of
                       None \<Rightarrow> Inl (Corrupt ''it has no extended hash function'')
                     | Some hash \<Rightarrow>
                         if \<not> collation_deterministic T
                         then Inl (Corrupt ''cannot count under a nondeterministic collation'')
                         else Inr (state\<lparr>haveHash := True, hashFn := hash\<rparr>))
               (\<lambda>state. Inr (state\<lparr>regs := pgc_sketch_add B (hashFn state v) (regs state)\<rparr>)))"

definition sketch_merge :: "byte list \<Rightarrow> byte list \<Rightarrow> byte list" where
  "sketch_merge a b =
     fold (\<lambda>j a. if b ! j > a ! j then a[j := b ! j] else a) [0..<PGC_SKETCH_REGISTERS] a"

definition pgcolumnar_acd_combinefn ::
  "sketch_state option \<Rightarrow> sketch_state option \<Rightarrow> sketch_state option" where
  "pgcolumnar_acd_combinefn a b =
     (case b of
        None \<Rightarrow> a
      | Some b \<Rightarrow>
          (case a of
             None \<Rightarrow> Some (pgc_sketch_state_new\<lparr>regs := regs b\<rparr>)
           | Some a \<Rightarrow> Some (a\<lparr>regs := sketch_merge (regs a) (regs b)\<rparr>)))"

definition pgcolumnar_acd_serialfn :: "sketch_state \<Rightarrow> byte list" where
  "pgcolumnar_acd_serialfn state = take PGC_SKETCH_REGISTERS (regs state)"

definition pgcolumnar_acd_deserialfn :: "byte list \<Rightarrow> sketch_state result" where
  "pgcolumnar_acd_deserialfn bs =
     (if length bs \<noteq> PGC_SKETCH_REGISTERS then Inl (Corrupt ''approx_count_distinct state length'')
      else Inr (pgc_sketch_state_new\<lparr>regs := bs\<rparr>))"

definition pgcolumnar_acd_finalfn :: "fpu \<Rightarrow> libm \<Rightarrow> sketch_state option \<Rightarrow> u64" where
  "pgcolumnar_acd_finalfn F L st =
     (case st of None \<Rightarrow> 0 | Some state \<Rightarrow> fp_llround F (pgc_sketch_estimate F L (regs state)))"

subsection \<open>States that workers fill apart and merge\<close>

text \<open>
  A state type with an empty state, a step and a merge that commutes with the step. Folding
  the inputs apart and merging is then the same as folding them together.
\<close>

locale mergeable =
  fixes empty :: 's and add :: "'a \<Rightarrow> 's \<Rightarrow> 's" and merge :: "'s \<Rightarrow> 's \<Rightarrow> 's" and inv :: "'s \<Rightarrow> bool"
  assumes inv_empty: "inv empty"
    and inv_add: "inv s \<Longrightarrow> inv (add x s)"
    and merge_empty: "inv s \<Longrightarrow> merge s empty = s"
    and merge_add: "inv s \<Longrightarrow> inv t \<Longrightarrow> merge s (add x t) = add x (merge s t)"
    and add_commute: "inv s \<Longrightarrow> add x (add y s) = add y (add x s)"
    and add_idem: "inv s \<Longrightarrow> add x (add x s) = add x s"
begin

lemma inv_fold: "inv s \<Longrightarrow> inv (fold add xs s)"
  by (induction xs arbitrary: s) (simp_all add: inv_add)

lemma fold_add_commute: "inv s \<Longrightarrow> fold add xs (add x s) = add x (fold add xs s)"
proof (induction xs arbitrary: s)
  case (Cons y ys)
  have "fold add ys (add y (add x s)) = fold add ys (add x (add y s))" using Cons.prems by (simp only: add_commute)
  then show ?case using Cons by (simp add: inv_add)
qed simp

lemma merge_fold: "inv s \<Longrightarrow> inv t \<Longrightarrow> merge s (fold add ys t) = fold add ys (merge s t)"
proof (induction ys arbitrary: t)
  case (Cons y ys)
  then show ?case by (simp add: inv_add merge_add)
qed simp

lemma merge_folds: "merge (fold add xs empty) (fold add ys empty) = fold add (xs @ ys) empty"
  using merge_fold[OF inv_fold[OF inv_empty] inv_empty, of xs ys] merge_empty[OF inv_fold[OF inv_empty]]
  by simp

lemma add_present: "x \<in> set xs \<Longrightarrow> inv s \<Longrightarrow> add x (fold add xs s) = fold add xs s"
proof (induction xs arbitrary: s)
  case (Cons y ys)
  then show ?case
    by (cases "x = y") (auto simp: inv_add fold_add_commute[symmetric] add_idem)
qed simp

lemma fold_add_subset: "set ys \<subseteq> set xs \<Longrightarrow> inv s \<Longrightarrow> fold add ys (fold add xs s) = fold add xs s"
  by (induction ys) (simp_all add: add_present)

lemma fold_append_swap: "inv s \<Longrightarrow> fold add (xs @ ys) s = fold add (ys @ xs) s"
proof (induction xs arbitrary: s)
  case (Cons x xs)
  then show ?case by (simp add: inv_add fold_add_commute inv_fold)
qed simp

text \<open>The state is a function of the set of inputs.\<close>

lemma fold_set_cong:
  assumes "set xs = set ys" and "inv s"
  shows "fold add xs s = fold add ys s"
proof -
  have "fold add xs s = fold add (xs @ ys) s" using fold_add_subset[of ys xs s] assms by simp
  also have "\<dots> = fold add (ys @ xs) s" using assms(2) by (rule fold_append_swap)
  also have "\<dots> = fold add ys s" using fold_add_subset[of xs ys s] assms by simp
  finally show ?thesis .
qed

end

subsection \<open>The registers\<close>

definition sketch_ok :: "byte list \<Rightarrow> bool" where
  "sketch_ok rs \<longleftrightarrow> length rs = PGC_SKETCH_REGISTERS"

lemma sketch_slot_less: "sketch_slot h < PGC_SKETCH_REGISTERS"
proof -
  have "h AND 2047 \<le> 2047" by (rule word_and_le1)
  then have "unat (h AND 2047) \<le> 2047" by (simp add: word_le_nat_alt)
  then show ?thesis by (simp add: sketch_slot_def PGC_SKETCH_REGISTERS_def PGC_SKETCH_LOG2M_def)
qed

lemma length_sketch_add [simp]: "length (pgc_sketch_add B h rs) = length rs"
  by (simp add: pgc_sketch_add_def)

lemma nth_sketch_add:
  assumes "sketch_ok rs" "j < PGC_SKETCH_REGISTERS"
  shows "pgc_sketch_add B h rs ! j = (if j = sketch_slot h then max (sketch_rank B h) (rs ! j) else rs ! j)"
  using assms sketch_slot_less[of h]
  by (auto simp: pgc_sketch_add_def sketch_ok_def max_def nth_list_update)

lemma sketch_merge_fold:
  fixes a b :: "byte list"
  assumes "length a = PGC_SKETCH_REGISTERS" "k \<le> PGC_SKETCH_REGISTERS"
  shows "length (fold (\<lambda>j a. if b ! j > a ! j then a[j := b ! j] else a) [0..<k] a) = length a \<and>
    (\<forall>j < PGC_SKETCH_REGISTERS. fold (\<lambda>j a. if b ! j > a ! j then a[j := b ! j] else a) [0..<k] a ! j =
      (if j < k then max (a ! j) (b ! j) else a ! j))"
  using assms(2)
proof (induction k)
  case (Suc k)
  let ?f = "fold (\<lambda>j a. if b ! j > a ! j then a[j := b ! j] else a) [0..<k] a"
  have f: "length ?f = length a" "\<And>j. j < PGC_SKETCH_REGISTERS \<Longrightarrow> ?f ! j = (if j < k then max (a ! j) (b ! j) else a ! j)"
    using Suc by auto
  have k: "k < PGC_SKETCH_REGISTERS" using Suc.prems by simp
  have "fold (\<lambda>j a. if b ! j > a ! j then a[j := b ! j] else a) [0..<Suc k] a =
      (if b ! k > a ! k then ?f[k := b ! k] else ?f)" using f(2)[OF k] by simp
  moreover have "(if b ! k > a ! k then b ! k else a ! k) = max (a ! k) (b ! k)" by (cases "b ! k > a ! k") auto
  ultimately show ?case using f k assms(1) by (auto simp: nth_list_update less_Suc_eq split: if_splits)
qed simp

lemma nth_sketch_merge:
  assumes "sketch_ok a" "j < PGC_SKETCH_REGISTERS"
  shows "sketch_merge a b ! j = max (a ! j) (b ! j)"
  using sketch_merge_fold[of a PGC_SKETCH_REGISTERS b] assms by (simp add: sketch_merge_def sketch_ok_def)

lemma length_sketch_merge: "sketch_ok a \<Longrightarrow> sketch_ok (sketch_merge a b)"
  using sketch_merge_fold[of a PGC_SKETCH_REGISTERS b] by (simp add: sketch_merge_def sketch_ok_def)

lemma sketch_eqI:
  assumes "sketch_ok a" "sketch_ok b" "\<And>j. j < PGC_SKETCH_REGISTERS \<Longrightarrow> a ! j = b ! j"
  shows "a = b"
  using assms by (intro list_eq_nthI) (simp_all add: sketch_ok_def)

lemma sketch_ok_add: "sketch_ok rs \<Longrightarrow> sketch_ok (pgc_sketch_add B h rs)"
  by (simp add: sketch_ok_def)

lemmas sketch_nth = nth_sketch_add nth_sketch_merge sketch_ok_add length_sketch_merge

interpretation sketch: mergeable "replicate PGC_SKETCH_REGISTERS 0" "pgc_sketch_add B" sketch_merge sketch_ok
  for B
proof
  show "sketch_ok (replicate PGC_SKETCH_REGISTERS 0)" by (simp add: sketch_ok_def)
  fix s t x y assume s: "sketch_ok s"
  show "sketch_ok (pgc_sketch_add B x s)" using s by (rule sketch_ok_add)
  show "sketch_merge s (replicate PGC_SKETCH_REGISTERS 0) = s"
    using s by (intro sketch_eqI) (simp_all add: sketch_nth)
  show "pgc_sketch_add B x (pgc_sketch_add B y s) = pgc_sketch_add B y (pgc_sketch_add B x s)"
    using s by (intro sketch_eqI) (auto simp: sketch_nth max.left_commute)
  show "pgc_sketch_add B x (pgc_sketch_add B x s) = pgc_sketch_add B x s"
    using s by (intro sketch_eqI) (auto simp: sketch_nth)
  assume t: "sketch_ok t"
  show "sketch_merge s (pgc_sketch_add B x t) = pgc_sketch_add B x (sketch_merge s t)"
    using s t by (intro sketch_eqI) (auto simp: sketch_nth max.left_commute)
qed

subsection \<open>The aggregate\<close>

text \<open>One worker's run over its rows, a null row being \<open>None\<close>.\<close>

fun acd_run :: "bitutils \<Rightarrow> sketch_type \<Rightarrow> sketch_state option \<Rightarrow> datum option list \<Rightarrow> sketch_state option result" where
  "acd_run B T st [] = Inr st"
| "acd_run B T st (v # vs) =
     res_bind (pgcolumnar_acd_transfn B T st v) (\<lambda>st'. acd_run B T (Some st') vs)"

definition sketch_of :: "bitutils \<Rightarrow> u64 list \<Rightarrow> byte list" where
  "sketch_of B hs = fold (pgc_sketch_add B) hs (replicate PGC_SKETCH_REGISTERS 0)"

definition row_hashes :: "(datum \<Rightarrow> u64) \<Rightarrow> datum option list \<Rightarrow> u64 list" where
  "row_hashes hash vs = map (\<lambda>v. hash (the v)) (filter (\<lambda>v. v \<noteq> None) vs)"

lemma acd_run_regs:
  assumes "extended_hash T = Some hash" "collation_deterministic T" and "haveHash s \<Longrightarrow> hashFn s = hash"
  shows "\<exists>s'. acd_run B T (Some s) vs = Inr (Some s') \<and>
    regs s' = fold (pgc_sketch_add B) (row_hashes hash vs) (regs s)"
  using assms(3)
proof (induction vs arbitrary: s)
  case (Cons v vs)
  show ?case
  proof (cases v)
    case None
    then show ?thesis using Cons by (simp add: pgcolumnar_acd_transfn_def row_hashes_def)
  next
    case (Some d)
    let ?s1 = "s\<lparr>haveHash := True, hashFn := hash\<rparr>"
    let ?s' = "?s1\<lparr>regs := pgc_sketch_add B (hash d) (regs s)\<rparr>"
    have "haveHash s \<Longrightarrow> s = ?s1" using Cons.prems by (cases s) auto
    then have "pgcolumnar_acd_transfn B T (Some s) v = Inr ?s'"
      using assms(1,2) Some Cons.prems by (cases "haveHash s") (simp_all add: pgcolumnar_acd_transfn_def)
    moreover have "\<exists>s''. acd_run B T (Some ?s') vs = Inr (Some s'') \<and>
        regs s'' = fold (pgc_sketch_add B) (row_hashes hash vs) (regs ?s')"
      by (rule Cons.IH) simp
    ultimately show ?thesis using Some by (simp add: row_hashes_def)
  qed
qed (simp add: row_hashes_def)

lemma acd_run_start:
  assumes "extended_hash T = Some hash" "collation_deterministic T" "vs \<noteq> []"
  shows "\<exists>s. acd_run B T None vs = Inr (Some s) \<and> regs s = sketch_of B (row_hashes hash vs)"
proof -
  obtain v vs' where v: "vs = v # vs'" using assms(3) by (cases vs) auto
  have "acd_run B T None vs = acd_run B T (Some pgc_sketch_state_new) vs"
    by (simp add: v pgcolumnar_acd_transfn_def)
  then show ?thesis
    using acd_run_regs[OF assms(1,2), of pgc_sketch_state_new B vs]
    by (simp add: pgc_sketch_state_new_def sketch_of_def)
qed

lemma row_hashes_append: "row_hashes hash (xs @ ys) = row_hashes hash xs @ row_hashes hash ys"
  by (simp add: row_hashes_def)

lemma sketch_ok_of: "sketch_ok (sketch_of B hs)"
  unfolding sketch_of_def by (rule sketch.inv_fold[OF sketch.inv_empty])

lemma sketch_of_append: "sketch_merge (sketch_of B xs) (sketch_of B ys) = sketch_of B (xs @ ys)"
  unfolding sketch_of_def by (rule sketch.merge_folds)

lemma sketch_rank_le:
  assumes "bitutils_ok B" shows "unat (sketch_rank B h) \<le> 54"
proof (cases "drop_bit 11 h = 0")
  case False
  then have "bit (drop_bit 11 h) (rightmost_one_pos64 B (drop_bit 11 h))"
    using assms by (simp add: bitutils_ok_def)
  then have "rightmost_one_pos64 B (drop_bit 11 h) < 53"
    using bit_imp_le_length[of h "11 + rightmost_one_pos64 B (drop_bit 11 h)"] by (simp add: bit_drop_bit_eq)
  then have "unat (of_nat (rightmost_one_pos64 B (drop_bit 11 h) + 1) :: byte) \<le> 54"
    by (simp only: unat_of_nat) (simp add: take_bit_eq_mod)
  then show ?thesis using False by (simp add: sketch_rank_def PGC_SKETCH_LOG2M_def)
qed (simp add: sketch_rank_def PGC_SKETCH_LOG2M_def)

lemma sketch_of_le:
  assumes "bitutils_ok B"
  shows "\<forall>r \<in> set (sketch_of B hs). unat r \<le> 54"
proof -
  have "\<forall>r \<in> set (fold (pgc_sketch_add B) hs rs). unat r \<le> 54" if "\<forall>r \<in> set rs. unat r \<le> 54" for rs
    using that
  proof (induction hs arbitrary: rs)
    case (Cons h hs)
    have "\<forall>r \<in> set (pgc_sketch_add B h rs). unat r \<le> 54"
      using Cons.prems sketch_rank_le[OF assms, of h] set_update_subset_insert[of rs "sketch_slot h" "sketch_rank B h"]
      by (auto simp: pgc_sketch_add_def)
    then show ?case using Cons.IH by simp
  qed simp
  from this[of "replicate PGC_SKETCH_REGISTERS 0"] show ?thesis unfolding sketch_of_def by simp
qed

subsection \<open>Properties\<close>

text \<open>
  C24: A parallel distinct count is the serial one: two workers that run the transition
  function over any split of the rows, one shipping its state through serialise and
  deserialise, combine to the registers, and so to the count, of one run over all rows.
\<close>

theorem sketch_parallel_is_serial:
  assumes "extended_hash T = Some hash" and "collation_deterministic T" and "xs \<noteq> []" and "ys \<noteq> []"
  shows "\<exists>a b b' s. acd_run B T None xs = Inr (Some a) \<and> acd_run B T None ys = Inr (Some b) \<and>
    pgcolumnar_acd_deserialfn (pgcolumnar_acd_serialfn b) = Inr b' \<and>
    acd_run B T None (xs @ ys) = Inr (Some s) \<and>
    pgcolumnar_acd_finalfn F L (pgcolumnar_acd_combinefn (Some a) (Some b')) =
      pgcolumnar_acd_finalfn F L (Some s)"
proof -
  obtain a where a: "acd_run B T None xs = Inr (Some a)" "regs a = sketch_of B (row_hashes hash xs)"
    using acd_run_start[OF assms(1,2,3)] by blast
  obtain b where b: "acd_run B T None ys = Inr (Some b)" "regs b = sketch_of B (row_hashes hash ys)"
    using acd_run_start[OF assms(1,2,4)] by blast
  obtain s where s: "acd_run B T None (xs @ ys) = Inr (Some s)" "regs s = sketch_of B (row_hashes hash (xs @ ys))"
    using acd_run_start[OF assms(1,2), of "xs @ ys"] assms(3) by auto
  have len: "length (regs b) = PGC_SKETCH_REGISTERS" using sketch_ok_of b(2) by (simp add: sketch_ok_def)
  let ?b' = "pgc_sketch_state_new\<lparr>regs := regs b\<rparr>"
  have "pgcolumnar_acd_deserialfn (pgcolumnar_acd_serialfn b) = Inr ?b'"
    using len by (simp add: pgcolumnar_acd_deserialfn_def pgcolumnar_acd_serialfn_def)
  moreover have "pgcolumnar_acd_finalfn F L (pgcolumnar_acd_combinefn (Some a) (Some ?b')) =
      pgcolumnar_acd_finalfn F L (Some s)"
    using a(2) b(2) s(2)
    by (simp add: pgcolumnar_acd_finalfn_def pgcolumnar_acd_combinefn_def sketch_of_append row_hashes_append)
  ultimately show ?thesis using a(1) b(1) s(1) by blast
qed

theorem sketch_parallel_is_serial_witness:
  "\<exists>a s. acd_run loop_bitutils \<lparr>extended_hash = Some (\<lambda>_. 9), collation_deterministic = True\<rparr> None [Some (ByVal 1)] =
     Inr (Some a) \<and>
   acd_run loop_bitutils \<lparr>extended_hash = Some (\<lambda>_. 9), collation_deterministic = True\<rparr> None
     ([Some (ByVal 1)] @ [None]) = Inr (Some s)"
  using sketch_parallel_is_serial[of "\<lparr>extended_hash = Some (\<lambda>_. 9), collation_deterministic = True\<rparr>" "\<lambda>_. 9"
      "[Some (ByVal 1)]" "[None]" loop_bitutils] by auto

text \<open>
  C25: The registers are a function of the set of values: two inputs with the same distinct
  hashes, in any order and with any repetition, give the same sketch, and every register
  is at most 54, one more than the 53 bits that are ranked.
\<close>

theorem sketch_depends_on_set:
  assumes "set hs = set hs'" and "bitutils_ok B"
  shows "fold (pgc_sketch_add B) hs (replicate PGC_SKETCH_REGISTERS 0) =
      fold (pgc_sketch_add B) hs' (replicate PGC_SKETCH_REGISTERS 0) \<and>
    (\<forall>r \<in> set (fold (pgc_sketch_add B) hs (replicate PGC_SKETCH_REGISTERS 0)). unat r \<le> 54)"
  using sketch.fold_set_cong[OF assms(1) sketch.inv_empty] sketch_of_le[OF assms(2), of hs]
  by (simp add: sketch_of_def)

theorem sketch_depends_on_set_witness:
  "fold (pgc_sketch_add loop_bitutils) [5, 9, 5] (replicate PGC_SKETCH_REGISTERS 0) =
   fold (pgc_sketch_add loop_bitutils) [9, 5] (replicate PGC_SKETCH_REGISTERS 0)"
  using sketch_depends_on_set[of "[5, 9, 5]" "[9, 5]", OF _ loop_bitutils_ok] by (simp add: insert_commute)

end
