(* ===== verification/Chunk_Buffer.thy ===== *)
theory Chunk_Buffer
  imports Sketch
begin

unbundle bit_operations_syntax

section \<open>Column definitions and chunk buffers\<close>

text \<open>
  The write side of a column up to the flush (\<open>src/src/columnar_write_state.c\<close>):
  \<open>build_column_def\<close> resolves what a column's type allows, and the per-column body of
  \<open>PgColumnarWriteRow\<close> appends one value to the buffers of the current chunk group while it
  maintains the count, the minimum and maximum, the greatest upper bound of a range
  column, the exact sum and the hashes for the bloom filter. Type-cache entries (comparison
  and hash procedures, range deserialisation) are arguments; what is relied on is that a
  comparison procedure orders the values of its type.
\<close>

subsection \<open>Definitions\<close>

record range_bound =
  rb_val :: datum
  rb_infinite :: bool
  rb_inclusive :: bool

record range_parts =
  rp_lower :: range_bound
  rp_upper :: range_bound
  rp_empty :: bool

record range_entry =
  re_deserialize :: "datum \<Rightarrow> range_parts"
  re_elemCmp :: "(datum \<Rightarrow> datum \<Rightarrow> int) option"
  re_elemByVal :: bool
  re_elemLen :: int

text \<open>
  A type-cache entry: the default btree comparison and the hash procedure, if any, under
  the column's collation; the range information, if it is a range type with an element
  type.
\<close>

record type_entry =
  te_cmp :: "(datum \<Rightarrow> datum \<Rightarrow> int) option"
  te_hash :: "(datum \<Rightarrow> u32) option"
  te_range :: "range_entry option"

datatype fast_cmp = FASTCMP_NONE | FASTCMP_I16 | FASTCMP_I32 | FASTCMP_I64

record column_def =
  orderable :: bool
  cmpFn :: "datum \<Rightarrow> datum \<Rightarrow> int"
  fastCmp :: fast_cmp
  isRange :: bool
  rangeDeserialize :: "datum \<Rightarrow> range_parts"
  elemCmpFn :: "datum \<Rightarrow> datum \<Rightarrow> int"
  elemByVal :: bool
  elemLen :: int
  summableInt :: bool
  bloomable :: bool
  valueHash :: "datum \<Rightarrow> u32"
  sketchFn :: "datum \<Rightarrow> u64"

definition INT8OID :: nat where "INT8OID = 20"
definition INT2OID :: nat where "INT2OID = 21"
definition INT4OID :: nat where "INT4OID = 23"
definition DATEOID :: nat where "DATEOID = 1082"
definition TIMESTAMPOID :: nat where "TIMESTAMPOID = 1114"
definition TIMESTAMPTZOID :: nat where "TIMESTAMPTZOID = 1184"

text \<open>\<open>memset(def, 0, ...)\<close>: procedure pointers that are never called.\<close>

definition zero_def :: column_def where
  "zero_def = \<lparr>orderable = False, cmpFn = (\<lambda>_ _. 0), fastCmp = FASTCMP_NONE, isRange = False,
     rangeDeserialize = (\<lambda>_. \<lparr>rp_lower = \<lparr>rb_val = ByVal 0, rb_infinite = True, rb_inclusive = False\<rparr>,
       rp_upper = \<lparr>rb_val = ByVal 0, rb_infinite = True, rb_inclusive = False\<rparr>, rp_empty = True\<rparr>),
     elemCmpFn = (\<lambda>_ _. 0), elemByVal = False, elemLen = 0, summableInt = False, bloomable = False,
     valueHash = (\<lambda>_. 0), sketchFn = (\<lambda>_. 0)\<rparr>"

definition fast_cmp_of :: "nat \<Rightarrow> fast_cmp" where
  "fast_cmp_of typid =
     (if typid = INT2OID then FASTCMP_I16
      else if typid = INT4OID \<or> typid = DATEOID then FASTCMP_I32
      else if typid = INT8OID \<or> typid = TIMESTAMPOID \<or> typid = TIMESTAMPTZOID then FASTCMP_I64
      else FASTCMP_NONE)"

definition build_column_def :: "(nat \<Rightarrow> type_entry) \<Rightarrow> attr \<Rightarrow> bool \<Rightarrow> bool \<Rightarrow> bool \<Rightarrow> column_def" where
  "build_column_def T att isdropped deterministic bloomEnabled =
     (if isdropped then zero_def
      else let tce = T (atttypid att);
               d1 = (case te_range tce of
                       None \<Rightarrow> zero_def
                     | Some r \<Rightarrow>
                         (case re_elemCmp r of
                            None \<Rightarrow> zero_def
                          | Some ec \<Rightarrow> zero_def\<lparr>isRange := True, rangeDeserialize := re_deserialize r,
                              elemCmpFn := ec, elemByVal := re_elemByVal r, elemLen := re_elemLen r\<rparr>));
               d2 = (case te_cmp tce of
                       None \<Rightarrow> d1
                     | Some c \<Rightarrow> d1\<lparr>orderable := True, cmpFn := c, fastCmp := fast_cmp_of (atttypid att)\<rparr>);
               d3 = d2\<lparr>summableInt := (atttypid att = INT2OID \<or> atttypid att = INT4OID)\<rparr>
           in case te_hash tce of
                Some h \<Rightarrow> if bloomEnabled \<and> deterministic then d3\<lparr>bloomable := True, valueHash := h\<rparr> else d3
              | None \<Rightarrow> d3)"

text \<open>\<open>DatumGetInt16\<close>, \<open>DatumGetInt32\<close> and \<open>DatumGetInt64\<close> of a by-value datum.\<close>

definition datum_word :: "datum \<Rightarrow> u64" where
  "datum_word d = (case d of ByVal v \<Rightarrow> v | ByRef b \<Rightarrow> 0)"

definition DatumGetInt16 :: "datum \<Rightarrow> int" where
  "DatumGetInt16 d = sint (ucast (datum_word d) :: u16)"

definition DatumGetInt32 :: "datum \<Rightarrow> int" where
  "DatumGetInt32 d = sint (ucast (datum_word d) :: u32)"

definition DatumGetInt64 :: "datum \<Rightarrow> int" where
  "DatumGetInt64 d = sint (datum_word d)"

definition three_way :: "int \<Rightarrow> int \<Rightarrow> int" where
  "three_way x y = (if x < y then -1 else if x > y then 1 else 0)"

definition pgcolumnar_cmp_value :: "column_def \<Rightarrow> datum \<Rightarrow> datum \<Rightarrow> int" where
  "pgcolumnar_cmp_value def a b =
     (case fastCmp def of
        FASTCMP_I16 \<Rightarrow> three_way (DatumGetInt16 a) (DatumGetInt16 b)
      | FASTCMP_I32 \<Rightarrow> three_way (DatumGetInt32 a) (DatumGetInt32 b)
      | FASTCMP_I64 \<Rightarrow> three_way (DatumGetInt64 a) (DatumGetInt64 b)
      | FASTCMP_NONE \<Rightarrow> cmpFn def a b)"

text \<open>
  A column's buffers in one chunk group. The minimum and maximum are one field, present
  exactly when \<open>hasMinMax\<close>; the three states of the upper bound are \<open>None\<close> (nothing seen),
  \<open>Some None\<close> (unbounded) and \<open>Some (Some v)\<close>. The value offsets are \<open>None\<close> until the first
  buffered fetch.
\<close>

record column_buffer =
  valueStream :: "byte list"
  existsStream :: "bool list"
  valueCount :: nat
  minMax :: "(datum \<times> datum) option"
  maxUpper :: "datum option option"
  colSum :: u64
  hashBuf :: "u32 list"
  valOffsets :: "u32 list option"

definition empty_column_buffer :: column_buffer where
  "empty_column_buffer = \<lparr>valueStream = [], existsStream = [], valueCount = 0, minMax = None,
     maxUpper = None, colSum = 0, hashBuf = [], valOffsets = None\<rparr>"

definition buffered_note_offset :: "u32 \<Rightarrow> column_buffer \<Rightarrow> column_buffer" where
  "buffered_note_offset off col =
     (case valOffsets col of None \<Rightarrow> col | Some os \<Rightarrow> col\<lparr>valOffsets := Some (os @ [off])\<rparr>)"

definition flat_datum :: "pg_datum \<Rightarrow> attr \<Rightarrow> datum \<Rightarrow> datum" where
  "flat_datum V att v =
     (if attlen att = -1 then (case v of ByRef b \<Rightarrow> ByRef (pg_detoast_datum V b) | ByVal w \<Rightarrow> ByVal w) else v)"

definition note_min_max :: "column_def \<Rightarrow> datum \<Rightarrow> (datum \<times> datum) option \<Rightarrow> (datum \<times> datum) option" where
  "note_min_max def v mm =
     (case mm of
        None \<Rightarrow> Some (v, v)
      | Some (mn, mx) \<Rightarrow>
          if pgcolumnar_cmp_value def v mx > 0 then Some (mn, v)
          else if pgcolumnar_cmp_value def v mn < 0 then Some (v, mx)
          else Some (mn, mx))"

definition note_upper :: "column_def \<Rightarrow> datum \<Rightarrow> datum option option \<Rightarrow> datum option option" where
  "note_upper def v up =
     (let r = rangeDeserialize def v
      in if rp_empty r then up
         else if rb_infinite (rp_upper r) then Some None
         else case up of
                Some None \<Rightarrow> up
              | None \<Rightarrow> Some (Some (rb_val (rp_upper r)))
              | Some (Some u) \<Rightarrow>
                  if elemCmpFn def (rb_val (rp_upper r)) u > 0 then Some (Some (rb_val (rp_upper r))) else up)"

definition int_datum :: "attr \<Rightarrow> datum \<Rightarrow> int" where
  "int_datum att v = (if atttypid att = INT2OID then DatumGetInt16 v else DatumGetInt32 v)"

text \<open>The body of the column loop of \<open>PgColumnarWriteRow\<close> for one column, \<open>None\<close> being a null.\<close>

definition write_column_value ::
  "pg_datum \<Rightarrow> attr \<Rightarrow> column_def \<Rightarrow> datum option \<Rightarrow> column_buffer \<Rightarrow> column_buffer result" where
  "write_column_value V att def value col0 =
     (let col = buffered_note_offset (of_nat (length (valueStream col0))) col0
      in case value of
           None \<Rightarrow> Inr (col\<lparr>existsStream := existsStream col @ [False]\<rparr>)
         | Some v0 \<Rightarrow>
             let v = flat_datum V att v0
             in res_bind (PgColumnarEncodeValue V (valueStream col) att v) (\<lambda>stream.
                  Inr (col\<lparr>existsStream := existsStream col @ [True],
                           valueStream := stream,
                           valueCount := valueCount col + 1,
                           hashBuf := (if bloomable def then hashBuf col @ [valueHash def v] else hashBuf col),
                           colSum := (if summableInt def then colSum col + word_of_int (int_datum att v) else colSum col),
                           minMax := (if orderable def then note_min_max def v (minMax col) else minMax col),
                           maxUpper := (if isRange def then note_upper def v (maxUpper col) else maxUpper col)\<rparr>)))"

fun write_column_values ::
  "pg_datum \<Rightarrow> attr \<Rightarrow> column_def \<Rightarrow> datum option list \<Rightarrow> column_buffer \<Rightarrow> column_buffer result" where
  "write_column_values V att def [] col = Inr col"
| "write_column_values V att def (v # vs) col =
     res_bind (write_column_value V att def v col) (write_column_values V att def vs)"

subsection \<open>Comparison procedures\<close>

text \<open>
  The btree contract on the values of a type: the sign flips with the arguments and the
  order is transitive.
\<close>

locale total_cmp =
  fixes D :: "'a set" and cmp :: "'a \<Rightarrow> 'a \<Rightarrow> int"
  assumes flip: "x \<in> D \<Longrightarrow> y \<in> D \<Longrightarrow> cmp x y \<le> 0 \<longleftrightarrow> 0 \<le> cmp y x"
    and trans: "x \<in> D \<Longrightarrow> y \<in> D \<Longrightarrow> z \<in> D \<Longrightarrow> cmp x y \<le> 0 \<Longrightarrow> cmp y z \<le> 0 \<Longrightarrow> cmp x z \<le> 0"
begin

lemma refl: "x \<in> D \<Longrightarrow> cmp x x \<le> 0"
  using flip[of x x] by linarith

lemma strict_flip: "x \<in> D \<Longrightarrow> y \<in> D \<Longrightarrow> cmp x y < 0 \<longleftrightarrow> 0 < cmp y x"
  using flip[of y x] by linarith

text \<open>One step of a running maximum and of a running minimum.\<close>

lemma max_step:
  assumes "v \<in> D" "mx \<in> D" and "\<forall>x \<in> S. x \<in> D \<and> cmp x mx \<le> 0"
  shows "\<forall>x \<in> insert v S. cmp x (if cmp v mx > 0 then v else mx) \<le> 0"
proof
  fix x assume x: "x \<in> insert v S"
  show "cmp x (if cmp v mx > 0 then v else mx) \<le> 0"
  proof (cases "cmp v mx > 0")
    case True
    then have "cmp mx v \<le> 0" using strict_flip[OF assms(2,1)] by simp
    then show ?thesis using True x assms refl trans[of x mx v] by auto
  next
    case False
    then show ?thesis using x assms(3) by auto
  qed
qed

lemma min_step:
  assumes "v \<in> D" "mn \<in> D" and "\<forall>x \<in> S. x \<in> D \<and> cmp mn x \<le> 0"
  shows "\<forall>x \<in> insert v S. cmp (if cmp v mn < 0 then v else mn) x \<le> 0"
proof
  fix x assume x: "x \<in> insert v S"
  show "cmp (if cmp v mn < 0 then v else mn) x \<le> 0"
  proof (cases "cmp v mn < 0")
    case True
    then show ?thesis using x assms refl trans[of v mn x] by auto
  next
    case False
    then have "cmp mn v \<le> 0" using flip[OF assms(2,1)] by simp
    then show ?thesis using False x assms(3) by auto
  qed
qed

end

lemma total_cmp_three_way: "total_cmp UNIV (\<lambda>a b. three_way (f a) (f b))"
  by unfold_locales (auto simp: three_way_def split: if_splits)

interpretation int16_cmp: total_cmp UNIV "\<lambda>a b. three_way (DatumGetInt16 a) (DatumGetInt16 b)"
  by (rule total_cmp_three_way)

interpretation int32_cmp: total_cmp UNIV "\<lambda>a b. three_way (DatumGetInt32 a) (DatumGetInt32 b)"
  by (rule total_cmp_three_way)

interpretation int64_cmp: total_cmp UNIV "\<lambda>a b. three_way (DatumGetInt64 a) (DatumGetInt64 b)"
  by (rule total_cmp_three_way)

text \<open>
  What a column definition relies on: the comparison procedure orders the values \<open>D\<close> of the
  type, the direct comparison agrees with it in sign, and the element comparison orders the
  bounds \<open>B\<close>.
\<close>

definition def_ok :: "datum set \<Rightarrow> datum set \<Rightarrow> column_def \<Rightarrow> bool" where
  "def_ok D B def \<longleftrightarrow>
     (orderable def \<longrightarrow> total_cmp D (cmpFn def) \<and>
        (\<forall>a \<in> D. \<forall>b \<in> D. sgn (pgcolumnar_cmp_value def a b) = sgn (cmpFn def a b))) \<and>
     (isRange def \<longrightarrow> total_cmp B (elemCmpFn def) \<and>
        (\<forall>v \<in> D. rb_val (rp_upper (rangeDeserialize def v)) \<in> B \<and> rb_val (rp_lower (rangeDeserialize def v)) \<in> B))"

lemma cmp_value_sign:
  assumes "def_ok D B def" "orderable def" "a \<in> D" "b \<in> D"
  shows "pgcolumnar_cmp_value def a b > 0 \<longleftrightarrow> cmpFn def a b > 0"
    and "pgcolumnar_cmp_value def a b < 0 \<longleftrightarrow> cmpFn def a b < 0"
proof -
  have "sgn (pgcolumnar_cmp_value def a b) = sgn (cmpFn def a b)" using assms by (simp add: def_ok_def)
  then show "pgcolumnar_cmp_value def a b > 0 \<longleftrightarrow> cmpFn def a b > 0"
      "pgcolumnar_cmp_value def a b < 0 \<longleftrightarrow> cmpFn def a b < 0"
    by (auto simp: sgn_if split: if_splits)
qed

subsection \<open>What a buffer holds\<close>

text \<open>
  \<open>vals\<close> are the present values, flattened, in the order they were written. A maximum upper
  bound covers every nonempty range.
\<close>

definition covers_min_max :: "column_def \<Rightarrow> datum set \<Rightarrow> (datum \<times> datum) option \<Rightarrow> bool" where
  "covers_min_max def S mm =
     (case mm of
        None \<Rightarrow> S = {}
      | Some (mn, mx) \<Rightarrow> mn \<in> S \<and> mx \<in> S \<and> (\<forall>v \<in> S. cmpFn def mn v \<le> 0 \<and> cmpFn def v mx \<le> 0))"

definition covers_upper :: "column_def \<Rightarrow> datum set \<Rightarrow> datum option option \<Rightarrow> bool" where
  "covers_upper def S up \<longleftrightarrow>
     (\<forall>v \<in> S. let r = rangeDeserialize def v in
        rp_empty r \<or> up = Some None \<or>
        (\<exists>u. up = Some (Some u) \<and> \<not> rb_infinite (rp_upper r) \<and> elemCmpFn def (rb_val (rp_upper r)) u \<le> 0)) \<and>
     (\<forall>u. up = Some (Some u) \<longrightarrow> (\<exists>v \<in> S. u = rb_val (rp_upper (rangeDeserialize def v))))"

definition column_holds :: "pg_datum \<Rightarrow> attr \<Rightarrow> column_def \<Rightarrow> datum list \<Rightarrow> column_buffer \<Rightarrow> bool" where
  "column_holds V att def vals col \<longleftrightarrow>
     valueCount col = length vals \<and> count_list (existsStream col) True = length vals \<and>
     append_values V att vals = Inr (valueStream col) \<and>
     hashBuf col = (if bloomable def then map (valueHash def) vals else []) \<and>
     colSum col = (if summableInt def then word_of_int (sum_list (map (int_datum att) vals)) else 0) \<and>
     (if orderable def then covers_min_max def (set vals) (minMax col) else minMax col = None) \<and>
     (if isRange def then covers_upper def (set vals) (maxUpper col) else maxUpper col = None)"

lemma column_holds_empty: "column_holds V att def [] empty_column_buffer"
  by (simp add: column_holds_def empty_column_buffer_def append_values_def covers_min_max_def covers_upper_def)

lemma note_min_max_covers:
  assumes ok: "def_ok D B def" "orderable def" and v: "v \<in> D" and S: "S \<subseteq> D"
    and mm: "covers_min_max def S mm"
  shows "covers_min_max def (insert v S) (note_min_max def v mm)"
proof (cases mm)
  case None
  have "cmpFn def v v \<le> 0" using ok v by (intro total_cmp.refl[of D]) (simp_all add: def_ok_def)
  with mm None show ?thesis by (simp add: covers_min_max_def note_min_max_def)
next
  case (Some p)
  obtain mn mx where p: "mm = Some (mn, mx)" using Some by (cases p) auto
  have tc: "total_cmp D (cmpFn def)" using ok by (simp add: def_ok_def)
  have S': "mn \<in> S" "mx \<in> S" "\<forall>x \<in> S. cmpFn def mn x \<le> 0" "\<forall>x \<in> S. cmpFn def x mx \<le> 0"
    using mm by (simp_all add: p covers_min_max_def)
  have D: "mn \<in> D" "mx \<in> D" "\<forall>x \<in> S. x \<in> D \<and> cmpFn def mn x \<le> 0" "\<forall>x \<in> S. x \<in> D \<and> cmpFn def x mx \<le> 0"
    using S' S by auto
  note mx = total_cmp.max_step[OF tc v D(2,4)] and mn = total_cmp.min_step[OF tc v D(1,3)]
  note sign = cmp_value_sign(1)[OF ok v D(2)] cmp_value_sign(2)[OF ok v D(1)]
  show ?thesis
  proof (cases "cmpFn def v mx > 0")
    case True
    then have "cmpFn def mx v \<le> 0" using total_cmp.strict_flip[OF tc D(2) v] by simp
    then have "cmpFn def mn v \<le> 0" using S'(3) S'(2) total_cmp.trans[OF tc D(1,2) v] by blast
    then show ?thesis using True S' mx sign by (auto simp: p note_min_max_def covers_min_max_def)
  next
    case False
    then show ?thesis using S' mx mn sign by (auto simp: p note_min_max_def covers_min_max_def)
  qed
qed

lemma note_upper_covers:
  assumes ok: "def_ok D B def" "isRange def" and v: "v \<in> D" and S: "S \<subseteq> D"
    and up: "covers_upper def S up"
  shows "covers_upper def (insert v S) (note_upper def v up)"
proof -
  let ?u = "\<lambda>w. rb_val (rp_upper (rangeDeserialize def w))"
  have tc: "total_cmp B (elemCmpFn def)" and B: "\<And>w. w \<in> D \<Longrightarrow> ?u w \<in> B" using ok by (simp_all add: def_ok_def)
  show ?thesis
  proof (cases "rp_empty (rangeDeserialize def v) \<or> rb_infinite (rp_upper (rangeDeserialize def v))")
    case True
    then show ?thesis using up by (auto simp: note_upper_def covers_upper_def Let_def)
  next
    case False
    consider "up = Some None" | "up = None" | u where "up = Some (Some u)" by (cases up) auto
    then show ?thesis
    proof cases
      case 1
      then show ?thesis using False by (auto simp: note_upper_def covers_upper_def Let_def)
    next
      case 2
      then show ?thesis using False up total_cmp.refl[OF tc B[OF v]]
        by (auto simp: note_upper_def covers_upper_def Let_def)
    next
      case (3 u)
      then obtain w where w: "w \<in> S" "u = ?u w" using up by (auto simp: covers_upper_def)
      have uB: "u \<in> B" using w S B by auto
      have step: "\<forall>x \<in> insert (?u v) {x \<in> B. elemCmpFn def x u \<le> 0}.
          elemCmpFn def x (if elemCmpFn def (?u v) u > 0 then ?u v else u) \<le> 0"
        by (rule total_cmp.max_step[OF tc B[OF v] uB]) simp
      have old: "\<forall>x \<in> S. rp_empty (rangeDeserialize def x) \<or>
          \<not> rb_infinite (rp_upper (rangeDeserialize def x)) \<and> ?u x \<in> {x \<in> B. elemCmpFn def x u \<le> 0}"
        using up 3 S B by (auto simp: covers_upper_def Let_def)
      have "note_upper def v up = Some (Some (if elemCmpFn def (?u v) u > 0 then ?u v else u))"
        using False 3 by (simp add: note_upper_def Let_def)
      then show ?thesis using False step old w unfolding covers_upper_def Let_def by auto
    qed
  qed
qed

lemma note_offset_fields [simp]:
  "valueStream (buffered_note_offset off col) = valueStream col"
  "existsStream (buffered_note_offset off col) = existsStream col"
  "valueCount (buffered_note_offset off col) = valueCount col"
  "hashBuf (buffered_note_offset off col) = hashBuf col"
  "colSum (buffered_note_offset off col) = colSum col"
  "minMax (buffered_note_offset off col) = minMax col"
  "maxUpper (buffered_note_offset off col) = maxUpper col"
  "valOffsets (buffered_note_offset off col) = map_option (\<lambda>os. os @ [off]) (valOffsets col)"
  by (simp_all add: buffered_note_offset_def split: option.split)

lemma append_values_snoc:
  "append_values V att (ds @ [d]) = res_bind (append_values V att ds) (\<lambda>buf. PgColumnarEncodeValue V buf att d)"
  by (simp add: append_values_def)

text \<open>One write keeps the invariant, for any value the column's type admits.\<close>

lemma write_value_holds:
  assumes V: "pg_datum_ok V ok" and def: "def_ok D B def" and fits: "datum_fits ok att (flat_datum V att v)"
    and D: "flat_datum V att v \<in> D" "set vals \<subseteq> D" and col: "column_holds V att def vals col"
  obtains col' where "write_column_value V att def (Some v) col = Inr col'"
    "column_holds V att def (vals @ [flat_datum V att v]) col'"
    "existsStream col' = existsStream col @ [True]"
proof -
  let ?v = "flat_datum V att v"
  obtain st where st: "PgColumnarEncodeValue V (valueStream col) att ?v = Inr st"
    using encode_value_bytes[OF V fits] by blast
  let ?c0 = "buffered_note_offset (of_nat (length (valueStream col))) col"
  let ?col = "?c0\<lparr>existsStream := existsStream col @ [True], valueStream := st, valueCount := valueCount col + 1,
      hashBuf := (if bloomable def then hashBuf col @ [valueHash def ?v] else hashBuf col),
      colSum := (if summableInt def then colSum col + word_of_int (int_datum att ?v) else colSum col),
      minMax := (if orderable def then note_min_max def ?v (minMax col) else minMax col),
      maxUpper := (if isRange def then note_upper def ?v (maxUpper col) else maxUpper col)\<rparr>"
  have w: "write_column_value V att def (Some v) col = Inr ?col"
    by (simp add: write_column_value_def Let_def st)
  have mm: "orderable def \<Longrightarrow> covers_min_max def (insert ?v (set vals)) (note_min_max def ?v (minMax col))"
    using note_min_max_covers[OF def _ D] col by (simp add: column_holds_def)
  have up: "isRange def \<Longrightarrow> covers_upper def (insert ?v (set vals)) (note_upper def ?v (maxUpper col))"
    using note_upper_covers[OF def _ D] col by (simp add: column_holds_def)
  have "column_holds V att def (vals @ [?v]) ?col"
    using col mm up st by (auto simp: column_holds_def append_values_snoc)
  moreover have "existsStream ?col = existsStream col @ [True]" by simp
  ultimately show thesis by (rule that[OF w])
qed

lemma write_null_holds:
  "column_holds V att def vals col \<Longrightarrow>
   \<exists>col'. write_column_value V att def None col = Inr col' \<and> column_holds V att def vals col' \<and>
     existsStream col' = existsStream col @ [False]"
  by (simp add: write_column_value_def column_holds_def)

definition present_values :: "pg_datum \<Rightarrow> attr \<Rightarrow> datum option list \<Rightarrow> datum list" where
  "present_values V att rows = map (\<lambda>v. flat_datum V att (the v)) (filter (\<lambda>v. v \<noteq> None) rows)"

definition rows_ok ::
  "pg_datum \<Rightarrow> (u64 \<Rightarrow> nat \<Rightarrow> bool) \<Rightarrow> attr \<Rightarrow> datum set \<Rightarrow> datum option list \<Rightarrow> bool" where
  "rows_ok V ok att D rows \<longleftrightarrow> (\<forall>d \<in> set (present_values V att rows). d \<in> D \<and> datum_fits ok att d)"

lemma write_values_hold:
  assumes V: "pg_datum_ok V ok" and def: "def_ok D B def"
    and "rows_ok V ok att D rows" "set vals \<subseteq> D" "column_holds V att def vals col"
  shows "\<exists>col'. write_column_values V att def rows col = Inr col' \<and>
    column_holds V att def (vals @ present_values V att rows) col' \<and>
    existsStream col' = existsStream col @ map (\<lambda>v. v \<noteq> None) rows"
  using assms(3-)
proof (induction rows arbitrary: vals col)
  case (Cons v rows)
  show ?case
  proof (cases v)
    case None
    obtain c1 where c1: "write_column_value V att def None col = Inr c1" "column_holds V att def vals c1"
        "existsStream c1 = existsStream col @ [False]" using write_null_holds[OF Cons.prems(3)] by blast
    have "rows_ok V ok att D rows" using Cons.prems(1) None by (simp add: rows_ok_def present_values_def)
    from Cons.IH[OF this Cons.prems(2) c1(2)] show ?thesis using c1 None by (auto simp: present_values_def)
  next
    case (Some d)
    let ?d = "flat_datum V att d"
    have d: "datum_fits ok att ?d" "?d \<in> D" and rows: "rows_ok V ok att D rows"
      using Cons.prems(1) Some by (simp_all add: rows_ok_def present_values_def)
    obtain c1 where c1: "write_column_value V att def (Some d) col = Inr c1"
        "column_holds V att def (vals @ [?d]) c1" "existsStream c1 = existsStream col @ [True]"
      by (rule write_value_holds[OF V def d(1,2) Cons.prems(2,3)]) (rule that)
    have "set (vals @ [?d]) \<subseteq> D" using Cons.prems(2) d(2) by simp
    from Cons.IH[OF rows this c1(2)] show ?thesis using c1 Some by (auto simp: present_values_def)
  qed
qed (simp add: present_values_def)

end
