(* ===== verification/Bloom.thy ===== *)
theory Bloom
  imports Columnar_Prelude Complex_Main
begin

unbundle bit_operations_syntax

section \<open>Bloom filters\<close>

text \<open>
  \<open>src/src/columnar_bloom.c\<close>: building a filter over the value hashes of a column chunk and
  probing one. A filter is the stored byte string: the bit count, the number of probes,
  the bits. The distinct-count estimate of PostgreSQL's \<open>lib/hyperloglog\<close> is the argument
  \<open>hll\<close>; only the size of the filter depends on it. No hash that was added is ever
  reported absent, whatever the estimate, and a probe reads inside the stored bytes
  whatever they are.
\<close>

subsection \<open>Definitions\<close>

definition BLOOM_BITS_PER_VALUE :: nat where "BLOOM_BITS_PER_VALUE = 10"
definition BLOOM_K :: nat where "BLOOM_K = 6"
definition BLOOM_MIN_BITS :: nat where "BLOOM_MIN_BITS = 64"
definition BLOOM_MAX_BITS :: nat where "BLOOM_MAX_BITS = 2 ^ 21"

text \<open>The doubling starts at \<open>BLOOM_MIN_BITS\<close>; \<open>0 < p\<close> only makes the loop total.\<close>

function next_pow2_loop :: "nat \<Rightarrow> nat \<Rightarrow> nat" where
  "next_pow2_loop x p =
     (if p < x \<and> p < BLOOM_MAX_BITS \<and> 0 < p then next_pow2_loop x (2 * p) else p)"
  by pat_completeness auto
termination by (relation "measure (\<lambda>(x, p). BLOOM_MAX_BITS - p)") auto

declare next_pow2_loop.simps [simp del]

definition next_pow2 :: "nat \<Rightarrow> nat" where
  "next_pow2 x = next_pow2_loop x BLOOM_MIN_BITS"

definition bloom_distinct_estimate :: "(u32 list \<Rightarrow> rat) \<Rightarrow> u32 list \<Rightarrow> nat" where
  "bloom_distinct_estimate hll hashes =
     (let est = hll hashes;
          est1 = (if est < 1 then 1 else est);
          est2 = (if est1 > of_nat (length hashes) then of_nat (length hashes) else est1)
      in nat \<lfloor>est2\<rfloor>)"

definition bloom_hashes :: "u32 \<Rightarrow> u32 \<times> u32" where
  "bloom_hashes h = (h, (drop_bit 16 h OR push_bit 16 h) OR 1)"

definition bloom_pos :: "u32 \<Rightarrow> nat \<Rightarrow> nat \<Rightarrow> nat" where
  "bloom_pos h nbits j =
     (let (h1, h2) = bloom_hashes h in unat ((h1 + of_nat j * h2) AND (of_nat nbits - 1)))"

definition bloom_set :: "nat \<Rightarrow> byte list \<Rightarrow> byte list" where
  "bloom_set pos bits = bits[pos div 8 := bits ! (pos div 8) OR push_bit (pos mod 8) 1]"

definition PgColumnarBloomBuild :: "(u32 list \<Rightarrow> rat) \<Rightarrow> u32 list \<Rightarrow> byte list option" where
  "PgColumnarBloomBuild hll hashes =
     (if length hashes < 64 then None
      else let d = bloom_distinct_estimate hll hashes
      in if d * BLOOM_BITS_PER_VALUE > BLOOM_MAX_BITS then None
      else let nbits = next_pow2 (d * BLOOM_BITS_PER_VALUE);
               bits = fold (\<lambda>h bits. fold (\<lambda>j. bloom_set (bloom_pos h nbits j)) [0..<BLOOM_K] bits)
                        hashes (replicate (nbits div 8) 0)
           in Some (u32_bytes nbits @ [of_nat BLOOM_K] @ bits))"

definition PgColumnarBloomProbe :: "byte list option \<Rightarrow> u32 \<Rightarrow> bool" where
  "PgColumnarBloomProbe bloom hash =
     (case bloom of
        None \<Rightarrow> True
      | Some b \<Rightarrow>
          if length b < 5 then True
          else let nbits = u32_of b; k = unat (b ! 4); bits = drop 5 b
          in if nbits = 0 \<or> (of_nat nbits :: u32) AND (of_nat nbits - 1) \<noteq> 0 then True
             else if length b < 5 + (nbits + 7) div 8 then True
             else list_all (\<lambda>j. let pos = bloom_pos hash nbits j
                                in bit (bits ! (pos div 8)) (pos mod 8)) [0..<k])"

subsection \<open>Sizes and positions\<close>

lemma next_pow2_loop_pow2:
  assumes "p = 2 ^ i" "i \<le> 21"
  shows "\<exists>k. next_pow2_loop x p = 2 ^ k \<and> i \<le> k \<and> k \<le> 21"
  using assms
proof (induction x p arbitrary: i rule: next_pow2_loop.induct)
  case (1 x p)
  show ?case
  proof (cases "p < x \<and> p < BLOOM_MAX_BITS")
    case True
    then have "(2::nat) ^ i < 2 ^ 21" using "1.prems" by (simp add: BLOOM_MAX_BITS_def)
    then have "i < 21" by (rule power_less_imp_less_exp[rotated]) simp
    then have "\<exists>k. next_pow2_loop x (2 * p) = 2 ^ k \<and> Suc i \<le> k \<and> k \<le> 21"
      using True "1.prems" by (intro "1.IH") simp_all
    then show ?thesis using True "1.prems" by (subst next_pow2_loop.simps) auto
  next
    case False
    then show ?thesis using "1.prems" by (subst next_pow2_loop.simps) auto
  qed
qed

lemma next_pow2_pow2: obtains k where "next_pow2 x = 2 ^ k" "6 \<le> k" "k \<le> 21"
  using next_pow2_loop_pow2[of 64 6 x] by (auto simp: next_pow2_def BLOOM_MIN_BITS_def)

text \<open>A position is below the bit count, so its byte is inside the bits.\<close>

lemma bloom_pos_less:
  assumes "0 < nbits" "nbits < 2 ^ 32"
  shows "bloom_pos h nbits j < nbits"
proof -
  have "of_nat nbits - 1 = (of_nat (nbits - 1) :: u32)" using assms by (simp add: of_nat_diff)
  then have "bloom_pos h nbits j \<le> unat (of_nat (nbits - 1) :: u32)"
    by (simp add: bloom_pos_def bloom_hashes_def word_le_nat_alt[symmetric] word_and_le1)
  also have "\<dots> \<le> nbits - 1" by (simp add: unat_of_nat take_bit_nat_less_eq_self)
  finally show ?thesis using assms(1) by simp
qed

lemma length_bloom_set [simp]: "length (bloom_set pos bits) = length bits"
  by (simp add: bloom_set_def)

lemma bufbit_bloom_set:
  assumes "pos < 8 * length bits"
  shows "bufbit (bloom_set pos bits) p \<longleftrightarrow> bufbit bits p \<or> p = pos"
  unfolding bloom_set_def using assms by (rule bufbit_set_bit)

lemma bloom_fold:
  assumes "\<forall>p \<in> set ps. p < 8 * length bits"
  shows "length (fold bloom_set ps bits) = length bits"
    and "bufbit (fold bloom_set ps bits) p \<longleftrightarrow> bufbit bits p \<or> p \<in> set ps"
  using assms by (induction ps arbitrary: bits) (auto simp: bufbit_bloom_set)

definition bloom_positions :: "nat \<Rightarrow> u32 list \<Rightarrow> nat list" where
  "bloom_positions nbits hashes = concat (map (\<lambda>h. map (bloom_pos h nbits) [0..<BLOOM_K]) hashes)"

lemma bloom_fold_positions:
  "fold (\<lambda>h bits. fold (\<lambda>j. bloom_set (bloom_pos h nbits j)) [0..<BLOOM_K] bits) hashes bits =
   fold bloom_set (bloom_positions nbits hashes) bits"
  by (induction hashes arbitrary: bits)
     (simp_all add: bloom_positions_def fold_map comp_def)

text \<open>What a built filter looks like: its size and which bits are set.\<close>

lemma bloom_build_form:
  assumes "PgColumnarBloomBuild hll hashes = Some f"
  obtains k bits where "f = u32_bytes (2 ^ k) @ [of_nat BLOOM_K] @ bits" "6 \<le> k" "k \<le> 21"
    "length bits = 2 ^ k div 8"
    "\<And>p. bufbit bits p \<longleftrightarrow> p \<in> set (bloom_positions (2 ^ k) hashes)"
proof -
  obtain k where k: "next_pow2 (bloom_distinct_estimate hll hashes * BLOOM_BITS_PER_VALUE) = 2 ^ k"
      "6 \<le> k" "k \<le> 21" by (rule next_pow2_pow2)
  let ?bits = "fold bloom_set (bloom_positions (2 ^ k) hashes) (replicate (2 ^ k div 8) 0)"
  have "(2::nat) ^ k \<le> 2 ^ 21" using k(3) by (intro power_increasing) simp_all
  then have lt: "(2::nat) ^ k < 2 ^ 32" by simp
  have "8 * (2 ^ k div 8) = (2::nat) ^ k"
    using k(2) le_imp_power_dvd[of 3 k "2::nat"] by simp
  then have pos: "\<forall>p \<in> set (bloom_positions (2 ^ k) hashes). p < 8 * length (replicate (2 ^ k div 8) (0::byte))"
    using bloom_pos_less[OF _ lt] by (auto simp: bloom_positions_def)
  have "f = u32_bytes (2 ^ k) @ [of_nat BLOOM_K] @ ?bits"
    using assms k(1) by (auto simp: PgColumnarBloomBuild_def Let_def bloom_fold_positions split: if_splits)
  then show thesis using k bloom_fold[OF pos] by (intro that[of k ?bits]) auto
qed

lemma power2_and_pred: "(of_nat (2 ^ k) :: u32) AND (of_nat (2 ^ k) - 1) = 0" if "k \<le> 21"
proof (rule bit_word_eqI)
  fix i assume "i < LENGTH(32)"
  have "(of_nat (2 ^ k) :: u32) = 2 ^ k" by simp
  moreover have "(2 ^ k - 1 :: u32) = mask k" by (simp add: mask_eq_exp_minus_1)
  ultimately show "bit ((of_nat (2 ^ k) :: u32) AND (of_nat (2 ^ k) - 1)) i = bit 0 i"
    by (simp only: bit_and_iff bit_mask_iff bit_exp_iff bit_0_eq) auto
qed

lemma bloom_probe_built:
  assumes "PgColumnarBloomBuild hll hashes = Some f" and "h \<in> set hashes"
  shows "PgColumnarBloomProbe (Some f) h"
proof -
  obtain k bits where f: "f = u32_bytes (2 ^ k) @ [of_nat BLOOM_K] @ bits" "6 \<le> k" "k \<le> 21"
      "length bits = 2 ^ k div 8" "\<And>p. bufbit bits p \<longleftrightarrow> p \<in> set (bloom_positions (2 ^ k) hashes)"
    by (rule bloom_build_form[OF assms(1)]) (rule that)
  have "(2::nat) ^ k \<le> 2 ^ 21" using f(3) by (intro power_increasing) simp_all
  then have n: "u32_of f = 2 ^ k" by (simp add: f(1))
  have six: "unat (f ! 4) = 6" by (simp add: f(1) nth_append BLOOM_K_def)
  have bits: "drop 5 f = bits" by (simp add: f(1))
  have "bit (bits ! (bloom_pos h (2 ^ k) j div 8)) (bloom_pos h (2 ^ k) j mod 8)" if "j < 6" for j
  proof -
    have "bloom_pos h (2 ^ k) j \<in> set (bloom_positions (2 ^ k) hashes)"
      using assms(2) that by (auto simp: bloom_positions_def BLOOM_K_def intro!: bexI[of _ h])
    then have "bufbit bits (bloom_pos h (2 ^ k) j)" by (simp only: f(5))
    then show ?thesis by (simp add: bufbit_def)
  qed
  then show ?thesis
    by (simp add: PgColumnarBloomProbe_def n six bits Let_def list_all_iff)
qed

text \<open>Every byte a probe reads is inside the stored filter, whatever its bytes are.\<close>

lemma bloom_probe_in_range:
  assumes "u32_of b \<noteq> 0" and "5 + (u32_of b + 7) div 8 \<le> length b"
  shows "bloom_pos h (u32_of b) j div 8 < length (drop 5 b)"
proof -
  have "u32_of b = unat (take_bit 32 (le_word (take 4 b)))"
    unfolding u32_of_def by (rule arg_cong[of _ _ unat], rule bit_word_eqI)
      (auto simp: bit_simps bit_le_word bufbit_take)
  also have "\<dots> < 2 ^ 32" by (simp only: unsigned_take_bit_eq) (simp add: take_bit_eq_mod)
  finally have "bloom_pos h (u32_of b) j < u32_of b" using assms(1) by (intro bloom_pos_less) simp_all
  then have "bloom_pos h (u32_of b) j div 8 < (u32_of b + 7) div 8" by linarith
  with assms(2) show ?thesis by simp
qed

subsection \<open>Properties\<close>

text \<open>
  C26: A bloom filter never hides a value: whatever the distinct-count estimate, every hash a
  filter was built from is reported as possibly present; the filter is at most 256 KB and
  five bytes; and on any stored bytes at all that pass the probe's checks, each bit the
  probe reads lies inside them.
\<close>

theorem bloom_no_false_negative:
  assumes "PgColumnarBloomBuild hll hashes = Some f" and "h \<in> set hashes"
    and "u32_of b \<noteq> 0" and "5 + (u32_of b + 7) div 8 \<le> length b"
  shows "PgColumnarBloomProbe (Some f) h \<and> length f \<le> 5 + 2 ^ 18 \<and>
    bloom_pos h' (u32_of b) j div 8 < length (drop 5 b)"
proof -
  obtain k bits where f: "f = u32_bytes (2 ^ k) @ [of_nat BLOOM_K] @ bits" "k \<le> 21" "length bits = 2 ^ k div 8"
    by (rule bloom_build_form[OF assms(1)]) blast
  have "(2::nat) ^ k \<le> 2 ^ 21" using f(2) by (intro power_increasing) simp_all
  then have "2 ^ k div 8 \<le> (2 ^ 18 :: nat)" by simp
  then show ?thesis
    using bloom_probe_built[OF assms(1,2)] bloom_probe_in_range[OF assms(3,4)] f(1,3) by simp
qed

theorem bloom_no_false_negative_witness:
  "\<exists>f. PgColumnarBloomBuild (\<lambda>_. 1) (replicate 64 7) = Some f \<and> PgColumnarBloomProbe (Some f) 7"
proof -
  have "\<exists>f. PgColumnarBloomBuild (\<lambda>_. 1) (replicate 64 7) = Some f"
    by (simp add: PgColumnarBloomBuild_def bloom_distinct_estimate_def BLOOM_BITS_PER_VALUE_def
        BLOOM_MAX_BITS_def Let_def)
  then obtain f where f: "PgColumnarBloomBuild (\<lambda>_. 1) (replicate 64 7) = Some f" by blast
  have "u32_of (u32_bytes 8 @ [0, 0]) \<noteq> 0 \<and>
      5 + (u32_of (u32_bytes 8 @ [0, 0]) + 7) div 8 \<le> length (u32_bytes 8 @ [0, 0])" by simp
  with bloom_no_false_negative[OF f, of 7 "u32_bytes 8 @ [0, 0]"] f show ?thesis by auto
qed

end
