(* ===== verification/Zone_Map.thy ===== *)
theory Zone_Map
  imports Chunk_Buffer Bloom
begin

unbundle bit_operations_syntax

section \<open>Zone maps\<close>

text \<open>
  The zone-map rows that \<open>flush_one_column\<close> collects (\<open>src/src/columnar_write_state.c\<close>): one
  per vector from the column's buffer, and one for the whole chunk folded from the
  vectors, with index -1; and the bloom filter over the chunk's hashes. A row holds the
  encoded minimum and maximum, the encoded greatest upper bound of a range column, the sum
  and the counts. Each row covers exactly the values of its vector or chunk.
\<close>

subsection \<open>Definitions\<close>

text \<open>\<open>z_upper\<close>: \<open>None\<close> no bound recorded, \<open>Some None\<close> unbounded, \<open>Some (Some b)\<close> the bytes of a bound.\<close>

record zone_row =
  z_vectorIndex :: int
  z_valueCount :: nat
  z_nullCount :: nat
  z_sum :: "u64 option"
  z_minMax :: "(byte list \<times> byte list) option"
  z_upper :: "byte list option option"

definition encode_min_max ::
  "pg_datum \<Rightarrow> attr \<Rightarrow> (datum \<times> datum) option \<Rightarrow> (byte list \<times> byte list) option result" where
  "encode_min_max V att mm =
     (case mm of
        None \<Rightarrow> Inr None
      | Some (mn, mx) \<Rightarrow>
          res_bind (PgColumnarEncodeValue V [] att mn) (\<lambda>a.
            res_bind (PgColumnarEncodeValue V [] att mx) (\<lambda>b. Inr (Some (a, b)))))"

definition encode_upper ::
  "pg_datum \<Rightarrow> column_def \<Rightarrow> datum option option \<Rightarrow> byte list option option result" where
  "encode_upper V def up =
     (case up of
        None \<Rightarrow> Inr None
      | Some None \<Rightarrow> Inr (Some None)
      | Some (Some u) \<Rightarrow>
          res_bind (PgColumnarEncodeValueByLen V [] (elemByVal def) (elemLen def) u) (\<lambda>b. Inr (Some (Some b))))"

definition make_zone_row ::
  "pg_datum \<Rightarrow> attr \<Rightarrow> column_def \<Rightarrow> int \<Rightarrow> nat \<Rightarrow> nat \<Rightarrow> u64 \<Rightarrow> (datum \<times> datum) option \<Rightarrow>
   datum option option \<Rightarrow> zone_row result" where
  "make_zone_row V att def vec rowCount vcount vsum mm up =
     res_bind (encode_min_max V att mm) (\<lambda>m. res_bind (encode_upper V def up) (\<lambda>u.
       Inr \<lparr>z_vectorIndex = vec, z_valueCount = vcount, z_nullCount = rowCount - vcount,
            z_sum = (if summableInt def \<and> vcount > 0 then Some vsum else None),
            z_minMax = m, z_upper = u\<rparr>))"

text \<open>The fold of the vectors into the chunk.\<close>

record chunk_acc =
  ca_minMax :: "(datum \<times> datum) option"
  ca_upper :: "datum option option"
  ca_valueCount :: nat
  ca_sum :: u64

definition chunk_acc_init :: chunk_acc where
  "chunk_acc_init = \<lparr>ca_minMax = None, ca_upper = None, ca_valueCount = 0, ca_sum = 0\<rparr>"

definition fold_min_max ::
  "column_def \<Rightarrow> (datum \<times> datum) option \<Rightarrow> (datum \<times> datum) option \<Rightarrow> (datum \<times> datum) option" where
  "fold_min_max def col acc =
     (case (col, acc) of
        (None, _) \<Rightarrow> acc
      | (Some (mn, mx), None) \<Rightarrow> Some (mn, mx)
      | (Some (mn, mx), Some (cmn, cmx)) \<Rightarrow>
          Some (if cmpFn def mn cmn < 0 then mn else cmn, if cmpFn def mx cmx > 0 then mx else cmx))"

definition fold_upper ::
  "column_def \<Rightarrow> datum option option \<Rightarrow> datum option option \<Rightarrow> datum option option" where
  "fold_upper def col acc =
     (case (col, acc) of
        (None, _) \<Rightarrow> acc
      | (Some c, None) \<Rightarrow> Some c
      | (Some None, Some _) \<Rightarrow> Some None
      | (Some (Some u), Some None) \<Rightarrow> acc
      | (Some (Some u), Some (Some m)) \<Rightarrow> if elemCmpFn def u m > 0 then Some (Some u) else acc)"

definition fold_vector :: "column_def \<Rightarrow> column_buffer \<Rightarrow> chunk_acc \<Rightarrow> chunk_acc" where
  "fold_vector def col acc =
     \<lparr>ca_minMax = fold_min_max def (minMax col) (ca_minMax acc),
      ca_upper = fold_upper def (maxUpper col) (ca_upper acc),
      ca_valueCount = ca_valueCount acc + valueCount col,
      ca_sum = ca_sum acc + colSum col\<rparr>"

fun vector_zone_rows ::
  "pg_datum \<Rightarrow> attr \<Rightarrow> column_def \<Rightarrow> nat \<Rightarrow> column_buffer list \<Rightarrow> zone_row list result" where
  "vector_zone_rows V att def vec [] = Inr []"
| "vector_zone_rows V att def vec (col # cols) =
     res_bind (make_zone_row V att def (int vec) (length (existsStream col)) (valueCount col) (colSum col)
                 (minMax col) (maxUpper col)) (\<lambda>z.
       res_bind (vector_zone_rows V att def (vec + 1) cols) (\<lambda>zs. Inr (z # zs)))"

definition flush_zone_rows ::
  "pg_datum \<Rightarrow> attr \<Rightarrow> column_def \<Rightarrow> nat \<Rightarrow> column_buffer list \<Rightarrow> zone_row list result" where
  "flush_zone_rows V att def rowCount cols =
     res_bind (vector_zone_rows V att def 0 cols) (\<lambda>zs.
       let acc = fold (fold_vector def) cols chunk_acc_init
       in res_bind (make_zone_row V att def (-1) rowCount (ca_valueCount acc) (ca_sum acc)
                      (ca_minMax acc) (ca_upper acc)) (\<lambda>z. Inr (zs @ [z])))"

definition flush_bloom :: "(u32 list \<Rightarrow> rat) \<Rightarrow> column_def \<Rightarrow> column_buffer list \<Rightarrow> byte list option" where
  "flush_bloom hll def cols =
     (if bloomable def
      then let hashes = concat (map hashBuf cols)
           in if hashes \<noteq> [] then PgColumnarBloomBuild hll hashes else None
      else None)"

subsection \<open>The chunk covers what its vectors cover\<close>

lemma fold_min_max_covers:
  assumes ok: "def_ok D B def" "orderable def" and S: "S \<subseteq> D" "S' \<subseteq> D"
    and col: "covers_min_max def S col" and acc: "covers_min_max def S' acc"
  shows "covers_min_max def (S \<union> S') (fold_min_max def col acc)"
proof -
  have tc: "total_cmp D (cmpFn def)" using ok by (simp add: def_ok_def)
  consider "col = None" | "acc = None" | mn mx cmn cmx where "col = Some (mn, mx)" "acc = Some (cmn, cmx)"
    by (cases col; cases acc) auto
  then show ?thesis
  proof cases
    case 1
    then show ?thesis using col acc by (simp add: covers_min_max_def fold_min_max_def)
  next
    case 2
    then show ?thesis using col acc by (cases col) (auto simp: covers_min_max_def fold_min_max_def)
  next
    case 3
    have c: "mn \<in> S" "mx \<in> S" "\<forall>v \<in> S. cmpFn def mn v \<le> 0" "\<forall>v \<in> S. cmpFn def v mx \<le> 0"
      and a: "cmn \<in> S'" "cmx \<in> S'" "\<forall>v \<in> S'. cmpFn def cmn v \<le> 0" "\<forall>v \<in> S'. cmpFn def v cmx \<le> 0"
      using col acc 3 by (auto simp: covers_min_max_def)
    let ?mn = "if cmpFn def mn cmn < 0 then mn else cmn" and ?mx = "if cmpFn def mx cmx > 0 then mx else cmx"
    have D: "mn \<in> D" "mx \<in> D" "cmn \<in> D" "cmx \<in> D" using c a S by auto
    have "cmpFn def ?mn mn \<le> 0 \<and> cmpFn def ?mn cmn \<le> 0"
      using total_cmp.refl[OF tc] total_cmp.flip[OF tc D(1,3)] total_cmp.flip[OF tc D(3,1)] D by auto
    moreover have "cmpFn def mx ?mx \<le> 0 \<and> cmpFn def cmx ?mx \<le> 0"
      using total_cmp.refl[OF tc] total_cmp.strict_flip[OF tc D(4,2)] D by auto
    moreover have "?mn \<in> D" "?mx \<in> D" using D by auto
    ultimately have ends: "\<And>v x. v \<in> D \<Longrightarrow> x \<in> {mn, cmn} \<Longrightarrow> cmpFn def x v \<le> 0 \<Longrightarrow> cmpFn def ?mn v \<le> 0"
        "\<And>v x. v \<in> D \<Longrightarrow> x \<in> {mx, cmx} \<Longrightarrow> cmpFn def v x \<le> 0 \<Longrightarrow> cmpFn def v ?mx \<le> 0"
      using D total_cmp.trans[OF tc, of ?mn] total_cmp.trans[OF tc _ _ \<open>?mx \<in> D\<close>] by blast+
    have "cmpFn def ?mn v \<le> 0 \<and> cmpFn def v ?mx \<le> 0" if "v \<in> S \<union> S'" for v
    proof -
      have "v \<in> D" using that S by auto
      moreover have "\<exists>x \<in> {mn, cmn}. cmpFn def x v \<le> 0" "\<exists>x \<in> {mx, cmx}. cmpFn def v x \<le> 0"
        using that c a by auto
      ultimately show ?thesis using ends by blast
    qed
    then show ?thesis using 3 c a by (simp add: covers_min_max_def fold_min_max_def)
  qed
qed

lemma fold_upper_simps [simp]:
  "fold_upper def None acc = acc" "fold_upper def col None = col"
  by (simp_all add: fold_upper_def split: option.split)

lemma covers_upper_None: "covers_upper def S None \<longleftrightarrow> (\<forall>v \<in> S. rp_empty (rangeDeserialize def v))"
  by (auto simp: covers_upper_def Let_def)

lemma covers_upper_bound:
  "covers_upper def S (Some (Some u)) \<longleftrightarrow>
   (\<forall>v \<in> S. rp_empty (rangeDeserialize def v) \<or> \<not> rb_infinite (rp_upper (rangeDeserialize def v)) \<and>
      elemCmpFn def (rb_val (rp_upper (rangeDeserialize def v))) u \<le> 0) \<and>
   (\<exists>v \<in> S. u = rb_val (rp_upper (rangeDeserialize def v)))"
  by (simp add: covers_upper_def Let_def)

lemma fold_upper_covers:
  assumes ok: "def_ok D B def" "isRange def" and S: "S \<subseteq> D" "S' \<subseteq> D"
    and col: "covers_upper def S col" and acc: "covers_upper def S' acc"
  shows "covers_upper def (S \<union> S') (fold_upper def col acc)"
proof -
  let ?u = "\<lambda>w. rb_val (rp_upper (rangeDeserialize def w))"
  have tc: "total_cmp B (elemCmpFn def)" and B: "\<And>w. w \<in> D \<Longrightarrow> ?u w \<in> B" using ok by (simp_all add: def_ok_def)
  consider "col = None" | "acc = None" | "col = Some None" "acc \<noteq> None" | "acc = Some None" "col \<noteq> None"
    | u m where "col = Some (Some u)" "acc = Some (Some m)"
    by (cases col; cases acc) auto
  then show ?thesis
  proof cases
    case 1
    then show ?thesis using col acc by (auto simp: fold_upper_def covers_upper_def Let_def)
  next
    case 2
    then show ?thesis using col acc by (auto simp: covers_upper_def Let_def)
  next
    case 3
    then show ?thesis by (auto simp: fold_upper_def covers_upper_def Let_def)
  next
    case 4
    then show ?thesis by (auto simp: fold_upper_def covers_upper_def Let_def split: option.splits)
  next
    case (5 u m)
    have u: "u \<in> B" "\<exists>v \<in> S. u = ?u v" and m: "m \<in> B" "\<exists>v \<in> S'. m = ?u v"
      using col acc 5 S B by (auto simp: covers_upper_def)
    let ?w = "if elemCmpFn def u m > 0 then u else m"
    have "elemCmpFn def u ?w \<le> 0 \<and> elemCmpFn def m ?w \<le> 0"
      using total_cmp.refl[OF tc] total_cmp.strict_flip[OF tc m(1) u(1)] u m by auto
    then have le: "elemCmpFn def x ?w \<le> 0" if "x \<in> B" "elemCmpFn def x u \<le> 0 \<or> elemCmpFn def x m \<le> 0" for x
      using that total_cmp.trans[OF tc that(1) u(1), of ?w] total_cmp.trans[OF tc that(1) m(1), of ?w] u m by auto
    have "rp_empty (rangeDeserialize def v) \<or> \<not> rb_infinite (rp_upper (rangeDeserialize def v)) \<and>
        elemCmpFn def (?u v) ?w \<le> 0" if "v \<in> S \<union> S'" for v
    proof -
      have "?u v \<in> B" using that S B by auto
      moreover have "rp_empty (rangeDeserialize def v) \<or> \<not> rb_infinite (rp_upper (rangeDeserialize def v)) \<and>
          (elemCmpFn def (?u v) u \<le> 0 \<or> elemCmpFn def (?u v) m \<le> 0)"
        using that col acc 5 unfolding covers_upper_def Let_def by fastforce
      ultimately show ?thesis using le by blast
    qed
    moreover have "fold_upper def col acc = Some (Some ?w)" using 5 by (simp add: fold_upper_def)
    moreover have "\<exists>v \<in> S \<union> S'. ?w = ?u v" using u(2) m(2) by (cases "elemCmpFn def u m > 0") auto
    ultimately show ?thesis by (simp only: covers_upper_bound) blast
  qed
qed

text \<open>The accumulated chunk summary covers the values of all vectors.\<close>

definition acc_holds :: "attr \<Rightarrow> column_def \<Rightarrow> datum list \<Rightarrow> chunk_acc \<Rightarrow> bool" where
  "acc_holds att def vals acc \<longleftrightarrow>
     ca_valueCount acc = length vals \<and>
     ca_sum acc = (if summableInt def then word_of_int (sum_list (map (int_datum att) vals)) else 0) \<and>
     (if orderable def then covers_min_max def (set vals) (ca_minMax acc) else ca_minMax acc = None) \<and>
     (if isRange def then covers_upper def (set vals) (ca_upper acc) else ca_upper acc = None)"

lemma fold_vector_holds:
  assumes "def_ok D B def" "set vals \<subseteq> D" "set ws \<subseteq> D" "column_holds V att def ws col" "acc_holds att def vals acc"
  shows "acc_holds att def (vals @ ws) (fold_vector def col acc)"
proof -
  have "covers_min_max def (set vals \<union> set ws) (fold_min_max def (minMax col) (ca_minMax acc))" if "orderable def"
    using fold_min_max_covers[OF assms(1) that assms(3,2)] assms(4,5) that
    by (simp add: column_holds_def acc_holds_def Un_commute)
  moreover have "covers_upper def (set vals \<union> set ws) (fold_upper def (maxUpper col) (ca_upper acc))" if "isRange def"
    using fold_upper_covers[OF assms(1) that assms(3,2)] assms(4,5) that
    by (simp add: column_holds_def acc_holds_def Un_commute)
  ultimately show ?thesis using assms(4,5)
    by (auto simp: column_holds_def acc_holds_def fold_vector_def fold_min_max_def fold_upper_def)
qed

lemma fold_vectors_hold:
  assumes "def_ok D B def" "list_all2 (\<lambda>ws col. set ws \<subseteq> D \<and> column_holds V att def ws col) wss cols"
    and "set vals \<subseteq> D" "acc_holds att def vals acc"
  shows "acc_holds att def (vals @ concat wss) (fold (fold_vector def) cols acc)"
  using assms(2-)
proof (induction wss cols arbitrary: vals acc rule: list_all2_induct)
  case (Cons ws wss col cols)
  have "acc_holds att def (vals @ ws) (fold_vector def col acc)"
    using Cons assms(1) by (intro fold_vector_holds) auto
  moreover have "set (vals @ ws) \<subseteq> D" using Cons by auto
  ultimately show ?case using Cons.IH[of "vals @ ws"] by simp
qed simp

lemma acc_holds_init: "acc_holds att def [] chunk_acc_init"
  by (simp add: acc_holds_def chunk_acc_init_def covers_min_max_def covers_upper_def)

subsection \<open>A stored row covers its values\<close>

text \<open>
  What a reader may conclude from a row: the decoded minimum and maximum bracket every
  value, the decoded upper bound is at or above the upper bound of every nonempty range.
\<close>

definition min_max_brackets ::
  "pg_datum \<Rightarrow> attr \<Rightarrow> column_def \<Rightarrow> datum set \<Rightarrow> datum set \<Rightarrow> (byte list \<times> byte list) option \<Rightarrow> bool" where
  "min_max_brackets V att def D S m \<longleftrightarrow>
     (\<forall>a b. m = Some (a, b) \<longrightarrow>
        (\<exists>mn mx r1 r2. PgColumnarDecodeValue V att a = Inr (mn, r1) \<and> PgColumnarDecodeValue V att b = Inr (mx, r2) \<and>
           mn \<in> D \<and> mx \<in> D \<and> (\<forall>v \<in> S. cmpFn def mn v \<le> 0 \<and> cmpFn def v mx \<le> 0)))"

definition upper_bounds ::
  "pg_datum \<Rightarrow> column_def \<Rightarrow> datum set \<Rightarrow> datum set \<Rightarrow> byte list option option \<Rightarrow> bool" where
  "upper_bounds V def B S up \<longleftrightarrow>
     (\<forall>b. up = Some (Some b) \<longrightarrow>
        (\<exists>u r. PgColumnarDecodeValueByLen V (elemByVal def) (elemLen def) b = Inr (u, r) \<and> u \<in> B \<and>
           (\<forall>v \<in> S. rp_empty (rangeDeserialize def v) \<or>
              \<not> rb_infinite (rp_upper (rangeDeserialize def v)) \<and>
              elemCmpFn def (rb_val (rp_upper (rangeDeserialize def v))) u \<le> 0)))"

definition zone_covers ::
  "pg_datum \<Rightarrow> attr \<Rightarrow> column_def \<Rightarrow> datum set \<Rightarrow> datum set \<Rightarrow> datum set \<Rightarrow> zone_row \<Rightarrow> bool" where
  "zone_covers V att def D B S z \<longleftrightarrow>
     min_max_brackets V att def D S (z_minMax z) \<and> upper_bounds V def B S (z_upper z)"

definition elem_att :: "column_def \<Rightarrow> attr" where
  "elem_att def = \<lparr>attlen = elemLen def, attbyval = elemByVal def, atttypid = 0\<rparr>"

text \<open>
  What storing relies on: a flat value is stored as it is, and storing an element keeps it
  equal under the element comparison.
\<close>

definition store_ok ::
  "pg_datum \<Rightarrow> (u64 \<Rightarrow> nat \<Rightarrow> bool) \<Rightarrow> attr \<Rightarrow> column_def \<Rightarrow> datum set \<Rightarrow> datum set \<Rightarrow> bool" where
  "store_ok V ok att def D B \<longleftrightarrow> pg_datum_ok V ok \<and>
     (\<forall>v \<in> D. datum_fits ok att v \<and> stored_datum V att v = v) \<and>
     (isRange def \<longrightarrow> (\<forall>u \<in> B. datum_fits ok (elem_att def) u \<and> stored_datum V (elem_att def) u \<in> B \<and>
        elemCmpFn def u (stored_datum V (elem_att def) u) \<le> 0))"

lemma encode_min_max_ok:
  assumes "store_ok V ok att def D B" "S \<subseteq> D" "covers_min_max def S mm"
  shows "\<exists>m. encode_min_max V att mm = Inr m \<and> min_max_brackets V att def D S m \<and> (m = None \<longleftrightarrow> mm = None)"
proof (cases mm)
  case (Some p)
  obtain mn mx where p: "mm = Some (mn, mx)" using Some by (cases p) auto
  have mD: "mn \<in> D" "mx \<in> D" and br: "\<forall>v \<in> S. cmpFn def mn v \<le> 0 \<and> cmpFn def v mx \<le> 0"
    using assms(2,3) p by (auto simp: covers_min_max_def)
  have enc: "\<exists>bs. PgColumnarEncodeValue V [] att v = Inr bs \<and> PgColumnarDecodeValue V att bs = Inr (v, [])"
    if v: "v \<in> D" for v
  proof -
    have ok: "pg_datum_ok V ok" "datum_fits ok att v" "stored_datum V att v = v"
      using assms(1) v by (auto simp: store_ok_def)
    from encode_value_bytes[OF ok(1,2), of "[]"] decode_value_bytes[OF ok(1,2), of "[]"] ok(3)
    show ?thesis by simp
  qed
  obtain a b where "PgColumnarEncodeValue V [] att mn = Inr a" "PgColumnarDecodeValue V att a = Inr (mn, [])"
      "PgColumnarEncodeValue V [] att mx = Inr b" "PgColumnarDecodeValue V att b = Inr (mx, [])"
    using enc[OF mD(1)] enc[OF mD(2)] by blast
  then show ?thesis using p mD br by (auto simp: encode_min_max_def min_max_brackets_def)
qed (simp add: encode_min_max_def min_max_brackets_def)

lemma encode_upper_ok:
  assumes st: "store_ok V ok att def D B" and def: "def_ok D B def" "isRange def"
    and S: "S \<subseteq> D" and up: "covers_upper def S up"
  shows "\<exists>b. encode_upper V def up = Inr b \<and> upper_bounds V def B S b"
proof (cases up)
  case (Some o1)
  show ?thesis
  proof (cases o1)
    case None
    with Some show ?thesis by (simp add: encode_upper_def upper_bounds_def)
  next
    case (Some u)
    let ?att = "elem_att def" and ?s = "stored_datum V (elem_att def) u"
    have tc: "total_cmp B (elemCmpFn def)" using def by (simp add: def_ok_def)
    have all: "\<forall>v \<in> S. rp_empty (rangeDeserialize def v) \<or> \<not> rb_infinite (rp_upper (rangeDeserialize def v)) \<and>
        elemCmpFn def (rb_val (rp_upper (rangeDeserialize def v))) u \<le> 0"
      and uB: "u \<in> B" using up S def Some \<open>up = Some o1\<close> by (auto simp: covers_upper_bound def_ok_def)
    have V: "pg_datum_ok V ok" "datum_fits ok ?att u" "?s \<in> B" "elemCmpFn def u ?s \<le> 0"
      using st uB def(2) by (auto simp: store_ok_def)
    define bs where "bs = value_bytes V ?att u"
    from encode_value_bytes[OF V(1,2), of "[]"] decode_value_bytes[OF V(1,2), of "[]"]
    have e: "PgColumnarEncodeValueByLen V [] (elemByVal def) (elemLen def) u = Inr bs"
        "PgColumnarDecodeValueByLen V (elemByVal def) (elemLen def) bs = Inr (?s, [])"
      by (simp_all add: bs_def elem_att_def PgColumnarEncodeValue_def PgColumnarDecodeValue_def)
    have "elemCmpFn def (rb_val (rp_upper (rangeDeserialize def v))) ?s \<le> 0"
      if "v \<in> S" "elemCmpFn def (rb_val (rp_upper (rangeDeserialize def v))) u \<le> 0" for v
      using that S def total_cmp.trans[OF tc _ uB V(3)] V(4) by (auto simp: def_ok_def)
    then show ?thesis using e all V(3) Some \<open>up = Some o1\<close> by (auto simp: encode_upper_def upper_bounds_def)
  qed
qed (simp add: encode_upper_def upper_bounds_def)

lemma make_zone_row_ok:
  assumes st: "store_ok V ok att def D B" and def: "def_ok D B def" and S: "S \<subseteq> D"
    and mm: "if orderable def then covers_min_max def S mm else mm = None"
    and up: "if isRange def then covers_upper def S up else up = None"
  shows "\<exists>z. make_zone_row V att def vec rc vc vs mm up = Inr z \<and> zone_covers V att def D B S z \<and>
    z_vectorIndex z = vec \<and> z_valueCount z = vc \<and> z_nullCount z = rc - vc \<and>
    z_sum z = (if summableInt def \<and> vc > 0 then Some vs else None) \<and>
    (z_minMax z = None \<longleftrightarrow> mm = None)"
proof -
  obtain m where m: "encode_min_max V att mm = Inr m" "m = None \<longleftrightarrow> mm = None" "min_max_brackets V att def D S m"
  proof (cases "orderable def")
    case True
    then show thesis using encode_min_max_ok[OF st S, of mm] mm that by auto
  next
    case False
    then show thesis using mm that[of None] by (simp add: encode_min_max_def min_max_brackets_def)
  qed
  obtain u where u: "encode_upper V def up = Inr u" "upper_bounds V def B S u"
  proof (cases "isRange def")
    case True
    then show thesis using encode_upper_ok[OF st def True S, of up] up that by auto
  next
    case False
    then show thesis using up that[of None] by (simp add: encode_upper_def upper_bounds_def)
  qed
  show ?thesis
    by (rule exI, rule conjI, simp add: make_zone_row_def m(1) u(1))
      (use m(2,3) u(2) in \<open>simp add: zone_covers_def\<close>)
qed

subsection \<open>The rows of a flushed column\<close>

text \<open>The sum of 32-bit values over fewer than \<open>2 ^ 31\<close> rows does not wrap at 64 bits.\<close>

lemma int_datum_bounds: "- (2 ^ 31) \<le> int_datum att v" "int_datum att v < 2 ^ 31"
proof -
  have "- (2 ^ 15) \<le> DatumGetInt16 v" "DatumGetInt16 v < 2 ^ 15" "- (2 ^ 31) \<le> DatumGetInt32 v" "DatumGetInt32 v < 2 ^ 31"
    using sint_ge[of "ucast (datum_word v) :: u16"] sint_lt[of "ucast (datum_word v) :: u16"]
      sint_ge[of "ucast (datum_word v) :: u32"] sint_lt[of "ucast (datum_word v) :: u32"]
    by (simp_all add: DatumGetInt16_def DatumGetInt32_def)
  then show "- (2 ^ 31) \<le> int_datum att v" "int_datum att v < 2 ^ 31" by (auto simp: int_datum_def)
qed

lemma int_sum_exact:
  assumes "length vals < 2 ^ 31"
  shows "sint (word_of_int (sum_list (map (int_datum att) vals)) :: u64) = sum_list (map (int_datum att) vals)"
proof -
  let ?s = "sum_list (map (int_datum att) vals)"
  have "- (2 ^ 31) * int (length vals) \<le> ?s \<and> ?s \<le> 2 ^ 31 * int (length vals)"
  proof (induction vals)
    case (Cons v vals)
    then show ?case using int_datum_bounds[of att v] by (simp add: algebra_simps)
  qed simp
  moreover have "2 ^ 31 * int (length vals) < 2 ^ 31 * 2 ^ 31" using assms by simp
  ultimately have "- (2 ^ 63) \<le> ?s \<and> ?s < 2 ^ 63" by simp
  then show ?thesis by (simp add: signed_of_int signed_take_bit_int_eq_self)
qed

text \<open>What a zone-map row says of the rows it stands for.\<close>

definition zone_describes ::
  "pg_datum \<Rightarrow> attr \<Rightarrow> column_def \<Rightarrow> datum set \<Rightarrow> datum set \<Rightarrow> datum option list \<Rightarrow> int \<Rightarrow> zone_row \<Rightarrow> bool" where
  "zone_describes V att def D B rows vec z \<longleftrightarrow>
     (let vals = present_values V att rows in
      z_vectorIndex z = vec \<and> z_valueCount z = length vals \<and> z_nullCount z = count_list rows None \<and>
      (z_sum z = None \<longleftrightarrow> \<not> summableInt def \<or> vals = []) \<and>
      (\<forall>s. z_sum z = Some s \<longrightarrow> length vals < 2 ^ 31 \<longrightarrow> sint s = sum_list (map (int_datum att) vals)) \<and>
      (z_minMax z = None \<longleftrightarrow> \<not> orderable def \<or> vals = []) \<and>
      zone_covers V att def D B (set vals) z)"

lemma covers_min_max_None: "covers_min_max def S mm \<Longrightarrow> mm = None \<longleftrightarrow> S = {}"
  by (auto simp: covers_min_max_def split: option.splits)

lemma count_present: "count_list rows None = length rows - length (present_values V att rows)"
proof -
  have "length rows = count_list rows None + length (filter (\<lambda>v. v \<noteq> None) rows)"
    by (induction rows) auto
  then show ?thesis by (simp add: present_values_def)
qed

lemma zone_row_describes:
  assumes st: "store_ok V ok att def D B" and def: "def_ok D B def"
    and D: "set (present_values V att rows) \<subseteq> D"
    and acc: "acc_holds att def (present_values V att rows) acc"
  shows "\<exists>z. make_zone_row V att def vec (length rows) (ca_valueCount acc) (ca_sum acc) (ca_minMax acc) (ca_upper acc) = Inr z \<and>
    zone_describes V att def D B rows vec z"
proof -
  let ?vals = "present_values V att rows"
  have acc': "ca_valueCount acc = length ?vals"
      "if orderable def then covers_min_max def (set ?vals) (ca_minMax acc) else ca_minMax acc = None"
      "if isRange def then covers_upper def (set ?vals) (ca_upper acc) else ca_upper acc = None"
      "summableInt def \<Longrightarrow> ca_sum acc = word_of_int (sum_list (map (int_datum att) ?vals))"
    using acc by (simp_all add: acc_holds_def)
  have "ca_minMax acc = None \<longleftrightarrow> \<not> orderable def \<or> ?vals = []"
    using acc'(2) covers_min_max_None[of def "set ?vals" "ca_minMax acc"] by (auto split: if_splits)
  with make_zone_row_ok[OF st def D acc'(2,3), of vec "length rows" "ca_valueCount acc" "ca_sum acc"]
  show ?thesis using acc'(1,4) int_sum_exact[of ?vals att] count_present[of rows V att]
    by (fastforce simp: zone_describes_def Let_def)
qed

definition acc_of :: "column_buffer \<Rightarrow> chunk_acc" where
  "acc_of col = \<lparr>ca_minMax = minMax col, ca_upper = maxUpper col, ca_valueCount = valueCount col, ca_sum = colSum col\<rparr>"

lemma acc_of_holds: "column_holds V att def vals col \<Longrightarrow> acc_holds att def vals (acc_of col)"
  by (auto simp: column_holds_def acc_holds_def acc_of_def)

text \<open>A column buffer filled from rows: the values, the validity and the summaries.\<close>

definition buffer_of :: "pg_datum \<Rightarrow> attr \<Rightarrow> column_def \<Rightarrow> datum option list \<Rightarrow> column_buffer \<Rightarrow> bool" where
  "buffer_of V att def rows col \<longleftrightarrow>
     column_holds V att def (present_values V att rows) col \<and> existsStream col = map (\<lambda>v. v \<noteq> None) rows"

lemma write_column_values_buffer:
  assumes "pg_datum_ok V ok" "def_ok D B def" "rows_ok V ok att D rows"
  shows "\<exists>col. write_column_values V att def rows empty_column_buffer = Inr col \<and> buffer_of V att def rows col"
  using write_values_hold[OF assms _ column_holds_empty] by (simp add: buffer_of_def empty_column_buffer_def)

lemma vector_zone_rows_describe:
  assumes st: "store_ok V ok att def D B" and def: "def_ok D B def"
    and "list_all2 (buffer_of V att def) rowss cols" "\<forall>rows \<in> set rowss. set (present_values V att rows) \<subseteq> D"
  shows "\<exists>zs. vector_zone_rows V att def vec cols = Inr zs \<and> length zs = length rowss \<and>
    (\<forall>i < length rowss. zone_describes V att def D B (rowss ! i) (int (vec + i)) (zs ! i))"
  using assms(3-)
proof (induction rowss cols arbitrary: vec rule: list_all2_induct)
  case (Cons rows rowss col cols)
  have b: "acc_holds att def (present_values V att rows) (acc_of col)" "length (existsStream col) = length rows"
    using Cons.hyps(1) acc_of_holds by (auto simp: buffer_of_def)
  obtain z where z: "make_zone_row V att def (int vec) (length rows) (valueCount col) (colSum col) (minMax col) (maxUpper col) = Inr z"
      "zone_describes V att def D B rows (int vec) z"
    using zone_row_describes[OF st def _ b(1), of "int vec"] Cons.prems by (auto simp: acc_of_def)
  obtain zs where zs: "vector_zone_rows V att def (vec + 1) cols = Inr zs" "length zs = length rowss"
      "\<forall>i < length rowss. zone_describes V att def D B (rowss ! i) (int (vec + 1 + i)) (zs ! i)"
    using Cons.IH[of "vec + 1"] Cons.prems by auto
  have "zone_describes V att def D B ((rows # rowss) ! i) (int (vec + i)) ((z # zs) ! i)" if "i < length (rows # rowss)" for i
    using that z(2) zs(3) by (cases i) auto
  then show ?case using z zs b(2) by simp
qed simp

lemma present_values_concat: "present_values V att (concat rowss) = concat (map (present_values V att) rowss)"
  by (induction rowss) (simp_all add: present_values_def)

lemma flush_zone_rows_describe:
  assumes st: "store_ok V ok att def D B" and def: "def_ok D B def"
    and cols: "list_all2 (buffer_of V att def) rowss cols" and D: "\<forall>rows \<in> set rowss. set (present_values V att rows) \<subseteq> D"
  shows "\<exists>zs z. flush_zone_rows V att def (length (concat rowss)) cols = Inr (zs @ [z]) \<and> length zs = length rowss \<and>
    (\<forall>i < length rowss. zone_describes V att def D B (rowss ! i) (int i) (zs ! i)) \<and>
    zone_describes V att def D B (concat rowss) (- 1) z"
proof -
  obtain zs where zs: "vector_zone_rows V att def 0 cols = Inr zs" "length zs = length rowss"
      "\<forall>i < length rowss. zone_describes V att def D B (rowss ! i) (int i) (zs ! i)"
    using vector_zone_rows_describe[OF st def cols D, of 0] by auto
  have "list_all2 (\<lambda>ws col. set ws \<subseteq> D \<and> column_holds V att def ws col) (map (present_values V att) rowss) cols"
    using cols D by (auto simp: list_all2_conv_all_nth buffer_of_def)
  from fold_vectors_hold[OF def this _ acc_holds_init]
  have "acc_holds att def (present_values V att (concat rowss)) (fold (fold_vector def) cols chunk_acc_init)"
    by (simp add: present_values_concat)
  moreover have "set (present_values V att (concat rowss)) \<subseteq> D" using D by (auto simp: present_values_concat)
  ultimately obtain z where "make_zone_row V att def (- 1) (length (concat rowss))
        (ca_valueCount (fold (fold_vector def) cols chunk_acc_init)) (ca_sum (fold (fold_vector def) cols chunk_acc_init))
        (ca_minMax (fold (fold_vector def) cols chunk_acc_init)) (ca_upper (fold (fold_vector def) cols chunk_acc_init)) = Inr z"
      "zone_describes V att def D B (concat rowss) (- 1) z"
    using zone_row_describes[OF st def] by blast
  then show ?thesis using zs by (simp add: flush_zone_rows_def Let_def)
qed

end
