(* ===== verification/Column_Chunk.thy ===== *)
theory Column_Chunk
  imports Encode_Chunk Compression Encdesc Zone_Map
begin

unbundle bit_operations_syntax

section \<open>Writing and reading a column chunk\<close>

text \<open>
  The byte path of \<open>flush_one_column\<close> (\<open>src/src/columnar_write_state.c\<close>): the validity bitmap
  and its omission, the chunk-shared FSST table with the cached verdict, one encoded
  vector per chunk group with its descriptor entry, and the choice between the encoded
  and the raw region after the block codec; and the reader's reverse,
  \<open>pgcolumnar_native_decode_chunk\<close> with the validity split (\<open>src/src/columnar_reader.c\<close>). The
  zone-map rows and the bloom filter that \<open>flush_one_column\<close> also collects come from
  \<open>Zone_Map\<close>. What the writer flushes, the reader decodes.
\<close>

subsection \<open>Definitions\<close>

record flush_cfg =
  cfg_env :: codec_env
  cfg_lib :: codec_lib
  cfg_effort_fast :: bool
  cfg_compression :: nat
  cfg_level :: int
  cfg_min_gain :: nat
  cfg_verdict_reuse :: nat
  cfg_post_codec_choice :: bool
  cfg_hll :: "u32 list \<Rightarrow> rat"

text \<open>The cached FSST verdict of a column: 0 unknown, 1 helps, 2 hurts.\<close>

record fsst_memo =
  fsst_verdict :: nat
  fsst_verdict_age :: nat

definition FSST_UNKNOWN :: nat where "FSST_UNKNOWN = 0"
definition FSST_HELPS :: nat where "FSST_HELPS = 1"
definition FSST_HURTS :: nat where "FSST_HURTS = 2"
definition FSST_DECIDE_CAP :: nat where "FSST_DECIDE_CAP = 4 * 1024 * 1024"

definition bitmap_step :: "bool \<Rightarrow> nat \<times> byte list \<times> nat \<Rightarrow> nat \<times> byte list \<times> nat" where
  "bitmap_step e st =
     (case st of (rowIdx, validity, present) \<Rightarrow>
        if e
        then (rowIdx + 1,
              validity[rowIdx div 8 := validity ! (rowIdx div 8) OR push_bit (rowIdx mod 8) 1],
              present + 1)
        else (rowIdx + 1, validity, present))"

definition flush_bitmap :: "column_buffer list \<Rightarrow> nat \<Rightarrow> byte list \<times> nat" where
  "flush_bitmap groups validityBytes =
     snd (fold bitmap_step (concat (map existsStream groups)) (0, replicate validityBytes 0, 0))"

definition flush_validity :: "column_buffer list \<Rightarrow> nat \<Rightarrow> nat \<Rightarrow> byte list \<times> byte" where
  "flush_validity groups rowCount validityBytes =
     (let (validity, present) = flush_bitmap groups validityBytes
      in if present = rowCount then ([], ENCDESC_FLAG_NO_VALIDITY) else (validity, 0))"

fun flush_corpus :: "column_buffer list \<Rightarrow> byte list \<Rightarrow> nat \<Rightarrow> byte list \<times> nat" where
  "flush_corpus [] corpus sampleLen = (corpus, sampleLen)"
| "flush_corpus (g # gs) corpus sampleLen =
     (let corpus' = corpus @ valueStream g;
          sampleLen' = (if sampleLen = 0 \<and> length corpus' \<ge> 262144 then length corpus' else sampleLen)
      in if length corpus' \<ge> FSST_DECIDE_CAP then (corpus', sampleLen')
         else flush_corpus gs corpus' sampleLen')"

definition flush_fsst_table ::
  "flush_cfg \<Rightarrow> attr \<Rightarrow> column_buffer list \<Rightarrow> fsst_memo \<Rightarrow> (byte list option \<times> fsst_memo) result" where
  "flush_fsst_table C att groups memo =
     (if attlen att \<noteq> -1 then Inr (None, memo)
      else let (corpus, sl) = flush_corpus groups [] 0;
               sampleLen = (if sl = 0 then length corpus else sl);
               reuse = (cfg_verdict_reuse C > 0 \<and> fsst_verdict memo \<noteq> FSST_UNKNOWN \<and>
                        fsst_verdict_age memo < cfg_verdict_reuse C);
               skip_hurts = (reuse \<and> fsst_verdict memo = FSST_HURTS)
      in res_bind
           (if corpus \<noteq> [] \<and> \<not> cfg_effort_fast C \<and> \<not> skip_hurts
            then res_bind (PgColumnarFsstDictWins (env_pg (cfg_env C)) corpus)
                   (\<lambda>wins. if wins then Inr None
                           else PgColumnarFsstBuildChunkTable (take sampleLen corpus) att)
            else Inr None)
           (\<lambda>tbl. case tbl of
              Some table \<Rightarrow>
                if reuse
                then Inr (if fsst_verdict memo = FSST_HELPS then Some table else None,
                          memo\<lparr>fsst_verdict_age := fsst_verdict_age memo + 1\<rparr>)
                else res_bind (PgColumnarFsstHelpsCompressed (cfg_lib C) (cfg_min_gain C) corpus table
                                 (cfg_compression C) (cfg_level C))
                       (\<lambda>helps. Inr (if helps then Some table else None,
                          \<lparr>fsst_verdict = (if helps then FSST_HELPS else FSST_HURTS),
                           fsst_verdict_age = 0\<rparr>))
            | None \<Rightarrow>
                if skip_hurts then Inr (None, memo\<lparr>fsst_verdict_age := fsst_verdict_age memo + 1\<rparr>)
                else Inr (None, memo)))"

text \<open>The encoded region, its descriptor, and the unencoded alternative with its own.\<close>

record flush_regions =
  fr_encoded :: "byte list"
  fr_desc :: "byte list"
  fr_raw :: "byte list"
  fr_rawDesc :: "byte list"

definition flush_vector ::
  "flush_cfg \<Rightarrow> attr \<Rightarrow> byte list option \<Rightarrow> column_buffer \<Rightarrow> flush_regions \<Rightarrow> flush_regions result" where
  "flush_vector C att tbl g R =
     res_bind (PgColumnarEncodeChunk (cfg_env C) (valueStream g) att (valueCount g) tbl)
       (\<lambda>(encType, encData).
          Inr \<lparr>fr_encoded = fr_encoded R @ encData,
               fr_desc = PgColumnarEncdescPutEntry (fr_desc R) encType (valueCount g)
                           (length (valueStream g)) (length encData),
               fr_raw = (if cfg_post_codec_choice C then fr_raw R @ valueStream g else fr_raw R),
               fr_rawDesc = (if cfg_post_codec_choice C
                  then PgColumnarEncdescPutEntry (fr_rawDesc R) ENC_NONE (valueCount g)
                         (length (valueStream g)) (length (valueStream g))
                  else fr_rawDesc R)\<rparr>)"

definition flush_vectors ::
  "flush_cfg \<Rightarrow> attr \<Rightarrow> byte list option \<Rightarrow> column_buffer list \<Rightarrow> byte \<Rightarrow> flush_regions result" where
  "flush_vectors C att tbl groups flags =
     res_bind
       (fold (\<lambda>g r. res_bind r (flush_vector C att tbl g)) groups
          (Inr \<lparr>fr_encoded = [],
                fr_desc = PgColumnarEncdescPutHeaderFlags [] (length groups) flags,
                fr_raw = [],
                fr_rawDesc = PgColumnarEncdescPutHeaderFlags [] (length groups) flags\<rparr>))
       (\<lambda>R. let table = (case tbl of None \<Rightarrow> [] | Some t \<Rightarrow> t)
            in Inr (R\<lparr>fr_desc := fr_desc R @ u32_bytes (length table) @ table,
                      fr_rawDesc := fr_rawDesc R @ u32_bytes 0\<rparr>))"

text \<open>The block codec, then the choice by stored size. The result is data, codec and descriptor.\<close>

definition flush_codec :: "flush_cfg \<Rightarrow> flush_regions \<Rightarrow> byte list \<times> nat \<times> byte list" where
  "flush_codec C R =
     (if cfg_compression C \<noteq> COMP_NONE \<and> fr_encoded R \<noteq> []
      then let (cdata, used, _) = PgColumnarCompressValueStream (cfg_lib C) (fr_encoded R)
                                   (cfg_compression C) (cfg_level C);
               enc = (if used \<noteq> COMP_NONE then (cdata, used, fr_desc R)
                      else (fr_encoded R, COMP_NONE, fr_desc R))
           in if cfg_post_codec_choice C \<and> length (fr_raw R) > length (fr_encoded R)
              then let (rdata, rused, _) = PgColumnarCompressValueStream (cfg_lib C) (fr_raw R)
                                             (cfg_compression C) (cfg_level C);
                       rawFinal = (if rused \<noteq> COMP_NONE then rdata else fr_raw R)
                   in if length rawFinal < length (fst enc)
                      then (rawFinal, if rused \<noteq> COMP_NONE then rused else COMP_NONE, fr_rawDesc R)
                      else enc
              else enc
      else (fr_encoded R, COMP_NONE, fr_desc R))"

record flush_result =
  fres_chunk :: "byte list"
  fres_desc :: "byte list"
  fres_codec :: nat
  fres_zoneRows :: "zone_row list"
  fres_bloom :: "byte list option"

definition flush_one_column ::
  "flush_cfg \<Rightarrow> attr \<Rightarrow> bool \<Rightarrow> column_def \<Rightarrow> column_buffer list \<Rightarrow> nat \<Rightarrow> nat \<Rightarrow> fsst_memo \<Rightarrow>
   (flush_result option \<times> fsst_memo) result" where
  "flush_one_column C att virtual def groups rowCount validityBytes memo =
     (if virtual then Inr (None, memo)
      else let (validity, flags) = flush_validity groups rowCount validityBytes
      in res_bind (flush_fsst_table C att groups memo) (\<lambda>(tbl, memo').
           res_bind (flush_vectors C att tbl groups flags) (\<lambda>R.
           res_bind (flush_zone_rows (env_pg (cfg_env C)) att def rowCount groups) (\<lambda>zoneRows.
             let (data, codec, desc) = flush_codec C R
             in Inr (Some \<lparr>fres_chunk = validity @ data, fres_desc = desc, fres_codec = codec,
                           fres_zoneRows = zoneRows, fres_bloom = flush_bloom (cfg_hll C) def groups\<rparr>, memo')))))"

subsection \<open>The reader's side\<close>

definition pgcolumnar_chunk_validity_bytes :: "byte list option \<Rightarrow> nat \<Rightarrow> nat" where
  "pgcolumnar_chunk_validity_bytes desc validityBytes =
     (if PgColumnarEncdescOmitsValidity desc then 0 else validityBytes)"

definition pgcolumnar_chunk_value_bytes :: "nat \<Rightarrow> int \<Rightarrow> nat result" where
  "pgcolumnar_chunk_value_bytes pageLength validityBytes =
     (let vb = nat (if validityBytes < 0 then 0 else validityBytes)
      in if vb > pageLength
         then Inl (Corrupt ''chunk has a validity bitmap longer than the chunk'')
         else if pageLength - vb > 2 ^ 32 - 1 then Inl (Corrupt ''chunk is too large to decode'')
         else Inr (pageLength - vb))"

fun encdesc_entries :: "nat \<Rightarrow> byte list \<Rightarrow> encdesc_entry list" where
  "encdesc_entries 0 dp = []"
| "encdesc_entries (Suc n) dp =
     (let (e, dp') = PgColumnarEncdescReadEntry dp in e # encdesc_entries n dp')"

text \<open>
  The second pass: each vector decoded from its slice of the region. A skipped vector
  leaves its bytes undecoded (\<open>None\<close>), an empty one decodes to nothing; both cursors
  advance by the descriptor's lengths either way.
\<close>

fun decode_vectors ::
  "codec_env \<Rightarrow> attr \<Rightarrow> byte list option \<Rightarrow> (nat \<Rightarrow> bool) \<Rightarrow> nat \<Rightarrow> encdesc_entry list \<Rightarrow> byte list \<Rightarrow>
   byte list option list result" where
  "decode_vectors E att tbl skp v [] enc = Inr []"
| "decode_vectors E att tbl skp v (e # es) enc =
     res_bind
       (if ent_rawLen e > 0
        then if skp v then Inr None
             else res_bind (PgColumnarDecodeChunk E (take (ent_encLen e) enc) (ent_type e) att
                              (ent_valueCount e) (ent_rawLen e) tbl) (\<lambda>raw. Inr (Some raw))
        else Inr (Some []))
       (\<lambda>r. res_bind (decode_vectors E att tbl skp (v + 1) es (drop (ent_encLen e) enc))
          (\<lambda>rs. Inr (r # rs)))"

definition pgcolumnar_native_decode_chunk ::
  "codec_env \<Rightarrow> codec_lib \<Rightarrow> attr \<Rightarrow> byte list \<Rightarrow> byte list \<Rightarrow> nat \<Rightarrow> (nat \<Rightarrow> bool) \<Rightarrow>
   byte list option list result" where
  "pgcolumnar_native_decode_chunk E K att vals desc blockCodec skp =
     (if length desc < ENCDESC_HEADER_LEN \<or> \<not> PgColumnarEncdescVersionSupported desc
      then Inl (Corrupt ''unrecognized native encoding descriptor'')
      else let vectorCount = PgColumnarEncdescReadVectorCount desc;
               entriesEnd = ENCDESC_HEADER_LEN + vectorCount * ENCDESC_ENTRY_LEN
      in if length desc < entriesEnd + ENCDESC_SHARED_LEN_BYTES
         then Inl (Corrupt ''native encoding descriptor length mismatch'')
      else let sharedTableLen = u32_of (drop entriesEnd desc)
      in if length desc \<noteq> entriesEnd + ENCDESC_SHARED_LEN_BYTES + sharedTableLen
         then Inl (Corrupt ''native encoding descriptor length mismatch'')
      else let tbl = (if sharedTableLen > 0
                      then Some (drop (entriesEnd + ENCDESC_SHARED_LEN_BYTES) desc) else None);
               es = encdesc_entries vectorCount (drop ENCDESC_HEADER_LEN desc);
               encTotal = sum_list (map ent_encLen es)
      in res_bind
           (if blockCodec \<noteq> COMP_NONE
            then PgColumnarDecompressValueStream K vals blockCodec (encTotal mod 2 ^ 32)
            else if length vals \<noteq> encTotal
            then Inl (Corrupt ''native chunk length does not match descriptor'')
            else Inr vals)
           (\<lambda>encRegion. decode_vectors E att tbl skp 0 es encRegion))"

subsection \<open>The validity bitmap\<close>

lemma bitmap_step_bits:
  assumes "rowIdx < 8 * length v"
  obtains v' where "bitmap_step e (rowIdx, v, k) = (rowIdx + 1, v', if e then k + 1 else k)"
    "length v' = length v" "\<And>p. bufbit v' p \<longleftrightarrow> bufbit v p \<or> e \<and> p = rowIdx"
proof -
  define v' where "v' = (if e then v[rowIdx div 8 := v ! (rowIdx div 8) OR push_bit (rowIdx mod 8) 1] else v)"
  have lt: "rowIdx div 8 < length v" using assms by (simp add: less_mult_imp_div_less mult.commute)
  have bit: "bufbit v' p \<longleftrightarrow> bufbit v p \<or> e \<and> p = rowIdx" for p
  proof (cases "p div 8 = rowIdx div 8")
    case True
    then have "p = rowIdx \<longleftrightarrow> p mod 8 = rowIdx mod 8" by (metis mult_div_mod_eq)
    then show ?thesis using lt True by (auto simp: v'_def bufbit_def bit_simps)
  qed (use lt in \<open>auto simp: v'_def bufbit_def\<close>)
  show thesis by (rule that[of v']) (simp_all add: bit, simp_all add: v'_def bitmap_step_def)
qed

lemma bitmap_fold:
  assumes "rowIdx + length ex \<le> 8 * length v"
  shows "\<exists>v'. fold bitmap_step ex (rowIdx, v, k) = (rowIdx + length ex, v', k + count_list ex True) \<and>
      length v' = length v \<and>
      (\<forall>p. bufbit v' p \<longleftrightarrow> bufbit v p \<or> rowIdx \<le> p \<and> p < rowIdx + length ex \<and> ex ! (p - rowIdx))"
  using assms
proof (induction ex arbitrary: rowIdx v k)
  case (Cons e ex)
  have "rowIdx < 8 * length v" using Cons.prems by simp
  then obtain v1 where v1: "bitmap_step e (rowIdx, v, k) = (rowIdx + 1, v1, if e then k + 1 else k)"
      "length v1 = length v" "\<And>p. bufbit v1 p \<longleftrightarrow> bufbit v p \<or> e \<and> p = rowIdx"
    by (rule bitmap_step_bits[where e = e and k = k]) blast
  have "rowIdx + 1 + length ex \<le> 8 * length v1" using Cons.prems v1(2) by simp
  from Cons.IH[OF this, of "if e then k + 1 else k"] obtain v2 where
    v2: "fold bitmap_step ex (rowIdx + 1, v1, if e then k + 1 else k) =
        (rowIdx + 1 + length ex, v2, (if e then k + 1 else k) + count_list ex True)"
      "length v2 = length v1"
      "\<And>p. bufbit v2 p \<longleftrightarrow> bufbit v1 p \<or> rowIdx + 1 \<le> p \<and> p < rowIdx + 1 + length ex \<and> ex ! (p - (rowIdx + 1))"
    by blast
  have "bufbit v2 p \<longleftrightarrow> bufbit v p \<or> rowIdx \<le> p \<and> p < rowIdx + length (e # ex) \<and> (e # ex) ! (p - rowIdx)" for p
    unfolding v2(3) v1(3) by (cases "p = rowIdx") (auto simp: nth_Cons' Suc_le_eq)
  with v1 v2 show ?case by (intro exI[of _ v2]) simp
qed auto

lemma flush_bitmap_bits:
  assumes "length (concat (map existsStream groups)) \<le> 8 * vb"
  shows "length (fst (flush_bitmap groups vb)) = vb"
    and "snd (flush_bitmap groups vb) = count_list (concat (map existsStream groups)) True"
    and "bufbit (fst (flush_bitmap groups vb)) p \<longleftrightarrow>
      p < length (concat (map existsStream groups)) \<and> concat (map existsStream groups) ! p"
proof -
  let ?ex = "concat (map existsStream groups)"
  obtain v' where "fold bitmap_step ?ex (0, replicate vb 0, 0) = (length ?ex, v', count_list ?ex True)"
      "length v' = vb" "\<And>p. bufbit v' p \<longleftrightarrow> p < length ?ex \<and> ?ex ! p"
    using bitmap_fold[of 0 ?ex "replicate vb 0" 0] assms by auto
  then show "length (fst (flush_bitmap groups vb)) = vb"
      "snd (flush_bitmap groups vb) = count_list ?ex True"
      "bufbit (fst (flush_bitmap groups vb)) p \<longleftrightarrow> p < length ?ex \<and> ?ex ! p"
    by (simp_all add: flush_bitmap_def)
qed

lemma count_all_True: "count_list xs True = length xs \<longleftrightarrow> (\<forall>i < length xs. xs ! i)"
proof (induction xs)
  case (Cons x xs)
  have "count_list xs True \<le> length xs" by (rule count_le_length)
  with Cons show ?case by (auto simp: nth_Cons' less_Suc_eq_0_disj)
qed simp

text \<open>
  What a reader of the split chunk sees of a row: every row when the bitmap was omitted,
  its bit otherwise.
\<close>

definition row_present :: "byte list \<Rightarrow> byte list \<Rightarrow> nat \<Rightarrow> bool" where
  "row_present desc chunk row \<longleftrightarrow>
     PgColumnarEncdescOmitsValidity (Some desc) \<or> bufbit chunk row"

lemma flush_validity_cases:
  assumes "length (concat (map existsStream groups)) = rowCount" and "rowCount \<le> 8 * vb"
    and "flush_validity groups rowCount vb = (validity, flags)"
  shows "flags = 1 \<and> validity = [] \<and> (\<forall>i < rowCount. concat (map existsStream groups) ! i) \<or>
    flags = 0 \<and> length validity = vb \<and>
    (\<forall>i < rowCount. bufbit validity i \<longleftrightarrow> concat (map existsStream groups) ! i)"
  using flush_bitmap_bits[of groups vb] assms count_all_True[of "concat (map existsStream groups)"]
  by (auto simp: flush_validity_def ENCDESC_FLAG_NO_VALIDITY_def split_beta split: if_splits)

subsection \<open>The chunk-shared table\<close>

definition shared_table_ok :: "byte list option \<Rightarrow> bool" where
  "shared_table_ok tbl \<longleftrightarrow> table_ok tbl \<and>
     (case tbl of None \<Rightarrow> True | Some table \<Rightarrow> table \<noteq> [] \<and> length table < 2 ^ 32)"

lemma length_serialized_table:
  assumes "fsst_deserialize_table (fsst_serialize_table t) = Inr t"
  shows "length (fsst_serialize_table t) \<le> 2296"
proof -
  have t: "length t \<le> 255" "\<forall>sy \<in> set t. fsst_sym_ok sy" using fsst_deserialize_ok[OF assms] by auto
  from t(2) have "length (concat (map (\<lambda>(v, l). of_nat l # le_bytes l v) t)) \<le> 9 * length t"
    by (induction t) (auto simp: fsst_sym_ok_def FSST_MAX_SYMLEN_def)
  with t(1) show ?thesis by (simp add: fsst_serialize_table_def)
qed

lemma flush_fsst_table_ok:
  "\<exists>tbl memo'. flush_fsst_table C att groups memo = Inr (tbl, memo') \<and> shared_table_ok tbl"
proof (cases "attlen att = -1")
  case False
  then show ?thesis by (simp add: flush_fsst_table_def shared_table_ok_def table_ok_def)
next
  case True
  obtain corpus sl where cs: "flush_corpus groups [] 0 = (corpus, sl)" by fastforce
  let ?sample = "take (if sl = 0 then length corpus else sl) corpus"
  obtain wins where wins: "PgColumnarFsstDictWins (env_pg (cfg_env C)) corpus = Inr wins"
    using dict_wins_returns by blast
  obtain r where r: "PgColumnarFsstBuildChunkTable ?sample att = Inr r"
    and rt: "\<And>table. r = Some table \<Longrightarrow>
       \<exists>t. t \<noteq> [] \<and> table = fsst_serialize_table t \<and> fsst_deserialize_table table = Inr t"
    using build_chunk_table_ok[of ?sample att] by blast
  have none: "shared_table_ok None" by (simp add: shared_table_ok_def table_ok_def)
  have ok: "shared_table_ok (Some table)" if tb: "r = Some table" for table
  proof -
    obtain t where t: "table = fsst_serialize_table t" "fsst_deserialize_table table = Inr t"
      using rt[OF tb] by blast
    then have "length table \<le> 2296" using length_serialized_table[of t] by simp
    with t show ?thesis by (auto simp: shared_table_ok_def table_ok_def fsst_serialize_table_def)
  qed
  have helps: "\<exists>h. PgColumnarFsstHelpsCompressed (cfg_lib C) (cfg_min_gain C) corpus table
      (cfg_compression C) (cfg_level C) = Inr h" if tb: "r = Some table" for table
  proof -
    obtain t where "fsst_deserialize_table table = Inr t" using rt[OF tb] by blast
    then obtain e where "encode_fsst_shared corpus table = Inr e" using encode_fsst_returns by blast
    then show ?thesis
      by (cases e) (auto simp: PgColumnarFsstHelpsCompressed_def split_beta)
  qed
  show ?thesis
  proof (cases r)
    case None
    with r wins none show ?thesis using True by (auto simp: flush_fsst_table_def cs Let_def)
  next
    case (Some table)
    obtain h where "PgColumnarFsstHelpsCompressed (cfg_lib C) (cfg_min_gain C) corpus table
        (cfg_compression C) (cfg_level C) = Inr h" using helps[OF Some] by blast
    with Some r wins ok[OF Some] none show ?thesis using True
      by (auto simp: flush_fsst_table_def cs Let_def)
  qed
qed

subsection \<open>The vectors\<close>

definition vec_ok :: "codec_env \<Rightarrow> attr \<Rightarrow> column_buffer \<Rightarrow> bool" where
  "vec_ok E att g \<longleftrightarrow> (if valueStream g = [] then valueCount g < 2 ^ 32
     else chunk_ok E att (valueStream g) (valueCount g))"

text \<open>A descriptor entry and a slice of the region that decode to a vector.\<close>

definition vec_decodes ::
  "codec_env \<Rightarrow> attr \<Rightarrow> byte list option \<Rightarrow> column_buffer \<Rightarrow> encdesc_entry \<times> byte list \<Rightarrow> bool" where
  "vec_decodes E att tbl g p \<longleftrightarrow> entry_ok (fst p) \<and> ent_encLen (fst p) = length (snd p) \<and>
     length (snd p) \<le> length (valueStream g) \<and>
     ent_valueCount (fst p) = valueCount g \<and> ent_rawLen (fst p) = length (valueStream g) \<and>
     (ent_type (fst p) = ENC_RLE \<longrightarrow> 0 < attlen att) \<and>
     (valueStream g \<noteq> [] \<longrightarrow> readable att (ent_type (fst p)) \<longrightarrow>
      PgColumnarDecodeChunk E (snd p) (ent_type (fst p)) att (valueCount g) (length (valueStream g)) tbl =
        Inr (valueStream g))"

lemma vec_encoded:
  assumes g: "vec_ok E att g" and att: "attr_ok att" and t: "table_ok tbl"
  obtains code out where "PgColumnarEncodeChunk E (valueStream g) att (valueCount g) tbl = Inr (code, out)"
    "vec_decodes E att tbl g (\<lparr>ent_type = code, ent_valueCount = valueCount g,
        ent_rawLen = length (valueStream g), ent_encLen = length out\<rparr>, out)"
proof (cases "valueStream g = []")
  case True
  with g show thesis
    by (intro that[of ENC_NONE "[]"])
       (simp_all add: PgColumnarEncodeChunk_def vec_decodes_def entry_ok_def vec_ok_def enc_codes)
next
  case False
  with g have c: "chunk_ok E att (valueStream g) (valueCount g)" by (simp add: vec_ok_def)
  from att obtain code out where e: "PgColumnarEncodeChunk E (valueStream g) att (valueCount g) tbl = Inr (code, out)"
      "length out \<le> length (valueStream g)" "code \<le> ENC_FSST" "code = ENC_RLE \<Longrightarrow> 0 < attlen att"
      "readable att code \<Longrightarrow>
        PgColumnarDecodeChunk E out code att (valueCount g) (length (valueStream g)) tbl = Inr (valueStream g)"
    using encode_chunk_decodes[OF c _ t] by blast
  have "length (valueStream g) < 2 ^ 32" "valueCount g < 2 ^ 32"
    using c chunk_ok_n[OF c] by (auto simp: chunk_ok_def)
  then show thesis using e
    by (intro that[of code out]) (auto simp: vec_decodes_def entry_ok_def ENC_FSST_def)
qed

lemma vec_raw:
  assumes "vec_ok E att g"
  shows "vec_decodes E att None g (\<lparr>ent_type = ENC_NONE, ent_valueCount = valueCount g,
    ent_rawLen = length (valueStream g), ent_encLen = length (valueStream g)\<rparr>, valueStream g)"
proof -
  have "length (valueStream g) < 2 ^ 32" "valueCount g < 2 ^ 32"
    using assms chunk_ok_n by (auto simp: vec_ok_def chunk_ok_def split: if_splits)
  then show ?thesis
    by (simp add: vec_decodes_def entry_ok_def PgColumnarDecodeChunk_def decode_precheck_def enc_codes)
qed

definition desc_of :: "byte \<Rightarrow> (encdesc_entry \<times> byte list) list \<Rightarrow> byte list \<Rightarrow> byte list" where
  "desc_of flags ps table =
     header_bytes (length ps) flags @ concat (map (\<lambda>p. entry_bytes (fst p)) ps) @ u32_bytes (length table) @ table"

lemma flush_vector_fold:
  assumes "\<forall>g \<in> set groups. vec_ok (cfg_env C) att g" and att: "attr_ok att" and t: "table_ok tbl"
  shows "\<exists>ps qs R'. fold (\<lambda>g r. res_bind r (flush_vector C att tbl g)) groups (Inr R) = Inr R' \<and>
    list_all2 (vec_decodes (cfg_env C) att tbl) groups ps \<and>
    fr_encoded R' = fr_encoded R @ concat (map snd ps) \<and>
    fr_desc R' = fr_desc R @ concat (map (\<lambda>p. entry_bytes (fst p)) ps) \<and>
    (cfg_post_codec_choice C \<longrightarrow> list_all2 (vec_decodes (cfg_env C) att None) groups qs \<and>
       fr_raw R' = fr_raw R @ concat (map snd qs) \<and>
       fr_rawDesc R' = fr_rawDesc R @ concat (map (\<lambda>p. entry_bytes (fst p)) qs))"
  using assms(1)
proof (induction groups arbitrary: R)
  case Nil
  then show ?case by (intro exI[of _ "[]"]) simp
next
  case (Cons g groups)
  have g: "vec_ok (cfg_env C) att g" and prem: "\<forall>g \<in> set groups. vec_ok (cfg_env C) att g"
    using Cons.prems by simp_all
  obtain code out where e: "PgColumnarEncodeChunk (cfg_env C) (valueStream g) att (valueCount g) tbl = Inr (code, out)"
      "vec_decodes (cfg_env C) att tbl g (\<lparr>ent_type = code, ent_valueCount = valueCount g,
        ent_rawLen = length (valueStream g), ent_encLen = length out\<rparr>, out)"
    using vec_encoded[OF g att t] .
  obtain R1 where R1: "flush_vector C att tbl g R = Inr R1" by (simp add: flush_vector_def e(1))
  obtain ps qs R' where IH: "fold (\<lambda>g r. res_bind r (flush_vector C att tbl g)) groups (Inr R1) = Inr R'"
      "list_all2 (vec_decodes (cfg_env C) att tbl) groups ps"
      "fr_encoded R' = fr_encoded R1 @ concat (map snd ps)"
      "fr_desc R' = fr_desc R1 @ concat (map (\<lambda>p. entry_bytes (fst p)) ps)"
      "cfg_post_codec_choice C \<longrightarrow> list_all2 (vec_decodes (cfg_env C) att None) groups qs \<and>
       fr_raw R' = fr_raw R1 @ concat (map snd qs) \<and>
       fr_rawDesc R' = fr_rawDesc R1 @ concat (map (\<lambda>p. entry_bytes (fst p)) qs)"
    using Cons.IH[OF prem, of R1] by (elim exE conjE)
  let ?p = "(\<lparr>ent_type = code, ent_valueCount = valueCount g, ent_rawLen = length (valueStream g),
      ent_encLen = length out\<rparr>, out)"
  let ?q = "(\<lparr>ent_type = ENC_NONE, ent_valueCount = valueCount g, ent_rawLen = length (valueStream g),
      ent_encLen = length (valueStream g)\<rparr>, valueStream g)"
  have "fold (\<lambda>g r. res_bind r (flush_vector C att tbl g)) (g # groups) (Inr R) = Inr R'"
    using R1 IH(1) by simp
  moreover have "fr_encoded R1 = fr_encoded R @ out" "fr_desc R1 = fr_desc R @ entry_bytes (fst ?p)"
      "cfg_post_codec_choice C \<Longrightarrow> fr_raw R1 = fr_raw R @ valueStream g"
      "cfg_post_codec_choice C \<Longrightarrow> fr_rawDesc R1 = fr_rawDesc R @ entry_bytes (fst ?q)"
    using R1 by (auto simp: flush_vector_def e(1) put_entry_append)
  ultimately show ?case using e(2) IH(2-) vec_raw[OF g]
    by - (rule exI[of _ "?p # ps"], rule exI[of _ "?q # qs"], rule exI[of _ R'], simp)
qed

subsection \<open>Decoding what was flushed\<close>

fun decoded_vectors :: "(nat \<Rightarrow> bool) \<Rightarrow> nat \<Rightarrow> column_buffer list \<Rightarrow> byte list option list" where
  "decoded_vectors skp v [] = []"
| "decoded_vectors skp v (g # gs) =
     (if valueStream g \<noteq> [] \<and> skp v then None else Some (valueStream g)) # decoded_vectors skp (v + 1) gs"

lemma decode_vectors_ok:
  assumes "list_all2 (vec_decodes E att tbl) groups ps" and "\<forall>p \<in> set ps. readable att (ent_type (fst p))"
  shows "decode_vectors E att tbl skp v (map fst ps) (concat (map snd ps)) =
    Inr (decoded_vectors skp v groups)"
  using assms
proof (induction groups ps arbitrary: v rule: list_all2_induct)
  case (Cons g gs p ps)
  then show ?case by (cases "valueStream g = []") (auto simp: vec_decodes_def)
qed simp

lemma encdesc_entries_put:
  assumes "\<forall>p \<in> set ps. entry_ok (fst p)"
  shows "encdesc_entries (length ps) (concat (map (\<lambda>p. entry_bytes (fst p)) ps) @ rest) = map fst ps"
  using assms by (induction ps) (auto simp: read_entry_put)

lemma sum_encLen:
  assumes "list_all2 (vec_decodes E att tbl) groups ps"
  shows "sum_list (map ent_encLen (map fst ps)) = length (concat (map snd ps))"
    and "length (concat (map snd ps)) \<le> length (concat (map valueStream groups))"
  using assms by (induction rule: list_all2_induct) (auto simp: vec_decodes_def)

text \<open>
  The chunks the decoder accepts: those of a column of width 1, 2, 4 or 8 or of variable length,
  and at any other width those without a run-length vector. The writer picks run-length encoding
  at every positive width, the reader refuses it outside the four.
\<close>

definition desc_vectors :: "byte list \<Rightarrow> encdesc_entry list" where
  "desc_vectors desc = encdesc_entries (PgColumnarEncdescReadVectorCount desc) (drop 6 desc)"

definition readable_chunk :: "attr \<Rightarrow> byte list \<Rightarrow> bool" where
  "readable_chunk att desc \<longleftrightarrow> fixed_width att \<or> attlen att < 0 \<or> (\<forall>e \<in> set (desc_vectors desc). ent_type e \<noteq> ENC_RLE)"

lemma desc_vectors_of:
  assumes "\<forall>p \<in> set ps. entry_ok (fst p)" "length ps < 2 ^ 32"
  shows "desc_vectors (desc_of flags ps table) = map fst ps"
  using header_reads[OF assms(2)] encdesc_entries_put[OF assms(1)] by (simp add: desc_vectors_def desc_of_def)

lemma readable_vectors:
  assumes dec: "list_all2 (vec_decodes E att tbl) groups ps" and n: "length groups < 2 ^ 32"
    and r: "readable_chunk att (desc_of flags ps table)"
  shows "\<forall>p \<in> set ps. readable att (ent_type (fst p))"
proof -
  have p: "\<forall>p \<in> set ps. entry_ok (fst p) \<and> (ent_type (fst p) = ENC_RLE \<longrightarrow> 0 < attlen att)"
    using dec by (induction rule: list_all2_induct) (auto simp: vec_decodes_def)
  have "desc_vectors (desc_of flags ps table) = map fst ps"
    using p n list_all2_lengthD[OF dec] by (intro desc_vectors_of) auto
  then show ?thesis using r p by (auto simp: readable_chunk_def readable_def)
qed

lemma native_decode_flushed:
  assumes dec: "list_all2 (vec_decodes E att tbl) groups ps" and n: "length groups < 2 ^ 32"
    and total: "length (concat (map valueStream groups)) < 2 ^ 32"
    and tbl: "tbl = (if table = [] then None else Some table)" "length table < 2 ^ 32"
    and region: "if codec = COMP_NONE then vals = concat (map snd ps)
      else PgColumnarDecompressValueStream K vals codec (length (concat (map snd ps))) = Inr (concat (map snd ps))"
    and readable: "readable_chunk att (desc_of flags ps table)"
  shows "pgcolumnar_native_decode_chunk E K att vals (desc_of flags ps table) codec skp =
    Inr (decoded_vectors skp 0 groups)"
proof -
  define d where "d = desc_of flags ps table"
  let ?es = "concat (map (\<lambda>p. entry_bytes (fst p)) ps)"
  have len: "length ps = length groups" using dec by (simp add: list_all2_lengthD)
  have les: "length ?es = length ps * 13" by (rule length_concat_const) simp
  have ok: "\<forall>p \<in> set ps. entry_ok (fst p)"
    using dec by (induction rule: list_all2_induct) (auto simp: vec_decodes_def)
  have n': "length ps < 2 ^ 32" using n len by simp
  have hd: "PgColumnarEncdescVersionSupported d" "PgColumnarEncdescReadVectorCount d = length ps"
    using header_reads[OF n'] by (simp_all add: d_def desc_of_def)
  have "drop (6 + length ps * 13) d = u32_bytes (length table) @ table"
    by (simp add: d_def desc_of_def les)
  then have sl: "u32_of (drop (6 + length ps * 13) d) = length table" using tbl(2) by simp
  have parts: "drop (6 + length ps * 13 + 4) d = table" "length d = 6 + length ps * 13 + 4 + length table"
    by (simp_all add: d_def desc_of_def les)
  have es: "encdesc_entries (length ps) (drop 6 d) = map fst ps"
    using encdesc_entries_put[OF ok] by (simp add: d_def desc_of_def)
  have sum: "sum_list (map ent_encLen (map fst ps)) = length (concat (map snd ps))"
      "length (concat (map snd ps)) mod 2 ^ 32 = length (concat (map snd ps))"
    using sum_encLen[OF dec] total by simp_all
  have tb: "(if 0 < length table then Some table else None) = tbl" using tbl(1) by simp
  have reg: "(if codec \<noteq> COMP_NONE
      then PgColumnarDecompressValueStream K vals codec (length (concat (map snd ps)))
      else if length vals \<noteq> length (concat (map snd ps))
      then Inl (Corrupt ''native chunk length does not match descriptor'')
      else Inr vals) = Inr (concat (map snd ps))"
    using region by (auto split: if_splits)
  have "pgcolumnar_native_decode_chunk E K att vals d codec skp =
      decode_vectors E att tbl skp 0 (map fst ps) (concat (map snd ps))"
    unfolding pgcolumnar_native_decode_chunk_def encdesc_consts Let_def hd(2) sl parts es sum tb reg
    using hd(1) by simp
  then show ?thesis by (simp add: decode_vectors_ok[OF dec readable_vectors[OF dec n readable]] d_def)
qed

text \<open>The stored data gives back the region its descriptor describes.\<close>

definition region_of :: "codec_lib \<Rightarrow> byte list \<Rightarrow> nat \<Rightarrow> byte list \<Rightarrow> bool" where
  "region_of K data codec region \<longleftrightarrow>
     (if codec = COMP_NONE then data = region
      else PgColumnarDecompressValueStream K data codec (length region) = Inr region)"

lemma flush_codec_region:
  assumes K: "codec_lib_ok (cfg_lib C)" and "flush_codec C R = (data, codec, desc)"
  shows "desc = fr_desc R \<and> region_of (cfg_lib C) data codec (fr_encoded R) \<or>
    cfg_post_codec_choice C \<and> desc = fr_rawDesc R \<and> region_of (cfg_lib C) data codec (fr_raw R)"
proof -
  let ?comp = "\<lambda>r. PgColumnarCompressValueStream (cfg_lib C) r (cfg_compression C) (cfg_level C)"
  obtain cdata used lv where c: "?comp (fr_encoded R) = (cdata, used, lv)" by (metis prod_cases3)
  obtain rdata rused rlv where r: "?comp (fr_raw R) = (rdata, rused, rlv)" by (metis prod_cases3)
  show ?thesis
    using assms(2) decompress_compress[OF K c] decompress_compress[OF K r]
    unfolding flush_codec_def c r Let_def prod.case
    by (auto simp: region_of_def split: if_splits)
qed

lemma flush_vectors_ok:
  assumes "\<forall>g \<in> set groups. vec_ok (cfg_env C) att g" "attr_ok att" "shared_table_ok tbl"
  obtains R ps qs table where "flush_vectors C att tbl groups flags = Inr R"
    "tbl = (if table = [] then None else Some table)" "length table < 2 ^ 32"
    "list_all2 (vec_decodes (cfg_env C) att tbl) groups ps"
    "fr_encoded R = concat (map snd ps)" "fr_desc R = desc_of flags ps table"
    "cfg_post_codec_choice C \<longrightarrow> list_all2 (vec_decodes (cfg_env C) att None) groups qs \<and>
       fr_raw R = concat (map snd qs) \<and> fr_rawDesc R = desc_of flags qs []"
proof -
  let ?hd = "header_bytes (length groups) flags"
  let ?R0 = "\<lparr>fr_encoded = [], fr_desc = ?hd, fr_raw = [], fr_rawDesc = ?hd\<rparr>"
  have t: "table_ok tbl" using assms(3) by (simp add: shared_table_ok_def)
  obtain ps qs R where R: "fold (\<lambda>g r. res_bind r (flush_vector C att tbl g)) groups (Inr ?R0) = Inr R"
      "list_all2 (vec_decodes (cfg_env C) att tbl) groups ps"
      "fr_encoded R = fr_encoded ?R0 @ concat (map snd ps)"
      "fr_desc R = fr_desc ?R0 @ concat (map (\<lambda>p. entry_bytes (fst p)) ps)"
      "cfg_post_codec_choice C \<longrightarrow> list_all2 (vec_decodes (cfg_env C) att None) groups qs \<and>
       fr_raw R = fr_raw ?R0 @ concat (map snd qs) \<and>
       fr_rawDesc R = fr_rawDesc ?R0 @ concat (map (\<lambda>p. entry_bytes (fst p)) qs)"
    using flush_vector_fold[OF assms(1,2) t, of ?R0] by (elim exE conjE)
  define table where "table = (case tbl of None \<Rightarrow> [] | Some t \<Rightarrow> t)"
  have tb: "tbl = (if table = [] then None else Some table)" "length table < 2 ^ 32"
    using assms(3) by (auto simp: table_def shared_table_ok_def split: option.splits)
  have len: "length ps = length groups" "cfg_post_codec_choice C \<Longrightarrow> length qs = length groups"
    using R(2,5) by (auto dest: list_all2_lengthD)
  let ?R = "R\<lparr>fr_desc := fr_desc R @ u32_bytes (length table) @ table, fr_rawDesc := fr_rawDesc R @ u32_bytes 0\<rparr>"
  have "flush_vectors C att tbl groups flags = Inr ?R"
    using R(1) by (simp add: flush_vectors_def header_bytes_def[symmetric] table_def Let_def)
  then show thesis using R tb len by (intro that[of ?R table ps qs]) (simp_all add: desc_of_def)
qed

text \<open>
  The layout a reader relies on: the bitmap ends inside the chunk, the rest fits 32 bits, and
  the descriptor has one entry per vector with its count and raw length.
\<close>

definition desc_describes :: "byte list \<Rightarrow> column_buffer list \<Rightarrow> bool" where
  "desc_describes desc cols \<longleftrightarrow>
     (\<exists>flags xs tb. desc = desc_of flags xs tb \<and> length xs < 2 ^ 32 \<and> length tb < 2 ^ 32 \<and>
        list_all2 (\<lambda>g p. entry_ok (fst p) \<and> ent_rawLen (fst p) = length (valueStream g) \<and>
          ent_valueCount (fst p) = valueCount g) cols xs)"

definition chunk_layout :: "nat \<Rightarrow> column_buffer list \<Rightarrow> flush_result \<Rightarrow> bool" where
  "chunk_layout vb cols res \<longleftrightarrow>
     pgcolumnar_chunk_validity_bytes (Some (fres_desc res)) vb \<le> length (fres_chunk res) \<and>
     length (fres_chunk res) - pgcolumnar_chunk_validity_bytes (Some (fres_desc res)) vb < 2 ^ 32 \<and>
     desc_describes (fres_desc res) cols"

lemma vec_decodes_describes:
  assumes "list_all2 (vec_decodes E att tbl) groups ps" "length groups < 2 ^ 32" "length table < 2 ^ 32"
  shows "desc_describes (desc_of flags ps table) groups"
  unfolding desc_describes_def
  by (intro exI[of _ flags] exI[of _ ps] exI[of _ table])
     (use assms in \<open>auto simp: list_all2_lengthD[symmetric] vec_decodes_def elim: list.rel_mono_strong\<close>)

lemma region_length:
  assumes "PgColumnarCompressValueStream K raw ty lv = (cdata, used, l)"
  shows "length cdata \<le> length raw"
  using assms
  by (auto simp: PgColumnarCompressValueStream_def try_pglz_def try_lz4_def try_zstd_def Let_def
      split: if_splits option.splits)

lemma flush_raw_unused:
  assumes "flush_vectors C att tbl groups flags = Inr R" "\<not> cfg_post_codec_choice C"
  shows "fr_raw R = []"
proof -
  have "fold (\<lambda>g r. res_bind r (flush_vector C att tbl g)) groups (Inr R0) = Inr R1 \<Longrightarrow> fr_raw R0 = [] \<Longrightarrow> fr_raw R1 = []" for R0 R1
  proof (induction groups arbitrary: R0)
    case (Cons g gs)
    have err: "fold (\<lambda>g r. res_bind r (flush_vector C att tbl g)) gs (Inl e) = Inl e" for e
      by (induction gs) simp_all
    obtain R2 where "flush_vector C att tbl g R0 = Inr R2"
      using Cons.prems(1) err by (cases "flush_vector C att tbl g R0") simp_all
    moreover from this have "fr_raw R2 = []"
      using Cons.prems(2) assms(2) by (auto simp: flush_vector_def res_bind_Inr)
    ultimately show ?case using Cons by simp
  qed simp
  then show ?thesis using assms(1) by (auto simp: flush_vectors_def res_bind_Inr Let_def)
qed

lemma flush_codec_length:
  assumes "flush_codec C R = (data, codec, desc)"
  shows "length data \<le> max (length (fr_encoded R)) (length (fr_raw R))"
proof -
  let ?comp = "\<lambda>r. PgColumnarCompressValueStream (cfg_lib C) r (cfg_compression C) (cfg_level C)"
  obtain cdata used lv where c: "?comp (fr_encoded R) = (cdata, used, lv)" by (metis prod_cases3)
  obtain rdata rused rlv where r: "?comp (fr_raw R) = (rdata, rused, rlv)" by (metis prod_cases3)
  show ?thesis
    using assms region_length[OF c] region_length[OF r] unfolding flush_codec_def c r Let_def prod.case
    by (auto split: if_splits)
qed

lemma flush_one_column_decodes:
  assumes vecs: "\<forall>g \<in> set groups. vec_ok (cfg_env C) att g" and att: "attr_ok att"
    and K: "codec_lib_ok (cfg_lib C)" and n: "length groups < 2 ^ 32"
    and total: "length (concat (map valueStream groups)) < 2 ^ 32"
    and rows: "length (concat (map existsStream groups)) = rowCount" "rowCount \<le> 8 * vb"
    and zones: "flush_zone_rows (env_pg (cfg_env C)) att def rowCount groups = Inr zs"
  obtains res memo' where "flush_one_column C att False def groups rowCount vb memo = Inr (Some res, memo')"
    "readable_chunk att (fres_desc res) \<longrightarrow> pgcolumnar_native_decode_chunk (cfg_env C) (cfg_lib C) att
       (drop (pgcolumnar_chunk_validity_bytes (Some (fres_desc res)) vb) (fres_chunk res))
       (fres_desc res) (fres_codec res) skp = Inr (decoded_vectors skp 0 groups)"
    "\<forall>i < rowCount. row_present (fres_desc res) (fres_chunk res) i \<longleftrightarrow> concat (map existsStream groups) ! i"
    "fres_zoneRows res = zs" "fres_bloom res = flush_bloom (cfg_hll C) def groups" "chunk_layout vb groups res"
proof -
  obtain validity flags where v: "flush_validity groups rowCount vb = (validity, flags)" by fastforce
  obtain tbl memo' where t: "flush_fsst_table C att groups memo = Inr (tbl, memo')" "shared_table_ok tbl"
    using flush_fsst_table_ok by blast
  obtain R ps qs table where R: "flush_vectors C att tbl groups flags = Inr R"
      "tbl = (if table = [] then None else Some table)" "length table < 2 ^ 32"
      "list_all2 (vec_decodes (cfg_env C) att tbl) groups ps"
      "fr_encoded R = concat (map snd ps)" "fr_desc R = desc_of flags ps table"
      "cfg_post_codec_choice C \<longrightarrow> list_all2 (vec_decodes (cfg_env C) att None) groups qs \<and>
       fr_raw R = concat (map snd qs) \<and> fr_rawDesc R = desc_of flags qs []"
    by (rule flush_vectors_ok[OF vecs att t(2), of flags]) (rule that)
  obtain data codec desc where fc: "flush_codec C R = (data, codec, desc)" by (metis prod_cases3)
  let ?res = "\<lparr>fres_chunk = validity @ data, fres_desc = desc, fres_codec = codec,
      fres_zoneRows = zs, fres_bloom = flush_bloom (cfg_hll C) def groups\<rparr>"
  have flush: "flush_one_column C att False def groups rowCount vb memo = Inr (Some ?res, memo')"
    using t(1) R(1) v fc zones by (simp add: flush_one_column_def)
  have D: "\<exists>xs tb. desc = desc_of flags xs tb \<and> length xs = length groups \<and> desc_describes desc groups \<and>
      (readable_chunk att desc \<longrightarrow> pgcolumnar_native_decode_chunk (cfg_env C) (cfg_lib C) att data desc codec skp =
        Inr (decoded_vectors skp 0 groups))"
    using flush_codec_region[OF K fc]
  proof (elim disjE conjE)
    assume "desc = fr_desc R" "region_of (cfg_lib C) data codec (fr_encoded R)"
    then show ?thesis
      using native_decode_flushed[OF R(4) n total R(2,3), where codec = codec and vals = data] R(4-6)
        vec_decodes_describes[OF R(4) n R(3)]
      by (intro exI[of _ ps] exI[of _ table]) (auto simp: region_of_def dest: list_all2_lengthD)
  next
    assume pc: "cfg_post_codec_choice C" and "desc = fr_rawDesc R" "region_of (cfg_lib C) data codec (fr_raw R)"
    then show ?thesis
      using native_decode_flushed[of "cfg_env C" att None groups qs "[]" codec data] R(7)[rule_format, OF pc] n total
        vec_decodes_describes[of "cfg_env C" att None groups qs "[]"]
      by (intro exI[of _ qs] exI[of _ "[]"]) (auto simp: region_of_def dest: list_all2_lengthD)
  qed
  then obtain xs tb where xs: "desc = desc_of flags xs tb" "length xs = length groups" "desc_describes desc groups" by blast
  have om: "PgColumnarEncdescOmitsValidity (Some desc) \<longleftrightarrow> flags AND 1 \<noteq> 0"
    using header_reads(3)[of "length xs" flags] n by (simp add: xs desc_of_def)
  have V: "drop (pgcolumnar_chunk_validity_bytes (Some desc) vb) (validity @ data) = data"
    "\<forall>i < rowCount. row_present desc (validity @ data) i \<longleftrightarrow> concat (map existsStream groups) ! i"
    using flush_validity_cases[OF rows v] rows(2)
    by (auto simp: pgcolumnar_chunk_validity_bytes_def om row_present_def bufbit_append)
  have k: "pgcolumnar_chunk_validity_bytes (Some desc) vb = length validity"
    using flush_validity_cases[OF rows v] by (auto simp: pgcolumnar_chunk_validity_bytes_def om)
  have "length (fr_encoded R) < 2 ^ 32" using sum_encLen(2)[OF R(4)] R(5) total by simp
  moreover have "length (fr_raw R) < 2 ^ 32"
  proof (cases "cfg_post_codec_choice C")
    case True
    then show ?thesis using R(7) sum_encLen(2)[of "cfg_env C" att None groups qs] total by simp
  next
    case False
    then have "fr_raw R = []" using flush_raw_unused[OF R(1)] by simp
    then show ?thesis by simp
  qed
  ultimately have "length data < 2 ^ 32" using flush_codec_length[OF fc] by linarith
  then have "chunk_layout vb groups ?res" using k xs(3) by (simp add: chunk_layout_def)
  with D V show thesis by (intro that[OF flush]) auto
qed

subsection \<open>From rows to chunks\<close>

definition column_sizes_ok :: "flush_cfg \<Rightarrow> attr \<Rightarrow> datum option list list \<Rightarrow> bool" where
  "column_sizes_ok C att rowss \<longleftrightarrow> bitutils_ok (env_bits (cfg_env C)) \<and> length rowss < 2 ^ 32 \<and>
     (\<forall>rows \<in> set rowss. alloc_ok (length rows)) \<and>
     length (concat (map (value_bytes (env_pg (cfg_env C)) att)
       (present_values (env_pg (cfg_env C)) att (concat rowss)))) < 2 ^ 32"

lemma buffer_value_stream:
  assumes "pg_datum_ok V ok" "rows_ok V ok att D rows" "buffer_of V att def rows col"
  shows "valueStream col = concat (map (value_bytes V att) (present_values V att rows))"
    and "valueCount col = length (present_values V att rows)"
  using assms append_values_bytes[OF assms(1), of "present_values V att rows" att]
  by (auto simp: buffer_of_def column_holds_def rows_ok_def)

lemma alloc_ok_mono: "alloc_ok n \<Longrightarrow> m \<le> n \<Longrightarrow> alloc_ok m"
  by (simp add: alloc_ok_def)

lemma buffer_vec_ok:
  assumes V: "pg_datum_ok (env_pg E) ok" and rows: "rows_ok (env_pg E) ok att D rows"
    and col: "buffer_of (env_pg E) att def rows col"
    and "bitutils_ok (env_bits E)" "alloc_ok (length rows)" "length (valueStream col) < 2 ^ 32"
  shows "vec_ok E att col"
proof -
  let ?vals = "present_values (env_pg E) att rows"
  note st = buffer_value_stream[OF V rows col]
  have "alloc_ok (length ?vals)" by (rule alloc_ok_mono[OF assms(5)]) (simp add: present_values_def)
  moreover have "tiles (value_size (env_pg E) (attlen att)) (length ?vals) (valueStream col)"
    using value_bytes_tile[OF V] rows by (simp add: st rows_ok_def)
  moreover have "alloc_ok n \<Longrightarrow> n < 2 ^ 32" for n by (simp add: alloc_ok_def MaxAllocSize_def)
  ultimately show ?thesis using assms(4,6) st by (auto simp: vec_ok_def chunk_ok_def)
qed

lemma concat_map_concat: "concat (map (\<lambda>x. concat (f x)) xs) = concat (concat (map f xs))"
  by (induction xs) simp_all

lemma buffers_stream:
  assumes "pg_datum_ok V ok" "\<forall>rows \<in> set rowss. rows_ok V ok att D rows" "list_all2 (buffer_of V att def) rowss cols"
  shows "concat (map valueStream cols) = concat (map (value_bytes V att) (present_values V att (concat rowss)))"
    and "concat (map existsStream cols) = map (\<lambda>v. v \<noteq> None) (concat rowss)"
    and "bloomable def \<Longrightarrow> concat (map hashBuf cols) = map (valueHash def) (present_values V att (concat rowss))"
proof -
  have "map valueStream cols = map (\<lambda>rows. concat (map (value_bytes V att) (present_values V att rows))) rowss \<and>
      map existsStream cols = map (map (\<lambda>v. v \<noteq> None)) rowss \<and>
      (bloomable def \<longrightarrow> map hashBuf cols = map (\<lambda>rows. map (valueHash def) (present_values V att rows)) rowss)"
    using assms(3,2)
  proof (induction rule: list_all2_induct)
    case (Cons rows rowss col cols)
    have rows: "rows_ok V ok att D rows" using Cons.prems by simp
    have "existsStream col = map (\<lambda>v. v \<noteq> None) rows"
        "bloomable def \<longrightarrow> hashBuf col = map (valueHash def) (present_values V att rows)"
      using Cons.hyps(1) by (simp_all add: buffer_of_def column_holds_def)
    with buffer_value_stream(1)[OF assms(1) rows Cons.hyps(1)] Cons.IH Cons.prems show ?case by simp
  qed simp
  then show "concat (map valueStream cols) = concat (map (value_bytes V att) (present_values V att (concat rowss)))"
      "concat (map existsStream cols) = map (\<lambda>v. v \<noteq> None) (concat rowss)"
      "bloomable def \<Longrightarrow> concat (map hashBuf cols) = map (valueHash def) (present_values V att (concat rowss))"
    by (simp_all only: present_values_concat map_concat) (simp_all add: map_concat comp_def concat_map_concat)
qed

text \<open>A flushed column, from the rows of its chunk groups to its bytes and skip metadata.\<close>

definition reads_back ::
  "pg_datum \<Rightarrow> attr \<Rightarrow> (nat \<Rightarrow> bool) \<Rightarrow> datum option list list \<Rightarrow> byte list option list \<Rightarrow> bool" where
  "reads_back V att skp rowss streams \<longleftrightarrow> length streams = length rowss \<and>
     (\<forall>i < length rowss. \<not> skp i \<longrightarrow>
        (\<exists>bs. streams ! i = Some bs \<and>
           read_values V att (length (present_values V att (rowss ! i))) bs =
             Inr (present_values V att (rowss ! i), [])))"

lemma decoded_vectors_nth:
  "length (decoded_vectors skp v gs) = length gs"
  "i < length gs \<Longrightarrow> decoded_vectors skp v gs ! i =
     (if valueStream (gs ! i) \<noteq> [] \<and> skp (v + i) then None else Some (valueStream (gs ! i)))"
proof -
  show "length (decoded_vectors skp v gs) = length gs" by (induction gs arbitrary: v) simp_all
  show "i < length gs \<Longrightarrow> decoded_vectors skp v gs ! i =
     (if valueStream (gs ! i) \<noteq> [] \<and> skp (v + i) then None else Some (valueStream (gs ! i)))"
  proof (induction gs arbitrary: v i)
    case (Cons g gs)
    then show ?case by (cases i) simp_all
  qed simp
qed

lemma decoded_vectors_read:
  assumes V: "pg_datum_ok V ok" and st: "\<forall>v \<in> D. stored_datum V att v = v"
    and rows: "\<forall>rows \<in> set rowss. rows_ok V ok att D rows" and cols: "list_all2 (buffer_of V att def) rowss cols"
  shows "reads_back V att skp rowss (decoded_vectors skp 0 cols)"
  unfolding reads_back_def
proof (intro conjI allI impI)
  show "length (decoded_vectors skp 0 cols) = length rowss"
    using list_all2_lengthD[OF cols] by (simp add: decoded_vectors_nth)
  fix i assume i: "i < length rowss" and sk: "\<not> skp i"
  let ?vals = "present_values V att (rowss ! i)"
  have r: "rows_ok V ok att D (rowss ! i)" and b: "buffer_of V att def (rowss ! i) (cols ! i)"
    using rows cols i by (simp_all add: list_all2_conv_all_nth)
  have vals: "\<forall>d \<in> set ?vals. datum_fits ok att d" "map (stored_datum V att) ?vals = ?vals"
    using r st by (auto simp: rows_ok_def intro: map_idI)
  have "decoded_vectors skp 0 cols ! i = Some (valueStream (cols ! i))"
    using sk i list_all2_lengthD[OF cols] by (simp add: decoded_vectors_nth)
  then show "\<exists>bs. decoded_vectors skp 0 cols ! i = Some bs \<and> read_values V att (length ?vals) bs = Inr (?vals, [])"
    using read_values_bytes[OF V vals(1), of "[]"] vals(2) by (simp add: buffer_value_stream[OF V r b])
qed

lemma flush_rows:
  assumes st: "store_ok V ok att def D B" and def: "def_ok D B def" and V: "env_pg (cfg_env C) = V"
    and rows: "\<forall>rows \<in> set rowss. rows_ok V ok att D rows" and cols: "list_all2 (buffer_of V att def) rowss cols"
    and sizes: "column_sizes_ok C att rowss" and att: "attr_ok att" and K: "codec_lib_ok (cfg_lib C)"
    and n: "rowCount = length (concat rowss)" "rowCount \<le> 8 * vb"
  obtains res memo' zs z where "flush_one_column C att False def cols rowCount vb memo = Inr (Some res, memo')"
    "readable_chunk att (fres_desc res) \<longrightarrow> (\<exists>streams. pgcolumnar_native_decode_chunk (cfg_env C) (cfg_lib C) att
       (drop (pgcolumnar_chunk_validity_bytes (Some (fres_desc res)) vb) (fres_chunk res))
       (fres_desc res) (fres_codec res) skp = Inr streams \<and> reads_back V att skp rowss streams)"
    "\<forall>i < rowCount. row_present (fres_desc res) (fres_chunk res) i \<longleftrightarrow> concat rowss ! i \<noteq> None"
    "fres_zoneRows res = zs @ [z]" "length zs = length rowss"
    "\<forall>i < length rowss. zone_describes V att def D B (rowss ! i) (int i) (zs ! i)"
    "zone_describes V att def D B (concat rowss) (- 1) z"
    "fres_bloom res = flush_bloom (cfg_hll C) def cols" "chunk_layout vb cols res"
    "readable_chunk att (fres_desc res) \<longrightarrow> pgcolumnar_native_decode_chunk (cfg_env C) (cfg_lib C) att
       (drop (pgcolumnar_chunk_validity_bytes (Some (fres_desc res)) vb) (fres_chunk res))
       (fres_desc res) (fres_codec res) skp = Inr (decoded_vectors skp 0 cols)"
proof -
  have pg: "pg_datum_ok V ok" "\<forall>v \<in> D. stored_datum V att v = v" using st by (auto simp: store_ok_def)
  have sz: "bitutils_ok (env_bits (cfg_env C))" "length rowss < 2 ^ 32" "\<forall>rows \<in> set rowss. alloc_ok (length rows)"
      "length (concat (map valueStream cols)) < 2 ^ 32"
    using sizes buffers_stream(1)[OF pg(1) rows cols] V by (simp_all add: column_sizes_ok_def)
  have small: "length (valueStream g) < 2 ^ 32" if "g \<in> set cols" for g
    using sz(4) that by (induction cols) (auto simp del: length_concat)
  have vecs: "\<forall>g \<in> set cols. vec_ok (cfg_env C) att g"
  proof
    fix g assume g: "g \<in> set cols"
    then obtain i where i: "i < length rowss" "g = cols ! i" using list_all2_lengthD[OF cols] by (metis in_set_conv_nth)
    have "rows_ok V ok att D (rowss ! i)" "buffer_of V att def (rowss ! i) g" "alloc_ok (length (rowss ! i))"
      using rows cols sz(3) i by (simp_all add: list_all2_conv_all_nth)
    then show "vec_ok (cfg_env C) att g" using buffer_vec_ok[of "cfg_env C"] pg(1) V sz(1) small[OF g] by blast
  qed
  have D: "\<forall>rows \<in> set rowss. set (present_values V att rows) \<subseteq> D" using rows by (auto simp: rows_ok_def)
  obtain zs z where z: "flush_zone_rows V att def rowCount cols = Inr (zs @ [z])" "length zs = length rowss"
      "\<forall>i < length rowss. zone_describes V att def D B (rowss ! i) (int i) (zs ! i)"
      "zone_describes V att def D B (concat rowss) (- 1) z"
    using flush_zone_rows_describe[OF st def cols D] n by blast
  have ex: "concat (map existsStream cols) = map (\<lambda>v. v \<noteq> None) (concat rowss)"
    by (rule buffers_stream(2)[OF pg(1) rows cols])
  have len: "length cols < 2 ^ 32" "length (concat (map existsStream cols)) = rowCount"
    using sz(2) cols n ex by (auto dest: list_all2_lengthD)
  obtain res memo' where r: "flush_one_column C att False def cols rowCount vb memo = Inr (Some res, memo')"
      "readable_chunk att (fres_desc res) \<longrightarrow> pgcolumnar_native_decode_chunk (cfg_env C) (cfg_lib C) att
       (drop (pgcolumnar_chunk_validity_bytes (Some (fres_desc res)) vb) (fres_chunk res))
       (fres_desc res) (fres_codec res) skp = Inr (decoded_vectors skp 0 cols)"
      "\<forall>i < rowCount. row_present (fres_desc res) (fres_chunk res) i \<longleftrightarrow> concat (map existsStream cols) ! i"
      "fres_zoneRows res = zs @ [z]" "fres_bloom res = flush_bloom (cfg_hll C) def cols" "chunk_layout vb cols res"
    by (rule flush_one_column_decodes[OF vecs att K len(1) sz(4) len(2) n(2), where def = def and zs = "zs @ [z]" and skp = skp and memo = memo])
      (use z(1) V in simp, rule that)
  have "\<forall>i < rowCount. row_present (fres_desc res) (fres_chunk res) i \<longleftrightarrow> concat rowss ! i \<noteq> None"
    using r(3) n(1) by (simp add: ex)
  then show thesis using that r z decoded_vectors_read[OF pg rows cols, of skp] by blast
qed

text \<open>
  What a flush of a column relies on: the values and bounds the type admits, the catalog
  entries, the sizes of the 32-bit fields, and compression libraries that invert themselves.
  The width of the column is any the catalog allows.
\<close>

definition column_ready ::
  "flush_cfg \<Rightarrow> (u64 \<Rightarrow> nat \<Rightarrow> bool) \<Rightarrow> attr \<Rightarrow> column_def \<Rightarrow> datum set \<Rightarrow> datum set \<Rightarrow> datum option list list \<Rightarrow> bool" where
  "column_ready C ok att def D B rowss \<longleftrightarrow>
     store_ok (env_pg (cfg_env C)) ok att def D B \<and> def_ok D B def \<and>
     (\<forall>rows \<in> set rowss. rows_ok (env_pg (cfg_env C)) ok att D rows) \<and>
     column_sizes_ok C att rowss \<and> attr_ok att \<and> codec_lib_ok (cfg_lib C)"

definition column_buffers ::
  "pg_datum \<Rightarrow> attr \<Rightarrow> column_def \<Rightarrow> datum option list list \<Rightarrow> column_buffer list \<Rightarrow> bool" where
  "column_buffers V att def rowss cols \<longleftrightarrow>
     list_all2 (\<lambda>rows col. write_column_values V att def rows empty_column_buffer = Inr col) rowss cols"

lemma column_buffers_exist:
  assumes "column_ready C ok att def D B rowss"
  obtains cols where "column_buffers (env_pg (cfg_env C)) att def rowss cols"
proof -
  let ?V = "env_pg (cfg_env C)"
  have "\<forall>rows \<in> set rowss. \<exists>col. write_column_values ?V att def rows empty_column_buffer = Inr col"
    using assms write_column_values_buffer unfolding column_ready_def store_ok_def by blast
  then have "\<exists>cols. list_all2 (\<lambda>rows col. write_column_values ?V att def rows empty_column_buffer = Inr col) rowss cols"
    by (induction rowss) (auto intro: list_all2_Cons[THEN iffD2])
  then show thesis using that by (auto simp: column_buffers_def)
qed

lemma column_buffers_of:
  assumes "column_ready C ok att def D B rowss" "column_buffers (env_pg (cfg_env C)) att def rowss cols"
  shows "list_all2 (buffer_of (env_pg (cfg_env C)) att def) rowss cols"
  using assms(2) unfolding column_buffers_def
proof (rule list.rel_mono_strong)
  fix rows col assume "rows \<in> set rowss" "write_column_values (env_pg (cfg_env C)) att def rows empty_column_buffer = Inr col"
  then show "buffer_of (env_pg (cfg_env C)) att def rows col"
    using assms(1) write_column_values_buffer[of "env_pg (cfg_env C)" ok D B def att rows]
    by (auto simp: column_ready_def store_ok_def)
qed

lemma column_flush:
  assumes "column_ready C ok att def D B rowss" "column_buffers (env_pg (cfg_env C)) att def rowss cols"
    and "rowCount = length (concat rowss)" "rowCount \<le> 8 * vb"
  obtains res memo' zs z where "flush_one_column C att False def cols rowCount vb memo = Inr (Some res, memo')"
    "readable_chunk att (fres_desc res) \<longrightarrow> (\<exists>streams. pgcolumnar_native_decode_chunk (cfg_env C) (cfg_lib C) att
       (drop (pgcolumnar_chunk_validity_bytes (Some (fres_desc res)) vb) (fres_chunk res))
       (fres_desc res) (fres_codec res) skp = Inr streams \<and> reads_back (env_pg (cfg_env C)) att skp rowss streams)"
    "\<forall>i < rowCount. row_present (fres_desc res) (fres_chunk res) i \<longleftrightarrow> concat rowss ! i \<noteq> None"
    "fres_zoneRows res = zs @ [z]" "length zs = length rowss"
    "\<forall>i < length rowss. zone_describes (env_pg (cfg_env C)) att def D B (rowss ! i) (int i) (zs ! i)"
    "zone_describes (env_pg (cfg_env C)) att def D B (concat rowss) (- 1) z"
    "fres_bloom res = flush_bloom (cfg_hll C) def cols" "chunk_layout vb cols res"
    "readable_chunk att (fres_desc res) \<longrightarrow> pgcolumnar_native_decode_chunk (cfg_env C) (cfg_lib C) att
       (drop (pgcolumnar_chunk_validity_bytes (Some (fres_desc res)) vb) (fres_chunk res))
       (fres_desc res) (fres_codec res) skp = Inr (decoded_vectors skp 0 cols)"
proof -
  have r: "store_ok (env_pg (cfg_env C)) ok att def D B" "def_ok D B def"
      "\<forall>rows \<in> set rowss. rows_ok (env_pg (cfg_env C)) ok att D rows"
      "column_sizes_ok C att rowss" "attr_ok att" "codec_lib_ok (cfg_lib C)"
    using assms(1) by (simp_all add: column_ready_def)
  show thesis
    by (rule flush_rows[OF r(1,2) HOL.refl r(3) column_buffers_of[OF assms(1,2)] r(4-6) assms(3,4)]) (rule that)
qed

lemma flush_bloom_admits:
  assumes ready: "column_ready C ok att def D B rowss" and cols: "column_buffers (env_pg (cfg_env C)) att def rowss cols"
    and "flush_bloom hll def cols = Some f" "v \<in> set (present_values (env_pg (cfg_env C)) att (concat rowss))"
  shows "PgColumnarBloomProbe (Some f) (valueHash def v)"
proof -
  have r: "pg_datum_ok (env_pg (cfg_env C)) ok" "\<forall>rows \<in> set rowss. rows_ok (env_pg (cfg_env C)) ok att D rows"
    using ready by (simp_all add: column_ready_def store_ok_def)
  have b: "bloomable def" "PgColumnarBloomBuild hll (concat (map hashBuf cols)) = Some f"
    using assms(3) by (auto simp: flush_bloom_def Let_def split: if_splits)
  have "valueHash def v \<in> set (concat (map hashBuf cols))"
    using assms(4) buffers_stream(3)[OF r column_buffers_of[OF ready cols] b(1)] by simp
  then show ?thesis using bloom_probe_built[OF b(2)] by blast
qed

subsection \<open>Properties\<close>

definition plain_cfg :: flush_cfg where
  "plain_cfg = \<lparr>cfg_env = plain_env, cfg_lib = null_codec_lib, cfg_effort_fast = False,
     cfg_compression = COMP_ZSTD, cfg_level = 3, cfg_min_gain = 10, cfg_verdict_reuse = 8,
     cfg_post_codec_choice = True, cfg_hll = (\<lambda>_. 1)\<rparr>"

text \<open>An eight-byte integer column with its btree comparison and a hash.\<close>

definition int8_types :: "nat \<Rightarrow> type_entry" where
  "int8_types typid = \<lparr>te_cmp = Some (\<lambda>a b. three_way (DatumGetInt64 a) (DatumGetInt64 b)),
     te_hash = Some (\<lambda>d. ucast (datum_word d)), te_range = None\<rparr>"

definition int8_def :: column_def where
  "int8_def = build_column_def int8_types int8_att False True True"

lemma int8_column_ready:
  assumes "length rowss < 2 ^ 8" "\<forall>rows \<in> set rowss. length rows < 2 ^ 8 \<and> set rows \<subseteq> insert None (range (Some \<circ> ByVal))"
  shows "column_ready plain_cfg le_byval_ok int8_att int8_def (range ByVal) {} rowss"
proof -
  have env: "env_pg (cfg_env plain_cfg) = le_pg_datum" "cfg_lib plain_cfg = null_codec_lib"
      "env_bits (cfg_env plain_cfg) = loop_bitutils"
    by (simp_all add: plain_cfg_def plain_env_def)
  have def: "cmpFn int8_def = (\<lambda>a b. three_way (DatumGetInt64 a) (DatumGetInt64 b))" "fastCmp int8_def = FASTCMP_I64"
      "isRange int8_def = False" "orderable int8_def"
    by (simp_all add: int8_def_def build_column_def_def int8_types_def int8_att_def fast_cmp_of_def zero_def_def
        INT2OID_def INT4OID_def INT8OID_def DATEOID_def)
  have "total_cmp (range ByVal) (cmpFn int8_def)"
    unfolding def using int64_cmp.flip int64_cmp.trans by unfold_locales blast+
  then have d: "def_ok (range ByVal) {} int8_def" by (simp add: def_ok_def def pgcolumnar_cmp_value_def)
  have fits: "datum_fits le_byval_ok int8_att (ByVal v)" for v
    using take_bit_word_eq_self[of 64 v] by (simp add: datum_fits_def int8_att_def le_byval_ok_def)
  have s: "store_ok le_pg_datum le_byval_ok int8_att int8_def (range ByVal) {}"
    using le_pg_datum_ok fits def(3) by (auto simp: store_ok_def stored_datum_def)
  have vals: "set (present_values le_pg_datum int8_att rows) \<subseteq> range ByVal" "length (present_values le_pg_datum int8_att rows) \<le> length rows"
    if "set rows \<subseteq> insert None (range (Some \<circ> ByVal))" for rows
    using that by (auto simp: present_values_def flat_datum_def int8_att_def)
  then have r: "\<forall>rows \<in> set rowss. rows_ok le_pg_datum le_byval_ok int8_att (range ByVal) rows"
    using assms(2) fits unfolding rows_ok_def by blast
  have b: "\<forall>v \<in> set ds. length (value_bytes le_pg_datum int8_att v) = 8" if "set ds \<subseteq> range ByVal" for ds
    using that by (auto simp: value_bytes_def le_pg_datum_def int8_att_def)
  have "set (concat rowss) \<subseteq> insert None (range (Some \<circ> ByVal))" using assms(2) by auto
  note cv = vals[OF this]
  have "length (concat (map (value_bytes le_pg_datum int8_att) ds)) = length ds * 8" if "set ds \<subseteq> range ByVal" for ds
    using b[OF that] by (intro length_concat_const) auto
  moreover have "length (concat rowss) \<le> length rowss * 2 ^ 8"
    using assms(2) by (induction rowss) (auto simp: algebra_simps intro: less_imp_le add_mono)
  moreover have "length rowss * 2 ^ 8 * 8 < 2 ^ 32" using assms(1) by simp
  ultimately have "length (concat (map (value_bytes le_pg_datum int8_att)
      (present_values le_pg_datum int8_att (concat rowss)))) < 2 ^ 32"
    using cv by (simp del: length_concat)
  then have "column_sizes_ok plain_cfg int8_att rowss"
    using assms loop_bitutils_ok by (auto simp: column_sizes_ok_def env alloc_ok_def MaxAllocSize_def)
  with s d r show ?thesis using null_codec_lib_ok
    by (simp add: column_ready_def env attr_ok_def int8_att_def FLOAT4OID_def FLOAT8OID_def)
qed

text \<open>
  C7: A column reads back as it was written. Take any rows of a column of width 1, 2, 4, 8 or
  of variable length, in any chunk groups: writing each row into its group's buffer
  succeeds, and so does flushing the buffers, under every compression setting and cached
  verdict. The reader splits off the validity bitmap by the descriptor's flag, accepts the
  chunk, and gets for every vector it does not skip a stream from which it reads exactly
  the values written, whether the encoded or the raw region was stored; and a row is
  present in the chunk's validity exactly when it was not null.
\<close>

theorem column_chunk_roundtrip:
  assumes "column_ready C ok att def D B rowss" and "fixed_width att \<or> attlen att < 0"
    and "rowCount = length (concat rowss)" and "rowCount \<le> 8 * vb"
  shows "\<exists>cols res memo' streams. column_buffers (env_pg (cfg_env C)) att def rowss cols \<and>
    flush_one_column C att False def cols rowCount vb memo = Inr (Some res, memo') \<and>
    pgcolumnar_native_decode_chunk (cfg_env C) (cfg_lib C) att
      (drop (pgcolumnar_chunk_validity_bytes (Some (fres_desc res)) vb) (fres_chunk res))
      (fres_desc res) (fres_codec res) skp = Inr streams \<and>
    reads_back (env_pg (cfg_env C)) att skp rowss streams \<and>
    (\<forall>i < rowCount. row_present (fres_desc res) (fres_chunk res) i \<longleftrightarrow> concat rowss ! i \<noteq> None)"
proof -
  obtain cols where cols: "column_buffers (env_pg (cfg_env C)) att def rowss cols"
    by (rule column_buffers_exist[OF assms(1)])
  obtain res memo' streams where "flush_one_column C att False def cols rowCount vb memo = Inr (Some res, memo')"
      "pgcolumnar_native_decode_chunk (cfg_env C) (cfg_lib C) att
        (drop (pgcolumnar_chunk_validity_bytes (Some (fres_desc res)) vb) (fres_chunk res))
        (fres_desc res) (fres_codec res) skp = Inr streams" "reads_back (env_pg (cfg_env C)) att skp rowss streams"
      "\<forall>i < rowCount. row_present (fres_desc res) (fres_chunk res) i \<longleftrightarrow> concat rowss ! i \<noteq> None"
    by (rule column_flush[OF assms(1) cols assms(3,4), where memo = memo and skp = skp])
      (use assms(2) in \<open>auto simp: readable_chunk_def\<close>)
  with cols show ?thesis by blast
qed

theorem column_chunk_roundtrip_witness:
  "\<exists>cols res memo' streams.
    column_buffers le_pg_datum int8_att int8_def [[Some (ByVal 5), None, Some (ByVal 7)], [Some (ByVal 6)]] cols \<and>
    flush_one_column plain_cfg int8_att False int8_def cols 4 1 \<lparr>fsst_verdict = 0, fsst_verdict_age = 0\<rparr> =
      Inr (Some res, memo') \<and>
    row_present (fres_desc res) (fres_chunk res) 2 \<and> \<not> row_present (fres_desc res) (fres_chunk res) 1 \<and>
    pgcolumnar_native_decode_chunk plain_env null_codec_lib int8_att
      (drop (pgcolumnar_chunk_validity_bytes (Some (fres_desc res)) 1) (fres_chunk res))
      (fres_desc res) (fres_codec res) (\<lambda>_. False) = Inr streams \<and>
    (\<exists>bs. streams ! 0 = Some bs \<and> read_values le_pg_datum int8_att 2 bs = Inr ([ByVal 5, ByVal 7], []))"
proof -
  let ?rowss = "[[Some (ByVal 5), None, Some (ByVal 7)], [Some (ByVal 6)]]"
  have ready: "column_ready plain_cfg le_byval_ok int8_att int8_def (range ByVal) {} ?rowss"
    by (rule int8_column_ready) auto
  have env: "env_pg plain_env = le_pg_datum" "cfg_env plain_cfg = plain_env" "cfg_lib plain_cfg = null_codec_lib"
    by (simp_all add: plain_cfg_def plain_env_def)
  have pv: "present_values le_pg_datum int8_att (?rowss ! 0) = [ByVal 5, ByVal 7]"
    by (simp add: present_values_def flat_datum_def int8_att_def)
  have w: "fixed_width int8_att \<or> attlen int8_att < 0" by (simp add: fixed_width_def int8_att_def)
  from column_chunk_roundtrip[OF ready w, of 4 1 "\<lparr>fsst_verdict = 0, fsst_verdict_age = 0\<rparr>" "\<lambda>_. False"]
  obtain cols res memo' streams where r: "column_buffers le_pg_datum int8_att int8_def ?rowss cols"
      "flush_one_column plain_cfg int8_att False int8_def cols 4 1 \<lparr>fsst_verdict = 0, fsst_verdict_age = 0\<rparr> = Inr (Some res, memo')"
      "pgcolumnar_native_decode_chunk plain_env null_codec_lib int8_att
        (drop (pgcolumnar_chunk_validity_bytes (Some (fres_desc res)) 1) (fres_chunk res))
        (fres_desc res) (fres_codec res) (\<lambda>_. False) = Inr streams"
      "reads_back le_pg_datum int8_att (\<lambda>_. False) ?rowss streams"
      "\<forall>i < 4. row_present (fres_desc res) (fres_chunk res) i \<longleftrightarrow> concat ?rowss ! i \<noteq> None"
    unfolding env by auto
  have "\<exists>bs. streams ! 0 = Some bs \<and> read_values le_pg_datum int8_att 2 bs = Inr ([ByVal 5, ByVal 7], [])"
    using r(4) pv unfolding reads_back_def by (auto simp: numeral_2_eq_2)
  moreover have "row_present (fres_desc res) (fres_chunk res) 2" "\<not> row_present (fres_desc res) (fres_chunk res) 1"
    using r(5)[rule_format, of 2] r(5)[rule_format, of 1] by simp_all
  ultimately show ?thesis using r(1-3) by blast
qed

text \<open>
  C8: The skip metadata of a flush is exact. For a column of any width, fixed or variable,
  with values its type admits and fewer than \<open>2 ^ 32\<close> bytes of them, flushing the buffers its
  rows were written to succeeds. The flush records one zone-map row per chunk
  group and a last one for the chunk; each row counts the present and the null rows it
  stands for, its stored minimum and maximum decode to values that bracket every present
  value, its greatest upper bound lies at or above that of every nonempty range, and its
  integer sum is the exact sum over fewer than \<open>2 ^ 31\<close> rows. The bloom filter, when one is
  kept, admits the hash of every present value.
\<close>

theorem flush_skip_metadata:
  assumes "column_ready C ok att def D B rowss" and "column_buffers (env_pg (cfg_env C)) att def rowss cols"
    and "rowCount = length (concat rowss)" and "rowCount \<le> 8 * vb"
  shows "\<exists>res memo' zs z. flush_one_column C att False def cols rowCount vb memo = Inr (Some res, memo') \<and>
    fres_zoneRows res = zs @ [z] \<and> length zs = length rowss \<and>
    (\<forall>i < length rowss. zone_describes (env_pg (cfg_env C)) att def D B (rowss ! i) (int i) (zs ! i)) \<and>
    zone_describes (env_pg (cfg_env C)) att def D B (concat rowss) (- 1) z \<and>
    (fres_bloom res \<noteq> None \<longrightarrow> (\<forall>v \<in> set (present_values (env_pg (cfg_env C)) att (concat rowss)).
       PgColumnarBloomProbe (fres_bloom res) (valueHash def v)))"
proof -
  obtain res memo' zs z where f: "flush_one_column C att False def cols rowCount vb memo = Inr (Some res, memo')"
      "fres_zoneRows res = zs @ [z]" "length zs = length rowss"
      "\<forall>i < length rowss. zone_describes (env_pg (cfg_env C)) att def D B (rowss ! i) (int i) (zs ! i)"
      "zone_describes (env_pg (cfg_env C)) att def D B (concat rowss) (- 1) z"
      "fres_bloom res = flush_bloom (cfg_hll C) def cols"
    by (rule column_flush[OF assms, where memo = memo and skp = "\<lambda>_. False"]) blast
  have "\<forall>v \<in> set (present_values (env_pg (cfg_env C)) att (concat rowss)).
       PgColumnarBloomProbe (fres_bloom res) (valueHash def v)" if "fres_bloom res \<noteq> None"
    using that flush_bloom_admits[OF assms(1,2)] f(6) by auto
  with f(1-5) show ?thesis by blast
qed

theorem flush_skip_metadata_witness:
  "\<exists>cols res memo' zs z.
    column_buffers le_pg_datum int8_att int8_def [[Some (ByVal 5), None, Some (ByVal 7)], [Some (ByVal 6)]] cols \<and>
    flush_one_column plain_cfg int8_att False int8_def cols 4 1 \<lparr>fsst_verdict = 0, fsst_verdict_age = 0\<rparr> =
      Inr (Some res, memo') \<and>
    fres_zoneRows res = zs @ [z] \<and> length zs = 2 \<and> z_valueCount z = 3 \<and> z_nullCount (zs ! 0) = 1"
proof -
  let ?rowss = "[[Some (ByVal 5), None, Some (ByVal 7)], [Some (ByVal 6)]]"
  have ready: "column_ready plain_cfg le_byval_ok int8_att int8_def (range ByVal) {} ?rowss"
    by (rule int8_column_ready) auto
  have env: "env_pg (cfg_env plain_cfg) = le_pg_datum" by (simp add: plain_cfg_def plain_env_def)
  obtain cols where cols: "column_buffers (env_pg (cfg_env plain_cfg)) int8_att int8_def ?rowss cols"
    by (rule column_buffers_exist[OF ready])
  from flush_skip_metadata[OF ready cols, of 4 1 "\<lparr>fsst_verdict = 0, fsst_verdict_age = 0\<rparr>"]
  obtain res memo' zs z where
      "flush_one_column plain_cfg int8_att False int8_def cols 4 1 \<lparr>fsst_verdict = 0, fsst_verdict_age = 0\<rparr> = Inr (Some res, memo')"
      "fres_zoneRows res = zs @ [z]" "length zs = 2"
      "zone_describes le_pg_datum int8_att int8_def (range ByVal) {} (?rowss ! 0) 0 (zs ! 0)"
      "zone_describes le_pg_datum int8_att int8_def (range ByVal) {} (concat ?rowss) (- 1) z"
    by (auto simp: env)
  then show ?thesis using cols
    by (auto simp: zone_describes_def Let_def present_values_def flat_datum_def int8_att_def env)
qed

end
