(* ===== verification/Skip_Predicate.thy ===== *)
theory Skip_Predicate
  imports Column_Chunk "HOL-Library.Multiset"
begin

unbundle bit_operations_syntax

section \<open>Skip predicates and pruning\<close>

text \<open>
  How a scan decides what not to read (\<open>src/src/columnar_reader.c\<close>):
  \<open>pgcolumnar_make_predicates\<close> turns scan keys into skip predicates,
  \<open>native_zone_excludes\<close> and \<open>native_range_excludes\<close> ask a zone-map row whether any value it
  covers can satisfy one, \<open>pgcolumnar_native_group_can_match\<close> asks that of a whole row group,
  with the bloom filter for equality and a self-adjusting order of evaluation, and
  \<open>pgcolumnar_native_build_skipvec\<close> of every vector. The system catalog and the type cache are
  arguments. A group or a vector is skipped only if none of its rows can match.
\<close>

subsection \<open>Scan keys and predicates\<close>

record table_col =
  tc_att :: attr
  tc_dropped :: bool
  tc_collation :: nat

record scan_key =
  sk_flags :: u32
  sk_attno :: int
  sk_strategy :: nat
  sk_subtype :: nat
  sk_argument :: datum

definition SK_ISNULL :: u32 where "SK_ISNULL = 0x0001"
definition SK_ROW_HEADER :: u32 where "SK_ROW_HEADER = 0x0004"
definition SK_ROW_MEMBER :: u32 where "SK_ROW_MEMBER = 0x0008"
definition SK_ROW_END :: u32 where "SK_ROW_END = 0x0010"
definition SK_SEARCHARRAY :: u32 where "SK_SEARCHARRAY = 0x0020"
definition SK_SEARCHNULL :: u32 where "SK_SEARCHNULL = 0x0040"
definition SK_SEARCHNOTNULL :: u32 where "SK_SEARCHNOTNULL = 0x0080"
definition SK_ORDER_BY :: u32 where "SK_ORDER_BY = 0x0100"
definition PGC_SK_RANGE :: u32 where "PGC_SK_RANGE = 0x8000"

lemmas sk_consts = SK_ISNULL_def SK_ROW_HEADER_def SK_ROW_MEMBER_def SK_ROW_END_def SK_SEARCHARRAY_def
  SK_SEARCHNULL_def SK_SEARCHNOTNULL_def SK_ORDER_BY_def PGC_SK_RANGE_def

definition BTLess :: nat where "BTLess = 1"
definition BTLessEqual :: nat where "BTLessEqual = 2"
definition BTEqual :: nat where "BTEqual = 3"
definition BTGreaterEqual :: nat where "BTGreaterEqual = 4"
definition BTGreater :: nat where "BTGreater = 5"
definition PGC_RANGE_OVERLAP :: nat where "PGC_RANGE_OVERLAP = 101"
definition PGC_RANGE_CONTAINS_ELEM :: nat where "PGC_RANGE_CONTAINS_ELEM = 102"

lemmas strategy_consts = BTLess_def BTLessEqual_def BTEqual_def BTGreaterEqual_def BTGreater_def
  PGC_RANGE_OVERLAP_def PGC_RANGE_CONTAINS_ELEM_def

text \<open>
  The catalog lookups: type-cache entries by collation and type, \<open>getBaseType\<close>, the default
  btree operator class (0 is \<open>InvalidOid\<close>) and its input type, the tests on types, the
  ordering procedure of the class's family for a pair of types under a collation, the
  elements of an array, and whether a collation is deterministic.
\<close>

record pred_catalog =
  pc_types :: "nat \<Rightarrow> nat \<Rightarrow> type_entry"
  pc_base :: "nat \<Rightarrow> nat"
  pc_opclass :: "nat \<Rightarrow> nat"
  pc_input_type :: "nat \<Rightarrow> nat"
  pc_polymorphic :: "nat \<Rightarrow> bool"
  pc_coercible :: "nat \<Rightarrow> nat \<Rightarrow> bool"
  pc_family_proc :: "nat \<Rightarrow> nat \<Rightarrow> nat \<Rightarrow> nat \<Rightarrow> (datum \<Rightarrow> datum \<Rightarrow> int) option"
  pc_array :: "datum \<Rightarrow> datum option list"
  pc_deterministic :: "nat \<Rightarrow> bool"

record skip_predicate =
  attidx :: nat
  strategy :: nat
  compareValue :: datum
  predCmpFn :: "datum \<Rightarrow> datum \<Rightarrow> int"
  searchArray :: bool
  arrayValues :: "datum list"
  hasHash :: bool
  hashFn :: "datum \<Rightarrow> u32"
  excludes :: nat
  runtimeFilter :: bool
  rangePred :: bool
  rangeKind :: nat
  probeLower :: range_bound
  probeUpper :: range_bound
  probeEmpty :: bool
  probeElem :: datum
  predElemCmpFn :: "datum \<Rightarrow> datum \<Rightarrow> int"
  predElemByVal :: bool
  predElemLen :: int
  rangeTce :: "datum \<Rightarrow> range_parts"

text \<open>A zeroed slot: null pointers are never called.\<close>

definition zero_bound :: range_bound where
  "zero_bound = \<lparr>rb_val = ByVal 0, rb_infinite = False, rb_inclusive = False\<rparr>"

definition zero_pred :: skip_predicate where
  "zero_pred = \<lparr>attidx = 0, strategy = 0, compareValue = ByVal 0, predCmpFn = (\<lambda>_ _. 0), searchArray = False,
     arrayValues = [], hasHash = False, hashFn = (\<lambda>_. 0), excludes = 0, runtimeFilter = False, rangePred = False,
     rangeKind = 0, probeLower = zero_bound, probeUpper = zero_bound, probeEmpty = False, probeElem = ByVal 0,
     predElemCmpFn = (\<lambda>_ _. 0), predElemByVal = False, predElemLen = 0,
     rangeTce = (\<lambda>_. \<lparr>rp_lower = zero_bound, rp_upper = zero_bound, rp_empty = False\<rparr>)\<rparr>"

definition key_rejected :: "scan_key \<Rightarrow> nat \<Rightarrow> bool" where
  "key_rejected key natts \<longleftrightarrow>
     sk_flags key AND (SK_ISNULL OR SK_ROW_HEADER OR SK_ROW_MEMBER OR SK_ROW_END OR SK_SEARCHNULL OR
       SK_SEARCHNOTNULL OR SK_ORDER_BY) \<noteq> 0 \<or>
     (sk_flags key AND SK_SEARCHARRAY \<noteq> 0 \<and> (sk_flags key \<noteq> SK_SEARCHARRAY \<or> sk_strategy key \<noteq> BTEqual)) \<or>
     sk_attno key < 1 \<or> sk_attno key > int natts"

text \<open>
  A range key fills the slot before it decides whether to keep it: the second component
  says whether the slot counts.
\<close>

definition range_slot :: "scan_key \<Rightarrow> range_entry \<Rightarrow> (datum \<Rightarrow> datum \<Rightarrow> int) \<Rightarrow> skip_predicate \<times> bool" where
  "range_slot key r ec =
     (let p = zero_pred\<lparr>attidx := nat (sk_attno key - 1), rangePred := True, rangeKind := sk_strategy key,
                rangeTce := re_deserialize r, predElemByVal := re_elemByVal r, predElemLen := re_elemLen r,
                predElemCmpFn := ec\<rparr>
      in if sk_strategy key = PGC_RANGE_OVERLAP
         then let b = re_deserialize r (sk_argument key)
              in (p\<lparr>probeLower := rp_lower b, probeUpper := rp_upper b, probeEmpty := rp_empty b\<rparr>, \<not> rp_empty b)
         else if sk_strategy key = PGC_RANGE_CONTAINS_ELEM then (p\<lparr>probeElem := sk_argument key\<rparr>, True)
         else (p, False))"

definition range_key :: "pred_catalog \<Rightarrow> table_col \<Rightarrow> scan_key \<Rightarrow> (skip_predicate \<times> bool) option" where
  "range_key K c key =
     (case te_range (pc_types K (tc_collation c) (atttypid (tc_att c))) of
        None \<Rightarrow> None
      | Some r \<Rightarrow> (case re_elemCmp r of None \<Rightarrow> None | Some ec \<Rightarrow> Some (range_slot key r ec)))"

definition cross_type :: "pred_catalog \<Rightarrow> nat \<Rightarrow> nat \<Rightarrow> bool" where
  "cross_type K colType argType =
     (if argType \<noteq> 0 \<and> argType \<noteq> colType
      then let opclass = pc_opclass K colType;
               inType = (if opclass \<noteq> 0 then pc_input_type K opclass else 0)
           in \<not> (inType \<noteq> 0 \<and> \<not> pc_polymorphic K inType \<and>
                 (colType = inType \<or> pc_coercible K colType inType) \<and>
                 (argType = inType \<or> pc_coercible K argType inType))
      else False)"

definition key_arg_type :: "pred_catalog \<Rightarrow> scan_key \<Rightarrow> nat" where
  "key_arg_type K key = (if sk_subtype key \<noteq> 0 then pc_base K (sk_subtype key) else 0)"

definition key_cmp :: "pred_catalog \<Rightarrow> table_col \<Rightarrow> scan_key \<Rightarrow> (datum \<Rightarrow> datum \<Rightarrow> int) option" where
  "key_cmp K c key =
     (let colType = pc_base K (atttypid (tc_att c)); argType = key_arg_type K key
      in case te_cmp (pc_types K (tc_collation c) (atttypid (tc_att c))) of
           None \<Rightarrow> None
         | Some cmp \<Rightarrow>
             if cross_type K colType argType
             then if pc_opclass K colType = 0 then None
                  else if colType = TIMESTAMPOID \<and> argType = TIMESTAMPTZOID then None
                  else pc_family_proc K (pc_opclass K colType) colType argType (tc_collation c)
             else Some cmp)"

definition scalar_slot ::
  "pred_catalog \<Rightarrow> table_col \<Rightarrow> scan_key \<Rightarrow> (datum \<Rightarrow> datum \<Rightarrow> int) \<Rightarrow> skip_predicate \<Rightarrow> skip_predicate" where
  "scalar_slot K c key cmp slot =
     (let p = slot\<lparr>predCmpFn := cmp, attidx := nat (sk_attno key - 1), strategy := sk_strategy key,
                compareValue := sk_argument key, searchArray := (sk_flags key AND SK_SEARCHARRAY \<noteq> 0)\<rparr>;
          p1 = (if searchArray p
                then p\<lparr>arrayValues := map the (filter (\<lambda>e. e \<noteq> None) (pc_array K (sk_argument key)))\<rparr> else p);
          p2 = p1\<lparr>hasHash := False\<rparr>
      in case te_hash (pc_types K (tc_collation c) (atttypid (tc_att c))) of
           Some h \<Rightarrow>
             if \<not> cross_type K (pc_base K (atttypid (tc_att c))) (key_arg_type K key) \<and>
                sk_strategy key = BTEqual \<and> pc_deterministic K (tc_collation c)
             then p2\<lparr>hasHash := True, hashFn := h\<rparr> else p2
         | None \<Rightarrow> p2)"

text \<open>One scan key against the array of slots and the number of predicates built.\<close>

definition make_predicate ::
  "pred_catalog \<Rightarrow> table_col list \<Rightarrow> scan_key \<Rightarrow> skip_predicate list \<times> nat \<Rightarrow> skip_predicate list \<times> nat" where
  "make_predicate K td key st =
     (case st of (out, n) \<Rightarrow>
        if key_rejected key (length td) then (out, n)
        else let c = td ! nat (sk_attno key - 1)
        in if sk_flags key AND PGC_SK_RANGE \<noteq> 0
           then (case range_key K c key of
                   None \<Rightarrow> (out, n)
                 | Some (p, kept) \<Rightarrow> (out[n := p], if kept then n + 1 else n))
           else if sk_strategy key < BTLess \<or> sk_strategy key > BTGreater then (out, n)
           else (case key_cmp K c key of
                   None \<Rightarrow> (out, n)
                 | Some cmp \<Rightarrow> (out[n := scalar_slot K c key cmp (out ! n)], n + 1)))"

definition pgcolumnar_make_predicates ::
  "pred_catalog \<Rightarrow> table_col list \<Rightarrow> scan_key list \<Rightarrow> skip_predicate list \<Rightarrow> skip_predicate list \<times> nat" where
  "pgcolumnar_make_predicates K td keys out = fold (make_predicate K td) keys (out, 0)"

subsection \<open>Excluding by a zone-map row\<close>

definition native_value_satisfies :: "skip_predicate \<Rightarrow> datum \<Rightarrow> bool" where
  "native_value_satisfies pred val =
     (if rangePred pred then True
      else if searchArray pred then list_ex (\<lambda>x. predCmpFn pred val x = 0) (arrayValues pred)
      else let c = predCmpFn pred val (compareValue pred)
      in if strategy pred = BTLess then c < 0
         else if strategy pred = BTLessEqual then c \<le> 0
         else if strategy pred = BTEqual then c = 0
         else if strategy pred = BTGreaterEqual then c \<ge> 0
         else if strategy pred = BTGreater then c > 0
         else True)"

definition overlap_excludes :: "skip_predicate \<Rightarrow> range_parts \<Rightarrow> datum option \<Rightarrow> bool" where
  "overlap_excludes pred unit maxUp \<longleftrightarrow>
     (case maxUp of
        None \<Rightarrow> False
      | Some u \<Rightarrow> \<not> rb_infinite (probeLower pred) \<and>
          (let c = predElemCmpFn pred u (rb_val (probeLower pred))
           in c < 0 \<or> c = 0 \<and> \<not> rb_inclusive (probeLower pred))) \<or>
     (\<not> rb_infinite (rp_lower unit) \<and> \<not> rb_infinite (probeUpper pred) \<and>
        (let c = predElemCmpFn pred (rb_val (rp_lower unit)) (rb_val (probeUpper pred))
         in c > 0 \<or> c = 0 \<and> \<not> (rb_inclusive (rp_lower unit) \<and> rb_inclusive (probeUpper pred))))"

definition contains_excludes :: "skip_predicate \<Rightarrow> range_parts \<Rightarrow> datum option \<Rightarrow> bool" where
  "contains_excludes pred unit maxUp \<longleftrightarrow>
     (case maxUp of None \<Rightarrow> False | Some u \<Rightarrow> predElemCmpFn pred u (probeElem pred) < 0) \<or>
     (\<not> rb_infinite (rp_lower unit) \<and> predElemCmpFn pred (rb_val (rp_lower unit)) (probeElem pred) > 0)"

definition zone_max_upper :: "pg_datum \<Rightarrow> skip_predicate \<Rightarrow> zone_row \<Rightarrow> datum option result" where
  "zone_max_upper V pred z =
     (case z_upper z of
        Some (Some b) \<Rightarrow>
          if b \<noteq> []
          then res_bind (PgColumnarDecodeValueByLen V (predElemByVal pred) (predElemLen pred) b) (\<lambda>(u, _). Inr (Some u))
          else Inr None
      | _ \<Rightarrow> Inr None)"

definition native_range_excludes :: "pg_datum \<Rightarrow> skip_predicate \<Rightarrow> attr \<Rightarrow> zone_row option \<Rightarrow> bool result" where
  "native_range_excludes V pred att zo =
     (case zo of
        None \<Rightarrow> Inr False
      | Some z \<Rightarrow>
          (case z_minMax z of
             None \<Rightarrow> Inr False
           | Some (minimum, _) \<Rightarrow>
               res_bind (PgColumnarDecodeValue V att minimum) (\<lambda>(minv, _).
                 let unit = rangeTce pred minv
                 in if rp_empty unit then Inr False
                    else res_bind (zone_max_upper V pred z) (\<lambda>maxUp.
                      if rangeKind pred = PGC_RANGE_OVERLAP then Inr (overlap_excludes pred unit maxUp)
                      else if rangeKind pred = PGC_RANGE_CONTAINS_ELEM then Inr (contains_excludes pred unit maxUp)
                      else Inr False))))"

definition min_max_excludes :: "skip_predicate \<Rightarrow> datum \<Rightarrow> datum \<Rightarrow> bool" where
  "min_max_excludes pred minv maxv =
     (if searchArray pred
      then list_all (\<lambda>x. \<not> (predCmpFn pred minv x \<le> 0 \<and> predCmpFn pred maxv x \<ge> 0)) (arrayValues pred)
      else let c1 = predCmpFn pred minv (compareValue pred); c2 = predCmpFn pred maxv (compareValue pred)
      in if strategy pred = BTLess then c1 \<ge> 0
         else if strategy pred = BTLessEqual then c1 > 0
         else if strategy pred = BTEqual then c1 > 0 \<or> c2 < 0
         else if strategy pred = BTGreaterEqual then c2 < 0
         else if strategy pred = BTGreater then c2 \<le> 0
         else False)"

definition native_zone_excludes :: "pg_datum \<Rightarrow> skip_predicate \<Rightarrow> attr \<Rightarrow> zone_row option \<Rightarrow> bool result" where
  "native_zone_excludes V pred att zo =
     (if rangePred pred then native_range_excludes V pred att zo
      else case zo of
        None \<Rightarrow> Inr False
      | Some z \<Rightarrow>
          (case z_minMax z of
             None \<Rightarrow> Inr False
           | Some (minimum, maximum) \<Rightarrow>
               res_bind (PgColumnarDecodeValue V att minimum) (\<lambda>(minv, _).
                 res_bind (PgColumnarDecodeValue V att maximum) (\<lambda>(maxv, _).
                   Inr (min_max_excludes pred minv maxv)))))"

subsection \<open>Excluding a row group\<close>

text \<open>
  The part of the read state pruning keeps: the predicate array, the number in use, the
  order of evaluation, the two runtime predicates of a join, and the counter.
\<close>

record prune_state =
  predicates :: "skip_predicate list"
  numPredicates :: nat
  predOrder :: "nat list"
  runtimePredicateStart :: nat
  runtimePredicateCount :: nat
  runtimeGroupsRemoved :: nat

definition empty_prune_state :: prune_state where
  "empty_prune_state = \<lparr>predicates = [], numPredicates = 0, predOrder = [], runtimePredicateStart = 0,
     runtimePredicateCount = 0, runtimeGroupsRemoved = 0\<rparr>"

definition pgcolumnar_build_predicates ::
  "pred_catalog \<Rightarrow> table_col list \<Rightarrow> scan_key list \<Rightarrow> prune_state \<Rightarrow> prune_state" where
  "pgcolumnar_build_predicates K td keys rs =
     (if keys = [] then rs
      else let (out, n) = pgcolumnar_make_predicates K td keys (replicate (length keys) zero_pred)
           in rs\<lparr>predicates := out, numPredicates := n,
                 predOrder := [0..<n] @ replicate (length keys - n) 0\<rparr>)"

definition runtime_key :: "int \<Rightarrow> nat \<Rightarrow> nat \<Rightarrow> datum \<Rightarrow> scan_key" where
  "runtime_key attno strat subtype v =
     \<lparr>sk_flags = 0, sk_attno = attno, sk_strategy = strat, sk_subtype = subtype, sk_argument = v\<rparr>"

definition PgColumnarReadSetRuntimeRange ::
  "pred_catalog \<Rightarrow> table_col list \<Rightarrow> int \<Rightarrow> nat \<Rightarrow> datum \<Rightarrow> datum \<Rightarrow> prune_state \<Rightarrow> bool \<times> prune_state" where
  "PgColumnarReadSetRuntimeRange K td attno subtype minimum maximum rs =
     (let keys = [runtime_key attno BTGreaterEqual subtype minimum, runtime_key attno BTLessEqual subtype maximum];
          (built, n) = pgcolumnar_make_predicates K td keys (replicate 2 zero_pred);
          oldCount = numPredicates rs; start = runtimePredicateStart rs;
          b0 = (built ! 0)\<lparr>runtimeFilter := True\<rparr>; b1 = (built ! 1)\<lparr>runtimeFilter := True\<rparr>
      in if n \<noteq> 2 then (False, rs)
         else if runtimePredicateCount rs = 2
         then (True, rs\<lparr>predicates := (predicates rs)[start := b0, start + 1 := b1]\<rparr>)
         else (True, rs\<lparr>predicates := take oldCount (predicates rs) @ [b0, b1],
                        predOrder := take oldCount (predOrder rs) @ [oldCount, oldCount + 1],
                        numPredicates := oldCount + 2, runtimePredicateStart := oldCount,
                        runtimePredicateCount := 2\<rparr>))"

definition PgColumnarReadClearRuntimeRange :: "prune_state \<Rightarrow> prune_state" where
  "PgColumnarReadClearRuntimeRange rs =
     (if runtimePredicateCount rs = 0 then rs
      else rs\<lparr>numPredicates := runtimePredicateStart rs, runtimePredicateCount := 0\<rparr>)"

definition pgcolumnar_predicate_excluded :: "nat \<Rightarrow> prune_state \<Rightarrow> prune_state" where
  "pgcolumnar_predicate_excluded oi rs =
     (let here = predOrder rs ! oi;
          preds = (predicates rs)[here := (predicates rs ! here)\<lparr>excludes := excludes (predicates rs ! here) + 1\<rparr>];
          rs1 = rs\<lparr>predicates := preds,
                   runtimeGroupsRemoved := runtimeGroupsRemoved rs + (if runtimeFilter (preds ! here) then 1 else 0)\<rparr>
      in if oi = 0 then rs1
         else let ahead = predOrder rs ! (oi - 1)
         in if searchArray (preds ! here) \<and> \<not> searchArray (preds ! ahead) then rs1
            else if excludes (preds ! ahead) < excludes (preds ! here)
            then rs1\<lparr>predOrder := (predOrder rs)[oi - 1 := here, oi := ahead]\<rparr>
            else rs1)"

definition bloom_excludes :: "bool \<Rightarrow> skip_predicate \<Rightarrow> byte list option \<Rightarrow> bool" where
  "bloom_excludes enable_bloom pred flt \<longleftrightarrow>
     strategy pred = BTEqual \<and> enable_bloom \<and> hasHash pred \<and> flt \<noteq> None \<and>
     \<not> list_ex (\<lambda>probe. PgColumnarBloomProbe flt (hashFn pred probe))
         (if searchArray pred then arrayValues pred else [compareValue pred])"

text \<open>
  The catalog rows of one row group under the scan's snapshot: per column, its zone-map
  rows in the order of the primary key and its bloom filter.
\<close>

record group_meta =
  gm_rows :: "nat \<Rightarrow> zone_row list"
  gm_bloom :: "nat \<Rightarrow> byte list option"

definition PgColumnarReadZoneMapForColumn :: "group_meta \<Rightarrow> nat \<Rightarrow> zone_row option" where
  "PgColumnarReadZoneMapForColumn G col = find (\<lambda>z. z_vectorIndex z = -1) (gm_rows G col)"

definition PgColumnarReadZoneMapVectorsForColumn :: "group_meta \<Rightarrow> nat \<Rightarrow> zone_row list" where
  "PgColumnarReadZoneMapVectorsForColumn G col = filter (\<lambda>z. z_vectorIndex z \<ge> 0) (gm_rows G col)"

definition PgColumnarReadZoneMapVectors :: "group_meta \<Rightarrow> nat \<Rightarrow> zone_row list" where
  "PgColumnarReadZoneMapVectors G natts = concat (map (PgColumnarReadZoneMapVectorsForColumn G) [0..<natts])"

fun can_match_loop ::
  "pg_datum \<Rightarrow> bool \<Rightarrow> table_col list \<Rightarrow> group_meta \<Rightarrow> nat list \<Rightarrow> prune_state \<Rightarrow> (bool \<times> prune_state) result" where
  "can_match_loop V enable_bloom td G [] rs = Inr (True, rs)"
| "can_match_loop V enable_bloom td G (oi # ois) rs =
     (let pred = predicates rs ! (predOrder rs ! oi)
      in res_bind (native_zone_excludes V pred (tc_att (td ! attidx pred)) (PgColumnarReadZoneMapForColumn G (attidx pred))) (\<lambda>ex.
           if ex \<or> bloom_excludes enable_bloom pred (gm_bloom G (attidx pred))
           then Inr (False, pgcolumnar_predicate_excluded oi rs)
           else can_match_loop V enable_bloom td G ois rs))"

definition pgcolumnar_native_group_can_match ::
  "pg_datum \<Rightarrow> bool \<Rightarrow> table_col list \<Rightarrow> group_meta \<Rightarrow> prune_state \<Rightarrow> (bool \<times> prune_state) result" where
  "pgcolumnar_native_group_can_match V enable_bloom td G rs =
     can_match_loop V enable_bloom td G [0..<numPredicates rs] rs"

subsection \<open>Excluding vectors\<close>

fun res_map :: "('a \<Rightarrow> 'b result) \<Rightarrow> 'a list \<Rightarrow> 'b list result" where
  "res_map f [] = Inr []"
| "res_map f (x # xs) = res_bind (f x) (\<lambda>y. res_bind (res_map f xs) (\<lambda>ys. Inr (y # ys)))"

definition vector_row :: "zone_row list \<Rightarrow> nat \<Rightarrow> zone_row option" where
  "vector_row zs v = find (\<lambda>z. z_vectorIndex z = int v) (rev zs)"

definition span_zones :: "group_meta \<Rightarrow> nat \<Rightarrow> skip_predicate list \<Rightarrow> zone_row list" where
  "span_zones G natts preds =
     (case find (\<lambda>zs. zs \<noteq> []) (map (\<lambda>p. PgColumnarReadZoneMapVectorsForColumn G (attidx p)) preds) of
        Some zs \<Rightarrow> zs | None \<Rightarrow> PgColumnarReadZoneMapVectors G natts)"

definition vector_span :: "zone_row list \<Rightarrow> nat \<Rightarrow> u32" where
  "vector_span zs v = (case vector_row zs v of None \<Rightarrow> 0 | Some z \<Rightarrow> of_nat (z_valueCount z + z_nullCount z))"

fun vector_excluded ::
  "pg_datum \<Rightarrow> table_col list \<Rightarrow> group_meta \<Rightarrow> nat \<Rightarrow> skip_predicate list \<Rightarrow> bool result" where
  "vector_excluded V td G v [] = Inr False"
| "vector_excluded V td G v (p # ps) =
     res_bind (native_zone_excludes V p (tc_att (td ! attidx p)) (vector_row (PgColumnarReadZoneMapVectorsForColumn G (attidx p)) v)) (\<lambda>ex.
       if ex then Inr True else vector_excluded V td G v ps)"

text \<open>
  The result is the skip flags and the cumulative row spans; both are absent when there is
  nothing to consult them or no per-vector rows exist.
\<close>

definition pgcolumnar_native_build_skipvec ::
  "pg_datum \<Rightarrow> table_col list \<Rightarrow> bool \<Rightarrow> group_meta \<Rightarrow> prune_state \<Rightarrow> nat \<Rightarrow> (bool list \<times> u32 list) option result" where
  "pgcolumnar_native_build_skipvec V td qualFilter G rs vecCount =
     (let preds = take (numPredicates rs) (predicates rs); zs = span_zones G (length td) preds
      in if vecCount = 0 \<or> numPredicates rs = 0 \<and> \<not> qualFilter \<or> zs = [] then Inr None
         else res_bind (res_map (\<lambda>v. vector_excluded V td G v preds) [0..<vecCount]) (\<lambda>skip.
           Inr (Some (skip, fold (\<lambda>v starts. starts @ [last starts + vector_span zs v]) [0..<vecCount] [0]))))"

subsection \<open>Comparing a column with a constant\<close>

text \<open>
  The contract of an ordering procedure between a column type and the type of a constant,
  as members of one operator family: it is monotone in the column's own order.
\<close>

locale probe_cmp =
  fixes D :: "'a set" and cmp :: "'a \<Rightarrow> 'a \<Rightarrow> int" and C :: "'b set" and probe :: "'a \<Rightarrow> 'b \<Rightarrow> int"
  assumes probe_le: "a \<in> D \<Longrightarrow> b \<in> D \<Longrightarrow> c \<in> C \<Longrightarrow> cmp a b \<le> 0 \<Longrightarrow> probe b c \<le> 0 \<Longrightarrow> probe a c \<le> 0"
    and probe_less: "a \<in> D \<Longrightarrow> b \<in> D \<Longrightarrow> c \<in> C \<Longrightarrow> cmp a b \<le> 0 \<Longrightarrow> probe b c < 0 \<Longrightarrow> probe a c < 0"
begin

lemma probe_ge: "a \<in> D \<Longrightarrow> b \<in> D \<Longrightarrow> c \<in> C \<Longrightarrow> cmp a b \<le> 0 \<Longrightarrow> probe a c \<ge> 0 \<Longrightarrow> probe b c \<ge> 0"
  using probe_less[of a b c] by linarith

lemma probe_greater: "a \<in> D \<Longrightarrow> b \<in> D \<Longrightarrow> c \<in> C \<Longrightarrow> cmp a b \<le> 0 \<Longrightarrow> probe a c > 0 \<Longrightarrow> probe b c > 0"
  using probe_le[of a b c] by linarith

text \<open>A value between \<open>mn\<close> and \<open>mx\<close> constrains both.\<close>

lemma bracket:
  assumes "mn \<in> D" "v \<in> D" "mx \<in> D" "c \<in> C" "cmp mn v \<le> 0" "cmp v mx \<le> 0"
  shows "probe v c < 0 \<Longrightarrow> probe mn c < 0" "probe v c \<le> 0 \<Longrightarrow> probe mn c \<le> 0"
    "probe v c \<ge> 0 \<Longrightarrow> probe mx c \<ge> 0" "probe v c > 0 \<Longrightarrow> probe mx c > 0"
  using probe_less[OF assms(1,2,4,5)] probe_le[OF assms(1,2,4,5)] probe_ge[OF assms(2,3,4,6)]
    probe_greater[OF assms(2,3,4,6)] by blast+

end

text \<open>A column's own procedure is one: a constant of the column type.\<close>

sublocale total_cmp \<subseteq> self: probe_cmp D cmp D cmp
proof
  fix a b c assume *: "a \<in> D" "b \<in> D" "c \<in> D" "cmp a b \<le> 0"
  show "cmp b c \<le> 0 \<Longrightarrow> cmp a c \<le> 0" using * trans[of a b c] by blast
  show "cmp b c < 0 \<Longrightarrow> cmp a c < 0"
    using * trans[of c a b] strict_flip[of b c] flip[of c a] flip[of c b] by force
qed

context total_cmp
begin

lemma le_less_trans: "a \<in> D \<Longrightarrow> b \<in> D \<Longrightarrow> c \<in> D \<Longrightarrow> cmp a b \<le> 0 \<Longrightarrow> cmp b c < 0 \<Longrightarrow> cmp a c < 0"
  by (rule self.probe_less)

lemma own_probe: "C \<subseteq> D \<Longrightarrow> probe_cmp D cmp C cmp"
  using self.probe_le self.probe_less by unfold_locales blast+

end

text \<open>An eight-byte column against a four-byte constant.\<close>

interpretation int84_probe: probe_cmp UNIV "\<lambda>a b. three_way (DatumGetInt64 a) (DatumGetInt64 b)" UNIV
    "\<lambda>a c. three_way (DatumGetInt64 a) (DatumGetInt32 c)"
  by unfold_locales (auto simp: three_way_def split: if_splits)

subsection \<open>What a predicate relies on\<close>

text \<open>
  PostgreSQL's range operators on deserialised ranges: \<open>&&\<close> holds of nonempty ranges neither
  of which ends before the other begins, \<open>@>\<close> of a nonempty range and a point between its
  bounds.
\<close>

definition bound_before :: "(datum \<Rightarrow> datum \<Rightarrow> int) \<Rightarrow> range_bound \<Rightarrow> range_bound \<Rightarrow> bool" where
  "bound_before ec u l \<longleftrightarrow> \<not> rb_infinite u \<and> \<not> rb_infinite l \<and>
     (ec (rb_val u) (rb_val l) < 0 \<or> ec (rb_val u) (rb_val l) = 0 \<and> \<not> (rb_inclusive u \<and> rb_inclusive l))"

definition range_overlaps :: "(datum \<Rightarrow> datum \<Rightarrow> int) \<Rightarrow> range_parts \<Rightarrow> range_bound \<Rightarrow> range_bound \<Rightarrow> bool" where
  "range_overlaps ec r lower upper \<longleftrightarrow>
     \<not> rp_empty r \<and> \<not> bound_before ec (rp_upper r) lower \<and> \<not> bound_before ec upper (rp_lower r)"

definition range_contains_elem :: "(datum \<Rightarrow> datum \<Rightarrow> int) \<Rightarrow> range_parts \<Rightarrow> datum \<Rightarrow> bool" where
  "range_contains_elem ec r x \<longleftrightarrow>
     (let point = \<lparr>rb_val = x, rb_infinite = False, rb_inclusive = True\<rparr>
      in \<not> rp_empty r \<and> \<not> bound_before ec (rp_upper r) point \<and> \<not> bound_before ec point (rp_lower r))"

definition pred_matches :: "skip_predicate \<Rightarrow> datum \<Rightarrow> bool" where
  "pred_matches p v =
     (if \<not> rangePred p then native_value_satisfies p v
      else if rangeKind p = PGC_RANGE_OVERLAP
      then range_overlaps (predElemCmpFn p) (rangeTce p v) (probeLower p) (probeUpper p)
      else range_contains_elem (predElemCmpFn p) (rangeTce p v) (probeElem p))"

definition pred_consts :: "skip_predicate \<Rightarrow> datum set" where
  "pred_consts p = (if searchArray p then set (arrayValues p) else {compareValue p})"

text \<open>
  The btree order of a range type sorts nonempty ranges by their lower bounds, an unbounded
  one first and an inclusive one before an exclusive one at the same value.
\<close>

definition lower_le :: "(datum \<Rightarrow> datum \<Rightarrow> int) \<Rightarrow> range_bound \<Rightarrow> range_bound \<Rightarrow> bool" where
  "lower_le ec l m \<longleftrightarrow> rb_infinite l \<or> \<not> rb_infinite m \<and>
     (ec (rb_val l) (rb_val m) < 0 \<or> ec (rb_val l) (rb_val m) = 0 \<and> (rb_inclusive l \<or> \<not> rb_inclusive m))"

definition range_order_ok :: "column_def \<Rightarrow> datum set \<Rightarrow> bool" where
  "range_order_ok def D \<longleftrightarrow>
     (\<forall>a \<in> D. \<forall>b \<in> D. \<not> rp_empty (rangeDeserialize def a) \<longrightarrow> \<not> rp_empty (rangeDeserialize def b) \<longrightarrow>
        cmpFn def a b \<le> 0 \<longrightarrow> lower_le (elemCmpFn def) (rp_lower (rangeDeserialize def a)) (rp_lower (rangeDeserialize def b)))"

text \<open>A predicate that fits its column's definition.\<close>

definition range_pred_fits :: "column_def \<Rightarrow> datum set \<Rightarrow> datum set \<Rightarrow> skip_predicate \<Rightarrow> bool" where
  "range_pred_fits def D B p \<longleftrightarrow>
     isRange def \<and> rangeTce p = rangeDeserialize def \<and> predElemCmpFn p = elemCmpFn def \<and>
     predElemByVal p = elemByVal def \<and> predElemLen p = elemLen def \<and> range_order_ok def D \<and>
     (if rangeKind p = PGC_RANGE_OVERLAP then {rb_val (probeLower p), rb_val (probeUpper p)} \<subseteq> B
      else probeElem p \<in> B)"

definition scalar_pred_fits :: "column_def \<Rightarrow> datum set \<Rightarrow> skip_predicate \<Rightarrow> bool" where
  "scalar_pred_fits def D p \<longleftrightarrow>
     (orderable def \<longrightarrow> probe_cmp D (cmpFn def) (pred_consts p) (predCmpFn p)) \<and>
     (hasHash p \<and> bloomable def \<longrightarrow>
        (\<forall>v \<in> D. \<forall>x \<in> pred_consts p. predCmpFn p v x = 0 \<longrightarrow> hashFn p x = valueHash def v))"

definition pred_fits :: "column_def \<Rightarrow> datum set \<Rightarrow> datum set \<Rightarrow> skip_predicate \<Rightarrow> bool" where
  "pred_fits def D B p =
     (if rangePred p then (orderable def \<longrightarrow> range_pred_fits def D B p) \<and> strategy p \<noteq> BTEqual
      else scalar_pred_fits def D p \<and> (searchArray p \<longrightarrow> strategy p = BTEqual))"

subsection \<open>A zone-map row never excludes a matching value\<close>

lemma min_max_keeps:
  assumes fits: "scalar_pred_fits def D p" "orderable def" "\<not> rangePred p"
    and D: "mn \<in> D" "v \<in> D" "mx \<in> D" and br: "cmpFn def mn v \<le> 0" "cmpFn def v mx \<le> 0"
    and sat: "native_value_satisfies p v"
  shows "\<not> min_max_excludes p mn mx"
proof -
  have pc: "probe_cmp D (cmpFn def) (pred_consts p) (predCmpFn p)" using fits by (simp add: scalar_pred_fits_def)
  note b = probe_cmp.bracket[OF pc D _ br]
  show ?thesis
  proof (cases "searchArray p")
    case True
    then obtain x where x: "x \<in> set (arrayValues p)" "predCmpFn p v x = 0"
      using sat fits(3) by (auto simp: native_value_satisfies_def list_ex_iff)
    have "x \<in> pred_consts p" using x True by (simp add: pred_consts_def)
    from b(2)[OF this] b(3)[OF this] x True show ?thesis by (auto simp: min_max_excludes_def list_all_iff)
  next
    case False
    then have c: "compareValue p \<in> pred_consts p" by (simp add: pred_consts_def)
    show ?thesis using sat fits(3) False b[OF c]
      by (auto simp: native_value_satisfies_def min_max_excludes_def Let_def strategy_consts split: if_splits)
  qed
qed

text \<open>The two sides of a range unit: its greatest upper bound and its least lower bound.\<close>

lemma upper_side:
  assumes tc: "total_cmp B ec" and B: "rb_val u \<in> B" "m \<in> B" "rb_val l \<in> B"
    and u: "\<not> rb_infinite u" "ec (rb_val u) m \<le> 0"
    and out: "\<not> rb_infinite l" "ec m (rb_val l) < 0 \<or> ec m (rb_val l) = 0 \<and> \<not> rb_inclusive l"
  shows "bound_before ec u l"
proof -
  have "ec m (rb_val l) < 0 \<Longrightarrow> ec (rb_val u) (rb_val l) < 0" "ec m (rb_val l) \<le> 0 \<Longrightarrow> ec (rb_val u) (rb_val l) \<le> 0"
    using total_cmp.le_less_trans[OF tc B u(2)] total_cmp.trans[OF tc B u(2)] by blast+
  with u out show ?thesis unfolding bound_before_def by linarith
qed

lemma lower_side:
  assumes tc: "total_cmp B ec" and B: "rb_val l \<in> B" "rb_val m \<in> B" "rb_val u \<in> B"
    and le: "lower_le ec l m" "\<not> rb_infinite l"
    and out: "\<not> rb_infinite u" "ec (rb_val l) (rb_val u) > 0 \<or>
      ec (rb_val l) (rb_val u) = 0 \<and> \<not> (rb_inclusive l \<and> rb_inclusive u)"
  shows "bound_before ec u m"
proof -
  have ul: "ec (rb_val u) (rb_val l) < 0 \<longleftrightarrow> ec (rb_val l) (rb_val u) > 0"
      "ec (rb_val u) (rb_val l) \<le> 0 \<longleftrightarrow> ec (rb_val l) (rb_val u) \<ge> 0"
    using total_cmp.strict_flip[OF tc B(3,1)] total_cmp.flip[OF tc B(3,1)] by auto
  have lm: "\<not> rb_infinite m" "ec (rb_val l) (rb_val m) \<le> 0" using le by (auto simp: lower_le_def)
  have le1: "ec (rb_val u) (rb_val m) \<le> 0" if "ec (rb_val l) (rb_val u) \<ge> 0"
    using total_cmp.trans[OF tc B(3,1,2) _ lm(2)] ul(2) that by blast
  have less1: "ec (rb_val u) (rb_val m) < 0" if "ec (rb_val l) (rb_val u) \<ge> 0" "ec (rb_val l) (rb_val m) < 0"
    using total_cmp.le_less_trans[OF tc B(3,1,2)] ul(2) that by blast
  have less2: "ec (rb_val u) (rb_val m) < 0" if "ec (rb_val l) (rb_val u) > 0"
  proof (rule ccontr)
    assume "\<not> ec (rb_val u) (rb_val m) < 0"
    then have "ec (rb_val m) (rb_val u) \<le> 0" using total_cmp.flip[OF tc B(2,3)] by linarith
    with lm(2) have "ec (rb_val l) (rb_val u) \<le> 0" using total_cmp.trans[OF tc B(1,2,3)] by blast
    with that show False by simp
  qed
  show ?thesis using out lm(1) le le1 less1 less2 by (auto simp: bound_before_def lower_le_def)
qed

lemma range_unit_excludes:
  assumes def: "def_ok D B def" and fits: "range_pred_fits def D B p" and p: "rangePred p"
    and mn: "mn \<in> D" "cmpFn def mn v \<le> 0" "\<not> rp_empty (rangeDeserialize def mn)" and v: "v \<in> D"
    and up: "\<forall>u. maxUp = Some u \<longrightarrow> u \<in> B \<and> (rp_empty (rangeDeserialize def v) \<or>
        \<not> rb_infinite (rp_upper (rangeDeserialize def v)) \<and> elemCmpFn def (rb_val (rp_upper (rangeDeserialize def v))) u \<le> 0)"
    and m: "pred_matches p v"
  shows "rangeKind p = PGC_RANGE_OVERLAP \<Longrightarrow> \<not> overlap_excludes p (rangeDeserialize def mn) maxUp"
    and "rangeKind p \<noteq> PGC_RANGE_OVERLAP \<Longrightarrow> \<not> contains_excludes p (rangeDeserialize def mn) maxUp"
proof -
  let ?ec = "elemCmpFn def" and ?r = "rangeDeserialize def v" and ?l = "rp_lower (rangeDeserialize def mn)"
  let ?point = "\<lparr>rb_val = probeElem p, rb_infinite = False, rb_inclusive = True\<rparr>"
  have f: "isRange def" "rangeTce p = rangeDeserialize def" "predElemCmpFn p = ?ec" "range_order_ok def D"
    using fits by (simp_all add: range_pred_fits_def)
  have tc: "total_cmp B ?ec" and B: "rb_val (rp_upper ?r) \<in> B" "rb_val (rp_lower ?r) \<in> B" "rb_val ?l \<in> B"
    using def f(1) v mn(1) by (simp_all add: def_ok_def)
  have ne: "\<not> rp_empty ?r" using m p f
    by (auto simp: pred_matches_def range_overlaps_def range_contains_elem_def Let_def split: if_splits)
  have le: "lower_le ?ec ?l (rp_lower ?r)" using f(4) mn v ne by (simp add: range_order_ok_def)
  have upper: "bound_before ?ec (rp_upper ?r) l" if "maxUp = Some u" "\<not> rb_infinite l" "rb_val l \<in> B"
      "?ec u (rb_val l) < 0 \<or> ?ec u (rb_val l) = 0 \<and> \<not> rb_inclusive l" for u l
    using up that ne by (intro upper_side[OF tc B(1) _ that(3) _ _ that(2,4)]) auto
  have lower: "bound_before ?ec u (rp_lower ?r)" if "\<not> rb_infinite ?l" "\<not> rb_infinite u" "rb_val u \<in> B"
      "?ec (rb_val ?l) (rb_val u) > 0 \<or> ?ec (rb_val ?l) (rb_val u) = 0 \<and> \<not> (rb_inclusive ?l \<and> rb_inclusive u)" for u
    by (rule lower_side[OF tc B(3,2) that(3) le that(1,2,4)])
  show "\<not> overlap_excludes p (rangeDeserialize def mn) maxUp" if k: "rangeKind p = PGC_RANGE_OVERLAP"
  proof -
    have "rb_val (probeLower p) \<in> B" "rb_val (probeUpper p) \<in> B" using fits k by (simp_all add: range_pred_fits_def)
    then show ?thesis using m p k f upper[of _ "probeLower p"] lower[of "probeUpper p"]
      by (auto simp: pred_matches_def range_overlaps_def overlap_excludes_def Let_def split: option.splits)
  qed
  show "\<not> contains_excludes p (rangeDeserialize def mn) maxUp" if k: "rangeKind p \<noteq> PGC_RANGE_OVERLAP"
  proof -
    have "probeElem p \<in> B" using fits k by (simp add: range_pred_fits_def)
    then show ?thesis using m p k f upper[of _ ?point] lower[of ?point]
      by (auto simp: pred_matches_def range_contains_elem_def contains_excludes_def Let_def split: option.splits)
  qed
qed

lemma zone_max_upper_bounds:
  assumes "range_pred_fits def D B p" "upper_bounds V def B S (z_upper z)"
  obtains maxUp where "zone_max_upper V p z = Inr maxUp"
    "\<forall>v \<in> S. \<forall>u. maxUp = Some u \<longrightarrow> u \<in> B \<and> (rp_empty (rangeDeserialize def v) \<or>
        \<not> rb_infinite (rp_upper (rangeDeserialize def v)) \<and> elemCmpFn def (rb_val (rp_upper (rangeDeserialize def v))) u \<le> 0)"
proof (cases "\<exists>b. z_upper z = Some (Some b) \<and> b \<noteq> []")
  case True
  then obtain b where b: "z_upper z = Some (Some b)" "b \<noteq> []" by blast
  obtain u r where "PgColumnarDecodeValueByLen V (elemByVal def) (elemLen def) b = Inr (u, r)" "u \<in> B"
      "\<forall>v \<in> S. rp_empty (rangeDeserialize def v) \<or>
        \<not> rb_infinite (rp_upper (rangeDeserialize def v)) \<and> elemCmpFn def (rb_val (rp_upper (rangeDeserialize def v))) u \<le> 0"
    using assms(2) b by (auto simp: upper_bounds_def)
  then show thesis using assms(1) b that[of "Some u"] by (auto simp: zone_max_upper_def range_pred_fits_def)
next
  case False
  then show thesis using that[of None] by (auto simp: zone_max_upper_def split: option.splits)
qed

lemma zone_excludes_sound:
  assumes z: "zone_describes V att def D B rows vec z" and def: "def_ok D B def" and fits: "pred_fits def D B p"
    and D: "set (present_values V att rows) \<subseteq> D"
  obtains ex where "native_zone_excludes V p att (Some z) = Inr ex"
    "ex \<Longrightarrow> \<forall>v \<in> set (present_values V att rows). \<not> pred_matches p v"
proof (cases "z_minMax z")
  case None
  then show thesis using that[of False] by (simp add: native_zone_excludes_def native_range_excludes_def)
next
  case (Some mm)
  let ?S = "set (present_values V att rows)"
  obtain a b where mm: "z_minMax z = Some (a, b)" using Some by (cases mm) auto
  have ord: "orderable def" and cov: "zone_covers V att def D B ?S z"
    using z mm by (auto simp: zone_describes_def Let_def)
  obtain mn mx r1 r2 where dec: "PgColumnarDecodeValue V att a = Inr (mn, r1)" "PgColumnarDecodeValue V att b = Inr (mx, r2)"
      and mD: "mn \<in> D" "mx \<in> D" and br: "\<forall>v \<in> ?S. cmpFn def mn v \<le> 0 \<and> cmpFn def v mx \<le> 0"
    using cov mm by (auto simp: zone_covers_def min_max_brackets_def)
  show thesis
  proof (cases "rangePred p")
    case False
    have "\<not> pred_matches p v" if "min_max_excludes p mn mx" "v \<in> ?S" for v
      using min_max_keeps[of def D p mn v mx] that fits False ord mD br D by (auto simp: pred_matches_def pred_fits_def)
    then show thesis using that[of "min_max_excludes p mn mx"] False mm dec by (simp add: native_zone_excludes_def)
  next
    case True
    have rf: "range_pred_fits def D B p" using fits ord True by (simp add: pred_fits_def)
    obtain mu where mu: "zone_max_upper V p z = Inr mu"
        "\<forall>v \<in> ?S. \<forall>u. mu = Some u \<longrightarrow> u \<in> B \<and> (rp_empty (rangeDeserialize def v) \<or>
          \<not> rb_infinite (rp_upper (rangeDeserialize def v)) \<and> elemCmpFn def (rb_val (rp_upper (rangeDeserialize def v))) u \<le> 0)"
      using zone_max_upper_bounds[OF rf, of V ?S z] cov by (auto simp: zone_covers_def)
    have tce: "rangeTce p = rangeDeserialize def" using rf by (simp add: range_pred_fits_def)
    define ex where "ex \<longleftrightarrow> \<not> rp_empty (rangeDeserialize def mn) \<and>
      (if rangeKind p = PGC_RANGE_OVERLAP then overlap_excludes p (rangeDeserialize def mn) mu
       else rangeKind p = PGC_RANGE_CONTAINS_ELEM \<and> contains_excludes p (rangeDeserialize def mn) mu)"
    have "native_zone_excludes V p att (Some z) = Inr ex"
      using True mm dec mu(1) tce by (auto simp: native_zone_excludes_def native_range_excludes_def ex_def Let_def)
    moreover have "\<not> pred_matches p v" if "ex" "v \<in> ?S" for v
      using range_unit_excludes[OF def rf True mD(1), of v mu] that br mu(2) D by (auto simp: ex_def split: if_splits)
    ultimately show thesis using that by blast
  qed
qed

subsection \<open>Groups and vectors\<close>

text \<open>
  The columns of a row group: what each was defined and written with, \<open>cw_rows\<close> being its
  rows by chunk group.
\<close>

record column_written =
  cw_def :: column_def
  cw_D :: "datum set"
  cw_B :: "datum set"
  cw_rows :: "datum option list list"

definition column_described ::
  "pg_datum \<Rightarrow> attr \<Rightarrow> column_written \<Rightarrow> zone_row option \<Rightarrow> zone_row list \<Rightarrow> byte list option \<Rightarrow> bool" where
  "column_described V att w zo zs flt \<longleftrightarrow>
     def_ok (cw_D w) (cw_B w) (cw_def w) \<and> set (present_values V att (concat (cw_rows w))) \<subseteq> cw_D w \<and>
     (\<forall>z. zo = Some z \<longrightarrow> zone_describes V att (cw_def w) (cw_D w) (cw_B w) (concat (cw_rows w)) (- 1) z) \<and>
     (\<forall>v z. vector_row zs v = Some z \<longrightarrow> v < length (cw_rows w) \<and>
        zone_describes V att (cw_def w) (cw_D w) (cw_B w) (cw_rows w ! v) (int v) z) \<and>
     (\<forall>f. flt = Some f \<longrightarrow> bloomable (cw_def w) \<and>
        (\<forall>v \<in> set (present_values V att (concat (cw_rows w))). PgColumnarBloomProbe (Some f) (valueHash (cw_def w) v)))"

definition group_described :: "pg_datum \<Rightarrow> table_col list \<Rightarrow> (nat \<Rightarrow> column_written) \<Rightarrow> group_meta \<Rightarrow> bool" where
  "group_described V td W G \<longleftrightarrow>
     (\<forall>c < length td. column_described V (tc_att (td ! c)) (W c) (PgColumnarReadZoneMapForColumn G c)
        (PgColumnarReadZoneMapVectorsForColumn G c) (gm_bloom G c))"

definition preds_fit :: "table_col list \<Rightarrow> (nat \<Rightarrow> column_written) \<Rightarrow> skip_predicate list \<Rightarrow> bool" where
  "preds_fit td W ps \<longleftrightarrow>
     (\<forall>p \<in> set ps. attidx p < length td \<and> pred_fits (cw_def (W (attidx p))) (cw_D (W (attidx p))) (cw_B (W (attidx p))) p)"

text \<open>Some row of a column satisfies a predicate; a row of the group satisfies all of them.\<close>

definition cell_matches :: "pg_datum \<Rightarrow> table_col list \<Rightarrow> skip_predicate \<Rightarrow> datum option \<Rightarrow> bool" where
  "cell_matches V td p cell \<longleftrightarrow> (\<exists>v. cell = Some v \<and> pred_matches p (flat_datum V (tc_att (td ! attidx p)) v))"

definition row_matches ::
  "pg_datum \<Rightarrow> table_col list \<Rightarrow> (nat \<Rightarrow> column_written) \<Rightarrow> skip_predicate list \<Rightarrow> nat \<Rightarrow> bool" where
  "row_matches V td W ps i \<longleftrightarrow>
     (\<forall>p \<in> set ps. i < length (concat (cw_rows (W (attidx p)))) \<and>
        cell_matches V td p (concat (cw_rows (W (attidx p))) ! i))"

lemma cell_present:
  "cell \<in> set rows \<Longrightarrow> cell_matches V td p cell \<Longrightarrow>
   \<exists>v \<in> set (present_values V (tc_att (td ! attidx p)) rows). pred_matches p v"
  by (force simp: cell_matches_def present_values_def)

definition group_excludes :: "pg_datum \<Rightarrow> bool \<Rightarrow> table_col list \<Rightarrow> group_meta \<Rightarrow> skip_predicate \<Rightarrow> bool" where
  "group_excludes V enable_bloom td G p \<longleftrightarrow>
     native_zone_excludes V p (tc_att (td ! attidx p)) (PgColumnarReadZoneMapForColumn G (attidx p)) = Inr True \<or>
     bloom_excludes enable_bloom p (gm_bloom G (attidx p))"

definition zone_decodes :: "pg_datum \<Rightarrow> table_col list \<Rightarrow> group_meta \<Rightarrow> skip_predicate \<Rightarrow> bool" where
  "zone_decodes V td G p \<longleftrightarrow>
     (\<exists>ex. native_zone_excludes V p (tc_att (td ! attidx p)) (PgColumnarReadZoneMapForColumn G (attidx p)) = Inr ex)"

lemma native_zone_excludes_None [simp]: "native_zone_excludes V p att None = Inr False"
  by (simp add: native_zone_excludes_def native_range_excludes_def)

lemma bloom_excludes_sound:
  assumes fits: "pred_fits def D B p" and b: "bloomable def" "\<forall>v \<in> S. PgColumnarBloomProbe (Some f) (valueHash def v)"
    and S: "S \<subseteq> D" and ex: "bloom_excludes eb p (Some f)" and v: "v \<in> S"
  shows "\<not> pred_matches p v"
proof
  assume m: "pred_matches p v"
  have st: "strategy p = BTEqual" "hasHash p" using ex by (simp_all add: bloom_excludes_def)
  have nr: "\<not> rangePred p" using fits st by (auto simp: pred_fits_def split: if_splits)
  have "\<exists>x \<in> pred_consts p. predCmpFn p v x = 0" using m nr st
    by (auto simp: pred_matches_def native_value_satisfies_def pred_consts_def list_ex_iff strategy_consts split: if_splits)
  then obtain x where x: "x \<in> pred_consts p" "hashFn p x = valueHash def v"
    using fits nr st b(1) v S by (auto simp: pred_fits_def scalar_pred_fits_def)
  then show False using ex b(2) v by (auto simp: bloom_excludes_def pred_consts_def list_ex_iff split: if_splits)
qed

lemma group_excludes_sound:
  assumes G: "group_described V td W G" and fits: "preds_fit td W ps" and p: "p \<in> set ps"
  shows "zone_decodes V td G p"
    and "group_excludes V eb td G p \<Longrightarrow> cell \<in> set (concat (cw_rows (W (attidx p)))) \<Longrightarrow> \<not> cell_matches V td p cell"
proof -
  let ?c = "attidx p" and ?att = "tc_att (td ! attidx p)" and ?w = "W (attidx p)"
  let ?S = "set (present_values V ?att (concat (cw_rows ?w)))"
  have c: "?c < length td" and pf: "pred_fits (cw_def ?w) (cw_D ?w) (cw_B ?w) p" using fits p by (simp_all add: preds_fit_def)
  have d: "column_described V ?att ?w (PgColumnarReadZoneMapForColumn G ?c)
      (PgColumnarReadZoneMapVectorsForColumn G ?c) (gm_bloom G ?c)" using G c by (simp add: group_described_def)
  then have ok: "def_ok (cw_D ?w) (cw_B ?w) (cw_def ?w)" "?S \<subseteq> cw_D ?w" by (simp_all add: column_described_def)
  have z: "\<exists>ex. native_zone_excludes V p ?att (PgColumnarReadZoneMapForColumn G ?c) = Inr ex \<and>
      (ex \<longrightarrow> (\<forall>v \<in> ?S. \<not> pred_matches p v))"
  proof (cases "PgColumnarReadZoneMapForColumn G ?c")
    case (Some z)
    then have "zone_describes V ?att (cw_def ?w) (cw_D ?w) (cw_B ?w) (concat (cw_rows ?w)) (- 1) z"
      using d by (simp add: column_described_def)
    from zone_excludes_sound[OF this ok(1) pf ok(2)] show ?thesis using Some by metis
  qed (auto intro: exI[of _ False])
  then show "zone_decodes V td G p" by (auto simp: zone_decodes_def)
  show "\<not> cell_matches V td p cell" if "group_excludes V eb td G p" "cell \<in> set (concat (cw_rows ?w))"
  proof (cases "bloom_excludes eb p (gm_bloom G ?c)")
    case True
    then obtain f where f: "gm_bloom G ?c = Some f" by (auto simp: bloom_excludes_def)
    then have "bloomable (cw_def ?w)" "\<forall>v \<in> ?S. PgColumnarBloomProbe (Some f) (valueHash (cw_def ?w) v)"
      using d by (simp_all add: column_described_def)
    then show ?thesis using bloom_excludes_sound[OF pf _ _ ok(2)] cell_present[OF that(2)] True f by metis
  next
    case False
    then show ?thesis using z that cell_present[OF that(2)] by (auto simp: group_excludes_def)
  qed
qed

text \<open>The loop over the predicates, in whatever order, answers the conjunction.\<close>

lemma can_match_loop_eq:
  assumes "\<forall>oi \<in> set ois. zone_decodes V td G (predicates rs ! (predOrder rs ! oi))"
  shows "\<exists>rs'. can_match_loop V eb td G ois rs =
      Inr (\<forall>oi \<in> set ois. \<not> group_excludes V eb td G (predicates rs ! (predOrder rs ! oi)), rs') \<and>
    (rs' = rs \<or> (\<exists>oi \<in> set ois. rs' = pgcolumnar_predicate_excluded oi rs))"
  using assms
proof (induction ois)
  case (Cons oi ois)
  let ?p = "predicates rs ! (predOrder rs ! oi)"
  obtain ex where ex: "native_zone_excludes V ?p (tc_att (td ! attidx ?p)) (PgColumnarReadZoneMapForColumn G (attidx ?p)) = Inr ex"
    using Cons.prems by (auto simp: zone_decodes_def)
  show ?case
  proof (cases "group_excludes V eb td G ?p")
    case True
    then show ?thesis using ex by (auto simp: group_excludes_def Let_def)
  next
    case False
    then have "can_match_loop V eb td G (oi # ois) rs = can_match_loop V eb td G ois rs"
      using ex by (auto simp: group_excludes_def Let_def)
    with Cons False show ?thesis by auto
  qed
qed simp

subsection \<open>The order of evaluation\<close>

text \<open>The order is a permutation of the predicates in use.\<close>

definition order_ok :: "prune_state \<Rightarrow> bool" where
  "order_ok rs \<longleftrightarrow> numPredicates rs \<le> length (predicates rs) \<and> numPredicates rs \<le> length (predOrder rs) \<and>
     mset (take (numPredicates rs) (predOrder rs)) = mset [0..<numPredicates rs]"

text \<open>Two states whose predicates differ at most in how often they excluded.\<close>

definition same_preds :: "prune_state \<Rightarrow> prune_state \<Rightarrow> bool" where
  "same_preds rs rs' \<longleftrightarrow> numPredicates rs' = numPredicates rs \<and>
     map (excludes_update (\<lambda>_. 0)) (predicates rs') = map (excludes_update (\<lambda>_. 0)) (predicates rs)"

lemma excludes_counter [simp]:
  "zone_max_upper V (p\<lparr>excludes := k\<rparr>) z = zone_max_upper V p z"
  "overlap_excludes (p\<lparr>excludes := k\<rparr>) r mu = overlap_excludes p r mu"
  "contains_excludes (p\<lparr>excludes := k\<rparr>) r mu = contains_excludes p r mu"
  "min_max_excludes (p\<lparr>excludes := k\<rparr>) mn mx = min_max_excludes p mn mx"
  "bloom_excludes eb (p\<lparr>excludes := k\<rparr>) flt = bloom_excludes eb p flt"
  by (simp_all add: zone_max_upper_def overlap_excludes_def contains_excludes_def min_max_excludes_def
      bloom_excludes_def Let_def split: option.split)

lemma zone_excludes_counter [simp]:
  "native_zone_excludes V (p\<lparr>excludes := k\<rparr>) att zo = native_zone_excludes V p att zo"
  by (simp add: native_zone_excludes_def native_range_excludes_def Let_def split: option.split cong: if_cong)

lemma group_excludes_counter [simp]:
  "group_excludes V eb td G (p\<lparr>excludes := k\<rparr>) = group_excludes V eb td G p"
  "zone_decodes V td G (p\<lparr>excludes := k\<rparr>) = zone_decodes V td G p"
  by (simp_all add: group_excludes_def zone_decodes_def)

lemma same_preds_all:
  assumes "same_preds rs rs'" and "\<And>p. Q (p\<lparr>excludes := 0\<rparr>) = Q p"
  shows "(\<forall>p \<in> set (take (numPredicates rs') (predicates rs')). Q p) = (\<forall>p \<in> set (take (numPredicates rs) (predicates rs)). Q p)"
proof -
  have "(\<forall>p \<in> set (take n ps). Q p) = (\<forall>p \<in> set (take n (map (excludes_update (\<lambda>_. 0)) ps)). Q p)" for n ps
    using assms(2) by (auto simp: take_map)
  then show ?thesis using assms(1) unfolding same_preds_def by metis
qed

lemma predicate_excluded_ok:
  assumes "order_ok rs" "oi < numPredicates rs"
  shows "order_ok (pgcolumnar_predicate_excluded oi rs)" "same_preds rs (pgcolumnar_predicate_excluded oi rs)"
proof -
  let ?n = "numPredicates rs" and ?o = "predOrder rs"
  have swap: "mset (take ?n (?o[oi - 1 := ?o ! oi, oi := ?o ! (oi - 1)])) = mset (take ?n ?o)"
  proof -
    have "take ?n (?o[oi - 1 := ?o ! oi, oi := ?o ! (oi - 1)]) =
        (take ?n ?o)[oi - 1 := take ?n ?o ! oi, oi := take ?n ?o ! (oi - 1)]"
      using assms(2) by (simp add: take_update_swap)
    also have "mset \<dots> = mset (take ?n ?o)" using assms by (intro mset_swap) (auto simp: order_ok_def)
    finally show ?thesis .
  qed
  then show "order_ok (pgcolumnar_predicate_excluded oi rs)"
    using assms by (simp add: order_ok_def pgcolumnar_predicate_excluded_def Let_def)
  have "map (excludes_update (\<lambda>_. 0)) (ps[k := (ps ! k)\<lparr>excludes := m\<rparr>]) = map (excludes_update (\<lambda>_. 0)) ps" for ps k m
    by (cases "k < length ps") (auto simp: map_update list_update_same_conv list_update_beyond)
  moreover have "numPredicates (pgcolumnar_predicate_excluded oi rs) = ?n"
      "\<exists>k m. predicates (pgcolumnar_predicate_excluded oi rs) = (predicates rs)[k := (predicates rs ! k)\<lparr>excludes := m\<rparr>]"
    by (auto simp: pgcolumnar_predicate_excluded_def Let_def)
  ultimately show "same_preds rs (pgcolumnar_predicate_excluded oi rs)"
    unfolding same_preds_def by metis
qed

lemma ball_set_take: "n \<le> length xs \<Longrightarrow> (\<forall>x \<in> set (take n xs). P x) = (\<forall>i < n. P (xs ! i))"
  by (auto simp: set_conv_nth)

lemma order_covers:
  assumes "order_ok rs"
  shows "(\<forall>oi < numPredicates rs. Q (predicates rs ! (predOrder rs ! oi))) =
    (\<forall>p \<in> set (take (numPredicates rs) (predicates rs)). Q p)"
proof -
  let ?n = "numPredicates rs"
  have len: "?n \<le> length (predicates rs)" "?n \<le> length (predOrder rs)" using assms by (simp_all add: order_ok_def)
  have "set (take ?n (predOrder rs)) = {0..<?n}" using assms mset_eq_setD[of "take ?n (predOrder rs)" "[0..<?n]"]
    by (simp add: order_ok_def)
  then have "(\<forall>oi < ?n. Q (predicates rs ! (predOrder rs ! oi))) = (\<forall>k < ?n. Q (predicates rs ! k))"
    using ball_set_take[OF len(2), of "\<lambda>k. Q (predicates rs ! k)"] by (simp add: Ball_def)
  then show ?thesis using ball_set_take[OF len(1), of Q] by simp
qed

lemma group_can_match_eq:
  assumes ord: "order_ok rs" and dec: "\<forall>p \<in> set (take (numPredicates rs) (predicates rs)). zone_decodes V td G p"
  obtains rs' where "pgcolumnar_native_group_can_match V eb td G rs =
      Inr (\<forall>p \<in> set (take (numPredicates rs) (predicates rs)). \<not> group_excludes V eb td G p, rs')"
    "order_ok rs'" "same_preds rs rs'"
proof -
  have "\<forall>oi \<in> set [0..<numPredicates rs]. zone_decodes V td G (predicates rs ! (predOrder rs ! oi))"
    using dec order_covers[OF ord, of "zone_decodes V td G"] by simp
  from can_match_loop_eq[OF this, of eb] obtain rs' where
    rs': "can_match_loop V eb td G [0..<numPredicates rs] rs =
        Inr (\<forall>oi \<in> set [0..<numPredicates rs]. \<not> group_excludes V eb td G (predicates rs ! (predOrder rs ! oi)), rs')"
      "rs' = rs \<or> (\<exists>oi \<in> set [0..<numPredicates rs]. rs' = pgcolumnar_predicate_excluded oi rs)"
    by blast
  have "order_ok rs' \<and> same_preds rs rs'"
    using rs'(2) predicate_excluded_ok[OF ord] ord by (auto simp: same_preds_def)
  moreover have "(\<forall>oi \<in> set [0..<numPredicates rs]. \<not> group_excludes V eb td G (predicates rs ! (predOrder rs ! oi))) =
      (\<forall>p \<in> set (take (numPredicates rs) (predicates rs)). \<not> group_excludes V eb td G p)"
    using order_covers[OF ord, of "\<lambda>p. \<not> group_excludes V eb td G p"] by (simp add: Ball_def)
  ultimately show thesis using that rs'(1) by (simp add: pgcolumnar_native_group_can_match_def)
qed

subsection \<open>From scan keys to predicates\<close>

text \<open>The predicate a key gives in a fresh slot.\<close>

definition key_predicate :: "pred_catalog \<Rightarrow> table_col list \<Rightarrow> scan_key \<Rightarrow> skip_predicate option" where
  "key_predicate K td key =
     (let (out, n) = make_predicate K td key ([zero_pred], 0) in if n = 1 then Some (out ! 0) else None)"

text \<open>A range key whose slot was filled and then given up: an empty probe, or an unknown kind.\<close>

definition key_abandoned :: "pred_catalog \<Rightarrow> table_col list \<Rightarrow> scan_key \<Rightarrow> bool" where
  "key_abandoned K td key \<longleftrightarrow> \<not> key_rejected key (length td) \<and> sk_flags key AND PGC_SK_RANGE \<noteq> 0 \<and>
     (\<exists>p. range_key K (td ! nat (sk_attno key - 1)) key = Some (p, False))"

lemma make_predicate_fresh:
  assumes "\<not> key_abandoned K td key" and "k > 0"
  shows "make_predicate K td key (ps @ replicate k zero_pred, length ps) =
    (case key_predicate K td key of
       None \<Rightarrow> (ps @ replicate k zero_pred, length ps)
     | Some p \<Rightarrow> (ps @ p # replicate (k - 1) zero_pred, length ps + 1))"
proof -
  obtain j where k: "k = Suc j" using assms(2) by (cases k) auto
  show ?thesis using assms(1)
    by (auto simp: k make_predicate_def key_predicate_def key_abandoned_def Let_def nth_append split: option.split)
qed

lemma make_predicates_fresh:
  assumes "\<forall>key \<in> set keys. \<not> key_abandoned K td key" "length keys \<le> k"
  shows "\<exists>j. fold (make_predicate K td) keys (ps @ replicate k zero_pred, length ps) =
    (ps @ List.map_filter (key_predicate K td) keys @ replicate j zero_pred,
     length ps + length (List.map_filter (key_predicate K td) keys))"
  using assms
proof (induction keys arbitrary: ps k)
  case (Cons key keys)
  have na: "\<not> key_abandoned K td key" and k: "k > 0" using Cons.prems by auto
  show ?case
  proof (cases "key_predicate K td key")
    case None
    then show ?thesis using Cons make_predicate_fresh[OF na k, of ps] by (simp add: List.map_filter_simps)
  next
    case (Some p)
    then have "make_predicate K td key (ps @ replicate k zero_pred, length ps) =
        ((ps @ [p]) @ replicate (k - 1) zero_pred, length (ps @ [p]))"
      using make_predicate_fresh[OF na k, of ps] by simp
    then show ?thesis using Cons.IH[of "k - 1" "ps @ [p]"] Cons.prems Some by (simp add: List.map_filter_simps)
  qed
qed (auto simp: List.map_filter_simps)

lemma build_predicates_keys:
  assumes "\<forall>key \<in> set keys. \<not> key_abandoned K td key"
  shows "take (numPredicates (pgcolumnar_build_predicates K td keys empty_prune_state))
      (predicates (pgcolumnar_build_predicates K td keys empty_prune_state)) = List.map_filter (key_predicate K td) keys"
    and "order_ok (pgcolumnar_build_predicates K td keys empty_prune_state)"
proof -
  obtain j where j: "fold (make_predicate K td) keys (replicate (length keys) zero_pred, 0) =
      (List.map_filter (key_predicate K td) keys @ replicate j zero_pred, length (List.map_filter (key_predicate K td) keys))"
    using make_predicates_fresh[OF assms order.refl, of "[]"] by auto
  show "take (numPredicates (pgcolumnar_build_predicates K td keys empty_prune_state))
      (predicates (pgcolumnar_build_predicates K td keys empty_prune_state)) = List.map_filter (key_predicate K td) keys"
      "order_ok (pgcolumnar_build_predicates K td keys empty_prune_state)"
    using j by (auto simp: pgcolumnar_build_predicates_def pgcolumnar_make_predicates_def empty_prune_state_def
        order_ok_def List.map_filter_simps)
qed

text \<open>
  What a key relies on: its constants are values of the column type, or the family's
  procedure for the pair of types is monotone; values equal under the comparison hash
  alike; a range type's order is by lower bounds and the probe's bounds are elements.
\<close>

definition key_consts :: "pred_catalog \<Rightarrow> scan_key \<Rightarrow> datum set" where
  "key_consts K key =
     (if sk_flags key AND SK_SEARCHARRAY \<noteq> 0 then {x. Some x \<in> set (pc_array K (sk_argument key))}
      else {sk_argument key})"

definition key_ok :: "pred_catalog \<Rightarrow> table_col \<Rightarrow> column_written \<Rightarrow> scan_key \<Rightarrow> bool" where
  "key_ok K c w key \<longleftrightarrow>
     (if sk_flags key AND PGC_SK_RANGE \<noteq> 0
      then \<forall>r ec. te_range (pc_types K (tc_collation c) (atttypid (tc_att c))) = Some r \<longrightarrow> re_elemCmp r = Some ec \<longrightarrow>
        range_order_ok (cw_def w) (cw_D w) \<and>
        (if sk_strategy key = PGC_RANGE_OVERLAP
         then {rb_val (rp_lower (re_deserialize r (sk_argument key))), rb_val (rp_upper (re_deserialize r (sk_argument key)))} \<subseteq> cw_B w
         else sk_argument key \<in> cw_B w)
      else (if cross_type K (pc_base K (atttypid (tc_att c))) (key_arg_type K key)
            then \<forall>cmp. key_cmp K c key = Some cmp \<longrightarrow> probe_cmp (cw_D w) (cmpFn (cw_def w)) (key_consts K key) cmp
            else key_consts K key \<subseteq> cw_D w) \<and>
        (\<forall>h. te_hash (pc_types K (tc_collation c) (atttypid (tc_att c))) = Some h \<longrightarrow>
           (\<forall>v \<in> cw_D w. \<forall>x \<in> cw_D w. cmpFn (cw_def w) v x = 0 \<longrightarrow> h x = h v)))"

text \<open>The writer's definition of a column, from the same catalog.\<close>

definition column_def_of :: "pred_catalog \<Rightarrow> bool \<Rightarrow> table_col \<Rightarrow> column_def" where
  "column_def_of K bloomEnabled c =
     build_column_def (pc_types K (tc_collation c)) (tc_att c) (tc_dropped c) (pc_deterministic K (tc_collation c)) bloomEnabled"

lemma column_def_fields:
  fixes K be c
  defines "def \<equiv> column_def_of K be c" and "e \<equiv> pc_types K (tc_collation c) (atttypid (tc_att c))"
  shows "orderable def \<Longrightarrow> te_cmp e = Some (cmpFn def)"
    and "bloomable def \<Longrightarrow> te_hash e = Some (valueHash def)"
    and "orderable def \<Longrightarrow> te_range e = Some r \<Longrightarrow> re_elemCmp r = Some ec \<Longrightarrow>
      isRange def \<and> rangeDeserialize def = re_deserialize r \<and> elemCmpFn def = ec \<and>
      elemByVal def = re_elemByVal r \<and> elemLen def = re_elemLen r"
    and "bloomable def \<Longrightarrow> te_cmp e = Some cmp \<Longrightarrow> orderable def"
  by (auto simp: def_def e_def column_def_of_def build_column_def_def Let_def zero_def_def split: if_splits option.splits)

lemma key_predicate_cases:
  assumes "key_predicate K td key = Some p"
  obtains (range) r ec where "sk_flags key AND PGC_SK_RANGE \<noteq> 0"
      "te_range (pc_types K (tc_collation (td ! nat (sk_attno key - 1))) (atttypid (tc_att (td ! nat (sk_attno key - 1))))) = Some r"
      "re_elemCmp r = Some ec" "range_slot key r ec = (p, True)"
    | (scalar) cmp where "sk_flags key AND PGC_SK_RANGE = 0"
      "key_cmp K (td ! nat (sk_attno key - 1)) key = Some cmp" "p = scalar_slot K (td ! nat (sk_attno key - 1)) key cmp zero_pred"
      "sk_flags key AND SK_SEARCHARRAY \<noteq> 0 \<longrightarrow> sk_strategy key = BTEqual"
  using assms by (auto simp: key_predicate_def make_predicate_def range_key_def key_rejected_def Let_def
      split: if_splits option.splits prod.splits)

lemma key_predicate_attidx:
  assumes "key_predicate K td key = Some p"
  shows "attidx p = nat (sk_attno key - 1)" "attidx p < length td"
proof -
  have "\<not> key_rejected key (length td)" using assms by (auto simp: key_predicate_def make_predicate_def split: if_splits)
  then have r: "1 \<le> sk_attno key" "sk_attno key \<le> int (length td)" by (auto simp: key_rejected_def)
  show 1: "attidx p = nat (sk_attno key - 1)"
    by (rule key_predicate_cases[OF assms])
      (auto simp: range_slot_def scalar_slot_def zero_pred_def Let_def split: if_splits option.splits)
  show "attidx p < length td" using 1 r by linarith
qed

lemma the_some_image: "the ` {x \<in> S. \<exists>y. x = Some y} = {y. Some y \<in> S}"
  by force

lemma scalar_slot_fields:
  assumes "p = scalar_slot K c key cmp zero_pred"
  shows "\<not> rangePred p" "predCmpFn p = cmp" "pred_consts p = key_consts K key" "strategy p = sk_strategy key"
    "searchArray p \<longleftrightarrow> sk_flags key AND SK_SEARCHARRAY \<noteq> 0"
    "hasHash p \<Longrightarrow> te_hash (pc_types K (tc_collation c) (atttypid (tc_att c))) = Some (hashFn p) \<and>
       \<not> cross_type K (pc_base K (atttypid (tc_att c))) (key_arg_type K key)"
  unfolding assms
  by (auto simp: scalar_slot_def zero_pred_def pred_consts_def key_consts_def the_some_image Let_def
      split: if_splits option.splits)

lemma key_predicate_fits:
  assumes p: "key_predicate K td key = Some p" and w: "cw_def w = column_def_of K be (td ! nat (sk_attno key - 1))"
    and ok: "key_ok K (td ! nat (sk_attno key - 1)) w key" and def: "def_ok (cw_D w) (cw_B w) (cw_def w)"
  shows "pred_fits (cw_def w) (cw_D w) (cw_B w) p"
proof -
  let ?c = "td ! nat (sk_attno key - 1)"
  let ?e = "pc_types K (tc_collation ?c) (atttypid (tc_att ?c))"
  note f = column_def_fields[of K be ?c, folded w]
  show ?thesis using p
  proof (cases rule: key_predicate_cases)
    case (range r ec)
    have slot: "rangePred p" "rangeKind p = sk_strategy key" "strategy p = 0" "rangeTce p = re_deserialize r"
        "predElemCmpFn p = ec" "predElemByVal p = re_elemByVal r" "predElemLen p = re_elemLen r"
        "rangeKind p = PGC_RANGE_OVERLAP \<Longrightarrow> probeLower p = rp_lower (re_deserialize r (sk_argument key)) \<and>
           probeUpper p = rp_upper (re_deserialize r (sk_argument key))"
        "rangeKind p \<noteq> PGC_RANGE_OVERLAP \<Longrightarrow> probeElem p = sk_argument key"
      using range(4) by (auto simp: range_slot_def zero_pred_def Let_def strategy_consts split: if_splits)
    have "range_pred_fits (cw_def w) (cw_D w) (cw_B w) p" if "orderable (cw_def w)"
      using f(3)[OF that range(2,3)] ok slot range(1,2,3) by (auto simp: range_pred_fits_def key_ok_def split: if_splits)
    then show ?thesis using slot by (simp add: pred_fits_def strategy_consts)
  next
    case (scalar cmp)
    note s = scalar_slot_fields[OF scalar(3)]
    have own: "te_cmp ?e = Some cmp" "key_consts K key \<subseteq> cw_D w"
      if "\<not> cross_type K (pc_base K (atttypid (tc_att ?c))) (key_arg_type K key)"
      using scalar(1,2) ok that by (auto simp: key_cmp_def key_ok_def Let_def split: option.splits if_splits)
    have "probe_cmp (cw_D w) (cmpFn (cw_def w)) (pred_consts p) (predCmpFn p)" if o: "orderable (cw_def w)"
    proof (cases "cross_type K (pc_base K (atttypid (tc_att ?c))) (key_arg_type K key)")
      case True
      then show ?thesis using ok scalar(1,2) s by (simp add: key_ok_def)
    next
      case False
      have "total_cmp (cw_D w) (cmpFn (cw_def w))" using def o by (simp add: def_ok_def)
      from total_cmp.own_probe[OF this own(2)[OF False]] show ?thesis
        using own(1)[OF False] f(1)[OF o] s by simp
    qed
    moreover have "hashFn p x = valueHash (cw_def w) v"
      if h: "hasHash p" "bloomable (cw_def w)" and vx: "v \<in> cw_D w" "x \<in> pred_consts p" "predCmpFn p v x = 0" for v x
    proof -
      have nc: "te_hash ?e = Some (hashFn p)" "\<not> cross_type K (pc_base K (atttypid (tc_att ?c))) (key_arg_type K key)"
        using s(6)[OF h(1)] by simp_all
      have "valueHash (cw_def w) = hashFn p" using f(2)[OF h(2)] nc(1) by simp
      moreover have "cmpFn (cw_def w) = predCmpFn p" using f(1)[OF f(4)[OF h(2) own(1)[OF nc(2)]]] own(1)[OF nc(2)] s by simp
      moreover have "x \<in> cw_D w" using vx(2) own(2)[OF nc(2)] s by auto
      ultimately show ?thesis using ok scalar(1) nc(1) vx by (auto simp: key_ok_def)
    qed
    ultimately show ?thesis using s scalar(4) by (auto simp: pred_fits_def scalar_pred_fits_def)
  qed
qed

subsection \<open>A flushed row group\<close>

lemma concat_nth_vector:
  assumes "v < length xss" "sum_list (map length (take v xss)) \<le> i" "i < sum_list (map length (take (Suc v) xss))"
  shows "concat xss ! i \<in> set (xss ! v)"
proof -
  have split: "concat xss = concat (take v xss) @ xss ! v @ concat (drop (Suc v) xss)"
    using assms(1) by (metis concat_append id_take_nth_drop concat.simps(2))
  have len: "length (concat (take v xss)) = sum_list (map length (take v xss))" by (simp add: length_concat)
  have "sum_list (map length (take (Suc v) xss)) = sum_list (map length (take v xss)) + length (xss ! v)"
    using assms(1) by (simp add: take_Suc_conv_app_nth)
  then have "i - length (concat (take v xss)) < length (xss ! v)" using assms len by linarith
  then show ?thesis using assms(2) len by (subst split) (simp add: nth_append del: length_concat)
qed

lemma vector_starts:
  "fold (\<lambda>v starts. starts @ [last starts + f v]) [0..<n] [0 :: u32] = map (\<lambda>k. \<Sum>v < k. f v) [0..<Suc n]"
  by (induction n) (simp_all add: lessThan_Suc)

lemma zone_describes_span:
  assumes "zone_describes V att def D B rows vec z"
  shows "z_valueCount z + z_nullCount z = length rows"
proof -
  have "length (present_values V att rows) \<le> length rows" by (simp add: present_values_def)
  then show ?thesis using assms count_present[of rows V att] by (simp add: zone_describes_def Let_def)
qed

text \<open>The catalog rows a flush leaves for a column.\<close>

definition column_flushed ::
  "flush_cfg \<Rightarrow> (u64 \<Rightarrow> nat \<Rightarrow> bool) \<Rightarrow> attr \<Rightarrow> column_written \<Rightarrow> flush_result \<Rightarrow> bool" where
  "column_flushed C ok att w res \<longleftrightarrow>
     column_ready C ok att (cw_def w) (cw_D w) (cw_B w) (cw_rows w) \<and>
     (\<exists>cols memo memo'. column_buffers (env_pg (cfg_env C)) att (cw_def w) (cw_rows w) cols \<and>
        flush_one_column C att False (cw_def w) cols (length (concat (cw_rows w))) ((length (concat (cw_rows w)) + 7) div 8) memo =
          Inr (Some res, memo'))"

definition flushed_meta :: "(nat \<Rightarrow> flush_result) \<Rightarrow> group_meta" where
  "flushed_meta res = \<lparr>gm_rows = (\<lambda>c. fres_zoneRows (res c)), gm_bloom = (\<lambda>c. fres_bloom (res c))\<rparr>"

lemma flushed_zone_rows:
  assumes "column_flushed C ok att w res"
  obtains zs z where "fres_zoneRows res = zs @ [z]" "length zs = length (cw_rows w)"
    "\<forall>i < length zs. zone_describes (env_pg (cfg_env C)) att (cw_def w) (cw_D w) (cw_B w) (cw_rows w ! i) (int i) (zs ! i)"
    "zone_describes (env_pg (cfg_env C)) att (cw_def w) (cw_D w) (cw_B w) (concat (cw_rows w)) (- 1) z"
    "\<forall>f. fres_bloom res = Some f \<longrightarrow> bloomable (cw_def w) \<and>
        (\<forall>v \<in> set (present_values (env_pg (cfg_env C)) att (concat (cw_rows w))).
           PgColumnarBloomProbe (Some f) (valueHash (cw_def w) v))"
proof -
  let ?vb = "(length (concat (cw_rows w)) + 7) div 8"
  have vb: "length (concat (cw_rows w)) \<le> 8 * ?vb" by linarith
  obtain cols memo memo' where r: "column_ready C ok att (cw_def w) (cw_D w) (cw_B w) (cw_rows w)"
      "column_buffers (env_pg (cfg_env C)) att (cw_def w) (cw_rows w) cols"
      "flush_one_column C att False (cw_def w) cols (length (concat (cw_rows w))) ?vb memo = Inr (Some res, memo')"
    using assms unfolding column_flushed_def by blast
  obtain zs z where f: "fres_zoneRows res = zs @ [z]" "length zs = length (cw_rows w)"
      "\<forall>i < length (cw_rows w). zone_describes (env_pg (cfg_env C)) att (cw_def w) (cw_D w) (cw_B w) (cw_rows w ! i) (int i) (zs ! i)"
      "zone_describes (env_pg (cfg_env C)) att (cw_def w) (cw_D w) (cw_B w) (concat (cw_rows w)) (- 1) z"
      "fres_bloom res = flush_bloom (cfg_hll C) (cw_def w) cols"
    by (rule column_flush[OF r(1,2) HOL.refl vb, where memo = memo and skp = "\<lambda>_. False"]) (use r(3) in auto)
  have "bloomable (cw_def w) \<and> (\<forall>v \<in> set (present_values (env_pg (cfg_env C)) att (concat (cw_rows w))).
           PgColumnarBloomProbe (Some b) (valueHash (cw_def w) v))" if "fres_bloom res = Some b" for b
    using that f(5) flush_bloom_admits[OF r(1,2)] by (auto simp: flush_bloom_def split: if_splits)
  then show thesis using that f(1-4) by simp
qed

lemma flushed_column_rows:
  assumes rows: "fres_zoneRows (res c) = zs @ [z]"
    and zs: "\<forall>i < length zs. z_vectorIndex (zs ! i) = int i" and z: "z_vectorIndex z = -1"
  shows "PgColumnarReadZoneMapForColumn (flushed_meta res) c = Some z"
    and "PgColumnarReadZoneMapVectorsForColumn (flushed_meta res) c = zs"
    and "vector_row zs v = (if v < length zs then Some (zs ! v) else None)"
proof -
  have neg: "z_vectorIndex y \<noteq> -1 \<and> z_vectorIndex y \<ge> 0" if "y \<in> set zs" for y
    using that zs by (auto simp: in_set_conv_nth)
  have "find (\<lambda>z. z_vectorIndex z = -1) zs = None" using neg by (simp add: find_None_iff)
  then have "find (\<lambda>z. z_vectorIndex z = -1) (zs @ [z]) = Some z"
    using z by (induction zs) (auto split: if_splits)
  then show "PgColumnarReadZoneMapForColumn (flushed_meta res) c = Some z"
    using rows by (simp add: PgColumnarReadZoneMapForColumn_def flushed_meta_def)
  show "PgColumnarReadZoneMapVectorsForColumn (flushed_meta res) c = zs"
    using rows neg z by (simp add: PgColumnarReadZoneMapVectorsForColumn_def flushed_meta_def)
  show "vector_row zs v = (if v < length zs then Some (zs ! v) else None)"
  proof (cases "v < length zs")
    case True
    obtain y where y: "vector_row zs v = Some y"
      using True zs nth_mem[OF True] by (cases "vector_row zs v") (auto simp: vector_row_def find_None_iff)
    then have "y \<in> set zs" "z_vectorIndex y = int v" by (auto simp: vector_row_def find_Some_iff) (metis length_rev nth_mem set_rev)
    then show ?thesis using y True zs by (auto simp: in_set_conv_nth)
  next
    case False
    then show ?thesis using zs by (auto simp: vector_row_def find_None_iff in_set_conv_nth)
  qed
qed

definition group_flushed ::
  "flush_cfg \<Rightarrow> (u64 \<Rightarrow> nat \<Rightarrow> bool) \<Rightarrow> table_col list \<Rightarrow> nat list \<Rightarrow> (nat \<Rightarrow> column_written) \<Rightarrow> (nat \<Rightarrow> flush_result) \<Rightarrow> bool" where
  "group_flushed C ok td lens W res \<longleftrightarrow>
     (\<forall>c < length td. column_flushed C ok (tc_att (td ! c)) (W c) (res c) \<and> map length (cw_rows (W c)) = lens)"

lemma group_flushed_described:
  assumes "group_flushed C ok td lens W res"
  shows "group_described (env_pg (cfg_env C)) td W (flushed_meta res)"
  unfolding group_described_def
proof (intro allI impI)
  fix c assume "c < length td"
  then have cf: "column_flushed C ok (tc_att (td ! c)) (W c) (res c)" using assms by (simp add: group_flushed_def)
  obtain zs z where f: "fres_zoneRows (res c) = zs @ [z]" "length zs = length (cw_rows (W c))"
    "\<forall>i < length zs. zone_describes (env_pg (cfg_env C)) (tc_att (td ! c)) (cw_def (W c)) (cw_D (W c)) (cw_B (W c)) (cw_rows (W c) ! i) (int i) (zs ! i)"
    "zone_describes (env_pg (cfg_env C)) (tc_att (td ! c)) (cw_def (W c)) (cw_D (W c)) (cw_B (W c)) (concat (cw_rows (W c))) (- 1) z"
    "\<forall>f. fres_bloom (res c) = Some f \<longrightarrow> bloomable (cw_def (W c)) \<and>
        (\<forall>v \<in> set (present_values (env_pg (cfg_env C)) (tc_att (td ! c)) (concat (cw_rows (W c)))).
           PgColumnarBloomProbe (Some f) (valueHash (cw_def (W c)) v))"
    by (rule flushed_zone_rows[OF cf]) (rule that)
  have ix: "\<forall>i < length zs. z_vectorIndex (zs ! i) = int i" "z_vectorIndex z = - 1"
    using f(3,4) by (simp_all add: zone_describes_def Let_def)
  note r = flushed_column_rows[where res = res and c = c, OF f(1) ix]
  have "def_ok (cw_D (W c)) (cw_B (W c)) (cw_def (W c))"
      "set (present_values (env_pg (cfg_env C)) (tc_att (td ! c)) (concat (cw_rows (W c)))) \<subseteq> cw_D (W c)"
    using cf unfolding column_flushed_def column_ready_def rows_ok_def by (auto simp: present_values_concat)
  then show "column_described (env_pg (cfg_env C)) (tc_att (td ! c)) (W c)
      (PgColumnarReadZoneMapForColumn (flushed_meta res) c)
      (PgColumnarReadZoneMapVectorsForColumn (flushed_meta res) c) (gm_bloom (flushed_meta res) c)"
    using f r by (simp add: column_described_def flushed_meta_def)
qed

text \<open>The spans come from whichever column has rows, and are those of every column.\<close>

lemma flushed_spans:
  assumes G: "group_flushed C ok td lens W res" and c: "c < length td" and v: "v < length lens"
  shows "vector_span (PgColumnarReadZoneMapVectorsForColumn (flushed_meta res) c) v = of_nat (lens ! v)"
    and "PgColumnarReadZoneMapVectorsForColumn (flushed_meta res) c \<noteq> []"
proof -
  have cf: "column_flushed C ok (tc_att (td ! c)) (W c) (res c)" "lens = map length (cw_rows (W c))"
    using G c by (simp_all add: group_flushed_def)
  obtain zs z where f: "fres_zoneRows (res c) = zs @ [z]" "length zs = length (cw_rows (W c))"
    "\<forall>i < length zs. zone_describes (env_pg (cfg_env C)) (tc_att (td ! c)) (cw_def (W c)) (cw_D (W c)) (cw_B (W c)) (cw_rows (W c) ! i) (int i) (zs ! i)"
    "zone_describes (env_pg (cfg_env C)) (tc_att (td ! c)) (cw_def (W c)) (cw_D (W c)) (cw_B (W c)) (concat (cw_rows (W c))) (- 1) z"
    by (rule flushed_zone_rows[OF cf(1)]) (rule that)
  have ix: "\<forall>i < length zs. z_vectorIndex (zs ! i) = int i" "z_vectorIndex z = - 1"
    using f(3,4) by (simp_all add: zone_describes_def Let_def)
  note r = flushed_column_rows[where res = res and c = c, OF f(1) ix]
  have "z_valueCount (zs ! v) + z_nullCount (zs ! v) = lens ! v"
    using f(2,3) v cf(2) zone_describes_span by auto
  then show "vector_span (PgColumnarReadZoneMapVectorsForColumn (flushed_meta res) c) v = of_nat (lens ! v)"
    using r(2,3) v f(2) cf(2) by (simp add: vector_span_def)
  show "PgColumnarReadZoneMapVectorsForColumn (flushed_meta res) c \<noteq> []" using r(2) v f(2) cf(2) by auto
qed

lemma vector_excluded_sound:
  assumes G: "group_described V td W G" and fits: "preds_fit td W ps"
  obtains ex where "vector_excluded V td G v ps = Inr ex"
    "ex \<Longrightarrow> \<exists>p \<in> set ps. v < length (cw_rows (W (attidx p))) \<and> (\<forall>cell \<in> set (cw_rows (W (attidx p)) ! v). \<not> cell_matches V td p cell)"
  using fits
proof (induction ps arbitrary: thesis)
  case Nil
  show ?case by (rule Nil.prems(1)[of False]) simp_all
next
  case (Cons p ps)
  let ?att = "tc_att (td ! attidx p)" and ?w = "W (attidx p)"
  have pf: "attidx p < length td" "pred_fits (cw_def ?w) (cw_D ?w) (cw_B ?w) p" "preds_fit td W ps"
    using Cons.prems(2) by (simp_all add: preds_fit_def)
  obtain rest where rest: "vector_excluded V td G v ps = Inr rest"
      "rest \<Longrightarrow> \<exists>p \<in> set ps. v < length (cw_rows (W (attidx p))) \<and> (\<forall>cell \<in> set (cw_rows (W (attidx p)) ! v). \<not> cell_matches V td p cell)"
    by (rule Cons.IH[OF _ pf(3)]) (rule that)
  let ?zo = "vector_row (PgColumnarReadZoneMapVectorsForColumn G (attidx p)) v"
  have d: "column_described V ?att ?w (PgColumnarReadZoneMapForColumn G (attidx p))
      (PgColumnarReadZoneMapVectorsForColumn G (attidx p)) (gm_bloom G (attidx p))"
    using G pf(1) by (simp add: group_described_def)
  have "\<exists>ex. native_zone_excludes V p ?att ?zo = Inr ex \<and>
      (ex \<longrightarrow> v < length (cw_rows ?w) \<and> (\<forall>cell \<in> set (cw_rows ?w ! v). \<not> cell_matches V td p cell))"
  proof (cases ?zo)
    case (Some z)
    then have z: "v < length (cw_rows ?w)" "zone_describes V ?att (cw_def ?w) (cw_D ?w) (cw_B ?w) (cw_rows ?w ! v) (int v) z"
        "def_ok (cw_D ?w) (cw_B ?w) (cw_def ?w)" "set (present_values V ?att (concat (cw_rows ?w))) \<subseteq> cw_D ?w"
      using d by (simp_all add: column_described_def)
    have "set (present_values V ?att (cw_rows ?w ! v)) \<subseteq> cw_D ?w"
      using z(4) nth_mem[OF z(1)] by (auto simp: present_values_concat)
    from zone_excludes_sound[OF z(2,3) pf(2) this] show ?thesis using Some z(1) cell_present by metis
  qed (auto intro: exI[of _ False])
  then obtain ex where ex: "native_zone_excludes V p ?att ?zo = Inr ex"
      "ex \<longrightarrow> v < length (cw_rows ?w) \<and> (\<forall>cell \<in> set (cw_rows ?w ! v). \<not> cell_matches V td p cell)"
    by blast
  show ?case by (rule Cons.prems(1)[of "ex \<or> rest"]) (use ex rest in auto)
qed

lemma res_map_all: "(\<And>x. x \<in> set xs \<Longrightarrow> f x = Inr (g x)) \<Longrightarrow> res_map f xs = Inr (map g xs)"
  by (induction xs) simp_all

text \<open>What the keys of a scan rely on.\<close>

definition keys_ok :: "pred_catalog \<Rightarrow> table_col list \<Rightarrow> (nat \<Rightarrow> column_written) \<Rightarrow> scan_key list \<Rightarrow> bool" where
  "keys_ok K td W keys \<longleftrightarrow>
     (\<forall>key \<in> set keys. \<not> key_abandoned K td key \<and>
        (key_predicate K td key \<noteq> None \<longrightarrow> key_ok K (td ! nat (sk_attno key - 1)) (W (nat (sk_attno key - 1))) key))"

lemma keys_preds_fit:
  assumes keys: "keys_ok K td W keys" and defs: "\<forall>c < length td. cw_def (W c) = column_def_of K be (td ! c)"
    and ok: "\<forall>c < length td. def_ok (cw_D (W c)) (cw_B (W c)) (cw_def (W c))"
  shows "preds_fit td W (List.map_filter (key_predicate K td) keys)"
  unfolding preds_fit_def
proof
  fix p assume "p \<in> set (List.map_filter (key_predicate K td) keys)"
  then obtain key where key: "key \<in> set keys" "key_predicate K td key = Some p" by (auto simp: List.map_filter_def)
  note ix = key_predicate_attidx[OF key(2)]
  have "pred_fits (cw_def (W (attidx p))) (cw_D (W (attidx p))) (cw_B (W (attidx p))) p"
    using keys key defs ok ix(2) by (intro key_predicate_fits[OF key(2), where be = be]) (auto simp: keys_ok_def ix(1)[symmetric])
  with ix(2) show "attidx p < length td \<and> pred_fits (cw_def (W (attidx p))) (cw_D (W (attidx p))) (cw_B (W (attidx p))) p" ..
qed

lemma flushed_starts:
  assumes G: "group_flushed C ok td lens W res" and ps: "ps \<noteq> []" "preds_fit td W ps" and lens: "lens \<noteq> []" and k: "k \<le> length lens"
  shows "(\<Sum>v < k. vector_span (span_zones (flushed_meta res) (length td) ps) v) = of_nat (sum_list (take k lens))"
    and "span_zones (flushed_meta res) (length td) ps \<noteq> []"
proof -
  obtain p where p: "p \<in> set ps" "attidx p < length td" using ps by (cases ps) (auto simp: preds_fit_def)
  have ne: "PgColumnarReadZoneMapVectorsForColumn (flushed_meta res) c \<noteq> []" if "c < length td" for c
    using flushed_spans(2)[OF G that, of 0] lens by simp
  obtain zs where zs: "find (\<lambda>zs. zs \<noteq> []) (map (\<lambda>p. PgColumnarReadZoneMapVectorsForColumn (flushed_meta res) (attidx p)) ps) = Some zs"
    using p ne by (cases "find (\<lambda>zs. zs \<noteq> []) (map (\<lambda>p. PgColumnarReadZoneMapVectorsForColumn (flushed_meta res) (attidx p)) ps)")
      (auto simp: find_None_iff)
  then obtain c where c: "c < length td" "zs = PgColumnarReadZoneMapVectorsForColumn (flushed_meta res) c"
    using ps(2) by (auto simp: find_Some_iff preds_fit_def) (metis nth_mem)
  have sz: "span_zones (flushed_meta res) (length td) ps = zs" using zs by (simp add: span_zones_def)
  show "span_zones (flushed_meta res) (length td) ps \<noteq> []" using sz c ne by simp
  have "(\<Sum>v < k. vector_span zs v) = (\<Sum>v < k. of_nat (lens ! v))"
    using c flushed_spans(1)[OF G c(1)] k by (intro sum.cong) auto
  also have "\<dots> = of_nat (sum_list (take k lens))" using k by (simp add: sum_list_sum_nth atLeast0LessThan min_absorb2)
  finally show "(\<Sum>v < k. vector_span (span_zones (flushed_meta res) (length td) ps) v) = of_nat (sum_list (take k lens))"
    using sz by simp
qed

text \<open>
  C9: Pruning loses no row. Flush the columns of a row group, of any widths and fewer than
  \<open>2 ^ 32\<close> rows. Build the skip
  predicates from scan keys (btree comparisons with constants of the column's type or of another
  type of its operator family, IN lists, range overlap and containment) of which none is a range
  key with an empty probe or of an unknown kind, which the build gives up after filling its slot;
  their constants lie where the column's comparison is an order, and equal values hash equal.
  Take any row that satisfies all the predicates: the group is not skipped, whether the zone maps or the bloom filters
  are asked, and the row does not lie in a vector marked to be skipped; the cumulative row
  spans are those of the chunk groups.
\<close>

theorem pruning_keeps_matching_rows:
  fixes K be td W keys
  defines "ps \<equiv> List.map_filter (key_predicate K td) keys"
    and "rs \<equiv> pgcolumnar_build_predicates K td keys empty_prune_state"
  assumes flushed: "group_flushed C ok td lens W res"
    and defs: "\<forall>c < length td. cw_def (W c) = column_def_of K be (td ! c)"
    and keys: "keys_ok K td W keys" and ps: "ps \<noteq> []" and lens: "lens \<noteq> []" "sum_list lens < 2 ^ 32"
    and row: "row_matches (env_pg (cfg_env C)) td W ps i"
  shows "\<exists>rs' skip starts.
    pgcolumnar_native_group_can_match (env_pg (cfg_env C)) eb td (flushed_meta res) rs = Inr (True, rs') \<and>
    pgcolumnar_native_build_skipvec (env_pg (cfg_env C)) td qf (flushed_meta res) rs (length lens) = Inr (Some (skip, starts)) \<and>
    length skip = length lens \<and> (\<forall>k \<le> length lens. unat (starts ! k) = sum_list (take k lens)) \<and>
    (\<forall>v < length lens. unat (starts ! v) \<le> i \<and> i < unat (starts ! (v + 1)) \<longrightarrow> \<not> skip ! v)"
proof -
  let ?V = "env_pg (cfg_env C)" and ?G = "flushed_meta res"
  have G: "group_described ?V td W ?G" by (rule group_flushed_described[OF flushed])
  have ok: "\<forall>c < length td. def_ok (cw_D (W c)) (cw_B (W c)) (cw_def (W c))"
    using G by (simp add: group_described_def column_described_def)
  have fit: "preds_fit td W ps" unfolding ps_def by (rule keys_preds_fit[OF keys defs ok])
  have na: "\<forall>key \<in> set keys. \<not> key_abandoned K td key" using keys by (simp add: keys_ok_def)
  have rs: "take (numPredicates rs) (predicates rs) = ps" "order_ok rs"
    unfolding rs_def ps_def by (rule build_predicates_keys[OF na])+
  have n: "numPredicates rs \<noteq> 0" using rs ps by auto
  have not_excluded: "\<not> group_excludes ?V eb td ?G p" if "p \<in> set ps" for p
    using row that nth_mem group_excludes_sound(2)[OF G fit that] unfolding row_matches_def by blast
  obtain rs' where cm: "pgcolumnar_native_group_can_match ?V eb td ?G rs = Inr (\<forall>p \<in> set ps. \<not> group_excludes ?V eb td ?G p, rs')"
    using group_can_match_eq[OF rs(2), where V = ?V and td = td and G = ?G and eb = eb] group_excludes_sound(1)[OF G fit] rs(1) by auto
  let ?none = "\<lambda>v. \<exists>p \<in> set ps. v < length (cw_rows (W (attidx p))) \<and>
      (\<forall>cell \<in> set (cw_rows (W (attidx p)) ! v). \<not> cell_matches ?V td p cell)"
  have "\<forall>v. \<exists>e. vector_excluded ?V td ?G v ps = Inr e \<and> (e \<longrightarrow> ?none v)"
  proof
    fix v show "\<exists>e. vector_excluded ?V td ?G v ps = Inr e \<and> (e \<longrightarrow> ?none v)"
      by (rule vector_excluded_sound[OF G fit, of v]) blast
  qed
  then obtain ex where ex': "\<forall>v. vector_excluded ?V td ?G v ps = Inr (ex v) \<and> (ex v \<longrightarrow> ?none v)"
    by (rule exE[OF choice])
  have ex: "vector_excluded ?V td ?G v ps = Inr (ex v)" "ex v \<Longrightarrow> ?none v" for v using ex' by blast+
  define starts where "starts = map (\<lambda>k. \<Sum>v < k. vector_span (span_zones ?G (length td) ps) v) [0..<Suc (length lens)]"
  have sv: "pgcolumnar_native_build_skipvec ?V td qf ?G rs (length lens) = Inr (Some (map ex [0..<length lens], starts))"
    using n lens(1) flushed_starts(2)[OF flushed ps fit lens(1), of 0] res_map_all[of "[0..<length lens]" _ ex] ex(1)
    by (simp add: pgcolumnar_native_build_skipvec_def rs(1) Let_def vector_starts starts_def del: upt_Suc)
  have st: "unat (starts ! k) = sum_list (take k lens)" if k: "k \<le> length lens" for k
  proof -
    have "sum_list (take k lens) \<le> sum_list lens" using sum_list_append[of "take k lens" "drop k lens"] by simp
    then show ?thesis using k lens(2) flushed_starts(1)[OF flushed ps fit lens(1) k]
      by (simp add: starts_def unat_of_nat take_bit_nat_eq_self del: upt_Suc)
  qed
  have "\<not> ex v" if v: "v < length lens" "unat (starts ! v) \<le> i" "i < unat (starts ! (v + 1))" for v
  proof
    assume "ex v"
    then obtain p where p: "p \<in> set ps" "v < length (cw_rows (W (attidx p)))"
        "\<forall>cell \<in> set (cw_rows (W (attidx p)) ! v). \<not> cell_matches ?V td p cell" using ex(2) by blast
    have l: "map length (cw_rows (W (attidx p))) = lens" using flushed fit p(1) by (simp add: group_flushed_def preds_fit_def)
    have "concat (cw_rows (W (attidx p))) ! i \<in> set (cw_rows (W (attidx p)) ! v)"
      using v st l by (intro concat_nth_vector[OF p(2)]) (auto simp: take_map)
    then show False using p(1,3) row by (auto simp: row_matches_def)
  qed
  with cm sv st not_excluded show ?thesis
    by (intro exI[of _ rs'] exI[of _ "map ex [0..<length lens]"] exI[of _ starts]) simp
qed

text \<open>A table of one eight-byte integer column.\<close>

definition int8_col :: table_col where
  "int8_col = \<lparr>tc_att = int8_att, tc_dropped = False, tc_collation = 0\<rparr>"

definition int8_catalog :: pred_catalog where
  "int8_catalog = \<lparr>pc_types = (\<lambda>_. int8_types), pc_base = (\<lambda>t. t), pc_opclass = (\<lambda>_. 0), pc_input_type = (\<lambda>_. 0),
     pc_polymorphic = (\<lambda>_. False), pc_coercible = (\<lambda>_ _. False), pc_family_proc = (\<lambda>_ _ _ _. None),
     pc_array = (\<lambda>_. []), pc_deterministic = (\<lambda>_. True)\<rparr>"

definition int8_written :: "datum option list list \<Rightarrow> column_written" where
  "int8_written rowss = \<lparr>cw_def = int8_def, cw_D = range ByVal, cw_B = {}, cw_rows = rowss\<rparr>"

definition int8_key :: "nat \<Rightarrow> u64 \<Rightarrow> scan_key" where
  "int8_key strat v = runtime_key 1 strat INT8OID (ByVal v)"

lemmas int8_defs = int8_col_def int8_catalog_def int8_written_def int8_key_def runtime_key_def

lemma int8_def_of: "column_def_of int8_catalog True int8_col = int8_def"
  by (simp add: column_def_of_def int8_def_def int8_defs)

lemma int8_key_predicate:
  assumes "BTLess \<le> strat" "strat \<le> BTGreater"
  obtains p where "key_predicate int8_catalog [int8_col] (int8_key strat v) = Some p" "\<not> rangePred p" "attidx p = 0"
    "\<not> searchArray p" "strategy p = strat" "compareValue p = ByVal v" "predCmpFn p = cmpFn int8_def"
proof -
  have cmp: "key_cmp int8_catalog int8_col (int8_key strat v) = Some (cmpFn int8_def)"
    by (simp add: key_cmp_def cross_type_def key_arg_type_def int8_defs int8_types_def int8_att_def int8_def_def
        build_column_def_def zero_def_def INT8OID_def INT2OID_def INT4OID_def)
  have "key_predicate int8_catalog [int8_col] (int8_key strat v) =
      Some (scalar_slot int8_catalog int8_col (int8_key strat v) (cmpFn int8_def) zero_pred)"
    using cmp assms by (simp add: key_predicate_def make_predicate_def key_rejected_def sk_consts int8_key_def runtime_key_def)
  moreover have "\<not> rangePred (scalar_slot int8_catalog int8_col (int8_key strat v) (cmpFn int8_def) zero_pred)"
      "attidx (scalar_slot int8_catalog int8_col (int8_key strat v) (cmpFn int8_def) zero_pred) = 0"
      "\<not> searchArray (scalar_slot int8_catalog int8_col (int8_key strat v) (cmpFn int8_def) zero_pred)"
      "strategy (scalar_slot int8_catalog int8_col (int8_key strat v) (cmpFn int8_def) zero_pred) = strat"
      "compareValue (scalar_slot int8_catalog int8_col (int8_key strat v) (cmpFn int8_def) zero_pred) = ByVal v"
      "predCmpFn (scalar_slot int8_catalog int8_col (int8_key strat v) (cmpFn int8_def) zero_pred) = cmpFn int8_def"
    by (simp_all add: scalar_slot_def zero_pred_def int8_defs int8_types_def Let_def)
  ultimately show thesis by (rule that)
qed

lemma int8_cmp: "cmpFn int8_def = (\<lambda>a b. three_way (DatumGetInt64 a) (DatumGetInt64 b))"
  by (simp add: int8_def_def build_column_def_def int8_types_def int8_att_def zero_def_def INT2OID_def INT4OID_def INT8OID_def)

lemma int8_keys_ok: "keys_ok int8_catalog [int8_col] (\<lambda>_. int8_written rowss) [int8_key strat v]"
proof -
  have "h x = h y" if "cmpFn int8_def x y = 0" "x \<in> range ByVal" "y \<in> range ByVal" "te_hash (int8_types t) = Some h" for h x y t
    using that by (auto simp: int8_cmp three_way_def DatumGetInt64_def datum_word_def int8_types_def word_eq_iff_signed[symmetric] split: if_splits)
  then have "key_ok int8_catalog int8_col (int8_written rowss) (int8_key strat v)"
    by (auto simp: key_ok_def key_consts_def cross_type_def key_arg_type_def int8_defs int8_att_def INT8OID_def image_def) metis
  then show ?thesis by (simp add: keys_ok_def key_abandoned_def int8_key_def runtime_key_def)
qed

lemma int8_column_flushed:
  assumes "length rowss < 2 ^ 8" "\<forall>rows \<in> set rowss. length rows < 2 ^ 8 \<and> set rows \<subseteq> insert None (range (Some \<circ> ByVal))"
  obtains res where "column_flushed plain_cfg le_byval_ok int8_att (int8_written rowss) res"
proof -
  have ready: "column_ready plain_cfg le_byval_ok int8_att int8_def (range ByVal) {} rowss" by (rule int8_column_ready[OF assms])
  obtain cols where cols: "column_buffers (env_pg (cfg_env plain_cfg)) int8_att int8_def rowss cols"
    by (rule column_buffers_exist[OF ready])
  have vb: "length (concat rowss) \<le> 8 * ((length (concat rowss) + 7) div 8)" by linarith
  obtain res memo' where "flush_one_column plain_cfg int8_att False int8_def cols (length (concat rowss))
      ((length (concat rowss) + 7) div 8) \<lparr>fsst_verdict = 0, fsst_verdict_age = 0\<rparr> = Inr (Some res, memo')"
    by (rule column_flush[OF ready cols HOL.refl vb, where
          memo = "\<lparr>fsst_verdict = 0, fsst_verdict_age = 0\<rparr>" and skp = "\<lambda>_. False"])
  then have "column_flushed plain_cfg le_byval_ok int8_att (int8_written rowss) res"
    using ready cols unfolding column_flushed_def int8_written_def column_written.simps by blast
  then show thesis by (rule that)
qed

theorem pruning_keeps_matching_rows_witness:
  "\<exists>res rs' skip starts.
    column_flushed plain_cfg le_byval_ok int8_att (int8_written [[Some (ByVal 5), None, Some (ByVal 7)], [Some (ByVal 3)]]) res \<and>
    pgcolumnar_native_group_can_match le_pg_datum True [int8_col] (flushed_meta (\<lambda>_. res))
      (pgcolumnar_build_predicates int8_catalog [int8_col] [int8_key BTGreaterEqual 6] empty_prune_state) = Inr (True, rs') \<and>
    pgcolumnar_native_build_skipvec le_pg_datum [int8_col] False (flushed_meta (\<lambda>_. res))
      (pgcolumnar_build_predicates int8_catalog [int8_col] [int8_key BTGreaterEqual 6] empty_prune_state) 2 = Inr (Some (skip, starts)) \<and>
    \<not> skip ! 0"
proof -
  let ?rowss = "[[Some (ByVal 5), None, Some (ByVal 7)], [Some (ByVal 3)]]"
  obtain res where res: "column_flushed plain_cfg le_byval_ok int8_att (int8_written ?rowss) res"
    by (rule int8_column_flushed[of ?rowss]) auto
  have flushed: "group_flushed plain_cfg le_byval_ok [int8_col] [3, 1] (\<lambda>_. int8_written ?rowss) (\<lambda>_. res)"
    using res by (simp add: group_flushed_def int8_written_def int8_col_def)
  obtain p where p: "key_predicate int8_catalog [int8_col] (int8_key BTGreaterEqual 6) = Some p" "\<not> rangePred p" "attidx p = 0"
      "\<not> searchArray p" "strategy p = BTGreaterEqual" "compareValue p = ByVal 6" "predCmpFn p = cmpFn int8_def"
    by (rule int8_key_predicate[of BTGreaterEqual 6]) (auto simp: strategy_consts)
  have ps: "List.map_filter (key_predicate int8_catalog [int8_col]) [int8_key BTGreaterEqual 6] = [p]"
    using p by (simp add: List.map_filter_simps)
  have "pred_matches p (flat_datum le_pg_datum int8_att (ByVal 7))"
    using p(2-7) by (simp add: pred_matches_def native_value_satisfies_def strategy_consts flat_datum_def int8_att_def int8_cmp
        three_way_def DatumGetInt64_def datum_word_def)
  then have row: "row_matches (env_pg (cfg_env plain_cfg)) [int8_col] (\<lambda>_. int8_written ?rowss) [p] 2"
    using p(3) by (simp add: row_matches_def cell_matches_def int8_written_def int8_col_def plain_cfg_def plain_env_def)
  have defs: "\<forall>c < length [int8_col]. cw_def (int8_written ?rowss) = column_def_of int8_catalog True ([int8_col] ! c)"
    by (simp add: int8_written_def int8_def_of)
  have lens: "[3, 1 :: nat] \<noteq> []" "sum_list [3, 1 :: nat] < 2 ^ 32" by simp_all
  from pruning_keeps_matching_rows[OF flushed defs int8_keys_ok[of _ BTGreaterEqual 6], unfolded ps,
      OF _ lens row, where eb = True and qf = False]
  obtain rs' skip starts where
      "pgcolumnar_native_group_can_match (env_pg (cfg_env plain_cfg)) True [int8_col] (flushed_meta (\<lambda>_. res))
        (pgcolumnar_build_predicates int8_catalog [int8_col] [int8_key BTGreaterEqual 6] empty_prune_state) = Inr (True, rs')"
      "pgcolumnar_native_build_skipvec (env_pg (cfg_env plain_cfg)) [int8_col] False (flushed_meta (\<lambda>_. res))
        (pgcolumnar_build_predicates int8_catalog [int8_col] [int8_key BTGreaterEqual 6] empty_prune_state) 2 = Inr (Some (skip, starts))"
      "\<forall>k \<le> 2. unat (starts ! k) = sum_list (take k [3, 1])"
      "\<forall>v < 2. unat (starts ! v) \<le> 2 \<and> 2 < unat (starts ! (v + 1)) \<longrightarrow> \<not> skip ! v"
    by (auto simp: numeral_2_eq_2)
  then have "\<not> skip ! 0" "env_pg (cfg_env plain_cfg) = le_pg_datum" by (simp_all add: plain_cfg_def plain_env_def)
  then show ?thesis using res \<open>_ = Inr (True, rs')\<close> \<open>_ = Inr (Some (skip, starts))\<close> by auto
qed

subsection \<open>Further properties\<close>

text \<open>The groups of a scan asked one after the other, each leaving its order to the next.\<close>

fun prune_groups ::
  "pg_datum \<Rightarrow> bool \<Rightarrow> table_col list \<Rightarrow> group_meta list \<Rightarrow> prune_state \<Rightarrow> (bool list \<times> prune_state) result" where
  "prune_groups V enable_bloom td [] rs = Inr ([], rs)"
| "prune_groups V enable_bloom td (G # Gs) rs =
     res_bind (pgcolumnar_native_group_can_match V enable_bloom td G rs) (\<lambda>(b, rs').
       res_bind (prune_groups V enable_bloom td Gs rs') (\<lambda>(bs, rs''). Inr (b # bs, rs'')))"

text \<open>
  C21: Reordering the predicates cannot change an answer. Over any sequence of row groups, the
  order of evaluation adapts to what excluded before and stays a permutation of the
  predicates; and every group is skipped exactly when some predicate excludes it, whatever
  the order was.
\<close>

theorem prune_order_irrelevant:
  assumes "order_ok rs"
    and "\<forall>G \<in> set Gs. \<forall>p \<in> set (take (numPredicates rs) (predicates rs)). zone_decodes V td G p"
  shows "\<exists>rs'. prune_groups V eb td Gs rs =
      Inr (map (\<lambda>G. \<forall>p \<in> set (take (numPredicates rs) (predicates rs)). \<not> group_excludes V eb td G p) Gs, rs') \<and>
    order_ok rs' \<and> same_preds rs rs'"
  using assms
proof (induction Gs arbitrary: rs)
  case (Cons G Gs)
  obtain rs1 where rs1: "pgcolumnar_native_group_can_match V eb td G rs =
      Inr (\<forall>p \<in> set (take (numPredicates rs) (predicates rs)). \<not> group_excludes V eb td G p, rs1)"
      "order_ok rs1" "same_preds rs rs1"
    using group_can_match_eq[OF Cons.prems(1), of V td G eb] Cons.prems(2) by auto
  have same: "(\<forall>p \<in> set (take (numPredicates rs1) (predicates rs1)). Q p) = (\<forall>p \<in> set (take (numPredicates rs) (predicates rs)). Q p)"
    if "\<And>p. Q (p\<lparr>excludes := 0\<rparr>) = Q p" for Q
    by (rule same_preds_all[OF rs1(3)]) (rule that)
  have "\<forall>G \<in> set Gs. \<forall>p \<in> set (take (numPredicates rs1) (predicates rs1)). zone_decodes V td G p"
    using Cons.prems(2) same[of "zone_decodes V td _"] by simp
  from Cons.IH[OF rs1(2) this] obtain rs2 where
    "prune_groups V eb td Gs rs1 =
      Inr (map (\<lambda>G. \<forall>p \<in> set (take (numPredicates rs1) (predicates rs1)). \<not> group_excludes V eb td G p) Gs, rs2)"
    "order_ok rs2" "same_preds rs1 rs2" by blast
  then show ?case using rs1 same[of "\<lambda>p. \<not> group_excludes V eb td _ p"] by (simp add: same_preds_def)
qed (simp add: same_preds_def)

text \<open>A zone-map row of an eight-byte column holding one value, as the catalog stores it.\<close>

definition int8_meta :: "u64 \<Rightarrow> group_meta" where
  "int8_meta v = \<lparr>gm_rows = (\<lambda>_. [\<lparr>z_vectorIndex = -1, z_valueCount = 1, z_nullCount = 0, z_sum = None,
     z_minMax = Some (le_bytes 8 v, le_bytes 8 v), z_upper = None\<rparr>]), gm_bloom = (\<lambda>_. None)\<rparr>"

lemma int8_decode: "PgColumnarDecodeValue le_pg_datum int8_att (le_bytes 8 v) = Inr (ByVal v, [])"
proof -
  have f: "datum_fits le_byval_ok int8_att (ByVal v)"
    using take_bit_word_eq_self[of 64 v] by (simp add: datum_fits_def int8_att_def le_byval_ok_def)
  have "value_bytes le_pg_datum int8_att (ByVal v) = le_bytes 8 v"
    by (simp add: value_bytes_def le_pg_datum_def int8_att_def)
  with decode_value_bytes[OF le_pg_datum_ok f, of "[]"] show ?thesis by (simp add: stored_datum_def)
qed

lemma int8_group_excludes:
  assumes "\<not> rangePred p" "attidx p = 0"
  shows "zone_decodes le_pg_datum [int8_col] (int8_meta v) p"
    and "group_excludes le_pg_datum eb [int8_col] (int8_meta v) p \<longleftrightarrow> min_max_excludes p (ByVal v) (ByVal v)"
  using assms by (simp_all add: zone_decodes_def group_excludes_def native_zone_excludes_def PgColumnarReadZoneMapForColumn_def
      int8_meta_def int8_col_def int8_decode bloom_excludes_def)

theorem prune_order_irrelevant_witness:
  "\<exists>rs'. prune_groups le_pg_datum True [int8_col] [int8_meta 3, int8_meta 7]
      (pgcolumnar_build_predicates int8_catalog [int8_col] [int8_key BTGreaterEqual 6] empty_prune_state) =
    Inr ([False, True], rs') \<and> order_ok rs'"
proof -
  let ?rs = "pgcolumnar_build_predicates int8_catalog [int8_col] [int8_key BTGreaterEqual 6] empty_prune_state"
  obtain p where p: "key_predicate int8_catalog [int8_col] (int8_key BTGreaterEqual 6) = Some p" "\<not> rangePred p" "attidx p = 0"
      "\<not> searchArray p" "strategy p = BTGreaterEqual" "compareValue p = ByVal 6" "predCmpFn p = cmpFn int8_def"
    by (rule int8_key_predicate[of BTGreaterEqual 6]) (auto simp: strategy_consts)
  have na: "\<forall>key \<in> set [int8_key BTGreaterEqual 6]. \<not> key_abandoned int8_catalog [int8_col] key"
    using int8_keys_ok[of "[]" BTGreaterEqual 6] by (simp add: keys_ok_def)
  have rs: "take (numPredicates ?rs) (predicates ?rs) = [p]" "order_ok ?rs"
    using build_predicates_keys[OF na] p(1) by (simp_all add: List.map_filter_simps)
  have ex: "min_max_excludes p (ByVal v) (ByVal v) \<longleftrightarrow> sint v < sint (6 :: u64)" for v
    using p(4-7) by (simp add: min_max_excludes_def strategy_consts int8_cmp three_way_def DatumGetInt64_def datum_word_def)
  from prune_order_irrelevant[OF rs(2), of "[int8_meta 3, int8_meta 7]" le_pg_datum "[int8_col]" True]
  show ?thesis using rs(1) int8_group_excludes[OF p(2,3)] by (auto simp: ex)
qed

text \<open>
  C19: A range key that is given up leaves its mark. When an overlap key's probe is empty the
  key builds no predicate, but its slot keeps the range flag; the next scalar key reuses the
  slot, so the predicate of that key is treated as a range predicate: its column's stored
  minimum is handed to the range deserialiser of the first key's column, and its own
  comparison is never evaluated, neither against the zone maps nor against values.
\<close>

theorem abandoned_range_key_taints_next:
  assumes "key_abandoned K td k1" and "key_predicate K td k2 = Some p" and "\<not> rangePred p"
  shows "\<exists>q. pgcolumnar_make_predicates K td [k1, k2] (replicate 2 zero_pred) = ([q, zero_pred], 1) \<and>
    attidx q = attidx p \<and> predCmpFn q = predCmpFn p \<and> rangePred q \<and>
    native_zone_excludes V q att zo = native_range_excludes V q att zo \<and> (\<forall>v. native_value_satisfies q v)"
proof -
  obtain r0 where r0: "range_key K (td ! nat (sk_attno k1 - 1)) k1 = Some (r0, False)" "\<not> key_rejected k1 (length td)"
      "sk_flags k1 AND PGC_SK_RANGE \<noteq> 0"
    using assms(1) by (auto simp: key_abandoned_def)
  have flag: "rangePred r0" using r0(1)
    by (auto simp: range_key_def range_slot_def Let_def split: option.splits if_splits)
  have m1: "make_predicate K td k1 (replicate 2 zero_pred, 0) = ([r0, zero_pred], 0)"
    using r0 by (simp add: make_predicate_def numeral_2_eq_2)
  have s2: "sk_flags k2 AND PGC_SK_RANGE = 0"
    using assms(2,3) by (cases rule: key_predicate_cases[OF assms(2)])
      (auto simp: range_slot_def zero_pred_def Let_def split: if_splits)
  then obtain cmp where c: "key_cmp K (td ! nat (sk_attno k2 - 1)) k2 = Some cmp" "\<not> key_rejected k2 (length td)"
      "\<not> (sk_strategy k2 < BTLess \<or> sk_strategy k2 > BTGreater)" "p = scalar_slot K (td ! nat (sk_attno k2 - 1)) k2 cmp zero_pred"
    using assms(2) by (auto simp: key_predicate_def make_predicate_def Let_def split: if_splits option.splits)
  let ?q = "scalar_slot K (td ! nat (sk_attno k2 - 1)) k2 cmp r0"
  have "make_predicate K td k2 ([r0, zero_pred], 0) = ([?q, zero_pred], 1)"
    using s2 c by (simp add: make_predicate_def)
  then have "pgcolumnar_make_predicates K td [k1, k2] (replicate 2 zero_pred) = ([?q, zero_pred], 1)"
    using m1 by (simp add: pgcolumnar_make_predicates_def)
  moreover have "rangePred ?q" "attidx ?q = attidx p" "predCmpFn ?q = predCmpFn p"
    using flag c(4) by (auto simp: scalar_slot_def Let_def split: option.splits)
  ultimately show ?thesis by (auto simp: native_zone_excludes_def native_value_satisfies_def)
qed

text \<open>A range column beside the integer one; every range deserialises as empty.\<close>

definition range_catalog :: pred_catalog where
  "range_catalog = int8_catalog\<lparr>pc_types := (\<lambda>_ t. if t = INT8OID then int8_types t
     else \<lparr>te_cmp = None, te_hash = None, te_range = Some \<lparr>re_deserialize = (\<lambda>_. \<lparr>rp_lower = zero_bound,
       rp_upper = zero_bound, rp_empty = True\<rparr>), re_elemCmp = Some (\<lambda>a b. three_way (DatumGetInt64 a) (DatumGetInt64 b)),
       re_elemByVal = True, re_elemLen = 8\<rparr>\<rparr>)\<rparr>"

definition range_col :: table_col where
  "range_col = \<lparr>tc_att = \<lparr>attlen = -1, attbyval = False, atttypid = 3926\<rparr>, tc_dropped = False, tc_collation = 0\<rparr>"

definition overlap_key :: scan_key where
  "overlap_key = \<lparr>sk_flags = PGC_SK_RANGE, sk_attno = 1, sk_strategy = PGC_RANGE_OVERLAP, sk_subtype = 3926, sk_argument = ByRef []\<rparr>"

theorem abandoned_range_key_taints_next_witness:
  "\<exists>q. pgcolumnar_make_predicates range_catalog [range_col, int8_col]
      [overlap_key, runtime_key 2 BTGreaterEqual INT8OID (ByVal 6)] (replicate 2 zero_pred) = ([q, zero_pred], 1) \<and>
    attidx q = 1 \<and> rangePred q"
proof -
  let ?td = "[range_col, int8_col]" and ?k2 = "runtime_key 2 BTGreaterEqual INT8OID (ByVal 6)"
  have a: "key_abandoned range_catalog ?td overlap_key"
    by (simp add: key_abandoned_def key_rejected_def overlap_key_def sk_consts range_key_def range_catalog_def range_col_def
        range_slot_def INT8OID_def Let_def)
  have cmp: "key_cmp range_catalog int8_col ?k2 = Some (\<lambda>a b. three_way (DatumGetInt64 a) (DatumGetInt64 b))"
    by (simp add: key_cmp_def cross_type_def key_arg_type_def range_catalog_def int8_defs int8_types_def int8_att_def INT8OID_def)
  let ?p = "scalar_slot range_catalog int8_col ?k2 (\<lambda>a b. three_way (DatumGetInt64 a) (DatumGetInt64 b)) zero_pred"
  have p: "key_predicate range_catalog ?td ?k2 = Some ?p"
    using cmp by (simp add: key_predicate_def make_predicate_def key_rejected_def sk_consts runtime_key_def strategy_consts)
  have np: "\<not> rangePred ?p" by (rule scalar_slot_fields(1)[OF HOL.refl])
  have "attidx ?p = 1" using key_predicate_attidx(1)[OF p] by (simp add: runtime_key_def)
  then show ?thesis using abandoned_range_key_taints_next[OF a p np, of le_pg_datum int8_att None] by auto
qed

text \<open>
  C20: A cleared runtime predicate can go on pruning. A scan with the predicate \<open>x >= 0\<close> gets the
  runtime range \<open>[100, 200]\<close> of a join's build side; a group holding only 5 is excluded by it,
  which moves the runtime predicate to the front of the order. Clearing the runtime range
  takes the two predicates out of the count but not out of the order: the group is still
  excluded, by the stale predicate, although it satisfies the only predicate in use.
\<close>

theorem cleared_runtime_predicate_still_prunes:
  fixes rs0 rs1
  defines "rs0 \<equiv> pgcolumnar_build_predicates int8_catalog [int8_col] [int8_key BTGreaterEqual 0] empty_prune_state"
    and "rs1 \<equiv> snd (PgColumnarReadSetRuntimeRange int8_catalog [int8_col] 1 INT8OID (ByVal 100) (ByVal 200) rs0)"
  shows "map_sum id fst (pgcolumnar_native_group_can_match le_pg_datum True [int8_col] (int8_meta 5) rs0) = Inr True \<and>
    (\<exists>rs2. pgcolumnar_native_group_can_match le_pg_datum True [int8_col] (int8_meta 5) rs1 = Inr (False, rs2) \<and>
       numPredicates (PgColumnarReadClearRuntimeRange rs2) = 1 \<and>
       map_sum id fst (pgcolumnar_native_group_can_match le_pg_datum True [int8_col] (int8_meta 5)
         (PgColumnarReadClearRuntimeRange rs2)) = Inr False)"
proof -
  have key: "key_cmp int8_catalog int8_col (runtime_key 1 strat INT8OID v) = Some (cmpFn int8_def)" for strat v
    by (simp add: key_cmp_def cross_type_def key_arg_type_def int8_defs int8_types_def int8_att_def int8_cmp INT8OID_def)
  let ?slot = "\<lambda>strat v. scalar_slot int8_catalog int8_col (runtime_key 1 strat INT8OID (ByVal v)) (cmpFn int8_def) zero_pred"
  have mk: "make_predicate int8_catalog [int8_col] (runtime_key 1 strat INT8OID (ByVal v)) (out, n) =
      (out[n := scalar_slot int8_catalog int8_col (runtime_key 1 strat INT8OID (ByVal v)) (cmpFn int8_def) (out ! n)], n + 1)"
    if "BTLess \<le> strat" "strat \<le> BTGreater" for strat v out n
    using that key by (simp add: make_predicate_def key_rejected_def sk_consts runtime_key_def)
  have slot: "\<not> rangePred (?slot strat v)" "attidx (?slot strat v) = 0" "\<not> searchArray (?slot strat v)"
      "strategy (?slot strat v) = strat" "compareValue (?slot strat v) = ByVal v" "predCmpFn (?slot strat v) = cmpFn int8_def"
      "excludes (?slot strat v) = 0" for strat v
    by (simp_all add: scalar_slot_def zero_pred_def int8_defs int8_types_def Let_def)
  have rs0: "rs0 = \<lparr>predicates = [?slot BTGreaterEqual 0], numPredicates = 1, predOrder = [0],
      runtimePredicateStart = 0, runtimePredicateCount = 0, runtimeGroupsRemoved = 0\<rparr>"
    using mk[of BTGreaterEqual 0 "[zero_pred]" 0]
    by (simp add: rs0_def pgcolumnar_build_predicates_def pgcolumnar_make_predicates_def int8_key_def empty_prune_state_def strategy_consts)
  have rs1: "rs1 = \<lparr>predicates = [?slot BTGreaterEqual 0, (?slot BTGreaterEqual 100)\<lparr>runtimeFilter := True\<rparr>,
        (?slot BTLessEqual 200)\<lparr>runtimeFilter := True\<rparr>], numPredicates = 3, predOrder = [0, 1, 2],
      runtimePredicateStart = 1, runtimePredicateCount = 2, runtimeGroupsRemoved = 0\<rparr>"
    using mk[of BTGreaterEqual 100 "[zero_pred, zero_pred]" 0] mk[of BTLessEqual 200 "[?slot BTGreaterEqual 100, zero_pred]" 1]
    by (simp add: rs1_def rs0 PgColumnarReadSetRuntimeRange_def pgcolumnar_make_predicates_def strategy_consts numeral_2_eq_2)
  have z: "native_zone_excludes le_pg_datum p (tc_att int8_col) (PgColumnarReadZoneMapForColumn (int8_meta 5) 0) =
      Inr (min_max_excludes p (ByVal 5) (ByVal 5))" if "\<not> rangePred p" for p
    using that by (simp add: native_zone_excludes_def PgColumnarReadZoneMapForColumn_def int8_meta_def int8_col_def int8_decode)
  have ge: "min_max_excludes p (ByVal 5) (ByVal 5) \<longleftrightarrow> sint (5 :: u64) < sint v"
    if "\<not> searchArray p" "strategy p = BTGreaterEqual" "compareValue p = ByVal v" "predCmpFn p = cmpFn int8_def" for p v
    using that by (simp add: min_max_excludes_def strategy_consts int8_cmp three_way_def DatumGetInt64_def datum_word_def)
  have b: "bloom_excludes True p (gm_bloom (int8_meta 5) c) = False" for p c by (simp add: bloom_excludes_def int8_meta_def)
  note eval = pgcolumnar_native_group_can_match_def z ge[OF slot(3) _ slot(5,6)] b slot numeral_3_eq_3 numeral_2_eq_2
  let ?r = "(?slot BTGreaterEqual 100)\<lparr>runtimeFilter := True, excludes := 1\<rparr>"
  have r: "min_max_excludes ?r (ByVal 5) (ByVal 5)" "min_max_excludes ((?slot BTGreaterEqual 100)\<lparr>runtimeFilter := True\<rparr>) (ByVal 5) (ByVal 5)"
    by (simp_all add: ge[of _ 100] slot)
  have "pgcolumnar_native_group_can_match le_pg_datum True [int8_col] (int8_meta 5) rs0 = Inr (True, rs0)"
    by (simp add: rs0 eval)
  moreover have "pgcolumnar_native_group_can_match le_pg_datum True [int8_col] (int8_meta 5) rs1 =
      Inr (False, pgcolumnar_predicate_excluded 1 rs1)"
    using r by (simp add: rs1 eval upt_rec)
  moreover have "PgColumnarReadClearRuntimeRange (pgcolumnar_predicate_excluded 1 rs1) =
      \<lparr>predicates = [?slot BTGreaterEqual 0, ?r, (?slot BTLessEqual 200)\<lparr>runtimeFilter := True\<rparr>], numPredicates = 1,
       predOrder = [1, 0, 2], runtimePredicateStart = 1, runtimePredicateCount = 0, runtimeGroupsRemoved = 1\<rparr>"
    by (simp add: rs1 PgColumnarReadClearRuntimeRange_def pgcolumnar_predicate_excluded_def slot)
  moreover have "map_sum id fst (pgcolumnar_native_group_can_match le_pg_datum True [int8_col] (int8_meta 5)
      \<lparr>predicates = [?slot BTGreaterEqual 0, ?r, (?slot BTLessEqual 200)\<lparr>runtimeFilter := True\<rparr>], numPredicates = 1,
       predOrder = [1, 0, 2], runtimePredicateStart = 1, runtimePredicateCount = 0, runtimeGroupsRemoved = 1\<rparr>) = Inr False"
    using r by (simp add: eval)
  ultimately show ?thesis by simp
qed

end
