(* ===== verification/Storage.thy ===== *)
theory Storage
  imports Columnar_Prelude
begin

section \<open>Block storage\<close>

text \<open>
  The physical layer (\<open>src/src/columnar_storage.c\<close>): the metapage with its three reservation
  marks, the mapping of a logical byte range to the data area of the blocks it spans, and
  the mapping between row numbers and item pointers. A page is modelled by its bytes after
  the page header; \<open>bpp\<close> is \<open>COLUMNAR_BYTES_PER_PAGE\<close> and \<open>mht\<close> is \<open>MaxHeapTuplesPerPage\<close>, both fixed
  by PostgreSQL's block size at build time. WAL records, locks and the buffer manager are
  not modelled: each operation holds the lock that makes it one step.
\<close>

subsection \<open>Definitions\<close>

record metapage =
  versionMajor :: nat
  versionMinor :: nat
  mp_storageId :: nat
  reservedStripeId :: nat
  reservedRowNumber :: nat
  reservedOffset :: nat
  unloggedReset :: bool

definition COLUMNAR_VERSION_MAJOR :: nat where "COLUMNAR_VERSION_MAJOR = 2"
definition COLUMNAR_VERSION_MINOR :: nat where "COLUMNAR_VERSION_MINOR = 2"
definition COLUMNAR_FIRST_ROW_NUMBER :: nat where "COLUMNAR_FIRST_ROW_NUMBER = 1"

definition COLUMNAR_FIRST_LOGICAL_OFFSET :: "nat \<Rightarrow> nat" where
  "COLUMNAR_FIRST_LOGICAL_OFFSET bpp = 2 * bpp"

definition COLUMNAR_PAGE_ROUND_UP :: "nat \<Rightarrow> nat \<Rightarrow> nat" where
  "COLUMNAR_PAGE_ROUND_UP bpp n = (n + bpp - 1) div bpp * bpp"

text \<open>The main fork: the metapage of block 0, and the data areas of all blocks.\<close>

record main_fork =
  mf_meta :: metapage
  mf_blocks :: "byte list list"

definition empty_page :: "nat \<Rightarrow> byte list" where
  "empty_page bpp = replicate bpp 0"

definition PgColumnarWriteNewMetapage :: "nat \<Rightarrow> nat \<Rightarrow> main_fork" where
  "PgColumnarWriteNewMetapage bpp storageId =
     \<lparr>mf_meta = \<lparr>versionMajor = COLUMNAR_VERSION_MAJOR, versionMinor = COLUMNAR_VERSION_MINOR,
         mp_storageId = storageId, reservedStripeId = 1, reservedRowNumber = COLUMNAR_FIRST_ROW_NUMBER,
         reservedOffset = COLUMNAR_FIRST_LOGICAL_OFFSET bpp, unloggedReset = False\<rparr>,
      mf_blocks = [empty_page bpp, empty_page bpp]\<rparr>"

definition PgColumnarReadMetapage :: "main_fork \<Rightarrow> metapage result" where
  "PgColumnarReadMetapage f =
     (if versionMajor (mf_meta f) \<noteq> COLUMNAR_VERSION_MAJOR
      then Inl (Corrupt ''unsupported columnar format version'') else Inr (mf_meta f))"

definition PgColumnarStorageId :: "main_fork \<Rightarrow> nat result" where
  "PgColumnarStorageId f = res_bind (PgColumnarReadMetapage f) (\<lambda>m. Inr (mp_storageId m))"

definition PgColumnarReserveRowNumbers :: "nat \<Rightarrow> main_fork \<Rightarrow> nat \<times> nat \<times> main_fork" where
  "PgColumnarReserveRowNumbers rowCount f =
     (let m = mf_meta f
      in (reservedStripeId m, reservedRowNumber m,
          f\<lparr>mf_meta := m\<lparr>reservedStripeId := reservedStripeId m + 1,
                         reservedRowNumber := reservedRowNumber m + rowCount\<rparr>\<rparr>))"

definition PgColumnarReserveOffset :: "nat \<Rightarrow> nat \<Rightarrow> main_fork \<Rightarrow> nat \<times> main_fork" where
  "PgColumnarReserveOffset bpp dataLength f =
     (let m = mf_meta f;
          alignedOffset = (reservedOffset m + bpp - 1) div bpp * bpp
      in (alignedOffset, f\<lparr>mf_meta := m\<lparr>reservedOffset := alignedOffset + dataLength\<rparr>\<rparr>))"

definition PgColumnarAdvanceReservedOffset :: "nat \<Rightarrow> main_fork \<Rightarrow> main_fork" where
  "PgColumnarAdvanceReservedOffset addBytes f =
     f\<lparr>mf_meta := (mf_meta f)\<lparr>reservedOffset := reservedOffset (mf_meta f) + addBytes\<rparr>\<rparr>"

definition PgColumnarDebugSetMetapageVersion :: "nat \<Rightarrow> nat \<Rightarrow> main_fork \<Rightarrow> main_fork" where
  "PgColumnarDebugSetMetapageVersion major minor f =
     f\<lparr>mf_meta := (mf_meta f)\<lparr>versionMajor := major, versionMinor := minor\<rparr>\<rparr>"

definition PgColumnarSetReservedOffset :: "nat \<Rightarrow> main_fork \<Rightarrow> main_fork" where
  "PgColumnarSetReservedOffset newOffset f = f\<lparr>mf_meta := (mf_meta f)\<lparr>reservedOffset := newOffset\<rparr>\<rparr>"

definition PgColumnarTruncateMainFork :: "nat \<Rightarrow> main_fork \<Rightarrow> main_fork" where
  "PgColumnarTruncateMainFork newnblocks f =
     (if newnblocks \<ge> length (mf_blocks f) then f else f\<lparr>mf_blocks := take newnblocks (mf_blocks f)\<rparr>)"

definition PgColumnarResetMetapage :: "nat \<Rightarrow> main_fork \<Rightarrow> main_fork" where
  "PgColumnarResetMetapage bpp f =
     f\<lparr>mf_meta := (mf_meta f)\<lparr>reservedStripeId := 1, reservedRowNumber := COLUMNAR_FIRST_ROW_NUMBER,
         reservedOffset := COLUMNAR_FIRST_LOGICAL_OFFSET bpp\<rparr>\<rparr>"

text \<open>
  One page of a write: \<open>PageInit\<close> clears the page before the copy. Blocks past the end are
  added empty up to the target, and the target itself by the last extension, which under
  the extension lock lands on it.
\<close>

definition fill_page :: "nat \<Rightarrow> nat \<Rightarrow> byte list \<Rightarrow> byte list" where
  "fill_page bpp pageOffset src = replicate pageOffset 0 @ src @ replicate (bpp - pageOffset - length src) 0"

definition extend_to :: "nat \<Rightarrow> nat \<Rightarrow> byte list list \<Rightarrow> byte list list" where
  "extend_to bpp blockno blocks =
     (if blockno < length blocks then blocks
      else blocks @ replicate (blockno - length blocks) (empty_page bpp) @ [empty_page bpp])"

function write_pages :: "nat \<Rightarrow> nat \<Rightarrow> byte list \<Rightarrow> byte list list \<Rightarrow> byte list list" where
  "write_pages bpp L src blocks =
     (if src = [] \<or> bpp = 0 then blocks
      else let blockno = (L div bpp) mod 2 ^ 32;
               pageOffset = L mod bpp;
               n = min (bpp - pageOffset) (length src)
           in write_pages bpp (L + n) (drop n src)
                ((extend_to bpp blockno blocks)[blockno := fill_page bpp pageOffset (take n src)]))"
  by pat_completeness auto
termination by (relation "measure (\<lambda>(bpp, L, src, blocks). length src)") auto

declare write_pages.simps [simp del]

definition PgColumnarWriteLogicalData :: "nat \<Rightarrow> nat \<Rightarrow> byte list \<Rightarrow> main_fork \<Rightarrow> main_fork" where
  "PgColumnarWriteLogicalData bpp logicalOffset data f =
     f\<lparr>mf_blocks := write_pages bpp logicalOffset data (mf_blocks f)\<rparr>"

definition read_block :: "byte list list \<Rightarrow> nat \<Rightarrow> nat \<Rightarrow> nat \<Rightarrow> byte list result" where
  "read_block blocks blockno pageOffset n =
     (if blockno < length blocks then Inr (take n (drop pageOffset (blocks ! blockno)))
      else Inl (Corrupt ''could not read block''))"

function read_pages :: "nat \<Rightarrow> byte list list \<Rightarrow> nat \<Rightarrow> nat \<Rightarrow> byte list result" where
  "read_pages bpp blocks L remaining =
     (if remaining = 0 \<or> bpp = 0 then Inr []
      else let blockno = (L div bpp) mod 2 ^ 32;
               pageOffset = L mod bpp;
               n = min (bpp - pageOffset) remaining
           in res_bind (read_block blocks blockno pageOffset n) (\<lambda>bs.
                res_bind (read_pages bpp blocks (L + n) (remaining - n)) (\<lambda>rest. Inr (bs @ rest))))"
  by pat_completeness auto
termination by (relation "measure (\<lambda>(bpp, blocks, L, remaining). remaining)") auto

declare read_pages.simps [simp del]

text \<open>The read stream's callback and the loop that consumes its buffers.\<close>

definition pgcolumnar_read_stream_next :: "nat \<times> nat \<Rightarrow> (nat \<times> nat \<times> nat) option" where
  "pgcolumnar_read_stream_next rg =
     (case rg of (nxt, lst) \<Rightarrow> if nxt > lst then None else Some (nxt, nxt + 1, lst))"

function stream_pages :: "nat \<Rightarrow> byte list list \<Rightarrow> nat \<times> nat \<Rightarrow> nat \<Rightarrow> nat \<Rightarrow> byte list result" where
  "stream_pages bpp blocks rg L remaining =
     (if remaining = 0 \<or> bpp = 0 then Inr []
      else let pageOffset = L mod bpp;
               n = min (bpp - pageOffset) remaining
           in case pgcolumnar_read_stream_next rg of
                None \<Rightarrow> Inl (Corrupt ''read stream ended before the requested range'')
              | Some (blockno, rg') \<Rightarrow>
                  res_bind (read_block blocks blockno pageOffset n) (\<lambda>bs.
                    res_bind (stream_pages bpp blocks rg' (L + n) (remaining - n)) (\<lambda>rest. Inr (bs @ rest))))"
  by pat_completeness auto
termination by (relation "measure (\<lambda>(bpp, blocks, rg, L, remaining). remaining)") auto

declare stream_pages.simps [simp del]

definition PgColumnarReadLogicalData :: "nat \<Rightarrow> bool \<Rightarrow> nat \<Rightarrow> nat \<Rightarrow> main_fork \<Rightarrow> byte list result" where
  "PgColumnarReadLogicalData bpp enable_read_stream logicalOffset len f =
     (if len = 0 then Inr []
      else if enable_read_stream
      then stream_pages bpp (mf_blocks f)
             ((logicalOffset div bpp) mod 2 ^ 32, ((logicalOffset + len - 1) div bpp) mod 2 ^ 32) logicalOffset len
      else read_pages bpp (mf_blocks f) logicalOffset len)"

text \<open>Row numbers and item pointers: a 32-bit block number and a 16-bit offset from 1.\<close>

definition PgColumnarRowNumberToItemPointer :: "nat \<Rightarrow> nat \<Rightarrow> nat \<times> nat" where
  "PgColumnarRowNumberToItemPointer mht rowNumber =
     ((rowNumber div mht) mod 2 ^ 32, (rowNumber mod mht + 1) mod 2 ^ 16)"

definition pgcolumnar_row_tid :: "nat \<Rightarrow> int \<Rightarrow> (nat \<times> nat) result" where
  "pgcolumnar_row_tid mht rowNumber =
     (if rowNumber < 1 then Inl (Corrupt ''row number is out of range'')
      else Inr (PgColumnarRowNumberToItemPointer mht (nat rowNumber)))"

definition PgColumnarItemPointerToRowNumber :: "nat \<Rightarrow> nat \<times> nat \<Rightarrow> nat" where
  "PgColumnarItemPointerToRowNumber mht tid = fst tid * mht + (snd tid - 1)"

subsection \<open>The bytes of a fork\<close>

definition byte_at :: "nat \<Rightarrow> byte list list \<Rightarrow> nat \<Rightarrow> byte" where
  "byte_at bpp blocks p = blocks ! (p div bpp) ! (p mod bpp)"

definition blocks_ok :: "nat \<Rightarrow> byte list list \<Rightarrow> bool" where
  "blocks_ok bpp blocks \<longleftrightarrow> 0 < bpp \<and> (\<forall>b \<in> set blocks. length b = bpp)"

lemma extend_to_facts:
  assumes "blocks_ok bpp blocks"
  shows "blocks_ok bpp (extend_to bpp k blocks)" "k < length (extend_to bpp k blocks)"
    "length blocks \<le> length (extend_to bpp k blocks)"
    "q < length blocks \<Longrightarrow> extend_to bpp k blocks ! q = blocks ! q"
  using assms by (auto simp: extend_to_def blocks_ok_def empty_page_def nth_append)

lemma write_step_facts:
  fixes k :: nat
  assumes ok: "blocks_ok bpp blocks" and src: "length src \<le> bpp"
  defines "bs \<equiv> (extend_to bpp k blocks)[k := fill_page bpp 0 src]"
  shows "blocks_ok bpp bs" "k < length bs" "length blocks \<le> length bs"
    "q < length blocks \<Longrightarrow> q \<noteq> k \<Longrightarrow> bs ! q = blocks ! q"
    "i < length src \<Longrightarrow> byte_at bpp bs (k * bpp + i) = src ! i"
proof -
  note e = extend_to_facts[OF ok, where k = k]
  show "k < length bs" "length blocks \<le> length bs" using e by (simp_all add: bs_def)
  show "q < length blocks \<Longrightarrow> q \<noteq> k \<Longrightarrow> bs ! q = blocks ! q" using e(4) by (simp add: bs_def)
  have "length (fill_page bpp 0 src) = bpp" using src by (simp add: fill_page_def)
  then show "blocks_ok bpp bs"
    using e(1) unfolding bs_def blocks_ok_def by (auto dest!: set_update_subset_insert[THEN subsetD])
  show "byte_at bpp bs (k * bpp + i) = src ! i" if "i < length src"
    using that src e(2) by (simp add: bs_def byte_at_def fill_page_def nth_append)
qed

lemma write_pages_spec:
  assumes "blocks_ok bpp blocks" and "L = k * bpp" and "L + length src \<le> 2 ^ 32 * bpp"
  defines "bs \<equiv> write_pages bpp L src blocks"
  shows "blocks_ok bpp bs \<and> length blocks \<le> length bs \<and>
    (\<forall>i < length src. (L + i) div bpp < length bs \<and> byte_at bpp bs (L + i) = src ! i) \<and>
    (\<forall>q < length blocks. q < k \<or> L + length src \<le> q * bpp \<longrightarrow> bs ! q = blocks ! q)"
  using assms(1-3) unfolding bs_def
proof (induction "length src" arbitrary: L k src blocks rule: less_induct)
  case less
  note ok = less.prems(1) and L = less.prems(2)
  have bpp: "0 < bpp" using ok by (simp add: blocks_ok_def)
  show ?case
  proof (cases "src = []")
    case True
    then show ?thesis using ok by (simp add: write_pages.simps)
  next
    case False
    then have other: "q \<noteq> k" if "q < k \<or> L + length src \<le> q * bpp" for q using that L by auto
    let ?n = "min bpp (length src)"
    define bs1 where "bs1 = (extend_to bpp k blocks)[k := fill_page bpp 0 (take ?n src)]"
    have "k * bpp < 2 ^ 32 * bpp" using less.prems(3) L False by (metis length_greater_0_conv less_le_trans less_add_same_cancel1)
    then have k: "L div bpp mod 2 ^ 32 = k" "L mod bpp = 0" using L bpp by simp_all
    have w: "write_pages bpp L src blocks = write_pages bpp (L + ?n) (drop ?n src) bs1"
      using False bpp by (subst write_pages.simps) (simp only: k bs1_def Let_def, simp)
    have "length (take ?n src) \<le> bpp" by simp
    note st = write_step_facts[OF ok this, where k = k, folded bs1_def]
    have first: "byte_at bpp bs1 (L + i) = src ! i" "(L + i) div bpp = k" if "i < ?n" for i
      using st(5) that L bpp by auto
    show ?thesis
    proof (cases "length src \<le> bpp")
      case True
      then have "write_pages bpp L src blocks = bs1" using w by (simp add: write_pages.simps)
      then show ?thesis using st first True other by simp
    next
      case False
      then have n: "?n = bpp" by simp
      have next_L: "L + bpp = Suc k * bpp" using L by simp
      have le: "L + bpp + length (drop bpp src) \<le> 2 ^ 32 * bpp" using less.prems(3) False by simp
      let ?bs = "write_pages bpp (L + bpp) (drop bpp src) bs1"
      have IH: "blocks_ok bpp ?bs \<and> length bs1 \<le> length ?bs \<and>
          (\<forall>i < length (drop bpp src). (L + bpp + i) div bpp < length ?bs \<and> byte_at bpp ?bs (L + bpp + i) = drop bpp src ! i) \<and>
          (\<forall>q < length bs1. q < Suc k \<or> L + bpp + length (drop bpp src) \<le> q * bpp \<longrightarrow> ?bs ! q = bs1 ! q)"
        using False bpp by (intro less.hyps[OF _ st(1) next_L le]) simp
      have "(L + i) div bpp < length ?bs \<and> byte_at bpp ?bs (L + i) = src ! i" if i: "i < length src" for i
      proof (cases "i < bpp")
        case True
        then have "?bs ! k = bs1 ! k" "k < length ?bs" using IH st(2) by auto
        then show ?thesis using first[of i] True n by (simp add: byte_at_def)
      next
        case False
        then obtain j where j: "i = bpp + j" by (auto simp: not_less le_iff_add)
        then have "j < length (drop bpp src)" using i by simp
        with IH have "(L + bpp + j) div bpp < length ?bs \<and> byte_at bpp ?bs (L + bpp + j) = drop bpp src ! j" by blast
        then show ?thesis using j i by (simp add: add.assoc)
      qed
      moreover have "?bs ! q = blocks ! q" if "q < length blocks" "q < k \<or> L + length src \<le> q * bpp" for q
      proof -
        have "q \<noteq> k" using that(2) by (rule other)
        moreover have "q < Suc k \<or> L + bpp + length (drop bpp src) \<le> q * bpp" using that(2) False by auto
        ultimately show ?thesis using IH st(3,4) that(1) by (metis order_less_le_trans)
      qed
      ultimately show ?thesis using w n IH st(3) by auto
    qed
  qed
qed

subsection \<open>Reading\<close>

lemma read_block_bytes:
  assumes ok: "blocks_ok bpp blocks" and "L div bpp < length blocks" and n: "L mod bpp + n \<le> bpp"
  shows "read_block blocks (L div bpp) (L mod bpp) n = Inr (map (\<lambda>i. byte_at bpp blocks (L + i)) [0..<n])"
proof -
  have len: "length (blocks ! (L div bpp)) = bpp" using ok assms(2) by (simp add: blocks_ok_def)
  have at: "(L + i) div bpp = L div bpp \<and> (L + i) mod bpp = L mod bpp + i" if "i < n" for i
  proof -
    have "L + i = (L mod bpp + i) + L div bpp * bpp" by (metis add.assoc add.commute mod_div_mult_eq)
    moreover have "L mod bpp + i < bpp" using that n by linarith
    ultimately show ?thesis by (metis add.right_neutral div_less div_mult_self1 mod_less mod_mult_self1 add.commute not_less0 less_nat_zero_code)
  qed
  have "take n (drop (L mod bpp) (blocks ! (L div bpp))) = map (\<lambda>i. byte_at bpp blocks (L + i)) [0..<n]"
    by (rule list_eq_nthI) (use len n at in \<open>auto simp: byte_at_def\<close>)
  then show ?thesis using assms(2) by (simp add: read_block_def)
qed

lemma map_upt_shift_split:
  "n \<le> m \<Longrightarrow> map f [0..<n] @ map (\<lambda>i. f (n + i)) [0..<m - n] = map f [0..<m]" for n m :: nat
  by (rule list_eq_nthI) (auto simp: nth_append)

lemma read_pages_bytes:
  assumes ok: "blocks_ok bpp blocks" and "\<forall>i < n. (L + i) div bpp < length blocks \<and> (L + i) div bpp < 2 ^ 32"
  shows "read_pages bpp blocks L n = Inr (map (\<lambda>i. byte_at bpp blocks (L + i)) [0..<n])"
  using assms(2)
proof (induction n arbitrary: L rule: less_induct)
  case (less n)
  have bpp: "0 < bpp" using ok by (simp add: blocks_ok_def)
  show ?case
  proof (cases "n = 0")
    case False
    define m where "m = min (bpp - L mod bpp) n"
    have k: "L div bpp < length blocks" "L div bpp mod 2 ^ 32 = L div bpp"
      using less.prems[rule_format, of 0] False by simp_all
    have n: "0 < m" "m \<le> n" "L mod bpp + m \<le> bpp" using False bpp mod_less_divisor[OF bpp, of L] by (auto simp: m_def)
    have IH: "read_pages bpp blocks (L + m) (n - m) = Inr (map (\<lambda>i. byte_at bpp blocks (L + m + i)) [0..<n - m])"
    proof (rule less.IH)
      show "n - m < n" using n False by simp
      show "\<forall>i < n - m. (L + m + i) div bpp < length blocks \<and> (L + m + i) div bpp < 2 ^ 32"
        using less.prems n by (auto simp: add.assoc)
    qed
    have "read_pages bpp blocks L n =
        Inr (map (\<lambda>i. byte_at bpp blocks (L + i)) [0..<m] @ map (\<lambda>i. byte_at bpp blocks (L + m + i)) [0..<n - m])"
      using False bpp by (subst read_pages.simps) (simp only: Let_def k(2) m_def[symmetric] read_block_bytes[OF ok k(1) n(3)] IH, simp)
    then show ?thesis using map_upt_shift_split[OF n(2), of "\<lambda>i. byte_at bpp blocks (L + i)"] by (simp add: add.assoc)
  qed (simp add: read_pages.simps)
qed

lemma stream_is_read:
  assumes "0 < bpp" "(L + n - 1) div bpp < 2 ^ 32" "0 < n \<Longrightarrow> nxt = L div bpp"
  shows "stream_pages bpp blocks (nxt, (L + n - 1) div bpp) L n = read_pages bpp blocks L n"
  using assms(2,3)
proof (induction n arbitrary: L nxt rule: less_induct)
  case (less n)
  note bpp = assms(1)
  show ?case
  proof (cases "n = 0")
    case False
    let ?n = "min (bpp - L mod bpp) n"
    have n: "0 < ?n" "?n \<le> n" using False bpp mod_less_divisor[OF bpp, of L] by auto
    have nxt: "nxt = L div bpp" using less.prems(2) False by simp
    have le: "L div bpp \<le> (L + n - 1) div bpp" by (rule div_le_mono) (use False in simp)
    have "stream_pages bpp blocks (nxt + 1, (L + ?n + (n - ?n) - 1) div bpp) (L + ?n) (n - ?n) =
        read_pages bpp blocks (L + ?n) (n - ?n)"
    proof (rule less.IH)
      show "n - ?n < n" using n False by simp
      show "(L + ?n + (n - ?n) - 1) div bpp < 2 ^ 32" using less.prems(1) n by simp
      assume "0 < n - ?n"
      then have "?n = bpp - L mod bpp" by simp
      moreover have "L = L div bpp * bpp + L mod bpp" by simp
      ultimately have "L + ?n = (L div bpp + 1) * bpp"
        using mod_less_divisor[OF bpp, of L] unfolding distrib_right by linarith
      then show "nxt + 1 = (L + ?n) div bpp" using nxt bpp by simp
    qed
    then have IH: "stream_pages bpp blocks (Suc (L div bpp), (L + n - 1) div bpp) (L + ?n) (n - ?n) =
        read_pages bpp blocks (L + ?n) (n - ?n)" using n nxt by simp
    have mod32: "L div bpp mod 2 ^ 32 = L div bpp" using le less.prems(1) by simp
    have nx: "pgcolumnar_read_stream_next (L div bpp, (L + n - 1) div bpp) =
        Some (L div bpp, Suc (L div bpp), (L + n - 1) div bpp)"
      using le by (simp add: pgcolumnar_read_stream_next_def)
    show ?thesis using False bpp
      by (subst stream_pages.simps, subst read_pages.simps)
        (simp only: Let_def mod32 nxt nx option.case prod.case IH simp_thms if_False refl)
  qed (simp add: read_pages.simps stream_pages.simps)
qed

text \<open>
  A range of the fork that holds some data. PostgreSQL's largest block number is
  \<open>2 ^ 32 - 2\<close>, so a file ends before \<open>2 ^ 32 - 1\<close> blocks.
\<close>

definition holds_at :: "nat \<Rightarrow> main_fork \<Rightarrow> nat \<Rightarrow> byte list \<Rightarrow> bool" where
  "holds_at bpp f off data \<longleftrightarrow> off + length data \<le> (2 ^ 32 - 1) * bpp \<and>
     (\<forall>i < length data. (off + i) div bpp < length (mf_blocks f) \<and> byte_at bpp (mf_blocks f) (off + i) = data ! i)"

lemma read_held:
  assumes ok: "blocks_ok bpp (mf_blocks f)" and h: "holds_at bpp f off data" and n: "i + n \<le> length data"
  shows "PgColumnarReadLogicalData bpp stream (off + i) n f = Inr (take n (drop i data))"
proof (cases "n = 0")
  case False
  have bpp: "0 < bpp" using ok by (simp add: blocks_ok_def)
  have lim: "(off + j) div bpp < 2 ^ 32" if "j < length data" for j
  proof (intro less_mult_imp_div_less)
    have "(2 ^ 32 - 1) * bpp \<le> 2 ^ 32 * bpp" by simp
    then show "off + j < 2 ^ 32 * bpp" using h that unfolding holds_at_def by linarith
  qed
  have r: "read_pages bpp (mf_blocks f) (off + i) n = Inr (map (\<lambda>j. byte_at bpp (mf_blocks f) (off + i + j)) [0..<n])"
    using h n lim by (intro read_pages_bytes[OF ok]) (auto simp: holds_at_def add.assoc)
  have "map (\<lambda>j. byte_at bpp (mf_blocks f) (off + i + j)) [0..<n] = take n (drop i data)"
    by (rule list_eq_nthI) (use h n in \<open>auto simp: holds_at_def add.assoc\<close>)
  moreover have "(off + i + n - 1) div bpp < 2 ^ 32" "(off + i) div bpp < 2 ^ 32"
    using lim[of "i + n - 1"] lim[of i] n False by (simp_all add: add.assoc)
  moreover from this have "stream_pages bpp (mf_blocks f) ((off + i) div bpp mod 2 ^ 32, (off + i + n - 1) div bpp mod 2 ^ 32)
      (off + i) n = read_pages bpp (mf_blocks f) (off + i) n"
    using stream_is_read[OF bpp, of "off + i" n] by (simp only: mod_less)
  ultimately show ?thesis using r False by (simp only: PgColumnarReadLogicalData_def if_False) simp
qed (simp add: PgColumnarReadLogicalData_def)

lemma write_holds:
  assumes ok: "blocks_ok bpp (mf_blocks f)" and off: "off = k * bpp" "off + length data \<le> (2 ^ 32 - 1) * bpp"
  shows "blocks_ok bpp (mf_blocks (PgColumnarWriteLogicalData bpp off data f))"
    and "holds_at bpp (PgColumnarWriteLogicalData bpp off data f) off data"
    and "holds_at bpp f o' d' \<Longrightarrow> o' + length d' \<le> off \<or> off + length data \<le> o' div bpp * bpp \<Longrightarrow>
      holds_at bpp (PgColumnarWriteLogicalData bpp off data f) o' d'"
proof -
  have bpp: "0 < bpp" using ok by (simp add: blocks_ok_def)
  let ?f = "PgColumnarWriteLogicalData bpp off data f"
  have "(2 ^ 32 - 1) * bpp \<le> 2 ^ 32 * bpp" by simp
  with off(2) have "off + length data \<le> 2 ^ 32 * bpp" by linarith
  note w = write_pages_spec[OF ok off(1) this]
  show "blocks_ok bpp (mf_blocks ?f)" using w by (simp add: PgColumnarWriteLogicalData_def)
  show "holds_at bpp ?f off data" using w off(2) by (simp add: holds_at_def PgColumnarWriteLogicalData_def)
  assume h: "holds_at bpp f o' d'" and dis: "o' + length d' \<le> off \<or> off + length data \<le> o' div bpp * bpp"
  have "(o' + i) div bpp < length (mf_blocks ?f) \<and> byte_at bpp (mf_blocks ?f) (o' + i) = d' ! i" if i: "i < length d'" for i
  proof -
    let ?q = "(o' + i) div bpp"
    have hq: "?q < length (mf_blocks f)" "byte_at bpp (mf_blocks f) (o' + i) = d' ! i"
      using h i by (simp_all add: holds_at_def)
    have "?q < k \<or> off + length data \<le> ?q * bpp"
    proof (cases "o' + length d' \<le> off")
      case True
      then have "o' + i < k * bpp" using i off(1) by simp
      then show ?thesis by (simp add: less_mult_imp_div_less)
    next
      case False
      moreover have "o' div bpp * bpp \<le> ?q * bpp" by (intro mult_le_mono1 div_le_mono) simp
      ultimately show ?thesis using dis by linarith
    qed
    then have "mf_blocks ?f ! ?q = mf_blocks f ! ?q" "length (mf_blocks f) \<le> length (mf_blocks ?f)"
      using w hq(1) unfolding PgColumnarWriteLogicalData_def by auto
    then show ?thesis using hq by (simp add: byte_at_def)
  qed
  then show "holds_at bpp ?f o' d'" using h by (simp add: holds_at_def)
qed

subsection \<open>Properties\<close>

text \<open>
  C23: Logical data reads back. Writing at a page-aligned offset, over existing blocks, at the
  end of the file or past a gap, keeps every page whole; any part of the range written is
  then read back exactly, through the read stream or block by block, and data held in
  other pages is unchanged.
\<close>

theorem logical_data_roundtrip:
  assumes "blocks_ok bpp (mf_blocks f)" and "off = k * bpp" and "off + length data \<le> (2 ^ 32 - 1) * bpp"
    and "i + n \<le> length data" and "holds_at bpp f o' d'"
    and "o' + length d' \<le> off \<or> off + length data \<le> o' div bpp * bpp" and "j + m \<le> length d'"
  shows "blocks_ok bpp (mf_blocks (PgColumnarWriteLogicalData bpp off data f)) \<and>
    PgColumnarReadLogicalData bpp stream (off + i) n (PgColumnarWriteLogicalData bpp off data f) =
      Inr (take n (drop i data)) \<and>
    PgColumnarReadLogicalData bpp stream (o' + j) m (PgColumnarWriteLogicalData bpp off data f) =
      Inr (take m (drop j d'))"
  using write_holds[OF assms(1-3)] read_held assms(4-) by blast

theorem logical_data_roundtrip_witness:
  "PgColumnarReadLogicalData 4 True 17 3
     (PgColumnarWriteLogicalData 4 16 [1, 2, 3, 4, 5] (PgColumnarWriteNewMetapage 4 9)) = Inr [2, 3, 4]"
  using logical_data_roundtrip[of 4 "PgColumnarWriteNewMetapage 4 9" 16 4 "[1, 2, 3, 4, 5]" 1 3 0 "[]" 0 0 True]
  by (simp add: PgColumnarWriteNewMetapage_def blocks_ok_def empty_page_def holds_at_def)

text \<open>
  C37: A row number and its item pointer determine each other: over the whole range a 32-bit
  block number can address, the item pointer is valid (its offset lies between 1 and the
  number of tuples of a page) and maps back to the row number, so no two rows share an
  item pointer.
\<close>

theorem item_pointer_roundtrip:
  assumes "0 < mht" and "mht < 2 ^ 16" and "rowNumber < 2 ^ 32 * mht"
  shows "PgColumnarItemPointerToRowNumber mht (PgColumnarRowNumberToItemPointer mht rowNumber) = rowNumber \<and>
    1 \<le> snd (PgColumnarRowNumberToItemPointer mht rowNumber) \<and>
    snd (PgColumnarRowNumberToItemPointer mht rowNumber) \<le> mht"
proof -
  have m: "rowNumber mod mht < mht" using assms(1) by simp
  then have "(rowNumber mod mht + 1) mod 2 ^ 16 = rowNumber mod mht + 1" using assms(2) by simp
  moreover have "rowNumber div mht mod 2 ^ 32 = rowNumber div mht"
    using assms(3) by (simp add: less_mult_imp_div_less)
  ultimately show ?thesis using m
    by (simp add: PgColumnarItemPointerToRowNumber_def PgColumnarRowNumberToItemPointer_def)
qed

theorem item_pointer_roundtrip_witness:
  "PgColumnarItemPointerToRowNumber 291 (PgColumnarRowNumberToItemPointer 291 582) = 582 \<and>
   PgColumnarRowNumberToItemPointer 291 582 = (2, 1)"
  using item_pointer_roundtrip[of 291 582] by (simp add: PgColumnarRowNumberToItemPointer_def)

end
