(* ===== verification/Reclaim.thy ===== *)
theory Reclaim
  imports Storage
begin

section \<open>Physical reclaim\<close>

text \<open>
  The reuse of freed byte ranges (\<open>src/src/columnar_metadata.c\<close>, \<open>src/src/columnar_vacuum.c\<close>):
  retiring a row group records its page-aligned footprint in \<open>free_space\<close>, coalesced with
  neighbours freed by the same transaction; a compaction reserves the smallest fitting
  range that no snapshot can still read, and splits it; end truncation shrinks the file to
  the last live group. The catalog tables are lists of rows. PostgreSQL's
  \<open>TransactionIdPrecedes\<close> is the argument \<open>precedes\<close>; a row freed at a normal transaction id
  that does not precede the horizon may still be read by some snapshot. The development
  shows that no step overwrites or cuts off data that a snapshot can reach.
\<close>

subsection \<open>Definitions\<close>

record free_row =
  fs_storage :: nat
  fs_off :: nat
  fs_len :: nat
  fs_xid :: nat

record row_group =
  rg_storageId :: nat
  rg_groupNumber :: nat
  rg_fileOffset :: nat
  rg_rowCount :: nat
  rg_byteLength :: nat
  rg_firstRowNumber :: nat

definition TransactionIdIsNormal :: "nat \<Rightarrow> bool" where
  "TransactionIdIsNormal xid \<longleftrightarrow> xid \<ge> 3"

definition insert_free_space_row :: "nat \<Rightarrow> nat \<Rightarrow> nat \<Rightarrow> nat \<Rightarrow> free_row list \<Rightarrow> free_row list result" where
  "insert_free_space_row storageId off len xid rows =
     (if \<exists>r \<in> set rows. fs_storage r = storageId \<and> fs_off r = off
      then Inl (Corrupt ''duplicate key value violates unique constraint free_space_pkey'')
      else Inr (rows @ [\<lparr>fs_storage = storageId, fs_off = off, fs_len = len, fs_xid = xid\<rparr>]))"

text \<open>The rows merged into a new range; at most two of them are deleted (\<open>mergeTids[2]\<close>).\<close>

definition merge_rows :: "nat \<Rightarrow> nat \<Rightarrow> nat \<Rightarrow> nat \<Rightarrow> free_row list \<Rightarrow> free_row list" where
  "merge_rows storageId freedXid origOff origEnd rows =
     filter (\<lambda>r. fs_storage r = storageId \<and> fs_xid r = freedXid \<and>
                 (fs_off r + fs_len r = origOff \<or> fs_off r = origEnd)) rows"

definition record_free_space ::
  "nat \<Rightarrow> bool \<Rightarrow> nat \<Rightarrow> nat \<Rightarrow> nat \<Rightarrow> nat \<Rightarrow> free_row list \<Rightarrow> free_row list result" where
  "record_free_space bpp coalesce freedXid storageId fileOffset byteLength rows =
     (let len0 = COLUMNAR_PAGE_ROUND_UP bpp byteLength;
          merged = (if coalesce then merge_rows storageId freedXid fileOffset (fileOffset + len0) rows else []);
          off = fold (\<lambda>r off. min off (fs_off r)) merged fileOffset;
          len = fold (\<lambda>r len. len + fs_len r) merged len0
      in insert_free_space_row storageId off len freedXid (fold remove1 (take 2 merged) rows))"

definition reusable :: "(nat \<Rightarrow> nat \<Rightarrow> bool) \<Rightarrow> nat \<Rightarrow> nat \<Rightarrow> bool" where
  "reusable precedes oldestXmin fxid \<longleftrightarrow> \<not> (TransactionIdIsNormal fxid \<and> \<not> precedes fxid oldestXmin)"

definition best_fit ::
  "(nat \<Rightarrow> nat \<Rightarrow> bool) \<Rightarrow> nat \<Rightarrow> nat \<Rightarrow> nat \<Rightarrow> free_row list \<Rightarrow> free_row option" where
  "best_fit precedes oldestXmin storageId dataLength rows =
     fold (\<lambda>r best.
       if fs_storage r \<noteq> storageId \<or> fs_len r < dataLength \<or> \<not> reusable precedes oldestXmin (fs_xid r) then best
       else case best of None \<Rightarrow> Some r | Some b \<Rightarrow> if fs_len r < fs_len b then Some r else best) rows None"

definition PgColumnarAllocateFreeSpace ::
  "nat \<Rightarrow> bool \<Rightarrow> (nat \<Rightarrow> nat \<Rightarrow> bool) \<Rightarrow> nat \<Rightarrow> nat \<Rightarrow> nat \<Rightarrow> free_row list \<Rightarrow> (nat \<times> free_row list) option result" where
  "PgColumnarAllocateFreeSpace bpp coalesce precedes oldestXmin storageId dataLength rows =
     (case best_fit precedes oldestXmin storageId dataLength rows of
        None \<Rightarrow> Inr None
      | Some b \<Rightarrow>
          let rest = remove1 b rows;
              allocLen = COLUMNAR_PAGE_ROUND_UP bpp dataLength
          in if coalesce \<and> fs_len b > allocLen
             then res_bind (insert_free_space_row storageId (fs_off b + allocLen) (fs_len b - allocLen) (fs_xid b) rest)
                    (\<lambda>rows'. Inr (Some (fs_off b, rows')))
             else Inr (Some (fs_off b, rest)))"

definition PgColumnarTrailingFreeSpaceSafe ::
  "(nat \<Rightarrow> nat \<Rightarrow> bool) \<Rightarrow> nat \<Rightarrow> nat \<Rightarrow> nat \<Rightarrow> free_row list \<Rightarrow> bool" where
  "PgColumnarTrailingFreeSpaceSafe precedes oldestXmin storageId liveEnd rows \<longleftrightarrow>
     (\<forall>r \<in> set rows. fs_storage r = storageId \<and> \<not> fs_off r < liveEnd \<longrightarrow> reusable precedes oldestXmin (fs_xid r))"

definition PgColumnarDeleteFreeSpaceAtOrAbove :: "nat \<Rightarrow> nat \<Rightarrow> free_row list \<Rightarrow> free_row list" where
  "PgColumnarDeleteFreeSpaceAtOrAbove storageId liveEnd rows =
     filter (\<lambda>r. \<not> (fs_storage r = storageId \<and> fs_off r \<ge> liveEnd)) rows"

definition collect_footprints :: "nat \<Rightarrow> nat \<Rightarrow> row_group list \<Rightarrow> (nat \<times> nat) list" where
  "collect_footprints bpp storageId groups =
     map (\<lambda>g. (rg_fileOffset g, rg_fileOffset g + COLUMNAR_PAGE_ROUND_UP bpp (rg_byteLength g)))
       (filter (\<lambda>g. rg_storageId g = storageId \<and> rg_byteLength g \<noteq> 0) groups)"

text \<open>The binary search: \<open>lo\<close> ends at the count of footprints that start below \<open>fin\<close>.\<close>

function foot_search :: "(nat \<times> nat) list \<Rightarrow> nat \<Rightarrow> nat \<Rightarrow> nat \<Rightarrow> nat" where
  "foot_search foots fin lo hi =
     (if lo < hi
      then let m = (lo + hi) div 2
           in if fst (foots ! m) < fin then foot_search foots fin (m + 1) hi else foot_search foots fin lo m
      else lo)"
  by pat_completeness auto
termination by (relation "measure (\<lambda>(foots, fin, lo, hi). hi - lo)") auto

declare foot_search.simps [simp del]

definition range_overlaps_footprint :: "nat \<Rightarrow> nat \<Rightarrow> (nat \<times> nat) list \<Rightarrow> bool" where
  "range_overlaps_footprint start fin foots =
     (let lo = foot_search foots fin 0 (length foots) in lo > 0 \<and> snd (foots ! (lo - 1)) > start)"

definition PgColumnarReconcileFreeList :: "nat \<Rightarrow> nat list \<Rightarrow> row_group list \<Rightarrow> free_row list \<Rightarrow> free_row list" where
  "PgColumnarReconcileFreeList bpp storages groups rows =
     (let foots = sort_key fst (concat (map (\<lambda>sid. collect_footprints bpp sid groups) storages))
      in filter (\<lambda>r. \<not> (fs_storage r \<in> set storages \<and>
                        range_overlaps_footprint (fs_off r) (fs_off r + fs_len r) foots)) rows)"

text \<open>The assertion check of debug builds, over live footprints and free ranges of one storage.\<close>

definition PgColumnarCheckFreeSpaceNoOverlap :: "nat \<Rightarrow> nat \<Rightarrow> row_group list \<Rightarrow> free_row list \<Rightarrow> bool" where
  "PgColumnarCheckFreeSpaceNoOverlap bpp storageId groups rows =
     (let ranges = sort_key fst
            (map (\<lambda>g. (rg_fileOffset g, COLUMNAR_PAGE_ROUND_UP bpp (rg_byteLength g)))
               (filter (\<lambda>g. rg_storageId g = storageId \<and> rg_byteLength g \<noteq> 0) groups) @
             map (\<lambda>r. (fs_off r, fs_len r)) (filter (\<lambda>r. fs_storage r = storageId \<and> fs_len r \<noteq> 0) rows))
      in \<forall>i < length ranges - 1. \<not> fst (ranges ! Suc i) < fst (ranges ! i) + snd (ranges ! i))"

text \<open>The relation file with its catalog rows.\<close>

record reclaim_state =
  rs_fork :: main_fork
  rs_groups :: "row_group list"
  rs_free :: "free_row list"

definition PgColumnarRetireGroup :: "nat \<Rightarrow> bool \<Rightarrow> nat \<Rightarrow> row_group \<Rightarrow> reclaim_state \<Rightarrow> reclaim_state result" where
  "PgColumnarRetireGroup bpp coalesce xid g st =
     (let groups = remove1 g (rs_groups st)
      in if rg_byteLength g > 0
         then res_bind (record_free_space bpp coalesce xid (rg_storageId g) (rg_fileOffset g) (rg_byteLength g) (rs_free st))
                (\<lambda>rows. Inr (st\<lparr>rs_groups := groups, rs_free := rows\<rparr>))
         else Inr (st\<lparr>rs_groups := groups\<rparr>))"

definition pgcolumnar_end_truncation_storages :: "nat \<Rightarrow> nat list \<Rightarrow> nat list" where
  "pgcolumnar_end_truncation_storages base projs =
     fold (\<lambda>p acc. if p \<in> set acc then acc else acc @ [p]) projs [base]"

definition live_end :: "nat \<Rightarrow> nat list \<Rightarrow> row_group list \<Rightarrow> nat" where
  "live_end bpp storages groups =
     fold (\<lambda>g e. let end = rg_fileOffset g + COLUMNAR_PAGE_ROUND_UP bpp (rg_byteLength g) in if end > e then end else e)
       (concat (map (\<lambda>sid. filter (\<lambda>g. rg_storageId g = sid) groups) storages))
       (COLUMNAR_FIRST_LOGICAL_OFFSET bpp)"

text \<open>The result is the new state and the number of blocks returned to the system.\<close>

definition pgcolumnar_do_end_truncation ::
  "nat \<Rightarrow> (nat \<Rightarrow> nat \<Rightarrow> bool) \<Rightarrow> nat \<Rightarrow> nat list \<Rightarrow> reclaim_state \<Rightarrow> reclaim_state \<times> nat" where
  "pgcolumnar_do_end_truncation bpp precedes oldestXmin storages st =
     (let highwater = reservedOffset (mf_meta (rs_fork st));
          rows1 = fold (\<lambda>sid. PgColumnarDeleteFreeSpaceAtOrAbove sid highwater) storages (rs_free st);
          rows2 = PgColumnarReconcileFreeList bpp storages (rs_groups st) rows1;
          liveEnd = live_end bpp storages (rs_groups st);
          truncBlock = (liveEnd div bpp) mod 2 ^ 32;
          oldnblocks = length (mf_blocks (rs_fork st))
      in if truncBlock \<ge> oldnblocks then (st\<lparr>rs_free := rows2\<rparr>, 0)
         else if \<exists>sid \<in> set storages. \<not> PgColumnarTrailingFreeSpaceSafe precedes oldestXmin sid liveEnd rows2
         then (st\<lparr>rs_free := rows2\<rparr>, 0)
         else (st\<lparr>rs_free := fold (\<lambda>sid. PgColumnarDeleteFreeSpaceAtOrAbove sid liveEnd) storages rows2,
                 rs_fork := PgColumnarSetReservedOffset liveEnd (PgColumnarTruncateMainFork truncBlock (rs_fork st))\<rparr>,
               oldnblocks - truncBlock))"

text \<open>
  The placement of a row group in \<open>flush_row_group\<close>: reuse when the caller may, else append;
  then the write and the \<open>row_group\<close> row.
\<close>

definition place_row_group ::
  "nat \<Rightarrow> bool \<Rightarrow> (nat \<Rightarrow> nat \<Rightarrow> bool) \<Rightarrow> nat \<Rightarrow> bool \<Rightarrow> nat \<Rightarrow> row_group \<Rightarrow> byte list \<Rightarrow> reclaim_state \<Rightarrow> (row_group \<times> reclaim_state) result" where
  "place_row_group bpp coalesce precedes oldestXmin mayReuse baseStorage g data st =
     res_bind
       (if length data > 0 \<and> mayReuse
        then PgColumnarAllocateFreeSpace bpp coalesce precedes oldestXmin baseStorage (length data) (rs_free st)
        else Inr None)
       (\<lambda>reused.
          let (fileOffset, fork1, rows) =
                (case reused of
                   Some (off, rows) \<Rightarrow> (off, rs_fork st, rows)
                 | None \<Rightarrow> let (off, fork1) = PgColumnarReserveOffset bpp (length data) (rs_fork st)
                           in (off, fork1, rs_free st));
              fork2 = (if length data > 0 then PgColumnarWriteLogicalData bpp fileOffset data fork1 else fork1);
              g' = g\<lparr>rg_fileOffset := fileOffset, rg_byteLength := length data\<rparr>
          in Inr (g', st\<lparr>rs_fork := fork2, rs_groups := rs_groups st @ [g'], rs_free := rows\<rparr>))"

subsection \<open>Page arithmetic\<close>

lemma round_up_facts:
  assumes "0 < bpp"
  shows "bpp dvd COLUMNAR_PAGE_ROUND_UP bpp n" "n \<le> COLUMNAR_PAGE_ROUND_UP bpp n"
    "COLUMNAR_PAGE_ROUND_UP bpp n < n + bpp" "bpp dvd m \<Longrightarrow> n \<le> m \<Longrightarrow> COLUMNAR_PAGE_ROUND_UP bpp n \<le> m"
    "n \<noteq> 0 \<Longrightarrow> 0 < COLUMNAR_PAGE_ROUND_UP bpp n"
proof -
  let ?q = "(n + bpp - 1) div bpp"
  have e: "n + bpp - 1 = ?q * bpp + (n + bpp - 1) mod bpp" by simp
  have m: "(n + bpp - 1) mod bpp < bpp" using assms by simp
  show "bpp dvd COLUMNAR_PAGE_ROUND_UP bpp n" by (simp add: COLUMNAR_PAGE_ROUND_UP_def)
  show le: "n \<le> COLUMNAR_PAGE_ROUND_UP bpp n" and lt: "COLUMNAR_PAGE_ROUND_UP bpp n < n + bpp"
    using e m assms unfolding COLUMNAR_PAGE_ROUND_UP_def by linarith+
  show "n \<noteq> 0 \<Longrightarrow> 0 < COLUMNAR_PAGE_ROUND_UP bpp n" using le by simp
  show "COLUMNAR_PAGE_ROUND_UP bpp n \<le> m" if "bpp dvd m" "n \<le> m"
  proof -
    obtain k where k: "m = k * bpp" using \<open>bpp dvd m\<close> by (metis dvdE mult.commute)
    have "?q * bpp < (k + 1) * bpp" using lt that(2) k by (simp add: COLUMNAR_PAGE_ROUND_UP_def)
    then have "?q < k + 1" by (simp only: mult_less_cancel2)
    then have "?q \<le> k" by simp
    then show ?thesis using k by (simp add: COLUMNAR_PAGE_ROUND_UP_def)
  qed
qed

lemma round_up_mono: "0 < bpp \<Longrightarrow> n \<le> m \<Longrightarrow> COLUMNAR_PAGE_ROUND_UP bpp n \<le> COLUMNAR_PAGE_ROUND_UP bpp m"
  using round_up_facts(1,2)[of bpp m] round_up_facts(4)[of bpp "COLUMNAR_PAGE_ROUND_UP bpp m" n] by linarith

lemma round_up_multiple: "0 < bpp \<Longrightarrow> bpp dvd n \<Longrightarrow> COLUMNAR_PAGE_ROUND_UP bpp n = n"
  using round_up_facts(2)[of bpp n] round_up_facts(4)[of bpp n n] by simp

text \<open>Ranges given by offset and length.\<close>

definition apart :: "nat \<times> nat \<Rightarrow> nat \<times> nat \<Rightarrow> bool" where
  "apart a b \<longleftrightarrow> fst a + snd a \<le> fst b \<or> fst b + snd b \<le> fst a"

lemma apart_sym: "apart a b \<Longrightarrow> apart b a"
  by (auto simp: apart_def)

lemma apart_sub:
  assumes "apart (o1, l1) b" "o1 \<le> o2" "o2 + l2 \<le> o1 + l1"
  shows "apart (o2, l2) b"
  using assms by (auto simp: apart_def)

lemma apart_join:
  assumes "apart (o1, l1) b" "apart (o1 + l1, l2) b" "0 < snd b"
  shows "apart (o1, l1 + l2) b"
  using assms by (auto simp: apart_def)

definition foot :: "nat \<Rightarrow> nat \<Rightarrow> nat \<Rightarrow> nat \<times> nat" where
  "foot bpp off len = (off, COLUMNAR_PAGE_ROUND_UP bpp len)"

definition free_range :: "free_row \<Rightarrow> nat \<times> nat" where
  "free_range r = (fs_off r, fs_len r)"

lemma write_keeps:
  assumes ok: "blocks_ok bpp (mf_blocks f)" and off: "bpp dvd off" "off + length data \<le> (2 ^ 32 - 1) * bpp"
    and h: "holds_at bpp f o' d'" "bpp dvd o'" and ap: "apart (foot bpp o' (length d')) (foot bpp off (length data))"
  shows "holds_at bpp (PgColumnarWriteLogicalData bpp off data f) o' d'"
proof -
  have bpp: "0 < bpp" using ok by (simp add: blocks_ok_def)
  obtain k where k: "off = k * bpp" using off(1) by (metis dvdE mult.commute)
  have "o' div bpp * bpp = o'" using h(2) by simp
  then show ?thesis
    using write_holds(3)[OF ok k off(2) h(1)] ap round_up_facts(2)[OF bpp, of "length d'"]
      round_up_facts(2)[OF bpp, of "length data"] by (auto simp: apart_def foot_def)
qed

subsection \<open>The free list\<close>

definition rows_ok_in :: "nat \<Rightarrow> nat \<Rightarrow> free_row list \<Rightarrow> bool" where
  "rows_ok_in bpp limit rows \<longleftrightarrow> distinct rows \<and>
     (\<forall>r \<in> set rows. bpp dvd fs_off r \<and> bpp dvd fs_len r \<and> 0 < fs_len r \<and>
        COLUMNAR_FIRST_LOGICAL_OFFSET bpp \<le> fs_off r \<and> fs_off r + fs_len r \<le> limit) \<and>
     (\<forall>r \<in> set rows. \<forall>r' \<in> set rows. r \<noteq> r' \<longrightarrow> apart (free_range r) (free_range r'))"

lemma rows_apart:
  "rows_ok_in bpp limit rows \<Longrightarrow> r \<in> set rows \<Longrightarrow> r' \<in> set rows \<Longrightarrow> r \<noteq> r' \<Longrightarrow> apart (free_range r) (free_range r')"
  by (simp add: rows_ok_in_def)

text \<open>A row can be added beside rows that keep clear of its range.\<close>

lemma insert_row_ok:
  assumes rows: "rows_ok_in bpp limit rows" and new: "bpp dvd off" "bpp dvd len" "0 < len"
      "COLUMNAR_FIRST_LOGICAL_OFFSET bpp \<le> off" "off + len \<le> limit"
    and ap: "\<forall>r \<in> set rows. apart (off, len) (free_range r)"
  shows "\<exists>rows'. insert_free_space_row sid off len xid rows = Inr rows' \<and> rows_ok_in bpp limit rows' \<and>
    set rows' = insert \<lparr>fs_storage = sid, fs_off = off, fs_len = len, fs_xid = xid\<rparr> (set rows)"
proof -
  let ?n = "\<lparr>fs_storage = sid, fs_off = off, fs_len = len, fs_xid = xid\<rparr>"
  have no: "fs_off r \<noteq> off" if "r \<in> set rows" for r
    using ap new(3) rows that by (force simp: apart_def free_range_def rows_ok_in_def)
  then have "?n \<notin> set rows" by force
  moreover have "apart (free_range ?n) (free_range r) \<and> apart (free_range r) (free_range ?n)" if "r \<in> set rows" for r
    using ap that apart_sym by (auto simp: free_range_def)
  ultimately have "rows_ok_in bpp limit (rows @ [?n])" using rows new unfolding rows_ok_in_def by auto
  then show ?thesis using no by (auto simp: insert_free_space_row_def)
qed

lemma rows_ok_subset:
  "rows_ok_in bpp limit rows \<Longrightarrow> distinct rows' \<Longrightarrow> set rows' \<subseteq> set rows \<Longrightarrow> rows_ok_in bpp limit rows'"
  unfolding rows_ok_in_def by blast

lemma rows_ok_limit: "rows_ok_in bpp limit rows \<Longrightarrow> limit \<le> limit' \<Longrightarrow> rows_ok_in bpp limit' rows"
  unfolding rows_ok_in_def by (meson le_trans)

text \<open>The merge takes at most one row on each side, so the cap of two deletions never binds.\<close>

lemma merge_rows_cases:
  assumes rows: "rows_ok_in bpp limit rows" and M: "M = merge_rows sid xid off fin rows"
  obtains "M = []"
  | l where "M = [l]" "l \<in> set rows" "fs_xid l = xid" "fs_off l + fs_len l = off"
  | r where "M = [r]" "r \<in> set rows" "fs_xid r = xid" "fs_off r = fin"
  | l r where "M = [l, r] \<or> M = [r, l]" "l \<in> set rows" "r \<in> set rows" "l \<noteq> r" "fs_xid l = xid" "fs_xid r = xid"
      "fs_off l + fs_len l = off" "fs_off r = fin"
proof -
  have el: "r \<in> set rows \<and> fs_xid r = xid \<and> (fs_off r + fs_len r = off \<or> fs_off r = fin)" if "r \<in> set M" for r
    using that by (auto simp: M merge_rows_def)
  have d: "distinct M" using rows by (simp add: M merge_rows_def rows_ok_in_def)
  have same: "a = b" if "a \<in> set M" "b \<in> set M"
      "fs_off a + fs_len a = off \<and> fs_off b + fs_len b = off \<or> fs_off a = fin \<and> fs_off b = fin" for a b
  proof (rule ccontr)
    assume "a \<noteq> b"
    then have "apart (free_range a) (free_range b)" "0 < fs_len a" "0 < fs_len b"
      using rows el that(1,2) unfolding rows_ok_in_def by blast+
    then show False using that(3) by (auto simp: apart_def free_range_def)
  qed
  consider "M = []" | a where "M = [a]" | a b where "M = [a, b]" | a b c M' where "M = a # b # c # M'"
    by (metis list.exhaust)
  then show thesis
  proof cases
    case 2
    then show thesis using el[of a] that(2,3) by auto
  next
    case 3
    then have "a \<noteq> b" "a \<in> set M" "b \<in> set M" using d by auto
    then show thesis using el[of a] el[of b] same[of a b] 3 that(4)[of a b] that(4)[of b a] by metis
  next
    case 4
    then have "a \<noteq> b" "a \<noteq> c" "b \<noteq> c" "a \<in> set M" "b \<in> set M" "c \<in> set M" using d by auto
    then show thesis using el[of a] el[of b] el[of c] same[of a b] same[of a c] same[of b c] by metis
  qed (use that(1) in simp)
qed

text \<open>
  Recording a freed footprint that keeps clear of the free rows: the list stays well formed,
  the new row holds the footprint, and every row that disappears was merged into it under
  the same transaction id.
\<close>

lemma record_free_space_ok:
  assumes bpp: "0 < bpp" and rows: "rows_ok_in bpp limit rows" and b: "0 < n" "bpp dvd off"
      "COLUMNAR_FIRST_LOGICAL_OFFSET bpp \<le> off" "off + COLUMNAR_PAGE_ROUND_UP bpp n \<le> limit"
    and ap: "\<forall>r \<in> set rows. apart (foot bpp off n) (free_range r)"
  shows "\<exists>rows' new. record_free_space bpp coalesce xid sid off n rows = Inr rows' \<and> rows_ok_in bpp limit rows' \<and>
    new \<in> set rows' \<and> fs_xid new = xid \<and> fs_off new \<le> off \<and>
    off + COLUMNAR_PAGE_ROUND_UP bpp n \<le> fs_off new + fs_len new \<and>
    set rows' \<subseteq> insert new (set rows) \<and>
    (\<forall>r \<in> set rows - set rows'. fs_xid r = xid \<and> fs_off new \<le> fs_off r \<and> fs_off r + fs_len r \<le> fs_off new + fs_len new) \<and>
    (\<forall>q. apart (foot bpp off n) q \<and> 0 < snd q \<and> (\<forall>r \<in> set rows. apart (free_range r) q) \<longrightarrow> apart (free_range new) q)"
proof -
  let ?len = "COLUMNAR_PAGE_ROUND_UP bpp n"
  define M where "M = (if coalesce then merge_rows sid xid off (off + ?len) rows else [])"
  have len: "0 < ?len" "bpp dvd ?len" using round_up_facts[OF bpp] b(1) by simp_all
  have rec: "record_free_space bpp coalesce xid sid off n rows =
      insert_free_space_row sid (fold (\<lambda>r m. min m (fs_off r)) M off) (fold (\<lambda>r k. k + fs_len r) M ?len) xid
        (fold remove1 (take 2 M) rows)"
    by (simp add: record_free_space_def M_def Let_def)
  have row: "bpp dvd fs_off r \<and> bpp dvd fs_len r \<and> 0 < fs_len r \<and> COLUMNAR_FIRST_LOGICAL_OFFSET bpp \<le> fs_off r \<and>
      fs_off r + fs_len r \<le> limit" if "r \<in> set rows" for r using rows that by (simp add: rows_ok_in_def)
  then have pos: "0 < snd (free_range r)" if "r \<in> set rows" for r using that by (simp add: free_range_def)
  have dist: "distinct rows" and away: "\<And>r r'. r \<in> set rows \<Longrightarrow> r' \<in> set rows \<Longrightarrow> r \<noteq> r' \<Longrightarrow> apart (free_range r) (free_range r')"
    using rows by (auto simp: rows_ok_in_def)
  have merged: ?thesis if rest: "set rest = set rows - D" "distinct rest" "D \<subseteq> set rows"
      and r: "record_free_space bpp coalesce xid sid off n rows = insert_free_space_row sid o' l' xid rest"
      and o: "bpp dvd o'" "bpp dvd l'" "o' \<le> off" "off + ?len \<le> o' + l'" "COLUMNAR_FIRST_LOGICAL_OFFSET bpp \<le> o'" "o' + l' \<le> limit"
      and ap': "\<forall>r \<in> set rows - D. apart (o', l') (free_range r)"
      and D: "\<forall>r \<in> D. fs_xid r = xid \<and> o' \<le> fs_off r \<and> fs_off r + fs_len r \<le> o' + l'"
      and q: "\<And>q. apart (foot bpp off n) q \<Longrightarrow> 0 < snd q \<Longrightarrow> \<forall>r \<in> set rows. apart (free_range r) q \<Longrightarrow> apart (o', l') q"
    for rest D o' l'
  proof -
    have rest_ok: "rows_ok_in bpp limit rest" by (rule rows_ok_subset[OF rows rest(2)]) (use rest(1) in auto)
    have "0 < l'" using o len by linarith
    then obtain rows' where "insert_free_space_row sid o' l' xid rest = Inr rows'" "rows_ok_in bpp limit rows'"
        "set rows' = insert \<lparr>fs_storage = sid, fs_off = o', fs_len = l', fs_xid = xid\<rparr> (set rest)"
      using insert_row_ok[OF rest_ok o(1,2) _ o(5,6), of sid xid] ap' rest(1) by auto
    then show ?thesis using r o(3,4) rest D q
      by (intro exI[of _ rows'] exI[of _ "\<lparr>fs_storage = sid, fs_off = o', fs_len = l', fs_xid = xid\<rparr>"])
        (auto simp: free_range_def)
  qed
  have M_cases: "M = [] \<or> M = merge_rows sid xid off (off + ?len) rows" by (simp add: M_def)
  show ?thesis
    using M_cases
  proof
    assume "M = []"
    then show ?thesis using rec ap b len dist
      by (intro merged[of rows "{}" off ?len]) (auto simp: foot_def)
  next
    assume M': "M = merge_rows sid xid off (off + ?len) rows"
    show ?thesis
    proof (rule merge_rows_cases[OF rows M'])
      assume "M = []"
      then show ?thesis using rec ap b len dist
        by (intro merged[of rows "{}" off ?len]) (auto simp: foot_def)
    next
      fix l assume l: "M = [l]" "l \<in> set rows" "fs_xid l = xid" "fs_off l + fs_len l = off"
      have j: "apart (fs_off l, fs_len l + ?len) q" if "apart (free_range l) q" "apart (foot bpp off n) q" "0 < snd q" for q
        using apart_join[of "fs_off l" "fs_len l" q ?len] that l(4) by (simp add: free_range_def foot_def)
      show ?thesis
      proof (rule merged[of "remove1 l rows" "{l}" "fs_off l" "fs_len l + ?len"])
        show "record_free_space bpp coalesce xid sid off n rows =
            insert_free_space_row sid (fs_off l) (fs_len l + ?len) xid (remove1 l rows)"
          using rec l(1,4) row[OF l(2)] by (simp add: min_def add.commute)
        show "\<forall>r \<in> set rows - {l}. apart (fs_off l, fs_len l + ?len) (free_range r)"
          using j away l(2) ap pos by blast
      qed (use l row[OF l(2)] dist len b(4) j in \<open>auto simp: free_range_def\<close>)
    next
      fix r assume r: "M = [r]" "r \<in> set rows" "fs_xid r = xid" "fs_off r = off + ?len"
      have j: "apart (off, ?len + fs_len r) q" if "apart (free_range r) q" "apart (foot bpp off n) q" "0 < snd q" for q
        using apart_join[of off ?len q "fs_len r"] that r(4) by (simp add: free_range_def foot_def)
      show ?thesis
      proof (rule merged[of "remove1 r rows" "{r}" off "?len + fs_len r"])
        show "record_free_space bpp coalesce xid sid off n rows =
            insert_free_space_row sid off (?len + fs_len r) xid (remove1 r rows)"
          using rec r(1,4) by (simp add: min_def)
        show "\<forall>s \<in> set rows - {r}. apart (off, ?len + fs_len r) (free_range s)"
          using j away r(2) ap pos by blast
      qed (use r row[OF r(2)] dist len b j in \<open>auto simp: free_range_def\<close>)
    next
      fix l r assume lr: "M = [l, r] \<or> M = [r, l]" "l \<in> set rows" "r \<in> set rows" "l \<noteq> r" "fs_xid l = xid" "fs_xid r = xid"
        "fs_off l + fs_len l = off" "fs_off r = off + ?len"
      have j: "apart (fs_off l, fs_len l + ?len + fs_len r) q"
        if "apart (free_range l) q" "apart (free_range r) q" "apart (foot bpp off n) q" "0 < snd q" for q
        using apart_join[of "fs_off l" "fs_len l + ?len" q "fs_len r"] apart_join[of "fs_off l" "fs_len l" q ?len] that
        unfolding free_range_def foot_def lr(8) lr(7)[symmetric] add.assoc by blast
      have rm: "fold remove1 (take 2 M) rows = (if M = [l, r] then remove1 r (remove1 l rows) else remove1 l (remove1 r rows))"
        using lr(1,4) by auto
      show ?thesis
      proof (rule merged[of "fold remove1 (take 2 M) rows" "{l, r}" "fs_off l" "fs_len l + ?len + fs_len r"])
        show "record_free_space bpp coalesce xid sid off n rows =
            insert_free_space_row sid (fs_off l) (fs_len l + ?len + fs_len r) xid (fold remove1 (take 2 M) rows)"
        proof -
          have "fs_off l \<le> off" "fs_off l \<le> fs_off r" "off \<le> fs_off r" using lr(7,8) by linarith+
          then have "fold (\<lambda>r m. min m (fs_off r)) M off = fs_off l" using lr(1) by auto
          moreover have "fold (\<lambda>r k. k + fs_len r) M ?len = fs_len l + ?len + fs_len r" using lr(1) by auto
          ultimately show ?thesis using rec by simp
        qed
        show "\<forall>s \<in> set rows - {l, r}. apart (fs_off l, fs_len l + ?len + fs_len r) (free_range s)"
        proof
          fix s assume "s \<in> set rows - {l, r}"
          then have s: "s \<in> set rows" "l \<noteq> s" "r \<noteq> s" by auto
          show "apart (fs_off l, fs_len l + ?len + fs_len r) (free_range s)"
            using away[OF lr(2) s(1,2)] away[OF lr(3) s(1,3)] ap s(1) pos[OF s(1)] by (intro j) blast+
        qed
        show "set (fold remove1 (take 2 M) rows) = set rows - {l, r}" "distinct (fold remove1 (take 2 M) rows)"
          unfolding rm using dist by auto
        show "\<forall>s \<in> {l, r}. fs_xid s = xid \<and> fs_off l \<le> fs_off s \<and> fs_off s + fs_len s \<le> fs_off l + (fs_len l + ?len + fs_len r)"
          using lr(5-8) by auto
        show "apart (fs_off l, fs_len l + ?len + fs_len r) q"
          if "apart (foot bpp off n) q" "0 < snd q" "\<forall>r \<in> set rows. apart (free_range r) q" for q
          using that lr(2,3) by (intro j) blast+
      qed (use lr(2,3,7,8) row[OF lr(2)] row[OF lr(3)] len in simp_all)
    qed
  qed
qed

definition fits :: "(nat \<Rightarrow> nat \<Rightarrow> bool) \<Rightarrow> nat \<Rightarrow> nat \<Rightarrow> nat \<Rightarrow> free_row \<Rightarrow> bool" where
  "fits precedes oldestXmin sid n r \<longleftrightarrow>
     fs_storage r = sid \<and> n \<le> fs_len r \<and> reusable precedes oldestXmin (fs_xid r)"

lemma best_fit_spec:
  "case best_fit precedes oldestXmin sid n rows of
     None \<Rightarrow> \<forall>r \<in> set rows. \<not> fits precedes oldestXmin sid n r
   | Some b \<Rightarrow> b \<in> set rows \<and> fits precedes oldestXmin sid n b \<and>
       (\<forall>r \<in> set rows. fits precedes oldestXmin sid n r \<longrightarrow> fs_len b \<le> fs_len r)"
proof -
  let ?step = "\<lambda>r best. if fs_storage r \<noteq> sid \<or> fs_len r < n \<or> \<not> reusable precedes oldestXmin (fs_xid r) then best
       else case best of None \<Rightarrow> Some r | Some b \<Rightarrow> if fs_len r < fs_len b then Some r else best"
  let ?ok = "\<lambda>rows best. case best of
     None \<Rightarrow> \<forall>r \<in> set rows. \<not> fits precedes oldestXmin sid n r
   | Some b \<Rightarrow> b \<in> set rows \<and> fits precedes oldestXmin sid n b \<and>
       (\<forall>r \<in> set rows. fits precedes oldestXmin sid n r \<longrightarrow> fs_len b \<le> fs_len r)"
  have "?ok rows (fold ?step rows None)"
  proof (induction rows rule: rev_induct)
    case (snoc r rows)
    then show ?case
      by (cases "fold ?step rows None") (auto simp: fits_def not_less)
  qed simp
  then show ?thesis by (simp add: best_fit_def)
qed

lemma allocate_ok:
  assumes bpp: "0 < bpp" and rows: "rows_ok_in bpp limit rows" and n: "0 < n"
    and a: "PgColumnarAllocateFreeSpace bpp coalesce precedes oldestXmin sid n rows = r"
  shows "r = Inr None \<or> (\<exists>b rows'. r = Inr (Some (fs_off b, rows')) \<and> b \<in> set rows \<and>
    reusable precedes oldestXmin (fs_xid b) \<and> COLUMNAR_PAGE_ROUND_UP bpp n \<le> fs_len b \<and>
    rows_ok_in bpp limit rows' \<and> set rows - {b} \<subseteq> set rows' \<and>
    (\<forall>r \<in> set rows'. apart (foot bpp (fs_off b) n) (free_range r)) \<and>
    (\<forall>r \<in> set rows'. r \<in> set rows \<or> fs_off b \<le> fs_off r \<and> fs_off r + fs_len r \<le> fs_off b + fs_len b))"
proof (cases "best_fit precedes oldestXmin sid n rows")
  case None
  then show ?thesis using a by (simp add: PgColumnarAllocateFreeSpace_def)
next
  case (Some b)
  have b: "b \<in> set rows" "n \<le> fs_len b" "reusable precedes oldestXmin (fs_xid b)"
    using best_fit_spec[where precedes = precedes and oldestXmin = oldestXmin and sid = sid and n = n and rows = rows] Some by (auto simp: fits_def)
  have bo: "bpp dvd fs_off b" "bpp dvd fs_len b" "COLUMNAR_FIRST_LOGICAL_OFFSET bpp \<le> fs_off b" "fs_off b + fs_len b \<le> limit"
    using rows b(1) by (auto simp: rows_ok_in_def)
  let ?al = "COLUMNAR_PAGE_ROUND_UP bpp n"
  have al: "?al \<le> fs_len b" "bpp dvd ?al" using round_up_facts[OF bpp] bo(2) b(2) by auto
  have rest: "rows_ok_in bpp limit (remove1 b rows)" "set (remove1 b rows) = set rows - {b}"
    using rows by (auto simp: rows_ok_in_def)
  have clear: "apart (fs_off b, fs_len b) (free_range r)" if "r \<in> set rows - {b}" for r
    using rows_apart[OF rows b(1), of r] that by (simp add: free_range_def[of b]) blast
  have near: "apart (foot bpp (fs_off b) n) (free_range r)" if "r \<in> set rows - {b}" for r
    using apart_sub[OF clear[OF that], of "fs_off b" ?al] al by (simp add: foot_def)
  show ?thesis
  proof (cases "coalesce \<and> fs_len b > ?al")
    case True
    have "\<forall>r \<in> set (remove1 b rows). apart (fs_off b + ?al, fs_len b - ?al) (free_range r)"
      using apart_sub[OF clear, of _ "fs_off b + ?al" "fs_len b - ?al"] al rest(2) by auto
    then obtain rows' where r': "insert_free_space_row sid (fs_off b + ?al) (fs_len b - ?al) (fs_xid b) (remove1 b rows) = Inr rows'"
        "rows_ok_in bpp limit rows'"
        "set rows' = insert \<lparr>fs_storage = sid, fs_off = fs_off b + ?al, fs_len = fs_len b - ?al, fs_xid = fs_xid b\<rparr> (set rows - {b})"
      using insert_row_ok[OF rest(1), of "fs_off b + ?al" "fs_len b - ?al" sid "fs_xid b"] True bo al rest(2) by auto
    have "r = Inr (Some (fs_off b, rows'))"
      using a True r'(1) by (simp add: PgColumnarAllocateFreeSpace_def Some Let_def)
    moreover have "apart (foot bpp (fs_off b) n) (free_range r)" if "r \<in> set rows'" for r
      using that near unfolding r'(3) by (auto simp: apart_def foot_def free_range_def)
    moreover have "r \<in> set rows \<or> fs_off b \<le> fs_off r \<and> fs_off r + fs_len r \<le> fs_off b + fs_len b" if "r \<in> set rows'" for r
      using that al unfolding r'(3) by auto
    ultimately show ?thesis using b r' al by blast
  next
    case False
    then have "r = Inr (Some (fs_off b, remove1 b rows))"
      using a by (auto simp: PgColumnarAllocateFreeSpace_def Some Let_def)
    then show ?thesis using b al rest near by blast
  qed
qed

subsection \<open>Reconciling\<close>

lemma foot_search_spec:
  assumes "sorted (map fst foots)" "hi \<le> length foots" "lo \<le> hi"
    and "\<forall>i < lo. fst (foots ! i) < fin" "\<forall>i < length foots. hi \<le> i \<longrightarrow> fin \<le> fst (foots ! i)"
  shows "let k = foot_search foots fin lo hi in k \<le> length foots \<and> (\<forall>i < k. fst (foots ! i) < fin) \<and>
    (\<forall>i < length foots. k \<le> i \<longrightarrow> fin \<le> fst (foots ! i))"
  using assms
proof (induction foots fin lo hi rule: foot_search.induct)
  case (1 foots fin lo hi)
  have mono: "fst (foots ! i) \<le> fst (foots ! j)" if "i \<le> j" "j < length foots" for i j
    using sorted_nth_mono[OF "1.prems"(1), of i j] that by simp
  show ?case
  proof (cases "lo < hi")
    case True
    let ?m = "(lo + hi) div 2"
    have m: "lo \<le> ?m" "?m < hi" using True by auto
    show ?thesis
    proof (cases "fst (foots ! ?m) < fin")
      case less: True
      have "\<forall>i < ?m + 1. fst (foots ! i) < fin"
      proof (intro allI impI)
        fix i assume "i < ?m + 1"
        then have "fst (foots ! i) \<le> fst (foots ! ?m)" using m "1.prems"(2) by (intro mono) linarith+
        then show "fst (foots ! i) < fin" using less by linarith
      qed
      then have "let k = foot_search foots fin (?m + 1) hi in k \<le> length foots \<and> (\<forall>i < k. fst (foots ! i) < fin) \<and>
          (\<forall>i < length foots. k \<le> i \<longrightarrow> fin \<le> fst (foots ! i))"
        using "1.IH"(1)[OF True refl less] "1.prems" m by simp
      then show ?thesis using True less by (subst foot_search.simps) (simp add: Let_def)
    next
      case ge: False
      have "\<forall>i < length foots. ?m \<le> i \<longrightarrow> fin \<le> fst (foots ! i)"
        using mono[of ?m] ge by (meson le_trans linorder_not_less)
      then have "let k = foot_search foots fin lo ?m in k \<le> length foots \<and> (\<forall>i < k. fst (foots ! i) < fin) \<and>
          (\<forall>i < length foots. k \<le> i \<longrightarrow> fin \<le> fst (foots ! i))"
        using "1.IH"(2)[OF True refl ge] "1.prems" m by simp
      then show ?thesis using True ge by (subst foot_search.simps) (simp add: Let_def)
    qed
  next
    case False
    then show ?thesis using "1.prems" by (subst foot_search.simps) (simp add: Let_def)
  qed
qed

text \<open>A hit of the binary search is a real overlap: rows clear of the footprints are kept.\<close>

lemma overlap_hit:
  assumes "sorted (map fst foots)" and "range_overlaps_footprint start fin foots"
  shows "\<exists>f \<in> set foots. fst f < fin \<and> start < snd f"
proof -
  let ?k = "foot_search foots fin 0 (length foots)"
  have k: "?k \<le> length foots" "\<forall>i < ?k. fst (foots ! i) < fin"
    using foot_search_spec[OF assms(1), of "length foots" 0 fin] by (auto simp: Let_def)
  have "0 < ?k" "snd (foots ! (?k - 1)) > start" using assms(2) by (auto simp: range_overlaps_footprint_def Let_def)
  then show ?thesis using k by (intro bexI[of _ "foots ! (?k - 1)"]) auto
qed

lemma reconcile_keeps:
  assumes "\<forall>g \<in> set groups. \<forall>r \<in> set rows. rg_byteLength g \<noteq> 0 \<longrightarrow>
    apart (foot bpp (rg_fileOffset g) (rg_byteLength g)) (free_range r)"
  shows "PgColumnarReconcileFreeList bpp storages groups rows = rows"
proof -
  let ?foots = "sort_key fst (concat (map (\<lambda>sid. collect_footprints bpp sid groups) storages))"
  have "\<not> range_overlaps_footprint (fs_off r) (fs_off r + fs_len r) ?foots" if r: "r \<in> set rows" for r
  proof
    assume "range_overlaps_footprint (fs_off r) (fs_off r + fs_len r) ?foots"
    then obtain f where "f \<in> set ?foots" "fst f < fs_off r + fs_len r" "fs_off r < snd f"
      using overlap_hit[of ?foots] by (metis sorted_sort_key)
    then obtain g where "g \<in> set groups" "rg_byteLength g \<noteq> 0"
        "rg_fileOffset g < fs_off r + fs_len r" "fs_off r < rg_fileOffset g + COLUMNAR_PAGE_ROUND_UP bpp (rg_byteLength g)"
      by (auto simp: collect_footprints_def)
    then show False using assms r by (force simp: apart_def foot_def free_range_def)
  qed
  then show ?thesis by (auto simp: PgColumnarReconcileFreeList_def Let_def intro: filter_True)
qed

subsection \<open>The invariant\<close>

text \<open>
  \<open>live\<close> pairs each row group of the catalog with the bytes it was flushed with; \<open>old\<close> holds
  the retired groups with the transaction that retired them. While some snapshot may still
  read a retired group its footprint lies inside a free row of that transaction.
\<close>

type_synonym live_groups = "(row_group \<times> byte list) set"
type_synonym old_groups = "(row_group \<times> byte list \<times> nat) set"

definition file_limit :: "nat \<Rightarrow> main_fork \<Rightarrow> nat" where
  "file_limit bpp f = COLUMNAR_PAGE_ROUND_UP bpp (reservedOffset (mf_meta f))"

definition group_at :: "nat \<Rightarrow> main_fork \<Rightarrow> row_group \<Rightarrow> byte list \<Rightarrow> bool" where
  "group_at bpp f g d \<longleftrightarrow> rg_byteLength g = length d \<and> bpp dvd rg_fileOffset g \<and>
     COLUMNAR_FIRST_LOGICAL_OFFSET bpp \<le> rg_fileOffset g \<and> holds_at bpp f (rg_fileOffset g) d"

definition group_foot :: "nat \<Rightarrow> row_group \<Rightarrow> nat \<times> nat" where
  "group_foot bpp g = foot bpp (rg_fileOffset g) (rg_byteLength g)"

definition covered :: "nat \<Rightarrow> free_row list \<Rightarrow> row_group \<Rightarrow> nat \<Rightarrow> bool" where
  "covered bpp rows g x \<longleftrightarrow> (\<exists>r \<in> set rows. fs_xid r = x \<and> fs_off r \<le> rg_fileOffset g \<and>
     rg_fileOffset g + COLUMNAR_PAGE_ROUND_UP bpp (rg_byteLength g) \<le> fs_off r + fs_len r)"

definition reclaim_inv ::
  "nat \<Rightarrow> (nat \<Rightarrow> nat \<Rightarrow> bool) \<Rightarrow> nat \<Rightarrow> reclaim_state \<Rightarrow> live_groups \<Rightarrow> old_groups \<Rightarrow> bool" where
  "reclaim_inv bpp precedes h st live old \<longleftrightarrow>
     blocks_ok bpp (mf_blocks (rs_fork st)) \<and>
     rows_ok_in bpp (file_limit bpp (rs_fork st)) (rs_free st) \<and>
     distinct (rs_groups st) \<and> fst ` live = set (rs_groups st) \<and> inj_on fst live \<and>
     COLUMNAR_FIRST_LOGICAL_OFFSET bpp \<le> file_limit bpp (rs_fork st) \<and>
     (\<forall>g d. (g, d) \<in> live \<longrightarrow> group_at bpp (rs_fork st) g d) \<and>
     (\<forall>g d. (g, d) \<in> live \<longrightarrow> fst (group_foot bpp g) + snd (group_foot bpp g) \<le> file_limit bpp (rs_fork st)) \<and>
     (\<forall>g d g' d'. (g, d) \<in> live \<longrightarrow> (g', d') \<in> live \<longrightarrow> d \<noteq> [] \<longrightarrow> d' \<noteq> [] \<longrightarrow> g \<noteq> g' \<longrightarrow>
        apart (group_foot bpp g) (group_foot bpp g')) \<and>
     (\<forall>g d r. (g, d) \<in> live \<longrightarrow> r \<in> set (rs_free st) \<longrightarrow> d \<noteq> [] \<longrightarrow> apart (group_foot bpp g) (free_range r)) \<and>
     (\<forall>g d x. (g, d, x) \<in> old \<longrightarrow> \<not> reusable precedes h x \<longrightarrow> group_at bpp (rs_fork st) g d) \<and>
     (\<forall>g d x. (g, d, x) \<in> old \<longrightarrow> \<not> reusable precedes h x \<longrightarrow> d \<noteq> [] \<longrightarrow> covered bpp (rs_free st) g x)"

lemma invD:
  assumes "reclaim_inv bpp precedes h st live old"
  shows "0 < bpp" "blocks_ok bpp (mf_blocks (rs_fork st))" "rows_ok_in bpp (file_limit bpp (rs_fork st)) (rs_free st)"
    "distinct (rs_groups st)" "fst ` live = set (rs_groups st)" "inj_on fst live"
    "COLUMNAR_FIRST_LOGICAL_OFFSET bpp \<le> file_limit bpp (rs_fork st)"
    "(g, d) \<in> live \<Longrightarrow> group_at bpp (rs_fork st) g d"
    "(g, d) \<in> live \<Longrightarrow> fst (group_foot bpp g) + snd (group_foot bpp g) \<le> file_limit bpp (rs_fork st)"
    "(g, d) \<in> live \<Longrightarrow> (g', d') \<in> live \<Longrightarrow> d \<noteq> [] \<Longrightarrow> d' \<noteq> [] \<Longrightarrow> g \<noteq> g' \<Longrightarrow> apart (group_foot bpp g) (group_foot bpp g')"
    "(g, d) \<in> live \<Longrightarrow> r \<in> set (rs_free st) \<Longrightarrow> d \<noteq> [] \<Longrightarrow> apart (group_foot bpp g) (free_range r)"
    "(g, d, x) \<in> old \<Longrightarrow> \<not> reusable precedes h x \<Longrightarrow> group_at bpp (rs_fork st) g d"
    "(g, d, x) \<in> old \<Longrightarrow> \<not> reusable precedes h x \<Longrightarrow> d \<noteq> [] \<Longrightarrow> covered bpp (rs_free st) g x"
proof -
  note u = assms[unfolded reclaim_inv_def]
  show "0 < bpp" using u by (simp add: blocks_ok_def)
qed (use assms[unfolded reclaim_inv_def] in blast)+

lemma group_at_write:
  assumes "blocks_ok bpp (mf_blocks f)" "bpp dvd off" "off + length data \<le> (2 ^ 32 - 1) * bpp" "group_at bpp f g d"
    and "d \<noteq> [] \<Longrightarrow> apart (group_foot bpp g) (foot bpp off (length data))"
  shows "group_at bpp (PgColumnarWriteLogicalData bpp off data f) g d"
proof (cases "d = []")
  case True
  then show ?thesis using assms(4) by (simp add: group_at_def holds_at_def)
next
  case False
  then show ?thesis using write_keeps[OF assms(1-3)] assms(4,5) by (simp add: group_at_def group_foot_def)
qed

lemma covered_apart:
  assumes "r \<in> set rows" "fs_off r \<le> rg_fileOffset g"
    "rg_fileOffset g + COLUMNAR_PAGE_ROUND_UP bpp (rg_byteLength g) \<le> fs_off r + fs_len r" "apart q (free_range r)"
  shows "apart (group_foot bpp g) q"
  using assms apart_sub[of "fs_off r" "fs_len r" q "rg_fileOffset g" "COLUMNAR_PAGE_ROUND_UP bpp (rg_byteLength g)"]
    apart_sym[OF assms(4)] by (simp add: group_foot_def foot_def free_range_def)

lemma inv_add:
  assumes inv: "reclaim_inv bpp precedes h st live old"
    and f1: "mf_blocks f1 = mf_blocks (rs_fork st)" "file_limit bpp (rs_fork st) \<le> file_limit bpp f1"
    and off: "bpp dvd off" "COLUMNAR_FIRST_LOGICAL_OFFSET bpp \<le> off" "off + length data \<le> (2 ^ 32 - 1) * bpp"
      "off + COLUMNAR_PAGE_ROUND_UP bpp (length data) \<le> file_limit bpp f1"
    and rows: "rows_ok_in bpp (file_limit bpp f1) rows'" "\<forall>r \<in> set (rs_free st). \<not> reusable precedes h (fs_xid r) \<longrightarrow> r \<in> set rows'"
      "data \<noteq> [] \<Longrightarrow> \<forall>r \<in> set rows'. apart (foot bpp off (length data)) (free_range r)"
      "\<And>g d r. (g, d) \<in> live \<Longrightarrow> d \<noteq> [] \<Longrightarrow> r \<in> set rows' \<Longrightarrow> apart (group_foot bpp g) (free_range r)"
    and clear: "\<And>g d. (g, d) \<in> live \<Longrightarrow> d \<noteq> [] \<Longrightarrow> data \<noteq> [] \<Longrightarrow> apart (group_foot bpp g) (foot bpp off (length data))"
    and g': "rg_fileOffset g' = off" "rg_byteLength g' = length data" "g' \<notin> set (rs_groups st)"
  shows "reclaim_inv bpp precedes h
    (st\<lparr>rs_fork := (if length data > 0 then PgColumnarWriteLogicalData bpp off data f1 else f1),
        rs_groups := rs_groups st @ [g'], rs_free := rows'\<rparr>) (insert (g', data) live) old"
proof -
  let ?f = "if length data > 0 then PgColumnarWriteLogicalData bpp off data f1 else f1"
  note I = invD[OF inv]
  have ok: "blocks_ok bpp (mf_blocks f1)" using I(2) f1 by simp
  obtain k where k: "off = k * bpp" using off(1) by (metis dvdE mult.commute)
  have moved: "group_at bpp f1 g d" if "group_at bpp (rs_fork st) g d" for g d
    using that f1 by (simp add: group_at_def holds_at_def)
  have keeps: "group_at bpp ?f g d" if "group_at bpp (rs_fork st) g d"
      "d \<noteq> [] \<Longrightarrow> data \<noteq> [] \<Longrightarrow> apart (group_foot bpp g) (foot bpp off (length data))" for g d
    using group_at_write[OF ok off(1,3) moved[OF that(1)]] moved[OF that(1)] that(2) by auto
  have blocks: "blocks_ok bpp (mf_blocks ?f)" using write_holds(1)[OF ok k off(3)] ok by simp
  have new: "group_at bpp ?f g' data"
    using write_holds(2)[OF ok k off(3)] off g' by (auto simp: group_at_def holds_at_def)
  have lim: "file_limit bpp ?f = file_limit bpp f1" by (simp add: file_limit_def PgColumnarWriteLogicalData_def)
  have nl: "(g', d) \<notin> live" for d using g'(3) I(5) by force
  have nf: "group_foot bpp g' = foot bpp off (length data)" using g' by (simp add: group_foot_def)
  have old_at: "group_at bpp ?f g d" "d \<noteq> [] \<longrightarrow> covered bpp rows' g x" if x: "(g, d, x) \<in> old" "\<not> reusable precedes h x" for g d x
  proof -
    have cov: "\<exists>r \<in> set rows'. fs_xid r = x \<and> fs_off r \<le> rg_fileOffset g \<and>
        rg_fileOffset g + COLUMNAR_PAGE_ROUND_UP bpp (rg_byteLength g) \<le> fs_off r + fs_len r" if "d \<noteq> []"
      using I(13)[OF x that] rows(2) x(2) unfolding covered_def by blast
    then show "d \<noteq> [] \<longrightarrow> covered bpp rows' g x" by (simp add: covered_def)
    have "apart (group_foot bpp g) (foot bpp off (length data))" if "d \<noteq> []" "data \<noteq> []"
      using cov[OF that(1)] covered_apart rows(3)[OF that(2)] by metis
    then show "group_at bpp ?f g d" using keeps[OF I(12)[OF x]] by blast
  qed
  have live_lim: "fst (group_foot bpp g) + snd (group_foot bpp g) \<le> file_limit bpp f1" if "(g, d) \<in> live" for g d
    using I(9)[OF that] f1(2) by linarith
  have apart_new: "apart (group_foot bpp a) (group_foot bpp b)"
    if "(a, d) \<in> insert (g', data) live" "(b, d') \<in> insert (g', data) live" "d \<noteq> []" "d' \<noteq> []" "a \<noteq> b" for a d b d'
    using that I(10)[of a d b d'] clear[of a d] apart_sym[OF clear[of b d']] nf by auto
  show ?thesis
    unfolding reclaim_inv_def
  proof (intro conjI allI impI)
    show "fst ` insert (g', data) live = set (rs_groups (st\<lparr>rs_fork := ?f, rs_groups := rs_groups st @ [g'], rs_free := rows'\<rparr>))"
      using I(5) by auto
    show "inj_on fst (insert (g', data) live)" using I(6) nl by (auto simp: inj_on_def)
    show "distinct (rs_groups (st\<lparr>rs_fork := ?f, rs_groups := rs_groups st @ [g'], rs_free := rows'\<rparr>))"
      using I(4) g'(3) by simp
  qed (use blocks rows(1) lim f1(2) I(7) new keeps[OF I(8)] clear live_lim nf off(4) apart_new rows(3,4) old_at in
      \<open>auto simp: foot_def\<close>)
qed

subsection \<open>Every step keeps the invariant\<close>

lemma round_up_add: "0 < bpp \<Longrightarrow> bpp dvd a \<Longrightarrow> COLUMNAR_PAGE_ROUND_UP bpp (a + n) = a + COLUMNAR_PAGE_ROUND_UP bpp n"
proof -
  assume bpp: "0 < bpp" and "bpp dvd a"
  then obtain k where k: "a = k * bpp" by (metis dvdE mult.commute)
  have "a + n + bpp - 1 = (n + bpp - 1) + k * bpp" using k bpp by simp
  then have "(a + n + bpp - 1) div bpp = k + (n + bpp - 1) div bpp" using bpp by (simp only: div_mult_self1[OF bpp[THEN less_imp_neq, symmetric]])
  then show ?thesis using k by (simp only: COLUMNAR_PAGE_ROUND_UP_def distrib_right)
qed

lemma inv_append:
  assumes inv: "reclaim_inv bpp precedes h st live old"
    and r: "PgColumnarReserveOffset bpp (length data) (rs_fork st) = (off, f1)"
    and g': "rg_fileOffset g' = off" "rg_byteLength g' = length data" "g' \<notin> set (rs_groups st)"
    and bound: "off + length data \<le> (2 ^ 32 - 1) * bpp"
  shows "reclaim_inv bpp precedes h
    (st\<lparr>rs_fork := (if length data > 0 then PgColumnarWriteLogicalData bpp off data f1 else f1),
        rs_groups := rs_groups st @ [g'], rs_free := rs_free st\<rparr>) (insert (g', data) live) old"
proof -
  note I = invD[OF inv]
  have off: "off = file_limit bpp (rs_fork st)" "mf_blocks f1 = mf_blocks (rs_fork st)" "reservedOffset (mf_meta f1) = off + length data"
    using r by (auto simp: PgColumnarReserveOffset_def Let_def file_limit_def COLUMNAR_PAGE_ROUND_UP_def)
  have al: "bpp dvd off" using off(1) round_up_facts(1)[OF I(1)] by (simp add: file_limit_def)
  have lim: "file_limit bpp f1 = off + COLUMNAR_PAGE_ROUND_UP bpp (length data)"
    using round_up_add[OF I(1) al] off(3) by (simp add: file_limit_def)
  then have le: "file_limit bpp (rs_fork st) \<le> file_limit bpp f1" using off(1) by simp
  have rows: "rows_ok_in bpp (file_limit bpp f1) (rs_free st)" by (rule rows_ok_limit[OF I(3) le])
  have "fs_off r + fs_len r \<le> off" if "r \<in> set (rs_free st)" for r
    using I(3) that off(1) by (simp add: rows_ok_in_def)
  then have newrows: "\<forall>r \<in> set (rs_free st). apart (foot bpp off (length data)) (free_range r)"
    by (simp add: apart_def foot_def free_range_def)
  have clear: "apart (group_foot bpp g) (foot bpp off (length data))" if "(g, d) \<in> live" for g d
    using I(9)[OF that] off(1) by (simp add: apart_def foot_def)
  show ?thesis
    by (rule inv_add[OF inv off(2) le al _ bound _ rows _ newrows _ _ g']) (use off(1) I(7) lim I(11) clear in auto)
qed

lemma inv_place:
  assumes inv: "reclaim_inv bpp precedes h st live old"
    and p: "place_row_group bpp coalesce precedes h mayReuse base g data st = Inr (g', st')"
    and fresh: "g' \<notin> set (rs_groups st)" and bound: "rg_fileOffset g' + length data \<le> (2 ^ 32 - 1) * bpp"
  shows "reclaim_inv bpp precedes h st' (insert (g', data) live) old"
proof -
  note I = invD[OF inv]
  let ?alloc = "if length data > 0 \<and> mayReuse
    then PgColumnarAllocateFreeSpace bpp coalesce precedes h base (length data) (rs_free st) else Inr None"
  have "?alloc = Inr None \<or> length data > 0 \<and> (\<exists>b rows'. ?alloc = Inr (Some (fs_off b, rows')) \<and> b \<in> set (rs_free st) \<and>
    reusable precedes h (fs_xid b) \<and> COLUMNAR_PAGE_ROUND_UP bpp (length data) \<le> fs_len b \<and>
    rows_ok_in bpp (file_limit bpp (rs_fork st)) rows' \<and> set (rs_free st) - {b} \<subseteq> set rows' \<and>
    (\<forall>r \<in> set rows'. apart (foot bpp (fs_off b) (length data)) (free_range r)) \<and>
    (\<forall>r \<in> set rows'. r \<in> set (rs_free st) \<or> fs_off b \<le> fs_off r \<and> fs_off r + fs_len r \<le> fs_off b + fs_len b))"
    using allocate_ok[OF I(1,3), of "length data" coalesce precedes h base] by auto
  then show ?thesis
  proof (elim disjE conjE exE)
    assume none: "?alloc = Inr None"
    obtain off f1 where r: "PgColumnarReserveOffset bpp (length data) (rs_fork st) = (off, f1)" by fastforce
    have "g' = g\<lparr>rg_fileOffset := off, rg_byteLength := length data\<rparr>"
      "st' = st\<lparr>rs_fork := (if length data > 0 then PgColumnarWriteLogicalData bpp off data f1 else f1),
        rs_groups := rs_groups st @ [g'], rs_free := rs_free st\<rparr>"
      using p unfolding place_row_group_def none by (auto simp: r Let_def)
    then show ?thesis using inv_append[OF inv r _ _ fresh] bound by simp
  next
    fix b rows' assume len: "0 < length data" and a: "?alloc = Inr (Some (fs_off b, rows'))" and b: "b \<in> set (rs_free st)"
      "reusable precedes h (fs_xid b)" "COLUMNAR_PAGE_ROUND_UP bpp (length data) \<le> fs_len b"
      and rows: "rows_ok_in bpp (file_limit bpp (rs_fork st)) rows'" "set (rs_free st) - {b} \<subseteq> set rows'"
        "\<forall>r \<in> set rows'. apart (foot bpp (fs_off b) (length data)) (free_range r)"
        "\<forall>r \<in> set rows'. r \<in> set (rs_free st) \<or> fs_off b \<le> fs_off r \<and> fs_off r + fs_len r \<le> fs_off b + fs_len b"
    have g: "g' = g\<lparr>rg_fileOffset := fs_off b, rg_byteLength := length data\<rparr>"
      "st' = st\<lparr>rs_fork := (if length data > 0 then PgColumnarWriteLogicalData bpp (fs_off b) data (rs_fork st) else rs_fork st),
        rs_groups := rs_groups st @ [g'], rs_free := rows'\<rparr>"
      using p unfolding place_row_group_def a by (auto simp: Let_def)
    have bo: "bpp dvd fs_off b" "COLUMNAR_FIRST_LOGICAL_OFFSET bpp \<le> fs_off b" "fs_off b + fs_len b \<le> file_limit bpp (rs_fork st)"
      using I(3) b(1) by (auto simp: rows_ok_in_def)
    have ab: "apart (group_foot bpp g0) (o', l')" if "(g0, d) \<in> live" "d \<noteq> []" "fs_off b \<le> o'" "o' + l' \<le> fs_off b + fs_len b" for g0 d o' l'
      using apart_sub[of "fs_off b" "fs_len b" "group_foot bpp g0" o' l'] I(11)[OF that(1) b(1) that(2)] that(3,4) apart_sym
      by (auto simp: free_range_def)
    have lr: "apart (group_foot bpp g0) (free_range r)" if "(g0, d) \<in> live" "d \<noteq> []" "r \<in> set rows'" for g0 d r
      using rows(4) that ab[OF that(1,2), of "fs_off r" "fs_len r"] I(11)[OF that(1) _ that(2)] by (auto simp: free_range_def)
    have keep: "\<forall>r \<in> set (rs_free st). \<not> reusable precedes h (fs_xid r) \<longrightarrow> r \<in> set rows'" using rows(2) b(2) by blast
    show ?thesis unfolding g(2)
      by (rule inv_add[OF inv HOL.refl order.refl bo(1,2) _ _ rows(1) keep rows(3) lr])
        (use bo(3) b(3) bound fresh g(1) ab[of _ _ "fs_off b" "COLUMNAR_PAGE_ROUND_UP bpp (length data)"] in \<open>auto simp: foot_def\<close>)
  qed
qed

lemma inv_fork:
  assumes inv: "reclaim_inv bpp precedes h st live old" and f': "blocks_ok bpp (mf_blocks f')"
      "file_limit bpp (rs_fork st) \<le> file_limit bpp f'"
    and keep: "\<And>g d. group_at bpp (rs_fork st) g d \<Longrightarrow>
      (d \<noteq> [] \<Longrightarrow> (\<exists>r \<in> set (rs_free st). \<not> reusable precedes h (fs_xid r) \<and> fs_off r \<le> rg_fileOffset g \<and>
          rg_fileOffset g + COLUMNAR_PAGE_ROUND_UP bpp (rg_byteLength g) \<le> fs_off r + fs_len r) \<or>
        (\<forall>r \<in> set (rs_free st). apart (group_foot bpp g) (free_range r))) \<Longrightarrow>
      d \<noteq> [] \<Longrightarrow> fst (group_foot bpp g) + snd (group_foot bpp g) \<le> file_limit bpp (rs_fork st) \<Longrightarrow> group_at bpp f' g d"
  shows "reclaim_inv bpp precedes h (st\<lparr>rs_fork := f'\<rparr>) live old"
proof -
  note I = invD[OF inv]
  have nil: "group_at bpp f' g []" if "group_at bpp (rs_fork st) g []" for g using that by (simp add: group_at_def holds_at_def)
  have live_at: "group_at bpp f' g d" if "(g, d) \<in> live" for g d
    using keep[OF I(8)[OF that]] I(9,11)[OF that] nil[of g] I(8)[OF that] by (cases "d = []") auto
  have old_at: "group_at bpp f' g d" if x: "(g, d, x) \<in> old" "\<not> reusable precedes h x" for g d x
  proof (cases "d = []")
    case False
    obtain r where r: "r \<in> set (rs_free st)" "fs_xid r = x" "fs_off r \<le> rg_fileOffset g"
        "rg_fileOffset g + COLUMNAR_PAGE_ROUND_UP bpp (rg_byteLength g) \<le> fs_off r + fs_len r"
      using I(13)[OF x False] by (auto simp: covered_def)
    have "fs_off r + fs_len r \<le> file_limit bpp (rs_fork st)" using I(3) r(1) by (simp add: rows_ok_in_def)
    then show ?thesis using keep[OF I(12)[OF x]] r x(2) False by (auto simp: group_foot_def foot_def)
  qed (use I(12)[OF x] nil in simp)
  show ?thesis unfolding reclaim_inv_def
    using f' rows_ok_limit[OF I(3) f'(2)] I(4-7) live_at old_at I(10,11,13) le_trans[OF I(9) f'(2)] by auto
qed

lemma inv_retire:
  assumes inv: "reclaim_inv bpp precedes h st live old" and g: "(g, d) \<in> live" and x: "\<not> reusable precedes h x"
  shows "\<exists>st'. PgColumnarRetireGroup bpp coalesce x g st = Inr st' \<and>
    reclaim_inv bpp precedes h st' (live - {(g, d)}) (insert (g, d, x) old)"
proof -
  note I = invD[OF inv]
  have gd: "group_at bpp (rs_fork st) g d" "rg_byteLength g = length d" using I(8)[OF g] by (simp_all add: group_at_def)
  have groups: "distinct (remove1 g (rs_groups st))" "fst ` (live - {(g, d)}) = set (remove1 g (rs_groups st))" "inj_on fst (live - {(g, d)})"
    using I(4) inj_on_image_set_diff[OF I(6), of live "{(g, d)}"] I(5) g inj_on_diff[OF I(6)] by simp_all
  have other: "g0 \<noteq> g" if "(g0, d0) \<in> live - {(g, d)}" for g0 d0 using that inj_onD[OF I(6), of "(g0, d0)" "(g, d)"] g by auto
  show ?thesis
  proof (cases "d = []")
    case True
    let ?st = "st\<lparr>rs_groups := remove1 g (rs_groups st)\<rparr>"
    have "PgColumnarRetireGroup bpp coalesce x g st = Inr ?st" using True gd by (simp add: PgColumnarRetireGroup_def)
    moreover have "reclaim_inv bpp precedes h ?st (live - {(g, d)}) (insert (g, d, x) old)"
      unfolding reclaim_inv_def using I groups gd(1) True by auto
    ultimately show ?thesis by blast
  next
    case False
    have o: "0 < length d" "bpp dvd rg_fileOffset g" "COLUMNAR_FIRST_LOGICAL_OFFSET bpp \<le> rg_fileOffset g"
        "rg_fileOffset g + COLUMNAR_PAGE_ROUND_UP bpp (length d) \<le> file_limit bpp (rs_fork st)"
        "\<forall>r \<in> set (rs_free st). apart (foot bpp (rg_fileOffset g) (length d)) (free_range r)"
      using False gd I(9,11)[OF g] by (auto simp: group_at_def group_foot_def foot_def)
    obtain rows' new where r: "record_free_space bpp coalesce x (rg_storageId g) (rg_fileOffset g) (length d) (rs_free st) = Inr rows'"
        "rows_ok_in bpp (file_limit bpp (rs_fork st)) rows'" "new \<in> set rows'" "fs_xid new = x" "fs_off new \<le> rg_fileOffset g"
        "rg_fileOffset g + COLUMNAR_PAGE_ROUND_UP bpp (length d) \<le> fs_off new + fs_len new" "set rows' \<subseteq> insert new (set (rs_free st))"
      and merged: "\<And>r. r \<in> set (rs_free st) \<Longrightarrow> r \<notin> set rows' \<Longrightarrow>
          fs_xid r = x \<and> fs_off new \<le> fs_off r \<and> fs_off r + fs_len r \<le> fs_off new + fs_len new"
      and clear: "\<And>q. apart (foot bpp (rg_fileOffset g) (length d)) q \<Longrightarrow> 0 < snd q \<Longrightarrow>
          \<forall>r \<in> set (rs_free st). apart (free_range r) q \<Longrightarrow> apart (free_range new) q"
      using record_free_space_ok[OF I(1,3) o, of coalesce x "rg_storageId g"] by blast
    let ?st = "st\<lparr>rs_groups := remove1 g (rs_groups st), rs_free := rows'\<rparr>"
    have st': "PgColumnarRetireGroup bpp coalesce x g st = Inr ?st"
      using r(1) o(1) gd(2) by (simp add: PgColumnarRetireGroup_def)
    have lr: "apart (group_foot bpp g0) (free_range s)" if "(g0, d0) \<in> live - {(g, d)}" "d0 \<noteq> []" "s \<in> set rows'" for g0 d0 s
    proof (cases "s \<in> set (rs_free st)")
      case True
      then show ?thesis using I(11) that(1,2) by blast
    next
      case False
      then have "s = new" using r(7) that(3) by blast
      moreover have "apart (group_foot bpp g) (group_foot bpp g0)" using I(10)[OF g] that(1,2) \<open>d \<noteq> []\<close> other by blast
      moreover have "rg_byteLength g0 = length d0" using I(8)[of g0 d0] that(1) by (simp add: group_at_def)
      moreover have "0 < snd (group_foot bpp g0)" using calculation(3) that(2) round_up_facts(5)[OF I(1)] by (simp add: group_foot_def foot_def)
      moreover have "\<forall>r \<in> set (rs_free st). apart (free_range r) (group_foot bpp g0)" using I(11) that(1,2) apart_sym by blast
      ultimately show ?thesis using clear gd(2) apart_sym by (simp add: group_foot_def)
    qed
    have cov: "covered bpp rows' g0 x0" if c: "covered bpp (rs_free st) g0 x0" for g0 x0
    proof -
      obtain r where r': "r \<in> set (rs_free st)" "fs_xid r = x0" "fs_off r \<le> rg_fileOffset g0"
          "rg_fileOffset g0 + COLUMNAR_PAGE_ROUND_UP bpp (rg_byteLength g0) \<le> fs_off r + fs_len r"
        using c by (auto simp: covered_def)
      show ?thesis
      proof (cases "r \<in> set rows'")
        case False
        then show ?thesis using merged[OF r'(1)] r' r(3,4) unfolding covered_def by (intro bexI[of _ new]) auto
      qed (use r' in \<open>auto simp: covered_def\<close>)
    qed
    have "covered bpp rows' g x" using r(3-6) gd(2) by (auto simp: covered_def)
    then have "reclaim_inv bpp precedes h ?st (live - {(g, d)}) (insert (g, d, x) old)"
      unfolding reclaim_inv_def using I(2,7-10,12,13) r(2) groups lr cov gd(1) by auto
    then show ?thesis using st' by blast
  qed
qed

lemma inv_aborted_write:
  assumes inv: "reclaim_inv bpp precedes h st live old" and r: "r \<in> set (rs_free st)" "reusable precedes h (fs_xid r)"
    and off: "bpp dvd off" "fs_off r \<le> off" "off + COLUMNAR_PAGE_ROUND_UP bpp (length data) \<le> fs_off r + fs_len r"
      "off + length data \<le> (2 ^ 32 - 1) * bpp"
  shows "reclaim_inv bpp precedes h (st\<lparr>rs_fork := PgColumnarWriteLogicalData bpp off data (rs_fork st)\<rparr>) live old"
proof (rule inv_fork[OF inv])
  note I = invD[OF inv]
  obtain k where k: "off = k * bpp" using off(1) by (metis dvdE mult.commute)
  show "blocks_ok bpp (mf_blocks (PgColumnarWriteLogicalData bpp off data (rs_fork st)))" by (rule write_holds(1)[OF I(2) k off(4)])
  show "file_limit bpp (rs_fork st) \<le> file_limit bpp (PgColumnarWriteLogicalData bpp off data (rs_fork st))"
    by (simp add: file_limit_def PgColumnarWriteLogicalData_def)
  fix g d assume g: "group_at bpp (rs_fork st) g d" and d: "d \<noteq> []"
    and w: "d \<noteq> [] \<Longrightarrow> (\<exists>r \<in> set (rs_free st). \<not> reusable precedes h (fs_xid r) \<and> fs_off r \<le> rg_fileOffset g \<and>
          rg_fileOffset g + COLUMNAR_PAGE_ROUND_UP bpp (rg_byteLength g) \<le> fs_off r + fs_len r) \<or>
        (\<forall>r \<in> set (rs_free st). apart (group_foot bpp g) (free_range r))"
  have "apart (group_foot bpp g) (free_range r)"
    using w[OF d]
  proof (elim disjE bexE conjE)
    fix s assume s: "s \<in> set (rs_free st)" "\<not> reusable precedes h (fs_xid s)" "fs_off s \<le> rg_fileOffset g"
      "rg_fileOffset g + COLUMNAR_PAGE_ROUND_UP bpp (rg_byteLength g) \<le> fs_off s + fs_len s"
    then have "r \<noteq> s" using r(2) by auto
    then show ?thesis using covered_apart[OF s(1,3,4)] rows_apart[OF I(3) r(1) s(1)] by blast
  qed (use r(1) in blast)
  then have "apart (free_range r) (group_foot bpp g)" by (rule apart_sym)
  from apart_sub[OF this[unfolded free_range_def] off(2,3)] have "apart (group_foot bpp g) (foot bpp off (length data))"
    unfolding foot_def by (rule apart_sym)
  then show "group_at bpp (PgColumnarWriteLogicalData bpp off data (rs_fork st)) g d"
    by (intro group_at_write[OF I(2) off(1,4) g])
qed

lemma delete_above_fold:
  "fold (\<lambda>sid. PgColumnarDeleteFreeSpaceAtOrAbove sid L) storages rows =
   filter (\<lambda>r. \<not> (fs_storage r \<in> set storages \<and> L \<le> fs_off r)) rows"
  by (induction storages arbitrary: rows) (auto simp: PgColumnarDeleteFreeSpaceAtOrAbove_def intro: filter_cong)

lemma live_end_facts:
  fixes bpp :: nat and groups :: "row_group list"
  assumes "\<forall>g \<in> set groups. rg_storageId g \<in> set storages"
  defines "foot_end \<equiv> \<lambda>g. rg_fileOffset g + COLUMNAR_PAGE_ROUND_UP bpp (rg_byteLength g)"
  shows "COLUMNAR_FIRST_LOGICAL_OFFSET bpp \<le> live_end bpp storages groups"
    "g \<in> set groups \<Longrightarrow> foot_end g \<le> live_end bpp storages groups"
    "live_end bpp storages groups = COLUMNAR_FIRST_LOGICAL_OFFSET bpp \<or> (\<exists>g \<in> set groups. live_end bpp storages groups = foot_end g)"
proof -
  let ?gs = "concat (map (\<lambda>sid. filter (\<lambda>g. rg_storageId g = sid) groups) storages)"
  have "e \<le> fold (\<lambda>g e. max e (foot_end g)) gs e \<and> (\<forall>g \<in> set gs. foot_end g \<le> fold (\<lambda>g e. max e (foot_end g)) gs e) \<and>
      (fold (\<lambda>g e. max e (foot_end g)) gs e = e \<or> (\<exists>g \<in> set gs. fold (\<lambda>g e. max e (foot_end g)) gs e = foot_end g))" for e gs
  proof (induction gs arbitrary: e)
    case (Cons g gs)
    show ?case using Cons.IH[of "max e (foot_end g)"] by (auto simp: max_def split: if_splits)
  qed simp
  note f = this[of "COLUMNAR_FIRST_LOGICAL_OFFSET bpp" ?gs]
  have "(\<lambda>g e. let end = foot_end g in if end > e then end else e) = (\<lambda>g e. max e (foot_end g))"
    by (auto simp: fun_eq_iff max_def Let_def)
  then have le: "live_end bpp storages groups = fold (\<lambda>g e. max e (foot_end g)) ?gs (COLUMNAR_FIRST_LOGICAL_OFFSET bpp)"
    by (simp add: live_end_def foot_end_def)
  have "set ?gs = set groups" using assms(1) by auto
  then show "COLUMNAR_FIRST_LOGICAL_OFFSET bpp \<le> live_end bpp storages groups"
    "g \<in> set groups \<Longrightarrow> foot_end g \<le> live_end bpp storages groups"
    "live_end bpp storages groups = COLUMNAR_FIRST_LOGICAL_OFFSET bpp \<or> (\<exists>g \<in> set groups. live_end bpp storages groups = foot_end g)"
    using f unfolding le by blast+
qed

lemma group_at_truncate:
  assumes "group_at bpp f g d" "rg_fileOffset g + length d \<le> K * bpp" "mf_blocks f' = take K (mf_blocks f)"
  shows "group_at bpp f' g d"
proof -
  have "(rg_fileOffset g + i) div bpp < K" if "i < length d" for i
    using that assms(2) by (intro less_mult_imp_div_less) simp
  then show ?thesis using assms(1,3) by (auto simp: group_at_def holds_at_def byte_at_def)
qed

lemma inv_truncate:
  assumes inv: "reclaim_inv bpp precedes h st live old"
    and cover: "\<forall>g \<in> set (rs_groups st). rg_storageId g \<in> set storages" "\<forall>r \<in> set (rs_free st). fs_storage r \<in> set storages"
    and stored: "\<forall>g \<in> set (rs_groups st). rg_byteLength g \<noteq> 0"
  shows "reclaim_inv bpp precedes h (fst (pgcolumnar_do_end_truncation bpp precedes h storages st)) live old"
proof -
  note I = invD[OF inv]
  let ?hw = "reservedOffset (mf_meta (rs_fork st))" and ?E = "live_end bpp storages (rs_groups st)"
  have live: "\<exists>d. (g, d) \<in> live \<and> d \<noteq> [] \<and> group_at bpp (rs_fork st) g d" if g: "g \<in> set (rs_groups st)" for g
  proof -
    have "g \<in> fst ` live" using I(5) g by simp
    then obtain d where d: "(g, d) \<in> live" by auto
    moreover have "d \<noteq> []" using I(8)[OF d] stored g by (auto simp: group_at_def)
    ultimately show ?thesis using I(8) by blast
  qed
  have row: "bpp dvd fs_off r" "bpp dvd fs_len r" "0 < fs_len r" "COLUMNAR_FIRST_LOGICAL_OFFSET bpp \<le> fs_off r"
      "fs_off r + fs_len r \<le> COLUMNAR_PAGE_ROUND_UP bpp ?hw" if "r \<in> set (rs_free st)" for r
    using I(3) that by (auto simp: rows_ok_in_def file_limit_def)
  have "fs_off r < ?hw" if "r \<in> set (rs_free st)" for r
    using row[OF that] round_up_facts(3)[OF I(1), of ?hw] dvd_imp_le[of bpp "fs_len r"] by linarith
  then have rows1: "fold (\<lambda>sid. PgColumnarDeleteFreeSpaceAtOrAbove sid ?hw) storages (rs_free st) = rs_free st"
    unfolding delete_above_fold by (intro filter_True) (simp add: not_le)
  have rows2: "PgColumnarReconcileFreeList bpp storages (rs_groups st) (rs_free st) = rs_free st"
  proof (rule reconcile_keeps, intro ballI impI)
    fix g r assume "g \<in> set (rs_groups st)" "r \<in> set (rs_free st)"
    then show "apart (foot bpp (rg_fileOffset g) (rg_byteLength g)) (free_range r)"
      using live[of g] I(11) by (auto simp: group_foot_def)
  qed
  note E = live_end_facts[OF cover(1), where bpp = bpp]
  have first: "bpp dvd COLUMNAR_FIRST_LOGICAL_OFFSET bpp" "COLUMNAR_FIRST_LOGICAL_OFFSET bpp \<le> (2 ^ 32 - 1) * bpp"
    by (simp_all add: COLUMNAR_FIRST_LOGICAL_OFFSET_def)
  have end_g: "bpp dvd rg_fileOffset g + COLUMNAR_PAGE_ROUND_UP bpp (rg_byteLength g)"
      "rg_fileOffset g + COLUMNAR_PAGE_ROUND_UP bpp (rg_byteLength g) \<le> (2 ^ 32 - 1) * bpp" if g: "g \<in> set (rs_groups st)" for g
  proof -
    obtain d where d: "group_at bpp (rs_fork st) g d" using live[OF g] by blast
    then have o: "bpp dvd rg_fileOffset g" "rg_fileOffset g + rg_byteLength g \<le> (2 ^ 32 - 1) * bpp"
      by (simp_all add: group_at_def holds_at_def)
    show "bpp dvd rg_fileOffset g + COLUMNAR_PAGE_ROUND_UP bpp (rg_byteLength g)" using o(1) round_up_facts(1)[OF I(1)] by simp
    show "rg_fileOffset g + COLUMNAR_PAGE_ROUND_UP bpp (rg_byteLength g) \<le> (2 ^ 32 - 1) * bpp"
      using round_up_facts(4)[OF I(1) dvd_triv_right o(2)] round_up_add[OF I(1) o(1)] by simp
  qed
  have Ed: "bpp dvd ?E" "?E \<le> (2 ^ 32 - 1) * bpp" using E(3) first end_g by auto
  then obtain K where K: "?E = K * bpp" by (metis dvdE mult.commute)
  have Kb: "?E div bpp mod 2 ^ 32 = K"
  proof -
    have "K * bpp < 2 ^ 32 * bpp" using Ed(2) K I(1) by (simp add: algebra_simps)
    then show ?thesis using K I(1) by simp
  qed
  have below: "fs_off r + fs_len r \<le> ?E" if r: "r \<in> set (rs_free st)" "fs_off r < ?E" for r
    using E(3)
  proof
    assume "?E = COLUMNAR_FIRST_LOGICAL_OFFSET bpp"
    then show ?thesis using row(4)[OF r(1)] r(2) by simp
  next
    assume "\<exists>g \<in> set (rs_groups st). ?E = rg_fileOffset g + COLUMNAR_PAGE_ROUND_UP bpp (rg_byteLength g)"
    then obtain g where g: "g \<in> set (rs_groups st)" "?E = rg_fileOffset g + COLUMNAR_PAGE_ROUND_UP bpp (rg_byteLength g)" by blast
    then have "apart (group_foot bpp g) (free_range r)" using live I(11) r(1) by blast
    then show ?thesis using g(2) r(2) by (auto simp: apart_def group_foot_def foot_def free_range_def)
  qed
  let ?f = "PgColumnarSetReservedOffset ?E (PgColumnarTruncateMainFork K (rs_fork st))"
  let ?rows = "filter (\<lambda>r. \<not> (fs_storage r \<in> set storages \<and> ?E \<le> fs_off r)) (rs_free st)"
  have set_rows: "set ?rows = {r \<in> set (rs_free st). fs_off r < ?E}" using cover(2) by auto
  have trunc: "reclaim_inv bpp precedes h (st\<lparr>rs_free := ?rows, rs_fork := ?f\<rparr>) live old"
    if K': "K < length (mf_blocks (rs_fork st))" and safe: "\<forall>sid \<in> set storages. PgColumnarTrailingFreeSpaceSafe precedes h sid ?E (rs_free st)"
  proof -
    have blocks: "mf_blocks ?f = take K (mf_blocks (rs_fork st))" using K' by (simp add: PgColumnarSetReservedOffset_def PgColumnarTruncateMainFork_def)
    have lim: "file_limit bpp ?f = ?E" using round_up_multiple[OF I(1) Ed(1)] by (simp add: file_limit_def PgColumnarSetReservedOffset_def)
    have rows: "rows_ok_in bpp ?E ?rows" using I(3) below unfolding rows_ok_in_def set_rows by auto
    have live_end: "fst (group_foot bpp g) + snd (group_foot bpp g) \<le> ?E" if "(g, d) \<in> live" for g d
      using E(2)[of g] I(5) that by (force simp: group_foot_def foot_def)
    have live_at: "group_at bpp ?f g d" if g: "(g, d) \<in> live" for g d
    proof (rule group_at_truncate[OF I(8)[OF g] _ blocks])
      show "rg_fileOffset g + length d \<le> K * bpp"
        using live_end[OF g] I(8)[OF g] K round_up_facts(2)[OF I(1), of "length d"] by (simp add: group_foot_def foot_def group_at_def)
    qed
    have old_at: "group_at bpp ?f g d \<and> (d \<noteq> [] \<longrightarrow> covered bpp ?rows g x)" if x: "(g, d, x) \<in> old" "\<not> reusable precedes h x" for g d x
    proof (cases "d = []")
      case True
      then show ?thesis using I(12)[OF x] by (simp add: group_at_def holds_at_def)
    next
      case False
      obtain r where r: "r \<in> set (rs_free st)" "fs_xid r = x" "fs_off r \<le> rg_fileOffset g"
          "rg_fileOffset g + COLUMNAR_PAGE_ROUND_UP bpp (rg_byteLength g) \<le> fs_off r + fs_len r"
        using I(13)[OF x False] by (auto simp: covered_def)
      have lt: "fs_off r < ?E"
        using safe cover(2) r(1,2) x(2) unfolding PgColumnarTrailingFreeSpaceSafe_def by blast
      have len: "rg_byteLength g = length d" using I(12)[OF x] by (simp add: group_at_def)
      have "rg_fileOffset g + length d \<le> K * bpp"
        using below[OF r(1) lt] r(4) K len round_up_facts(2)[OF I(1), of "length d"] by simp
      then have "group_at bpp ?f g d" by (rule group_at_truncate[OF I(12)[OF x] _ blocks])
      then show ?thesis using r lt set_rows unfolding covered_def by blast
    qed
    have "blocks_ok bpp (mf_blocks ?f)" using I(2) by (auto simp: blocks blocks_ok_def dest: in_set_takeD)
    then show ?thesis unfolding reclaim_inv_def
      using I(4-6) rows lim E(1) live_at live_end I(10,11) old_at set_rows by simp
  qed
  show ?thesis
    using inv trunc unfolding pgcolumnar_do_end_truncation_def Let_def rows1 rows2 Kb unfolding delete_above_fold
    by (cases "K \<ge> length (mf_blocks (rs_fork st))") auto
qed

subsection \<open>Runs\<close>

text \<open>
  The steps a relation file goes through: row numbers reserved; a row group placed by an
  insert or a compaction that commits, or its bytes written by one that aborts (an aborted
  compaction may have written anywhere inside a range it could reuse); a group retired; the
  horizon advancing; the file truncated at its end. The setting \<open>reclaim_coalesce\<close> may change
  from step to step. Truncation is the one step with a condition on the catalog: it
  considers every storage of the file, and every group stores some bytes, which is so once
  a table has a stored column.
\<close>

inductive reclaim_run ::
  "nat \<Rightarrow> (nat \<Rightarrow> nat \<Rightarrow> bool) \<Rightarrow> nat \<Rightarrow> reclaim_state \<Rightarrow> live_groups \<Rightarrow> old_groups \<Rightarrow> bool"
  for bpp precedes where
  start: "0 < bpp \<Longrightarrow>
    reclaim_run bpp precedes h \<lparr>rs_fork = PgColumnarWriteNewMetapage bpp sid, rs_groups = [], rs_free = []\<rparr> {} {}"
| row_numbers: "reclaim_run bpp precedes h st live old \<Longrightarrow>
    PgColumnarReserveRowNumbers n (rs_fork st) = (stripe, first, f') \<Longrightarrow>
    reclaim_run bpp precedes h (st\<lparr>rs_fork := f'\<rparr>) live old"
| place: "reclaim_run bpp precedes h st live old \<Longrightarrow>
    place_row_group bpp coalesce precedes h mayReuse base g data st = Inr (g', st') \<Longrightarrow>
    g' \<notin> set (rs_groups st) \<Longrightarrow> rg_fileOffset g' + length data \<le> (2 ^ 32 - 1) * bpp \<Longrightarrow>
    reclaim_run bpp precedes h st' (insert (g', data) live) old"
| aborted_append: "reclaim_run bpp precedes h st live old \<Longrightarrow>
    PgColumnarReserveOffset bpp (length data) (rs_fork st) = (off, f1) \<Longrightarrow> off + length data \<le> (2 ^ 32 - 1) * bpp \<Longrightarrow>
    reclaim_run bpp precedes h (st\<lparr>rs_fork := PgColumnarWriteLogicalData bpp off data f1\<rparr>) live old"
| aborted_reuse: "reclaim_run bpp precedes h st live old \<Longrightarrow> r \<in> set (rs_free st) \<Longrightarrow> reusable precedes h (fs_xid r) \<Longrightarrow>
    bpp dvd off \<Longrightarrow> fs_off r \<le> off \<Longrightarrow> off + COLUMNAR_PAGE_ROUND_UP bpp (length data) \<le> fs_off r + fs_len r \<Longrightarrow>
    off + length data \<le> (2 ^ 32 - 1) * bpp \<Longrightarrow>
    reclaim_run bpp precedes h (st\<lparr>rs_fork := PgColumnarWriteLogicalData bpp off data (rs_fork st)\<rparr>) live old"
| retire: "reclaim_run bpp precedes h st live old \<Longrightarrow> (g, d) \<in> live \<Longrightarrow> \<not> reusable precedes h x \<Longrightarrow>
    PgColumnarRetireGroup bpp coalesce x g st = Inr st' \<Longrightarrow>
    reclaim_run bpp precedes h st' (live - {(g, d)}) (insert (g, d, x) old)"
| horizon: "reclaim_run bpp precedes h st live old \<Longrightarrow> \<forall>x. reusable precedes h x \<longrightarrow> reusable precedes h' x \<Longrightarrow>
    reclaim_run bpp precedes h' st live old"
| truncate: "reclaim_run bpp precedes h st live old \<Longrightarrow>
    \<forall>g \<in> set (rs_groups st). rg_storageId g \<in> set storages \<and> rg_byteLength g \<noteq> 0 \<Longrightarrow>
    \<forall>r \<in> set (rs_free st). fs_storage r \<in> set storages \<Longrightarrow>
    reclaim_run bpp precedes h (fst (pgcolumnar_do_end_truncation bpp precedes h storages st)) live old"

inductive_cases reclaim_runE: "reclaim_run bpp precedes h st live old"

lemma inv_start: "0 < bpp \<Longrightarrow> reclaim_inv bpp precedes h
    \<lparr>rs_fork = PgColumnarWriteNewMetapage bpp sid, rs_groups = [], rs_free = []\<rparr> {} {}"
  using round_up_facts(2)[of bpp "COLUMNAR_FIRST_LOGICAL_OFFSET bpp"]
  by (simp add: reclaim_inv_def PgColumnarWriteNewMetapage_def blocks_ok_def empty_page_def rows_ok_in_def file_limit_def)

lemma inv_aborted_append:
  assumes inv: "reclaim_inv bpp precedes h st live old"
    and r: "PgColumnarReserveOffset bpp (length data) (rs_fork st) = (off, f1)"
    and bound: "off + length data \<le> (2 ^ 32 - 1) * bpp"
  shows "reclaim_inv bpp precedes h (st\<lparr>rs_fork := PgColumnarWriteLogicalData bpp off data f1\<rparr>) live old"
proof (rule inv_fork[OF inv])
  note I = invD[OF inv]
  have off: "off = file_limit bpp (rs_fork st)" "mf_blocks f1 = mf_blocks (rs_fork st)" "reservedOffset (mf_meta f1) = off + length data"
    using r by (auto simp: PgColumnarReserveOffset_def Let_def file_limit_def COLUMNAR_PAGE_ROUND_UP_def)
  have al: "bpp dvd off" using off(1) round_up_facts(1)[OF I(1)] by (simp add: file_limit_def)
  have ok: "blocks_ok bpp (mf_blocks f1)" using I(2) off(2) by simp
  obtain k where k: "off = k * bpp" using al by (metis dvdE mult.commute)
  show "blocks_ok bpp (mf_blocks (PgColumnarWriteLogicalData bpp off data f1))" by (rule write_holds(1)[OF ok k bound])
  show "file_limit bpp (rs_fork st) \<le> file_limit bpp (PgColumnarWriteLogicalData bpp off data f1)"
    using off(1,3) round_up_facts(2)[OF I(1), of "off + length data"] by (simp add: file_limit_def PgColumnarWriteLogicalData_def)
  fix g d assume g: "group_at bpp (rs_fork st) g d" "fst (group_foot bpp g) + snd (group_foot bpp g) \<le> file_limit bpp (rs_fork st)"
  have "group_at bpp f1 g d" using g(1) off(2) by (simp add: group_at_def holds_at_def)
  then show "group_at bpp (PgColumnarWriteLogicalData bpp off data f1) g d"
    using g(2) off(1) by (intro group_at_write[OF ok al bound]) (simp_all add: apart_def foot_def)
qed

lemma inv_meta:
  assumes "reclaim_inv bpp precedes h st live old" "mf_blocks f' = mf_blocks (rs_fork st)"
    "reservedOffset (mf_meta f') = reservedOffset (mf_meta (rs_fork st))"
  shows "reclaim_inv bpp precedes h (st\<lparr>rs_fork := f'\<rparr>) live old"
  using assms by (intro inv_fork) (auto simp: file_limit_def group_at_def holds_at_def dest: invD(2))

lemma run_inv: "reclaim_run bpp precedes h st live old \<Longrightarrow> reclaim_inv bpp precedes h st live old"
proof (induction rule: reclaim_run.induct)
  case (row_numbers h st live old n stripe first f')
  then show ?case by (intro inv_meta) (auto simp: PgColumnarReserveRowNumbers_def Let_def)
next
  case (retire h st live old g d x coalesce st')
  then show ?case using inv_retire[of bpp precedes h st live old g d x coalesce] by auto
next
  case (horizon h st live old h')
  then show ?case unfolding reclaim_inv_def by blast
qed (auto intro: inv_start inv_place inv_aborted_append inv_aborted_write inv_truncate)

lemma apart_inj:
  assumes "\<And>a b. a \<in> A \<Longrightarrow> b \<in> A \<Longrightarrow> a \<noteq> b \<Longrightarrow> apart (f a) (f b)" "\<And>a. a \<in> A \<Longrightarrow> 0 < snd (f a)"
  shows "inj_on f A"
proof (rule inj_onI)
  fix a b assume "a \<in> A" "b \<in> A" "f a = f b"
  then show "a = b" using assms(1)[of a b] assms(2)[of a] by (auto simp: apart_def)
qed

lemma no_overlap_check:
  assumes inv: "reclaim_inv bpp precedes h st live old"
  shows "PgColumnarCheckFreeSpaceNoOverlap bpp sid (rs_groups st) (rs_free st)"
proof -
  note I = invD[OF inv]
  let ?gs = "filter (\<lambda>g. rg_storageId g = sid \<and> rg_byteLength g \<noteq> 0) (rs_groups st)"
  let ?rs = "filter (\<lambda>r. fs_storage r = sid \<and> fs_len r \<noteq> 0) (rs_free st)"
  let ?xs = "map (group_foot bpp) ?gs @ map free_range ?rs"
  have live: "\<exists>d. (g, d) \<in> live \<and> d \<noteq> []" if g: "g \<in> set ?gs" for g
  proof -
    have "g \<in> fst ` live" using I(5) g by simp
    then obtain d where d: "(g, d) \<in> live" by auto
    then show ?thesis using I(8)[OF d] g by (auto simp: group_at_def)
  qed
  have gg: "apart (group_foot bpp a) (group_foot bpp b)" if "a \<in> set ?gs" "b \<in> set ?gs" "a \<noteq> b" for a b
    using live[OF that(1)] live[OF that(2)] I(10) that(3) by blast
  have gr: "apart (group_foot bpp a) (free_range r)" if "a \<in> set ?gs" "r \<in> set ?rs" for a r
    using live[OF that(1)] I(11) that(2) by auto
  have rr: "apart (free_range r) (free_range r')" if "r \<in> set ?rs" "r' \<in> set ?rs" "r \<noteq> r'" for r r'
    using rows_apart[OF I(3)] that by simp
  have pos: "0 < snd x" if "x \<in> set ?xs" for x
    using that round_up_facts(5)[OF I(1)] by (auto simp: free_range_def group_foot_def foot_def)
  have self: "\<not> apart x x" if "0 < snd x" for x using that by (simp add: apart_def)
  have inj: "inj_on (group_foot bpp) (set ?gs)" "inj_on free_range (set ?rs)" "set (map (group_foot bpp) ?gs) \<inter> set (map free_range ?rs) = {}"
  proof -
    show "inj_on (group_foot bpp) (set ?gs)" by (rule apart_inj[OF gg]) (use pos in auto)
    show "inj_on free_range (set ?rs)" by (rule apart_inj[OF rr]) (use pos in auto)
    show "set (map (group_foot bpp) ?gs) \<inter> set (map free_range ?rs) = {}"
    proof (rule equals0I, elim IntE)
      fix y assume y: "y \<in> set (map (group_foot bpp) ?gs)" "y \<in> set (map free_range ?rs)"
      then have "apart y y" using gr by (metis (no_types, lifting) imageE list.set_map)
      then show False using self[OF pos[of y]] y by simp
    qed
  qed
  have dist: "distinct ?xs" using inj I(3,4) by (simp add: distinct_map rows_ok_in_def)
  have all: "apart x y" if xy: "x \<in> set ?xs" "y \<in> set ?xs" "x \<noteq> y" for x y
  proof -
    have "x \<in> group_foot bpp ` set ?gs \<union> free_range ` set ?rs" "y \<in> group_foot bpp ` set ?gs \<union> free_range ` set ?rs"
      using xy(1,2) by (simp_all only: set_append set_map)
    then show ?thesis
    proof (elim UnE imageE)
      fix a b assume "x = group_foot bpp a" "a \<in> set ?gs" "y = group_foot bpp b" "b \<in> set ?gs"
      then show ?thesis using gg[of a b] xy(3) by blast
    next
      fix a b assume "x = group_foot bpp a" "a \<in> set ?gs" "y = free_range b" "b \<in> set ?rs"
      then show ?thesis using gr[of a b] by blast
    next
      fix a b assume "x = free_range a" "a \<in> set ?rs" "y = group_foot bpp b" "b \<in> set ?gs"
      then show ?thesis using apart_sym[OF gr[of b a]] by blast
    next
      fix a b assume "x = free_range a" "a \<in> set ?rs" "y = free_range b" "b \<in> set ?rs"
      then show ?thesis using rr[of a b] xy(3) by blast
    qed
  qed
  let ?ys = "sort_key fst ?xs"
  have "\<not> fst (?ys ! Suc i) < fst (?ys ! i) + snd (?ys ! i)" if i: "i < length ?ys - 1" for i
  proof -
    have m: "?ys ! i \<in> set ?xs" "?ys ! Suc i \<in> set ?xs" using i nth_mem[of i ?ys] nth_mem[of "Suc i" ?ys] by simp_all
    have "distinct ?ys" using dist by (simp add: distinct_sort)
    then have "?ys ! i \<noteq> ?ys ! Suc i" using i nth_eq_iff_index_eq[of ?ys i "Suc i"] by auto
    then have "apart (?ys ! i) (?ys ! Suc i)" using all m by blast
    moreover have "fst (?ys ! i) \<le> fst (?ys ! Suc i)" using i sorted_nth_mono[OF sorted_sort_key, of i "Suc i" fst ?xs] by simp
    ultimately show ?thesis using pos[OF m(2)] by (auto simp: apart_def)
  qed
  then show ?thesis by (simp add: PgColumnarCheckFreeSpaceNoOverlap_def Let_def free_range_def[abs_def] group_foot_def[abs_def] foot_def)
qed

subsection \<open>Properties\<close>

text \<open>
  C3: Physical reclaim never touches data a snapshot can reach. After any sequence of inserts,
  compactions that reuse freed ranges (split and coalesced under either setting), aborted
  writes, retirements, advances of the horizon and end truncations, every live row group,
  and every retired group whose retiring transaction has not passed the horizon, reads back
  exactly the bytes it was flushed with; and the catalog lists exactly the live groups.
\<close>

theorem reclaim_keeps_reachable_data:
  assumes "reclaim_run bpp precedes h st live old"
    and "(g, d) \<in> live \<or> (\<exists>x. (g, d, x) \<in> old \<and> \<not> reusable precedes h x)" and "i + n \<le> length d"
  shows "PgColumnarReadLogicalData bpp stream (rg_fileOffset g + i) n (rs_fork st) = Inr (take n (drop i d)) \<and>
    set (rs_groups st) = fst ` live"
proof -
  note I = invD[OF run_inv[OF assms(1)]]
  have "group_at bpp (rs_fork st) g d" using assms(2) I(8,12) by blast
  then show ?thesis using read_held[OF I(2) _ assms(3)] I(5) by (simp add: group_at_def)
qed

definition group_of :: "nat \<Rightarrow> nat \<Rightarrow> nat \<Rightarrow> nat \<Rightarrow> row_group" where
  "group_of sid num off len = \<lparr>rg_storageId = sid, rg_groupNumber = num, rg_fileOffset = off, rg_rowCount = 1,
     rg_byteLength = len, rg_firstRowNumber = num\<rparr>"

text \<open>Two groups of one page each; the second is retired by transaction 5, and the horizon moves to 10.\<close>

lemma two_groups_run:
  "\<exists>st. reclaim_run 4 (<) 5 st {(group_of 7 1 8 4, [1, 1, 1, 1]), (group_of 7 2 12 4, [2, 2, 2, 2])} {} \<and>
     rs_groups st = [group_of 7 1 8 4, group_of 7 2 12 4] \<and> rs_free st = [] \<and>
     reservedOffset (mf_meta (rs_fork st)) = 16 \<and> length (mf_blocks (rs_fork st)) = 4"
proof -
  let ?st = "\<lparr>rs_fork = PgColumnarWriteNewMetapage 4 7, rs_groups = [], rs_free = []\<rparr>"
  let ?f1 = "PgColumnarWriteLogicalData 4 8 [1, 1, 1, 1] (PgColumnarAdvanceReservedOffset 4 (PgColumnarWriteNewMetapage 4 7))"
  let ?st1 = "?st\<lparr>rs_fork := ?f1, rs_groups := [group_of 7 1 8 4]\<rparr>"
  let ?st2 = "?st1\<lparr>rs_fork := PgColumnarWriteLogicalData 4 12 [2, 2, 2, 2] (PgColumnarAdvanceReservedOffset 4 ?f1),
     rs_groups := [group_of 7 1 8 4, group_of 7 2 12 4]\<rparr>"
  have p1: "place_row_group 4 True (<) 5 False 7 (group_of 7 1 0 0) [1, 1, 1, 1] ?st = Inr (group_of 7 1 8 4, ?st1)"
    by (simp add: place_row_group_def PgColumnarReserveOffset_def PgColumnarWriteNewMetapage_def group_of_def
        COLUMNAR_FIRST_LOGICAL_OFFSET_def PgColumnarAdvanceReservedOffset_def Let_def)
  have p2: "place_row_group 4 True (<) 5 False 7 (group_of 7 2 0 0) [2, 2, 2, 2] ?st1 = Inr (group_of 7 2 12 4, ?st2)"
    by (simp add: place_row_group_def PgColumnarReserveOffset_def PgColumnarWriteNewMetapage_def group_of_def
        COLUMNAR_FIRST_LOGICAL_OFFSET_def PgColumnarAdvanceReservedOffset_def PgColumnarWriteLogicalData_def Let_def)
  have "reclaim_run 4 (<) 5 ?st {} {}" by (rule reclaim_run.start) simp
  from reclaim_run.place[OF this p1] have "reclaim_run 4 (<) 5 ?st1 {(group_of 7 1 8 4, [1, 1, 1, 1])} {}" by (simp add: group_of_def)
  from reclaim_run.place[OF this p2]
  have r: "reclaim_run 4 (<) 5 ?st2 {(group_of 7 2 12 4, [2, 2, 2, 2]), (group_of 7 1 8 4, [1, 1, 1, 1])} {}" by (simp add: group_of_def)
  have "length (mf_blocks (rs_fork ?st2)) = 4"
    by (simp add: PgColumnarWriteLogicalData_def PgColumnarAdvanceReservedOffset_def PgColumnarWriteNewMetapage_def
        write_pages.simps extend_to_def Let_def)
  moreover have "reservedOffset (mf_meta (rs_fork ?st2)) = 16"
    by (simp add: PgColumnarWriteLogicalData_def PgColumnarAdvanceReservedOffset_def PgColumnarWriteNewMetapage_def COLUMNAR_FIRST_LOGICAL_OFFSET_def)
  ultimately show ?thesis using r by (intro exI[of _ ?st2]) (simp add: insert_commute)
qed

lemma retired_run:
  "\<exists>st. reclaim_run 4 (<) 5 st {(group_of 7 1 8 4, [1, 1, 1, 1])} {(group_of 7 2 12 4, [2, 2, 2, 2], 5)} \<and>
     rs_groups st = [group_of 7 1 8 4] \<and> rs_free st = [\<lparr>fs_storage = 7, fs_off = 12, fs_len = 4, fs_xid = 5\<rparr>] \<and>
     reservedOffset (mf_meta (rs_fork st)) = 16 \<and> length (mf_blocks (rs_fork st)) = 4"
proof -
  obtain st where st: "reclaim_run 4 (<) 5 st {(group_of 7 1 8 4, [1, 1, 1, 1]), (group_of 7 2 12 4, [2, 2, 2, 2])} {}"
     "rs_groups st = [group_of 7 1 8 4, group_of 7 2 12 4]" "rs_free st = []"
     "reservedOffset (mf_meta (rs_fork st)) = 16" "length (mf_blocks (rs_fork st)) = 4"
    using two_groups_run by blast
  let ?st = "st\<lparr>rs_groups := [group_of 7 1 8 4], rs_free := [\<lparr>fs_storage = 7, fs_off = 12, fs_len = 4, fs_xid = 5\<rparr>]\<rparr>"
  have "PgColumnarRetireGroup 4 True 5 (group_of 7 2 12 4) st = Inr ?st"
    using st(2,3) by (simp add: PgColumnarRetireGroup_def record_free_space_def merge_rows_def insert_free_space_row_def
        COLUMNAR_PAGE_ROUND_UP_def group_of_def Let_def)
  from reclaim_run.retire[OF st(1) _ _ this, of "[2, 2, 2, 2]"]
  have "reclaim_run 4 (<) 5 ?st {(group_of 7 1 8 4, [1, 1, 1, 1])} {(group_of 7 2 12 4, [2, 2, 2, 2], 5)}"
    by (simp add: reusable_def TransactionIdIsNormal_def group_of_def insert_Diff_if)
  then show ?thesis using st(4,5) by (intro exI[of _ ?st]) simp
qed

theorem reclaim_keeps_reachable_data_witness:
  "\<exists>st. reclaim_run 4 (<) 5 st {(group_of 7 1 8 4, [1, 1, 1, 1])} {(group_of 7 2 12 4, [2, 2, 2, 2], 5)} \<and>
     PgColumnarReadLogicalData 4 True 13 2 (rs_fork st) = Inr [2, 2]"
proof -
  obtain st where st: "reclaim_run 4 (<) 5 st {(group_of 7 1 8 4, [1, 1, 1, 1])} {(group_of 7 2 12 4, [2, 2, 2, 2], 5)}"
    using retired_run by blast
  from reclaim_keeps_reachable_data[OF st, of "group_of 7 2 12 4" "[2, 2, 2, 2]" 1 2 True] st
  show ?thesis by (auto simp: group_of_def reusable_def TransactionIdIsNormal_def numeral_2_eq_2)
qed

text \<open>
  C22: The free list is never inconsistent. In every state such a sequence reaches, the check
  that debug builds run after maintenance finds no overlap among the live footprints and
  the free ranges of any storage; retiring any live group succeeds, without a duplicate
  key, whatever neighbours it coalesces with; and a reservation of one byte or more from
  the free list succeeds or finds nothing.
\<close>

theorem free_list_consistent:
  assumes "reclaim_run bpp precedes h st live old" and "(g, d) \<in> live" and "\<not> reusable precedes h x" and "0 < n"
  shows "PgColumnarCheckFreeSpaceNoOverlap bpp sid (rs_groups st) (rs_free st) \<and>
    (\<exists>st'. PgColumnarRetireGroup bpp coalesce x g st = Inr st' \<and>
       PgColumnarCheckFreeSpaceNoOverlap bpp sid (rs_groups st') (rs_free st')) \<and>
    (\<exists>r. PgColumnarAllocateFreeSpace bpp coalesce precedes h sid n (rs_free st) = Inr r)"
proof -
  note inv = run_inv[OF assms(1)]
  note I = invD[OF inv]
  show ?thesis
    using no_overlap_check[OF inv] inv_retire[OF inv assms(2,3)] no_overlap_check
      allocate_ok[OF I(1,3) assms(4) HOL.refl, of coalesce precedes h sid] by blast
qed

theorem free_list_consistent_witness:
  "\<exists>st. reclaim_run 4 (<) 5 st {(group_of 7 1 8 4, [1, 1, 1, 1])} {(group_of 7 2 12 4, [2, 2, 2, 2], 5)} \<and>
     PgColumnarCheckFreeSpaceNoOverlap 4 7 (rs_groups st) (rs_free st) \<and>
     (\<exists>st'. PgColumnarRetireGroup 4 True 5 (group_of 7 1 8 4) st = Inr st')"
proof -
  obtain st where st: "reclaim_run 4 (<) 5 st {(group_of 7 1 8 4, [1, 1, 1, 1])} {(group_of 7 2 12 4, [2, 2, 2, 2], 5)}"
    using retired_run by blast
  from free_list_consistent[OF st, of "group_of 7 1 8 4" "[1, 1, 1, 1]" 5 1 7 True] st
  show ?thesis by (auto simp: reusable_def TransactionIdIsNormal_def)
qed

text \<open>
  A crash after the truncation has lowered the highwater mark and before its transaction
  commits: the file and the metapage keep their new state, the catalog rows return.
\<close>

definition crash_in_truncation ::
  "nat \<Rightarrow> (nat \<Rightarrow> nat \<Rightarrow> bool) \<Rightarrow> nat \<Rightarrow> nat list \<Rightarrow> reclaim_state \<Rightarrow> reclaim_state" where
  "crash_in_truncation bpp precedes oldestXmin storages st =
     st\<lparr>rs_fork := rs_fork (fst (pgcolumnar_do_end_truncation bpp precedes oldestXmin storages st))\<rparr>"

text \<open>
  C18: The repair after a crash inside end truncation is incomplete. Reconciling drops free rows
  that overlap a live group, but not rows at or above the highwater mark, which only the
  next truncation purges. In a reachable state the crash leaves such a row; a compaction
  reconciles, is handed the row and places a live group there without moving the
  highwater mark; and the next insert, reserving from the mark, overwrites that group:
  reading it back yields the insert's bytes.
\<close>

theorem stale_free_row_overwrites_live:
  "\<exists>st gC st2 gD st3.
     reclaim_run 4 (<) 10 st {(group_of 7 1 8 4, [1, 1, 1, 1])} {(group_of 7 2 12 4, [2, 2, 2, 2], 5)} \<and>
     (let st1 = crash_in_truncation 4 (<) 10 [7] st;
          rec = PgColumnarReconcileFreeList 4 [7] (rs_groups st1) (rs_free st1)
      in place_row_group 4 True (<) 10 True 7 (group_of 7 3 0 0) [3, 3, 3, 3] (st1\<lparr>rs_free := rec\<rparr>) = Inr (gC, st2)) \<and>
     place_row_group 4 True (<) 10 False 7 (group_of 7 4 0 0) [4, 4, 4, 4] st2 = Inr (gD, st3) \<and>
     gC \<in> set (rs_groups st3) \<and> gC \<noteq> gD \<and>
     PgColumnarReadLogicalData 4 stream (rg_fileOffset gC) 4 (rs_fork st3) = Inr [4, 4, 4, 4]"
proof -
  let ?row = "\<lparr>fs_storage = 7, fs_off = 12, fs_len = 4, fs_xid = 5\<rparr>"
  obtain st where st: "reclaim_run 4 (<) 5 st {(group_of 7 1 8 4, [1, 1, 1, 1])} {(group_of 7 2 12 4, [2, 2, 2, 2], 5)}"
      "rs_groups st = [group_of 7 1 8 4]" "rs_free st = [?row]"
      "reservedOffset (mf_meta (rs_fork st)) = 16" "length (mf_blocks (rs_fork st)) = 4"
    using retired_run by blast
  have run: "reclaim_run 4 (<) 10 st {(group_of 7 1 8 4, [1, 1, 1, 1])} {(group_of 7 2 12 4, [2, 2, 2, 2], 5)}"
    by (rule reclaim_run.horizon[OF st(1)]) (auto simp: reusable_def)
  have rec: "PgColumnarReconcileFreeList 4 [7] [group_of 7 1 8 4] [?row] = [?row]"
    by (rule reconcile_keeps) (simp add: apart_def foot_def free_range_def group_of_def COLUMNAR_PAGE_ROUND_UP_def)
  let ?f = "PgColumnarSetReservedOffset 12 (PgColumnarTruncateMainFork 3 (rs_fork st))"
  have le: "live_end 4 [7] [group_of 7 1 8 4] = 12"
    by (simp add: live_end_def group_of_def COLUMNAR_PAGE_ROUND_UP_def COLUMNAR_FIRST_LOGICAL_OFFSET_def)
  have st1: "crash_in_truncation 4 (<) 10 [7] st = st\<lparr>rs_fork := ?f\<rparr>"
    using st(2-5) rec le by (simp add: crash_in_truncation_def pgcolumnar_do_end_truncation_def Let_def
        PgColumnarDeleteFreeSpaceAtOrAbove_def PgColumnarTrailingFreeSpaceSafe_def reusable_def)
  let ?gC = "group_of 7 3 12 4" and ?gD = "group_of 7 4 12 4"
  let ?f2 = "PgColumnarWriteLogicalData 4 12 [3, 3, 3, 3] ?f"
  let ?st2 = "st\<lparr>rs_fork := ?f2, rs_groups := [group_of 7 1 8 4, ?gC], rs_free := []\<rparr>"
  have p1: "place_row_group 4 True (<) 10 True 7 (group_of 7 3 0 0) [3, 3, 3, 3] (st\<lparr>rs_fork := ?f, rs_free := [?row]\<rparr>) = Inr (?gC, ?st2)"
    using st(2) by (simp add: place_row_group_def PgColumnarAllocateFreeSpace_def best_fit_def reusable_def
        COLUMNAR_PAGE_ROUND_UP_def group_of_def Let_def)
  let ?f3 = "?f2\<lparr>mf_meta := (mf_meta ?f2)\<lparr>reservedOffset := 16\<rparr>\<rparr>"
  let ?st3 = "?st2\<lparr>rs_fork := PgColumnarWriteLogicalData 4 12 [4, 4, 4, 4] ?f3, rs_groups := [group_of 7 1 8 4, ?gC, ?gD]\<rparr>"
  have hw: "reservedOffset (mf_meta ?f2) = 12" by (simp add: PgColumnarWriteLogicalData_def PgColumnarSetReservedOffset_def)
  have p2: "place_row_group 4 True (<) 10 False 7 (group_of 7 4 0 0) [4, 4, 4, 4] ?st2 = Inr (?gD, ?st3)"
    using hw by (simp add: place_row_group_def PgColumnarReserveOffset_def group_of_def Let_def)
  have "blocks_ok 4 (mf_blocks (rs_fork st))" by (rule invD(2)[OF run_inv[OF run]])
  then have "blocks_ok 4 (mf_blocks ?f)"
    by (auto simp: blocks_ok_def PgColumnarSetReservedOffset_def PgColumnarTruncateMainFork_def dest: in_set_takeD)
  from write_holds(1)[OF this, of 12 3 "[3, 3, 3, 3]"] have ok: "blocks_ok 4 (mf_blocks ?f3)" by simp
  define f3 where "f3 = ?f3"
  have "(12::nat) = 3 * 4" "12 + length [4, 4, 4, 4 :: byte] \<le> (2 ^ 32 - 1) * 4" by simp_all
  note w = write_holds(1,2)[OF ok[folded f3_def] this]
  have rd: "PgColumnarReadLogicalData 4 stream (rg_fileOffset ?gC) 4 (rs_fork ?st3) = Inr [4, 4, 4, 4]"
    using read_held[OF w, of 0 4 stream] by (simp add: group_of_def f3_def)
  have reuse: "let st1 = crash_in_truncation 4 (<) 10 [7] st;
        rec = PgColumnarReconcileFreeList 4 [7] (rs_groups st1) (rs_free st1)
      in place_row_group 4 True (<) 10 True 7 (group_of 7 3 0 0) [3, 3, 3, 3] (st1\<lparr>rs_free := rec\<rparr>) = Inr (?gC, ?st2)"
  proof -
    have "rs_groups (st\<lparr>rs_fork := ?f\<rparr>) = [group_of 7 1 8 4]" "rs_free (st\<lparr>rs_fork := ?f\<rparr>) = [?row]" using st(2,3) by simp_all
    then show ?thesis unfolding Let_def st1 by (simp only: rec p1)
  qed
  have "?gC \<in> set (rs_groups ?st3)" "?gC \<noteq> ?gD" by (simp, simp add: group_of_def)
  with run reuse p2 rd show ?thesis by blast
qed

end
