(* ===== verification/Row_Group.thy ===== *)
theory Row_Group
  imports Skip_Predicate Reclaim
begin

section \<open>Buffering and flushing a row group\<close>

text \<open>
  The write state of a relation (\<open>src/src/columnar_write_state.c\<close>): \<open>PgColumnarWriteRow\<close> numbers
  a row, appends it to the current chunk group and flushes at the row limit;
  \<open>PgColumnarBufferedRowByNumber\<close> reads a row that is still buffered, through a cache of value
  offsets; \<open>flush_row_group\<close> writes the buffered rows as one row group with its catalog rows.
  Catalog tables are lists of rows with their unique keys. A flush runs in one backend (the
  worker pool of \<open>parallel_flush\<close> produces the same results) and the fold into the column
  extent is not modelled. A buffered row reads back as written, and so does a flushed group.
\<close>

subsection \<open>Definitions\<close>

record chunk_group =
  cg_rowCount :: nat
  cg_columns :: "column_buffer list"

text \<open>An attribute of the write state's descriptor; \<open>wc_virtual\<close> is \<open>attgenerated = 'v'\<close>.\<close>

record write_col =
  wc_att :: attr
  wc_virtual :: bool

definition InvalidSubTransactionId :: nat where "InvalidSubTransactionId = 0"

record write_state =
  ws_relid :: nat
  ws_subid :: nat
  ws_flushedUnder :: nat
  ws_eagerFlush :: bool
  ws_tupdesc :: "write_col list"
  ws_stripeRowLimit :: nat
  ws_chunkGroupRowLimit :: nat
  ws_cfg :: flush_cfg
  ws_storageId :: nat
  ws_colDefs :: "column_def list"
  ws_memos :: "fsst_memo list"
  ws_sketchRegs :: "byte list option list option"
  ws_chunkGroups :: "chunk_group list"
  ws_currentGroup :: "nat option"
  ws_stripeRowCount :: nat
  ws_haveReservation :: bool
  ws_stripeId :: nat
  ws_stripeFirstRowNumber :: nat
  ws_reservedStripeIds :: "nat list"

abbreviation ws_natts :: "write_state \<Rightarrow> nat" where
  "ws_natts ws \<equiv> length (ws_tupdesc ws)"

abbreviation ws_pg :: "write_state \<Rightarrow> pg_datum" where
  "ws_pg ws \<equiv> env_pg (cfg_env (ws_cfg ws))"

subsubsection \<open>The catalog rows of a relation\<close>

record native_storage =
  ns_storageId :: nat
  ns_relationOid :: nat
  ns_formatVersion :: nat
  ns_vectorLength :: nat
  ns_rowGroupLimit :: nat
  ns_sortedFrom :: "int option"
  ns_sortedThrough :: "int option"

record column_chunk =
  cc_storageId :: nat
  cc_groupNumber :: nat
  cc_columnIndex :: nat
  cc_valueCount :: nat
  cc_descriptor :: "byte list"
  cc_blockCodec :: nat
  cc_pageOffset :: nat
  cc_pageLength :: nat

record 'a group_entry =
  ge_storageId :: nat
  ge_groupNumber :: nat
  ge_columnIndex :: nat
  ge_row :: 'a

text \<open>
  A relation: its file with the \<open>row_group\<close> and \<open>free_space\<close> rows, the other catalog rows, and
  the count of relcache invalidations sent for it.
\<close>

record delete_row =
  dr_storageId :: nat
  dr_groupNumber :: nat
  dr_deletedCount :: nat
  dr_bitmap :: "byte list"

record rel_state =
  rel_file :: reclaim_state
  rel_storage :: "native_storage list"
  rel_chunks :: "column_chunk list"
  rel_zones :: "zone_row group_entry list"
  rel_blooms :: "byte list group_entry list"
  rel_sketches :: "byte list group_entry list"
  rel_deletes :: "delete_row list"
  rel_invalidations :: nat

definition COLUMNAR_NATIVE_FORMAT_VERSION :: nat where "COLUMNAR_NATIVE_FORMAT_VERSION = 2"
definition COLUMNAR_NATIVE_VECTOR_LENGTH :: nat where "COLUMNAR_NATIVE_VECTOR_LENGTH = 1024"

text \<open>An insert into a catalog table with a unique index on \<open>key\<close>.\<close>

definition catalog_insert :: "('r \<Rightarrow> 'k) \<Rightarrow> 'r \<Rightarrow> 'r list \<Rightarrow> 'r list result" where
  "catalog_insert key r rows =
     (if key r \<in> key ` set rows then Inl (Corrupt ''duplicate key value violates unique constraint'')
      else Inr (rows @ [r]))"

fun catalog_inserts :: "('r \<Rightarrow> 'k) \<Rightarrow> 'r list \<Rightarrow> 'r list \<Rightarrow> 'r list result" where
  "catalog_inserts key [] rows = Inr rows"
| "catalog_inserts key (r # rs) rows = res_bind (catalog_insert key r rows) (catalog_inserts key rs)"

definition chunk_key :: "column_chunk \<Rightarrow> nat \<times> nat \<times> nat" where
  "chunk_key cc = (cc_storageId cc, cc_groupNumber cc, cc_columnIndex cc)"

definition entry_key :: "'a group_entry \<Rightarrow> nat \<times> nat \<times> nat" where
  "entry_key e = (ge_storageId e, ge_groupNumber e, ge_columnIndex e)"

definition zone_key :: "zone_row group_entry \<Rightarrow> (nat \<times> nat \<times> nat) \<times> int" where
  "zone_key e = (entry_key e, z_vectorIndex (ge_row e))"

definition group_key :: "row_group \<Rightarrow> nat \<times> nat" where
  "group_key g = (rg_storageId g, rg_groupNumber g)"

text \<open>\<open>storage_row_probe\<close> with \<open>raise\<close>, and the insert when the row is absent.\<close>

definition PgColumnarInsertNativeStorageRow :: "native_storage \<Rightarrow> native_storage list \<Rightarrow> native_storage list" where
  "PgColumnarInsertNativeStorageRow s rows =
     (if \<exists>r \<in> set rows. ns_storageId r = ns_storageId s
      then map (\<lambda>r. if ns_storageId r = ns_storageId s \<and> ns_formatVersion r < ns_formatVersion s
                    then r\<lparr>ns_formatVersion := ns_formatVersion s\<rparr> else r) rows
      else rows @ [s])"

definition PgColumnarGetSortedInfo :: "nat \<Rightarrow> native_storage list \<Rightarrow> int \<times> int" where
  "PgColumnarGetSortedInfo storageId rows =
     (case find (\<lambda>r. ns_storageId r = storageId) rows of
        None \<Rightarrow> (-1, -1)
      | Some r \<Rightarrow> (case ns_sortedFrom r of None \<Rightarrow> -1 | Some k \<Rightarrow> k,
                   case ns_sortedThrough r of None \<Rightarrow> -1 | Some k \<Rightarrow> k))"

text \<open>
  What a flush finds around it: the page capacity, the settings of \<open>free_space\<close> coalescing,
  the transaction order with the oldest-xmin horizon, and whether this backend holds the
  compaction lock.
\<close>

record flush_env =
  fe_bpp :: nat
  fe_coalesce :: bool
  fe_precedes :: "nat \<Rightarrow> nat \<Rightarrow> bool"
  fe_oldestXmin :: nat
  fe_mayReuse :: bool

subsubsection \<open>The flush\<close>

definition group_columns :: "chunk_group list \<Rightarrow> nat \<Rightarrow> column_buffer list" where
  "group_columns groups c = map (\<lambda>g. cg_columns g ! c) groups"

definition flush_columns :: "write_state \<Rightarrow> (flush_result option \<times> fsst_memo) list result" where
  "flush_columns ws =
     (let rowCount = ws_stripeRowCount ws; validityBytes = (rowCount + 7) div 8
      in res_map (\<lambda>c. flush_one_column (ws_cfg ws) (wc_att (ws_tupdesc ws ! c)) (wc_virtual (ws_tupdesc ws ! c))
             (ws_colDefs ws ! c) (group_columns (ws_chunkGroups ws) c) rowCount validityBytes (ws_memos ws ! c))
           [0..<ws_natts ws])"

definition chunk_bytes :: "flush_result option \<Rightarrow> byte list" where
  "chunk_bytes r = (case r of None \<Rightarrow> [] | Some res \<Rightarrow> fres_chunk res)"

text \<open>The assembly in column order: the offset of each chunk is the length so far.\<close>

definition chunk_offset :: "flush_result option list \<Rightarrow> nat \<Rightarrow> nat" where
  "chunk_offset rs c = length (concat (map chunk_bytes (take c rs)))"

definition chunk_rows :: "write_state \<Rightarrow> nat \<Rightarrow> flush_result option list \<Rightarrow> column_chunk list" where
  "chunk_rows ws fileOffset rs =
     concat (map (\<lambda>c. case rs ! c of
         None \<Rightarrow> []
       | Some res \<Rightarrow> [\<lparr>cc_storageId = ws_storageId ws, cc_groupNumber = ws_stripeId ws, cc_columnIndex = c,
           cc_valueCount = ws_stripeRowCount ws, cc_descriptor = fres_desc res, cc_blockCodec = fres_codec res,
           cc_pageOffset = fileOffset + chunk_offset rs c, cc_pageLength = length (fres_chunk res)\<rparr>])
       [0..<length rs])"

definition entry_rows :: "write_state \<Rightarrow> (flush_result \<Rightarrow> 'a list) \<Rightarrow> flush_result option list \<Rightarrow> 'a group_entry list" where
  "entry_rows ws f rs =
     concat (map (\<lambda>c. case rs ! c of
         None \<Rightarrow> []
       | Some res \<Rightarrow> map (\<lambda>x. \<lparr>ge_storageId = ws_storageId ws, ge_groupNumber = ws_stripeId ws,
           ge_columnIndex = c, ge_row = x\<rparr>) (f res)) [0..<length rs])"

definition sketch_rows :: "write_state \<Rightarrow> byte list group_entry list" where
  "sketch_rows ws =
     (case ws_sketchRegs ws of
        None \<Rightarrow> []
      | Some rr \<Rightarrow>
          concat (map (\<lambda>c. case rr ! c of
             None \<Rightarrow> []
           | Some r \<Rightarrow> [\<lparr>ge_storageId = ws_storageId ws, ge_groupNumber = ws_stripeId ws,
               ge_columnIndex = c, ge_row = r\<rparr>]) [0..<ws_natts ws]))"

definition clear_sketches :: "byte list option list option \<Rightarrow> byte list option list option" where
  "clear_sketches = map_option (map (map_option (\<lambda>_. replicate PGC_SKETCH_REGISTERS 0)))"

definition reset_stripe :: "write_state \<Rightarrow> write_state" where
  "reset_stripe ws =
     ws\<lparr>ws_chunkGroups := [], ws_currentGroup := None, ws_stripeRowCount := 0,
        ws_haveReservation := False, ws_sketchRegs := clear_sketches (ws_sketchRegs ws)\<rparr>"

definition storage_row :: "write_state \<Rightarrow> native_storage" where
  "storage_row ws = \<lparr>ns_storageId = ws_storageId ws, ns_relationOid = ws_relid ws,
     ns_formatVersion = COLUMNAR_NATIVE_FORMAT_VERSION, ns_vectorLength = COLUMNAR_NATIVE_VECTOR_LENGTH,
     ns_rowGroupLimit = ws_stripeRowLimit ws, ns_sortedFrom = None, ns_sortedThrough = None\<rparr>"

definition outside_sorted_run :: "nat \<Rightarrow> int \<times> int \<Rightarrow> bool" where
  "outside_sorted_run groupNumber run \<longleftrightarrow>
     snd run \<ge> 0 \<and> (int groupNumber > snd run \<or> int groupNumber < fst run)"

definition flush_row_group ::
  "flush_env \<Rightarrow> write_state \<Rightarrow> bool \<Rightarrow> rel_state \<Rightarrow> (write_state \<times> rel_state) result" where
  "flush_row_group F ws keep rel =
     (if ws_stripeRowCount ws = 0 then Inr (ws, rel)
      else res_bind (flush_columns ws) (\<lambda>crs.
        let rs = map fst crs;
            ws1 = ws\<lparr>ws_memos := map snd crs\<rparr>;
            data = concat (map chunk_bytes rs);
            rg = \<lparr>rg_storageId = ws_storageId ws, rg_groupNumber = ws_stripeId ws, rg_fileOffset = 0,
                  rg_rowCount = ws_stripeRowCount ws, rg_byteLength = 0,
                  rg_firstRowNumber = ws_stripeFirstRowNumber ws\<rparr>
        in res_bind (PgColumnarStorageId (rs_fork (rel_file rel))) (\<lambda>base.
           res_bind (place_row_group (fe_bpp F) (fe_coalesce F) (fe_precedes F) (fe_oldestXmin F) (fe_mayReuse F)
                       base rg data (rel_file rel)) (\<lambda>(g, file).
           let storage = PgColumnarInsertNativeStorageRow (storage_row ws) (rel_storage rel);
               inval = outside_sorted_run (ws_stripeId ws) (PgColumnarGetSortedInfo (ws_storageId ws) storage)
           in if group_key g \<in> group_key ` set (rs_groups (rel_file rel))
              then Inl (Corrupt ''duplicate key value violates unique constraint row_group_pkey'')
              else res_bind (catalog_inserts chunk_key (chunk_rows ws (rg_fileOffset g) rs) (rel_chunks rel)) (\<lambda>chunks.
                res_bind (catalog_inserts zone_key (entry_rows ws fres_zoneRows rs) (rel_zones rel)) (\<lambda>zones.
                res_bind (catalog_inserts entry_key
                    (entry_rows ws (\<lambda>res. case fres_bloom res of None \<Rightarrow> [] | Some b \<Rightarrow> [b]) rs) (rel_blooms rel)) (\<lambda>blooms.
                res_bind (catalog_inserts entry_key (sketch_rows ws) (rel_sketches rel)) (\<lambda>sketches.
                  Inr (if keep then ws1 else reset_stripe ws1,
                       rel\<lparr>rel_file := file, rel_storage := storage, rel_chunks := chunks, rel_zones := zones,
                           rel_blooms := blooms, rel_sketches := sketches,
                           rel_invalidations := rel_invalidations rel + (if inval then 1 else 0)\<rparr>)))))))))"

definition pgcolumnar_flush_row_group ::
  "flush_env \<Rightarrow> write_state \<Rightarrow> rel_state \<Rightarrow> (write_state \<times> rel_state) result" where
  "pgcolumnar_flush_row_group F ws rel = flush_row_group F ws False rel"

subsubsection \<open>Appending a row\<close>

definition pgcolumnar_start_chunk_group :: "write_state \<Rightarrow> write_state" where
  "pgcolumnar_start_chunk_group ws =
     ws\<lparr>ws_chunkGroups := ws_chunkGroups ws @
          [\<lparr>cg_rowCount = 0, cg_columns = replicate (ws_natts ws) empty_column_buffer\<rparr>],
        ws_currentGroup := Some (length (ws_chunkGroups ws))\<rparr>"

definition reserve_stripe :: "write_state \<Rightarrow> rel_state \<Rightarrow> write_state \<times> rel_state" where
  "reserve_stripe ws rel =
     (if ws_haveReservation ws then (ws, rel)
      else let (stripeId, firstRowNumber, fork) =
                 PgColumnarReserveRowNumbers (ws_stripeRowLimit ws) (rs_fork (rel_file rel))
           in (ws\<lparr>ws_stripeId := stripeId, ws_stripeFirstRowNumber := firstRowNumber, ws_haveReservation := True,
                  ws_reservedStripeIds := ws_reservedStripeIds ws @ [stripeId]\<rparr>,
               rel\<lparr>rel_file := (rel_file rel)\<lparr>rs_fork := fork\<rparr>\<rparr>))"

definition open_chunk_group :: "write_state \<Rightarrow> write_state" where
  "open_chunk_group ws =
     (case ws_currentGroup ws of
        None \<Rightarrow> pgcolumnar_start_chunk_group ws
      | Some g \<Rightarrow> if cg_rowCount (ws_chunkGroups ws ! g) \<ge> ws_chunkGroupRowLimit ws
                  then pgcolumnar_start_chunk_group ws else ws)"

definition write_columns ::
  "write_state \<Rightarrow> datum option list \<Rightarrow> column_buffer list \<Rightarrow> column_buffer list result" where
  "write_columns ws values cols =
     res_map (\<lambda>c. write_column_value (ws_pg ws) (wc_att (ws_tupdesc ws ! c)) (ws_colDefs ws ! c) (values ! c) (cols ! c))
       [0..<ws_natts ws]"

definition note_sketch :: "write_state \<Rightarrow> nat \<Rightarrow> datum option \<Rightarrow> byte list \<Rightarrow> byte list" where
  "note_sketch ws c value r =
     (case value of
        None \<Rightarrow> r
      | Some v \<Rightarrow> pgc_sketch_add (env_bits (cfg_env (ws_cfg ws)))
          (sketchFn (ws_colDefs ws ! c) (flat_datum (ws_pg ws) (wc_att (ws_tupdesc ws ! c)) v)) r)"

definition note_sketches :: "write_state \<Rightarrow> datum option list \<Rightarrow> byte list option list option" where
  "note_sketches ws values =
     map_option (\<lambda>rr. map (\<lambda>c. map_option (note_sketch ws c (values ! c)) (rr ! c)) [0..<ws_natts ws])
       (ws_sketchRegs ws)"

definition PgColumnarWriteRow ::
  "flush_env \<Rightarrow> write_state \<Rightarrow> datum option list \<Rightarrow> rel_state \<Rightarrow> (nat \<times> write_state \<times> rel_state) result" where
  "PgColumnarWriteRow F ws values rel =
     (let (ws1, rel1) = reserve_stripe ws rel;
          rowNumber = ws_stripeFirstRowNumber ws1 + ws_stripeRowCount ws1;
          ws2 = open_chunk_group ws1;
          cur = the (ws_currentGroup ws2);
          grp = ws_chunkGroups ws2 ! cur
      in res_bind (write_columns ws2 values (cg_columns grp)) (\<lambda>cols.
           let ws3 = ws2\<lparr>ws_chunkGroups := (ws_chunkGroups ws2)[cur := \<lparr>cg_rowCount = cg_rowCount grp + 1, cg_columns = cols\<rparr>],
                         ws_sketchRegs := note_sketches ws2 values,
                         ws_stripeRowCount := ws_stripeRowCount ws2 + 1\<rparr>
           in res_bind (if ws_stripeRowCount ws3 \<ge> ws_stripeRowLimit ws3
                        then pgcolumnar_flush_row_group F ws3 rel1 else Inr (ws3, rel1))
                (\<lambda>(ws4, rel2). Inr (rowNumber, ws4, rel2))))"

subsubsection \<open>Reading a buffered row\<close>

text \<open>The offsets of the rows' values; \<open>p\<close> is the rest of a stream of \<open>total\<close> bytes.\<close>

fun offsets_from :: "pg_datum \<Rightarrow> attr \<Rightarrow> nat \<Rightarrow> bool list \<Rightarrow> byte list \<Rightarrow> u32 list result" where
  "offsets_from V att tot [] p = Inr []"
| "offsets_from V att tot (e # es) p =
     res_bind (if e then res_bind (PgColumnarDecodeValue V att p) (\<lambda>(d, p'). Inr p') else Inr p) (\<lambda>p'.
       res_bind (offsets_from V att tot es p') (\<lambda>os. Inr (of_nat (tot - length p) # os)))"

definition buffered_build_offsets :: "pg_datum \<Rightarrow> attr \<Rightarrow> nat \<Rightarrow> column_buffer \<Rightarrow> column_buffer result" where
  "buffered_build_offsets V att rowCount col =
     res_bind (offsets_from V att (length (valueStream col)) (take rowCount (existsStream col)) (valueStream col))
       (\<lambda>os. Inr (col\<lparr>valOffsets := Some os\<rparr>))"

definition buffered_fetch_column ::
  "pg_datum \<Rightarrow> attr \<Rightarrow> nat \<Rightarrow> nat \<Rightarrow> column_buffer \<Rightarrow> (datum option \<times> column_buffer) result" where
  "buffered_fetch_column V att rowCount posInGroup col0 =
     res_bind
       (case valOffsets col0 of
          None \<Rightarrow> buffered_build_offsets V att rowCount col0
        | Some os \<Rightarrow> if length os < rowCount then buffered_build_offsets V att rowCount col0 else Inr col0)
       (\<lambda>col.
          let cursor = drop (unat (the (valOffsets col) ! posInGroup)) (valueStream col)
          in if existsStream col ! posInGroup
             then res_bind (PgColumnarDecodeValue V att cursor) (\<lambda>(d, p'). Inr (Some d, col))
             else Inr (None, col))"

text \<open>The chunk group that holds the row at \<open>offset\<close>, with the position in it.\<close>

fun locate_row :: "nat \<Rightarrow> nat \<Rightarrow> nat \<Rightarrow> chunk_group list \<Rightarrow> (nat \<times> nat) option" where
  "locate_row offset accumulated g [] = None"
| "locate_row offset accumulated g (grp # grps) =
     (if offset \<ge> accumulated + cg_rowCount grp then locate_row offset (accumulated + cg_rowCount grp) (g + 1) grps
      else Some (g, offset - accumulated))"

definition buffered_row :: "nat \<Rightarrow> write_state \<Rightarrow> (datum option list option \<times> write_state) result" where
  "buffered_row rowNumber ws =
     (if \<not> ws_haveReservation ws \<or> rowNumber < ws_stripeFirstRowNumber ws \<or>
         rowNumber \<ge> ws_stripeFirstRowNumber ws + ws_stripeRowCount ws
      then Inr (None, ws)
      else case locate_row (rowNumber - ws_stripeFirstRowNumber ws) 0 0 (ws_chunkGroups ws) of
             None \<Rightarrow> Inr (None, ws)
           | Some (g, pos) \<Rightarrow>
               let grp = ws_chunkGroups ws ! g
               in res_bind (res_map (\<lambda>c. buffered_fetch_column (ws_pg ws) (wc_att (ws_tupdesc ws ! c))
                     (cg_rowCount grp) pos (cg_columns grp ! c)) [0..<ws_natts ws]) (\<lambda>fs.
                  Inr (Some (map fst fs),
                       ws\<lparr>ws_chunkGroups := (ws_chunkGroups ws)[g := grp\<lparr>cg_columns := map snd fs\<rparr>]\<rparr>)))"

fun PgColumnarBufferedRowByNumber ::
  "nat \<Rightarrow> nat \<Rightarrow> write_state list \<Rightarrow> (datum option list option \<times> write_state list) result" where
  "PgColumnarBufferedRowByNumber relid rowNumber [] = Inr (None, [])"
| "PgColumnarBufferedRowByNumber relid rowNumber (ws # wss) =
     (if ws_relid ws \<noteq> relid
      then res_bind (PgColumnarBufferedRowByNumber relid rowNumber wss) (\<lambda>(r, wss'). Inr (r, ws # wss'))
      else res_bind (buffered_row rowNumber ws) (\<lambda>(r, ws').
        case r of
          Some row \<Rightarrow> Inr (Some row, ws' # wss)
        | None \<Rightarrow> res_bind (PgColumnarBufferedRowByNumber relid rowNumber wss) (\<lambda>(r, wss'). Inr (r, ws' # wss'))))"

subsection \<open>The offset cache is only a cache\<close>

abbreviation forget_offsets :: "column_buffer \<Rightarrow> column_buffer" where
  "forget_offsets col \<equiv> col\<lparr>valOffsets := None\<rparr>"

lemma write_value_forget:
  assumes "write_column_value V att def v col = Inr col'"
  shows "write_column_value V att def v (forget_offsets col) = Inr (forget_offsets col')"
    and "valOffsets col' = map_option (\<lambda>os. os @ [of_nat (length (valueStream col))]) (valOffsets col)"
  using assms
  by (auto simp: write_column_value_def buffered_note_offset_def Let_def res_bind_Inr split: option.splits)

lemma flush_corpus_forget: "flush_corpus (map forget_offsets cols) corpus n = flush_corpus cols corpus n"
  by (induction cols arbitrary: corpus n) (simp_all add: Let_def)

lemma vector_zone_rows_forget:
  "vector_zone_rows V att def vec (map forget_offsets cols) = vector_zone_rows V att def vec cols"
  by (induction cols arbitrary: vec) simp_all

lemma flush_column_forget:
  "flush_one_column C att virtual def (map forget_offsets cols) rowCount vb memo =
   flush_one_column C att virtual def cols rowCount vb memo"
proof -
  have m: "map f (map forget_offsets cols) = map f cols" if "\<And>col. f (forget_offsets col) = f col" for f :: "column_buffer \<Rightarrow> 'a"
    using that by simp
  have "flush_validity (map forget_offsets cols) = flush_validity cols"
    by (intro ext) (simp add: flush_validity_def flush_bitmap_def m comp_def)
  moreover have "flush_fsst_table C att (map forget_offsets cols) memo = flush_fsst_table C att cols memo"
    by (simp add: flush_fsst_table_def flush_corpus_forget)
  moreover have "flush_vectors C att tbl (map forget_offsets cols) flags = flush_vectors C att tbl cols flags" for tbl flags
  proof -
    have "flush_vector C att tbl (forget_offsets col) = flush_vector C att tbl col" for col
      by (intro ext) (simp add: flush_vector_def)
    then show ?thesis by (simp add: flush_vectors_def fold_map comp_def)
  qed
  moreover have "flush_zone_rows V att def rowCount (map forget_offsets cols) = flush_zone_rows V att def rowCount cols" for V
  proof -
    have "fold_vector def (forget_offsets col) = fold_vector def col" for col
      by (intro ext) (simp add: fold_vector_def)
    then show ?thesis by (simp add: flush_zone_rows_def vector_zone_rows_forget fold_map comp_def)
  qed
  moreover have "flush_bloom hll def (map forget_offsets cols) = flush_bloom hll def cols" for hll
    by (simp add: flush_bloom_def comp_def)
  ultimately show ?thesis by (simp add: flush_one_column_def)
qed

subsection \<open>What a write state holds\<close>

text \<open>Where the value of row \<open>i\<close> of a column begins.\<close>

definition value_offset :: "pg_datum \<Rightarrow> attr \<Rightarrow> datum option list \<Rightarrow> nat \<Rightarrow> nat" where
  "value_offset V att rows i = length (concat (map (value_bytes V att) (present_values V att (take i rows))))"

definition buffer_rows :: "pg_datum \<Rightarrow> attr \<Rightarrow> column_def \<Rightarrow> datum option list \<Rightarrow> column_buffer \<Rightarrow> bool" where
  "buffer_rows V att def rows col \<longleftrightarrow>
     write_column_values V att def rows empty_column_buffer = Inr (forget_offsets col) \<and>
     (\<forall>os. valOffsets col = Some os \<longrightarrow> os = map (\<lambda>i. of_nat (value_offset V att rows i)) [0..<length rows])"

lemma present_values_append: "present_values V att (xs @ ys) = present_values V att xs @ present_values V att ys"
  by (simp add: present_values_def)

lemma write_values_append:
  "write_column_values V att def (xs @ ys) col =
     res_bind (write_column_values V att def xs col) (write_column_values V att def ys)"
proof (induction xs arbitrary: col)
  case (Cons x xs)
  then show ?case by (cases "write_column_value V att def x col") simp_all
qed simp

text \<open>A column of the model's types: what its values and definition satisfy.\<close>

definition col_ok :: "pg_datum \<Rightarrow> (u64 \<Rightarrow> nat \<Rightarrow> bool) \<Rightarrow> attr \<Rightarrow> column_def \<Rightarrow> datum set \<Rightarrow> datum set \<Rightarrow> bool" where
  "col_ok V ok att def D B \<longleftrightarrow> store_ok V ok att def D B \<and> def_ok D B def"

lemma col_okD:
  assumes "col_ok V ok att def D B"
  shows "pg_datum_ok V ok" "def_ok D B def" "store_ok V ok att def D B"
  using assms by (simp_all add: col_ok_def store_ok_def)

lemma buffer_rows_of:
  assumes "col_ok V ok att def D B" "rows_ok V ok att D rows" "buffer_rows V att def rows col"
  shows "valueStream col = concat (map (value_bytes V att) (present_values V att rows))"
    and "existsStream col = map (\<lambda>v. v \<noteq> None) rows"
proof -
  have "buffer_of V att def rows (forget_offsets col)"
    using write_column_values_buffer[OF col_okD(1,2)[OF assms(1)] assms(2)] assms(3) by (auto simp: buffer_rows_def)
  then show "valueStream col = concat (map (value_bytes V att) (present_values V att rows))"
      "existsStream col = map (\<lambda>v. v \<noteq> None) rows"
    using buffer_value_stream(1)[OF col_okD(1)[OF assms(1)] assms(2), of def "forget_offsets col"]
    by (simp_all add: buffer_of_def)
qed

lemma buffer_rows_write:
  assumes c: "col_ok V ok att def D B" and rows: "rows_ok V ok att D (rows @ [v])" and b: "buffer_rows V att def rows col"
  obtains col' where "write_column_value V att def v col = Inr col'" "buffer_rows V att def (rows @ [v]) col'"
proof -
  have r: "rows_ok V ok att D rows" using rows by (simp add: rows_ok_def present_values_append)
  obtain x where x: "write_column_values V att def (rows @ [v]) empty_column_buffer = Inr x"
    using write_column_values_buffer[OF col_okD(1,2)[OF c] rows] by blast
  then have "write_column_value V att def v (forget_offsets col) = Inr x"
    using b by (auto simp: write_values_append buffer_rows_def res_bind_Inr)
  then obtain col' where w: "write_column_value V att def v col = Inr col'"
    by (auto simp: write_column_value_def Let_def res_bind_Inr split: option.splits)
  have "x = forget_offsets col'"
    using write_value_forget(1)[OF w] \<open>write_column_value V att def v (forget_offsets col) = Inr x\<close> by simp
  moreover have "length (valueStream col) = value_offset V att (rows @ [v]) (length rows)"
    using buffer_rows_of(1)[OF c r b] by (simp add: value_offset_def)
  moreover have "map (\<lambda>i. of_nat (value_offset V att (rows @ [v]) i)) [0..<length rows] =
      (map (\<lambda>i. of_nat (value_offset V att rows i)) [0..<length rows] :: u32 list)"
    by (simp add: value_offset_def)
  ultimately have "buffer_rows V att def (rows @ [v]) col'"
    using x b write_value_forget(2)[OF w] by (auto simp: buffer_rows_def)
  then show thesis using that w by blast
qed

text \<open>
  The columns of a write state: \<open>D\<close> and \<open>B\<close> give for each column the values and range bounds
  of its type, \<open>ok\<close> the by-value datums.
\<close>

definition ws_cols_ok ::
  "(u64 \<Rightarrow> nat \<Rightarrow> bool) \<Rightarrow> (nat \<Rightarrow> datum set) \<Rightarrow> (nat \<Rightarrow> datum set) \<Rightarrow> write_state \<Rightarrow> bool" where
  "ws_cols_ok ok D B ws \<longleftrightarrow>
     (\<forall>c < ws_natts ws. col_ok (ws_pg ws) ok (wc_att (ws_tupdesc ws ! c)) (ws_colDefs ws ! c) (D c) (B c))"

definition ws_rows_ok ::
  "(u64 \<Rightarrow> nat \<Rightarrow> bool) \<Rightarrow> (nat \<Rightarrow> datum set) \<Rightarrow> write_state \<Rightarrow> datum option list list \<Rightarrow> bool" where
  "ws_rows_ok ok D ws rows \<longleftrightarrow>
     (\<forall>c < ws_natts ws. rows_ok (ws_pg ws) ok (wc_att (ws_tupdesc ws ! c)) (D c) (map (\<lambda>r. r ! c) rows))"

definition chunk_group_holds :: "write_state \<Rightarrow> datum option list list \<Rightarrow> chunk_group \<Rightarrow> bool" where
  "chunk_group_holds ws rows grp \<longleftrightarrow> cg_rowCount grp = length rows \<and> length (cg_columns grp) = ws_natts ws \<and>
     (\<forall>c < ws_natts ws. buffer_rows (ws_pg ws) (wc_att (ws_tupdesc ws ! c)) (ws_colDefs ws ! c)
        (map (\<lambda>r. r ! c) rows) (cg_columns grp ! c))"

text \<open>
  A write state that buffers the rows \<open>gs\<close>, by chunk group: every group but the last is full,
  and none is empty or over the limit.
\<close>

definition ws_holds :: "write_state \<Rightarrow> datum option list list list \<Rightarrow> bool" where
  "ws_holds ws gs \<longleftrightarrow>
     list_all2 (chunk_group_holds ws) gs (ws_chunkGroups ws) \<and>
     ws_stripeRowCount ws = length (concat gs) \<and>
     ws_currentGroup ws = (if gs = [] then None else Some (length gs - 1)) \<and>
     (\<forall>g < length gs. gs ! g \<noteq> [] \<and> length (gs ! g) \<le> ws_chunkGroupRowLimit ws) \<and>
     (\<forall>g. Suc g < length gs \<longrightarrow> length (gs ! g) = ws_chunkGroupRowLimit ws) \<and>
     0 < ws_chunkGroupRowLimit ws \<and>
     (gs \<noteq> [] \<longrightarrow> ws_haveReservation ws)"

definition append_row :: "nat \<Rightarrow> datum option list list list \<Rightarrow> datum option list \<Rightarrow> datum option list list list" where
  "append_row limit gs row =
     (if gs = [] \<or> length (last gs) \<ge> limit then gs @ [[row]] else butlast gs @ [last gs @ [row]])"

lemma concat_append_row: "concat (append_row limit gs row) = concat gs @ [row]"
proof (cases "gs = [] \<or> length (last gs) \<ge> limit")
  case False
  then have "concat gs = concat (butlast gs) @ last gs" by (metis append_butlast_last_id concat_append concat.simps append_Nil2)
  then show ?thesis using False by (simp add: append_row_def)
qed (auto simp: append_row_def)

lemma chunk_group_holds_cong:
  "ws_cfg ws' = ws_cfg ws \<Longrightarrow> ws_tupdesc ws' = ws_tupdesc ws \<Longrightarrow> ws_colDefs ws' = ws_colDefs ws \<Longrightarrow>
   chunk_group_holds ws' = chunk_group_holds ws"
  by (intro ext) (simp add: chunk_group_holds_def)

text \<open>The columns of a group take one more row.\<close>

lemma group_write:
  assumes cols: "ws_cols_ok ok D B ws" and rows: "ws_rows_ok ok D ws (rows @ [row])" and g: "chunk_group_holds ws rows grp"
  obtains cs where "write_columns ws row (cg_columns grp) = Inr cs"
    "chunk_group_holds ws (rows @ [row]) \<lparr>cg_rowCount = cg_rowCount grp + 1, cg_columns = cs\<rparr>"
proof -
  let ?w = "\<lambda>c. write_column_value (ws_pg ws) (wc_att (ws_tupdesc ws ! c)) (ws_colDefs ws ! c) (row ! c) (cg_columns grp ! c)"
  let ?b = "\<lambda>c. buffer_rows (ws_pg ws) (wc_att (ws_tupdesc ws ! c)) (ws_colDefs ws ! c) (map (\<lambda>r. r ! c) (rows @ [row]))"
  have "\<forall>c. \<exists>col. c < ws_natts ws \<longrightarrow> ?w c = Inr col \<and> ?b c col"
  proof
    fix c show "\<exists>col. c < ws_natts ws \<longrightarrow> ?w c = Inr col \<and> ?b c col"
    proof (cases "c < ws_natts ws")
      case True
      then have c: "col_ok (ws_pg ws) ok (wc_att (ws_tupdesc ws ! c)) (ws_colDefs ws ! c) (D c) (B c)"
          "rows_ok (ws_pg ws) ok (wc_att (ws_tupdesc ws ! c)) (D c) (map (\<lambda>r. r ! c) rows @ [row ! c])"
          "buffer_rows (ws_pg ws) (wc_att (ws_tupdesc ws ! c)) (ws_colDefs ws ! c) (map (\<lambda>r. r ! c) rows) (cg_columns grp ! c)"
        using cols rows g by (simp_all add: ws_cols_ok_def ws_rows_ok_def chunk_group_holds_def)
      show ?thesis by (rule buffer_rows_write[OF c]) auto
    qed simp
  qed
  then obtain f where f: "\<forall>c. c < ws_natts ws \<longrightarrow> ?w c = Inr (f c) \<and> ?b c (f c)" by (rule exE[OF choice])
  have "write_columns ws row (cg_columns grp) = Inr (map f [0..<ws_natts ws])"
    unfolding write_columns_def by (rule res_map_all) (use f in simp)
  moreover have "chunk_group_holds ws (rows @ [row]) \<lparr>cg_rowCount = cg_rowCount grp + 1, cg_columns = map f [0..<ws_natts ws]\<rparr>"
    using f g by (simp add: chunk_group_holds_def)
  ultimately show thesis by (rule that)
qed

lemma empty_group_holds:
  "chunk_group_holds ws [] \<lparr>cg_rowCount = 0, cg_columns = replicate (ws_natts ws) empty_column_buffer\<rparr>"
  by (simp add: chunk_group_holds_def buffer_rows_def empty_column_buffer_def)

lemma open_group_holds:
  assumes h: "ws_holds ws gs"
  obtains gs1 rows where "list_all2 (chunk_group_holds ws) (gs1 @ [rows]) (ws_chunkGroups (open_chunk_group ws))"
    "ws_currentGroup (open_chunk_group ws) = Some (length gs1)"
    "append_row (ws_chunkGroupRowLimit ws) gs row = gs1 @ [rows @ [row]]"
    "set rows \<subseteq> set (concat gs)" "length rows < ws_chunkGroupRowLimit ws"
    "gs1 = gs \<or> gs1 @ [rows] = gs" "gs1 = gs \<longrightarrow> gs = [] \<or> length (last gs) \<ge> ws_chunkGroupRowLimit ws"
proof -
  have r: "list_all2 (chunk_group_holds ws) gs (ws_chunkGroups ws)"
      "ws_currentGroup ws = (if gs = [] then None else Some (length gs - 1))" "0 < ws_chunkGroupRowLimit ws"
    using h by (simp_all add: ws_holds_def)
  have len: "length (ws_chunkGroups ws) = length gs" using list_all2_lengthD[OF r(1)] by simp
  have last: "cg_rowCount (ws_chunkGroups ws ! (length gs - 1)) = length (last gs)" if "gs \<noteq> []"
    using that list_all2_nthD[OF r(1), of "length gs - 1"] by (simp add: chunk_group_holds_def last_conv_nth)
  show thesis
  proof (cases "gs = [] \<or> length (last gs) \<ge> ws_chunkGroupRowLimit ws")
    case True
    then have "open_chunk_group ws = pgcolumnar_start_chunk_group ws"
      using r(2) last by (auto simp: open_chunk_group_def)
    then show thesis using True r(1,3) empty_group_holds[of ws]
      by (intro that[of gs "[]"]) (auto simp: pgcolumnar_start_chunk_group_def append_row_def len intro: list_all2_appendI)
  next
    case False
    then have "open_chunk_group ws = ws" "gs = butlast gs @ [last gs]" using r(2) last by (auto simp: open_chunk_group_def)
    moreover have "set (last gs) \<subseteq> set (concat gs)" using False by (auto intro!: bexI[of _ "last gs"])
    moreover have "butlast gs \<noteq> gs" using False by (metis append_butlast_last_id append_self_conv not_Cons_self2)
    ultimately show thesis using False r
      by (intro that[of "butlast gs" "last gs"]) (auto simp: append_row_def)
  qed
qed

lemma open_group_fields [simp]:
  "ws_cfg (open_chunk_group ws) = ws_cfg ws" "ws_tupdesc (open_chunk_group ws) = ws_tupdesc ws"
  "ws_colDefs (open_chunk_group ws) = ws_colDefs ws" "ws_stripeRowCount (open_chunk_group ws) = ws_stripeRowCount ws"
  "ws_stripeRowLimit (open_chunk_group ws) = ws_stripeRowLimit ws"
  "ws_chunkGroupRowLimit (open_chunk_group ws) = ws_chunkGroupRowLimit ws"
  "ws_haveReservation (open_chunk_group ws) = ws_haveReservation ws" "ws_stripeId (open_chunk_group ws) = ws_stripeId ws"
  "ws_stripeFirstRowNumber (open_chunk_group ws) = ws_stripeFirstRowNumber ws" "ws_relid (open_chunk_group ws) = ws_relid ws"
  "ws_subid (open_chunk_group ws) = ws_subid ws" "ws_flushedUnder (open_chunk_group ws) = ws_flushedUnder ws"
  "ws_storageId (open_chunk_group ws) = ws_storageId ws" "ws_memos (open_chunk_group ws) = ws_memos ws"
  "ws_eagerFlush (open_chunk_group ws) = ws_eagerFlush ws" "ws_sketchRegs (open_chunk_group ws) = ws_sketchRegs ws"
  by (simp_all add: open_chunk_group_def pgcolumnar_start_chunk_group_def split: option.split)

lemma reserve_stripe_fields:
  assumes "reserve_stripe ws rel = (ws1, rel1)"
  shows "ws_cfg ws1 = ws_cfg ws" "ws_tupdesc ws1 = ws_tupdesc ws" "ws_colDefs ws1 = ws_colDefs ws"
    "ws_chunkGroups ws1 = ws_chunkGroups ws" "ws_currentGroup ws1 = ws_currentGroup ws"
    "ws_stripeRowCount ws1 = ws_stripeRowCount ws" "ws_stripeRowLimit ws1 = ws_stripeRowLimit ws"
    "ws_chunkGroupRowLimit ws1 = ws_chunkGroupRowLimit ws" "ws_haveReservation ws1" "ws_relid ws1 = ws_relid ws"
    "ws_subid ws1 = ws_subid ws" "ws_flushedUnder ws1 = ws_flushedUnder ws" "ws_storageId ws1 = ws_storageId ws"
    "ws_memos ws1 = ws_memos ws" "ws_eagerFlush ws1 = ws_eagerFlush ws" "ws_sketchRegs ws1 = ws_sketchRegs ws"
  using assms by (auto simp: reserve_stripe_def split_beta Let_def split: if_splits)

lemma holds_reserved:
  assumes "reserve_stripe ws rel = (ws1, rel1)" "ws_holds ws gs"
  shows "ws_holds ws1 gs"
  using assms(2) reserve_stripe_fields[OF assms(1)]
  by (simp add: ws_holds_def chunk_group_holds_cong[OF reserve_stripe_fields(1-3)[OF assms(1)]])

text \<open>
  A row appended: the write state holds it in the group where it belongs, and the rest of
  \<open>PgColumnarWriteRow\<close> is the flush at the limit.
\<close>

definition row_appended :: "write_state \<Rightarrow> write_state \<Rightarrow> bool" where
  "row_appended ws ws' \<longleftrightarrow> ws_cfg ws' = ws_cfg ws \<and> ws_tupdesc ws' = ws_tupdesc ws \<and> ws_colDefs ws' = ws_colDefs ws \<and>
     ws_stripeRowLimit ws' = ws_stripeRowLimit ws \<and> ws_chunkGroupRowLimit ws' = ws_chunkGroupRowLimit ws \<and>
     ws_haveReservation ws' = ws_haveReservation ws \<and> ws_stripeId ws' = ws_stripeId ws \<and>
     ws_stripeFirstRowNumber ws' = ws_stripeFirstRowNumber ws \<and> ws_relid ws' = ws_relid ws \<and> ws_subid ws' = ws_subid ws \<and>
     ws_flushedUnder ws' = ws_flushedUnder ws \<and> ws_storageId ws' = ws_storageId ws \<and> ws_memos ws' = ws_memos ws \<and>
     ws_eagerFlush ws' = ws_eagerFlush ws \<and> ws_stripeRowCount ws' = ws_stripeRowCount ws + 1"

lemma write_row_holds:
  assumes cols: "ws_cols_ok ok D B ws" and rows: "ws_rows_ok ok D ws (concat gs @ [row])" and h: "ws_holds ws gs"
    and res: "reserve_stripe ws rel = (ws1, rel1)"
  obtains ws3 where "ws_holds ws3 (append_row (ws_chunkGroupRowLimit ws) gs row)" "row_appended ws1 ws3"
    "PgColumnarWriteRow F ws row rel =
       res_bind (if length (concat gs) + 1 \<ge> ws_stripeRowLimit ws then flush_row_group F ws3 False rel1 else Inr (ws3, rel1))
         (\<lambda>(ws4, rel2). Inr (ws_stripeFirstRowNumber ws1 + length (concat gs), ws4, rel2))"
proof -
  note f = reserve_stripe_fields[OF res]
  have h1: "ws_holds ws1 gs" by (rule holds_reserved[OF res h])
  define ws2 where "ws2 = open_chunk_group ws1"
  let ?lim = "ws_chunkGroupRowLimit ws"
  obtain gs1 rs where g: "list_all2 (chunk_group_holds ws1) (gs1 @ [rs]) (ws_chunkGroups ws2)"
      "ws_currentGroup ws2 = Some (length gs1)" "append_row ?lim gs row = gs1 @ [rs @ [row]]"
      "set rs \<subseteq> set (concat gs)" "length rs < ?lim"
      "gs1 = gs \<or> gs1 @ [rs] = gs" "gs1 = gs \<longrightarrow> gs = [] \<or> length (last gs) \<ge> ?lim"
    using open_group_holds[OF h1, of row] unfolding ws2_def f(8) by blast
  let ?grp = "ws_chunkGroups ws2 ! length gs1"
  have len: "length (ws_chunkGroups ws2) = length gs1 + 1" using list_all2_lengthD[OF g(1)] by simp
  have gh: "chunk_group_holds ws1 rs ?grp" using list_all2_nthD[OF g(1), of "length gs1"] by simp
  have c1: "ws_cols_ok ok D B ws1" using cols f(1-3) by (simp add: ws_cols_ok_def)
  have r1: "ws_rows_ok ok D ws1 (rs @ [row])"
    using rows g(4) f(1-3) by (fastforce simp: ws_rows_ok_def rows_ok_def present_values_def)
  obtain cs where cs: "write_columns ws1 row (cg_columns ?grp) = Inr cs"
      "chunk_group_holds ws1 (rs @ [row]) \<lparr>cg_rowCount = cg_rowCount ?grp + 1, cg_columns = cs\<rparr>"
    by (rule group_write[OF c1 r1 gh])
  let ?g' = "\<lparr>cg_rowCount = cg_rowCount ?grp + 1, cg_columns = cs\<rparr>"
  define ws3 where "ws3 = ws2\<lparr>ws_chunkGroups := (ws_chunkGroups ws2)[length gs1 := ?g'],
      ws_sketchRegs := note_sketches ws2 row, ws_stripeRowCount := ws_stripeRowCount ws2 + 1\<rparr>"
  have app: "row_appended ws1 ws3" by (simp add: row_appended_def ws3_def ws2_def)
  have c3: "chunk_group_holds ws3 = chunk_group_holds ws1" by (rule chunk_group_holds_cong) (simp_all add: ws3_def ws2_def)
  have "list_all2 (chunk_group_holds ws1) ((gs1 @ [rs])[length gs1 := rs @ [row]]) ((ws_chunkGroups ws2)[length gs1 := ?g'])"
    by (rule list_all2_update_cong[OF g(1) cs(2)])
  then have all: "list_all2 (chunk_group_holds ws3) (gs1 @ [rs @ [row]]) (ws_chunkGroups ws3)"
    unfolding c3 by (simp add: ws3_def)
  have cnt: "ws_stripeRowCount ws1 = length (concat gs)" using h1 by (simp add: ws_holds_def)
  have sizes: "gs ! k \<noteq> [] \<and> length (gs ! k) \<le> ?lim" "Suc k < length gs \<longrightarrow> length (gs ! k) = ?lim" if "k < length gs" for k
    using h that by (simp_all add: ws_holds_def)
  have sz: "(gs1 @ [rs @ [row]]) ! k \<noteq> [] \<and> length ((gs1 @ [rs @ [row]]) ! k) \<le> ?lim \<and>
      (Suc k < length gs1 + 1 \<longrightarrow> length ((gs1 @ [rs @ [row]]) ! k) = ?lim)" if k: "k < length gs1 + 1" for k
    using g(6)
  proof
    assume gs1: "gs1 = gs"
    have "Suc k = length gs \<Longrightarrow> length (gs ! k) = ?lim"
      using g(7) gs1 sizes(1)[of k] last_conv_nth[of gs] by (cases "gs = []") (auto dest!: sym[of "Suc k"])
    then show ?thesis
      using gs1 sizes[of k] g(5) k by (auto simp: nth_append less_Suc_eq)
  next
    assume gs1: "gs1 @ [rs] = gs"
    then have e: "gs ! k = gs1 ! k" if "k < length gs1" using that by (metis nth_append)
    show ?thesis
      using e gs1 sizes[of k] g(5) k by (auto simp: nth_append)
  qed
  have e: "concat (gs1 @ [rs @ [row]]) = concat gs @ [row]" using concat_append_row[of ?lim gs row] g(3) by simp
  have w3: "ws_stripeRowCount ws3 = length (concat (gs1 @ [rs @ [row]]))" "ws_currentGroup ws3 = Some (length gs1)"
      "ws_chunkGroupRowLimit ws3 = ?lim" "ws_haveReservation ws3"
    unfolding e using cnt f(8,9) g(2) by (simp_all add: ws3_def ws2_def)
  have "0 < ?lim" using h by (simp add: ws_holds_def)
  then have "ws_holds ws3 (append_row ?lim gs row)"
    unfolding ws_holds_def g(3) w3(1-3) using all sz w3(4) by simp
  moreover have "PgColumnarWriteRow F ws row rel =
       res_bind (if length (concat gs) + 1 \<ge> ws_stripeRowLimit ws then flush_row_group F ws3 False rel1 else Inr (ws3, rel1))
         (\<lambda>(ws4, rel2). Inr (ws_stripeFirstRowNumber ws1 + length (concat gs), ws4, rel2))"
  proof -
    have wc: "write_columns ws2 row (cg_columns ?grp) = Inr cs" using cs(1) by (simp add: write_columns_def ws2_def)
    have "ws_stripeRowCount ws2 = length (concat gs)" "ws_stripeRowLimit ws2 = ws_stripeRowLimit ws"
      using cnt f(6,7) by (simp_all add: ws2_def)
    then show ?thesis
      using wc cnt f(7) by (simp add: PgColumnarWriteRow_def res Let_def ws2_def[symmetric] g(2) ws3_def
          pgcolumnar_flush_row_group_def)
  qed
  ultimately show thesis using app that by blast
qed

subsection \<open>Fetching a buffered row\<close>

lemma present_take_Suc:
  assumes "i < length rows"
  shows "present_values V att (take (Suc i) rows) =
    present_values V att (take i rows) @ (case rows ! i of None \<Rightarrow> [] | Some v \<Rightarrow> [flat_datum V att v])"
  using assms by (simp add: take_Suc_conv_app_nth present_values_append) (simp add: present_values_def split: option.split)

lemma value_at_offset:
  assumes "i < length rows"
  shows "drop (value_offset V att rows i) (concat (map (value_bytes V att) (present_values V att rows))) =
    (case rows ! i of None \<Rightarrow> [] | Some v \<Rightarrow> value_bytes V att (flat_datum V att v)) @
    concat (map (value_bytes V att) (present_values V att (drop (Suc i) rows)))"
proof -
  have "rows = take (Suc i) rows @ drop (Suc i) rows" by simp
  then have "present_values V att rows = present_values V att (take (Suc i) rows) @ present_values V att (drop (Suc i) rows)"
    by (metis present_values_append)
  then show ?thesis unfolding present_take_Suc[OF assms] by (simp add: value_offset_def split: option.split)
qed

lemma offsets_from_rows:
  assumes V: "pg_datum_ok V ok" and rows: "rows_ok V ok att D rows" and k: "k \<le> length rows"
  shows "offsets_from V att (length (concat (map (value_bytes V att) (present_values V att rows))))
      (map (\<lambda>v. v \<noteq> None) (drop k rows)) (concat (map (value_bytes V att) (present_values V att (drop k rows)))) =
    Inr (map (\<lambda>i. of_nat (value_offset V att rows i)) [k..<length rows])"
  using k
proof (induction "length rows - k" arbitrary: k)
  case (Suc n)
  then have k: "k < length rows" by simp
  let ?s = "\<lambda>k. concat (map (value_bytes V att) (present_values V att (drop k rows)))"
  have d: "drop k rows = rows ! k # drop (Suc k) rows" using k by (rule Cons_nth_drop_Suc[symmetric])
  have "?s 0 = concat (map (value_bytes V att) (present_values V att (take k rows))) @ ?s k"
    by (metis append_take_drop_id concat_append drop_0 map_append present_values_append)
  then have off: "length (?s 0) - length (?s k) = value_offset V att rows k" by (simp add: value_offset_def)
  have step: "(if rows ! k \<noteq> None then res_bind (PgColumnarDecodeValue V att (?s k)) (\<lambda>(d, p'). Inr p') else Inr (?s k)) =
      Inr (?s (Suc k))"
  proof (cases "rows ! k")
    case (Some v)
    have "rows ! k \<in> set rows" using k by simp
    then have "datum_fits ok att (flat_datum V att v)" using rows Some by (force simp: rows_ok_def present_values_def)
    then show ?thesis using decode_value_bytes[OF V] Some by (simp add: d present_values_def)
  qed (simp add: d present_values_def)
  have IH: "offsets_from V att (length (?s 0)) (map (\<lambda>v. v \<noteq> None) (drop (Suc k) rows)) (?s (Suc k)) =
      Inr (map (\<lambda>i. of_nat (value_offset V att rows i)) [Suc k..<length rows])"
    using Suc.hyps(1)[of "Suc k"] Suc.hyps(2) k by simp
  have "map (\<lambda>v. v \<noteq> None) (drop k rows) = (rows ! k \<noteq> None) # map (\<lambda>v. v \<noteq> None) (drop (Suc k) rows)" by (simp add: d)
  then have "offsets_from V att (length (?s 0)) (map (\<lambda>v. v \<noteq> None) (drop k rows)) (?s k) =
      Inr (of_nat (length (?s 0) - length (?s k)) # map (\<lambda>i. of_nat (value_offset V att rows i)) [Suc k..<length rows])"
    by (simp only: offsets_from.simps step res_bind_simps IH)
  then show ?case using off k by (simp add: upt_conv_Cons[of k])
qed simp

lemma build_offsets_rows:
  assumes c: "col_ok V ok att def D B" and rows: "rows_ok V ok att D rows" and b: "buffer_rows V att def rows col"
  obtains col' where "buffered_build_offsets V att (length rows) col = Inr col'" "buffer_rows V att def rows col'"
    "valOffsets col' \<noteq> None"
proof -
  let ?os = "map (\<lambda>i. of_nat (value_offset V att rows i)) [0..<length rows] :: u32 list"
  have "buffered_build_offsets V att (length rows) col = Inr (col\<lparr>valOffsets := Some ?os\<rparr>)"
    using offsets_from_rows[OF col_okD(1)[OF c] rows, of 0] buffer_rows_of[OF c rows b]
    by (simp add: buffered_build_offsets_def)
  moreover have "buffer_rows V att def rows (col\<lparr>valOffsets := Some ?os\<rparr>)" using b by (simp add: buffer_rows_def)
  ultimately show thesis using that by simp
qed

definition flat_value :: "pg_datum \<Rightarrow> attr \<Rightarrow> datum option \<Rightarrow> datum option" where
  "flat_value V att v = map_option (flat_datum V att) v"

text \<open>The streams of a chunk group stay within the 32 bits of a value offset.\<close>

definition offsets_fit :: "pg_datum \<Rightarrow> attr \<Rightarrow> datum option list \<Rightarrow> bool" where
  "offsets_fit V att rows \<longleftrightarrow> length (concat (map (value_bytes V att) (present_values V att rows))) < 2 ^ 32"

lemma value_offset_bound: "value_offset V att rows i \<le> length (concat (map (value_bytes V att) (present_values V att rows)))"
proof -
  have "concat (map (value_bytes V att) (present_values V att rows)) =
      concat (map (value_bytes V att) (present_values V att (take i rows))) @
      concat (map (value_bytes V att) (present_values V att (drop i rows)))"
    by (metis append_take_drop_id concat_append map_append present_values_append)
  then show ?thesis by (simp add: value_offset_def)
qed

lemma fetch_column_rows:
  assumes c: "col_ok V ok att def D B" and rows: "rows_ok V ok att D rows" and b: "buffer_rows V att def rows col"
    and fit: "offsets_fit V att rows" and i: "i < length rows"
  obtains col' where "buffered_fetch_column V att (length rows) i col = Inr (flat_value V att (rows ! i), col')"
    "buffer_rows V att def rows col'"
proof -
  obtain col' where col': "(case valOffsets col of
          None \<Rightarrow> buffered_build_offsets V att (length rows) col
        | Some os \<Rightarrow> if length os < length rows then buffered_build_offsets V att (length rows) col else Inr col) = Inr col'"
      "buffer_rows V att def rows col'" "valOffsets col' \<noteq> None"
  proof (cases "valOffsets col")
    case None
    show thesis by (rule build_offsets_rows[OF c rows b]) (rule that, simp_all add: None)
  next
    case (Some os)
    then have "length os = length rows" using b by (simp add: buffer_rows_def)
    then show thesis using that[of col] Some b by simp
  qed
  have os: "the (valOffsets col') = map (\<lambda>i. of_nat (value_offset V att rows i)) [0..<length rows]"
    using col'(2,3) by (auto simp: buffer_rows_def)
  have "value_offset V att rows i < 2 ^ 32" using value_offset_bound[of V att rows i] fit by (simp add: offsets_fit_def)
  then have "unat (the (valOffsets col') ! i) = value_offset V att rows i"
    using i by (simp add: os unat_of_nat take_bit_nat_eq_self)
  then have cur: "drop (unat (the (valOffsets col') ! i)) (valueStream col') =
      (case rows ! i of None \<Rightarrow> [] | Some v \<Rightarrow> value_bytes V att (flat_datum V att v)) @
      concat (map (value_bytes V att) (present_values V att (drop (Suc i) rows)))"
    using value_at_offset[OF i] buffer_rows_of(1)[OF c rows col'(2)] by simp
  have ex: "existsStream col' ! i \<longleftrightarrow> rows ! i \<noteq> None" using buffer_rows_of(2)[OF c rows col'(2)] i by simp
  show thesis
  proof (cases "rows ! i")
    case None
    then show thesis using that[of col'] col' ex by (simp add: buffered_fetch_column_def Let_def flat_value_def)
  next
    case (Some v)
    have "rows ! i \<in> set rows" using i by simp
    then have v: "flat_datum V att v \<in> D" "datum_fits ok att (flat_datum V att v)"
      using rows Some by (force simp: rows_ok_def present_values_def)+
    then have "stored_datum V att (flat_datum V att v) = flat_datum V att v" using col_okD(3)[OF c] by (simp add: store_ok_def)
    then show thesis
      using that[of col'] col' ex Some cur decode_value_bytes[OF col_okD(1)[OF c] v(2)]
      by (simp add: buffered_fetch_column_def Let_def flat_value_def)
  qed
qed

lemma locate_row_found:
  assumes "acc \<le> offset" "offset < acc + sum_list (map cg_rowCount grps)"
  obtains k pos where "locate_row offset acc g grps = Some (g + k, pos)" "k < length grps"
    "pos < cg_rowCount (grps ! k)" "offset = acc + sum_list (map cg_rowCount (take k grps)) + pos"
  using assms
proof (induction grps arbitrary: acc g thesis)
  case (Cons grp grps)
  show ?case
  proof (cases "offset \<ge> acc + cg_rowCount grp")
    case True
    have b: "acc + cg_rowCount grp \<le> offset" "offset < acc + cg_rowCount grp + sum_list (map cg_rowCount grps)"
      using True Cons.prems(3) by simp_all
    show ?thesis
    proof (rule Cons.IH[OF _ b, of "g + 1"])
      fix k pos assume "locate_row offset (acc + cg_rowCount grp) (g + 1) grps = Some (g + 1 + k, pos)" "k < length grps"
        "pos < cg_rowCount (grps ! k)" "offset = acc + cg_rowCount grp + sum_list (map cg_rowCount (take k grps)) + pos"
      then show ?thesis using True by (intro Cons.prems(1)[of "Suc k" pos]) simp_all
    qed
  next
    case False
    then show ?thesis using Cons.prems by (intro Cons.prems(1)[of 0 "offset - acc"]) simp_all
  qed
qed simp

lemma concat_nth_take:
  "k < length xss \<Longrightarrow> pos < length (xss ! k) \<Longrightarrow>
   concat xss ! (sum_list (map length (take k xss)) + pos) = xss ! k ! pos"
proof (induction xss arbitrary: k)
  case (Cons xs xss)
  then show ?case by (cases k) (simp_all add: nth_append)
qed simp

lemma holds_row_counts:
  assumes "list_all2 (chunk_group_holds ws) gs grps"
  shows "map cg_rowCount grps = map length gs"
  using assms by (induction rule: list_all2_induct) (auto simp: chunk_group_holds_def)

definition flat_row :: "write_state \<Rightarrow> datum option list \<Rightarrow> datum option list" where
  "flat_row ws row = map (\<lambda>c. flat_value (ws_pg ws) (wc_att (ws_tupdesc ws ! c)) (row ! c)) [0..<ws_natts ws]"

definition ws_offsets_fit :: "write_state \<Rightarrow> datum option list list list \<Rightarrow> bool" where
  "ws_offsets_fit ws gs \<longleftrightarrow> (\<forall>rows \<in> set gs. \<forall>c < ws_natts ws.
     offsets_fit (ws_pg ws) (wc_att (ws_tupdesc ws ! c)) (map (\<lambda>r. r ! c) rows))"

text \<open>The columns of one group give the row at a position, and keep what they hold.\<close>

lemma fetch_group:
  assumes cols: "ws_cols_ok ok D B ws" and rows: "ws_rows_ok ok D ws rows" and g: "chunk_group_holds ws rows grp"
    and fit: "ws_offsets_fit ws [rows]" and pos: "pos < length rows"
  obtains fs where "res_map (\<lambda>c. buffered_fetch_column (ws_pg ws) (wc_att (ws_tupdesc ws ! c)) (cg_rowCount grp) pos
      (cg_columns grp ! c)) [0..<ws_natts ws] = Inr fs"
    "map fst fs = flat_row ws (rows ! pos)" "chunk_group_holds ws rows (grp\<lparr>cg_columns := map snd fs\<rparr>)"
proof -
  let ?f = "\<lambda>c. buffered_fetch_column (ws_pg ws) (wc_att (ws_tupdesc ws ! c)) (cg_rowCount grp) pos (cg_columns grp ! c)"
  let ?v = "\<lambda>c. flat_value (ws_pg ws) (wc_att (ws_tupdesc ws ! c)) (rows ! pos ! c)"
  let ?b = "\<lambda>c. buffer_rows (ws_pg ws) (wc_att (ws_tupdesc ws ! c)) (ws_colDefs ws ! c) (map (\<lambda>r. r ! c) rows)"
  have "\<forall>c. \<exists>col. c < ws_natts ws \<longrightarrow> ?f c = Inr (?v c, col) \<and> ?b c col"
  proof
    fix c show "\<exists>col. c < ws_natts ws \<longrightarrow> ?f c = Inr (?v c, col) \<and> ?b c col"
    proof (cases "c < ws_natts ws")
      case True
      then have c: "col_ok (ws_pg ws) ok (wc_att (ws_tupdesc ws ! c)) (ws_colDefs ws ! c) (D c) (B c)"
          "rows_ok (ws_pg ws) ok (wc_att (ws_tupdesc ws ! c)) (D c) (map (\<lambda>r. r ! c) rows)"
          "?b c (cg_columns grp ! c)" "offsets_fit (ws_pg ws) (wc_att (ws_tupdesc ws ! c)) (map (\<lambda>r. r ! c) rows)"
          "pos < length (map (\<lambda>r. r ! c) rows)"
        using cols rows g fit pos by (simp_all add: ws_cols_ok_def ws_rows_ok_def chunk_group_holds_def ws_offsets_fit_def)
      show ?thesis by (rule fetch_column_rows[OF c]) (use g pos in \<open>auto simp: chunk_group_holds_def\<close>)
    qed simp
  qed
  then obtain h where h: "\<forall>c. c < ws_natts ws \<longrightarrow> ?f c = Inr (?v c, h c) \<and> ?b c (h c)" by (rule exE[OF choice])
  let ?fs = "map (\<lambda>c. (?v c, h c)) [0..<ws_natts ws]"
  have "res_map ?f [0..<ws_natts ws] = Inr ?fs" by (rule res_map_all) (use h in simp)
  moreover have "map fst ?fs = flat_row ws (rows ! pos)" by (simp add: flat_row_def)
  moreover have "chunk_group_holds ws rows (grp\<lparr>cg_columns := map snd ?fs\<rparr>)" using h g by (simp add: chunk_group_holds_def)
  ultimately show thesis by (rule that)
qed

lemma buffered_row_holds:
  assumes cols: "ws_cols_ok ok D B ws" and rows: "ws_rows_ok ok D ws (concat gs)" and h: "ws_holds ws gs"
    and fit: "ws_offsets_fit ws gs" and i: "i < length (concat gs)"
  obtains ws' where "buffered_row (ws_stripeFirstRowNumber ws + i) ws = Inr (Some (flat_row ws (concat gs ! i)), ws')"
    "ws_holds ws' gs" "ws' = ws\<lparr>ws_chunkGroups := ws_chunkGroups ws'\<rparr>"
proof -
  have r: "list_all2 (chunk_group_holds ws) gs (ws_chunkGroups ws)" "ws_stripeRowCount ws = length (concat gs)"
      "ws_haveReservation ws" using h i by (auto simp: ws_holds_def)
  have cnt: "map cg_rowCount (ws_chunkGroups ws) = map length gs" by (rule holds_row_counts[OF r(1)])
  have len: "length (ws_chunkGroups ws) = length gs" using list_all2_lengthD[OF r(1)] by simp
  obtain k pos where kp: "locate_row i 0 0 (ws_chunkGroups ws) = Some (k, pos)" "k < length gs" "pos < cg_rowCount (ws_chunkGroups ws ! k)"
      "i = sum_list (map cg_rowCount (take k (ws_chunkGroups ws))) + pos"
    using locate_row_found[of 0 i "ws_chunkGroups ws" 0] i cnt len by (auto simp: length_concat)
  let ?grp = "ws_chunkGroups ws ! k"
  have g: "chunk_group_holds ws (gs ! k) ?grp" using list_all2_nthD[OF r(1) kp(2)] .
  then have pos: "pos < length (gs ! k)" using kp(3) by (simp add: chunk_group_holds_def)
  have "i = sum_list (map length (take k gs)) + pos" using kp(4) cnt by (metis take_map)
  then have row: "concat gs ! i = gs ! k ! pos" using concat_nth_take[OF kp(2) pos] by simp
  have "set (gs ! k) \<subseteq> set (concat gs)" using kp(2) nth_mem by fastforce
  then have rk: "ws_rows_ok ok D ws (gs ! k)" using rows by (fastforce simp: ws_rows_ok_def rows_ok_def present_values_def)
  have fk: "ws_offsets_fit ws [gs ! k]" using fit kp(2) by (simp add: ws_offsets_fit_def)
  obtain fs where fs: "res_map (\<lambda>c. buffered_fetch_column (ws_pg ws) (wc_att (ws_tupdesc ws ! c)) (cg_rowCount ?grp) pos
      (cg_columns ?grp ! c)) [0..<ws_natts ws] = Inr fs"
      "map fst fs = flat_row ws (gs ! k ! pos)" "chunk_group_holds ws (gs ! k) (?grp\<lparr>cg_columns := map snd fs\<rparr>)"
    by (rule fetch_group[OF cols rk g fk pos])
  define ws' where "ws' = ws\<lparr>ws_chunkGroups := (ws_chunkGroups ws)[k := ?grp\<lparr>cg_columns := map snd fs\<rparr>]\<rparr>"
  have "list_all2 (chunk_group_holds ws) (gs[k := gs ! k]) ((ws_chunkGroups ws)[k := ?grp\<lparr>cg_columns := map snd fs\<rparr>])"
    by (rule list_all2_update_cong[OF r(1) fs(3)])
  moreover have "chunk_group_holds ws' = chunk_group_holds ws" by (rule chunk_group_holds_cong) (simp_all add: ws'_def)
  ultimately have "list_all2 (chunk_group_holds ws') gs (ws_chunkGroups ws')" by (simp add: ws'_def)
  then have "ws_holds ws' gs" using h by (simp add: ws_holds_def ws'_def)
  moreover have "buffered_row (ws_stripeFirstRowNumber ws + i) ws = Inr (Some (flat_row ws (concat gs ! i)), ws')"
    using r i kp(1) fs(1,2) row by (simp add: buffered_row_def Let_def ws'_def)
  ultimately show thesis using that[of ws'] by (simp add: ws'_def)
qed

subsection \<open>The catalog rows of a flush\<close>

lemma catalog_inserts_ok:
  assumes "distinct (map key rs)" "key ` set rs \<inter> key ` set rows = {}"
  shows "catalog_inserts key rs rows = Inr (rows @ rs)"
  using assms by (induction rs arbitrary: rows) (auto simp: catalog_insert_def)

lemma catalog_inserts_result:
  "catalog_inserts key rs rows = Inr rows' \<Longrightarrow> rows' = rows @ rs"
  by (induction rs arbitrary: rows) (fastforce simp: catalog_insert_def res_bind_Inr split: if_splits)+

lemma distinct_indexed:
  fixes f :: "nat \<Rightarrow> 'a list" and key :: "'a \<Rightarrow> 'k" and idx :: "'k \<Rightarrow> nat"
  assumes "\<And>c. c < n \<Longrightarrow> distinct (map key (f c))" "\<And>c x. c < n \<Longrightarrow> x \<in> set (f c) \<Longrightarrow> idx (key x) = c"
  shows "distinct (map key (concat (map f [0..<n])))"
  using assms
proof (induction n)
  case (Suc n)
  have "distinct (map key (concat (map f [0..<n])))" using Suc.prems by (intro Suc.IH) auto
  moreover have "set (map key (concat (map f [0..<n]))) \<inter> set (map key (f n)) = {}"
  proof (intro equals0I)
    fix k assume "k \<in> set (map key (concat (map f [0..<n]))) \<inter> set (map key (f n))"
    then obtain c x y where "c < n" "x \<in> set (f c)" "y \<in> set (f n)" "k = key x" "k = key y" by auto
    then show False using Suc.prems(2)[of c x] Suc.prems(2)[of n y] by simp
  qed
  ultimately show ?case using Suc.prems(1)[of n] by simp
qed simp

lemma chunk_rows_distinct: "distinct (map chunk_key (chunk_rows ws off rs))"
  unfolding chunk_rows_def
  by (rule distinct_indexed[where idx = "\<lambda>k. snd (snd k)"]) (auto simp: chunk_key_def split: option.splits)

lemma entry_rows_distinct:
  assumes "\<And>c res. c < length rs \<Longrightarrow> rs ! c = Some res \<Longrightarrow> distinct (map h (f res))"
  shows "distinct (map (\<lambda>e. (entry_key e, h (ge_row e))) (entry_rows ws f rs))"
  unfolding entry_rows_def
  by (rule distinct_indexed[where idx = "\<lambda>k. snd (snd (fst k))"])
     (use assms in \<open>auto simp: entry_key_def comp_def distinct_map inj_on_def split: option.splits\<close>)

lemma sketch_rows_distinct: "distinct (map entry_key (sketch_rows ws))"
proof (cases "ws_sketchRegs ws")
  case (Some rr)
  show ?thesis unfolding sketch_rows_def Some option.case
    by (rule distinct_indexed[where idx = "\<lambda>k. snd (snd k)"]) (auto simp: entry_key_def split: option.splits)
qed (simp add: sketch_rows_def)

text \<open>No catalog row of this storage carries the group number.\<close>

definition group_number_fresh :: "nat \<Rightarrow> nat \<Rightarrow> rel_state \<Rightarrow> bool" where
  "group_number_fresh sid gn rel \<longleftrightarrow>
     (\<forall>g \<in> set (rs_groups (rel_file rel)). group_key g \<noteq> (sid, gn)) \<and>
     (\<forall>cc \<in> set (rel_chunks rel). (cc_storageId cc, cc_groupNumber cc) \<noteq> (sid, gn)) \<and>
     (\<forall>e \<in> set (rel_zones rel). (ge_storageId e, ge_groupNumber e) \<noteq> (sid, gn)) \<and>
     (\<forall>e \<in> set (rel_blooms rel). (ge_storageId e, ge_groupNumber e) \<noteq> (sid, gn)) \<and>
     (\<forall>e \<in> set (rel_sketches rel). (ge_storageId e, ge_groupNumber e) \<noteq> (sid, gn))"

lemma group_rows_keys:
  "cc \<in> set (chunk_rows ws off rs) \<Longrightarrow> cc_storageId cc = ws_storageId ws \<and> cc_groupNumber cc = ws_stripeId ws"
  "e \<in> set (entry_rows ws f rs) \<Longrightarrow> ge_storageId e = ws_storageId ws \<and> ge_groupNumber e = ws_stripeId ws"
  "e' \<in> set (sketch_rows ws) \<Longrightarrow> ge_storageId e' = ws_storageId ws \<and> ge_groupNumber e' = ws_stripeId ws"
  by (auto simp: chunk_rows_def entry_rows_def sketch_rows_def split: option.splits)

text \<open>The rows a flush adds, given the columns' results and the file offset.\<close>

definition flush_adds ::
  "write_state \<Rightarrow> flush_result option list \<Rightarrow> row_group \<Rightarrow> reclaim_state \<Rightarrow> rel_state \<Rightarrow> rel_state \<Rightarrow> bool" where
  "flush_adds ws rs g file rel rel' \<longleftrightarrow>
     rel_file rel' = file \<and> rel_chunks rel' = rel_chunks rel @ chunk_rows ws (rg_fileOffset g) rs \<and>
     rel_zones rel' = rel_zones rel @ entry_rows ws fres_zoneRows rs \<and>
     rel_blooms rel' = rel_blooms rel @
       entry_rows ws (\<lambda>res. case fres_bloom res of None \<Rightarrow> [] | Some b \<Rightarrow> [b]) rs \<and>
     rel_sketches rel' = rel_sketches rel @ sketch_rows ws \<and> rel_deletes rel' = rel_deletes rel"

definition group_row :: "write_state \<Rightarrow> row_group" where
  "group_row ws = \<lparr>rg_storageId = ws_storageId ws, rg_groupNumber = ws_stripeId ws, rg_fileOffset = 0,
     rg_rowCount = ws_stripeRowCount ws, rg_byteLength = 0, rg_firstRowNumber = ws_stripeFirstRowNumber ws\<rparr>"

abbreviation group_data :: "(flush_result option \<times> fsst_memo) list \<Rightarrow> byte list" where
  "group_data crs \<equiv> concat (map chunk_bytes (map fst crs))"

text \<open>What a successful flush of a nonempty stripe did.\<close>

lemma flush_row_group_cases:
  assumes "flush_row_group F ws keep rel = Inr (ws', rel')" "ws_stripeRowCount ws \<noteq> 0"
  obtains crs base g rf where "flush_columns ws = Inr crs" "PgColumnarStorageId (rs_fork (rel_file rel)) = Inr base"
    "place_row_group (fe_bpp F) (fe_coalesce F) (fe_precedes F) (fe_oldestXmin F) (fe_mayReuse F) base (group_row ws)
       (group_data crs) (rel_file rel) = Inr (g, rf)"
    "group_key g \<notin> group_key ` set (rs_groups (rel_file rel))"
    "flush_adds ws (map fst crs) g rf rel rel'"
    "ws' = (if keep then ws\<lparr>ws_memos := map snd crs\<rparr> else reset_stripe (ws\<lparr>ws_memos := map snd crs\<rparr>))"
proof -
  obtain crs base where b: "flush_columns ws = Inr crs" "PgColumnarStorageId (rs_fork (rel_file rel)) = Inr base"
    using assms by (auto simp: flush_row_group_def res_bind_Inr Let_def)
  obtain g rf where p: "place_row_group (fe_bpp F) (fe_coalesce F) (fe_precedes F) (fe_oldestXmin F) (fe_mayReuse F) base
       (group_row ws) (group_data crs) (rel_file rel) = Inr (g, rf)"
    using assms b by (auto simp: flush_row_group_def res_bind_Inr Let_def group_row_def)
  have k: "group_key g \<notin> group_key ` set (rs_groups (rel_file rel))"
    using assms b p by (auto simp: flush_row_group_def Let_def group_row_def split: if_splits)
  let ?ch = "catalog_inserts chunk_key (chunk_rows ws (rg_fileOffset g) (map fst crs)) (rel_chunks rel)"
  have e: "flush_row_group F ws keep rel =
      res_bind ?ch (\<lambda>chunks.
      res_bind (catalog_inserts zone_key (entry_rows ws fres_zoneRows (map fst crs)) (rel_zones rel)) (\<lambda>zones.
      res_bind (catalog_inserts entry_key
          (entry_rows ws (\<lambda>res. case fres_bloom res of None \<Rightarrow> [] | Some b \<Rightarrow> [b]) (map fst crs)) (rel_blooms rel)) (\<lambda>blooms.
      res_bind (catalog_inserts entry_key (sketch_rows ws) (rel_sketches rel)) (\<lambda>sketches.
        Inr (if keep then ws\<lparr>ws_memos := map snd crs\<rparr> else reset_stripe (ws\<lparr>ws_memos := map snd crs\<rparr>),
             rel\<lparr>rel_file := rf,
                 rel_storage := PgColumnarInsertNativeStorageRow (storage_row ws) (rel_storage rel),
                 rel_chunks := chunks, rel_zones := zones, rel_blooms := blooms, rel_sketches := sketches,
                 rel_invalidations := rel_invalidations rel +
                   (if outside_sorted_run (ws_stripeId ws) (PgColumnarGetSortedInfo (ws_storageId ws)
                        (PgColumnarInsertNativeStorageRow (storage_row ws) (rel_storage rel))) then 1 else 0)\<rparr>)))))"
    using assms(2) b p k by (simp add: flush_row_group_def Let_def group_row_def)
  show thesis
    by (rule that[OF b p k]) (use assms(1) in \<open>auto simp: e res_bind_Inr flush_adds_def dest!: catalog_inserts_result\<close>)
qed

subsection \<open>Runs of a write buffer\<close>

text \<open>
  A \<open>StringInfo\<close> refuses to grow to \<open>MaxAllocSize\<close> bytes, so every stream of a write state that
  a write returned is shorter.
\<close>

definition streams_fit :: "write_state \<Rightarrow> bool" where
  "streams_fit ws \<longleftrightarrow> (\<forall>grp \<in> set (ws_chunkGroups ws). \<forall>col \<in> set (cg_columns grp). length (valueStream col) < MaxAllocSize)"

text \<open>
  The histories of one write state: rows appended, with the numbers they got, and buffered
  fetches of any row number in between. A write that reaches the stripe limit empties the
  buffer.
\<close>

inductive buffer_run ::
  "flush_env \<Rightarrow> (u64 \<Rightarrow> nat \<Rightarrow> bool) \<Rightarrow> (nat \<Rightarrow> datum set) \<Rightarrow> (nat \<Rightarrow> datum set) \<Rightarrow>
   (nat \<times> datum option list) list \<Rightarrow> write_state \<Rightarrow> rel_state \<Rightarrow> bool"
  for F ok D B where
  start: "ws_cols_ok ok D B ws \<Longrightarrow> ws_holds ws [] \<Longrightarrow> buffer_run F ok D B [] ws rel"
| add_row: "buffer_run F ok D B rows ws rel \<Longrightarrow> ws_rows_ok ok D ws [row] \<Longrightarrow>
    PgColumnarWriteRow F ws row rel = Inr (n, ws', rel') \<Longrightarrow> streams_fit ws' \<Longrightarrow>
    length rows + 1 < ws_stripeRowLimit ws \<Longrightarrow> buffer_run F ok D B (rows @ [(n, row)]) ws' rel'"
| add_row_full: "buffer_run F ok D B rows ws rel \<Longrightarrow> ws_rows_ok ok D ws [row] \<Longrightarrow>
    PgColumnarWriteRow F ws row rel = Inr (n, ws', rel') \<Longrightarrow>
    length rows + 1 \<ge> ws_stripeRowLimit ws \<Longrightarrow> buffer_run F ok D B [] ws' rel'"
| fetch: "buffer_run F ok D B rows ws rel \<Longrightarrow> buffered_row n ws = Inr (r, ws') \<Longrightarrow> buffer_run F ok D B rows ws' rel"

definition buffer_inv ::
  "(u64 \<Rightarrow> nat \<Rightarrow> bool) \<Rightarrow> (nat \<Rightarrow> datum set) \<Rightarrow> (nat \<Rightarrow> datum set) \<Rightarrow>
   (nat \<times> datum option list) list \<Rightarrow> write_state \<Rightarrow> bool" where
  "buffer_inv ok D B rows ws \<longleftrightarrow> ws_cols_ok ok D B ws \<and> ws_rows_ok ok D ws (map snd rows) \<and>
     (\<exists>gs. ws_holds ws gs \<and> concat gs = map snd rows \<and> ws_offsets_fit ws gs) \<and>
     map fst rows = [ws_stripeFirstRowNumber ws..<ws_stripeFirstRowNumber ws + length rows]"

lemma rows_ok_append: "rows_ok V ok att D (xs @ ys) \<longleftrightarrow> rows_ok V ok att D xs \<and> rows_ok V ok att D ys"
  by (auto simp: rows_ok_def present_values_append)

lemma ws_rows_ok_append: "ws_rows_ok ok D ws (xs @ ys) \<longleftrightarrow> ws_rows_ok ok D ws xs \<and> ws_rows_ok ok D ws ys"
  by (auto simp: ws_rows_ok_def rows_ok_append)

lemma streams_offsets_fit:
  assumes cols: "ws_cols_ok ok D B ws" and rows: "ws_rows_ok ok D ws (concat gs)" and h: "ws_holds ws gs" and s: "streams_fit ws"
  shows "ws_offsets_fit ws gs"
  unfolding ws_offsets_fit_def
proof (intro ballI allI impI)
  fix rs c assume "rs \<in> set gs" and c: "c < ws_natts ws"
  then obtain k where k: "k < length gs" "rs = gs ! k" by (auto simp: in_set_conv_nth)
  have l: "list_all2 (chunk_group_holds ws) gs (ws_chunkGroups ws)" using h by (simp add: ws_holds_def)
  let ?grp = "ws_chunkGroups ws ! k"
  have g: "chunk_group_holds ws rs ?grp" using list_all2_nthD[OF l k(1)] k(2) by simp
  then have b: "buffer_rows (ws_pg ws) (wc_att (ws_tupdesc ws ! c)) (ws_colDefs ws ! c) (map (\<lambda>r. r ! c) rs) (cg_columns ?grp ! c)"
      "cg_columns ?grp ! c \<in> set (cg_columns ?grp)" using c by (simp_all add: chunk_group_holds_def)
  have "set rs \<subseteq> set (concat gs)" using \<open>rs \<in> set gs\<close> by auto
  then have r: "rows_ok (ws_pg ws) ok (wc_att (ws_tupdesc ws ! c)) (D c) (map (\<lambda>r. r ! c) rs)"
    using rows c by (fastforce simp: ws_rows_ok_def rows_ok_def present_values_def)
  have "?grp \<in> set (ws_chunkGroups ws)" using k list_all2_lengthD[OF l] by simp
  then have "length (valueStream (cg_columns ?grp ! c)) < MaxAllocSize" using s b(2) unfolding streams_fit_def by blast
  then show "offsets_fit (ws_pg ws) (wc_att (ws_tupdesc ws ! c)) (map (\<lambda>r. r ! c) rs)"
    using buffer_rows_of(1)[OF _ r b(1)] cols c
    by (force simp: ws_cols_ok_def offsets_fit_def MaxAllocSize_def)
qed

lemma reset_holds: "ws_holds ws gs \<Longrightarrow> ws_holds (reset_stripe (ws\<lparr>ws_memos := m\<rparr>)) []"
  by (simp add: ws_holds_def reset_stripe_def)

lemma reset_fields [simp]:
  "ws_cfg (reset_stripe ws) = ws_cfg ws" "ws_tupdesc (reset_stripe ws) = ws_tupdesc ws"
  "ws_colDefs (reset_stripe ws) = ws_colDefs ws" "ws_stripeRowLimit (reset_stripe ws) = ws_stripeRowLimit ws"
  "ws_relid (reset_stripe ws) = ws_relid ws" "ws_subid (reset_stripe ws) = ws_subid ws"
  "ws_flushedUnder (reset_stripe ws) = ws_flushedUnder ws" "ws_eagerFlush (reset_stripe ws) = ws_eagerFlush ws"
  "ws_storageId (reset_stripe ws) = ws_storageId ws" "ws_stripeRowCount (reset_stripe ws) = 0"
  "ws_chunkGroups (reset_stripe ws) = []" "\<not> ws_haveReservation (reset_stripe ws)"
  by (simp_all add: reset_stripe_def)

lemma ws_ok_cong:
  assumes "ws_cfg ws' = ws_cfg ws" "ws_tupdesc ws' = ws_tupdesc ws" "ws_colDefs ws' = ws_colDefs ws"
  shows "ws_cols_ok ok D B ws' = ws_cols_ok ok D B ws" "ws_rows_ok ok D ws' = ws_rows_ok ok D ws"
    "ws_offsets_fit ws' = ws_offsets_fit ws" "flat_row ws' = flat_row ws"
  using assms by (auto simp: ws_cols_ok_def ws_rows_ok_def ws_offsets_fit_def flat_row_def)

lemma buffer_inv_write:
  assumes inv: "buffer_inv ok D B rows ws" and row: "ws_rows_ok ok D ws [row]"
    and w: "PgColumnarWriteRow F ws row rel = Inr (n, ws', rel')"
  shows "length rows + 1 < ws_stripeRowLimit ws \<Longrightarrow> streams_fit ws' \<Longrightarrow> buffer_inv ok D B (rows @ [(n, row)]) ws'"
    and "length rows + 1 \<ge> ws_stripeRowLimit ws \<Longrightarrow> buffer_inv ok D B [] ws'"
proof -
  obtain gs where gs: "ws_holds ws gs" "concat gs = map snd rows" using inv by (auto simp: buffer_inv_def)
  have i: "ws_cols_ok ok D B ws" "ws_rows_ok ok D ws (concat gs @ [row])"
    using inv row gs(2) by (simp_all add: buffer_inv_def ws_rows_ok_append)
  obtain ws1 rel1 where res: "reserve_stripe ws rel = (ws1, rel1)" by fastforce
  obtain ws3 where ws3: "ws_holds ws3 (append_row (ws_chunkGroupRowLimit ws) gs row)" "row_appended ws1 ws3"
      "PgColumnarWriteRow F ws row rel =
       res_bind (if length (concat gs) + 1 \<ge> ws_stripeRowLimit ws then flush_row_group F ws3 False rel1 else Inr (ws3, rel1))
         (\<lambda>(ws4, rel2). Inr (ws_stripeFirstRowNumber ws1 + length (concat gs), ws4, rel2))"
    by (rule write_row_holds[OF i gs(1) res])
  have len: "length (concat gs) = length rows" using gs(2) by simp
  have f: "ws_cfg ws3 = ws_cfg ws" "ws_tupdesc ws3 = ws_tupdesc ws" "ws_colDefs ws3 = ws_colDefs ws"
      "ws_stripeFirstRowNumber ws3 = ws_stripeFirstRowNumber ws1"
    using ws3(2) reserve_stripe_fields(1-3)[OF res] by (simp_all add: row_appended_def)
  note ok3 = ws_ok_cong[OF f(1-3)]
  have c3: "ws_cols_ok ok D B ws3" "ws_rows_ok ok D ws3 (concat (append_row (ws_chunkGroupRowLimit ws) gs row))"
    using i by (simp_all add: ok3 concat_append_row)
  show "buffer_inv ok D B (rows @ [(n, row)]) ws'" if lt: "length rows + 1 < ws_stripeRowLimit ws" and fit: "streams_fit ws'"
  proof -
    have e: "ws' = ws3" "n = ws_stripeFirstRowNumber ws3 + length rows" using w ws3(3) lt len f(4) by auto
    have first: "rows \<noteq> [] \<Longrightarrow> ws_stripeFirstRowNumber ws1 = ws_stripeFirstRowNumber ws"
      using gs res by (cases "gs = []") (auto simp: ws_holds_def reserve_stripe_def)
    have "map fst rows = [ws_stripeFirstRowNumber ws3..<ws_stripeFirstRowNumber ws3 + length rows]"
      using inv first f(4) by (cases "rows = []") (simp_all add: buffer_inv_def)
    moreover have "ws_offsets_fit ws3 (append_row (ws_chunkGroupRowLimit ws) gs row)"
      by (rule streams_offsets_fit[OF c3 ws3(1)]) (use fit e in simp)
    ultimately show ?thesis
      unfolding buffer_inv_def e(1)
      using c3 ws3(1) gs(2) e(2) by (intro conjI exI[of _ "append_row (ws_chunkGroupRowLimit ws) gs row"]) (simp_all add: concat_append_row)
  qed
  show "buffer_inv ok D B [] ws'" if ge: "length rows + 1 \<ge> ws_stripeRowLimit ws"
  proof -
    have fl: "flush_row_group F ws3 False rel1 = Inr (ws', rel')" using w ws3(3) ge len by (auto simp: res_bind_Inr)
    have "ws_stripeRowCount ws3 \<noteq> 0" using ws3(1) by (simp add: ws_holds_def concat_append_row)
    then obtain m where ws': "ws' = reset_stripe (ws3\<lparr>ws_memos := m\<rparr>)"
      by (rule flush_row_group_cases[OF fl]) simp
    have "ws_cols_ok ok D B ws'" using c3(1) ws_ok_cong(1)[of ws' ws3] by (simp add: ws')
    moreover have "ws_holds ws' []" unfolding ws' by (rule reset_holds[OF ws3(1)])
    moreover have "ws_rows_ok ok D ws' []" by (simp add: ws_rows_ok_def rows_ok_def present_values_def)
    ultimately show ?thesis unfolding buffer_inv_def by (intro conjI exI[of _ "[]"]) (simp_all add: ws_offsets_fit_def)
  qed
qed

text \<open>A fetch answers with the row, or finds none of that number, and keeps what is held.\<close>

lemma buffer_inv_fetch:
  assumes inv: "buffer_inv ok D B rows ws"
  obtains ws' where "buffered_row n ws = Inr (map_option (flat_row ws) (map_of rows n), ws')"
    "buffer_inv ok D B rows ws'"
proof -
  obtain gs where gs: "ws_holds ws gs" "concat gs = map snd rows" "ws_offsets_fit ws gs"
    using inv by (auto simp: buffer_inv_def)
  let ?f = "ws_stripeFirstRowNumber ws"
  have i: "ws_cols_ok ok D B ws" "ws_rows_ok ok D ws (concat gs)" "map fst rows = [?f..<?f + length rows]"
    using inv gs(2) by (simp_all add: buffer_inv_def)
  have len: "length (concat gs) = length rows" using gs(2) by simp
  have cnt: "ws_stripeRowCount ws = length rows" using gs(1) len by (simp add: ws_holds_def)
  show thesis
  proof (cases "?f \<le> n \<and> n < ?f + length rows")
    case True
    then obtain k where k: "n = ?f + k" "k < length rows" by (metis add_less_cancel_left le_Suc_ex)
    have d: "distinct (map fst rows)" by (simp add: i(3))
    have "rows ! k = (n, concat gs ! k)" using k gs(2) i(3) by (metis nth_map nth_upt length_upt add_less_cancel_left prod.collapse)
    then have "map_of rows n = Some (concat gs ! k)" using d k(2) by (metis map_of_eq_Some_iff nth_mem)
    moreover have k': "k < length (concat gs)" using k(2) len by simp
    obtain ws' where "buffered_row n ws = Inr (Some (flat_row ws (concat gs ! k)), ws')" "ws_holds ws' gs"
        "ws' = ws\<lparr>ws_chunkGroups := ws_chunkGroups ws'\<rparr>"
      by (rule buffered_row_holds[OF i(1,2) gs(1,3) k']) (use k(1) in simp)
    moreover from this(3) have "ws_cfg ws' = ws_cfg ws" "ws_tupdesc ws' = ws_tupdesc ws" "ws_colDefs ws' = ws_colDefs ws"
        "ws_stripeFirstRowNumber ws' = ?f"
      by (metis write_state.select_convs write_state.surjective write_state.update_convs(13))+
    ultimately show thesis using that[of ws'] inv gs by (auto simp: buffer_inv_def ws_ok_cong[of ws' ws])
  next
    case False
    then have "n \<notin> set (map fst rows)" unfolding i(3) by auto
    then have "map_of rows n = None" by (simp add: map_of_eq_None_iff)
    moreover have "buffered_row n ws = Inr (None, ws)" using False cnt by (auto simp: buffered_row_def)
    ultimately show thesis using that[of ws] inv by simp
  qed
qed

lemma buffer_run_inv: "buffer_run F ok D B rows ws rel \<Longrightarrow> buffer_inv ok D B rows ws"
proof (induction rule: buffer_run.induct)
  case (start ws rel)
  then show ?case unfolding buffer_inv_def
    by (intro conjI exI[of _ "[]"]) (simp_all add: ws_rows_ok_def rows_ok_def present_values_def ws_offsets_fit_def)
next
  case (add_row rows ws rel row n ws' rel')
  then show ?case using buffer_inv_write(1) by blast
next
  case (add_row_full rows ws rel row n ws' rel')
  then show ?case using buffer_inv_write(2) by blast
next
  case (fetch rows ws rel n r ws')
  show ?case by (rule buffer_inv_fetch[OF fetch.IH, of n]) (use fetch.hyps in auto)
qed

subsection \<open>A flushed group\<close>

definition written_col :: "write_col list \<Rightarrow> column_def list \<Rightarrow> (nat \<Rightarrow> datum set) \<Rightarrow> (nat \<Rightarrow> datum set) \<Rightarrow>
    datum option list list list \<Rightarrow> nat \<Rightarrow> column_written" where
  "written_col td defs D B gs c = \<lparr>cw_def = defs ! c, cw_D = D c, cw_B = B c, cw_rows = map (map (\<lambda>r. r ! c)) gs\<rparr>"

definition group_ready :: "flush_cfg \<Rightarrow> (u64 \<Rightarrow> nat \<Rightarrow> bool) \<Rightarrow> write_col list \<Rightarrow> column_def list \<Rightarrow> (nat \<Rightarrow> datum set) \<Rightarrow>
    (nat \<Rightarrow> datum set) \<Rightarrow> datum option list list list \<Rightarrow> bool" where
  "group_ready C ok td defs D B gs \<longleftrightarrow>
     (\<forall>c < length td. column_ready C ok (wc_att (td ! c)) (defs ! c) (D c) (B c) (map (map (\<lambda>r. r ! c)) gs))"

text \<open>The result of one column: nothing for a virtual one, else the flush of its rows.\<close>

definition col_result :: "flush_cfg \<Rightarrow> (u64 \<Rightarrow> nat \<Rightarrow> bool) \<Rightarrow> write_col list \<Rightarrow> column_def list \<Rightarrow> (nat \<Rightarrow> datum set) \<Rightarrow>
    (nat \<Rightarrow> datum set) \<Rightarrow> datum option list list list \<Rightarrow> nat \<Rightarrow> flush_result option \<Rightarrow> bool" where
  "col_result C ok td defs D B gs c r \<longleftrightarrow>
     (if wc_virtual (td ! c) then r = None
      else \<exists>res. r = Some res \<and> column_flushed C ok (wc_att (td ! c)) (written_col td defs D B gs c) res)"

lemma flush_columns_ok:
  assumes h: "ws_holds ws gs" and ready: "group_ready (ws_cfg ws) ok (ws_tupdesc ws) (ws_colDefs ws) D B gs"
  obtains crs where "flush_columns ws = Inr crs" "length crs = ws_natts ws"
    "\<forall>c < ws_natts ws. col_result (ws_cfg ws) ok (ws_tupdesc ws) (ws_colDefs ws) D B gs c (fst (crs ! c))"
proof -
  let ?n = "ws_stripeRowCount ws"
  let ?f = "\<lambda>c. flush_one_column (ws_cfg ws) (wc_att (ws_tupdesc ws ! c)) (wc_virtual (ws_tupdesc ws ! c))
      (ws_colDefs ws ! c) (group_columns (ws_chunkGroups ws) c) ?n ((?n + 7) div 8) (ws_memos ws ! c)"
  let ?r = "\<lambda>c. col_result (ws_cfg ws) ok (ws_tupdesc ws) (ws_colDefs ws) D B gs c"
  have l: "list_all2 (chunk_group_holds ws) gs (ws_chunkGroups ws)" and n: "?n = length (concat gs)"
    using h by (simp_all add: ws_holds_def)
  have "\<forall>c. \<exists>p. c < ws_natts ws \<longrightarrow> ?f c = Inr p \<and> ?r c (fst p)"
  proof
    fix c show "\<exists>p. c < ws_natts ws \<longrightarrow> ?f c = Inr p \<and> ?r c (fst p)"
    proof (cases "c < ws_natts ws \<and> \<not> wc_virtual (ws_tupdesc ws ! c)")
      case True
      let ?rows = "map (map (\<lambda>r. r ! c)) gs" and ?cols = "map forget_offsets (group_columns (ws_chunkGroups ws) c)"
      have rd: "column_ready (ws_cfg ws) ok (wc_att (ws_tupdesc ws ! c)) (ws_colDefs ws ! c) (D c) (B c) ?rows"
        using ready True by (simp add: group_ready_def)
      have bufs: "column_buffers (ws_pg ws) (wc_att (ws_tupdesc ws ! c)) (ws_colDefs ws ! c) ?rows ?cols"
        unfolding column_buffers_def group_columns_def list.rel_map
        by (rule list.rel_mono_strong[OF l]) (use True in \<open>simp add: chunk_group_holds_def buffer_rows_def\<close>)
      have len: "?n = length (concat ?rows)" by (simp add: n length_concat comp_def)
      have vb: "?n \<le> 8 * ((?n + 7) div 8)" by linarith
      obtain res memo' where res: "flush_one_column (ws_cfg ws) (wc_att (ws_tupdesc ws ! c)) False (ws_colDefs ws ! c) ?cols ?n
          ((?n + 7) div 8) (ws_memos ws ! c) = Inr (Some res, memo')"
        by (rule column_flush[OF rd bufs len vb, where skp = "\<lambda>_. False" and memo = "ws_memos ws ! c"])
      have "column_flushed (ws_cfg ws) ok (wc_att (ws_tupdesc ws ! c)) (written_col (ws_tupdesc ws) (ws_colDefs ws) D B gs c) res"
        unfolding column_flushed_def written_col_def column_written.simps len[symmetric]
        using rd bufs res by blast
      then show ?thesis using True res by (intro exI[of _ "(Some res, memo')"]) (simp add: flush_column_forget col_result_def)
    next
      case False
      then show ?thesis by (intro exI[of _ "(None, ws_memos ws ! c)"]) (simp add: flush_one_column_def col_result_def)
    qed
  qed
  then obtain p where p: "\<forall>c. c < ws_natts ws \<longrightarrow> ?f c = Inr (p c) \<and> ?r c (fst (p c))" by (rule exE[OF choice])
  have "flush_columns ws = Inr (map p [0..<ws_natts ws])"
    unfolding flush_columns_def Let_def by (rule res_map_all) (use p in simp)
  moreover have "\<forall>c < ws_natts ws. ?r c (fst (map p [0..<ws_natts ws] ! c))" using p by simp
  moreover have "length (map p [0..<ws_natts ws]) = ws_natts ws" by simp
  ultimately show thesis using that by blast
qed

text \<open>
  A row group as a flush leaves it: the bytes of its columns in the file, and exactly its own
  catalog rows under its group number.
\<close>

definition rows_of_group :: "row_group \<Rightarrow> 'a group_entry list \<Rightarrow> 'a group_entry list" where
  "rows_of_group g es = filter (\<lambda>e. ge_storageId e = rg_storageId g \<and> ge_groupNumber e = rg_groupNumber g) es"

definition group_stored ::
  "nat \<Rightarrow> flush_cfg \<Rightarrow> (u64 \<Rightarrow> nat \<Rightarrow> bool) \<Rightarrow> write_col list \<Rightarrow> column_def list \<Rightarrow> (nat \<Rightarrow> datum set) \<Rightarrow> (nat \<Rightarrow> datum set) \<Rightarrow>
   datum option list list list \<Rightarrow> flush_result option list \<Rightarrow> row_group \<Rightarrow> rel_state \<Rightarrow> bool" where
  "group_stored bpp C ok td defs D B gs rs g rel \<longleftrightarrow>
     g \<in> set (rs_groups (rel_file rel)) \<and> blocks_ok bpp (mf_blocks (rs_fork (rel_file rel))) \<and>
     group_at bpp (rs_fork (rel_file rel)) g (concat (map chunk_bytes rs)) \<and>
     rg_rowCount g = length (concat gs) \<and> length rs = length td \<and>
     (\<forall>c < length td. col_result C ok td defs D B gs c (rs ! c)) \<and>
     (\<exists>ws. ws_storageId ws = rg_storageId g \<and> ws_stripeId ws = rg_groupNumber g \<and> ws_stripeRowCount ws = rg_rowCount g \<and>
        filter (\<lambda>cc. cc_storageId cc = rg_storageId g \<and> cc_groupNumber cc = rg_groupNumber g) (rel_chunks rel) =
          chunk_rows ws (rg_fileOffset g) rs \<and>
        rows_of_group g (rel_zones rel) = entry_rows ws fres_zoneRows rs \<and>
        rows_of_group g (rel_blooms rel) = entry_rows ws (\<lambda>res. case fres_bloom res of None \<Rightarrow> [] | Some b \<Rightarrow> [b]) rs)"

lemma fresh_rows_none:
  assumes "group_number_fresh sid gn rel"
  shows "filter (\<lambda>cc. cc_storageId cc = sid \<and> cc_groupNumber cc = gn) (rel_chunks rel) = []"
    "filter (\<lambda>e. ge_storageId e = sid \<and> ge_groupNumber e = gn) (rel_zones rel) = []"
    "filter (\<lambda>e. ge_storageId e = sid \<and> ge_groupNumber e = gn) (rel_blooms rel) = []"
  using assms by (auto simp: group_number_fresh_def filter_empty_conv)

text \<open>The zone rows of one column carry distinct vector indexes.\<close>

lemma zone_rows_distinct:
  assumes "column_flushed C ok att w res"
  shows "distinct (map z_vectorIndex (fres_zoneRows res))"
proof -
  obtain zs z where z: "fres_zoneRows res = zs @ [z]" "length zs = length (cw_rows w)"
    "\<forall>i < length zs. zone_describes (env_pg (cfg_env C)) att (cw_def w) (cw_D w) (cw_B w) (cw_rows w ! i) (int i) (zs ! i)"
    "zone_describes (env_pg (cfg_env C)) att (cw_def w) (cw_D w) (cw_B w) (concat (cw_rows w)) (- 1) z"
    by (rule flushed_zone_rows[OF assms]) (rule that)
  then have i: "\<forall>i < length zs. z_vectorIndex (zs ! i) = int i" "z_vectorIndex z = -1"
    by (simp_all add: zone_describes_def Let_def)
  then have "map z_vectorIndex zs = map int [0..<length zs]" by (intro nth_equalityI) simp_all
  then show ?thesis using i(2) by (auto simp: z(1) distinct_map)
qed

lemma place_fields:
  assumes "place_row_group bpp co pr h mr base g data st = Inr (g', st')"
  shows "rg_storageId g' = rg_storageId g" "rg_groupNumber g' = rg_groupNumber g" "rg_rowCount g' = rg_rowCount g"
    "rg_firstRowNumber g' = rg_firstRowNumber g" "rs_groups st' = rs_groups st @ [g']"
  using assms by (auto simp: place_row_group_def res_bind_Inr Let_def split_beta)

lemma flush_row_group_stores:
  assumes h: "ws_holds ws gs" "gs \<noteq> []" and ready: "group_ready (ws_cfg ws) ok (ws_tupdesc ws) (ws_colDefs ws) D B gs"
    and inv: "reclaim_inv (fe_bpp F) (fe_precedes F) (fe_oldestXmin F) (rel_file rel) live old"
    and base: "PgColumnarStorageId (rs_fork (rel_file rel)) = Inr base"
    and fresh: "group_number_fresh (ws_storageId ws) (ws_stripeId ws) rel"
    and place: "\<And>crs. flush_columns ws = Inr crs \<Longrightarrow> \<exists>g f'. place_row_group (fe_bpp F) (fe_coalesce F) (fe_precedes F)
        (fe_oldestXmin F) (fe_mayReuse F) base (group_row ws) (group_data crs) (rel_file rel) = Inr (g, f') \<and>
      rg_fileOffset g + length (group_data crs) \<le> (2 ^ 32 - 1) * fe_bpp F"
  obtains crs g rel' where
    "flush_row_group F ws keep rel =
       Inr (if keep then ws\<lparr>ws_memos := map snd crs\<rparr> else reset_stripe (ws\<lparr>ws_memos := map snd crs\<rparr>), rel')"
    "rs_groups (rel_file rel') = rs_groups (rel_file rel) @ [g]" "rg_firstRowNumber g = ws_stripeFirstRowNumber ws"
    "rg_groupNumber g = ws_stripeId ws" "rg_storageId g = ws_storageId ws"
    "group_stored (fe_bpp F) (ws_cfg ws) ok (ws_tupdesc ws) (ws_colDefs ws) D B gs (map fst crs) g rel'"
    "reclaim_inv (fe_bpp F) (fe_precedes F) (fe_oldestXmin F) (rel_file rel') (insert (g, group_data crs) live) old"
    "rel_deletes rel' = rel_deletes rel"
proof -
  obtain crs where crs: "flush_columns ws = Inr crs" "length crs = ws_natts ws"
      "\<forall>c < ws_natts ws. col_result (ws_cfg ws) ok (ws_tupdesc ws) (ws_colDefs ws) D B gs c (fst (crs ! c))"
    by (rule flush_columns_ok[OF h(1) ready])
  let ?rs = "map fst crs"
  obtain g f' where g: "place_row_group (fe_bpp F) (fe_coalesce F) (fe_precedes F) (fe_oldestXmin F) (fe_mayReuse F)
      base (group_row ws) (group_data crs) (rel_file rel) = Inr (g, f')" "rg_fileOffset g + length (group_data crs) \<le> (2 ^ 32 - 1) * fe_bpp F"
    using place[OF crs(1)] by blast
  have gf: "rg_storageId g = ws_storageId ws" "rg_groupNumber g = ws_stripeId ws" "rg_rowCount g = ws_stripeRowCount ws"
      "rg_firstRowNumber g = ws_stripeFirstRowNumber ws" "rs_groups f' = rs_groups (rel_file rel) @ [g]"
    using place_fields[OF g(1)] by (simp_all add: group_row_def)
  have key: "group_key g \<notin> group_key ` set (rs_groups (rel_file rel))"
    using fresh gf(1,2) by (auto simp: group_number_fresh_def group_key_def)
  then have new: "g \<notin> set (rs_groups (rel_file rel))" by blast
  have inv': "reclaim_inv (fe_bpp F) (fe_precedes F) (fe_oldestXmin F) f' (insert (g, group_data crs) live) old"
    by (rule inv_place[OF inv g(1) new g(2)])
  have nz: "ws_stripeRowCount ws \<noteq> 0" using h by (cases gs) (auto simp: ws_holds_def)
  have cf: "column_flushed (ws_cfg ws) ok (wc_att (ws_tupdesc ws ! c)) (written_col (ws_tupdesc ws) (ws_colDefs ws) D B gs c) res"
    if "c < length ?rs" "?rs ! c = Some res" for c res
    using crs(2,3) that by (auto simp: col_result_def split: if_splits)
  have ck: "catalog_inserts chunk_key (chunk_rows ws (rg_fileOffset g) ?rs) (rel_chunks rel) =
      Inr (rel_chunks rel @ chunk_rows ws (rg_fileOffset g) ?rs)"
    by (rule catalog_inserts_ok[OF chunk_rows_distinct])
       (use fresh in \<open>auto simp: group_number_fresh_def chunk_key_def dest!: group_rows_keys(1)\<close>)
  have zk: "catalog_inserts zone_key (entry_rows ws fres_zoneRows ?rs) (rel_zones rel) =
      Inr (rel_zones rel @ entry_rows ws fres_zoneRows ?rs)"
  proof (rule catalog_inserts_ok)
    show "distinct (map zone_key (entry_rows ws fres_zoneRows ?rs))"
      using entry_rows_distinct[of ?rs z_vectorIndex fres_zoneRows ws] zone_rows_distinct[OF cf] by (simp add: zone_key_def[abs_def])
  qed (use fresh in \<open>auto simp: group_number_fresh_def zone_key_def entry_key_def dest!: group_rows_keys(2)\<close>)
  let ?bl = "\<lambda>res. case fres_bloom res of None \<Rightarrow> [] | Some b \<Rightarrow> [b]"
  have bk: "catalog_inserts entry_key (entry_rows ws ?bl ?rs) (rel_blooms rel) = Inr (rel_blooms rel @ entry_rows ws ?bl ?rs)"
  proof (rule catalog_inserts_ok)
    have "distinct (map (\<lambda>e. (entry_key e, ())) (entry_rows ws ?bl ?rs))"
      by (rule entry_rows_distinct[where h = "\<lambda>_. ()"]) (auto split: option.splits)
    then show "distinct (map entry_key (entry_rows ws ?bl ?rs))" by (simp add: distinct_map inj_on_def)
  qed (use fresh in \<open>auto simp: group_number_fresh_def entry_key_def dest!: group_rows_keys(2)\<close>)
  have sk: "catalog_inserts entry_key (sketch_rows ws) (rel_sketches rel) = Inr (rel_sketches rel @ sketch_rows ws)"
    by (rule catalog_inserts_ok[OF sketch_rows_distinct])
       (use fresh in \<open>auto simp: group_number_fresh_def entry_key_def dest!: group_rows_keys(3)\<close>)
  obtain rel' where fl: "flush_row_group F ws keep rel =
       Inr (if keep then ws\<lparr>ws_memos := map snd crs\<rparr> else reset_stripe (ws\<lparr>ws_memos := map snd crs\<rparr>), rel')"
    using nz crs(1) base g(1) key ck zk bk sk by (simp add: flush_row_group_def Let_def group_row_def)
  have add: "flush_adds ws ?rs g f' rel rel'"
    by (rule flush_row_group_cases[OF fl nz]) (use crs(1) base g(1) in auto)
  have stored: "group_stored (fe_bpp F) (ws_cfg ws) ok (ws_tupdesc ws) (ws_colDefs ws) D B gs ?rs g rel'"
    unfolding group_stored_def
  proof (intro conjI exI[of _ ws])
    show "g \<in> set (rs_groups (rel_file rel'))" using add gf(5) by (simp add: flush_adds_def)
    show "blocks_ok (fe_bpp F) (mf_blocks (rs_fork (rel_file rel')))" using invD(2)[OF inv'] add by (simp add: flush_adds_def)
    show "group_at (fe_bpp F) (rs_fork (rel_file rel')) g (concat (map chunk_bytes ?rs))"
      using invD(8)[OF inv', of g "group_data crs"] add by (simp add: flush_adds_def)
    show "rg_rowCount g = length (concat gs)" using gf(3) h by (simp add: ws_holds_def)
    show "filter (\<lambda>cc. cc_storageId cc = rg_storageId g \<and> cc_groupNumber cc = rg_groupNumber g) (rel_chunks rel') =
        chunk_rows ws (rg_fileOffset g) ?rs"
      using add gf(1,2) fresh_rows_none[OF fresh] group_rows_keys(1) by (auto simp: flush_adds_def intro!: filter_True)
    show "rows_of_group g (rel_zones rel') = entry_rows ws fres_zoneRows ?rs"
      using add gf(1,2) fresh_rows_none[OF fresh] group_rows_keys(2) by (auto simp: flush_adds_def rows_of_group_def intro!: filter_True)
    show "rows_of_group g (rel_blooms rel') = entry_rows ws ?bl ?rs"
      using add gf(1,2) fresh_rows_none[OF fresh] group_rows_keys(2) by (auto simp: flush_adds_def rows_of_group_def intro!: filter_True)
  qed (use crs gf in simp_all)
  show thesis
    by (rule that[OF fl _ gf(4,2,1) stored]) (use add gf(5) inv' in \<open>simp_all add: flush_adds_def\<close>)
qed

subsection \<open>Properties\<close>

text \<open>A relation of one eight-byte integer column, with its first write state.\<close>

definition int8_write_state :: write_state where
  "int8_write_state = \<lparr>ws_relid = 1, ws_subid = 1, ws_flushedUnder = 0, ws_eagerFlush = False,
     ws_tupdesc = [\<lparr>wc_att = int8_att, wc_virtual = False\<rparr>], ws_stripeRowLimit = 10, ws_chunkGroupRowLimit = 2,
     ws_cfg = plain_cfg, ws_storageId = 7, ws_colDefs = [int8_def], ws_memos = [\<lparr>fsst_verdict = 0, fsst_verdict_age = 0\<rparr>],
     ws_sketchRegs = None, ws_chunkGroups = [], ws_currentGroup = None, ws_stripeRowCount = 0, ws_haveReservation = False,
     ws_stripeId = 0, ws_stripeFirstRowNumber = 0, ws_reservedStripeIds = []\<rparr>"

definition empty_rel :: "nat \<Rightarrow> nat \<Rightarrow> rel_state" where
  "empty_rel bpp sid = \<lparr>rel_file = \<lparr>rs_fork = PgColumnarWriteNewMetapage bpp sid, rs_groups = [], rs_free = []\<rparr>,
     rel_storage = [], rel_chunks = [], rel_zones = [], rel_blooms = [], rel_sketches = [], rel_deletes = [],
     rel_invalidations = 0\<rparr>"

definition append_env :: "nat \<Rightarrow> flush_env" where
  "append_env bpp = \<lparr>fe_bpp = bpp, fe_coalesce = True, fe_precedes = (<), fe_oldestXmin = 0, fe_mayReuse = False\<rparr>"

lemma int8_col_ok: "col_ok le_pg_datum le_byval_ok int8_att int8_def (range ByVal) {}"
  using int8_column_ready[of "[]"] by (simp add: col_ok_def column_ready_def plain_cfg_def plain_env_def)

lemma int8_fits: "datum_fits le_byval_ok int8_att (ByVal v)"
  using int8_col_ok by (auto simp: col_ok_def store_ok_def)

lemma int8_ws_ok:
  "ws_cols_ok le_byval_ok (\<lambda>_. range ByVal) (\<lambda>_. {}) int8_write_state" "ws_holds int8_write_state []"
  "ws_rows_ok le_byval_ok (\<lambda>_. range ByVal) int8_write_state [[Some (ByVal v)]]" "streams_fit int8_write_state"
  using int8_col_ok int8_fits[of v]
  by (simp_all add: ws_cols_ok_def ws_holds_def ws_rows_ok_def rows_ok_def present_values_def int8_write_state_def
      plain_cfg_def plain_env_def flat_datum_def int8_att_def streams_fit_def)

lemma int8_encode: "PgColumnarEncodeValue le_pg_datum buf int8_att (ByVal v) = Inr (buf @ le_bytes 8 v)"
  using encode_value_bytes[OF le_pg_datum_ok int8_fits, of buf v] by (simp add: value_bytes_def le_pg_datum_def int8_att_def)

lemma int8_flat: "flat_datum V int8_att (ByVal v) = ByVal v"
  by (simp add: flat_datum_def int8_att_def)

lemma int8_write_one:
  obtains ws rel where "PgColumnarWriteRow F int8_write_state [Some (ByVal v)] (empty_rel bpp 7) = Inr (1, ws, rel)"
    "streams_fit ws"
proof -
  obtain ws rel where "PgColumnarWriteRow F int8_write_state [Some (ByVal v)] (empty_rel bpp 7) = Inr (1, ws, rel) \<and> streams_fit ws"
    by (simp add: PgColumnarWriteRow_def reserve_stripe_def int8_write_state_def empty_rel_def PgColumnarReserveRowNumbers_def
        PgColumnarWriteNewMetapage_def COLUMNAR_FIRST_ROW_NUMBER_def open_chunk_group_def pgcolumnar_start_chunk_group_def
        write_columns_def write_column_value_def plain_cfg_def plain_env_def int8_flat
        buffered_note_offset_def empty_column_buffer_def int8_encode Let_def streams_fit_def MaxAllocSize_def)
  then show thesis using that by blast
qed

text \<open>
  C2: A statement reads its own unflushed rows. However rows are appended to a write state and
  fetched from it in between, a fetch by row number returns exactly the row that got that
  number, in every column its flattened value or null, and finds nothing under any other
  number; the cache of value offsets, built at the first fetch and extended by later writes,
  never shows.
\<close>

theorem buffered_rows_read_back:
  assumes "buffer_run F ok D B rows ws rel"
  shows "\<exists>ws'. PgColumnarBufferedRowByNumber (ws_relid ws) n [ws] =
    Inr (map_option (flat_row ws) (map_of rows n), [ws']) \<and> buffer_run F ok D B rows ws' rel"
proof -
  obtain ws' where "buffered_row n ws = Inr (map_option (flat_row ws) (map_of rows n), ws')"
    by (rule buffer_inv_fetch[OF buffer_run_inv[OF assms]])
  moreover from buffer_run.fetch[OF assms this] have "buffer_run F ok D B rows ws' rel" .
  ultimately show ?thesis by (cases "map_of rows n") auto
qed

theorem buffered_rows_read_back_witness:
  "\<exists>ws ws' rel. PgColumnarWriteRow (append_env 4) int8_write_state [Some (ByVal 5)] (empty_rel 4 7) = Inr (1, ws, rel) \<and>
    PgColumnarBufferedRowByNumber (ws_relid ws) 1 [ws] = Inr (Some (flat_row ws [Some (ByVal 5)]), [ws'])"
proof -
  let ?run = "buffer_run (append_env 4) le_byval_ok (\<lambda>_. range ByVal) (\<lambda>_. {})"
  obtain ws rel where w: "PgColumnarWriteRow (append_env 4) int8_write_state [Some (ByVal 5)] (empty_rel 4 7) = Inr (1, ws, rel)"
      "streams_fit ws" by (rule int8_write_one)
  have "?run ([] @ [(1, [Some (ByVal 5)])]) ws rel"
    by (rule buffer_run.add_row[OF buffer_run.start[OF int8_ws_ok(1,2)] int8_ws_ok(3) w]) (simp add: int8_write_state_def)
  then have r: "?run [(1, [Some (ByVal 5)])] ws rel" by simp
  from buffered_rows_read_back[OF r, of 1] show ?thesis using w(1) by auto
qed

end
