(* ===== verification/Group_Scan.thy ===== *)
theory Group_Scan
  imports Row_Group
begin

unbundle bit_operations_syntax

section \<open>Scanning row groups\<close>

text \<open>
  The sequential reader (\<open>src/src/columnar_reader.c\<close>): \<open>pgcolumnar_native_load_group\<close> claims the
  next group that may match, merges its delete vectors, reads the wanted columns' bytes and
  decodes them in two passes around the exact selection of vectors;
  \<open>pgcolumnar_native_next_row\<close> walks its rows, stepping over skipped vectors and deleted rows,
  with or without late materialisation. The scan is serial; the contents of memory that is
  allocated and not written is the argument \<open>junk\<close>, and the pushed-down filter is a predicate on
  the row's values. Of the EXPLAIN counters only those of groups and of filtered rows are
  kept. A scan returns every live row that can match, as it was written, and no other.
\<close>

subsection \<open>Definitions\<close>

subsubsection \<open>The state of a scan\<close>

text \<open>
  A materialised column: its validity bits from the start of the chunk, the rest of its raw
  value stream, and the raw length of each vector, if it has a descriptor.
\<close>

record native_col =
  nc_validity :: "byte list"
  nc_cursor :: "byte list"
  nc_vecRawLen :: "nat list option"

record scan_env =
  se_cenv :: codec_env
  se_lib :: codec_lib
  se_bpp :: nat
  se_read_stream :: bool
  se_enable_bloom :: bool
  se_qual_min_payload :: nat
  se_junk :: "nat \<Rightarrow> byte list"

abbreviation se_pg :: "scan_env \<Rightarrow> pg_datum" where
  "se_pg E \<equiv> env_pg (se_cenv E)"

text \<open>The executor's qual, pushed into the reader: the columns it reads and the test.\<close>

record row_filter =
  rf_cols :: "bool list"
  rf_pass :: "datum option list \<Rightarrow> bool"

record read_state =
  rd_td :: "table_col list"
  rd_storageId :: nat
  rd_missing :: "datum option list"
  rd_wanted :: "bool list"
  rd_allWanted :: bool
  rd_prune :: prune_state
  rd_restrict :: "nat list option"
  rd_deadHorizon :: "delete_row list option"
  rd_emitDeleted :: bool
  rd_started :: bool
  rd_exhausted :: bool
  rd_groupList :: "row_group list"
  rd_groupIndex :: nat
  rd_buffer :: "byte list"
  rd_group :: "row_group option"
  rd_deleteMask :: "byte list option"
  rd_deadMask :: "byte list option"
  rd_cols :: "native_col option list"
  rd_skip :: "(bool list \<times> u32 list) option"
  rd_vectorCount :: nat
  rd_curVec :: nat
  rd_rowInGroup :: nat
  rd_groupRowCount :: nat
  rd_lastRowDeleted :: bool
  rd_groupsRead :: nat
  rd_groupsSkipped :: nat
  rd_rowsFilteredEarly :: nat

abbreviation rd_natts :: "read_state \<Rightarrow> nat" where
  "rd_natts rs \<equiv> length (rd_td rs)"

subsubsection \<open>The catalog under the scan's snapshot\<close>

text \<open>The row groups of a storage, sorted by number.\<close>

definition PgColumnarReadRowGroupList :: "nat \<Rightarrow> rel_state \<Rightarrow> row_group list" where
  "PgColumnarReadRowGroupList storageId rel =
     sort_key rg_groupNumber (filter (\<lambda>g. rg_storageId g = storageId) (rs_groups (rel_file rel)))"

definition PgColumnarReadColumnChunkList :: "nat \<Rightarrow> nat \<Rightarrow> rel_state \<Rightarrow> column_chunk list" where
  "PgColumnarReadColumnChunkList storageId groupNumber rel =
     filter (\<lambda>cc. cc_storageId cc = storageId \<and> cc_groupNumber cc = groupNumber) (rel_chunks rel)"

definition PgColumnarReadDeleteVectorList :: "nat \<Rightarrow> nat \<Rightarrow> delete_row list \<Rightarrow> delete_row list" where
  "PgColumnarReadDeleteVectorList storageId groupNumber rows =
     filter (\<lambda>r. dr_storageId r = storageId \<and> dr_groupNumber r = groupNumber) rows"

definition group_meta_of :: "row_group \<Rightarrow> rel_state \<Rightarrow> group_meta" where
  "group_meta_of g rel =
     \<lparr>gm_rows = (\<lambda>c. map ge_row (filter (\<lambda>e. ge_columnIndex e = c) (rows_of_group g (rel_zones rel)))),
      gm_bloom = (\<lambda>c. map_option ge_row (find (\<lambda>e. ge_columnIndex e = c) (rows_of_group g (rel_blooms rel))))\<rparr>"

subsubsection \<open>Delete vectors\<close>

definition or_bitmap :: "byte list \<Rightarrow> byte list \<Rightarrow> byte list" where
  "or_bitmap m bm = map (\<lambda>i. if i < length bm then m ! i OR bm ! i else m ! i) [0..<length m]"

definition pgcolumnar_merge_delete_vectors :: "delete_row list \<Rightarrow> nat \<Rightarrow> byte list option" where
  "pgcolumnar_merge_delete_vectors maskList want =
     fold (\<lambda>rm out. if dr_bitmap rm = [] then out
         else Some (or_bitmap (case out of None \<Rightarrow> replicate want 0 | Some m \<Rightarrow> m) (dr_bitmap rm))) maskList None"

definition dv_row_deleted :: "byte list option \<Rightarrow> nat \<Rightarrow> bool" where
  "dv_row_deleted dmask row =
     (case dmask of
        None \<Rightarrow> False
      | Some m \<Rightarrow> row div 8 < length m \<and> (m ! (row div 8)) AND push_bit (row mod 8) 1 \<noteq> 0)"

subsubsection \<open>Claiming a group\<close>

function restricted_search :: "nat list \<Rightarrow> nat \<Rightarrow> int \<Rightarrow> int \<Rightarrow> bool" where
  "restricted_search xs x lo hi =
     (if lo \<le> hi
      then let m = lo + (hi - lo) div 2
           in if xs ! nat m = x then True
              else if xs ! nat m < x then restricted_search xs x (m + 1) hi
              else restricted_search xs x lo (m - 1)
      else False)"
  by pat_completeness auto
termination by (relation "measure (\<lambda>(xs, x, lo, hi). nat (hi - lo + 1))") auto

declare restricted_search.simps [simp del]

definition pgcolumnar_group_is_restricted_in :: "nat list \<Rightarrow> nat \<Rightarrow> bool" where
  "pgcolumnar_group_is_restricted_in restrictGroups groupNumber =
     restricted_search restrictGroups groupNumber 0 (int (length restrictGroups) - 1)"

definition PgColumnarReadRestrictToGroups :: "nat list \<Rightarrow> read_state \<Rightarrow> read_state" where
  "PgColumnarReadRestrictToGroups groupNumbers rs = rs\<lparr>rd_restrict := Some (sort groupNumbers)\<rparr>"

definition group_may_match :: "scan_env \<Rightarrow> rel_state \<Rightarrow> row_group \<Rightarrow> read_state \<Rightarrow> (bool \<times> prune_state) result" where
  "group_may_match E rel rg rs =
     (if \<exists>r. rd_restrict rs = Some r \<and> \<not> pgcolumnar_group_is_restricted_in r (rg_groupNumber rg)
      then Inr (False, rd_prune rs)
      else if numPredicates (rd_prune rs) > 0
      then pgcolumnar_native_group_can_match (se_pg E) (se_enable_bloom E) (rd_td rs) (group_meta_of rg rel) (rd_prune rs)
      else Inr (True, rd_prune rs))"

text \<open>The claim loop of a serial scan, over the groups from \<open>rd_groupIndex\<close> on.\<close>

fun claim_group ::
  "scan_env \<Rightarrow> rel_state \<Rightarrow> row_group list \<Rightarrow> read_state \<Rightarrow> (row_group option \<times> read_state) result" where
  "claim_group E rel [] rs = Inr (None, rs\<lparr>rd_groupIndex := rd_groupIndex rs + 1\<rparr>)"
| "claim_group E rel (rg # rgs) rs =
     (let rs1 = rs\<lparr>rd_groupIndex := rd_groupIndex rs + 1\<rparr>
      in res_bind (group_may_match E rel rg rs1) (\<lambda>(match, prune).
           if match then Inr (Some rg, rs1\<lparr>rd_prune := prune\<rparr>)
           else claim_group E rel rgs (rs1\<lparr>rd_prune := prune, rd_groupsSkipped := rd_groupsSkipped rs1 + 1\<rparr>)))"

subsubsection \<open>Reading the bytes\<close>

definition chunk_outside :: "row_group \<Rightarrow> column_chunk \<Rightarrow> bool" where
  "chunk_outside rg cc \<longleftrightarrow> cc_pageLength cc > rg_byteLength rg \<or> cc_pageOffset cc < rg_fileOffset rg \<or>
     cc_pageOffset cc - rg_fileOffset rg > rg_byteLength rg - cc_pageLength cc"

definition outside_error :: decode_error where
  "outside_error = Corrupt ''columnar chunk lies outside row group''"

fun projected_ranges :: "read_state \<Rightarrow> row_group \<Rightarrow> column_chunk list \<Rightarrow> (nat \<times> nat) list result" where
  "projected_ranges rs rg [] = Inr []"
| "projected_ranges rs rg (cc # ccs) =
     (if cc_columnIndex cc \<ge> rd_natts rs \<or> \<not> rd_wanted rs ! cc_columnIndex cc \<or> cc_pageLength cc = 0
      then projected_ranges rs rg ccs
      else if chunk_outside rg cc then Inl outside_error
      else res_bind (projected_ranges rs rg ccs) (\<lambda>rest.
        Inr ((cc_pageOffset cc, cc_pageOffset cc + cc_pageLength cc) # rest)))"

definition chunks_extent :: "read_state \<Rightarrow> row_group \<Rightarrow> column_chunk list \<Rightarrow> (nat \<times> nat) option" where
  "chunks_extent rs rg chunks =
     (let seen = filter (\<lambda>cc. cc_columnIndex cc < rd_natts rs \<and> cc_pageLength cc > 0) chunks
      in if seen = [] then None
         else Some (fold (\<lambda>cc m. min m (cc_pageOffset cc)) seen (rg_fileOffset rg + rg_byteLength rg),
                    fold (\<lambda>cc m. max m (cc_pageOffset cc + cc_pageLength cc)) seen (rg_fileOffset rg)))"

text \<open>The runs of sorted ranges that touch or overlap.\<close>

fun coalesce_ranges :: "(nat \<times> nat) \<Rightarrow> (nat \<times> nat) list \<Rightarrow> (nat \<times> nat) list" where
  "coalesce_ranges r [] = [r]"
| "coalesce_ranges (start, fin) ((s, e) # rest) =
     (if s \<le> fin then coalesce_ranges (start, if e > fin then e else fin) rest
      else (start, fin) # coalesce_ranges (s, e) rest)"

fun read_runs :: "scan_env \<Rightarrow> rel_state \<Rightarrow> nat \<Rightarrow> (nat \<times> nat) list \<Rightarrow> byte list \<Rightarrow> byte list result" where
  "read_runs E rel fileOffset [] buf = Inr buf"
| "read_runs E rel fileOffset ((s, e) # runs) buf =
     res_bind (PgColumnarReadLogicalData (se_bpp E) (se_read_stream E) s (e - s) (rs_fork (rel_file rel))) (\<lambda>bs.
       read_runs E rel fileOffset runs (put_bytes buf (s - fileOffset) bs))"

definition pgcolumnar_native_read_projected ::
  "scan_env \<Rightarrow> rel_state \<Rightarrow> read_state \<Rightarrow> row_group \<Rightarrow> column_chunk list \<Rightarrow> byte list \<Rightarrow> byte list result" where
  "pgcolumnar_native_read_projected E rel rs rg chunks buf =
     (if chunks = [] then Inr buf
      else res_bind (projected_ranges rs rg chunks) (\<lambda>ranges.
        case chunks_extent rs rg chunks of
          Some (minStart, maxEnd) \<Rightarrow>
            if maxEnd \<noteq> rg_fileOffset rg + rg_byteLength rg \<or> minStart \<noteq> rg_fileOffset rg
            then Inl (Corrupt ''columnar row group is inconsistent with its column chunks'')
            else (case sort_key fst ranges of
                    [] \<Rightarrow> Inr buf
                  | r # rest \<Rightarrow> read_runs E rel (rg_fileOffset rg) (coalesce_ranges r rest) buf)
        | None \<Rightarrow>
            (case sort_key fst ranges of
               [] \<Rightarrow> Inr buf
             | r # rest \<Rightarrow> read_runs E rel (rg_fileOffset rg) (coalesce_ranges r rest) buf)))"

text \<open>The group buffer: kept from the group before when it is large enough.\<close>

definition group_buffer :: "scan_env \<Rightarrow> row_group \<Rightarrow> byte list \<Rightarrow> byte list" where
  "group_buffer E rg mem =
     (let want = (if rg_byteLength rg > 0 then rg_byteLength rg else 1)
      in if want > length mem then se_junk E want else mem)"

definition read_group_bytes ::
  "scan_env \<Rightarrow> rel_state \<Rightarrow> read_state \<Rightarrow> row_group \<Rightarrow> column_chunk list \<Rightarrow> byte list result" where
  "read_group_bytes E rel rs rg chunks =
     (let buf = group_buffer E rg (rd_buffer rs)
      in if rg_byteLength rg = 0 then Inr buf
         else if rd_allWanted rs
         then res_bind (PgColumnarReadLogicalData (se_bpp E) (se_read_stream E) (rg_fileOffset rg) (rg_byteLength rg)
                (rs_fork (rel_file rel))) (\<lambda>bs. Inr (put_bytes buf 0 bs))
         else pgcolumnar_native_read_projected E rel rs rg chunks buf)"

subsubsection \<open>Decoding the columns\<close>

definition is_baseline :: "byte list \<Rightarrow> bool" where
  "is_baseline desc \<longleftrightarrow> length desc = 1 \<and> unat (desc ! 0) = ENCDESC_BASELINE"

text \<open>The vector count of the wanted chunks, and whether all of them have descriptors.\<close>

definition chunk_vectors :: "read_state \<Rightarrow> column_chunk list \<Rightarrow> bool \<times> nat" where
  "chunk_vectors rs chunks =
     fold (\<lambda>cc (allDesc, n).
       if cc_columnIndex cc \<ge> rd_natts rs \<or> \<not> rd_wanted rs ! cc_columnIndex cc then (allDesc, n)
       else if is_baseline (cc_descriptor cc) then (False, n)
       else if length (cc_descriptor cc) < ENCDESC_HEADER_LEN \<or> \<not> PgColumnarEncdescVersionSupported (cc_descriptor cc)
       then (False, n)
       else (allDesc, max n (PgColumnarEncdescReadVectorCount (cc_descriptor cc)))) chunks (chunks \<noteq> [], 0)"

definition native_is_qual_column :: "read_state \<Rightarrow> row_filter option \<Rightarrow> nat \<Rightarrow> bool" where
  "native_is_qual_column rs Q col \<longleftrightarrow>
     (\<exists>p \<in> set (take (numPredicates (rd_prune rs)) (predicates (rd_prune rs))). attidx p = col) \<or>
     numPredicates (rd_prune rs) = 0 \<and> (\<exists>q. Q = Some q \<and> col < rd_natts rs \<and> rf_cols q ! col)"

definition chunk_vec_raw_lens :: "byte list \<Rightarrow> nat list" where
  "chunk_vec_raw_lens desc =
     map ent_rawLen (encdesc_entries (PgColumnarEncdescReadVectorCount desc) (drop ENCDESC_HEADER_LEN desc))"

text \<open>The raw stream of a decoded chunk; a skipped vector is a hole of its raw length.\<close>

definition raw_stream :: "(nat \<Rightarrow> byte list) \<Rightarrow> nat list \<Rightarrow> byte list option list \<Rightarrow> byte list" where
  "raw_stream junk lens streams =
     concat (map2 (\<lambda>n s. case s of None \<Rightarrow> junk n | Some bs \<Rightarrow> bs) lens streams)"

definition load_chunk ::
  "scan_env \<Rightarrow> attr \<Rightarrow> row_group \<Rightarrow> byte list \<Rightarrow> (nat \<Rightarrow> bool) \<Rightarrow> column_chunk \<Rightarrow> native_col result" where
  "load_chunk E att rg buf skp cc =
     (if chunk_outside rg cc then Inl outside_error
      else let base = drop (cc_pageOffset cc - rg_fileOffset rg) buf;
               need = (rg_rowCount rg + 7) div 8;
               k = pgcolumnar_chunk_validity_bytes (Some (cc_descriptor cc)) need
      in res_bind
           (if k > 0 then Inr base
            else if PgColumnarEncdescTotalValueCount (Some (cc_descriptor cc)) \<noteq> int (rg_rowCount rg)
            then Inl (Corrupt ''columnar chunk claims no nulls but does not account for every row of row group'')
            else if need > MaxAllocSize then Inl (Corrupt ''columnar row group declares an implausible row count'')
            else Inr (replicate (if need > 0 then need else 1) (- 1)))
           (\<lambda>validity.
              if is_baseline (cc_descriptor cc)
              then Inr \<lparr>nc_validity = validity, nc_cursor = drop k (take (cc_pageLength cc) base), nc_vecRawLen = None\<rparr>
              else res_bind (pgcolumnar_chunk_value_bytes (cc_pageLength cc) (int k)) (\<lambda>valsLen.
                res_bind (pgcolumnar_native_decode_chunk (se_cenv E) (se_lib E) att (take valsLen (drop k base))
                            (cc_descriptor cc) (cc_blockCodec cc) skp) (\<lambda>streams.
                  let lens = chunk_vec_raw_lens (cc_descriptor cc)
                  in Inr \<lparr>nc_validity = validity, nc_cursor = raw_stream (se_junk E) lens streams, nc_vecRawLen = Some lens\<rparr>))))"

text \<open>One decode pass over the chunks whose column is, or is not, a qual column.\<close>

fun decode_pass ::
  "scan_env \<Rightarrow> read_state \<Rightarrow> row_group \<Rightarrow> byte list \<Rightarrow> (nat \<Rightarrow> bool) \<Rightarrow> (nat \<Rightarrow> bool) \<Rightarrow> column_chunk list \<Rightarrow>
   native_col option list \<Rightarrow> native_col option list result" where
  "decode_pass E rs rg buf skp sel [] cols = Inr cols"
| "decode_pass E rs rg buf skp sel (cc # ccs) cols =
     (if cc_columnIndex cc \<ge> rd_natts rs \<or> \<not> sel (cc_columnIndex cc) \<or> \<not> rd_wanted rs ! cc_columnIndex cc
      then decode_pass E rs rg buf skp sel ccs cols
      else res_bind (load_chunk E (tc_att (rd_td rs ! cc_columnIndex cc)) rg buf skp cc) (\<lambda>col.
        decode_pass E rs rg buf skp sel ccs (cols[cc_columnIndex cc := Some col])))"

definition skip_fn :: "(bool list \<times> u32 list) option \<Rightarrow> nat \<Rightarrow> bool" where
  "skip_fn sv v = (case sv of None \<Rightarrow> False | Some (skip, starts) \<Rightarrow> skip ! v)"

subsubsection \<open>Exact selection\<close>

text \<open>Whether a row among the next \<open>n\<close> from row \<open>r\<close> satisfies every predicate on the column.\<close>

fun any_row_satisfies ::
  "pg_datum \<Rightarrow> attr \<Rightarrow> byte list \<Rightarrow> skip_predicate list \<Rightarrow> nat \<Rightarrow> nat \<Rightarrow> byte list \<Rightarrow> bool result" where
  "any_row_satisfies V att validity preds 0 r cur = Inr False"
| "any_row_satisfies V att validity preds (Suc n) r cur =
     (if \<not> bufbit validity r then any_row_satisfies V att validity preds n (r + 1) cur
      else res_bind (PgColumnarDecodeValue V att cur) (\<lambda>(val, rest).
        if list_all (\<lambda>p. native_value_satisfies p val) preds then Inr True
        else any_row_satisfies V att validity preds n (r + 1) rest))"

fun refine_vectors ::
  "pg_datum \<Rightarrow> attr \<Rightarrow> byte list \<Rightarrow> skip_predicate list \<Rightarrow> u32 list \<Rightarrow> nat list \<Rightarrow> nat list \<Rightarrow> byte list \<Rightarrow> bool list \<Rightarrow> bool list result" where
  "refine_vectors V att validity preds starts vrl [] cursor skip = Inr skip"
| "refine_vectors V att validity preds starts vrl (v # vs) cursor skip =
     (let nxt = drop (vrl ! v) cursor
      in if skip ! v then refine_vectors V att validity preds starts vrl vs nxt skip
         else res_bind (any_row_satisfies V att validity preds (unat (starts ! (v + 1)) - unat (starts ! v))
                          (unat (starts ! v)) cursor) (\<lambda>any.
           refine_vectors V att validity preds starts vrl vs nxt (if any then skip else skip[v := True])))"

text \<open>One pass per column, at the first predicate that mentions it.\<close>

definition refine_predicate ::
  "scan_env \<Rightarrow> read_state \<Rightarrow> native_col option list \<Rightarrow> nat \<Rightarrow> u32 list \<Rightarrow> nat \<Rightarrow> bool list \<Rightarrow> bool list result" where
  "refine_predicate E rs cols vecCount starts p skip =
     (let preds = take (numPredicates (rd_prune rs)) (predicates (rd_prune rs)); col = attidx (preds ! p)
      in if col \<ge> rd_natts rs \<or> (\<exists>q < p. attidx (preds ! q) = col) then Inr skip
         else case cols ! col of
                None \<Rightarrow> Inr skip
              | Some nc \<Rightarrow>
                  (case nc_vecRawLen nc of
                     None \<Rightarrow> Inr skip
                   | Some vrl \<Rightarrow> refine_vectors (se_pg E) (tc_att (rd_td rs ! col)) (nc_validity nc)
                       (filter (\<lambda>q. attidx q = col) preds) starts vrl [0..<vecCount] (nc_cursor nc) skip))"

fun refine_predicates ::
  "scan_env \<Rightarrow> read_state \<Rightarrow> native_col option list \<Rightarrow> nat \<Rightarrow> u32 list \<Rightarrow> nat list \<Rightarrow> bool list \<Rightarrow> bool list result" where
  "refine_predicates E rs cols vecCount starts [] skip = Inr skip"
| "refine_predicates E rs cols vecCount starts (p # ps) skip =
     res_bind (refine_predicate E rs cols vecCount starts p skip) (refine_predicates E rs cols vecCount starts ps)"

definition pgcolumnar_native_refine_skipvec ::
  "scan_env \<Rightarrow> read_state \<Rightarrow> native_col option list \<Rightarrow> nat \<Rightarrow> (bool list \<times> u32 list) option \<Rightarrow> (bool list \<times> u32 list) option result" where
  "pgcolumnar_native_refine_skipvec E rs cols vecCount sv =
     (case sv of
        None \<Rightarrow> Inr None
      | Some (skip, starts) \<Rightarrow>
          if numPredicates (rd_prune rs) = 0 \<or> vecCount = 0 then Inr sv
          else res_bind (refine_predicates E rs cols vecCount starts [0..<numPredicates (rd_prune rs)] skip)
                 (\<lambda>skip'. Inr (Some (skip', starts))))"

subsubsection \<open>Rows\<close>

definition pgcolumnar_row_read_column ::
  "scan_env \<Rightarrow> read_state \<Rightarrow> nat \<Rightarrow> native_col option list \<Rightarrow> nat \<Rightarrow> (datum option \<times> native_col option) result" where
  "pgcolumnar_row_read_column E rs row cols c =
     (let att = tc_att (rd_td rs ! c)
      in if \<not> rd_wanted rs ! c then Inr (None, cols ! c)
         else case cols ! c of
                None \<Rightarrow> Inr (rd_missing rs ! c, None)
              | Some nc \<Rightarrow>
                  if \<not> bufbit (nc_validity nc) row then Inr (None, Some nc)
                  else if attbyval att
                  then (if int (length (nc_cursor nc)) < attlen att
                        then Inl (Corrupt ''fixed-length value runs past the value stream end'')
                        else Inr (Some (ByVal (fetch_att (se_pg E) (nc_cursor nc) (nat (attlen att)))),
                                  Some (nc\<lparr>nc_cursor := drop (nat (attlen att)) (nc_cursor nc)\<rparr>)))
                  else res_bind (PgColumnarDecodeValue (se_pg E) att (nc_cursor nc)) (\<lambda>(d, rest).
                         Inr (Some d, Some (nc\<lparr>nc_cursor := rest\<rparr>))))"

definition pgcolumnar_row_skip_column ::
  "scan_env \<Rightarrow> read_state \<Rightarrow> nat \<Rightarrow> native_col option list \<Rightarrow> nat \<Rightarrow> (datum option \<times> native_col option) result" where
  "pgcolumnar_row_skip_column E rs row cols c =
     (if \<not> rd_wanted rs ! c then Inr (None, cols ! c)
      else case cols ! c of
             None \<Rightarrow> Inr (None, None)
           | Some nc \<Rightarrow>
               if bufbit (nc_validity nc) row
               then res_bind (pgcolumnar_skip_value (se_pg E) (tc_att (rd_td rs ! c)) (nc_cursor nc)) (\<lambda>rest.
                      Inr (None, Some (nc\<lparr>nc_cursor := rest\<rparr>)))
               else Inr (None, Some nc))"

text \<open>The columns of a row, each read or skipped.\<close>

definition visit_row ::
  "scan_env \<Rightarrow> read_state \<Rightarrow> nat \<Rightarrow> (nat \<Rightarrow> bool) \<Rightarrow> native_col option list \<Rightarrow> (datum option list \<times> native_col option list) result" where
  "visit_row E rs row rd cols =
     res_bind (res_map (\<lambda>c. if rd c then pgcolumnar_row_read_column E rs row cols c
                            else pgcolumnar_row_skip_column E rs row cols c) [0..<rd_natts rs])
       (\<lambda>fs. Inr (map fst fs, map snd fs))"

text \<open>Pass one of late materialisation: the qual's columns, the others left where they are.\<close>

definition visit_qual ::
  "scan_env \<Rightarrow> read_state \<Rightarrow> nat \<Rightarrow> (nat \<Rightarrow> bool) \<Rightarrow> native_col option list \<Rightarrow> (datum option list \<times> native_col option list) result" where
  "visit_qual E rs row sel cols =
     res_bind (res_map (\<lambda>c. if sel c then pgcolumnar_row_read_column E rs row cols c else Inr (None, cols ! c)) [0..<rd_natts rs])
       (\<lambda>fs. Inr (map fst fs, map snd fs))"

text \<open>The walk of the unprunable qual over the rows of a vector: whether one passed, and the live rows.\<close>

fun qual_rows ::
  "scan_env \<Rightarrow> read_state \<Rightarrow> row_filter \<Rightarrow> nat \<Rightarrow> nat \<Rightarrow> native_col option list \<Rightarrow> (bool \<times> nat \<times> native_col option list) result" where
  "qual_rows E rs q 0 r cols = Inr (False, 0, cols)"
| "qual_rows E rs q (Suc n) r cols =
     res_bind (visit_qual E rs r (native_is_qual_column rs (Some q)) cols) (\<lambda>(values, cols').
       res_bind (qual_rows E rs q n (r + 1) cols') (\<lambda>(any, live, cols'').
         if dv_row_deleted (rd_deleteMask rs) r then Inr (any, live, cols'')
         else Inr (rf_pass q values \<or> any, live + 1, cols'')))"

fun qual_vectors ::
  "scan_env \<Rightarrow> read_state \<Rightarrow> row_filter \<Rightarrow> u32 list \<Rightarrow> nat list \<Rightarrow> native_col option list \<Rightarrow> bool list \<times> nat \<Rightarrow> (bool list \<times> nat) result" where
  "qual_vectors E rs q starts [] cols acc = Inr acc"
| "qual_vectors E rs q starts (v # vs) cols (skip, filtered) =
     res_bind (qual_rows E rs q (unat (starts ! (v + 1)) - unat (starts ! v)) (unat (starts ! v)) cols) (\<lambda>(any, live, cols').
       qual_vectors E rs q starts vs cols' (if any then (skip, filtered) else (skip[v := True], filtered + live)))"

definition pgcolumnar_native_payload_col_count :: "read_state \<Rightarrow> row_filter option \<Rightarrow> nat" where
  "pgcolumnar_native_payload_col_count rs Q =
     length (filter (\<lambda>c. rd_wanted rs ! c \<and> \<not> native_is_qual_column rs Q c) [0..<rd_natts rs])"

definition pgcolumnar_native_qual_skipvec ::
  "scan_env \<Rightarrow> read_state \<Rightarrow> row_filter option \<Rightarrow> native_col option list \<Rightarrow> nat \<Rightarrow> (bool list \<times> u32 list) option \<Rightarrow>
   ((bool list \<times> u32 list) option \<times> nat) result" where
  "pgcolumnar_native_qual_skipvec E rs Q cols vecCount sv =
     (case (sv, Q) of
        (Some (skip, starts), Some q) \<Rightarrow>
          if vecCount = 0 then Inr (sv, 0)
          else res_bind (qual_vectors E rs q starts [0..<vecCount] cols (skip, 0)) (\<lambda>(skip', filtered).
                 Inr (Some (skip', starts), filtered))
      | _ \<Rightarrow> Inr (sv, 0))"

subsubsection \<open>Loading a group\<close>

definition load_columns ::
  "scan_env \<Rightarrow> rel_state \<Rightarrow> row_filter option \<Rightarrow> row_group \<Rightarrow> read_state \<Rightarrow> read_state result" where
  "load_columns E rel Q rg rs =
     (let chunks = PgColumnarReadColumnChunkList (rd_storageId rs) (rg_groupNumber rg) rel;
          (allDesc, vecCount) = chunk_vectors rs chunks
      in res_bind (read_group_bytes E rel rs rg chunks) (\<lambda>buf.
         res_bind (if allDesc
                   then pgcolumnar_native_build_skipvec (se_pg E) (rd_td rs) (Q \<noteq> None) (group_meta_of rg rel) (rd_prune rs) vecCount
                   else Inr None) (\<lambda>sv0.
         res_bind (decode_pass E rs rg buf (skip_fn sv0) (native_is_qual_column rs Q) chunks (replicate (rd_natts rs) None)) (\<lambda>cols0.
         res_bind (if allDesc then pgcolumnar_native_refine_skipvec E rs cols0 vecCount sv0 else Inr sv0) (\<lambda>sv1.
         res_bind (if allDesc \<and> numPredicates (rd_prune rs) = 0 \<and>
                      pgcolumnar_native_payload_col_count rs Q \<ge> se_qual_min_payload E
                   then pgcolumnar_native_qual_skipvec E rs Q cols0 vecCount sv1 else Inr (sv1, 0)) (\<lambda>(sv2, filtered).
         res_bind (decode_pass E rs rg buf (skip_fn sv2) (\<lambda>c. \<not> native_is_qual_column rs Q c) chunks cols0) (\<lambda>cols.
           Inr (rs\<lparr>rd_buffer := buf, rd_cols := cols, rd_skip := sv2, rd_vectorCount := vecCount, rd_curVec := 0,
                   rd_groupRowCount := rg_rowCount rg, rd_rowInGroup := 0,
                   rd_rowsFilteredEarly := rd_rowsFilteredEarly rs + filtered\<rparr>))))))))"

definition load_masks :: "rel_state \<Rightarrow> row_group \<Rightarrow> read_state \<Rightarrow> read_state" where
  "load_masks rel rg rs =
     (let want = (rg_rowCount rg + 7) div 8;
          dmask = pgcolumnar_merge_delete_vectors
                   (PgColumnarReadDeleteVectorList (rd_storageId rs) (rg_groupNumber rg) (rel_deletes rel)) want
      in rs\<lparr>rd_deleteMask := dmask,
            rd_deadMask := (case rd_deadHorizon rs of
                 None \<Rightarrow> None
               | Some rows \<Rightarrow> if dmask = None then None
                   else pgcolumnar_merge_delete_vectors
                     (PgColumnarReadDeleteVectorList (rd_storageId rs) (rg_groupNumber rg) rows) want)\<rparr>)"

definition pgcolumnar_native_load_group ::
  "scan_env \<Rightarrow> rel_state \<Rightarrow> row_filter option \<Rightarrow> read_state \<Rightarrow> (bool \<times> read_state) result" where
  "pgcolumnar_native_load_group E rel Q rs =
     res_bind (claim_group E rel (drop (rd_groupIndex rs) (rd_groupList rs)) rs) (\<lambda>(claimed, rs1).
       case claimed of
         None \<Rightarrow> Inr (False, rs1)
       | Some rg \<Rightarrow>
           res_bind (load_columns E rel Q rg
               (load_masks rel rg (rs1\<lparr>rd_groupsRead := rd_groupsRead rs1 + 1, rd_group := Some rg\<rparr>)))
             (\<lambda>rs2. Inr (True, rs2)))"

subsubsection \<open>The next row\<close>

fun advance_vec :: "u32 list \<Rightarrow> nat \<Rightarrow> nat \<Rightarrow> nat \<Rightarrow> nat" where
  "advance_vec starts row 0 v = v"
| "advance_vec starts row (Suc n) v =
     (if row \<ge> unat (starts ! (v + 1)) then advance_vec starts row n (v + 1) else v)"

definition skip_column_vec :: "nat \<Rightarrow> native_col option \<Rightarrow> native_col option" where
  "skip_column_vec v nc =
     map_option (\<lambda>k. case nc_vecRawLen k of None \<Rightarrow> k | Some vrl \<Rightarrow> k\<lparr>nc_cursor := drop (vrl ! v) (nc_cursor k)\<rparr>) nc"

definition pgcolumnar_native_skip_current_vector :: "bool list \<Rightarrow> u32 list \<Rightarrow> read_state \<Rightarrow> bool \<times> read_state" where
  "pgcolumnar_native_skip_current_vector skip starts rs =
     (let V = rd_vectorCount rs;
          v = advance_vec starts (rd_rowInGroup rs) (V - rd_curVec rs) (rd_curVec rs);
          rs1 = rs\<lparr>rd_curVec := v\<rparr>
      in if v \<ge> V \<or> \<not> skip ! v \<or> rd_rowInGroup rs \<noteq> unat (starts ! v) then (False, rs1)
         else (True, rs1\<lparr>rd_cols := map (skip_column_vec v) (rd_cols rs),
                         rd_rowInGroup := unat (starts ! (v + 1)), rd_curVec := v + 1\<rparr>))"

datatype scan_step = Finished read_state | Again read_state | Emit nat "datum option list" read_state

text \<open>The part of the loop body that handles the current row.\<close>

definition scan_row :: "scan_env \<Rightarrow> row_filter option \<Rightarrow> read_state \<Rightarrow> scan_step result" where
  "scan_row E Q rs =
     (let row = rd_rowInGroup rs;
          deleted = dv_row_deleted (rd_deleteMask rs) row;
          rowNumber = (case rd_group rs of None \<Rightarrow> 0 | Some g \<Rightarrow> rg_firstRowNumber g) + row;
          step = rs\<lparr>rd_rowInGroup := row + 1\<rparr>
      in case Q of
           Some q \<Rightarrow>
             if deleted
             then res_bind (visit_row E rs row (\<lambda>_. False) (rd_cols rs)) (\<lambda>(values, cols).
                    Inr (Again (step\<lparr>rd_cols := cols\<rparr>)))
             else res_bind (visit_qual E rs row (\<lambda>c. rf_cols q ! c) (rd_cols rs)) (\<lambda>(values1, cols1).
                    let keep = rf_pass q values1
                    in res_bind (res_map (\<lambda>c. if rf_cols q ! c then Inr (values1 ! c, cols1 ! c)
                                              else if keep then pgcolumnar_row_read_column E rs row cols1 c
                                              else pgcolumnar_row_skip_column E rs row cols1 c) [0..<rd_natts rs]) (\<lambda>fs.
                         let step' = step\<lparr>rd_cols := map snd fs\<rparr>
                         in if keep then Inr (Emit rowNumber (map fst fs) step')
                            else Inr (Again (step'\<lparr>rd_rowsFilteredEarly := rd_rowsFilteredEarly rs + 1\<rparr>))))
         | None \<Rightarrow>
             res_bind (visit_row E rs row (\<lambda>_. True) (rd_cols rs)) (\<lambda>(values, cols).
               let step' = step\<lparr>rd_cols := cols\<rparr>
               in if deleted \<and> \<not> rd_emitDeleted rs then Inr (Again step')
                  else if deleted \<and> rd_deadMask rs \<noteq> None \<and> dv_row_deleted (rd_deadMask rs) row then Inr (Again step')
                  else Inr (Emit rowNumber values (step'\<lparr>rd_lastRowDeleted := deleted\<rparr>))))"

definition scan_iter :: "scan_env \<Rightarrow> rel_state \<Rightarrow> row_filter option \<Rightarrow> read_state \<Rightarrow> scan_step result" where
  "scan_iter E rel Q rs =
     (if rd_exhausted rs then Inr (Finished rs)
      else res_bind
        (if rd_group rs = None \<or> rd_rowInGroup rs \<ge> rd_groupRowCount rs
         then pgcolumnar_native_load_group E rel Q rs else Inr (True, rs)) (\<lambda>(more, rs1).
        if \<not> more then Inr (Finished (rs1\<lparr>rd_exhausted := True\<rparr>))
        else case rd_skip rs1 of
               None \<Rightarrow> scan_row E Q rs1
             | Some (skip, starts) \<Rightarrow>
                 (case pgcolumnar_native_skip_current_vector skip starts rs1 of
                    (True, rs2) \<Rightarrow> Inr (Again rs2)
                  | (False, rs2) \<Rightarrow> scan_row E Q rs2)))"

subsection \<open>The loop ends\<close>

lemma claim_group_index:
  assumes "claim_group E rel rgs rs = Inr (Some rg, rs1)"
  shows "rd_groupIndex rs < rd_groupIndex rs1" "rd_groupIndex rs1 \<le> rd_groupIndex rs + length rgs"
    "rd_groupList rs1 = rd_groupList rs"
proof -
  have "rd_groupIndex rs < rd_groupIndex rs1 \<and> rd_groupIndex rs1 \<le> rd_groupIndex rs + length rgs \<and> rd_groupList rs1 = rd_groupList rs"
    using assms
  proof (induction rgs arbitrary: rs)
    case (Cons g rgs)
    show ?case
    proof (cases "group_may_match E rel g (rs\<lparr>rd_groupIndex := rd_groupIndex rs + 1\<rparr>)")
      case (Inr p)
      obtain m pr where p: "p = (m, pr)" by fastforce
      show ?thesis
      proof (cases m)
        case True
        then show ?thesis using Cons.prems Inr p by (auto simp: Let_def)
      next
        case False
        let ?rs = "rs\<lparr>rd_groupIndex := rd_groupIndex rs + 1, rd_prune := pr, rd_groupsSkipped := rd_groupsSkipped rs + 1\<rparr>"
        have "claim_group E rel rgs ?rs = Inr (Some rg, rs1)" using Cons.prems Inr p False by (simp add: Let_def)
        from Cons.IH[OF this] show ?thesis by auto
      qed
    qed (use Cons.prems in \<open>simp add: Let_def\<close>)
  qed simp
  then show "rd_groupIndex rs < rd_groupIndex rs1" "rd_groupIndex rs1 \<le> rd_groupIndex rs + length rgs"
    "rd_groupList rs1 = rd_groupList rs" by auto
qed

lemma load_columns_keeps:
  assumes "load_columns E rel Q rg rs = Inr rs'"
  shows "rd_groupIndex rs' = rd_groupIndex rs" "rd_groupList rs' = rd_groupList rs" "rd_groupRowCount rs' = rg_rowCount rg"
    "rd_rowInGroup rs' = 0"
  using assms by (auto simp: load_columns_def Let_def split_beta res_bind_Inr)

definition scan_order :: "(read_state \<times> read_state) set" where
  "scan_order = measures [\<lambda>rs. length (rd_groupList rs) - rd_groupIndex rs, \<lambda>rs. rd_groupRowCount rs - rd_rowInGroup rs]"

lemma wf_scan_order: "wf scan_order"
  by (simp add: scan_order_def)

lemma advance_vec_bound:
  assumes "advance_vec starts row n v = v'" shows "v' = v + n \<or> row < unat (starts ! (v' + 1))"
  using assms by (induction starts row n v rule: advance_vec.induct) (auto split: if_splits)

lemma skip_vector_advances:
  assumes "pgcolumnar_native_skip_current_vector skip starts rs = (True, rs')"
  shows "rd_rowInGroup rs < rd_rowInGroup rs'" "rd_groupList rs' = rd_groupList rs" "rd_groupIndex rs' = rd_groupIndex rs"
    "rd_groupRowCount rs' = rd_groupRowCount rs"
proof -
  let ?v = "advance_vec starts (rd_rowInGroup rs) (rd_vectorCount rs - rd_curVec rs) (rd_curVec rs)"
  have "?v < rd_vectorCount rs" "rs' = rs\<lparr>rd_curVec := ?v + 1, rd_cols := map (skip_column_vec ?v) (rd_cols rs), rd_rowInGroup := unat (starts ! (?v + 1))\<rparr>"
    using assms by (auto simp: pgcolumnar_native_skip_current_vector_def Let_def split: if_splits)
  then show "rd_rowInGroup rs < rd_rowInGroup rs'" "rd_groupList rs' = rd_groupList rs" "rd_groupIndex rs' = rd_groupIndex rs"
    "rd_groupRowCount rs' = rd_groupRowCount rs"
    using advance_vec_bound[of starts "rd_rowInGroup rs" "rd_vectorCount rs - rd_curVec rs" "rd_curVec rs" ?v] by auto
qed

lemma skip_vector_stays:
  assumes "pgcolumnar_native_skip_current_vector skip starts rs = (False, rs')"
  shows "rs' = rs\<lparr>rd_curVec := rd_curVec rs'\<rparr>"
  using assms by (auto simp: pgcolumnar_native_skip_current_vector_def Let_def split: if_splits)

fun step_state :: "scan_step \<Rightarrow> read_state" where
  "step_state (Finished rs) = rs"
| "step_state (Again rs) = rs"
| "step_state (Emit n vals rs) = rs"

lemma scan_row_advances:
  assumes "scan_row E Q rs = Inr st"
  shows "rd_rowInGroup (step_state st) = rd_rowInGroup rs + 1" "rd_groupList (step_state st) = rd_groupList rs"
    "rd_groupIndex (step_state st) = rd_groupIndex rs" "rd_groupRowCount (step_state st) = rd_groupRowCount rs"
    "st \<noteq> Finished rs'"
  using assms by (auto simp: scan_row_def Let_def res_bind_Inr split_beta split: option.splits if_splits)

lemma scan_iter_decreases:
  assumes "scan_iter E rel Q rs = Inr st" "\<forall>rs'. st \<noteq> Finished rs'"
  shows "(step_state st, rs) \<in> scan_order"
proof -
  have ne: "\<not> rd_exhausted rs" using assms by (auto simp: scan_iter_def)
  obtain more rs1 where l: "(if rd_group rs = None \<or> rd_rowInGroup rs \<ge> rd_groupRowCount rs
         then pgcolumnar_native_load_group E rel Q rs else Inr (True, rs)) = Inr (more, rs1)"
    using assms(1) ne by (auto simp: scan_iter_def res_bind_Inr)
  have more: more
  proof (rule ccontr)
    assume "\<not> more"
    then have "st = Finished (rs1\<lparr>rd_exhausted := True\<rparr>)" using assms(1) ne by (simp add: scan_iter_def l)
    then show False using assms(2) by blast
  qed
  let ?k = "\<lambda>rs. (rd_groupList rs, rd_groupIndex rs, rd_groupRowCount rs)"
  have st: "?k (step_state st) = ?k rs1 \<and> rd_rowInGroup rs1 < rd_rowInGroup (step_state st)"
  proof (cases "rd_skip rs1")
    case None
    then have "scan_row E Q rs1 = Inr st" using assms(1) ne more by (simp add: scan_iter_def l)
    from scan_row_advances(1-4)[OF this] show ?thesis by simp
  next
    case (Some p)
    obtain skip starts b rs2 where p: "p = (skip, starts)" "pgcolumnar_native_skip_current_vector skip starts rs1 = (b, rs2)"
      by (metis surj_pair)
    show ?thesis
    proof (cases b)
      case True
      then have "st = Again rs2" using assms(1) ne more Some p by (simp add: scan_iter_def l)
      then show ?thesis using skip_vector_advances[of skip starts rs1 rs2] p(2) True by simp
    next
      case False
      then have "scan_row E Q rs2 = Inr st" using assms(1) ne more Some p by (simp add: scan_iter_def l)
      moreover have sk: "pgcolumnar_native_skip_current_vector skip starts rs1 = (False, rs2)" using p(2) False by simp
      obtain v where "rs2 = rs1\<lparr>rd_curVec := v\<rparr>" by (rule that[OF skip_vector_stays[OF sk]])
      then have "?k rs2 = ?k rs1" "rd_rowInGroup rs2 = rd_rowInGroup rs1" by simp_all
      ultimately show ?thesis using scan_row_advances(1-4)[of E Q rs2 st] by simp
    qed
  qed
  show ?thesis
  proof (cases "rd_group rs = None \<or> rd_rowInGroup rs \<ge> rd_groupRowCount rs")
    case False
    then show ?thesis using st l by (auto simp: scan_order_def)
  next
    case True
    then obtain rg rs2 where c: "claim_group E rel (drop (rd_groupIndex rs) (rd_groupList rs)) rs = Inr (Some rg, rs2)"
        "load_columns E rel Q rg (load_masks rel rg (rs2\<lparr>rd_groupsRead := rd_groupsRead rs2 + 1, rd_group := Some rg\<rparr>)) = Inr rs1"
      using l more by (auto simp: pgcolumnar_native_load_group_def res_bind_Inr split: option.splits)
    have "rd_groupList rs1 = rd_groupList rs" "rd_groupIndex rs < rd_groupIndex rs1"
        "rd_groupIndex rs1 \<le> rd_groupIndex rs + (length (rd_groupList rs) - rd_groupIndex rs)"
      using claim_group_index[OF c(1)] load_columns_keeps[OF c(2)] by (simp_all add: load_masks_def Let_def)
    then show ?thesis using st by (auto simp: scan_order_def)
  qed
qed

function pgcolumnar_native_next_row ::
  "scan_env \<Rightarrow> rel_state \<Rightarrow> row_filter option \<Rightarrow> read_state \<Rightarrow> ((nat \<times> datum option list) option \<times> read_state) result" where
  "pgcolumnar_native_next_row E rel Q rs =
     (case scan_iter E rel Q rs of
        Inl e \<Rightarrow> Inl e
      | Inr (Finished rs') \<Rightarrow> Inr (None, rs')
      | Inr (Emit n vals rs') \<Rightarrow> Inr (Some (n, vals), rs')
      | Inr (Again rs') \<Rightarrow> pgcolumnar_native_next_row E rel Q rs')"
  by pat_completeness auto
termination
proof (relation "inv_image scan_order (\<lambda>(E, rel, Q, rs). rs)")
  fix E rel Q rs b rs' assume "scan_iter E rel Q rs = Inr b" "b = Again rs'"
  then show "((E, rel, Q, rs'), E, rel, Q, rs) \<in> inv_image scan_order (\<lambda>(E, rel, Q, rs). rs)"
    using scan_iter_decreases[of E rel Q rs b] by auto
qed (simp add: wf_scan_order wf_inv_image)

declare pgcolumnar_native_next_row.simps [simp del]

definition pgcolumnar_read_start :: "rel_state \<Rightarrow> read_state \<Rightarrow> read_state" where
  "pgcolumnar_read_start rel rs =
     (if rd_started rs then rs
      else if rd_exhausted rs then rs\<lparr>rd_started := True\<rparr>
      else rs\<lparr>rd_started := True, rd_groupList := PgColumnarReadRowGroupList (rd_storageId rs) rel, rd_groupIndex := 0\<rparr>)"

definition PgColumnarReadNextRow ::
  "scan_env \<Rightarrow> rel_state \<Rightarrow> read_state \<Rightarrow> ((nat \<times> datum option list) option \<times> read_state) result" where
  "PgColumnarReadNextRow E rel rs = pgcolumnar_native_next_row E rel None (pgcolumnar_read_start rel rs)"

definition PgColumnarReadNextRowFiltered ::
  "scan_env \<Rightarrow> rel_state \<Rightarrow> row_filter \<Rightarrow> read_state \<Rightarrow> ((nat \<times> datum option list) option \<times> read_state) result" where
  "PgColumnarReadNextRowFiltered E rel q rs = pgcolumnar_native_next_row E rel (Some q) (pgcolumnar_read_start rel rs)"

text \<open>A caller that fetches rows until none is left.\<close>

inductive fetches ::
  "(read_state \<Rightarrow> ((nat \<times> datum option list) option \<times> read_state) result) \<Rightarrow> read_state \<Rightarrow> (nat \<times> datum option list) list \<Rightarrow> bool"
  for nxt where
  none_left: "nxt rs = Inr (None, rs') \<Longrightarrow> fetches nxt rs []"
| one_more: "nxt rs = Inr (Some r, rs') \<Longrightarrow> fetches nxt rs' out \<Longrightarrow> fetches nxt rs (r # out)"

inductive_cases fetchesE: "fetches nxt rs out"

end
