(* ===== verification/Scan_Rows.thy ===== *)
theory Scan_Rows
  imports Group_Scan
begin

section \<open>What a scan returns\<close>

text \<open>
  The correctness of the reader of \<open>Group_Scan\<close> on groups the writer of \<open>Row_Group\<close> stored:
  where the cursor of a column stands at each row, also over vectors that were not decoded;
  the bytes of the wanted columns in the group buffer; the columns a load decodes; the vectors
  it may skip; and the rows of the whole scan.
\<close>

subsection \<open>Vectors and rows\<close>

text \<open>The vector that holds a row, by the vectors' lengths.\<close>

fun vec_of :: "nat list \<Rightarrow> nat \<Rightarrow> nat" where
  "vec_of [] r = 0"
| "vec_of (n # ns) r = (if r < n then 0 else Suc (vec_of ns (r - n)))"

lemma vec_of_bounds:
  assumes "r < sum_list ns"
  shows "vec_of ns r < length ns" "sum_list (take (vec_of ns r) ns) \<le> r" "r < sum_list (take (Suc (vec_of ns r)) ns)"
proof -
  have "vec_of ns r < length ns \<and> sum_list (take (vec_of ns r) ns) \<le> r \<and> r < sum_list (take (Suc (vec_of ns r)) ns)"
    using assms
  proof (induction ns r rule: vec_of.induct)
    case (2 n ns r)
    show ?case
    proof (cases "r < n")
      case False
      then have "r - n < sum_list ns" using "2.prems" by auto
      from "2.IH"[OF False this] show ?thesis using False by auto
    qed (use "2.prems" in simp)
  qed simp
  then show "vec_of ns r < length ns" "sum_list (take (vec_of ns r) ns) \<le> r" "r < sum_list (take (Suc (vec_of ns r)) ns)"
    by simp_all
qed

lemma vec_of_unique:
  assumes "w < length ns" "sum_list (take w ns) \<le> r" "r < sum_list (take (Suc w) ns)"
  shows "vec_of ns r = w"
  using assms
proof (induction ns r arbitrary: w rule: vec_of.induct)
  case (2 n ns r)
  show ?case
  proof (cases "r < n")
    case True
    then show ?thesis using 2 by (cases w) auto
  next
    case False
    then obtain k where w: "w = Suc k" using 2 by (cases w) auto
    then show ?thesis using "2.IH"[OF False, of k] "2.prems" False by auto
  qed
qed simp

lemma sum_take_le: "sum_list (take w ns) \<le> sum_list (ns :: nat list)"
  using sum_list_append[of "take w ns" "drop w ns"] by simp

lemma sum_take_mono: "v \<le> w \<Longrightarrow> sum_list (take v ns) \<le> sum_list (take w (ns :: nat list))"
  using sum_take_le[of v "take w ns"] by (simp add: min_absorb1)

subsection \<open>The cursor of a column\<close>

text \<open>The value bytes of some rows of a column, and the stream from a row on.\<close>

definition row_bytes :: "pg_datum \<Rightarrow> attr \<Rightarrow> datum option list \<Rightarrow> byte list" where
  "row_bytes V att rows = concat (map (value_bytes V att) (present_values V att rows))"

lemma row_bytes_simps [simp]:
  "row_bytes V att [] = []"
  "row_bytes V att (x # xs) = (case x of None \<Rightarrow> [] | Some d \<Rightarrow> value_bytes V att (flat_datum V att d)) @ row_bytes V att xs"
  by (simp_all add: row_bytes_def present_values_def split: option.split)

fun stream_from ::
  "(nat \<Rightarrow> byte list) \<Rightarrow> pg_datum \<Rightarrow> attr \<Rightarrow> (nat \<Rightarrow> bool) \<Rightarrow> nat \<Rightarrow> datum option list list \<Rightarrow> nat \<Rightarrow> byte list" where
  "stream_from junk V att skp v [] r = []"
| "stream_from junk V att skp v (rows # rest) r =
     (if r < length rows
      then (if skp v \<and> row_bytes V att rows \<noteq> [] then junk (length (row_bytes V att rows)) else row_bytes V att (drop r rows)) @
           stream_from junk V att skp (v + 1) rest 0
      else stream_from junk V att skp (v + 1) rest (r - length rows))"

lemma stream_from_raw:
  assumes "list_all2 (\<lambda>rows col. valueStream col = row_bytes V att rows) cells cols"
  shows "raw_stream junk (map (\<lambda>rows. length (row_bytes V att rows)) cells) (decoded_vectors skp v cols) =
    stream_from junk V att skp v cells 0"
  using assms
proof (induction arbitrary: v rule: list_all2_induct)
  case (Cons rows cells col cols)
  then show ?case by (cases "rows = []") (auto simp: raw_stream_def)
qed (simp add: raw_stream_def)

lemma stream_step:
  assumes "r < length (concat cells)" "\<not> skp (v + vec_of (map length cells) r)"
  shows "stream_from junk V att skp v cells r =
    (case concat cells ! r of None \<Rightarrow> [] | Some d \<Rightarrow> value_bytes V att (flat_datum V att d)) @
    stream_from junk V att skp v cells (r + 1)"
  using assms
proof (induction cells arbitrary: v r)
  case (Cons rows cells)
  show ?case
  proof (cases "r < length rows")
    case True
    then have d: "drop r rows = rows ! r # drop (Suc r) rows" by (rule Cons_nth_drop_Suc[symmetric])
    have ns: "\<not> skp v" using Cons.prems True by simp
    show ?thesis
    proof (cases "Suc r < length rows")
      case True
      then show ?thesis using ns d \<open>r < length rows\<close> by (simp add: nth_append)
    next
      case False
      then have "drop (Suc r) rows = []" "Suc r = length rows" using True by simp_all
      then show ?thesis using ns d True False by (simp add: nth_append)
    qed
  next
    case False
    then have "stream_from junk V att skp (v + 1) cells (r - length rows) =
        (case concat cells ! (r - length rows) of None \<Rightarrow> [] | Some d \<Rightarrow> value_bytes V att (flat_datum V att d)) @
        stream_from junk V att skp (v + 1) cells (r - length rows + 1)"
      using Cons.prems by (intro Cons.IH) auto
    then show ?thesis using False by (simp add: nth_append Suc_diff_le)
  qed
qed simp

lemma stream_skip:
  assumes "w < length cells" "\<forall>n. length (junk n) = n"
  shows "drop (length (row_bytes V att (cells ! w))) (stream_from junk V att skp v cells (sum_list (map length (take w cells)))) =
    stream_from junk V att skp v cells (sum_list (map length (take (Suc w) cells)))"
  using assms(1)
proof (induction cells arbitrary: v w)
  case (Cons rows cells)
  show ?case
  proof (cases w)
    case 0
    then show ?thesis using assms(2) by (cases "rows = []") auto
  next
    case (Suc k)
    then show ?thesis using Cons.IH[of k "v + 1"] Cons.prems by simp
  qed
qed simp

text \<open>A materialised column whose cursor stands at row \<open>r\<close>.\<close>

definition col_at ::
  "(nat \<Rightarrow> byte list) \<Rightarrow> pg_datum \<Rightarrow> attr \<Rightarrow> (nat \<Rightarrow> bool) \<Rightarrow> datum option list list \<Rightarrow> nat \<Rightarrow> native_col \<Rightarrow> bool" where
  "col_at junk V att skp cells r nc \<longleftrightarrow>
     (\<forall>i < length (concat cells). bufbit (nc_validity nc) i \<longleftrightarrow> concat cells ! i \<noteq> None) \<and>
     nc_vecRawLen nc = Some (map (\<lambda>rows. length (row_bytes V att rows)) cells) \<and>
     nc_cursor nc = stream_from junk V att skp 0 cells r"

text \<open>The cells of a column are values of its type.\<close>

definition cells_ok :: "pg_datum \<Rightarrow> (u64 \<Rightarrow> nat \<Rightarrow> bool) \<Rightarrow> attr \<Rightarrow> datum option list list \<Rightarrow> bool" where
  "cells_ok V ok att cells \<longleftrightarrow> pg_datum_ok V ok \<and>
     (\<forall>d. Some d \<in> set (concat cells) \<longrightarrow> datum_fits ok att (flat_datum V att d) \<and>
        stored_datum V att (flat_datum V att d) = flat_datum V att d)"

lemma cell_decodes:
  assumes "cells_ok V ok att cells" "col_at junk V att skp cells r nc" "r < length (concat cells)"
    "\<not> skp (vec_of (map length cells) r)" "concat cells ! r = Some d"
  shows "PgColumnarDecodeValue V att (nc_cursor nc) = Inr (flat_datum V att d, stream_from junk V att skp 0 cells (r + 1))"
proof -
  have "Some d \<in> set (concat cells)" using assms(3,5) by (metis nth_mem)
  then have d: "pg_datum_ok V ok" "datum_fits ok att (flat_datum V att d)"
      "stored_datum V att (flat_datum V att d) = flat_datum V att d" using assms(1) by (auto simp: cells_ok_def)
  show ?thesis
    using stream_step[of r cells skp 0 junk V att] assms decode_value_bytes[OF d(1,2)] d(3) by (simp add: col_at_def)
qed

lemma col_at_next:
  assumes "col_at junk V att skp cells r nc"
  shows "col_at junk V att skp cells (r + 1) (nc\<lparr>nc_cursor := stream_from junk V att skp 0 cells (r + 1)\<rparr>)"
  using assms by (simp add: col_at_def)

lemma col_at_null:
  assumes "col_at junk V att skp cells r nc" "r < length (concat cells)" "\<not> skp (vec_of (map length cells) r)" "concat cells ! r = None"
  shows "col_at junk V att skp cells (r + 1) nc"
  using assms stream_step[of r cells skp 0 junk V att] by (simp add: col_at_def)

lemma col_at_skip:
  assumes "col_at junk V att skp cells (sum_list (map length (take w cells))) nc" "w < length cells" "\<forall>n. length (junk n) = n"
  shows "\<exists>nc'. skip_column_vec w (Some nc) = Some nc' \<and> col_at junk V att skp cells (sum_list (map length (take (Suc w) cells))) nc'"
  using assms stream_skip[OF assms(2,3), of V att skp 0] by (simp add: col_at_def skip_column_vec_def)

subsection \<open>Visiting a row\<close>

text \<open>
  The columns of a group under a scan: \<open>cells c\<close> is what the group stores of column \<open>c\<close>, if it
  stores it, by vectors of the lengths \<open>lens\<close>; \<open>S c\<close> says which vectors were not decoded.
\<close>

definition cells_fit ::
  "pg_datum \<Rightarrow> (u64 \<Rightarrow> nat \<Rightarrow> bool) \<Rightarrow> table_col list \<Rightarrow> nat list \<Rightarrow> (nat \<Rightarrow> datum option list list option) \<Rightarrow> bool" where
  "cells_fit V ok td lens cells \<longleftrightarrow>
     (\<forall>c < length td. \<forall>cl. cells c = Some cl \<longrightarrow> cells_ok V ok (tc_att (td ! c)) cl \<and> map length cl = lens)"

definition col_view ::
  "scan_env \<Rightarrow> table_col list \<Rightarrow> bool list \<Rightarrow> (nat \<Rightarrow> datum option list list option) \<Rightarrow> (nat \<Rightarrow> nat \<Rightarrow> bool) \<Rightarrow> nat \<Rightarrow>
   nat \<Rightarrow> native_col option \<Rightarrow> bool" where
  "col_view E td wanted cells S r c x =
     (if wanted ! c \<and> cells c \<noteq> None
      then \<exists>nc. x = Some nc \<and> col_at (se_junk E) (se_pg E) (tc_att (td ! c)) (S c) (the (cells c)) r nc
      else x = None)"

definition cols_at ::
  "scan_env \<Rightarrow> table_col list \<Rightarrow> bool list \<Rightarrow> (nat \<Rightarrow> datum option list list option) \<Rightarrow> (nat \<Rightarrow> nat \<Rightarrow> bool) \<Rightarrow> nat \<Rightarrow>
   native_col option list \<Rightarrow> bool" where
  "cols_at E td wanted cells S r cols \<longleftrightarrow> length cols = length td \<and>
     (\<forall>c < length td. col_view E td wanted cells S r c (cols ! c))"

definition cell_value ::
  "scan_env \<Rightarrow> read_state \<Rightarrow> (nat \<Rightarrow> datum option list list option) \<Rightarrow> nat \<Rightarrow> nat \<Rightarrow> datum option" where
  "cell_value E rs cells r c =
     (if \<not> rd_wanted rs ! c then None
      else case cells c of
             None \<Rightarrow> rd_missing rs ! c
           | Some cl \<Rightarrow> flat_value (se_pg E) (tc_att (rd_td rs ! c)) (concat cl ! r))"

lemma fetch_is_decode:
  assumes "attbyval att" "PgColumnarDecodeValue V att cur = Inr (d, rest)"
  shows "\<not> int (length cur) < attlen att" "d = ByVal (fetch_att V cur (nat (attlen att)))" "rest = drop (nat (attlen att)) cur"
  using assms by (auto simp: PgColumnarDecodeValue_def PgColumnarDecodeValueByLen_def split: if_splits)

lemma visit_column:
  assumes fit: "cells_fit (se_pg E) ok (rd_td rs) lens cells" and at: "col_view E (rd_td rs) (rd_wanted rs) cells S r c (cols ! c)"
    and r: "r < sum_list lens" "\<not> S c (vec_of lens r)" and c: "c < rd_natts rs"
  obtains nc where "pgcolumnar_row_read_column E rs r cols c = Inr (cell_value E rs cells r c, nc)"
    "pgcolumnar_row_skip_column E rs r cols c = Inr (None, nc)"
    "col_view E (rd_td rs) (rd_wanted rs) cells S (r + 1) c nc"
proof (cases "rd_wanted rs ! c \<and> cells c \<noteq> None")
  case False
  then have "cols ! c = None" using at by (simp add: col_view_def split: if_splits)
  then show thesis using that[of None] False
    by (auto simp: col_view_def pgcolumnar_row_read_column_def pgcolumnar_row_skip_column_def cell_value_def Let_def)
next
  case True
  then obtain cl where cl: "cells c = Some cl" by blast
  let ?att = "tc_att (rd_td rs ! c)" and ?V = "se_pg E"
  have ok: "cells_ok ?V ok ?att cl" "map length cl = lens" using fit c cl by (simp_all add: cells_fit_def)
  then have rl: "r < length (concat cl)" using r(1) by (simp add: length_concat)
  have ns: "\<not> S c (vec_of (map length cl) r)" using r(2) ok(2) by simp
  obtain k where k: "cols ! c = Some k" "col_at (se_junk E) ?V ?att (S c) cl r k"
    using at True cl by (auto simp: col_view_def)
  have bit: "bufbit (nc_validity k) r \<longleftrightarrow> concat cl ! r \<noteq> None" using k(2) rl by (simp add: col_at_def)
  show thesis
  proof (cases "concat cl ! r")
    case None
    then show thesis using that[of "Some k"] True cl k bit col_at_null[OF k(2) rl ns None]
      by (simp add: col_view_def pgcolumnar_row_read_column_def pgcolumnar_row_skip_column_def cell_value_def flat_value_def Let_def)
  next
    case (Some d)
    let ?k = "k\<lparr>nc_cursor := stream_from (se_junk E) ?V ?att (S c) 0 cl (r + 1)\<rparr>"
    have dec: "PgColumnarDecodeValue ?V ?att (nc_cursor k) = Inr (flat_datum ?V ?att d, stream_from (se_junk E) ?V ?att (S c) 0 cl (r + 1))"
      by (rule cell_decodes[OF ok(1) k(2) rl ns Some])
    have rd: "pgcolumnar_row_read_column E rs r cols c = Inr (Some (flat_datum ?V ?att d), Some ?k)"
    proof (cases "attbyval ?att")
      case True
      from fetch_is_decode[OF this dec] show ?thesis using True \<open>rd_wanted rs ! c \<and> cells c \<noteq> None\<close> k(1) bit Some
        by (simp add: pgcolumnar_row_read_column_def Let_def)
    next
      case False
      then show ?thesis using dec \<open>rd_wanted rs ! c \<and> cells c \<noteq> None\<close> k(1) bit Some
        by (simp add: pgcolumnar_row_read_column_def Let_def)
    qed
    moreover have "pgcolumnar_row_skip_column E rs r cols c = Inr (None, Some ?k)"
      using dec True k(1) bit Some by (simp add: pgcolumnar_row_skip_column_def skip_value_eq_decode)
    ultimately show thesis using that[of "Some ?k"] True cl Some col_at_next[OF k(2)] by (simp add: col_view_def cell_value_def flat_value_def)
  qed
qed

text \<open>Every column of a row, read or skipped: the same cursors move on to the next row.\<close>

lemma visit_columns:
  assumes fit: "cells_fit (se_pg E) ok (rd_td rs) lens cells" and at: "cols_at E (rd_td rs) (rd_wanted rs) cells S r cols"
    and r: "r < sum_list lens" "\<forall>c < rd_natts rs. \<not> S c (vec_of lens r)"
  obtains cols' where "cols_at E (rd_td rs) (rd_wanted rs) cells S (r + 1) cols'" "length cols' = rd_natts rs"
    "\<forall>c < rd_natts rs. pgcolumnar_row_read_column E rs r cols c = Inr (cell_value E rs cells r c, cols' ! c) \<and>
       pgcolumnar_row_skip_column E rs r cols c = Inr (None, cols' ! c)"
proof -
  let ?P = "\<lambda>c nc. pgcolumnar_row_read_column E rs r cols c = Inr (cell_value E rs cells r c, nc) \<and>
       pgcolumnar_row_skip_column E rs r cols c = Inr (None, nc) \<and>
       col_view E (rd_td rs) (rd_wanted rs) cells S (r + 1) c nc"
  have "\<forall>c. \<exists>nc. c < rd_natts rs \<longrightarrow> ?P c nc"
  proof
    fix c show "\<exists>nc. c < rd_natts rs \<longrightarrow> ?P c nc"
    proof (cases "c < rd_natts rs")
      case True
      then have "\<not> S c (vec_of lens r)" using r(2) by blast
      moreover have "col_view E (rd_td rs) (rd_wanted rs) cells S r c (cols ! c)" using at True by (simp add: cols_at_def)
      ultimately show ?thesis using visit_column[OF fit _ r(1) _ True, of S cols] by metis
    qed simp
  qed
  then obtain f where f: "\<forall>c. c < rd_natts rs \<longrightarrow> ?P c (f c)" by (rule exE[OF choice])
  show thesis
    by (rule that[of "map f [0..<rd_natts rs]"]) (use f in \<open>simp_all add: cols_at_def\<close>)
qed

lemma res_map_zip:
  assumes "\<forall>c < n. f c = Inr (g c, xs ! c)" "length xs = n"
  shows "res_map f [0..<n] = Inr (map (\<lambda>c. (g c, xs ! c)) [0..<n])"
  using assms(1) by (intro res_map_all) simp

lemma column_cong:
  assumes "xs ! c = ys ! c"
  shows "pgcolumnar_row_read_column E rs r xs c = pgcolumnar_row_read_column E rs r ys c"
    "pgcolumnar_row_skip_column E rs r xs c = pgcolumnar_row_skip_column E rs r ys c"
  by (simp_all only: pgcolumnar_row_read_column_def pgcolumnar_row_skip_column_def assms)

lemma visit_row_at:
  assumes fit: "cells_fit (se_pg E) ok (rd_td rs) lens cells" and at: "cols_at E (rd_td rs) (rd_wanted rs) cells S r cols"
    and r: "r < sum_list lens" "\<forall>c < rd_natts rs. \<not> S c (vec_of lens r)"
  obtains cols' where "cols_at E (rd_td rs) (rd_wanted rs) cells S (r + 1) cols'"
    "\<And>sel. visit_row E rs r sel cols = Inr (map (\<lambda>c. if sel c then cell_value E rs cells r c else None) [0..<rd_natts rs], cols')"
    "\<And>q :: row_filter. \<exists>cols1. visit_qual E rs r (\<lambda>c. rf_cols q ! c) cols =
         Inr (map (\<lambda>c. if rf_cols q ! c then cell_value E rs cells r c else None) [0..<rd_natts rs], cols1) \<and>
       (\<forall>k. res_map (\<lambda>c. if rf_cols q ! c
             then Inr (map (\<lambda>c. if rf_cols q ! c then cell_value E rs cells r c else None) [0..<rd_natts rs] ! c, cols1 ! c)
             else if k then pgcolumnar_row_read_column E rs r cols1 c
             else pgcolumnar_row_skip_column E rs r cols1 c) [0..<rd_natts rs] =
         Inr (map (\<lambda>c. (if rf_cols q ! c \<or> k then cell_value E rs cells r c else None, cols' ! c)) [0..<rd_natts rs]))"
proof -
  let ?n = "rd_natts rs"
  obtain cols' where c': "cols_at E (rd_td rs) (rd_wanted rs) cells S (r + 1) cols'" "length cols' = ?n"
    "\<forall>c < ?n. pgcolumnar_row_read_column E rs r cols c = Inr (cell_value E rs cells r c, cols' ! c) \<and>
       pgcolumnar_row_skip_column E rs r cols c = Inr (None, cols' ! c)"
    by (rule visit_columns[OF fit at r])
  have len: "length cols = ?n" using at by (simp add: cols_at_def)
  have ext: "map (\<lambda>c. cols' ! c) [0..<?n] = cols'" using c'(2) map_nth[of cols'] by simp
  have v: "visit_row E rs r sel cols = Inr (map (\<lambda>c. if sel c then cell_value E rs cells r c else None) [0..<?n], cols')" for sel
  proof -
    have "res_map (\<lambda>c. if sel c then pgcolumnar_row_read_column E rs r cols c else pgcolumnar_row_skip_column E rs r cols c) [0..<?n] =
        Inr (map (\<lambda>c. (if sel c then cell_value E rs cells r c else None, cols' ! c)) [0..<?n])"
      by (rule res_map_zip) (use c' in auto)
    then show ?thesis using ext by (simp add: visit_row_def comp_def)
  qed
  have q: "visit_qual E rs r sel cols = Inr (map (\<lambda>c. if sel c then cell_value E rs cells r c else None) [0..<?n],
      map (\<lambda>c. if sel c then cols' ! c else cols ! c) [0..<?n])" for sel
  proof -
    let ?xs = "map (\<lambda>c. if sel c then cols' ! c else cols ! c) [0..<?n]"
    have "res_map (\<lambda>c. if sel c then pgcolumnar_row_read_column E rs r cols c else Inr (None, cols ! c)) [0..<?n] =
        Inr (map (\<lambda>c. (if sel c then cell_value E rs cells r c else None, ?xs ! c)) [0..<?n])"
      by (rule res_map_zip) (use c'(3) in auto)
    then show ?thesis by (simp add: visit_qual_def comp_def map_eq_conv)
  qed
  show thesis
  proof (rule that[OF c'(1) v])
    fix q :: row_filter
    let ?vals = "map (\<lambda>c. if rf_cols q ! c then cell_value E rs cells r c else None) [0..<?n]"
    let ?cols = "map (\<lambda>c. if rf_cols q ! c then cols' ! c else cols ! c) [0..<?n]"
    have same: "pgcolumnar_row_read_column E rs r ?cols c = pgcolumnar_row_read_column E rs r cols c"
        "pgcolumnar_row_skip_column E rs r ?cols c = pgcolumnar_row_skip_column E rs r cols c" if "c < ?n" "\<not> rf_cols q ! c" for c
      by (rule column_cong[of ?cols c cols]; use that in simp)+
    have "res_map (\<lambda>c. if rf_cols q ! c then Inr (?vals ! c, ?cols ! c)
           else if k then pgcolumnar_row_read_column E rs r ?cols c
           else pgcolumnar_row_skip_column E rs r ?cols c) [0..<?n] =
      Inr (map (\<lambda>c. (if rf_cols q ! c \<or> k then cell_value E rs cells r c else None, cols' ! c)) [0..<?n])" for k
      by (rule res_map_zip) (use c' same in auto)
    then show "\<exists>cols1. visit_qual E rs r (\<lambda>c. rf_cols q ! c) cols = Inr (?vals, cols1) \<and>
       (\<forall>k. res_map (\<lambda>c. if rf_cols q ! c then Inr (?vals ! c, cols1 ! c)
             else if k then pgcolumnar_row_read_column E rs r cols1 c
             else pgcolumnar_row_skip_column E rs r cols1 c) [0..<?n] =
         Inr (map (\<lambda>c. (if rf_cols q ! c \<or> k then cell_value E rs cells r c else None, cols' ! c)) [0..<?n]))"
      using q by blast
  qed
qed

lemma visit_qual_at:
  assumes fit: "cells_fit (se_pg E) ok (rd_td rs) lens cells"
    and at: "\<forall>c < rd_natts rs. sel c \<longrightarrow> col_view E (rd_td rs) (rd_wanted rs) cells S r c (cols ! c)"
    and r: "r < sum_list lens" "\<forall>c < rd_natts rs. \<not> S c (vec_of lens r)"
  obtains cols' where "visit_qual E rs r sel cols = Inr (map (\<lambda>c. if sel c then cell_value E rs cells r c else None) [0..<rd_natts rs], cols')"
    "\<forall>c < rd_natts rs. sel c \<longrightarrow> col_view E (rd_td rs) (rd_wanted rs) cells S (r + 1) c (cols' ! c)"
proof -
  let ?n = "rd_natts rs"
  let ?P = "\<lambda>c nc. pgcolumnar_row_read_column E rs r cols c = Inr (cell_value E rs cells r c, nc) \<and>
       col_view E (rd_td rs) (rd_wanted rs) cells S (r + 1) c nc"
  have "\<forall>c. \<exists>nc. c < ?n \<and> sel c \<longrightarrow> ?P c nc"
  proof
    fix c show "\<exists>nc. c < ?n \<and> sel c \<longrightarrow> ?P c nc"
    proof (cases "c < ?n \<and> sel c")
      case True
      then have "\<not> S c (vec_of lens r)" "col_view E (rd_td rs) (rd_wanted rs) cells S r c (cols ! c)" "c < ?n"
        using r(2) at by blast+
      then show ?thesis using visit_column[OF fit _ r(1), of S c cols] by metis
    qed blast
  qed
  then obtain f where f: "\<forall>c. c < ?n \<and> sel c \<longrightarrow> ?P c (f c)" by (rule exE[OF choice])
  let ?xs = "map (\<lambda>c. if sel c then f c else cols ! c) [0..<?n]"
  have "res_map (\<lambda>c. if sel c then pgcolumnar_row_read_column E rs r cols c else Inr (None, cols ! c)) [0..<?n] =
      Inr (map (\<lambda>c. (if sel c then cell_value E rs cells r c else None, ?xs ! c)) [0..<?n])"
    by (rule res_map_zip) (use f in auto)
  then have "visit_qual E rs r sel cols = Inr (map (\<lambda>c. if sel c then cell_value E rs cells r c else None) [0..<?n], ?xs)"
    by (simp add: visit_qual_def comp_def map_eq_conv)
  then show thesis by (rule that) (use f in simp)
qed

subsection \<open>The rows of a loaded group\<close>

inductive scan_out ::
  "scan_env \<Rightarrow> rel_state \<Rightarrow> row_filter option \<Rightarrow> read_state \<Rightarrow> (nat \<times> datum option list) list \<Rightarrow> bool"
  for E rel Q where
  finished: "scan_iter E rel Q rs = Inr (Finished rs') \<Longrightarrow> scan_out E rel Q rs []"
| again: "scan_iter E rel Q rs = Inr (Again rs') \<Longrightarrow> scan_out E rel Q rs' out \<Longrightarrow> scan_out E rel Q rs out"
| emit: "scan_iter E rel Q rs = Inr (Emit n vals rs') \<Longrightarrow> scan_out E rel Q rs' out \<Longrightarrow> scan_out E rel Q rs ((n, vals) # out)"

definition row_shown :: "row_filter option \<Rightarrow> read_state \<Rightarrow> nat \<Rightarrow> bool" where
  "row_shown Q rs r \<longleftrightarrow> \<not> dv_row_deleted (rd_deleteMask rs) r \<or>
     Q = None \<and> rd_emitDeleted rs \<and> \<not> dv_row_deleted (rd_deadMask rs) r"

definition row_passes ::
  "scan_env \<Rightarrow> row_filter option \<Rightarrow> read_state \<Rightarrow> (nat \<Rightarrow> datum option list list option) \<Rightarrow> nat \<Rightarrow> bool" where
  "row_passes E Q rs cells r = (case Q of None \<Rightarrow> True
     | Some q \<Rightarrow> rf_pass q (map (\<lambda>c. if rf_cols q ! c then cell_value E rs cells r c else None) [0..<rd_natts rs]))"

definition row_out ::
  "scan_env \<Rightarrow> read_state \<Rightarrow> row_group \<Rightarrow> (nat \<Rightarrow> datum option list list option) \<Rightarrow> nat \<Rightarrow> nat \<times> datum option list" where
  "row_out E rs g cells r = (rg_firstRowNumber g + r, map (cell_value E rs cells r) [0..<rd_natts rs])"

definition row_kept :: "nat list \<Rightarrow> (bool list \<times> u32 list) option \<Rightarrow> nat \<Rightarrow> bool" where
  "row_kept lens sv r \<longleftrightarrow> \<not> skip_fn sv (vec_of lens r)"

text \<open>What the rows of one group leave as it is in the state.\<close>

definition scan_frame :: "read_state \<Rightarrow> read_state" where
  "scan_frame rs = rs\<lparr>rd_cols := [], rd_rowInGroup := 0, rd_curVec := 0, rd_lastRowDeleted := False, rd_rowsFilteredEarly := 0\<rparr>"

lemma scan_frameD:
  assumes "scan_frame rs' = scan_frame rs"
  shows "rd_td rs' = rd_td rs" "rd_wanted rs' = rd_wanted rs" "rd_missing rs' = rd_missing rs"
    "rd_deleteMask rs' = rd_deleteMask rs" "rd_deadMask rs' = rd_deadMask rs" "rd_emitDeleted rs' = rd_emitDeleted rs"
    "rd_group rs' = rd_group rs" "rd_groupRowCount rs' = rd_groupRowCount rs" "rd_exhausted rs' = rd_exhausted rs"
    "rd_skip rs' = rd_skip rs" "rd_vectorCount rs' = rd_vectorCount rs"
  using arg_cong[OF assms, of rd_td] arg_cong[OF assms, of rd_wanted] arg_cong[OF assms, of rd_missing]
    arg_cong[OF assms, of rd_deleteMask] arg_cong[OF assms, of rd_deadMask] arg_cong[OF assms, of rd_emitDeleted]
    arg_cong[OF assms, of rd_group] arg_cong[OF assms, of rd_groupRowCount] arg_cong[OF assms, of rd_exhausted]
    arg_cong[OF assms, of rd_skip] arg_cong[OF assms, of rd_vectorCount]
  by (simp_all add: scan_frame_def)

lemma cell_value_cong:
  assumes "rd_td rs' = rd_td rs" "rd_wanted rs' = rd_wanted rs" "rd_missing rs' = rd_missing rs"
  shows "cell_value E rs' = cell_value E rs" "row_passes E Q rs' = row_passes E Q rs" "row_out E rs' = row_out E rs"
proof -
  show cv: "cell_value E rs' = cell_value E rs" by (intro ext) (simp add: cell_value_def assms split: option.split)
  show "row_passes E Q rs' = row_passes E Q rs" "row_out E rs' = row_out E rs"
    by (simp_all only: fun_eq_iff row_passes_def row_out_def cv assms simp_thms)
qed

lemma scan_frame_row:
  assumes "scan_frame rs' = scan_frame rs"
  shows "row_passes E Q rs' = row_passes E Q rs" "row_out E rs' = row_out E rs" "row_shown Q rs' = row_shown Q rs"
  using cell_value_cong[OF scan_frameD(1-3)[OF assms]] scan_frameD[OF assms] by (auto simp: row_shown_def)

lemma scan_row_at:
  assumes fit: "cells_fit (se_pg E) ok (rd_td rs) lens cells"
    and at: "cols_at E (rd_td rs) (rd_wanted rs) cells S (rd_rowInGroup rs) (rd_cols rs)"
    and r: "rd_rowInGroup rs < sum_list lens" "\<forall>c < rd_natts rs. \<not> S c (vec_of lens (rd_rowInGroup rs))"
    and g: "rd_group rs = Some g"
  obtains rs' where "scan_frame rs' = scan_frame rs" "rd_curVec rs' = rd_curVec rs" "rd_rowInGroup rs' = rd_rowInGroup rs + 1"
    "cols_at E (rd_td rs) (rd_wanted rs) cells S (rd_rowInGroup rs + 1) (rd_cols rs')"
    "scan_row E Q rs = Inr (if row_shown Q rs (rd_rowInGroup rs) \<and> row_passes E Q rs cells (rd_rowInGroup rs)
       then case row_out E rs g cells (rd_rowInGroup rs) of (n, vals) \<Rightarrow> Emit n vals rs' else Again rs')"
proof -
  let ?r = "rd_rowInGroup rs" and ?n = "rd_natts rs"
  obtain cols' where c: "cols_at E (rd_td rs) (rd_wanted rs) cells S (?r + 1) cols'"
    "\<And>sel. visit_row E rs ?r sel (rd_cols rs) = Inr (map (\<lambda>c. if sel c then cell_value E rs cells ?r c else None) [0..<?n], cols')"
    "\<And>q :: row_filter. \<exists>cols1. visit_qual E rs ?r (\<lambda>c. rf_cols q ! c) (rd_cols rs) =
         Inr (map (\<lambda>c. if rf_cols q ! c then cell_value E rs cells ?r c else None) [0..<?n], cols1) \<and>
       (\<forall>k. res_map (\<lambda>c. if rf_cols q ! c
             then Inr (map (\<lambda>c. if rf_cols q ! c then cell_value E rs cells ?r c else None) [0..<?n] ! c, cols1 ! c)
             else if k then pgcolumnar_row_read_column E rs ?r cols1 c
             else pgcolumnar_row_skip_column E rs ?r cols1 c) [0..<?n] =
         Inr (map (\<lambda>c. (if rf_cols q ! c \<or> k then cell_value E rs cells ?r c else None, cols' ! c)) [0..<?n]))"
    by (rule visit_row_at[OF fit at r]) (rule that)
  have cols': "map ((!) cols') [0..<?n] = cols'" using c(1) map_nth[of cols'] by (simp add: cols_at_def)
  show thesis
  proof (cases Q)
    case None
    let ?d = "dv_row_deleted (rd_deleteMask rs) ?r"
    have dm: "rd_deadMask rs \<noteq> None \<and> dv_row_deleted (rd_deadMask rs) ?r \<longleftrightarrow> dv_row_deleted (rd_deadMask rs) ?r"
      by (auto simp: dv_row_deleted_def split: option.splits)
    let ?rs = "rs\<lparr>rd_rowInGroup := ?r + 1, rd_cols := cols'\<rparr>"
    show thesis
    proof (cases "row_shown Q rs ?r")
      case True
      then have "scan_row E Q rs = Inr (Emit (rg_firstRowNumber g + ?r) (map (cell_value E rs cells ?r) [0..<?n]) (?rs\<lparr>rd_lastRowDeleted := ?d\<rparr>))"
        using None g c(2) dm by (auto simp: scan_row_def row_shown_def Let_def)
      then show thesis using that[of "?rs\<lparr>rd_lastRowDeleted := ?d\<rparr>"] c(1) None True
        by (simp add: scan_frame_def row_out_def row_passes_def)
    next
      case False
      then have "scan_row E Q rs = Inr (Again ?rs)" using None c(2) dm by (auto simp: scan_row_def row_shown_def Let_def)
      then show thesis using that[of ?rs] c(1) False by (simp add: scan_frame_def)
    qed
  next
    case (Some q)
    let ?vals = "map (\<lambda>c. if rf_cols q ! c then cell_value E rs cells ?r c else None) [0..<?n]"
    let ?rs = "rs\<lparr>rd_rowInGroup := ?r + 1, rd_cols := cols'\<rparr>"
    obtain cols1 where q: "visit_qual E rs ?r (\<lambda>c. rf_cols q ! c) (rd_cols rs) = Inr (?vals, cols1)"
      "\<And>k. res_map (\<lambda>c. if rf_cols q ! c then Inr (?vals ! c, cols1 ! c)
             else if k then pgcolumnar_row_read_column E rs ?r cols1 c
             else pgcolumnar_row_skip_column E rs ?r cols1 c) [0..<?n] =
         Inr (map (\<lambda>c. (if rf_cols q ! c \<or> k then cell_value E rs cells ?r c else None, cols' ! c)) [0..<?n])"
      using c(3)[of q] by blast
    show thesis
    proof (cases "dv_row_deleted (rd_deleteMask rs) ?r")
      case True
      then have "scan_row E Q rs = Inr (Again ?rs)" using Some c(2) by (simp add: scan_row_def Let_def)
      then show thesis using that[of ?rs] c(1) Some True by (simp add: scan_frame_def row_shown_def)
    next
      case live: False
      show thesis
      proof (cases "rf_pass q ?vals")
        case True
        have "scan_row E Q rs = Inr (Emit (rg_firstRowNumber g + ?r) (map (cell_value E rs cells ?r) [0..<?n]) ?rs)"
          unfolding scan_row_def Let_def Some option.case if_not_P[OF live] q(1) res_bind_simps prod.case q(2)
          using True g cols' by (simp add: comp_def)
        then show thesis using that[of ?rs] c(1) Some live True
          by (simp add: scan_frame_def row_out_def row_passes_def row_shown_def)
      next
        case False
        let ?rs' = "?rs\<lparr>rd_rowsFilteredEarly := rd_rowsFilteredEarly rs + 1\<rparr>"
        have "scan_row E Q rs = Inr (Again ?rs')"
          unfolding scan_row_def Let_def Some option.case if_not_P[OF live] q(1) res_bind_simps prod.case q(2)
          using False cols' by (simp add: comp_def)
        then show thesis using that[of ?rs'] c(1) Some False by (simp add: scan_frame_def row_passes_def)
      qed
    qed
  qed
qed

text \<open>The skip vector of a loaded group, and a state that stands at one of its rows.\<close>

definition skip_shape :: "nat list \<Rightarrow> (bool list \<times> u32 list) option \<Rightarrow> nat \<Rightarrow> bool" where
  "skip_shape lens sv vecCount =
     (case sv of None \<Rightarrow> True
      | Some (skip, starts) \<Rightarrow> vecCount = length lens \<and> length skip = length lens \<and>
          (\<forall>k \<le> length lens. unat (starts ! k) = sum_list (take k lens)))"

definition in_group ::
  "scan_env \<Rightarrow> (nat \<Rightarrow> datum option list list option) \<Rightarrow> (nat \<Rightarrow> nat \<Rightarrow> bool) \<Rightarrow> nat list \<Rightarrow> row_group \<Rightarrow> read_state \<Rightarrow> bool" where
  "in_group E cells S lens g rs \<longleftrightarrow>
     rd_group rs = Some g \<and> \<not> rd_exhausted rs \<and> rd_groupRowCount rs = sum_list lens \<and> rd_rowInGroup rs \<le> sum_list lens \<and>
     cols_at E (rd_td rs) (rd_wanted rs) cells S (rd_rowInGroup rs) (rd_cols rs) \<and>
     skip_shape lens (rd_skip rs) (rd_vectorCount rs) \<and>
     (\<forall>c v. v < length lens \<longrightarrow> S c v \<longrightarrow> skip_fn (rd_skip rs) v) \<and>
     (rd_skip rs \<noteq> None \<longrightarrow> sum_list (take (rd_curVec rs) lens) \<le> rd_rowInGroup rs) \<and>
     (rd_rowInGroup rs < sum_list lens \<longrightarrow> skip_fn (rd_skip rs) (vec_of lens (rd_rowInGroup rs)) \<longrightarrow>
        rd_rowInGroup rs = sum_list (take (vec_of lens (rd_rowInGroup rs)) lens))"

lemma advance_vec_of:
  assumes "\<forall>k \<le> length lens. unat (starts ! k) = sum_list (take k lens)"
    and "sum_list (take v lens) \<le> r" "r < sum_list lens"
  shows "advance_vec starts r (length lens - v) v = vec_of lens r"
  using assms(2)
proof (induction "length lens - v" arbitrary: v)
  case 0
  then have "sum_list lens \<le> r" by simp
  then show ?case using assms(3) by simp
next
  case (Suc n)
  then have v: "v < length lens" "length lens - v = Suc (length lens - Suc v)" by simp_all
  have st: "unat (starts ! Suc v) = sum_list (take (Suc v) lens)" using assms(1) v(1) by simp
  show ?case
  proof (cases "sum_list (take (Suc v) lens) \<le> r")
    case True
    then show ?thesis using Suc.hyps(1)[of "Suc v"] Suc.hyps(2) v st by simp
  next
    case False
    then show ?thesis using vec_of_unique[OF v(1) Suc.prems] v st by simp
  qed
qed

lemma next_vec_start:
  assumes "r + 1 < sum_list ns" "vec_of ns (r + 1) \<noteq> vec_of ns r"
  shows "sum_list (take (vec_of ns (r + 1)) ns) = r + 1"
proof -
  let ?v = "vec_of ns r" and ?w = "vec_of ns (r + 1)"
  have a: "sum_list (take ?v ns) \<le> r" "r < sum_list (take (Suc ?v) ns)" using vec_of_bounds[of r ns] assms(1) by simp_all
  have b: "sum_list (take ?w ns) \<le> r + 1" "r + 1 < sum_list (take (Suc ?w) ns)" using vec_of_bounds[OF assms(1)] by simp_all
  show ?thesis
  proof (cases "?w < ?v")
    case True
    then have "sum_list (take (Suc ?w) ns) \<le> sum_list (take ?v ns)" by (intro sum_take_mono) simp
    then show ?thesis using a b by simp
  next
    case False
    then have "sum_list (take (Suc ?v) ns) \<le> sum_list (take ?w ns)" using assms(2) by (intro sum_take_mono) simp
    then show ?thesis using a b by simp
  qed
qed

lemma start_vec_start:
  assumes "sum_list (take v ns) < sum_list ns"
  shows "sum_list (take (vec_of ns (sum_list (take v ns))) ns) = sum_list (take v ns)"
proof -
  let ?r = "sum_list (take v ns)" and ?w = "vec_of ns (sum_list (take v ns))"
  have b: "sum_list (take ?w ns) \<le> ?r" "?r < sum_list (take (Suc ?w) ns)" using vec_of_bounds[OF assms] by simp_all
  show ?thesis
  proof (cases "?w < v")
    case True
    then have "sum_list (take (Suc ?w) ns) \<le> ?r" by (intro sum_take_mono) simp
    then show ?thesis using b by simp
  next
    case False
    then show ?thesis using b sum_take_mono[of v ?w ns] by simp
  qed
qed

lemma in_group_step:
  assumes ing: "in_group E cells S lens g rs" and r: "rd_rowInGroup rs < sum_list lens"
    and ns: "\<not> skip_fn (rd_skip rs) (vec_of lens (rd_rowInGroup rs))"
    and fr: "scan_frame rs' = scan_frame rs" and row: "rd_rowInGroup rs' = rd_rowInGroup rs + 1"
    and cv: "rd_skip rs \<noteq> None \<longrightarrow> sum_list (take (rd_curVec rs') lens) \<le> rd_rowInGroup rs"
    and cols: "cols_at E (rd_td rs) (rd_wanted rs) cells S (rd_rowInGroup rs + 1) (rd_cols rs')"
  shows "in_group E cells S lens g rs'"
proof -
  note f = scan_frameD[OF fr]
  have "rd_rowInGroup rs + 1 = sum_list (take (vec_of lens (rd_rowInGroup rs + 1)) lens)"
    if "rd_rowInGroup rs + 1 < sum_list lens" "skip_fn (rd_skip rs) (vec_of lens (rd_rowInGroup rs + 1))"
    using next_vec_start[OF that(1)] that(2) ns by metis
  then show ?thesis using ing r cv cols unfolding in_group_def f row by auto
qed

lemma skip_columns:
  assumes fit: "cells_fit V ok td lens cells" and at: "cols_at E td wanted cells S (sum_list (take w lens)) cols"
    and w: "w < length lens" and junk: "\<forall>n. length (se_junk E n) = n"
  shows "cols_at E td wanted cells S (sum_list (take (Suc w) lens)) (map (skip_column_vec w) cols)"
  unfolding cols_at_def
proof (intro conjI allI impI)
  show "length (map (skip_column_vec w) cols) = length td" using at by (simp add: cols_at_def)
  fix c assume c: "c < length td"
  have v: "col_view E td wanted cells S (sum_list (take w lens)) c (cols ! c)" "c < length cols" using at c by (simp_all add: cols_at_def)
  show "col_view E td wanted cells S (sum_list (take (Suc w) lens)) c (map (skip_column_vec w) cols ! c)"
  proof (cases "wanted ! c \<and> cells c \<noteq> None")
    case True
    then obtain cl nc where cl: "cells c = Some cl" "cols ! c = Some nc"
        "col_at (se_junk E) (se_pg E) (tc_att (td ! c)) (S c) cl (sum_list (take w lens)) nc"
      using v(1) by (auto simp: col_view_def)
    have l: "map length cl = lens" using fit c cl(1) by (simp add: cells_fit_def)
    then have "col_at (se_junk E) (se_pg E) (tc_att (td ! c)) (S c) cl (sum_list (map length (take w cl))) nc" "w < length cl"
      using cl(3) w by (auto simp: take_map)
    from col_at_skip[OF this junk] show ?thesis using True cl v(2) l by (auto simp: col_view_def take_map)
  next
    case False
    then show ?thesis using v by (simp add: col_view_def skip_column_vec_def split: if_splits)
  qed
qed

lemma in_group_skip:
  assumes fit: "cells_fit (se_pg E) ok (rd_td rs) lens cells" and junk: "\<forall>n. length (se_junk E n) = n"
    and ing: "in_group E cells S lens g rs" and r: "rd_rowInGroup rs < sum_list lens"
    and sk: "skip_fn (rd_skip rs) (vec_of lens (rd_rowInGroup rs))"
  obtains rs' where "scan_iter E rel Q rs = Inr (Again rs')" "scan_frame rs' = scan_frame rs" "in_group E cells S lens g rs'"
    "rd_rowInGroup rs' = sum_list (take (Suc (vec_of lens (rd_rowInGroup rs))) lens)"
proof -
  let ?v = "vec_of lens (rd_rowInGroup rs)"
  obtain skip starts where sv: "rd_skip rs = Some (skip, starts)" using sk by (auto simp: skip_fn_def split: option.splits)
  note b = vec_of_bounds[OF r]
  have i: "rd_vectorCount rs = length lens" "length skip = length lens"
      "\<forall>k \<le> length lens. unat (starts ! k) = sum_list (take k lens)" "sum_list (take (rd_curVec rs) lens) \<le> rd_rowInGroup rs"
      "rd_rowInGroup rs = sum_list (take ?v lens)" "skip ! ?v" "rd_group rs = Some g" "\<not> rd_exhausted rs"
      "rd_groupRowCount rs = sum_list lens" "cols_at E (rd_td rs) (rd_wanted rs) cells S (sum_list (take ?v lens)) (rd_cols rs)"
    using ing r sk sv by (auto simp: in_group_def skip_shape_def skip_fn_def)
  have adv: "advance_vec starts (rd_rowInGroup rs) (length lens - rd_curVec rs) (rd_curVec rs) = ?v"
    by (rule advance_vec_of[OF i(3,4) r])
  let ?rs = "rs\<lparr>rd_curVec := ?v + 1, rd_cols := map (skip_column_vec ?v) (rd_cols rs), rd_rowInGroup := sum_list (take (Suc ?v) lens)\<rparr>"
  have st: "unat (starts ! ?v) = rd_rowInGroup rs" "unat (starts ! Suc ?v) = sum_list (take (Suc ?v) lens)"
    using i(3,5) b(1) by simp_all
  have "pgcolumnar_native_skip_current_vector skip starts rs = (True, ?rs)"
    unfolding pgcolumnar_native_skip_current_vector_def Let_def i(1) adv using b(1) i(6) st by simp
  then have "scan_iter E rel Q rs = Inr (Again ?rs)" using i(7-9) r sv by (simp add: scan_iter_def)
  moreover have "in_group E cells S lens g ?rs"
    using ing sv skip_columns[OF fit i(10) b(1) junk] sum_take_le[of "Suc ?v" lens] start_vec_start[of "Suc ?v" lens]
    by (simp add: in_group_def)
  ultimately show thesis by (intro that[of ?rs]) (simp_all add: scan_frame_def)
qed

lemma in_group_row:
  assumes fit: "cells_fit (se_pg E) ok (rd_td rs) lens cells"
    and ing: "in_group E cells S lens g rs" and r: "rd_rowInGroup rs < sum_list lens"
    and ns: "\<not> skip_fn (rd_skip rs) (vec_of lens (rd_rowInGroup rs))"
  obtains rs' where "scan_frame rs' = scan_frame rs" "in_group E cells S lens g rs'" "rd_rowInGroup rs' = rd_rowInGroup rs + 1"
    "scan_iter E rel Q rs = Inr (if row_shown Q rs (rd_rowInGroup rs) \<and> row_passes E Q rs cells (rd_rowInGroup rs)
       then case row_out E rs g cells (rd_rowInGroup rs) of (n, vals) \<Rightarrow> Emit n vals rs' else Again rs')"
proof -
  let ?r = "rd_rowInGroup rs" and ?v = "vec_of lens (rd_rowInGroup rs)"
  note b = vec_of_bounds[OF r]
  have i: "rd_group rs = Some g" "\<not> rd_exhausted rs" "rd_groupRowCount rs = sum_list lens"
      "cols_at E (rd_td rs) (rd_wanted rs) cells S ?r (rd_cols rs)" "\<forall>c. \<not> S c ?v"
    using ing ns b(1) by (auto simp: in_group_def)
  define rs1 where "rs1 = rs\<lparr>rd_curVec := if rd_skip rs = None then rd_curVec rs else ?v\<rparr>"
  have f1: "scan_frame rs1 = scan_frame rs" "rd_td rs1 = rd_td rs" "rd_wanted rs1 = rd_wanted rs" "rd_rowInGroup rs1 = ?r"
      "rd_cols rs1 = rd_cols rs" "rd_group rs1 = Some g"
    using i by (simp_all add: rs1_def scan_frame_def)
  have step: "scan_iter E rel Q rs = scan_row E Q rs1"
  proof (cases "rd_skip rs")
    case None
    then have "rs1 = rs" by (simp add: rs1_def)
    then show ?thesis using None i(1-3) r by (simp add: scan_iter_def)
  next
    case (Some p)
    obtain skip starts where p: "p = (skip, starts)" by fastforce
    have s: "rd_vectorCount rs = length lens" "\<forall>k \<le> length lens. unat (starts ! k) = sum_list (take k lens)"
        "sum_list (take (rd_curVec rs) lens) \<le> ?r" "\<not> skip ! ?v"
      using ing ns Some p by (auto simp: in_group_def skip_shape_def skip_fn_def)
    have "pgcolumnar_native_skip_current_vector skip starts rs = (False, rs1)"
      unfolding pgcolumnar_native_skip_current_vector_def Let_def s(1) advance_vec_of[OF s(2,3) r]
      using s(4) Some by (simp add: rs1_def)
    then show ?thesis using Some p i(1-3) r by (simp add: scan_iter_def)
  qed
  have a: "cells_fit (se_pg E) ok (rd_td rs1) lens cells" "cols_at E (rd_td rs1) (rd_wanted rs1) cells S (rd_rowInGroup rs1) (rd_cols rs1)"
      "rd_rowInGroup rs1 < sum_list lens" "\<forall>c < rd_natts rs1. \<not> S c (vec_of lens (rd_rowInGroup rs1))"
    using fit i r f1 by simp_all
  obtain rs' where rs': "scan_frame rs' = scan_frame rs1" "rd_curVec rs' = rd_curVec rs1" "rd_rowInGroup rs' = rd_rowInGroup rs1 + 1"
      "cols_at E (rd_td rs1) (rd_wanted rs1) cells S (rd_rowInGroup rs1 + 1) (rd_cols rs')"
      "scan_row E Q rs1 = Inr (if row_shown Q rs1 (rd_rowInGroup rs1) \<and> row_passes E Q rs1 cells (rd_rowInGroup rs1)
       then case row_out E rs1 g cells (rd_rowInGroup rs1) of (n, vals) \<Rightarrow> Emit n vals rs' else Again rs')"
    by (rule scan_row_at[OF a f1(6)])
  have fr: "scan_frame rs' = scan_frame rs" using rs'(1) f1(1) by simp
  have cv: "rd_skip rs \<noteq> None \<longrightarrow> sum_list (take (rd_curVec rs') lens) \<le> ?r" using b(2) rs'(2) by (simp add: rs1_def)
  have "in_group E cells S lens g rs'"
    by (rule in_group_step[OF ing r ns fr _ cv]) (use rs'(3,4) f1 in simp_all)
  then show thesis
    by (rule that[OF fr]) (use rs'(3,5) f1 scan_frame_row[OF f1(1)] step in \<open>simp_all\<close>)
qed

text \<open>The rows from the current one to the end of the group, and then the rest of the scan.\<close>

lemma walk_group:
  assumes fit: "cells_fit (se_pg E) ok (rd_td rs) lens cells" and junk: "\<forall>n. length (se_junk E n) = n"
    and ing: "in_group E cells S lens g rs"
  shows "\<exists>rs'. scan_frame rs' = scan_frame rs \<and> rd_rowInGroup rs' = sum_list lens \<and>
    (\<forall>out. scan_out E rel Q rs' out \<longrightarrow> scan_out E rel Q rs (map (row_out E rs g cells)
      (filter (\<lambda>r. row_kept lens (rd_skip rs) r \<and> row_shown Q rs r \<and> row_passes E Q rs cells r) [rd_rowInGroup rs..<sum_list lens]) @ out))"
  using ing fit
proof (induction "sum_list lens - rd_rowInGroup rs" arbitrary: rs rule: less_induct)
  case less
  let ?r = "rd_rowInGroup rs" and ?v = "vec_of lens (rd_rowInGroup rs)"
  let ?P = "\<lambda>rs r. row_kept lens (rd_skip rs) r \<and> row_shown Q rs r \<and> row_passes E Q rs cells r"
  let ?rows = "\<lambda>k. map (row_out E rs g cells) (filter (?P rs) [k..<sum_list lens])"
  have same: "map (row_out E rs' g cells) (filter (?P rs') xs) = map (row_out E rs g cells) (filter (?P rs) xs)"
    if "scan_frame rs' = scan_frame rs" for rs' xs
    using scan_frame_row[OF that] scan_frameD[OF that] by simp
  show ?case
  proof (cases "?r < sum_list lens")
    case False
    then have "?r = sum_list lens" using less.prems(1) by (simp add: in_group_def)
    then show ?thesis by auto
  next
    case r: True
    have IH: "\<exists>rs''. scan_frame rs'' = scan_frame rs \<and> rd_rowInGroup rs'' = sum_list lens \<and>
        (\<forall>out. scan_out E rel Q rs'' out \<longrightarrow> scan_out E rel Q rs' (?rows (rd_rowInGroup rs') @ out))"
      if "scan_frame rs' = scan_frame rs" "in_group E cells S lens g rs'" "?r < rd_rowInGroup rs'" for rs'
      using less.hyps[of rs'] that less.prems(2) r scan_frameD[OF that(1)] same[OF that(1)] by simp
    show ?thesis
    proof (cases "skip_fn (rd_skip rs) ?v")
      case True
      obtain rs' where rs': "scan_iter E rel Q rs = Inr (Again rs')" "scan_frame rs' = scan_frame rs" "in_group E cells S lens g rs'"
          "rd_rowInGroup rs' = sum_list (take (Suc ?v) lens)"
        by (rule in_group_skip[OF less.prems(2) junk less.prems(1) r True])
      note b = vec_of_bounds[OF r]
      have gt: "?r < rd_rowInGroup rs'" using b(3) rs'(4) by simp
      have none: "filter (?P rs) [?r..<rd_rowInGroup rs'] = []"
      proof (rule filter_False, rule ballI)
        fix x assume "x \<in> set [?r..<rd_rowInGroup rs']"
        then have "vec_of lens x = ?v" using b rs'(4) by (intro vec_of_unique) auto
        then show "\<not> ?P rs x" using True by (simp add: row_kept_def)
      qed
      have "[?r..<sum_list lens] = [?r..<rd_rowInGroup rs'] @ [rd_rowInGroup rs'..<sum_list lens]"
        using gt rs'(4) sum_take_le[of "Suc ?v" lens] upt_add_eq_append[of ?r "rd_rowInGroup rs'" "sum_list lens - rd_rowInGroup rs'"] by simp
      then have "?rows ?r = ?rows (rd_rowInGroup rs')" using none by simp
      then show ?thesis using IH[OF rs'(2,3) gt] scan_out.again[OF rs'(1)] by auto
    next
      case ns: False
      obtain rs' where rs': "scan_frame rs' = scan_frame rs" "in_group E cells S lens g rs'" "rd_rowInGroup rs' = ?r + 1"
        "scan_iter E rel Q rs = Inr (if row_shown Q rs ?r \<and> row_passes E Q rs cells ?r
           then case row_out E rs g cells ?r of (n, vals) \<Rightarrow> Emit n vals rs' else Again rs')"
        by (rule in_group_row[OF less.prems(2,1) r ns])
      have gt: "?r < rd_rowInGroup rs'" using rs'(3) by simp
      have u: "[?r..<sum_list lens] = ?r # [rd_rowInGroup rs'..<sum_list lens]" using r rs'(3) by (simp add: upt_conv_Cons)
      have k: "row_kept lens (rd_skip rs) ?r" using ns by (simp add: row_kept_def)
      obtain n vals where o: "row_out E rs g cells ?r = (n, vals)" by fastforce
      have step: "scan_out E rel Q rs (?rows ?r @ out)" if "scan_out E rel Q rs' (?rows (rd_rowInGroup rs') @ out)" for out
      proof (cases "row_shown Q rs ?r \<and> row_passes E Q rs cells ?r")
        case True
        then have "scan_iter E rel Q rs = Inr (Emit n vals rs')" using rs'(4) o by simp
        from scan_out.emit[OF this that] show ?thesis using u k True o by simp
      next
        case False
        then have "scan_iter E rel Q rs = Inr (Again rs')" using rs'(4) by auto
        from scan_out.again[OF this that] show ?thesis using u False by auto
      qed
      then show ?thesis using IH[OF rs'(1,2) gt] by blast
    qed
  qed
qed

end
