(* ===== verification/Scan_Load.thy ===== *)
theory Scan_Load
  imports Scan_Rows
begin

section \<open>What a load of a row group finds\<close>

text \<open>
  The load of a stored group: the buffer has the bytes of every wanted chunk, whether the
  group is read whole or by coalesced ranges; each column decodes to the cells that were
  written, but for the vectors left out; and no vector is left out that holds a row the scan
  must return, neither by its zone maps nor by the exact refinements. With that, a scan over
  any number of groups returns its rows.
\<close>

subsection \<open>One column\<close>

lemma describes_reads:
  assumes "desc_describes desc cols"
  shows "\<not> is_baseline desc" "ENCDESC_HEADER_LEN \<le> length desc" "PgColumnarEncdescVersionSupported desc"
    "PgColumnarEncdescReadVectorCount desc = length cols"
    "chunk_vec_raw_lens desc = map (\<lambda>g. length (valueStream g)) cols"
    "PgColumnarEncdescTotalValueCount (Some desc) = int (sum_list (map valueCount cols))"
proof -
  obtain flags xs tb where d: "desc = desc_of flags xs tb" "length xs < 2 ^ 32"
      "list_all2 (\<lambda>g p. entry_ok (fst p) \<and> ent_rawLen (fst p) = length (valueStream g) \<and>
          ent_valueCount (fst p) = valueCount g) cols xs"
    using assms by (auto simp: desc_describes_def)
  have len: "length xs = length cols" using d(3) by (simp add: list_all2_lengthD)
  have ok: "\<forall>p \<in> set xs. entry_ok (fst p)" using d(3) by (induction rule: list_all2_induct) auto
  have m: "map ent_rawLen (map fst xs) = map (\<lambda>g. length (valueStream g)) cols"
      "map ent_valueCount (map fst xs) = map valueCount cols"
    using d(3) by (induction rule: list_all2_induct) auto
  show "\<not> is_baseline desc" "ENCDESC_HEADER_LEN \<le> length desc"
    by (simp_all add: d(1) desc_of_def is_baseline_def ENCDESC_HEADER_LEN_def)
  note h = header_reads[OF d(2), of flags "concat (map (\<lambda>p. entry_bytes (fst p)) xs) @ u32_bytes (length tb) @ tb"]
  show "PgColumnarEncdescVersionSupported desc" "PgColumnarEncdescReadVectorCount desc = length cols"
    using h(1,2) by (simp_all add: d(1) desc_of_def len)
  then show "chunk_vec_raw_lens desc = map (\<lambda>g. length (valueStream g)) cols"
    using encdesc_entries_put[OF ok] m(1) len by (simp add: chunk_vec_raw_lens_def d(1) desc_of_def ENCDESC_HEADER_LEN_def)
  show "PgColumnarEncdescTotalValueCount (Some desc) = int (sum_list (map valueCount cols))"
    using total_value_count[of "map fst xs" flags "u32_bytes (length tb) @ tb"] d(2) ok m(2) by (simp add: d(1) desc_of_def comp_def)
qed

lemma bufbit_prefix: "i div 8 < length xs \<Longrightarrow> bufbit (xs @ ys) i = bufbit xs i"
  by (simp add: bufbit_def nth_append)

lemma bufbit_ones: "i div 8 < n \<Longrightarrow> bufbit (replicate n (- 1)) i"
  by (simp add: bufbit_def)

lemma count_present_all:
  assumes "\<forall>i < length rows. rows ! i \<noteq> None"
  shows "length (present_values V att rows) = length rows"
proof -
  have "filter (\<lambda>v. v \<noteq> None) rows = rows" unfolding filter_id_conv using assms by (auto simp: in_set_conv_nth)
  then show ?thesis by (simp add: present_values_def)
qed

text \<open>The chunk of a column in the group buffer, loaded.\<close>

lemma load_chunk_column:
  assumes cf: "column_flushed C ok att w res" and env: "se_cenv E = cfg_env C" "se_lib E = cfg_lib C"
    and rows: "rg_rowCount rg = length (concat (cw_rows w))" "(rg_rowCount rg + 7) div 8 \<le> MaxAllocSize"
    and cc: "cc_descriptor cc = fres_desc res" "cc_blockCodec cc = fres_codec res" "cc_pageLength cc = length (fres_chunk res)"
    and inside: "\<not> chunk_outside rg cc" and readable: "readable_chunk att (fres_desc res)"
    and buf: "take (length (fres_chunk res)) (drop (cc_pageOffset cc - rg_fileOffset rg) buf) = fres_chunk res"
  obtains nc where "load_chunk E att rg buf skp cc = Inr nc" "col_at (se_junk E) (se_pg E) att skp (cw_rows w) 0 nc"
proof -
  let ?V = "env_pg (cfg_env C)" and ?n = "length (concat (cw_rows w))"
  let ?vb = "(?n + 7) div 8"
  have vb: "?n \<le> 8 * ?vb" by linarith
  obtain cols memo memo' where r: "column_ready C ok att (cw_def w) (cw_D w) (cw_B w) (cw_rows w)"
      "column_buffers ?V att (cw_def w) (cw_rows w) cols"
      "flush_one_column C att False (cw_def w) cols ?n ?vb memo = Inr (Some res, memo')"
    using cf unfolding column_flushed_def by blast
  have f: "\<forall>i < ?n. row_present (fres_desc res) (fres_chunk res) i \<longleftrightarrow> concat (cw_rows w) ! i \<noteq> None"
      "chunk_layout ?vb cols res"
      "pgcolumnar_native_decode_chunk (cfg_env C) (cfg_lib C) att
         (drop (pgcolumnar_chunk_validity_bytes (Some (fres_desc res)) ?vb) (fres_chunk res))
         (fres_desc res) (fres_codec res) skp = Inr (decoded_vectors skp 0 cols)"
    by (rule column_flush[OF r(1,2) HOL.refl vb, where memo = memo and skp = skp], use r(3) readable in auto)+
  let ?k = "pgcolumnar_chunk_validity_bytes (Some (fres_desc res)) ?vb"
  let ?base = "drop (cc_pageOffset cc - rg_fileOffset rg) buf"
  have lay: "?k \<le> length (fres_chunk res)" "length (fres_chunk res) - ?k < 2 ^ 32" "desc_describes (fres_desc res) cols"
    using f(2) by (simp_all add: chunk_layout_def)
  note d = describes_reads[OF lay(3)]
  have pg: "pg_datum_ok ?V ok" "\<forall>rows \<in> set (cw_rows w). rows_ok ?V ok att (cw_D w) rows"
    using r(1) by (auto simp: column_ready_def store_ok_def)
  have bo: "list_all2 (buffer_of ?V att (cw_def w)) (cw_rows w) cols" by (rule column_buffers_of[OF r(1,2)])
  have st: "list_all2 (\<lambda>rows col. valueStream col = row_bytes ?V att rows \<and> valueCount col = length (present_values ?V att rows)) (cw_rows w) cols"
    by (rule list.rel_mono_strong[OF bo]) (use buffer_value_stream[OF pg(1)] pg(2) in \<open>auto simp: row_bytes_def\<close>)
  have lens: "map (\<lambda>g. length (valueStream g)) cols = map (\<lambda>rows. length (row_bytes ?V att rows)) (cw_rows w)"
      "sum_list (map valueCount cols) = length (present_values ?V att (concat (cw_rows w)))"
    using st by (induction rule: list_all2_induct) (auto simp: present_values_append present_values_def[of _ _ "[]"])
  have base: "?base = fres_chunk res @ drop (length (fres_chunk res)) ?base" using buf by (metis append_take_drop_id)
  define validity where "validity = (if ?k > 0 then ?base else replicate (if ?vb > 0 then ?vb else 1) (- 1))"
  have all: "concat (cw_rows w) ! i \<noteq> None" if "?k = 0" "i < ?n" for i
    using that f(1) by (auto simp: pgcolumnar_chunk_validity_bytes_def row_present_def split: if_splits)
  have bits: "bufbit validity i \<longleftrightarrow> concat (cw_rows w) ! i \<noteq> None" if i: "i < ?n" for i
  proof (cases "?k > 0")
    case True
    then have k: "?k = ?vb" "\<not> PgColumnarEncdescOmitsValidity (Some (fres_desc res))"
      by (auto simp: pgcolumnar_chunk_validity_bytes_def split: if_splits)
    have "i div 8 < length (fres_chunk res)" using i k(1) lay(1) by linarith
    then have "bufbit ?base i = bufbit (fres_chunk res) i" by (subst base) (rule bufbit_prefix)
    then show ?thesis using True f(1) i k(2) by (simp add: validity_def row_present_def)
  next
    case False
    have "i div 8 < ?vb" using i by linarith
    then show ?thesis using False all i by (simp add: validity_def bufbit_ones)
  qed
  have total: "?k = 0 \<Longrightarrow> PgColumnarEncdescTotalValueCount (Some (fres_desc res)) = int ?n"
    using d(6) lens(2) all count_present_all[of "concat (cw_rows w)" ?V att] by simp
  have "pgcolumnar_chunk_value_bytes (length (fres_chunk res)) (int ?k) = Inr (length (fres_chunk res) - ?k)"
    using lay(1,2) by (simp add: pgcolumnar_chunk_value_bytes_def Let_def)
  moreover have "take (length (fres_chunk res) - ?k) (drop ?k ?base) = drop ?k (fres_chunk res)"
    using lay(1) by (subst base) simp
  ultimately have "load_chunk E att rg buf skp cc =
      Inr \<lparr>nc_validity = validity, nc_cursor = raw_stream (se_junk E) (chunk_vec_raw_lens (fres_desc res)) (decoded_vectors skp 0 cols),
           nc_vecRawLen = Some (chunk_vec_raw_lens (fres_desc res))\<rparr>"
    using inside rows cc env d(1) f(3) total by (auto simp: load_chunk_def Let_def validity_def)
  then show thesis
  proof (rule that)
    have "list_all2 (\<lambda>rows col. valueStream col = row_bytes ?V att rows) (cw_rows w) cols"
      by (rule list.rel_mono_strong[OF st]) simp
    from stream_from_raw[OF this, of "se_junk E" skp 0]
    show "col_at (se_junk E) (se_pg E) att skp (cw_rows w) 0
       \<lparr>nc_validity = validity, nc_cursor = raw_stream (se_junk E) (chunk_vec_raw_lens (fres_desc res)) (decoded_vectors skp 0 cols),
        nc_vecRawLen = Some (chunk_vec_raw_lens (fres_desc res))\<rparr>"
      using bits env(1) by (simp add: col_at_def d(5) lens(1))
  qed
qed

subsection \<open>The bytes of the wanted chunks\<close>

definition chunk_row :: "write_state \<Rightarrow> nat \<Rightarrow> flush_result option list \<Rightarrow> nat \<Rightarrow> flush_result \<Rightarrow> column_chunk" where
  "chunk_row ws off rs c res =
     \<lparr>cc_storageId = ws_storageId ws, cc_groupNumber = ws_stripeId ws, cc_columnIndex = c,
      cc_valueCount = ws_stripeRowCount ws, cc_descriptor = fres_desc res, cc_blockCodec = fres_codec res,
      cc_pageOffset = off + chunk_offset rs c, cc_pageLength = length (fres_chunk res)\<rparr>"

lemma chunk_row_fields [simp]:
  "cc_columnIndex (chunk_row ws off rs c res) = c" "cc_descriptor (chunk_row ws off rs c res) = fres_desc res"
  "cc_blockCodec (chunk_row ws off rs c res) = fres_codec res"
  "cc_pageOffset (chunk_row ws off rs c res) = off + chunk_offset rs c"
  "cc_pageLength (chunk_row ws off rs c res) = length (fres_chunk res)"
  by (simp_all add: chunk_row_def)

lemma chunk_rows_eq:
  "chunk_rows ws off rs =
     map (\<lambda>c. chunk_row ws off rs c (the (rs ! c))) (filter (\<lambda>c. rs ! c \<noteq> None) [0..<length rs])"
proof -
  have "concat (map (\<lambda>c. case rs ! c of None \<Rightarrow> [] | Some res \<Rightarrow> [f c res]) cs) =
      map (\<lambda>c. f c (the (rs ! c))) (filter (\<lambda>c. rs ! c \<noteq> None) cs)" for f :: "nat \<Rightarrow> flush_result \<Rightarrow> column_chunk" and cs
    by (induction cs) (auto split: option.split)
  then show ?thesis by (simp add: chunk_rows_def chunk_row_def)
qed

lemma concat_slice:
  assumes "c < length xs"
  shows "take (length (xs ! c)) (drop (length (concat (take c xs))) (concat xs)) = xs ! c"
    and "length (concat (take c xs)) + length (xs ! c) \<le> length (concat xs)"
proof -
  have "concat xs = concat (take c xs) @ xs ! c @ concat (drop (Suc c) xs)"
    using assms by (metis concat.simps(2) concat_append id_take_nth_drop)
  then show "take (length (xs ! c)) (drop (length (concat (take c xs))) (concat xs)) = xs ! c"
      "length (concat (take c xs)) + length (xs ! c) \<le> length (concat xs)"
    by (simp_all del: length_concat)
qed

lemma chunk_slice:
  assumes "c < length rs" "rs ! c = Some res"
  shows "take (length (fres_chunk res)) (drop (chunk_offset rs c) (concat (map chunk_bytes rs))) = fres_chunk res"
    and "chunk_offset rs c + length (fres_chunk res) \<le> length (concat (map chunk_bytes rs))"
  using concat_slice[of c "map chunk_bytes rs"] assms by (simp_all add: chunk_offset_def take_map chunk_bytes_def del: length_concat)

text \<open>The runs cover every range, and lie within its bounds.\<close>

lemma coalesce_covers:
  assumes "sorted (map fst (r # rest))" "\<exists>q \<in> set (r # rest). fst q \<le> p \<and> p < snd q"
  shows "\<exists>q \<in> set (coalesce_ranges r rest). fst q \<le> p \<and> p < snd q"
  using assms
proof (induction r rest rule: coalesce_ranges.induct)
  case (2 start fin s e rest)
  show ?case
  proof (cases "s \<le> fin")
    case True
    let ?f = "if e > fin then e else fin"
    have so: "sorted (map fst ((start, ?f) # rest))" using "2.prems"(1) by auto
    have "\<exists>q \<in> set ((start, ?f) # rest). fst q \<le> p \<and> p < snd q" using "2.prems" True by auto
    from "2.IH"(1)[OF True so this] show ?thesis using True by simp
  next
    case False
    have so: "sorted (map fst ((s, e) # rest))" using "2.prems"(1) by simp
    show ?thesis
    proof (cases "start \<le> p \<and> p < fin")
      case True
      then show ?thesis using False by auto
    next
      case no: False
      then have "\<exists>q \<in> set ((s, e) # rest). fst q \<le> p \<and> p < snd q" using "2.prems"(2) by auto
      from "2.IH"(2)[OF False so this] show ?thesis using False by auto
    qed
  qed
qed simp

lemma coalesce_within:
  assumes "\<forall>q \<in> set (r # rest). lo \<le> fst q \<and> fst q \<le> snd q \<and> snd q \<le> hi" "sorted (map fst (r # rest))"
    and "q \<in> set (coalesce_ranges r rest)"
  shows "lo \<le> fst q \<and> fst q \<le> snd q \<and> snd q \<le> hi"
  using assms
proof (induction r rest rule: coalesce_ranges.induct)
  case (2 start fin s e rest)
  show ?case
  proof (cases "s \<le> fin")
    case True
    show ?thesis
      by (rule "2.IH"(1)[OF True]) (use "2.prems" True in auto)
  next
    case False
    show ?thesis
    proof (cases "q = (start, fin)")
      case True
      then show ?thesis using "2.prems"(1) by auto
    next
      case no: False
      show ?thesis by (rule "2.IH"(2)[OF False]) (use "2.prems" False no in auto)
    qed
  qed
qed simp

definition sorted_runs :: "(nat \<times> nat) list \<Rightarrow> (nat \<times> nat) list" where
  "sorted_runs ranges = (case sort_key fst ranges of [] \<Rightarrow> [] | r # rest \<Rightarrow> coalesce_ranges r rest)"

lemma sorted_runs_cover:
  assumes "\<exists>q \<in> set ranges. fst q \<le> p \<and> p < snd q"
  shows "\<exists>q \<in> set (sorted_runs ranges). fst q \<le> p \<and> p < snd q"
proof (cases "sort_key fst ranges")
  case Nil
  then have "ranges = []" by (metis set_empty set_sort)
  then show ?thesis using assms by simp
next
  case (Cons r rest)
  have r: "set (r # rest) = set ranges" "sorted (map fst (r # rest))" by (simp_all only: Cons[symmetric] set_sort sorted_sort_key)
  have "\<exists>q \<in> set (r # rest). fst q \<le> p \<and> p < snd q" unfolding r(1) by (rule assms)
  from coalesce_covers[OF r(2) this] show ?thesis by (simp add: sorted_runs_def Cons)
qed

lemma sorted_runs_within:
  assumes "\<forall>q \<in> set ranges. lo \<le> fst q \<and> fst q \<le> snd q \<and> snd q \<le> hi" "q \<in> set (sorted_runs ranges)"
  shows "lo \<le> fst q \<and> fst q \<le> snd q \<and> snd q \<le> hi"
proof (cases "sort_key fst ranges")
  case (Cons r rest)
  have r: "set (r # rest) = set ranges" "sorted (map fst (r # rest))" by (simp_all only: Cons[symmetric] set_sort sorted_sort_key)
  have "\<forall>q \<in> set (r # rest). lo \<le> fst q \<and> fst q \<le> snd q \<and> snd q \<le> hi" unfolding r(1) by (rule assms(1))
  from coalesce_within[OF this r(2)] show ?thesis using assms(2) by (simp add: sorted_runs_def Cons)
qed (use assms(2) in \<open>simp add: sorted_runs_def\<close>)

text \<open>Bytes of a buffer that are the group's own.\<close>

definition agrees_on :: "nat set \<Rightarrow> byte list \<Rightarrow> byte list \<Rightarrow> bool" where
  "agrees_on P buf data \<longleftrightarrow> length data \<le> length buf \<and> (\<forall>i \<in> P. i < length data \<longrightarrow> buf ! i = data ! i)"

lemma put_bytes_agrees:
  assumes "agrees_on P buf data" "off + n \<le> length data"
  shows "agrees_on (P \<union> {off..<off + n}) (put_bytes buf off (take n (drop off data))) data"
proof -
  have len: "length buf \<ge> length data" using assms(1) by (simp add: agrees_on_def)
  have "put_bytes buf off (take n (drop off data)) ! i = (if off \<le> i \<and> i < off + n then data ! i else buf ! i)"
    if "i < length data" for i
    using that len assms(2) by (auto simp: put_bytes_def nth_append)
  then show ?thesis using assms len by (auto simp: agrees_on_def put_bytes_def)
qed

lemma agrees_slice:
  assumes "agrees_on P buf data" "{off..<off + n} \<subseteq> P" "off + n \<le> length data"
  shows "take n (drop off buf) = take n (drop off data)"
proof (rule nth_equalityI)
  fix i assume "i < length (take n (drop off buf))"
  then have "i < n" by simp
  then have "off + i \<in> P" "off + i < length data" using assms(2,3) by auto
  then show "take n (drop off buf) ! i = take n (drop off data) ! i"
    using assms(1) \<open>i < n\<close> by (simp add: agrees_on_def)
qed (use assms in \<open>auto simp: agrees_on_def\<close>)

lemma read_runs_agrees:
  assumes ok: "blocks_ok (se_bpp E) (mf_blocks (rs_fork (rel_file rel)))" and h: "holds_at (se_bpp E) (rs_fork (rel_file rel)) off data"
    and runs: "\<forall>q \<in> set runs. off \<le> fst q \<and> fst q \<le> snd q \<and> snd q \<le> off + length data" and buf: "agrees_on P buf data"
  obtains buf' where "read_runs E rel off runs buf = Inr buf'"
    "agrees_on (P \<union> {i. \<exists>q \<in> set runs. fst q \<le> off + i \<and> off + i < snd q}) buf' data"
  using runs buf
proof (induction runs arbitrary: P buf thesis)
  case Nil
  then show ?case by simp
next
  case (Cons q runs)
  obtain s e where q: "q = (s, e)" by fastforce
  have b: "off \<le> s" "s \<le> e" "e \<le> off + length data" using Cons.prems(2) q by auto
  have "PgColumnarReadLogicalData (se_bpp E) (se_read_stream E) (off + (s - off)) (e - s) (rs_fork (rel_file rel)) =
      Inr (take (e - s) (drop (s - off) data))"
    by (rule read_held[OF ok h]) (use b in linarith)
  then have rd: "PgColumnarReadLogicalData (se_bpp E) (se_read_stream E) s (e - s) (rs_fork (rel_file rel)) =
      Inr (take (e - s) (drop (s - off) data))" using b by simp
  let ?P = "P \<union> {s - off..<s - off + (e - s)}"
  have p: "agrees_on ?P (put_bytes buf (s - off) (take (e - s) (drop (s - off) data))) data"
    by (rule put_bytes_agrees[OF Cons.prems(3)]) (use b in linarith)
  obtain buf' where buf': "read_runs E rel off runs (put_bytes buf (s - off) (take (e - s) (drop (s - off) data))) = Inr buf'"
      "agrees_on (?P \<union> {i. \<exists>q \<in> set runs. fst q \<le> off + i \<and> off + i < snd q}) buf' data"
    by (rule Cons.IH[OF _ _ p]) (use Cons.prems(2) in auto)
  have "P \<union> {i. \<exists>q \<in> set (q # runs). fst q \<le> off + i \<and> off + i < snd q} \<subseteq>
      ?P \<union> {i. \<exists>q \<in> set runs. fst q \<le> off + i \<and> off + i < snd q}" using q b by auto
  then have "agrees_on (P \<union> {i. \<exists>q \<in> set (q # runs). fst q \<le> off + i \<and> off + i < snd q}) buf' data"
    using buf'(2) unfolding agrees_on_def by blast
  then show ?case by (rule Cons.prems(1)[rotated]) (simp add: q rd buf'(1))
qed

lemma projected_ranges_eq:
  assumes "\<forall>cc \<in> set chunks. \<not> chunk_outside rg cc"
  shows "projected_ranges rs rg chunks =
    Inr (map (\<lambda>cc. (cc_pageOffset cc, cc_pageOffset cc + cc_pageLength cc))
      (filter (\<lambda>cc. cc_columnIndex cc < rd_natts rs \<and> rd_wanted rs ! cc_columnIndex cc \<and> cc_pageLength cc > 0) chunks))"
  using assms by (induction chunks) auto

lemma fold_min:
  "\<forall>x \<in> set xs. fold (\<lambda>x m. min m (f x)) xs (a :: nat) \<le> f x" "fold (\<lambda>x m. min m (f x)) xs a \<le> a"
  "(\<forall>x \<in> set xs. b \<le> f x) \<Longrightarrow> b \<le> a \<Longrightarrow> b \<le> fold (\<lambda>x m. min m (f x)) xs a"
proof -
  have le: "fold (\<lambda>x m. min m (f x)) xs a \<le> a" for a :: nat and xs
  proof (induction xs arbitrary: a)
    case (Cons x xs)
    show ?case using Cons.IH[of "min a (f x)"] by simp
  qed simp
  then show "fold (\<lambda>x m. min m (f x)) xs a \<le> a" .
  show "\<forall>x \<in> set xs. fold (\<lambda>x m. min m (f x)) xs a \<le> f x"
  proof (induction xs arbitrary: a)
    case (Cons x xs)
    show ?case using Cons.IH[of "min a (f x)"] le[of xs "min a (f x)"] by auto
  qed simp
  show "(\<forall>x \<in> set xs. b \<le> f x) \<Longrightarrow> b \<le> a \<Longrightarrow> b \<le> fold (\<lambda>x m. min m (f x)) xs a"
    by (induction xs arbitrary: a) auto
qed

lemma fold_max:
  "\<forall>x \<in> set xs. f x \<le> fold (\<lambda>x m. max m (f x)) xs (a :: nat)"
  "(\<forall>x \<in> set xs. f x \<le> b) \<Longrightarrow> a \<le> b \<Longrightarrow> fold (\<lambda>x m. max m (f x)) xs a \<le> b"
proof -
  have ge: "a \<le> fold (\<lambda>x m. max m (f x)) xs a" for a :: nat and xs
  proof (induction xs arbitrary: a)
    case (Cons x xs)
    show ?case using Cons.IH[of "max a (f x)"] by simp
  qed simp
  show "\<forall>x \<in> set xs. f x \<le> fold (\<lambda>x m. max m (f x)) xs a"
  proof (induction xs arbitrary: a)
    case (Cons x xs)
    show ?case using Cons.IH[of "max a (f x)"] ge[of "max a (f x)" xs] by auto
  qed simp
  show "(\<forall>x \<in> set xs. f x \<le> b) \<Longrightarrow> a \<le> b \<Longrightarrow> fold (\<lambda>x m. max m (f x)) xs a \<le> b"
    by (induction xs arbitrary: a) auto
qed

text \<open>The nonempty chunks tile the group: one begins at its start and one ends at its end.\<close>

lemma tiling_ends:
  assumes "concat (map chunk_bytes rs) \<noteq> []"
  obtains a ra z rz where "a < length rs" "rs ! a = Some ra" "fres_chunk ra \<noteq> []" "chunk_offset rs a = 0"
    "z < length rs" "rs ! z = Some rz" "fres_chunk rz \<noteq> []"
    "chunk_offset rs z + length (fres_chunk rz) = length (concat (map chunk_bytes rs))"
proof -
  let ?N = "\<lambda>c. c < length rs \<and> chunk_bytes (rs ! c) \<noteq> []"
  obtain c where c: "?N c" using assms by (auto simp: in_set_conv_nth)
  define a where "a = (LEAST c. ?N c)"
  define z where "z = (GREATEST c. ?N c)"
  have a: "?N a" unfolding a_def by (rule LeastI[of ?N, OF c])
  have za: "?N z" "\<And>y. ?N y \<Longrightarrow> y \<le> z"
    unfolding z_def using GreatestI_nat[of ?N c "length rs"] Greatest_le_nat[of ?N _ "length rs"] c by auto
  have before: "chunk_bytes (rs ! y) = []" if "y < a" for y using not_less_Least[of y ?N] that a by (auto simp: a_def)
  have "concat (map chunk_bytes (take a rs)) = []" using before a by (auto simp: in_set_conv_nth)
  then have off: "chunk_offset rs a = 0" unfolding chunk_offset_def by (simp only: list.size)
  have "chunk_bytes (rs ! y) = []" if "z < y" "y < length rs" for y using za(2)[of y] that by (cases "chunk_bytes (rs ! y) = []") auto
  then have tail: "concat (map chunk_bytes (drop (Suc z) rs)) = []" using za(1) by (auto simp: in_set_conv_nth)
  have "concat (map chunk_bytes rs) = concat (map chunk_bytes (take z rs)) @ chunk_bytes (rs ! z) @ concat (map chunk_bytes (drop (Suc z) rs))"
    using za(1) by (metis (no_types, lifting) concat.simps(2) concat_append id_take_nth_drop list.simps(9) map_append)
  then have e: "chunk_offset rs z + length (chunk_bytes (rs ! z)) = length (concat (map chunk_bytes rs))"
    using tail by (simp add: chunk_offset_def del: length_concat)
  obtain ra rz where "rs ! a = Some ra" "rs ! z = Some rz" using a za(1) by (auto simp: chunk_bytes_def split: option.splits)
  then show thesis using that[of a ra z rz] a za(1) off e by (simp add: chunk_bytes_def)
qed

lemma extent_tiles:
  assumes ch: "chunks = chunk_rows ws (rg_fileOffset g) rs" and n: "length rs \<le> rd_natts st"
    and len: "rg_byteLength g = length (concat (map chunk_bytes rs))" and ne: "rg_byteLength g \<noteq> 0"
  shows "chunks_extent st g chunks = Some (rg_fileOffset g, rg_fileOffset g + rg_byteLength g)"
proof -
  let ?seen = "filter (\<lambda>cc. cc_columnIndex cc < rd_natts st \<and> cc_pageLength cc > 0) chunks"
  have "concat (map chunk_bytes rs) \<noteq> []" using len ne by force
  then obtain a ra z rz where t: "a < length rs" "rs ! a = Some ra" "fres_chunk ra \<noteq> []" "chunk_offset rs a = 0"
    "z < length rs" "rs ! z = Some rz" "fres_chunk rz \<noteq> []"
    "chunk_offset rs z + length (fres_chunk rz) = length (concat (map chunk_bytes rs))"
    by (rule tiling_ends)
  have ina: "chunk_row ws (rg_fileOffset g) rs a ra \<in> set ?seen" "chunk_row ws (rg_fileOffset g) rs z rz \<in> set ?seen"
    using t n by (auto simp: ch chunk_rows_eq image_iff intro: bexI[of _ a] bexI[of _ z])
  have bd: "rg_fileOffset g \<le> cc_pageOffset cc \<and> cc_pageOffset cc + cc_pageLength cc \<le> rg_fileOffset g + rg_byteLength g"
    if "cc \<in> set ?seen" for cc
    using that chunk_slice(2) len by (auto simp: ch chunk_rows_eq)
  let ?mn = "fold (\<lambda>cc m. min m (cc_pageOffset cc)) ?seen (rg_fileOffset g + rg_byteLength g)"
  let ?mx = "fold (\<lambda>cc m. max m (cc_pageOffset cc + cc_pageLength cc)) ?seen (rg_fileOffset g)"
  have "?mn \<le> rg_fileOffset g" using fold_min(1)[of ?seen cc_pageOffset "rg_fileOffset g + rg_byteLength g"] ina(1) t(4) by force
  moreover have "rg_fileOffset g \<le> ?mn" by (rule fold_min(3)) (use bd in auto)
  moreover have "?mx \<le> rg_fileOffset g + rg_byteLength g" by (rule fold_max(2)) (use bd in auto)
  moreover have "rg_fileOffset g + rg_byteLength g \<le> ?mx"
    using fold_max(1)[of ?seen "\<lambda>cc. cc_pageOffset cc + cc_pageLength cc" "rg_fileOffset g"] ina(2) t(8) len by (force simp del: length_concat)
  moreover have "?seen \<noteq> []" using ina(1) by (metis empty_iff empty_set)
  ultimately show ?thesis by (simp add: chunks_extent_def Let_def)
qed

text \<open>Whatever way the group is read, the buffer has the bytes of each wanted chunk.\<close>

lemma group_bytes_read:
  assumes ok: "blocks_ok (se_bpp E) (mf_blocks (rs_fork (rel_file rel)))"
    and at: "group_at (se_bpp E) (rs_fork (rel_file rel)) g (concat (map chunk_bytes rs))"
    and ch: "chunks = chunk_rows ws (rg_fileOffset g) rs" and n: "length rs \<le> rd_natts st"
    and junk: "\<forall>n. length (se_junk E n) = n"
  obtains buf where "read_group_bytes E rel st g chunks = Inr buf"
    "\<And>c res. c < length rs \<Longrightarrow> rs ! c = Some res \<Longrightarrow> rd_wanted st ! c \<Longrightarrow>
       take (length (fres_chunk res)) (drop (chunk_offset rs c) buf) = fres_chunk res"
proof -
  let ?data = "concat (map chunk_bytes rs)" and ?off = "rg_fileOffset g" and ?b0 = "group_buffer E g (rd_buffer st)"
  have len: "rg_byteLength g = length ?data" and h: "holds_at (se_bpp E) (rs_fork (rel_file rel)) ?off ?data"
    using at by (simp_all add: group_at_def)
  have "rg_byteLength g \<le> length ?b0" using junk by (auto simp: group_buffer_def Let_def)
  then have b0: "agrees_on {} ?b0 ?data" unfolding len agrees_on_def by simp
  have got: "take (length (fres_chunk res)) (drop (chunk_offset rs c) buf) = fres_chunk res"
    if "c < length rs" "rs ! c = Some res" "agrees_on P buf ?data" "{chunk_offset rs c..<chunk_offset rs c + length (fres_chunk res)} \<subseteq> P" for c res P buf
    using agrees_slice[OF that(3,4)] chunk_slice[OF that(1,2)] by simp
  consider (empty) "rg_byteLength g = 0" | (all) "rg_byteLength g \<noteq> 0" "rd_allWanted st" | (some) "rg_byteLength g \<noteq> 0" "\<not> rd_allWanted st"
    by blast
  then show thesis
  proof cases
    case empty
    have "take (length (fres_chunk res)) (drop (chunk_offset rs c) ?b0) = fres_chunk res" if "c < length rs" "rs ! c = Some res" for c res
      using chunk_slice(2)[OF that] empty unfolding len[symmetric] by simp
    then show thesis using empty by (intro that[of ?b0]) (simp_all add: read_group_bytes_def Let_def)
  next
    case all
    have "PgColumnarReadLogicalData (se_bpp E) (se_read_stream E) (?off + 0) (length ?data) (rs_fork (rel_file rel)) = Inr (take (length ?data) (drop 0 ?data))"
      by (rule read_held[OF ok h]) simp
    then have rd: "read_group_bytes E rel st g chunks = Inr (put_bytes ?b0 0 ?data)"
      using all len by (auto simp: read_group_bytes_def Let_def simp del: length_concat)
    have "agrees_on ({} \<union> {0..<0 + length ?data}) (put_bytes ?b0 0 (take (length ?data) (drop 0 ?data))) ?data"
      by (rule put_bytes_agrees[OF b0]) simp
    then have "agrees_on {0..<length ?data} (put_bytes ?b0 0 ?data) ?data" by simp
    from got[OF _ _ this] show thesis using chunk_slice(2) by (intro that[OF rd]) force
  next
    case some
    have inside: "\<forall>cc \<in> set chunks. \<not> chunk_outside g cc"
    proof
      fix cc assume "cc \<in> set chunks"
      then obtain c res where c: "c < length rs" "rs ! c = Some res" "cc = chunk_row ws ?off rs c res" by (auto simp: ch chunk_rows_eq)
      show "\<not> chunk_outside g cc" using chunk_slice(2)[OF c(1,2)] len by (auto simp: c(3) chunk_outside_def)
    qed
    let ?ranges = "map (\<lambda>cc. (cc_pageOffset cc, cc_pageOffset cc + cc_pageLength cc))
      (filter (\<lambda>cc. cc_columnIndex cc < rd_natts st \<and> rd_wanted st ! cc_columnIndex cc \<and> cc_pageLength cc > 0) chunks)"
    have bd: "\<forall>q \<in> set ?ranges. ?off \<le> fst q \<and> fst q \<le> snd q \<and> snd q \<le> ?off + length ?data"
      using chunk_slice(2)[of _ rs] by (force simp: ch chunk_rows_eq simp del: length_concat)
    let ?runs = "sorted_runs ?ranges"
    obtain buf where buf: "read_runs E rel ?off ?runs ?b0 = Inr buf"
        "agrees_on ({} \<union> {i. \<exists>q \<in> set ?runs. fst q \<le> ?off + i \<and> ?off + i < snd q}) buf ?data"
      by (rule read_runs_agrees[OF ok h _ b0]) (use sorted_runs_within[OF bd] in blast)
    have "chunks \<noteq> []"
    proof -
      have "?data \<noteq> []" using some(1) len by force
      then obtain a ra z rz where "a < length rs" "rs ! a = Some ra" by (rule tiling_ends)
      then show ?thesis by (auto simp: ch chunk_rows_eq filter_empty_conv)
    qed
    then have "pgcolumnar_native_read_projected E rel st g chunks ?b0 =
        (case sort_key fst ?ranges of [] \<Rightarrow> Inr ?b0 | r # rest \<Rightarrow> read_runs E rel ?off (coalesce_ranges r rest) ?b0)"
      unfolding pgcolumnar_native_read_projected_def projected_ranges_eq[OF inside, of st] extent_tiles[OF ch n len some(1)] by simp
    also have "\<dots> = Inr buf" using buf(1) unfolding sorted_runs_def by (cases "sort_key fst ?ranges") simp_all
    finally have rd: "read_group_bytes E rel st g chunks = Inr buf" using some by (simp add: read_group_bytes_def Let_def)
    show thesis
    proof (rule that[OF rd])
      fix c res assume c: "c < length rs" "rs ! c = Some res" "rd_wanted st ! c"
      show "take (length (fres_chunk res)) (drop (chunk_offset rs c) buf) = fres_chunk res"
      proof (rule got[OF c(1,2) buf(2)], rule subsetI)
        fix i assume i: "i \<in> {chunk_offset rs c..<chunk_offset rs c + length (fres_chunk res)}"
        have "chunk_row ws ?off rs c res \<in> set chunks" using c by (auto simp: ch chunk_rows_eq image_iff intro: bexI[of _ c])
        then have "\<exists>q \<in> set ?ranges. fst q \<le> ?off + i \<and> ?off + i < snd q"
          using i c n by (force intro!: bexI[of _ "chunk_row ws ?off rs c res"])
        from sorted_runs_cover[OF this] show "i \<in> {} \<union> {i. \<exists>q \<in> set ?runs. fst q \<le> ?off + i \<and> ?off + i < snd q}" by simp
      qed
    qed
  qed
qed

subsection \<open>Stored groups\<close>

text \<open>
  A group as it was written: its catalog row, the settings and column definitions of the
  writer, its rows by chunk group and the flushed columns.
\<close>

record stored_group =
  sg_group :: row_group
  sg_cfg :: flush_cfg
  sg_td :: "write_col list"
  sg_defs :: "column_def list"
  sg_D :: "nat \<Rightarrow> datum set"
  sg_B :: "nat \<Rightarrow> datum set"
  sg_rows :: "datum option list list list"
  sg_res :: "flush_result option list"

definition sg_cells :: "stored_group \<Rightarrow> nat \<Rightarrow> datum option list list option" where
  "sg_cells sg c =
     (if c < length (sg_td sg) \<and> \<not> wc_virtual (sg_td sg ! c) then Some (map (map (\<lambda>r. r ! c)) (sg_rows sg)) else None)"

abbreviation sg_lens :: "stored_group \<Rightarrow> nat list" where
  "sg_lens sg \<equiv> map length (sg_rows sg)"

definition sg_col :: "stored_group \<Rightarrow> nat \<Rightarrow> column_written" where
  "sg_col sg c = \<lparr>cw_def = sg_defs sg ! c, cw_D = sg_D sg c, cw_B = sg_B sg c,
     cw_rows = (case sg_cells sg c of None \<Rightarrow> [] | Some cl \<Rightarrow> cl)\<rparr>"

text \<open>
  The table may have gained columns since; the others have the type they were written with.
\<close>

definition sg_ok :: "scan_env \<Rightarrow> (u64 \<Rightarrow> nat \<Rightarrow> bool) \<Rightarrow> table_col list \<Rightarrow> rel_state \<Rightarrow> stored_group \<Rightarrow> bool" where
  "sg_ok E ok td rel sg \<longleftrightarrow>
     group_stored (se_bpp E) (sg_cfg sg) ok (sg_td sg) (sg_defs sg) (sg_D sg) (sg_B sg) (sg_rows sg) (sg_res sg) (sg_group sg) rel \<and>
     cfg_env (sg_cfg sg) = se_cenv E \<and> cfg_lib (sg_cfg sg) = se_lib E \<and> length (sg_td sg) \<le> length td \<and>
     (\<forall>c < length (sg_td sg). wc_att (sg_td sg ! c) = tc_att (td ! c)) \<and>
     (\<forall>c < length td. def_ok (sg_D sg c) (sg_B sg c) (sg_defs sg ! c)) \<and>
     0 < rg_rowCount (sg_group sg) \<and> rg_rowCount (sg_group sg) < 2 ^ 32"

text \<open>The decoder accepts the chunk of every stored column that the scan reads.\<close>

definition sg_readable :: "table_col list \<Rightarrow> bool list \<Rightarrow> stored_group \<Rightarrow> bool" where
  "sg_readable td wanted sg \<longleftrightarrow>
     (\<forall>c res. c < length (sg_res sg) \<and> sg_res sg ! c = Some res \<and> wanted ! c \<longrightarrow> readable_chunk (tc_att (td ! c)) (fres_desc res))"

lemma sg_ok_column:
  assumes "sg_ok E ok td rel sg" "c < length (sg_res sg)" "sg_res sg ! c = Some res"
  shows "column_flushed (sg_cfg sg) ok (tc_att (td ! c)) (sg_col sg c) res" "c < length td"
    "sg_cells sg c = Some (cw_rows (sg_col sg c))" "map length (cw_rows (sg_col sg c)) = sg_lens sg"
proof -
  have c: "c < length (sg_td sg)" and r: "col_result (sg_cfg sg) ok (sg_td sg) (sg_defs sg) (sg_D sg) (sg_B sg) (sg_rows sg) c (Some res)"
    using assms by (auto simp: sg_ok_def group_stored_def)
  then have nv: "\<not> wc_virtual (sg_td sg ! c)" by (auto simp: col_result_def split: if_splits)
  then show cells: "sg_cells sg c = Some (cw_rows (sg_col sg c))" "map length (cw_rows (sg_col sg c)) = sg_lens sg"
    using c by (simp_all add: sg_col_def sg_cells_def)
  have "sg_col sg c = written_col (sg_td sg) (sg_defs sg) (sg_D sg) (sg_B sg) (sg_rows sg) c"
    using c nv by (simp add: sg_col_def sg_cells_def written_col_def)
  then show "column_flushed (sg_cfg sg) ok (tc_att (td ! c)) (sg_col sg c) res" "c < length td"
    using r nv c assms(1) by (simp_all add: col_result_def sg_ok_def)
qed

lemma sg_ok_stored:
  assumes "sg_ok E ok td rel sg"
  shows "sg_cells sg c = Some cl \<longleftrightarrow> c < length (sg_res sg) \<and> (\<exists>res. sg_res sg ! c = Some res) \<and> cl = cw_rows (sg_col sg c)"
proof -
  have l: "length (sg_res sg) = length (sg_td sg)"
      "\<And>c. c < length (sg_td sg) \<Longrightarrow> col_result (sg_cfg sg) ok (sg_td sg) (sg_defs sg) (sg_D sg) (sg_B sg) (sg_rows sg) c (sg_res sg ! c)"
    using assms by (auto simp: sg_ok_def group_stored_def)
  show ?thesis
  proof (cases "c < length (sg_td sg) \<and> \<not> wc_virtual (sg_td sg ! c)")
    case True
    then show ?thesis using l(1) l(2)[of c] by (auto simp: sg_cells_def sg_col_def col_result_def)
  next
    case False
    then show ?thesis using l(1) l(2)[of c] by (auto simp: sg_cells_def col_result_def split: if_splits)
  qed
qed

lemma sg_cells_fit:
  assumes "sg_ok E ok td rel sg"
  shows "cells_fit (se_pg E) ok td (sg_lens sg) (sg_cells sg)"
  unfolding cells_fit_def
proof (intro allI impI conjI)
  fix c cl assume c: "c < length td" "sg_cells sg c = Some cl"
  then obtain res where r: "c < length (sg_res sg)" "sg_res sg ! c = Some res" "cl = cw_rows (sg_col sg c)"
    using sg_ok_stored[OF assms] by blast
  note f = sg_ok_column[OF assms r(1,2)]
  show "map length cl = sg_lens sg" using f(4) r(3) by simp
  have "cfg_env (sg_cfg sg) = se_cenv E" using assms by (simp add: sg_ok_def)
  then have rd: "store_ok (se_pg E) ok (tc_att (td ! c)) (cw_def (sg_col sg c)) (cw_D (sg_col sg c)) (cw_B (sg_col sg c))"
      "\<forall>rows \<in> set cl. rows_ok (se_pg E) ok (tc_att (td ! c)) (cw_D (sg_col sg c)) rows"
    using f(1) r(3) by (simp_all add: column_flushed_def column_ready_def)
  show "cells_ok (se_pg E) ok (tc_att (td ! c)) cl" unfolding cells_ok_def
  proof (intro conjI allI impI)
    show "pg_datum_ok (se_pg E) ok" using rd(1) by (simp add: store_ok_def)
    fix d assume "Some d \<in> set (concat cl)"
    then obtain rows where rows: "rows \<in> set cl" "Some d \<in> set rows" by auto
    have "flat_datum (se_pg E) (tc_att (td ! c)) d \<in> set (present_values (se_pg E) (tc_att (td ! c)) rows)"
      using rows(2) by (force simp: present_values_def)
    then show "datum_fits ok (tc_att (td ! c)) (flat_datum (se_pg E) (tc_att (td ! c)) d)"
        "stored_datum (se_pg E) (tc_att (td ! c)) (flat_datum (se_pg E) (tc_att (td ! c)) d) = flat_datum (se_pg E) (tc_att (td ! c)) d"
      using rd rows(1) by (auto simp: rows_ok_def store_ok_def)
  qed
qed

text \<open>The chunk list of the group: one row per stored column, in column order.\<close>

definition stored_columns :: "stored_group \<Rightarrow> nat list" where
  "stored_columns sg = filter (\<lambda>c. sg_res sg ! c \<noteq> None) [0..<length (sg_res sg)]"

lemma sg_chunks:
  assumes "sg_ok E ok td rel sg"
  obtains ws where "PgColumnarReadColumnChunkList (rg_storageId (sg_group sg)) (rg_groupNumber (sg_group sg)) rel =
      map (\<lambda>c. chunk_row ws (rg_fileOffset (sg_group sg)) (sg_res sg) c (the (sg_res sg ! c))) (stored_columns sg)"
    "rows_of_group (sg_group sg) (rel_zones rel) = entry_rows ws fres_zoneRows (sg_res sg)"
    "rows_of_group (sg_group sg) (rel_blooms rel) = entry_rows ws (\<lambda>res. case fres_bloom res of None \<Rightarrow> [] | Some b \<Rightarrow> [b]) (sg_res sg)"
proof -
  obtain ws where ws: "filter (\<lambda>cc. cc_storageId cc = rg_storageId (sg_group sg) \<and> cc_groupNumber cc = rg_groupNumber (sg_group sg)) (rel_chunks rel) =
      chunk_rows ws (rg_fileOffset (sg_group sg)) (sg_res sg)"
      "rows_of_group (sg_group sg) (rel_zones rel) = entry_rows ws fres_zoneRows (sg_res sg)"
      "rows_of_group (sg_group sg) (rel_blooms rel) = entry_rows ws (\<lambda>res. case fres_bloom res of None \<Rightarrow> [] | Some b \<Rightarrow> [b]) (sg_res sg)"
    using assms unfolding sg_ok_def group_stored_def by blast
  show thesis
    by (rule that[OF _ ws(2,3)]) (simp only: PgColumnarReadColumnChunkList_def ws(1) chunk_rows_eq stored_columns_def)
qed

subsection \<open>Decoding the columns of a group\<close>

lemma chunk_vectors_rows:
  assumes "\<And>c. c \<in> set cs \<Longrightarrow> cc_columnIndex (f c) = c \<and> (\<exists>cols. desc_describes (cc_descriptor (f c)) cols \<and> length cols = L)"
  shows "chunk_vectors rs (map f cs) = (cs \<noteq> [], if \<exists>c \<in> set cs. c < rd_natts rs \<and> rd_wanted rs ! c then L else 0)"
proof -
  let ?step = "\<lambda>cc (allDesc, n).
       if cc_columnIndex cc \<ge> rd_natts rs \<or> \<not> rd_wanted rs ! cc_columnIndex cc then (allDesc, n)
       else if is_baseline (cc_descriptor cc) then (False, n)
       else if length (cc_descriptor cc) < ENCDESC_HEADER_LEN \<or> \<not> PgColumnarEncdescVersionSupported (cc_descriptor cc)
       then (False, n)
       else (allDesc, max n (PgColumnarEncdescReadVectorCount (cc_descriptor cc)))"
  have "fold ?step (map f cs) (b, n) = (b, if \<exists>c \<in> set cs. c < rd_natts rs \<and> rd_wanted rs ! c then max n L else n)" for b n
    using assms
  proof (induction cs arbitrary: n)
    case (Cons c cs)
    obtain cols where c: "cc_columnIndex (f c) = c" "desc_describes (cc_descriptor (f c)) cols" "length cols = L"
      using Cons.prems[of c] by auto
    note d = describes_reads[OF c(2)]
    have IH: "fold ?step (map f cs) (b, n) = (b, if \<exists>c \<in> set cs. c < rd_natts rs \<and> rd_wanted rs ! c then max n L else n)" for n
      using Cons.IH Cons.prems by auto
    show ?case using c d IH[of n] IH[of "max n L"] by (auto simp: not_less max_def)
  qed simp
  then show ?thesis by (simp add: chunk_vectors_def)
qed

definition pass_cols ::
  "read_state \<Rightarrow> (nat \<Rightarrow> bool) \<Rightarrow> (nat \<Rightarrow> native_col \<Rightarrow> bool) \<Rightarrow> native_col option list \<Rightarrow> native_col option list \<Rightarrow> bool" where
  "pass_cols rs sel P cols cols' \<longleftrightarrow> length cols' = rd_natts rs \<and>
     (\<forall>c < rd_natts rs. if sel c then \<exists>nc. cols' ! c = Some nc \<and> P c nc else cols' ! c = cols ! c)"

lemma decode_pass_columns:
  assumes "\<And>c. c \<in> set cs \<Longrightarrow> rd_wanted rs ! c \<Longrightarrow> sel c \<Longrightarrow>
      \<exists>nc. load_chunk E (tc_att (rd_td rs ! c)) rg buf skp (f c) = Inr nc \<and> P c nc"
    and "\<And>c. c \<in> set cs \<Longrightarrow> cc_columnIndex (f c) = c \<and> c < rd_natts rs" and "distinct cs" and "length cols = rd_natts rs"
  shows "\<exists>cols'. decode_pass E rs rg buf skp sel (map f cs) cols = Inr cols' \<and>
    pass_cols rs (\<lambda>c. c \<in> set cs \<and> rd_wanted rs ! c \<and> sel c) P cols cols'"
  using assms
proof (induction cs arbitrary: cols)
  case Nil
  then show ?case by (simp add: pass_cols_def)
next
  case (Cons c cs)
  have c: "cc_columnIndex (f c) = c" "c < rd_natts rs" "c \<notin> set cs" using Cons.prems(2)[of c] Cons.prems(3) by auto
  have IH: "\<exists>cols'. decode_pass E rs rg buf skp sel (map f cs) xs = Inr cols' \<and>
      pass_cols rs (\<lambda>c. c \<in> set cs \<and> rd_wanted rs ! c \<and> sel c) P xs cols'" if "length xs = rd_natts rs" for xs
    by (rule Cons.IH) (use Cons.prems(1,2,3) that in auto)
  show ?case
  proof (cases "rd_wanted rs ! c \<and> sel c")
    case False
    have "(\<lambda>d. d \<in> set (c # cs) \<and> rd_wanted rs ! d \<and> sel d) = (\<lambda>d. d \<in> set cs \<and> rd_wanted rs ! d \<and> sel d)" using False by auto
    then show ?thesis using IH[OF Cons.prems(4)] False c by auto
  next
    case True
    obtain nc where nc: "load_chunk E (tc_att (rd_td rs ! c)) rg buf skp (f c) = Inr nc" "P c nc"
      using Cons.prems(1)[of c] True by auto
    obtain cols' where cols': "decode_pass E rs rg buf skp sel (map f cs) (cols[c := Some nc]) = Inr cols'"
        "pass_cols rs (\<lambda>c. c \<in> set cs \<and> rd_wanted rs ! c \<and> sel c) P (cols[c := Some nc]) cols'"
      using IH[of "cols[c := Some nc]"] Cons.prems(4) by auto
    have "pass_cols rs (\<lambda>d. d \<in> set (c # cs) \<and> rd_wanted rs ! d \<and> sel d) P cols cols'"
      unfolding pass_cols_def
    proof (intro conjI allI impI)
      show "length cols' = rd_natts rs" using cols'(2) by (simp add: pass_cols_def)
      fix d assume d: "d < rd_natts rs"
      have x: "if d \<in> set cs \<and> rd_wanted rs ! d \<and> sel d then \<exists>nc. cols' ! d = Some nc \<and> P d nc else cols' ! d = cols[c := Some nc] ! d"
        using cols'(2) d unfolding pass_cols_def by blast
      show "if d \<in> set (c # cs) \<and> rd_wanted rs ! d \<and> sel d then \<exists>nc. cols' ! d = Some nc \<and> P d nc else cols' ! d = cols ! d"
        using x True c nc(2) d Cons.prems(4) by (cases "d = c") auto
    qed
    then show ?thesis using True c nc(1) cols'(1) by auto
  qed
qed

lemma sg_load_chunk:
  assumes sg: "sg_ok E ok td rel sg" and c: "c < length (sg_res sg)" "sg_res sg ! c = Some res"
    and readable: "readable_chunk (tc_att (td ! c)) (fres_desc res)"
    and buf: "take (length (fres_chunk res)) (drop (chunk_offset (sg_res sg) c) buf) = fres_chunk res"
  shows "\<exists>nc. load_chunk E (tc_att (td ! c)) (sg_group sg) buf skp (chunk_row ws (rg_fileOffset (sg_group sg)) (sg_res sg) c res) = Inr nc \<and>
    col_at (se_junk E) (se_pg E) (tc_att (td ! c)) skp (the (sg_cells sg c)) 0 nc"
proof -
  let ?g = "sg_group sg" and ?cc = "chunk_row ws (rg_fileOffset (sg_group sg)) (sg_res sg) c res"
  note f = sg_ok_column[OF sg c]
  have env: "se_cenv E = cfg_env (sg_cfg sg)" "se_lib E = cfg_lib (sg_cfg sg)" using sg by (simp_all add: sg_ok_def)
  have "rg_rowCount ?g = sum_list (sg_lens sg)" "rg_rowCount ?g < 2 ^ 32" "rg_byteLength ?g = length (concat (map chunk_bytes (sg_res sg)))"
    using sg by (simp_all add: sg_ok_def group_stored_def group_at_def length_concat)
  then have rows: "rg_rowCount ?g = length (concat (cw_rows (sg_col sg c)))" "(rg_rowCount ?g + 7) div 8 \<le> MaxAllocSize"
      "rg_byteLength ?g = length (concat (map chunk_bytes (sg_res sg)))"
    using f(4) by (simp_all add: length_concat MaxAllocSize_def)
  have "\<not> chunk_outside ?g ?cc" using chunk_slice(2)[OF c] rows(3) by (simp add: chunk_outside_def)
  moreover have "take (length (fres_chunk res)) (drop (cc_pageOffset ?cc - rg_fileOffset ?g) buf) = fres_chunk res" using buf by simp
  ultimately obtain nc where "load_chunk E (tc_att (td ! c)) ?g buf skp ?cc = Inr nc"
      "col_at (se_junk E) (se_pg E) (tc_att (td ! c)) skp (cw_rows (sg_col sg c)) 0 nc"
    using load_chunk_column[OF f(1) env rows(1,2), of ?cc buf skp] readable by auto
  then show ?thesis using f(3) by auto
qed

subsection \<open>The skip metadata of a stored group\<close>

lemma entry_rows_column:
  "map ge_row (filter (\<lambda>e. ge_columnIndex e = c) (entry_rows ws f rs)) =
     (if c < length rs then case rs ! c of None \<Rightarrow> [] | Some res \<Rightarrow> f res else [])"
proof -
  let ?e = "\<lambda>d. case rs ! d of None \<Rightarrow> [] | Some res \<Rightarrow>
     map (\<lambda>x. \<lparr>ge_storageId = ws_storageId ws, ge_groupNumber = ws_stripeId ws, ge_columnIndex = d, ge_row = x\<rparr>) (f res)"
  have one: "map ge_row (filter (\<lambda>e. ge_columnIndex e = c) (?e d)) = (if d = c then case rs ! c of None \<Rightarrow> [] | Some res \<Rightarrow> f res else [])" for d
    by (auto simp: comp_def split: option.split)
  have "map ge_row (filter (\<lambda>e. ge_columnIndex e = c) (concat (map ?e [0..<n]))) =
      (if c < n then case rs ! c of None \<Rightarrow> [] | Some res \<Rightarrow> f res else [])" for n
  proof (induction n)
    case (Suc n)
    then show ?case using one[of n] by auto
  qed simp
  then show ?thesis by (simp add: entry_rows_def)
qed

lemma find_filter: "map_option g (find P xs) = (case map g (filter P xs) of [] \<Rightarrow> None | y # _ \<Rightarrow> Some y)"
  by (induction xs) auto

text \<open>The per-vector rows of a flushed column: one for each vector, with its row span.\<close>

definition spans_ok :: "nat list \<Rightarrow> zone_row list \<Rightarrow> bool" where
  "spans_ok lens zs \<longleftrightarrow>
     (\<forall>z \<in> set zs. \<exists>v < length lens. z_vectorIndex z = int v \<and> z_valueCount z + z_nullCount z = lens ! v) \<and>
     (\<forall>v < length lens. \<exists>z \<in> set zs. z_vectorIndex z = int v)"

lemma spans_ok_span:
  assumes "spans_ok lens zs" "v < length lens"
  shows "vector_span zs v = of_nat (lens ! v)"
proof -
  obtain y where y: "y \<in> set zs" "z_vectorIndex y = int v" using assms by (auto simp: spans_ok_def)
  then obtain z where z: "vector_row zs v = Some z"
    by (cases "vector_row zs v") (auto simp: vector_row_def find_None_iff)
  then have "z \<in> set zs" "z_vectorIndex z = int v"
    by (auto simp: vector_row_def find_Some_iff) (metis length_rev nth_mem set_rev)
  then have "z_valueCount z + z_nullCount z = lens ! v" using assms(1) by (auto simp: spans_ok_def)
  then show ?thesis using z by (simp add: vector_span_def)
qed

lemma spans_ok_concat:
  assumes "\<forall>zs \<in> set zss. zs = [] \<or> spans_ok lens zs" "concat zss \<noteq> []"
  shows "spans_ok lens (concat zss)"
proof -
  obtain zs where zs: "zs \<in> set zss" "spans_ok lens zs" using assms by auto
  show ?thesis unfolding spans_ok_def
  proof (intro conjI ballI allI impI)
    fix z assume "z \<in> set (concat zss)"
    then obtain ys where "ys \<in> set zss" "z \<in> set ys" by auto
    then show "\<exists>v < length lens. z_vectorIndex z = int v \<and> z_valueCount z + z_nullCount z = lens ! v"
      using assms(1) by (auto simp: spans_ok_def)
  next
    fix v assume "v < length lens"
    then obtain z where "z \<in> set zs" "z_vectorIndex z = int v" using zs(2) by (auto simp: spans_ok_def)
    then show "\<exists>z \<in> set (concat zss). z_vectorIndex z = int v" using zs(1) by auto
  qed
qed

lemma flushed_described:
  fixes tc :: table_col
  assumes cf: "column_flushed C ok (tc_att tc) w res"
  shows "column_described (env_pg (cfg_env C)) (tc_att tc) w (PgColumnarReadZoneMapForColumn (flushed_meta (\<lambda>_. res)) 0)
      (PgColumnarReadZoneMapVectorsForColumn (flushed_meta (\<lambda>_. res)) 0) (fres_bloom res)"
    and "spans_ok (map length (cw_rows w)) (PgColumnarReadZoneMapVectorsForColumn (flushed_meta (\<lambda>_. res)) 0)"
proof -
  have "group_flushed C ok [tc] (map length (cw_rows w)) (\<lambda>_. w) (\<lambda>_. res)" using cf by (simp add: group_flushed_def)
  from group_flushed_described[OF this]
  show "column_described (env_pg (cfg_env C)) (tc_att tc) w (PgColumnarReadZoneMapForColumn (flushed_meta (\<lambda>_. res)) 0)
      (PgColumnarReadZoneMapVectorsForColumn (flushed_meta (\<lambda>_. res)) 0) (fres_bloom res)"
    by (simp add: group_described_def flushed_meta_def)
  obtain zs z where f: "fres_zoneRows res = zs @ [z]" "length zs = length (cw_rows w)"
    "\<forall>i < length zs. zone_describes (env_pg (cfg_env C)) (tc_att tc) (cw_def w) (cw_D w) (cw_B w) (cw_rows w ! i) (int i) (zs ! i)"
    "zone_describes (env_pg (cfg_env C)) (tc_att tc) (cw_def w) (cw_D w) (cw_B w) (concat (cw_rows w)) (- 1) z"
    by (rule flushed_zone_rows[OF cf]) (rule that)
  have ix: "\<forall>i < length zs. z_vectorIndex (zs ! i) = int i" "z_vectorIndex z = - 1"
    using f(3,4) by (simp_all add: zone_describes_def Let_def)
  have "PgColumnarReadZoneMapVectorsForColumn (flushed_meta (\<lambda>_. res)) 0 = zs"
    by (rule flushed_column_rows(2)[where res = "\<lambda>_. res", OF f(1) ix])
  moreover have "\<forall>i < length zs. z_valueCount (zs ! i) + z_nullCount (zs ! i) = length (cw_rows w ! i)"
    using f(3) zone_describes_span by blast
  ultimately show "spans_ok (map length (cw_rows w)) (PgColumnarReadZoneMapVectorsForColumn (flushed_meta (\<lambda>_. res)) 0)"
    using ix f(2) nth_mem[of _ zs] by (auto simp: spans_ok_def in_set_conv_nth)
qed

lemma sg_meta:
  assumes sg: "sg_ok E ok td rel sg"
  shows "c < length (sg_res sg) \<Longrightarrow> sg_res sg ! c = Some res \<Longrightarrow>
      gm_rows (group_meta_of (sg_group sg) rel) c = fres_zoneRows res \<and> gm_bloom (group_meta_of (sg_group sg) rel) c = fres_bloom res"
    and "sg_cells sg c = None \<Longrightarrow> gm_rows (group_meta_of (sg_group sg) rel) c = [] \<and> gm_bloom (group_meta_of (sg_group sg) rel) c = None"
proof -
  obtain ws where ws: "rows_of_group (sg_group sg) (rel_zones rel) = entry_rows ws fres_zoneRows (sg_res sg)"
    "rows_of_group (sg_group sg) (rel_blooms rel) = entry_rows ws (\<lambda>res. case fres_bloom res of None \<Rightarrow> [] | Some b \<Rightarrow> [b]) (sg_res sg)"
    by (rule sg_chunks[OF sg])
  show "c < length (sg_res sg) \<Longrightarrow> sg_res sg ! c = Some res \<Longrightarrow>
      gm_rows (group_meta_of (sg_group sg) rel) c = fres_zoneRows res \<and> gm_bloom (group_meta_of (sg_group sg) rel) c = fres_bloom res"
    by (auto simp: group_meta_of_def ws entry_rows_column find_filter split: option.split)
  assume "sg_cells sg c = None"
  then have "\<not> (c < length (sg_res sg) \<and> (\<exists>res. sg_res sg ! c = Some res))" using sg_ok_stored[OF sg, of c] by (metis option.distinct(1))
  then show "gm_rows (group_meta_of (sg_group sg) rel) c = [] \<and> gm_bloom (group_meta_of (sg_group sg) rel) c = None"
    by (auto simp: group_meta_of_def ws entry_rows_column find_filter split: option.split)
qed

lemma sg_described:
  assumes sg: "sg_ok E ok td rel sg"
  shows "group_described (se_pg E) td (sg_col sg) (group_meta_of (sg_group sg) rel)"
    and "c < length td \<Longrightarrow> PgColumnarReadZoneMapVectorsForColumn (group_meta_of (sg_group sg) rel) c = [] \<or>
      spans_ok (sg_lens sg) (PgColumnarReadZoneMapVectorsForColumn (group_meta_of (sg_group sg) rel) c)"
proof -
  let ?G = "group_meta_of (sg_group sg) rel"
  have env: "env_pg (cfg_env (sg_cfg sg)) = se_pg E" using sg by (simp add: sg_ok_def)
  have col: "column_described (se_pg E) (tc_att (td ! c)) (sg_col sg c) (PgColumnarReadZoneMapForColumn ?G c)
        (PgColumnarReadZoneMapVectorsForColumn ?G c) (gm_bloom ?G c) \<and>
      (PgColumnarReadZoneMapVectorsForColumn ?G c = [] \<or> spans_ok (sg_lens sg) (PgColumnarReadZoneMapVectorsForColumn ?G c))"
    if c: "c < length td" for c
  proof (cases "sg_cells sg c")
    case None
    have "def_ok (sg_D sg c) (sg_B sg c) (sg_defs sg ! c)" using sg c by (simp add: sg_ok_def)
    then show ?thesis using sg_meta(2)[OF sg None] None
      by (simp add: column_described_def sg_col_def PgColumnarReadZoneMapForColumn_def PgColumnarReadZoneMapVectorsForColumn_def
          vector_row_def present_values_def)
  next
    case (Some cl)
    then obtain res where r: "c < length (sg_res sg)" "sg_res sg ! c = Some res" using sg_ok_stored[OF sg] by blast
    note f = sg_ok_column[OF sg r] and m = sg_meta(1)[OF sg r]
    have "PgColumnarReadZoneMapForColumn ?G c = PgColumnarReadZoneMapForColumn (flushed_meta (\<lambda>_. res)) 0"
        "PgColumnarReadZoneMapVectorsForColumn ?G c = PgColumnarReadZoneMapVectorsForColumn (flushed_meta (\<lambda>_. res)) 0"
      using m by (simp_all add: PgColumnarReadZoneMapForColumn_def PgColumnarReadZoneMapVectorsForColumn_def flushed_meta_def)
    then show ?thesis using flushed_described[OF f(1)] m f(4) env by simp
  qed
  then show "group_described (se_pg E) td (sg_col sg) ?G" by (simp add: group_described_def)
  show "c < length td \<Longrightarrow> PgColumnarReadZoneMapVectorsForColumn ?G c = [] \<or> spans_ok (sg_lens sg) (PgColumnarReadZoneMapVectorsForColumn ?G c)"
    using col by blast
qed

end
