(* ===== verification/Scan_Result.thy ===== *)
theory Scan_Result
  imports Scan_Load
begin

section \<open>The rows of a scan\<close>

text \<open>
  The vectors a load leaves out hold no row the scan must return; the load of a stored group
  leaves a state at its first row; and the loop over the groups returns, in order, the rows
  that are live, pass the filter and are not pruned, none that must be returned being pruned.
\<close>

subsection \<open>Vectors excluded by their zone maps\<close>

text \<open>A row that satisfies the predicates on the columns its group stores.\<close>

definition row_fits ::
  "pg_datum \<Rightarrow> table_col list \<Rightarrow> (nat \<Rightarrow> datum option list list option) \<Rightarrow> skip_predicate list \<Rightarrow> nat \<Rightarrow> bool" where
  "row_fits V td cells preds r \<longleftrightarrow>
     (\<forall>p \<in> set preds. \<forall>cl. cells (attidx p) = Some cl \<longrightarrow> cell_matches V td p (concat cl ! r))"

definition keeps :: "nat list \<Rightarrow> (nat \<Rightarrow> bool) \<Rightarrow> (bool list \<times> u32 list) option \<Rightarrow> bool" where
  "keeps lens must sv \<longleftrightarrow> (\<forall>r < sum_list lens. must r \<longrightarrow> row_kept lens sv r)"

lemma cell_in_vector:
  assumes "map length cl = lens" "r < sum_list lens"
  shows "concat cl ! r \<in> set (cl ! vec_of lens r)" "vec_of lens r < length cl"
proof -
  have l: "length lens = length cl" using assms(1) by auto
  then show v: "vec_of lens r < length cl" using vec_of_bounds(1)[OF assms(2)] by simp
  show "concat cl ! r \<in> set (cl ! vec_of lens r)"
    by (rule concat_nth_vector[OF v]) (use vec_of_bounds(2,3)[OF assms(2)] assms(1) in \<open>simp_all add: take_map[symmetric]\<close>)
qed

lemma span_zones_ok:
  assumes "\<forall>c < length td. PgColumnarReadZoneMapVectorsForColumn G c = [] \<or> spans_ok lens (PgColumnarReadZoneMapVectorsForColumn G c)"
    "\<forall>p \<in> set preds. attidx p < length td" "span_zones G (length td) preds \<noteq> []"
  shows "spans_ok lens (span_zones G (length td) preds)"
proof (cases "find (\<lambda>zs. zs \<noteq> []) (map (\<lambda>p. PgColumnarReadZoneMapVectorsForColumn G (attidx p)) preds)")
  case None
  then have e: "span_zones G (length td) preds = concat (map (PgColumnarReadZoneMapVectorsForColumn G) [0..<length td])"
    by (simp add: span_zones_def PgColumnarReadZoneMapVectors_def)
  have "\<forall>zs \<in> set (map (PgColumnarReadZoneMapVectorsForColumn G) [0..<length td]). zs = [] \<or> spans_ok lens zs"
    using assms(1) by simp
  from spans_ok_concat[OF this] show ?thesis using assms(3) unfolding e .
next
  case (Some zs)
  then have "zs \<in> set (map (\<lambda>p. PgColumnarReadZoneMapVectorsForColumn G (attidx p)) preds)" "zs \<noteq> []"
    by (auto simp: find_Some_iff)
  then show ?thesis using assms(1,2) Some by (auto simp: span_zones_def)
qed

lemma starts_ok:
  assumes "spans_ok lens zs" "sum_list lens < 2 ^ 32" "k \<le> length lens"
  shows "unat (map (\<lambda>k. \<Sum>v < k. vector_span zs v) [0..<Suc (length lens)] ! k) = sum_list (take k lens)"
proof -
  have "(\<Sum>v < k. vector_span zs v) = (\<Sum>v < k. of_nat (lens ! v))"
    using spans_ok_span[OF assms(1)] assms(3) by (intro sum.cong) auto
  also have "\<dots> = of_nat (sum_list (take k lens))" using assms(3) by (simp add: sum_list_sum_nth atLeast0LessThan min_absorb2)
  finally show ?thesis using assms(2,3) sum_take_le[of k lens]
    by (simp add: unat_of_nat take_bit_nat_eq_self del: upt_Suc)
qed

lemma build_skipvec_keeps:
  assumes sg: "sg_ok E ok td rel sg" and fits: "preds_fit td (sg_col sg) (take (numPredicates pr) (predicates pr))"
    and n: "numPredicates pr \<le> length (predicates pr)" and vc: "vecCount = 0 \<or> vecCount = length (sg_rows sg)"
  obtains sv where "pgcolumnar_native_build_skipvec (se_pg E) td qf (group_meta_of (sg_group sg) rel) pr vecCount = Inr sv"
    "skip_shape (sg_lens sg) sv vecCount" "numPredicates pr = 0 \<Longrightarrow> \<forall>v < length (sg_rows sg). \<not> skip_fn sv v"
    "keeps (sg_lens sg) (row_fits (se_pg E) td (sg_cells sg) (take (numPredicates pr) (predicates pr))) sv"
proof -
  let ?V = "se_pg E" and ?G = "group_meta_of (sg_group sg) rel" and ?ps = "take (numPredicates pr) (predicates pr)"
  let ?zs = "span_zones ?G (length td) ?ps"
  note d = sg_described[OF sg]
  show thesis
  proof (cases "vecCount = 0 \<or> numPredicates pr = 0 \<and> \<not> qf \<or> ?zs = []")
    case True
    then show thesis by (intro that[of None])
        (auto simp: pgcolumnar_native_build_skipvec_def Let_def skip_shape_def keeps_def row_kept_def skip_fn_def)
  next
    case False
    let ?L = "length (sg_rows sg)"
    have L: "vecCount = ?L" using vc False by simp
    have sp: "spans_ok (sg_lens sg) ?zs"
      by (rule span_zones_ok) (use d(2) fits False in \<open>auto simp: preds_fit_def\<close>)
    have total: "sum_list (sg_lens sg) < 2 ^ 32"
      using sg by (simp add: sg_ok_def group_stored_def length_concat)
    let ?none = "\<lambda>v. \<exists>p \<in> set ?ps. v < length (cw_rows (sg_col sg (attidx p))) \<and>
        (\<forall>cell \<in> set (cw_rows (sg_col sg (attidx p)) ! v). \<not> cell_matches ?V td p cell)"
    have "\<forall>v. \<exists>e. vector_excluded ?V td ?G v ?ps = Inr e \<and> (e \<longrightarrow> ?none v)"
    proof
      fix v show "\<exists>e. vector_excluded ?V td ?G v ?ps = Inr e \<and> (e \<longrightarrow> ?none v)"
        by (rule vector_excluded_sound[OF d(1) fits, of v]) blast
    qed
    then obtain ex where ex: "\<forall>v. vector_excluded ?V td ?G v ?ps = Inr (ex v) \<and> (ex v \<longrightarrow> ?none v)" by (rule exE[OF choice])
    let ?starts = "map (\<lambda>k. \<Sum>v < k. vector_span ?zs v) [0..<Suc ?L]"
    have "pgcolumnar_native_build_skipvec ?V td qf ?G pr vecCount = Inr (Some (map ex [0..<?L], ?starts))"
      using False L res_map_all[of "[0..<?L]" "\<lambda>v. vector_excluded ?V td ?G v ?ps" ex] ex
      by (auto simp: pgcolumnar_native_build_skipvec_def Let_def vector_starts simp del: upt_Suc)
    then show thesis
    proof (rule that)
      show "skip_shape (sg_lens sg) (Some (map ex [0..<?L], ?starts)) vecCount"
        using L starts_ok[OF sp total] by (simp add: skip_shape_def del: upt_Suc)
      show "\<forall>v < ?L. \<not> skip_fn (Some (map ex [0..<?L], ?starts)) v" if "numPredicates pr = 0"
        using that ex by (auto simp: skip_fn_def)
      show "keeps (sg_lens sg) (row_fits ?V td (sg_cells sg) ?ps) (Some (map ex [0..<?L], ?starts))"
        unfolding keeps_def row_kept_def
      proof (intro allI impI notI)
        fix r assume r: "r < sum_list (sg_lens sg)" and f: "row_fits ?V td (sg_cells sg) ?ps r"
          and "skip_fn (Some (map ex [0..<?L], ?starts)) (vec_of (sg_lens sg) r)"
        then have "ex (vec_of (sg_lens sg) r)" using vec_of_bounds(1)[OF r] by (simp add: skip_fn_def)
        then obtain p where p: "p \<in> set ?ps" "vec_of (sg_lens sg) r < length (cw_rows (sg_col sg (attidx p)))"
            "\<forall>cell \<in> set (cw_rows (sg_col sg (attidx p)) ! vec_of (sg_lens sg) r). \<not> cell_matches ?V td p cell"
          using ex by blast
        then obtain cl where cl: "sg_cells sg (attidx p) = Some cl" "cw_rows (sg_col sg (attidx p)) = cl"
          by (auto simp: sg_col_def split: option.splits)
        have "attidx p < length td" using fits p(1) by (auto simp: preds_fit_def)
        then have "map length cl = sg_lens sg" using sg_cells_fit[OF sg] cl(1) by (simp add: cells_fit_def)
        from cell_in_vector(1)[OF this r] show False using p(1,3) cl f by (auto simp: row_fits_def)
      qed
    qed
  qed
qed

subsection \<open>Exact selection on the decoded columns\<close>

definition satisfies_all :: "pg_datum \<Rightarrow> attr \<Rightarrow> skip_predicate list \<Rightarrow> datum option \<Rightarrow> bool" where
  "satisfies_all V att preds cell \<longleftrightarrow> (\<exists>d. cell = Some d \<and> list_all (\<lambda>p. native_value_satisfies p (flat_datum V att d)) preds)"

lemma any_row_satisfies_rows:
  assumes ok: "cells_ok V ok att cl" and at: "col_at junk V att skp cl r nc" and n: "r + n \<le> length (concat cl)"
    and ns: "\<forall>i \<in> {r..<r + n}. \<not> skp (vec_of (map length cl) i)"
  shows "any_row_satisfies V att (nc_validity nc) preds n r (nc_cursor nc) =
    Inr (\<exists>i \<in> {r..<r + n}. satisfies_all V att preds (concat cl ! i))"
  using at n ns
proof (induction n arbitrary: r nc)
  case (Suc n)
  have r: "r < length (concat cl)" "\<not> skp (vec_of (map length cl) r)" using Suc.prems by auto
  have bit: "bufbit (nc_validity nc) r \<longleftrightarrow> concat cl ! r \<noteq> None" using Suc.prems(1) r(1) by (simp add: col_at_def)
  have split: "(\<exists>i \<in> {r..<r + Suc n}. Q i) \<longleftrightarrow> Q r \<or> (\<exists>i \<in> {r + 1..<r + 1 + n}. Q i)" for Q
  proof -
    have "{r..<r + Suc n} = insert r {r + 1..<r + 1 + n}" by auto
    then show ?thesis by simp
  qed
  have rest: "\<forall>i \<in> {r + 1..<r + 1 + n}. \<not> skp (vec_of (map length cl) i)" "r + 1 + n \<le> length (concat cl)" using Suc.prems by auto
  show ?case
  proof (cases "concat cl ! r")
    case None
    from Suc.IH[OF col_at_null[OF Suc.prems(1) r None] rest(2,1)] show ?thesis
      using None bit unfolding split by (simp add: satisfies_all_def)
  next
    case (Some d)
    let ?nc = "nc\<lparr>nc_cursor := stream_from junk V att skp 0 cl (r + 1)\<rparr>"
    note dec = cell_decodes[OF ok Suc.prems(1) r Some]
    from Suc.IH[OF col_at_next[OF Suc.prems(1)] rest(2,1)] show ?thesis
      using Some bit dec unfolding split by (simp add: satisfies_all_def)
  qed
qed simp

lemma refine_vectors_rows:
  assumes ok: "cells_ok V ok att cl" and lens: "map length cl = lens" and junk: "\<forall>n. length (junk n) = n"
    and st: "\<forall>k \<le> length lens. unat (starts ! k) = sum_list (take k lens)"
    and at: "col_at junk V att skp cl (sum_list (take v lens)) nc" and v: "v \<le> length lens"
    and skip: "length skip = length lens" "\<forall>w < length lens. skp w \<longrightarrow> skip ! w"
  obtains skip' where "refine_vectors V att (nc_validity nc) preds starts (map (\<lambda>rows. length (row_bytes V att rows)) cl)
      [v..<length lens] (nc_cursor nc) skip = Inr skip'" "length skip' = length lens" "\<forall>w < length lens. skip ! w \<longrightarrow> skip' ! w"
    "\<forall>r < sum_list lens. skip' ! vec_of lens r \<longrightarrow> skip ! vec_of lens r \<or> \<not> satisfies_all V att preds (concat cl ! r)"
  using at v skip
proof (induction "length lens - v" arbitrary: v nc skip thesis)
  case 0
  then show ?case by simp
next
  case (Suc n)
  let ?vrl = "map (\<lambda>rows. length (row_bytes V att rows)) cl"
  have v: "v < length lens" and len: "length cl = length lens" using Suc.hyps(2) lens by auto
  let ?nc = "nc\<lparr>nc_cursor := drop (?vrl ! v) (nc_cursor nc)\<rparr>"
  have at: "col_at junk V att skp cl (sum_list (take (Suc v) lens)) ?nc"
  proof -
    have a: "col_at junk V att skp cl (sum_list (map length (take v cl))) nc" using Suc.prems(2) lens by (simp add: take_map[symmetric])
    from col_at_skip[OF a _ junk] show ?thesis using v len lens a
      by (auto simp: skip_column_vec_def col_at_def take_map[symmetric])
  qed
  have b: "unat (starts ! v) = sum_list (take v lens)" "unat (starts ! Suc v) = sum_list (take (Suc v) lens)" using st v by simp_all
  have le: "sum_list (take v lens) \<le> sum_list (take (Suc v) lens)" by (rule sum_take_mono) simp
  have rng: "vec_of lens i = v" if "i \<in> {sum_list (take v lens)..<sum_list (take (Suc v) lens)}" for i
    using that by (intro vec_of_unique[OF v]) auto
  define any where "any = (\<exists>i \<in> {sum_list (take v lens)..<sum_list (take (Suc v) lens)}. satisfies_all V att preds (concat cl ! i))"
  have ar: "any_row_satisfies V att (nc_validity nc) preds (unat (starts ! (v + 1)) - unat (starts ! v)) (unat (starts ! v)) (nc_cursor nc) = Inr any"
    if "\<not> skip ! v"
  proof -
    have "any_row_satisfies V att (nc_validity nc) preds (sum_list (take (Suc v) lens) - sum_list (take v lens)) (sum_list (take v lens)) (nc_cursor nc) =
        Inr (\<exists>i \<in> {sum_list (take v lens)..<sum_list (take v lens) + (sum_list (take (Suc v) lens) - sum_list (take v lens))}.
          satisfies_all V att preds (concat cl ! i))"
      by (rule any_row_satisfies_rows[OF ok Suc.prems(2)])
        (use le rng lens sum_take_le[of "Suc v" lens] that Suc.prems(5) v in \<open>auto simp: length_concat\<close>)
    then show ?thesis using b le by (simp add: any_def)
  qed
  define sk1 where "sk1 = (if skip ! v \<or> any then skip else skip[v := True])"
  have sk1: "length sk1 = length lens" "\<forall>w < length lens. skp w \<longrightarrow> sk1 ! w" "\<forall>w < length lens. skip ! w \<longrightarrow> sk1 ! w"
    using Suc.prems(4,5) v by (auto simp: sk1_def nth_list_update)
  have n: "n = length lens - Suc v" "Suc v \<le> length lens" using Suc.hyps(2) by simp_all
  obtain skip' where s': "refine_vectors V att (nc_validity ?nc) preds starts ?vrl [Suc v..<length lens] (nc_cursor ?nc) sk1 = Inr skip'"
      "length skip' = length lens" "\<forall>w < length lens. sk1 ! w \<longrightarrow> skip' ! w"
      "\<forall>r < sum_list lens. skip' ! vec_of lens r \<longrightarrow> sk1 ! vec_of lens r \<or> \<not> satisfies_all V att preds (concat cl ! r)"
    by (rule Suc.hyps(1)[OF n(1) _ at n(2) sk1(1,2)])
  have u: "[v..<length lens] = v # [Suc v..<length lens]" using v by (simp add: upt_conv_Cons)
  have eq: "refine_vectors V att (nc_validity nc) preds starts ?vrl [v..<length lens] (nc_cursor nc) skip = Inr skip'"
    using s'(1) ar u by (auto simp: sk1_def Let_def)
  have snd: "skip ! vec_of lens r \<or> \<not> satisfies_all V att preds (concat cl ! r)" if r: "r < sum_list lens" "skip' ! vec_of lens r" for r
  proof (cases "vec_of lens r = v \<and> \<not> skip ! v \<and> \<not> any")
    case True
    then have "\<not> satisfies_all V att preds (concat cl ! r)" using vec_of_bounds(2,3)[OF r(1)] by (auto simp: any_def)
    then show ?thesis ..
  next
    case False
    then have "sk1 ! vec_of lens r = skip ! vec_of lens r" by (auto simp: sk1_def nth_list_update)
    then show ?thesis using s'(4) r by blast
  qed
  show ?case by (rule Suc.prems(1)[OF eq s'(2)]) (use sk1(3) s'(3) snd in auto)
qed

lemma matches_satisfies: "pred_matches p v \<Longrightarrow> native_value_satisfies p v"
  by (cases "rangePred p") (simp_all add: pred_matches_def native_value_satisfies_def)

text \<open>The columns of the first pass: each stands at its first row.\<close>

definition first_pass ::
  "scan_env \<Rightarrow> table_col list \<Rightarrow> (nat \<Rightarrow> datum option list list option) \<Rightarrow> (nat \<Rightarrow> bool) \<Rightarrow> native_col option list \<Rightarrow> bool" where
  "first_pass E td cells skp cols \<longleftrightarrow>
     (\<forall>c < length td. \<forall>nc. cols ! c = Some nc \<longrightarrow> (\<exists>cl. cells c = Some cl \<and> col_at (se_junk E) (se_pg E) (tc_att (td ! c)) skp cl 0 nc))"

lemma refine_predicate_keeps:
  assumes fit: "cells_fit (se_pg E) ok (rd_td rs) lens cells" and junk: "\<forall>n. length (se_junk E n) = n"
    and st: "\<forall>k \<le> length lens. unat (starts ! k) = sum_list (take k lens)"
    and cols: "first_pass E (rd_td rs) cells skp cols" and p: "p < length preds" "preds = take (numPredicates (rd_prune rs)) (predicates (rd_prune rs))"
    and skip: "length skip = length lens" "\<forall>w < length lens. skp w \<longrightarrow> skip ! w"
  obtains skip' where "refine_predicate E rs cols (length lens) starts p skip = Inr skip'" "length skip' = length lens"
    "\<forall>w < length lens. skip ! w \<longrightarrow> skip' ! w"
    "\<forall>r < sum_list lens. row_fits (se_pg E) (rd_td rs) cells preds r \<longrightarrow> skip' ! vec_of lens r \<longrightarrow> skip ! vec_of lens r"
proof -
  let ?c = "attidx (preds ! p)"
  show thesis
  proof (cases "?c \<ge> rd_natts rs \<or> (\<exists>q < p. attidx (preds ! q) = ?c) \<or> cols ! ?c = None")
    case True
    then have "refine_predicate E rs cols (length lens) starts p skip = Inr skip"
      unfolding refine_predicate_def Let_def p(2)[symmetric] by (auto split: option.split)
    then show thesis by (rule that) (use skip in auto)
  next
    case False
    then obtain nc where nc: "cols ! ?c = Some nc" and c: "?c < rd_natts rs" by auto
    obtain cl where cl: "cells ?c = Some cl" "col_at (se_junk E) (se_pg E) (tc_att (rd_td rs ! ?c)) skp cl 0 nc"
      using cols c nc unfolding first_pass_def by blast
    have ok: "cells_ok (se_pg E) ok (tc_att (rd_td rs ! ?c)) cl" "map length cl = lens" using fit c cl(1) by (simp_all add: cells_fit_def)
    let ?ps = "filter (\<lambda>q. attidx q = ?c) preds"
    have at0: "col_at (se_junk E) (se_pg E) (tc_att (rd_td rs ! ?c)) skp cl (sum_list (take 0 lens)) nc" using cl(2) by simp
    obtain skip' where s: "refine_vectors (se_pg E) (tc_att (rd_td rs ! ?c)) (nc_validity nc) ?ps starts
        (map (\<lambda>rows. length (row_bytes (se_pg E) (tc_att (rd_td rs ! ?c)) rows)) cl) [0..<length lens] (nc_cursor nc) skip = Inr skip'"
        "length skip' = length lens" "\<forall>w < length lens. skip ! w \<longrightarrow> skip' ! w"
        "\<forall>r < sum_list lens. skip' ! vec_of lens r \<longrightarrow> skip ! vec_of lens r \<or> \<not> satisfies_all (se_pg E) (tc_att (rd_td rs ! ?c)) ?ps (concat cl ! r)"
      by (rule refine_vectors_rows[OF ok junk st at0 _ skip]) simp
    have "nc_vecRawLen nc = Some (map (\<lambda>rows. length (row_bytes (se_pg E) (tc_att (rd_td rs ! ?c)) rows)) cl)" using cl(2) by (simp add: col_at_def)
    then have eq: "refine_predicate E rs cols (length lens) starts p skip = Inr skip'"
      unfolding refine_predicate_def Let_def p(2)[symmetric] using False nc s(1) by auto
    have "satisfies_all (se_pg E) (tc_att (rd_td rs ! ?c)) ?ps (concat cl ! r)" if f: "row_fits (se_pg E) (rd_td rs) cells preds r" for r
    proof -
      have m: "cell_matches (se_pg E) (rd_td rs) q (concat cl ! r)" if "q \<in> set ?ps" for q
        using f that cl(1) by (auto simp: row_fits_def)
      have "preds ! p \<in> set ?ps" using p(1) by simp
      from m[OF this] obtain d where d: "concat cl ! r = Some d" by (auto simp: cell_matches_def)
      have "native_value_satisfies q (flat_datum (se_pg E) (tc_att (rd_td rs ! ?c)) d)" if "q \<in> set ?ps" for q
        using m[OF that] d that by (auto simp: cell_matches_def intro: matches_satisfies)
      then show ?thesis using d by (auto simp: satisfies_all_def list_all_iff)
    qed
    then show thesis by (intro that[OF eq s(2,3)]) (use s(4) in blast)
  qed
qed

lemma refine_predicates_keep:
  assumes fit: "cells_fit (se_pg E) ok (rd_td rs) lens cells" and junk: "\<forall>n. length (se_junk E n) = n"
    and st: "\<forall>k \<le> length lens. unat (starts ! k) = sum_list (take k lens)"
    and cols: "first_pass E (rd_td rs) cells skp cols" and preds: "preds = take (numPredicates (rd_prune rs)) (predicates (rd_prune rs))"
    and ps: "\<forall>p \<in> set ps. p < length preds"
    and skip: "length skip = length lens" "\<forall>w < length lens. skp w \<longrightarrow> skip ! w"
  shows "\<exists>skip'. refine_predicates E rs cols (length lens) starts ps skip = Inr skip' \<and> length skip' = length lens \<and>
    (\<forall>w < length lens. skip ! w \<longrightarrow> skip' ! w) \<and>
    (\<forall>r < sum_list lens. row_fits (se_pg E) (rd_td rs) cells preds r \<longrightarrow> skip' ! vec_of lens r \<longrightarrow> skip ! vec_of lens r)"
  using ps skip
proof (induction ps arbitrary: skip)
  case (Cons p ps)
  have p: "p < length preds" using Cons.prems(1) by simp
  obtain sk where sk: "refine_predicate E rs cols (length lens) starts p skip = Inr sk" "length sk = length lens"
    "\<forall>w < length lens. skip ! w \<longrightarrow> sk ! w"
    "\<forall>r < sum_list lens. row_fits (se_pg E) (rd_td rs) cells preds r \<longrightarrow> sk ! vec_of lens r \<longrightarrow> skip ! vec_of lens r"
    by (rule refine_predicate_keeps[OF fit junk st cols p preds Cons.prems(2,3)])
  have "\<forall>w < length lens. skp w \<longrightarrow> sk ! w" using Cons.prems(3) sk(3) by blast
  with Cons.IH[OF _ sk(2)] Cons.prems(1) obtain skip' where
    "refine_predicates E rs cols (length lens) starts ps sk = Inr skip'" "length skip' = length lens"
    "\<forall>w < length lens. sk ! w \<longrightarrow> skip' ! w"
    "\<forall>r < sum_list lens. row_fits (se_pg E) (rd_td rs) cells preds r \<longrightarrow> skip' ! vec_of lens r \<longrightarrow> sk ! vec_of lens r"
    by auto
  then show ?case using sk by auto
qed auto

text \<open>What a selection step does to a skip vector: it only adds, and it spares the rows that must stay.\<close>

definition skip_refines ::
  "nat list \<Rightarrow> nat \<Rightarrow> (nat \<Rightarrow> bool) \<Rightarrow> (bool list \<times> u32 list) option \<Rightarrow> (bool list \<times> u32 list) option \<Rightarrow> bool" where
  "skip_refines lens vecCount must sv sv' \<longleftrightarrow> skip_shape lens sv' vecCount \<and>
     (\<forall>v < length lens. skip_fn sv v \<longrightarrow> skip_fn sv' v) \<and>
     (\<forall>r < sum_list lens. must r \<longrightarrow> skip_fn sv' (vec_of lens r) \<longrightarrow> skip_fn sv (vec_of lens r))"

lemma skip_refines_refl: "skip_shape lens sv vecCount \<Longrightarrow> skip_refines lens vecCount must sv sv"
  by (simp add: skip_refines_def)

lemma skip_refines_keeps: "skip_refines lens vecCount must sv sv' \<Longrightarrow> keeps lens must sv \<Longrightarrow> keeps lens must sv'"
  by (auto simp: skip_refines_def keeps_def row_kept_def)

lemma refine_skipvec_refines:
  assumes fit: "cells_fit (se_pg E) ok (rd_td rs) lens cells" and junk: "\<forall>n. length (se_junk E n) = n"
    and sh: "skip_shape lens sv vecCount" and cols: "first_pass E (rd_td rs) cells (skip_fn sv) cols"
    and n: "numPredicates (rd_prune rs) \<le> length (predicates (rd_prune rs))"
  obtains sv' where "pgcolumnar_native_refine_skipvec E rs cols vecCount sv = Inr sv'"
    "skip_refines lens vecCount (row_fits (se_pg E) (rd_td rs) cells (take (numPredicates (rd_prune rs)) (predicates (rd_prune rs)))) sv sv'"
    "numPredicates (rd_prune rs) = 0 \<Longrightarrow> sv' = sv"
proof (cases "sv = None \<or> numPredicates (rd_prune rs) = 0 \<or> vecCount = 0")
  case True
  then show thesis by (intro that[of sv])
      (use sh in \<open>auto simp: pgcolumnar_native_refine_skipvec_def skip_refines_refl split: option.split\<close>)
next
  case False
  then obtain skip starts where sv: "sv = Some (skip, starts)" by (cases sv) auto
  have s: "vecCount = length lens" "length skip = length lens" "\<forall>k \<le> length lens. unat (starts ! k) = sum_list (take k lens)"
    using sh sv by (simp_all add: skip_shape_def)
  let ?preds = "take (numPredicates (rd_prune rs)) (predicates (rd_prune rs))"
  have ps: "\<forall>p \<in> set [0..<numPredicates (rd_prune rs)]. p < length ?preds" using n by auto
  have sk: "\<forall>w < length lens. skip_fn sv w \<longrightarrow> skip ! w" by (simp add: sv skip_fn_def)
  obtain skip' where r: "refine_predicates E rs cols (length lens) starts [0..<numPredicates (rd_prune rs)] skip = Inr skip'"
      "length skip' = length lens" "\<forall>w < length lens. skip ! w \<longrightarrow> skip' ! w"
      "\<forall>r < sum_list lens. row_fits (se_pg E) (rd_td rs) cells ?preds r \<longrightarrow> skip' ! vec_of lens r \<longrightarrow> skip ! vec_of lens r"
    using refine_predicates_keep[OF fit junk s(3) cols HOL.refl ps s(2) sk] by blast
  show thesis
    by (rule that[of "Some (skip', starts)"])
       (use False sv s r in \<open>auto simp: pgcolumnar_native_refine_skipvec_def skip_refines_def skip_shape_def skip_fn_def\<close>)
qed

subsection \<open>The filter over whole vectors\<close>

lemma qual_rows_at:
  assumes fit: "cells_fit (se_pg E) ok (rd_td rs) lens cells"
    and sel: "sel = native_is_qual_column rs (Some q)" and n: "r + n \<le> sum_list lens"
    and at: "\<forall>c < rd_natts rs. sel c \<longrightarrow> col_view E (rd_td rs) (rd_wanted rs) cells (\<lambda>_ _. False) r c (cols ! c)"
  shows "\<exists>live cols'. qual_rows E rs q n r cols =
      Inr (\<exists>i \<in> {r..<r + n}. \<not> dv_row_deleted (rd_deleteMask rs) i \<and>
             rf_pass q (map (\<lambda>c. if sel c then cell_value E rs cells i c else None) [0..<rd_natts rs]), live, cols') \<and>
    (\<forall>c < rd_natts rs. sel c \<longrightarrow> col_view E (rd_td rs) (rd_wanted rs) cells (\<lambda>_ _. False) (r + n) c (cols' ! c))"
  using n at
proof (induction n arbitrary: r cols)
  case (Suc n)
  have r: "r < sum_list lens" "\<forall>c < rd_natts rs. \<not> (\<lambda>_ _. False) c (vec_of lens r)" using Suc.prems(1) by simp_all
  obtain cols' where q: "visit_qual E rs r sel cols = Inr (map (\<lambda>c. if sel c then cell_value E rs cells r c else None) [0..<rd_natts rs], cols')"
    "\<forall>c < rd_natts rs. sel c \<longrightarrow> col_view E (rd_td rs) (rd_wanted rs) cells (\<lambda>_ _. False) (r + 1) c (cols' ! c)"
    by (rule visit_qual_at[OF fit Suc.prems(2) r])
  have rest: "r + 1 + n \<le> sum_list lens" using Suc.prems(1) by simp
  let ?Q = "\<lambda>i. \<not> dv_row_deleted (rd_deleteMask rs) i \<and>
             rf_pass q (map (\<lambda>c. if sel c then cell_value E rs cells i c else None) [0..<rd_natts rs])"
  obtain live cols'' where IH: "qual_rows E rs q n (r + 1) cols' = Inr (\<exists>i \<in> {r + 1..<r + 1 + n}. ?Q i, live, cols'')"
      "\<forall>c < rd_natts rs. sel c \<longrightarrow> col_view E (rd_td rs) (rd_wanted rs) cells (\<lambda>_ _. False) (r + 1 + n) c (cols'' ! c)"
    using Suc.IH[OF rest q(2)] by blast
  have split: "(\<exists>i \<in> {r..<r + Suc n}. ?Q i) \<longleftrightarrow> ?Q r \<or> (\<exists>i \<in> {r + 1..<r + 1 + n}. ?Q i)"
  proof -
    have "{r..<r + Suc n} = insert r {r + 1..<r + 1 + n}" by auto
    then show ?thesis by simp
  qed
  show ?case
  proof (intro exI conjI)
    show "qual_rows E rs q (Suc n) r cols = Inr (\<exists>i \<in> {r..<r + Suc n}. ?Q i,
        if dv_row_deleted (rd_deleteMask rs) r then live else live + 1, cols'')"
      unfolding split qual_rows.simps sel[symmetric] q(1) res_bind_simps prod.case IH(1) by simp
    show "\<forall>c < rd_natts rs. sel c \<longrightarrow> col_view E (rd_td rs) (rd_wanted rs) cells (\<lambda>_ _. False) (r + Suc n) c (cols'' ! c)"
      using IH(2) by simp
  qed
qed auto

lemma qual_vectors_at:
  assumes fit: "cells_fit (se_pg E) ok (rd_td rs) lens cells" and sel: "sel = native_is_qual_column rs (Some q)"
    and st: "\<forall>k \<le> length lens. unat (starts ! k) = sum_list (take k lens)" and v: "v \<le> length lens" and skip: "length skip = length lens"
    and at: "\<forall>c < rd_natts rs. sel c \<longrightarrow> col_view E (rd_td rs) (rd_wanted rs) cells (\<lambda>_ _. False) (sum_list (take v lens)) c (cols ! c)"
  shows "\<exists>skip' filtered'. qual_vectors E rs q starts [v..<length lens] cols (skip, filtered) = Inr (skip', filtered') \<and>
    length skip' = length lens \<and> (\<forall>w < length lens. skip ! w \<longrightarrow> skip' ! w) \<and>
    (\<forall>r < sum_list lens. skip' ! vec_of lens r \<longrightarrow> skip ! vec_of lens r \<or> dv_row_deleted (rd_deleteMask rs) r \<or>
       \<not> rf_pass q (map (\<lambda>c. if sel c then cell_value E rs cells r c else None) [0..<rd_natts rs]))"
  using v skip at
proof (induction "length lens - v" arbitrary: v cols skip filtered)
  case (Suc n)
  let ?Q = "\<lambda>i. \<not> dv_row_deleted (rd_deleteMask rs) i \<and>
             rf_pass q (map (\<lambda>c. if sel c then cell_value E rs cells i c else None) [0..<rd_natts rs])"
  have v: "v < length lens" using Suc.hyps(2) by simp
  have b: "unat (starts ! v) = sum_list (take v lens)" "unat (starts ! (v + 1)) = sum_list (take (Suc v) lens)" using st v by simp_all
  have le: "sum_list (take v lens) \<le> sum_list (take (Suc v) lens)" by (rule sum_take_mono) simp
  define any where "any = (\<exists>i \<in> {sum_list (take v lens)..<sum_list (take (Suc v) lens)}. ?Q i)"
  have add: "sum_list (take v lens) + (sum_list (take (Suc v) lens) - sum_list (take v lens)) = sum_list (take (Suc v) lens)" using le by simp
  obtain live cols' where q: "qual_rows E rs q (unat (starts ! (v + 1)) - unat (starts ! v)) (unat (starts ! v)) cols = Inr (any, live, cols')"
      "\<forall>c < rd_natts rs. sel c \<longrightarrow> col_view E (rd_td rs) (rd_wanted rs) cells (\<lambda>_ _. False) (sum_list (take (Suc v) lens)) c (cols' ! c)"
    using qual_rows_at[OF fit sel _ Suc.prems(3), of "sum_list (take (Suc v) lens) - sum_list (take v lens)"] sum_take_le[of "Suc v" lens]
    unfolding b any_def add by auto
  define sk1 where "sk1 = (if any then skip else skip[v := True])"
  have sk1: "length sk1 = length lens" "\<forall>w < length lens. skip ! w \<longrightarrow> sk1 ! w" using Suc.prems(2) v by (auto simp: sk1_def nth_list_update)
  have n: "n = length lens - Suc v" "Suc v \<le> length lens" using Suc.hyps(2) by simp_all
  obtain skip' f' where s': "qual_vectors E rs q starts [Suc v..<length lens] cols' (sk1, if any then filtered else filtered + live) = Inr (skip', f')"
      "length skip' = length lens" "\<forall>w < length lens. sk1 ! w \<longrightarrow> skip' ! w"
      "\<forall>r < sum_list lens. skip' ! vec_of lens r \<longrightarrow> sk1 ! vec_of lens r \<or> \<not> ?Q r"
    using Suc.hyps(1)[OF n(1,2) sk1(1) q(2)] by blast
  have u: "[v..<length lens] = v # [Suc v..<length lens]" using v by (simp add: upt_conv_Cons)
  have eq: "qual_vectors E rs q starts [v..<length lens] cols (skip, filtered) = Inr (skip', f')"
    using s'(1) q(1) unfolding u by (cases any) (simp_all add: sk1_def)
  have "skip ! vec_of lens r \<or> \<not> ?Q r" if r: "r < sum_list lens" "skip' ! vec_of lens r" for r
  proof (cases "vec_of lens r = v \<and> \<not> any")
    case True
    then show ?thesis using vec_of_bounds(2,3)[OF r(1)] by (auto simp: any_def)
  next
    case False
    then have "sk1 ! vec_of lens r = skip ! vec_of lens r" by (auto simp: sk1_def nth_list_update)
    then show ?thesis using s'(4) r by blast
  qed
  then show ?case using eq s'(2,3) sk1(2) by blast
qed auto

lemma qual_skipvec_refines:
  assumes fit: "cells_fit (se_pg E) ok (rd_td rs) lens cells" and np: "numPredicates (rd_prune rs) = 0"
    and sh: "skip_shape lens sv vecCount"
    and at: "\<forall>c < rd_natts rs. native_is_qual_column rs Q c \<longrightarrow>
      col_view E (rd_td rs) (rd_wanted rs) cells (\<lambda>_ _. False) 0 c (cols ! c)"
  obtains sv' filtered where "pgcolumnar_native_qual_skipvec E rs Q cols vecCount sv = Inr (sv', filtered)"
    "skip_refines lens vecCount (\<lambda>r. row_shown Q rs r \<and> row_passes E Q rs cells r) sv sv'"
proof (cases "sv = None \<or> Q = None \<or> vecCount = 0")
  case True
  then have "pgcolumnar_native_qual_skipvec E rs Q cols vecCount sv = Inr (sv, 0)"
    by (auto simp: pgcolumnar_native_qual_skipvec_def split: option.split)
  then show thesis using that skip_refines_refl[OF sh] by blast
next
  case False
  then obtain skip starts q where sv: "sv = Some (skip, starts)" and q: "Q = Some q" by (cases sv; cases Q) auto
  have s: "vecCount = length lens" "length skip = length lens" "\<forall>k \<le> length lens. unat (starts ! k) = sum_list (take k lens)"
    using sh sv by (simp_all add: skip_shape_def)
  let ?sel = "native_is_qual_column rs (Some q)"
  have sel: "map (\<lambda>c. if ?sel c then cell_value E rs cells r c else None) [0..<rd_natts rs] =
      map (\<lambda>c. if rf_cols q ! c then cell_value E rs cells r c else None) [0..<rd_natts rs]" for r
    using np by (simp add: native_is_qual_column_def)
  have "\<forall>c < rd_natts rs. ?sel c \<longrightarrow> col_view E (rd_td rs) (rd_wanted rs) cells (\<lambda>_ _. False) (sum_list (take 0 lens)) c (cols ! c)"
    using at q by simp
  from qual_vectors_at[OF fit HOL.refl s(3) _ s(2) this, of 0] obtain skip' f where
    r: "qual_vectors E rs q starts [0..<length lens] cols (skip, 0) = Inr (skip', f)" "length skip' = length lens"
      "\<forall>w < length lens. skip ! w \<longrightarrow> skip' ! w"
      "\<forall>r < sum_list lens. skip' ! vec_of lens r \<longrightarrow> skip ! vec_of lens r \<or> dv_row_deleted (rd_deleteMask rs) r \<or>
         \<not> rf_pass q (map (\<lambda>c. if rf_cols q ! c then cell_value E rs cells r c else None) [0..<rd_natts rs])"
    unfolding sel by auto
  show thesis
    by (rule that[of "Some (skip', starts)" f])
       (use False sv q s r in \<open>auto simp: pgcolumnar_native_qual_skipvec_def skip_refines_def skip_shape_def skip_fn_def row_shown_def row_passes_def\<close>)
qed

lemma flushed_desc:
  assumes "column_flushed C ok att w res"
  shows "\<exists>cols. desc_describes (fres_desc res) cols \<and> length cols = length (cw_rows w)"
proof -
  let ?vb = "(length (concat (cw_rows w)) + 7) div 8"
  have vb: "length (concat (cw_rows w)) \<le> 8 * ?vb" by linarith
  obtain cols memo memo' where r: "column_ready C ok att (cw_def w) (cw_D w) (cw_B w) (cw_rows w)"
      "column_buffers (env_pg (cfg_env C)) att (cw_def w) (cw_rows w) cols"
      "flush_one_column C att False (cw_def w) cols (length (concat (cw_rows w))) ?vb memo = Inr (Some res, memo')"
    using assms unfolding column_flushed_def by blast
  have "chunk_layout ?vb cols res"
    by (rule column_flush[OF r(1,2) HOL.refl vb, where memo = memo and skp = "\<lambda>_. False"]) (use r(3) in auto)
  moreover have "length cols = length (cw_rows w)" using r(2) by (simp add: column_buffers_def list_all2_lengthD)
  ultimately show ?thesis by (auto simp: chunk_layout_def)
qed

subsection \<open>Loading a stored group\<close>

lemma stream_from_cong:
  "\<forall>w < length cells. skp (v + w) = skp' (v + w) \<Longrightarrow> stream_from junk V att skp v cells r = stream_from junk V att skp' v cells r"
proof (induction cells arbitrary: v r)
  case (Cons rows cells)
  have "\<forall>w < length cells. skp (v + 1 + w) = skp' (v + 1 + w)" using Cons.prems by auto
  from Cons.IH[OF this] Cons.prems[rule_format, of 0] show ?case by simp
qed simp

lemma col_at_cong:
  "\<forall>w < length cells. skp w = skp' w \<Longrightarrow> col_at junk V att skp cells r nc = col_at junk V att skp' cells r nc"
  using stream_from_cong[of cells skp 0 skp'] by (simp add: col_at_def)

text \<open>One decode pass over a stored group.\<close>

lemma sg_decode_pass:
  assumes sg: "sg_ok E ok (rd_td rs) rel sg" and readable: "sg_readable (rd_td rs) (rd_wanted rs) sg"
    and buf: "\<And>c res. c < length (sg_res sg) \<Longrightarrow> sg_res sg ! c = Some res \<Longrightarrow> rd_wanted rs ! c \<Longrightarrow>
       take (length (fres_chunk res)) (drop (chunk_offset (sg_res sg) c) buf) = fres_chunk res"
    and len: "length cols = rd_natts rs"
  obtains cols' where "decode_pass E rs (sg_group sg) buf skp sel
      (map (\<lambda>c. chunk_row ws (rg_fileOffset (sg_group sg)) (sg_res sg) c (the (sg_res sg ! c))) (stored_columns sg)) cols = Inr cols'"
    "pass_cols rs (\<lambda>c. sg_cells sg c \<noteq> None \<and> rd_wanted rs ! c \<and> sel c)
      (\<lambda>c. col_at (se_junk E) (se_pg E) (tc_att (rd_td rs ! c)) skp (the (sg_cells sg c)) 0) cols cols'"
proof -
  let ?f = "\<lambda>c. chunk_row ws (rg_fileOffset (sg_group sg)) (sg_res sg) c (the (sg_res sg ! c))"
  let ?P = "\<lambda>c. col_at (se_junk E) (se_pg E) (tc_att (rd_td rs ! c)) skp (the (sg_cells sg c)) 0"
  have st: "c \<in> set (stored_columns sg) \<longleftrightarrow> sg_cells sg c \<noteq> None" for c
    using sg_ok_stored[OF sg, of c] by (auto simp: stored_columns_def)
  have "\<exists>nc. load_chunk E (tc_att (rd_td rs ! c)) (sg_group sg) buf skp (?f c) = Inr nc \<and> ?P c nc"
    if c: "c \<in> set (stored_columns sg)" "rd_wanted rs ! c" for c
  proof -
    obtain res where r: "c < length (sg_res sg)" "sg_res sg ! c = Some res" using c(1) by (auto simp: stored_columns_def)
    have "readable_chunk (tc_att (rd_td rs ! c)) (fres_desc res)" using readable r c(2) by (simp add: sg_readable_def)
    from sg_load_chunk[OF sg r this buf[OF r c(2)], of skp ws] r(2) show ?thesis by simp
  qed
  moreover have "cc_columnIndex (?f c) = c \<and> c < rd_natts rs" if "c \<in> set (stored_columns sg)" for c
    using that sg_ok_column(2)[OF sg] by (auto simp: stored_columns_def)
  moreover have "distinct (stored_columns sg)" by (simp add: stored_columns_def)
  ultimately show thesis
    using decode_pass_columns[of "stored_columns sg" rs sel E "sg_group sg" buf skp ?f ?P cols] len that by (auto simp: st)
qed

lemma load_columns_ok:
  assumes sg: "sg_ok E ok (rd_td rs) rel sg" and readable: "sg_readable (rd_td rs) (rd_wanted rs) sg" and junk: "\<forall>n. length (se_junk E n) = n"
    and fits: "preds_fit (rd_td rs) (sg_col sg) (take (numPredicates (rd_prune rs)) (predicates (rd_prune rs)))"
    and n: "numPredicates (rd_prune rs) \<le> length (predicates (rd_prune rs))"
    and rs: "rd_storageId rs = rg_storageId (sg_group sg)" "rd_group rs = Some (sg_group sg)" "\<not> rd_exhausted rs"
  obtains buf cols sv vc f rs' S where "load_columns E rel Q (sg_group sg) rs = Inr rs'"
    "rs' = rs\<lparr>rd_buffer := buf, rd_cols := cols, rd_skip := sv, rd_vectorCount := vc, rd_curVec := 0,
       rd_groupRowCount := rg_rowCount (sg_group sg), rd_rowInGroup := 0, rd_rowsFilteredEarly := f\<rparr>"
    "in_group E (sg_cells sg) S (sg_lens sg) (sg_group sg) rs'"
    "keeps (sg_lens sg) (\<lambda>r. row_shown Q rs r \<and> row_passes E Q rs (sg_cells sg) r \<and>
       row_fits (se_pg E) (rd_td rs) (sg_cells sg) (take (numPredicates (rd_prune rs)) (predicates (rd_prune rs))) r) sv"
proof -
  let ?g = "sg_group sg" and ?lens = "sg_lens sg" and ?cells = "sg_cells sg" and ?td = "rd_td rs"
  let ?preds = "take (numPredicates (rd_prune rs)) (predicates (rd_prune rs))"
  let ?fits = "row_fits (se_pg E) ?td ?cells ?preds" and ?q = "native_is_qual_column rs Q"
  note fit = sg_cells_fit[OF sg]
  obtain ws where ch: "PgColumnarReadColumnChunkList (rg_storageId ?g) (rg_groupNumber ?g) rel =
      map (\<lambda>c. chunk_row ws (rg_fileOffset ?g) (sg_res sg) c (the (sg_res sg ! c))) (stored_columns sg)"
    by (rule sg_chunks[OF sg])
  define chunks where "chunks = map (\<lambda>c. chunk_row ws (rg_fileOffset ?g) (sg_res sg) c (the (sg_res sg ! c))) (stored_columns sg)"
  have desc: "\<exists>cols. desc_describes (fres_desc (the (sg_res sg ! c))) cols \<and> length cols = length (sg_rows sg)"
    if c: "c \<in> set (stored_columns sg)" for c
  proof -
    obtain res where r: "c < length (sg_res sg)" "sg_res sg ! c = Some res" using c by (auto simp: stored_columns_def)
    note cf = sg_ok_column[OF sg r]
    have "length (cw_rows (sg_col sg c)) = length (sg_rows sg)" using arg_cong[OF cf(4), of length] by simp
    then show ?thesis using flushed_desc[OF cf(1)] r(2) by auto
  qed
  obtain allDesc vecCount where cv: "chunk_vectors rs chunks = (allDesc, vecCount)" "vecCount = 0 \<or> vecCount = length (sg_rows sg)"
    using chunk_vectors_rows[of "stored_columns sg" "\<lambda>c. chunk_row ws (rg_fileOffset ?g) (sg_res sg) c (the (sg_res sg ! c))" "length (sg_rows sg)" rs] desc
    by (auto simp: chunks_def)
  have gs: "blocks_ok (se_bpp E) (mf_blocks (rs_fork (rel_file rel)))"
      "group_at (se_bpp E) (rs_fork (rel_file rel)) ?g (concat (map chunk_bytes (sg_res sg)))" "length (sg_res sg) \<le> rd_natts rs"
      "rg_rowCount ?g = sum_list ?lens"
    using sg by (simp_all add: sg_ok_def group_stored_def length_concat)
  have chr: "chunks = chunk_rows ws (rg_fileOffset ?g) (sg_res sg)" by (simp add: chunks_def chunk_rows_eq stored_columns_def)
  obtain buf where buf: "read_group_bytes E rel rs ?g chunks = Inr buf"
    "\<And>c res. c < length (sg_res sg) \<Longrightarrow> sg_res sg ! c = Some res \<Longrightarrow> rd_wanted rs ! c \<Longrightarrow>
       take (length (fres_chunk res)) (drop (chunk_offset (sg_res sg) c) buf) = fres_chunk res"
    by (rule group_bytes_read[OF gs(1,2) chr gs(3) junk]) (rule that)
  obtain sv0 where sv0: "(if allDesc then pgcolumnar_native_build_skipvec (se_pg E) ?td (Q \<noteq> None) (group_meta_of ?g rel) (rd_prune rs) vecCount
        else Inr None) = Inr sv0" "skip_shape ?lens sv0 vecCount" "numPredicates (rd_prune rs) = 0 \<Longrightarrow> \<forall>v < length (sg_rows sg). \<not> skip_fn sv0 v"
      "keeps ?lens ?fits sv0"
  proof (cases allDesc)
    case True
    show thesis by (rule build_skipvec_keeps[OF sg fits n cv(2), of "Q \<noteq> None"]) (use True that in simp)
  qed (use that[of None] in \<open>simp add: skip_shape_def keeps_def row_kept_def skip_fn_def\<close>)
  have lr: "length (replicate (rd_natts rs) None) = rd_natts rs" by simp
  obtain cols0 where cols0: "decode_pass E rs ?g buf (skip_fn sv0) ?q chunks (replicate (rd_natts rs) None) = Inr cols0"
      "pass_cols rs (\<lambda>c. ?cells c \<noteq> None \<and> rd_wanted rs ! c \<and> ?q c)
        (\<lambda>c. col_at (se_junk E) (se_pg E) (tc_att (?td ! c)) (skip_fn sv0) (the (?cells c)) 0) (replicate (rd_natts rs) None) cols0"
    by (rule sg_decode_pass[OF sg readable buf(2) lr, where ws = ws and sel = ?q, folded chunks_def]) (assumption, assumption, assumption, rule that)
  have c0: "if ?cells c \<noteq> None \<and> rd_wanted rs ! c \<and> ?q c
      then \<exists>nc. cols0 ! c = Some nc \<and> col_at (se_junk E) (se_pg E) (tc_att (?td ! c)) (skip_fn sv0) (the (?cells c)) 0 nc
      else cols0 ! c = None" if "c < rd_natts rs" for c
    using cols0(2) that by (simp add: pass_cols_def)
  have fp: "first_pass E ?td ?cells (skip_fn sv0) cols0" unfolding first_pass_def
  proof (intro allI impI)
    fix c nc assume "c < rd_natts rs" "cols0 ! c = Some nc"
    then show "\<exists>cl. ?cells c = Some cl \<and> col_at (se_junk E) (se_pg E) (tc_att (?td ! c)) (skip_fn sv0) cl 0 nc"
      using c0[of c] by (auto split: if_splits)
  qed
  obtain sv1 where sv1: "(if allDesc then pgcolumnar_native_refine_skipvec E rs cols0 vecCount sv0 else Inr sv0) = Inr sv1"
      "skip_refines ?lens vecCount ?fits sv0 sv1" "numPredicates (rd_prune rs) = 0 \<Longrightarrow> sv1 = sv0"
  proof (cases allDesc)
    case True
    show thesis by (rule refine_skipvec_refines[OF fit junk sv0(2) fp n]) (use True that in simp)
  qed (use that[of sv0] skip_refines_refl[OF sv0(2)] in simp)
  let ?must = "\<lambda>r. row_shown Q rs r \<and> row_passes E Q rs ?cells r"
  let ?qcond = "allDesc \<and> numPredicates (rd_prune rs) = 0 \<and> pgcolumnar_native_payload_col_count rs Q \<ge> se_qual_min_payload E"
  have sh1: "skip_shape ?lens sv1 vecCount" using sv1(2) by (simp add: skip_refines_def)
  obtain sv2 f where sv2: "(if ?qcond then pgcolumnar_native_qual_skipvec E rs Q cols0 vecCount sv1 else Inr (sv1, 0)) = Inr (sv2, f)"
      "skip_refines ?lens vecCount ?must sv1 sv2"
  proof (cases ?qcond)
    case True
    then have np: "numPredicates (rd_prune rs) = 0" by simp
    have "\<forall>c < rd_natts rs. ?q c \<longrightarrow> col_view E ?td (rd_wanted rs) ?cells (\<lambda>_ _. False) 0 c (cols0 ! c)"
    proof (intro allI impI)
      fix c assume c: "c < rd_natts rs" "?q c"
      show "col_view E ?td (rd_wanted rs) ?cells (\<lambda>_ _. False) 0 c (cols0 ! c)"
      proof (cases "rd_wanted rs ! c \<and> ?cells c \<noteq> None")
        case True
        then obtain nc where nc: "cols0 ! c = Some nc" "col_at (se_junk E) (se_pg E) (tc_att (?td ! c)) (skip_fn sv0) (the (?cells c)) 0 nc"
          using c0[OF c(1)] c(2) by auto
        have "length (the (?cells c)) = length (sg_rows sg)" using True by (auto simp: sg_cells_def split: if_splits)
        then have "\<forall>w < length (the (?cells c)). skip_fn sv0 w = False" using sv0(3)[OF np] by simp
        from col_at_cong[OF this] nc show ?thesis using True by (simp add: col_view_def)
      next
        case False
        then show ?thesis using c0[OF c(1)] by (auto simp: col_view_def)
      qed
    qed
    from qual_skipvec_refines[OF fit np sh1 this] show thesis using True that by auto
  qed (use that[of sv1 0] skip_refines_refl[OF sh1] in auto)
  have l0: "length cols0 = rd_natts rs" using cols0(2) by (simp add: pass_cols_def)
  obtain cols where cols: "decode_pass E rs ?g buf (skip_fn sv2) (\<lambda>c. \<not> ?q c) chunks cols0 = Inr cols"
      "pass_cols rs (\<lambda>c. ?cells c \<noteq> None \<and> rd_wanted rs ! c \<and> \<not> ?q c)
        (\<lambda>c. col_at (se_junk E) (se_pg E) (tc_att (?td ! c)) (skip_fn sv2) (the (?cells c)) 0) cols0 cols"
    by (rule sg_decode_pass[OF sg readable buf(2) l0, where ws = ws and sel = "\<lambda>c. \<not> ?q c", folded chunks_def]) (assumption, assumption, assumption, rule that)
  define S where "S c = (if ?q c then skip_fn sv0 else skip_fn sv2)" for c
  define rs' where "rs' = rs\<lparr>rd_buffer := buf, rd_cols := cols, rd_skip := sv2, rd_vectorCount := vecCount, rd_curVec := 0,
       rd_groupRowCount := rg_rowCount ?g, rd_rowInGroup := 0, rd_rowsFilteredEarly := rd_rowsFilteredEarly rs + f\<rparr>"
  have ld: "load_columns E rel Q ?g rs = Inr rs'"
    unfolding load_columns_def rs(1) ch chunks_def[symmetric] cv(1) Let_def prod.case buf(1) sv0(1) res_bind_simps cols0(1) sv1(1) sv2(1) cols(1) rs'_def ..
  have ing: "in_group E ?cells S ?lens ?g rs'"
  proof -
    have "cols_at E ?td (rd_wanted rs) ?cells S 0 cols" unfolding cols_at_def
    proof (intro conjI allI impI)
      show "length cols = rd_natts rs" using cols(2) by (simp add: pass_cols_def)
      fix c assume c: "c < rd_natts rs"
      have "if ?cells c \<noteq> None \<and> rd_wanted rs ! c \<and> \<not> ?q c
          then \<exists>nc. cols ! c = Some nc \<and> col_at (se_junk E) (se_pg E) (tc_att (?td ! c)) (skip_fn sv2) (the (?cells c)) 0 nc
          else cols ! c = cols0 ! c" using cols(2) c by (simp add: pass_cols_def)
      then show "col_view E ?td (rd_wanted rs) ?cells S 0 c (cols ! c)"
        using c0[OF c] by (cases "?q c"; cases "rd_wanted rs ! c \<and> ?cells c \<noteq> None") (auto simp: col_view_def S_def)
    qed
    moreover have "S c v \<Longrightarrow> skip_fn sv2 v" if "v < length ?lens" for c v
      using sv1(2) sv2(2) that by (auto simp: S_def skip_refines_def split: if_splits)
    moreover have "sum_list (take (vec_of ?lens 0) ?lens) = 0" if "0 < sum_list ?lens" using vec_of_bounds(2)[OF that] by simp
    ultimately show ?thesis using rs(2,3) gs(4) sv2(2) by (auto simp: in_group_def rs'_def skip_refines_def)
  qed
  have "keeps ?lens (\<lambda>r. row_shown Q rs r \<and> row_passes E Q rs ?cells r \<and> ?fits r) sv2"
    using sv0(4) sv1(2) sv2(2) by (auto simp: skip_refines_def keeps_def row_kept_def)
  then show thesis by (rule that[OF ld rs'_def ing])
qed

end
