(* ===== verification/Delete_Vector.thy ===== *)
theory Delete_Vector
  imports Group_Scan
begin

unbundle bit_operations_syntax

section \<open>Delete vectors\<close>

text \<open>
  Deletes (\<open>src/src/columnar_delete_vector.c\<close>, the upsert of \<open>columnar_metadata.c\<close>, and the row
  identity check of \<open>columnar_row_lock.c\<close>): \<open>PgColumnarMarkRowDeleted\<close> sets a bit in a buffer
  kept per storage and subtransaction; a flush sorts the marked groups, refuses rows that the
  latest catalog already has deleted, and merges each bitmap into the group's \<open>delete_vector\<close>
  row. A catalog argument of a flush is the latest committed state with the transaction's own
  changes. Locks and the visibility map are not modelled. A flush adds exactly the marked rows
  to the deleted ones, or fails and names a conflict.
\<close>

subsection \<open>Definitions\<close>

record dv_chunk =
  dvc_stripeId :: nat
  dvc_chunkId :: nat
  dvc_startRowNumber :: nat
  dvc_endRowNumber :: nat
  dvc_rowCount :: nat
  dvc_mask :: "byte list"

text \<open>\<open>dvb_lastChunk\<close> points at a chunk of the list; a chunk is named by its key.\<close>

definition dvc_key :: "dv_chunk \<Rightarrow> nat \<times> nat \<times> nat" where
  "dvc_key c = (dvc_stripeId c, dvc_chunkId c, dvc_startRowNumber c)"

record dv_buffer =
  dvb_relid :: nat
  dvb_storageId :: nat
  dvb_subid :: nat
  dvb_flushedUnder :: nat
  dvb_chunks :: "dv_chunk list"
  dvb_rowGroupCache :: "row_group list"
  dvb_lastGroup :: "row_group option"
  dvb_lastChunk :: "(nat \<times> nat \<times> nat) option"

subsubsection \<open>Marking a row\<close>

definition delete_vector_get_buffer :: "nat \<Rightarrow> nat \<Rightarrow> nat \<Rightarrow> dv_buffer list \<Rightarrow> nat \<times> dv_buffer list" where
  "delete_vector_get_buffer relid storageId subid bufs =
     (let i = length (takeWhile (\<lambda>b. \<not> (dvb_storageId b = storageId \<and> dvb_subid b = subid)) bufs)
      in if i < length bufs then (i, bufs)
         else (i, bufs @ [\<lparr>dvb_relid = relid, dvb_storageId = storageId, dvb_subid = subid,
                           dvb_flushedUnder = InvalidSubTransactionId, dvb_chunks = [], dvb_rowGroupCache = [],
                           dvb_lastGroup = None, dvb_lastChunk = None\<rparr>]))"

definition group_covers :: "nat \<Rightarrow> row_group \<Rightarrow> bool" where
  "group_covers rowNumber g \<longleftrightarrow> rowNumber \<ge> rg_firstRowNumber g \<and> rowNumber < rg_firstRowNumber g + rg_rowCount g"

text \<open>The cached group, a group of the cached list, or one of the list read again.\<close>

definition delete_vector_find_row_group :: "row_group list \<Rightarrow> nat \<Rightarrow> dv_buffer \<Rightarrow> row_group option \<times> dv_buffer" where
  "delete_vector_find_row_group catalog rowNumber buf =
     (if (case dvb_lastGroup buf of None \<Rightarrow> False | Some g \<Rightarrow> group_covers rowNumber g) then (dvb_lastGroup buf, buf)
      else case find (group_covers rowNumber) (dvb_rowGroupCache buf) of
             Some g \<Rightarrow> (Some g, buf\<lparr>dvb_lastGroup := Some g\<rparr>)
           | None \<Rightarrow>
               let buf1 = buf\<lparr>dvb_rowGroupCache := catalog, dvb_lastGroup := None\<rparr>
               in (case find (group_covers rowNumber) catalog of
                     Some g \<Rightarrow> (Some g, buf1\<lparr>dvb_lastGroup := Some g\<rparr>)
                   | None \<Rightarrow> (None, buf1)))"

definition delete_vector_get_chunk :: "nat \<Rightarrow> nat \<Rightarrow> nat \<Rightarrow> nat \<Rightarrow> nat \<Rightarrow> dv_buffer \<Rightarrow> dv_buffer" where
  "delete_vector_get_chunk stripeId chunkId startRowNumber endRowNumber rowCount buf =
     (let k = (stripeId, chunkId, startRowNumber)
      in if dvb_lastChunk buf = Some k then buf
         else if k \<in> dvc_key ` set (dvb_chunks buf) then buf\<lparr>dvb_lastChunk := Some k\<rparr>
         else buf\<lparr>dvb_chunks := dvb_chunks buf @ [\<lparr>dvc_stripeId = stripeId, dvc_chunkId = chunkId,
                    dvc_startRowNumber = startRowNumber, dvc_endRowNumber = endRowNumber, dvc_rowCount = rowCount,
                    dvc_mask = replicate ((rowCount + 7) div 8) 0\<rparr>],
                  dvb_lastChunk := Some k\<rparr>)"

definition set_mask_bit :: "nat \<Rightarrow> byte list \<Rightarrow> byte list" where
  "set_mask_bit i m = m[i div 8 := m ! (i div 8) OR push_bit (i mod 8) 1]"

definition PgColumnarMarkRowDeleted :: "nat \<Rightarrow> nat \<Rightarrow> rel_state \<Rightarrow> nat \<Rightarrow> dv_buffer list \<Rightarrow> dv_buffer list result" where
  "PgColumnarMarkRowDeleted relid subid rel rowNumber bufs =
     res_bind (PgColumnarStorageId (rs_fork (rel_file rel))) (\<lambda>storageId.
       let (i, bufs1) = delete_vector_get_buffer relid storageId subid bufs;
           (rg, buf) = delete_vector_find_row_group (PgColumnarReadRowGroupList storageId rel) rowNumber (bufs1 ! i)
       in case rg of
            None \<Rightarrow> Inl (Corrupt ''columnar: cannot delete row: no row group covers it'')
          | Some g \<Rightarrow>
              let start = rg_firstRowNumber g;
                  buf1 = delete_vector_get_chunk (rg_groupNumber g) 0 start (start + rg_rowCount g - 1) (rg_rowCount g) buf;
                  k = (rg_groupNumber g, 0, start)
              in Inr (bufs1[i := buf1\<lparr>dvb_chunks := map (\<lambda>c. if dvc_key c = k
                        then c\<lparr>dvc_mask := set_mask_bit (rowNumber - start) (dvc_mask c)\<rparr> else c) (dvb_chunks buf1)\<rparr>]))"

definition PgColumnarDeleteVectorBufferedDeleted :: "nat \<Rightarrow> nat \<Rightarrow> dv_buffer list \<Rightarrow> bool" where
  "PgColumnarDeleteVectorBufferedDeleted relid rowNumber bufs \<longleftrightarrow>
     (\<exists>buf \<in> set bufs. dvb_relid buf = relid \<and>
        (\<exists>c \<in> set (dvb_chunks buf). \<not> (rowNumber < dvc_startRowNumber c \<or> rowNumber > dvc_endRowNumber c) \<and>
           dv_row_deleted (Some (dvc_mask c)) (rowNumber - dvc_startRowNumber c)))"

subsubsection \<open>Row identity\<close>

definition mix33 :: "u64 \<Rightarrow> u64" where
  "mix33 h = h XOR drop_bit 33 h"

definition row_identity_lock_key :: "u64 \<Rightarrow> u64 \<Rightarrow> u64" where
  "row_identity_lock_key storageId rowNumber =
     (let h = ((1469598103934665603 XOR storageId) * 1099511628211 XOR rowNumber) * 1099511628211
      in mix33 (mix33 (mix33 h * 0xff51afd7ed558ccd) * 0xc4ceb9fe1a85ec53))"

text \<open>The entries of a batch, bucket and row number, in the order of \<open>rowlockentry_cmp\<close>.\<close>

definition row_lock_entries :: "nat \<Rightarrow> nat \<Rightarrow> nat list \<Rightarrow> (nat \<times> nat) list" where
  "row_lock_entries buckets storageId rows =
     (let numBuckets = max 1 buckets
      in sort_key fst (sort_key snd
           (map (\<lambda>r. (unat (row_identity_lock_key (of_nat storageId) (of_nat r)) mod numBuckets, r)) rows)))"

record committed_group =
  cgr_firstRowNumber :: nat
  cgr_rowCount :: nat
  cgr_mask :: "byte list option"

definition committed_groups :: "nat \<Rightarrow> rel_state \<Rightarrow> committed_group list" where
  "committed_groups storageId rel =
     sort_key cgr_firstRowNumber
       (map (\<lambda>g. \<lparr>cgr_firstRowNumber = rg_firstRowNumber g, cgr_rowCount = rg_rowCount g,
                  cgr_mask = pgcolumnar_merge_delete_vectors
                    (PgColumnarReadDeleteVectorList storageId (rg_groupNumber g) (rel_deletes rel))
                    ((rg_rowCount g + 7) div 8)\<rparr>)
         (PgColumnarReadRowGroupList storageId rel))"

function committed_deleted_in :: "committed_group list \<Rightarrow> nat \<Rightarrow> int \<Rightarrow> int \<Rightarrow> bool" where
  "committed_deleted_in groups rowNumber lo hi =
     (if lo \<le> hi
      then let mid = (lo + hi) div 2; g = groups ! nat mid
           in if rowNumber < cgr_firstRowNumber g then committed_deleted_in groups rowNumber lo (mid - 1)
              else if rowNumber \<ge> cgr_firstRowNumber g + cgr_rowCount g
              then committed_deleted_in groups rowNumber (mid + 1) hi
              else dv_row_deleted (cgr_mask g) (rowNumber - cgr_firstRowNumber g)
      else False)"
  by pat_completeness auto
termination by (relation "measure (\<lambda>(xs, x, lo, hi). nat (hi - lo + 1))") auto

declare committed_deleted_in.simps [simp del]

definition row_conflict_error :: decode_error where
  "row_conflict_error = Corrupt ''could not serialize access due to concurrent update or delete of the same row''"

text \<open>The setting is \<open>enable_row_update_lock\<close>, with \<open>row_lock_buckets\<close> when it is on.\<close>

definition PgColumnarSerializeFlushRows :: "nat option \<Rightarrow> nat \<Rightarrow> nat list \<Rightarrow> rel_state \<Rightarrow> unit result" where
  "PgColumnarSerializeFlushRows setting storageId rows latest =
     (case setting of
        None \<Rightarrow> Inr ()
      | Some buckets \<Rightarrow>
          let groups = committed_groups storageId latest
          in if \<exists>e \<in> set (row_lock_entries buckets storageId rows).
                  committed_deleted_in groups (snd e) 0 (int (length groups) - 1)
             then Inl row_conflict_error else Inr ())"

definition pgcolumnar_lookup_row_group :: "nat \<Rightarrow> rel_state \<Rightarrow> nat \<Rightarrow> row_group option" where
  "pgcolumnar_lookup_row_group storageId rel rowNumber =
     find (group_covers rowNumber) (PgColumnarReadRowGroupList storageId rel)"

definition PgColumnarSerializeRowNow :: "nat option \<Rightarrow> rel_state \<Rightarrow> nat \<Rightarrow> unit result" where
  "PgColumnarSerializeRowNow setting latest rowNumber =
     (if setting = None then Inr ()
      else res_bind (PgColumnarStorageId (rs_fork (rel_file latest))) (\<lambda>storageId.
        case pgcolumnar_lookup_row_group storageId latest rowNumber of
          None \<Rightarrow> Inr ()
        | Some g \<Rightarrow>
            if \<exists>rm \<in> set (PgColumnarReadDeleteVectorList storageId (rg_groupNumber g) (rel_deletes latest)).
                 dv_row_deleted (Some (dr_bitmap rm)) (rowNumber - rg_firstRowNumber g)
            then Inl row_conflict_error else Inr ()))"

subsubsection \<open>The flush\<close>

definition mask_rows :: "byte list \<Rightarrow> nat list" where
  "mask_rows m = filter (bufbit m) [0..<8 * length m]"

definition row_group_exists :: "nat \<Rightarrow> nat \<Rightarrow> rel_state \<Rightarrow> bool" where
  "row_group_exists storageId groupNumber rel \<longleftrightarrow>
     (\<exists>g \<in> set (rs_groups (rel_file rel)). rg_storageId g = storageId \<and> rg_groupNumber g = groupNumber)"

text \<open>
  The result has the bitmap as the upsert leaves it in place, merged with the stored one. The
  catalog's bitmap column may be null, but no code stores a null there: every row of the model
  has its bytes, and the branch of a null bitmap has no counterpart.
\<close>

definition PgColumnarUpsertDeleteVector ::
  "nat \<Rightarrow> nat \<Rightarrow> nat \<Rightarrow> byte list \<Rightarrow> rel_state \<Rightarrow> (byte list \<times> rel_state) result" where
  "PgColumnarUpsertDeleteVector storageId groupNumber deletedCount bitmap rel =
     (if \<not> row_group_exists storageId groupNumber rel then Inl (Corrupt ''row group was compacted concurrently'')
      else let mine = (\<lambda>r. dr_storageId r = storageId \<and> dr_groupNumber r = groupNumber);
               row = (\<lambda>n bm. \<lparr>dr_storageId = storageId, dr_groupNumber = groupNumber, dr_deletedCount = n, dr_bitmap = bm\<rparr>)
           in case find mine (rel_deletes rel) of
                None \<Rightarrow> Inr (bitmap, rel\<lparr>rel_deletes := rel_deletes rel @ [row deletedCount bitmap]\<rparr>)
              | Some r \<Rightarrow>
                  let merged = or_bitmap bitmap (dr_bitmap r)
                  in Inr (merged, rel\<lparr>rel_deletes := map (\<lambda>x. if mine x then row (length (mask_rows merged)) merged else x)
                                                      (rel_deletes rel)\<rparr>))"

fun flush_chunks :: "bool \<Rightarrow> nat \<Rightarrow> dv_chunk list \<Rightarrow> rel_state \<Rightarrow> (dv_chunk list \<times> rel_state) result" where
  "flush_chunks keep storageId [] rel = Inr ([], rel)"
| "flush_chunks keep storageId (c # cs) rel =
     res_bind (PgColumnarUpsertDeleteVector storageId (dvc_stripeId c) (length (mask_rows (dvc_mask c))) (dvc_mask c) rel)
       (\<lambda>(merged, rel1). res_bind (flush_chunks keep storageId cs rel1) (\<lambda>(cs', rel2).
          Inr ((if keep then c else c\<lparr>dvc_mask := merged\<rparr>) # cs', rel2)))"

definition delete_vector_reset_buffer :: "dv_buffer \<Rightarrow> dv_buffer" where
  "delete_vector_reset_buffer buf =
     buf\<lparr>dvb_chunks := [], dvb_rowGroupCache := [], dvb_lastChunk := None, dvb_lastGroup := None\<rparr>"

definition sort_chunks :: "dv_chunk list \<Rightarrow> dv_chunk list" where
  "sort_chunks cs = sort_key dvc_stripeId (sort_key dvc_chunkId (sort_key dvc_startRowNumber cs))"

definition delete_vector_flush_buffer ::
  "nat option \<Rightarrow> bool \<Rightarrow> dv_buffer \<Rightarrow> rel_state \<Rightarrow> (dv_buffer \<times> rel_state) result" where
  "delete_vector_flush_buffer setting keep buf rel =
     (if dvb_chunks buf = [] then Inr (buf, rel)
      else let chunks = sort_chunks (dvb_chunks buf);
               rows = concat (map (\<lambda>c. map ((+) (dvc_startRowNumber c)) (mask_rows (dvc_mask c))) chunks)
           in res_bind (if rows = [] then Inr () else PgColumnarSerializeFlushRows setting (dvb_storageId buf) rows rel) (\<lambda>_.
              res_bind (flush_chunks keep (dvb_storageId buf) chunks rel) (\<lambda>(chunks', rel').
                Inr (if keep then buf\<lparr>dvb_chunks := chunks'\<rparr> else delete_vector_reset_buffer buf, rel'))))"

definition PgColumnarGroupDeletedCount :: "nat \<Rightarrow> row_group \<Rightarrow> rel_state \<Rightarrow> nat" where
  "PgColumnarGroupDeletedCount storageId g rel =
     (let rml = PgColumnarReadDeleteVectorList storageId (rg_groupNumber g) (rel_deletes rel);
          want = (rg_rowCount g + 7) div 8;
          m = fold (\<lambda>rm m. or_bitmap m (dr_bitmap rm)) rml (replicate want 0)
      in if rml = [] then 0 else length (filter (\<lambda>i. i < rg_rowCount g \<and> bufbit m i) [0..<8 * want]))"

subsection \<open>Bitmaps\<close>

text \<open>The rows some delete vector of a group marks.\<close>

definition marked :: "nat \<Rightarrow> nat \<Rightarrow> delete_row list \<Rightarrow> nat \<Rightarrow> bool" where
  "marked storageId groupNumber rows r \<longleftrightarrow>
     (\<exists>rm \<in> set (PgColumnarReadDeleteVectorList storageId groupNumber rows). bufbit (dr_bitmap rm) r)"

lemma dv_row_deleted_bit: "dv_row_deleted (Some m) r \<longleftrightarrow> bufbit m r" "\<not> dv_row_deleted None r"
  by (simp_all add: dv_row_deleted_def bufbit_def and_exp_eq_0_iff_not_bit)

lemma length_or_bitmap [simp]: "length (or_bitmap m bm) = length m"
  by (simp add: or_bitmap_def)

lemma or_bitmap_bits:
  assumes "r div 8 < length m"
  shows "bufbit (or_bitmap m bm) r \<longleftrightarrow> bufbit m r \<or> bufbit bm r"
  using assms by (auto simp: or_bitmap_def bufbit_def bit_simps)

lemma marks_fold:
  assumes "r div 8 < want" "\<forall>m. acc = Some m \<longrightarrow> length m = want"
  shows "dv_row_deleted (fold (\<lambda>rm out. if dr_bitmap rm = [] then out
         else Some (or_bitmap (case out of None \<Rightarrow> replicate want 0 | Some m \<Rightarrow> m) (dr_bitmap rm))) rms acc) r \<longleftrightarrow>
    dv_row_deleted acc r \<or> (\<exists>rm \<in> set rms. bufbit (dr_bitmap rm) r)"
  using assms(2)
proof (induction rms arbitrary: acc)
  case (Cons rm rms)
  show ?case
  proof (cases "dr_bitmap rm = []")
    case True
    then show ?thesis using Cons by (simp add: bufbit_def)
  next
    case False
    let ?m = "case acc of None \<Rightarrow> replicate want 0 | Some m \<Rightarrow> m"
    have m: "length ?m = want" "bufbit ?m r \<longleftrightarrow> dv_row_deleted acc r"
      using Cons.prems assms(1) by (auto simp: dv_row_deleted_bit bufbit_def split: option.split)
    have "\<forall>m. Some (or_bitmap ?m (dr_bitmap rm)) = Some m \<longrightarrow> length m = want" using m(1) by simp
    from Cons.IH[OF this] show ?thesis
      using False m assms(1) or_bitmap_bits[of r ?m "dr_bitmap rm"] by (auto simp: dv_row_deleted_bit)
  qed
qed simp

lemma merge_marks:
  assumes "r < n"
  shows "dv_row_deleted (pgcolumnar_merge_delete_vectors (PgColumnarReadDeleteVectorList sid gn rows) ((n + 7) div 8)) r \<longleftrightarrow>
    marked sid gn rows r"
proof -
  have "r div 8 < (n + 7) div 8" using assms by linarith
  from marks_fold[OF this, of None] show ?thesis
    by (simp add: pgcolumnar_merge_delete_vectors_def marked_def dv_row_deleted_def[of None])
qed

lemma length_set_mask_bit [simp]: "length (set_mask_bit i m) = length m"
  by (simp add: set_mask_bit_def)

lemma bufbit_set_mask_bit:
  assumes "i div 8 < length m"
  shows "bufbit (set_mask_bit i m) j \<longleftrightarrow> j = i \<or> bufbit m j"
  using bufbit_set_bit[of i m j] assms by (auto simp: set_mask_bit_def)

lemma set_mask_rows [simp]: "set (mask_rows m) = {i. bufbit m i}"
  by (auto simp: mask_rows_def dest: bufbit_lt)

lemma distinct_mask_rows [simp]: "distinct (mask_rows m)"
  by (simp add: mask_rows_def)

subsection \<open>Marks\<close>

text \<open>A catalog whose groups have distinct numbers and rows, and one bitmap a group.\<close>

definition catalog_ok :: "nat \<Rightarrow> rel_state \<Rightarrow> bool" where
  "catalog_ok sid rel \<longleftrightarrow>
     (let gs = PgColumnarReadRowGroupList sid rel
      in distinct (map rg_groupNumber gs) \<and>
         (\<forall>g \<in> set gs. rg_rowCount g > 0) \<and>
         (\<forall>g \<in> set gs. \<forall>g' \<in> set gs. \<forall>n. group_covers n g \<and> group_covers n g' \<longrightarrow> g = g') \<and>
         distinct (map dr_groupNumber (filter (\<lambda>r. dr_storageId r = sid) (rel_deletes rel))) \<and>
         (\<forall>r \<in> set (rel_deletes rel). dr_storageId r = sid \<longrightarrow> row_group_exists sid (dr_groupNumber r) rel))"

definition group_rows :: "nat \<Rightarrow> rel_state \<Rightarrow> nat set" where
  "group_rows sid rel = {n. \<exists>g \<in> set (PgColumnarReadRowGroupList sid rel). group_covers n g}"

definition deleted_rows :: "nat \<Rightarrow> rel_state \<Rightarrow> nat set" where
  "deleted_rows sid rel = {n. \<exists>g \<in> set (PgColumnarReadRowGroupList sid rel). group_covers n g \<and>
     marked sid (rg_groupNumber g) (rel_deletes rel) (n - rg_firstRowNumber g)}"

lemma set_group_list: "g \<in> set (PgColumnarReadRowGroupList sid rel) \<longleftrightarrow> g \<in> set (rs_groups (rel_file rel)) \<and> rg_storageId g = sid"
  by (auto simp: PgColumnarReadRowGroupList_def)

lemma group_exists_list:
  "row_group_exists sid gn rel \<longleftrightarrow> (\<exists>g \<in> set (PgColumnarReadRowGroupList sid rel). rg_groupNumber g = gn)"
  by (auto simp: row_group_exists_def set_group_list)

lemma catalog_groupD:
  assumes "catalog_ok sid rel" "g \<in> set (PgColumnarReadRowGroupList sid rel)" "g' \<in> set (PgColumnarReadRowGroupList sid rel)"
    "rg_groupNumber g = rg_groupNumber g'"
  shows "g = g'"
  using assms by (auto simp: catalog_ok_def Let_def distinct_map inj_on_def)

text \<open>A chunk stands for a group of the catalog; its bits are rows of the group.\<close>

definition chunk_of_group :: "dv_chunk \<Rightarrow> row_group \<Rightarrow> bool" where
  "chunk_of_group c g \<longleftrightarrow> dvc_stripeId c = rg_groupNumber g \<and> dvc_chunkId c = 0 \<and>
     dvc_startRowNumber c = rg_firstRowNumber g \<and> dvc_endRowNumber c = rg_firstRowNumber g + rg_rowCount g - 1 \<and>
     dvc_rowCount c = rg_rowCount g \<and> length (dvc_mask c) = (rg_rowCount g + 7) div 8 \<and>
     (\<forall>i. bufbit (dvc_mask c) i \<longrightarrow> i < rg_rowCount g)"

definition chunk_marks :: "dv_chunk \<Rightarrow> nat set" where
  "chunk_marks c = (+) (dvc_startRowNumber c) ` {i. bufbit (dvc_mask c) i}"

definition buffer_marks :: "dv_buffer \<Rightarrow> nat set" where
  "buffer_marks buf = (\<Union>c \<in> set (dvb_chunks buf). chunk_marks c)"

definition buffer_ok :: "row_group set \<Rightarrow> dv_buffer \<Rightarrow> bool" where
  "buffer_ok G buf \<longleftrightarrow> (\<forall>c \<in> set (dvb_chunks buf). \<exists>g \<in> G. chunk_of_group c g) \<and>
     set (dvb_rowGroupCache buf) \<subseteq> G \<and> set_option (dvb_lastGroup buf) \<subseteq> G \<and>
     set_option (dvb_lastChunk buf) \<subseteq> dvc_key ` set (dvb_chunks buf)"

lemma buffer_ok_mono: "buffer_ok G buf \<Longrightarrow> G \<subseteq> G' \<Longrightarrow> buffer_ok G' buf"
  unfolding buffer_ok_def by blast

lemma find_row_group_ok:
  assumes "buffer_ok G buf" "set catalog \<subseteq> G" "delete_vector_find_row_group catalog n buf = (rg, buf')"
  shows "buffer_ok G buf'" "dvb_chunks buf' = dvb_chunks buf" "dvb_lastChunk buf' = dvb_lastChunk buf"
    "dvb_relid buf' = dvb_relid buf" "dvb_storageId buf' = dvb_storageId buf" "dvb_subid buf' = dvb_subid buf"
    "dvb_flushedUnder buf' = dvb_flushedUnder buf"
    "rg = Some g \<Longrightarrow> g \<in> G \<and> group_covers n g"
    "rg = None \<longleftrightarrow> (\<forall>g \<in> set catalog \<union> set (dvb_rowGroupCache buf) \<union> set_option (dvb_lastGroup buf). \<not> group_covers n g)"
proof -
  have f: "find P xs = Some g \<Longrightarrow> g \<in> set xs \<and> P g" for P :: "row_group \<Rightarrow> bool" and xs g by (auto simp: find_Some_iff)
  show "buffer_ok G buf'" "dvb_chunks buf' = dvb_chunks buf" "dvb_lastChunk buf' = dvb_lastChunk buf"
    "dvb_relid buf' = dvb_relid buf" "dvb_storageId buf' = dvb_storageId buf" "dvb_subid buf' = dvb_subid buf"
    "dvb_flushedUnder buf' = dvb_flushedUnder buf" "rg = Some g \<Longrightarrow> g \<in> G \<and> group_covers n g"
    using assms by (auto simp: delete_vector_find_row_group_def buffer_ok_def Let_def split: if_splits option.splits dest!: f)
  show "rg = None \<longleftrightarrow> (\<forall>g \<in> set catalog \<union> set (dvb_rowGroupCache buf) \<union> set_option (dvb_lastGroup buf). \<not> group_covers n g)"
    using assms(3) by (auto simp: delete_vector_find_row_group_def Let_def find_None_iff split: if_splits option.splits dest!: f)
qed

lemma get_chunk_ok:
  assumes ok: "buffer_ok G buf" and g: "g \<in> G"
    and def: "buf' = delete_vector_get_chunk (rg_groupNumber g) 0 (rg_firstRowNumber g) (rg_firstRowNumber g + rg_rowCount g - 1)
      (rg_rowCount g) buf"
  shows "buffer_ok G buf'" "buffer_marks buf' = buffer_marks buf" "(rg_groupNumber g, 0, rg_firstRowNumber g) \<in> dvc_key ` set (dvb_chunks buf')"
    "dvb_relid buf' = dvb_relid buf" "dvb_storageId buf' = dvb_storageId buf" "dvb_subid buf' = dvb_subid buf"
    "dvb_flushedUnder buf' = dvb_flushedUnder buf"
proof -
  let ?c = "\<lparr>dvc_stripeId = rg_groupNumber g, dvc_chunkId = 0, dvc_startRowNumber = rg_firstRowNumber g,
    dvc_endRowNumber = rg_firstRowNumber g + rg_rowCount g - 1, dvc_rowCount = rg_rowCount g,
    dvc_mask = replicate ((rg_rowCount g + 7) div 8) 0\<rparr>"
  have c: "chunk_of_group ?c g" "chunk_marks ?c = {}" by (simp_all add: chunk_of_group_def chunk_marks_def)
  show "buffer_ok G buf'" "buffer_marks buf' = buffer_marks buf" "(rg_groupNumber g, 0, rg_firstRowNumber g) \<in> dvc_key ` set (dvb_chunks buf')"
    "dvb_relid buf' = dvb_relid buf" "dvb_storageId buf' = dvb_storageId buf" "dvb_subid buf' = dvb_subid buf"
    "dvb_flushedUnder buf' = dvb_flushedUnder buf"
    using ok g c unfolding def
    by (auto simp: delete_vector_get_chunk_def buffer_ok_def buffer_marks_def Let_def dvc_key_def)
qed

definition fresh_buffer :: "nat \<Rightarrow> nat \<Rightarrow> nat \<Rightarrow> dv_buffer" where
  "fresh_buffer relid sid subid = \<lparr>dvb_relid = relid, dvb_storageId = sid, dvb_subid = subid,
     dvb_flushedUnder = InvalidSubTransactionId, dvb_chunks = [], dvb_rowGroupCache = [], dvb_lastGroup = None, dvb_lastChunk = None\<rparr>"

lemma fresh_buffer_ok [simp]: "buffer_ok G (fresh_buffer r s u)" "buffer_marks (fresh_buffer r s u) = {}"
  by (simp_all add: fresh_buffer_def buffer_ok_def buffer_marks_def)

lemma get_buffer_split:
  assumes "delete_vector_get_buffer relid sid subid bufs = (i, bufs1)"
  obtains pre b post where "bufs1 = pre @ b # post" "i = length pre"
    "bufs = pre @ b # post \<and> dvb_storageId b = sid \<and> dvb_subid b = subid \<or> bufs = pre \<and> post = [] \<and> b = fresh_buffer relid sid subid"
proof -
  let ?P = "\<lambda>b. \<not> (dvb_storageId b = sid \<and> dvb_subid b = subid)"
  have split: "bufs = takeWhile ?P bufs @ dropWhile ?P bufs" by simp
  show ?thesis
  proof (cases "dropWhile ?P bufs")
    case Nil
    then have "length (takeWhile ?P bufs) = length bufs" using split by (metis append_Nil2)
    then have "i = length bufs \<and> bufs1 = bufs @ [fresh_buffer relid sid subid]"
      using assms unfolding delete_vector_get_buffer_def Let_def fresh_buffer_def by auto
    then show ?thesis using that[of bufs "fresh_buffer relid sid subid" "[]"] by simp
  next
    case (Cons b post)
    then have "\<not> ?P b" using hd_dropWhile[of ?P bufs] by simp
    moreover have "length (takeWhile ?P bufs) < length bufs" using split Cons by (metis append_Nil2 length_append less_add_same_cancel1 length_greater_0_conv list.discI)
    ultimately have "i = length (takeWhile ?P bufs) \<and> bufs1 = bufs" "dvb_storageId b = sid \<and> dvb_subid b = subid"
      using assms unfolding delete_vector_get_buffer_def Let_def by auto
    moreover have "bufs = takeWhile ?P bufs @ b # post" using split unfolding Cons .
    ultimately show ?thesis using that[of "takeWhile ?P bufs" b post] by metis
  qed
qed

lemma mark_chunks:
  assumes ok: "buffer_ok (set (PgColumnarReadRowGroupList sid rel)) buf" and cat: "catalog_ok sid rel"
    and g: "g \<in> set (PgColumnarReadRowGroupList sid rel)" "group_covers n g"
    and k: "k = (rg_groupNumber g, 0, rg_firstRowNumber g)" "k \<in> dvc_key ` set (dvb_chunks buf)"
    and def: "buf' = buf\<lparr>dvb_chunks := map (\<lambda>c. if dvc_key c = k
       then c\<lparr>dvc_mask := set_mask_bit (n - rg_firstRowNumber g) (dvc_mask c)\<rparr> else c) (dvb_chunks buf)\<rparr>"
  shows "buffer_ok (set (PgColumnarReadRowGroupList sid rel)) buf'" "buffer_marks buf' = insert n (buffer_marks buf)"
proof -
  let ?i = "n - rg_firstRowNumber g" and ?f = "\<lambda>c. if dvc_key c = k then c\<lparr>dvc_mask := set_mask_bit (n - rg_firstRowNumber g) (dvc_mask c)\<rparr> else c"
  have i: "?i < rg_rowCount g" "rg_firstRowNumber g + ?i = n" "?i div 8 < (rg_rowCount g + 7) div 8"
    using g(2) unfolding group_covers_def by linarith+
  have c: "chunk_of_group c g" if cc: "c \<in> set (dvb_chunks buf)" "dvc_key c = k" for c
  proof -
    obtain g' where g': "g' \<in> set (PgColumnarReadRowGroupList sid rel)" "chunk_of_group c g'" using ok cc(1) unfolding buffer_ok_def by blast
    have "dvc_stripeId c = rg_groupNumber g'" using g'(2) by (simp add: chunk_of_group_def)
    moreover have "dvc_stripeId c = rg_groupNumber g" using cc(2) unfolding k(1) dvc_key_def by simp
    ultimately have "rg_groupNumber g' = rg_groupNumber g" by simp
    then show ?thesis using catalog_groupD[OF cat g'(1) g(1)] g'(2) by simp
  qed
  have f: "chunk_of_group (?f c) g" "chunk_marks (?f c) = insert n (chunk_marks c)" if "c \<in> set (dvb_chunks buf)" "dvc_key c = k" for c
  proof -
    have b: "bufbit (set_mask_bit ?i (dvc_mask c)) j \<longleftrightarrow> j = ?i \<or> bufbit (dvc_mask c) j" for j
      using c[OF that] i(3) by (simp add: chunk_of_group_def bufbit_set_mask_bit)
    then have "{j. bufbit (set_mask_bit ?i (dvc_mask c)) j} = insert ?i {j. bufbit (dvc_mask c) j}" by auto
    then show "chunk_of_group (?f c) g" "chunk_marks (?f c) = insert n (chunk_marks c)"
      using c[OF that] that(2) i b by (auto simp: chunk_of_group_def chunk_marks_def)
  qed
  have key: "dvc_key (?f c) = dvc_key c" for c by (simp add: dvc_key_def)
  have "\<exists>g' \<in> set (PgColumnarReadRowGroupList sid rel). chunk_of_group (?f c) g'" if "c \<in> set (dvb_chunks buf)" for c
    using f(1)[OF that] g(1) ok that by (cases "dvc_key c = k") (auto simp: buffer_ok_def)
  moreover have "dvc_key ` ?f ` X = dvc_key ` X" for X by (simp only: image_image key)
  ultimately show "buffer_ok (set (PgColumnarReadRowGroupList sid rel)) buf'" using ok unfolding def
    by (simp add: buffer_ok_def del: if_image_distrib)
  obtain c0 where c0: "c0 \<in> set (dvb_chunks buf)" "dvc_key c0 = k" using k(2) by auto
  have "chunk_marks (?f c) \<subseteq> insert n (chunk_marks c) \<and> chunk_marks c \<subseteq> chunk_marks (?f c)" if "c \<in> set (dvb_chunks buf)" for c
  proof (cases "dvc_key c = k")
    case True
    show ?thesis unfolding f(2)[OF that True] by auto
  next
    case False
    then show ?thesis by auto
  qed
  moreover have "n \<in> chunk_marks (?f c0)" using f(2)[OF c0] by simp
  ultimately show "buffer_marks buf' = insert n (buffer_marks buf)" using c0(1) unfolding def buffer_marks_def by (simp del: if_image_distrib, blast)
qed

lemma mark_row_deleted:
  assumes res: "PgColumnarMarkRowDeleted relid subid rel n bufs = Inr bufs'"
    and sid: "PgColumnarStorageId (rs_fork (rel_file rel)) = Inr sid" and cat: "catalog_ok sid rel"
    and ok: "\<forall>b \<in> set bufs. dvb_storageId b = sid \<and> dvb_subid b = subid \<longrightarrow> buffer_ok (set (PgColumnarReadRowGroupList sid rel)) b"
  obtains pre b post b' where
    "bufs = pre @ b # post \<and> dvb_storageId b = sid \<and> dvb_subid b = subid \<or> bufs = pre \<and> post = [] \<and> b = fresh_buffer relid sid subid"
    "bufs' = pre @ b' # post" "buffer_ok (set (PgColumnarReadRowGroupList sid rel)) b'" "buffer_marks b' = insert n (buffer_marks b)"
    "dvb_relid b' = dvb_relid b" "dvb_storageId b' = dvb_storageId b" "dvb_subid b' = dvb_subid b"
    "dvb_flushedUnder b' = dvb_flushedUnder b" "n \<in> group_rows sid rel"
proof -
  let ?G = "PgColumnarReadRowGroupList sid rel"
  obtain i bufs1 where gb: "delete_vector_get_buffer relid sid subid bufs = (i, bufs1)" by fastforce
  obtain pre b post where p: "bufs1 = pre @ b # post" "i = length pre"
    "bufs = pre @ b # post \<and> dvb_storageId b = sid \<and> dvb_subid b = subid \<or> bufs = pre \<and> post = [] \<and> b = fresh_buffer relid sid subid"
    using get_buffer_split[OF gb] by metis
  have b: "buffer_ok (set ?G) b" using p(3) ok by auto
  obtain rg buf where fr: "delete_vector_find_row_group ?G n b = (rg, buf)" by fastforce
  note f = find_row_group_ok[OF b subset_refl fr]
  obtain g where g: "rg = Some g" using res sid gb fr p(1,2) by (auto simp: PgColumnarMarkRowDeleted_def Let_def split: option.splits)
  then have gG: "g \<in> set ?G" "group_covers n g" using f(8) by auto
  define buf1 where "buf1 = delete_vector_get_chunk (rg_groupNumber g) 0 (rg_firstRowNumber g) (rg_firstRowNumber g + rg_rowCount g - 1) (rg_rowCount g) buf"
  note c = get_chunk_ok[OF f(1) gG(1) buf1_def]
  define b' where "b' = buf1\<lparr>dvb_chunks := map (\<lambda>c. if dvc_key c = (rg_groupNumber g, 0, rg_firstRowNumber g)
       then c\<lparr>dvc_mask := set_mask_bit (n - rg_firstRowNumber g) (dvc_mask c)\<rparr> else c) (dvb_chunks buf1)\<rparr>"
  note m = mark_chunks[OF c(1) cat gG refl c(3) b'_def]
  have "bufs' = pre @ b' # post" using res sid gb fr g p(1,2) by (simp add: PgColumnarMarkRowDeleted_def Let_def buf1_def b'_def)
  moreover have "buffer_marks buf = buffer_marks b" using f(2) by (simp add: buffer_marks_def)
  moreover have "n \<in> group_rows sid rel" using gG by (auto simp: group_rows_def)
  ultimately show ?thesis using that[OF p(3)] m c f by (simp add: b'_def)
qed

subsection \<open>What a flush does\<close>

lemma marked_append: "marked sid gn (rows @ [r]) i \<longleftrightarrow> marked sid gn rows i \<or>
    dr_storageId r = sid \<and> dr_groupNumber r = gn \<and> bufbit (dr_bitmap r) i"
  by (auto simp: marked_def PgColumnarReadDeleteVectorList_def)

lemma unique_row:
  assumes "distinct (map dr_groupNumber (filter (\<lambda>r. dr_storageId r = sid) rows))"
    "r \<in> set rows" "r' \<in> set rows" "dr_storageId r = sid" "dr_storageId r' = sid" "dr_groupNumber r = dr_groupNumber r'"
  shows "r = r'"
  using assms by (auto simp: distinct_map inj_on_def)

lemma upsert_marks:
  assumes cat: "catalog_ok sid rel" and ex: "row_group_exists sid gn rel"
  obtains merged rows' where "PgColumnarUpsertDeleteVector sid gn cnt m rel = Inr (merged, rel\<lparr>rel_deletes := rows'\<rparr>)"
    "\<And>i. i div 8 < length m \<Longrightarrow> marked sid gn rows' i \<longleftrightarrow> marked sid gn (rel_deletes rel) i \<or> bufbit m i"
    "\<And>sid' gn' i. (sid', gn') \<noteq> (sid, gn) \<Longrightarrow> marked sid' gn' rows' i \<longleftrightarrow> marked sid' gn' (rel_deletes rel) i"
    "\<And>sid'. distinct (map dr_groupNumber (filter (\<lambda>r. dr_storageId r = sid') (rel_deletes rel))) \<Longrightarrow>
       distinct (map dr_groupNumber (filter (\<lambda>r. dr_storageId r = sid') rows'))"
    "(\<lambda>r. (dr_storageId r, dr_groupNumber r)) ` set rows' \<subseteq> insert (sid, gn) ((\<lambda>r. (dr_storageId r, dr_groupNumber r)) ` set (rel_deletes rel))"
proof -
  let ?rows = "rel_deletes rel" and ?mine = "\<lambda>r. dr_storageId r = sid \<and> dr_groupNumber r = gn"
  let ?row = "\<lambda>n bm. \<lparr>dr_storageId = sid, dr_groupNumber = gn, dr_deletedCount = n, dr_bitmap = bm\<rparr>"
  have dist: "distinct (map dr_groupNumber (filter (\<lambda>r. dr_storageId r = sid) ?rows))" using cat by (simp add: catalog_ok_def Let_def)
  show ?thesis
  proof (cases "find ?mine ?rows")
    case None
    then have no: "\<forall>r \<in> set ?rows. \<not> ?mine r" by (simp add: find_None_iff)
    show ?thesis
    proof (rule that)
      show "PgColumnarUpsertDeleteVector sid gn cnt m rel = Inr (m, rel\<lparr>rel_deletes := ?rows @ [?row cnt m]\<rparr>)"
        using ex None by (simp add: PgColumnarUpsertDeleteVector_def Let_def)
      show "distinct (map dr_groupNumber (filter (\<lambda>r. dr_storageId r = sid') (?rows @ [?row cnt m])))"
        if "distinct (map dr_groupNumber (filter (\<lambda>r. dr_storageId r = sid') ?rows))" for sid'
        using that no by auto
    qed (auto simp: marked_append)
  next
    case (Some r)
    then have r: "r \<in> set ?rows" "?mine r" by (auto simp: find_Some_iff)
    let ?merged = "or_bitmap m (dr_bitmap r)"
    let ?new = "?row (length (mask_rows ?merged)) ?merged"
    let ?f = "\<lambda>x. if ?mine x then ?new else x"
    have one: "x = r" if "x \<in> set ?rows" "?mine x" for x using unique_row[OF dist that(1) r(1)] that(2) r(2) by simp
    have keys: "dr_storageId (?f x) = dr_storageId x" "dr_groupNumber (?f x) = dr_groupNumber x" for x by auto
    have flt: "filter (\<lambda>r. dr_storageId r = sid') (map ?f ?rows) = map ?f (filter (\<lambda>r. dr_storageId r = sid') ?rows)" for sid'
      unfolding filter_map by (simp only: comp_def keys)
    have gnm: "map dr_groupNumber (map ?f xs) = map dr_groupNumber xs" for xs by (simp only: map_map comp_def keys)
    have mk: "marked s g (map ?f ?rows) i \<longleftrightarrow> (\<exists>x \<in> set ?rows. dr_storageId x = s \<and> dr_groupNumber x = g \<and> bufbit (dr_bitmap (?f x)) i)" for s g i
      unfolding marked_def PgColumnarReadDeleteVectorList_def filter_map comp_def keys by auto
    show ?thesis
    proof (rule that)
      show "PgColumnarUpsertDeleteVector sid gn cnt m rel = Inr (?merged, rel\<lparr>rel_deletes := map ?f ?rows\<rparr>)"
        using ex Some by (simp add: PgColumnarUpsertDeleteVector_def Let_def)
      show "marked sid gn (map ?f ?rows) i \<longleftrightarrow> marked sid gn ?rows i \<or> bufbit m i" if "i div 8 < length m" for i
      proof -
        have "marked sid gn (map ?f ?rows) i \<longleftrightarrow> bufbit (dr_bitmap (?f r)) i" unfolding mk using one r by blast
        then have "marked sid gn (map ?f ?rows) i \<longleftrightarrow> bufbit ?merged i" using r(2) by simp
        moreover have "marked sid gn ?rows i \<longleftrightarrow> bufbit (dr_bitmap r) i"
          unfolding marked_def PgColumnarReadDeleteVectorList_def set_filter using one r by blast
        ultimately show ?thesis using or_bitmap_bits[OF that] by blast
      qed
      show "marked s g (map ?f ?rows) i \<longleftrightarrow> marked s g ?rows i" if "(s, g) \<noteq> (sid, gn)" for s g i
      proof -
        have "dr_storageId x = s \<and> dr_groupNumber x = g \<and> bufbit (dr_bitmap (?f x)) i \<longleftrightarrow>
            dr_storageId x = s \<and> dr_groupNumber x = g \<and> bufbit (dr_bitmap x) i" for x using that by auto
        then show ?thesis unfolding mk by (simp only: marked_def PgColumnarReadDeleteVectorList_def set_filter) blast
      qed
      show "distinct (map dr_groupNumber (filter (\<lambda>r. dr_storageId r = sid') (map ?f ?rows)))"
        if "distinct (map dr_groupNumber (filter (\<lambda>r. dr_storageId r = sid') ?rows))" for sid'
        using that unfolding flt gnm .
      show "(\<lambda>r. (dr_storageId r, dr_groupNumber r)) ` set (map ?f ?rows) \<subseteq> insert (sid, gn) ((\<lambda>r. (dr_storageId r, dr_groupNumber r)) ` set ?rows)"
        by auto
    qed
  qed
qed

text \<open>What changes when rows are deleted: the bitmaps, by exactly these rows.\<close>

definition adds_deletes :: "nat \<Rightarrow> nat set \<Rightarrow> rel_state \<Rightarrow> rel_state \<Rightarrow> bool" where
  "adds_deletes sid X rel rel' \<longleftrightarrow> rel' = rel\<lparr>rel_deletes := rel_deletes rel'\<rparr> \<and>
     (\<forall>s. catalog_ok s rel \<longrightarrow> catalog_ok s rel') \<and> deleted_rows sid rel' = deleted_rows sid rel \<union> X \<and>
     (\<forall>s. s \<noteq> sid \<longrightarrow> deleted_rows s rel' = deleted_rows s rel)"

lemma adds_deletes_refl: "adds_deletes sid {} rel rel"
  by (simp add: adds_deletes_def)

lemma adds_deletes_trans:
  assumes "adds_deletes sid X rel rel1" "adds_deletes sid Y rel1 rel2" shows "adds_deletes sid (X \<union> Y) rel rel2"
proof -
  have "rel1 = rel\<lparr>rel_deletes := rel_deletes rel1\<rparr>" "rel2 = rel1\<lparr>rel_deletes := rel_deletes rel2\<rparr>"
    using assms by (simp_all add: adds_deletes_def)
  then have "rel2 = rel\<lparr>rel_deletes := rel_deletes rel2\<rparr>" by (cases rel, cases rel1, cases rel2) simp
  then show ?thesis using assms by (auto simp: adds_deletes_def)
qed

lemma group_list_deletes [simp]: "PgColumnarReadRowGroupList sid (rel\<lparr>rel_deletes := rows\<rparr>) = PgColumnarReadRowGroupList sid rel"
  by (simp add: PgColumnarReadRowGroupList_def)

lemma adds_deletes_groups: "adds_deletes sid X rel rel' \<Longrightarrow> PgColumnarReadRowGroupList s rel' = PgColumnarReadRowGroupList s rel"
  unfolding adds_deletes_def by (metis group_list_deletes)

lemma upsert_chunk:
  assumes cat: "catalog_ok sid rel" and g: "g \<in> set (PgColumnarReadRowGroupList sid rel)" and c: "chunk_of_group c g"
  obtains merged rel' where "PgColumnarUpsertDeleteVector sid (dvc_stripeId c) cnt (dvc_mask c) rel = Inr (merged, rel')"
    "adds_deletes sid (chunk_marks c) rel rel'"
proof -
  let ?gn = "rg_groupNumber g"
  have gn: "dvc_stripeId c = ?gn" and start: "dvc_startRowNumber c = rg_firstRowNumber g" using c by (simp_all add: chunk_of_group_def)
  have ex: "row_group_exists sid ?gn rel" using g by (auto simp: group_exists_list)
  from upsert_marks[OF cat ex, of cnt "dvc_mask c"] obtain merged rows' where
    u: "PgColumnarUpsertDeleteVector sid ?gn cnt (dvc_mask c) rel = Inr (merged, rel\<lparr>rel_deletes := rows'\<rparr>)"
    and m1: "\<And>i. i div 8 < length (dvc_mask c) \<Longrightarrow> marked sid ?gn rows' i \<longleftrightarrow> marked sid ?gn (rel_deletes rel) i \<or> bufbit (dvc_mask c) i"
    and m2: "\<And>s g i. (s, g) \<noteq> (sid, ?gn) \<Longrightarrow> marked s g rows' i \<longleftrightarrow> marked s g (rel_deletes rel) i"
    and d: "\<And>s. distinct (map dr_groupNumber (filter (\<lambda>r. dr_storageId r = s) (rel_deletes rel))) \<Longrightarrow>
       distinct (map dr_groupNumber (filter (\<lambda>r. dr_storageId r = s) rows'))"
    and k: "(\<lambda>r. (dr_storageId r, dr_groupNumber r)) ` set rows' \<subseteq> insert (sid, ?gn) ((\<lambda>r. (dr_storageId r, dr_groupNumber r)) ` set (rel_deletes rel))"
    by blast
  let ?rel' = "rel\<lparr>rel_deletes := rows'\<rparr>"
  have ok: "catalog_ok s ?rel'" if "catalog_ok s rel" for s
  proof -
    have "row_group_exists s (dr_groupNumber r) rel" if r: "r \<in> set rows'" "dr_storageId r = s" for r
    proof -
      have "(s, dr_groupNumber r) \<in> insert (sid, ?gn) ((\<lambda>r. (dr_storageId r, dr_groupNumber r)) ` set (rel_deletes rel))" using k r by blast
      then show ?thesis using ex \<open>catalog_ok s rel\<close> by (auto simp: catalog_ok_def Let_def)
    qed
    then show ?thesis using that d[of s] unfolding catalog_ok_def Let_def by (simp add: row_group_exists_def)
  qed
  have mark: "marked s (rg_groupNumber h) rows' i \<longleftrightarrow> marked s (rg_groupNumber h) (rel_deletes rel) i \<or> s = sid \<and> h = g \<and> bufbit (dvc_mask c) i"
    if h: "h \<in> set (PgColumnarReadRowGroupList s rel)" "i < rg_rowCount h" for s h i
  proof (cases "s = sid \<and> h = g")
    case True
    have "i div 8 < length (dvc_mask c)" using h(2) True c unfolding chunk_of_group_def by simp
    then show ?thesis using m1 True by simp
  next
    case False
    then have "(s, rg_groupNumber h) \<noteq> (sid, ?gn)" using catalog_groupD[OF cat _ g, of h] h(1) by auto
    from m2[OF this] show ?thesis using False by auto
  qed
  have marks: "chunk_marks c = {n. group_covers n g \<and> bufbit (dvc_mask c) (n - rg_firstRowNumber g)}"
  proof (intro set_eqI iffI)
    fix n assume "n \<in> chunk_marks c"
    then obtain i where "n = rg_firstRowNumber g + i" "bufbit (dvc_mask c) i" using start by (auto simp: chunk_marks_def)
    then show "n \<in> {n. group_covers n g \<and> bufbit (dvc_mask c) (n - rg_firstRowNumber g)}"
      using c by (simp add: chunk_of_group_def group_covers_def)
  next
    fix n assume "n \<in> {n. group_covers n g \<and> bufbit (dvc_mask c) (n - rg_firstRowNumber g)}"
    then show "n \<in> chunk_marks c" using start by (auto simp: chunk_marks_def group_covers_def image_iff intro!: exI[of _ "n - rg_firstRowNumber g"])
  qed
  have cov: "n - rg_firstRowNumber h < rg_rowCount h" if "group_covers n h" for n h using that by (auto simp: group_covers_def)
  have "deleted_rows sid ?rel' = deleted_rows sid rel \<union> chunk_marks c"
    unfolding deleted_rows_def marks by (auto simp: mark cov g)
  moreover have "deleted_rows s ?rel' = deleted_rows s rel" if "s \<noteq> sid" for s
    using that unfolding deleted_rows_def by (auto simp: mark cov)
  ultimately have "adds_deletes sid (chunk_marks c) rel ?rel'" using ok by (simp add: adds_deletes_def)
  then show ?thesis using that u gn by simp
qed

lemma flush_chunks_marks:
  assumes "catalog_ok sid rel" "\<forall>c \<in> set cs. \<exists>g \<in> set (PgColumnarReadRowGroupList sid rel). chunk_of_group c g"
  obtains cs' rel' where "flush_chunks keep sid cs rel = Inr (cs', rel')" "adds_deletes sid (\<Union>c \<in> set cs. chunk_marks c) rel rel'"
    "keep \<longrightarrow> cs' = cs"
proof -
  have "\<exists>cs' rel'. flush_chunks keep sid cs rel = Inr (cs', rel') \<and> adds_deletes sid (\<Union>c \<in> set cs. chunk_marks c) rel rel' \<and> (keep \<longrightarrow> cs' = cs)"
    using assms
  proof (induction cs arbitrary: rel)
    case Nil
    then show ?case by (simp add: adds_deletes_refl)
  next
    case (Cons c cs)
    obtain g where "g \<in> set (PgColumnarReadRowGroupList sid rel)" "chunk_of_group c g" using Cons.prems(2) by auto
    from upsert_chunk[OF Cons.prems(1) this, of "length (mask_rows (dvc_mask c))"] obtain merged rel1 where
      u: "PgColumnarUpsertDeleteVector sid (dvc_stripeId c) (length (mask_rows (dvc_mask c))) (dvc_mask c) rel = Inr (merged, rel1)"
        "adds_deletes sid (chunk_marks c) rel rel1" by blast
    have "catalog_ok sid rel1" "\<forall>c \<in> set cs. \<exists>g \<in> set (PgColumnarReadRowGroupList sid rel1). chunk_of_group c g"
      using u(2) Cons.prems adds_deletes_groups[OF u(2), of sid] by (simp_all add: adds_deletes_def)
    from Cons.IH[OF this] obtain cs' rel' where
      i: "flush_chunks keep sid cs rel1 = Inr (cs', rel')" "adds_deletes sid (\<Union>c \<in> set cs. chunk_marks c) rel1 rel'" "keep \<longrightarrow> cs' = cs"
      by blast
    have "adds_deletes sid (\<Union>c \<in> set (c # cs). chunk_marks c) rel rel'" using adds_deletes_trans[OF u(2) i(2)] by simp
    then show ?case using u(1) i(1,3) by simp
  qed
  then show ?thesis using that by blast
qed

subsection \<open>Conflicts\<close>

text \<open>Groups in row-number order, none overlapping the next.\<close>

definition groups_in_order :: "committed_group list \<Rightarrow> bool" where
  "groups_in_order gs \<longleftrightarrow> sorted_wrt (\<lambda>g h. cgr_firstRowNumber g + cgr_rowCount g \<le> cgr_firstRowNumber h) gs"

definition committed_covers :: "nat \<Rightarrow> committed_group \<Rightarrow> bool" where
  "committed_covers n g \<longleftrightarrow> cgr_firstRowNumber g \<le> n \<and> n < cgr_firstRowNumber g + cgr_rowCount g"

abbreviation committed_hit :: "nat \<Rightarrow> committed_group \<Rightarrow> bool" where
  "committed_hit n g \<equiv> committed_covers n g \<and> dv_row_deleted (cgr_mask g) (n - cgr_firstRowNumber g)"

lemma committed_search:
  assumes "groups_in_order gs" "0 \<le> lo" "hi < int (length gs)"
  shows "committed_deleted_in gs n lo hi \<longleftrightarrow> (\<exists>k. lo \<le> int k \<and> int k \<le> hi \<and> committed_hit n (gs ! k))"
  using assms
proof (induction gs n lo hi rule: committed_deleted_in.induct)
  case (1 gs n lo hi)
  show ?case
  proof (cases "lo \<le> hi")
    case False
    then show ?thesis by (subst committed_deleted_in.simps) auto
  next
    case True
    let ?m = "(lo + hi) div 2"
    let ?g = "gs ! nat ?m"
    have m: "lo \<le> ?m" "?m \<le> hi" "?m < int (length gs)" using True "1.prems"(3) by simp_all
    have nm: "int (nat ?m) = ?m" "nat ?m < length gs" using m "1.prems"(2) by linarith+
    have ord: "cgr_firstRowNumber (gs ! i) + cgr_rowCount (gs ! i) \<le> cgr_firstRowNumber (gs ! j)" if "i < j" "j < length gs" for i j
      using sorted_wrt_nth_less[OF "1.prems"(1)[unfolded groups_in_order_def] that] .
    consider (below) "n < cgr_firstRowNumber ?g" | (above) "n \<ge> cgr_firstRowNumber ?g + cgr_rowCount ?g" "\<not> n < cgr_firstRowNumber ?g"
      | (here) "committed_covers n ?g" unfolding committed_covers_def by linarith
    then show ?thesis
    proof cases
      case below
      have "\<not> committed_covers n (gs ! k)" if "int k \<ge> ?m" "int k \<le> hi" for k
      proof (cases "k = nat ?m")
        case False
        then have "nat ?m < k" "k < length gs" using that nm(1) "1.prems"(3) by linarith+
        from ord[OF this] show ?thesis using below by (auto simp: committed_covers_def)
      qed (use below in \<open>auto simp: committed_covers_def\<close>)
      then have "(\<exists>k. lo \<le> int k \<and> int k \<le> ?m - 1 \<and> committed_hit n (gs ! k)) \<longleftrightarrow>
          (\<exists>k. lo \<le> int k \<and> int k \<le> hi \<and> committed_hit n (gs ! k))"
        using m(2) by (intro ex_cong1) force
      moreover have "committed_deleted_in gs n lo (?m - 1) \<longleftrightarrow> (\<exists>k. lo \<le> int k \<and> int k \<le> ?m - 1 \<and> committed_hit n (gs ! k))"
        by (rule "1.IH"(1)) (use True below "1.prems" m in auto)
      moreover have "committed_deleted_in gs n lo hi = committed_deleted_in gs n lo (?m - 1)"
        using True below by (subst committed_deleted_in.simps) (simp add: Let_def)
      ultimately show ?thesis by blast
    next
      case above
      have "\<not> committed_covers n (gs ! k)" if "int k \<le> ?m" for k
      proof (cases "k = nat ?m")
        case False
        then have "k < nat ?m" using that nm(1) by linarith
        from ord[OF this nm(2)] show ?thesis using above by (auto simp: committed_covers_def)
      qed (use above in \<open>auto simp: committed_covers_def\<close>)
      then have "(\<exists>k. ?m + 1 \<le> int k \<and> int k \<le> hi \<and> committed_hit n (gs ! k)) \<longleftrightarrow>
          (\<exists>k. lo \<le> int k \<and> int k \<le> hi \<and> committed_hit n (gs ! k))"
        using m(1) by (intro ex_cong1) force
      moreover have "committed_deleted_in gs n (?m + 1) hi \<longleftrightarrow> (\<exists>k. ?m + 1 \<le> int k \<and> int k \<le> hi \<and> committed_hit n (gs ! k))"
        by (rule "1.IH"(2)) (use True above "1.prems" m in auto)
      moreover have "committed_deleted_in gs n lo hi = committed_deleted_in gs n (?m + 1) hi"
        using True above by (subst committed_deleted_in.simps) (simp add: Let_def)
      ultimately show ?thesis by blast
    next
      case here
      have "k = nat ?m" if "lo \<le> int k" "int k \<le> hi" "committed_covers n (gs ! k)" for k
      proof (rule linorder_cases[of k "nat ?m"])
        assume "k < nat ?m"
        from ord[OF this nm(2)] show ?thesis using here that(3) by (auto simp: committed_covers_def)
      next
        assume "nat ?m < k"
        moreover have "k < length gs" using that(2) "1.prems"(3) by linarith
        ultimately show ?thesis using ord[of "nat ?m" k] here that(3) by (auto simp: committed_covers_def)
      qed
      moreover have "lo \<le> int (nat ?m)" "int (nat ?m) \<le> hi" using m nm by simp_all
      ultimately have "(\<exists>k. lo \<le> int k \<and> int k \<le> hi \<and> committed_hit n (gs ! k)) \<longleftrightarrow> committed_hit n ?g" by blast
      moreover have "committed_deleted_in gs n lo hi \<longleftrightarrow> dv_row_deleted (cgr_mask ?g) (n - cgr_firstRowNumber ?g)"
        using True here by (subst committed_deleted_in.simps) (simp add: Let_def committed_covers_def)
      ultimately show ?thesis using here by blast
    qed
  qed
qed

lemma committed_groups_order:
  assumes "catalog_ok sid rel"
  shows "groups_in_order (committed_groups sid rel)"
    "set (committed_groups sid rel) = (\<lambda>g. \<lparr>cgr_firstRowNumber = rg_firstRowNumber g, cgr_rowCount = rg_rowCount g,
       cgr_mask = pgcolumnar_merge_delete_vectors (PgColumnarReadDeleteVectorList sid (rg_groupNumber g) (rel_deletes rel))
         ((rg_rowCount g + 7) div 8)\<rparr>) ` set (PgColumnarReadRowGroupList sid rel)"
proof -
  let ?c = "\<lambda>g. \<lparr>cgr_firstRowNumber = rg_firstRowNumber g, cgr_rowCount = rg_rowCount g,
       cgr_mask = pgcolumnar_merge_delete_vectors (PgColumnarReadDeleteVectorList sid (rg_groupNumber g) (rel_deletes rel))
         ((rg_rowCount g + 7) div 8)\<rparr>"
  let ?gs = "PgColumnarReadRowGroupList sid rel"
  show s: "set (committed_groups sid rel) = ?c ` set ?gs" by (simp add: committed_groups_def)
  have "map cgr_firstRowNumber (map ?c ?gs) = map rg_firstRowNumber ?gs" by simp
  have first: "rg_rowCount g > 0" if "g \<in> set ?gs" for g using assms that by (simp add: catalog_ok_def Let_def)
  have cov: "g = h" if "g \<in> set ?gs" "h \<in> set ?gs" "group_covers n g" "group_covers n h" for g h n
    using assms that by (auto simp: catalog_ok_def Let_def)
  have dist: "distinct (map rg_firstRowNumber ?gs)"
  proof -
    have "inj_on rg_firstRowNumber (set ?gs)"
    proof (rule inj_onI)
      fix g h assume gh: "g \<in> set ?gs" "h \<in> set ?gs" "rg_firstRowNumber g = rg_firstRowNumber h"
      then show "g = h" using cov[OF gh(1,2), of "rg_firstRowNumber g"] first[OF gh(1)] first[OF gh(2)] by (simp add: group_covers_def)
    qed
    moreover have "distinct ?gs" using assms by (auto simp: catalog_ok_def Let_def distinct_map)
    ultimately show ?thesis by (simp add: distinct_map)
  qed
  let ?cs = "committed_groups sid rel"
  have "sorted (map cgr_firstRowNumber ?cs)" by (simp add: committed_groups_def)
  moreover have "distinct (map cgr_firstRowNumber ?cs)"
  proof -
    have "mset (map cgr_firstRowNumber ?cs) = mset (map rg_firstRowNumber ?gs)"
      unfolding committed_groups_def mset_map mset_sort by (simp add: multiset.map_comp comp_def)
    from mset_eq_imp_distinct_iff[OF this] show ?thesis using dist by simp
  qed
  ultimately have lt: "sorted_wrt (<) (map cgr_firstRowNumber ?cs)" by (simp add: strict_sorted_iff)
  have gap: "cgr_firstRowNumber g + cgr_rowCount g \<le> cgr_firstRowNumber h"
    if gh: "g \<in> set ?cs" "h \<in> set ?cs" "cgr_firstRowNumber g < cgr_firstRowNumber h" for g h
  proof (rule ccontr)
    assume no: "\<not> ?thesis"
    from gh(1,2) s obtain a b where ab: "a \<in> set ?gs" "g = ?c a" "b \<in> set ?gs" "h = ?c b" by auto
    then have "a = b" using cov[OF ab(1,3), of "rg_firstRowNumber b"] first[OF ab(3)] gh(3) no by (simp add: group_covers_def)
    then show False using ab gh(3) by simp
  qed
  show "groups_in_order ?cs" unfolding groups_in_order_def
    by (rule sorted_wrt_mono_rel[OF _ lt[unfolded sorted_wrt_map]]) (use gap in auto)
qed

lemma serialize_flush_rows:
  assumes "catalog_ok sid rel"
  shows "PgColumnarSerializeFlushRows setting sid rows rel =
    (if setting \<noteq> None \<and> (\<exists>n \<in> set rows. n \<in> deleted_rows sid rel) then Inl row_conflict_error else Inr ())"
proof -
  let ?cs = "committed_groups sid rel"
  note ord = committed_groups_order[OF assms]
  have cd: "committed_deleted_in ?cs n 0 (int (length ?cs) - 1) \<longleftrightarrow> n \<in> deleted_rows sid rel" for n
  proof -
    have "committed_deleted_in ?cs n 0 (int (length ?cs) - 1) \<longleftrightarrow> (\<exists>k < length ?cs. committed_hit n (?cs ! k))"
      using committed_search[OF ord(1), of 0 "int (length ?cs) - 1" n] by force
    also have "\<dots> \<longleftrightarrow> (\<exists>c \<in> set ?cs. committed_hit n c)" by (metis in_set_conv_nth)
    also have "\<dots> \<longleftrightarrow> n \<in> deleted_rows sid rel"
      unfolding ord(2) deleted_rows_def by (auto simp: committed_covers_def group_covers_def merge_marks)
    finally show ?thesis .
  qed
  have "(\<exists>e \<in> set (row_lock_entries b sid rows). snd e \<in> deleted_rows sid rel) \<longleftrightarrow> (\<exists>n \<in> set rows. n \<in> deleted_rows sid rel)" for b
    by (auto simp: row_lock_entries_def Let_def)
  then show ?thesis unfolding PgColumnarSerializeFlushRows_def Let_def cd by (cases setting) simp_all
qed

subsection \<open>Marking and flushing\<close>

lemma flush_buffer_marks:
  assumes cat: "catalog_ok (dvb_storageId buf) rel" and ok: "buffer_ok (set (PgColumnarReadRowGroupList (dvb_storageId buf) rel)) buf"
  shows "if setting \<noteq> None \<and> buffer_marks buf \<inter> deleted_rows (dvb_storageId buf) rel \<noteq> {}
    then delete_vector_flush_buffer setting keep buf rel = Inl row_conflict_error
    else \<exists>buf' rel'. delete_vector_flush_buffer setting keep buf rel = Inr (buf', rel') \<and>
      adds_deletes (dvb_storageId buf) (buffer_marks buf) rel rel' \<and>
      buf' = (if keep \<or> dvb_chunks buf = [] then buf\<lparr>dvb_chunks := sort_chunks (dvb_chunks buf)\<rparr> else delete_vector_reset_buffer buf)"
proof (cases "dvb_chunks buf = []")
  case True
  then have "buf\<lparr>dvb_chunks := sort_chunks (dvb_chunks buf)\<rparr> = buf" by (simp add: sort_chunks_def)
  then show ?thesis using True by (simp add: delete_vector_flush_buffer_def buffer_marks_def adds_deletes_refl)
next
  case False
  let ?sid = "dvb_storageId buf" and ?cs = "sort_chunks (dvb_chunks buf)"
  have cs: "set ?cs = set (dvb_chunks buf)" by (simp add: sort_chunks_def)
  let ?rows = "concat (map (\<lambda>c. map ((+) (dvc_startRowNumber c)) (mask_rows (dvc_mask c))) ?cs)"
  have rows: "set ?rows = buffer_marks buf" by (auto simp: buffer_marks_def chunk_marks_def cs)
  have ser: "(if ?rows = [] then Inr () else PgColumnarSerializeFlushRows setting ?sid ?rows rel) =
      (if setting \<noteq> None \<and> buffer_marks buf \<inter> deleted_rows ?sid rel \<noteq> {} then Inl row_conflict_error else Inr ())"
  proof (cases "?rows = []")
    case True
    then have "buffer_marks buf = {}" using rows by simp
    then show ?thesis using True by simp
  next
    case False
    then show ?thesis unfolding serialize_flush_rows[OF cat] rows by auto
  qed
  have "\<forall>c \<in> set ?cs. \<exists>g \<in> set (PgColumnarReadRowGroupList ?sid rel). chunk_of_group c g" using ok cs by (simp add: buffer_ok_def)
  from flush_chunks_marks[OF cat this, of keep] obtain cs' rel' where
    f: "flush_chunks keep ?sid ?cs rel = Inr (cs', rel')" "adds_deletes ?sid (\<Union>c \<in> set ?cs. chunk_marks c) rel rel'" "keep \<longrightarrow> cs' = ?cs" by blast
  then show ?thesis using False ser unfolding delete_vector_flush_buffer_def Let_def
    by (auto simp: cs buffer_marks_def)
qed

lemma mark_row_succeeds:
  assumes sid: "PgColumnarStorageId (rs_fork (rel_file rel)) = Inr sid" and n: "n \<in> group_rows sid rel"
    and ok: "\<forall>b \<in> set bufs. dvb_storageId b = sid \<and> dvb_subid b = subid \<longrightarrow> buffer_ok (set (PgColumnarReadRowGroupList sid rel)) b"
  obtains bufs' where "PgColumnarMarkRowDeleted relid subid rel n bufs = Inr bufs'"
proof -
  let ?G = "PgColumnarReadRowGroupList sid rel"
  obtain i bufs1 where gb: "delete_vector_get_buffer relid sid subid bufs = (i, bufs1)" by fastforce
  obtain pre b post where p: "bufs1 = pre @ b # post" "i = length pre"
    "bufs = pre @ b # post \<and> dvb_storageId b = sid \<and> dvb_subid b = subid \<or> bufs = pre \<and> post = [] \<and> b = fresh_buffer relid sid subid"
    using get_buffer_split[OF gb] by metis
  have b: "buffer_ok (set ?G) b" using p(3) ok by auto
  obtain rg buf where fr: "delete_vector_find_row_group ?G n b = (rg, buf)" by fastforce
  have "rg \<noteq> None" using find_row_group_ok(9)[OF b subset_refl fr] n by (auto simp: group_rows_def)
  then show ?thesis using that sid gb fr p(1,2) by (auto simp: PgColumnarMarkRowDeleted_def Let_def)
qed

lemma buffered_deleted_marks:
  assumes "\<And>b. b \<in> set bufs \<Longrightarrow> dvb_relid b = relid \<Longrightarrow> \<exists>G. buffer_ok G b"
  shows "PgColumnarDeleteVectorBufferedDeleted relid n bufs \<longleftrightarrow> (\<exists>b \<in> set bufs. dvb_relid b = relid \<and> n \<in> buffer_marks b)"
proof -
  have "\<not> (n < dvc_startRowNumber c \<or> n > dvc_endRowNumber c) \<and> dv_row_deleted (Some (dvc_mask c)) (n - dvc_startRowNumber c) \<longleftrightarrow>
      n \<in> chunk_marks c" if c: "chunk_of_group c g" for c g
  proof
    assume "n \<in> chunk_marks c"
    then obtain i where i: "n = dvc_startRowNumber c + i" "bufbit (dvc_mask c) i" by (auto simp: chunk_marks_def)
    then have "i < rg_rowCount g" using c by (simp add: chunk_of_group_def)
    then show "\<not> (n < dvc_startRowNumber c \<or> n > dvc_endRowNumber c) \<and> dv_row_deleted (Some (dvc_mask c)) (n - dvc_startRowNumber c)"
      using i c by (auto simp: chunk_of_group_def dv_row_deleted_bit)
  next
    assume a: "\<not> (n < dvc_startRowNumber c \<or> n > dvc_endRowNumber c) \<and> dv_row_deleted (Some (dvc_mask c)) (n - dvc_startRowNumber c)"
    then have "n = dvc_startRowNumber c + (n - dvc_startRowNumber c)" by simp
    then show "n \<in> chunk_marks c" using a unfolding chunk_marks_def dv_row_deleted_bit by blast
  qed
  then have "(\<exists>c \<in> set (dvb_chunks b). \<not> (n < dvc_startRowNumber c \<or> n > dvc_endRowNumber c) \<and>
      dv_row_deleted (Some (dvc_mask c)) (n - dvc_startRowNumber c)) \<longleftrightarrow> n \<in> buffer_marks b"
    if "b \<in> set bufs" "dvb_relid b = relid" for b
    using assms[OF that] unfolding buffer_ok_def buffer_marks_def by blast
  then show ?thesis unfolding PgColumnarDeleteVectorBufferedDeleted_def by blast
qed

lemma or_bitmap_fold:
  assumes "i div 8 < length m"
  shows "bufbit (fold (\<lambda>rm m. or_bitmap m (dr_bitmap rm)) rms m) i \<longleftrightarrow> bufbit m i \<or> (\<exists>rm \<in> set rms. bufbit (dr_bitmap rm) i)"
  using assms by (induction rms arbitrary: m) (auto simp: or_bitmap_bits)

lemma group_deleted_count:
  assumes "catalog_ok sid rel" "g \<in> set (PgColumnarReadRowGroupList sid rel)"
  shows "PgColumnarGroupDeletedCount sid g rel = card {n \<in> deleted_rows sid rel. group_covers n g}"
proof -
  let ?rml = "PgColumnarReadDeleteVectorList sid (rg_groupNumber g) (rel_deletes rel)" and ?want = "(rg_rowCount g + 7) div 8"
  let ?m = "fold (\<lambda>rm m. or_bitmap m (dr_bitmap rm)) ?rml (replicate ?want 0)"
  have bits: "{i. i < 8 * ?want \<and> i < rg_rowCount g \<and> bufbit ?m i} = {i. i < rg_rowCount g \<and> marked sid (rg_groupNumber g) (rel_deletes rel) i}"
  proof -
    have "i < 8 * ?want \<and> bufbit ?m i \<longleftrightarrow> marked sid (rg_groupNumber g) (rel_deletes rel) i" if "i < rg_rowCount g" for i
    proof -
      have "i div 8 < ?want" "i < 8 * ?want" using that by linarith+
      then show ?thesis by (simp add: or_bitmap_fold marked_def)
    qed
    then show ?thesis by auto
  qed
  have "PgColumnarGroupDeletedCount sid g rel = card {i. i < rg_rowCount g \<and> marked sid (rg_groupNumber g) (rel_deletes rel) i}"
  proof (cases "?rml = []")
    case True
    then show ?thesis by (simp add: PgColumnarGroupDeletedCount_def Let_def marked_def)
  next
    case False
    have "length (filter (\<lambda>i. i < rg_rowCount g \<and> bufbit ?m i) [0..<8 * ?want]) = card {i. i < 8 * ?want \<and> i < rg_rowCount g \<and> bufbit ?m i}"
      unfolding length_filter_conv_card by (intro arg_cong[where f = card]) auto
    then show ?thesis using False unfolding bits by (simp add: PgColumnarGroupDeletedCount_def Let_def)
  qed
  also have "\<dots> = card {n \<in> deleted_rows sid rel. group_covers n g}"
  proof (rule bij_betw_same_card[of "(+) (rg_firstRowNumber g)"], rule bij_betw_imageI)
    show "(+) (rg_firstRowNumber g) ` {i. i < rg_rowCount g \<and> marked sid (rg_groupNumber g) (rel_deletes rel) i} =
        {n \<in> deleted_rows sid rel. group_covers n g}"
    proof (intro set_eqI iffI)
      fix n assume "n \<in> {n \<in> deleted_rows sid rel. group_covers n g}"
      then obtain h where h: "h \<in> set (PgColumnarReadRowGroupList sid rel)" "group_covers n h" "group_covers n g"
        "marked sid (rg_groupNumber h) (rel_deletes rel) (n - rg_firstRowNumber h)" by (auto simp: deleted_rows_def)
      then have "h = g" using assms by (auto simp: catalog_ok_def Let_def)
      then show "n \<in> (+) (rg_firstRowNumber g) ` {i. i < rg_rowCount g \<and> marked sid (rg_groupNumber g) (rel_deletes rel) i}"
        using h by (auto simp: group_covers_def image_iff intro!: exI[of _ "n - rg_firstRowNumber g"])
    qed (use assms(2) in \<open>auto simp: deleted_rows_def group_covers_def intro!: bexI[of _ g]\<close>)
  qed simp
  finally show ?thesis .
qed

subsection \<open>The contract of a delete\<close>

fun mark_rows :: "nat \<Rightarrow> nat \<Rightarrow> rel_state \<Rightarrow> nat list \<Rightarrow> dv_buffer list \<Rightarrow> dv_buffer list result" where
  "mark_rows relid subid rel [] bufs = Inr bufs"
| "mark_rows relid subid rel (n # ns) bufs =
     res_bind (PgColumnarMarkRowDeleted relid subid rel n bufs) (mark_rows relid subid rel ns)"

lemma mark_rows_buffer:
  assumes sid: "PgColumnarStorageId (rs_fork (rel_file rel)) = Inr sid" and cat: "catalog_ok sid rel" and ns: "set ns \<subseteq> group_rows sid rel"
    and b: "buffer_ok (set (PgColumnarReadRowGroupList sid rel)) b" "dvb_relid b = relid" "dvb_storageId b = sid" "dvb_subid b = subid"
  shows "\<exists>b'. mark_rows relid subid rel ns [b] = Inr [b'] \<and> buffer_ok (set (PgColumnarReadRowGroupList sid rel)) b' \<and>
    dvb_relid b' = relid \<and> dvb_storageId b' = sid \<and> buffer_marks b' = buffer_marks b \<union> set ns"
  using ns b
proof (induction ns arbitrary: b)
  case (Cons n ns)
  have ok: "\<forall>x \<in> set [b]. dvb_storageId x = sid \<and> dvb_subid x = subid \<longrightarrow> buffer_ok (set (PgColumnarReadRowGroupList sid rel)) x"
    using Cons.prems(2) by simp
  obtain bufs' where m: "PgColumnarMarkRowDeleted relid subid rel n [b] = Inr bufs'"
    by (rule mark_row_succeeds[OF sid _ ok, where n = n and relid = relid]) (use Cons.prems(1) in auto)
  obtain pre b0 post b1 where
    s: "[b] = pre @ b0 # post \<and> dvb_storageId b0 = sid \<and> dvb_subid b0 = subid \<or> [b] = pre \<and> post = [] \<and> b0 = fresh_buffer relid sid subid"
      "bufs' = pre @ b1 # post" "buffer_ok (set (PgColumnarReadRowGroupList sid rel)) b1" "buffer_marks b1 = insert n (buffer_marks b0)"
      "dvb_relid b1 = dvb_relid b0" "dvb_storageId b1 = dvb_storageId b0" "dvb_subid b1 = dvb_subid b0"
    by (rule mark_row_deleted[OF m sid cat ok]) (rule that)
  have "[b] \<noteq> pre"
  proof
    assume "[b] = pre"
    have "delete_vector_get_buffer relid sid subid [b] = (0, [b])" using Cons.prems(4,5) by (simp add: delete_vector_get_buffer_def)
    then have "length bufs' = 1" using m sid by (auto simp: PgColumnarMarkRowDeleted_def Let_def split: prod.splits option.splits)
    then show False using s(2) \<open>[b] = pre\<close> by auto
  qed
  then have "pre = []" "post = []" "b0 = b" using s(1) by (auto simp: Cons_eq_append_conv)
  then have b1: "bufs' = [b1]" "dvb_relid b1 = relid" "dvb_storageId b1 = sid" "dvb_subid b1 = subid" "buffer_marks b1 = insert n (buffer_marks b)"
    using s Cons.prems by simp_all
  from Cons.IH[OF _ s(3) b1(2,3,4)] Cons.prems(1) show ?case using m b1 by auto
qed simp

text \<open>
  C6: Deleting rows. Marking rows of a table whose catalog is consistent buffers exactly those
  rows, and the buffer answers for them; the flush then fails with a serialization error exactly
  when row locking is on and a marked row is already deleted in the latest catalog, and
  otherwise adds exactly the marked rows to the deleted ones, keeps the catalog consistent, and
  leaves every group's deleted count exact.
\<close>

theorem deletes_take_effect:
  assumes "PgColumnarStorageId (rs_fork (rel_file rel)) = Inr sid" "catalog_ok sid rel" "ns \<noteq> []" "set ns \<subseteq> group_rows sid rel"
  shows "\<exists>buf. mark_rows relid subid rel ns [] = Inr [buf] \<and>
    (\<forall>n. PgColumnarDeleteVectorBufferedDeleted relid n [buf] \<longleftrightarrow> n \<in> set ns) \<and>
    (if setting \<noteq> None \<and> set ns \<inter> deleted_rows sid rel \<noteq> {}
     then delete_vector_flush_buffer setting False buf rel = Inl row_conflict_error
     else \<exists>buf' rel'. delete_vector_flush_buffer setting False buf rel = Inr (buf', rel') \<and> dvb_chunks buf' = [] \<and>
       rel_file rel' = rel_file rel \<and> catalog_ok sid rel' \<and> deleted_rows sid rel' = deleted_rows sid rel \<union> set ns \<and>
       (\<forall>g \<in> set (PgColumnarReadRowGroupList sid rel).
          PgColumnarGroupDeletedCount sid g rel' = card {n \<in> deleted_rows sid rel'. group_covers n g}))"
proof -
  let ?G = "set (PgColumnarReadRowGroupList sid rel)"
  obtain n ms where ns: "ns = n # ms" using assms(3) by (cases ns) auto
  obtain bufs where m: "PgColumnarMarkRowDeleted relid subid rel n [] = Inr bufs"
    by (rule mark_row_succeeds[OF assms(1), where n = n and bufs = "[]" and subid = subid and relid = relid]) (use assms(4) ns in auto)
  obtain b where b: "bufs = [b]" "buffer_ok ?G b" "buffer_marks b = {n}" "dvb_relid b = relid" "dvb_storageId b = sid" "dvb_subid b = subid"
    by (rule mark_row_deleted[OF m assms(1,2)]) (auto simp: fresh_buffer_def buffer_marks_def)
  obtain buf where buf: "mark_rows relid subid rel ms [b] = Inr [buf]" "buffer_ok ?G buf" "dvb_relid buf = relid" "dvb_storageId buf = sid"
      "buffer_marks buf = {n} \<union> set ms"
    using mark_rows_buffer[OF assms(1,2) _ b(2,4,5,6), of ms] b(3) assms(4) ns by auto
  have marks: "buffer_marks buf = set ns" using buf(5) ns by simp
  have "PgColumnarDeleteVectorBufferedDeleted relid k [buf] \<longleftrightarrow> k \<in> set ns" for k
    using buffered_deleted_marks[of "[buf]" relid k] buf(2,3) marks by auto
  moreover have "\<exists>buf' rel'. delete_vector_flush_buffer setting False buf rel = Inr (buf', rel') \<and> dvb_chunks buf' = [] \<and>
       rel_file rel' = rel_file rel \<and> catalog_ok sid rel' \<and> deleted_rows sid rel' = deleted_rows sid rel \<union> set ns \<and>
       (\<forall>g \<in> ?G. PgColumnarGroupDeletedCount sid g rel' = card {n \<in> deleted_rows sid rel'. group_covers n g})"
    if "\<not> (setting \<noteq> None \<and> set ns \<inter> deleted_rows sid rel \<noteq> {})"
  proof -
    obtain buf' rel' where f: "delete_vector_flush_buffer setting False buf rel = Inr (buf', rel')" "adds_deletes sid (set ns) rel rel'"
        "buf' = (if dvb_chunks buf = [] then buf\<lparr>dvb_chunks := sort_chunks (dvb_chunks buf)\<rparr> else delete_vector_reset_buffer buf)"
      using flush_buffer_marks[of buf rel setting False] assms(2) buf(2,4) marks \<open>\<not> (setting \<noteq> None \<and> _)\<close> by (auto split: if_splits)
    then have "catalog_ok sid rel'" "rel_file rel' = rel_file rel" "deleted_rows sid rel' = deleted_rows sid rel \<union> set ns"
      using assms(2) unfolding adds_deletes_def by (metis rel_state.select_convs(1) rel_state.surjective rel_state.update_convs(7))+
    then show ?thesis using f(1,3) group_deleted_count[of sid rel'] adds_deletes_groups[OF f(2), of sid]
      by (auto simp: delete_vector_reset_buffer_def sort_chunks_def)
  qed
  ultimately show ?thesis using m b(1) buf(1) ns flush_buffer_marks[of buf rel setting False] assms(2) buf(2,4) marks
    by (auto split: if_splits)
qed

definition ten_row_rel :: rel_state where
  "ten_row_rel = (empty_rel 100 7)\<lparr>rel_file := (rel_file (empty_rel 100 7))\<lparr>rs_groups :=
     [\<lparr>rg_storageId = 7, rg_groupNumber = 1, rg_fileOffset = 0, rg_rowCount = 10, rg_byteLength = 0, rg_firstRowNumber = 1\<rparr>]\<rparr>\<rparr>"

theorem deletes_take_effect_witness:
  "\<exists>buf buf' rel'. mark_rows 1 2 ten_row_rel [3, 5] [] = Inr [buf] \<and>
     delete_vector_flush_buffer (Some 1024) False buf ten_row_rel = Inr (buf', rel') \<and> deleted_rows 7 rel' = {3, 5}"
proof -
  have l: "PgColumnarReadRowGroupList 7 ten_row_rel =
      [\<lparr>rg_storageId = 7, rg_groupNumber = 1, rg_fileOffset = 0, rg_rowCount = 10, rg_byteLength = 0, rg_firstRowNumber = 1\<rparr>]"
    by (simp add: PgColumnarReadRowGroupList_def ten_row_rel_def)
  have d: "rel_deletes ten_row_rel = []" by (simp add: ten_row_rel_def empty_rel_def)
  have sid: "PgColumnarStorageId (rs_fork (rel_file ten_row_rel)) = Inr 7"
    by (simp add: ten_row_rel_def empty_rel_def PgColumnarStorageId_def PgColumnarWriteNewMetapage_def PgColumnarReadMetapage_def)
  have cat: "catalog_ok 7 ten_row_rel" by (simp add: catalog_ok_def l d)
  have rows: "set [3, 5] \<subseteq> group_rows 7 ten_row_rel" by (simp add: group_rows_def l group_covers_def)
  have "deleted_rows 7 ten_row_rel = {}" by (simp add: deleted_rows_def d marked_def PgColumnarReadDeleteVectorList_def)
  then show ?thesis using deletes_take_effect[OF sid cat _ rows, of 1 2 "Some 1024"] by auto
qed

end
