(* ===== verification/Sequential_Scan.thy ===== *)
theory Sequential_Scan
  imports Scan_Result Delete_Vector
begin

unbundle bit_operations_syntax

section \<open>A whole scan\<close>

text \<open>
  The loop over the groups of a table. The delete vectors of a group merge to the set of rows
  any of them marks; a group is left out only if the scan is restricted to others or none of
  its rows can match; and the rows of the groups follow each other. A scan therefore returns
  every live row that can match, as it was written, and no row that is deleted or filtered
  out, and it always ends.
\<close>

subsection \<open>Deleted rows\<close>

text \<open>The rows a scan shows of a group, and with what they were deleted for everyone.\<close>

definition row_visible :: "row_filter option \<Rightarrow> rel_state \<Rightarrow> read_state \<Rightarrow> row_group \<Rightarrow> nat \<Rightarrow> bool" where
  "row_visible Q rel rs g r \<longleftrightarrow> \<not> marked (rd_storageId rs) (rg_groupNumber g) (rel_deletes rel) r \<or>
     Q = None \<and> rd_emitDeleted rs \<and>
     (\<forall>rows. rd_deadHorizon rs = Some rows \<longrightarrow> \<not> marked (rd_storageId rs) (rg_groupNumber g) rows r)"

lemma masks_visible:
  assumes "r < rg_rowCount g"
  shows "row_shown Q (load_masks rel g rs) r = row_visible Q rel rs g r"
proof -
  have none: "dv_row_deleted None r \<longleftrightarrow> False" by (simp add: dv_row_deleted_def)
  let ?merge = "\<lambda>rows. pgcolumnar_merge_delete_vectors (PgColumnarReadDeleteVectorList (rd_storageId rs) (rg_groupNumber g) rows)
      ((rg_rowCount g + 7) div 8)"
  have m: "dv_row_deleted (?merge rows) r \<longleftrightarrow> marked (rd_storageId rs) (rg_groupNumber g) rows r" for rows
    by (rule merge_marks[OF assms])
  show ?thesis
  proof (cases "?merge (rel_deletes rel)")
    case None
    then show ?thesis using m[of "rel_deletes rel"] none by (simp add: row_shown_def row_visible_def load_masks_def Let_def)
  next
    case (Some x)
    then have "dv_row_deleted (Some x) r \<longleftrightarrow> marked (rd_storageId rs) (rg_groupNumber g) (rel_deletes rel) r"
      using m[of "rel_deletes rel"] by simp
    then show ?thesis using Some m none
      by (cases "rd_deadHorizon rs") (simp_all add: row_shown_def row_visible_def load_masks_def Let_def)
  qed
qed

subsection \<open>Groups left out\<close>

lemma restricted_search_eq:
  assumes "sorted xs" "0 \<le> lo" "hi < int (length xs)"
  shows "restricted_search xs x lo hi \<longleftrightarrow> (\<exists>i. lo \<le> int i \<and> int i \<le> hi \<and> xs ! i = x)"
  using assms
proof (induction xs x lo hi rule: restricted_search.induct)
  case (1 xs x lo hi)
  show ?case
  proof (cases "lo \<le> hi")
    case True
    let ?m = "lo + (hi - lo) div 2"
    have m: "lo \<le> ?m" "?m \<le> hi" "?m < int (length xs)" using True "1.prems"(3) by simp_all
    have nm: "int (nat ?m) = ?m" "nat ?m < length xs" using m "1.prems"(2) by linarith+
    have le: "xs ! i \<le> xs ! j" if "i \<le> j" "j < length xs" for i j using sorted_nth_mono[OF "1.prems"(1) that] .
    consider "xs ! nat ?m = x" | "xs ! nat ?m < x" | "xs ! nat ?m > x" by linarith
    then show ?thesis
    proof cases
      case 1
      then have "restricted_search xs x lo hi" using True by (subst restricted_search.simps) (simp add: Let_def)
      moreover have "lo \<le> int (nat ?m) \<and> int (nat ?m) \<le> hi \<and> xs ! nat ?m = x" using 1 m "1.prems"(2) by simp
      ultimately show ?thesis by blast
    next
      case 2
      then have "restricted_search xs x lo hi = restricted_search xs x (?m + 1) hi"
        using True by (subst restricted_search.simps) (simp add: Let_def)
      also have "\<dots> \<longleftrightarrow> (\<exists>i. ?m + 1 \<le> int i \<and> int i \<le> hi \<and> xs ! i = x)"
        by (rule "1.IH"(1)) (use True 2 "1.prems" m in auto)
      also have "\<dots> \<longleftrightarrow> (\<exists>i. lo \<le> int i \<and> int i \<le> hi \<and> xs ! i = x)"
      proof (intro ex_cong1)
        fix i
        have "xs ! i \<noteq> x" if "int i \<le> ?m"
        proof -
          have "i \<le> nat ?m" using that nm(1) by linarith
          from le[OF this nm(2)] show ?thesis using 2 by simp
        qed
        then show "?m + 1 \<le> int i \<and> int i \<le> hi \<and> xs ! i = x \<longleftrightarrow> lo \<le> int i \<and> int i \<le> hi \<and> xs ! i = x" using m by force
      qed
      finally show ?thesis .
    next
      case 3
      then have "restricted_search xs x lo hi = restricted_search xs x lo (?m - 1)"
        using True by (subst restricted_search.simps) (simp add: Let_def)
      also have "\<dots> \<longleftrightarrow> (\<exists>i. lo \<le> int i \<and> int i \<le> ?m - 1 \<and> xs ! i = x)"
        by (rule "1.IH"(2)) (use True 3 "1.prems" m in auto)
      also have "\<dots> \<longleftrightarrow> (\<exists>i. lo \<le> int i \<and> int i \<le> hi \<and> xs ! i = x)"
      proof (intro ex_cong1)
        fix i
        have "xs ! i \<noteq> x" if "?m \<le> int i" "int i \<le> hi"
        proof -
          have "nat ?m \<le> i" "i < length xs" using that nm(1) "1.prems"(3) by linarith+
          from le[OF this] show ?thesis using 3 by simp
        qed
        then show "lo \<le> int i \<and> int i \<le> ?m - 1 \<and> xs ! i = x \<longleftrightarrow> lo \<le> int i \<and> int i \<le> hi \<and> xs ! i = x" using m by force
      qed
      finally show ?thesis .
    qed
  next
    case False
    then show ?thesis by (subst restricted_search.simps) auto
  qed
qed

lemma restricted_in: "sorted xs \<Longrightarrow> pgcolumnar_group_is_restricted_in xs x \<longleftrightarrow> x \<in> set xs"
  using restricted_search_eq[of xs 0 "int (length xs) - 1" x]
  by (auto simp: pgcolumnar_group_is_restricted_in_def in_set_conv_nth)

lemma pred_counter [simp]:
  "pred_matches (p\<lparr>excludes := k\<rparr>) v = pred_matches p v" "pred_consts (p\<lparr>excludes := k\<rparr>) = pred_consts p"
  "cell_matches V td (p\<lparr>excludes := k\<rparr>) cell = cell_matches V td p cell"
  "pred_fits def D B (p\<lparr>excludes := k\<rparr>) = pred_fits def D B p"
proof -
  show m: "pred_matches (p\<lparr>excludes := k\<rparr>) v = pred_matches p v" for v
    by (simp add: pred_matches_def native_value_satisfies_def Let_def)
  show c: "pred_consts (p\<lparr>excludes := k\<rparr>) = pred_consts p" by (simp add: pred_consts_def)
  show "cell_matches V td (p\<lparr>excludes := k\<rparr>) cell = cell_matches V td p cell" by (simp add: cell_matches_def m)
  show "pred_fits def D B (p\<lparr>excludes := k\<rparr>) = pred_fits def D B p"
    by (simp add: pred_fits_def range_pred_fits_def scalar_pred_fits_def c)
qed

lemma same_preds_fit:
  assumes "same_preds a b"
  shows "preds_fit td W (take (numPredicates b) (predicates b)) = preds_fit td W (take (numPredicates a) (predicates a))"
    "row_fits V td cells (take (numPredicates b) (predicates b)) = row_fits V td cells (take (numPredicates a) (predicates a))"
proof -
  show "preds_fit td W (take (numPredicates b) (predicates b)) = preds_fit td W (take (numPredicates a) (predicates a))"
    unfolding preds_fit_def by (rule same_preds_all[OF assms]) simp
  show "row_fits V td cells (take (numPredicates b) (predicates b)) = row_fits V td cells (take (numPredicates a) (predicates a))"
    unfolding row_fits_def fun_eq_iff by (intro allI same_preds_all[OF assms]) simp
qed

definition in_restriction :: "read_state \<Rightarrow> row_group \<Rightarrow> bool" where
  "in_restriction rs g \<longleftrightarrow> (\<forall>r. rd_restrict rs = Some r \<longrightarrow> rg_groupNumber g \<in> set r)"

text \<open>A group is left out if the scan is restricted to others, or none of its rows fits.\<close>

lemma may_match_sound:
  assumes sg: "sg_ok E ok (rd_td rs) rel sg" and fits: "preds_fit (rd_td rs) (sg_col sg) (take (numPredicates (rd_prune rs)) (predicates (rd_prune rs)))"
    and ord: "order_ok (rd_prune rs)" and sorted: "\<forall>r. rd_restrict rs = Some r \<longrightarrow> sorted r"
  obtains m pr where "group_may_match E rel (sg_group sg) rs = Inr (m, pr)" "order_ok pr" "same_preds (rd_prune rs) pr"
    "\<And>r. \<not> m \<Longrightarrow> r < rg_rowCount (sg_group sg) \<Longrightarrow> in_restriction rs (sg_group sg) \<Longrightarrow>
      \<not> row_fits (se_pg E) (rd_td rs) (sg_cells sg) (take (numPredicates (rd_prune rs)) (predicates (rd_prune rs))) r"
    "m \<Longrightarrow> in_restriction rs (sg_group sg)"
proof -
  let ?g = "sg_group sg" and ?V = "se_pg E" and ?td = "rd_td rs" and ?G = "group_meta_of (sg_group sg) rel"
  let ?ps = "take (numPredicates (rd_prune rs)) (predicates (rd_prune rs))"
  have restr: "(\<exists>r. rd_restrict rs = Some r \<and> \<not> pgcolumnar_group_is_restricted_in r (rg_groupNumber ?g)) \<longleftrightarrow> \<not> in_restriction rs ?g"
    using sorted restricted_in by (auto simp: in_restriction_def)
  have refl: "same_preds (rd_prune rs) (rd_prune rs)" by (simp add: same_preds_def)
  show thesis
  proof (cases "\<not> in_restriction rs ?g \<or> numPredicates (rd_prune rs) = 0")
    case True
    then have "group_may_match E rel ?g rs = Inr (in_restriction rs ?g, rd_prune rs)" using restr by (simp add: group_may_match_def)
    then show thesis by (rule that[OF _ ord refl]) simp_all
  next
    case False
    note d = sg_described(1)[OF sg]
    note ex = group_excludes_sound[OF d fits]
    have "\<forall>p \<in> set ?ps. zone_decodes ?V ?td ?G p" using ex(1) by blast
    from group_can_match_eq[OF ord this] obtain pr where
      pr: "pgcolumnar_native_group_can_match ?V (se_enable_bloom E) ?td ?G (rd_prune rs) =
          Inr (\<forall>p \<in> set ?ps. \<not> group_excludes ?V (se_enable_bloom E) ?td ?G p, pr)" "order_ok pr" "same_preds (rd_prune rs) pr"
      by blast
    have eq: "group_may_match E rel ?g rs = Inr (\<forall>p \<in> set ?ps. \<not> group_excludes ?V (se_enable_bloom E) ?td ?G p, pr)"
      unfolding group_may_match_def restr using False pr(1) by simp
    have "\<not> row_fits ?V ?td (sg_cells sg) ?ps r"
      if no: "\<not> (\<forall>p \<in> set ?ps. \<not> group_excludes ?V (se_enable_bloom E) ?td ?G p)" "r < rg_rowCount ?g" for r
    proof
      assume f: "row_fits ?V ?td (sg_cells sg) ?ps r"
      obtain p where p: "p \<in> set ?ps" "group_excludes ?V (se_enable_bloom E) ?td ?G p" using no(1) by blast
      have c: "attidx p < length ?td" using fits p(1) by (auto simp: preds_fit_def)
      show False
      proof (cases "sg_cells sg (attidx p)")
        case None
        then show False using sg_meta(2)[OF sg None] p(2)
          by (simp add: group_excludes_def PgColumnarReadZoneMapForColumn_def bloom_excludes_def)
      next
        case (Some cl)
        have "map length cl = sg_lens sg" using sg_cells_fit[OF sg] c Some by (simp add: cells_fit_def)
        then have "length (concat cl) = rg_rowCount ?g" using sg by (simp add: length_concat sg_ok_def group_stored_def)
        then have "concat cl ! r \<in> set (concat (cw_rows (sg_col sg (attidx p))))" using no(2) Some nth_mem[of r "concat cl"] by (simp add: sg_col_def del: set_concat)
        from ex(2)[OF p(1,2) this] show False using f p(1) Some by (auto simp: row_fits_def)
      qed
    qed
    then show thesis using that[OF eq pr(2,3)] False by blast
  qed
qed

subsection \<open>The loop over the groups\<close>

text \<open>What one group contributes to the output of a scan.\<close>

definition group_output ::
  "scan_env \<Rightarrow> row_filter option \<Rightarrow> rel_state \<Rightarrow> read_state \<Rightarrow> stored_group \<Rightarrow> (nat \<times> datum option list) list \<Rightarrow> bool" where
  "group_output E Q rel rs sg out \<longleftrightarrow>
     (\<exists>keep. out = map (row_out E rs (sg_group sg) (sg_cells sg)) (filter keep [0..<rg_rowCount (sg_group sg)]) \<and>
        (\<forall>r < rg_rowCount (sg_group sg).
           (keep r \<longrightarrow> in_restriction rs (sg_group sg) \<and> row_visible Q rel rs (sg_group sg) r \<and> row_passes E Q rs (sg_cells sg) r) \<and>
           (in_restriction rs (sg_group sg) \<and> row_visible Q rel rs (sg_group sg) r \<and> row_passes E Q rs (sg_cells sg) r \<and>
            row_fits (se_pg E) (rd_td rs) (sg_cells sg) (take (numPredicates (rd_prune rs)) (predicates (rd_prune rs))) r \<longrightarrow> keep r)))"

text \<open>What a scan keeps from group to group.\<close>

definition same_scan :: "read_state \<Rightarrow> read_state \<Rightarrow> bool" where
  "same_scan a b \<longleftrightarrow> rd_td b = rd_td a \<and> rd_wanted b = rd_wanted a \<and> rd_missing b = rd_missing a \<and>
     rd_storageId b = rd_storageId a \<and> rd_restrict b = rd_restrict a \<and> rd_deadHorizon b = rd_deadHorizon a \<and>
     rd_emitDeleted b = rd_emitDeleted a \<and> same_preds (rd_prune a) (rd_prune b)"

lemma same_scan_rows:
  assumes "same_scan a b"
  shows "row_passes E Q b = row_passes E Q a" "row_out E b = row_out E a" "row_visible Q rel b = row_visible Q rel a"
    "in_restriction b = in_restriction a"
  using assms cell_value_cong[of b a E] by (auto simp: same_scan_def row_visible_def in_restriction_def fun_eq_iff)

lemma same_scan_trans: "same_scan a b \<Longrightarrow> same_scan b c \<Longrightarrow> same_scan a c"
  by (auto simp: same_scan_def same_preds_def)

definition between_groups :: "read_state \<Rightarrow> row_group list \<Rightarrow> bool" where
  "between_groups rs gs \<longleftrightarrow> \<not> rd_exhausted rs \<and> (rd_group rs = None \<or> rd_rowInGroup rs \<ge> rd_groupRowCount rs) \<and>
     drop (rd_groupIndex rs) (rd_groupList rs) = gs"

lemma between_groups_iter:
  "between_groups rs gs \<Longrightarrow> scan_iter E rel Q rs =
     res_bind (res_bind (claim_group E rel gs rs) (\<lambda>(claimed, rs1).
        case claimed of
          None \<Rightarrow> Inr (False, rs1)
        | Some rg \<Rightarrow>
            res_bind (load_columns E rel Q rg
                (load_masks rel rg (rs1\<lparr>rd_groupsRead := rd_groupsRead rs1 + 1, rd_group := Some rg\<rparr>)))
              (\<lambda>rs2. Inr (True, rs2)))) (\<lambda>(more, rs1).
        if \<not> more then Inr (Finished (rs1\<lparr>rd_exhausted := True\<rparr>))
        else case rd_skip rs1 of
               None \<Rightarrow> scan_row E Q rs1
             | Some (skip, starts) \<Rightarrow>
                 (case pgcolumnar_native_skip_current_vector skip starts rs1 of
                    (True, rs2) \<Rightarrow> Inr (Again rs2)
                  | (False, rs2) \<Rightarrow> scan_row E Q rs2))"
  by (auto simp: between_groups_def scan_iter_def pgcolumnar_native_load_group_def)

lemma scan_out_iter: "scan_iter E rel Q rs = scan_iter E rel Q rs' \<Longrightarrow> scan_out E rel Q rs' out \<Longrightarrow> scan_out E rel Q rs out"
  by (erule scan_out.cases) (auto intro: scan_out.intros)

text \<open>A matching group, loaded and walked.\<close>

lemma scan_group:
  assumes sg: "sg_ok E ok (rd_td rs) rel sg" and readable: "sg_readable (rd_td rs) (rd_wanted rs) sg" and junk: "\<forall>n. length (se_junk E n) = n"
    and fits: "preds_fit (rd_td rs) (sg_col sg) (take (numPredicates (rd_prune rs)) (predicates (rd_prune rs)))"
    and ord: "order_ok (rd_prune rs)" and sid: "rd_storageId rs = rg_storageId (sg_group sg)" and ne: "\<not> rd_exhausted rs"
    and restr: "in_restriction rs (sg_group sg)"
  obtains rs3 rs' rows where
    "load_columns E rel Q (sg_group sg) (load_masks rel (sg_group sg) (rs\<lparr>rd_groupsRead := k, rd_group := Some (sg_group sg)\<rparr>)) = Inr rs3"
    "rd_rowInGroup rs3 = 0" "rd_groupRowCount rs3 = rg_rowCount (sg_group sg)" "rd_group rs3 \<noteq> None" "\<not> rd_exhausted rs3"
    "group_output E Q rel rs sg rows" "\<And>out. scan_out E rel Q rs' out \<Longrightarrow> scan_out E rel Q rs3 (rows @ out)"
    "same_scan rs rs'" "rd_prune rs' = rd_prune rs" "\<not> rd_exhausted rs'" "rd_rowInGroup rs' = rd_groupRowCount rs'" "rd_groupIndex rs' = rd_groupIndex rs"
    "rd_groupList rs' = rd_groupList rs"
proof -
  let ?g = "sg_group sg" and ?cells = "sg_cells sg" and ?lens = "sg_lens sg"
  let ?ps = "take (numPredicates (rd_prune rs)) (predicates (rd_prune rs))"
  define rs2 where "rs2 = load_masks rel ?g (rs\<lparr>rd_groupsRead := k, rd_group := Some ?g\<rparr>)"
  have f2: "rd_td rs2 = rd_td rs" "rd_prune rs2 = rd_prune rs" "rd_storageId rs2 = rg_storageId ?g" "rd_group rs2 = Some ?g" "\<not> rd_exhausted rs2"
      "rd_wanted rs2 = rd_wanted rs" "rd_missing rs2 = rd_missing rs" "rd_groupIndex rs2 = rd_groupIndex rs" "rd_groupList rs2 = rd_groupList rs"
      "same_scan rs rs2"
    using sid ne by (simp_all add: rs2_def load_masks_def Let_def same_scan_def same_preds_def)
  have n: "numPredicates (rd_prune rs2) \<le> length (predicates (rd_prune rs2))" using ord f2(2) by (simp add: order_ok_def)
  obtain buf cols sv vc f rs3 S where ld: "load_columns E rel Q ?g rs2 = Inr rs3"
    "rs3 = rs2\<lparr>rd_buffer := buf, rd_cols := cols, rd_skip := sv, rd_vectorCount := vc, rd_curVec := 0,
       rd_groupRowCount := rg_rowCount ?g, rd_rowInGroup := 0, rd_rowsFilteredEarly := f\<rparr>"
    "in_group E ?cells S ?lens ?g rs3"
    "keeps ?lens (\<lambda>r. row_shown Q rs2 r \<and> row_passes E Q rs2 ?cells r \<and>
       row_fits (se_pg E) (rd_td rs2) ?cells (take (numPredicates (rd_prune rs2)) (predicates (rd_prune rs2))) r) sv"
    by (rule load_columns_ok[OF sg[folded f2(1)] readable[folded f2(1,6)] junk fits[folded f2(1,2)] n f2(3-5)]) (rule that)
  have f3: "rd_rowInGroup rs3 = 0" "rd_groupRowCount rs3 = rg_rowCount ?g" "rd_td rs3 = rd_td rs" "rd_skip rs3 = sv"
      "row_shown Q rs3 = row_shown Q rs2" "row_passes E Q rs3 = row_passes E Q rs" "row_out E rs3 = row_out E rs" "same_scan rs rs3"
    using cell_value_cong[of rs3 rs E] f2 by (simp_all add: ld(2) row_shown_def[abs_def] same_scan_def)
  have p2: "row_passes E Q rs2 = row_passes E Q rs" using cell_value_cong(2)[of rs2 rs E] f2 by simp
  have total: "sum_list ?lens = rg_rowCount ?g" using sg by (simp add: sg_ok_def group_stored_def length_concat)
  let ?keep = "\<lambda>r. row_kept ?lens sv r \<and> row_shown Q rs2 r \<and> row_passes E Q rs ?cells r"
  let ?rows = "map (row_out E rs ?g ?cells) (filter ?keep [0..<rg_rowCount ?g])"
  obtain rs' where rs': "scan_frame rs' = scan_frame rs3" "rd_rowInGroup rs' = sum_list ?lens"
      "\<And>out. scan_out E rel Q rs' out \<Longrightarrow> scan_out E rel Q rs3 (?rows @ out)"
    using walk_group[OF sg_cells_fit[OF sg, folded f3(3)] junk ld(3), of rel Q] unfolding f3 total by blast
  have vis: "row_shown Q rs2 r = row_visible Q rel rs ?g r" if "r < rg_rowCount ?g" for r
    using masks_visible[OF that, of Q rel "rs\<lparr>rd_groupsRead := k, rd_group := Some ?g\<rparr>"] by (simp add: rs2_def row_visible_def)
  have out: "group_output E Q rel rs sg ?rows"
    unfolding group_output_def
  proof (intro exI[of _ ?keep] conjI allI impI)
    fix r assume r: "r < rg_rowCount ?g"
    show "in_restriction rs ?g" by (rule restr)
    show "row_visible Q rel rs ?g r" "row_passes E Q rs ?cells r" if "?keep r" using that vis[OF r] by blast+
    assume "in_restriction rs ?g \<and> row_visible Q rel rs ?g r \<and> row_passes E Q rs ?cells r \<and> row_fits (se_pg E) (rd_td rs) ?cells ?ps r"
    then show "row_kept ?lens sv r" "row_shown Q rs2 r" "row_passes E Q rs ?cells r"
      using ld(4) r vis[OF r] unfolding keeps_def f2 p2 total by blast+
  qed simp
  have fr: "rd_prune rs' = rd_prune rs" "rd_groupIndex rs' = rd_groupIndex rs" "rd_groupList rs' = rd_groupList rs" "rd_storageId rs' = rd_storageId rs"
      "rd_restrict rs' = rd_restrict rs" "rd_deadHorizon rs' = rd_deadHorizon rs" "rd_emitDeleted rs' = rd_emitDeleted rs"
    using arg_cong[OF rs'(1), of rd_prune] arg_cong[OF rs'(1), of rd_groupIndex] arg_cong[OF rs'(1), of rd_groupList]
      arg_cong[OF rs'(1), of rd_storageId] arg_cong[OF rs'(1), of rd_restrict] arg_cong[OF rs'(1), of rd_deadHorizon]
      arg_cong[OF rs'(1), of rd_emitDeleted]
    by (simp_all add: scan_frame_def ld(2) rs2_def load_masks_def Let_def)
  note sf = scan_frameD[OF rs'(1)]
  have ss: "same_scan rs rs'" using fr sf f2 by (simp add: same_scan_def ld(2) same_preds_def)
  show thesis
    by (rule that[OF ld(1)[unfolded rs2_def] f3(1,2) _ _ out rs'(3) ss fr(1)]) (use ld(2) f2 f3 sf rs'(2) total fr in \<open>simp_all\<close>)
qed

lemma scan_groups:
  assumes "\<forall>sg \<in> set sgs. sg_ok E ok (rd_td rs0) rel sg \<and> sg_readable (rd_td rs0) (rd_wanted rs0) sg \<and> rd_storageId rs0 = rg_storageId (sg_group sg) \<and>
      preds_fit (rd_td rs0) (sg_col sg) (take (numPredicates (rd_prune rs0)) (predicates (rd_prune rs0)))"
    and junk: "\<forall>n. length (se_junk E n) = n" and sorted: "\<forall>r. rd_restrict rs0 = Some r \<longrightarrow> sorted r"
    and "between_groups rs (map sg_group sgs)" "same_scan rs0 rs" "order_ok (rd_prune rs)"
  shows "\<exists>outs. scan_out E rel Q rs (concat outs) \<and> list_all2 (group_output E Q rel rs0) sgs outs"
  using assms(1,4-6)
proof (induction sgs arbitrary: rs)
  case Nil
  have "scan_iter E rel Q rs = Inr (Finished (rs\<lparr>rd_groupIndex := rd_groupIndex rs + 1, rd_exhausted := True\<rparr>))"
    using between_groups_iter[OF Nil.prems(2), of E rel Q] by simp
  from scan_out.finished[OF this] show ?case by auto
next
  case (Cons sg sgs)
  let ?g = "sg_group sg"
  have rd: "sg_readable (rd_td rs) (rd_wanted rs) sg" using Cons.prems(1,3) by (simp add: same_scan_def)
  have sc: "rd_td rs = rd_td rs0" "rd_storageId rs = rd_storageId rs0" "rd_restrict rs = rd_restrict rs0" "same_preds (rd_prune rs0) (rd_prune rs)"
    using Cons.prems(3) by (simp_all add: same_scan_def)
  define rs1 where "rs1 = rs\<lparr>rd_groupIndex := rd_groupIndex rs + 1\<rparr>"
  have f1: "rd_td rs1 = rd_td rs" "rd_prune rs1 = rd_prune rs" "rd_restrict rs1 = rd_restrict rs" "in_restriction rs1 = in_restriction rs"
    by (simp_all add: rs1_def in_restriction_def fun_eq_iff)
  have sg: "sg_ok E ok (rd_td rs1) rel sg" "rd_storageId rs = rg_storageId ?g"
      "preds_fit (rd_td rs1) (sg_col sg) (take (numPredicates (rd_prune rs1)) (predicates (rd_prune rs1)))"
    using Cons.prems(1) sc f1 same_preds_fit(1)[OF sc(4)] by simp_all
  obtain m pr where m: "group_may_match E rel ?g rs1 = Inr (m, pr)" "order_ok pr" "same_preds (rd_prune rs1) pr"
    "\<And>r. \<not> m \<Longrightarrow> r < rg_rowCount ?g \<Longrightarrow> in_restriction rs1 ?g \<Longrightarrow>
      \<not> row_fits (se_pg E) (rd_td rs1) (sg_cells sg) (take (numPredicates (rd_prune rs1)) (predicates (rd_prune rs1))) r"
    "m \<Longrightarrow> in_restriction rs1 ?g"
    by (rule may_match_sound[OF sg(1,3)]) (use Cons.prems(4) sorted sc f1 that in auto)
  have sp: "same_preds (rd_prune rs0) pr" using m(3) sc(4) f1(2) by (simp add: same_preds_def)
  have dr: "drop (rd_groupIndex rs + 1) (rd_groupList rs) = map sg_group sgs"
    using Cons.prems(2) by (simp add: between_groups_def) (metis drop_Suc tl_drop list.sel(3))
  show ?case
  proof (cases m)
    case False
    let ?rs = "rs1\<lparr>rd_prune := pr, rd_groupsSkipped := rd_groupsSkipped rs1 + 1\<rparr>"
    have bt: "between_groups ?rs (map sg_group sgs)" using Cons.prems(2) dr by (simp add: between_groups_def rs1_def)
    have "scan_iter E rel Q rs = scan_iter E rel Q ?rs"
      unfolding between_groups_iter[OF Cons.prems(2)] between_groups_iter[OF bt]
      using m(1) False by (simp add: Let_def rs1_def)
    moreover have "same_scan rs0 ?rs" using Cons.prems(3) sp by (simp add: same_scan_def rs1_def)
    with Cons.IH[OF _ bt] Cons.prems(1) m(2) obtain outs where
      o: "scan_out E rel Q ?rs (concat outs)" "list_all2 (group_output E Q rel rs0) sgs outs" by auto
    ultimately have "scan_out E rel Q rs (concat ([] # outs))" using scan_out_iter[OF _ o(1)] by simp
    moreover have "group_output E Q rel rs0 sg []"
      unfolding group_output_def
    proof (intro exI[of _ "\<lambda>_. False"] conjI allI impI)
      fix r assume "r < rg_rowCount ?g" "in_restriction rs0 ?g \<and> row_visible Q rel rs0 ?g r \<and> row_passes E Q rs0 (sg_cells sg) r \<and>
          row_fits (se_pg E) (rd_td rs0) (sg_cells sg) (take (numPredicates (rd_prune rs0)) (predicates (rd_prune rs0))) r"
      then show False using m(4)[OF False] f1 same_preds_fit(2)[OF sc(4)] same_scan_rows(4)[OF Cons.prems(3)] sc(1) by simp
    qed simp_all
    ultimately show ?thesis using o(2) by blast
  next
    case True
    let ?rs = "rs1\<lparr>rd_prune := pr\<rparr>"
    have fs: "preds_fit (rd_td ?rs) (sg_col sg) (take (numPredicates (rd_prune ?rs)) (predicates (rd_prune ?rs)))" "rd_storageId ?rs = rg_storageId ?g"
        "sg_ok E ok (rd_td ?rs) rel sg" "order_ok (rd_prune ?rs)" "\<not> rd_exhausted ?rs" "same_scan rs0 ?rs" "in_restriction ?rs ?g"
      using sg m(2,5) True same_preds_fit(1)[OF m(3)] Cons.prems(2,3) sp by (simp_all add: rs1_def between_groups_def same_scan_def in_restriction_def)
    obtain rs3 rs' rows where g:
      "load_columns E rel Q ?g (load_masks rel ?g (?rs\<lparr>rd_groupsRead := rd_groupsRead ?rs + 1, rd_group := Some ?g\<rparr>)) = Inr rs3"
      "rd_rowInGroup rs3 = 0" "rd_groupRowCount rs3 = rg_rowCount ?g" "rd_group rs3 \<noteq> None" "\<not> rd_exhausted rs3"
      "group_output E Q rel ?rs sg rows" "\<And>out. scan_out E rel Q rs' out \<Longrightarrow> scan_out E rel Q rs3 (rows @ out)"
      "same_scan ?rs rs'" "rd_prune rs' = rd_prune ?rs" "\<not> rd_exhausted rs'" "rd_rowInGroup rs' = rd_groupRowCount rs'" "rd_groupIndex rs' = rd_groupIndex ?rs"
      "rd_groupList rs' = rd_groupList ?rs"
      by (rule scan_group[OF fs(3) _ junk fs(1,4,2,5,7)]) (use rd in \<open>simp add: rs1_def\<close>, rule that)
    have "0 < rg_rowCount ?g" using fs(3) by (simp add: sg_ok_def)
    moreover obtain g3 where "rd_group rs3 = Some g3" using g(4) by blast
    ultimately have st: "scan_iter E rel Q rs = scan_iter E rel Q rs3"
      unfolding between_groups_iter[OF Cons.prems(2)]
      using m(1) True g(1-3,5) by (simp add: Let_def rs1_def scan_iter_def)
    have bt: "between_groups rs' (map sg_group sgs)" using g(10-13) dr by (simp add: between_groups_def rs1_def)
    have "order_ok (rd_prune rs')" using g(9) m(2) by simp
    with Cons.IH[OF _ bt same_scan_trans[OF fs(6) g(8)]] Cons.prems(1) obtain outs where
      o: "scan_out E rel Q rs' (concat outs)" "list_all2 (group_output E Q rel rs0) sgs outs" by auto
    have "scan_out E rel Q rs (concat (rows # outs))" using scan_out_iter[OF st g(7)[OF o(1)]] by simp
    moreover have "group_output E Q rel rs0 sg rows"
      using g(6) same_scan_rows[OF fs(6)] same_preds_fit(2)[OF sp] fs(6) by (simp add: group_output_def same_scan_def)
    ultimately show ?thesis using o(2) by blast
  qed
qed

subsection \<open>Fetching the rows\<close>

lemma claim_group_keeps_started:
  assumes "claim_group E rel rgs rs = Inr (x, rs1)" shows "rd_started rs1 = rd_started rs"
  using assms
proof (induction rgs arbitrary: rs)
  case (Cons g rgs)
  show ?case
  proof (cases "group_may_match E rel g (rs\<lparr>rd_groupIndex := rd_groupIndex rs + 1\<rparr>)")
    case (Inr p)
    obtain m pr where p: "p = (m, pr)" by fastforce
    show ?thesis
    proof (cases m)
      case True
      then show ?thesis using Cons.prems Inr p by (auto simp: Let_def)
    next
      case False
      let ?rs = "rs\<lparr>rd_groupIndex := rd_groupIndex rs + 1, rd_prune := pr, rd_groupsSkipped := rd_groupsSkipped rs + 1\<rparr>"
      have "claim_group E rel rgs ?rs = Inr (x, rs1)" using Cons.prems Inr p False by (simp add: Let_def)
      from Cons.IH[OF this] show ?thesis by simp
    qed
  qed (use Cons.prems in \<open>simp add: Let_def\<close>)
qed auto

lemma scan_row_keeps_started: "scan_row E Q rs = Inr st \<Longrightarrow> rd_started (step_state st) = rd_started rs"
  by (auto simp: scan_row_def Let_def res_bind_Inr split_beta split: option.splits if_splits)

lemma load_group_keeps_started:
  assumes "pgcolumnar_native_load_group E rel Q rs = Inr (got, rs1)" shows "rd_started rs1 = rd_started rs"
proof -
  obtain x rs2 where c: "claim_group E rel (drop (rd_groupIndex rs) (rd_groupList rs)) rs = Inr (x, rs2)"
    using assms by (auto simp: pgcolumnar_native_load_group_def res_bind_Inr)
  have k: "rd_started rs2 = rd_started rs" by (rule claim_group_keeps_started[OF c])
  show ?thesis
  proof (cases x)
    case None
    then show ?thesis using assms c k by (simp add: pgcolumnar_native_load_group_def)
  next
    case (Some rg)
    then have "load_columns E rel Q rg (load_masks rel rg (rs2\<lparr>rd_groupsRead := rd_groupsRead rs2 + 1, rd_group := Some rg\<rparr>)) = Inr rs1"
      using assms c by (auto simp: pgcolumnar_native_load_group_def res_bind_Inr)
    then have "rd_started rs1 = rd_started rs2" by (auto simp: load_columns_def load_masks_def Let_def split_beta res_bind_Inr)
    then show ?thesis using k by simp
  qed
qed

lemma scan_iter_keeps_started:
  assumes "scan_iter E rel Q rs = Inr st" shows "rd_started (step_state st) = rd_started rs"
proof (cases "rd_exhausted rs")
  case True
  then show ?thesis using assms by (auto simp: scan_iter_def)
next
  case False
  obtain got rs1 where l: "(if rd_group rs = None \<or> rd_rowInGroup rs \<ge> rd_groupRowCount rs
         then pgcolumnar_native_load_group E rel Q rs else Inr (True, rs)) = Inr (got, rs1)"
    using assms False by (auto simp: scan_iter_def res_bind_Inr)
  then have k: "rd_started rs1 = rd_started rs" using load_group_keeps_started by (auto split: if_splits)
  show ?thesis
  proof (cases "rd_skip rs1")
    case None
    then show ?thesis using assms False k scan_row_keeps_started[of E Q rs1 st] by (cases got) (auto simp: scan_iter_def l)
  next
    case (Some p)
    obtain skip starts b rs2 where p: "p = (skip, starts)" "pgcolumnar_native_skip_current_vector skip starts rs1 = (b, rs2)"
      by (metis surj_pair)
    have k2: "rd_started rs2 = rd_started rs1"
      using p(2) by (auto simp: pgcolumnar_native_skip_current_vector_def Let_def split: if_splits)
    show ?thesis using assms False k k2 Some p scan_row_keeps_started[of E Q rs2 st]
      by (cases got; cases b) (auto simp: scan_iter_def l)
  qed
qed

lemma scan_out_fetches:
  assumes "scan_out E rel Q rs out" "rd_started rs"
  shows "fetches (\<lambda>rs. pgcolumnar_native_next_row E rel Q (pgcolumnar_read_start rel rs)) rs out"
  using assms
proof (induction rule: scan_out.induct)
  case (finished rs rs')
  then have "pgcolumnar_native_next_row E rel Q (pgcolumnar_read_start rel rs) = Inr (None, rs')"
    by (simp add: pgcolumnar_read_start_def pgcolumnar_native_next_row.simps[of E rel Q rs])
  then show ?case by (rule fetches.none_left)
next
  case (again rs rs' out)
  have "rd_started rs'" using scan_iter_keeps_started[OF again.hyps(1)] again.prems by simp
  then have eq: "pgcolumnar_native_next_row E rel Q (pgcolumnar_read_start rel rs) = pgcolumnar_native_next_row E rel Q (pgcolumnar_read_start rel rs')"
    using again.hyps(1) again.prems by (simp add: pgcolumnar_read_start_def pgcolumnar_native_next_row.simps[of E rel Q rs])
  from again.IH[OF \<open>rd_started rs'\<close>] show ?case
    by (cases rule: fetchesE) (auto simp: eq intro: fetches.intros)
next
  case (emit rs n vals rs' out)
  have s: "rd_started rs'" using scan_iter_keeps_started[OF emit.hyps(1)] emit.prems by simp
  have "pgcolumnar_native_next_row E rel Q (pgcolumnar_read_start rel rs) = Inr (Some (n, vals), rs')"
    using emit.hyps(1) emit.prems by (simp add: pgcolumnar_read_start_def pgcolumnar_native_next_row.simps[of E rel Q rs])
  from fetches.one_more[where nxt = "\<lambda>rs. pgcolumnar_native_next_row E rel Q (pgcolumnar_read_start rel rs)", OF this emit.IH[OF s]] show ?case .
qed

lemma fetches_det: "fetches nxt rs out \<Longrightarrow> fetches nxt rs out' \<Longrightarrow> out = out'"
proof (induction arbitrary: out' rule: fetches.induct)
  case (none_left rs rs')
  from none_left.prems show ?case by (rule fetchesE) (use none_left.hyps in simp_all)
next
  case (one_more rs r rs' out)
  from one_more.prems obtain ys where "out' = r # ys" "fetches nxt rs' ys" by (rule fetchesE) (use one_more.hyps in auto)
  then show ?case using one_more.IH by simp
qed

subsection \<open>Properties\<close>

lemma fetches_started:
  assumes "\<not> rd_started rs" "\<not> rd_exhausted rs"
    and "fetches (\<lambda>rs. pgcolumnar_native_next_row E rel Q (pgcolumnar_read_start rel rs)) (pgcolumnar_read_start rel rs) out"
  shows "fetches (\<lambda>rs. pgcolumnar_native_next_row E rel Q (pgcolumnar_read_start rel rs)) rs out"
proof -
  have "pgcolumnar_read_start rel (pgcolumnar_read_start rel rs) = pgcolumnar_read_start rel rs"
    using assms(1,2) by (simp add: pgcolumnar_read_start_def)
  with assms(3) show ?thesis by (cases rule: fetchesE) (auto intro: fetches.intros)
qed

text \<open>One written row in a table of one eight-byte integer column, flushed to a group.\<close>

lemma flushed_chunk_length:
  assumes "column_flushed C ok att w res"
  shows "length (fres_chunk res) < 2 ^ 32 + (length (concat (cw_rows w)) + 7) div 8"
proof -
  let ?vb = "(length (concat (cw_rows w)) + 7) div 8"
  have vb: "length (concat (cw_rows w)) \<le> 8 * ?vb" by linarith
  obtain cols memo memo' where r: "column_ready C ok att (cw_def w) (cw_D w) (cw_B w) (cw_rows w)"
      "column_buffers (env_pg (cfg_env C)) att (cw_def w) (cw_rows w) cols"
      "flush_one_column C att False (cw_def w) cols (length (concat (cw_rows w))) ?vb memo = Inr (Some res, memo')"
    using assms unfolding column_flushed_def by blast
  have "chunk_layout ?vb cols res"
    by (rule column_flush[OF r(1,2) HOL.refl vb, where memo = memo and skp = "\<lambda>_. False"]) (use r(3) in auto)
  moreover have "pgcolumnar_chunk_validity_bytes (Some (fres_desc res)) ?vb \<le> ?vb" by (simp add: pgcolumnar_chunk_validity_bytes_def)
  ultimately show ?thesis unfolding chunk_layout_def by linarith
qed

definition int8_scan_env :: "nat \<Rightarrow> scan_env" where
  "int8_scan_env bpp = \<lparr>se_cenv = cfg_env plain_cfg, se_lib = cfg_lib plain_cfg, se_bpp = bpp, se_read_stream = True, se_enable_bloom = True,
     se_qual_min_payload = 1, se_junk = (\<lambda>n. replicate n 0)\<rparr>"

definition int8_read_state :: read_state where
  "int8_read_state = \<lparr>rd_td = [int8_col], rd_storageId = 7, rd_missing = [None], rd_wanted = [True], rd_allWanted = False,
     rd_prune = empty_prune_state, rd_restrict = None, rd_deadHorizon = None, rd_emitDeleted = False, rd_started = False,
     rd_exhausted = False, rd_groupList = [], rd_groupIndex = 0, rd_buffer = [], rd_group = None, rd_deleteMask = None,
     rd_deadMask = None, rd_cols = [], rd_skip = None, rd_vectorCount = 0, rd_curVec = 0, rd_rowInGroup = 0, rd_groupRowCount = 0,
     rd_lastRowDeleted = False, rd_groupsRead = 0, rd_groupsSkipped = 0, rd_rowsFilteredEarly = 0\<rparr>"

lemma int8_flushed_group:
  fixes v
  defines "gs \<equiv> [[[Some (ByVal v)]]] :: datum option list list list"
  obtains ws rel ws' rel' g res where
    "PgColumnarWriteRow (append_env 4) int8_write_state [Some (ByVal v)] (empty_rel 4 7) = Inr (1, ws, rel)"
    "pgcolumnar_flush_row_group (append_env 4) ws rel = Inr (ws', rel')"
    "rs_groups (rel_file rel') = [g]" "rg_firstRowNumber g = 1" "rg_storageId g = 7" "rel_deletes rel' = []"
    "group_stored 4 plain_cfg le_byval_ok (ws_tupdesc int8_write_state) [int8_def] (\<lambda>_. range ByVal) (\<lambda>_. {}) gs res g rel'"
proof -
  let ?F = "append_env 4" and ?row = "[Some (ByVal v)] :: datum option list"
  let ?f = "snd (snd (PgColumnarReserveRowNumbers 10 (PgColumnarWriteNewMetapage 4 7)))"
  let ?rel = "(empty_rel 4 7)\<lparr>rel_file := (rel_file (empty_rel 4 7))\<lparr>rs_fork := ?f\<rparr>\<rparr>"
  obtain ws1 where res: "reserve_stripe int8_write_state (empty_rel 4 7) = (ws1, ?rel)" "ws_stripeFirstRowNumber ws1 = 1"
    by (simp add: reserve_stripe_def int8_write_state_def empty_rel_def PgColumnarReserveRowNumbers_def PgColumnarWriteNewMetapage_def
        COLUMNAR_FIRST_ROW_NUMBER_def Let_def)
  have rows: "ws_rows_ok le_byval_ok (\<lambda>_. range ByVal) int8_write_state (concat [] @ [?row])" using int8_ws_ok(3)[of v] by simp
  obtain ws where ws: "ws_holds ws (append_row (ws_chunkGroupRowLimit int8_write_state) [] ?row)" "row_appended ws1 ws"
      "PgColumnarWriteRow ?F int8_write_state ?row (empty_rel 4 7) =
       res_bind (if length (concat ([] :: datum option list list list)) + 1 \<ge> ws_stripeRowLimit int8_write_state
           then flush_row_group ?F ws False ?rel else Inr (ws, ?rel))
         (\<lambda>(ws4, rel2). Inr (ws_stripeFirstRowNumber ws1 + length (concat ([] :: datum option list list list)), ws4, rel2))"
    by (rule write_row_holds[OF int8_ws_ok(1) rows int8_ws_ok(2) res(1)])
  have w: "PgColumnarWriteRow ?F int8_write_state ?row (empty_rel 4 7) = Inr (1, ws, ?rel)"
    using ws(3) res(2) by (simp add: int8_write_state_def)
  have h: "ws_holds ws gs" "gs \<noteq> []" using ws(1) by (simp_all add: gs_def append_row_def)
  have f: "ws_cfg ws = plain_cfg" "ws_tupdesc ws = ws_tupdesc int8_write_state" "ws_colDefs ws = [int8_def]" "ws_storageId ws = 7"
      "ws_stripeFirstRowNumber ws = 1"
    using ws(2) reserve_stripe_fields[OF res(1)] res(2) by (simp_all add: row_appended_def int8_write_state_def)
  have ready: "group_ready (ws_cfg ws) le_byval_ok (ws_tupdesc ws) (ws_colDefs ws) (\<lambda>_. range ByVal) (\<lambda>_. {}) gs"
    using int8_column_ready[of "[[Some (ByVal v)]]"] by (simp add: f group_ready_def int8_write_state_def gs_def)
  have inv: "reclaim_inv (fe_bpp ?F) (fe_precedes ?F) (fe_oldestXmin ?F) (rel_file ?rel) {} {}"
    using inv_meta[OF inv_start[of 4 "(<)" 0 7], of ?f]
    by (simp add: append_env_def empty_rel_def PgColumnarReserveRowNumbers_def Let_def)
  have base: "PgColumnarStorageId (rs_fork (rel_file ?rel)) = Inr 7"
    by (simp add: PgColumnarStorageId_def PgColumnarReadMetapage_def PgColumnarReserveRowNumbers_def PgColumnarWriteNewMetapage_def Let_def)
  have fresh: "group_number_fresh (ws_storageId ws) (ws_stripeId ws) ?rel" by (simp add: group_number_fresh_def empty_rel_def)
  have place: "\<exists>g f'. place_row_group (fe_bpp ?F) (fe_coalesce ?F) (fe_precedes ?F) (fe_oldestXmin ?F) (fe_mayReuse ?F)
        7 (group_row ws) (group_data crs) (rel_file ?rel) = Inr (g, f') \<and>
      rg_fileOffset g + length (group_data crs) \<le> (2 ^ 32 - 1) * fe_bpp ?F" if crs: "flush_columns ws = Inr crs" for crs
  proof -
    obtain crs' where c: "flush_columns ws = Inr crs'" "length crs' = ws_natts ws"
        "\<forall>c < ws_natts ws. col_result (ws_cfg ws) le_byval_ok (ws_tupdesc ws) (ws_colDefs ws) (\<lambda>_. range ByVal) (\<lambda>_. {}) gs c (fst (crs' ! c))"
      by (rule flush_columns_ok[OF h(1) ready])
    have "length crs = 1" "col_result (ws_cfg ws) le_byval_ok (ws_tupdesc ws) (ws_colDefs ws) (\<lambda>_. range ByVal) (\<lambda>_. {}) gs 0 (fst (crs ! 0))"
      using c crs f(2) by (simp_all add: int8_write_state_def)
    then obtain res x where r: "crs = [(Some res, x)]"
        "column_flushed plain_cfg le_byval_ok int8_att (written_col (ws_tupdesc ws) (ws_colDefs ws) (\<lambda>_. range ByVal) (\<lambda>_. {}) gs 0) res"
      by (cases crs) (auto simp: col_result_def f int8_write_state_def)
    have "length (fres_chunk res) < 2 ^ 32 + 1" using flushed_chunk_length[OF r(2)] by (simp add: written_col_def gs_def)
    then have len: "length (group_data crs) < 2 ^ 32 + 1" by (simp add: r(1) chunk_bytes_def)
    show ?thesis using len
      by (simp add: place_row_group_def append_env_def PgColumnarReserveOffset_def empty_rel_def PgColumnarReserveRowNumbers_def
          PgColumnarWriteNewMetapage_def COLUMNAR_FIRST_LOGICAL_OFFSET_def Let_def del: length_concat)
  qed
  obtain crs g rel' where fl: "flush_row_group ?F ws False ?rel =
       Inr (if False then ws\<lparr>ws_memos := map snd crs\<rparr> else reset_stripe (ws\<lparr>ws_memos := map snd crs\<rparr>), rel')"
    "rs_groups (rel_file rel') = rs_groups (rel_file ?rel) @ [g]" "rg_firstRowNumber g = ws_stripeFirstRowNumber ws"
    "rg_groupNumber g = ws_stripeId ws" "rg_storageId g = ws_storageId ws"
    "group_stored (fe_bpp ?F) (ws_cfg ws) le_byval_ok (ws_tupdesc ws) (ws_colDefs ws) (\<lambda>_. range ByVal) (\<lambda>_. {}) gs (map fst crs) g rel'"
    "rel_deletes rel' = rel_deletes ?rel"
    by (rule flush_row_group_stores[OF h ready inv base fresh place, where keep = False])
  show thesis
    by (rule that[OF w, of "reset_stripe (ws\<lparr>ws_memos := map snd crs\<rparr>)" rel' g "map fst crs"])
       (use fl f in \<open>simp_all add: pgcolumnar_flush_row_group_def empty_rel_def append_env_def\<close>)
qed

text \<open>
  C1: A sequential scan returns the right rows. Take any number of nonempty row groups as the
  writer stored them, any projection, pushed-down predicates whose constants fit the columns'
  comparisons, row filter, sorted group restriction and delete vectors, and columns added since.
  The columns the scan reads are of width 1, 2, 4 or 8
  or of variable length; a column of another width may be read where the writer chose no
  run-length vector for its chunk, because the decoder refuses those. Then fetching until no
  row is left ends without an error and returns the groups' rows in order: only rows that are visible and pass the filter,
  each with its number and the written value, missing value or null in every column; and every
  such row that satisfies the predicates is among them. Skipped groups and vectors, coalesced
  reads and the two decode passes never show.
\<close>

theorem scan_returns_rows:
  assumes groups: "PgColumnarReadRowGroupList (rd_storageId rs) rel = map sg_group sgs"
    and stored: "\<forall>sg \<in> set sgs. sg_ok E ok (rd_td rs) rel sg \<and> sg_readable (rd_td rs) (rd_wanted rs) sg \<and>
      preds_fit (rd_td rs) (sg_col sg) (take (numPredicates (rd_prune rs)) (predicates (rd_prune rs)))"
    and memory: "\<forall>n. length (se_junk E n) = n" and ord: "order_ok (rd_prune rs)"
    and sorted: "\<forall>r. rd_restrict rs = Some r \<longrightarrow> sorted r"
    and fresh: "\<not> rd_started rs" "\<not> rd_exhausted rs" "rd_group rs = None"
  shows "\<exists>outs. list_all2 (group_output E Q rel rs) sgs outs \<and>
    (\<forall>out. fetches (case Q of None \<Rightarrow> PgColumnarReadNextRow E rel | Some q \<Rightarrow> PgColumnarReadNextRowFiltered E rel q) rs out \<longleftrightarrow>
       out = concat outs)"
proof -
  let ?rs = "pgcolumnar_read_start rel rs"
  let ?nxt = "\<lambda>rs. pgcolumnar_native_next_row E rel Q (pgcolumnar_read_start rel rs)"
  have nxt: "(case Q of None \<Rightarrow> PgColumnarReadNextRow E rel | Some q \<Rightarrow> PgColumnarReadNextRowFiltered E rel q) = ?nxt"
    by (auto simp: fun_eq_iff PgColumnarReadNextRow_def PgColumnarReadNextRowFiltered_def split: option.split)
  have s: "?rs = rs\<lparr>rd_started := True, rd_groupList := map sg_group sgs, rd_groupIndex := 0\<rparr>"
    using fresh(1,2) groups by (simp add: pgcolumnar_read_start_def)
  have "rd_storageId rs = rg_storageId (sg_group sg)" if "sg \<in> set sgs" for sg
  proof -
    have "sg_group sg \<in> set (PgColumnarReadRowGroupList (rd_storageId rs) rel)" using that groups by simp
    then show ?thesis by (simp add: PgColumnarReadRowGroupList_def)
  qed
  then have ok: "\<forall>sg \<in> set sgs. sg_ok E ok (rd_td rs) rel sg \<and> sg_readable (rd_td rs) (rd_wanted rs) sg \<and> rd_storageId rs = rg_storageId (sg_group sg) \<and>
      preds_fit (rd_td rs) (sg_col sg) (take (numPredicates (rd_prune rs)) (predicates (rd_prune rs)))" using stored by blast
  have "between_groups ?rs (map sg_group sgs)" "same_scan rs ?rs" "order_ok (rd_prune ?rs)"
    using fresh(2,3) ord by (simp_all add: s between_groups_def same_scan_def same_preds_def)
  from scan_groups[OF ok memory sorted this] obtain outs where
    o: "scan_out E rel Q ?rs (concat outs)" "list_all2 (group_output E Q rel rs) sgs outs" by blast
  have "fetches ?nxt ?rs (concat outs)" by (rule scan_out_fetches[OF o(1)]) (simp add: s)
  then have "fetches ?nxt rs (concat outs)" by (rule fetches_started[OF fresh(1,2)])
  then show ?thesis unfolding nxt using o(2) fetches_det by blast
qed

theorem scan_returns_rows_witness:
  "\<exists>ws rel ws' rel'.
    PgColumnarWriteRow (append_env 4) int8_write_state [Some (ByVal 5)] (empty_rel 4 7) = Inr (1, ws, rel) \<and>
    pgcolumnar_flush_row_group (append_env 4) ws rel = Inr (ws', rel') \<and>
    fetches (PgColumnarReadNextRow (int8_scan_env 4) rel') int8_read_state [(1, [Some (ByVal 5)])]"
proof -
  let ?gs = "[[[Some (ByVal 5)]]] :: datum option list list list" and ?E = "int8_scan_env 4" and ?rs = int8_read_state
  obtain ws rel ws' rel' g res where w:
    "PgColumnarWriteRow (append_env 4) int8_write_state [Some (ByVal 5)] (empty_rel 4 7) = Inr (1, ws, rel)"
    "pgcolumnar_flush_row_group (append_env 4) ws rel = Inr (ws', rel')"
    "rs_groups (rel_file rel') = [g]" "rg_firstRowNumber g = 1" "rg_storageId g = 7" "rel_deletes rel' = []"
    "group_stored 4 plain_cfg le_byval_ok (ws_tupdesc int8_write_state) [int8_def] (\<lambda>_. range ByVal) (\<lambda>_. {}) ?gs res g rel'"
    by (rule int8_flushed_group[of 5])
  define sg where "sg = \<lparr>sg_group = g, sg_cfg = plain_cfg, sg_td = ws_tupdesc int8_write_state, sg_defs = [int8_def],
    sg_D = (\<lambda>_. range ByVal), sg_B = (\<lambda>_. {}), sg_rows = ?gs, sg_res = res\<rparr>"
  have n: "rg_rowCount g = 1" using w(7) by (simp add: group_stored_def)
  have groups: "PgColumnarReadRowGroupList (rd_storageId ?rs) rel' = map sg_group [sg]"
    using w(3,5) by (simp add: PgColumnarReadRowGroupList_def int8_read_state_def sg_def)
  have ok: "sg_ok ?E le_byval_ok (rd_td ?rs) rel' sg"
    using w(7) n int8_col_ok by (simp add: sg_ok_def sg_def int8_scan_env_def int8_read_state_def int8_col_def int8_write_state_def col_ok_def)
  have rd: "sg_readable (rd_td ?rs) (rd_wanted ?rs) sg"
    using sg_ok_column(2)[OF ok] by (force simp: sg_readable_def readable_chunk_def fixed_width_def int8_read_state_def int8_col_def int8_att_def)
  have np: "numPredicates (rd_prune ?rs) = 0" by (simp add: int8_read_state_def empty_prune_state_def)
  have "\<exists>outs. list_all2 (group_output ?E None rel' ?rs) [sg] outs \<and>
    (\<forall>out. fetches (case None of None \<Rightarrow> PgColumnarReadNextRow ?E rel' | Some q \<Rightarrow> PgColumnarReadNextRowFiltered ?E rel' q) ?rs out \<longleftrightarrow>
       out = concat outs)"
    by (rule scan_returns_rows[OF groups, where ok = le_byval_ok])
       (use ok rd np in \<open>simp_all add: preds_fit_def int8_scan_env_def int8_read_state_def order_ok_def empty_prune_state_def\<close>)
  then obtain out where out: "group_output ?E None rel' ?rs sg out" "fetches (PgColumnarReadNextRow ?E rel') ?rs out"
    by (auto simp: list_all2_Cons1)
  have cell: "cell_value ?E ?rs (sg_cells sg) 0 0 = Some (ByVal 5)"
    by (simp add: cell_value_def int8_read_state_def sg_cells_def sg_def int8_write_state_def flat_value_def int8_col_def int8_flat)
  have "in_restriction ?rs g \<and> row_visible None rel' ?rs g 0 \<and> row_passes ?E None ?rs (sg_cells sg) 0 \<and>
      row_fits (se_pg ?E) (rd_td ?rs) (sg_cells sg) (take (numPredicates (rd_prune ?rs)) (predicates (rd_prune ?rs))) 0"
    using w(6) np by (simp add: in_restriction_def row_visible_def marked_def PgColumnarReadDeleteVectorList_def row_passes_def row_fits_def int8_read_state_def)
  then have "out = [row_out ?E ?rs g (sg_cells sg) 0]" using out(1) n by (auto simp: group_output_def sg_def)
  then have "out = [(1, [Some (ByVal 5)])]" using w(4) cell by (simp add: row_out_def int8_read_state_def)
  then show ?thesis using w(1,2) out(2) by blast
qed

end
