(* ===== verification/Curve.thy ===== *)
theory Curve
  imports Columnar_Prelude
begin

unbundle bit_operations_syntax

section \<open>Space-filling curve keys\<close>

text \<open>
  \<open>src/src/columnar_curve.c\<close>: the Hilbert transpose of \<open>n\<close> 64-bit coordinates and the
  MSB-first interleaving that turns coordinates (Z-order) or a transpose (Hilbert) into a
  byte string. The coordinates are a list of words. The packed key is the big-endian
  number of the interleaved bits, byte order on keys is the order of those numbers, and
  neither curve maps two points to one key.
\<close>

subsection \<open>Definitions\<close>

definition hilbert_undo_step :: "u64 \<Rightarrow> nat \<Rightarrow> u64 list \<Rightarrow> u64 list" where
  "hilbert_undo_step Q i X =
     (let P = Q - 1
      in if X ! i AND Q \<noteq> 0 then X[0 := X ! 0 XOR P]
         else let t = (X ! 0 XOR X ! i) AND P; X' = X[0 := X ! 0 XOR t]
              in X'[i := X' ! i XOR t])"

definition hilbert_undo :: "nat \<Rightarrow> u64 list \<Rightarrow> u64 list" where
  "hilbert_undo ncols X =
     fold (\<lambda>q X. fold (hilbert_undo_step (push_bit q 1)) [0..<ncols] X) (rev [1..<64]) X"

definition hilbert_gray :: "nat \<Rightarrow> u64 list \<Rightarrow> u64 list" where
  "hilbert_gray ncols X = fold (\<lambda>i X. X[i := X ! i XOR X ! (i - 1)]) [1..<ncols] X"

definition hilbert_t :: "u64 \<Rightarrow> u64" where
  "hilbert_t x = fold (\<lambda>q t. if x AND push_bit q 1 \<noteq> 0 then t XOR (push_bit q 1 - 1) else t) (rev [1..<64]) 0"

definition cluster_hilbert_transpose :: "u64 list \<Rightarrow> u64 list" where
  "cluster_hilbert_transpose X =
     (let ncols = length X;
          Y = hilbert_gray ncols (hilbert_undo ncols X);
          t = hilbert_t (Y ! (ncols - 1))
      in fold (\<lambda>i Y. Y[i := Y ! i XOR t]) [0..<ncols] Y)"

definition cluster_pack_interleave :: "u64 list \<Rightarrow> byte list" where
  "cluster_pack_interleave ord =
     (let ncols = length ord
      in snd (fold (\<lambda>r st. fold (\<lambda>c (outbit, out).
                (outbit + 1,
                 if bit (ord ! c) r
                 then out[outbit div 8 := out ! (outbit div 8) OR drop_bit (outbit mod 8) 0x80]
                 else out)) [0..<ncols] st)
              (rev [0..<64]) (0, replicate (ncols * 8) 0)))"

subsection \<open>The packed key\<close>

text \<open>The bits in output order: round 63 of every coordinate first.\<close>

definition interleaved :: "u64 list \<Rightarrow> bool list" where
  "interleaved ord = concat (map (\<lambda>r. map (\<lambda>c. bit (ord ! c) r) [0..<length ord]) (rev [0..<64]))"

definition pack_bit :: "bool \<Rightarrow> nat \<times> byte list \<Rightarrow> nat \<times> byte list" where
  "pack_bit b st = (case st of (outbit, out) \<Rightarrow>
     (outbit + 1, if b then out[outbit div 8 := out ! (outbit div 8) OR drop_bit (outbit mod 8) 0x80] else out))"

lemma pack_as_fold:
  "cluster_pack_interleave ord = snd (fold pack_bit (interleaved ord) (0, replicate (length ord * 8) 0))"
proof -
  have "fold (\<lambda>c (outbit, out).
                (outbit + 1,
                 if bit (ord ! c) r
                 then out[outbit div 8 := out ! (outbit div 8) OR drop_bit (outbit mod 8) 0x80]
                 else out)) cs st = fold pack_bit (map (\<lambda>c. bit (ord ! c) r) cs) st" for r cs st
    by (induction cs arbitrary: st) (simp_all add: pack_bit_def split_beta)
  moreover have "fold (\<lambda>r. fold pack_bit (f r)) rs st = fold pack_bit (concat (map f rs)) st"
    for f :: "nat \<Rightarrow> bool list" and rs st
    by (induction rs arbitrary: st) simp_all
  ultimately show ?thesis by (simp add: cluster_pack_interleave_def interleaved_def Let_def)
qed

text \<open>Bit \<open>p\<close> of a byte string counted from the most significant end.\<close>

definition msb_bit :: "byte list \<Rightarrow> nat \<Rightarrow> bool" where
  "msb_bit bs p \<longleftrightarrow> p div 8 < length bs \<and> bit (bs ! (p div 8)) (7 - p mod 8)"

lemma msb_bit_zeros [simp]: "\<not> msb_bit (replicate n 0) p"
  by (simp add: msb_bit_def)

lemma bit_2_7: "bit (2 ^ 7 :: byte) i \<longleftrightarrow> i = 7"
  unfolding bit_exp_iff by auto

lemma bit_80: "bit (drop_bit k 0x80 :: byte) j \<longleftrightarrow> k \<le> 7 \<and> j = 7 - k"
  using bit_2_7[of "k + j"] by (auto simp: bit_drop_bit_eq)

lemma pack_bit_msb:
  assumes "outbit < 8 * length out"
  obtains out' where "pack_bit b (outbit, out) = (outbit + 1, out')" "length out' = length out"
    "\<And>p. msb_bit out' p \<longleftrightarrow> msb_bit out p \<or> b \<and> p = outbit"
proof -
  define out' where "out' = (if b then out[outbit div 8 := out ! (outbit div 8) OR drop_bit (outbit mod 8) 0x80] else out)"
  have lt: "outbit div 8 < length out" using assms by (simp add: less_mult_imp_div_less mult.commute)
  have "msb_bit out' p \<longleftrightarrow> msb_bit out p \<or> b \<and> p = outbit" for p
  proof (cases "p div 8 = outbit div 8")
    case True
    then have "p = outbit \<longleftrightarrow> p mod 8 = outbit mod 8" by (metis mult_div_mod_eq)
    moreover have "7 - p mod 8 = 7 - outbit mod 8 \<longleftrightarrow> p mod 8 = outbit mod 8"
      using mod_less_divisor[of 8 p] mod_less_divisor[of 8 outbit] by linarith
    ultimately show ?thesis
      using lt True by (auto simp: out'_def msb_bit_def bit_or_iff bit_80 less_Suc_eq_le[symmetric])
  qed (use lt in \<open>auto simp: out'_def msb_bit_def\<close>)
  then show thesis by (intro that[of out']) (simp_all add: out'_def pack_bit_def)
qed

lemma pack_fold_msb:
  assumes "outbit + length bs \<le> 8 * length out"
  shows "\<exists>out'. fold pack_bit bs (outbit, out) = (outbit + length bs, out') \<and> length out' = length out \<and>
    (\<forall>p. msb_bit out' p \<longleftrightarrow> msb_bit out p \<or> outbit \<le> p \<and> p < outbit + length bs \<and> bs ! (p - outbit))"
  using assms
proof (induction bs arbitrary: outbit out)
  case (Cons b bs)
  have "outbit < 8 * length out" using Cons.prems by simp
  then obtain o1 where o1: "pack_bit b (outbit, out) = (outbit + 1, o1)" "length o1 = length out"
      "\<And>p. msb_bit o1 p \<longleftrightarrow> msb_bit out p \<or> b \<and> p = outbit"
    by (rule pack_bit_msb[where b = b]) blast
  have "outbit + 1 + length bs \<le> 8 * length o1" using Cons.prems o1(2) by simp
  from Cons.IH[OF this] obtain o2 where
    o2: "fold pack_bit bs (outbit + 1, o1) = (outbit + 1 + length bs, o2)" "length o2 = length o1"
      "\<And>p. msb_bit o2 p \<longleftrightarrow> msb_bit o1 p \<or> outbit + 1 \<le> p \<and> p < outbit + 1 + length bs \<and> bs ! (p - (outbit + 1))"
    by blast
  have "msb_bit o2 p \<longleftrightarrow> msb_bit out p \<or> outbit \<le> p \<and> p < outbit + length (b # bs) \<and> (b # bs) ! (p - outbit)" for p
    unfolding o2(3) o1(3) by (cases "p = outbit") (auto simp: nth_Cons' Suc_le_eq)
  with o1 o2 show ?case by (intro exI[of _ o2]) simp
qed auto

lemma length_interleaved [simp]: "length (interleaved ord) = 64 * length ord"
proof -
  have "length (interleaved ord) = length (rev [0..<64]) * length ord"
    unfolding interleaved_def by (rule length_concat_const) simp
  then show ?thesis by simp
qed

lemma pack_interleave_bits:
  shows "length (cluster_pack_interleave ord) = 8 * length ord"
    and "msb_bit (cluster_pack_interleave ord) p \<longleftrightarrow> p < 64 * length ord \<and> interleaved ord ! p"
proof -
  obtain out where "fold pack_bit (interleaved ord) (0, replicate (length ord * 8) 0) = (64 * length ord, out)"
      "length out = 8 * length ord" "\<And>p. msb_bit out p \<longleftrightarrow> p < 64 * length ord \<and> interleaved ord ! p"
    using pack_fold_msb[of 0 "interleaved ord" "replicate (length ord * 8) 0"]
    by auto
  then show "length (cluster_pack_interleave ord) = 8 * length ord"
      "msb_bit (cluster_pack_interleave ord) p \<longleftrightarrow> p < 64 * length ord \<and> interleaved ord ! p"
    by (simp_all add: pack_as_fold)
qed

lemma nth_interleaved:
  assumes "c < n" "r < 64" "length ord = n"
  shows "interleaved ord ! ((63 - r) * n + c) = bit (ord ! c) r"
proof -
  have nth: "concat (map (\<lambda>r. map (\<lambda>c. f r c) [0..<n]) rs) ! (i * n + c) = f (rs ! i) c"
    if "i < length rs" for f :: "nat \<Rightarrow> nat \<Rightarrow> bool" and rs :: "nat list" and i
    using that assms(1)
  proof (induction rs arbitrary: i)
    case (Cons r rs)
    then show ?case by (cases i) (auto simp: nth_append add.assoc)
  qed simp
  from nth[of "63 - r" "rev [0..<64]" "\<lambda>r c. bit (ord ! c) r"] assms(2,3) show ?thesis
    by (simp add: interleaved_def rev_nth del: upt_rec_numeral)
qed

lemma pack_interleave_inj:
  assumes "length a = length b" and "cluster_pack_interleave a = cluster_pack_interleave b"
  shows "a = b"
proof (rule list_eq_nthI[OF assms(1)])
  fix c assume c: "c < length a"
  show "a ! c = b ! c"
  proof (rule bit_word_eqI)
    fix r assume r: "r < LENGTH(64)"
    let ?p = "(63 - r) * length a + c"
    have "(63 - r) * length a + c < (63 - r + 1) * length a" using c by simp
    also have "\<dots> \<le> 64 * length a" by (intro mult_le_mono1) simp
    finally have p: "?p < 64 * length a" .
    have "interleaved a ! ?p = interleaved b ! ?p"
      using pack_interleave_bits(2)[of a ?p] pack_interleave_bits(2)[of b ?p] p assms by simp
    then show "bit (a ! c) r = bit (b ! c) r"
      using nth_interleaved[of c "length a" r] c r assms(1) by simp
  qed
qed

text \<open>Keys of one length compare, byte by byte from the first, as the numbers they spell.\<close>

fun be_value :: "byte list \<Rightarrow> nat" where
  "be_value [] = 0"
| "be_value (b # bs) = unat b * 256 ^ length bs + be_value bs"

fun memcmp_less :: "byte list \<Rightarrow> byte list \<Rightarrow> bool" where
  "memcmp_less (x # xs) (y # ys) \<longleftrightarrow> x < y \<or> x = y \<and> memcmp_less xs ys"
| "memcmp_less xs ys \<longleftrightarrow> False"

lemma be_value_bound: "be_value bs < 256 ^ length bs"
proof (induction bs)
  case (Cons b bs)
  have "unat b < 256" using unsigned_less[of b] by simp
  then have "unat b * 256 ^ length bs + be_value bs < (unat b + 1) * 256 ^ length bs" using Cons by simp
  also have "\<dots> \<le> 256 * 256 ^ length bs" using \<open>unat b < 256\<close> by (intro mult_le_mono1) simp
  finally show ?case by simp
qed simp

lemma memcmp_less_value:
  "length xs = length ys \<Longrightarrow> memcmp_less xs ys \<longleftrightarrow> be_value xs < be_value ys"
proof (induction xs ys rule: memcmp_less.induct)
  case (1 x xs y ys)
  let ?k = "256 ^ length ys :: nat"
  have len: "length xs = length ys" using 1 by simp
  have b: "be_value xs < ?k" "be_value ys < ?k" using be_value_bound[of xs] be_value_bound[of ys] len by simp_all
  have lt: "i * ?k + u < j * ?k + v" if "i < j" "u < ?k" for i j u v
  proof -
    have "i * ?k + u < (i + 1) * ?k" using that(2) by simp
    also have "\<dots> \<le> j * ?k" using that(1) by (intro mult_le_mono1) simp
    finally show ?thesis by simp
  qed
  consider "x < y" | "x = y" | "y < x" by fastforce
  then show ?case
  proof cases
    case 1
    then show ?thesis using lt[of "unat x" "unat y"] b len by (simp add: word_less_nat_alt)
  next
    case 2
    then show ?thesis using "1.IH" len by simp
  next
    case 3
    then have "\<not> be_value (x # xs) < be_value (y # ys)"
      using lt[of "unat y" "unat x" "be_value ys" "be_value xs"] b len by (simp add: word_less_nat_alt)
    with 3 show ?thesis by (auto dest: order.asym)
  qed
qed auto

text \<open>The number the interleaved bits spell, most significant first.\<close>

primrec bits_value :: "bool list \<Rightarrow> nat" where
  "bits_value [] = 0"
| "bits_value (b # bs) = of_bool b * 2 ^ length bs + bits_value bs"

lemma bits_value_append: "bits_value (xs @ ys) = bits_value xs * 2 ^ length ys + bits_value ys"
  by (induction xs) (simp_all add: algebra_simps power_add)

lemma bits_value_rev_upt: "bits_value (rev (map (bit n) [0..<k])) = take_bit k (n :: nat)"
  by (induction k) (simp_all add: take_bit_Suc_from_most)

lemma bits_value_byte: "bits_value (map (\<lambda>k. bit b (7 - k)) [0..<8]) = unat (b :: byte)"
proof -
  have "map (\<lambda>k. bit b (7 - k)) [0..<8] = rev (map (bit (unat b)) [0..<8])"
    by (rule list_eq_nthI) (auto simp: rev_nth bit_unsigned_iff dest: bit_imp_le_length)
  moreover have "unat b < 2 ^ 8" using unsigned_less[of b, where 'a = nat] by simp
  ultimately show ?thesis by (simp only: bits_value_rev_upt take_bit_nat_eq_self)
qed

definition msb_bits :: "byte list \<Rightarrow> bool list" where
  "msb_bits bs = map (msb_bit bs) [0..<8 * length bs]"

lemma msb_bits_Cons: "msb_bits (b # bs) = map (\<lambda>k. bit b (7 - k)) [0..<8] @ msb_bits bs"
proof (rule list_eq_nthI)
  fix p assume p: "p < length (msb_bits (b # bs))"
  show "msb_bits (b # bs) ! p = (map (\<lambda>k. bit b (7 - k)) [0..<8] @ msb_bits bs) ! p"
  proof (cases "p < 8")
    case True
    with p show ?thesis by (simp add: msb_bits_def msb_bit_def nth_append)
  next
    case False
    then have "p div 8 = Suc ((p - 8) div 8)" "p mod 8 = (p - 8) mod 8" by (simp_all add: div_if mod_if)
    with False p show ?thesis by (auto simp: msb_bits_def msb_bit_def nth_append)
  qed
qed (simp add: msb_bits_def)

lemma be_value_msb_bits: "be_value bs = bits_value (msb_bits bs)"
proof (induction bs)
  case (Cons b bs)
  have "(256::nat) ^ length bs = 2 ^ (8 * length bs)" by (simp add: power_mult)
  with Cons show ?case by (simp add: msb_bits_Cons bits_value_append bits_value_byte) (simp add: msb_bits_def)
qed (simp add: msb_bits_def)

lemma pack_value: "be_value (cluster_pack_interleave ord) = bits_value (interleaved ord)"
proof -
  have "msb_bits (cluster_pack_interleave ord) = interleaved ord"
    by (rule list_eq_nthI) (simp_all add: msb_bits_def pack_interleave_bits)
  then show ?thesis by (simp add: be_value_msb_bits)
qed

subsection \<open>The Hilbert transpose loses nothing\<close>

lemma pow2_minus_1: "push_bit q 1 - 1 = (mask q :: u64)"
  by (simp add: mask_eq_exp_minus_1 push_bit_eq_mult)

lemma and_pow2: "(x :: u64) AND push_bit q 1 \<noteq> 0 \<longleftrightarrow> bit x q"
proof
  assume "x AND push_bit q 1 \<noteq> 0"
  then obtain i where "bit (x AND push_bit q 1) i" by (auto simp: bit_eq_iff)
  then show "bit x q" by (auto simp: bit_simps)
next
  assume b: "bit x q"
  then have "q < 64" using bit_imp_le_length[of x q] by simp
  with b have "bit (x AND push_bit q 1) q" by (simp add: bit_simps)
  then show "x AND push_bit q 1 \<noteq> 0" by auto
qed

lemma hilbert_undo_step_self_inverse:
  assumes "i < length X"
  shows "hilbert_undo_step (push_bit q 1) i (hilbert_undo_step (push_bit q 1) i X) = X"
proof -
  have x2: "(a XOR t) XOR t = a" for a t :: u64 by (auto simp: bit_eq_iff bit_xor_iff)
  have xm: "bit (a XOR mask q) q = bit a q" for a :: u64 by (auto simp: bit_simps)
  have xa: "bit (a XOR (c AND mask q)) q = bit a q" for a c :: u64 by (auto simp: bit_simps)
  have tt: "((a XOR t) XOR (b XOR t)) = a XOR b" for a b t :: u64 by (auto simp: bit_eq_iff bit_xor_iff)
  have len: "0 < length X" using assms by auto
  have step: "hilbert_undo_step (push_bit q 1) i Y =
      (if bit (Y ! i) q then Y[0 := Y ! 0 XOR mask q]
       else let t = (Y ! 0 XOR Y ! i) AND mask q; Y' = Y[0 := Y ! 0 XOR t] in Y'[i := Y' ! i XOR t])" for Y
    unfolding hilbert_undo_step_def Let_def and_pow2 pow2_minus_1 ..
  show ?thesis
  proof (cases "i = 0")
    case True
    then show ?thesis using len unfolding step by (simp add: Let_def xm x2)
  next
    case False
    show ?thesis
    proof (cases "bit (X ! i) q")
      case True
      with False len assms show ?thesis unfolding step by (simp add: Let_def x2)
    next
      case nb: False
      let ?t = "(X ! 0 XOR X ! i) AND mask q"
      have s1: "hilbert_undo_step (push_bit q 1) i X = X[0 := X ! 0 XOR ?t, i := X ! i XOR ?t]"
        unfolding step using False nb by (simp add: Let_def)
      have "((X ! 0 XOR ?t) XOR (X ! i XOR ?t)) AND mask q = ?t" unfolding tt ..
      then show ?thesis unfolding s1 step using False nb assms len
        by (simp add: Let_def xa x2 list_update_swap[of 0 i])
    qed
  qed
qed

lemma length_hilbert_undo_step [simp]: "length (hilbert_undo_step Q i X) = length X"
  by (simp add: hilbert_undo_step_def Let_def)

text \<open>A fold of steps that are injective on lists of one length is injective on them.\<close>

lemma fold_inj_on_length:
  assumes "\<And>i X. i \<in> set is \<Longrightarrow> length X = n \<Longrightarrow> length (f i X) = n"
    and "\<And>i X Y. i \<in> set is \<Longrightarrow> length X = n \<Longrightarrow> length Y = n \<Longrightarrow> f i X = f i Y \<Longrightarrow> X = Y"
    and "length X = n" "length Y = n" "fold f is X = fold f is Y"
  shows "X = Y"
  using assms
proof (induction "is" arbitrary: X Y)
  case (Cons i "is")
  have "f i X = f i Y"
  proof (rule Cons.IH)
    show "length (f i X) = n" "length (f i Y) = n" using Cons.prems(1,3,4) by simp_all
    show "fold f is (f i X) = fold f is (f i Y)" using Cons.prems(5) by simp
    show "\<And>i X Y. i \<in> set is \<Longrightarrow> length X = n \<Longrightarrow> length Y = n \<Longrightarrow> f i X = f i Y \<Longrightarrow> X = Y"
      by (rule Cons.prems(2)) simp_all
  qed (use Cons.prems(1) in simp)
  then show ?case using Cons.prems(2)[of i X Y] Cons.prems(3,4) by simp
qed simp

lemma fold_length:
  "(\<And>i X. i \<in> set is \<Longrightarrow> length X = n \<Longrightarrow> length (f i X) = n) \<Longrightarrow> length X = n \<Longrightarrow> length (fold f is X) = n"
  by (induction "is" arbitrary: X) auto

lemma hilbert_undo_inj:
  assumes "length X = n" "length Y = n" "hilbert_undo n X = hilbert_undo n Y"
  shows "X = Y"
proof (rule fold_inj_on_length[OF _ _ assms(1,2) assms(3)[unfolded hilbert_undo_def]])
  fix q :: nat and A B :: "u64 list"
  show "length A = n \<Longrightarrow> length (fold (hilbert_undo_step (push_bit q 1)) [0..<n] A) = n"
    by (rule fold_length) simp_all
  assume AB: "length A = n" "length B = n"
    "fold (hilbert_undo_step (push_bit q 1)) [0..<n] A = fold (hilbert_undo_step (push_bit q 1)) [0..<n] B"
  show "A = B"
  proof (rule fold_inj_on_length[OF _ _ AB])
    fix i C D assume "i \<in> set [0..<n]" "length C = n" "length D = n"
      "hilbert_undo_step (push_bit q 1) i C = hilbert_undo_step (push_bit q 1) i D"
    then show "C = D" by (metis atLeastLessThan_iff hilbert_undo_step_self_inverse set_upt)
  qed simp
qed

lemma length_hilbert_undo: "length X = n \<Longrightarrow> length (hilbert_undo n X) = n"
  unfolding hilbert_undo_def by (rule fold_length) (auto intro: fold_length)

lemma xor_cancel: "(a :: u64) XOR c = b XOR c \<Longrightarrow> a = b"
  by (auto simp: bit_eq_iff bit_xor_iff)

lemma hilbert_gray_inj:
  assumes "length X = n" "length Y = n" "hilbert_gray n X = hilbert_gray n Y"
  shows "X = Y"
proof (rule fold_inj_on_length[OF _ _ assms(1,2) assms(3)[unfolded hilbert_gray_def]])
  fix i and A B :: "u64 list"
  assume i: "i \<in> set [1..<n]" and len: "length A = n" "length B = n"
    and eq: "A[i := A ! i XOR A ! (i - 1)] = B[i := B ! i XOR B ! (i - 1)]"
  show "A = B"
  proof (rule list_eq_nthI)
    fix j assume j: "j < length A"
    have other: "A ! k = B ! k" if "k \<noteq> i" "k < n" for k
      using arg_cong[OF eq, of "\<lambda>l. l ! k"] that len by simp
    have "A ! i XOR A ! (i - 1) = B ! i XOR B ! (i - 1)"
      using arg_cong[OF eq, of "\<lambda>l. l ! i"] i len by simp
    moreover have "A ! (i - 1) = B ! (i - 1)" using i by (intro other) auto
    ultimately show "A ! j = B ! j" using other j len xor_cancel by (cases "j = i") auto
  qed (simp add: len)
qed simp

lemma length_hilbert_gray: "length X = n \<Longrightarrow> length (hilbert_gray n X) = n"
  unfolding hilbert_gray_def by (rule fold_length) simp_all

text \<open>
  The last step in one word: a pass of Gray decoding (\<open>gray_undo\<close>) undoes the exclusive or
  with \<open>hilbert_t\<close>, and is undone by it.
\<close>

definition gray_undo :: "nat \<Rightarrow> u64 \<Rightarrow> u64" where
  "gray_undo q x = (if bit x q then x XOR mask q else x)"

primrec gray_t :: "nat list \<Rightarrow> u64 \<Rightarrow> u64" where
  "gray_t [] x = 0"
| "gray_t (q # qs) x = (if bit x q then mask q else 0) XOR gray_t qs x"

lemma hilbert_t_eq: "hilbert_t x = gray_t (rev [1..<64]) x"
proof -
  have "fold (\<lambda>q t. if bit x q then t XOR mask q else t) qs t = t XOR gray_t qs x" for qs t
    by (induction qs arbitrary: t) (simp_all add: xor.assoc)
  then show ?thesis unfolding hilbert_t_def and_pow2 pow2_minus_1 by simp
qed

lemma bit_gray_t: "\<forall>q\<in>set qs. q \<le> n \<Longrightarrow> \<not> bit (gray_t qs x) n"
  by (induction qs) (auto simp: bit_simps)

lemma gray_undo_xor_t:
  "sorted_wrt (>) qs \<Longrightarrow> fold gray_undo qs (y XOR gray_t qs y) = y"
proof (induction qs)
  case (Cons q qs)
  let ?z = "y XOR gray_t qs y" and ?m = "if bit y q then mask q else (0 :: u64)"
  have "\<not> bit (gray_t qs y) q" using Cons.prems by (intro bit_gray_t) auto
  then have "bit (?z XOR ?m) q = bit y q" by (auto simp: bit_simps)
  then have "gray_undo q (?z XOR ?m) = ?z"
    by (auto simp: gray_undo_def bit_eq_iff bit_xor_iff)
  moreover have "y XOR gray_t (q # qs) y = ?z XOR ?m" by (simp add: xor.commute xor.left_commute)
  ultimately have "fold gray_undo (q # qs) (y XOR gray_t (q # qs) y) = fold gray_undo qs ?z"
    by (simp only: fold_simps)
  then show ?case using Cons by simp
qed simp

lemma gray_undo_self_inverse [simp]: "gray_undo q (gray_undo q x) = x"
  by (auto simp: gray_undo_def bit_eq_iff bit_xor_iff bit_mask_iff)

lemma fold_gray_undo_inj: "fold gray_undo qs x = fold gray_undo qs y \<Longrightarrow> x = y"
  by (induction qs arbitrary: x y) (simp, metis fold_simps(2) gray_undo_self_inverse)

lemma rounds_sorted: "sorted_wrt (>) (rev [1..<64::nat])"
  by (simp add: sorted_wrt_rev del: upt_rec_numeral)

lemma xor_hilbert_t_inj:
  assumes "x XOR hilbert_t x = y XOR hilbert_t y" shows "x = y"
  using assms gray_undo_xor_t[OF rounds_sorted] unfolding hilbert_t_eq by metis

lemma fold_update_all:
  "n \<le> length Y \<Longrightarrow> fold (\<lambda>i Y. Y[i := f (Y ! i)]) [0..<n] Y = map f (take n Y) @ drop n Y"
proof (induction n)
  case (Suc n)
  then have "(map f (take n Y) @ drop n Y) ! n = Y ! n" by (simp add: nth_append)
  moreover have "take (Suc n) Y = take n Y @ [Y ! n]" "drop n Y = Y ! n # drop (Suc n) Y"
    using Suc.prems by (simp_all add: take_Suc_conv_app_nth Cons_nth_drop_Suc)
  ultimately show ?case using Suc by (simp add: list_update_append)
qed simp

lemma hilbert_transpose_eq:
  "cluster_hilbert_transpose X =
     (let Y = hilbert_gray (length X) (hilbert_undo (length X) X)
      in map (\<lambda>y. y XOR hilbert_t (last Y)) Y)" if "X \<noteq> []"
proof -
  let ?Y = "hilbert_gray (length X) (hilbert_undo (length X) X)"
  have l: "length ?Y = length X" by (simp add: length_hilbert_gray length_hilbert_undo)
  then have "?Y \<noteq> []" using that by auto
  then have "?Y ! (length X - 1) = last ?Y" using l by (simp add: last_conv_nth)
  then show ?thesis
    using l fold_update_all[of "length X" ?Y "\<lambda>y. y XOR hilbert_t (last ?Y)"]
    by (simp add: cluster_hilbert_transpose_def Let_def)
qed

lemma hilbert_transpose_inj:
  assumes len: "length X = length Y" and eq: "cluster_hilbert_transpose X = cluster_hilbert_transpose Y"
  shows "X = Y"
proof (cases "X = []")
  case False
  define A where "A = hilbert_gray (length X) (hilbert_undo (length X) X)"
  define B where "B = hilbert_gray (length X) (hilbert_undo (length X) Y)"
  have lA: "length A = length X" and lB: "length B = length X"
    using len by (simp_all add: A_def B_def length_hilbert_gray length_hilbert_undo)
  have ne: "A \<noteq> []" "B \<noteq> []" "Y \<noteq> []" using False lA lB len by auto
  have e: "map (\<lambda>y. y XOR hilbert_t (last A)) A = map (\<lambda>y. y XOR hilbert_t (last B)) B"
    using eq hilbert_transpose_eq[OF False] hilbert_transpose_eq[OF ne(3)] len
    by (simp add: A_def B_def Let_def)
  then have "last A XOR hilbert_t (last A) = last B XOR hilbert_t (last B)"
    using ne by (metis last_map)
  then have "last A = last B" by (rule xor_hilbert_t_inj)
  with e have "map (\<lambda>y. y XOR hilbert_t (last A)) A = map (\<lambda>y. y XOR hilbert_t (last A)) B" by simp
  then have "A = B" by (rule map_injective) (simp add: inj_on_def xor_cancel)
  then have "hilbert_undo (length X) X = hilbert_undo (length X) Y"
    unfolding A_def B_def
    by (rule hilbert_gray_inj[OF length_hilbert_undo[OF refl] length_hilbert_undo[OF len[symmetric]]])
  then show ?thesis by (rule hilbert_undo_inj[OF refl len[symmetric]])
qed (use len in simp)

lemma hilbert_undo_one: "hilbert_undo 1 [x] = [fold gray_undo (rev [1..<64]) x]"
proof -
  have step: "hilbert_undo_step (push_bit q 1) 0 [x] = [gray_undo q x]" for q x
    unfolding hilbert_undo_step_def Let_def and_pow2 pow2_minus_1 gray_undo_def by simp
  have "fold (\<lambda>q X. fold (hilbert_undo_step (push_bit q 1)) [0..<1] X) qs [x] = [fold gray_undo qs x]" for qs x
    by (induction qs arbitrary: x) (simp_all add: step del: push_bit_of_1)
  then show ?thesis unfolding hilbert_undo_def .
qed

lemma gray_undo_hilbert_t: "fold gray_undo (rev [1..<64]) (y XOR hilbert_t y) = y"
  unfolding hilbert_t_eq by (rule gray_undo_xor_t[OF rounds_sorted])

lemma hilbert_one_column: "cluster_hilbert_transpose [x] = [x]"
proof -
  let ?y = "fold gray_undo (rev [1..<64]) x"
  have "?y XOR hilbert_t ?y = x" by (rule fold_gray_undo_inj[OF gray_undo_hilbert_t])
  then show ?thesis
    using hilbert_transpose_eq[of "[x]"] hilbert_undo_one[of x] by (simp add: Let_def hilbert_gray_def)
qed

lemma length_hilbert_transpose: "length (cluster_hilbert_transpose X) = length X"
proof (cases "X = []")
  case False
  then show ?thesis
    by (simp add: hilbert_transpose_eq Let_def length_hilbert_gray length_hilbert_undo)
qed (simp add: cluster_hilbert_transpose_def hilbert_gray_def length_hilbert_undo)

lemma gray_t_zero: "\<forall>q\<in>set qs. \<not> bit x q \<Longrightarrow> gray_t qs x = 0"
  by (induction qs) simp_all

lemma gray_t_append: "gray_t (xs @ ys) x = gray_t xs x XOR gray_t ys x"
  by (induction xs) (simp_all add: xor.assoc)

lemma hilbert_t_example: "hilbert_t (hd (hilbert_undo 1 [2])) = 1"
proof -
  have three: "bit (3 :: u64) q \<longleftrightarrow> q < 2" for q
    using bit_mask_iff[of 2 q, where 'a = u64] by (auto simp: mask_eq_exp_minus_1)
  have "rev [1..<64] = rev [2..<64] @ [1::nat]"
    by (simp add: upt_conv_Cons[of 1 64, simplified] numeral_2_eq_2 del: upt_rec_numeral upt_Suc)
  then have "hilbert_t 3 = gray_t (rev [2..<64]) 3 XOR gray_t [1] 3"
    by (simp only: hilbert_t_eq gray_t_append)
  also have "\<dots> = 1" by (simp add: gray_t_zero three)
  finally have t: "hilbert_t 3 = 1" .
  have "fold gray_undo (rev [1..<64]) 2 = 3" using gray_undo_hilbert_t[of 3] by (simp add: t)
  then show ?thesis using t by (simp only: hilbert_undo_one list.sel)
qed

subsection \<open>Properties\<close>

text \<open>
  C38: A curve key is the number its interleaved bits spell, and keys compare as numbers: the
  packed key of \<open>n\<close> coordinates has exactly \<open>8 * n\<close> bytes with no padding, its big-endian
  value is the value of the bits taken round by round from bit 63, and comparing two keys
  byte by byte orders them by that value.
\<close>

theorem curve_key_order:
  assumes "length a = length b"
  shows "length (cluster_pack_interleave a) = 8 * length a \<and>
    be_value (cluster_pack_interleave a) = bits_value (interleaved a) \<and>
    (memcmp_less (cluster_pack_interleave a) (cluster_pack_interleave b) \<longleftrightarrow>
      bits_value (interleaved a) < bits_value (interleaved b))"
proof -
  have "length (cluster_pack_interleave a) = length (cluster_pack_interleave b)"
    using assms by (simp add: pack_interleave_bits(1))
  from memcmp_less_value[OF this] show ?thesis by (simp add: pack_value pack_interleave_bits(1))
qed

theorem curve_key_order_witness:
  "length (cluster_pack_interleave [1, 2]) = 16 \<and>
   be_value (cluster_pack_interleave [1, 2]) = bits_value (interleaved [1, 2])"
  using curve_key_order[of "[1, 2]" "[3, 4]"] by simp

text \<open>
  C39: Neither curve maps two points to one key: the Z-order key and the Hilbert key of
  points with the same number of coordinates are equal only for equal points.
\<close>

theorem curve_keys_injective:
  assumes "length X = length Y"
  shows "(cluster_pack_interleave X = cluster_pack_interleave Y \<longleftrightarrow> X = Y) \<and>
    (cluster_pack_interleave (cluster_hilbert_transpose X) =
       cluster_pack_interleave (cluster_hilbert_transpose Y) \<longleftrightarrow> X = Y)"
  using pack_interleave_inj[OF assms] hilbert_transpose_inj[OF assms]
    pack_interleave_inj[of "cluster_hilbert_transpose X" "cluster_hilbert_transpose Y"]
    length_hilbert_transpose[of X] length_hilbert_transpose[of Y] assms by auto

theorem curve_keys_injective_witness:
  "cluster_pack_interleave (cluster_hilbert_transpose [1, 2]) \<noteq>
   cluster_pack_interleave (cluster_hilbert_transpose [2, 1])"
  using curve_keys_injective[of "[1, 2]" "[2, 1]"] by simp

text \<open>
  C40: With one clustering column the Hilbert transpose is the identity, so the key is the
  plain big-endian ordinal. The intermediate \<open>t\<close> is not zero, as the comment on the
  routine has it: the last exclusive or undoes what the first loop did.
\<close>

theorem hilbert_one_column_identity:
  "cluster_hilbert_transpose [x] = [x] \<and> hilbert_t (hd (hilbert_undo 1 [2])) = 1"
  using hilbert_one_column[of x] hilbert_t_example by simp

end
