(* ===== verification/Kept_Registry.thy ===== *)
theory Kept_Registry
  imports Columnar_Prelude
begin

section \<open>Buffers kept across subtransactions\<close>

text \<open>
  The discipline that the write states of \<open>src/src/columnar_write_state.c\<close> and the delete
  buffers of \<open>src/src/columnar_delete_vector.c\<close> share. A buffer belongs to the subtransaction
  that filled it; a read in a deeper one writes it out and keeps it, noting under which
  subtransaction the catalog rows went, until that one commits or aborts. The locale
  \<open>kept_registry\<close> states the operations on a buffer and what they keep, over any commutative
  monoid of contents, and proves once that beginning, committing and aborting a
  subtransaction and flushing never lose or repeat contents: at every level the catalog
  together with the buffers not yet written at that level holds the contents of the frames.
\<close>

locale kept_registry = comm_monoid join empty for join :: "'c \<Rightarrow> 'c \<Rightarrow> 'c" and empty :: 'c +
  fixes owner :: "'b \<Rightarrow> nat" and under :: "'b \<Rightarrow> nat" and items :: "'b \<Rightarrow> 'c"
    and set_owner :: "nat \<Rightarrow> 'b \<Rightarrow> 'b" and set_under :: "nat \<Rightarrow> 'b \<Rightarrow> 'b" and clear :: "'b \<Rightarrow> 'b"
  assumes set_owner_laws: "owner (set_owner s b) = s" "under (set_owner s b) = under b" "items (set_owner s b) = items b"
    and set_under_laws: "owner (set_under s b) = owner b" "under (set_under s b) = s" "items (set_under s b) = items b"
    and clear_laws: "owner (clear b) = owner b" "under (clear b) = under b" "items (clear b) = empty"
begin

lemmas laws = set_owner_laws set_under_laws clear_laws

text \<open>A level is the set of the subtransactions open there; 0 is no subtransaction.\<close>

definition counted :: "nat set \<Rightarrow> 'b \<Rightarrow> bool" where
  "counted S b \<longleftrightarrow> owner b \<in> S \<and> under b \<notin> S"

definition share :: "nat set \<Rightarrow> 'b \<Rightarrow> 'c" where
  "share S b = (if counted S b then items b else empty)"

fun pending :: "nat set \<Rightarrow> 'b list \<Rightarrow> 'c" where
  "pending S [] = empty"
| "pending S (b # bs) = join (share S b) (pending S bs)"

fun tally :: "'c list \<Rightarrow> 'c" where
  "tally [] = empty"
| "tally (f # fs) = join f (tally fs)"

text \<open>The levels innermost first: open subtransactions, catalogs, frames.\<close>

fun balanced :: "'c \<Rightarrow> 'b list \<Rightarrow> nat list \<Rightarrow> 'c list \<Rightarrow> 'c list \<Rightarrow> bool" where
  "balanced base bs [] [] [] \<longleftrightarrow> True"
| "balanced base bs (s # ss) (c # cs) (f # fs) \<longleftrightarrow>
     join c (pending (set (s # ss)) bs) = join base (tally (f # fs)) \<and> balanced base bs ss cs fs"
| "balanced base bs _ _ _ \<longleftrightarrow> False"

text \<open>A buffer is noted under a subtransaction below its owner.\<close>

definition place_ok :: "nat list \<Rightarrow> 'b \<Rightarrow> bool" where
  "place_ok ss b \<longleftrightarrow> owner b \<in> set ss \<and> (under b = 0 \<or> under b \<in> set (takeWhile (\<lambda>s. s \<noteq> owner b) ss))"

definition registry_ok :: "nat list \<Rightarrow> 'b list \<Rightarrow> bool" where
  "registry_ok ss bs \<longleftrightarrow> distinct ss \<and> 0 \<notin> set ss \<and> (\<forall>b \<in> set bs. place_ok ss b)"

lemma place_okD: "place_ok ss b \<Longrightarrow> owner b \<in> set ss \<and> (under b = 0 \<or> under b \<in> set ss)"
  by (auto simp: place_ok_def dest: set_takeWhileD)

lemma place_current: "place_ok (s # ss) b \<Longrightarrow> owner b = s \<Longrightarrow> under b = 0"
  by (simp add: place_ok_def)

definition discard :: "nat \<Rightarrow> 'b list \<Rightarrow> 'b list" where
  "discard s bs = map (\<lambda>b. if under b = s then set_under 0 b else b) (filter (\<lambda>b. owner b \<noteq> s) bs)"

definition promote_one :: "nat \<Rightarrow> nat \<Rightarrow> 'b \<Rightarrow> 'b" where
  "promote_one s p b =
     (let b1 = if owner b = s then set_owner p b else b
      in if under b1 = s then if p = owner b1 then set_under 0 (clear b1) else set_under p b1 else b1)"

text \<open>A flush of one buffer: its contents go to the catalog and it is emptied or noted.\<close>

definition flush_step :: "nat \<Rightarrow> 'b \<Rightarrow> 'c \<Rightarrow> 'b \<Rightarrow> 'c \<Rightarrow> bool" where
  "flush_step cur b c b' c' \<longleftrightarrow> b' = b \<and> c' = c \<or>
     owner b' = owner b \<and> under b = 0 \<and> c' = join c (items b) \<and>
     (if owner b = cur then under b' = 0 \<and> items b' = empty else under b' = cur \<and> items b' = items b)"

fun flush_walk :: "nat \<Rightarrow> 'b list \<Rightarrow> 'c \<Rightarrow> 'b list \<Rightarrow> 'c \<Rightarrow> bool" where
  "flush_walk cur [] c bs' c' \<longleftrightarrow> bs' = [] \<and> c' = c"
| "flush_walk cur (b # bs) c bs' c' \<longleftrightarrow>
     (\<exists>b' bs1 c1. bs' = b' # bs1 \<and> flush_step cur b c b' c1 \<and> flush_walk cur bs c1 bs1 c')"

lemma pending_append: "pending S (xs @ ys) = join (pending S xs) (pending S ys)"
  by (induction xs) (simp_all add: assoc)

lemma pending_map:
  assumes "\<And>b. b \<in> set bs \<Longrightarrow> share S (h b) = share S' b"
  shows "pending S (map h bs) = pending S' bs"
  using assms by (induction bs) simp_all

lemma pending_same_level:
  assumes "\<And>b. b \<in> set bs \<Longrightarrow> owner b \<in> S \<longleftrightarrow> owner b \<in> S'" "\<And>b. b \<in> set bs \<Longrightarrow> under b \<in> S \<longleftrightarrow> under b \<in> S'"
  shows "pending S bs = pending S' bs"
  using assms by (induction bs) (simp_all add: share_def counted_def)

lemma balanced_lengths: "balanced base bs ss cs fs \<Longrightarrow> length cs = length ss \<and> length fs = length ss"
  by (induction base bs ss cs fs rule: balanced.induct) auto

lemma balanced_mono:
  assumes "balanced base bs ss cs fs" "\<And>S. S \<subseteq> set ss \<Longrightarrow> pending S bs' = pending S bs"
  shows "balanced base bs' ss cs fs"
  using assms by (induction base bs ss cs fs rule: balanced.induct) (simp_all, blast)

lemma discard_pending:
  assumes "s \<notin> S" "0 \<notin> S" shows "pending S (discard s bs) = pending S bs"
  using assms by (induction bs) (auto simp: discard_def share_def counted_def laws)

lemma promote_below:
  assumes "s \<notin> S" "p \<notin> S" "0 \<notin> S" shows "pending S (map (promote_one s p) bs) = pending S bs"
  using assms by (intro pending_map) (auto simp: promote_one_def share_def counted_def laws Let_def)

lemma promote_here:
  assumes "p \<in> S" "s \<notin> S" "0 \<notin> S" shows "pending S (map (promote_one s p) bs) = pending (insert s S) bs"
  using assms by (intro pending_map) (auto simp: promote_one_def share_def counted_def laws Let_def)

lemma flush_step_share:
  assumes "flush_step cur b c b' c'" "0 \<notin> S"
  shows "cur \<in> S \<Longrightarrow> owner b \<in> S \<Longrightarrow> join c' (share S b') = join c (share S b)" "cur \<notin> S \<Longrightarrow> share S b' = share S b"
proof -
  show "join c' (share S b') = join c (share S b)" if S: "cur \<in> S" "owner b \<in> S"
  proof (cases "b' = b \<and> c' = c")
    case False
    then have f: "owner b' = owner b" "under b = 0" "c' = join c (items b)"
      "if owner b = cur then under b' = 0 \<and> items b' = empty else under b' = cur" using assms(1) by (auto simp: flush_step_def split: if_splits)
    then have "share S b' = empty" "share S b = items b" using S assms(2) unfolding share_def counted_def by (simp_all split: if_splits)
    then show ?thesis using f(3) by simp
  qed simp
  show "cur \<notin> S \<Longrightarrow> share S b' = share S b"
    using assms by (auto simp: flush_step_def share_def counted_def split: if_splits)
qed

lemma flush_walk_here:
  assumes "flush_walk cur bs c bs' c'" "cur \<in> S" "0 \<notin> S" "\<forall>b \<in> set bs. owner b \<in> S"
  shows "join c' (pending S bs') = join c (pending S bs)"
  using assms
proof (induction bs arbitrary: c bs')
  case (Cons b bs)
  then obtain b' bs1 c1 where f: "bs' = b' # bs1" "flush_step cur b c b' c1" "flush_walk cur bs c1 bs1 c'" by auto
  have "join c' (pending S bs') = join (share S b') (join c' (pending S bs1))" using f(1) by (simp add: left_commute)
  also have "\<dots> = join (share S b') (join c1 (pending S bs))" using Cons.IH[OF f(3)] Cons.prems by simp
  also have "\<dots> = join (join c1 (share S b')) (pending S bs)" by (simp add: assoc left_commute)
  also have "\<dots> = join c (pending S (b # bs))" using flush_step_share(1)[OF f(2)] Cons.prems by (simp add: assoc)
  finally show ?case .
qed simp

lemma flush_walk_below:
  assumes "flush_walk cur bs c bs' c'" "cur \<notin> S" "0 \<notin> S" shows "pending S bs' = pending S bs"
  using assms
proof (induction bs arbitrary: c bs')
  case (Cons b bs)
  then obtain b' bs1 c1 where f: "bs' = b' # bs1" "flush_step cur b c b' c1" "flush_walk cur bs c1 bs1 c'" by auto
  then show ?case using Cons.IH[OF f(3)] Cons.prems flush_step_share(2)[OF f(2)] by simp
qed simp

lemma flush_step_place: "flush_step cur b c b' c' \<Longrightarrow> place_ok (cur # ss) b \<Longrightarrow> place_ok (cur # ss) b'"
  by (auto simp: flush_step_def place_ok_def split: if_splits)

lemma flush_walk_ok:
  assumes "flush_walk cur bs c bs' c'" "\<forall>b \<in> set bs. place_ok (cur # ss) b"
  shows "\<forall>b \<in> set bs'. place_ok (cur # ss) b"
  using assms
proof (induction bs arbitrary: c bs')
  case (Cons b bs)
  then obtain b' bs1 c1 where f: "bs' = b' # bs1" "flush_step cur b c b' c1" "flush_walk cur bs c1 bs1 c'" by auto
  then show ?case using Cons.IH[OF f(3)] Cons.prems flush_step_place[OF f(2)] by simp
qed simp

lemma flush_walk_refl: "flush_walk cur bs c bs c"
  by (induction bs) (auto simp: flush_step_def)

lemma flush_walk_append:
  assumes "flush_walk cur xs c xs' c1" "flush_walk cur ys c1 ys' c'" shows "flush_walk cur (xs @ ys) c (xs' @ ys') c'"
  using assms
proof (induction xs arbitrary: c xs')
  case (Cons x xs)
  then obtain x' xs1 c2 where f: "xs' = x' # xs1" "flush_step cur x c x' c2" "flush_walk cur xs c2 xs1 c1" by auto
  then show ?case using Cons.IH[OF f(3) Cons.prems(2)] by auto
qed simp

lemma flush_walk_one:
  assumes "flush_step cur b c b' c'" shows "flush_walk cur (pre @ b # post) c (pre @ b' # post) c'"
  by (rule flush_walk_append[OF flush_walk_refl]) (use assms flush_walk_refl in auto)

text \<open>The subtransaction operations and the flush keep every level balanced.\<close>

lemma begin_balanced:
  assumes "balanced base bs (p # ss) (c # cs) (f # fs)" "registry_ok (p # ss) bs" "s \<notin> set (p # ss)" "s \<noteq> 0"
  shows "balanced base bs (s # p # ss) (c # c # cs) (empty # f # fs)" "registry_ok (s # p # ss) bs"
proof -
  have "pending (set (s # p # ss)) bs = pending (set (p # ss)) bs"
    using assms(2-4) place_okD by (intro pending_same_level) (fastforce simp: registry_ok_def)+
  then show "balanced base bs (s # p # ss) (c # c # cs) (empty # f # fs)" using assms(1) by simp
  show "registry_ok (s # p # ss) bs" using assms(2-4) by (auto simp: registry_ok_def place_ok_def)
qed

lemma abort_balanced:
  assumes "balanced base bs (s # ss) (c # cs) (f # fs)" "registry_ok (s # ss) bs"
  shows "balanced base (discard s bs) ss cs fs" "registry_ok ss (discard s bs)"
proof -
  show "balanced base (discard s bs) ss cs fs"
  proof (rule balanced_mono)
    show "balanced base bs ss cs fs" using assms(1) by simp
    show "pending S (discard s bs) = pending S bs" if "S \<subseteq> set ss" for S
      by (rule discard_pending) (use that assms(2) in \<open>auto simp: registry_ok_def\<close>)
  qed
  show "registry_ok ss (discard s bs)" using assms(2) by (auto simp: registry_ok_def place_ok_def discard_def laws)
qed

lemma commit_balanced:
  assumes "balanced base bs (s # p # ss) (c # c' # cs) (f # f' # fs)" "registry_ok (s # p # ss) bs"
  shows "balanced base (map (promote_one s p) bs) (p # ss) (c # cs) (join f f' # fs)"
    "registry_ok (p # ss) (map (promote_one s p) bs)"
proof -
  have ok: "s \<notin> set (p # ss)" "0 \<notin> set (p # ss)" "p \<notin> set ss" using assms(2) by (auto simp: registry_ok_def)
  have "balanced base (map (promote_one s p) bs) ss cs fs"
  proof (rule balanced_mono)
    show "balanced base bs ss cs fs" using assms(1) by simp
    show "pending S (map (promote_one s p) bs) = pending S bs" if "S \<subseteq> set ss" for S
      by (rule promote_below) (use that ok in auto)
  qed
  moreover have "pending (set (p # ss)) (map (promote_one s p) bs) = pending (set (s # p # ss)) bs"
    using promote_here[of p "set (p # ss)" s bs] ok by simp
  ultimately show "balanced base (map (promote_one s p) bs) (p # ss) (c # cs) (join f f' # fs)"
    using assms(1) by (simp add: assoc)
  show "registry_ok (p # ss) (map (promote_one s p) bs)"
    using assms(2) by (auto simp: registry_ok_def place_ok_def promote_one_def Let_def laws split: if_splits)
qed

lemma flush_balanced:
  assumes "balanced base bs (s # ss) (c # cs) (f # fs)" "registry_ok (s # ss) bs" "flush_walk s bs c bs' c'"
  shows "balanced base bs' (s # ss) (c' # cs) (f # fs)" "registry_ok (s # ss) bs'"
proof -
  have ok: "0 \<notin> set (s # ss)" "s \<notin> set ss" using assms(2) by (auto simp: registry_ok_def)
  have own: "\<forall>b \<in> set bs. owner b \<in> set (s # ss)" using assms(2) place_okD unfolding registry_ok_def by blast
  have "balanced base bs' ss cs fs"
  proof (rule balanced_mono)
    show "balanced base bs ss cs fs" using assms(1) by simp
    show "pending S bs' = pending S bs" if "S \<subseteq> set ss" for S
      by (rule flush_walk_below[OF assms(3)]) (use that ok in auto)
  qed
  then show "balanced base bs' (s # ss) (c' # cs) (f # fs)" using assms(1) flush_walk_here[OF assms(3), of "set (s # ss)"] ok own by simp
  show "registry_ok (s # ss) bs'" using assms(2) flush_walk_ok[OF assms(3), of ss] by (simp add: registry_ok_def)
qed

lemma add_balanced:
  assumes "balanced base bs (s # ss) (c # cs) (f # fs)" "registry_ok (s # ss) bs"
    and "\<And>S. 0 \<notin> S \<Longrightarrow> s \<in> S \<Longrightarrow> pending S bs' = join x (pending S bs)" "\<And>S. 0 \<notin> S \<Longrightarrow> s \<notin> S \<Longrightarrow> pending S bs' = pending S bs"
  shows "balanced base bs' (s # ss) (c # cs) (join x f # fs)"
proof -
  have ok: "0 \<notin> set (s # ss)" "s \<notin> set ss" using assms(2) by (auto simp: registry_ok_def)
  have "balanced base bs' ss cs fs"
  proof (rule balanced_mono)
    show "balanced base bs ss cs fs" using assms(1) by simp
    show "pending S bs' = pending S bs" if "S \<subseteq> set ss" for S by (rule assms(4)) (use that ok in auto)
  qed
  moreover have "join c (pending (set (s # ss)) bs') = join x (join c (pending (set (s # ss)) bs))"
    using assms(3)[of "set (s # ss)"] ok by (simp add: left_commute)
  moreover have "join x (join base (tally (f # fs))) = join base (tally (join x f # fs))" by (simp add: assoc left_commute)
  ultimately show ?thesis using assms(1) by simp
qed

end

end
