(* ===== verification/Write_Registry.thy ===== *)
theory Write_Registry
  imports Delete_Vector Kept_Registry
begin

section \<open>The pending writes of a transaction\<close>

text \<open>
  The two registries of a backend: its write states, one for each relation and subtransaction
  (\<open>PgColumnarGetWriteState\<close> and the functions after it in \<open>src/src/columnar_write_state.c\<close>), and
  its delete buffers (the second half of \<open>src/src/columnar_delete_vector.c\<close>); and the handlers of
  \<open>src/src/columnar_tableam.c\<close> that fill and flush them: insert, delete, update, the start of a
  scan, the end of a statement, and the transaction and subtransaction callbacks. A session is
  the registries with the catalogs of the open subtransactions. Tables here have no projections;
  locks and the visibility map are not modelled. Both registries are instances of the locale
  \<open>kept_registry\<close>.
\<close>

subsection \<open>Opening a write state\<close>

text \<open>
  A column of the relation's descriptor with what the type cache and the collation say of it,
  the row of \<open>pgcolumnar.options\<close>, and the settings in force.
\<close>

record table_col =
  tc_col :: write_col
  tc_name :: string
  tc_isdropped :: bool
  tc_deterministic :: bool
  tc_hashExtended :: "(datum \<Rightarrow> u64) option"

record table_options =
  opt_stripeRowLimit :: "nat option"
  opt_chunkGroupRowLimit :: "nat option"
  opt_compressionType :: "nat option"
  opt_compressionLevel :: "int option"
  opt_encodeEffortFast :: "bool option"

record table_info =
  tb_cols :: "table_col list"
  tb_options :: "table_options option"
  tb_sketchCatalog :: bool
  tb_sketchColumns :: "string list"
  tb_hasUniqueIndex :: bool

record write_guc =
  guc_stripeRowLimit :: nat
  guc_chunkGroupRowLimit :: nat
  guc_cfg :: flush_cfg
  guc_bloomEnabled :: bool
  guc_types :: "nat \<Rightarrow> type_entry"

text \<open>\<open>pgcolumnar_unsketchable_reason\<close>, whether there is one.\<close>

definition pgcolumnar_unsketchable_reason :: "table_col \<Rightarrow> string option" where
  "pgcolumnar_unsketchable_reason tc =
     (if tc_hashExtended tc = None then Some ''its type has no extended hash function''
      else if \<not> tc_deterministic tc then Some ''its collation is nondeterministic''
      else None)"

definition pgcolumnar_check_sketch_column :: "table_col list \<Rightarrow> string \<Rightarrow> unit result" where
  "pgcolumnar_check_sketch_column cols col =
     (case find (\<lambda>tc. \<not> tc_isdropped tc \<and> tc_name tc = col) cols of
        None \<Rightarrow> Inl (Corrupt ''column does not exist'')
      | Some tc \<Rightarrow> if pgcolumnar_unsketchable_reason tc \<noteq> None then Inl (Corrupt ''column cannot have a sketch'') else Inr ())"

definition pgcolumnar_init_col_defs :: "write_guc \<Rightarrow> table_col list \<Rightarrow> column_def list" where
  "pgcolumnar_init_col_defs G cols =
     map (\<lambda>tc. build_column_def (guc_types G) (wc_att (tc_col tc)) (tc_isdropped tc) (tc_deterministic tc) (guc_bloomEnabled G)) cols"

definition init_sketch ::
  "table_col list \<Rightarrow> string \<Rightarrow> column_def list \<times> byte list option list \<Rightarrow> column_def list \<times> byte list option list" where
  "init_sketch cols name st =
     (case find (\<lambda>c. \<not> (tc_isdropped (cols ! c) \<or> tc_name (cols ! c) \<noteq> name)) [0..<length cols] of
        None \<Rightarrow> st
      | Some c \<Rightarrow>
          if pgcolumnar_unsketchable_reason (cols ! c) = None
          then ((fst st)[c := (fst st ! c)\<lparr>sketchFn := the (tc_hashExtended (cols ! c))\<rparr>],
                (snd st)[c := Some (replicate PGC_SKETCH_REGISTERS 0)])
          else st)"

definition pgcolumnar_init_sketches ::
  "table_info \<Rightarrow> column_def list \<Rightarrow> column_def list \<times> byte list option list option" where
  "pgcolumnar_init_sketches T defs =
     (if \<not> tb_sketchCatalog T \<or> tb_sketchColumns T = [] then (defs, None)
      else let (defs', rr) = fold (init_sketch (tb_cols T)) (tb_sketchColumns T) (defs, replicate (length (tb_cols T)) None)
           in (defs', Some rr))"

definition option_or :: "'a option \<Rightarrow> 'a \<Rightarrow> 'a" where
  "option_or x d = (case x of None \<Rightarrow> d | Some v \<Rightarrow> v)"

definition effective_options :: "table_info \<Rightarrow> table_options" where
  "effective_options T = option_or (tb_options T) \<lparr>opt_stripeRowLimit = None, opt_chunkGroupRowLimit = None,
     opt_compressionType = None, opt_compressionLevel = None, opt_encodeEffortFast = None\<rparr>"

text \<open>The second half of \<open>PgColumnarGetWriteState\<close>: settings, then the table's options over them.\<close>

definition new_write_state :: "write_guc \<Rightarrow> table_info \<Rightarrow> nat \<Rightarrow> nat \<Rightarrow> rel_state \<Rightarrow> write_state result" where
  "new_write_state G T relid subid rel =
     res_bind (PgColumnarStorageId (rs_fork (rel_file rel))) (\<lambda>storageId.
       let opts = effective_options T;
           cfg = (guc_cfg G)\<lparr>cfg_compression := option_or (opt_compressionType opts) (cfg_compression (guc_cfg G)),
                             cfg_level := option_or (opt_compressionLevel opts) (cfg_level (guc_cfg G)),
                             cfg_effort_fast := option_or (opt_encodeEffortFast opts) False\<rparr>;
           (defs, rr) = pgcolumnar_init_sketches T (pgcolumnar_init_col_defs G (tb_cols T))
       in Inr \<lparr>ws_relid = relid, ws_subid = subid, ws_flushedUnder = InvalidSubTransactionId, ws_eagerFlush = False,
               ws_tupdesc = map tc_col (tb_cols T),
               ws_stripeRowLimit = option_or (opt_stripeRowLimit opts) (guc_stripeRowLimit G),
               ws_chunkGroupRowLimit = option_or (opt_chunkGroupRowLimit opts) (guc_chunkGroupRowLimit G),
               ws_cfg = cfg, ws_storageId = storageId, ws_colDefs = defs,
               ws_memos = replicate (length (tb_cols T)) \<lparr>fsst_verdict = 0, fsst_verdict_age = 0\<rparr>,
               ws_sketchRegs = rr, ws_chunkGroups = [], ws_currentGroup = None, ws_stripeRowCount = 0,
               ws_haveReservation = False, ws_stripeId = 0, ws_stripeFirstRowNumber = 0, ws_reservedStripeIds = []\<rparr>)"

definition find_write_state :: "nat \<Rightarrow> nat \<Rightarrow> write_state list \<Rightarrow> nat" where
  "find_write_state relid subid wss = length (takeWhile (\<lambda>ws. ws_relid ws \<noteq> relid \<or> ws_subid ws \<noteq> subid) wss)"

text \<open>The index of the write state in the registry, the registry, and the relation.\<close>

definition PgColumnarGetWriteState ::
  "write_guc \<Rightarrow> flush_env \<Rightarrow> table_info \<Rightarrow> nat \<Rightarrow> nat \<Rightarrow> write_state list \<Rightarrow> rel_state \<Rightarrow> (nat \<times> write_state list \<times> rel_state) result" where
  "PgColumnarGetWriteState G F T relid subid wss rel =
     (let i = find_write_state relid subid wss; ws = wss ! i
      in if i < length wss \<and> ws_natts ws = length (tb_cols T) then Inr (i, wss, rel)
         else res_bind
           (if i < length wss
            then res_bind (if ws_stripeRowCount ws > 0 then pgcolumnar_flush_row_group F ws rel else Inr (ws, rel))
                   (\<lambda>(ws1, rel1). Inr (take i wss @ drop (Suc i) wss, rel1))
            else Inr (wss, rel))
           (\<lambda>(wss1, rel1). res_bind (new_write_state G T relid subid rel1)
              (\<lambda>ws1. Inr (length wss1, wss1 @ [ws1], rel1))))"

subsection \<open>Walks over a registry\<close>

text \<open>A loop over a registry that updates each entry, and the relation it belongs to, in place.\<close>

fun registry_walk ::
  "('b \<Rightarrow> nat) \<Rightarrow> ('b \<Rightarrow> rel_state \<Rightarrow> ('b \<times> rel_state) result) \<Rightarrow> 'b list \<Rightarrow> (nat \<Rightarrow> rel_state) \<Rightarrow>
   ('b list \<times> (nat \<Rightarrow> rel_state)) result" where
  "registry_walk key f [] rels = Inr ([], rels)"
| "registry_walk key f (b # bs) rels =
     res_bind (f b (rels (key b))) (\<lambda>(b', rel'). res_bind (registry_walk key f bs (rels(key b := rel')))
       (\<lambda>(bs', rels'). Inr (b' # bs', rels')))"

subsubsection \<open>Write states\<close>

definition flush_for_relation :: "flush_env \<Rightarrow> nat \<Rightarrow> nat \<Rightarrow> write_state \<Rightarrow> rel_state \<Rightarrow> (write_state \<times> rel_state) result" where
  "flush_for_relation F current relid ws rel =
     (let keep = ws_subid ws \<noteq> current
      in if ws_relid ws \<noteq> relid then Inr (ws, rel)
         else if ws_flushedUnder ws \<noteq> InvalidSubTransactionId then Inr (ws, rel)
         else if keep \<and> ws_stripeRowCount ws = 0 then Inr (ws, rel)
         else res_bind (if ws_stripeRowCount ws > 0 then flush_row_group F ws keep rel else Inr (ws, rel)) (\<lambda>(ws1, rel1).
           Inr (if keep then ws1\<lparr>ws_flushedUnder := current, ws_eagerFlush := True\<rparr> else ws1, rel1)))"

definition PgColumnarFlushWriteStateForRelation ::
  "flush_env \<Rightarrow> nat \<Rightarrow> nat \<Rightarrow> write_state list \<Rightarrow> (nat \<Rightarrow> rel_state) \<Rightarrow> (write_state list \<times> (nat \<Rightarrow> rel_state)) result" where
  "PgColumnarFlushWriteStateForRelation F current relid = registry_walk ws_relid (flush_for_relation F current relid)"

definition PgColumnarWriteStateAfterAppend ::
  "flush_env \<Rightarrow> nat \<Rightarrow> write_state \<Rightarrow> rel_state \<Rightarrow> (write_state \<times> rel_state) result" where
  "PgColumnarWriteStateAfterAppend F current ws rel =
     (if \<not> ws_eagerFlush ws \<or> ws_subid ws \<noteq> current \<or> ws_flushedUnder ws \<noteq> InvalidSubTransactionId then Inr (ws, rel)
      else res_bind (if ws_stripeRowCount ws > 0 then pgcolumnar_flush_row_group F ws rel else Inr (ws, rel)) (\<lambda>(ws1, rel1).
        Inr (ws1\<lparr>ws_eagerFlush := False\<rparr>, rel1)))"

definition PgColumnarForgetWriteStateForRelation :: "nat \<Rightarrow> write_state list \<Rightarrow> write_state list" where
  "PgColumnarForgetWriteStateForRelation relid wss = filter (\<lambda>ws. ws_relid ws \<noteq> relid) wss"

definition PgColumnarFlushAllPendingWrites ::
  "flush_env \<Rightarrow> write_state list \<Rightarrow> (nat \<Rightarrow> rel_state) \<Rightarrow> (write_state list \<times> (nat \<Rightarrow> rel_state)) result" where
  "PgColumnarFlushAllPendingWrites F = registry_walk ws_relid (pgcolumnar_flush_row_group F)"

definition flush_of_subxact :: "flush_env \<Rightarrow> nat \<Rightarrow> write_state \<Rightarrow> rel_state \<Rightarrow> (write_state \<times> rel_state) result" where
  "flush_of_subxact F subid ws rel =
     (if ws_subid ws \<noteq> subid then Inr (ws, rel)
      else res_bind (pgcolumnar_flush_row_group F ws rel) (\<lambda>(ws1, rel1). Inr (ws1\<lparr>ws_eagerFlush := False\<rparr>, rel1)))"

definition PgColumnarFlushPendingWritesOfSubXact ::
  "flush_env \<Rightarrow> nat \<Rightarrow> write_state list \<Rightarrow> (nat \<Rightarrow> rel_state) \<Rightarrow> (write_state list \<times> (nat \<Rightarrow> rel_state)) result" where
  "PgColumnarFlushPendingWritesOfSubXact F subid = registry_walk ws_relid (flush_of_subxact F subid)"

definition PgColumnarWriteStateDiscardSubXact :: "nat \<Rightarrow> write_state list \<Rightarrow> write_state list" where
  "PgColumnarWriteStateDiscardSubXact subid wss =
     map (\<lambda>ws. if ws_flushedUnder ws = subid then ws\<lparr>ws_flushedUnder := InvalidSubTransactionId\<rparr> else ws)
       (filter (\<lambda>ws. ws_subid ws \<noteq> subid) wss)"

definition promote_write_state :: "nat \<Rightarrow> nat \<Rightarrow> write_state \<Rightarrow> write_state" where
  "promote_write_state subid parent ws =
     (let ws1 = if ws_subid ws = subid then ws\<lparr>ws_subid := parent\<rparr> else ws
      in if ws_flushedUnder ws1 = subid
         then if parent = ws_subid ws1 then (reset_stripe ws1)\<lparr>ws_flushedUnder := InvalidSubTransactionId\<rparr>
              else ws1\<lparr>ws_flushedUnder := parent\<rparr>
         else ws1)"

definition PgColumnarWriteStatePromoteSubXact :: "nat \<Rightarrow> nat \<Rightarrow> write_state list \<Rightarrow> write_state list" where
  "PgColumnarWriteStatePromoteSubXact subid parent = map (promote_write_state subid parent)"

subsubsection \<open>Delete buffers\<close>

definition flush_deletes_for_relation :: "nat option \<Rightarrow> nat \<Rightarrow> nat \<Rightarrow> dv_buffer \<Rightarrow> rel_state \<Rightarrow> (dv_buffer \<times> rel_state) result" where
  "flush_deletes_for_relation setting current relid buf rel =
     (let keep = dvb_subid buf \<noteq> current
      in if dvb_relid buf \<noteq> relid then Inr (buf, rel)
         else if dvb_flushedUnder buf \<noteq> InvalidSubTransactionId then Inr (buf, rel)
         else res_bind (delete_vector_flush_buffer setting keep buf rel) (\<lambda>(buf1, rel1).
           Inr (if keep \<and> dvb_chunks buf1 \<noteq> [] then buf1\<lparr>dvb_flushedUnder := current\<rparr> else buf1, rel1)))"

definition PgColumnarFlushDeleteVectorForRelation ::
  "nat option \<Rightarrow> nat \<Rightarrow> nat \<Rightarrow> dv_buffer list \<Rightarrow> (nat \<Rightarrow> rel_state) \<Rightarrow> (dv_buffer list \<times> (nat \<Rightarrow> rel_state)) result" where
  "PgColumnarFlushDeleteVectorForRelation setting current relid =
     registry_walk dvb_relid (flush_deletes_for_relation setting current relid)"

definition PgColumnarFlushAllDeleteVectors ::
  "nat option \<Rightarrow> dv_buffer list \<Rightarrow> (nat \<Rightarrow> rel_state) \<Rightarrow> (dv_buffer list \<times> (nat \<Rightarrow> rel_state)) result" where
  "PgColumnarFlushAllDeleteVectors setting = registry_walk dvb_relid (delete_vector_flush_buffer setting False)"

definition PgColumnarFlushDeleteVectorsOfSubXact ::
  "nat option \<Rightarrow> nat \<Rightarrow> dv_buffer list \<Rightarrow> (nat \<Rightarrow> rel_state) \<Rightarrow> (dv_buffer list \<times> (nat \<Rightarrow> rel_state)) result" where
  "PgColumnarFlushDeleteVectorsOfSubXact setting subid =
     registry_walk dvb_relid (\<lambda>buf rel. if dvb_subid buf = subid then delete_vector_flush_buffer setting False buf rel
                                        else Inr (buf, rel))"

definition PgColumnarDeleteVectorDiscardSubXact :: "nat \<Rightarrow> dv_buffer list \<Rightarrow> dv_buffer list" where
  "PgColumnarDeleteVectorDiscardSubXact subid bufs =
     map (\<lambda>buf. if dvb_flushedUnder buf = subid then buf\<lparr>dvb_flushedUnder := InvalidSubTransactionId\<rparr> else buf)
       (filter (\<lambda>buf. dvb_subid buf \<noteq> subid) bufs)"

definition promote_delete_buffer :: "nat \<Rightarrow> nat \<Rightarrow> dv_buffer \<Rightarrow> dv_buffer" where
  "promote_delete_buffer subid parent buf =
     (let buf1 = if dvb_subid buf = subid then buf\<lparr>dvb_subid := parent\<rparr> else buf
      in if dvb_flushedUnder buf1 = subid
         then if parent = dvb_subid buf1 then (delete_vector_reset_buffer buf1)\<lparr>dvb_flushedUnder := InvalidSubTransactionId\<rparr>
              else buf1\<lparr>dvb_flushedUnder := parent\<rparr>
         else buf1)"

definition PgColumnarDeleteVectorPromoteSubXact :: "nat \<Rightarrow> nat \<Rightarrow> dv_buffer list \<Rightarrow> dv_buffer list" where
  "PgColumnarDeleteVectorPromoteSubXact subid parent = map (promote_delete_buffer subid parent)"

subsection \<open>A session and its handlers\<close>

text \<open>
  The open subtransactions of a session, innermost first, the catalogs that the enclosing ones
  had when the next one began, the relations as the current one sees them, and the registries.
\<close>

record session =
  ss_subids :: "nat list"
  ss_saved :: "(nat \<Rightarrow> rel_state) list"
  ss_rels :: "nat \<Rightarrow> rel_state"
  ss_writes :: "write_state list"
  ss_deletes :: "dv_buffer list"

record txn_env =
  xe_guc :: write_guc
  xe_flush :: flush_env
  xe_rowLock :: "nat option"
  xe_maxTuples :: nat

abbreviation current_subid :: "session \<Rightarrow> nat" where
  "current_subid s \<equiv> hd (ss_subids s)"

datatype tm_result = TM_Ok | TM_SelfModified

definition PgColumnarRowWriteConflict :: "txn_env \<Rightarrow> nat \<Rightarrow> nat \<times> nat \<Rightarrow> dv_buffer list \<Rightarrow> tm_result option" where
  "PgColumnarRowWriteConflict E relid otid bufs =
     (if PgColumnarDeleteVectorBufferedDeleted relid (PgColumnarItemPointerToRowNumber (xe_maxTuples E) otid) bufs
      then Some TM_SelfModified else None)"

text \<open>The row number that goes with the item pointer a slot gets.\<close>

definition append_slot ::
  "txn_env \<Rightarrow> nat \<Rightarrow> write_state \<Rightarrow> datum option list \<Rightarrow> rel_state \<Rightarrow> (nat \<times> write_state \<times> rel_state) result" where
  "append_slot E current ws values rel =
     res_bind (PgColumnarWriteRow (xe_flush E) ws values rel) (\<lambda>(rowNumber, ws1, rel1).
       res_bind (PgColumnarWriteStateAfterAppend (xe_flush E) current ws1 rel1) (\<lambda>(ws2, rel2).
         Inr (rowNumber, ws2, rel2)))"

fun append_slots ::
  "txn_env \<Rightarrow> nat \<Rightarrow> write_state \<Rightarrow> datum option list list \<Rightarrow> rel_state \<Rightarrow> (nat list \<times> write_state \<times> rel_state) result" where
  "append_slots E current ws [] rel = Inr ([], ws, rel)"
| "append_slots E current ws (v # vs) rel =
     res_bind (append_slot E current ws v rel) (\<lambda>(n, ws1, rel1).
       res_bind (append_slots E current ws1 vs rel1) (\<lambda>(ns, ws2, rel2). Inr (n # ns, ws2, rel2)))"

definition pgcolumnar_multi_insert ::
  "txn_env \<Rightarrow> table_info \<Rightarrow> nat \<Rightarrow> datum option list list \<Rightarrow> session \<Rightarrow> (nat list \<times> session) result" where
  "pgcolumnar_multi_insert E T relid slots s =
     res_bind (PgColumnarGetWriteState (xe_guc E) (xe_flush E) T relid (current_subid s) (ss_writes s) (ss_rels s relid))
       (\<lambda>(i, wss, rel). res_bind (append_slots E (current_subid s) (wss ! i) slots rel) (\<lambda>(ns, ws, rel1).
          Inr (ns, s\<lparr>ss_writes := wss[i := ws], ss_rels := (ss_rels s)(relid := rel1)\<rparr>)))"

definition pgcolumnar_tuple_insert ::
  "txn_env \<Rightarrow> table_info \<Rightarrow> nat \<Rightarrow> datum option list \<Rightarrow> session \<Rightarrow> (nat \<times> session) result" where
  "pgcolumnar_tuple_insert E T relid values s =
     res_bind (PgColumnarGetWriteState (xe_guc E) (xe_flush E) T relid (current_subid s) (ss_writes s) (ss_rels s relid))
       (\<lambda>(i, wss, rel). res_bind (append_slot E (current_subid s) (wss ! i) values rel) (\<lambda>(n, ws, rel1).
          Inr (n, s\<lparr>ss_writes := wss[i := ws], ss_rels := (ss_rels s)(relid := rel1)\<rparr>)))"

text \<open>Both flushes of a relation, at the start of a scan and the end of a bulk load.\<close>

definition flush_relation_writes :: "txn_env \<Rightarrow> nat \<Rightarrow> session \<Rightarrow> session result" where
  "flush_relation_writes E relid s =
     res_bind (PgColumnarFlushWriteStateForRelation (xe_flush E) (current_subid s) relid (ss_writes s) (ss_rels s))
       (\<lambda>(wss, rels). Inr (s\<lparr>ss_writes := wss, ss_rels := rels\<rparr>))"

definition flush_relation_deletes :: "txn_env \<Rightarrow> nat \<Rightarrow> session \<Rightarrow> session result" where
  "flush_relation_deletes E relid s =
     res_bind (PgColumnarFlushDeleteVectorForRelation (xe_rowLock E) (current_subid s) relid (ss_deletes s) (ss_rels s))
       (\<lambda>(bufs, rels). Inr (s\<lparr>ss_deletes := bufs, ss_rels := rels\<rparr>))"

definition pgcolumnar_scan_begin :: "txn_env \<Rightarrow> nat \<Rightarrow> session \<Rightarrow> session result" where
  "pgcolumnar_scan_begin E relid s = res_bind (flush_relation_writes E relid s) (flush_relation_deletes E relid)"

definition pgcolumnar_finish_bulk_insert :: "txn_env \<Rightarrow> nat \<Rightarrow> session \<Rightarrow> session result" where
  "pgcolumnar_finish_bulk_insert E relid s = res_bind (flush_relation_writes E relid s) (flush_relation_deletes E relid)"

definition mark_deleted :: "nat \<Rightarrow> nat \<Rightarrow> session \<Rightarrow> session result" where
  "mark_deleted relid rowNumber s =
     res_bind (PgColumnarMarkRowDeleted relid (current_subid s) (ss_rels s relid) rowNumber (ss_deletes s))
       (\<lambda>bufs. Inr (s\<lparr>ss_deletes := bufs\<rparr>))"

definition pgcolumnar_tuple_complete_speculative ::
  "txn_env \<Rightarrow> nat \<Rightarrow> nat \<times> nat \<Rightarrow> bool \<Rightarrow> session \<Rightarrow> session result" where
  "pgcolumnar_tuple_complete_speculative E relid tid succeeded s =
     (if succeeded then Inr s
      else res_bind (flush_relation_writes E relid s)
             (mark_deleted relid (PgColumnarItemPointerToRowNumber (xe_maxTuples E) tid)))"

definition pgcolumnar_tuple_delete ::
  "txn_env \<Rightarrow> nat \<Rightarrow> nat \<times> nat \<Rightarrow> bool \<Rightarrow> session \<Rightarrow> (tm_result \<times> session) result" where
  "pgcolumnar_tuple_delete E relid tid changingPart s =
     (case PgColumnarRowWriteConflict E relid tid (ss_deletes s) of
        Some conflict \<Rightarrow> Inr (conflict, s)
      | None \<Rightarrow>
          let rowNumber = PgColumnarItemPointerToRowNumber (xe_maxTuples E) tid
          in res_bind (if changingPart then PgColumnarSerializeRowNow (xe_rowLock E) (ss_rels s relid) rowNumber else Inr ())
               (\<lambda>_. res_bind (mark_deleted relid rowNumber s) (\<lambda>s1. Inr (TM_Ok, s1))))"

text \<open>The new row's number is returned with \<open>TM_Ok\<close>.\<close>

definition pgcolumnar_tuple_update ::
  "txn_env \<Rightarrow> table_info \<Rightarrow> nat \<Rightarrow> nat \<times> nat \<Rightarrow> datum option list \<Rightarrow> session \<Rightarrow> (tm_result \<times> nat option \<times> session) result" where
  "pgcolumnar_tuple_update E T relid otid values s =
     (case PgColumnarRowWriteConflict E relid otid (ss_deletes s) of
        Some conflict \<Rightarrow> Inr (conflict, None, s)
      | None \<Rightarrow>
          let oldRowNumber = PgColumnarItemPointerToRowNumber (xe_maxTuples E) otid
          in res_bind (if tb_hasUniqueIndex T then PgColumnarSerializeRowNow (xe_rowLock E) (ss_rels s relid) oldRowNumber else Inr ())
               (\<lambda>_. res_bind (mark_deleted relid oldRowNumber s) (\<lambda>s1.
                  res_bind (pgcolumnar_tuple_insert E T relid values s1) (\<lambda>(n, s2). Inr (TM_Ok, Some n, s2)))))"

definition pgcolumnar_executor_end :: "txn_env \<Rightarrow> session \<Rightarrow> session result" where
  "pgcolumnar_executor_end E s =
     res_bind (PgColumnarFlushPendingWritesOfSubXact (xe_flush E) (current_subid s) (ss_writes s) (ss_rels s)) (\<lambda>(wss, rels).
       res_bind (PgColumnarFlushDeleteVectorsOfSubXact (xe_rowLock E) (current_subid s) (ss_deletes s) rels) (\<lambda>(bufs, rels1).
         Inr (s\<lparr>ss_writes := wss, ss_deletes := bufs, ss_rels := rels1\<rparr>)))"

datatype xact_event = PRE_PREPARE | PRE_COMMIT | PARALLEL_PRE_COMMIT | PREPARE | COMMIT | ABORT | PARALLEL_COMMIT | PARALLEL_ABORT

definition pgcolumnar_xact_callback :: "txn_env \<Rightarrow> xact_event \<Rightarrow> session \<Rightarrow> session result" where
  "pgcolumnar_xact_callback E event s =
     (if event \<in> {PRE_PREPARE, PRE_COMMIT, PARALLEL_PRE_COMMIT, PREPARE}
      then res_bind (PgColumnarFlushAllPendingWrites (xe_flush E) (ss_writes s) (ss_rels s)) (\<lambda>(wss, rels).
             res_bind (PgColumnarFlushAllDeleteVectors (xe_rowLock E) (ss_deletes s) rels) (\<lambda>(bufs, rels1).
               Inr (if event = PREPARE then s\<lparr>ss_writes := [], ss_deletes := [], ss_rels := rels1\<rparr>
                    else s\<lparr>ss_writes := wss, ss_deletes := bufs, ss_rels := rels1\<rparr>)))
      else Inr (s\<lparr>ss_writes := [], ss_deletes := []\<rparr>))"

datatype subxact_event = ABORT_SUB | COMMIT_SUB | OTHER_SUB

definition pgcolumnar_subxact_callback :: "subxact_event \<Rightarrow> nat \<Rightarrow> nat \<Rightarrow> session \<Rightarrow> session" where
  "pgcolumnar_subxact_callback event mySubid parentSubid s =
     (case event of
        ABORT_SUB \<Rightarrow> s\<lparr>ss_writes := PgColumnarWriteStateDiscardSubXact mySubid (ss_writes s),
                       ss_deletes := PgColumnarDeleteVectorDiscardSubXact mySubid (ss_deletes s)\<rparr>
      | COMMIT_SUB \<Rightarrow> s\<lparr>ss_writes := PgColumnarWriteStatePromoteSubXact mySubid parentSubid (ss_writes s),
                        ss_deletes := PgColumnarDeleteVectorPromoteSubXact mySubid parentSubid (ss_deletes s)\<rparr>
      | OTHER_SUB \<Rightarrow> s)"

text \<open>
  What PostgreSQL does around the callbacks: a subtransaction that aborts takes its catalog
  rows with it and leaves the files as they are; one that commits hands its rows to its parent.
\<close>

definition rolled_back :: "rel_state \<Rightarrow> rel_state \<Rightarrow> rel_state" where
  "rolled_back old rel = old\<lparr>rel_file := (rel_file old)\<lparr>rs_fork := rs_fork (rel_file rel)\<rparr>\<rparr>"

definition begin_subxact :: "nat \<Rightarrow> session \<Rightarrow> session" where
  "begin_subxact subid s = s\<lparr>ss_subids := subid # ss_subids s, ss_saved := ss_rels s # ss_saved s\<rparr>"

definition abort_subxact :: "session \<Rightarrow> session" where
  "abort_subxact s =
     (pgcolumnar_subxact_callback ABORT_SUB (current_subid s) (hd (tl (ss_subids s))) s)
       \<lparr>ss_subids := tl (ss_subids s), ss_rels := (\<lambda>r. rolled_back (hd (ss_saved s) r) (ss_rels s r)),
        ss_saved := tl (ss_saved s)\<rparr>"

definition commit_subxact :: "session \<Rightarrow> session" where
  "commit_subxact s =
     (pgcolumnar_subxact_callback COMMIT_SUB (current_subid s) (hd (tl (ss_subids s))) s)
       \<lparr>ss_subids := tl (ss_subids s), ss_saved := tl (ss_saved s)\<rparr>"

subsection \<open>The registries as instances\<close>

definition ws_rows :: "write_state \<Rightarrow> nat multiset" where
  "ws_rows ws = mset [ws_stripeFirstRowNumber ws..<ws_stripeFirstRowNumber ws + ws_stripeRowCount ws]"

definition ws_items :: "nat \<Rightarrow> write_state \<Rightarrow> nat multiset" where
  "ws_items r ws = (if ws_relid ws = r then ws_rows ws else {#})"

definition dv_items :: "nat \<Rightarrow> dv_buffer \<Rightarrow> nat set" where
  "dv_items r buf = (if dvb_relid buf = r then buffer_marks buf else {})"

interpretation writes: kept_registry "(+)" "{#}" ws_subid ws_flushedUnder "ws_items r"
    "\<lambda>s ws. ws\<lparr>ws_subid := s\<rparr>" "\<lambda>s ws. ws\<lparr>ws_flushedUnder := s\<rparr>" reset_stripe for r
  by unfold_locales (simp_all add: ws_items_def ws_rows_def reset_stripe_def)

interpretation deletes: kept_registry "(\<union>)" "{}" dvb_subid dvb_flushedUnder "dv_items r"
    "\<lambda>s b. b\<lparr>dvb_subid := s\<rparr>" "\<lambda>s b. b\<lparr>dvb_flushedUnder := s\<rparr>" delete_vector_reset_buffer for r
  by unfold_locales (auto simp: dv_items_def buffer_marks_def delete_vector_reset_buffer_def)

lemma write_registry_ops:
  "PgColumnarWriteStateDiscardSubXact s wss = writes.discard s wss"
  "PgColumnarWriteStatePromoteSubXact s p wss = map (writes.promote_one s p) wss"
  by (simp_all add: PgColumnarWriteStateDiscardSubXact_def writes.discard_def PgColumnarWriteStatePromoteSubXact_def
      promote_write_state_def writes.promote_one_def InvalidSubTransactionId_def)

lemma delete_registry_ops:
  "PgColumnarDeleteVectorDiscardSubXact s bufs = deletes.discard s bufs"
  "PgColumnarDeleteVectorPromoteSubXact s p bufs = map (deletes.promote_one s p) bufs"
  by (simp_all add: PgColumnarDeleteVectorDiscardSubXact_def deletes.discard_def PgColumnarDeleteVectorPromoteSubXact_def
      promote_delete_buffer_def deletes.promote_one_def InvalidSubTransactionId_def)

end
