(* ===== verification/Write_Txn.thy ===== *)
theory Write_Txn
  imports Write_Registry
begin

section \<open>Transactions over buffered writes\<close>

text \<open>
  What a session sees of its tables. The specification is a stack of sets of row numbers for a
  table, one for each open subtransaction: inserting and deleting change the top, beginning a
  subtransaction copies it, committing merges it into the next, aborting drops it. The relation
  \<open>session_run\<close> has the histories of handler calls of \<open>Write_Registry\<close> with the specification's
  operations they stand for. The catalog that a scan reads after it has flushed, and the one a
  commit leaves, hold exactly the rows on top of the specification's stack, wherever the rows and
  the delete marks were buffered, written out early, kept, promoted or discarded on the way.
  Calls that raise an error are not steps: the error aborts the subtransaction they ran in.
\<close>

subsection \<open>The specification\<close>

datatype spec_op = Ins nat nat | Del nat nat | Begin_Sub | Commit_Sub | Abort_Sub

text \<open>The stack of one table \<open>r\<close>, innermost subtransaction first.\<close>

fun spec_step :: "nat \<Rightarrow> spec_op \<Rightarrow> nat set list \<Rightarrow> nat set list" where
  "spec_step r (Ins q n) (x # xs) = (if q = r then insert n x else x) # xs"
| "spec_step r (Del q n) (x # xs) = (if q = r then x - {n} else x) # xs"
| "spec_step r Begin_Sub (x # xs) = x # x # xs"
| "spec_step r Commit_Sub (x # y # ys) = x # ys"
| "spec_step r Abort_Sub (x # y # ys) = y # ys"
| "spec_step r _ xs = xs"

definition spec_run :: "nat \<Rightarrow> spec_op list \<Rightarrow> nat set list \<Rightarrow> nat set list" where
  "spec_run r ops xs = fold (spec_step r) ops xs"

text \<open>The rows of a table that a reader of its catalog sees.\<close>

definition live_rows :: "nat \<Rightarrow> rel_state \<Rightarrow> nat set" where
  "live_rows sid rel = group_rows sid rel - deleted_rows sid rel"

subsection \<open>Histories\<close>

abbreviation tid_row :: "txn_env \<Rightarrow> nat \<times> nat \<Rightarrow> nat" where
  "tid_row E tid \<equiv> PgColumnarItemPointerToRowNumber (xe_maxTuples E) tid"

definition stripe_limit :: "write_guc \<Rightarrow> table_info \<Rightarrow> nat" where
  "stripe_limit G T = option_or (opt_stripeRowLimit (effective_options T)) (guc_stripeRowLimit G)"

inductive session_step :: "txn_env \<Rightarrow> session \<Rightarrow> spec_op list \<Rightarrow> session \<Rightarrow> bool" for E where
  insert: "0 < stripe_limit (xe_guc E) T \<Longrightarrow> pgcolumnar_tuple_insert E T q v s = Inr (n, s') \<Longrightarrow> session_step E s [Ins q n] s'"
| multi_insert: "0 < stripe_limit (xe_guc E) T \<Longrightarrow> pgcolumnar_multi_insert E T q vs s = Inr (ns, s') \<Longrightarrow>
    session_step E s (map (Ins q) ns) s'"
| mark: "pgcolumnar_tuple_delete E q tid cp s = Inr (TM_Ok, s') \<Longrightarrow> session_step E s [Del q (tid_row E tid)] s'"
| mark_self: "pgcolumnar_tuple_delete E q tid cp s = Inr (TM_SelfModified, s') \<Longrightarrow> session_step E s [] s'"
| update: "0 < stripe_limit (xe_guc E) T \<Longrightarrow> pgcolumnar_tuple_update E T q tid v s = Inr (TM_Ok, Some n, s') \<Longrightarrow>
    session_step E s [Del q (tid_row E tid), Ins q n] s'"
| update_self: "pgcolumnar_tuple_update E T q tid v s = Inr (TM_SelfModified, None, s') \<Longrightarrow> session_step E s [] s'"
| speculative: "pgcolumnar_tuple_complete_speculative E q tid succeeded s = Inr s' \<Longrightarrow>
    session_step E s (if succeeded then [] else [Del q (tid_row E tid)]) s'"
| scan: "pgcolumnar_scan_begin E q s = Inr s' \<Longrightarrow> session_step E s [] s'"
| bulk_end: "pgcolumnar_finish_bulk_insert E q s = Inr s' \<Longrightarrow> session_step E s [] s'"
| statement_end: "pgcolumnar_executor_end E s = Inr s' \<Longrightarrow> session_step E s [] s'"
| begin_sub: "subid \<noteq> InvalidSubTransactionId \<Longrightarrow> subid \<notin> set (ss_subids s) \<Longrightarrow> session_step E s [Begin_Sub] (begin_subxact subid s)"
| commit_sub: "tl (ss_subids s) \<noteq> [] \<Longrightarrow> session_step E s [Commit_Sub] (commit_subxact s)"
| abort_sub: "tl (ss_subids s) \<noteq> [] \<Longrightarrow> session_step E s [Abort_Sub] (abort_subxact s)"

inductive session_run :: "txn_env \<Rightarrow> session \<Rightarrow> spec_op list \<Rightarrow> session \<Rightarrow> bool" for E s0 where
  start: "session_run E s0 [] s0"
| step: "session_run E s0 ops s \<Longrightarrow> session_step E s ops' s' \<Longrightarrow> session_run E s0 (ops @ ops') s'"

abbreviation next_row :: "rel_state \<Rightarrow> nat" where
  "next_row rel \<equiv> reservedRowNumber (mf_meta (rs_fork (rel_file rel)))"

text \<open>A transaction begins with empty registries over consistent catalogs; storage ids are unique.\<close>

definition txn_start :: "(nat \<Rightarrow> nat) \<Rightarrow> session \<Rightarrow> bool" where
  "txn_start sid s \<longleftrightarrow> inj sid \<and> (\<exists>tx. tx \<noteq> InvalidSubTransactionId \<and> ss_subids s = [tx]) \<and> ss_saved s = [] \<and>
     ss_writes s = [] \<and> ss_deletes s = [] \<and>
     (\<forall>r. PgColumnarStorageId (rs_fork (rel_file (ss_rels s r))) = Inr (sid r) \<and> catalog_ok (sid r) (ss_rels s r) \<and>
          (\<forall>n \<in> group_rows (sid r) (ss_rels s r). n < next_row (ss_rels s r)))"

subsection \<open>Row numbers of a catalog\<close>

abbreviation group_span :: "row_group \<Rightarrow> nat multiset" where
  "group_span g \<equiv> mset [rg_firstRowNumber g..<rg_firstRowNumber g + rg_rowCount g]"

abbreviation groups_of :: "nat \<Rightarrow> rel_state \<Rightarrow> row_group list" where
  "groups_of sid rel \<equiv> PgColumnarReadRowGroupList sid rel"

definition group_numbers :: "nat \<Rightarrow> rel_state \<Rightarrow> nat multiset" where
  "group_numbers sid rel = sum_mset (image_mset group_span (mset (groups_of sid rel)))"

lemma set_group_numbers [simp]: "set_mset (group_numbers sid rel) = group_rows sid rel"
  by (auto simp: group_numbers_def group_rows_def group_covers_def)

definition unique_numbers :: "nat multiset \<Rightarrow> bool" where
  "unique_numbers M \<longleftrightarrow> (\<forall>n. count M n \<le> 1)"

lemma unique_mono: "unique_numbers M \<Longrightarrow> N \<subseteq># M \<Longrightarrow> unique_numbers N"
  unfolding unique_numbers_def subseteq_mset_def by (meson le_trans)

lemma unique_groups:
  assumes u: "unique_numbers (group_numbers sid rel)" and d: "distinct (map rg_groupNumber (groups_of sid rel))"
    and g: "g \<in> set (groups_of sid rel)" "g' \<in> set (groups_of sid rel)" "group_covers n g" "group_covers n g'"
  shows "g = g'"
proof (rule ccontr)
  assume ne: "g \<noteq> g'"
  let ?L = "mset (groups_of sid rel)"
  have "{#g, g'#} \<subseteq># ?L" using g(1,2) ne by (simp add: insert_subset_eq_iff in_diff_count)
  then obtain M where M: "?L = {#g, g'#} + M" by (auto simp: mset_subset_eq_exists_conv)
  have "count (group_numbers sid rel) n \<ge> count (group_span g) n + count (group_span g') n"
    unfolding group_numbers_def M by simp
  moreover have "count (group_span g) n \<ge> 1" "count (group_span g') n \<ge> 1"
    using g(3,4) by (auto simp: group_covers_def count_greater_eq_one_iff simp del: mset_upt)
  ultimately show False using u unfolding unique_numbers_def by (metis add_mono le_trans nat_1_add_1 numeral_le_one_iff semiring_norm(69))
qed

text \<open>A catalog that has gained row groups and nothing else that counts here.\<close>

definition grown :: "nat \<Rightarrow> rel_state \<Rightarrow> rel_state \<Rightarrow> bool" where
  "grown sid rel rel' \<longleftrightarrow> rel_deletes rel' = rel_deletes rel \<and> next_row rel' = next_row rel \<and>
     PgColumnarStorageId (rs_fork (rel_file rel')) = PgColumnarStorageId (rs_fork (rel_file rel)) \<and>
     set (groups_of sid rel) \<subseteq> set (groups_of sid rel') \<and>
     ((\<forall>g \<in> set (groups_of sid rel). rg_rowCount g > 0) \<longrightarrow> (\<forall>g \<in> set (groups_of sid rel'). rg_rowCount g > 0)) \<and>
     (distinct (map rg_groupNumber (groups_of sid rel)) \<longrightarrow> distinct (map rg_groupNumber (groups_of sid rel')))"

lemma grown_refl [simp]: "grown sid rel rel"
  by (simp add: grown_def)

lemma grown_trans: "grown sid a b \<Longrightarrow> grown sid b c \<Longrightarrow> grown sid a c"
  unfolding grown_def by auto

lemma grown_catalog:
  assumes g: "grown sid rel rel'" and c: "catalog_ok sid rel" and u: "unique_numbers (group_numbers sid rel')"
  shows "catalog_ok sid rel'" "deleted_rows sid rel' = deleted_rows sid rel"
proof -
  have d: "distinct (map rg_groupNumber (groups_of sid rel'))" using g c by (simp add: grown_def catalog_ok_def Let_def)
  have del: "rel_deletes rel' = rel_deletes rel" using g by (simp add: grown_def)
  have sub: "set (groups_of sid rel) \<subseteq> set (groups_of sid rel')" using g by (simp add: grown_def)
  have ex: "row_group_exists sid k rel'" if "row_group_exists sid k rel" for k
    using that sub unfolding group_exists_list by blast
  show ok: "catalog_ok sid rel'"
    unfolding catalog_ok_def Let_def del
  proof (intro conjI d ballI allI impI)
    show "rg_rowCount g > 0" if "g \<in> set (groups_of sid rel')" for g
      using that g c unfolding grown_def catalog_ok_def Let_def by blast
    show "distinct (map dr_groupNumber (filter (\<lambda>r. dr_storageId r = sid) (rel_deletes rel)))"
      using c by (simp add: catalog_ok_def Let_def)
    show "row_group_exists sid (dr_groupNumber r) rel'" if "r \<in> set (rel_deletes rel)" "dr_storageId r = sid" for r
      using that c ex unfolding catalog_ok_def Let_def by blast
  qed (use unique_groups[OF u d] in blast)
  have "g \<in> set (groups_of sid rel)" if gg: "g \<in> set (groups_of sid rel')" "marked sid (rg_groupNumber g) (rel_deletes rel) i" for g i
  proof -
    obtain rm where "rm \<in> set (rel_deletes rel)" "dr_storageId rm = sid" "dr_groupNumber rm = rg_groupNumber g"
      using gg(2) by (auto simp: marked_def PgColumnarReadDeleteVectorList_def)
    then obtain g0 where g0: "g0 \<in> set (groups_of sid rel)" "rg_groupNumber g0 = rg_groupNumber g"
      using c unfolding catalog_ok_def Let_def group_exists_list by metis
    then have "g0 = g" using catalog_groupD[OF ok _ gg(1)] sub by blast
    then show ?thesis using g0(1) by simp
  qed
  then show "deleted_rows sid rel' = deleted_rows sid rel" using sub unfolding deleted_rows_def del by blast
qed

subsection \<open>The flush of one write state\<close>

text \<open>What is left of a reservation, and the bounds a write state keeps.\<close>

definition ws_tail :: "nat \<Rightarrow> write_state \<Rightarrow> nat multiset" where
  "ws_tail r ws = (if ws_relid ws = r \<and> ws_haveReservation ws
     then mset [ws_stripeFirstRowNumber ws + ws_stripeRowCount ws..<ws_stripeFirstRowNumber ws + ws_stripeRowLimit ws] else {#})"

definition ws_ok :: "nat \<Rightarrow> write_state \<Rightarrow> bool" where
  "ws_ok sid ws \<longleftrightarrow> ws_storageId ws = sid \<and> 0 < ws_stripeRowLimit ws \<and>
     (if ws_haveReservation ws then ws_stripeRowCount ws < ws_stripeRowLimit ws else ws_stripeRowCount ws = 0)"

text \<open>A write state as it was, but for the FSST memory and the eager mode.\<close>

definition same_state :: "write_state \<Rightarrow> write_state \<Rightarrow> bool" where
  "same_state ws ws' \<longleftrightarrow> ws_relid ws' = ws_relid ws \<and> ws_subid ws' = ws_subid ws \<and> ws_storageId ws' = ws_storageId ws \<and>
     ws_stripeRowLimit ws' = ws_stripeRowLimit ws \<and> ws_haveReservation ws' = ws_haveReservation ws \<and>
     ws_stripeFirstRowNumber ws' = ws_stripeFirstRowNumber ws \<and> ws_stripeRowCount ws' = ws_stripeRowCount ws"

lemma same_state_views:
  assumes "same_state ws ws'"
  shows "ws_items r ws' = ws_items r ws" "ws_tail r ws' = ws_tail r ws" "ws_ok sid ws' = ws_ok sid ws"
  using assms by (simp_all add: same_state_def ws_items_def ws_rows_def ws_tail_def ws_ok_def)

lemma place_keeps:
  assumes "place_row_group bpp co pr h mr base g data st = Inr (g', st')"
  shows "mp_storageId (mf_meta (rs_fork st')) = mp_storageId (mf_meta (rs_fork st))"
    "versionMajor (mf_meta (rs_fork st')) = versionMajor (mf_meta (rs_fork st))"
    "reservedRowNumber (mf_meta (rs_fork st')) = reservedRowNumber (mf_meta (rs_fork st))"
  using assms by (auto simp: place_row_group_def res_bind_Inr Let_def split_beta PgColumnarReserveOffset_def
      PgColumnarWriteLogicalData_def split: option.splits if_splits)

lemma storage_id_cong:
  assumes "mp_storageId (mf_meta f') = mp_storageId (mf_meta f)" "versionMajor (mf_meta f') = versionMajor (mf_meta f)"
  shows "PgColumnarStorageId f' = PgColumnarStorageId f"
  using assms by (simp add: PgColumnarStorageId_def PgColumnarReadMetapage_def)

lemma flush_group_grows:
  assumes fl: "flush_row_group F ws keep rel = Inr (ws', rel')" and n: "ws_stripeRowCount ws \<noteq> 0"
  shows "group_numbers (ws_storageId ws) rel' = group_numbers (ws_storageId ws) rel + ws_rows ws"
    "grown (ws_storageId ws) rel rel'" "if keep then same_state ws ws' \<and> ws_flushedUnder ws' = ws_flushedUnder ws
     else \<exists>ws1. ws' = reset_stripe ws1 \<and> same_state ws ws1 \<and> ws_flushedUnder ws1 = ws_flushedUnder ws"
proof -
  obtain crs base g rf where f: "place_row_group (fe_bpp F) (fe_coalesce F) (fe_precedes F) (fe_oldestXmin F) (fe_mayReuse F) base (group_row ws)
       (group_data crs) (rel_file rel) = Inr (g, rf)" "group_key g \<notin> group_key ` set (rs_groups (rel_file rel))"
    "flush_adds ws (map fst crs) g rf rel rel'"
    "ws' = (if keep then ws\<lparr>ws_memos := map snd crs\<rparr> else reset_stripe (ws\<lparr>ws_memos := map snd crs\<rparr>))"
    by (rule flush_row_group_cases[OF fl n]) (rule that)
  let ?sid = "ws_storageId ws"
  have g: "rg_storageId g = ?sid" "rg_rowCount g = ws_stripeRowCount ws" "rg_firstRowNumber g = ws_stripeFirstRowNumber ws"
      "rs_groups rf = rs_groups (rel_file rel) @ [g]"
    using place_fields[OF f(1)] by (simp_all add: group_row_def)
  have rf: "rel_file rel' = rf" "rel_deletes rel' = rel_deletes rel" using f(3) by (simp_all add: flush_adds_def)
  have L: "mset (groups_of ?sid rel') = add_mset g (mset (groups_of ?sid rel))"
    using g(1,4) rf(1) by (simp add: PgColumnarReadRowGroupList_def)
  then have S: "set (groups_of ?sid rel') = insert g (set (groups_of ?sid rel))" by (metis set_mset_add_mset_insert set_mset_mset)
  show "group_numbers ?sid rel' = group_numbers ?sid rel + ws_rows ws"
    using L g by (simp add: group_numbers_def ws_rows_def)
  have k: "rg_groupNumber g \<notin> rg_groupNumber ` set (groups_of ?sid rel)"
  proof
    assume "rg_groupNumber g \<in> rg_groupNumber ` set (groups_of ?sid rel)"
    then obtain h where h: "h \<in> set (rs_groups (rel_file rel))" "rg_storageId h = ?sid" "rg_groupNumber h = rg_groupNumber g"
      by (auto simp: set_group_list)
    then have "group_key g = group_key h" using g(1) by (simp add: group_key_def)
    then show False using f(2) h(1) by blast
  qed
  have "mset (map rg_groupNumber (groups_of ?sid rel')) = mset (rg_groupNumber g # map rg_groupNumber (groups_of ?sid rel))"
    using L by (simp add: mset_map del: mset_map[symmetric])
  then have "distinct (map rg_groupNumber (groups_of ?sid rel')) \<longleftrightarrow> distinct (rg_groupNumber g # map rg_groupNumber (groups_of ?sid rel))"
    by (rule mset_eq_imp_distinct_iff)
  moreover have "PgColumnarStorageId (rs_fork (rel_file rel')) = PgColumnarStorageId (rs_fork (rel_file rel))"
    unfolding rf(1) by (rule storage_id_cong[OF place_keeps(1,2)[OF f(1)]])
  ultimately show "grown ?sid rel rel'"
    using S k g(2) n rf place_keeps(3)[OF f(1)] by (auto simp: grown_def)
  show "if keep then same_state ws ws' \<and> ws_flushedUnder ws' = ws_flushedUnder ws
     else \<exists>ws1. ws' = reset_stripe ws1 \<and> same_state ws ws1 \<and> ws_flushedUnder ws1 = ws_flushedUnder ws"
    using f(4) by (auto simp: same_state_def)
qed

text \<open>The step of one registry entry in a flush, with its relation.\<close>

definition ws_flushed :: "nat \<Rightarrow> nat \<Rightarrow> write_state \<Rightarrow> rel_state \<Rightarrow> write_state \<Rightarrow> rel_state \<Rightarrow> bool" where
  "ws_flushed cur sid ws rel ws' rel' \<longleftrightarrow> ws_relid ws' = ws_relid ws \<and> grown sid rel rel' \<and> (ws_ok sid ws \<longrightarrow> ws_ok sid ws') \<and>
     (\<forall>r. ws_tail r ws' \<subseteq># ws_tail r ws) \<and>
     (\<forall>r. writes.flush_step r cur ws (if ws_relid ws = r then group_numbers sid rel else {#})
            ws' (if ws_relid ws = r then group_numbers sid rel' else {#}))"

lemma ws_flushed_same: "ws_flushed cur sid ws rel ws rel"
  by (simp add: ws_flushed_def writes.flush_step_def)

lemma ws_flushed_noted:
  assumes "same_state ws ws'" "ws_subid ws = cur" "ws_flushedUnder ws = 0" "ws_flushedUnder ws' = 0" "ws_stripeRowCount ws = 0"
  shows "ws_flushed cur sid ws rel ws' rel"
  using assms same_state_views[OF assms(1)]
  by (simp add: ws_flushed_def writes.flush_step_def ws_items_def ws_rows_def) (simp add: same_state_def)

lemma ws_flushed_written:
  assumes fl: "flush_row_group F ws (ws_subid ws \<noteq> cur) rel = Inr (ws1, rel')" and n: "ws_stripeRowCount ws \<noteq> 0"
    and u: "ws_flushedUnder ws = 0" and s: "ws_storageId ws = sid"
    and w: "same_state ws1 ws'" "ws_flushedUnder ws' = (if ws_subid ws \<noteq> cur then cur else 0)"
  shows "ws_flushed cur sid ws rel ws' rel'"
proof -
  note f = flush_group_grows[OF fl n, unfolded s]
  note v = same_state_views[OF w(1)]
  have r: "ws_relid ws1 = ws_relid ws \<and> ws_subid ws1 = ws_subid ws \<and> (ws_ok sid ws \<longrightarrow> ws_ok sid ws1) \<and>
      ws_tail r ws1 \<subseteq># ws_tail r ws \<and> ws_items r ws1 = (if ws_subid ws \<noteq> cur then ws_items r ws else {#})" for r
  proof (cases "ws_subid ws = cur")
    case True
    then obtain ws0 where "ws1 = reset_stripe ws0" "same_state ws ws0" using f(3) by auto
    then show ?thesis using True by (simp add: same_state_def reset_stripe_def ws_ok_def ws_tail_def ws_items_def ws_rows_def)
  next
    case False
    then have "same_state ws ws1" using f(3) by simp
    then show ?thesis using False same_state_views[of ws ws1] by (simp add: same_state_def)
  qed
  have e: "ws_relid ws' = ws_relid ws1" "ws_subid ws' = ws_subid ws1" using w(1) by (simp_all add: same_state_def)
  have "writes.flush_step r cur ws (if ws_relid ws = r then group_numbers sid rel else {#})
            ws' (if ws_relid ws = r then group_numbers sid rel' else {#})" for r
  proof -
    have "(if ws_relid ws = r then group_numbers sid rel' else {#}) = (if ws_relid ws = r then group_numbers sid rel else {#}) + ws_items r ws"
      using f(1) by (simp add: ws_items_def)
    then show ?thesis using r[of r] e v[of r] w(2) u unfolding writes.flush_step_def by simp
  qed
  then show ?thesis using f(2) r e v unfolding ws_flushed_def by simp
qed

subsection \<open>Walks of the write registry\<close>

lemma flush_for_relation_step:
  assumes "flush_for_relation F cur q ws rel = Inr (ws', rel')" "ws_storageId ws = sid"
  shows "ws_flushed cur sid ws rel ws' rel'"
proof (cases "ws_relid ws = q \<and> ws_flushedUnder ws = 0 \<and> ws_stripeRowCount ws \<noteq> 0")
  case True
  then obtain ws1 where w: "flush_row_group F ws (ws_subid ws \<noteq> cur) rel = Inr (ws1, rel')"
      "ws' = (if ws_subid ws \<noteq> cur then ws1\<lparr>ws_flushedUnder := cur, ws_eagerFlush := True\<rparr> else ws1)"
    using assms(1) by (auto simp: flush_for_relation_def InvalidSubTransactionId_def Let_def res_bind_Inr split: if_splits)
  have "ws_flushedUnder ws1 = 0" using flush_group_grows(3)[OF w(1)] True by (auto simp: reset_stripe_def split: if_splits)
  then show ?thesis using True assms(2) w by (intro ws_flushed_written[OF w(1)]) (auto simp: same_state_def)
next
  case False
  then have "ws' = ws \<and> rel' = rel"
    using assms(1) by (auto simp: flush_for_relation_def InvalidSubTransactionId_def Let_def res_bind_Inr split: if_splits)
  then show ?thesis by (simp add: ws_flushed_same)
qed

lemma flush_owned_step:
  assumes "pgcolumnar_flush_row_group F ws rel = Inr (ws1, rel')" "ws_storageId ws = sid" "ws_subid ws = cur" "ws_flushedUnder ws = 0"
    and "same_state ws1 ws'" "ws_flushedUnder ws' = ws_flushedUnder ws1"
  shows "ws_flushed cur sid ws rel ws' rel'"
proof (cases "ws_stripeRowCount ws = 0")
  case True
  then have "ws1 = ws" "rel' = rel" using assms(1) by (simp_all add: pgcolumnar_flush_row_group_def flush_row_group_def)
  then show ?thesis using True assms by (auto intro!: ws_flushed_noted)
next
  case False
  have w: "flush_row_group F ws (ws_subid ws \<noteq> cur) rel = Inr (ws1, rel')" using assms(1,3) by (simp add: pgcolumnar_flush_row_group_def)
  have "ws_flushedUnder ws1 = 0" using flush_group_grows(3)[OF w False] assms(3,4) by (auto simp: reset_stripe_def)
  then show ?thesis by (intro ws_flushed_written[OF w False]) (use assms in auto)
qed

lemma same_state_refl [simp]: "same_state ws ws" "same_state ws (ws\<lparr>ws_eagerFlush := b\<rparr>)"
  by (simp_all add: same_state_def)

definition write_steps :: "(nat \<Rightarrow> nat) \<Rightarrow> nat \<Rightarrow> (write_state \<Rightarrow> rel_state \<Rightarrow> (write_state \<times> rel_state) result) \<Rightarrow> write_state list \<Rightarrow> bool" where
  "write_steps sid cur f wss \<longleftrightarrow>
     (\<forall>ws \<in> set wss. \<forall>rel ws' rel'. f ws rel = Inr (ws', rel') \<longrightarrow> ws_flushed cur (sid (ws_relid ws)) ws rel ws' rel')"

definition tails :: "nat \<Rightarrow> write_state list \<Rightarrow> nat multiset" where
  "tails r wss = sum_list (map (ws_tail r) wss)"

lemma tails_simps [simp]: "tails r [] = {#}" "tails r (ws # wss) = ws_tail r ws + tails r wss" "tails r (xs @ ys) = tails r xs + tails r ys"
  by (simp_all add: tails_def)

lemma write_walk_all:
  assumes "registry_walk ws_relid f wss rels = Inr (wss', rels')" "write_steps sid cur f wss"
  shows "writes.flush_walk r cur wss (group_numbers (sid r) (rels r)) wss' (group_numbers (sid r) (rels' r)) \<and>
    grown (sid r) (rels r) (rels' r) \<and> tails r wss' \<subseteq># tails r wss \<and>
    ((\<forall>ws \<in> set wss. ws_ok (sid (ws_relid ws)) ws) \<longrightarrow> (\<forall>ws \<in> set wss'. ws_ok (sid (ws_relid ws)) ws))"
  using assms
proof (induction wss arbitrary: rels wss')
  case (Cons ws wss)
  from Cons.prems(1) obtain ws1 rel1 wss1 where f: "f ws (rels (ws_relid ws)) = Inr (ws1, rel1)"
      "registry_walk ws_relid f wss (rels(ws_relid ws := rel1)) = Inr (wss1, rels')" "wss' = ws1 # wss1"
    by (auto simp: res_bind_Inr)
  have s: "ws_flushed cur (sid (ws_relid ws)) ws (rels (ws_relid ws)) ws1 rel1" "write_steps sid cur f wss"
    using Cons.prems(2) f(1) by (auto simp: write_steps_def)
  note ih = Cons.IH[OF f(2) s(2)]
  let ?r1 = "rels(ws_relid ws := rel1)"
  have "writes.flush_step r cur ws (group_numbers (sid r) (rels r)) ws1 (group_numbers (sid r) (?r1 r))"
  proof (cases "ws_relid ws = r")
    case True
    then show ?thesis using s(1) unfolding ws_flushed_def by (metis fun_upd_same)
  next
    case False
    then have "writes.flush_step r cur ws {#} ws1 {#}" "ws_items r ws = {#}" using s(1) unfolding ws_flushed_def by (metis, simp add: ws_items_def)
    then show ?thesis using False unfolding writes.flush_step_def by auto
  qed
  then have "writes.flush_walk r cur (ws # wss) (group_numbers (sid r) (rels r)) wss' (group_numbers (sid r) (rels' r))"
    using ih f(3) by auto
  moreover have "grown (sid r) (rels r) (?r1 r)" using s(1) by (simp add: ws_flushed_def)
  then have "grown (sid r) (rels r) (rels' r)" using ih grown_trans by blast
  moreover have "tails r wss' \<subseteq># tails r (ws # wss)" using ih s(1) f(3) by (auto simp: ws_flushed_def intro: subset_mset.add_mono)
  moreover have "(\<forall>ws \<in> set (ws # wss). ws_ok (sid (ws_relid ws)) ws) \<longrightarrow> (\<forall>ws \<in> set wss'. ws_ok (sid (ws_relid ws)) ws)"
    using ih s(1) f(3) by (auto simp: ws_flushed_def)
  ultimately show ?case by blast
qed simp

lemmas write_walk = write_walk_all[THEN conjunct1] write_walk_all[THEN conjunct2, THEN conjunct1]
  write_walk_all[THEN conjunct2, THEN conjunct2, THEN conjunct1] write_walk_all[THEN conjunct2, THEN conjunct2, THEN conjunct2, rule_format]

subsection \<open>The simulation relation\<close>

text \<open>
  For the table \<open>r\<close>: row numbers in use are unique and below the counter, together with what is
  left of the reservations; at every level the catalog and the unwritten buffers hold what the
  frames say; delete buffers stand for groups of the catalogs their owner sees.
\<close>

definition write_inv ::
  "nat \<Rightarrow> nat \<Rightarrow> nat multiset \<Rightarrow> nat multiset list \<Rightarrow> nat list \<Rightarrow> rel_state list \<Rightarrow> write_state list \<Rightarrow> bool" where
  "write_inv r sd base fs ss cats wss \<longleftrightarrow> writes.registry_ok ss wss \<and>
     writes.balanced r base wss ss (map (group_numbers sd) cats) fs \<and>
     unique_numbers (base + sum_list fs + tails r wss) \<and>
     (\<forall>n \<in># base + sum_list fs + tails r wss. n < next_row (hd cats))"

fun levels_ok :: "nat \<Rightarrow> nat \<Rightarrow> dv_buffer list \<Rightarrow> nat list \<Rightarrow> rel_state list \<Rightarrow> bool" where
  "levels_ok r sd bufs (s # ss) (c # cs) \<longleftrightarrow> catalog_ok sd c \<and>
     (\<forall>b \<in> set bufs. dvb_relid b = r \<and> dvb_subid b \<in> set (s # ss) \<longrightarrow> buffer_ok (set (groups_of sd c)) b) \<and>
     levels_ok r sd bufs ss cs"
| "levels_ok r sd bufs _ _ \<longleftrightarrow> True"

definition delete_inv :: "nat \<Rightarrow> nat \<Rightarrow> nat set \<Rightarrow> nat set list \<Rightarrow> nat list \<Rightarrow> rel_state list \<Rightarrow> dv_buffer list \<Rightarrow> bool" where
  "delete_inv r sd dbase ds ss cats bufs \<longleftrightarrow> deletes.registry_ok ss bufs \<and>
     deletes.balanced r dbase bufs ss (map (deleted_rows sd) cats) ds \<and> levels_ok r sd bufs ss cats"

fun lives :: "nat multiset \<Rightarrow> nat multiset list \<Rightarrow> nat set \<Rightarrow> nat set list \<Rightarrow> nat set list" where
  "lives base (f # fs) dbase (d # ds) =
     (set_mset (base + sum_list (f # fs)) - (dbase \<union> \<Union> (set (d # ds)))) # lives base fs dbase ds"
| "lives base _ dbase _ = []"

definition rel_sim :: "nat \<Rightarrow> nat \<Rightarrow> nat list \<Rightarrow> rel_state list \<Rightarrow> write_state list \<Rightarrow> dv_buffer list \<Rightarrow> nat set list \<Rightarrow> bool" where
  "rel_sim sd r ss cats wss bufs xs \<longleftrightarrow> ss \<noteq> [] \<and> length cats = length ss \<and>
     (\<exists>base fs dbase ds. write_inv r sd base fs ss cats wss \<and> delete_inv r sd dbase ds ss cats bufs \<and> xs = lives base fs dbase ds)"

lemma rel_simI:
  "ss \<noteq> [] \<Longrightarrow> length cats = length ss \<Longrightarrow> write_inv r sd base fs ss cats wss \<Longrightarrow> delete_inv r sd dbase ds ss cats bufs \<Longrightarrow>
   xs = lives base fs dbase ds \<Longrightarrow> rel_sim sd r ss cats wss bufs xs"
  unfolding rel_sim_def by blast

lemma tally_sums: "writes.tally fs = sum_list fs" "deletes.tally ds = \<Union> (set ds)"
proof -
  show "writes.tally fs = sum_list fs" by (induction fs) simp_all
  show "deletes.tally ds = \<Union> (set ds)" by (induction ds) simp_all
qed

lemma level_numbers:
  assumes "write_inv r sd base fs (s # ss) (c # cs) wss"
  shows "group_numbers sd c + writes.pending r (set (s # ss)) wss = base + sum_list fs" "unique_numbers (group_numbers sd c)"
    "group_rows sd c \<subseteq> set_mset (base + sum_list fs)"
proof -
  obtain f gs where f: "fs = f # gs" using assms by (cases fs) (auto simp: write_inv_def)
  show e: "group_numbers sd c + writes.pending r (set (s # ss)) wss = base + sum_list fs"
    using assms unfolding write_inv_def f by (simp add: tally_sums)
  then have sub: "group_numbers sd c \<subseteq># base + sum_list fs" by (metis mset_subset_eq_add_left)
  then have "group_numbers sd c \<subseteq># base + sum_list fs + tails r wss" by (metis mset_subset_eq_add_left subset_mset.order_trans)
  then show "unique_numbers (group_numbers sd c)" using assms unique_mono unfolding write_inv_def by blast
  show "group_rows sd c \<subseteq> set_mset (base + sum_list fs)" using set_mset_mono[OF sub] by simp
qed

lemma level_deletes:
  assumes "delete_inv r sd dbase ds (s # ss) (c # cs) bufs"
  shows "deleted_rows sd c \<union> deletes.pending r (set (s # ss)) bufs = dbase \<union> \<Union> (set ds)" "catalog_ok sd c"
    "b \<in> set bufs \<Longrightarrow> dvb_relid b = r \<Longrightarrow> buffer_ok (set (groups_of sd c)) b"
proof -
  obtain d gs where d: "ds = d # gs" using assms by (cases ds) (auto simp: delete_inv_def)
  show "deleted_rows sd c \<union> deletes.pending r (set (s # ss)) bufs = dbase \<union> \<Union> (set ds)"
    using assms unfolding delete_inv_def d by (simp add: tally_sums)
  show "catalog_ok sd c" using assms by (simp add: delete_inv_def)
  show "buffer_ok (set (groups_of sd c)) b" if "b \<in> set bufs" "dvb_relid b = r"
    using assms that deletes.place_okD unfolding delete_inv_def deletes.registry_ok_def by fastforce
qed

lemma inv_lengths:
  assumes "write_inv r sd base fs ss cats wss" "delete_inv r sd dbase ds ss cats bufs"
  shows "length fs = length ss" "length ds = length ss"
  using assms writes.balanced_lengths deletes.balanced_lengths unfolding write_inv_def delete_inv_def by blast+

lemma levels_cong:
  assumes "levels_ok r sd bufs ss cats"
    and "\<And>b'. b' \<in> set bufs' \<Longrightarrow> dvb_relid b' = r \<Longrightarrow> dvb_subid b' \<in> set ss \<Longrightarrow>
      \<exists>b \<in> set bufs. dvb_relid b = r \<and> dvb_subid b = dvb_subid b' \<and> (\<forall>G. buffer_ok G b \<longrightarrow> buffer_ok G b')"
  shows "levels_ok r sd bufs' ss cats"
  using assms
proof (induction r sd bufs ss cats rule: levels_ok.induct)
  case (1 r sd bufs s ss c cs)
  then have "levels_ok r sd bufs' ss cs" by (metis levels_ok.simps(1) list.set_intros(2))
  moreover have "buffer_ok (set (groups_of sd c)) b'" if "b' \<in> set bufs'" "dvb_relid b' = r" "dvb_subid b' \<in> set (s # ss)" for b'
    using "1.prems"(2)[OF that] "1.prems"(1) that(3) by fastforce
  ultimately show ?case using "1.prems"(1) by simp
qed simp_all

subsubsection \<open>Flushes\<close>

lemma sim_flush_writes:
  assumes sim: "rel_sim sd r (s # ss) (c # cs) wss bufs xs"
    and fl: "writes.flush_walk r s wss (group_numbers sd c) wss' (group_numbers sd c')" "grown sd c c'" "tails r wss' \<subseteq># tails r wss"
  shows "rel_sim sd r (s # ss) (c' # cs) wss' bufs xs"
proof -
  obtain base fs dbase ds where inv: "write_inv r sd base fs (s # ss) (c # cs) wss" "delete_inv r sd dbase ds (s # ss) (c # cs) bufs"
      "xs = lives base fs dbase ds" "length cs = length ss" using sim unfolding rel_sim_def by auto
  obtain f gs where f: "fs = f # gs" using inv_lengths[OF inv(1,2)] by (cases fs) auto
  have b: "writes.balanced r base wss (s # ss) (group_numbers sd c # map (group_numbers sd) cs) (f # gs)" "writes.registry_ok (s # ss) wss"
    using inv(1) by (simp_all add: write_inv_def f)
  note b' = writes.flush_balanced[OF b fl(1)]
  have sub: "base + sum_list fs + tails r wss' \<subseteq># base + sum_list fs + tails r wss" using fl(3) by simp
  have w: "write_inv r sd base fs (s # ss) (c' # cs) wss'"
    using inv(1) b' unique_mono[OF _ sub] set_mset_mono[OF sub] fl(2) unfolding write_inv_def f grown_def by auto
  note u = grown_catalog[OF fl(2) level_deletes(2)[OF inv(2)] level_numbers(2)[OF w]]
  have "set (groups_of sd c) \<subseteq> set (groups_of sd c')" using fl(2) by (simp add: grown_def)
  then have "delete_inv r sd dbase ds (s # ss) (c' # cs) bufs"
    using inv(2) u buffer_ok_mono unfolding delete_inv_def by (simp, blast)
  then show ?thesis using w inv(3,4) unfolding rel_sim_def by auto
qed

lemma sim_flush_deletes:
  assumes sim: "rel_sim sd r (s # ss) (c # cs) wss bufs xs"
    and fl: "deletes.flush_walk r s bufs (deleted_rows sd c) bufs' (deleted_rows sd c')" "c' = c\<lparr>rel_deletes := rel_deletes c'\<rparr>" "catalog_ok sd c'"
    and b: "\<And>b'. b' \<in> set bufs' \<Longrightarrow> dvb_relid b' = r \<Longrightarrow>
      \<exists>b \<in> set bufs. dvb_relid b = r \<and> dvb_subid b = dvb_subid b' \<and> (\<forall>G. buffer_ok G b \<longrightarrow> buffer_ok G b')"
  shows "rel_sim sd r (s # ss) (c' # cs) wss bufs' xs"
proof -
  obtain base fs dbase ds where inv: "write_inv r sd base fs (s # ss) (c # cs) wss" "delete_inv r sd dbase ds (s # ss) (c # cs) bufs"
      "xs = lives base fs dbase ds" "length cs = length ss" using sim unfolding rel_sim_def by auto
  obtain d gs where d: "ds = d # gs" using inv_lengths[OF inv(1,2)] by (cases ds) auto
  have bal: "deletes.balanced r dbase bufs (s # ss) (deleted_rows sd c # map (deleted_rows sd) cs) (d # gs)" "deletes.registry_ok (s # ss) bufs"
    using inv(2) by (simp_all add: delete_inv_def d)
  have g: "groups_of sd c' = groups_of sd c" using fl(2) by (metis group_list_deletes)
  have "rel_file c' = rel_file c" using fl(2) by (metis rel_state.select_convs(1) rel_state.surjective rel_state.update_convs(7))
  then have "write_inv r sd base fs (s # ss) (c' # cs) wss" using inv(1) g by (simp add: write_inv_def group_numbers_def)
  moreover have "levels_ok r sd bufs' (s # ss) (c # cs)" using levels_cong[of r sd bufs "s # ss" "c # cs" bufs'] b inv(2) unfolding delete_inv_def by blast
  then have "levels_ok r sd bufs' (s # ss) (c' # cs)" using fl(3) g by simp
  then have "delete_inv r sd dbase ds (s # ss) (c' # cs) bufs'"
    using deletes.flush_balanced[OF bal fl(1)] by (simp add: delete_inv_def d)
  ultimately show ?thesis using inv(3,4) unfolding rel_sim_def by auto
qed

subsubsection \<open>Subtransactions\<close>

lemma rolled_back_views [simp]:
  "group_numbers sd (rolled_back old rel) = group_numbers sd old" "deleted_rows sd (rolled_back old rel) = deleted_rows sd old"
  "catalog_ok sd (rolled_back old rel) = catalog_ok sd old" "groups_of sd (rolled_back old rel) = groups_of sd old"
  "next_row (rolled_back old rel) = next_row rel"
  "PgColumnarStorageId (rs_fork (rel_file (rolled_back old rel))) = PgColumnarStorageId (rs_fork (rel_file rel))"
proof -
  show g: "groups_of sd (rolled_back old rel) = groups_of sd old" by (simp add: rolled_back_def PgColumnarReadRowGroupList_def)
  have d: "rel_deletes (rolled_back old rel) = rel_deletes old" by (simp add: rolled_back_def)
  show "group_numbers sd (rolled_back old rel) = group_numbers sd old" "deleted_rows sd (rolled_back old rel) = deleted_rows sd old"
    using g d by (simp_all add: group_numbers_def deleted_rows_def)
  show "catalog_ok sd (rolled_back old rel) = catalog_ok sd old"
    unfolding catalog_ok_def Let_def group_exists_list g d ..
  show "next_row (rolled_back old rel) = next_row rel"
    "PgColumnarStorageId (rs_fork (rel_file (rolled_back old rel))) = PgColumnarStorageId (rs_fork (rel_file rel))"
    by (simp_all add: rolled_back_def)
qed

lemma sim_begin:
  assumes sim: "rel_sim sd r ss (c # cs) wss bufs xs" and s: "s \<notin> set ss" "s \<noteq> 0"
  shows "rel_sim sd r (s # ss) (c # c # cs) wss bufs (spec_step r Begin_Sub xs)"
proof -
  obtain base fs dbase ds where inv: "write_inv r sd base fs ss (c # cs) wss" "delete_inv r sd dbase ds ss (c # cs) bufs"
      "xs = lives base fs dbase ds" "length (c # cs) = length ss" using sim unfolding rel_sim_def by auto
  obtain p ss' f gs d es where l: "ss = p # ss'" "fs = f # gs" "ds = d # es" using inv_lengths[OF inv(1,2)] inv(4) by (cases ss; cases fs; cases ds) auto
  have "writes.balanced r base wss (p # ss') (group_numbers sd c # map (group_numbers sd) cs) (f # gs)" "writes.registry_ok (p # ss') wss"
    using inv(1) by (simp_all add: write_inv_def l)
  note w = writes.begin_balanced[OF this s[unfolded l(1)]]
  have "deletes.balanced r dbase bufs (p # ss') (deleted_rows sd c # map (deleted_rows sd) cs) (d # es)" "deletes.registry_ok (p # ss') bufs"
    using inv(2) by (simp_all add: delete_inv_def l)
  note d = deletes.begin_balanced[OF this s[unfolded l(1)]]
  have wi: "write_inv r sd base ({#} # fs) (s # ss) (c # c # cs) wss" using inv(1) w by (simp add: write_inv_def l)
  have "levels_ok r sd bufs (s # ss) (c # c # cs)"
    using inv(2) level_deletes(3)[OF inv(2)[unfolded l(1)]] by (simp add: delete_inv_def l level_deletes(2)[OF inv(2)[unfolded l(1)]])
  then have di: "delete_inv r sd dbase ({} # ds) (s # ss) (c # c # cs) bufs" using d by (simp add: delete_inv_def l)
  have "spec_step r Begin_Sub xs = lives base ({#} # fs) dbase ({} # ds)" using inv(3) by (simp add: l)
  then show ?thesis using inv(4) by (intro rel_simI[OF _ _ wi di]) simp_all
qed

lemma tails_map:
  assumes "\<And>ws. ws \<in> set wss \<Longrightarrow> ws_tail r (h ws) \<subseteq># ws_tail r ws"
  shows "tails r (map h wss) \<subseteq># tails r wss"
  using assms by (induction wss) (auto intro: subset_mset.add_mono)

lemma tails_filter: "tails r (filter P wss) \<subseteq># tails r wss"
  by (induction wss) (auto intro: subset_mset.add_increasing)

lemma pool_mono:
  assumes "N \<subseteq># M" "unique_numbers M" "\<forall>n \<in># M. n < b"
  shows "unique_numbers N" "\<forall>n \<in># N. n < b"
  using assms unique_mono set_mset_mono by blast+

lemma sim_abort:
  assumes sim: "rel_sim sd r (s # ss) (c # c1 # cs) wss bufs xs"
  shows "rel_sim sd r ss (rolled_back c1 c # cs) (writes.discard s wss) (deletes.discard s bufs) (spec_step r Abort_Sub xs)"
proof -
  obtain base fs dbase ds where inv: "write_inv r sd base fs (s # ss) (c # c1 # cs) wss" "delete_inv r sd dbase ds (s # ss) (c # c1 # cs) bufs"
      "xs = lives base fs dbase ds" "length (c1 # cs) = length ss" using sim unfolding rel_sim_def by auto
  obtain p ss' f f' gs d d' es where l: "ss = p # ss'" "fs = f # f' # gs" "ds = d # d' # es"
    using inv_lengths[OF inv(1,2)] inv(4) by (cases ss; cases fs; cases ds) (auto simp: length_Suc_conv)
  have "writes.balanced r base wss (s # ss) (group_numbers sd c # map (group_numbers sd) (c1 # cs)) (f # f' # gs)" "writes.registry_ok (s # ss) wss"
    using inv(1) by (simp_all add: write_inv_def l(2))
  note w = writes.abort_balanced[OF this]
  have "deletes.balanced r dbase bufs (s # ss) (deleted_rows sd c # map (deleted_rows sd) (c1 # cs)) (d # d' # es)" "deletes.registry_ok (s # ss) bufs"
    using inv(2) by (simp_all add: delete_inv_def l(3))
  note d = deletes.abort_balanced[OF this]
  have "tails r (writes.discard s wss) \<subseteq># tails r wss"
    unfolding writes.discard_def
    by (rule subset_mset.order_trans[OF tails_map tails_filter]) (auto simp: ws_tail_def)
  then have sub: "base + sum_list (f' # gs) + tails r (writes.discard s wss) \<subseteq># base + sum_list fs + tails r wss"
    unfolding l(2) by (simp add: subset_mset.add_increasing)
  note pool = pool_mono[OF sub inv(1)[unfolded write_inv_def, THEN conjunct2, THEN conjunct2, THEN conjunct1]
      inv(1)[unfolded write_inv_def, THEN conjunct2, THEN conjunct2, THEN conjunct2]]
  have wi: "write_inv r sd base (f' # gs) ss (rolled_back c1 c # cs) (writes.discard s wss)"
    unfolding write_inv_def using w pool by simp
  have "levels_ok r sd bufs ss (rolled_back c1 c # cs)" using inv(2) by (simp add: delete_inv_def l(1))
  then have "levels_ok r sd (deletes.discard s bufs) ss (rolled_back c1 c # cs)"
    by (rule levels_cong) (auto simp: deletes.discard_def buffer_ok_def)
  then have di: "delete_inv r sd dbase (d' # es) ss (rolled_back c1 c # cs) (deletes.discard s bufs)" using d by (simp add: delete_inv_def)
  have "spec_step r Abort_Sub xs = lives base (f' # gs) dbase (d' # es)" using inv(3) by (simp add: l)
  then show ?thesis using inv(4) l(1) by (intro rel_simI[OF _ _ wi di]) simp_all
qed

lemma promote_buffer_ok: "buffer_ok G b \<Longrightarrow> buffer_ok G (deletes.promote_one s p b)"
  by (auto simp: deletes.promote_one_def buffer_ok_def delete_vector_reset_buffer_def Let_def)

lemma promote_views:
  "ws_tail r (writes.promote_one s p ws) \<subseteq># ws_tail r ws" "dvb_relid (deletes.promote_one s p b) = dvb_relid b"
  "dvb_subid (deletes.promote_one s p b) = (if dvb_subid b = s then p else dvb_subid b)"
  by (simp_all add: writes.promote_one_def deletes.promote_one_def delete_vector_reset_buffer_def ws_tail_def reset_stripe_def Let_def)

lemma sim_commit:
  assumes sim: "rel_sim sd r (s # p # ss) (c # c1 # cs) wss bufs xs"
  shows "rel_sim sd r (p # ss) (c # cs) (map (writes.promote_one s p) wss) (map (deletes.promote_one s p) bufs) (spec_step r Commit_Sub xs)"
proof -
  obtain base fs dbase ds where inv: "write_inv r sd base fs (s # p # ss) (c # c1 # cs) wss" "delete_inv r sd dbase ds (s # p # ss) (c # c1 # cs) bufs"
      "xs = lives base fs dbase ds" "length cs = length ss" using sim unfolding rel_sim_def by auto
  obtain f f' gs d d' es where l: "fs = f # f' # gs" "ds = d # d' # es"
    using inv_lengths[OF inv(1,2)] by (cases fs; cases ds) (auto simp: length_Suc_conv)
  have "writes.balanced r base wss (s # p # ss) (group_numbers sd c # group_numbers sd c1 # map (group_numbers sd) cs) (f # f' # gs)"
      "writes.registry_ok (s # p # ss) wss" using inv(1) by (simp_all add: write_inv_def l)
  note w = writes.commit_balanced[OF this]
  have "deletes.balanced r dbase bufs (s # p # ss) (deleted_rows sd c # deleted_rows sd c1 # map (deleted_rows sd) cs) (d # d' # es)"
    and reg: "deletes.registry_ok (s # p # ss) bufs" using inv(2) by (simp_all add: delete_inv_def l)
  note d = deletes.commit_balanced[OF this]
  have "tails r (map (writes.promote_one s p) wss) \<subseteq># tails r wss"
    by (rule tails_map) (simp add: promote_views)
  then have sub: "base + sum_list ((f + f') # gs) + tails r (map (writes.promote_one s p) wss) \<subseteq># base + sum_list fs + tails r wss"
    by (simp add: l add.assoc)
  note pool = pool_mono[OF sub inv(1)[unfolded write_inv_def, THEN conjunct2, THEN conjunct2, THEN conjunct1]
      inv(1)[unfolded write_inv_def, THEN conjunct2, THEN conjunct2, THEN conjunct2]]
  have wi: "write_inv r sd base ((f + f') # gs) (p # ss) (c # cs) (map (writes.promote_one s p) wss)"
    unfolding write_inv_def using w pool by simp
  have "levels_ok r sd bufs ss cs" using inv(2) by (simp add: delete_inv_def)
  then have "levels_ok r sd (map (deletes.promote_one s p) bufs) ss cs"
  proof (rule levels_cong)
    fix b' assume b': "b' \<in> set (map (deletes.promote_one s p) bufs)" "dvb_relid b' = r" "dvb_subid b' \<in> set ss"
    then obtain b where b: "b \<in> set bufs" "b' = deletes.promote_one s p b" by auto
    have ne: "p \<notin> set ss" "s \<noteq> p" using reg by (auto simp: deletes.registry_ok_def)
    have "dvb_relid b = dvb_relid b'" "dvb_subid b' = (if dvb_subid b = s then p else dvb_subid b)"
      unfolding b(2) by (simp_all add: promote_views)
    then show "\<exists>b \<in> set bufs. dvb_relid b = r \<and> dvb_subid b = dvb_subid b' \<and> (\<forall>G. buffer_ok G b \<longrightarrow> buffer_ok G b')"
      using b b' ne promote_buffer_ok by (intro bexI[of _ b]) (auto split: if_splits)
  qed
  then have "levels_ok r sd (map (deletes.promote_one s p) bufs) (p # ss) (c # cs)"
    using level_deletes(2,3)[OF inv(2)] promote_buffer_ok
    by (auto simp: promote_views)
  then have di: "delete_inv r sd dbase ((d \<union> d') # es) (p # ss) (c # cs) (map (deletes.promote_one s p) bufs)" using d by (simp add: delete_inv_def)
  have "spec_step r Commit_Sub xs = lives base ((f + f') # gs) dbase ((d \<union> d') # es)" using inv(3) by (simp add: l add.assoc Un_assoc)
  then show ?thesis using inv(4) by (intro rel_simI[OF _ _ wi di]) simp_all
qed

subsubsection \<open>Rows and marks\<close>

lemma marks_in_groups: "buffer_ok (set (groups_of sd c)) b \<Longrightarrow> buffer_marks b \<subseteq> group_rows sd c"
proof
  fix n assume ok: "buffer_ok (set (groups_of sd c)) b" and "n \<in> buffer_marks b"
  then obtain k i where k: "k \<in> set (dvb_chunks b)" "n = dvc_startRowNumber k + i" "bufbit (dvc_mask k) i"
    by (auto simp: buffer_marks_def chunk_marks_def)
  then obtain g where g: "g \<in> set (groups_of sd c)" "chunk_of_group k g" using ok by (auto simp: buffer_ok_def)
  then have "group_covers n g" using k by (simp add: chunk_of_group_def group_covers_def)
  then show "n \<in> group_rows sd c" using g(1) by (auto simp: group_rows_def)
qed

lemma deletes_in_rows:
  assumes "write_inv r sd base fs (s # ss) (c # cs) wss" "delete_inv r sd dbase ds (s # ss) (c # cs) bufs"
  shows "dbase \<union> \<Union> (set ds) \<subseteq> set_mset (base + sum_list fs)"
proof -
  have "deletes.pending r S xs \<subseteq> group_rows sd c" if "set xs \<subseteq> set bufs" for S xs
    using that
  proof (induction xs)
    case (Cons x xs)
    have "dv_items r x \<subseteq> group_rows sd c"
      using Cons.prems level_deletes(3)[OF assms(2)] marks_in_groups unfolding dv_items_def by auto
    then show ?case using Cons by (auto simp: deletes.share_def)
  qed simp
  moreover have "deleted_rows sd c \<subseteq> group_rows sd c" by (auto simp: deleted_rows_def group_rows_def)
  ultimately show ?thesis using level_deletes(1)[OF assms(2)] level_numbers(3)[OF assms(1)] by blast
qed

lemma pending_replace:
  assumes "ws_subid b = s" "ws_flushedUnder b = 0" "ws_subid b' = s" "ws_flushedUnder b' = 0" "ws_items r b' = ws_items r b + X" "0 \<notin> S"
  shows "writes.pending r S (pre @ b' # post) = (if s \<in> S then X else {#}) + writes.pending r S (pre @ b # post)"
  using assms by (simp add: writes.pending_append writes.share_def writes.counted_def)

lemma unique_add:
  assumes "unique_numbers M" "unique_numbers N" "\<And>n. n \<in># M \<Longrightarrow> n \<notin># N"
  shows "unique_numbers (M + N)"
  unfolding unique_numbers_def
proof
  fix n show "count (M + N) n \<le> 1"
    using assms(1,2) assms(3)[of n] unfolding unique_numbers_def by (cases "n \<in># M") (simp_all add: not_in_iff)
qed

lemma unique_disjoint:
  assumes "unique_numbers (M + N)" shows "set_mset M \<inter> set_mset N = {}"
proof -
  have "\<not> (n \<in># M \<and> n \<in># N)" for n
  proof -
    have "count M n + count N n \<le> 1" using assms unfolding unique_numbers_def by (metis count_union)
    then have "count M n = 0 \<or> count N n = 0" by linarith
    then show ?thesis by (simp add: not_in_iff)
  qed
  then show ?thesis by blast
qed

text \<open>One write state of the current subtransaction takes rows from its reservation.\<close>

lemma sim_append:
  assumes sim: "rel_sim sd r (s # ss) (c # cs) (pre @ b # post) bufs xs"
    and b: "ws_subid b = s" "ws_flushedUnder b = 0" "ws_subid b' = s" "ws_flushedUnder b' = 0" "ws_items r b' = ws_items r b + X"
    and t: "ws_tail r b' + X \<subseteq># ws_tail r b + fresh" "unique_numbers fresh" "\<forall>n \<in># fresh. next_row c \<le> n \<and> n < next_row c'"
    and c: "next_row c \<le> next_row c'" "groups_of sd c' = groups_of sd c" "rel_deletes c' = rel_deletes c"
  shows "rel_sim sd r (s # ss) (c' # cs) (pre @ b' # post) bufs ((hd xs \<union> set_mset X) # tl xs)"
proof -
  let ?wss = "pre @ b # post" and ?wss' = "pre @ b' # post"
  obtain base fs dbase ds where inv: "write_inv r sd base fs (s # ss) (c # cs) ?wss" "delete_inv r sd dbase ds (s # ss) (c # cs) bufs"
      "xs = lives base fs dbase ds" "length cs = length ss" using sim unfolding rel_sim_def by auto
  obtain f gs d es where l: "fs = f # gs" "ds = d # es" using inv_lengths[OF inv(1,2)] by (cases fs; cases ds) auto
  have bal: "writes.balanced r base ?wss (s # ss) (group_numbers sd c # map (group_numbers sd) cs) (f # gs)" "writes.registry_ok (s # ss) ?wss"
    using inv(1) by (simp_all add: write_inv_def l)
  note pr = pending_replace[OF b]
  have w: "writes.balanced r base ?wss' (s # ss) (group_numbers sd c # map (group_numbers sd) cs) ((X + f) # gs)"
    by (rule writes.add_balanced[OF bal]) (simp_all add: pr)
  have reg: "writes.registry_ok (s # ss) ?wss'"
    using bal(2) b(1-4) by (auto simp: writes.registry_ok_def writes.place_ok_def)
  have gn: "group_numbers sd c' = group_numbers sd c" "deleted_rows sd c' = deleted_rows sd c" "catalog_ok sd c' = catalog_ok sd c"
    unfolding group_numbers_def deleted_rows_def catalog_ok_def Let_def group_exists_list c(2,3) by simp_all
  let ?T = "base + sum_list fs" let ?P = "?T + tails r ?wss"
  have P: "unique_numbers ?P" "\<forall>n \<in># ?P. n < next_row c" using inv(1) unfolding write_inv_def list.sel by blast+
  have PF: "unique_numbers (?P + fresh)" "\<forall>n \<in># ?P + fresh. n < next_row c'"
  proof -
    show "unique_numbers (?P + fresh)" by (rule unique_add[OF P(1) t(2)]) (use P(2) t(3) in \<open>meson leD\<close>)
    show "\<forall>n \<in># ?P + fresh. n < next_row c'" using P(2) t(3) c(1) by (metis order.strict_trans2 union_iff)
  qed
  have "?T + X + tails r ?wss' = ?T + (ws_tail r b' + X) + (tails r pre + tails r post)" by (simp add: add_ac)
  also have "\<dots> \<subseteq># ?T + (ws_tail r b + fresh) + (tails r pre + tails r post)" 
    by (rule subset_mset.add_right_mono[OF subset_mset.add_left_mono[OF t(1)]])
  also have "\<dots> = ?P + fresh" by (simp add: add_ac)
  finally have sub: "base + sum_list ((X + f) # gs) + tails r ?wss' \<subseteq># ?P + fresh" by (simp add: l add_ac)
  have wi: "write_inv r sd base ((X + f) # gs) (s # ss) (c' # cs) ?wss'"
    unfolding write_inv_def using w reg gn(1) pool_mono[OF sub PF] by simp
  have di: "delete_inv r sd dbase ds (s # ss) (c' # cs) bufs"
    using inv(2) gn c(2) by (simp add: delete_inv_def)
  have "X \<subseteq># ws_tail r b + fresh" using t(1) by (metis mset_subset_eq_add_right subset_mset.order_trans)
  moreover have "ws_tail r b + fresh \<subseteq># tails r ?wss + fresh" by (simp add: subset_mset.add_increasing)
  ultimately have "X \<subseteq># tails r ?wss + fresh" by (rule subset_mset.order_trans)
  then have "?T + X \<subseteq># ?T + (tails r ?wss + fresh)" by (rule subset_mset.add_left_mono)
  then have "unique_numbers (?T + X)" using unique_mono[OF PF(1)] by (simp add: add_ac)
  then have "set_mset X \<inter> set_mset ?T = {}" using unique_disjoint by blast
  then have "set_mset X \<inter> (dbase \<union> \<Union> (set ds)) = {}" using deletes_in_rows[OF inv(1,2)] by blast
  then have "(hd xs \<union> set_mset X) # tl xs = lives base ((X + f) # gs) dbase ds" using inv(3) by (auto simp: l)
  then show ?thesis using inv(4) by (intro rel_simI[OF _ _ wi di]) simp_all
qed

lemma sim_new_state:
  assumes sim: "rel_sim sd r (s # ss) cats wss bufs xs" and b: "ws_subid b = s" "ws_flushedUnder b = 0" "ws_items r b = {#}" "ws_tail r b = {#}"
  shows "rel_sim sd r (s # ss) cats (wss @ [b]) bufs xs"
proof -
  have "writes.pending r S (wss @ [b]) = writes.pending r S wss" for S
    using b(3) by (simp add: writes.pending_append writes.share_def)
  then have "writes.balanced r base (wss @ [b]) ss' cs fs" if "writes.balanced r base wss ss' cs fs" for base ss' cs fs
    using writes.balanced_mono[OF that] by blast
  moreover have "writes.registry_ok (s # ss) (wss @ [b])" if "writes.registry_ok (s # ss) wss"
    using that b(1,2) by (auto simp: writes.registry_ok_def writes.place_ok_def)
  ultimately show ?thesis using sim b(4) unfolding rel_sim_def write_inv_def by auto blast
qed

lemma sim_drop_state:
  assumes sim: "rel_sim sd r ss cats (pre @ b # post) bufs xs" and b: "ws_items r b = {#}"
  shows "rel_sim sd r ss cats (pre @ post) bufs xs"
proof -
  obtain base fs dbase ds where inv: "write_inv r sd base fs ss cats (pre @ b # post)" "delete_inv r sd dbase ds ss cats bufs"
      "xs = lives base fs dbase ds" "length cats = length ss" "ss \<noteq> []" using sim unfolding rel_sim_def by auto
  have "writes.pending r S (pre @ post) = writes.pending r S (pre @ b # post)" for S
    using b by (simp add: writes.pending_append writes.share_def)
  then have bal: "writes.balanced r base (pre @ post) ss (map (group_numbers sd) cats) fs"
    using inv(1) writes.balanced_mono unfolding write_inv_def by blast
  have sub: "base + sum_list fs + tails r (pre @ post) \<subseteq># base + sum_list fs + tails r (pre @ b # post)" by simp
  note pool = pool_mono[OF sub inv(1)[unfolded write_inv_def, THEN conjunct2, THEN conjunct2, THEN conjunct1]
      inv(1)[unfolded write_inv_def, THEN conjunct2, THEN conjunct2, THEN conjunct2]]
  have wi: "write_inv r sd base fs ss cats (pre @ post)"
    using inv(1) bal pool unfolding write_inv_def by (simp add: writes.registry_ok_def)
  show ?thesis by (rule rel_simI[OF inv(5,4) wi inv(2,3)])
qed

lemma sim_new_buffer:
  assumes sim: "rel_sim sd r (s # ss) cats wss bufs xs" and b: "dvb_subid b = s" "dvb_flushedUnder b = 0" "dv_items r b = {}"
    "\<And>G. buffer_ok G b"
  shows "rel_sim sd r (s # ss) cats wss (bufs @ [b]) xs"
proof -
  obtain base fs dbase ds where inv: "write_inv r sd base fs (s # ss) cats wss" "delete_inv r sd dbase ds (s # ss) cats bufs"
      "xs = lives base fs dbase ds" "length cats = length (s # ss)" using sim unfolding rel_sim_def by auto
  have "deletes.pending r S (bufs @ [b]) = deletes.pending r S bufs" for S
    using b(3) by (simp add: deletes.pending_append deletes.share_def)
  then have bal: "deletes.balanced r dbase (bufs @ [b]) (s # ss) (map (deleted_rows sd) cats) ds"
    using inv(2) deletes.balanced_mono unfolding delete_inv_def by blast
  have "levels_ok r sd (bufs @ [b]) ss' cs" if "levels_ok r sd bufs ss' cs" for ss' cs
    using that b(4) by (induction r sd bufs ss' cs rule: levels_ok.induct) auto
  then have di: "delete_inv r sd dbase ds (s # ss) cats (bufs @ [b])"
    using inv(2) bal b(1,2) unfolding delete_inv_def by (auto simp: deletes.registry_ok_def deletes.place_ok_def)
  show ?thesis by (rule rel_simI[OF _ inv(4,1) di inv(3)]) simp
qed

text \<open>A buffer of the current subtransaction takes marks.\<close>

lemma sim_mark:
  assumes sim: "rel_sim sd r (s # ss) (c # cs) wss (pre @ b # post) xs"
    and b: "dvb_subid b = s" "dvb_flushedUnder b = 0" "dvb_subid b' = s" "dvb_flushedUnder b' = 0" "dvb_relid b' = dvb_relid b"
      "dv_items r b' = X \<union> dv_items r b" "dvb_relid b = r \<Longrightarrow> buffer_ok (set (groups_of sd c)) b'"
  shows "rel_sim sd r (s # ss) (c # cs) wss (pre @ b' # post) ((hd xs - X) # tl xs)"
proof -
  let ?bufs = "pre @ b # post" and ?bufs' = "pre @ b' # post"
  obtain base fs dbase ds where inv: "write_inv r sd base fs (s # ss) (c # cs) wss" "delete_inv r sd dbase ds (s # ss) (c # cs) ?bufs"
      "xs = lives base fs dbase ds" "length cs = length ss" using sim unfolding rel_sim_def by auto
  obtain f gs d es where l: "fs = f # gs" "ds = d # es" using inv_lengths[OF inv(1,2)] by (cases fs; cases ds) auto
  have bal: "deletes.balanced r dbase ?bufs (s # ss) (deleted_rows sd c # map (deleted_rows sd) cs) (d # es)" "deletes.registry_ok (s # ss) ?bufs"
    using inv(2) by (simp_all add: delete_inv_def l)
  have pr: "deletes.pending r S ?bufs' = (if s \<in> S then X else {}) \<union> deletes.pending r S ?bufs" if "0 \<notin> S" for S
    using b that by (auto simp: deletes.pending_append deletes.share_def deletes.counted_def)
  have bal': "deletes.balanced r dbase ?bufs' (s # ss) (deleted_rows sd c # map (deleted_rows sd) cs) ((X \<union> d) # es)"
    by (rule deletes.add_balanced[OF bal]) (simp_all add: pr)
  have ns: "s \<notin> set ss" using bal(2) by (simp add: deletes.registry_ok_def)
  have "levels_ok r sd ?bufs ss cs" using inv(2) by (simp add: delete_inv_def)
  then have "levels_ok r sd ?bufs' ss cs" by (rule levels_cong) (use b(3) ns in auto)
  then have "levels_ok r sd ?bufs' (s # ss) (c # cs)"
    using level_deletes(2,3)[OF inv(2)] b(5,7) by auto
  moreover have "deletes.registry_ok (s # ss) ?bufs'" using bal(2) b(3,4) by (auto simp: deletes.registry_ok_def deletes.place_ok_def)
  ultimately have di: "delete_inv r sd dbase ((X \<union> d) # es) (s # ss) (c # cs) ?bufs'" using bal' by (simp add: delete_inv_def)
  have "(hd xs - X) # tl xs = lives base fs dbase ((X \<union> d) # es)" using inv(3) by (auto simp: l)
  then show ?thesis using inv(4) by (intro rel_simI[OF _ _ inv(1) di]) simp_all
qed

subsection \<open>Walks of the delete registry\<close>

definition dv_flushed :: "nat \<Rightarrow> nat \<Rightarrow> dv_buffer \<Rightarrow> rel_state \<Rightarrow> dv_buffer \<Rightarrow> rel_state \<Rightarrow> bool" where
  "dv_flushed cur sd b rel b' rel' \<longleftrightarrow> dvb_relid b' = dvb_relid b \<and> dvb_subid b' = dvb_subid b \<and> dvb_storageId b' = dvb_storageId b \<and>
     (\<forall>G. buffer_ok G b \<longrightarrow> buffer_ok G b') \<and> rel' = rel\<lparr>rel_deletes := rel_deletes rel'\<rparr> \<and> catalog_ok sd rel' \<and>
     (\<forall>r. deletes.flush_step r cur b (if dvb_relid b = r then deleted_rows sd rel else {})
            b' (if dvb_relid b = r then deleted_rows sd rel' else {}))"

definition delete_steps :: "(nat \<Rightarrow> nat) \<Rightarrow> nat \<Rightarrow> (dv_buffer \<Rightarrow> rel_state \<Rightarrow> (dv_buffer \<times> rel_state) result) \<Rightarrow> dv_buffer list \<Rightarrow> bool" where
  "delete_steps sid cur f bufs \<longleftrightarrow> (\<forall>b \<in> set bufs. \<forall>rel b' rel'. f b rel = Inr (b', rel') \<longrightarrow> catalog_ok (sid (dvb_relid b)) rel \<longrightarrow>
     buffer_ok (set (groups_of (sid (dvb_relid b)) rel)) b \<longrightarrow> dv_flushed cur (sid (dvb_relid b)) b rel b' rel')"

lemma dv_flushed_same: "catalog_ok sd rel \<Longrightarrow> dv_flushed cur sd b rel b rel"
  by (simp add: dv_flushed_def deletes.flush_step_def)

lemma buffer_ok_sorted: "buffer_ok G b \<Longrightarrow> buffer_ok G (b\<lparr>dvb_chunks := sort_chunks (dvb_chunks b)\<rparr>)"
  "buffer_marks (b\<lparr>dvb_chunks := sort_chunks (dvb_chunks b)\<rparr>) = buffer_marks b"
  by (simp_all add: buffer_ok_def buffer_marks_def sort_chunks_def)

lemma dv_flush_step:
  assumes fl: "delete_vector_flush_buffer setting (dvb_subid b \<noteq> cur) b rel = Inr (b1, rel')" and u: "dvb_flushedUnder b = 0"
    and ok: "catalog_ok (dvb_storageId b) rel" "buffer_ok (set (groups_of (dvb_storageId b) rel)) b"
    and b': "b' = (if dvb_subid b \<noteq> cur \<and> dvb_chunks b1 \<noteq> [] then b1\<lparr>dvb_flushedUnder := cur\<rparr> else b1)"
  shows "dv_flushed cur (dvb_storageId b) b rel b' rel'"
proof -
  let ?sd = "dvb_storageId b" and ?keep = "dvb_subid b \<noteq> cur"
  have f: "adds_deletes ?sd (buffer_marks b) rel rel'"
      "b1 = (if ?keep \<or> dvb_chunks b = [] then b\<lparr>dvb_chunks := sort_chunks (dvb_chunks b)\<rparr> else delete_vector_reset_buffer b)"
    using flush_buffer_marks[OF ok, of setting ?keep] fl by (auto split: if_splits)
  have c: "(sort_chunks (dvb_chunks b) = []) = (dvb_chunks b = [])" by (simp add: sort_chunks_def length_0_conv[symmetric] del: length_0_conv)
  have d: "(if dvb_relid b = r then deleted_rows ?sd rel' else {}) = (if dvb_relid b = r then deleted_rows ?sd rel else {}) \<union> dv_items r b" for r
    using f(1) by (auto simp: adds_deletes_def dv_items_def)
  have e: "dv_items r b = {}" if "dvb_chunks b = []" for r using that by (simp add: dv_items_def buffer_marks_def)
  have "dvb_relid b' = dvb_relid b \<and> dvb_subid b' = dvb_subid b \<and> dvb_storageId b' = ?sd \<and> (\<forall>G. buffer_ok G b \<longrightarrow> buffer_ok G b')"
    unfolding b' f(2) using buffer_ok_sorted(1)[of _ b] by (auto simp: delete_vector_reset_buffer_def buffer_ok_def)
  moreover have "deletes.flush_step r cur b (if dvb_relid b = r then deleted_rows ?sd rel else {})
            b' (if dvb_relid b = r then deleted_rows ?sd rel' else {})" for r
  proof (cases "dvb_chunks b = []")
    case True
    then have "b\<lparr>dvb_chunks := sort_chunks (dvb_chunks b)\<rparr> = b" by (simp add: sort_chunks_def)
    then have "b' = b" using True f(2) b' by simp
    then show ?thesis unfolding d using e[OF True, of r] by (simp add: deletes.flush_step_def)
  next
    case False
    have i: "dv_items r b1 = (if ?keep then dv_items r b else {})" "dvb_flushedUnder b1 = 0" "dvb_subid b1 = dvb_subid b" "?keep \<Longrightarrow> dvb_chunks b1 \<noteq> []"
      using False f(2) u c buffer_ok_sorted(2)[of b] by (simp_all add: dv_items_def delete_vector_reset_buffer_def buffer_marks_def)
    have "dv_items r b' = dv_items r b1" unfolding b' by (simp add: dv_items_def buffer_marks_def)
    moreover have "dvb_flushedUnder b' = (if ?keep then cur else 0)" "dvb_subid b' = dvb_subid b" using i(2-4) by (simp_all add: b')
    ultimately show ?thesis unfolding d deletes.flush_step_def using i(1) u by simp
  qed
  ultimately show ?thesis using f(1) ok(1) unfolding dv_flushed_def adds_deletes_def by blast
qed

lemma deletes_only_trans:
  "b = a\<lparr>rel_deletes := rel_deletes b\<rparr> \<Longrightarrow> c = b\<lparr>rel_deletes := rel_deletes c\<rparr> \<Longrightarrow> c = a\<lparr>rel_deletes := rel_deletes (c :: rel_state)\<rparr>"
  by (cases a, cases b, cases c) simp

lemma delete_walk:
  assumes "registry_walk dvb_relid f bufs rels = Inr (bufs', rels')" "delete_steps sid cur f bufs"
    and "\<forall>r. catalog_ok (sid r) (rels r)" "\<forall>b \<in> set bufs. buffer_ok (set (groups_of (sid (dvb_relid b)) (rels (dvb_relid b)))) b"
  shows "deletes.flush_walk r cur bufs (deleted_rows (sid r) (rels r)) bufs' (deleted_rows (sid r) (rels' r)) \<and>
    rels' r = (rels r)\<lparr>rel_deletes := rel_deletes (rels' r)\<rparr> \<and> catalog_ok (sid r) (rels' r) \<and>
    list_all2 (\<lambda>b b'. dvb_relid b' = dvb_relid b \<and> dvb_subid b' = dvb_subid b \<and> dvb_storageId b' = dvb_storageId b \<and>
      (\<forall>G. buffer_ok G b \<longrightarrow> buffer_ok G b')) bufs bufs'"
  using assms
proof (induction bufs arbitrary: rels bufs')
  case (Cons b bufs)
  from Cons.prems(1) obtain b1 rel1 bufs1 where f: "f b (rels (dvb_relid b)) = Inr (b1, rel1)"
      "registry_walk dvb_relid f bufs (rels(dvb_relid b := rel1)) = Inr (bufs1, rels')" "bufs' = b1 # bufs1"
    by (auto simp: res_bind_Inr)
  let ?q = "dvb_relid b" let ?r1 = "rels(?q := rel1)"
  have s: "dv_flushed cur (sid ?q) b (rels ?q) b1 rel1" "delete_steps sid cur f bufs"
    using Cons.prems(2-4) f(1) by (auto simp: delete_steps_def)
  have g: "groups_of k (?r1 r) = groups_of k (rels r)" for k r
    using s(1) unfolding dv_flushed_def by (metis fun_upd_apply group_list_deletes)
  have c: "\<forall>r. catalog_ok (sid r) (?r1 r)" using s(1) Cons.prems(3) by (simp add: dv_flushed_def)
  have o: "\<forall>b \<in> set bufs. buffer_ok (set (groups_of (sid (dvb_relid b)) (?r1 (dvb_relid b)))) b" using Cons.prems(4) unfolding g by simp
  note ih = Cons.IH[OF f(2) s(2) c o]
  have "deletes.flush_step r cur b (deleted_rows (sid r) (rels r)) b1 (deleted_rows (sid r) (?r1 r))"
  proof (cases "?q = r")
    case True
    then show ?thesis using s(1) unfolding dv_flushed_def by (metis fun_upd_same)
  next
    case False
    then have "deletes.flush_step r cur b {} b1 {}" "dv_items r b = {}" using s(1) unfolding dv_flushed_def by (metis, simp add: dv_items_def)
    then show ?thesis using False unfolding deletes.flush_step_def by auto
  qed
  then have "deletes.flush_walk r cur (b # bufs) (deleted_rows (sid r) (rels r)) bufs' (deleted_rows (sid r) (rels' r))" using ih f(3) by auto
  moreover have "?r1 r = (rels r)\<lparr>rel_deletes := rel_deletes (?r1 r)\<rparr>" using s(1) by (simp add: dv_flushed_def)
  then have "rels' r = (rels r)\<lparr>rel_deletes := rel_deletes (rels' r)\<rparr>" using ih deletes_only_trans by blast
  moreover have "dvb_relid b1 = dvb_relid b \<and> dvb_subid b1 = dvb_subid b \<and> dvb_storageId b1 = dvb_storageId b \<and> (\<forall>G. buffer_ok G b \<longrightarrow> buffer_ok G b1)"
    using s(1) unfolding dv_flushed_def by blast
  ultimately show ?case using ih f(3) by auto
qed simp

subsection \<open>Sessions\<close>

abbreviation cats_of :: "session \<Rightarrow> nat \<Rightarrow> rel_state list" where
  "cats_of s r \<equiv> map (\<lambda>rels. rels r) (ss_rels s # ss_saved s)"

definition session_sim :: "(nat \<Rightarrow> nat) \<Rightarrow> session \<Rightarrow> (nat \<Rightarrow> nat set list) \<Rightarrow> bool" where
  "session_sim sid s xss \<longleftrightarrow> inj sid \<and> (\<forall>r. PgColumnarStorageId (rs_fork (rel_file (ss_rels s r))) = Inr (sid r)) \<and>
     (\<forall>ws \<in> set (ss_writes s). ws_ok (sid (ws_relid ws)) ws) \<and> (\<forall>b \<in> set (ss_deletes s). dvb_storageId b = sid (dvb_relid b)) \<and>
     (\<forall>r. rel_sim (sid r) r (ss_subids s) (cats_of s r) (ss_writes s) (ss_deletes s) (xss r))"

lemma sim_stack:
  assumes "session_sim sid s xss"
  obtains p ss where "ss_subids s = p # ss" "length (ss_saved s) = length ss" "xss r \<noteq> []"
proof -
  have sim: "rel_sim (sid r) r (ss_subids s) (cats_of s r) (ss_writes s) (ss_deletes s) (xss r)" using assms by (simp add: session_sim_def)
  then obtain p ss where p: "ss_subids s = p # ss" "length (ss_saved s) = length ss" unfolding rel_sim_def by (cases "ss_subids s") auto
  obtain base fs dbase ds where inv: "write_inv r (sid r) base fs (p # ss) (cats_of s r) (ss_writes s)"
      "delete_inv r (sid r) dbase ds (p # ss) (cats_of s r) (ss_deletes s)" "xss r = lives base fs dbase ds"
    using sim p unfolding rel_sim_def by auto
  then have "xss r \<noteq> []" using inv_lengths[OF inv(1,2)] by (cases fs; cases ds) auto
  then show ?thesis using that p by blast
qed

lemma sim_registries:
  assumes "session_sim sid s xss"
  shows "writes.registry_ok (ss_subids s) (ss_writes s)" "deletes.registry_ok (ss_subids s) (ss_deletes s)"
    "catalog_ok (sid r) (ss_rels s r)" "b \<in> set (ss_deletes s) \<Longrightarrow> dvb_relid b = r \<Longrightarrow> buffer_ok (set (groups_of (sid r) (ss_rels s r))) b"
proof -
  obtain p ss where p: "ss_subids s = p # ss" using sim_stack[OF assms] by metis
  have "rel_sim (sid r) r (p # ss) (ss_rels s r # map (\<lambda>rels. rels r) (ss_saved s)) (ss_writes s) (ss_deletes s) (xss r)"
    using assms p by (simp add: session_sim_def)
  then obtain base fs dbase ds where inv: "write_inv r (sid r) base fs (p # ss) (ss_rels s r # map (\<lambda>rels. rels r) (ss_saved s)) (ss_writes s)"
      "delete_inv r (sid r) dbase ds (p # ss) (ss_rels s r # map (\<lambda>rels. rels r) (ss_saved s)) (ss_deletes s)" unfolding rel_sim_def by blast
  show "writes.registry_ok (ss_subids s) (ss_writes s)" "deletes.registry_ok (ss_subids s) (ss_deletes s)"
    using inv p by (simp_all add: write_inv_def delete_inv_def)
  show "catalog_ok (sid r) (ss_rels s r)" "b \<in> set (ss_deletes s) \<Longrightarrow> dvb_relid b = r \<Longrightarrow> buffer_ok (set (groups_of (sid r) (ss_rels s r))) b"
    using level_deletes(2,3)[OF inv(2)] by simp_all
qed

lemma sim_current:
  assumes "session_sim sid s xss"
  shows "ws \<in> set (ss_writes s) \<Longrightarrow> ws_subid ws = current_subid s \<Longrightarrow> ws_flushedUnder ws = 0"
    "b \<in> set (ss_deletes s) \<Longrightarrow> dvb_subid b = current_subid s \<Longrightarrow> dvb_flushedUnder b = 0"
proof -
  obtain p ss where p: "ss_subids s = p # ss" using sim_stack[OF assms] by metis
  show "ws_flushedUnder ws = 0" if "ws \<in> set (ss_writes s)" "ws_subid ws = current_subid s"
    using sim_registries(1)[OF assms] that writes.place_current p unfolding writes.registry_ok_def by auto
  show "dvb_flushedUnder b = 0" if "b \<in> set (ss_deletes s)" "dvb_subid b = current_subid s"
    using sim_registries(2)[OF assms] that deletes.place_current p unfolding deletes.registry_ok_def by auto
qed

lemma session_flush_writes:
  assumes sim: "session_sim sid s xss" and w: "registry_walk ws_relid f (ss_writes s) (ss_rels s) = Inr (wss, rels)"
    and st: "write_steps sid (current_subid s) f (ss_writes s)"
  shows "session_sim sid (s\<lparr>ss_writes := wss, ss_rels := rels\<rparr>) xss"
proof -
  obtain p ss where p: "ss_subids s = p # ss" using sim_stack[OF sim] by metis
  note walk = write_walk[OF w st]
  have "rel_sim (sid r) r (ss_subids s) (rels r # map (\<lambda>rels. rels r) (ss_saved s)) wss (ss_deletes s) (xss r)" for r
  proof -
    have "rel_sim (sid r) r (p # ss) (ss_rels s r # map (\<lambda>rels. rels r) (ss_saved s)) (ss_writes s) (ss_deletes s) (xss r)"
      using sim p by (simp add: session_sim_def)
    from sim_flush_writes[OF this walk(1)[of r, unfolded p list.sel] walk(2)[of r] walk(3)[of r]] show ?thesis by (simp add: p)
  qed
  moreover have "\<forall>ws \<in> set wss. ws_ok (sid (ws_relid ws)) ws" using walk(4) sim by (simp add: session_sim_def)
  moreover have "PgColumnarStorageId (rs_fork (rel_file (rels r))) = Inr (sid r)" for r
    using walk(2)[of r] sim by (simp add: session_sim_def grown_def)
  ultimately show ?thesis using sim by (simp add: session_sim_def)
qed

lemma session_flush_deletes:
  assumes sim: "session_sim sid s xss" and w: "registry_walk dvb_relid f (ss_deletes s) (ss_rels s) = Inr (bufs, rels)"
    and st: "delete_steps sid (current_subid s) f (ss_deletes s)"
  shows "session_sim sid (s\<lparr>ss_deletes := bufs, ss_rels := rels\<rparr>) xss"
proof -
  obtain p ss where p: "ss_subids s = p # ss" using sim_stack[OF sim] by metis
  have ok: "\<forall>r. catalog_ok (sid r) (ss_rels s r)"
      "\<forall>b \<in> set (ss_deletes s). buffer_ok (set (groups_of (sid (dvb_relid b)) (ss_rels s (dvb_relid b)))) b"
    using sim_registries(3,4)[OF sim] by blast+
  note walk = delete_walk[OF w st ok]
  have all2: "list_all2 (\<lambda>b b'. dvb_relid b' = dvb_relid b \<and> dvb_subid b' = dvb_subid b \<and> dvb_storageId b' = dvb_storageId b \<and>
      (\<forall>G. buffer_ok G b \<longrightarrow> buffer_ok G b')) (ss_deletes s) bufs" using walk[of undefined] by blast
  have old: "\<exists>b \<in> set (ss_deletes s). dvb_relid b' = dvb_relid b \<and> dvb_subid b' = dvb_subid b \<and> dvb_storageId b' = dvb_storageId b \<and>
      (\<forall>G. buffer_ok G b \<longrightarrow> buffer_ok G b')" if "b' \<in> set bufs" for b'
  proof -
    obtain i where i: "i < length bufs" "b' = bufs ! i" using \<open>b' \<in> set bufs\<close> by (auto simp: in_set_conv_nth)
    have len: "length (ss_deletes s) = length bufs" using list_all2_lengthD[OF all2] .
    show ?thesis by (rule bexI[of _ "ss_deletes s ! i"]) (use list_all2_nthD2[OF all2 i(1)] i len in simp_all)
  qed
  have "rel_sim (sid r) r (ss_subids s) (rels r # map (\<lambda>rels. rels r) (ss_saved s)) (ss_writes s) bufs (xss r)" for r
  proof -
    have now: "rel_sim (sid r) r (p # ss) (ss_rels s r # map (\<lambda>rels. rels r) (ss_saved s)) (ss_writes s) (ss_deletes s) (xss r)"
      using sim p by (simp add: session_sim_def)
    note wr = walk[of r, unfolded p list.sel]
    show ?thesis unfolding p
      by (rule sim_flush_deletes[OF now wr[THEN conjunct1] wr[THEN conjunct2, THEN conjunct1] wr[THEN conjunct2, THEN conjunct2, THEN conjunct1]])
        (use old in fastforce)
  qed
  moreover have "\<forall>b \<in> set bufs. dvb_storageId b = sid (dvb_relid b)" using old sim by (fastforce simp: session_sim_def)
  moreover have "rel_file (rels r) = rel_file (ss_rels s r)" for r
    using walk[of r] by (metis rel_state.select_convs(1) rel_state.surjective rel_state.update_convs(7))
  ultimately show ?thesis using sim by (simp add: session_sim_def)
qed

subsubsection \<open>Flushing handlers\<close>

lemma sim_relation_writes:
  assumes sim: "session_sim sid s xss" and fl: "flush_relation_writes E q s = Inr s'"
  shows "session_sim sid s' xss"
proof -
  obtain wss rels where w: "registry_walk ws_relid (flush_for_relation (xe_flush E) (current_subid s) q) (ss_writes s) (ss_rels s) = Inr (wss, rels)"
      "s' = s\<lparr>ss_writes := wss, ss_rels := rels\<rparr>"
    using fl by (auto simp: flush_relation_writes_def PgColumnarFlushWriteStateForRelation_def res_bind_Inr)
  have "ws_storageId ws = sid (ws_relid ws)" if "ws \<in> set (ss_writes s)" for ws using sim that by (auto simp: session_sim_def ws_ok_def)
  then have "write_steps sid (current_subid s) (flush_for_relation (xe_flush E) (current_subid s) q) (ss_writes s)"
    using flush_for_relation_step unfolding write_steps_def by blast
  from session_flush_writes[OF sim w(1) this] show ?thesis using w(2) by simp
qed

lemma sim_relation_deletes:
  assumes sim: "session_sim sid s xss" and fl: "flush_relation_deletes E q s = Inr s'"
  shows "session_sim sid s' xss"
proof -
  let ?f = "flush_deletes_for_relation (xe_rowLock E) (current_subid s) q"
  obtain bufs rels where w: "registry_walk dvb_relid ?f (ss_deletes s) (ss_rels s) = Inr (bufs, rels)"
      "s' = s\<lparr>ss_deletes := bufs, ss_rels := rels\<rparr>"
    using fl by (auto simp: flush_relation_deletes_def PgColumnarFlushDeleteVectorForRelation_def res_bind_Inr)
  have "delete_steps sid (current_subid s) ?f (ss_deletes s)"
    unfolding delete_steps_def
  proof (intro ballI allI impI)
    fix b rel b' rel' assume b: "b \<in> set (ss_deletes s)" "?f b rel = Inr (b', rel')" "catalog_ok (sid (dvb_relid b)) rel"
      "buffer_ok (set (groups_of (sid (dvb_relid b)) rel)) b"
    have sd: "sid (dvb_relid b) = dvb_storageId b" using sim b(1) by (simp add: session_sim_def)
    show "dv_flushed (current_subid s) (sid (dvb_relid b)) b rel b' rel'"
    proof (cases "dvb_relid b = q \<and> dvb_flushedUnder b = 0")
      case True
      then obtain b1 where "delete_vector_flush_buffer (xe_rowLock E) (dvb_subid b \<noteq> current_subid s) b rel = Inr (b1, rel')"
          "b' = (if dvb_subid b \<noteq> current_subid s \<and> dvb_chunks b1 \<noteq> [] then b1\<lparr>dvb_flushedUnder := current_subid s\<rparr> else b1)"
        using b(2) by (auto simp: flush_deletes_for_relation_def InvalidSubTransactionId_def Let_def res_bind_Inr)
      from dv_flush_step[OF this(1) _ _ _ this(2)] True b(3,4) show ?thesis unfolding sd by simp
    next
      case False
      then have "b' = b" "rel' = rel" using b(2) by (auto simp: flush_deletes_for_relation_def InvalidSubTransactionId_def Let_def split: if_splits)
      then show ?thesis using dv_flushed_same[OF b(3)] by simp
    qed
  qed
  from session_flush_deletes[OF sim w(1) this] show ?thesis using w(2) by simp
qed

text \<open>Both walks that write out every buffer of the current subtransaction.\<close>

lemma owned_delete_steps:
  assumes sim: "session_sim sid s xss"
    and f: "\<And>b rel. b \<in> set (ss_deletes s) \<Longrightarrow> f b rel = (if dvb_subid b = current_subid s then delete_vector_flush_buffer setting False b rel else Inr (b, rel))"
  shows "delete_steps sid (current_subid s) f (ss_deletes s)"
  unfolding delete_steps_def
proof (intro ballI allI impI)
  fix b rel b' rel' assume b: "b \<in> set (ss_deletes s)" "f b rel = Inr (b', rel')" "catalog_ok (sid (dvb_relid b)) rel"
    "buffer_ok (set (groups_of (sid (dvb_relid b)) rel)) b"
  have sd: "sid (dvb_relid b) = dvb_storageId b" using sim b(1) by (simp add: session_sim_def)
  show "dv_flushed (current_subid s) (sid (dvb_relid b)) b rel b' rel'"
  proof (cases "dvb_subid b = current_subid s")
    case True
    then have "delete_vector_flush_buffer setting (dvb_subid b \<noteq> current_subid s) b rel = Inr (b', rel')" using b(2) f[OF b(1)] by simp
    from dv_flush_step[OF this, of b'] True b(3,4) sim_current(2)[OF sim b(1)] show ?thesis unfolding sd by simp
  next
    case False
    then have "b' = b" "rel' = rel" using b(2) f[OF b(1)] by simp_all
    then show ?thesis using dv_flushed_same[OF b(3)] by simp
  qed
qed

lemma owned_write_steps:
  assumes sim: "session_sim sid s xss"
    and f: "\<And>ws rel ws' rel'. ws \<in> set (ss_writes s) \<Longrightarrow> f ws rel = Inr (ws', rel') \<Longrightarrow>
      (if ws_subid ws = current_subid s then \<exists>ws1. pgcolumnar_flush_row_group F ws rel = Inr (ws1, rel') \<and> same_state ws1 ws' \<and> ws_flushedUnder ws' = ws_flushedUnder ws1
       else ws' = ws \<and> rel' = rel)"
  shows "write_steps sid (current_subid s) f (ss_writes s)"
  unfolding write_steps_def
proof (intro ballI allI impI)
  fix ws rel ws' rel' assume w: "ws \<in> set (ss_writes s)" "f ws rel = Inr (ws', rel')"
  have sd: "ws_storageId ws = sid (ws_relid ws)" using sim w(1) by (auto simp: session_sim_def ws_ok_def)
  show "ws_flushed (current_subid s) (sid (ws_relid ws)) ws rel ws' rel'"
  proof (cases "ws_subid ws = current_subid s")
    case True
    then obtain ws1 where "pgcolumnar_flush_row_group F ws rel = Inr (ws1, rel')" "same_state ws1 ws'" "ws_flushedUnder ws' = ws_flushedUnder ws1"
      using f[OF w] by auto
    from flush_owned_step[OF this(1) sd True sim_current(1)[OF sim w(1) True] this(2,3)] show ?thesis .
  next
    case False
    then show ?thesis using f[OF w] by (simp add: ws_flushed_same)
  qed
qed

lemma sim_executor_end:
  assumes sim: "session_sim sid s xss" and fl: "pgcolumnar_executor_end E s = Inr s'"
  shows "session_sim sid s' xss"
proof -
  let ?f = "flush_of_subxact (xe_flush E) (current_subid s)"
    and ?g = "\<lambda>buf rel. if dvb_subid buf = current_subid s then delete_vector_flush_buffer (xe_rowLock E) False buf rel else Inr (buf, rel)"
  obtain wss rels bufs rels1 where w: "registry_walk ws_relid ?f (ss_writes s) (ss_rels s) = Inr (wss, rels)"
      "registry_walk dvb_relid ?g (ss_deletes s) rels = Inr (bufs, rels1)" "s' = s\<lparr>ss_writes := wss, ss_deletes := bufs, ss_rels := rels1\<rparr>"
    using fl by (auto simp: pgcolumnar_executor_end_def PgColumnarFlushPendingWritesOfSubXact_def PgColumnarFlushDeleteVectorsOfSubXact_def res_bind_Inr)
  have "write_steps sid (current_subid s) ?f (ss_writes s)"
    by (rule owned_write_steps[OF sim, where F = "xe_flush E"])
      (auto simp: flush_of_subxact_def res_bind_Inr same_state_def split: if_splits)
  note s1 = session_flush_writes[OF sim w(1) this]
  let ?s1 = "s\<lparr>ss_writes := wss, ss_rels := rels\<rparr>"
  have "delete_steps sid (current_subid ?s1) ?g (ss_deletes ?s1)" by (rule owned_delete_steps[OF s1]) simp
  from session_flush_deletes[OF s1 _ this, of bufs rels1] w(2,3) show ?thesis by simp
qed

subsubsection \<open>Subtransactions of a session\<close>

abbreviation spec_all :: "spec_op \<Rightarrow> (nat \<Rightarrow> nat set list) \<Rightarrow> nat \<Rightarrow> nat set list" where
  "spec_all op xss \<equiv> \<lambda>r. spec_step r op (xss r)"

lemma session_begin:
  assumes sim: "session_sim sid s xss" and b: "subid \<noteq> InvalidSubTransactionId" "subid \<notin> set (ss_subids s)"
  shows "session_sim sid (begin_subxact subid s) (spec_all Begin_Sub xss)"
proof -
  have "rel_sim (sid r) r (subid # ss_subids s) (ss_rels s r # cats_of s r) (ss_writes s) (ss_deletes s) (spec_step r Begin_Sub (xss r))" for r
    using sim_begin[of "sid r" r "ss_subids s" "ss_rels s r" "map (\<lambda>rels. rels r) (ss_saved s)"] sim b
    by (simp add: session_sim_def InvalidSubTransactionId_def)
  then show ?thesis using sim by (simp add: session_sim_def begin_subxact_def)
qed

lemma session_nested:
  assumes sim: "session_sim sid s xss" and t: "tl (ss_subids s) \<noteq> []"
  obtains p q ss rels saved where "ss_subids s = p # q # ss" "ss_saved s = rels # saved"
    "\<And>r. rel_sim (sid r) r (p # q # ss) (ss_rels s r # rels r # map (\<lambda>rels. rels r) saved) (ss_writes s) (ss_deletes s) (xss r)"
proof -
  obtain p ss where p: "ss_subids s = p # ss" "length (ss_saved s) = length ss" using sim_stack[OF sim] by metis
  obtain q ss' where q: "ss = q # ss'" using t p(1) by (cases ss) auto
  obtain rels saved where "ss_saved s = rels # saved" using p(2) q by (cases "ss_saved s") auto
  then show ?thesis using that p(1) q sim by (simp add: session_sim_def)
qed

lemma session_abort:
  assumes sim: "session_sim sid s xss" and t: "tl (ss_subids s) \<noteq> []"
  shows "session_sim sid (abort_subxact s) (spec_all Abort_Sub xss)"
proof -
  obtain p q ss rels saved where n: "ss_subids s = p # q # ss" "ss_saved s = rels # saved"
    "\<And>r. rel_sim (sid r) r (p # q # ss) (ss_rels s r # rels r # map (\<lambda>rels. rels r) saved) (ss_writes s) (ss_deletes s) (xss r)"
    by (rule session_nested[OF sim t]) (rule that)
  have "ws_ok (sid (ws_relid ws)) ws" if "ws \<in> set (writes.discard p (ss_writes s))" for ws
    using that sim by (auto simp: writes.discard_def session_sim_def ws_ok_def)
  moreover have "dvb_storageId b = sid (dvb_relid b)" if "b \<in> set (deletes.discard p (ss_deletes s))" for b
    using that sim by (auto simp: deletes.discard_def session_sim_def)
  ultimately show ?thesis using sim sim_abort[OF n(3)] n(1,2)
    by (simp add: session_sim_def abort_subxact_def pgcolumnar_subxact_callback_def write_registry_ops delete_registry_ops)
qed

lemma promote_state_ok: "ws_ok sd ws \<Longrightarrow> ws_ok sd (writes.promote_one s p ws)" "ws_relid (writes.promote_one s p ws) = ws_relid ws"
  "dvb_storageId (deletes.promote_one s p b) = dvb_storageId b"
  by (auto simp: writes.promote_one_def deletes.promote_one_def ws_ok_def reset_stripe_def delete_vector_reset_buffer_def Let_def)

lemma session_commit:
  assumes sim: "session_sim sid s xss" and t: "tl (ss_subids s) \<noteq> []"
  shows "session_sim sid (commit_subxact s) (spec_all Commit_Sub xss)"
proof -
  obtain p q ss rels saved where n: "ss_subids s = p # q # ss" "ss_saved s = rels # saved"
    "\<And>r. rel_sim (sid r) r (p # q # ss) (ss_rels s r # rels r # map (\<lambda>rels. rels r) saved) (ss_writes s) (ss_deletes s) (xss r)"
    by (rule session_nested[OF sim t]) (rule that)
  have "ws_ok (sid (ws_relid ws)) ws" if "ws \<in> set (map (writes.promote_one p q) (ss_writes s))" for ws
    using that sim promote_state_ok(1,2) by (auto simp: session_sim_def)
  moreover have "dvb_storageId b = sid (dvb_relid b)" if "b \<in> set (map (deletes.promote_one p q) (ss_deletes s))" for b
    using that sim by (auto simp: session_sim_def promote_state_ok(3) promote_views)
  ultimately show ?thesis using sim sim_commit[OF n(3)] n(1,2)
    by (simp add: session_sim_def commit_subxact_def pgcolumnar_subxact_callback_def write_registry_ops delete_registry_ops)
qed

subsubsection \<open>Marking\<close>

lemma session_mark:
  assumes sim: "session_sim sid s xss" and m: "mark_deleted q n s = Inr s'"
  shows "session_sim sid s' (spec_all (Del q n) xss)"
proof -
  obtain bufs where b: "PgColumnarMarkRowDeleted q (current_subid s) (ss_rels s q) n (ss_deletes s) = Inr bufs" "s' = s\<lparr>ss_deletes := bufs\<rparr>"
    using m by (auto simp: mark_deleted_def res_bind_Inr)
  obtain p ss where p: "ss_subids s = p # ss" "\<And>r. xss r \<noteq> []" using sim_stack[OF sim] by metis
  have sd: "PgColumnarStorageId (rs_fork (rel_file (ss_rels s q))) = Inr (sid q)" "inj sid"
    "\<And>b. b \<in> set (ss_deletes s) \<Longrightarrow> dvb_storageId b = sid (dvb_relid b)" using sim by (simp_all add: session_sim_def)
  have rid: "dvb_relid b = q" if "b \<in> set (ss_deletes s)" "dvb_storageId b = sid q" for b
    using that sd(3)[OF that(1)] sd(2) by (metis injD)
  have ok: "\<forall>b \<in> set (ss_deletes s). dvb_storageId b = sid q \<and> dvb_subid b = current_subid s \<longrightarrow>
      buffer_ok (set (groups_of (sid q) (ss_rels s q))) b" using sim_registries(4)[OF sim] rid by blast
  obtain pre b0 post b' where
    mk: "ss_deletes s = pre @ b0 # post \<and> dvb_storageId b0 = sid q \<and> dvb_subid b0 = current_subid s \<or>
      ss_deletes s = pre \<and> post = [] \<and> b0 = fresh_buffer q (sid q) (current_subid s)"
    "bufs = pre @ b' # post" "buffer_ok (set (groups_of (sid q) (ss_rels s q))) b'" "buffer_marks b' = insert n (buffer_marks b0)"
    "dvb_relid b' = dvb_relid b0" "dvb_storageId b' = dvb_storageId b0" "dvb_subid b' = dvb_subid b0"
    "dvb_flushedUnder b' = dvb_flushedUnder b0"
    by (rule mark_row_deleted[OF b(1) sd(1) sim_registries(3)[OF sim] ok]) (rule that)
  have b0: "dvb_relid b0 = q" "dvb_storageId b0 = sid q" "dvb_subid b0 = p" "dvb_flushedUnder b0 = 0"
    using mk(1) rid sim_current(2)[OF sim, of b0] p(1) by (auto simp: fresh_buffer_def InvalidSubTransactionId_def)
  have "rel_sim (sid r) r (p # ss) (cats_of s r) (ss_writes s) (pre @ b0 # post) (xss r)" for r
  proof -
    have now: "rel_sim (sid r) r (p # ss) (cats_of s r) (ss_writes s) (ss_deletes s) (xss r)" using sim p(1) by (simp add: session_sim_def)
    show ?thesis
    proof (cases "ss_deletes s = pre @ b0 # post")
      case False
      then have f: "ss_deletes s = pre" "post = []" "b0 = fresh_buffer q (sid q) p" using mk(1) p(1) by auto
      have "rel_sim (sid r) r (p # ss) (cats_of s r) (ss_writes s) (ss_deletes s @ [b0]) (xss r)"
        by (rule sim_new_buffer[OF now b0(3,4)]) (simp_all add: f(3) dv_items_def)
      then show ?thesis using f by simp
    qed (use now in simp)
  qed
  then have now: "rel_sim (sid r) r (p # ss) (ss_rels s r # map (\<lambda>rels. rels r) (ss_saved s)) (ss_writes s) (pre @ b0 # post) (xss r)" for r by simp
  have "rel_sim (sid r) r (p # ss) (ss_rels s r # map (\<lambda>rels. rels r) (ss_saved s)) (ss_writes s) bufs
      ((hd (xss r) - (if r = q then {n} else {})) # tl (xss r))" for r
    unfolding mk(2) by (rule sim_mark[OF now]) (use b0 mk(3-8) in \<open>auto simp: dv_items_def\<close>)
  moreover have "spec_step r (Del q n) (xss r) = (hd (xss r) - (if r = q then {n} else {})) # tl (xss r)" for r
    using p(2)[of r] by (cases "xss r") auto
  moreover have "\<forall>b \<in> set bufs. dvb_storageId b = sid (dvb_relid b)"
  proof
    fix b assume "b \<in> set bufs"
    then have "b = b' \<or> b \<in> set (ss_deletes s)" using mk(1,2) by auto
    then show "dvb_storageId b = sid (dvb_relid b)" using mk(5,6) b0(1,2) sd(3)[of b] by auto
  qed
  ultimately show ?thesis using sim b(2) p(1) by (simp add: session_sim_def)
qed

end
