(* ===== verification/Txn_Refinement.thy ===== *)
theory Txn_Refinement
  imports Write_Txn
begin

section \<open>What a transaction reads and commits\<close>

text \<open>
  The last part of the simulation between sessions and the specification of \<open>Write_Txn\<close>: the
  write state a row goes to, the row's number and its flush. The properties of histories follow
  by induction over \<open>session_run\<close>.
\<close>

subsection \<open>One write state at work\<close>

lemma rel_flush_one:
  assumes sim: "rel_sim sd r (s # ss) (c # cs) (pre @ b # post) bufs xs" and f: "ws_flushed s sq b rel b' rel'"
    and c: "if ws_relid b = r then sq = sd \<and> rel = c \<and> rel' = c' else c' = c"
  shows "rel_sim sd r (s # ss) (c' # cs) (pre @ b' # post) bufs xs"
proof (rule sim_flush_writes[OF sim])
  have st: "writes.flush_step r s b (if ws_relid b = r then group_numbers sq rel else {#}) b' (if ws_relid b = r then group_numbers sq rel' else {#})"
    using f by (simp add: ws_flushed_def)
  have "writes.flush_step r s b (group_numbers sd c) b' (group_numbers sd c')"
  proof (cases "ws_relid b = r")
    case False
    then have "ws_items r b = {#}" by (simp add: ws_items_def)
    then show ?thesis using st c False unfolding writes.flush_step_def by auto
  qed (use st c in auto)
  then show "writes.flush_walk r s (pre @ b # post) (group_numbers sd c) (pre @ b' # post) (group_numbers sd c')" by (rule writes.flush_walk_one)
  show "grown sd c c'" using f c by (auto simp: ws_flushed_def split: if_splits)
  show "tails r (pre @ b' # post) \<subseteq># tails r (pre @ b # post)" using f by (simp add: ws_flushed_def)
qed

text \<open>A session with one write state of the current subtransaction in focus.\<close>

definition focus :: "session \<Rightarrow> write_state list \<Rightarrow> write_state \<Rightarrow> write_state list \<Rightarrow> rel_state \<Rightarrow> session" where
  "focus s pre b post rel = s\<lparr>ss_writes := pre @ b # post, ss_rels := (ss_rels s)(ws_relid b := rel)\<rparr>"

definition focused :: "(nat \<Rightarrow> nat) \<Rightarrow> session \<Rightarrow> nat \<Rightarrow> write_state list \<Rightarrow> write_state \<Rightarrow> write_state list \<Rightarrow> rel_state \<Rightarrow> (nat \<Rightarrow> nat set list) \<Rightarrow> bool" where
  "focused sid s q pre b post rel xss \<longleftrightarrow> session_sim sid (focus s pre b post rel) xss \<and> ws_relid b = q \<and> ws_subid b = current_subid s"

lemma focused_parts:
  assumes "focused sid s q pre b post rel xss"
  obtains p ss where "ss_subids s = p # ss" "\<And>r. xss r \<noteq> []" "ws_subid b = p" "ws_flushedUnder b = 0" "ws_ok (sid q) b"
    "PgColumnarStorageId (rs_fork (rel_file rel)) = Inr (sid q)"
    "\<And>r. rel_sim (sid r) r (p # ss) (((ss_rels s)(q := rel)) r # map (\<lambda>rels. rels r) (ss_saved s)) (pre @ b # post) (ss_deletes s) (xss r)"
proof -
  have sim: "session_sim sid (focus s pre b post rel) xss" and b: "ws_relid b = q" "ws_subid b = current_subid s"
    using assms by (simp_all add: focused_def)
  obtain p ss where p: "ss_subids s = p # ss" "\<And>r. xss r \<noteq> []" using sim_stack[OF sim] by (metis focus_def session.select_convs(1) session.surjective session.update_convs(3,4))
  have "ws_flushedUnder b = 0" by (rule sim_current(1)[OF sim]) (simp_all add: focus_def b)
  moreover have "\<forall>r. PgColumnarStorageId (rs_fork (rel_file (((ss_rels s)(q := rel)) r))) = Inr (sid r)"
    using sim b(1) by (simp add: session_sim_def focus_def)
  then have "PgColumnarStorageId (rs_fork (rel_file rel)) = Inr (sid q)" by (metis fun_upd_same)
  moreover have "ws_ok (sid q) b"
    "\<And>r. rel_sim (sid r) r (p # ss) (((ss_rels s)(q := rel)) r # map (\<lambda>rels. rels r) (ss_saved s)) (pre @ b # post) (ss_deletes s) (xss r)"
    using sim b p(1) by (auto simp: session_sim_def focus_def)
  ultimately show ?thesis using that p b by simp
qed

lemma focusedI:
  assumes old: "focused sid s q pre b post rel xss" and b: "ws_relid b' = q" "ws_subid b' = ws_subid b" "ws_ok (sid q) b'"
    and "PgColumnarStorageId (rs_fork (rel_file rel')) = Inr (sid q)"
    and "\<And>r. rel_sim (sid r) r (ss_subids s) (((ss_rels s)(q := rel')) r # map (\<lambda>rels. rels r) (ss_saved s)) (pre @ b' # post) (ss_deletes s) (yss r)"
  shows "focused sid s q pre b' post rel' yss"
proof -
  have sim: "session_sim sid (focus s pre b post rel) xss" and q: "ws_relid b = q" using old by (simp_all add: focused_def)
  have st: "\<forall>r. PgColumnarStorageId (rs_fork (rel_file (((ss_rels s)(q := rel)) r))) = Inr (sid r)"
    using sim q by (simp add: session_sim_def focus_def)
  have "PgColumnarStorageId (rs_fork (rel_file (((ss_rels s)(q := rel')) r))) = Inr (sid r)" for r
    using st[rule_format, of r] assms(5) by (cases "r = q") simp_all
  then have "session_sim sid (focus s pre b' post rel') yss"
    using sim b assms(6) unfolding session_sim_def focus_def by (simp add: ball_Un)
  then show ?thesis using old b by (simp add: focused_def)
qed

lemma focused_flush:
  assumes foc: "focused sid s q pre b post rel xss" and f: "ws_flushed (current_subid s) (sid q) b rel b' rel'"
  shows "focused sid s q pre b' post rel' xss"
proof -
  obtain p ss where p: "ss_subids s = p # ss" "ws_ok (sid q) b" "PgColumnarStorageId (rs_fork (rel_file rel)) = Inr (sid q)"
    "\<And>r. rel_sim (sid r) r (p # ss) (((ss_rels s)(q := rel)) r # map (\<lambda>rels. rels r) (ss_saved s)) (pre @ b # post) (ss_deletes s) (xss r)"
    by (rule focused_parts[OF foc]) (rule that)
  have q: "ws_relid b = q" "ws_subid b = p" using foc p(1) by (simp_all add: focused_def)
  have f': "ws_flushed p (sid q) b rel b' rel'" using f p(1) by simp
  show ?thesis
  proof (rule focusedI[OF foc])
    show "ws_relid b' = q" "ws_ok (sid q) b'" using f q p(2) by (simp_all add: ws_flushed_def)
    have "writes.flush_step q p b (group_numbers (sid q) rel) b' (group_numbers (sid q) rel')" using f' q unfolding ws_flushed_def by metis
    then show "ws_subid b' = ws_subid b" by (auto simp: writes.flush_step_def)
    show "PgColumnarStorageId (rs_fork (rel_file rel')) = Inr (sid q)" using f p(3) by (simp add: ws_flushed_def grown_def)
    show "rel_sim (sid r) r (ss_subids s) (((ss_rels s)(q := rel')) r # map (\<lambda>rels. rels r) (ss_saved s)) (pre @ b' # post) (ss_deletes s) (xss r)" for r
      unfolding p(1) by (rule rel_flush_one[OF p(4) f']) (use q in auto)
  qed
qed

lemma write_row_cases:
  assumes "PgColumnarWriteRow F ws v rel = Inr (n, ws4, rel2)"
  obtains ws1 rel1 ws3 where "reserve_stripe ws rel = (ws1, rel1)" "row_appended ws1 ws3" "n = ws_stripeFirstRowNumber ws1 + ws_stripeRowCount ws1"
    "(if ws_stripeRowCount ws3 \<ge> ws_stripeRowLimit ws3 then pgcolumnar_flush_row_group F ws3 rel1 else Inr (ws3, rel1)) = Inr (ws4, rel2)"
proof -
  obtain ws1 rel1 where r: "reserve_stripe ws rel = (ws1, rel1)" by fastforce
  define ws2 where "ws2 = open_chunk_group ws1"
  define cur where "cur = the (ws_currentGroup ws2)"
  obtain cols where c: "write_columns ws2 v (cg_columns (ws_chunkGroups ws2 ! cur)) = Inr cols"
    using assms r by (auto simp: PgColumnarWriteRow_def Let_def res_bind_Inr ws2_def cur_def)
  let ?ws3 = "ws2\<lparr>ws_chunkGroups := (ws_chunkGroups ws2)[cur := \<lparr>cg_rowCount = cg_rowCount (ws_chunkGroups ws2 ! cur) + 1, cg_columns = cols\<rparr>],
     ws_sketchRegs := note_sketches ws2 v, ws_stripeRowCount := ws_stripeRowCount ws2 + 1\<rparr>"
  have "row_appended ws1 ?ws3" by (simp add: row_appended_def ws2_def)
  moreover have "n = ws_stripeFirstRowNumber ws1 + ws_stripeRowCount ws1 \<and>
      (if ws_stripeRowCount ?ws3 \<ge> ws_stripeRowLimit ?ws3 then pgcolumnar_flush_row_group F ?ws3 rel1 else Inr (?ws3, rel1)) = Inr (ws4, rel2)"
    using assms r c by (auto simp: PgColumnarWriteRow_def Let_def res_bind_Inr ws2_def cur_def)
  ultimately show ?thesis using that r by blast
qed

text \<open>Reserving, when there is no reservation yet, and taking the next number.\<close>

lemma reserved_row:
  assumes ok: "ws_ok sd b" and r: "reserve_stripe b rel = (b1, rel1)" "row_appended b1 b3" "n = ws_stripeFirstRowNumber b1 + ws_stripeRowCount b1"
  shows "\<exists>fresh. unique_numbers fresh \<and> (\<forall>k \<in># fresh. next_row rel \<le> k \<and> k < next_row rel1) \<and>
      ws_items (ws_relid b) b3 = ws_items (ws_relid b) b + {#n#} \<and> ws_tail (ws_relid b) b3 + {#n#} = ws_tail (ws_relid b) b + fresh"
    "next_row rel \<le> next_row rel1" "groups_of k rel1 = groups_of k rel" "rel_deletes rel1 = rel_deletes rel"
    "PgColumnarStorageId (rs_fork (rel_file rel1)) = PgColumnarStorageId (rs_fork (rel_file rel))"
    "ws_relid b3 = ws_relid b" "ws_subid b3 = ws_subid b" "ws_flushedUnder b3 = ws_flushedUnder b" "ws_storageId b3 = ws_storageId b"
    "ws_haveReservation b3" "ws_stripeRowLimit b3 = ws_stripeRowLimit b" "ws_stripeRowCount b3 = ws_stripeRowCount b + 1"
proof -
  note f = reserve_stripe_fields[OF r(1)]
  show rest: "next_row rel \<le> next_row rel1" "groups_of k rel1 = groups_of k rel" "rel_deletes rel1 = rel_deletes rel"
    "PgColumnarStorageId (rs_fork (rel_file rel1)) = PgColumnarStorageId (rs_fork (rel_file rel))"
    "ws_relid b3 = ws_relid b" "ws_subid b3 = ws_subid b" "ws_flushedUnder b3 = ws_flushedUnder b" "ws_storageId b3 = ws_storageId b"
    "ws_haveReservation b3" "ws_stripeRowLimit b3 = ws_stripeRowLimit b" "ws_stripeRowCount b3 = ws_stripeRowCount b + 1"
    using r(1,2) f by (auto simp: row_appended_def reserve_stripe_def PgColumnarReserveRowNumbers_def PgColumnarReadRowGroupList_def
        PgColumnarStorageId_def PgColumnarReadMetapage_def Let_def split: if_splits)
  let ?q = "ws_relid b" and ?first = "ws_stripeFirstRowNumber b1" and ?lim = "ws_stripeRowLimit b"
  have b3: "ws_stripeFirstRowNumber b3 = ?first" using r(2) by (simp add: row_appended_def)
  have n: "n = ?first + ws_stripeRowCount b" using r(3) f(6) by simp
  show "\<exists>fresh. unique_numbers fresh \<and> (\<forall>k \<in># fresh. next_row rel \<le> k \<and> k < next_row rel1) \<and>
      ws_items ?q b3 = ws_items ?q b + {#n#} \<and> ws_tail ?q b3 + {#n#} = ws_tail ?q b + fresh"
  proof (cases "ws_haveReservation b")
    case True
    then have e: "b1 = b" and lim: "ws_stripeRowCount b < ?lim" using r(1) ok by (simp_all add: reserve_stripe_def ws_ok_def)
    have "[n..<?first + ?lim] = n # [Suc n..<?first + ?lim]" using lim n by (simp add: upt_conv_Cons)
    then have "ws_tail ?q b3 + {#n#} = ws_tail ?q b + {#}" using True rest b3 n e by (simp add: ws_tail_def)
    moreover have "ws_items ?q b3 = ws_items ?q b + {#n#}" using rest b3 n e by (simp add: ws_items_def ws_rows_def)
    ultimately show ?thesis by (intro exI[of _ "{#}"]) (simp add: unique_numbers_def)
  next
    case False
    then have c: "ws_stripeRowCount b = 0" "0 < ?lim" using ok by (simp_all add: ws_ok_def)
    have h: "?first = next_row rel" "next_row rel1 = next_row rel + ?lim"
      using False r(1) by (auto simp: reserve_stripe_def PgColumnarReserveRowNumbers_def Let_def)
    let ?fresh = "mset [next_row rel..<next_row rel + ?lim]"
    have "[n..<?first + ?lim] = n # [Suc n..<?first + ?lim]" using c n by (simp add: upt_conv_Cons)
    then have "ws_tail ?q b3 + {#n#} = ws_tail ?q b + ?fresh" using False rest b3 n c h by (simp add: ws_tail_def)
    moreover have "ws_items ?q b3 = ws_items ?q b + {#n#}" using rest b3 n c by (simp add: ws_items_def ws_rows_def)
    moreover have "unique_numbers ?fresh" unfolding unique_numbers_def using distinct_upt distinct_count_atmost_1 by (metis order_refl zero_le)
    ultimately show ?thesis using h by (intro exI[of _ ?fresh]) auto
  qed
qed

lemma ins_step: "xs \<noteq> [] \<Longrightarrow> spec_step r (Ins q n) xs = (hd xs \<union> set_mset (if r = q then {#n#} else {#})) # tl xs"
  by (cases xs) auto

lemma focused_write_row:
  assumes foc: "focused sid s q pre b post rel xss" and w: "PgColumnarWriteRow F b v rel = Inr (n, b4, rel2)"
  shows "focused sid s q pre b4 post rel2 (spec_all (Ins q n) xss)"
proof -
  obtain p ss where p: "ss_subids s = p # ss" "\<And>r. xss r \<noteq> []" "ws_subid b = p" "ws_flushedUnder b = 0" "ws_ok (sid q) b"
    "PgColumnarStorageId (rs_fork (rel_file rel)) = Inr (sid q)"
    "\<And>r. rel_sim (sid r) r (p # ss) (((ss_rels s)(q := rel)) r # map (\<lambda>rels. rels r) (ss_saved s)) (pre @ b # post) (ss_deletes s) (xss r)"
    by (rule focused_parts[OF foc]) (rule that)
  have q: "ws_relid b = q" using foc by (simp add: focused_def)
  obtain b1 rel1 b3 where r: "reserve_stripe b rel = (b1, rel1)" "row_appended b1 b3" "n = ws_stripeFirstRowNumber b1 + ws_stripeRowCount b1"
    "(if ws_stripeRowCount b3 \<ge> ws_stripeRowLimit b3 then pgcolumnar_flush_row_group F b3 rel1 else Inr (b3, rel1)) = Inr (b4, rel2)"
    by (rule write_row_cases[OF w]) (rule that)
  note a = reserved_row[OF p(5) r(1-3), unfolded q]
  obtain fresh where fr: "unique_numbers fresh" "\<forall>k \<in># fresh. next_row rel \<le> k \<and> k < next_row rel1"
      "ws_items q b3 = ws_items q b + {#n#}" "ws_tail q b3 + {#n#} = ws_tail q b + fresh" using a(1) by blast
  have app: "rel_sim (sid r) r (p # ss) (((ss_rels s)(q := rel1)) r # map (\<lambda>rels. rels r) (ss_saved s)) (pre @ b3 # post) (ss_deletes s)
      (spec_step r (Ins q n) (xss r))" for r
    unfolding ins_step[OF p(2)]
  proof (rule sim_append[OF p(7)])
    show "ws_subid b = p" "ws_flushedUnder b = 0" "ws_subid b3 = p" "ws_flushedUnder b3 = 0" using p(3,4) a(7,8) by simp_all
    show "ws_items r b3 = ws_items r b + (if r = q then {#n#} else {#})" using fr(3) q a(6) by (simp add: ws_items_def)
    show "ws_tail r b3 + (if r = q then {#n#} else {#}) \<subseteq># ws_tail r b + (if r = q then fresh else {#})"
      using fr(4) q a(6) by (simp add: ws_tail_def)
    show "unique_numbers (if r = q then fresh else {#})" using fr(1) by (simp add: unique_numbers_def)
    show "\<forall>k \<in># (if r = q then fresh else {#}). next_row (((ss_rels s)(q := rel)) r) \<le> k \<and> k < next_row (((ss_rels s)(q := rel1)) r)"
      using fr(2) by simp
  qed (use a(2-4) in simp_all)
  have ok: "ws_relid b4 = q \<and> ws_subid b4 = ws_subid b \<and> ws_ok (sid q) b4 \<and> PgColumnarStorageId (rs_fork (rel_file rel2)) = Inr (sid q) \<and>
      (b4 = b3 \<and> rel2 = rel1 \<or> ws_flushed p (sid q) b3 rel1 b4 rel2)"
  proof (cases "ws_stripeRowCount b3 \<ge> ws_stripeRowLimit b3")
    case True
    then have fl: "pgcolumnar_flush_row_group F b3 rel1 = Inr (b4, rel2)" using r(4) by simp
    have st: "ws_storageId b3 = sid q" using a(9) p(5) by (simp add: ws_ok_def)
    have flushed: "ws_flushed p (sid q) b3 rel1 b4 rel2"
      by (rule flush_owned_step[OF fl st]) (use a(7,8) p(3,4) in simp_all)
    obtain b0 where "b4 = reset_stripe b0" "same_state b3 b0"
      using flush_group_grows(3)[OF fl[unfolded pgcolumnar_flush_row_group_def]] a(12) by auto
    moreover have "0 < ws_stripeRowLimit b3" using a(11) p(5) by (simp add: ws_ok_def)
    ultimately show ?thesis using flushed st a p(3,6) by (auto simp: same_state_def reset_stripe_def ws_ok_def ws_flushed_def grown_def)
  next
    case False
    then have "b4 = b3" "rel2 = rel1" using r(4) by simp_all
    then show ?thesis using False a p(3,5,6) by (auto simp: ws_ok_def)
  qed
  have "rel_sim (sid r) r (p # ss) (((ss_rels s)(q := rel2)) r # map (\<lambda>rels. rels r) (ss_saved s)) (pre @ b4 # post) (ss_deletes s)
      (spec_step r (Ins q n) (xss r))" for r
  proof (cases "b4 = b3 \<and> rel2 = rel1")
    case False
    then have "ws_flushed p (sid q) b3 rel1 b4 rel2" using ok by blast
    then show ?thesis by (rule rel_flush_one[OF app]) (use a(6) in auto)
  qed (use app in simp)
  then show ?thesis using ok by (intro focusedI[OF foc]) (simp_all add: p(1))
qed

lemma focused_append_slot:
  assumes foc: "focused sid s q pre b post rel xss" and w: "append_slot E (current_subid s) b v rel = Inr (n, b', rel')"
  shows "focused sid s q pre b' post rel' (spec_all (Ins q n) xss)"
proof -
  obtain b1 rel1 where r: "PgColumnarWriteRow (xe_flush E) b v rel = Inr (n, b1, rel1)"
      "PgColumnarWriteStateAfterAppend (xe_flush E) (current_subid s) b1 rel1 = Inr (b', rel')"
    using w by (auto simp: append_slot_def res_bind_Inr)
  note foc1 = focused_write_row[OF foc r(1)]
  obtain p ss where p: "ss_subids s = p # ss" "ws_subid b1 = p" "ws_flushedUnder b1 = 0" "ws_ok (sid q) b1"
    by (rule focused_parts[OF foc1]) (rule that)
  show ?thesis
  proof (cases "ws_eagerFlush b1")
    case True
    then obtain b2 where b2: "(if ws_stripeRowCount b1 > 0 then pgcolumnar_flush_row_group (xe_flush E) b1 rel1 else Inr (b1, rel1)) = Inr (b2, rel')"
        "b' = b2\<lparr>ws_eagerFlush := False\<rparr>"
      using r(2) p by (auto simp: PgColumnarWriteStateAfterAppend_def InvalidSubTransactionId_def res_bind_Inr split: if_splits)
    have "pgcolumnar_flush_row_group (xe_flush E) b1 rel1 = Inr (b2, rel')"
      using b2(1) by (auto simp: pgcolumnar_flush_row_group_def flush_row_group_def split: if_splits)
    then have "ws_flushed (current_subid s) (sid q) b1 rel1 b' rel'"
      by (rule flush_owned_step) (use p b2(2) in \<open>simp_all add: ws_ok_def\<close>)
    then show ?thesis by (rule focused_flush[OF foc1])
  next
    case False
    then show ?thesis using r(2) foc1 by (simp add: PgColumnarWriteStateAfterAppend_def)
  qed
qed

lemma focused_append_slots:
  assumes "focused sid s q pre b post rel xss" "append_slots E (current_subid s) b vs rel = Inr (ns, b', rel')"
  shows "focused sid s q pre b' post rel' (\<lambda>r. spec_run r (map (Ins q) ns) (xss r))"
  using assms
proof (induction vs arbitrary: b rel xss ns)
  case (Cons v vs)
  from Cons.prems(2) obtain n b1 rel1 ms where r: "append_slot E (current_subid s) b v rel = Inr (n, b1, rel1)"
      "append_slots E (current_subid s) b1 vs rel1 = Inr (ms, b', rel')" "ns = n # ms"
    by (auto simp: res_bind_Inr)
  from Cons.IH[OF focused_append_slot[OF Cons.prems(1) r(1)] r(2)] show ?case by (simp add: r(3) spec_run_def)
qed (simp add: spec_run_def)

subsection \<open>Finding the write state\<close>

lemma new_state_fields:
  assumes "new_write_state G T q cur rel = Inr b" "PgColumnarStorageId (rs_fork (rel_file rel)) = Inr sd" "0 < stripe_limit G T"
  shows "ws_relid b = q" "ws_subid b = cur" "ws_flushedUnder b = 0" "ws_ok sd b" "ws_items r b = {#}" "ws_tail r b = {#}"
  using assms by (auto simp: new_write_state_def Let_def split_beta ws_ok_def ws_items_def ws_rows_def ws_tail_def
      stripe_limit_def InvalidSubTransactionId_def)

lemma focused_new:
  assumes sim: "session_sim sid (s\<lparr>ss_writes := wss, ss_rels := (ss_rels s)(q := rel)\<rparr>) xss"
    and b: "new_write_state G T q (current_subid s) rel = Inr b" "0 < stripe_limit G T"
  shows "focused sid s q wss b [] rel xss"
proof -
  let ?s = "s\<lparr>ss_writes := wss, ss_rels := (ss_rels s)(q := rel)\<rparr>"
  have "\<forall>r. PgColumnarStorageId (rs_fork (rel_file (((ss_rels s)(q := rel)) r))) = Inr (sid r)" using sim by (simp add: session_sim_def)
  then have "PgColumnarStorageId (rs_fork (rel_file rel)) = Inr (sid q)" by (metis fun_upd_same)
  note f = new_state_fields[OF b(1) this b(2)]
  obtain p ss where p: "ss_subids ?s = p # ss" using sim_stack[OF sim] by metis
  have "rel_sim (sid r) r (p # ss) (cats_of ?s r) (wss @ [b]) (ss_deletes s) (xss r)" for r
    by (rule sim_new_state) (use sim f p in \<open>simp_all add: session_sim_def\<close>)
  then show ?thesis using sim f p unfolding focused_def focus_def session_sim_def by simp
qed

lemma focused_drop:
  assumes foc: "focused sid s q pre b post rel xss" and b: "ws_stripeRowCount b = 0"
  shows "session_sim sid (s\<lparr>ss_writes := pre @ post, ss_rels := (ss_rels s)(q := rel)\<rparr>) xss"
proof -
  have sim: "session_sim sid (focus s pre b post rel) xss" and q: "ws_relid b = q" using foc by (simp_all add: focused_def)
  let ?s = "s\<lparr>ss_writes := pre @ post, ss_rels := (ss_rels s)(q := rel)\<rparr>"
  have none: "ws_items r b = {#}" for r using b by (simp add: ws_items_def ws_rows_def)
  have now: "rel_sim (sid r) r (ss_subids s) (cats_of ?s r) (pre @ b # post) (ss_deletes s) (xss r)" for r
    using sim q by (simp add: session_sim_def focus_def)
  have "rel_sim (sid r) r (ss_subids s) (cats_of ?s r) (pre @ post) (ss_deletes s) (xss r)" for r
    by (rule sim_drop_state[OF now none])
  moreover have "\<forall>ws \<in> set (pre @ post). ws_ok (sid (ws_relid ws)) ws" using sim by (simp add: session_sim_def focus_def)
  ultimately show ?thesis using sim q unfolding session_sim_def focus_def by simp
qed

lemma found_write_state:
  assumes "find_write_state q cur wss = i" "i < length wss"
  shows "wss = take i wss @ wss ! i # drop (Suc i) wss" "ws_relid (wss ! i) = q" "ws_subid (wss ! i) = cur"
  using assms nth_length_takeWhile[of "\<lambda>ws. ws_relid ws \<noteq> q \<or> ws_subid ws \<noteq> cur" wss]
  by (auto simp: find_write_state_def id_take_nth_drop)

lemma get_write_state_focus:
  assumes sim: "session_sim sid s xss" and lim: "0 < stripe_limit G T"
    and g: "PgColumnarGetWriteState G F T q (current_subid s) (ss_writes s) (ss_rels s q) = Inr (i, wss, rel)"
  obtains pre b post where "wss = pre @ b # post" "i = length pre" "focused sid s q pre b post rel xss"
proof -
  define k where "k = find_write_state q (current_subid s) (ss_writes s)"
  let ?ws = "ss_writes s ! k"
  let ?pre = "take k (ss_writes s)" and ?post = "drop (Suc k) (ss_writes s)"
  have foc: "focused sid s q ?pre ?ws ?post (ss_rels s q) xss" if "k < length (ss_writes s)"
  proof -
    note f = found_write_state[OF k_def[symmetric] that]
    have "focus s ?pre ?ws ?post (ss_rels s q) = s" using f by (simp add: focus_def)
    then show ?thesis using sim f(2,3) by (simp add: focused_def)
  qed
  show ?thesis
  proof (cases "k < length (ss_writes s) \<and> ws_natts ?ws = length (tb_cols T)")
    case True
    then have "i = k" "wss = ss_writes s" "rel = ss_rels s q"
      using g by (simp_all add: PgColumnarGetWriteState_def Let_def k_def[symmetric])
    moreover have "ss_writes s = ?pre @ ?ws # ?post" "length ?pre = k"
      using found_write_state(1)[OF k_def[symmetric]] True by simp_all
    ultimately show ?thesis using that[of ?pre ?ws ?post] foc True by simp
  next
    case False
    then obtain wss1 b where n: "(if k < length (ss_writes s)
        then res_bind (if ws_stripeRowCount ?ws > 0 then pgcolumnar_flush_row_group F ?ws (ss_rels s q) else Inr (?ws, ss_rels s q))
               (\<lambda>(ws1, rel1). Inr (?pre @ ?post, rel1))
        else Inr (ss_writes s, ss_rels s q)) = Inr (wss1, rel)"
      "new_write_state G T q (current_subid s) rel = Inr b" "i = length wss1" "wss = wss1 @ [b]"
      using g by (auto simp: PgColumnarGetWriteState_def Let_def k_def[symmetric] res_bind_Inr)
    have "session_sim sid (s\<lparr>ss_writes := wss1, ss_rels := (ss_rels s)(q := rel)\<rparr>) xss"
    proof (cases "k < length (ss_writes s)")
      case True
      then obtain ws1 where w: "(if ws_stripeRowCount ?ws > 0 then pgcolumnar_flush_row_group F ?ws (ss_rels s q) else Inr (?ws, ss_rels s q)) = Inr (ws1, rel)"
          "wss1 = ?pre @ ?post" using n(1) by (auto simp: res_bind_Inr)
      obtain p ss where p: "ss_subids s = p # ss" "ws_subid ?ws = p" "ws_flushedUnder ?ws = 0" "ws_ok (sid q) ?ws"
        by (rule focused_parts[OF foc[OF True]]) (rule that)
      show ?thesis
      proof (cases "ws_stripeRowCount ?ws > 0")
        case flush: True
        then have fl: "pgcolumnar_flush_row_group F ?ws (ss_rels s q) = Inr (ws1, rel)" using w(1) by simp
        then have "ws_flushed (current_subid s) (sid q) ?ws (ss_rels s q) ws1 rel"
          by (rule flush_owned_step) (use p in \<open>simp_all add: ws_ok_def\<close>)
        moreover have "ws_stripeRowCount ws1 = 0"
          using flush_group_grows(3)[OF fl[unfolded pgcolumnar_flush_row_group_def]] flush by (auto simp: reset_stripe_def)
        ultimately show ?thesis using focused_drop[OF focused_flush[OF foc[OF True]]] w(2) by simp
      next
        case False
        then have r: "rel = ss_rels s q" using w(1) by simp
        show ?thesis unfolding r w(2) using focused_drop[OF foc[OF True]] False by simp
      qed
    next
      case False
      then have e: "wss1 = ss_writes s" "rel = ss_rels s q" using n(1) by simp_all
      show ?thesis unfolding e using sim by simp
    qed
    from focused_new[OF this n(2) lim] show ?thesis using that n(3,4) by simp
  qed
qed

subsection \<open>Handlers that write\<close>

lemma session_multi_insert:
  assumes sim: "session_sim sid s xss" and lim: "0 < stripe_limit (xe_guc E) T" and w: "pgcolumnar_multi_insert E T q vs s = Inr (ns, s')"
  shows "session_sim sid s' (\<lambda>r. spec_run r (map (Ins q) ns) (xss r))"
proof -
  obtain i wss rel b' rel' where g: "PgColumnarGetWriteState (xe_guc E) (xe_flush E) T q (current_subid s) (ss_writes s) (ss_rels s q) = Inr (i, wss, rel)"
      "append_slots E (current_subid s) (wss ! i) vs rel = Inr (ns, b', rel')" "s' = s\<lparr>ss_writes := wss[i := b'], ss_rels := (ss_rels s)(q := rel')\<rparr>"
    using w by (auto simp: pgcolumnar_multi_insert_def res_bind_Inr)
  obtain pre b post where f: "wss = pre @ b # post" "i = length pre" "focused sid s q pre b post rel xss"
    by (rule get_write_state_focus[OF sim lim g(1)]) (rule that)
  have "focused sid s q pre b' post rel' (\<lambda>r. spec_run r (map (Ins q) ns) (xss r))"
    by (rule focused_append_slots[OF f(3), of E vs]) (use g(2) f(1,2) in simp)
  then show ?thesis using g(3) f(1,2) by (auto simp: focused_def focus_def)
qed

lemma insert_is_multi:
  assumes "pgcolumnar_tuple_insert E T q v s = Inr (n, s')"
  shows "pgcolumnar_multi_insert E T q [v] s = Inr ([n], s')"
  using assms by (auto simp: pgcolumnar_tuple_insert_def pgcolumnar_multi_insert_def res_bind_Inr)

lemma session_insert:
  assumes "session_sim sid s xss" "0 < stripe_limit (xe_guc E) T" "pgcolumnar_tuple_insert E T q v s = Inr (n, s')"
  shows "session_sim sid s' (spec_all (Ins q n) xss)"
  using session_multi_insert[OF assms(1,2) insert_is_multi[OF assms(3)]] by (simp add: spec_run_def)

lemma session_step_sim:
  assumes "session_step E s ops s'" "session_sim sid s xss"
  shows "session_sim sid s' (\<lambda>r. spec_run r ops (xss r))"
  using assms
proof (induction rule: session_step.induct)
  case (insert T q v s n s')
  from session_insert[OF insert(3,1,2)] show ?case by (simp add: spec_run_def)
next
  case (multi_insert T q vs s ns s')
  from session_multi_insert[OF multi_insert(3,1,2)] show ?case .
next
  case (mark q tid cp s s')
  then have "mark_deleted q (tid_row E tid) s = Inr s'"
    by (auto simp: pgcolumnar_tuple_delete_def PgColumnarRowWriteConflict_def res_bind_Inr Let_def split: option.splits if_splits)
  from session_mark[OF mark(2) this] show ?case by (simp add: spec_run_def)
next
  case (mark_self q tid cp s s')
  then have "s' = s"
    by (auto simp: pgcolumnar_tuple_delete_def PgColumnarRowWriteConflict_def res_bind_Inr Let_def split: option.splits if_splits)
  then show ?case using mark_self(2) by (simp add: spec_run_def)
next
  case (update T q tid v s n s')
  then obtain s1 where "mark_deleted q (tid_row E tid) s = Inr s1" "pgcolumnar_tuple_insert E T q v s1 = Inr (n, s')"
    by (auto simp: pgcolumnar_tuple_update_def PgColumnarRowWriteConflict_def res_bind_Inr Let_def split: option.splits if_splits)
  from session_insert[OF session_mark[OF update(3) this(1)] update(1) this(2)] show ?case by (simp add: spec_run_def)
next
  case (update_self T q tid v s s')
  then have "s' = s"
    by (auto simp: pgcolumnar_tuple_update_def PgColumnarRowWriteConflict_def res_bind_Inr Let_def split: option.splits if_splits)
  then show ?case using update_self(2) by (simp add: spec_run_def)
next
  case (speculative q tid succeeded s s')
  show ?case
  proof (cases succeeded)
    case False
    then obtain s1 where "flush_relation_writes E q s = Inr s1" "mark_deleted q (tid_row E tid) s1 = Inr s'"
      using speculative(1) by (auto simp: pgcolumnar_tuple_complete_speculative_def res_bind_Inr)
    from session_mark[OF sim_relation_writes[OF speculative(2) this(1)] this(2)] show ?thesis using False by (simp add: spec_run_def)
  qed (use speculative in \<open>simp add: pgcolumnar_tuple_complete_speculative_def spec_run_def\<close>)
next
  case (scan q s s')
  then obtain s1 where "flush_relation_writes E q s = Inr s1" "flush_relation_deletes E q s1 = Inr s'"
    by (auto simp: pgcolumnar_scan_begin_def res_bind_Inr)
  from sim_relation_deletes[OF sim_relation_writes[OF scan(2) this(1)] this(2)] show ?case by (simp add: spec_run_def)
next
  case (bulk_end q s s')
  then obtain s1 where "flush_relation_writes E q s = Inr s1" "flush_relation_deletes E q s1 = Inr s'"
    by (auto simp: pgcolumnar_finish_bulk_insert_def res_bind_Inr)
  from sim_relation_deletes[OF sim_relation_writes[OF bulk_end(2) this(1)] this(2)] show ?case by (simp add: spec_run_def)
next
  case (statement_end s s')
  from sim_executor_end[OF statement_end(2,1)] show ?case by (simp add: spec_run_def)
next
  case (begin_sub subid s)
  from session_begin[OF begin_sub(3,1,2)] show ?case by (simp add: spec_run_def)
next
  case (commit_sub s)
  from session_commit[OF commit_sub(2,1)] show ?case by (simp add: spec_run_def)
next
  case (abort_sub s)
  from session_abort[OF abort_sub(2,1)] show ?case by (simp add: spec_run_def)
qed

lemma unique_numbers_catalog:
  assumes "catalog_ok sd rel" shows "unique_numbers (group_numbers sd rel)"
proof -
  have "count (sum_mset (image_mset group_span (mset L))) n \<le> 1"
    if "distinct L" "\<forall>g \<in> set L. \<forall>g' \<in> set L. group_covers n g \<and> group_covers n g' \<longrightarrow> g = g'" for L n
    using that
  proof (induction L)
    case (Cons g L)
    have c: "count (group_span h) n = (if group_covers n h then 1 else 0)" for h
      using distinct_count_atmost_1[of "[rg_firstRowNumber h..<rg_firstRowNumber h + rg_rowCount h]"]
      by (auto simp: group_covers_def simp del: mset_upt)
    have "count (sum_mset (image_mset group_span (mset L))) n = 0" if "group_covers n g"
      using that Cons.prems by (auto simp: not_in_iff[symmetric] group_covers_def)
    then show ?case using Cons.IH Cons.prems c[of g] by (cases "group_covers n g") auto
  qed simp
  moreover have "distinct (groups_of sd rel)" "\<forall>n. \<forall>g \<in> set (groups_of sd rel). \<forall>g' \<in> set (groups_of sd rel). group_covers n g \<and> group_covers n g' \<longrightarrow> g = g'"
    using assms unfolding catalog_ok_def Let_def by (simp add: distinct_map, blast)
  ultimately show ?thesis unfolding unique_numbers_def group_numbers_def by blast
qed

lemma txn_start_sim:
  assumes "txn_start sid s" shows "session_sim sid s (\<lambda>r. [live_rows (sid r) (ss_rels s r)])"
proof -
  obtain tx where t: "tx \<noteq> InvalidSubTransactionId" "ss_subids s = [tx]" using assms by (auto simp: txn_start_def)
  have e: "ss_saved s = []" "ss_writes s = []" "ss_deletes s = []" using assms by (simp_all add: txn_start_def)
  have c: "catalog_ok (sid r) (ss_rels s r)" "\<forall>n \<in> group_rows (sid r) (ss_rels s r). n < next_row (ss_rels s r)"
    "PgColumnarStorageId (rs_fork (rel_file (ss_rels s r))) = Inr (sid r)" for r using assms by (simp_all add: txn_start_def)
  have "rel_sim (sid r) r [tx] [ss_rels s r] [] [] [live_rows (sid r) (ss_rels s r)]" for r
  proof (rule rel_simI[where base = "group_numbers (sid r) (ss_rels s r)" and fs = "[{#}]" and dbase = "deleted_rows (sid r) (ss_rels s r)" and ds = "[{}]"])
    show "write_inv r (sid r) (group_numbers (sid r) (ss_rels s r)) [{#}] [tx] [ss_rels s r] []"
      using c(2) t(1) unique_numbers_catalog[OF c(1)] by (auto simp: write_inv_def writes.registry_ok_def InvalidSubTransactionId_def)
    show "delete_inv r (sid r) (deleted_rows (sid r) (ss_rels s r)) [{}] [tx] [ss_rels s r] []"
      using c(1) t(1) by (simp add: delete_inv_def deletes.registry_ok_def InvalidSubTransactionId_def)
  qed (simp_all add: live_rows_def)
  then show ?thesis using assms e t c(3) by (simp add: session_sim_def txn_start_def)
qed

lemma run_sim:
  assumes "session_run E s0 ops s" "txn_start sid s0"
  shows "session_sim sid s (\<lambda>r. spec_run r ops [live_rows (sid r) (ss_rels s0 r)])"
  using assms
proof (induction rule: session_run.induct)
  case start
  then show ?case using txn_start_sim by (simp add: spec_run_def)
next
  case (step ops s ops' s')
  from session_step_sim[OF step(2) step.IH[OF step.prems]] show ?case by (simp add: spec_run_def)
qed

subsection \<open>What a reader sees\<close>

text \<open>With nothing pending at a level, its catalog holds the top of the stack.\<close>

lemma flushed_catalog:
  assumes sim: "rel_sim sd r (s # ss) (c # cs) wss bufs xs"
    and w: "writes.pending r (set (s # ss)) wss = {#}" and d: "deletes.pending r (set (s # ss)) bufs = {}"
  shows "live_rows sd c = hd xs"
proof -
  obtain base fs dbase ds where inv: "write_inv r sd base fs (s # ss) (c # cs) wss" "delete_inv r sd dbase ds (s # ss) (c # cs) bufs"
      "xs = lives base fs dbase ds" using sim unfolding rel_sim_def by blast
  obtain f gs g es where l: "fs = f # gs" "ds = g # es" using inv_lengths[OF inv(1,2)] by (cases fs; cases ds) auto
  have "group_numbers sd c = base + sum_list fs" using level_numbers(1)[OF inv(1)] w by simp
  then have "group_rows sd c = set_mset (base + sum_list fs)" by (metis set_group_numbers)
  moreover have "deleted_rows sd c = dbase \<union> \<Union> (set ds)" using level_deletes(1)[OF inv(2)] d by simp
  ultimately show ?thesis using inv(3) l by (simp add: live_rows_def)
qed

lemma registry_walk_all:
  assumes "registry_walk key f bs rels = Inr (bs', rels')" "\<forall>b \<in> set bs. \<forall>rel b' rel'. f b rel = Inr (b', rel') \<longrightarrow> P b'"
  shows "\<forall>b' \<in> set bs'. P b'"
  using assms
proof (induction bs arbitrary: rels bs')
  case (Cons b bs)
  then obtain b1 rel1 bs1 where f: "f b (rels (key b)) = Inr (b1, rel1)" "registry_walk key f bs (rels(key b := rel1)) = Inr (bs1, rels')" "bs' = b1 # bs1"
    by (auto simp: res_bind_Inr)
  have "P b1" using Cons.prems(2) f(1) by (metis list.set_intros(1))
  moreover have "\<forall>b' \<in> set bs1. P b'" by (rule Cons.IH[OF f(2)]) (use Cons.prems(2) in simp)
  ultimately show ?case by (simp add: f(3))
qed simp

lemma none_pending:
  "\<forall>ws \<in> set wss. writes.share r S ws = {#} \<Longrightarrow> writes.pending r S wss = {#}"
  "\<forall>b \<in> set bufs. deletes.share r S b = {} \<Longrightarrow> deletes.pending r S bufs = {}"
proof -
  show "\<forall>ws \<in> set wss. writes.share r S ws = {#} \<Longrightarrow> writes.pending r S wss = {#}" by (induction wss) simp_all
  show "\<forall>b \<in> set bufs. deletes.share r S b = {} \<Longrightarrow> deletes.pending r S bufs = {}" by (induction bufs) simp_all
qed

lemma flush_empties:
  assumes "flush_row_group F ws False rel = Inr (ws', rel')" shows "ws_items r ws' = {#}"
proof (cases "ws_stripeRowCount ws = 0")
  case True
  then show ?thesis using assms by (simp add: flush_row_group_def ws_items_def ws_rows_def)
next
  case False
  then show ?thesis using flush_group_grows(3)[OF assms False] by (auto simp: reset_stripe_def ws_items_def ws_rows_def)
qed

lemma relation_writes_gone:
  assumes sim: "session_sim sid s xss" and fl: "flush_relation_writes E r s = Inr s'"
  shows "writes.pending r (set (ss_subids s)) (ss_writes s') = {#}"
proof -
  let ?S = "set (ss_subids s)" and ?f = "flush_for_relation (xe_flush E) (current_subid s) r"
  obtain wss rels where w: "registry_walk ws_relid ?f (ss_writes s) (ss_rels s) = Inr (wss, rels)" "ss_writes s' = wss"
    using fl by (auto simp: flush_relation_writes_def PgColumnarFlushWriteStateForRelation_def res_bind_Inr)
  have cur: "current_subid s \<in> ?S" using sim_stack[OF sim] by (metis list.sel(1) list.set_intros(1))
  have "writes.share r ?S ws' = {#}" if "ws \<in> set (ss_writes s)" "?f ws rel = Inr (ws', rel')" for ws rel ws' rel'
  proof -
    have u: "ws_flushedUnder ws = 0 \<or> ws_flushedUnder ws \<in> ?S"
      using sim_registries(1)[OF sim] that(1) writes.place_okD unfolding writes.registry_ok_def by blast
    consider "ws_relid ws \<noteq> r" | "ws_flushedUnder ws \<noteq> 0" | "ws_relid ws = r" "ws_flushedUnder ws = 0" "ws_subid ws = current_subid s"
      | "ws_relid ws = r" "ws_flushedUnder ws = 0" "ws_subid ws \<noteq> current_subid s" by blast
    then show ?thesis
    proof cases
      case 1
      then show ?thesis using that(2) by (simp add: flush_for_relation_def writes.share_def ws_items_def Let_def)
    next
      case 2
      then have "ws' = ws" using that(2) by (auto simp: flush_for_relation_def InvalidSubTransactionId_def Let_def split: if_splits)
      then show ?thesis using 2 u by (simp add: writes.share_def writes.counted_def)
    next
      case 3
      then have "ws_items r ws' = {#}"
        using that(2) flush_empties[of "xe_flush E" ws rel ws' rel' r]
        by (auto simp: flush_for_relation_def InvalidSubTransactionId_def Let_def res_bind_Inr ws_items_def ws_rows_def split: if_splits)
      then show ?thesis by (simp add: writes.share_def)
    next
      case 4
      then have "ws_stripeRowCount ws = 0 \<and> ws' = ws \<or> ws_flushedUnder ws' = current_subid s"
        using that(2) by (auto simp: flush_for_relation_def InvalidSubTransactionId_def Let_def res_bind_Inr split: if_splits)
      then show ?thesis using cur by (auto simp: writes.share_def writes.counted_def ws_items_def ws_rows_def)
    qed
  qed
  then have "\<forall>ws \<in> set wss. writes.share r ?S ws = {#}" by (intro registry_walk_all[OF w(1)]) blast
  then show ?thesis using none_pending(1) w(2) by simp
qed

lemma flush_buffer_empties:
  assumes "delete_vector_flush_buffer setting False b rel = Inr (b', rel')" shows "dv_items r b' = {}"
  using assms by (auto simp: delete_vector_flush_buffer_def dv_items_def buffer_marks_def delete_vector_reset_buffer_def Let_def res_bind_Inr
      split: if_splits)

lemma relation_deletes_gone:
  assumes sim: "session_sim sid s xss" and fl: "flush_relation_deletes E r s = Inr s'"
  shows "deletes.pending r (set (ss_subids s)) (ss_deletes s') = {}" "ss_writes s' = ss_writes s"
proof -
  let ?S = "set (ss_subids s)" and ?f = "flush_deletes_for_relation (xe_rowLock E) (current_subid s) r"
  obtain bufs rels where w: "registry_walk dvb_relid ?f (ss_deletes s) (ss_rels s) = Inr (bufs, rels)" "s' = s\<lparr>ss_deletes := bufs, ss_rels := rels\<rparr>"
    using fl by (auto simp: flush_relation_deletes_def PgColumnarFlushDeleteVectorForRelation_def res_bind_Inr)
  show "ss_writes s' = ss_writes s" using w(2) by simp
  have cur: "current_subid s \<in> ?S" using sim_stack[OF sim] by (metis list.sel(1) list.set_intros(1))
  have "deletes.share r ?S b' = {}" if m: "b \<in> set (ss_deletes s)" "?f b rel = Inr (b', rel')" for b rel b' rel'
  proof -
    have u: "dvb_flushedUnder b = 0 \<or> dvb_flushedUnder b \<in> ?S"
      using sim_registries(2)[OF sim] m(1) deletes.place_okD unfolding deletes.registry_ok_def by blast
    consider "dvb_relid b \<noteq> r" | "dvb_flushedUnder b \<noteq> 0" | "dvb_relid b = r" "dvb_flushedUnder b = 0" "dvb_subid b = current_subid s"
      | "dvb_relid b = r" "dvb_flushedUnder b = 0" "dvb_subid b \<noteq> current_subid s" by blast
    then show ?thesis
    proof cases
      case 1
      then show ?thesis using m(2) by (simp add: flush_deletes_for_relation_def deletes.share_def dv_items_def Let_def)
    next
      case 2
      then have "b' = b" using m(2) by (auto simp: flush_deletes_for_relation_def InvalidSubTransactionId_def Let_def split: if_splits)
      then show ?thesis using 2 u by (simp add: deletes.share_def deletes.counted_def)
    next
      case 3
      then have "delete_vector_flush_buffer (xe_rowLock E) False b rel = Inr (b', rel')"
        using m(2) by (auto simp: flush_deletes_for_relation_def InvalidSubTransactionId_def Let_def res_bind_Inr)
      then show ?thesis using flush_buffer_empties by (simp add: deletes.share_def)
    next
      case 4
      then obtain b1 where "b' = (if dvb_chunks b1 \<noteq> [] then b1\<lparr>dvb_flushedUnder := current_subid s\<rparr> else b1)"
        using m(2) by (auto simp: flush_deletes_for_relation_def InvalidSubTransactionId_def Let_def res_bind_Inr)
      then have "dvb_chunks b' = [] \<or> dvb_flushedUnder b' = current_subid s" by (cases "dvb_chunks b1 = []") simp_all
      then show ?thesis using cur by (auto simp: deletes.share_def deletes.counted_def dv_items_def buffer_marks_def)
    qed
  qed
  then have "\<forall>b \<in> set bufs. deletes.share r ?S b = {}" by (intro registry_walk_all[OF w(1)]) blast
  then show "deletes.pending r ?S (ss_deletes s') = {}" using none_pending(2) w(2) by simp
qed

subsection \<open>Properties\<close>

lemma scan_reads_top:
  assumes sim: "session_sim sid s xss" and b: "pgcolumnar_scan_begin E r s = Inr s'"
  shows "live_rows (sid r) (ss_rels s' r) = hd (xss r)"
proof -
  obtain s1 where s1: "flush_relation_writes E r s = Inr s1" "flush_relation_deletes E r s1 = Inr s'"
    using b by (auto simp: pgcolumnar_scan_begin_def res_bind_Inr)
  note sim1 = sim_relation_writes[OF sim s1(1)]
  note sim2 = sim_relation_deletes[OF sim1 s1(2)]
  have e: "ss_subids s1 = ss_subids s" "ss_subids s' = ss_subids s"
    using s1 by (auto simp: flush_relation_writes_def flush_relation_deletes_def res_bind_Inr)
  obtain p ss where p: "ss_subids s = p # ss" using sim_stack[OF sim] by metis
  have "rel_sim (sid r) r (p # ss) (ss_rels s' r # map (\<lambda>rels. rels r) (ss_saved s')) (ss_writes s') (ss_deletes s') (xss r)"
    using sim2 p e by (simp add: session_sim_def)
  then show ?thesis
    by (rule flushed_catalog) (use relation_writes_gone[OF sim s1(1)] relation_deletes_gone[OF sim1 s1(2)] p e in simp_all)
qed

lemma commit_leaves_top:
  assumes sim: "session_sim sid s xss" and tx: "ss_subids s = [tx]"
    and ev: "event \<in> {PRE_PREPARE, PRE_COMMIT, PARALLEL_PRE_COMMIT, PREPARE}" and c: "pgcolumnar_xact_callback E event s = Inr s'"
  shows "live_rows (sid r) (ss_rels s' r) = hd (xss r)"
proof -
  let ?f = "pgcolumnar_flush_row_group (xe_flush E)" and ?g = "delete_vector_flush_buffer (xe_rowLock E) False"
  obtain wss rels bufs rels1 where w: "registry_walk ws_relid ?f (ss_writes s) (ss_rels s) = Inr (wss, rels)"
      "registry_walk dvb_relid ?g (ss_deletes s) rels = Inr (bufs, rels1)" "ss_rels s' = rels1"
    using c ev by (auto simp: pgcolumnar_xact_callback_def PgColumnarFlushAllPendingWrites_def PgColumnarFlushAllDeleteVectors_def res_bind_Inr split: if_splits)
  have own: "ws_subid ws = tx" if "ws \<in> set (ss_writes s)" for ws
    using sim_registries(1)[OF sim] that tx by (auto simp: writes.registry_ok_def writes.place_ok_def)
  have "write_steps sid (current_subid s) ?f (ss_writes s)"
    by (rule owned_write_steps[OF sim, where F = "xe_flush E"]) (use own tx in auto)
  note s1 = session_flush_writes[OF sim w(1) this]
  let ?s1 = "s\<lparr>ss_writes := wss, ss_rels := rels\<rparr>"
  have own1: "dvb_subid b = tx" if "b \<in> set (ss_deletes s)" for b
    using sim_registries(2)[OF sim] that tx by (auto simp: deletes.registry_ok_def deletes.place_ok_def)
  have "delete_steps sid (current_subid ?s1) ?g (ss_deletes ?s1)" by (rule owned_delete_steps[OF s1]) (use own1 tx in simp)
  from session_flush_deletes[OF s1 _ this, of bufs rels1] w(2)
  have s2: "session_sim sid (s\<lparr>ss_writes := wss, ss_deletes := bufs, ss_rels := rels1\<rparr>) xss" by simp
  have ww: "\<forall>ws \<in> set wss. writes.share r {tx} ws = {#}"
    by (rule registry_walk_all[OF w(1)]) (auto simp: pgcolumnar_flush_row_group_def writes.share_def dest: flush_empties)
  have dd: "\<forall>b \<in> set bufs. deletes.share r {tx} b = {}"
    by (rule registry_walk_all[OF w(2)]) (auto simp: deletes.share_def dest: flush_buffer_empties)
  have "rel_sim (sid r) r [tx] (rels1 r # map (\<lambda>rels. rels r) (ss_saved s)) wss bufs (xss r)"
    using s2 tx by (simp add: session_sim_def)
  then show ?thesis unfolding w(3) by (rule flushed_catalog) (use none_pending(1)[OF ww] none_pending(2)[OF dd] in simp_all)
qed

text \<open>
  C4: A transaction reads its own writes. After any history of inserts, deletes, updates, scans,
  statement ends and nested subtransactions, the catalog that a scan reads once it has flushed
  holds exactly the rows that the specification has on top of its stack for that table:
  everything inserted and not deleted by the open subtransactions and the committed ones below
  them, and nothing of an aborted one, whichever buffers a read in a deeper subtransaction wrote
  out early.
\<close>

theorem scan_reads_own_writes:
  assumes "txn_start sid s0" "session_run E s0 ops s" "pgcolumnar_scan_begin E r s = Inr s'"
  shows "live_rows (sid r) (ss_rels s' r) = hd (spec_run r ops [live_rows (sid r) (ss_rels s0 r)])"
  by (rule scan_reads_top[OF run_sim[OF assms(2,1)] assms(3)])

text \<open>
  C5: A commit persists what the transaction did. When every subtransaction has ended, no buffer
  is noted as written under one, as the flushes assert; and when the flushes of a pre-commit or a
  prepare succeed, the catalog of every table holds exactly the rows the specification says.
\<close>

theorem commit_persists_writes:
  assumes "txn_start sid s0" "session_run E s0 ops s" "ss_subids s = [tx]"
    "event \<in> {PRE_PREPARE, PRE_COMMIT, PARALLEL_PRE_COMMIT, PREPARE}" "pgcolumnar_xact_callback E event s = Inr s'"
  shows "(\<forall>ws \<in> set (ss_writes s). ws_flushedUnder ws = InvalidSubTransactionId) \<and>
    (\<forall>b \<in> set (ss_deletes s). dvb_flushedUnder b = InvalidSubTransactionId) \<and>
    (\<forall>r. live_rows (sid r) (ss_rels s' r) = hd (spec_run r ops [live_rows (sid r) (ss_rels s0 r)]))"
proof -
  note sim = run_sim[OF assms(2,1)]
  have "ws_flushedUnder ws = 0" if "ws \<in> set (ss_writes s)" for ws
    using sim_registries(1)[OF sim] that assms(3) by (auto simp: writes.registry_ok_def writes.place_ok_def)
  moreover have "dvb_flushedUnder b = 0" if "b \<in> set (ss_deletes s)" for b
    using sim_registries(2)[OF sim] that assms(3) by (auto simp: deletes.registry_ok_def deletes.place_ok_def)
  ultimately show ?thesis using commit_leaves_top[OF sim assms(3-5)] by (simp add: InvalidSubTransactionId_def)
qed

text \<open>
  A history over a table without columns: two rows inserted, then a subtransaction that scans
  (which writes the two rows out and keeps the buffer), deletes one, inserts a third and aborts.
\<close>

definition no_columns :: table_info where
  "no_columns = \<lparr>tb_cols = [], tb_options = None, tb_sketchCatalog = False, tb_sketchColumns = [], tb_hasUniqueIndex = False\<rparr>"

definition plain_txn :: txn_env where
  "plain_txn = \<lparr>xe_guc = \<lparr>guc_stripeRowLimit = 10, guc_chunkGroupRowLimit = 4, guc_cfg = plain_cfg, guc_bloomEnabled = False,
     guc_types = int8_types\<rparr>, xe_flush = append_env 100, xe_rowLock = None, xe_maxTuples = 291\<rparr>"

definition fresh_session :: session where
  "fresh_session = \<lparr>ss_subids = [1], ss_saved = [], ss_rels = (\<lambda>r. empty_rel 100 (7 + r)), ss_writes = [], ss_deletes = []\<rparr>"

definition nested_history :: "(session \<Rightarrow> 'a result) \<Rightarrow> (session \<times> 'a) result" where
  "nested_history k =
     res_bind (pgcolumnar_multi_insert plain_txn no_columns 1 [[], []] fresh_session) (\<lambda>(ns, s1).
     res_bind (pgcolumnar_scan_begin plain_txn 1 (begin_subxact 2 s1)) (\<lambda>s2.
     res_bind (pgcolumnar_tuple_delete plain_txn 1 (0, 3) False s2) (\<lambda>(t, s3).
     res_bind (pgcolumnar_tuple_insert plain_txn no_columns 1 [] s3) (\<lambda>(n, s4).
     if ns = [1, 2] \<and> t = TM_Ok \<and> n = 11 \<and> ss_subids s1 = [1] \<and> ss_subids s4 = [2, 1]
     then res_bind (k (abort_subxact s4)) (\<lambda>x. Inr (abort_subxact s4, x)) else Inl (Corrupt ''other history'')))))"

lemma nested_history_run:
  assumes "nested_history k = Inr (s, x)"
  shows "session_run plain_txn fresh_session [Ins 1 1, Ins 1 2, Begin_Sub, Del 1 2, Ins 1 11, Abort_Sub] s" "k s = Inr x" "ss_subids s = [1]"
proof -
  obtain s1 s2 s3 s4 where h: "pgcolumnar_multi_insert plain_txn no_columns 1 [[], []] fresh_session = Inr ([1, 2], s1)"
      "pgcolumnar_scan_begin plain_txn 1 (begin_subxact 2 s1) = Inr s2" "pgcolumnar_tuple_delete plain_txn 1 (0, 3) False s2 = Inr (TM_Ok, s3)"
      "pgcolumnar_tuple_insert plain_txn no_columns 1 [] s3 = Inr (11, s4)" "s = abort_subxact s4" "k s = Inr x"
      "ss_subids s1 = [1]" "ss_subids s4 = [2, 1]"
    using assms by (auto simp: nested_history_def res_bind_Inr split: if_splits)
  have lim: "0 < stripe_limit (xe_guc plain_txn) no_columns"
    by (simp add: stripe_limit_def plain_txn_def no_columns_def effective_options_def option_or_def)
  have row: "tid_row plain_txn (0, 3) = 2" by (simp add: plain_txn_def PgColumnarItemPointerToRowNumber_def)
  let ?run = "session_run plain_txn fresh_session"
  have "?run ([] @ map (Ins 1) [1, 2]) s1" by (rule session_run.step[OF session_run.start session_step.multi_insert[OF lim h(1)]])
  from session_run.step[OF this session_step.begin_sub[of 2]] have "?run ([Ins 1 1, Ins 1 2] @ [Begin_Sub]) (begin_subxact 2 s1)"
    using h(7) by (simp add: InvalidSubTransactionId_def)
  from session_run.step[OF this session_step.scan[OF h(2)]] have "?run [Ins 1 1, Ins 1 2, Begin_Sub] s2" by simp
  from session_run.step[OF this session_step.mark[OF h(3)]] have "?run [Ins 1 1, Ins 1 2, Begin_Sub, Del 1 2] s3" by (simp add: row)
  from session_run.step[OF this session_step.insert[OF lim h(4)]] have "?run [Ins 1 1, Ins 1 2, Begin_Sub, Del 1 2, Ins 1 11] s4" by simp
  from session_run.step[OF this session_step.abort_sub] h(5,8)
  show "?run [Ins 1 1, Ins 1 2, Begin_Sub, Del 1 2, Ins 1 11, Abort_Sub] s" by simp
  show "k s = Inr x" by (rule h(6))
  show "ss_subids s = [1]" using h(5,8) by (simp add: abort_subxact_def pgcolumnar_subxact_callback_def)
qed

lemma fresh_session_start:
  "txn_start ((+) 7) fresh_session" "live_rows 8 (ss_rels fresh_session 1) = {}"
  by (simp_all add: txn_start_def fresh_session_def InvalidSubTransactionId_def empty_rel_def PgColumnarStorageId_def
      PgColumnarWriteNewMetapage_def PgColumnarReadMetapage_def catalog_ok_def PgColumnarReadRowGroupList_def group_rows_def live_rows_def)

theorem scan_reads_own_writes_witness:
  "\<exists>s s'. session_run plain_txn fresh_session [Ins 1 1, Ins 1 2, Begin_Sub, Del 1 2, Ins 1 11, Abort_Sub] s \<and>
     pgcolumnar_scan_begin plain_txn 1 s = Inr s' \<and> live_rows 8 (ss_rels s' 1) = {1, 2}"
proof -
  have "\<not> isl (nested_history (pgcolumnar_scan_begin plain_txn 1))" by code_simp
  then obtain s s' where h: "nested_history (pgcolumnar_scan_begin plain_txn 1) = Inr (s, s')" by (cases "nested_history (pgcolumnar_scan_begin plain_txn 1)") auto
  note run = nested_history_run[OF h]
  from scan_reads_own_writes[OF fresh_session_start(1) run(1,2)] have "live_rows 8 (ss_rels s' 1) = {1, 2}"
    using fresh_session_start(2) by (simp add: spec_run_def insert_commute)
  then show ?thesis using run by blast
qed

theorem commit_persists_writes_witness:
  "\<exists>s s'. session_run plain_txn fresh_session [Ins 1 1, Ins 1 2, Begin_Sub, Del 1 2, Ins 1 11, Abort_Sub] s \<and>
     pgcolumnar_xact_callback plain_txn PRE_COMMIT s = Inr s' \<and> live_rows 8 (ss_rels s' 1) = {1, 2}"
proof -
  have "\<not> isl (nested_history (pgcolumnar_xact_callback plain_txn PRE_COMMIT))" by code_simp
  then obtain s s' where h: "nested_history (pgcolumnar_xact_callback plain_txn PRE_COMMIT) = Inr (s, s')"
    by (cases "nested_history (pgcolumnar_xact_callback plain_txn PRE_COMMIT)") auto
  note run = nested_history_run[OF h]
  have "PRE_COMMIT \<in> {PRE_PREPARE, PRE_COMMIT, PARALLEL_PRE_COMMIT, PREPARE}" by simp
  from commit_persists_writes[OF fresh_session_start(1) run(1,3) this run(2), THEN conjunct2, THEN conjunct2, THEN spec, of 1]
  have "live_rows 8 (ss_rels s' 1) = {1, 2}" using fresh_session_start(2) by (simp add: spec_run_def insert_commute)
  then show ?thesis using run by auto
qed

end
