(* ===== verification/Thrift.thy ===== *)
theory Thrift
  imports Bitpack
begin

section \<open>The Thrift compact protocol\<close>

text \<open>
  \<open>src/columnar_thrift.c\<close>: the reader over an in-memory buffer and the writer into a
  \<open>StringInfo\<close>. A reader is the record \<open>TCReader\<close> (the buffer, the position and the sticky
  error flag; the length is that of the buffer, and positions are naturals because every
  operation keeps the position within the buffer, which is proved below). A writer appends to
  a byte list. An \<open>int64\<close> is the word of its bits. A field id is an \<open>int\<close>; the reader's
  addition of a delta wraps at 32 bits, as the build's \<open>-fwrapv\<close> makes it. \<open>*fid\<close> and
  \<open>*lastId\<close> hold the same value after every field header, so the model returns it once.

  \<open>PgColumnarThriftSkip\<close> recurses as deep as the file nests, and \<open>check_stack_depth\<close> raises
  when the stack is used up: the first argument is the number of frames that still fit. Its
  \<open>for (;;)\<close> over the fields of a struct has a fuel of one more than the buffer's length.
\<close>

record TCReader =
  tc_buf :: "byte list"
  tc_pos :: nat
  tc_error :: bool

definition tc_fail :: "TCReader \<Rightarrow> TCReader" where
  "tc_fail r = r\<lparr>tc_error := True\<rparr>"

definition tc_advance :: "nat \<Rightarrow> TCReader \<Rightarrow> TCReader" where
  "tc_advance n r = r\<lparr>tc_pos := tc_pos r + n\<rparr>"

abbreviation tc_len :: "TCReader \<Rightarrow> nat" where
  "tc_len r \<equiv> length (tc_buf r)"

definition TC_STOP :: nat where "TC_STOP = 0"
definition TC_BOOL_TRUE :: nat where "TC_BOOL_TRUE = 1"
definition TC_BOOL_FALSE :: nat where "TC_BOOL_FALSE = 2"
definition TC_BYTE :: nat where "TC_BYTE = 3"
definition TC_I16 :: nat where "TC_I16 = 4"
definition TC_I32 :: nat where "TC_I32 = 5"
definition TC_I64 :: nat where "TC_I64 = 6"
definition TC_DOUBLE :: nat where "TC_DOUBLE = 7"
definition TC_BINARY :: nat where "TC_BINARY = 8"
definition TC_LIST :: nat where "TC_LIST = 9"
definition TC_SET :: nat where "TC_SET = 10"
definition TC_MAP :: nat where "TC_MAP = 11"
definition TC_STRUCT :: nat where "TC_STRUCT = 12"
definition TC_UUID :: nat where "TC_UUID = 13"

lemmas tc_types = TC_STOP_def TC_BOOL_TRUE_def TC_BOOL_FALSE_def TC_BYTE_def TC_I16_def TC_I32_def
  TC_I64_def TC_DOUBLE_def TC_BINARY_def TC_LIST_def TC_SET_def TC_MAP_def TC_STRUCT_def TC_UUID_def

subsection \<open>The reader\<close>

function tc_varint_loop :: "TCReader \<Rightarrow> u64 \<Rightarrow> nat \<Rightarrow> u64 \<times> TCReader" where
  "tc_varint_loop r v shift =
     (if tc_pos r < tc_len r
      then let b = tc_buf r ! tc_pos r;
               r = tc_advance 1 r;
               v = v OR push_bit shift (ucast (b AND 0x7f))
           in if b AND 0x80 = 0 then (v, r)
              else if shift + 7 > 63 then (v, tc_fail r)
              else tc_varint_loop r v (shift + 7)
      else (v, tc_fail r))"
  by auto
termination by (relation "measure (\<lambda>(r, v, shift). 64 - shift)") auto

definition PgColumnarThriftVarint :: "TCReader \<Rightarrow> u64 \<times> TCReader" where
  "PgColumnarThriftVarint r = tc_varint_loop r 0 0"

definition PgColumnarThriftZigzag :: "TCReader \<Rightarrow> u64 \<times> TCReader" where
  "PgColumnarThriftZigzag r =
     (let (u, r) = PgColumnarThriftVarint r in (drop_bit 1 u XOR - (u AND 1), r))"

text \<open>
  \<open>PgColumnarThriftBytes\<close> returns a pointer into the buffer, here its offset, and the length
  cut to 32 bits.
\<close>

definition PgColumnarThriftBytes :: "TCReader \<Rightarrow> nat option \<times> u32 \<times> TCReader" where
  "PgColumnarThriftBytes r =
     (let (n, r) = PgColumnarThriftVarint r
      in if tc_error r \<or> unat n > tc_len r - tc_pos r then (None, 0, tc_fail r)
         else (Some (tc_pos r), ucast n, tc_advance (unat n) r))"

definition PgColumnarThriftField :: "TCReader \<Rightarrow> int \<Rightarrow> nat \<times> int \<times> TCReader" where
  "PgColumnarThriftField r lastId =
     (if tc_pos r \<ge> tc_len r then (TC_STOP, lastId, tc_fail r)
      else let b = tc_buf r ! tc_pos r;
               r = tc_advance 1 r
           in if b = 0 then (TC_STOP, lastId, r)
              else let ftype = unat (b AND 0x0f)
                   in if ftype > TC_UUID \<or> ftype = TC_STOP then (TC_STOP, lastId, tc_fail r)
                      else if drop_bit 4 b \<noteq> 0
                      then (ftype, sint (word_of_int (lastId + uint (drop_bit 4 b)) :: u32), r)
                      else let (v, r) = PgColumnarThriftZigzag r
                           in (ftype, sint (ucast v :: u32), r))"

definition PgColumnarThriftListHeader :: "TCReader \<Rightarrow> u32 \<times> nat \<times> TCReader" where
  "PgColumnarThriftListHeader r =
     (if tc_pos r \<ge> tc_len r then (0, 0, tc_fail r)
      else let b = tc_buf r ! tc_pos r;
               r = tc_advance 1 r;
               size = ucast (drop_bit 4 b AND 0x0f) :: u32;
               etype = unat (b AND 0x0f)
           in if size = 0x0f
              then let (v, r) = PgColumnarThriftVarint r in (ucast v, etype, r)
              else (size, etype, r))"

text \<open>The fixed-width values a skip steps over.\<close>

definition tc_skip_bytes :: "nat \<Rightarrow> TCReader \<Rightarrow> TCReader" where
  "tc_skip_bytes k r = (if tc_len r - tc_pos r < k then tc_fail r else tc_advance k r)"

definition tc_skip_byte :: "TCReader \<Rightarrow> TCReader" where
  "tc_skip_byte r = (if tc_pos r \<ge> tc_len r then tc_fail r else tc_advance 1 r)"

definition pq_thrift_skip_element ::
    "(TCReader \<Rightarrow> nat \<Rightarrow> TCReader result) \<Rightarrow> nat \<Rightarrow> TCReader \<Rightarrow> TCReader result" where
  "pq_thrift_skip_element skip etype r =
     (if etype = TC_BOOL_TRUE \<or> etype = TC_BOOL_FALSE then Inr (tc_skip_byte r) else skip r etype)"

text \<open>\<open>for (i = 0; i < size && !r->error; i++)\<close> with a body that may raise.\<close>

primrec tc_repeat :: "(TCReader \<Rightarrow> TCReader result) \<Rightarrow> nat \<Rightarrow> TCReader \<Rightarrow> TCReader result" where
  "tc_repeat f 0 r = Inr r"
| "tc_repeat f (Suc n) r = (if tc_error r then Inr r else res_bind (f r) (tc_repeat f n))"

text \<open>
  The loop every struct parser is: read a field header, stop at \<open>TC_STOP\<close> or at an error,
  otherwise handle the field. \<open>body ft fid\<close> handles one field and updates the parsed state.
\<close>

primrec tc_struct_loop ::
    "(nat \<Rightarrow> int \<Rightarrow> 's \<Rightarrow> TCReader \<Rightarrow> ('s \<times> TCReader) result) \<Rightarrow> nat \<Rightarrow> int \<Rightarrow> 's \<Rightarrow> TCReader \<Rightarrow>
     ('s \<times> TCReader) result" where
  "tc_struct_loop body 0 lastId s r = Inl Loop_Exhausted"
| "tc_struct_loop body (Suc fuel) lastId s r =
     (let (ft, fid, r) = PgColumnarThriftField r lastId
      in if ft = TC_STOP \<or> tc_error r then Inr (s, r)
         else res_bind (body ft fid s r) (\<lambda>(s, r). tc_struct_loop body fuel fid s r))"

definition tc_struct ::
    "(nat \<Rightarrow> int \<Rightarrow> 's \<Rightarrow> TCReader \<Rightarrow> ('s \<times> TCReader) result) \<Rightarrow> 's \<Rightarrow> TCReader \<Rightarrow>
     ('s \<times> TCReader) result" where
  "tc_struct body s r = tc_struct_loop body (Suc (tc_len r)) 0 s r"

primrec PgColumnarThriftSkip :: "nat \<Rightarrow> TCReader \<Rightarrow> nat \<Rightarrow> TCReader result" where
  "PgColumnarThriftSkip 0 r ftype = Inl (Corrupt ''stack depth limit exceeded'')"
| "PgColumnarThriftSkip (Suc d) r ftype =
     (if ftype = TC_BOOL_TRUE \<or> ftype = TC_BOOL_FALSE then Inr r
      else if ftype = TC_BYTE then Inr (tc_skip_byte r)
      else if ftype = TC_I16 \<or> ftype = TC_I32 \<or> ftype = TC_I64
      then Inr (snd (PgColumnarThriftZigzag r))
      else if ftype = TC_DOUBLE then Inr (tc_skip_bytes 8 r)
      else if ftype = TC_UUID then Inr (tc_skip_bytes 16 r)
      else if ftype = TC_BINARY then Inr (snd (snd (PgColumnarThriftBytes r)))
      else if ftype = TC_LIST \<or> ftype = TC_SET then
        (if tc_pos r \<ge> tc_len r then Inr (tc_fail r)
         else let (size, et, r) = PgColumnarThriftListHeader r
              in tc_repeat (pq_thrift_skip_element (PgColumnarThriftSkip d) et) (unat size) r)
      else if ftype = TC_MAP then
        (let (v, r) = PgColumnarThriftVarint r;
             size = ucast v :: u32
         in if tc_error r \<or> size = 0 then Inr r
            else if tc_pos r \<ge> tc_len r then Inr (tc_fail r)
            else let kt = unat (drop_bit 4 (tc_buf r ! tc_pos r) AND 0x0f);
                     vt = unat (tc_buf r ! tc_pos r AND 0x0f)
                 in tc_repeat
                      (\<lambda>r. res_bind (pq_thrift_skip_element (PgColumnarThriftSkip d) kt r)
                             (pq_thrift_skip_element (PgColumnarThriftSkip d) vt))
                      (unat size) (tc_advance 1 r))
      else if ftype = TC_STRUCT then
        res_bind (tc_struct (\<lambda>ft fid _ r. res_bind (PgColumnarThriftSkip d r ft) (\<lambda>r. Inr ((), r))) () r)
          (\<lambda>(_, r). Inr r)
      else Inr (tc_fail r))"

subsection \<open>The writer\<close>

function PgColumnarThriftPutVarint :: "byte list \<Rightarrow> u64 \<Rightarrow> byte list" where
  "PgColumnarThriftPutVarint b v =
     (if v \<ge> 0x80 then PgColumnarThriftPutVarint (b @ [ucast ((v AND 0x7f) OR 0x80)]) (drop_bit 7 v)
      else b @ [ucast v])"
  by auto
termination
  by (relation "measure (\<lambda>(b, v). unat v)")
    (auto simp: word_le_nat_alt drop_bit_eq_div unat_div)

definition PgColumnarThriftPutZigzag32 :: "byte list \<Rightarrow> u32 \<Rightarrow> byte list" where
  "PgColumnarThriftPutZigzag32 b v =
     PgColumnarThriftPutVarint b (ucast (push_bit 1 v XOR signed_drop_bit 31 v))"

definition PgColumnarThriftPutZigzag64 :: "byte list \<Rightarrow> u64 \<Rightarrow> byte list" where
  "PgColumnarThriftPutZigzag64 b v =
     PgColumnarThriftPutVarint b (push_bit 1 v XOR signed_drop_bit 63 v)"

text \<open>
  The field writers return the buffer; the caller's \<open>lastId\<close> becomes the id it passed.
\<close>

definition PgColumnarThriftPutField :: "byte list \<Rightarrow> int \<Rightarrow> int \<Rightarrow> nat \<Rightarrow> byte list" where
  "PgColumnarThriftPutField b lastId i type =
     (let delta = i - lastId
      in if delta > 0 \<and> delta \<le> 15 then b @ [push_bit 4 (word_of_int delta) OR of_nat type]
         else PgColumnarThriftPutZigzag32 (b @ [of_nat type]) (word_of_int i))"

definition PgColumnarThriftPutI32Field :: "byte list \<Rightarrow> int \<Rightarrow> int \<Rightarrow> u32 \<Rightarrow> byte list" where
  "PgColumnarThriftPutI32Field b lastId i v =
     PgColumnarThriftPutZigzag32 (PgColumnarThriftPutField b lastId i TC_I32) v"

definition PgColumnarThriftPutI64Field :: "byte list \<Rightarrow> int \<Rightarrow> int \<Rightarrow> u64 \<Rightarrow> byte list" where
  "PgColumnarThriftPutI64Field b lastId i v =
     PgColumnarThriftPutZigzag64 (PgColumnarThriftPutField b lastId i TC_I64) v"

definition PgColumnarThriftPutStringField :: "byte list \<Rightarrow> int \<Rightarrow> int \<Rightarrow> byte list \<Rightarrow> byte list" where
  "PgColumnarThriftPutStringField b lastId i s =
     (let b = PgColumnarThriftPutVarint (PgColumnarThriftPutField b lastId i TC_BINARY)
                (of_nat (length s))
      in if length s > 0 then b @ s else b)"

definition PgColumnarThriftPutListHeader :: "byte list \<Rightarrow> nat \<Rightarrow> nat \<Rightarrow> byte list" where
  "PgColumnarThriftPutListHeader b n elemType =
     (if n < 15 then b @ [push_bit 4 (of_nat n) OR of_nat elemType]
      else PgColumnarThriftPutVarint (b @ [0xF0 OR of_nat elemType]) (of_nat n))"

definition PgColumnarThriftPutStop :: "byte list \<Rightarrow> byte list" where
  "PgColumnarThriftPutStop b = b @ [of_nat TC_STOP]"

declare tc_varint_loop.simps [simp del] PgColumnarThriftPutVarint.simps [simp del]


section \<open>Laws of the reader\<close>

text \<open>
  What every operation does to a reader: the buffer stays, the position never moves back and
  never leaves the buffer, and an error stays set.
\<close>

definition tc_steps :: "TCReader \<Rightarrow> TCReader \<Rightarrow> bool" where
  "tc_steps r r' \<longleftrightarrow> tc_buf r' = tc_buf r \<and> tc_pos r \<le> tc_pos r' \<and>
     (tc_pos r \<le> tc_len r \<longrightarrow> tc_pos r' \<le> tc_len r) \<and> (tc_error r \<longrightarrow> tc_error r')"

definition tc_moves :: "TCReader \<Rightarrow> TCReader \<Rightarrow> bool" where
  "tc_moves r r' \<longleftrightarrow> tc_steps r r' \<and> (tc_error r' \<or> tc_pos r < tc_pos r')"

lemma tc_fail_simps [simp]:
  "tc_buf (tc_fail r) = tc_buf r" "tc_pos (tc_fail r) = tc_pos r" "tc_error (tc_fail r)"
  by (simp_all add: tc_fail_def)

lemma tc_advance_simps [simp]:
  "tc_buf (tc_advance n r) = tc_buf r" "tc_pos (tc_advance n r) = tc_pos r + n"
  "tc_error (tc_advance n r) = tc_error r"
  by (simp_all add: tc_advance_def)

lemma tc_steps_refl [simp]: "tc_steps r r"
  by (simp add: tc_steps_def)

lemma tc_steps_trans: "tc_steps r r' \<Longrightarrow> tc_steps r' r'' \<Longrightarrow> tc_steps r r''"
  by (auto simp: tc_steps_def)

lemma tc_steps_fail [simp]: "tc_steps r (tc_fail r)"
  by (simp add: tc_steps_def)

lemma tc_moves_steps: "tc_moves r r' \<Longrightarrow> tc_steps r r'"
  by (simp add: tc_moves_def)

lemma tc_moves_fail [simp]: "tc_moves r (tc_fail r)"
  by (simp add: tc_moves_def)

lemma tc_moves_steps_trans: "tc_moves r r' \<Longrightarrow> tc_steps r' r'' \<Longrightarrow> tc_moves r r''"
  by (auto simp: tc_moves_def tc_steps_def)

lemma tc_steps_moves_trans: "tc_steps r r' \<Longrightarrow> tc_moves r' r'' \<Longrightarrow> tc_moves r r''"
  by (auto simp: tc_moves_def tc_steps_def)

lemma tc_moves_advance: "0 < n \<Longrightarrow> tc_pos r + n \<le> tc_len r \<Longrightarrow> tc_moves r (tc_advance n r)"
  by (simp add: tc_moves_def tc_steps_def)

lemma tc_moves_advance1: "tc_pos r < tc_len r \<Longrightarrow> tc_moves r (tc_advance 1 r)"
  by (rule tc_moves_advance) auto

lemma tc_varint_loop_moves: "tc_moves r (snd (tc_varint_loop r v shift))"
proof (induction r v shift rule: tc_varint_loop.induct)
  case (1 r v shift)
  show ?case
  proof (cases "tc_pos r < tc_len r")
    case True
    note step = tc_moves_advance1[OF True]
    show ?thesis
      using True 1[OF True refl refl refl] step
      by (subst tc_varint_loop.simps)
        (auto simp: Let_def intro: tc_moves_steps_trans tc_moves_steps)
  qed (subst tc_varint_loop.simps, simp)
qed

lemma tc_varint_moves: "tc_moves r (snd (PgColumnarThriftVarint r))"
  unfolding PgColumnarThriftVarint_def by (rule tc_varint_loop_moves)

lemma tc_zigzag_moves: "tc_moves r (snd (PgColumnarThriftZigzag r))"
  using tc_varint_moves[of r] by (cases "PgColumnarThriftVarint r") (simp add: PgColumnarThriftZigzag_def)

lemma tc_bytes_moves:
  assumes "tc_pos r \<le> tc_len r"
  shows "tc_moves r (snd (snd (PgColumnarThriftBytes r)))"
proof -
  obtain n r' where v: "PgColumnarThriftVarint r = (n, r')" by fastforce
  with tc_varint_moves[of r] have "tc_moves r r'" by simp
  then show ?thesis
    using assms by (auto simp: PgColumnarThriftBytes_def v tc_moves_def tc_steps_def)
qed

lemma tc_bytes_in_bounds:
  assumes "tc_pos r \<le> tc_len r" and "PgColumnarThriftBytes r = (Some p, n, r')"
  shows "p + unat n \<le> tc_len r" and "tc_pos r < p" and "\<not> tc_error r'"
proof -
  obtain m q where v: "PgColumnarThriftVarint r = (m, q)" by fastforce
  with tc_varint_moves[of r] have mv: "tc_moves r q" by simp
  have "unat (ucast m :: u32) \<le> unat m"
    by (simp add: unsigned_ucast_eq take_bit_nat_less_eq_self)
  with assms mv show "p + unat n \<le> tc_len r" "tc_pos r < p" "\<not> tc_error r'"
    by (auto simp: PgColumnarThriftBytes_def v tc_moves_def tc_steps_def split: if_splits)
qed

lemma tc_field_moves: "tc_moves r (snd (snd (PgColumnarThriftField r lastId)))"
proof (cases "tc_pos r < tc_len r")
  case True
  note step = tc_moves_advance1[OF True]
  have "tc_moves r (snd (PgColumnarThriftZigzag (tc_advance 1 r)))"
    by (rule tc_moves_steps_trans[OF step tc_moves_steps[OF tc_zigzag_moves]])
  moreover have "tc_moves r (tc_fail (tc_advance 1 r))"
    by (rule tc_moves_steps_trans[OF step tc_steps_fail])
  ultimately show ?thesis
    using True step by (auto simp: PgColumnarThriftField_def Let_def split: prod.split)
qed (simp add: PgColumnarThriftField_def)

lemma tc_list_header_moves: "tc_moves r (snd (snd (PgColumnarThriftListHeader r)))"
proof (cases "tc_pos r < tc_len r")
  case True
  note step = tc_moves_advance1[OF True]
  have "tc_moves r (snd (PgColumnarThriftVarint (tc_advance 1 r)))"
    by (rule tc_moves_steps_trans[OF step tc_moves_steps[OF tc_varint_moves]])
  then show ?thesis
    using True step by (auto simp: PgColumnarThriftListHeader_def Let_def split: prod.split)
qed (simp add: PgColumnarThriftListHeader_def)

lemma tc_skip_byte_moves: "tc_moves r (tc_skip_byte r)"
  using tc_moves_advance1[of r] by (auto simp: tc_skip_byte_def)

lemma tc_skip_bytes_moves: "0 < k \<Longrightarrow> tc_moves r (tc_skip_bytes k r)"
  using tc_moves_advance[of k r] by (auto simp: tc_skip_bytes_def)

lemmas tc_moves_intros = tc_varint_moves tc_zigzag_moves tc_bytes_moves tc_field_moves
  tc_list_header_moves tc_skip_byte_moves tc_skip_bytes_moves

subsection \<open>Loops over fields and elements\<close>

text \<open>
  \<open>tc_fine E r x\<close>: the outcome \<open>x\<close> of an operation on \<open>r\<close> is a raise of \<open>E\<close> or a reader
  that came from \<open>r\<close>. The locale states what a struct parser promises of the handler of its
  fields, on the readers \<open>G\<close>; the loop then ends within its fuel and keeps the promise.
\<close>

definition tc_fine :: "decode_error set \<Rightarrow> TCReader \<Rightarrow> TCReader result \<Rightarrow> bool" where
  "tc_fine E r x = (case x of Inl e \<Rightarrow> e \<in> E | Inr r' \<Rightarrow> tc_steps r r')"

lemma tc_fine_simps [simp]:
  "tc_fine E r (Inl e) \<longleftrightarrow> e \<in> E" "tc_fine E r (Inr r') \<longleftrightarrow> tc_steps r r'"
  by (simp_all add: tc_fine_def)

abbreviation tc_reader_of :: "('s \<times> TCReader) result \<Rightarrow> TCReader result" where
  "tc_reader_of x \<equiv> map_sum id snd x"

lemma tc_fine_bind:
  assumes "tc_fine E r x" and "\<And>r'. x = Inr r' \<Longrightarrow> tc_steps r r' \<Longrightarrow> tc_fine E r' (f r')"
  shows "tc_fine E r (res_bind x f)"
proof (cases x)
  case (Inr r')
  with assms have "tc_steps r r'" "tc_fine E r' (f r')" by simp_all
  with Inr show ?thesis by (cases "f r'") (auto intro: tc_steps_trans)
qed (use assms in simp)

locale thrift_body =
  fixes body :: "nat \<Rightarrow> int \<Rightarrow> 's \<Rightarrow> TCReader \<Rightarrow> ('s \<times> TCReader) result"
    and G :: "TCReader \<Rightarrow> bool"
    and E :: "decode_error set"
  assumes body_fine: "G r \<Longrightarrow> tc_pos r \<le> tc_len r \<Longrightarrow> tc_fine E r (tc_reader_of (body ft fid s r))"
begin

lemma struct_loop_fine:
  assumes "tc_pos r \<le> tc_len r" and "tc_len r - tc_pos r < fuel"
    and "\<And>r'. tc_steps r r' \<Longrightarrow> tc_pos r < tc_pos r' \<Longrightarrow> G r'"
  shows "tc_fine E r (tc_reader_of (tc_struct_loop body fuel lastId s r))"
  using assms
proof (induction fuel arbitrary: lastId s r)
  case (Suc fuel)
  obtain ft fid r1 where f: "PgColumnarThriftField r lastId = (ft, fid, r1)" by (metis prod_cases3)
  with tc_field_moves[of r lastId] have mv: "tc_moves r r1" by simp
  then have st: "tc_steps r r1" by (rule tc_moves_steps)
  show ?case
  proof (cases "ft = TC_STOP \<or> tc_error r1")
    case True
    with f st show ?thesis by simp
  next
    case False
    with mv have lt: "tc_pos r < tc_pos r1" by (simp add: tc_moves_def)
    from st Suc.prems(1) have ok: "tc_pos r1 \<le> tc_len r1" by (simp add: tc_steps_def)
    have b: "tc_fine E r1 (tc_reader_of (body ft fid s r1))"
      by (rule body_fine[OF Suc.prems(3)[OF st lt] ok])
    show ?thesis
    proof (cases "body ft fid s r1")
      case (Inl e)
      with b f False show ?thesis by simp
    next
      case (Inr p)
      obtain s2 r2 where p: "p = (s2, r2)" by fastforce
      from b Inr p have st2: "tc_steps r1 r2" by simp
      note st3 = tc_steps_trans[OF st st2]
      have "tc_fine E r2 (tc_reader_of (tc_struct_loop body fuel fid s2 r2))"
      proof (rule Suc.IH)
        show "tc_pos r2 \<le> tc_len r2" using st3 Suc.prems(1) by (simp add: tc_steps_def)
        show "tc_len r2 - tc_pos r2 < fuel" using st3 st2 lt Suc.prems(1,2) by (auto simp: tc_steps_def)
        show "G r'" if "tc_steps r2 r'" "tc_pos r2 < tc_pos r'" for r'
          using Suc.prems(3)[of r'] tc_steps_trans[OF st3 that(1)] st2 lt that(2) by (simp add: tc_steps_def)
      qed
      with f False Inr p st3 show ?thesis
        by (cases "tc_struct_loop body fuel fid s2 r2") (auto intro: tc_steps_trans)
    qed
  qed
qed simp

lemma struct_fine:
  assumes "tc_pos r \<le> tc_len r" and "\<And>r'. tc_steps r r' \<Longrightarrow> tc_pos r < tc_pos r' \<Longrightarrow> G r'"
  shows "tc_fine E r (tc_reader_of (tc_struct body s r))"
  unfolding tc_struct_def by (rule struct_loop_fine[OF assms(1) _ assms(2)]) simp_all

lemma struct_moves:
  assumes "tc_pos r \<le> tc_len r" and "\<And>r'. tc_steps r r' \<Longrightarrow> tc_pos r < tc_pos r' \<Longrightarrow> G r'"
    and "tc_struct body s r = Inr (s', r')"
  shows "tc_moves r r'"
proof -
  obtain ft fid r1 where f: "PgColumnarThriftField r 0 = (ft, fid, r1)" by (metis prod_cases3)
  with tc_field_moves[of r 0] have mv: "tc_moves r r1" by simp
  have "tc_steps r r'" using struct_fine[OF assms(1,2), of s] assms(3) by simp
  moreover have "tc_pos r1 \<le> tc_pos r'" if "\<not> (ft = TC_STOP \<or> tc_error r1)"
  proof -
    from mv that have st: "tc_steps r r1" and lt: "tc_pos r < tc_pos r1" by (auto simp: tc_moves_def)
    from st assms(1) have ok: "tc_pos r1 \<le> tc_len r1" by (simp add: tc_steps_def)
    from assms(3) that f obtain s2 r2 where b: "body ft fid s r1 = Inr (s2, r2)"
      and l: "tc_struct_loop body (tc_len r) fid s2 r2 = Inr (s', r')"
      by (auto simp: tc_struct_def res_bind_Inr)
    have st2: "tc_steps r1 r2" using body_fine[OF assms(2)[OF st lt] ok, of ft fid s] b by simp
    note st3 = tc_steps_trans[OF st st2]
    have "tc_fine E r2 (tc_reader_of (tc_struct_loop body (tc_len r) fid s2 r2))"
    proof (rule struct_loop_fine)
      show "tc_pos r2 \<le> tc_len r2" using st3 assms(1) by (simp add: tc_steps_def)
      show "tc_len r2 - tc_pos r2 < tc_len r" using st3 st2 lt ok assms(1) by (auto simp: tc_steps_def)
      show "G r'" if "tc_steps r2 r'" "tc_pos r2 < tc_pos r'" for r'
        using assms(2)[of r'] tc_steps_trans[OF st3 that(1)] st2 lt that(2) by (simp add: tc_steps_def)
    qed
    with l st2 show ?thesis by (simp add: tc_steps_def)
  qed
  ultimately show ?thesis
    using mv assms(3) f by (cases "ft = TC_STOP \<or> tc_error r1") (auto simp: tc_moves_def tc_struct_def)
qed

end

lemma tc_repeat_fine:
  assumes "tc_pos r \<le> tc_len r"
    and "\<And>r'. tc_steps r r' \<Longrightarrow> tc_pos r' \<le> tc_len r' \<Longrightarrow> tc_fine E r' (f r')"
  shows "tc_fine E r (tc_repeat f n r)"
  using assms
proof (induction n arbitrary: r)
  case (Suc n)
  show ?case
  proof (cases "tc_error r")
    case False
    have "tc_fine E r (res_bind (f r) (tc_repeat f n))"
    proof (rule tc_fine_bind)
      show "tc_fine E r (f r)" by (rule Suc.prems(2)[OF tc_steps_refl Suc.prems(1)])
      fix r' assume "f r = Inr r'" and st: "tc_steps r r'"
      show "tc_fine E r' (tc_repeat f n r')"
        using Suc.prems(1) st by (intro Suc.IH Suc.prems(2)) (auto simp: tc_steps_def)
    qed
    with False show ?thesis by simp
  qed simp
qed simp

text \<open>A list whose elements each take at least one byte cannot hold more than the bytes left.\<close>

lemma tc_repeat_count:
  assumes "tc_repeat f n r = Inr r'" and "\<not> tc_error r'"
    and "tc_pos r \<le> tc_len r" and mv: "\<And>a b. f a = Inr b \<Longrightarrow> tc_pos a \<le> tc_len a \<Longrightarrow> tc_moves a b"
  shows "n \<le> tc_pos r' - tc_pos r \<and> tc_pos r \<le> tc_pos r'"
  using assms(1-3)
proof (induction n arbitrary: r)
  case (Suc n)
  show ?case
  proof (cases "tc_error r")
    case True
    with Suc.prems show ?thesis by simp
  next
    case False
    with Suc.prems(1) obtain r1 where r1: "f r = Inr r1" "tc_repeat f n r1 = Inr r'"
      by (auto simp: res_bind_Inr)
    from mv[OF r1(1) Suc.prems(3)] have m: "tc_moves r r1" .
    with Suc.prems(3) have "tc_pos r1 \<le> tc_len r1" by (simp add: tc_moves_def tc_steps_def)
    from Suc.IH[OF r1(2) Suc.prems(2) this] have ih: "n \<le> tc_pos r' - tc_pos r1" "tc_pos r1 \<le> tc_pos r'" by auto
    show ?thesis
    proof (cases "tc_error r1")
      case True
      with r1(2) Suc.prems(2) show ?thesis by (cases n) auto
    next
      case no: False
      with m have "tc_pos r < tc_pos r1" by (simp add: tc_moves_def)
      with ih show ?thesis by simp
    qed
  qed
qed simp

subsection \<open>Skipping a value\<close>

abbreviation stack_error :: decode_error where
  "stack_error \<equiv> Corrupt ''stack depth limit exceeded''"

text \<open>The refusal of an allocation, and the errors a parser of a struct may raise.\<close>

abbreviation alloc_error :: decode_error where
  "alloc_error \<equiv> Corrupt ''invalid memory alloc request size''"

abbreviation parse_errors :: "decode_error set" where
  "parse_errors \<equiv> {stack_error, alloc_error}"

lemma tc_skip_element_fine:
  "tc_fine E r (skip r etype) \<Longrightarrow> tc_fine E r (pq_thrift_skip_element skip etype r)"
  by (simp add: pq_thrift_skip_element_def tc_moves_steps[OF tc_skip_byte_moves])

lemma tc_skip_struct_fine:
  assumes "\<And>ft r'. tc_steps r r' \<Longrightarrow> tc_pos r < tc_pos r' \<Longrightarrow> tc_pos r' \<le> tc_len r' \<Longrightarrow> tc_fine E r' (skip r' ft)"
    and "tc_pos r \<le> tc_len r"
  shows "tc_fine E r (res_bind (tc_struct (\<lambda>ft fid _ r. res_bind (skip r ft) (\<lambda>r. Inr ((), r))) () r)
           (\<lambda>(_, r). Inr r))" (is "tc_fine E r (res_bind (tc_struct ?body () r) _)")
proof -
  have "tc_fine E r (tc_reader_of (tc_struct ?body () r))"
  proof (rule thrift_body.struct_fine[OF _ assms(2)])
    show "thrift_body ?body (\<lambda>r'. tc_steps r r' \<and> tc_pos r < tc_pos r') E"
    proof (rule thrift_body.intro)
      fix r' ft fid and s :: unit
      assume "tc_steps r r' \<and> tc_pos r < tc_pos r'" and "tc_pos r' \<le> tc_len r'"
      then have "tc_fine E r' (skip r' ft)" using assms(1)[of r' ft] by simp
      then show "tc_fine E r' (tc_reader_of (?body ft fid s r'))" by (cases "skip r' ft") auto
    qed
  qed simp
  then show ?thesis by (cases "tc_struct ?body () r") (auto split: prod.splits)
qed

lemma tc_skip_fine:
  assumes "tc_pos r \<le> tc_len r" and "stack_error \<in> E \<or> tc_len r - tc_pos r < d"
  shows "tc_fine E r (PgColumnarThriftSkip d r ft)"
  using assms
proof (induction d arbitrary: r ft)
  case (Suc d)
  have IH: "tc_fine E r' (PgColumnarThriftSkip d r' ft)"
    if "tc_steps r r'" "tc_pos r < tc_pos r'" "tc_pos r' \<le> tc_len r'" for r' ft
    using that Suc.prems by (intro Suc.IH) (auto simp: tc_steps_def)
  have rep: "tc_fine E r (tc_repeat f n r1)"
    if f: "\<And>r'. tc_steps r r' \<Longrightarrow> tc_pos r < tc_pos r' \<Longrightarrow> tc_pos r' \<le> tc_len r' \<Longrightarrow> tc_fine E r' (f r')"
      and mv: "tc_moves r r1" for f n r1
  proof (cases "tc_error r1")
    case True
    then have "tc_repeat f n r1 = Inr r1" by (cases n) auto
    with mv show ?thesis by (simp add: tc_moves_steps)
  next
    case False
    with mv have lt: "tc_pos r < tc_pos r1" and st: "tc_steps r r1" by (auto simp: tc_moves_def)
    have "tc_fine E r1 (tc_repeat f n r1)"
    proof (rule tc_repeat_fine)
      show "tc_pos r1 \<le> tc_len r1" using st Suc.prems(1) by (simp add: tc_steps_def)
      show "tc_fine E r' (f r')" if "tc_steps r1 r'" "tc_pos r' \<le> tc_len r'" for r'
        using f[of r'] tc_steps_trans[OF st that(1)] that lt by (simp add: tc_steps_def)
    qed
    with st show ?thesis by (cases "tc_repeat f n r1") (auto intro: tc_steps_trans)
  qed
  have el: "tc_fine E r' (pq_thrift_skip_element (PgColumnarThriftSkip d) et r')"
    if "tc_steps r r'" "tc_pos r < tc_pos r'" "tc_pos r' \<le> tc_len r'" for r' et
    by (rule tc_skip_element_fine, rule IH[OF that])
  have pair: "tc_fine E r' (res_bind (pq_thrift_skip_element (PgColumnarThriftSkip d) kt r')
       (pq_thrift_skip_element (PgColumnarThriftSkip d) vt))"
    if "tc_steps r r'" "tc_pos r < tc_pos r'" "tc_pos r' \<le> tc_len r'" for r' kt vt
    by (rule tc_fine_bind[OF el[OF that]], rule el) (use that in \<open>auto simp: tc_steps_def\<close>)
  have lst: "tc_fine E r (let (size, et, r) = PgColumnarThriftListHeader r
      in tc_repeat (pq_thrift_skip_element (PgColumnarThriftSkip d) et) (unat size) r)"
    using rep[OF el] tc_list_header_moves[of r] by (auto split: prod.split)
  have mp: "tc_fine E r (let (v, r) = PgColumnarThriftVarint r; size = ucast v :: u32
         in if tc_error r \<or> size = 0 then Inr r
            else if tc_pos r \<ge> tc_len r then Inr (tc_fail r)
            else let kt = unat (drop_bit 4 (tc_buf r ! tc_pos r) AND 0x0f);
                     vt = unat (tc_buf r ! tc_pos r AND 0x0f)
                 in tc_repeat
                      (\<lambda>r. res_bind (pq_thrift_skip_element (PgColumnarThriftSkip d) kt r)
                             (pq_thrift_skip_element (PgColumnarThriftSkip d) vt))
                      (unat size) (tc_advance 1 r))"
  proof -
    obtain v r1 where v: "PgColumnarThriftVarint r = (v, r1)" by fastforce
    with tc_varint_moves[of r] have mv: "tc_moves r r1" by simp
    then have st: "tc_steps r r1" by (rule tc_moves_steps)
    have "tc_moves r (tc_advance 1 r1)" if "tc_pos r1 < tc_len r1"
      by (rule tc_moves_steps_trans[OF mv tc_moves_steps[OF tc_moves_advance1[OF that]]])
    then show ?thesis
      unfolding v using rep[OF pair] st tc_steps_trans[OF st tc_steps_fail]
      by (simp add: Let_def not_le)
  qed
  show ?case
    using lst mp tc_skip_struct_fine[OF IH Suc.prems(1)] tc_moves_steps[OF tc_skip_byte_moves[of r]]
      tc_moves_steps[OF tc_zigzag_moves[of r]] tc_moves_steps[OF tc_skip_bytes_moves[of 8 r]]
      tc_moves_steps[OF tc_skip_bytes_moves[of 16 r]] tc_moves_steps[OF tc_bytes_moves[OF Suc.prems(1)]]
    by simp
qed simp

text \<open>Every value but a bool takes a byte or fails, so the elements of a list all do.\<close>

lemma tc_repeat_moves:
  assumes "tc_moves r r1" and "tc_pos r \<le> tc_len r" and "tc_repeat f n r1 = Inr r'"
    and "\<And>a. tc_pos a \<le> tc_len a \<Longrightarrow> tc_fine UNIV a (f a)"
  shows "tc_moves r r'"
proof -
  have "tc_fine UNIV r1 (tc_repeat f n r1)"
    using assms(1,2) by (intro tc_repeat_fine assms(4)) (auto simp: tc_moves_def tc_steps_def)
  with assms(1,3) show ?thesis by (auto intro: tc_moves_steps_trans)
qed

lemma tc_skip_moves:
  assumes "PgColumnarThriftSkip d r ft = Inr r'" and "ft \<noteq> TC_BOOL_TRUE" and "ft \<noteq> TC_BOOL_FALSE"
    and ok: "tc_pos r \<le> tc_len r"
  shows "tc_moves r r'"
proof -
  obtain e where d: "d = Suc e" using assms(1) by (cases d) auto
  have sk: "tc_fine UNIV a (PgColumnarThriftSkip e a t)" if "tc_pos a \<le> tc_len a" for a t
    by (rule tc_skip_fine[OF that]) simp
  have el: "tc_fine UNIV a (pq_thrift_skip_element (PgColumnarThriftSkip e) t a)" if "tc_pos a \<le> tc_len a" for a t
    by (rule tc_skip_element_fine, rule sk[OF that])
  have pair: "tc_fine UNIV a (res_bind (pq_thrift_skip_element (PgColumnarThriftSkip e) kt a)
       (pq_thrift_skip_element (PgColumnarThriftSkip e) vt))" if "tc_pos a \<le> tc_len a" for a kt vt
    by (rule tc_fine_bind[OF el[OF that]], rule el) (use that in \<open>simp add: tc_steps_def\<close>)
  have lst: "tc_moves r r'" if "ft = TC_LIST \<or> ft = TC_SET"
  proof -
    obtain n et r1 where h: "PgColumnarThriftListHeader r = (n, et, r1)" by (metis prod_cases3)
    with tc_list_header_moves[of r] have "tc_moves r r1" by simp
    from tc_repeat_moves[OF this ok _ el] show ?thesis
      using assms(1) that h by (auto simp: d tc_types split: if_splits)
  qed
  have mp: "tc_moves r r'" if "ft = TC_MAP"
  proof -
    obtain v r1 where v: "PgColumnarThriftVarint r = (v, r1)" by fastforce
    with tc_varint_moves[of r] have mv: "tc_moves r r1" by simp
    have adv: "tc_moves r (tc_advance 1 r1)" if "tc_pos r1 < tc_len r1"
      by (rule tc_moves_steps_trans[OF mv tc_moves_steps[OF tc_moves_advance1[OF that]]])
    show ?thesis
      using assms(1) that v mv tc_moves_steps_trans[OF mv tc_steps_fail] tc_repeat_moves[OF adv ok _ pair]
      by (auto simp: d tc_types Let_def split: if_splits)
  qed
  have str: "tc_moves r r'" if "ft = TC_STRUCT"
  proof -
    let ?body = "\<lambda>ft fid (_::unit) r. res_bind (PgColumnarThriftSkip e r ft) (\<lambda>r. Inr ((), r))"
    have "thrift_body ?body (\<lambda>_. True) UNIV"
    proof (rule thrift_body.intro)
      fix a t fid and s :: unit
      assume "tc_pos a \<le> tc_len a"
      from sk[OF this, of t] show "tc_fine UNIV a (tc_reader_of (?body t fid s a))"
        by (cases "PgColumnarThriftSkip e a t") auto
    qed
    from thrift_body.struct_moves[OF this ok] show ?thesis
      using assms(1) that by (auto simp: d tc_types res_bind_Inr)
  qed
  show ?thesis
    using assms(1-3) lst mp str tc_skip_byte_moves[of r] tc_zigzag_moves[of r]
      tc_skip_bytes_moves[of 8 r] tc_skip_bytes_moves[of 16 r] tc_bytes_moves[OF ok]
    by (cases "ft = TC_LIST \<or> ft = TC_SET"; cases "ft = TC_MAP"; cases "ft = TC_STRUCT")
      (auto simp: d split: if_splits)
qed

lemma tc_skip_element_moves:
  assumes "pq_thrift_skip_element (PgColumnarThriftSkip d) et r = Inr r'" and "tc_pos r \<le> tc_len r"
  shows "tc_moves r r'"
  using assms tc_skip_moves[of d r et r'] tc_skip_byte_moves[of r]
  by (auto simp: pq_thrift_skip_element_def split: if_splits)

section \<open>Reading what was written\<close>

text \<open>
  \<open>tc_on pre xs\<close> is a reader that has consumed \<open>pre\<close> and has \<open>xs\<close> ahead. Each law below
  rewrites a read of a written item into the item and the reader behind it, so that a parser
  runs on written bytes by rewriting.
\<close>

definition tc_on :: "byte list \<Rightarrow> byte list \<Rightarrow> TCReader" where
  "tc_on pre xs = \<lparr>tc_buf = pre @ xs, tc_pos = length pre, tc_error = False\<rparr>"

definition tc_varint :: "u64 \<Rightarrow> byte list" where
  "tc_varint v = PgColumnarThriftPutVarint [] v"

definition tc_zigzag32 :: "u32 \<Rightarrow> byte list" where
  "tc_zigzag32 v = tc_varint (ucast (push_bit 1 v XOR signed_drop_bit 31 v))"

definition tc_zigzag64 :: "u64 \<Rightarrow> byte list" where
  "tc_zigzag64 v = tc_varint (zigzag v)"

definition tc_field :: "int \<Rightarrow> int \<Rightarrow> nat \<Rightarrow> byte list" where
  "tc_field lastId i type = PgColumnarThriftPutField [] lastId i type"

definition tc_list_header :: "nat \<Rightarrow> nat \<Rightarrow> byte list" where
  "tc_list_header n type = PgColumnarThriftPutListHeader [] n type"

named_theorems tc_put \<open>the writers as appended bytes\<close>
named_theorems tc_read \<open>reading a written item\<close>

lemma tc_on_simps [simp]:
  "tc_buf (tc_on pre xs) = pre @ xs" "tc_pos (tc_on pre xs) = length pre" "\<not> tc_error (tc_on pre xs)"
  by (simp_all add: tc_on_def)

lemma tc_on_advance [simp]: "n \<le> length xs \<Longrightarrow> tc_advance n (tc_on pre xs) = tc_on (pre @ take n xs) (drop n xs)"
  by (simp add: tc_on_def tc_advance_def)

lemma put_varint_prefix: "PgColumnarThriftPutVarint (b @ c) v = b @ PgColumnarThriftPutVarint c v"
proof (induction c v rule: PgColumnarThriftPutVarint.induct)
  case (1 c v)
  then show ?case
    by (subst (1 2) PgColumnarThriftPutVarint.simps) simp
qed

lemma put_varint_append [tc_put]: "PgColumnarThriftPutVarint b v = b @ tc_varint v"
  using put_varint_prefix[of b "[]" v] by (simp add: tc_varint_def)

lemma tc_varint_rec:
  "tc_varint v = (if v \<ge> 0x80 then ucast ((v AND 0x7f) OR 0x80) # tc_varint (drop_bit 7 v) else [ucast v])"
  by (subst tc_varint_def, subst PgColumnarThriftPutVarint.simps) (simp add: tc_put)

lemma tc_varint_nonempty [simp]: "tc_varint v \<noteq> []"
  by (subst tc_varint_rec) simp

lemma put_zigzag32_append [tc_put]: "PgColumnarThriftPutZigzag32 b v = b @ tc_zigzag32 v"
  by (simp add: PgColumnarThriftPutZigzag32_def tc_zigzag32_def tc_put)

lemma put_zigzag64_append [tc_put]: "PgColumnarThriftPutZigzag64 b v = b @ tc_zigzag64 v"
  by (simp add: PgColumnarThriftPutZigzag64_def tc_zigzag64_def zigzag_def tc_put)

lemma put_field_append [tc_put]: "PgColumnarThriftPutField b lastId i type = b @ tc_field lastId i type"
  by (simp add: PgColumnarThriftPutField_def tc_field_def Let_def tc_put)

lemma put_i32_append [tc_put]:
  "PgColumnarThriftPutI32Field b lastId i v = b @ tc_field lastId i TC_I32 @ tc_zigzag32 v"
  by (simp add: PgColumnarThriftPutI32Field_def tc_put)

lemma put_i64_append [tc_put]:
  "PgColumnarThriftPutI64Field b lastId i v = b @ tc_field lastId i TC_I64 @ tc_zigzag64 v"
  by (simp add: PgColumnarThriftPutI64Field_def tc_put)

lemma put_string_append [tc_put]:
  "PgColumnarThriftPutStringField b lastId i s =
     b @ tc_field lastId i TC_BINARY @ tc_varint (of_nat (length s)) @ s"
  by (simp add: PgColumnarThriftPutStringField_def Let_def tc_put)

lemma put_list_header_append [tc_put]: "PgColumnarThriftPutListHeader b n type = b @ tc_list_header n type"
  by (simp add: PgColumnarThriftPutListHeader_def tc_list_header_def tc_put)

lemma tc_list_header_nonempty [simp]: "tc_list_header n type \<noteq> []"
  by (simp add: tc_list_header_def PgColumnarThriftPutListHeader_def tc_put)

lemma put_stop_append [tc_put]: "PgColumnarThriftPutStop b = b @ [0]"
  by (simp add: PgColumnarThriftPutStop_def TC_STOP_def)

lemma bit_0x80: "bit (0x80 :: int) n \<longleftrightarrow> n = 7"
proof -
  have "(0x80 :: int) = 2 ^ 7" by simp
  then show ?thesis by (metis bit_exp_iff possible_bit_int)
qed

lemma bit_0x7f: "bit (0x7f :: int) n \<longleftrightarrow> n < 7"
proof -
  have "(0x7f :: int) = mask 7" by (simp add: mask_eq_exp_minus_1)
  then show ?thesis by (metis bit_mask_iff possible_bit_int)
qed

lemma bit_0x0f: "bit (0x0f :: int) n \<longleftrightarrow> n < 4"
proof -
  have "(0x0f :: int) = mask 4" by (simp add: mask_eq_exp_minus_1)
  then show ?thesis by (metis bit_mask_iff possible_bit_int)
qed

lemmas tc_bits = bit_and_iff bit_or_iff bit_xor_iff bit_ucast_iff bit_push_bit_iff bit_drop_bit_eq
  bit_0x80 bit_0x7f bit_0x0f

lemma bit_below_0x80:
  assumes "(v :: u64) < 0x80" and "bit v k"
  shows "k < 7"
proof (rule ccontr)
  assume "\<not> k < 7"
  then have "(2::nat) ^ 7 \<le> 2 ^ k" by (intro power_increasing) auto
  moreover have "bit (unat v) k" using assms(2) by (simp add: bit_unsigned_iff)
  then have "2 ^ k \<le> unat v" by (metis bit_iff_odd div_less even_zero not_le)
  ultimately show False using assms(1) by (simp add: word_less_nat_alt)
qed

lemma varint_byte_bits:
  fixes v :: u64
  shows "ucast ((v AND 0x7f) OR 0x80) AND (0x80 :: byte) \<noteq> 0"
    and "ucast (ucast ((v AND 0x7f) OR 0x80) AND (0x7f :: byte)) = v AND 0x7f"
    and "v < 0x80 \<Longrightarrow> ucast v AND (0x80 :: byte) = 0"
    and "v < 0x80 \<Longrightarrow> ucast (ucast v AND (0x7f :: byte)) = v"
proof -
  have "bit (ucast ((v AND 0x7f) OR 0x80) AND (0x80 :: byte)) 7"
    by (simp add: tc_bits)
  then show "ucast ((v AND 0x7f) OR 0x80) AND (0x80 :: byte) \<noteq> 0" by (metis bit_0_eq bot_apply bot_bool_def)
  show "ucast (ucast ((v AND 0x7f) OR 0x80) AND (0x7f :: byte)) = v AND 0x7f"
    by (rule bit_word_eqI) (auto simp: tc_bits)
  assume "v < 0x80"
  note hi = bit_below_0x80[OF this]
  show "ucast v AND (0x80 :: byte) = 0"
    by (rule bit_word_eqI) (auto simp: tc_bits dest: hi)
  show "ucast (ucast v AND (0x7f :: byte)) = v"
    by (rule bit_word_eqI) (auto simp: tc_bits dest: hi)
qed

lemma varint_accumulate:
  fixes acc v :: u64
  shows "(acc OR push_bit shift (v AND 0x7f)) OR push_bit (shift + 7) (drop_bit 7 v) = acc OR push_bit shift v"
proof (rule bit_word_eqI)
  fix n
  have a: "bit (v AND 0x7f) k \<longleftrightarrow> k < 7 \<and> bit v k" if "k < 64" for k
    using that by (auto simp: bit_and_iff bit_0x7f)
  assume "n < LENGTH(64)"
  then have n: "n < 64" by simp
  consider "n < shift" | "shift \<le> n" "n < shift + 7" | "shift + 7 \<le> n" by linarith
  then show "bit ((acc OR push_bit shift (v AND 0x7f)) OR push_bit (shift + 7) (drop_bit 7 v)) n =
             bit (acc OR push_bit shift v) n"
  proof cases
    case 2
    then have "bit (v AND 0x7f) (n - shift) = bit v (n - shift)" using a[of "n - shift"] n by auto
    with 2 show ?thesis by (simp add: bit_or_iff bit_push_bit_iff n del: push_bit_and)
  next
    case 3
    then have "\<not> bit (v AND 0x7f) (n - shift)" using a[of "n - shift"] n by auto
    moreover have "7 + (n - (shift + 7)) = n - shift" using 3 by simp
    ultimately show ?thesis using 3 by (simp add: bit_or_iff bit_push_bit_iff bit_drop_bit_eq n del: push_bit_and)
  qed (simp add: bit_or_iff bit_push_bit_iff n del: push_bit_and)
qed

lemma varint_loop_reads:
  "shift \<le> 63 \<Longrightarrow> unat v < 2 ^ (64 - shift) \<Longrightarrow>
   tc_varint_loop (tc_on pre (tc_varint v @ rest)) acc shift =
     (acc OR push_bit shift v, tc_on (pre @ tc_varint v) rest)"
proof (induction "unat v" arbitrary: v shift acc pre rule: less_induct)
  case less
  show ?case
  proof (cases "v \<ge> 0x80")
    case False
    then have "v < 0x80" by simp
    note b = varint_byte_bits(3,4)[OF this]
    show ?thesis
      using False by (subst (1 2) tc_varint_rec, subst tc_varint_loop.simps) (simp add: b nth_append)
  next
    case True
    then have ge: "2 ^ 7 \<le> unat v" by (simp add: word_le_nat_alt)
    then have "(2::nat) ^ 7 < 2 ^ (64 - shift)" using less.prems(2) by linarith
    then have "7 < 64 - shift" by (rule power_less_imp_less_exp[rotated]) simp
    then have sh: "shift + 7 \<le> 63" by simp
    let ?w = "drop_bit 7 v"
    have uw: "unat ?w = unat v div 2 ^ 7" by (simp add: drop_bit_eq_div unat_div)
    have lt: "unat ?w < unat v" using ge uw by simp
    have "unat ?w < 2 ^ (64 - (shift + 7))"
    proof -
      have "64 - shift = (64 - (shift + 7)) + 7" using sh by simp
      then have "unat v < 2 ^ (64 - (shift + 7)) * 2 ^ 7" using less.prems(2) by (metis power_add)
      then show ?thesis using uw by (simp add: less_mult_imp_div_less)
    qed
    note ih = less.hyps[OF lt sh this]
    show ?thesis
      using True sh ih[of "pre @ [ucast ((v AND 0x7f) OR 0x80)]" "acc OR push_bit shift (v AND 0x7f)"]
      by (subst (1 2) tc_varint_rec, subst tc_varint_loop.simps)
        (simp add: varint_byte_bits(1,2) nth_append varint_accumulate del: push_bit_and)
  qed
qed

lemma varint_reads [tc_read]:
  "PgColumnarThriftVarint (tc_on pre (tc_varint v @ rest)) = (v, tc_on (pre @ tc_varint v) rest)"
  using varint_loop_reads[of 0 v pre rest 0] unsigned_less[of v]
  by (simp add: PgColumnarThriftVarint_def)

lemma zigzag64_reads [tc_read]:
  "PgColumnarThriftZigzag (tc_on pre (tc_zigzag64 v @ rest)) = (v, tc_on (pre @ tc_zigzag64 v) rest)"
  using unzigzag_zigzag[of v] by (simp add: PgColumnarThriftZigzag_def tc_zigzag64_def tc_read unzigzag_def)

lemma bit_signed_drop_bit_31: "bit (signed_drop_bit 31 (x :: u32)) j \<longleftrightarrow> j < 32 \<and> bit x 31"
proof -
  have "bit (signed_drop_bit 31 x) j \<longleftrightarrow> j < 32 \<and> bit x (if 32 - 31 \<le> j then 31 else 31 + j)"
    by (auto simp: bit_signed_drop_bit_iff dest: bit_imp_le_length)
  then show ?thesis by (cases j) auto
qed

lemma zigzag32_word:
  fixes v :: u32
  defines "z \<equiv> ucast (push_bit 1 v XOR signed_drop_bit 31 v) :: u64"
  shows "drop_bit 1 z XOR - (z AND 1) = scast v"
proof -
  have z: "bit z j \<longleftrightarrow> j < 32 \<and> ((j > 0 \<and> bit v (j - 1)) \<noteq> bit v 31)" for j
    unfolding z_def
    by (auto simp: bit_xor_iff bit_push_bit_iff bit_ucast_iff bit_signed_drop_bit_31 simp del: push_bit_Suc)
  have low: "z AND 1 = (if bit v 31 then 1 else 0)"
    by (rule bit_word_eqI) (auto simp: z bit_and_iff bit_1_iff)
  show ?thesis
  proof (rule bit_word_eqI)
    fix j assume "j < LENGTH(64)"
    then have j: "j < 64" by simp
    have "bit (scast v :: u64) j \<longleftrightarrow> (if j < 31 then bit v j else bit v 31)"
      using j by (auto simp: bit_signed_iff min_def not_less le_antisym)
    moreover have "bit (drop_bit 1 z XOR - (z AND 1)) j \<longleftrightarrow> (if j < 31 then bit v j else bit v 31)"
      using j by (auto simp: low bit_xor_iff bit_drop_bit_eq z)
    ultimately show "bit (drop_bit 1 z XOR - (z AND 1)) j = bit (scast v :: u64) j" by simp
  qed
qed

lemma ucast_scast_32 [simp]: "ucast (scast (v :: u32) :: u64) = v"
proof (rule bit_word_eqI)
  fix n assume "n < LENGTH(32)"
  then have "n < 31 \<or> n = 31" by auto
  then show "bit (ucast (scast v :: u64) :: u32) n = bit v n"
    by (auto simp: bit_ucast_iff bit_signed_iff)
qed

lemma zigzag32_reads [tc_read]:
  "PgColumnarThriftZigzag (tc_on pre (tc_zigzag32 v @ rest)) = (scast v, tc_on (pre @ tc_zigzag32 v) rest)"
  using zigzag32_word[of v] by (simp add: PgColumnarThriftZigzag_def tc_zigzag32_def tc_read)

lemma ucast_of_nat_32: "n < 2 ^ 31 \<Longrightarrow> ucast (of_nat n :: u64) = (of_nat n :: u32)"
  by (simp add: word_unat_eq_iff unsigned_ucast_eq unat_of_nat take_bit_nat_eq_self)

lemma bytes_reads [tc_read]:
  assumes "length s < 2 ^ 31"
  shows "PgColumnarThriftBytes (tc_on pre (tc_varint (of_nat (length s)) @ s @ rest)) =
     (Some (length (pre @ tc_varint (of_nat (length s)))), of_nat (length s),
      tc_on (pre @ tc_varint (of_nat (length s)) @ s) rest)"
proof -
  have u: "unat (of_nat (length s) :: u64) = length s" using assms by (simp add: unat_of_nat)
  show ?thesis
    using assms by (simp add: PgColumnarThriftBytes_def tc_read u ucast_of_nat_32)
qed

lemma stop_reads [tc_read]: "PgColumnarThriftField (tc_on pre (0 # rest)) lastId = (TC_STOP, lastId, tc_on (pre @ [0]) rest)"
  by (simp add: PgColumnarThriftField_def nth_append)

lemma nibble_bit: "h < 16 \<Longrightarrow> bit (of_nat h :: byte) j \<Longrightarrow> j < 4"
proof (rule ccontr)
  assume "h < 16" "bit (of_nat h :: byte) j" "\<not> j < 4"
  then have "bit h j" by (simp add: bit_of_nat_iff)
  then have "2 ^ j \<le> h" by (metis bit_iff_odd div_less even_zero not_le)
  moreover have "(2::nat) ^ 4 \<le> 2 ^ j" using \<open>\<not> j < 4\<close> by (intro power_increasing) auto
  ultimately show False using \<open>h < 16\<close> by simp
qed

lemma nibbles:
  assumes "h < 16" and "l < 16"
  shows "(push_bit 4 (of_nat h) OR of_nat l :: byte) AND 0x0f = of_nat l"
    and "drop_bit 4 (push_bit 4 (of_nat h) OR of_nat l :: byte) = of_nat h"
proof -
  have "\<not> bit (of_nat l :: byte) (4 + n)" for n using nibble_bit[OF assms(2), of "4 + n"] by auto
  with nibble_bit[OF assms(1)] nibble_bit[OF assms(2)]
  show "(push_bit 4 (of_nat h) OR of_nat l :: byte) AND 0x0f = of_nat l"
    and "drop_bit 4 (push_bit 4 (of_nat h) OR of_nat l :: byte) = of_nat h"
    by (auto intro!: bit_word_eqI simp: tc_bits bit_of_nat_iff possible_bit_word)
qed

lemma field_reads [tc_read]:
  assumes "- 32768 \<le> i" "i < 32768" and "1 \<le> type" "type \<le> 13"
  shows "PgColumnarThriftField (tc_on pre (tc_field lastId i type @ rest)) lastId =
     (type, i, tc_on (pre @ tc_field lastId i type) rest)"
proof -
  have ty: "unat (of_nat type :: byte) = type" using assms by simp
  have s32: "sint (word_of_int i :: u32) = i" using assms(1,2)
    by (simp add: signed_of_int signed_take_bit_int_eq_self)
  show ?thesis
  proof (cases "0 < i - lastId \<and> i - lastId \<le> 15")
    case True
    define h where "h = nat (i - lastId)"
    from True have h: "0 < h" "h < 16" "i = lastId + int h" by (auto simp: h_def)
    have b: "tc_field lastId i type = [push_bit 4 (of_nat h) OR of_nat type]"
      using True by (simp add: tc_field_def PgColumnarThriftPutField_def h_def)
    have l: "type < 16" using assms by simp
    note nb = nibbles[OF h(2) l]
    have uh: "uint (of_nat h :: byte) = int h" using h by (simp add: uint_nat)
    have nz: "of_nat h \<noteq> (0 :: byte)" using h uh by auto
    then have "push_bit 4 (of_nat h) OR of_nat type \<noteq> (0 :: byte)" using nb(2) by (metis drop_bit_of_0)
    then show ?thesis
      using assms(3,4) s32 h(3) unfolding b
      by (simp add: PgColumnarThriftField_def nth_append Let_def nb ty nz uh TC_UUID_def TC_STOP_def
          del: drop_bit_or)
  next
    case False
    have b: "tc_field lastId i type = of_nat type # tc_zigzag32 (word_of_int i)"
      using False by (auto simp: tc_field_def PgColumnarThriftPutField_def Let_def tc_put)
    have l: "type < 16" using assms by simp
    have nb: "of_nat type AND 0x0f = (of_nat type :: byte)" "drop_bit 4 (of_nat type) = (0 :: byte)"
      using nibbles[of 0, OF _ l] by simp_all
    have nz: "of_nat type \<noteq> (0 :: byte)" using ty assms(3) by auto
    show ?thesis
      using assms(3,4) s32 unfolding b
      by (simp add: PgColumnarThriftField_def nth_append Let_def nb ty nz TC_UUID_def TC_STOP_def tc_read)
  qed
qed

lemma list_header_reads [tc_read]:
  assumes "n < 2 ^ 31" and "type < 16"
  shows "PgColumnarThriftListHeader (tc_on pre (tc_list_header n type @ rest)) =
     (of_nat n, type, tc_on (pre @ tc_list_header n type) rest)"
proof (cases "n < 15")
  case True
  then have n: "n < 16" by simp
  note nb = nibbles[OF n assms(2)]
  have "ucast ((of_nat n :: byte) AND 0x0f) = (of_nat n :: u32)"
    using nibbles(1)[of 0, OF _ n] n by (simp add: word_unat_eq_iff unsigned_ucast_eq unat_of_nat take_bit_nat_eq_self)
  moreover have "of_nat n \<noteq> (0x0f :: u32)" using True by (simp add: word_unat_eq_iff unat_of_nat)
  ultimately show ?thesis
    using True assms(2)
    by (simp add: PgColumnarThriftListHeader_def tc_list_header_def PgColumnarThriftPutListHeader_def
        nth_append Let_def nb del: drop_bit_or)
next
  case False
  have f0: "(0xF0 :: byte) = push_bit 4 (of_nat 15)" by (simp add: push_bit_eq_mult)
  note nb = nibbles[of 15, OF _ assms(2), folded f0]
  have sz: "ucast (of_nat 15 AND (0x0f :: byte)) = (0x0f :: u32)" by simp
  from False show ?thesis
    using assms nb sz ucast_of_nat_32[OF assms(1)]
    by (simp add: PgColumnarThriftListHeader_def tc_list_header_def PgColumnarThriftPutListHeader_def
        nth_append Let_def tc_put tc_read del: drop_bit_or)
qed

subsection \<open>Struct parsers\<close>

text \<open>
  A struct parser is a field handler that raises nothing but \<open>parse_errors\<close>. Its loop does
  not run out of fuel, and any fuel that ends the loop gives the same result, so a run on
  written bytes may be followed field by field.
\<close>

lemma struct_loop_fuel:
  "tc_struct_loop body n lastId s r \<noteq> Inl Loop_Exhausted \<Longrightarrow> n \<le> m \<Longrightarrow>
   tc_struct_loop body m lastId s r = tc_struct_loop body n lastId s r"
proof (induction n arbitrary: m lastId s r)
  case (Suc n)
  then obtain k where m: "m = Suc k" "n \<le> k" by (cases m) auto
  obtain ft fid r1 where f: "PgColumnarThriftField r lastId = (ft, fid, r1)" by (metis prod_cases3)
  show ?case
  proof (cases "ft = TC_STOP \<or> tc_error r1 \<or> (\<exists>e. body ft fid s r1 = Inl e)")
    case True
    with f m show ?thesis by auto
  next
    case False
    then obtain s2 r2 where b: "body ft fid s r1 = Inr (s2, r2)" by (metis obj_sumE prod.exhaust)
    with Suc.prems(1) f False have "tc_struct_loop body n fid s2 r2 \<noteq> Inl Loop_Exhausted" by auto
    from Suc.IH[OF this m(2)] f b False m show ?thesis by simp
  qed
qed simp

locale thrift_parser = thrift_body body "\<lambda>_. True" parse_errors
  for body :: "nat \<Rightarrow> int \<Rightarrow> 's \<Rightarrow> TCReader \<Rightarrow> ('s \<times> TCReader) result"
begin

lemma parser_fine: "tc_pos r \<le> tc_len r \<Longrightarrow> tc_fine parse_errors r (tc_reader_of (tc_struct body s r))"
  by (rule struct_fine) simp_all

lemma parser_run:
  assumes "tc_struct_loop body n 0 s r = Inr x" and "tc_pos r \<le> tc_len r"
  shows "tc_struct body s r = Inr x"
proof -
  have "tc_struct body s r \<noteq> Inl Loop_Exhausted" using parser_fine[OF assms(2), of s] by auto
  then show ?thesis
    using assms(1) struct_loop_fuel[of body n 0 s r "Suc (tc_len r)"]
      struct_loop_fuel[of body "Suc (tc_len r)" 0 s r n]
    unfolding tc_struct_def by (cases "n \<le> Suc (tc_len r)") auto
qed

lemmas parser_reads = parser_run[where r = "tc_on pre xs" for pre xs]

end

definition tc_skip_body :: "nat \<Rightarrow> nat \<Rightarrow> int \<Rightarrow> unit \<Rightarrow> TCReader \<Rightarrow> (unit \<times> TCReader) result" where
  "tc_skip_body d ft fid s r = res_bind (PgColumnarThriftSkip d r ft) (\<lambda>r. Inr ((), r))"

lemma tc_skip_scalar:
  "PgColumnarThriftSkip (Suc d) r TC_BOOL_TRUE = Inr r"
  "PgColumnarThriftSkip (Suc d) r TC_BOOL_FALSE = Inr r"
  "PgColumnarThriftSkip (Suc d) r TC_BYTE = Inr (tc_skip_byte r)"
  "PgColumnarThriftSkip (Suc d) r TC_I16 = Inr (snd (PgColumnarThriftZigzag r))"
  "PgColumnarThriftSkip (Suc d) r TC_I32 = Inr (snd (PgColumnarThriftZigzag r))"
  "PgColumnarThriftSkip (Suc d) r TC_I64 = Inr (snd (PgColumnarThriftZigzag r))"
  "PgColumnarThriftSkip (Suc d) r TC_DOUBLE = Inr (tc_skip_bytes 8 r)"
  "PgColumnarThriftSkip (Suc d) r TC_UUID = Inr (tc_skip_bytes 16 r)"
  "PgColumnarThriftSkip (Suc d) r TC_BINARY = Inr (snd (snd (PgColumnarThriftBytes r)))"
  by (simp_all add: tc_types)

lemma tc_skip_struct:
  "PgColumnarThriftSkip (Suc d) r TC_STRUCT = res_bind (tc_struct (tc_skip_body d) () r) (\<lambda>(_, r). Inr r)"
  by (simp add: tc_types tc_skip_body_def[abs_def])

interpretation skip_parser: thrift_parser "tc_skip_body d" for d
proof (unfold_locales, goal_cases)
  case (1 r ft fid s)
  have "tc_fine parse_errors r (PgColumnarThriftSkip d r ft)" by (rule tc_skip_fine[OF 1(2)]) simp
  then show ?case by (cases "PgColumnarThriftSkip d r ft") (auto simp: tc_skip_body_def)
qed

subsection \<open>Skipping a written value\<close>

datatype tval =
    TV_bool bool
  | TV_byte byte
  | TV_i16 u32
  | TV_i32 u32
  | TV_i64 u64
  | TV_double "byte list"
  | TV_binary "byte list"
  | TV_uuid "byte list"
  | TV_list nat "tval list"
  | TV_map nat nat "(tval \<times> tval) list"
  | TV_struct "(int \<times> tval) list"

fun tv_type :: "tval \<Rightarrow> nat" where
  "tv_type (TV_bool b) = (if b then TC_BOOL_TRUE else TC_BOOL_FALSE)"
| "tv_type (TV_byte b) = TC_BYTE"
| "tv_type (TV_i16 v) = TC_I16"
| "tv_type (TV_i32 v) = TC_I32"
| "tv_type (TV_i64 v) = TC_I64"
| "tv_type (TV_double bs) = TC_DOUBLE"
| "tv_type (TV_binary bs) = TC_BINARY"
| "tv_type (TV_uuid bs) = TC_UUID"
| "tv_type (TV_list et vs) = TC_LIST"
| "tv_type (TV_map kt vt es) = TC_MAP"
| "tv_type (TV_struct fs) = TC_STRUCT"

text \<open>
  The bytes of a value after its field header, as the writers put them. A bool field has
  none, a bool element has one.
\<close>

fun tv_bytes :: "tval \<Rightarrow> byte list" and tv_element :: "tval \<Rightarrow> byte list"
  and tv_fields :: "int \<Rightarrow> (int \<times> tval) list \<Rightarrow> byte list" where
  "tv_bytes (TV_bool b) = []"
| "tv_bytes (TV_byte b) = [b]"
| "tv_bytes (TV_i16 v) = PgColumnarThriftPutZigzag32 [] v"
| "tv_bytes (TV_i32 v) = PgColumnarThriftPutZigzag32 [] v"
| "tv_bytes (TV_i64 v) = PgColumnarThriftPutZigzag64 [] v"
| "tv_bytes (TV_double bs) = bs"
| "tv_bytes (TV_binary bs) = PgColumnarThriftPutVarint [] (of_nat (length bs)) @ bs"
| "tv_bytes (TV_uuid bs) = bs"
| "tv_bytes (TV_list et vs) = PgColumnarThriftPutListHeader [] (length vs) et @ concat (map tv_element vs)"
| "tv_bytes (TV_map kt vt es) =
     PgColumnarThriftPutVarint [] (of_nat (length es)) @
     (if es = [] then [] else (push_bit 4 (of_nat kt) OR of_nat vt) #
        concat (map (\<lambda>(k, v). tv_element k @ tv_element v) es))"
| "tv_bytes (TV_struct fs) = tv_fields 0 fs"
| "tv_element v = (case v of TV_bool b \<Rightarrow> [if b then 1 else 2] | _ \<Rightarrow> tv_bytes v)"
| "tv_fields lastId [] = PgColumnarThriftPutStop []"
| "tv_fields lastId ((i, v) # fs) =
     PgColumnarThriftPutField [] lastId i (tv_type v) @ tv_bytes v @ tv_fields i fs"

text \<open>
  \<open>tv_wf\<close>: a value the writers can write (lengths within an \<open>int\<close>, ids within an \<open>int16\<close>,
  the elements of a list of its declared type). \<open>tv_depth\<close>: the frames a skip of it uses.
\<close>

abbreviation tv_is :: "nat \<Rightarrow> tval \<Rightarrow> bool" where
  "tv_is et v \<equiv> tv_type v = et \<or>
     (tv_type v = TC_BOOL_TRUE \<or> tv_type v = TC_BOOL_FALSE) \<and> (et = TC_BOOL_TRUE \<or> et = TC_BOOL_FALSE)"

fun tv_wf :: "tval \<Rightarrow> bool" where
  "tv_wf (TV_double bs) \<longleftrightarrow> length bs = 8"
| "tv_wf (TV_uuid bs) \<longleftrightarrow> length bs = 16"
| "tv_wf (TV_binary bs) \<longleftrightarrow> length bs < 2 ^ 31"
| "tv_wf (TV_list et vs) \<longleftrightarrow> et < 16 \<and> length vs < 2 ^ 31 \<and> (\<forall>v \<in> set vs. tv_is et v \<and> tv_wf v)"
| "tv_wf (TV_map kt vt es) \<longleftrightarrow> kt < 16 \<and> vt < 16 \<and> length es < 2 ^ 31 \<and>
     (\<forall>(k, v) \<in> set es. tv_is kt k \<and> tv_is vt v \<and> tv_wf k \<and> tv_wf v)"
| "tv_wf (TV_struct fs) \<longleftrightarrow> (\<forall>(i, v) \<in> set fs. - 32768 \<le> i \<and> i < 32768 \<and> tv_wf v)"
| "tv_wf _ \<longleftrightarrow> True"

fun tv_depth :: "tval \<Rightarrow> nat" where
  "tv_depth (TV_list et vs) = Suc (Max (insert 0 (set (map tv_depth vs))))"
| "tv_depth (TV_map kt vt es) = Suc (Max (insert 0 (set (map (\<lambda>(k, v). max (tv_depth k) (tv_depth v)) es))))"
| "tv_depth (TV_struct fs) = Suc (Max (insert 0 (set (map (\<lambda>(i, v). tv_depth v) fs))))"
| "tv_depth _ = 1"

lemma tv_type_range: "1 \<le> tv_type v \<and> tv_type v \<le> 13"
  by (cases v) (auto simp: tc_types)

lemma skip_byte_reads: "tc_skip_byte (tc_on pre (b # rest)) = tc_on (pre @ [b]) rest"
  by (simp add: tc_skip_byte_def)

lemma skip_bytes_reads: "length bs = k \<Longrightarrow> tc_skip_bytes k (tc_on pre (bs @ rest)) = tc_on (pre @ bs) rest"
  by (auto simp: tc_skip_bytes_def)

lemma tc_repeat_reads:
  assumes "\<And>v pre rest. v \<in> set vs \<Longrightarrow> f (tc_on pre (enc v @ rest)) = Inr (tc_on (pre @ enc v) rest)"
  shows "tc_repeat f (length vs) (tc_on pre (concat (map enc vs) @ rest)) =
    Inr (tc_on (pre @ concat (map enc vs)) rest)"
  using assms by (induction vs arbitrary: pre) auto

lemma skip_element_reads:
  assumes "tv_is et v" and "PgColumnarThriftSkip d (tc_on pre (tv_bytes v @ rest)) (tv_type v) = Inr (tc_on (pre @ tv_bytes v) rest)"
  shows "pq_thrift_skip_element (PgColumnarThriftSkip d) et (tc_on pre (tv_element v @ rest)) =
    Inr (tc_on (pre @ tv_element v) rest)"
  using assms by (cases v) (auto simp: pq_thrift_skip_element_def skip_byte_reads tc_types)

lemma skip_fields_read:
  assumes "\<And>i v pre rest. (i, v) \<in> set fs \<Longrightarrow>
      PgColumnarThriftSkip d (tc_on pre (tv_bytes v @ rest)) (tv_type v) = Inr (tc_on (pre @ tv_bytes v) rest)"
    and "\<forall>(i, v) \<in> set fs. - 32768 \<le> i \<and> i < 32768"
  shows "tc_struct_loop (tc_skip_body d) (Suc (length fs)) lastId () (tc_on pre (tv_fields lastId fs @ rest)) =
    Inr ((), tc_on (pre @ tv_fields lastId fs) rest)"
  using assms
proof (induction fs arbitrary: lastId pre)
  case Nil
  then show ?case by (simp add: tc_put tc_read)
next
  case (Cons f fs)
  obtain i v where f: "f = (i, v)" by fastforce
  have "- 32768 \<le> i" "i < 32768" using Cons.prems(2) f by auto
  note rd = field_reads[OF this tv_type_range[THEN conjunct1] tv_type_range[THEN conjunct2]]
  have "tv_type v \<noteq> TC_STOP" using tv_type_range[of v] by (simp add: TC_STOP_def)
  moreover have "tc_struct_loop (tc_skip_body d) (Suc (length fs)) i () (tc_on p (tv_fields i fs @ rest)) =
      Inr ((), tc_on (p @ tv_fields i fs) rest)" for p
    using Cons.prems by (intro Cons.IH) (auto simp: f)
  moreover have "tc_skip_body d (tv_type v) i () (tc_on p (tv_bytes v @ r)) = Inr ((), tc_on (p @ tv_bytes v) r)" for p r
    using Cons.prems(1)[of i v] f by (simp add: tc_skip_body_def)
  ultimately show ?case
    using f by (simp add: rd tc_put del: tc_struct_loop.simps(2)
        add: tc_struct_loop.simps(2)[of _ "Suc (length fs)"])
qed

lemma skip_reads:
  "tv_wf v \<Longrightarrow> tv_depth v \<le> d \<Longrightarrow>
   PgColumnarThriftSkip d (tc_on pre (tv_bytes v @ rest)) (tv_type v) = Inr (tc_on (pre @ tv_bytes v) rest)"
proof (induction v arbitrary: d pre rest)
  case (TV_list et vs)
  then obtain e where d: "d = Suc e" by (cases d) auto
  have dep: "tv_depth v \<le> e" if "v \<in> set vs" for v using TV_list.prems(2) d that by auto
  have el: "pq_thrift_skip_element (PgColumnarThriftSkip e) et (tc_on p (tv_element v @ r)) =
      Inr (tc_on (p @ tv_element v) r)" if v: "v \<in> set vs" for v p r
    using TV_list.prems(1) v by (intro skip_element_reads TV_list.IH[OF v _ dep[OF v]]) auto
  show ?case
    using TV_list.prems(1) d tc_repeat_reads[of vs _ tv_element, OF el]
    by (simp add: tc_types tc_put tc_read unat_of_nat)
next
  case (TV_map kt vt es)
  then obtain e where d: "d = Suc e" by (cases d) auto
  let ?enc = "\<lambda>(k, v). tv_element k @ tv_element v"
  have el: "res_bind (pq_thrift_skip_element (PgColumnarThriftSkip e) kt (tc_on p (?enc x @ r)))
       (pq_thrift_skip_element (PgColumnarThriftSkip e) vt) = Inr (tc_on (p @ ?enc x) r)"
    if x: "x \<in> set es" for x p r
  proof -
    obtain k v where kv: "x = (k, v)" by fastforce
    have dep: "tv_depth k \<le> e" "tv_depth v \<le> e" using TV_map.prems(2) d x kv by force+
    have all: "\<forall>(k, v) \<in> set es. tv_is kt k \<and> tv_is vt v \<and> tv_wf k \<and> tv_wf v"
      using TV_map.prems(1) by simp
    note kvs = bspec[OF all x, unfolded kv prod.case]
    note wf = kvs[THEN conjunct2, THEN conjunct2, THEN conjunct1] kvs[THEN conjunct2, THEN conjunct2, THEN conjunct2]
    note ty = kvs[THEN conjunct1] kvs[THEN conjunct2, THEN conjunct1]
    have "PgColumnarThriftSkip e (tc_on p' (tv_bytes k @ r')) (tv_type k) = Inr (tc_on (p' @ tv_bytes k) r')" for p' r'
      by (rule TV_map.IH(1)[OF x _ wf(1) dep(1)]) (simp add: kv)
    note k = skip_element_reads[OF ty(1) this]
    have "PgColumnarThriftSkip e (tc_on p' (tv_bytes v @ r')) (tv_type v) = Inr (tc_on (p' @ tv_bytes v) r')" for p' r'
      by (rule TV_map.IH(2)[OF x _ wf(2) dep(2)]) (simp add: kv)
    note v = skip_element_reads[OF ty(2) this]
    show ?thesis using k v by (simp add: kv del: tv_element.simps)
  qed
  have nb: "unat ((push_bit 4 (of_nat kt) OR of_nat vt :: byte) AND 0x0f) = vt"
      "unat (drop_bit 4 (push_bit 4 (of_nat kt) OR of_nat vt :: byte) AND 0x0f) = kt"
    using TV_map.prems(1) nibbles[of kt vt] nibbles(1)[of 0 kt] by simp_all
  have sz: "ucast (of_nat (length es) :: u64) = (of_nat (length es) :: u32)" "unat (of_nat (length es) :: u32) = length es"
    using TV_map.prems(1) ucast_of_nat_32 by (simp_all add: unat_of_nat)
  show ?case
    using sz nb tc_repeat_reads[of es _ ?enc, OF el] d
    by (cases "es = []") (auto simp: tc_types tc_put tc_read Let_def nth_append word_unat_eq_iff del: drop_bit_or)
next
  case (TV_struct fs)
  then obtain e where d: "d = Suc e" by (cases d) auto
  have sk: "PgColumnarThriftSkip e (tc_on p (tv_bytes v @ r)) (tv_type v) = Inr (tc_on (p @ tv_bytes v) r)"
    if v: "(i, v) \<in> set fs" for i v p r
  proof (rule TV_struct.IH[OF v])
    show "v \<in> Basic_BNFs.snds (i, v)" by simp
    show "tv_wf v" using TV_struct.prems(1) v by auto
    show "tv_depth v \<le> e" using TV_struct.prems(2) d v by force
  qed
  have "tc_struct (tc_skip_body e) () (tc_on pre (tv_fields 0 fs @ rest)) = Inr ((), tc_on (pre @ tv_fields 0 fs) rest)"
    by (rule skip_parser.parser_run, rule skip_fields_read[OF sk]) (use TV_struct.prems(1) in auto)
  then show ?case by (simp add: d tc_skip_struct del: PgColumnarThriftSkip.simps)
next
  case (TV_bool b)
  then obtain e where "d = Suc e" by (cases d) auto
  then show ?case by (simp add: tc_skip_scalar del: PgColumnarThriftSkip.simps)
next
  case (TV_byte b)
  then obtain e where "d = Suc e" by (cases d) auto
  then show ?case by (simp add: tc_skip_scalar skip_byte_reads del: PgColumnarThriftSkip.simps)
next
  case (TV_i16 v)
  then obtain e where "d = Suc e" by (cases d) auto
  then show ?case by (simp add: tc_skip_scalar tc_put tc_read del: PgColumnarThriftSkip.simps)
next
  case (TV_i32 v)
  then obtain e where "d = Suc e" by (cases d) auto
  then show ?case by (simp add: tc_skip_scalar tc_put tc_read del: PgColumnarThriftSkip.simps)
next
  case (TV_i64 v)
  then obtain e where "d = Suc e" by (cases d) auto
  then show ?case by (simp add: tc_skip_scalar tc_put tc_read del: PgColumnarThriftSkip.simps)
next
  case (TV_double bs)
  then obtain e where "d = Suc e" by (cases d) auto
  with TV_double show ?case by (simp add: tc_skip_scalar skip_bytes_reads del: PgColumnarThriftSkip.simps)
next
  case (TV_uuid bs)
  then obtain e where "d = Suc e" by (cases d) auto
  with TV_uuid show ?case by (simp add: tc_skip_scalar skip_bytes_reads del: PgColumnarThriftSkip.simps)
next
  case (TV_binary bs)
  then obtain e where "d = Suc e" by (cases d) auto
  with TV_binary show ?case by (simp add: tc_skip_scalar tc_put tc_read del: PgColumnarThriftSkip.simps)
qed

section \<open>Properties\<close>

text \<open>
  C14: A skip always comes to an end within the bytes it is given. On any buffer, well formed
  or hostile, and for any type code, with at least one stack frame more than there are bytes
  left the skip returns a reader of the same buffer, not moved back and not past the end; with
  fewer frames it either does that or raises the stack depth error and nothing else. When it
  skips a list or set without an error, the list's declared element count (which a file may set
  to any 32-bit number) is at most the number of bytes left behind its header.
\<close>

theorem thrift_skip_terminates:
  assumes "tc_pos r \<le> tc_len r"
  shows "(tc_len r - tc_pos r < d \<longrightarrow> (\<exists>r'. PgColumnarThriftSkip d r ft = Inr r')) \<and>
    (\<forall>e. PgColumnarThriftSkip d r ft = Inl e \<longrightarrow> e = Corrupt ''stack depth limit exceeded'') \<and>
    (\<forall>r'. PgColumnarThriftSkip d r ft = Inr r' \<longrightarrow>
       tc_buf r' = tc_buf r \<and> tc_pos r \<le> tc_pos r' \<and> tc_pos r' \<le> tc_len r \<and>
       ((ft = TC_LIST \<or> ft = TC_SET) \<and> \<not> tc_error r' \<longrightarrow>
          (case PgColumnarThriftListHeader r of (n, et, h) \<Rightarrow> unat n \<le> tc_len r - tc_pos h)))"
proof (intro conjI allI impI)
  note fine = tc_skip_fine[OF assms]
  show "\<exists>r'. PgColumnarThriftSkip d r ft = Inr r'" if "tc_len r - tc_pos r < d"
    using fine[of "{}" d ft] that by (cases "PgColumnarThriftSkip d r ft") auto
  show "e = stack_error" if "PgColumnarThriftSkip d r ft = Inl e" for e
    using fine[of "{stack_error}" d ft] that by simp
  fix r' assume s: "PgColumnarThriftSkip d r ft = Inr r'"
  show st: "tc_buf r' = tc_buf r" "tc_pos r \<le> tc_pos r'" "tc_pos r' \<le> tc_len r"
    using fine[of UNIV d ft] s assms by (auto simp: tc_steps_def)
  assume l: "(ft = TC_LIST \<or> ft = TC_SET) \<and> \<not> tc_error r'"
  obtain n et h where h: "PgColumnarThriftListHeader r = (n, et, h)" by (metis prod_cases3)
  obtain e where d: "d = Suc e" using s by (cases d) auto
  have rp: "tc_repeat (pq_thrift_skip_element (PgColumnarThriftSkip e) et) (unat n) h = Inr r'"
    using s l h by (auto simp: d tc_types split: if_splits)
  have "tc_buf h = tc_buf r" "tc_pos h \<le> tc_len h"
    using tc_list_header_moves[of r] h assms by (auto simp: tc_moves_def tc_steps_def)
  then have "unat n \<le> tc_pos r' - tc_pos h"
    using l tc_repeat_count[OF rp] tc_skip_element_moves[of e et] by blast
  with st show "case PgColumnarThriftListHeader r of (n, et, h) \<Rightarrow> unat n \<le> tc_len r - tc_pos h"
    by (simp add: h)
qed

theorem thrift_skip_terminates_witness:
  "(\<exists>r'. PgColumnarThriftSkip 5 \<lparr>tc_buf = [0xF9, 0x80, 0x80], tc_pos = 0, tc_error = False\<rparr> TC_LIST = Inr r')"
  using thrift_skip_terminates[of "\<lparr>tc_buf = [0xF9, 0x80, 0x80], tc_pos = 0, tc_error = False\<rparr>" 5 TC_LIST]
  by simp

text \<open>
  C13: What the writers write, a skip steps over exactly. For every value a writer can write
  (any nesting of structs, lists, maps and scalars), whatever precedes and follows it, a skip
  of its type that has a frame per nesting level returns without an error, positioned on the
  byte behind the value.
\<close>

theorem thrift_skip_exact:
  assumes "tv_wf v" and "tv_depth v \<le> d"
  shows "PgColumnarThriftSkip d \<lparr>tc_buf = pre @ tv_bytes v @ rest, tc_pos = length pre, tc_error = False\<rparr> (tv_type v) =
    Inr \<lparr>tc_buf = pre @ tv_bytes v @ rest, tc_pos = length pre + length (tv_bytes v), tc_error = False\<rparr>"
  using skip_reads[OF assms, of pre rest] by (simp add: tc_on_def)

theorem thrift_skip_exact_witness:
  "PgColumnarThriftSkip 3 \<lparr>tc_buf = [7] @ tv_bytes (TV_struct [(1, TV_bool True), (4, TV_list TC_BOOL_TRUE [TV_bool False]), (2, TV_i32 300)]) @ [9],
     tc_pos = length [7 :: byte], tc_error = False\<rparr> TC_STRUCT =
   Inr \<lparr>tc_buf = [7] @ tv_bytes (TV_struct [(1, TV_bool True), (4, TV_list TC_BOOL_TRUE [TV_bool False]), (2, TV_i32 300)]) @ [9],
     tc_pos = length [7 :: byte] + length (tv_bytes (TV_struct [(1, TV_bool True), (4, TV_list TC_BOOL_TRUE [TV_bool False]), (2, TV_i32 300)])),
     tc_error = False\<rparr>"
  using thrift_skip_exact[of "TV_struct [(1, TV_bool True), (4, TV_list TC_BOOL_TRUE [TV_bool False]), (2, TV_i32 300)]" 3 "[7]" "[9]"]
  by (simp add: tc_types)

end
