(* ===== verification/Parquet_Meta.thy ===== *)
theory Parquet_Meta
  imports Thrift Encoding_Int
begin

section \<open>Reading Parquet metadata\<close>

text \<open>
  The footer and page-header parsers of \<open>src/columnar_parquet_reader.c\<close> over the Thrift
  reader: \<open>parse_statistics\<close> to \<open>pq_check_row_groups\<close>, and \<open>parse_page_header\<close> with its
  helpers. Each parser is \<open>tc_struct\<close> over the handler of one field (\<open>..._field\<close>), which is the
  body of its \<open>for (;;)\<close>. The records are the source's structs; an \<open>int\<close> or \<open>int64\<close> field is an
  \<open>int\<close>, read at its width. A pointer into the metadata buffer is its offset. Every parser
  takes the number of stack frames left, which \<open>check_stack_depth\<close> guards.
  A \<open>palloc0\<close> of a file-declared count is refused above \<open>MaxAllocSize\<close>, with the sizes of the
  structs on the 64-bit ABI.
\<close>

record PqSchemaCol =
  phys_type :: int
  repetition :: int
  converted_type :: int
  time_unit :: nat
  is_timestamp :: bool
  adjusted_utc :: bool
  is_unsigned :: bool
  type_length :: int
  scale :: int
  precision :: int
  num_children :: int
  num_children_stored :: int
  field_id :: int
  col_name :: "byte list option"

record PqLeafInfo =
  leaf_sc :: PqSchemaCol
  max_def :: nat
  max_rep :: nat
  leaf_depth :: nat

record PqChunk =
  codec :: int
  num_values :: int
  data_page_offset :: int
  dict_page_offset :: int
  total_compressed_size :: int
  has_min :: bool
  has_max :: bool
  stat_min :: "nat option"
  stat_max :: "nat option"
  stat_min_len :: u32
  stat_max_len :: u32
  rep_hist_len :: int
  def_hist_len :: int

record PqRowGroup =
  rg_num_rows :: int
  rg_has_num_rows :: bool
  chunks :: "PqChunk list option"
  nchunks :: nat

record PqFile =
  elems :: "PqSchemaCol list"
  ncols :: nat
  leaves :: "PqLeafInfo list"
  ntop :: int
  rgs :: "PqRowGroup list"
  has_row_groups :: bool
  has_num_rows :: bool
  pf_num_rows :: int
  bad_children :: "nat option"

definition PQ_TU_NONE :: nat where "PQ_TU_NONE = 0"
definition PQ_TU_MILLIS :: nat where "PQ_TU_MILLIS = 1"
definition PQ_TU_MICROS :: nat where "PQ_TU_MICROS = 2"
definition PQ_TU_NANOS :: nat where "PQ_TU_NANOS = 3"

lemmas pq_units = PQ_TU_NONE_def PQ_TU_MILLIS_def PQ_TU_MICROS_def PQ_TU_NANOS_def

text \<open>The casts of a zigzag value to \<open>int\<close> and to \<open>int64\<close>.\<close>

definition tc_int :: "TCReader \<Rightarrow> int \<times> TCReader" where
  "tc_int r = (let (v, r) = PgColumnarThriftZigzag r in (sint (ucast v :: u32), r))"

definition tc_int64 :: "TCReader \<Rightarrow> int \<times> TCReader" where
  "tc_int64 r = (let (v, r) = PgColumnarThriftZigzag r in (sint v, r))"

definition tc_skip_field :: "nat \<Rightarrow> nat \<Rightarrow> 's \<Rightarrow> TCReader \<Rightarrow> ('s \<times> TCReader) result" where
  "tc_skip_field d ft s r = res_bind (PgColumnarThriftSkip d r ft) (\<lambda>r. Inr (s, r))"

text \<open>\<open>for (i = 0; i < n && !r->error; i++)\<close> filling \<open>out[i]\<close>.\<close>

primrec tc_list :: "(TCReader \<Rightarrow> ('a \<times> TCReader) result) \<Rightarrow> nat \<Rightarrow> TCReader \<Rightarrow> ('a list \<times> TCReader) result" where
  "tc_list f 0 r = Inr ([], r)"
| "tc_list f (Suc n) r =
     (if tc_error r then Inr ([], r)
      else res_bind (f r) (\<lambda>(x, r). res_bind (tc_list f n r) (\<lambda>(xs, r). Inr (x # xs, r))))"

text \<open>A \<open>palloc0\<close>'d array of \<open>n\<close> elements of which the loop above filled a prefix.\<close>

definition zero_fill :: "'a \<Rightarrow> nat \<Rightarrow> 'a list \<Rightarrow> 'a list" where
  "zero_fill z n xs = xs @ replicate (n - length xs) z"

definition palloc0 :: "nat \<Rightarrow> nat \<Rightarrow> unit result" where
  "palloc0 sz n = (if sz * max n 1 > MaxAllocSize then Inl alloc_error else Inr ())"

subsection \<open>Column chunks\<close>

definition parse_statistics_field :: "nat \<Rightarrow> nat \<Rightarrow> int \<Rightarrow> PqChunk \<Rightarrow> TCReader \<Rightarrow> (PqChunk \<times> TCReader) result" where
  "parse_statistics_field d ft fid ch r =
     (if fid = 1 then
        (let (p, n, r) = PgColumnarThriftBytes r
         in Inr (if p \<noteq> None \<and> \<not> has_max ch
                 then ch\<lparr>stat_max := p, stat_max_len := n, has_max := True\<rparr> else ch, r))
      else if fid = 2 then
        (let (p, n, r) = PgColumnarThriftBytes r
         in Inr (if p \<noteq> None \<and> \<not> has_min ch
                 then ch\<lparr>stat_min := p, stat_min_len := n, has_min := True\<rparr> else ch, r))
      else if fid = 5 then
        (let (p, n, r) = PgColumnarThriftBytes r
         in Inr (if p \<noteq> None then ch\<lparr>stat_max := p, stat_max_len := n, has_max := True\<rparr> else ch, r))
      else if fid = 6 then
        (let (p, n, r) = PgColumnarThriftBytes r
         in Inr (if p \<noteq> None then ch\<lparr>stat_min := p, stat_min_len := n, has_min := True\<rparr> else ch, r))
      else tc_skip_field d ft ch r)"

definition parse_statistics :: "nat \<Rightarrow> PqChunk \<Rightarrow> TCReader \<Rightarrow> (PqChunk \<times> TCReader) result" where
  "parse_statistics d = tc_struct (parse_statistics_field d)"

definition parse_size_statistics_field :: "nat \<Rightarrow> nat \<Rightarrow> int \<Rightarrow> PqChunk \<Rightarrow> TCReader \<Rightarrow> (PqChunk \<times> TCReader) result" where
  "parse_size_statistics_field d ft fid ch r =
     (if (fid = 2 \<or> fid = 3) \<and> ft = TC_LIST then
        (let (n, etype, r) = PgColumnarThriftListHeader r
         in res_bind (tc_repeat (\<lambda>r. PgColumnarThriftSkip d r etype) (unat n) r)
              (\<lambda>r. Inr (if n > 0
                        then (if fid = 2 then ch\<lparr>rep_hist_len := uint n\<rparr> else ch\<lparr>def_hist_len := uint n\<rparr>)
                        else ch, r)))
      else tc_skip_field d ft ch r)"

definition parse_size_statistics :: "nat \<Rightarrow> PqChunk \<Rightarrow> TCReader \<Rightarrow> (PqChunk \<times> TCReader) result" where
  "parse_size_statistics d = tc_struct (parse_size_statistics_field d)"

definition parse_column_meta_field :: "nat \<Rightarrow> nat \<Rightarrow> int \<Rightarrow> PqChunk \<Rightarrow> TCReader \<Rightarrow> (PqChunk \<times> TCReader) result" where
  "parse_column_meta_field d ft fid ch r =
     (if fid = 4 then (let (v, r) = tc_int r in Inr (ch\<lparr>codec := v\<rparr>, r))
      else if fid = 5 then (let (v, r) = tc_int64 r in Inr (ch\<lparr>num_values := v\<rparr>, r))
      else if fid = 7 then (let (v, r) = tc_int64 r in Inr (ch\<lparr>total_compressed_size := v\<rparr>, r))
      else if fid = 9 then (let (v, r) = tc_int64 r in Inr (ch\<lparr>data_page_offset := v\<rparr>, r))
      else if fid = 11 then (let (v, r) = tc_int64 r in Inr (ch\<lparr>dict_page_offset := v\<rparr>, r))
      else if fid = 12 then (if ft = TC_STRUCT then parse_statistics d ch r else tc_skip_field d ft ch r)
      else if fid = 16 then (if ft = TC_STRUCT then parse_size_statistics d ch r else tc_skip_field d ft ch r)
      else tc_skip_field d ft ch r)"

definition column_meta_init :: PqChunk where
  "column_meta_init = \<lparr>codec = 0, num_values = 0, data_page_offset = 0, dict_page_offset = 0,
     total_compressed_size = 0, has_min = False, has_max = False, stat_min = None, stat_max = None,
     stat_min_len = 0, stat_max_len = 0, rep_hist_len = -1, def_hist_len = -1\<rparr>"

definition parse_column_meta :: "nat \<Rightarrow> TCReader \<Rightarrow> (PqChunk \<times> TCReader) result" where
  "parse_column_meta d = tc_struct (parse_column_meta_field d) column_meta_init"

definition parse_column_chunk_field :: "nat \<Rightarrow> nat \<Rightarrow> int \<Rightarrow> PqChunk \<Rightarrow> TCReader \<Rightarrow> (PqChunk \<times> TCReader) result" where
  "parse_column_chunk_field d ft fid ch r =
     (if fid = 3 \<and> ft = TC_STRUCT then parse_column_meta d r else tc_skip_field d ft ch r)"

text \<open>The chunk is an element of a zeroed array.\<close>

definition chunk_zero :: PqChunk where
  "chunk_zero = column_meta_init\<lparr>rep_hist_len := 0, def_hist_len := 0\<rparr>"

definition parse_column_chunk :: "nat \<Rightarrow> TCReader \<Rightarrow> (PqChunk \<times> TCReader) result" where
  "parse_column_chunk d = tc_struct (parse_column_chunk_field d) chunk_zero"

subsection \<open>Schema elements\<close>

text \<open>The fields of \<open>TimeType\<close> and \<open>TimestampType\<close>; the unit is itself a union.\<close>

definition parse_time_unit :: "nat \<Rightarrow> bool \<Rightarrow> PqSchemaCol \<Rightarrow> TCReader \<Rightarrow> (PqSchemaCol \<times> TCReader) result" where
  "parse_time_unit d isTs sc r =
     (let (uft, ufid, r) = PgColumnarThriftField r 0
      in if uft \<noteq> TC_STOP \<and> \<not> tc_error r
         then let sc = (if ufid = 1 then sc\<lparr>time_unit := PQ_TU_MILLIS\<rparr>
                        else if ufid = 2 then sc\<lparr>time_unit := PQ_TU_MICROS\<rparr>
                        else if ufid = 3 then sc\<lparr>time_unit := PQ_TU_NANOS\<rparr>
                        else sc)\<lparr>is_timestamp := isTs\<rparr>
              in res_bind (PgColumnarThriftSkip d r uft)
                   (\<lambda>r. Inr (sc, snd (snd (PgColumnarThriftField r ufid))))
         else Inr (sc, r))"

definition parse_time_field :: "nat \<Rightarrow> bool \<Rightarrow> nat \<Rightarrow> int \<Rightarrow> PqSchemaCol \<Rightarrow> TCReader \<Rightarrow> (PqSchemaCol \<times> TCReader) result" where
  "parse_time_field d isTs ift ifid sc r =
     (if ifid = 2 \<and> ift = TC_STRUCT then parse_time_unit d isTs sc r
      else if ifid = 1 \<and> isTs \<and> (ift = TC_BOOL_TRUE \<or> ift = TC_BOOL_FALSE)
      then Inr (sc\<lparr>adjusted_utc := (ift = TC_BOOL_TRUE)\<rparr>, r)
      else tc_skip_field d ift sc r)"

definition parse_int_field :: "nat \<Rightarrow> nat \<Rightarrow> int \<Rightarrow> PqSchemaCol \<Rightarrow> TCReader \<Rightarrow> (PqSchemaCol \<times> TCReader) result" where
  "parse_int_field d ift ifid sc r =
     (if ifid = 2 \<and> (ift = TC_BOOL_TRUE \<or> ift = TC_BOOL_FALSE)
      then Inr (sc\<lparr>is_unsigned := (ift = TC_BOOL_FALSE)\<rparr>, r)
      else tc_skip_field d ift sc r)"

definition parse_logical_type_field :: "nat \<Rightarrow> nat \<Rightarrow> int \<Rightarrow> PqSchemaCol \<Rightarrow> TCReader \<Rightarrow> (PqSchemaCol \<times> TCReader) result" where
  "parse_logical_type_field d ft fid sc r =
     (if (fid = 7 \<or> fid = 8) \<and> ft = TC_STRUCT then tc_struct (parse_time_field d (fid = 8)) sc r
      else if fid = 10 \<and> ft = TC_STRUCT then tc_struct (parse_int_field d) sc r
      else tc_skip_field d ft sc r)"

definition parse_logical_type :: "nat \<Rightarrow> PqSchemaCol \<Rightarrow> TCReader \<Rightarrow> (PqSchemaCol \<times> TCReader) result" where
  "parse_logical_type d = tc_struct (parse_logical_type_field d)"

text \<open>\<open>pnstrdup\<close>: at most \<open>n\<close> bytes, up to the first zero byte.\<close>

definition pnstrdup :: "byte list \<Rightarrow> nat \<Rightarrow> u32 \<Rightarrow> byte list" where
  "pnstrdup buf p n = takeWhile (\<lambda>b. b \<noteq> 0) (take (unat n) (drop p buf))"

definition tc_string :: "TCReader \<Rightarrow> byte list option \<times> TCReader" where
  "tc_string r =
     (let (p, n, r) = PgColumnarThriftBytes r in (map_option (\<lambda>p. pnstrdup (tc_buf r) p n) p, r))"

definition parse_schema_element_field :: "nat \<Rightarrow> nat \<Rightarrow> int \<Rightarrow> PqSchemaCol \<Rightarrow> TCReader \<Rightarrow> (PqSchemaCol \<times> TCReader) result" where
  "parse_schema_element_field d ft fid sc r =
     (if fid = 1 then (let (v, r) = tc_int r in Inr (sc\<lparr>phys_type := v\<rparr>, r))
      else if fid = 2 then (let (v, r) = tc_int r in Inr (sc\<lparr>type_length := v\<rparr>, r))
      else if fid = 3 then (let (v, r) = tc_int64 r in Inr (sc\<lparr>repetition := v\<rparr>, r))
      else if fid = 4 then
        (let (s, r) = tc_string r in Inr (case s of None \<Rightarrow> sc | Some s \<Rightarrow> sc\<lparr>col_name := Some s\<rparr>, r))
      else if fid = 5 then
        (let (v, r) = tc_int64 r
         in Inr (sc\<lparr>num_children_stored := v, num_children := (if v < 0 \<or> v > 0x7fffffff then -1 else v)\<rparr>, r))
      else if fid = 6 then (let (v, r) = tc_int r in Inr (sc\<lparr>converted_type := v\<rparr>, r))
      else if fid = 7 then (let (v, r) = tc_int r in Inr (sc\<lparr>scale := v\<rparr>, r))
      else if fid = 8 then (let (v, r) = tc_int r in Inr (sc\<lparr>precision := v\<rparr>, r))
      else if fid = 9 then (let (v, r) = tc_int r in Inr (sc\<lparr>field_id := v\<rparr>, r))
      else if fid = 10 then parse_logical_type d sc r
      else tc_skip_field d ft sc r)"

definition schema_col_init :: PqSchemaCol where
  "schema_col_init = \<lparr>phys_type = -1, repetition = 0, converted_type = -1, time_unit = PQ_TU_NONE,
     is_timestamp = False, adjusted_utc = True, is_unsigned = False, type_length = 0, scale = 0,
     precision = 0, num_children = 0, num_children_stored = 0, field_id = -1, col_name = None\<rparr>"

text \<open>The fallbacks to the deprecated converted types, after the loop.\<close>

definition converted_fallback :: "PqSchemaCol \<Rightarrow> PqSchemaCol" where
  "converted_fallback sc =
     (let sc = (if time_unit sc = PQ_TU_NONE
                then (if converted_type sc = 9 then sc\<lparr>time_unit := PQ_TU_MILLIS, is_timestamp := True\<rparr>
                      else if converted_type sc = 10 then sc\<lparr>time_unit := PQ_TU_MICROS, is_timestamp := True\<rparr>
                      else if converted_type sc = 7 then sc\<lparr>time_unit := PQ_TU_MILLIS\<rparr>
                      else if converted_type sc = 8 then sc\<lparr>time_unit := PQ_TU_MICROS\<rparr>
                      else sc)
                else sc)
      in if converted_type sc \<ge> 11 \<and> converted_type sc \<le> 14 then sc\<lparr>is_unsigned := True\<rparr> else sc)"

definition parse_schema_element :: "nat \<Rightarrow> TCReader \<Rightarrow> (PqSchemaCol \<times> TCReader) result" where
  "parse_schema_element d r =
     res_bind (tc_struct (parse_schema_element_field d) schema_col_init r)
       (\<lambda>(sc, r). Inr (converted_fallback sc, r))"

text \<open>An element of the zeroed array that the loop did not reach.\<close>

definition schema_col_zero :: PqSchemaCol where
  "schema_col_zero = schema_col_init\<lparr>phys_type := 0, converted_type := 0, adjusted_utc := False, field_id := 0\<rparr>"

text \<open>
  \<open>walk_schema\<close>. The first argument is the number of frames left; the state is the cursor and
  the leaves found, and the flag is the value returned.
\<close>

primrec walk_children ::
    "(nat \<times> PqLeafInfo list \<Rightarrow> (bool \<times> nat \<times> PqLeafInfo list) result) \<Rightarrow> nat \<Rightarrow>
     nat \<times> PqLeafInfo list \<Rightarrow> (bool \<times> nat \<times> PqLeafInfo list) result" where
  "walk_children f 0 st = Inr (True, st)"
| "walk_children f (Suc n) st =
     res_bind (f st) (\<lambda>(ok, st). if ok then walk_children f n st else Inr (False, st))"

primrec walk_schema :: "nat \<Rightarrow> PqSchemaCol list \<Rightarrow> nat \<Rightarrow> nat \<Rightarrow> nat \<Rightarrow>
    nat \<times> PqLeafInfo list \<Rightarrow> (bool \<times> nat \<times> PqLeafInfo list) result" where
  "walk_schema 0 es df rep depth st = Inl (Corrupt ''stack depth limit exceeded'')"
| "walk_schema (Suc fr) es df rep depth st =
     (let (cursor, lvs) = st
      in if cursor \<ge> length es then Inr (False, st)
         else let e = es ! cursor;
                  dd = df + (if repetition e = 1 then 1 else 0) + (if repetition e = 2 then 1 else 0);
                  rp = rep + (if repetition e = 2 then 1 else 0)
              in if num_children e = 0
                 then Inr (True, Suc cursor, lvs @ [\<lparr>leaf_sc = e, max_def = dd, max_rep = rp, leaf_depth = depth\<rparr>])
                 else walk_children (walk_schema fr es dd rp (Suc depth)) (nat (num_children e)) (Suc cursor, lvs))"

subsection \<open>The file metadata\<close>

definition row_group_zero :: PqRowGroup where
  "row_group_zero = \<lparr>rg_num_rows = 0, rg_has_num_rows = False, chunks = None, nchunks = 0\<rparr>"

definition parse_row_group_field :: "nat \<Rightarrow> nat \<Rightarrow> int \<Rightarrow> PqRowGroup \<Rightarrow> TCReader \<Rightarrow> (PqRowGroup \<times> TCReader) result" where
  "parse_row_group_field d ft fid rg r =
     (if fid = 1 \<and> ft = TC_LIST then
        (let (cn, cet, r) = PgColumnarThriftListHeader r
         in res_bind (palloc0 88 (unat cn)) (\<lambda>_.
            res_bind (tc_list (parse_column_chunk d) (unat cn) r) (\<lambda>(cs, r).
            Inr (rg\<lparr>chunks := Some (zero_fill chunk_zero (unat cn) cs), nchunks := unat cn\<rparr>, r))))
      else if fid = 3 then
        (let (v, r) = tc_int64 r in Inr (rg\<lparr>rg_num_rows := v, rg_has_num_rows := True\<rparr>, r))
      else tc_skip_field d ft rg r)"

definition parse_row_group :: "nat \<Rightarrow> TCReader \<Rightarrow> (PqRowGroup \<times> TCReader) result" where
  "parse_row_group d = tc_struct (parse_row_group_field d) row_group_zero"

definition parse_file_field :: "nat \<Rightarrow> nat \<Rightarrow> int \<Rightarrow> PqFile \<Rightarrow> TCReader \<Rightarrow> (PqFile \<times> TCReader) result" where
  "parse_file_field d ft fid pf r =
     (if fid = 2 \<and> ft = TC_LIST then
        (let (n, etype, r) = PgColumnarThriftListHeader r
         in res_bind (palloc0 72 (unat n)) (\<lambda>_.
            res_bind (tc_list (parse_schema_element d) (unat n) r) (\<lambda>(es, r).
            Inr (pf\<lparr>elems := zero_fill schema_col_zero (unat n) es\<rparr>, r))))
      else if fid = 4 \<and> ft = TC_LIST then
        (let (n, etype, r) = PgColumnarThriftListHeader r
         in res_bind (palloc0 32 (unat n)) (\<lambda>_.
            res_bind (tc_list (parse_row_group d) (unat n) r) (\<lambda>(gs, r).
            Inr (pf\<lparr>has_row_groups := True, rgs := zero_fill row_group_zero (unat n) gs\<rparr>, r))))
      else if fid = 3 \<and> (ft = TC_I64 \<or> ft = TC_I32 \<or> ft = TC_I16) then
        (let (v, r) = tc_int64 r in Inr (pf\<lparr>pf_num_rows := v, has_num_rows := True\<rparr>, r))
      else tc_skip_field d ft pf r)"

definition file_init :: PqFile where
  "file_init = \<lparr>elems = [], ncols = 0, leaves = [], ntop = 0, rgs = [], has_row_groups = False,
     has_num_rows = False, pf_num_rows = 0, bad_children = None\<rparr>"

text \<open>The checks and the walk behind the loop; \<open>None\<close> in \<open>find_index\<close> is the loop that found nothing.\<close>

definition find_index :: "('a \<Rightarrow> bool) \<Rightarrow> 'a list \<Rightarrow> nat option" where
  "find_index P xs = (let i = length (takeWhile (\<lambda>x. \<not> P x) xs) in if i < length xs then Some i else None)"

definition finish_file_metadata :: "nat \<Rightarrow> PqFile \<Rightarrow> TCReader \<Rightarrow> (bool \<times> PqFile) result" where
  "finish_file_metadata d pf r =
     (if tc_error r \<or> elems pf = [] then Inr (False, pf)
      else if (\<exists>e \<in> set (elems pf). col_name e = None) then Inr (False, pf)
      else case find_index (\<lambda>e. num_children e < 0) (elems pf) of
        Some e \<Rightarrow> Inr (False, pf\<lparr>bad_children := Some e\<rparr>)
      | None \<Rightarrow>
          let pf = pf\<lparr>ntop := num_children (hd (elems pf))\<rparr>
          in res_bind (walk_children (walk_schema d (elems pf) 0 0 1) (nat (ntop pf)) (1, []))
               (\<lambda>(ok, cursor, lvs).
                  if \<not> ok then Inr (False, pf)
                  else let pf = pf\<lparr>ncols := length lvs, leaves := lvs\<rparr>
                       in if ncols pf = 0 then Inr (False, pf) else Inr (True, pf)))"

definition parse_file_metadata :: "nat \<Rightarrow> byte list \<Rightarrow> (bool \<times> PqFile) result" where
  "parse_file_metadata d buf =
     res_bind (tc_struct (parse_file_field d) file_init \<lparr>tc_buf = buf, tc_pos = 0, tc_error = False\<rparr>)
       (\<lambda>(pf, r). finish_file_metadata d pf r)"

definition pq_bad_repetition :: "PqFile \<Rightarrow> PqSchemaCol option" where
  "pq_bad_repetition pf = find (\<lambda>e. repetition e < 0 \<or> repetition e > 2) (tl (elems pf))"

subsection \<open>The checks before a value is read\<close>

definition malformed :: "string \<Rightarrow> decode_error" where
  "malformed detail = Corrupt detail"

primrec check_chunks :: "PqLeafInfo list \<Rightarrow> int \<Rightarrow> nat \<Rightarrow> PqChunk list \<Rightarrow> unit result" where
  "check_chunks lvs rows ci [] = Inr ()"
| "check_chunks lvs rows ci (ch # chs) =
     (if num_values ch < 0 \<or> num_values ch > int (MaxAllocSize div 8)
      then Inl (malformed ''num_values outside the supported range'')
      else if rows > num_values ch then Inl (malformed ''num_rows above the column's values'')
      else if def_hist_len ch > 0 \<and> def_hist_len ch \<noteq> int (max_def (lvs ! ci)) + 1
      then Inl (malformed ''definition level histogram'')
      else if rep_hist_len ch > 0 \<and> rep_hist_len ch \<noteq> int (max_rep (lvs ! ci)) + 1
      then Inl (malformed ''repetition level histogram'')
      else check_chunks lvs rows (Suc ci) chs)"

primrec check_groups :: "PqFile \<Rightarrow> int \<Rightarrow> PqRowGroup list \<Rightarrow> int result" where
  "check_groups pf acc [] = Inr acc"
| "check_groups pf acc (g # gs) =
     (if \<not> rg_has_num_rows g then Inl (malformed ''row group has no num_rows field'')
      else case chunks g of
        None \<Rightarrow> Inl (malformed ''row group carries a wrong number of column chunks'')
      | Some cs \<Rightarrow>
          if nchunks g \<noteq> ncols pf then Inl (malformed ''row group carries a wrong number of column chunks'')
          else if rg_num_rows g < 0 then Inl (malformed ''row group declares a negative num_rows'')
          else res_bind (check_chunks (leaves pf) (rg_num_rows g) 0 cs)
                 (\<lambda>_. check_groups pf (acc + rg_num_rows g) gs))"

definition pq_check_row_groups :: "PqFile \<Rightarrow> unit result" where
  "pq_check_row_groups pf =
     (if \<not> has_row_groups pf then Inl (malformed ''The footer has no row_groups field.'')
      else if \<not> has_num_rows pf then Inl (malformed ''The footer has no num_rows field.'')
      else res_bind (check_groups pf 0 (rgs pf))
             (\<lambda>rows. if rows \<noteq> pf_num_rows pf
                      then Inl (malformed ''The footer's num_rows is not the sum of its row groups'') else Inr ()))"

subsection \<open>Page headers\<close>

record PqPageHeader =
  ph_type :: int
  uncompressed_size :: int
  compressed_size :: int
  ph_num_values :: int
  encoding :: int
  def_levels_len :: int
  rep_levels_len :: int
  is_compressed :: bool
  is_v2 :: bool
  bad_type :: bool

definition pq_page_i32 :: "PqPageHeader \<Rightarrow> nat \<Rightarrow> TCReader \<Rightarrow> int \<times> PqPageHeader \<times> TCReader" where
  "pq_page_i32 h ft r =
     (if ft \<noteq> TC_I32 then (0, h\<lparr>bad_type := True\<rparr>, tc_fail r)
      else let (v, r) = tc_int r in (v, h, r))"

definition pq_page_struct :: "PqPageHeader \<Rightarrow> nat \<Rightarrow> TCReader \<Rightarrow> bool \<times> PqPageHeader \<times> TCReader" where
  "pq_page_struct h ft r =
     (if ft \<noteq> TC_STRUCT then (False, h\<lparr>bad_type := True\<rparr>, tc_fail r) else (True, h, r))"

definition parse_data_page_field ::
    "nat \<Rightarrow> bool \<Rightarrow> nat \<Rightarrow> int \<Rightarrow> PqPageHeader \<Rightarrow> TCReader \<Rightarrow> (PqPageHeader \<times> TCReader) result" where
  "parse_data_page_field d v2 ft fid h r =
     (if \<not> v2 then
        (if fid = 1 then (let (v, h, r) = pq_page_i32 h ft r in Inr (h\<lparr>ph_num_values := v\<rparr>, r))
         else if fid = 2 then (let (v, h, r) = pq_page_i32 h ft r in Inr (h\<lparr>encoding := v\<rparr>, r))
         else if fid = 3 \<or> fid = 4 then (let (v, h, r) = pq_page_i32 h ft r in Inr (h, r))
         else tc_skip_field d ft h r)
      else
        (if fid = 1 then (let (v, h, r) = pq_page_i32 h ft r in Inr (h\<lparr>ph_num_values := v\<rparr>, r))
         else if fid = 2 \<or> fid = 3 then (let (v, h, r) = pq_page_i32 h ft r in Inr (h, r))
         else if fid = 4 then (let (v, h, r) = pq_page_i32 h ft r in Inr (h\<lparr>encoding := v\<rparr>, r))
         else if fid = 5 then (let (v, h, r) = pq_page_i32 h ft r in Inr (h\<lparr>def_levels_len := v\<rparr>, r))
         else if fid = 6 then (let (v, h, r) = pq_page_i32 h ft r in Inr (h\<lparr>rep_levels_len := v\<rparr>, r))
         else if fid = 7 then
           (if ft = TC_BOOL_TRUE \<or> ft = TC_BOOL_FALSE then Inr (h\<lparr>is_compressed := (ft = TC_BOOL_TRUE)\<rparr>, r)
            else tc_skip_field d ft h r)
         else tc_skip_field d ft h r))"

definition parse_data_page_header ::
    "nat \<Rightarrow> bool \<Rightarrow> PqPageHeader \<Rightarrow> TCReader \<Rightarrow> (PqPageHeader \<times> TCReader) result" where
  "parse_data_page_header d v2 h r =
     tc_struct (parse_data_page_field d v2) (h\<lparr>is_v2 := v2, is_compressed := True\<rparr>) r"

definition parse_dictionary_page_field ::
    "nat \<Rightarrow> nat \<Rightarrow> int \<Rightarrow> PqPageHeader \<Rightarrow> TCReader \<Rightarrow> (PqPageHeader \<times> TCReader) result" where
  "parse_dictionary_page_field d ft fid h r =
     (if fid = 1 then (let (v, h, r) = pq_page_i32 h ft r in Inr (h\<lparr>ph_num_values := v\<rparr>, r))
      else if fid = 2 then (let (v, h, r) = pq_page_i32 h ft r in Inr (h, r))
      else tc_skip_field d ft h r)"

definition parse_page_header_field ::
    "nat \<Rightarrow> nat \<Rightarrow> int \<Rightarrow> PqPageHeader \<Rightarrow> TCReader \<Rightarrow> (PqPageHeader \<times> TCReader) result" where
  "parse_page_header_field d ft fid h r =
     (if fid = 1 then (let (v, h, r) = pq_page_i32 h ft r in Inr (h\<lparr>ph_type := v\<rparr>, r))
      else if fid = 2 then (let (v, h, r) = pq_page_i32 h ft r in Inr (h\<lparr>uncompressed_size := v\<rparr>, r))
      else if fid = 3 then (let (v, h, r) = pq_page_i32 h ft r in Inr (h\<lparr>compressed_size := v\<rparr>, r))
      else if fid = 5 then
        (let (ok, h, r) = pq_page_struct h ft r
         in if ok then parse_data_page_header d False h r else Inr (h, r))
      else if fid = 7 then
        (let (ok, h, r) = pq_page_struct h ft r
         in if ok then tc_struct (parse_dictionary_page_field d) h r else Inr (h, r))
      else if fid = 8 then
        (let (ok, h, r) = pq_page_struct h ft r
         in if ok then parse_data_page_header d True h r else Inr (h, r))
      else tc_skip_field d ft h r)"

definition page_header_init :: PqPageHeader where
  "page_header_init = \<lparr>ph_type = 0, uncompressed_size = 0, compressed_size = 0, ph_num_values = 0, encoding = 0,
     def_levels_len = 0, rep_levels_len = 0, is_compressed = True, is_v2 = False, bad_type = False\<rparr>"

definition parse_page_header :: "nat \<Rightarrow> TCReader \<Rightarrow> (PqPageHeader \<times> TCReader) result" where
  "parse_page_header d r = tc_struct (parse_page_header_field d) page_header_init r"

section \<open>Laws of the parsers\<close>

text \<open>
  Each field handler is a \<open>thrift_body\<close>: it never moves the reader back or out of the buffer,
  and raises nothing but the stack-depth error and the refusal of an allocation. The loops then end for every input.
\<close>

lemma tc_int_moves: "tc_moves r (snd (tc_int r))"
  using tc_zigzag_moves[of r] by (cases "PgColumnarThriftZigzag r") (simp add: tc_int_def)

lemma tc_int64_moves: "tc_moves r (snd (tc_int64 r))"
  using tc_zigzag_moves[of r] by (cases "PgColumnarThriftZigzag r") (simp add: tc_int64_def)

abbreviation pq_fine :: "TCReader \<Rightarrow> ('s \<times> TCReader) result \<Rightarrow> bool" where
  "pq_fine r x \<equiv> tc_fine parse_errors r (tc_reader_of x)"

named_theorems pq_fine_intro

lemma fine_int [pq_fine_intro]: "pq_fine r (let (v, r) = tc_int r in Inr (f v, r))"
  using tc_moves_steps[OF tc_int_moves[of r]] by (cases "tc_int r") simp

lemma fine_int64 [pq_fine_intro]: "pq_fine r (let (v, r) = tc_int64 r in Inr (f v, r))"
  using tc_moves_steps[OF tc_int64_moves[of r]] by (cases "tc_int64 r") simp

lemma fine_bytes [pq_fine_intro]:
  "tc_pos r \<le> tc_len r \<Longrightarrow> pq_fine r (let (p, n, r) = PgColumnarThriftBytes r in Inr (f p n r, r))"
  using tc_moves_steps[OF tc_bytes_moves[of r]] by (cases "PgColumnarThriftBytes r") simp

lemma fine_string [pq_fine_intro]:
  "tc_pos r \<le> tc_len r \<Longrightarrow> pq_fine r (let (s, r) = tc_string r in Inr (f s, r))"
  using tc_moves_steps[OF tc_bytes_moves[of r]] by (cases "PgColumnarThriftBytes r") (simp add: tc_string_def)

lemma fine_skip [pq_fine_intro]: "tc_pos r \<le> tc_len r \<Longrightarrow> pq_fine r (tc_skip_field d ft s r)"
  using tc_skip_fine[of r parse_errors d ft]
  by (cases "PgColumnarThriftSkip d r ft") (auto simp: tc_skip_field_def)

lemma fine_const [pq_fine_intro]: "pq_fine r (Inr (s, r))"
  by simp

lemma fine_if [pq_fine_intro]: "(c \<Longrightarrow> pq_fine r x) \<Longrightarrow> (\<not> c \<Longrightarrow> pq_fine r y) \<Longrightarrow> pq_fine r (if c then x else y)"
  by simp

interpretation statistics: thrift_parser "parse_statistics_field d" for d
  by unfold_locales (auto simp only: parse_statistics_field_def intro!: pq_fine_intro)

lemma pq_fine_trans: "tc_steps r r' \<Longrightarrow> pq_fine r' x \<Longrightarrow> pq_fine r x"
  by (cases x) (auto intro: tc_steps_trans)

lemma fine_list_header [pq_fine_intro]:
  assumes "tc_pos r \<le> tc_len r" and "\<And>n et r'. tc_pos r' \<le> tc_len r' \<Longrightarrow> pq_fine r' (g n et r')"
  shows "pq_fine r (let (n, et, r) = PgColumnarThriftListHeader r in g n et r)"
proof -
  obtain n et r' where h: "PgColumnarThriftListHeader r = (n, et, r')" by (metis prod_cases3)
  with tc_list_header_moves[of r] have st: "tc_steps r r'" by (simp add: tc_moves_def)
  with assms(1) have "tc_pos r' \<le> tc_len r'" by (simp add: tc_steps_def)
  from pq_fine_trans[OF st assms(2)[OF this]] show ?thesis by (simp add: h)
qed

lemma fine_field_header:
  assumes "tc_pos r \<le> tc_len r" and "\<And>ft fid r'. tc_pos r' \<le> tc_len r' \<Longrightarrow> pq_fine r' (g ft fid r')"
  shows "pq_fine r (let (ft, fid, r) = PgColumnarThriftField r l in g ft fid r)"
proof -
  obtain ft fid r' where h: "PgColumnarThriftField r l = (ft, fid, r')" by (metis prod_cases3)
  with tc_field_moves[of r l] have st: "tc_steps r r'" by (simp add: tc_moves_def)
  with assms(1) have "tc_pos r' \<le> tc_len r'" by (simp add: tc_steps_def)
  from pq_fine_trans[OF st assms(2)[OF this]] show ?thesis by (simp add: h)
qed

lemma fine_skip_then:
  assumes "tc_pos r \<le> tc_len r" and "\<And>r'. tc_pos r' \<le> tc_len r' \<Longrightarrow> pq_fine r' (g r')"
  shows "pq_fine r (res_bind (PgColumnarThriftSkip d r ft) g)"
proof (cases "PgColumnarThriftSkip d r ft")
  case (Inl e)
  then show ?thesis using tc_skip_fine[OF assms(1), of parse_errors d ft] by simp
next
  case (Inr r')
  then have st: "tc_steps r r'" using tc_skip_fine[OF assms(1), of parse_errors d ft] by simp
  with assms(1) have "tc_pos r' \<le> tc_len r'" by (simp add: tc_steps_def)
  from pq_fine_trans[OF st assms(2)[OF this]] Inr show ?thesis by simp
qed

lemma fine_skips [pq_fine_intro]:
  assumes "tc_pos r \<le> tc_len r"
  shows "pq_fine r (res_bind (tc_repeat (\<lambda>r. PgColumnarThriftSkip d r et) n r) (\<lambda>r. Inr (s, r)))"
proof -
  have "tc_fine parse_errors r (tc_repeat (\<lambda>r. PgColumnarThriftSkip d r et) n r)"
    by (rule tc_repeat_fine[OF assms]) (rule tc_skip_fine, simp_all)
  then show ?thesis by (cases "tc_repeat (\<lambda>r. PgColumnarThriftSkip d r et) n r") auto
qed

lemma fine_palloc [pq_fine_intro]: "pq_fine r x \<Longrightarrow> pq_fine r (res_bind (palloc0 sz n) (\<lambda>_. x))"
  by (simp add: palloc0_def)

lemma tc_list_fine:
  assumes "\<And>r. tc_pos r \<le> tc_len r \<Longrightarrow> pq_fine r (f r)"
  shows "tc_pos r \<le> tc_len r \<Longrightarrow> pq_fine r (tc_list f n r)"
proof (induction n arbitrary: r)
  case (Suc n)
  show ?case
  proof (cases "f r")
    case (Inl e)
    then show ?thesis using assms[OF Suc.prems] by simp
  next
    case (Inr p)
    obtain x r1 where p: "p = (x, r1)" by fastforce
    have st: "tc_steps r r1" using assms[OF Suc.prems] Inr p by simp
    with Suc.prems have "tc_pos r1 \<le> tc_len r1" by (simp add: tc_steps_def)
    from pq_fine_trans[OF st Suc.IH[OF this]] Inr p show ?thesis
      by (cases "tc_list f n r1") auto
  qed
qed simp

lemma fine_list [pq_fine_intro]:
  assumes "tc_pos r \<le> tc_len r" and "\<And>r. tc_pos r \<le> tc_len r \<Longrightarrow> pq_fine r (f r)"
  shows "pq_fine r (res_bind (tc_list f n r) (\<lambda>(xs, r). Inr (g xs, r)))"
  using tc_list_fine[OF assms(2) assms(1), of n] by (cases "tc_list f n r") auto

interpretation size_statistics: thrift_parser "parse_size_statistics_field d" for d
  by unfold_locales (auto simp only: parse_size_statistics_field_def intro!: pq_fine_intro)

lemma fine_statistics [pq_fine_intro]: "tc_pos r \<le> tc_len r \<Longrightarrow> pq_fine r (parse_statistics d s r)"
  unfolding parse_statistics_def by (rule statistics.parser_fine)

lemma fine_size_statistics [pq_fine_intro]: "tc_pos r \<le> tc_len r \<Longrightarrow> pq_fine r (parse_size_statistics d s r)"
  unfolding parse_size_statistics_def by (rule size_statistics.parser_fine)

interpretation column_meta: thrift_parser "parse_column_meta_field d" for d
  by unfold_locales (auto simp only: parse_column_meta_field_def intro!: pq_fine_intro)

lemma fine_column_meta [pq_fine_intro]: "tc_pos r \<le> tc_len r \<Longrightarrow> pq_fine r (parse_column_meta d r)"
  unfolding parse_column_meta_def by (rule column_meta.parser_fine)

interpretation column_chunk: thrift_parser "parse_column_chunk_field d" for d
  by unfold_locales (auto simp only: parse_column_chunk_field_def intro!: pq_fine_intro)

lemma fine_column_chunk [pq_fine_intro]: "tc_pos r \<le> tc_len r \<Longrightarrow> pq_fine r (parse_column_chunk d r)"
  unfolding parse_column_chunk_def by (rule column_chunk.parser_fine)

lemma fine_time_unit [pq_fine_intro]:
  assumes "tc_pos r \<le> tc_len r"
  shows "pq_fine r (parse_time_unit d isTs sc r)"
  unfolding parse_time_unit_def
proof (rule fine_field_header[OF assms])
  fix ft fid r1
  assume ok: "tc_pos r1 \<le> tc_len r1"
  have "pq_fine r1 (res_bind (PgColumnarThriftSkip d r1 ft) (\<lambda>r. Inr (s, snd (snd (PgColumnarThriftField r fid)))))" for s :: PqSchemaCol
    by (rule fine_skip_then[OF ok]) (use tc_moves_steps[OF tc_field_moves] in simp)
  then show "pq_fine r1
        (if ft \<noteq> TC_STOP \<and> \<not> tc_error r1
         then let sc = (if fid = 1 then sc\<lparr>time_unit := PQ_TU_MILLIS\<rparr>
                        else if fid = 2 then sc\<lparr>time_unit := PQ_TU_MICROS\<rparr>
                        else if fid = 3 then sc\<lparr>time_unit := PQ_TU_NANOS\<rparr>
                        else sc)\<lparr>is_timestamp := isTs\<rparr>
              in res_bind (PgColumnarThriftSkip d r1 ft)
                   (\<lambda>r. Inr (sc, snd (snd (PgColumnarThriftField r fid))))
         else Inr (sc, r1))"
    unfolding Let_def by (intro fine_if fine_const)
qed

interpretation time_type: thrift_parser "parse_time_field d isTs" for d isTs
  by unfold_locales (auto simp only: parse_time_field_def intro!: pq_fine_intro)

interpretation int_type: thrift_parser "parse_int_field d" for d
  by unfold_locales (auto simp only: parse_int_field_def intro!: pq_fine_intro)

interpretation logical_type: thrift_parser "parse_logical_type_field d" for d
  by unfold_locales (auto simp only: parse_logical_type_field_def
      intro!: pq_fine_intro time_type.parser_fine int_type.parser_fine)

lemma fine_logical_type [pq_fine_intro]: "tc_pos r \<le> tc_len r \<Longrightarrow> pq_fine r (parse_logical_type d s r)"
  unfolding parse_logical_type_def by (rule logical_type.parser_fine)

interpretation schema_element: thrift_parser "parse_schema_element_field d" for d
  by unfold_locales (auto simp only: parse_schema_element_field_def intro!: pq_fine_intro)

lemma fine_schema_element [pq_fine_intro]:
  assumes "tc_pos r \<le> tc_len r"
  shows "pq_fine r (parse_schema_element d r)"
  using schema_element.parser_fine[OF assms, of d schema_col_init]
  by (cases "tc_struct (parse_schema_element_field d) schema_col_init r") (auto simp: parse_schema_element_def)

interpretation row_group: thrift_parser "parse_row_group_field d" for d
  by unfold_locales (auto simp only: parse_row_group_field_def intro!: pq_fine_intro)

lemma fine_row_group [pq_fine_intro]: "tc_pos r \<le> tc_len r \<Longrightarrow> pq_fine r (parse_row_group d r)"
  unfolding parse_row_group_def by (rule row_group.parser_fine)

interpretation file_meta: thrift_parser "parse_file_field d" for d
  by unfold_locales (auto simp only: parse_file_field_def intro!: pq_fine_intro)

lemma fine_page_i32 [pq_fine_intro]: "pq_fine r (let (v, h, r) = pq_page_i32 h ft r in Inr (f v h, r))"
  using tc_moves_steps[OF tc_int_moves[of r]] by (cases "tc_int r") (simp add: pq_page_i32_def)

lemma fine_page_struct [pq_fine_intro]:
  assumes "\<And>h. pq_fine r (g h r)"
  shows "pq_fine r (let (ok, h, r) = pq_page_struct h ft r in if ok then g h r else Inr (h, r))"
  using assms by (simp add: pq_page_struct_def)

interpretation data_page: thrift_parser "parse_data_page_field d v2" for d v2
  by unfold_locales (auto simp only: parse_data_page_field_def intro!: pq_fine_intro)

interpretation dictionary_page: thrift_parser "parse_dictionary_page_field d" for d
  by unfold_locales (auto simp only: parse_dictionary_page_field_def intro!: pq_fine_intro)

lemma fine_data_page [pq_fine_intro]: "tc_pos r \<le> tc_len r \<Longrightarrow> pq_fine r (parse_data_page_header d v2 h r)"
  unfolding parse_data_page_header_def by (rule data_page.parser_fine)

interpretation page_header: thrift_parser "parse_page_header_field d" for d
  by unfold_locales (auto simp only: parse_page_header_field_def
      intro!: pq_fine_intro dictionary_page.parser_fine)

subsection \<open>What a parser keeps of its state\<close>

locale thrift_state = thrift_parser body
  for body :: "nat \<Rightarrow> int \<Rightarrow> 's \<Rightarrow> TCReader \<Rightarrow> ('s \<times> TCReader) result" +
  fixes I :: "byte list \<Rightarrow> 's \<Rightarrow> bool"
  assumes keep: "tc_pos r \<le> tc_len r \<Longrightarrow> I (tc_buf r) s \<Longrightarrow> body ft fid s r = Inr (s', r') \<Longrightarrow> I (tc_buf r) s'"
begin

lemma loop_keep:
  "tc_struct_loop body fuel lastId s r = Inr (s', r') \<Longrightarrow> tc_pos r \<le> tc_len r \<Longrightarrow> I (tc_buf r) s \<Longrightarrow> I (tc_buf r) s'"
proof (induction fuel arbitrary: lastId s r)
  case (Suc fuel)
  obtain ft fid r1 where f: "PgColumnarThriftField r lastId = (ft, fid, r1)" by (metis prod_cases3)
  with tc_field_moves[of r lastId] have st: "tc_steps r r1" by (simp add: tc_moves_def)
  with Suc.prems have ok: "tc_pos r1 \<le> tc_len r1" and I1: "I (tc_buf r1) s" by (simp_all add: tc_steps_def)
  show ?case
  proof (cases "ft = TC_STOP \<or> tc_error r1")
    case True
    with Suc.prems f show ?thesis by simp
  next
    case False
    with Suc.prems(1) f obtain s2 r2 where b: "body ft fid s r1 = Inr (s2, r2)"
      and l: "tc_struct_loop body fuel fid s2 r2 = Inr (s', r')" by (auto simp: res_bind_Inr)
    have st2: "tc_steps r1 r2" using body_fine[OF _ ok, of ft fid s] b by simp
    have "I (tc_buf r2) s2" using keep[OF ok I1 b] st2 by (simp add: tc_steps_def)
    moreover have "tc_pos r2 \<le> tc_len r2" using st2 ok by (simp add: tc_steps_def)
    ultimately have "I (tc_buf r2) s'" using Suc.IH[OF l] by simp
    then show ?thesis using st st2 by (simp add: tc_steps_def)
  qed
qed simp

lemma struct_keep:
  "tc_struct body s r = Inr (s', r') \<Longrightarrow> tc_pos r \<le> tc_len r \<Longrightarrow> I (tc_buf r) s \<Longrightarrow> I (tc_buf r) s'"
  unfolding tc_struct_def by (rule loop_keep)

end

text \<open>A bound of a chunk lies within the footer it points into.\<close>

definition stat_in :: "byte list \<Rightarrow> bool \<Rightarrow> nat option \<Rightarrow> u32 \<Rightarrow> bool" where
  "stat_in buf has p n \<longleftrightarrow> (has \<longrightarrow> (\<exists>q. p = Some q \<and> q + unat n \<le> length buf))"

definition chunk_in :: "byte list \<Rightarrow> PqChunk \<Rightarrow> bool" where
  "chunk_in buf ch \<longleftrightarrow> stat_in buf (has_min ch) (stat_min ch) (stat_min_len ch) \<and>
     stat_in buf (has_max ch) (stat_max ch) (stat_max_len ch)"

definition group_in :: "byte list \<Rightarrow> PqRowGroup \<Rightarrow> bool" where
  "group_in buf g \<longleftrightarrow> (\<forall>cs. chunks g = Some cs \<longrightarrow> length cs = nchunks g \<and> (\<forall>ch \<in> set cs. chunk_in buf ch))"

definition file_in :: "byte list \<Rightarrow> PqFile \<Rightarrow> bool" where
  "file_in buf pf \<longleftrightarrow> (\<forall>g \<in> set (rgs pf). group_in buf g)"

lemma skip_field_state: "tc_skip_field d ft s r = Inr (s', r') \<Longrightarrow> s' = s"
  by (auto simp: tc_skip_field_def res_bind_Inr)

lemma bytes_in:
  assumes "tc_pos r \<le> tc_len r" and "PgColumnarThriftBytes r = (Some p, n, r')"
  shows "stat_in (tc_buf r) has (Some p) n"
  using tc_bytes_in_bounds(1)[OF assms] by (simp add: stat_in_def)

interpretation statistics_state: thrift_state "parse_statistics_field d" chunk_in for d
proof (unfold_locales, goal_cases)
  case (1 r s ft fid s' r')
  obtain p n q where b: "PgColumnarThriftBytes r = (p, n, q)" by (metis prod_cases3)
  show ?case
    using 1 bytes_in[OF 1(1), of _ n q] skip_field_state[of d ft s r s' r']
    by (auto simp: parse_statistics_field_def b chunk_in_def split: if_splits)
qed

interpretation size_statistics_state: thrift_state "parse_size_statistics_field d" chunk_in for d
proof (unfold_locales, goal_cases)
  case (1 r s ft fid s' r')
  obtain n et q where b: "PgColumnarThriftListHeader r = (n, et, q)" by (metis prod_cases3)
  show ?case
    using 1 skip_field_state[of d ft s r s' r']
    by (auto simp: parse_size_statistics_field_def b chunk_in_def res_bind_Inr split: if_splits)
qed

interpretation column_meta_state: thrift_state "parse_column_meta_field d" chunk_in for d
proof (unfold_locales, goal_cases)
  case (1 r s ft fid s' r')
  show ?case
    using 1 skip_field_state[of d ft s r s' r'] statistics_state.struct_keep[of d s r s' r']
      size_statistics_state.struct_keep[of d s r s' r']
    by (auto simp: parse_column_meta_field_def parse_statistics_def parse_size_statistics_def chunk_in_def
        split: if_splits prod.splits)
qed

lemma chunk_in_init: "chunk_in buf column_meta_init" "chunk_in buf chunk_zero"
  by (simp_all add: chunk_in_def stat_in_def column_meta_init_def chunk_zero_def)

interpretation column_chunk_state: thrift_state "parse_column_chunk_field d" chunk_in for d
proof (unfold_locales, goal_cases)
  case (1 r s ft fid s' r')
  show ?case
    using 1 skip_field_state[of d ft s r s' r'] column_meta_state.struct_keep[of d column_meta_init r s' r'] chunk_in_init
    by (auto simp: parse_column_chunk_field_def parse_column_meta_def split: if_splits)
qed

lemma tc_list_keep:
  assumes "\<And>r x r'. tc_pos r \<le> tc_len r \<Longrightarrow> f r = Inr (x, r') \<Longrightarrow> J (tc_buf r) x"
    and "\<And>r. tc_pos r \<le> tc_len r \<Longrightarrow> pq_fine r (f r)"
  shows "tc_list f n r = Inr (xs, r') \<Longrightarrow> tc_pos r \<le> tc_len r \<Longrightarrow> length xs \<le> n \<and> (\<forall>x \<in> set xs. J (tc_buf r) x)"
proof (induction n arbitrary: r xs)
  case (Suc n)
  show ?case
  proof (cases "tc_error r")
    case False
    with Suc.prems(1) obtain x r1 ys where x: "f r = Inr (x, r1)" and ys: "tc_list f n r1 = Inr (ys, r')" "xs = x # ys"
      by (auto simp: res_bind_Inr)
    have st: "tc_steps r r1" using assms(2)[OF Suc.prems(2)] x by simp
    then have "tc_pos r1 \<le> tc_len r1" using Suc.prems(2) by (simp add: tc_steps_def)
    from Suc.IH[OF ys(1) this] assms(1)[OF Suc.prems(2) x] st ys(2) show ?thesis by (simp add: tc_steps_def)
  qed (use Suc.prems in simp)
qed simp

lemma zero_fill_keep: "length xs \<le> n \<Longrightarrow> length (zero_fill z n xs) = n \<and> set (zero_fill z n xs) \<subseteq> insert z (set xs)"
  by (auto simp: zero_fill_def)

interpretation row_group_state: thrift_state "parse_row_group_field d" group_in for d
proof (unfold_locales, goal_cases)
  case (1 r s ft fid s' r')
  obtain n et q where b: "PgColumnarThriftListHeader r = (n, et, q)" by (metis prod_cases3)
  with tc_list_header_moves[of r] 1(1) have q: "tc_buf q = tc_buf r" "tc_pos q \<le> tc_len q" by (auto simp: tc_moves_def tc_steps_def)
  have one: "chunk_in (tc_buf a) x" if "tc_pos a \<le> tc_len a" "parse_column_chunk d a = Inr (x, a')" for a x a'
    using column_chunk_state.struct_keep[of d chunk_zero a x a'] that chunk_in_init by (simp add: parse_column_chunk_def)
  have lst: "group_in (tc_buf r) (s\<lparr>chunks := Some (zero_fill chunk_zero (unat n) cs), nchunks := unat n\<rparr>)"
    if "tc_list (parse_column_chunk d) (unat n) q = Inr (cs, r'')" for cs r''
    using tc_list_keep[of "parse_column_chunk d" chunk_in, OF one fine_column_chunk that q(2)] q(1)
      zero_fill_keep[of cs "unat n" chunk_zero] chunk_in_init(2)[of "tc_buf r"]
    by (auto simp: group_in_def)
  show ?case
    using 1 skip_field_state[of d ft s r s' r'] lst
    by (auto simp: parse_row_group_field_def b res_bind_Inr group_in_def split: if_splits prod.splits)
qed

lemma group_in_zero: "group_in buf row_group_zero"
  by (simp add: group_in_def row_group_zero_def)

interpretation file_state: thrift_state "parse_file_field d" file_in for d
proof (unfold_locales, goal_cases)
  case (1 r s ft fid s' r')
  obtain n et q where b: "PgColumnarThriftListHeader r = (n, et, q)" by (metis prod_cases3)
  with tc_list_header_moves[of r] 1(1) have q: "tc_buf q = tc_buf r" "tc_pos q \<le> tc_len q" by (auto simp: tc_moves_def tc_steps_def)
  have one: "group_in (tc_buf a) x" if "tc_pos a \<le> tc_len a" "parse_row_group d a = Inr (x, a')" for a x a'
    using row_group_state.struct_keep[of d row_group_zero a x a'] that group_in_zero by (simp add: parse_row_group_def)
  have lst: "file_in (tc_buf r) (s\<lparr>has_row_groups := True, rgs := zero_fill row_group_zero (unat n) gs\<rparr>)"
    if "tc_list (parse_row_group d) (unat n) q = Inr (gs, r'')" for gs r''
    using tc_list_keep[of "parse_row_group d" group_in, OF one fine_row_group that q(2)] q(1)
      zero_fill_keep[of gs "unat n" row_group_zero] group_in_zero[of "tc_buf r"]
    by (auto simp: file_in_def)
  show ?case
    using 1 skip_field_state[of d ft s r s' r'] lst
    by (auto simp: parse_file_field_def b res_bind_Inr file_in_def split: if_splits prod.splits)
qed

subsection \<open>The schema walk\<close>

definition walk_ext :: "PqSchemaCol list \<Rightarrow> nat \<times> PqLeafInfo list \<Rightarrow> nat \<times> PqLeafInfo list \<Rightarrow> bool" where
  "walk_ext es st st' \<longleftrightarrow> (\<exists>new. snd st' = snd st @ new \<and> fst st + length new \<le> fst st' \<and>
     (fst st \<le> length es \<longrightarrow> fst st' \<le> length es) \<and>
     (\<forall>l \<in> set new. leaf_sc l \<in> set es \<and> num_children (leaf_sc l) = 0 \<and> max_rep l \<le> max_def l))"

definition walk_fine :: "PqSchemaCol list \<Rightarrow> nat \<times> PqLeafInfo list \<Rightarrow> (bool \<times> nat \<times> PqLeafInfo list) result \<Rightarrow> bool" where
  "walk_fine es st x = (case x of Inl e \<Rightarrow> e = stack_error | Inr (ok, st') \<Rightarrow> walk_ext es st st')"

lemma walk_ext_refl [simp]: "walk_ext es st st"
  by (simp add: walk_ext_def)

lemma walk_ext_trans: "walk_ext es a b \<Longrightarrow> walk_ext es b c \<Longrightarrow> walk_ext es a c"
  unfolding walk_ext_def by (elim exE conjE, rule_tac x = "new @ newa" in exI) auto

lemma walk_children_fine:
  assumes "\<And>st. walk_fine es st (f st)"
  shows "walk_fine es st (walk_children f n st)"
proof (induction n arbitrary: st)
  case (Suc n)
  show ?case
  proof (cases "f st")
    case (Inr p)
    obtain ok st1 where p: "p = (ok, st1)" by (cases p) blast
    from assms[of st] Inr p have "walk_ext es st st1" by (simp add: walk_fine_def)
    with Suc.IH[of st1] Inr p show ?thesis
      by (cases "walk_children f n st1") (auto simp: walk_fine_def intro: walk_ext_trans)
  qed (use assms[of st] in \<open>simp add: walk_fine_def\<close>)
qed (simp add: walk_fine_def)

lemma walk_schema_fine: "rep \<le> df \<Longrightarrow> walk_fine es st (walk_schema fr es df rep depth st)"
proof (induction fr arbitrary: df rep depth st)
  case (Suc fr)
  obtain c lvs where st: "st = (c, lvs)" by fastforce
  show ?case
  proof (cases "c < length es")
    case True
    let ?e = "es ! c"
    let ?d = "df + (if repetition ?e = 1 then 1 else 0) + (if repetition ?e = 2 then 1 else 0)"
    let ?r = "rep + (if repetition ?e = 2 then 1 else 0)"
    have le: "?r \<le> ?d" using Suc.prems by simp
    have step: "walk_ext es (c, lvs) (Suc c, lvs)" using True by (simp add: walk_ext_def)
    have "walk_fine es (Suc c, lvs) (walk_children (walk_schema fr es ?d ?r (Suc depth)) (nat (num_children ?e)) (Suc c, lvs))"
      by (rule walk_children_fine, rule Suc.IH[OF le])
    then have "walk_fine es (c, lvs) (walk_children (walk_schema fr es ?d ?r (Suc depth)) (nat (num_children ?e)) (Suc c, lvs))"
      using walk_ext_trans[OF step] by (auto simp: walk_fine_def split: sum.splits)
    then show ?thesis
      using True le by (auto simp: st Let_def walk_fine_def walk_ext_def)
  qed (simp add: st walk_fine_def)
qed (simp add: walk_fine_def)

subsection \<open>Accepted footers\<close>

text \<open>What an accepted footer guarantees to the code that reads values through it.\<close>

definition file_wf :: "byte list \<Rightarrow> PqFile \<Rightarrow> bool" where
  "file_wf buf pf \<longleftrightarrow>
     elems pf \<noteq> [] \<and> (\<forall>e \<in> set (elems pf). col_name e \<noteq> None \<and> 0 \<le> num_children e) \<and>
     ncols pf = length (leaves pf) \<and> 0 < ncols pf \<and> ncols pf < length (elems pf) \<and>
     (\<forall>l \<in> set (leaves pf). leaf_sc l \<in> set (elems pf) \<and> num_children (leaf_sc l) = 0 \<and> max_rep l \<le> max_def l) \<and>
     (\<forall>g \<in> set (rgs pf). \<forall>cs. chunks g = Some cs \<longrightarrow> length cs = nchunks g \<and>
        (\<forall>ch \<in> set cs.
           (has_min ch \<longrightarrow> (\<exists>p. stat_min ch = Some p \<and> p + unat (stat_min_len ch) \<le> length buf)) \<and>
           (has_max ch \<longrightarrow> (\<exists>p. stat_max ch = Some p \<and> p + unat (stat_max_len ch) \<le> length buf))))"

lemma find_index_None_iff: "find_index P xs = None \<longleftrightarrow> (\<forall>x \<in> set xs. \<not> P x)"
proof -
  have "length (takeWhile (\<lambda>x. \<not> P x) xs) < length xs \<longleftrightarrow> (\<exists>x \<in> set xs. P x)" by (induction xs) auto
  then show ?thesis by (auto simp: find_index_def Let_def)
qed

lemma finish_file_wf:
  assumes "finish_file_metadata d pf r = Inr (True, pf')" and "file_in buf pf"
  shows "file_wf buf pf'"
proof -
  let ?n = "nat (num_children (hd (elems pf)))"
  have ne: "elems pf \<noteq> []" "\<forall>e \<in> set (elems pf). col_name e \<noteq> None"
    and fi: "find_index (\<lambda>e. num_children e < 0) (elems pf) = None"
    using assms(1) by (auto simp: finish_file_metadata_def split: if_splits option.splits)
  obtain c lvs where w: "walk_children (walk_schema d (elems pf) 0 0 1) ?n (1, []) = Inr (True, c, lvs)" and l: "lvs \<noteq> []"
    and pf': "pf' = pf\<lparr>ntop := num_children (hd (elems pf)), ncols := length lvs, leaves := lvs\<rparr>"
    using assms(1) ne fi
    by (auto simp: finish_file_metadata_def Let_def res_bind_Inr split: if_splits)
  have "walk_fine (elems pf) (1, []) (Inr (True, c, lvs))"
    unfolding w[symmetric] by (rule walk_children_fine, rule walk_schema_fine) simp
  then have x: "walk_ext (elems pf) (1, []) (c, lvs)" by (simp add: walk_fine_def)
  have "1 \<le> length (elems pf)" using ne(1) by (cases "elems pf") auto
  with x have len: "length lvs < length (elems pf)"
    and lv: "\<forall>l \<in> set lvs. leaf_sc l \<in> set (elems pf) \<and> num_children (leaf_sc l) = 0 \<and> max_rep l \<le> max_def l"
    by (auto simp: walk_ext_def)
  have "\<forall>e \<in> set (elems pf). 0 \<le> num_children e" using fi by (auto simp: find_index_None_iff not_less)
  then show ?thesis
    using ne len lv l assms(2) by (auto simp: file_wf_def pf' file_in_def group_in_def chunk_in_def stat_in_def)
qed

text \<open>
  The skip of a histogram's elements in \<open>parse_size_statistics\<close> calls \<open>PgColumnarThriftSkip\<close> and not
  the skip of an element, so a list of bools takes no bytes: the bool bytes that follow the list
  header are read as field headers. Here a well-formed \<open>SizeStatistics\<close> with a field 2 that is a
  list of one bool, then the end of the struct and two more bytes. The value is \<open>skip_reads\<close>'s
  \<open>TV_struct [(2, TV_list TC_BOOL_TRUE [TV_bool True])]\<close>, which a skip steps over exactly; the
  parser reads its bool as a field header and takes a byte behind the struct as its end.
\<close>

lemma size_statistics_bool_list_desync:
  "PgColumnarThriftSkip 4 \<lparr>tc_buf = [0x29, 0x11, 1, 0, 0, 0], tc_pos = 0, tc_error = False\<rparr> TC_STRUCT =
     Inr \<lparr>tc_buf = [0x29, 0x11, 1, 0, 0, 0], tc_pos = 4, tc_error = False\<rparr> \<and>
   map_sum id (\<lambda>(ch, r). (rep_hist_len ch, tc_pos r, tc_error r))
     (parse_size_statistics 4 chunk_zero \<lparr>tc_buf = [0x29, 0x11, 1, 0, 0, 0], tc_pos = 0, tc_error = False\<rparr>) =
     Inr (1, 5, False)"
  by code_simp

end
