(* ===== verification/Parquet_Writer.thy ===== *)
theory Parquet_Writer
  imports Parquet_Meta Encoding_Alp
begin

section \<open>Writing a Parquet file\<close>

text \<open>
  \<open>src/columnar_parquet.c\<close>: the statistics accumulators, the Dremel shredding of a row into
  leaf entries, the page bodies, the page header, the footer and the row-group flush. The
  records are the source's structs. A \<open>StringInfo\<close> is the list of its bytes, a C string the list
  of its bytes without the terminator, an \<open>int64\<close> counter or bound the word of its bits. A
  \<open>Datum\<close> is \<open>pq_datum\<close>: the word of a by-value type, the bytes of a \<open>uuid\<close> or of a varlena's
  payload, the text that the output function of a \<open>numeric\<close> or \<open>jsonb\<close> gives, an array (its
  number of dimensions and its elements) or a composite of those. A \<open>float8\<close> is its 64-bit
  pattern; conversions between the two float widths are the \<open>fpu\<close>'s. The queue of a row's texts
  holds what the output function would return again, so it is not part of the state.
\<close>

datatype ParquetKind =
    P_INT16 | P_INT32 | P_INT64 | P_FLOAT | P_DOUBLE | P_BOOL | P_UTF8 | P_BINARY
  | P_DATE | P_TIME | P_TIMESTAMP | P_UUID | P_DECIMAL

datatype pq_datum =
    D_word u64
  | D_bytes "byte list"
  | D_text "byte list"
  | D_array nat "pq_datum option list"
  | D_row "pq_datum option list"

record PqStats =
  hasBounds :: bool
  st_nulls :: u64
  st_nans :: u64
  iMin :: u64
  iMax :: u64
  fMin :: u64
  fMax :: u64

record PqLeaf =
  lf_path :: "byte list list"
  lf_kind :: ParquetKind
  ptype :: int
  convType :: int
  tsAdjusted :: int
  typeLength :: int
  lf_precision :: int
  lf_scale :: int
  convertText :: bool
  lf_max_def :: nat
  lf_max_rep :: nat
  lf_defs :: "byte list"
  lf_reps :: "byte list"
  lf_values :: "byte list"
  boolbits :: "byte list"
  nEntries :: nat
  lf_st :: PqStats

datatype TopKind = TOP_SCALAR | TOP_LIST | TOP_STRUCT

text \<open>\<open>st_fields\<close>: per attribute of \<open>structDesc\<close>, its name and its leaf, \<open>None\<close> when dropped.\<close>

record TopColumn =
  tc_name :: "byte list"
  tkind :: TopKind
  firstLeaf :: nat
  top_nleaves :: nat
  st_fields :: "(byte list \<times> nat option) list"

record PqColMeta =
  dataPageOffset :: u64
  totalSize :: u64
  numValues :: u64
  cm_st :: PqStats

record PqOutGroup =
  og_cols :: "PqColMeta list"
  totalByteSize :: u64
  og_numRows :: u64

subsection \<open>Statistics\<close>

definition pqstats_reset :: PqStats where
  "pqstats_reset = \<lparr>hasBounds = False, st_nulls = 0, st_nans = 0, iMin = 0, iMax = 0, fMin = 0, fMax = 0\<rparr>"

definition pqstats_int :: "PqStats \<Rightarrow> u64 \<Rightarrow> PqStats" where
  "pqstats_int st v =
     (if \<not> hasBounds st then st\<lparr>iMin := v, iMax := v, hasBounds := True\<rparr>
      else let st = (if v <s iMin st then st\<lparr>iMin := v\<rparr> else st)
           in if iMax st <s v then st\<lparr>iMax := v\<rparr> else st)"

text \<open>The double behind a bit pattern, as far as comparisons see it: NaN or a signed magnitude.\<close>

definition f8_isnan :: "u64 \<Rightarrow> bool" where
  "f8_isnan x \<longleftrightarrow> take_bit 63 x > 0x7ff0000000000000"

definition f8_key :: "u64 \<Rightarrow> int" where
  "f8_key x = (if bit x 63 then - uint (take_bit 63 x) else uint (take_bit 63 x))"

definition f8_less :: "u64 \<Rightarrow> u64 \<Rightarrow> bool" where
  "f8_less x y \<longleftrightarrow> \<not> f8_isnan x \<and> \<not> f8_isnan y \<and> f8_key x < f8_key y"

definition pqstats_float :: "PqStats \<Rightarrow> u64 \<Rightarrow> PqStats" where
  "pqstats_float st v =
     (if f8_isnan v then st\<lparr>st_nans := st_nans st + 1\<rparr>
      else if \<not> hasBounds st then st\<lparr>fMin := v, fMax := v, hasBounds := True\<rparr>
      else let st = (if f8_less v (fMin st) then st\<lparr>fMin := v\<rparr> else st)
           in if f8_less (fMax st) v then st\<lparr>fMax := v\<rparr> else st)"

definition pqleaf_reset :: "PqLeaf \<Rightarrow> PqLeaf" where
  "pqleaf_reset c = c\<lparr>lf_defs := [], lf_reps := [], lf_values := [], boolbits := [], lf_st := pqstats_reset, nEntries := 0\<rparr>"

subsection \<open>Leaf values\<close>

text \<open>
  \<open>numeric_to_int128\<close> on the text of the value. An \<open>__int128\<close> is an \<open>int\<close> that wraps at 128 bits.
\<close>

definition wrap128 :: "int \<Rightarrow> int" where
  "wrap128 x = signed_take_bit 127 x"

definition trunc_div10 :: "int \<Rightarrow> int" where
  "trunc_div10 x = (if x \<ge> 0 then x div 10 else - ((- x) div 10))"

primrec numeric_digits :: "byte list \<Rightarrow> bool \<Rightarrow> nat \<Rightarrow> int \<Rightarrow> (nat \<times> int) option" where
  "numeric_digits [] seenDot frac acc = Some (frac, acc)"
| "numeric_digits (c # cs) seenDot frac acc =
     (if c = 46 then numeric_digits cs True frac acc
      else if c < 48 \<or> c > 57 then None
      else numeric_digits cs seenDot (if seenDot then Suc frac else frac)
             (wrap128 (wrap128 (acc * 10) + (uint c - 48))))"

definition numeric_to_int128 :: "byte list \<Rightarrow> nat \<Rightarrow> int option" where
  "numeric_to_int128 txt sc =
     (let (neg, p) = (case txt of c # cs \<Rightarrow> if c = 45 then (True, cs) else if c = 43 then (False, cs) else (False, txt)
                      | [] \<Rightarrow> (False, []))
      in case numeric_digits p False 0 0 of
           None \<Rightarrow> None
         | Some (frac, acc) \<Rightarrow>
             let acc = ((\<lambda>a. wrap128 (a * 10)) ^^ (sc - frac)) acc;
                 acc = (trunc_div10 ^^ (frac - sc)) acc
             in Some (if neg then wrap128 (- acc) else acc))"

definition PG_TO_UNIX_DAYS :: u64 where "PG_TO_UNIX_DAYS = 10957"
definition PG_TO_UNIX_USECS :: u64 where "PG_TO_UNIX_USECS = 10957 * 86400000000"

text \<open>The infinities of \<open>date\<close> (\<open>INT32_MIN\<close>, \<open>INT32_MAX\<close>) and of \<open>timestamp\<close> (\<open>INT64_MIN\<close>, \<open>INT64_MAX\<close>).\<close>

definition leaf_value_representable :: "PqLeaf \<Rightarrow> pq_datum \<Rightarrow> bool" where
  "leaf_value_representable c d =
     (case (lf_kind c, d) of
        (P_DATE, D_word w) \<Rightarrow> (ucast w :: u32) \<noteq> 0x80000000 \<and> (ucast w :: u32) \<noteq> 0x7fffffff
      | (P_TIMESTAMP, D_word w) \<Rightarrow> w \<noteq> 0x8000000000000000 \<and> w \<noteq> 0x7fffffffffffffff
      | (P_DECIMAL, D_text txt) \<Rightarrow> numeric_to_int128 txt (nat (lf_scale c)) \<noteq> None
      | _ \<Rightarrow> True)"

definition leaf_bytes :: "byte list \<Rightarrow> PqLeaf \<Rightarrow> PqLeaf" where
  "leaf_bytes bs c = c\<lparr>lf_values := lf_values c @ bs\<rparr>"

definition put_i32 :: "u32 \<Rightarrow> PqLeaf \<Rightarrow> PqLeaf" where
  "put_i32 v c = (leaf_bytes (le_bytes 4 (ucast v)) c)\<lparr>lf_st := pqstats_int (lf_st c) (scast v)\<rparr>"

definition put_i64 :: "u64 \<Rightarrow> PqLeaf \<Rightarrow> PqLeaf" where
  "put_i64 v c = (leaf_bytes (le_bytes 8 v) c)\<lparr>lf_st := pqstats_int (lf_st c) v\<rparr>"

text \<open>A text or binary value: its length as four bytes, then the bytes.\<close>

definition put_varlen :: "byte list \<Rightarrow> PqLeaf \<Rightarrow> PqLeaf" where
  "put_varlen bs c = leaf_bytes (le_bytes 4 (of_nat (length bs)) @ bs) c"

text \<open>
  \<open>write_leaf_value\<close>. The \<open>switch\<close> reads the datum as the type of the leaf's column, which the
  executor guarantees; a datum of another shape leaves the leaf as it is.
\<close>

definition write_leaf_value :: "fpu \<Rightarrow> PqLeaf \<Rightarrow> pq_datum \<Rightarrow> PqLeaf" where
  "write_leaf_value F c d =
     (case (lf_kind c, d) of
        (P_INT16, D_word w) \<Rightarrow> put_i32 (scast (ucast w :: u16)) c
      | (P_INT32, D_word w) \<Rightarrow> put_i32 (ucast w) c
      | (P_INT64, D_word w) \<Rightarrow> put_i64 w c
      | (P_FLOAT, D_word w) \<Rightarrow>
          (leaf_bytes (le_bytes 4 w) c)\<lparr>lf_st := pqstats_float (lf_st c) (fp_of_float F (ucast w))\<rparr>
      | (P_DOUBLE, D_word w) \<Rightarrow> (leaf_bytes (le_bytes 8 w) c)\<lparr>lf_st := pqstats_float (lf_st c) w\<rparr>
      | (P_DATE, D_word w) \<Rightarrow> put_i32 (ucast (scast (ucast w :: u32) + PG_TO_UNIX_DAYS)) c
      | (P_TIME, D_word w) \<Rightarrow> put_i64 w c
      | (P_TIMESTAMP, D_word w) \<Rightarrow> put_i64 (w + PG_TO_UNIX_USECS) c
      | (P_UUID, D_bytes bs) \<Rightarrow> leaf_bytes bs c
      | (P_DECIMAL, D_text txt) \<Rightarrow>
          (case numeric_to_int128 txt (nat (lf_scale c)) of
             None \<Rightarrow> c
           | Some dec \<Rightarrow> leaf_bytes (rev (le_bytes 8 (word_of_int dec) @ le_bytes 8 (word_of_int (dec div 2 ^ 64)))) c)
      | (P_BOOL, D_word w) \<Rightarrow> c\<lparr>boolbits := boolbits c @ [if w \<noteq> 0 then 1 else 0]\<rparr>
      | (P_UTF8, D_text txt) \<Rightarrow> if convertText c then put_varlen txt c else c
      | (P_UTF8, D_bytes bs) \<Rightarrow> if convertText c then c else put_varlen bs c
      | (P_BINARY, D_bytes bs) \<Rightarrow> put_varlen bs c
      | _ \<Rightarrow> c)"

definition leaf_entry :: "fpu \<Rightarrow> PqLeaf \<Rightarrow> nat \<Rightarrow> nat \<Rightarrow> pq_datum option \<Rightarrow> PqLeaf" where
  "leaf_entry F c df rep v =
     (let (v, df) = (case v of
            Some d \<Rightarrow> if leaf_value_representable c d then (Some d, df) else (None, lf_max_def c - 1)
          | None \<Rightarrow> (None, df));
          c = c\<lparr>lf_defs := lf_defs c @ [of_nat df]\<rparr>;
          c = (if lf_max_rep c > 0 then c\<lparr>lf_reps := lf_reps c @ [of_nat rep]\<rparr> else c);
          c = c\<lparr>nEntries := nEntries c + 1\<rparr>
      in case v of
           Some d \<Rightarrow> write_leaf_value F c d
         | None \<Rightarrow> c\<lparr>lf_st := (lf_st c)\<lparr>st_nulls := st_nulls (lf_st c) + 1\<rparr>\<rparr>)"

definition upd_leaf :: "nat \<Rightarrow> (PqLeaf \<Rightarrow> PqLeaf) \<Rightarrow> PqLeaf list \<Rightarrow> PqLeaf list" where
  "upd_leaf i f ls = ls[i := f (ls ! i)]"

text \<open>The elements of a list: the first has repetition level 0.\<close>

definition list_entries :: "fpu \<Rightarrow> pq_datum option list \<Rightarrow> PqLeaf \<Rightarrow> PqLeaf" where
  "list_entries F vs c =
     fold (\<lambda>k c. case vs ! k of
              None \<Rightarrow> leaf_entry F c 2 (if k = 0 then 0 else 1) None
            | Some d \<Rightarrow> leaf_entry F c 3 (if k = 0 then 0 else 1) (Some d)) [0..<length vs] c"

primrec struct_entries :: "fpu \<Rightarrow> (byte list \<times> nat option) list \<Rightarrow> pq_datum option list option \<Rightarrow>
    nat \<Rightarrow> PqLeaf list \<Rightarrow> PqLeaf list" where
  "struct_entries F [] vs a ls = ls"
| "struct_entries F (f # fs) vs a ls =
     struct_entries F fs vs (Suc a)
       (case snd f of
          None \<Rightarrow> ls
        | Some li \<Rightarrow>
            (case vs of
               None \<Rightarrow> upd_leaf li (\<lambda>c. leaf_entry F c 0 0 None) ls
             | Some vs \<Rightarrow>
                 (case vs ! a of
                    None \<Rightarrow> upd_leaf li (\<lambda>c. leaf_entry F c 1 0 None) ls
                  | Some d \<Rightarrow> upd_leaf li (\<lambda>c. leaf_entry F c 2 0 (Some d)) ls)))"

definition shred_top :: "fpu \<Rightarrow> TopColumn \<Rightarrow> PqLeaf list \<Rightarrow> pq_datum option \<Rightarrow> PqLeaf list result" where
  "shred_top F tc ls v =
     (case tkind tc of
        TOP_SCALAR \<Rightarrow> Inr (upd_leaf (firstLeaf tc) (\<lambda>c. leaf_entry F c (if v = None then 0 else 1) 0 v) ls)
      | TOP_LIST \<Rightarrow>
          (case v of
             None \<Rightarrow> Inr (upd_leaf (firstLeaf tc) (\<lambda>c. leaf_entry F c 0 0 None) ls)
           | Some (D_array ndim vs) \<Rightarrow>
               if ndim > 1 then Inl (Corrupt ''columnar.export_parquet does not support multi-dimensional arrays'')
               else if vs = [] then Inr (upd_leaf (firstLeaf tc) (\<lambda>c. leaf_entry F c 1 0 None) ls)
               else Inr (upd_leaf (firstLeaf tc) (list_entries F vs) ls)
           | Some _ \<Rightarrow> Inr ls)
      | TOP_STRUCT \<Rightarrow>
          Inr (struct_entries F (st_fields tc) (case v of Some (D_row vs) \<Rightarrow> Some vs | _ \<Rightarrow> None) 0 ls))"

subsection \<open>Pages\<close>

text \<open>\<open>pq_bits_for\<close>: the loop runs to 31, which is its bound in the source.\<close>

definition pq_bits_for :: "nat \<Rightarrow> nat" where
  "pq_bits_for maxval =
     (if maxval = 0 then 0 else length (takeWhile (\<lambda>b. 2 ^ b \<le> maxval) [0..<31]))"

definition set_packed_bit :: "nat \<Rightarrow> byte list \<Rightarrow> byte list" where
  "set_packed_bit p bs = bs[p div 8 := bs ! (p div 8) OR push_bit (p mod 8) 1]"

definition pack_levels :: "byte list \<Rightarrow> nat \<Rightarrow> nat \<Rightarrow> byte list" where
  "pack_levels levels n bw =
     fold (\<lambda>i packed.
        fold (\<lambda>b packed. if bit (levels ! i) b then set_packed_bit (i * bw + b) packed else packed)
          [0..<bw] packed) [0..<n] (replicate ((n + 7) div 8 * bw) 0)"

definition build_rle_levels :: "byte list \<Rightarrow> byte list \<Rightarrow> nat \<Rightarrow> nat \<Rightarrow> byte list" where
  "build_rle_levels out levels n bw =
     (let h = PgColumnarThriftPutVarint [] (push_bit 1 (of_nat ((n + 7) div 8)) OR 1) @ pack_levels levels n bw
      in out @ le_bytes 4 (of_nat (length h)) @ h)"

definition pack_bools :: "byte list \<Rightarrow> byte list" where
  "pack_bools bits =
     fold (\<lambda>i packed. if bits ! i \<noteq> 0 then set_packed_bit i packed else packed)
       [0..<length bits] (replicate ((length bits + 7) div 8) 0)"

definition build_values :: "byte list \<Rightarrow> PqLeaf \<Rightarrow> byte list" where
  "build_values out c = (if lf_kind c = P_BOOL then out @ pack_bools (boolbits c) else out @ lf_values c)"

definition build_leaf_body :: "PqLeaf \<Rightarrow> byte list" where
  "build_leaf_body c =
     (let body = (if lf_max_rep c > 0 then build_rle_levels [] (lf_reps c) (nEntries c) (pq_bits_for (lf_max_rep c)) else []);
          body = build_rle_levels body (lf_defs c) (nEntries c) (pq_bits_for (lf_max_def c))
      in build_values body c)"

definition write_page_header :: "byte list \<Rightarrow> nat \<Rightarrow> u32 \<Rightarrow> byte list" where
  "write_page_header out nrows body_size =
     (let out = PgColumnarThriftPutI32Field out 0 1 0;
          out = PgColumnarThriftPutI32Field out 1 2 body_size;
          out = PgColumnarThriftPutI32Field out 2 3 body_size;
          out = PgColumnarThriftPutField out 3 5 TC_STRUCT;
          out = PgColumnarThriftPutI32Field out 0 1 (of_nat nrows);
          out = PgColumnarThriftPutI32Field out 1 2 0;
          out = PgColumnarThriftPutI32Field out 2 3 3;
          out = PgColumnarThriftPutI32Field out 3 4 3;
          out = PgColumnarThriftPutStop out
      in PgColumnarThriftPutStop out)"

subsection \<open>The footer\<close>

definition write_schema_element_root :: "byte list \<Rightarrow> nat \<Rightarrow> byte list" where
  "write_schema_element_root b n =
     (let b = PgColumnarThriftPutStringField b 0 4 [115, 99, 104, 101, 109, 97];
          b = PgColumnarThriftPutI32Field b 4 5 (of_nat n)
      in PgColumnarThriftPutStop b)"

text \<open>The optional fields return the buffer with the last field id.\<close>

definition write_timestamp_type :: "byte list \<Rightarrow> int \<Rightarrow> int \<Rightarrow> byte list" where
  "write_timestamp_type b l adj =
     (let b = PgColumnarThriftPutField b l 10 TC_STRUCT;
          b = PgColumnarThriftPutField b 0 8 TC_STRUCT;
          b = PgColumnarThriftPutField b 0 1 (if adj \<noteq> 0 then TC_BOOL_TRUE else TC_BOOL_FALSE);
          b = PgColumnarThriftPutField b 1 2 TC_STRUCT;
          b = PgColumnarThriftPutField b 0 2 TC_STRUCT;
          b = PgColumnarThriftPutStop b;
          b = PgColumnarThriftPutStop b;
          b = PgColumnarThriftPutStop b
      in PgColumnarThriftPutStop b)"

definition write_schema_leaf :: "byte list \<Rightarrow> byte list \<Rightarrow> PqLeaf \<Rightarrow> int \<Rightarrow> byte list" where
  "write_schema_leaf b name leaf rep =
     (let b = PgColumnarThriftPutI32Field b 0 1 (word_of_int (ptype leaf));
          (b, l) = (if ptype leaf = 7
                    then (PgColumnarThriftPutI32Field b 1 2 (word_of_int (typeLength leaf)), 2) else (b, 1));
          b = PgColumnarThriftPutI32Field b l 3 (word_of_int rep);
          b = PgColumnarThriftPutStringField b 3 4 name;
          (b, l) = (if convType leaf \<ge> 0
                    then (PgColumnarThriftPutI32Field b 4 6 (word_of_int (convType leaf)), 6) else (b, 4));
          (b, l) = (if convType leaf = 5
                    then (PgColumnarThriftPutI32Field
                            (PgColumnarThriftPutI32Field b l 7 (word_of_int (lf_scale leaf)))
                            7 8 (word_of_int (lf_precision leaf)), 8) else (b, l));
          b = (if tsAdjusted leaf \<ge> 0 then write_timestamp_type b l (tsAdjusted leaf) else b)
      in PgColumnarThriftPutStop b)"

definition write_schema_group :: "byte list \<Rightarrow> byte list \<Rightarrow> int \<Rightarrow> nat \<Rightarrow> int \<Rightarrow> byte list" where
  "write_schema_group b name rep n conv =
     (let b = PgColumnarThriftPutI32Field b 0 3 (word_of_int rep);
          b = PgColumnarThriftPutStringField b 3 4 name;
          b = PgColumnarThriftPutI32Field b 4 5 (of_nat n);
          b = (if conv \<ge> 0 then PgColumnarThriftPutI32Field b 5 6 (word_of_int conv) else b)
      in PgColumnarThriftPutStop b)"

definition schema_count_for_top :: "TopColumn \<Rightarrow> nat" where
  "schema_count_for_top tc =
     (case tkind tc of TOP_LIST \<Rightarrow> 3 | TOP_STRUCT \<Rightarrow> 1 + top_nleaves tc | TOP_SCALAR \<Rightarrow> 1)"

definition write_top_schema :: "byte list \<Rightarrow> TopColumn \<Rightarrow> PqLeaf list \<Rightarrow> byte list" where
  "write_top_schema b tc ls =
     (case tkind tc of
        TOP_SCALAR \<Rightarrow> write_schema_leaf b (tc_name tc) (ls ! firstLeaf tc) 1
      | TOP_LIST \<Rightarrow>
          (let b = write_schema_group b (tc_name tc) 1 1 3;
               b = write_schema_group b [108, 105, 115, 116] 2 1 (-1)
           in write_schema_leaf b [101, 108, 101, 109, 101, 110, 116] (ls ! firstLeaf tc) 1)
      | TOP_STRUCT \<Rightarrow>
          fold (\<lambda>(name, li) b. case li of None \<Rightarrow> b | Some li \<Rightarrow> write_schema_leaf b name (ls ! li) 1)
            (st_fields tc) (write_schema_group b (tc_name tc) 1 (top_nleaves tc) (-1)))"

definition f8_zero_min :: "u64 \<Rightarrow> u64" where
  "f8_zero_min x = (if f8_key x = 0 then 0x8000000000000000 else x)"

definition f8_zero_max :: "u64 \<Rightarrow> u64" where
  "f8_zero_max x = (if f8_key x = 0 then 0 else x)"

text \<open>The bounds as written: \<open>(lo, hi)\<close> at the physical width.\<close>

definition stat_bounds :: "fpu \<Rightarrow> int \<Rightarrow> PqStats \<Rightarrow> byte list \<times> byte list" where
  "stat_bounds F ty st =
     (let isFloat = (ty = 4 \<or> ty = 5); wide = (ty = 2 \<or> ty = 5);
          lo = (if isFloat then f8_zero_min (fMin st) else iMin st);
          hi = (if isFloat then f8_zero_max (fMax st) else iMax st)
      in if wide then (le_bytes 8 lo, le_bytes 8 hi)
         else if isFloat then (le_bytes 4 (ucast (fp_to_float F lo)), le_bytes 4 (ucast (fp_to_float F hi)))
         else (le_bytes 4 lo, le_bytes 4 hi))"

definition write_statistics :: "fpu \<Rightarrow> byte list \<Rightarrow> PqLeaf \<Rightarrow> PqColMeta \<Rightarrow> byte list" where
  "write_statistics F b c m =
     (let isFloat = (ptype c = 4 \<or> ptype c = 5);
          ordered = (ptype c = 1 \<or> ptype c = 2 \<or> isFloat);
          b = PgColumnarThriftPutI64Field b 0 3 (st_nulls (cm_st m));
          (b, l) = (if ordered \<and> hasBounds (cm_st m)
                    then let (lo, hi) = stat_bounds F (ptype c) (cm_st m)
                         in (PgColumnarThriftPutStringField (PgColumnarThriftPutStringField b 3 5 hi) 5 6 lo, 6)
                    else (b, 3));
          b = (if isFloat then PgColumnarThriftPutI64Field b l 9 (st_nans (cm_st m)) else b)
      in PgColumnarThriftPutStop b)"

definition write_column_chunk :: "fpu \<Rightarrow> byte list \<Rightarrow> PqLeaf \<Rightarrow> PqColMeta \<Rightarrow> byte list" where
  "write_column_chunk F b c m =
     (let b = PgColumnarThriftPutI64Field b 0 2 (dataPageOffset m);
          b = PgColumnarThriftPutField b 2 3 TC_STRUCT;
          b = PgColumnarThriftPutI32Field b 0 1 (word_of_int (ptype c));
          b = PgColumnarThriftPutField b 1 2 TC_LIST;
          b = PgColumnarThriftPutListHeader b 2 TC_I32;
          b = PgColumnarThriftPutZigzag32 b 0;
          b = PgColumnarThriftPutZigzag32 b 3;
          b = PgColumnarThriftPutField b 2 3 TC_LIST;
          b = PgColumnarThriftPutListHeader b (length (lf_path c)) TC_BINARY;
          b = fold (\<lambda>p b. PgColumnarThriftPutVarint b (of_nat (length p)) @ p) (lf_path c) b;
          b = PgColumnarThriftPutI32Field b 3 4 0;
          b = PgColumnarThriftPutI64Field b 4 5 (numValues m);
          b = PgColumnarThriftPutI64Field b 5 6 (totalSize m);
          b = PgColumnarThriftPutI64Field b 6 7 (totalSize m);
          b = PgColumnarThriftPutI64Field b 7 9 (dataPageOffset m);
          b = PgColumnarThriftPutField b 9 12 TC_STRUCT;
          b = write_statistics F b c m;
          b = PgColumnarThriftPutStop b
      in PgColumnarThriftPutStop b)"

definition write_row_group :: "fpu \<Rightarrow> byte list \<Rightarrow> PqLeaf list \<Rightarrow> PqOutGroup \<Rightarrow> byte list" where
  "write_row_group F b ls rg =
     (let b = PgColumnarThriftPutField b 0 1 TC_LIST;
          b = PgColumnarThriftPutListHeader b (length ls) TC_STRUCT;
          b = fold (\<lambda>i b. write_column_chunk F b (ls ! i) (og_cols rg ! i)) [0..<length ls] b;
          b = PgColumnarThriftPutI64Field b 1 2 (totalByteSize rg);
          b = PgColumnarThriftPutI64Field b 2 3 (og_numRows rg)
      in PgColumnarThriftPutStop b)"

text \<open>The footer block of \<open>PgColumnarWriteParquetFileWith\<close>.\<close>

definition write_file_metadata :: "fpu \<Rightarrow> TopColumn list \<Rightarrow> PqLeaf list \<Rightarrow> u64 \<Rightarrow> PqOutGroup list \<Rightarrow> byte list" where
  "write_file_metadata F tops ls rows gs =
     (let nschema = 1 + sum_list (map schema_count_for_top tops);
          b = PgColumnarThriftPutI32Field [] 0 1 1;
          b = PgColumnarThriftPutField b 1 2 TC_LIST;
          b = PgColumnarThriftPutListHeader b nschema TC_STRUCT;
          b = write_schema_element_root b (length tops);
          b = fold (\<lambda>tc b. write_top_schema b tc ls) tops b;
          b = PgColumnarThriftPutI64Field b 2 3 rows;
          b = PgColumnarThriftPutField b 3 4 TC_LIST;
          b = PgColumnarThriftPutListHeader b (length gs) TC_STRUCT;
          b = fold (\<lambda>rg b. write_row_group F b ls rg) gs b;
          b = PgColumnarThriftPutStringField b 4 6 [112, 103, 67, 111, 108, 117, 109, 110, 97, 114];
          b = PgColumnarThriftPutField b 6 7 TC_LIST;
          b = PgColumnarThriftPutListHeader b (length ls) TC_STRUCT;
          b = fold (\<lambda>_ b. PgColumnarThriftPutStop (PgColumnarThriftPutStop (PgColumnarThriftPutField b 0 1 TC_STRUCT))) ls b
      in PgColumnarThriftPutStop b)"

subsection \<open>Leaves of a table\<close>

text \<open>
  The type of a column as the catalog describes it: a scalar (its type and typmod), an array of
  an element type, or a composite, per attribute its name and its type, \<open>None\<close> for a dropped one.
  An attribute of a table is its name with its type, \<open>None\<close> when it is dropped.
\<close>

datatype pq_type = T_scalar nat int | T_array nat | T_composite "(byte list \<times> (nat \<times> int) option) list"

record kind_info =
  k_kind :: ParquetKind
  k_ptype :: int
  k_conv :: int
  k_len :: int
  k_precision :: int
  k_scale :: int

definition kind :: "ParquetKind \<Rightarrow> int \<Rightarrow> int \<Rightarrow> kind_info" where
  "kind k p c = \<lparr>k_kind = k, k_ptype = p, k_conv = c, k_len = 0, k_precision = 0, k_scale = 0\<rparr>"

text \<open>
  The \<open>switch\<close> on the type oid: int2, int4, int8, float4, float8, bool, text and varchar and json
  and jsonb, bytea, date, time, timestamp, timestamptz, uuid, numeric.
\<close>

definition parquet_kind_for_type :: "nat \<Rightarrow> int \<Rightarrow> kind_info" where
  "parquet_kind_for_type typid typmod =
     (if typid = 21 then kind P_INT16 1 16
      else if typid = 23 then kind P_INT32 1 (-1)
      else if typid = 20 then kind P_INT64 2 (-1)
      else if typid = 700 then kind P_FLOAT 4 (-1)
      else if typid = 701 then kind P_DOUBLE 5 (-1)
      else if typid = 16 then kind P_BOOL 0 (-1)
      else if typid = 25 \<or> typid = 1043 \<or> typid = 114 \<or> typid = 3802 then kind P_UTF8 6 0
      else if typid = 17 then kind P_BINARY 6 (-1)
      else if typid = 1082 then kind P_DATE 1 6
      else if typid = 1083 then kind P_TIME 2 8
      else if typid = 1114 then kind P_TIMESTAMP 2 (-1)
      else if typid = 1184 then kind P_TIMESTAMP 2 10
      else if typid = 2950 then (kind P_UUID 7 (-1))\<lparr>k_len := 16\<rparr>
      else if typid = 1700 then
        (let tmp = typmod - 4; p = (tmp div 65536) mod 65536; s = tmp mod 65536
         in if typmod \<ge> 4 \<and> p \<ge> 1 \<and> p \<le> 38 \<and> s \<ge> 0 \<and> s \<le> p
            then (kind P_DECIMAL 7 5)\<lparr>k_len := 16, k_precision := p, k_scale := s\<rparr>
            else kind P_UTF8 6 0)
      else kind P_INT32 (-1) (-1))"

definition build_leaf_scalar :: "byte list list \<Rightarrow> nat \<Rightarrow> int \<Rightarrow> nat \<Rightarrow> nat \<Rightarrow> PqLeaf option" where
  "build_leaf_scalar path typid typmod df rep =
     (let k = parquet_kind_for_type typid typmod
      in if k_ptype k < 0 then None
         else Some \<lparr>lf_path = path, lf_kind = k_kind k, ptype = k_ptype k, convType = k_conv k,
           tsAdjusted = (if k_kind k = P_TIMESTAMP then (if typid = 1184 then 1 else 0) else -1),
           typeLength = k_len k, lf_precision = k_precision k, lf_scale = k_scale k,
           convertText = (k_kind k = P_UTF8 \<and> (typid = 1700 \<or> typid = 3802)),
           lf_max_def = df, lf_max_rep = rep, lf_defs = [], lf_reps = [], lf_values = [], boolbits = [],
           nEntries = 0, lf_st = pqstats_reset\<rparr>)"

text \<open>The fields of a composite: the leaves so far, and the field table.\<close>

primrec build_fields :: "byte list \<Rightarrow> (byte list \<times> (nat \<times> int) option) list \<Rightarrow> PqLeaf list \<Rightarrow>
    ((byte list \<times> nat option) list \<times> PqLeaf list) option" where
  "build_fields tname [] ls = Some ([], ls)"
| "build_fields tname (f # fs) ls =
     (case snd f of
        None \<Rightarrow> map_option (\<lambda>(tbl, ls). ((fst f, None) # tbl, ls)) (build_fields tname fs ls)
      | Some (typid, typmod) \<Rightarrow>
          (case build_leaf_scalar [tname, fst f] typid typmod 2 0 of
             None \<Rightarrow> None
           | Some leaf \<Rightarrow>
               map_option (\<lambda>(tbl, ls'). ((fst f, Some (length ls)) # tbl, ls')) (build_fields tname fs (ls @ [leaf]))))"

definition live_fields :: "(byte list \<times> 'a option) list \<Rightarrow> nat" where
  "live_fields fs = length (filter (\<lambda>f. snd f \<noteq> None) fs)"

definition build_top_column :: "byte list \<Rightarrow> pq_type \<Rightarrow> PqLeaf list \<Rightarrow> (TopColumn \<times> PqLeaf list) option" where
  "build_top_column name ty ls =
     (case ty of
        T_array et \<Rightarrow>
          map_option (\<lambda>leaf. (\<lparr>tc_name = name, tkind = TOP_LIST, firstLeaf = length ls, top_nleaves = 1, st_fields = []\<rparr>,
                              ls @ [leaf]))
            (build_leaf_scalar [name, [108, 105, 115, 116], [101, 108, 101, 109, 101, 110, 116]] et (-1) 3 1)
      | T_composite fs \<Rightarrow>
          map_option (\<lambda>(tbl, ls'). (\<lparr>tc_name = name, tkind = TOP_STRUCT, firstLeaf = length ls,
                                     top_nleaves = live_fields tbl, st_fields = tbl\<rparr>, ls'))
            (build_fields name fs ls)
      | T_scalar typid typmod \<Rightarrow>
          map_option (\<lambda>leaf. (\<lparr>tc_name = name, tkind = TOP_SCALAR, firstLeaf = length ls, top_nleaves = 1, st_fields = []\<rparr>,
                              ls @ [leaf]))
            (build_leaf_scalar [name] typid typmod 1 0))"

text \<open>The set-up of \<open>PgColumnarWriteParquetFileWith\<close>; \<open>PgColumnarParquetCheckExportable\<close> runs the same and discards it.\<close>

primrec build_tops :: "(byte list \<times> pq_type) list \<Rightarrow> PqLeaf list \<Rightarrow> (TopColumn list \<times> PqLeaf list) result" where
  "build_tops [] ls = Inr ([], ls)"
| "build_tops (a # as) ls =
     (case build_top_column (fst a) (snd a) ls of
        None \<Rightarrow> Inl (Corrupt ''column has a type which columnar parquet export does not support'')
      | Some (tc, ls) \<Rightarrow> res_bind (build_tops as ls) (\<lambda>(tcs, ls). Inr (tc # tcs, ls)))"

definition build_columns :: "(byte list \<times> pq_type option) list \<Rightarrow> (TopColumn list \<times> PqLeaf list) result" where
  "build_columns atts =
     (if \<exists>a \<in> set atts. snd a = None
      then Inl (Corrupt ''columnar parquet export does not support dropped columns'')
      else build_tops (map (\<lambda>a. (fst a, the (snd a))) atts) [])"

definition PgColumnarParquetCheckExportable :: "(byte list \<times> pq_type option) list \<Rightarrow> unit result" where
  "PgColumnarParquetCheckExportable atts = res_bind (build_columns atts) (\<lambda>_. Inr ())"

end
