(* ===== verification/Parquet_Roundtrip.thy ===== *)
theory Parquet_Roundtrip
  imports Parquet_Writer
begin

section \<open>A written footer is read back\<close>

text \<open>
  The writers of \<open>Parquet_Writer\<close> against the parsers of \<open>Parquet_Meta\<close>: the footer and the page
  header that the exporter writes, read by the importer's parsers.
\<close>

lemma tc_int_reads [tc_read]: "tc_int (tc_on pre (tc_zigzag32 v @ rest)) = (sint v, tc_on (pre @ tc_zigzag32 v) rest)"
  by (simp add: tc_int_def tc_read)

lemma sint_scast_32 [simp]: "sint (scast (v :: u32) :: u64) = sint v"
proof -
  have "- (2 ^ 31) \<le> sint v" "sint v < 2 ^ 31" using sint_greater_eq[of v] sint_less[of v] by simp_all
  then have "signed_take_bit 63 (sint v) = sint v" by (intro signed_take_bit_int_eq_self) simp_all
  then show ?thesis by (simp add: signed_scast_eq)
qed

lemma tc_int64_reads [tc_read]: "tc_int64 (tc_on pre (tc_zigzag64 v @ rest)) = (sint v, tc_on (pre @ tc_zigzag64 v) rest)"
  "tc_int64 (tc_on pre (tc_zigzag32 w @ rest)) = (sint w, tc_on (pre @ tc_zigzag32 w) rest)"
  by (simp_all add: tc_int64_def tc_read)

definition int32 :: "int \<Rightarrow> bool" where
  "int32 x \<longleftrightarrow> - (2 ^ 31) \<le> x \<and> x < 2 ^ 31"

lemma sint_of_int32: "int32 x \<Longrightarrow> sint (word_of_int x :: u32) = x"
  by (simp add: int32_def signed_of_int signed_take_bit_int_eq_self)

lemma skip_field_reads [tc_read]:
  "tc_skip_field (Suc d) TC_I32 s (tc_on pre (tc_zigzag32 v @ rest)) = Inr (s, tc_on (pre @ tc_zigzag32 v) rest)"
  "tc_skip_field (Suc d) TC_I64 s (tc_on pre (tc_zigzag64 w @ rest)) = Inr (s, tc_on (pre @ tc_zigzag64 w) rest)"
  by (simp_all only: tc_skip_field_def tc_skip_scalar tc_read snd_conv res_bind_simps)

lemmas skip_fields_num = skip_field_reads[unfolded tc_types]

subsection \<open>Page headers\<close>

lemma page_header_reads:
  assumes "nrows < 2 ^ 31"
  shows "parse_page_header d (tc_on pre (write_page_header [] nrows sz @ rest)) =
    Inr (page_header_init\<lparr>uncompressed_size := sint sz, compressed_size := sint sz,
           ph_num_values := int nrows\<rparr>,
         tc_on (pre @ write_page_header [] nrows sz) rest)"
proof -
  have n: "sint (word_of_nat nrows :: u32) = int nrows" using assms sint_of_int32[of "int nrows"] by (simp add: int32_def)
  have dp: "parse_data_page_header d False h (tc_on p
        (tc_field 0 1 TC_I32 @ tc_zigzag32 (of_nat nrows) @ tc_field 1 2 TC_I32 @ tc_zigzag32 0 @
         tc_field 2 3 TC_I32 @ tc_zigzag32 3 @ tc_field 3 4 TC_I32 @ tc_zigzag32 3 @ 0 # r)) =
      Inr (h\<lparr>is_v2 := False, is_compressed := True, ph_num_values := int nrows, encoding := 0\<rparr>,
        tc_on (p @ tc_field 0 1 TC_I32 @ tc_zigzag32 (of_nat nrows) @ tc_field 1 2 TC_I32 @ tc_zigzag32 0 @
         tc_field 2 3 TC_I32 @ tc_zigzag32 3 @ tc_field 3 4 TC_I32 @ tc_zigzag32 3 @ [0]) r)" for h p r
    unfolding parse_data_page_header_def
    by (rule data_page.parser_run[where n = "Suc (Suc (Suc (Suc (Suc 0))))"])
      (simp_all add: tc_read tc_types parse_data_page_field_def pq_page_i32_def n)
  show ?thesis
    unfolding parse_page_header_def
    by (rule page_header.parser_run[where n = "Suc (Suc (Suc (Suc (Suc 0))))"])
      (simp_all add: write_page_header_def tc_put tc_read tc_types parse_page_header_field_def pq_page_i32_def
        pq_page_struct_def dp[unfolded tc_types] page_header_init_def)
qed

subsection \<open>Schema elements\<close>

definition name_ok :: "byte list \<Rightarrow> bool" where
  "name_ok s \<longleftrightarrow> length s < 2 ^ 31 \<and> 0 \<notin> set s"

definition leaf_schema :: "byte list \<Rightarrow> PqLeaf \<Rightarrow> int \<Rightarrow> PqSchemaCol" where
  "leaf_schema name leaf rep =
     converted_fallback (schema_col_init\<lparr>phys_type := ptype leaf,
       type_length := (if ptype leaf = 7 then typeLength leaf else 0),
       repetition := rep, col_name := Some name,
       converted_type := (if convType leaf \<ge> 0 then convType leaf else -1),
       scale := (if convType leaf = 5 then lf_scale leaf else 0),
       precision := (if convType leaf = 5 then lf_precision leaf else 0),
       time_unit := (if tsAdjusted leaf \<ge> 0 then PQ_TU_MICROS else PQ_TU_NONE),
       is_timestamp := (tsAdjusted leaf \<ge> 0),
       adjusted_utc := (tsAdjusted leaf \<noteq> 0)\<rparr>)"

definition group_schema :: "byte list \<Rightarrow> int \<Rightarrow> nat \<Rightarrow> int \<Rightarrow> PqSchemaCol" where
  "group_schema name rep n conv =
     converted_fallback (schema_col_init\<lparr>repetition := rep, col_name := Some name,
       num_children_stored := int n, num_children := int n, converted_type := (if conv \<ge> 0 then conv else -1)\<rparr>)"

definition leaf_ok :: "PqLeaf \<Rightarrow> bool" where
  "leaf_ok c \<longleftrightarrow> int32 (ptype c) \<and> int32 (convType c) \<and> int32 (typeLength c) \<and> int32 (lf_precision c) \<and>
     int32 (lf_scale c) \<and> length (lf_path c) < 2 ^ 31 \<and> (\<forall>p \<in> set (lf_path c). length p < 2 ^ 31)"

lemma pnstrdup_written:
  assumes "name_ok s"
  shows "pnstrdup (pre @ s @ rest) (length pre) (of_nat (length s)) = s"
proof -
  have "unat (of_nat (length s) :: u32) = length s" using assms by (simp add: name_ok_def unat_of_nat)
  moreover have "takeWhile (\<lambda>b. b \<noteq> 0) s = s" using assms by (auto simp: name_ok_def takeWhile_eq_all_conv)
  ultimately show ?thesis by (simp add: pnstrdup_def)
qed

lemma string_reads:
  assumes "name_ok s"
  shows "tc_string (tc_on pre (tc_varint (of_nat (length s)) @ s @ rest)) =
    (Some s, tc_on (pre @ tc_varint (of_nat (length s)) @ s) rest)"
  using assms pnstrdup_written[OF assms, of "pre @ tc_varint (of_nat (length s))" rest]
  by (simp add: tc_string_def bytes_reads name_ok_def)

lemma logical_type_reads:
  "parse_logical_type (Suc d) sc (tc_on p (tc_field 0 8 TC_STRUCT @
       tc_field 0 1 (if adj then TC_BOOL_TRUE else TC_BOOL_FALSE) @ tc_field 1 2 TC_STRUCT @ tc_field 0 2 TC_STRUCT @
       0 # 0 # 0 # 0 # r)) =
   Inr (sc\<lparr>adjusted_utc := adj, time_unit := PQ_TU_MICROS, is_timestamp := True\<rparr>,
     tc_on (p @ tc_field 0 8 TC_STRUCT @
       tc_field 0 1 (if adj then TC_BOOL_TRUE else TC_BOOL_FALSE) @ tc_field 1 2 TC_STRUCT @ tc_field 0 2 TC_STRUCT @
       [0, 0, 0, 0]) r)"
proof -
  have sk: "PgColumnarThriftSkip (Suc d) (tc_on q (0 # s)) 12 = Inr (tc_on (q @ [0]) s)" for q s
    using skip_reads[of "TV_struct []" "Suc d" q s] by (simp add: tc_types tc_put del: PgColumnarThriftSkip.simps)
  have unit: "parse_time_unit (Suc d) True sc (tc_on q (tc_field 0 2 12 @ 0 # 0 # s)) =
      Inr (sc\<lparr>time_unit := PQ_TU_MICROS, is_timestamp := True\<rparr>, tc_on (q @ tc_field 0 2 12 @ [0, 0]) s)" for sc q s
    by (simp add: parse_time_unit_def tc_read sk tc_types del: PgColumnarThriftSkip.simps)
  have ts: "tc_struct (parse_time_field (Suc d) True) sc (tc_on q
       (tc_field 0 1 k @ tc_field 1 2 12 @ tc_field 0 2 12 @ 0 # 0 # 0 # s)) =
      Inr (sc\<lparr>adjusted_utc := (k = Suc 0), time_unit := PQ_TU_MICROS, is_timestamp := True\<rparr>,
        tc_on (q @ tc_field 0 1 k @ tc_field 1 2 12 @ tc_field 0 2 12 @ [0, 0, 0]) s)"
    if "k = Suc 0 \<or> k = 2" for q s k
    by (rule time_type.parser_run[where n = "Suc (Suc (Suc 0))"])
      (use that in \<open>auto simp: parse_time_field_def tc_read unit tc_types simp del: PgColumnarThriftSkip.simps\<close>)
  show ?thesis
    unfolding parse_logical_type_def
    by (rule logical_type.parser_run[where n = "Suc (Suc 0)"])
      (simp_all add: parse_logical_type_field_def tc_read ts tc_types del: PgColumnarThriftSkip.simps)
qed

lemma schema_element_run:
  assumes "tc_struct_loop (parse_schema_element_field d) n 0 schema_col_init r = Inr (sc, r')" and "tc_pos r \<le> tc_len r"
  shows "parse_schema_element d r = Inr (converted_fallback sc, r')"
  using schema_element.parser_run[OF assms] by (simp add: parse_schema_element_def)

lemma schema_root_reads:
  assumes "n < 2 ^ 31"
  shows "parse_schema_element d (tc_on pre (write_schema_element_root [] n @ rest)) =
    Inr (group_schema [115, 99, 104, 101, 109, 97] 0 n (-1), tc_on (pre @ write_schema_element_root [] n) rest)"
proof -
  have n: "sint (word_of_nat n :: u32) = int n" using assms sint_of_int32[of "int n"] by (simp add: int32_def)
  have nm: "name_ok [115, 99, 104, 101, 109, 97]" by (simp add: name_ok_def)
  show ?thesis
    unfolding group_schema_def
    by (rule schema_element_run[where n = "Suc (Suc (Suc 0))"])
      (use assms string_reads[OF nm] in \<open>simp_all add: write_schema_element_root_def tc_put tc_read tc_types
        parse_schema_element_field_def n schema_col_init_def\<close>)
qed

lemma schema_group_reads:
  assumes "n < 2 ^ 31" and "name_ok name" and "int32 rep" and "int32 conv"
  shows "parse_schema_element d (tc_on pre (write_schema_group [] name rep n conv @ rest)) =
    Inr (group_schema name rep n conv, tc_on (pre @ write_schema_group [] name rep n conv) rest)"
proof -
  have n: "sint (word_of_nat n :: u32) = int n" using assms(1) sint_of_int32[of "int n"] by (simp add: int32_def)
  show ?thesis
    unfolding group_schema_def
    by (rule schema_element_run[where n = "Suc (Suc (Suc (Suc (Suc 0))))"])
      (use assms(1) string_reads[OF assms(2)] assms(3,4)[THEN sint_of_int32] in
        \<open>auto simp: write_schema_group_def tc_put tc_read tc_types parse_schema_element_field_def n schema_col_init_def\<close>)
qed

lemma schema_leaf_reads:
  assumes "leaf_ok leaf" and "name_ok name" and "int32 rep"
  shows "parse_schema_element (Suc d) (tc_on pre (write_schema_leaf [] name leaf rep @ rest)) =
    Inr (leaf_schema name leaf rep, tc_on (pre @ write_schema_leaf [] name leaf rep) rest)"
proof -
  have v: "sint (word_of_int (ptype leaf) :: u32) = ptype leaf" "sint (word_of_int (typeLength leaf) :: u32) = typeLength leaf"
     "sint (word_of_int (convType leaf) :: u32) = convType leaf" "sint (word_of_int (lf_scale leaf) :: u32) = lf_scale leaf"
     "sint (word_of_int (lf_precision leaf) :: u32) = lf_precision leaf" "sint (word_of_int rep :: u32) = rep"
    using assms(1,3) by (simp_all add: leaf_ok_def sint_of_int32)
  note lt = logical_type_reads[where adj = True, unfolded tc_types, simplified]
    logical_type_reads[where adj = False, unfolded tc_types, simplified]
  show ?thesis
    unfolding leaf_schema_def
    by (rule schema_element_run[where n = "Suc (Suc (Suc (Suc (Suc (Suc (Suc (Suc (Suc 0))))))))"])
      (use string_reads[OF assms(2)] v lt in
        \<open>auto simp: write_schema_leaf_def write_timestamp_type_def tc_put tc_read tc_types parse_schema_element_field_def
          schema_col_init_def Let_def\<close>)
qed

subsection \<open>Column chunks\<close>

text \<open>
  What a parsed chunk says, with its bounds as the bytes they point to in the footer.
\<close>

record chunk_info =
  ci_codec :: int
  ci_num_values :: int
  ci_data_page :: int
  ci_dict_page :: int
  ci_size :: int
  ci_min :: "byte list option"
  ci_max :: "byte list option"
  ci_rep_hist :: int
  ci_def_hist :: int

definition stat_view :: "byte list \<Rightarrow> bool \<Rightarrow> nat option \<Rightarrow> u32 \<Rightarrow> byte list option" where
  "stat_view buf has p n = (if has then map_option (\<lambda>p. take (unat n) (drop p buf)) p else None)"

definition chunk_view :: "byte list \<Rightarrow> PqChunk \<Rightarrow> chunk_info" where
  "chunk_view buf ch = \<lparr>ci_codec = codec ch, ci_num_values = num_values ch, ci_data_page = data_page_offset ch,
     ci_dict_page = dict_page_offset ch, ci_size = total_compressed_size ch,
     ci_min = stat_view buf (has_min ch) (stat_min ch) (stat_min_len ch),
     ci_max = stat_view buf (has_max ch) (stat_max ch) (stat_max_len ch),
     ci_rep_hist = rep_hist_len ch, ci_def_hist = def_hist_len ch\<rparr>"

text \<open>Whether the exporter writes bounds for a leaf, and the chunk it describes.\<close>

definition writes_bounds :: "PqLeaf \<Rightarrow> PqColMeta \<Rightarrow> bool" where
  "writes_bounds c m \<longleftrightarrow> (ptype c = 1 \<or> ptype c = 2 \<or> ptype c = 4 \<or> ptype c = 5) \<and> hasBounds (cm_st m)"

definition chunk_written :: "fpu \<Rightarrow> PqLeaf \<Rightarrow> PqColMeta \<Rightarrow> chunk_info" where
  "chunk_written F c m = \<lparr>ci_codec = 0, ci_num_values = sint (numValues m), ci_data_page = sint (dataPageOffset m),
     ci_dict_page = 0, ci_size = sint (totalSize m),
     ci_min = (if writes_bounds c m then Some (fst (stat_bounds F (ptype c) (cm_st m))) else None),
     ci_max = (if writes_bounds c m then Some (snd (stat_bounds F (ptype c) (cm_st m))) else None),
     ci_rep_hist = -1, ci_def_hist = -1\<rparr>"

lemma length_stat_bounds:
  "length (fst (stat_bounds F ty st)) < 2 ^ 31" "length (snd (stat_bounds F ty st)) < 2 ^ 31"
  by (auto simp: stat_bounds_def Let_def)

lemma stat_view_written:
  "length s < 2 ^ 31 \<Longrightarrow> stat_view (pre @ s @ rest) True (Some (length pre)) (of_nat (length s)) = Some s"
  by (simp add: stat_view_def unat_of_nat)

lemma statistics_reads:
  assumes "\<not> has_min ch" "\<not> has_max ch"
  obtains ch' where "parse_statistics (Suc d) ch (tc_on pre (write_statistics F [] c m @ rest)) =
      Inr (ch', tc_on (pre @ write_statistics F [] c m) rest)"
    and "chunk_view (pre @ write_statistics F [] c m @ rest) ch' =
      (chunk_view (pre @ write_statistics F [] c m @ rest) ch)
        \<lparr>ci_min := (if writes_bounds c m then Some (fst (stat_bounds F (ptype c) (cm_st m))) else None),
         ci_max := (if writes_bounds c m then Some (snd (stat_bounds F (ptype c) (cm_st m))) else None)\<rparr>"
proof -
  obtain lo hi where b: "stat_bounds F (ptype c) (cm_st m) = (lo, hi)" by fastforce
  with length_stat_bounds[of F "ptype c" "cm_st m"] have len: "length lo < 2 ^ 31" "length hi < 2 ^ 31" by simp_all
  let ?b = "pre @ tc_field 0 3 TC_I64 @ tc_zigzag64 (st_nulls (cm_st m)) @ tc_field 3 5 TC_BINARY @ tc_varint (of_nat (length hi))"
  let ?c = "?b @ hi @ tc_field 5 6 TC_BINARY @ tc_varint (of_nat (length lo))"
  let ?ch = "if writes_bounds c m then ch\<lparr>stat_max := Some (length ?b), stat_max_len := of_nat (length hi), has_max := True,
      stat_min := Some (length ?c), stat_min_len := of_nat (length lo), has_min := True\<rparr> else ch"
  have "parse_statistics (Suc d) ch (tc_on pre (write_statistics F [] c m @ rest)) =
      Inr (?ch, tc_on (pre @ write_statistics F [] c m) rest)"
    unfolding parse_statistics_def
    by (rule statistics.parser_run[where n = "Suc (Suc (Suc (Suc (Suc 0))))"])
      (use len in \<open>auto simp: write_statistics_def writes_bounds_def b tc_put tc_read tc_types parse_statistics_field_def
         skip_fields_num Let_def\<close>)
  moreover have "chunk_view (pre @ write_statistics F [] c m @ rest) ?ch =
      (chunk_view (pre @ write_statistics F [] c m @ rest) ch)
        \<lparr>ci_min := (if writes_bounds c m then Some lo else None), ci_max := (if writes_bounds c m then Some hi else None)\<rparr>"
  proof (cases "writes_bounds c m")
    case True
    then obtain t where w: "write_statistics F [] c m =
        tc_field 0 3 TC_I64 @ tc_zigzag64 (st_nulls (cm_st m)) @ tc_field 3 5 TC_BINARY @ tc_varint (of_nat (length hi)) @
        hi @ tc_field 5 6 TC_BINARY @ tc_varint (of_nat (length lo)) @ lo @ t"
      by (auto simp: write_statistics_def writes_bounds_def b tc_put)
    show ?thesis
      using True stat_view_written[OF len(2), of ?b "tc_field 5 6 TC_BINARY @ tc_varint (of_nat (length lo)) @ lo @ t @ rest"]
        stat_view_written[OF len(1), of ?c "t @ rest"]
      by (simp add: w chunk_view_def)
  qed (simp add: chunk_view_def assms stat_view_def)
  ultimately show ?thesis using that[of ?ch] by (simp add: b)
qed

lemma write_statistics_append: "write_statistics F b c m = b @ write_statistics F [] c m"
  by (auto simp: write_statistics_def tc_put Let_def split: prod.splits)

lemma fold_append: "fold (\<lambda>x b. b @ f x) xs b = b @ concat (map f xs)"
  by (induction xs arbitrary: b) simp_all

definition path_bytes :: "byte list list \<Rightarrow> byte list" where
  "path_bytes ps = tc_list_header (length ps) 8 @ concat (map (\<lambda>p. tc_varint (of_nat (length p)) @ p) ps)"

lemma skip_path:
  assumes "length ps < 2 ^ 31" "\<forall>p \<in> set ps. length p < 2 ^ 31"
  shows "tc_skip_field (Suc (Suc d)) 9 s (tc_on pre (path_bytes ps @ rest)) = Inr (s, tc_on (pre @ path_bytes ps) rest)"
proof -
  let ?v = "TV_list 8 (map TV_binary ps)"
  have "tv_wf ?v" "tv_depth ?v \<le> Suc (Suc d)" using assms by (auto simp: tc_types)
  from skip_reads[OF this, of pre rest] show ?thesis
    by (simp add: tc_skip_field_def path_bytes_def tc_put comp_def TC_LIST_def del: PgColumnarThriftSkip.simps)
qed

lemma skip_encodings:
  "tc_skip_field (Suc (Suc d)) 9 s (tc_on pre (tc_list_header 2 5 @ tc_zigzag32 a @ tc_zigzag32 b @ rest)) =
   Inr (s, tc_on (pre @ tc_list_header 2 5 @ tc_zigzag32 a @ tc_zigzag32 b) rest)"
proof -
  let ?v = "TV_list 5 [TV_i32 a, TV_i32 b]"
  have "tv_wf ?v" "tv_depth ?v \<le> Suc (Suc d)" by (auto simp: tc_types)
  from skip_reads[OF this, of pre rest] show ?thesis
    by (simp add: tc_skip_field_def tc_put TC_LIST_def eval_nat_numeral del: PgColumnarThriftSkip.simps)
qed

lemma column_chunk_reads:
  assumes "leaf_ok c"
  obtains ch' where "parse_column_chunk (Suc (Suc d)) (tc_on pre (write_column_chunk F [] c m @ rest)) =
      Inr (ch', tc_on (pre @ write_column_chunk F [] c m) rest)"
    and "chunk_view (pre @ write_column_chunk F [] c m @ rest) ch' = chunk_written F c m"
proof -
  let ?ch = "column_meta_init\<lparr>codec := 0, num_values := sint (numValues m), total_compressed_size := sint (totalSize m),
     data_page_offset := sint (dataPageOffset m)\<rparr>"
  let ?H = "tc_field 0 2 6 @ tc_zigzag64 (dataPageOffset m) @ tc_field 2 3 12"
  let ?M = "tc_field 0 1 5 @ tc_zigzag32 (word_of_int (ptype c)) @ tc_field 1 2 9 @ tc_list_header 2 5 @
     tc_zigzag32 0 @ tc_zigzag32 3 @ tc_field 2 3 9 @ path_bytes (lf_path c) @ tc_field 3 4 5 @ tc_zigzag32 0 @
     tc_field 4 5 6 @ tc_zigzag64 (numValues m) @ tc_field 5 6 6 @ tc_zigzag64 (totalSize m) @
     tc_field 6 7 6 @ tc_zigzag64 (totalSize m) @ tc_field 7 9 6 @ tc_zigzag64 (dataPageOffset m) @ tc_field 9 12 12"
  have w: "write_column_chunk F [] c m = ?H @ ?M @ write_statistics F [] c m @ [0, 0]"
    unfolding write_column_chunk_def Let_def
    by (subst write_statistics_append) (simp add: fold_append path_bytes_def tc_put tc_types)
  have path: "length (lf_path c) < 2 ^ 31" "\<forall>p \<in> set (lf_path c). length p < 2 ^ 31"
    using assms by (simp_all add: leaf_ok_def)
  obtain ch' where st: "parse_statistics (Suc (Suc d)) ?ch (tc_on (pre @ ?H @ ?M) (write_statistics F [] c m @ 0 # 0 # rest)) =
      Inr (ch', tc_on ((pre @ ?H @ ?M) @ write_statistics F [] c m) (0 # 0 # rest))"
    and v: "chunk_view ((pre @ ?H @ ?M) @ write_statistics F [] c m @ 0 # 0 # rest) ch' =
      (chunk_view ((pre @ ?H @ ?M) @ write_statistics F [] c m @ 0 # 0 # rest) ?ch)
        \<lparr>ci_min := (if writes_bounds c m then Some (fst (stat_bounds F (ptype c) (cm_st m))) else None),
         ci_max := (if writes_bounds c m then Some (snd (stat_bounds F (ptype c) (cm_st m))) else None)\<rparr>"
    by (rule statistics_reads[of ?ch "Suc d" "pre @ ?H @ ?M" F c m "0 # 0 # rest"]) (simp_all add: column_meta_init_def)
  have "parse_column_meta (Suc (Suc d)) (tc_on (pre @ ?H) (?M @ write_statistics F [] c m @ 0 # 0 # rest)) =
      Inr (ch', tc_on (pre @ ?H @ ?M @ write_statistics F [] c m @ [0]) (0 # rest))"
    unfolding parse_column_meta_def
    by (rule column_meta.parser_run[where n = "Suc (Suc (Suc (Suc (Suc (Suc (Suc (Suc (Suc (Suc 0)))))))))"])
      (use st in \<open>simp_all add: tc_read tc_types parse_column_meta_field_def skip_fields_num skip_path[OF path]
         skip_encodings column_meta_init_def\<close>)
  then have "parse_column_chunk (Suc (Suc d)) (tc_on pre (write_column_chunk F [] c m @ rest)) =
      Inr (ch', tc_on (pre @ write_column_chunk F [] c m) rest)"
    unfolding parse_column_chunk_def w
    by (intro column_chunk.parser_run[where n = "Suc (Suc (Suc 0))"])
      (simp_all add: tc_read tc_types parse_column_chunk_field_def skip_fields_num)
  moreover have "chunk_view (pre @ write_column_chunk F [] c m @ rest) ch' = chunk_written F c m"
    using v by (simp add: w chunk_view_def chunk_written_def column_meta_init_def)
  ultimately show ?thesis using that by blast
qed

subsection \<open>Lists of structs\<close>

lemma tc_list_reads:
  assumes "\<And>x p r. x \<in> set xs \<Longrightarrow> \<exists>y. f (tc_on p (enc x @ r)) = Inr (y, tc_on (p @ enc x) r) \<and> R (p @ enc x @ r) x y"
  shows "\<exists>ys. tc_list f (length xs) (tc_on pre (concat (map enc xs) @ rest)) =
      Inr (ys, tc_on (pre @ concat (map enc xs)) rest) \<and> list_all2 (R (pre @ concat (map enc xs) @ rest)) xs ys"
  using assms
proof (induction xs arbitrary: pre)
  case (Cons x xs)
  from Cons.prems[of x pre "concat (map enc xs) @ rest"] obtain y where
    y: "f (tc_on pre (enc x @ concat (map enc xs) @ rest)) = Inr (y, tc_on (pre @ enc x) (concat (map enc xs) @ rest))"
      "R (pre @ enc x @ concat (map enc xs) @ rest) x y" by auto
  have "\<exists>ys. tc_list f (length xs) (tc_on (pre @ enc x) (concat (map enc xs) @ rest)) =
      Inr (ys, tc_on ((pre @ enc x) @ concat (map enc xs)) rest) \<and>
      list_all2 (R ((pre @ enc x) @ concat (map enc xs) @ rest)) xs ys"
    by (rule Cons.IH) (rule Cons.prems, simp)
  then obtain ys where ys: "tc_list f (length xs) (tc_on (pre @ enc x) (concat (map enc xs) @ rest)) =
      Inr (ys, tc_on (pre @ enc x @ concat (map enc xs)) rest)"
      "list_all2 (R (pre @ enc x @ concat (map enc xs) @ rest)) xs ys" by auto
  show ?case by (rule exI[of _ "y # ys"]) (use y ys in simp)
qed simp

lemma zero_fill_full [simp]: "length xs = n \<Longrightarrow> zero_fill z n xs = xs"
  by (simp add: zero_fill_def)

lemma palloc0_ok: "sz * n \<le> MaxAllocSize \<Longrightarrow> sz \<le> MaxAllocSize \<Longrightarrow> palloc0 sz n = Inr ()"
  by (auto simp: palloc0_def max_def)

lemma alloc_below_int: "sz * n \<le> MaxAllocSize \<Longrightarrow> 0 < sz \<Longrightarrow> n < 2 ^ 31"
proof -
  assume a: "sz * n \<le> MaxAllocSize" and "0 < sz"
  then have "n \<le> sz * n" by simp
  with a have "n \<le> 0x3fffffff" unfolding MaxAllocSize_def by (rule order_trans[rotated])
  then show ?thesis by simp
qed

text \<open>A parsed row group against what the exporter recorded of it.\<close>

definition group_matches :: "fpu \<Rightarrow> PqLeaf list \<Rightarrow> byte list \<Rightarrow> PqOutGroup \<Rightarrow> PqRowGroup \<Rightarrow> bool" where
  "group_matches F ls buf rg g \<longleftrightarrow> rg_num_rows g = sint (og_numRows rg) \<and> rg_has_num_rows g \<and> nchunks g = length ls \<and>
     (\<exists>cs. chunks g = Some cs \<and> map (chunk_view buf) cs = map (\<lambda>i. chunk_written F (ls ! i) (og_cols rg ! i)) [0..<length ls])"

lemma write_column_chunk_append: "write_column_chunk F b c m = b @ write_column_chunk F [] c m"
  unfolding write_column_chunk_def Let_def
  by (subst (1 2) write_statistics_append) (simp add: fold_append tc_put)

lemma write_row_group_bytes:
  "write_row_group F b ls rg = b @ tc_field 0 1 9 @ tc_list_header (length ls) 12 @
     concat (map (\<lambda>i. write_column_chunk F [] (ls ! i) (og_cols rg ! i)) [0..<length ls]) @
     tc_field 1 2 6 @ tc_zigzag64 (totalByteSize rg) @ tc_field 2 3 6 @ tc_zigzag64 (og_numRows rg) @ [0]"
proof -
  have "fold (\<lambda>i b. write_column_chunk F b (ls ! i) (og_cols rg ! i)) [0..<length ls] x =
      x @ concat (map (\<lambda>i. write_column_chunk F [] (ls ! i) (og_cols rg ! i)) [0..<length ls])" for x
    by (subst write_column_chunk_append) (rule fold_append)
  then show ?thesis by (simp add: write_row_group_def tc_put tc_types)
qed

lemma row_group_reads:
  assumes ok: "\<forall>c \<in> set ls. leaf_ok c" and sz: "88 * length ls \<le> MaxAllocSize"
  shows "\<exists>g. parse_row_group (Suc (Suc d)) (tc_on pre (write_row_group F [] ls rg @ rest)) =
      Inr (g, tc_on (pre @ write_row_group F [] ls rg) rest) \<and>
      group_matches F ls (pre @ write_row_group F [] ls rg @ rest) rg g"
proof -
  let ?enc = "\<lambda>i. write_column_chunk F [] (ls ! i) (og_cols rg ! i)"
  let ?H = "tc_field 0 1 9 @ tc_list_header (length ls) 12"
  let ?T = "tc_field 1 2 6 @ tc_zigzag64 (totalByteSize rg) @ tc_field 2 3 6 @ tc_zigzag64 (og_numRows rg) @ [0]"
  let ?R = "\<lambda>buf i ch. chunk_view buf ch = chunk_written F (ls ! i) (og_cols rg ! i)"
  have w: "write_row_group F [] ls rg = ?H @ concat (map ?enc [0..<length ls]) @ ?T"
    by (simp add: write_row_group_bytes)
  have one: "\<exists>y. parse_column_chunk (Suc (Suc d)) (tc_on p (?enc i @ r)) = Inr (y, tc_on (p @ ?enc i) r) \<and> ?R (p @ ?enc i @ r) i y"
    if "i \<in> set [0..<length ls]" for i p r
  proof -
    from that ok have "leaf_ok (ls ! i)" by simp
    then obtain ch where "parse_column_chunk (Suc (Suc d)) (tc_on p (?enc i @ r)) = Inr (ch, tc_on (p @ ?enc i) r)"
      "?R (p @ ?enc i @ r) i ch" by (rule column_chunk_reads)
    then show ?thesis by blast
  qed
  from tc_list_reads[where f = "parse_column_chunk (Suc (Suc d))" and R = ?R and enc = ?enc and pre = "pre @ ?H" and rest = "?T @ rest", OF one]
  obtain cs where
    l: "tc_list (parse_column_chunk (Suc (Suc d))) (length [0..<length ls])
         (tc_on (pre @ ?H) (concat (map ?enc [0..<length ls]) @ ?T @ rest)) =
       Inr (cs, tc_on ((pre @ ?H) @ concat (map ?enc [0..<length ls])) (?T @ rest))"
    and v: "list_all2 (?R ((pre @ ?H) @ concat (map ?enc [0..<length ls]) @ ?T @ rest)) [0..<length ls] cs" by blast
  have n: "length cs = length ls" using list_all2_lengthD[OF v] by simp
  note small = alloc_below_int[OF sz]
  have u: "unat (of_nat (length ls) :: u32) = length ls" using small by (simp add: unat_of_nat)
  let ?g = "\<lparr>rg_num_rows = sint (og_numRows rg), rg_has_num_rows = True, chunks = Some cs, nchunks = length ls\<rparr>"
  have "parse_row_group (Suc (Suc d)) (tc_on pre (write_row_group F [] ls rg @ rest)) =
      Inr (?g, tc_on (pre @ write_row_group F [] ls rg) rest)"
    unfolding parse_row_group_def w
    by (rule row_group.parser_run[where n = "Suc (Suc (Suc (Suc 0)))"])
      (use l small n u palloc0_ok[OF sz] in \<open>simp_all add: tc_read tc_types parse_row_group_field_def skip_fields_num
         row_group_zero_def MaxAllocSize_def\<close>)
  moreover have "map (chunk_view (pre @ write_row_group F [] ls rg @ rest)) cs =
      map (\<lambda>i. chunk_written F (ls ! i) (og_cols rg ! i)) [0..<length ls]"
    using v by (intro nth_equalityI) (auto simp: n w list_all2_conv_all_nth)
  ultimately show ?thesis by (intro exI[of _ ?g]) (simp add: group_matches_def)
qed

subsection \<open>The schema\<close>

text \<open>The elements a top column writes: per element its bytes and the element it describes.\<close>

definition leaf_item :: "PqLeaf list \<Rightarrow> byte list \<Rightarrow> nat \<Rightarrow> byte list \<times> PqSchemaCol" where
  "leaf_item ls name li = (write_schema_leaf [] name (ls ! li) 1, leaf_schema name (ls ! li) 1)"

definition group_item :: "byte list \<Rightarrow> int \<Rightarrow> nat \<Rightarrow> int \<Rightarrow> byte list \<times> PqSchemaCol" where
  "group_item name rep n conv = (write_schema_group [] name rep n conv, group_schema name rep n conv)"

definition live :: "(byte list \<times> nat option) list \<Rightarrow> (byte list \<times> nat) list" where
  "live fs = map (\<lambda>f. (fst f, the (snd f))) (filter (\<lambda>f. snd f \<noteq> None) fs)"

definition top_items :: "PqLeaf list \<Rightarrow> TopColumn \<Rightarrow> (byte list \<times> PqSchemaCol) list" where
  "top_items ls tc =
     (case tkind tc of
        TOP_SCALAR \<Rightarrow> [leaf_item ls (tc_name tc) (firstLeaf tc)]
      | TOP_LIST \<Rightarrow> [group_item (tc_name tc) 1 1 3, group_item [108, 105, 115, 116] 2 1 (-1),
           leaf_item ls [101, 108, 101, 109, 101, 110, 116] (firstLeaf tc)]
      | TOP_STRUCT \<Rightarrow> group_item (tc_name tc) 1 (top_nleaves tc) (-1) # map (\<lambda>(name, li). leaf_item ls name li) (live (st_fields tc)))"

definition leaf_info :: "PqLeaf list \<Rightarrow> nat \<Rightarrow> nat \<Rightarrow> nat \<Rightarrow> byte list \<Rightarrow> nat \<Rightarrow> PqLeafInfo" where
  "leaf_info ls df rp depth name li =
     \<lparr>leaf_sc = leaf_schema name (ls ! li) 1, max_def = df, max_rep = rp, leaf_depth = depth\<rparr>"

definition top_leaves :: "PqLeaf list \<Rightarrow> TopColumn \<Rightarrow> PqLeafInfo list" where
  "top_leaves ls tc =
     (case tkind tc of
        TOP_SCALAR \<Rightarrow> [leaf_info ls 1 0 1 (tc_name tc) (firstLeaf tc)]
      | TOP_LIST \<Rightarrow> [leaf_info ls 3 1 3 [101, 108, 101, 109, 101, 110, 116] (firstLeaf tc)]
      | TOP_STRUCT \<Rightarrow> map (\<lambda>(name, li). leaf_info ls 2 0 2 name li) (live (st_fields tc)))"

definition top_leaf_index :: "TopColumn \<Rightarrow> nat list" where
  "top_leaf_index tc = (case tkind tc of TOP_STRUCT \<Rightarrow> map snd (live (st_fields tc)) | _ \<Rightarrow> [firstLeaf tc])"

definition top_ok :: "PqLeaf list \<Rightarrow> TopColumn \<Rightarrow> bool" where
  "top_ok ls tc \<longleftrightarrow> name_ok (tc_name tc) \<and> (\<forall>f \<in> set (st_fields tc). name_ok (fst f)) \<and>
     (\<forall>li \<in> set (top_leaf_index tc). li < length ls \<and> leaf_ok (ls ! li)) \<and>
     (tkind tc = TOP_STRUCT \<longrightarrow> top_nleaves tc = live_fields (st_fields tc)) \<and> top_nleaves tc < 2 ^ 31"

lemma write_schema_leaf_append: "write_schema_leaf b name leaf rep = b @ write_schema_leaf [] name leaf rep"
  by (simp add: write_schema_leaf_def write_timestamp_type_def tc_put Let_def)

lemma write_schema_group_append: "write_schema_group b name rep n conv = b @ write_schema_group [] name rep n conv"
  by (simp add: write_schema_group_def tc_put Let_def)

lemma write_struct_fields:
  "fold (\<lambda>(name, li) b. case li of None \<Rightarrow> b | Some li \<Rightarrow> write_schema_leaf b name (ls ! li) 1) fs b =
   b @ concat (map (\<lambda>(name, li). write_schema_leaf [] name (ls ! li) 1) (live fs))"
proof (induction fs arbitrary: b)
  case (Cons f fs)
  obtain name li where f: "f = (name, li)" by fastforce
  show ?case
    using Cons.IH write_schema_leaf_append[of b name "ls ! the li" 1]
    by (cases li) (simp_all add: f live_def)
qed (simp add: live_def)

lemma write_top_schema_items: "write_top_schema b tc ls = b @ concat (map fst (top_items ls tc))"
  unfolding write_top_schema_def top_items_def
  by (cases "tkind tc")
    (simp_all add: leaf_item_def group_item_def write_schema_leaf_append[of b]
      write_schema_leaf_append[of "_ @ _"] write_schema_group_append[of b] write_schema_group_append[of "_ @ _"]
      write_struct_fields[unfolded case_prod_unfold] comp_def case_prod_unfold)

lemma top_items_read:
  assumes "top_ok ls tc" and "x \<in> set (top_items ls tc)"
  shows "parse_schema_element (Suc d) (tc_on p (fst x @ r)) = Inr (snd x, tc_on (p @ fst x) r)"
proof -
  have i: "int32 1" "int32 2" "int32 3" "int32 (-1)" by (simp_all add: int32_def)
  have nm: "name_ok [108, 105, 115, 116]" "name_ok [101, 108, 101, 109, 101, 110, 116]" by (simp_all add: name_ok_def)
  have leaf: "parse_schema_element (Suc d) (tc_on p (fst (leaf_item ls name li) @ r)) =
      Inr (snd (leaf_item ls name li), tc_on (p @ fst (leaf_item ls name li)) r)"
    if "name_ok name" "leaf_ok (ls ! li)" for name li
    using schema_leaf_reads[OF that(2,1) i(1), of d p r] by (simp add: leaf_item_def)
  have grp: "parse_schema_element (Suc d) (tc_on p (fst (group_item name rep n conv) @ r)) =
      Inr (snd (group_item name rep n conv), tc_on (p @ fst (group_item name rep n conv)) r)"
    if "name_ok name" "n < 2 ^ 31" "int32 rep" "int32 conv" for name rep n conv
    using schema_group_reads[OF that(2,1,3,4), of "Suc d" p r] by (simp add: group_item_def)
  show ?thesis
  proof (cases "tkind tc")
    case TOP_STRUCT
    consider "x = group_item (tc_name tc) 1 (top_nleaves tc) (-1)"
      | name li where "x = leaf_item ls name li" "(name, li) \<in> set (live (st_fields tc))"
      using assms(2) TOP_STRUCT by (auto simp: top_items_def)
    then show ?thesis
    proof cases
      case 1
      then show ?thesis using assms(1) grp i by (simp add: top_ok_def)
    next
      case 2
      then have "li \<in> set (top_leaf_index tc)" "\<exists>f \<in> set (st_fields tc). fst f = name"
        using TOP_STRUCT by (force simp: top_leaf_index_def live_def)+
      then have "name_ok name" "leaf_ok (ls ! li)" using assms(1) by (auto simp: top_ok_def)
      with 2(1) leaf show ?thesis by simp
    qed
  qed (use assms leaf grp i nm in \<open>auto simp: top_items_def top_ok_def top_leaf_index_def\<close>)
qed

lemma leaf_schema_simps [simp]:
  "num_children (leaf_schema name c rep) = 0" "repetition (leaf_schema name c rep) = rep"
  "col_name (leaf_schema name c rep) = Some name"
  by (simp_all add: leaf_schema_def converted_fallback_def schema_col_init_def Let_def)

lemma group_schema_simps [simp]:
  "num_children (group_schema name rep n conv) = int n" "repetition (group_schema name rep n conv) = rep"
  "col_name (group_schema name rep n conv) = Some name"
  by (simp_all add: group_schema_def converted_fallback_def schema_col_init_def Let_def)

lemma nth_of_drop: "drop c es = x # xs \<Longrightarrow> c < length es \<and> es ! c = x \<and> drop (Suc c) es = xs"
  by (metis Cons_nth_drop_Suc drop_eq_Nil linorder_not_less list.distinct(1) list.inject)

lemma walk_leaf:
  assumes "drop c es = leaf_schema name l 1 # xs"
  shows "walk_schema (Suc fr) es df rp depth (c, lvs) =
    Inr (True, Suc c, lvs @ [\<lparr>leaf_sc = leaf_schema name l 1, max_def = Suc df, max_rep = rp, leaf_depth = depth\<rparr>])"
  using nth_of_drop[OF assms] by simp

lemma walk_leaves:
  assumes "drop c es = map (\<lambda>(name, li). leaf_schema name (ls ! li) 1) fs @ xs"
  shows "walk_children (walk_schema (Suc fr) es df rp depth) (length fs) (c, lvs) =
    Inr (True, c + length fs, lvs @ map (\<lambda>(name, li). leaf_info ls (Suc df) rp depth name li) fs)"
  using assms
proof (induction fs arbitrary: c lvs)
  case (Cons f fs)
  obtain name li where f: "f = (name, li)" by fastforce
  note w = walk_leaf[of c es name "ls ! li" "map (\<lambda>(name, li). leaf_schema name (ls ! li) 1) fs @ xs"]
  have "drop (Suc c) es = map (\<lambda>(name, li). leaf_schema name (ls ! li) 1) fs @ xs"
    using nth_of_drop[of c es] Cons.prems f by simp
  from Cons.IH[OF this] w Cons.prems show ?case by (simp add: f leaf_info_def del: walk_schema.simps)
qed simp

lemma live_fields_length: "live_fields fs = length (live fs)"
  by (simp add: live_fields_def live_def)

lemma walk_top:
  assumes "drop c es = map snd (top_items ls tc) @ xs" and "top_ok ls tc" and "tkind tc = TOP_STRUCT \<Longrightarrow> 0 < top_nleaves tc"
  shows "walk_schema (Suc (Suc (Suc fr))) es 0 0 1 (c, lvs) =
    Inr (True, c + length (top_items ls tc), lvs @ top_leaves ls tc)"
proof (cases "tkind tc")
  case TOP_SCALAR
  then show ?thesis
    using walk_leaf[of c es "tc_name tc" "ls ! firstLeaf tc" xs "Suc (Suc fr)" 0 0 1 lvs] assms(1)
    by (simp add: top_items_def leaf_item_def top_leaves_def leaf_info_def del: walk_schema.simps)
next
  case TOP_LIST
  then have d: "drop c es = group_schema (tc_name tc) 1 1 3 # group_schema [108, 105, 115, 116] 2 1 (-1) #
      leaf_schema [101, 108, 101, 109, 101, 110, 116] (ls ! firstLeaf tc) 1 # xs"
    using assms(1) by (simp add: top_items_def leaf_item_def group_item_def)
  note n1 = nth_of_drop[OF d]
  note n2 = nth_of_drop[OF n1[THEN conjunct2, THEN conjunct2]]
  note n3 = walk_leaf[OF n2[THEN conjunct2, THEN conjunct2], of fr 2 1 "Suc (Suc 1)" lvs]
  have "walk_schema (Suc (Suc fr)) es 1 0 (Suc 1) (Suc c, lvs) =
      Inr (True, Suc (Suc (Suc c)), lvs @ [leaf_info ls 3 1 3 [101, 108, 101, 109, 101, 110, 116] (firstLeaf tc)])"
    using n2 n3 by (simp add: leaf_info_def eval_nat_numeral del: walk_schema.simps add: walk_schema.simps(2)[of "Suc fr"])
  then show ?thesis
    using n1 TOP_LIST by (simp add: top_items_def top_leaves_def eval_nat_numeral del: walk_schema.simps add: walk_schema.simps(2)[of "Suc (Suc fr)"])
next
  case TOP_STRUCT
  then have d: "drop c es = group_schema (tc_name tc) 1 (top_nleaves tc) (-1) #
      map (\<lambda>(name, li). leaf_schema name (ls ! li) 1) (live (st_fields tc)) @ xs"
    using assms(1) by (simp add: top_items_def leaf_item_def group_item_def comp_def case_prod_unfold)
  note n1 = nth_of_drop[OF d]
  have n: "top_nleaves tc = length (live (st_fields tc))" using assms(2) TOP_STRUCT by (simp add: top_ok_def live_fields_length)
  show ?thesis
    using n1 n assms(3)[OF TOP_STRUCT] walk_leaves[OF n1[THEN conjunct2, THEN conjunct2], of "Suc fr" 1 0 2 lvs] TOP_STRUCT
    by (simp add: top_items_def top_leaves_def eval_nat_numeral del: walk_schema.simps add: walk_schema.simps(2)[of "Suc (Suc fr)"])
qed

lemma walk_tops:
  assumes "drop c es = map snd (concat (map (top_items ls) tops)) @ xs"
    and "\<forall>tc \<in> set tops. top_ok ls tc \<and> (tkind tc = TOP_STRUCT \<longrightarrow> 0 < top_nleaves tc)"
  shows "walk_children (walk_schema (Suc (Suc (Suc fr))) es 0 0 1) (length tops) (c, lvs) =
    Inr (True, c + length (concat (map (top_items ls) tops)), lvs @ concat (map (top_leaves ls) tops))"
  using assms
proof (induction tops arbitrary: c lvs)
  case (Cons tc tops)
  have w: "walk_schema (Suc (Suc (Suc fr))) es 0 0 1 (c, lvs) = Inr (True, c + length (top_items ls tc), lvs @ top_leaves ls tc)"
    using Cons.prems by (intro walk_top[where xs = "map snd (concat (map (top_items ls) tops)) @ xs"]) auto
  have "drop (c + length (top_items ls tc)) es = map snd (concat (map (top_items ls) tops)) @ xs"
  proof -
    have "drop (length (top_items ls tc)) (drop c es) = map snd (concat (map (top_items ls) tops)) @ xs"
      using Cons.prems(1) by simp
    then show ?thesis by (simp add: add.commute)
  qed
  from Cons.IH[OF this] Cons.prems(2) w show ?case by (simp add: add.assoc del: walk_schema.simps)
qed simp

subsection \<open>The footer\<close>

definition schema_items :: "TopColumn list \<Rightarrow> PqLeaf list \<Rightarrow> (byte list \<times> PqSchemaCol) list" where
  "schema_items tops ls = (write_schema_element_root [] (length tops), group_schema [115, 99, 104, 101, 109, 97] 0 (length tops) (-1)) #
     concat (map (top_items ls) tops)"

text \<open>
  What the exporter's state must satisfy: the columns are described by their leaves, no composite
  is empty, and the counts are within what one allocation holds.
\<close>

definition export_ok :: "TopColumn list \<Rightarrow> PqLeaf list \<Rightarrow> PqOutGroup list \<Rightarrow> bool" where
  "export_ok tops ls gs \<longleftrightarrow> tops \<noteq> [] \<and> (\<forall>c \<in> set ls. leaf_ok c) \<and>
     (\<forall>tc \<in> set tops. top_ok ls tc \<and> (tkind tc = TOP_STRUCT \<longrightarrow> 0 < top_nleaves tc)) \<and>
     88 * length ls \<le> MaxAllocSize \<and> 72 * length (schema_items tops ls) \<le> MaxAllocSize \<and> 32 * length gs \<le> MaxAllocSize"

lemma length_top_items: "top_ok ls tc \<Longrightarrow> length (top_items ls tc) = schema_count_for_top tc"
  by (cases "tkind tc") (simp_all add: top_items_def schema_count_for_top_def top_ok_def live_fields_length)

lemma length_schema_items:
  "\<forall>tc \<in> set tops. top_ok ls tc \<Longrightarrow> length (schema_items tops ls) = 1 + sum_list (map schema_count_for_top tops)"
  by (simp add: schema_items_def length_concat comp_def length_top_items cong: map_cong)

definition orders_bytes :: "nat \<Rightarrow> byte list" where
  "orders_bytes n = tc_list_header n 12 @ concat (replicate n (tc_field 0 1 12 @ [0, 0]))"

lemma skip_orders:
  assumes "n < 2 ^ 31"
  shows "tc_skip_field (Suc (Suc (Suc d))) 9 s (tc_on pre (orders_bytes n @ rest)) = Inr (s, tc_on (pre @ orders_bytes n) rest)"
proof -
  let ?v = "TV_list 12 (replicate n (TV_struct [(1, TV_struct [])]))"
  have "tv_wf ?v" using assms by (auto simp: tc_types)
  moreover have "tv_depth ?v \<le> Suc (Suc (Suc d))" by auto
  ultimately have "PgColumnarThriftSkip (Suc (Suc (Suc d))) (tc_on pre (tv_bytes ?v @ rest)) (tv_type ?v) =
      Inr (tc_on (pre @ tv_bytes ?v) rest)" by (rule skip_reads)
  then show ?thesis
    by (simp add: tc_skip_field_def orders_bytes_def tc_put TC_LIST_def TC_STRUCT_def comp_def del: PgColumnarThriftSkip.simps)
qed

lemma skip_string_field:
  assumes "length s < 2 ^ 31"
  shows "tc_skip_field (Suc d) 8 x (tc_on pre (tc_varint (of_nat (length s)) @ s @ rest)) =
    Inr (x, tc_on (pre @ tc_varint (of_nat (length s)) @ s) rest)"
proof -
  have "tv_wf (TV_binary s)" "tv_depth (TV_binary s) \<le> Suc d" using assms by simp_all
  from skip_reads[OF this, of pre rest] show ?thesis
    by (simp add: tc_skip_field_def tc_put TC_BINARY_def del: PgColumnarThriftSkip.simps)
qed

lemma write_file_metadata_bytes:
  assumes "\<forall>tc \<in> set tops. top_ok ls tc"
  shows "write_file_metadata F tops ls rows gs = tc_field 0 1 5 @ tc_zigzag32 1 @
     tc_field 1 2 9 @ tc_list_header (length (schema_items tops ls)) 12 @ concat (map fst (schema_items tops ls)) @
     tc_field 2 3 6 @ tc_zigzag64 rows @
     tc_field 3 4 9 @ tc_list_header (length gs) 12 @ concat (map (write_row_group F [] ls) gs) @
     tc_field 4 6 8 @ tc_varint 10 @ [112, 103, 67, 111, 108, 117, 109, 110, 97, 114] @
     tc_field 6 7 9 @ orders_bytes (length ls) @ [0]"
proof -
  have root: "write_schema_element_root b n = b @ write_schema_element_root [] n" for b n
    by (simp add: write_schema_element_root_def tc_put)
  have tops: "fold (\<lambda>tc b. write_top_schema b tc ls) tops b = b @ concat (map (\<lambda>tc. concat (map fst (top_items ls tc))) tops)" for b
    by (subst write_top_schema_items) (rule fold_append)
  have groups: "fold (\<lambda>rg b. write_row_group F b ls rg) gs b = b @ concat (map (write_row_group F [] ls) gs)" for b
    unfolding write_row_group_bytes[of _ b for b] write_row_group_bytes by (simp add: fold_append)
  have items: "concat (map fst (concat (map (top_items ls) tops))) = concat (map (\<lambda>tc. concat (map fst (top_items ls tc))) tops)"
    by (induction tops) simp_all
  show ?thesis
    unfolding write_file_metadata_def Let_def tc_types schema_items_def
    by (simp only: root[of "_ @ _"] tops groups tc_put)
      (use length_schema_items[OF assms] in \<open>simp add: items tc_put tc_types fold_append orders_bytes_def
        map_replicate_const schema_items_def\<close>)
qed

lemma footer_loop:
  assumes "export_ok tops ls gs"
  obtains rs where "tc_struct (parse_file_field (Suc (Suc (Suc d)))) file_init
      (tc_on [] (write_file_metadata F tops ls rows gs)) =
    Inr (file_init\<lparr>elems := map snd (schema_items tops ls), pf_num_rows := sint rows, has_num_rows := True,
        has_row_groups := True, rgs := rs\<rparr>, tc_on (write_file_metadata F tops ls rows gs) [])"
    and "list_all2 (group_matches F ls (write_file_metadata F tops ls rows gs)) gs rs"
proof -
  let ?d = "Suc (Suc (Suc d))"
  have ok: "\<forall>tc \<in> set tops. top_ok ls tc" "\<forall>c \<in> set ls. leaf_ok c" using assms by (auto simp: export_ok_def)
  have sz: "88 * length ls \<le> MaxAllocSize" "72 * length (schema_items tops ls) \<le> MaxAllocSize" "32 * length gs \<le> MaxAllocSize"
    using assms by (auto simp: export_ok_def)
  have small: "length ls < 2 ^ 31" "length (schema_items tops ls) < 2 ^ 31" "length gs < 2 ^ 31"
    using alloc_below_int[OF sz(1)] alloc_below_int[OF sz(2)] alloc_below_int[OF sz(3)] by simp_all
  have ntops: "length tops < 2 ^ 31"
  proof -
    have "length tops \<le> sum_list (map schema_count_for_top tops)"
      by (induction tops) (auto simp: schema_count_for_top_def split: TopKind.split)
    with small(2) show ?thesis by (simp add: length_schema_items[OF ok(1)])
  qed
  let ?A = "tc_field 0 1 5 @ tc_zigzag32 1 @ tc_field 1 2 9 @ tc_list_header (length (schema_items tops ls)) 12"
  let ?B = "tc_field 2 3 6 @ tc_zigzag64 rows @ tc_field 3 4 9 @ tc_list_header (length gs) 12"
  let ?C = "tc_field 4 6 8 @ tc_varint 10 @ [112, 103, 67, 111, 108, 117, 109, 110, 97, 114] @
     tc_field 6 7 9 @ orders_bytes (length ls) @ [0]"
  let ?S = "concat (map fst (schema_items tops ls))"
  let ?G = "concat (map (write_row_group F [] ls) gs)"
  have w: "write_file_metadata F tops ls rows gs = ?A @ ?S @ ?B @ ?G @ ?C"
    by (simp add: write_file_metadata_bytes[OF ok(1)])
  have one: "\<exists>y. parse_schema_element ?d (tc_on p (fst x @ r)) = Inr (y, tc_on (p @ fst x) r) \<and> y = snd x"
    if "x \<in> set (schema_items tops ls)" for x p r
    using that schema_root_reads[OF ntops, of ?d p r] top_items_read[of ls _ x "Suc (Suc d)" p r] ok(1)
    by (auto simp: schema_items_def)
  from tc_list_reads[where f = "parse_schema_element ?d" and R = "\<lambda>_ x y. y = snd x" and enc = fst and pre = ?A
      and rest = "?B @ ?G @ ?C", OF one]
  obtain ys where s: "tc_list (parse_schema_element ?d) (length (schema_items tops ls)) (tc_on ?A (?S @ ?B @ ?G @ ?C)) =
      Inr (ys, tc_on (?A @ ?S) (?B @ ?G @ ?C))" and "list_all2 (\<lambda>x y. y = snd x) (schema_items tops ls) ys" by auto
  then have ys: "ys = map snd (schema_items tops ls)" by (auto simp: list_all2_conv_all_nth intro: nth_equalityI)
  from tc_list_reads[where f = "parse_row_group ?d" and R = "group_matches F ls" and enc = "write_row_group F [] ls"
      and pre = "?A @ ?S @ ?B" and rest = ?C and xs = gs, OF row_group_reads[OF ok(2) sz(1)]]
  obtain rs where g: "tc_list (parse_row_group ?d) (length gs) (tc_on (?A @ ?S @ ?B) (?G @ ?C)) =
      Inr (rs, tc_on ((?A @ ?S @ ?B) @ ?G) ?C)"
    and m: "list_all2 (group_matches F ls ((?A @ ?S @ ?B) @ ?G @ ?C)) gs rs" by blast
  have n: "length rs = length gs" using list_all2_lengthD[OF m] by simp
  have u: "unat (of_nat (length (schema_items tops ls)) :: u32) = length (schema_items tops ls)"
    "unat (of_nat (length gs) :: u32) = length gs" using small by (simp_all add: unat_of_nat)
  have str: "tc_skip_field ?d 8 x (tc_on p (tc_varint 10 @ 112 # 103 # 67 # 111 # 108 # 117 # 109 # 110 # 97 # 114 # r)) =
      Inr (x, tc_on (p @ tc_varint 10 @ [112, 103, 67, 111, 108, 117, 109, 110, 97, 114]) r)" for x :: PqFile and p r
    using skip_string_field[of "[112, 103, 67, 111, 108, 117, 109, 110, 97, 114]" "Suc (Suc d)" x p r] by simp
  have "tc_struct (parse_file_field ?d) file_init (tc_on [] (write_file_metadata F tops ls rows gs)) =
    Inr (file_init\<lparr>elems := map snd (schema_items tops ls), pf_num_rows := sint rows, has_num_rows := True,
        has_row_groups := True, rgs := rs\<rparr>, tc_on (write_file_metadata F tops ls rows gs) [])"
    unfolding w
    by (rule file_meta.parser_run[where n = "Suc (Suc (Suc (Suc (Suc (Suc (Suc 0))))))"])
      (use s[unfolded ys] g small n u palloc0_ok[OF sz(2)] palloc0_ok[OF sz(3)] in
        \<open>simp_all add: tc_read tc_types parse_file_field_def skip_fields_num str skip_orders[OF small(1)] MaxAllocSize_def file_init_def\<close>)
  with m show ?thesis using that[of rs] by (simp add: w)
qed

text \<open>The parsed file against the exporter's state.\<close>

definition file_matches :: "fpu \<Rightarrow> TopColumn list \<Rightarrow> PqLeaf list \<Rightarrow> u64 \<Rightarrow> PqOutGroup list \<Rightarrow> byte list \<Rightarrow> PqFile \<Rightarrow> bool" where
  "file_matches F tops ls rows gs buf pf \<longleftrightarrow>
     elems pf = map snd (schema_items tops ls) \<and> ntop pf = int (length tops) \<and>
     leaves pf = concat (map (top_leaves ls) tops) \<and> ncols pf = length (leaves pf) \<and>
     has_row_groups pf \<and> has_num_rows pf \<and> pf_num_rows pf = sint rows \<and> list_all2 (group_matches F ls buf) gs (rgs pf)"

lemma schema_items_wf:
  assumes "e \<in> set (map snd (schema_items tops ls))"
  shows "col_name e \<noteq> None" and "num_children e \<ge> 0"
  using assms by (auto simp: schema_items_def top_items_def leaf_item_def group_item_def split: TopKind.splits)

lemma find_index_None: "\<forall>x \<in> set xs. \<not> P x \<Longrightarrow> find_index P xs = None"
  by (simp add: find_index_def takeWhile_eq_all_conv[THEN iffD2])

lemma top_leaves_nonempty: "top_ok ls tc \<Longrightarrow> (tkind tc = TOP_STRUCT \<Longrightarrow> 0 < top_nleaves tc) \<Longrightarrow> top_leaves ls tc \<noteq> []"
  by (cases "tkind tc") (auto simp: top_leaves_def top_ok_def live_fields_length)

lemma footer_reads:
  assumes "export_ok tops ls gs"
  obtains pf where "parse_file_metadata (Suc (Suc (Suc d))) (write_file_metadata F tops ls rows gs) = Inr (True, pf)"
    and "file_matches F tops ls rows gs (write_file_metadata F tops ls rows gs) pf"
proof -
  let ?w = "write_file_metadata F tops ls rows gs" and ?d = "Suc (Suc (Suc d))"
  let ?es = "map snd (schema_items tops ls)" and ?lv = "concat (map (top_leaves ls) tops)"
  obtain rs where l: "tc_struct (parse_file_field ?d) file_init (tc_on [] ?w) =
      Inr (file_init\<lparr>elems := ?es, pf_num_rows := sint rows, has_num_rows := True, has_row_groups := True, rgs := rs\<rparr>, tc_on ?w [])"
    and m: "list_all2 (group_matches F ls ?w) gs rs" by (rule footer_loop[OF assms])
  have tops: "\<forall>tc \<in> set tops. top_ok ls tc \<and> (tkind tc = TOP_STRUCT \<longrightarrow> 0 < top_nleaves tc)" "tops \<noteq> []"
    using assms by (auto simp: export_ok_def)
  have hd: "hd ?es = group_schema [115, 99, 104, 101, 109, 97] 0 (length tops) (-1)" "?es \<noteq> []"
    by (simp_all add: schema_items_def)
  have "drop 1 ?es = map snd (concat (map (top_items ls) tops)) @ []" by (simp add: schema_items_def)
  note wk = walk_tops[OF this tops(1), of d "[]"]
  have nm: "\<not> (\<exists>e \<in> set ?es. col_name e = None)" using schema_items_wf(1)[of _ tops ls] by blast
  have fi: "find_index (\<lambda>e. num_children e < 0) ?es = None"
    by (intro find_index_None ballI) (simp only: not_less schema_items_wf(2))
  have ne: "?lv \<noteq> []" using tops top_leaves_nonempty by (cases tops) auto
  let ?pf = "file_init\<lparr>elems := ?es, pf_num_rows := sint rows, has_num_rows := True, has_row_groups := True, rgs := rs,
      ntop := int (length tops), ncols := length ?lv, leaves := ?lv\<rparr>"
  have r0: "\<lparr>tc_buf = ?w, tc_pos = 0, tc_error = False\<rparr> = tc_on [] ?w" by (simp add: tc_on_def)
  have "finish_file_metadata ?d (file_init\<lparr>elems := ?es, pf_num_rows := sint rows, has_num_rows := True,
      has_row_groups := True, rgs := rs\<rparr>) (tc_on ?w []) = Inr (True, ?pf)"
    using wk hd nm fi ne by (auto simp: finish_file_metadata_def file_init_def Let_def simp del: walk_schema.simps)
  then have "parse_file_metadata ?d ?w = Inr (True, ?pf)"
    unfolding parse_file_metadata_def r0 l by simp
  moreover have "file_matches F tops ls rows gs ?w ?pf"
    using m by (simp add: file_matches_def)
  ultimately show ?thesis by (rule that)
qed

subsection \<open>The exporter's set-up\<close>

definition top_levels :: "PqLeaf list \<Rightarrow> TopColumn \<Rightarrow> bool" where
  "top_levels ls tc \<longleftrightarrow> (\<forall>li \<in> set (top_leaf_index tc). (lf_max_def (ls ! li), lf_max_rep (ls ! li)) =
     (case tkind tc of TOP_SCALAR \<Rightarrow> (1, 0) | TOP_LIST \<Rightarrow> (3, 1) | TOP_STRUCT \<Rightarrow> (2, 0)))"

definition type_ok :: "pq_type \<Rightarrow> bool" where
  "type_ok ty = (case ty of T_composite fs \<Rightarrow> length fs < 2 ^ 31 \<and> (\<forall>f \<in> set fs. name_ok (fst f)) | _ \<Rightarrow> True)"

definition built :: "PqLeaf list \<Rightarrow> PqLeaf list \<Rightarrow> nat list \<Rightarrow> bool" where
  "built ls ls' ix \<longleftrightarrow> (\<exists>ls1. ls' = ls @ ls1 \<and> (\<forall>c \<in> set ls1. leaf_ok c)) \<and> ix = [length ls..<length ls']"

lemma build_leaf_scalar_ok:
  assumes "build_leaf_scalar path typid typmod df rep = Some leaf" and "\<forall>p \<in> set path. name_ok p" and "length path \<le> 3"
  shows "leaf_ok leaf" "lf_max_def leaf = df" "lf_max_rep leaf = rep"
proof -
  have "int32 (k_ptype (parquet_kind_for_type typid typmod)) \<and> int32 (k_conv (parquet_kind_for_type typid typmod)) \<and>
    int32 (k_len (parquet_kind_for_type typid typmod)) \<and> int32 (k_precision (parquet_kind_for_type typid typmod)) \<and>
    int32 (k_scale (parquet_kind_for_type typid typmod))"
    by (auto simp: parquet_kind_for_type_def kind_def int32_def Let_def)
  with assms show "leaf_ok leaf" "lf_max_def leaf = df" "lf_max_rep leaf = rep"
    by (auto simp: build_leaf_scalar_def leaf_ok_def Let_def name_ok_def split: if_splits)
qed

lemma top_ok_append:
  assumes "top_ok ls tc \<and> top_levels ls tc"
  shows "top_ok (ls @ ls') tc \<and> top_levels (ls @ ls') tc"
  using assms by (auto simp: top_ok_def top_levels_def nth_append)

lemma built_trans:
  assumes "built a b x" and "built b c y"
  shows "built a c (x @ y)"
proof -
  obtain l1 where l1: "b = a @ l1" "\<forall>c \<in> set l1. leaf_ok c" using assms(1) unfolding built_def by blast
  obtain l2 where l2: "c = b @ l2" "\<forall>c \<in> set l2. leaf_ok c" using assms(2) unfolding built_def by blast
  note l = l1 l2
  then have "x @ y = [length a..<length c]"
    using assms upt_add_eq_append[of "length a" "length b" "length l2"] by (simp add: built_def add.assoc)
  moreover have "c = a @ (l1 @ l2)" "\<forall>c \<in> set (l1 @ l2). leaf_ok c" using l by auto
  ultimately show ?thesis unfolding built_def by blast
qed

lemma live_Cons [simp]: "live ((n, None) # t) = live t" "live ((n, Some li) # t) = (n, li) # live t"
  by (simp_all add: live_def)

lemma build_fields_ok:
  assumes "build_fields tn fs ls = Some (tbl, ls')" and "name_ok tn" "\<forall>f \<in> set fs. name_ok (fst f)"
  shows "built ls ls' (map snd (live tbl)) \<and> length tbl = length fs \<and> (\<forall>f \<in> set tbl. name_ok (fst f)) \<and>
    (\<forall>li \<in> set (map snd (live tbl)). lf_max_def (ls' ! li) = 2 \<and> lf_max_rep (ls' ! li) = 0)"
  using assms
proof (induction fs arbitrary: ls tbl ls')
  case Nil
  then show ?case by (simp add: built_def live_def)
next
  case (Cons f fs)
  show ?case
  proof (cases "snd f")
    case None
    with Cons.prems obtain t where t: "build_fields tn fs ls = Some (t, ls')" "tbl = (fst f, None) # t" by auto
    with Cons.IH[OF t(1)] Cons.prems(2,3) show ?thesis by simp
  next
    case (Some ty)
    obtain typid typmod where ty: "ty = (typid, typmod)" by fastforce
    with Cons.prems Some obtain leaf t where leaf: "build_leaf_scalar [tn, fst f] typid typmod 2 0 = Some leaf"
      and t: "build_fields tn fs (ls @ [leaf]) = Some (t, ls')" "tbl = (fst f, Some (length ls)) # t"
      by (auto split: option.splits)
    have lf: "leaf_ok leaf" "lf_max_def leaf = 2" "lf_max_rep leaf = 0"
      using build_leaf_scalar_ok[OF leaf] Cons.prems by auto
    have ih: "built (ls @ [leaf]) ls' (map snd (live t))" "length t = length fs" "\<forall>f \<in> set t. name_ok (fst f)"
      "\<forall>li \<in> set (map snd (live t)). lf_max_def (ls' ! li) = 2 \<and> lf_max_rep (ls' ! li) = 0"
      using Cons.IH[OF t(1)] Cons.prems by auto
    then obtain ls1 where ls1: "ls' = (ls @ [leaf]) @ ls1" by (auto simp: built_def)
    have "built ls (ls @ [leaf]) [length ls]" using lf by (simp add: built_def)
    from built_trans[OF this ih(1)] ih lf ls1 t(2) Cons.prems(2,3) show ?thesis
      by (simp add: nth_append)
  qed
qed

lemma build_top_column_ok:
  assumes "build_top_column name ty ls = Some (tc, ls')" and "name_ok name" and "type_ok ty"
  shows "built ls ls' (top_leaf_index tc) \<and> top_ok ls' tc \<and> top_levels ls' tc"
proof (cases ty)
  case (T_scalar typid typmod)
  with assms(1) obtain leaf where leaf: "build_leaf_scalar [name] typid typmod 1 0 = Some leaf"
    and r: "tc = \<lparr>tc_name = name, tkind = TOP_SCALAR, firstLeaf = length ls, top_nleaves = 1, st_fields = []\<rparr>" "ls' = ls @ [leaf]"
    by (auto simp: build_top_column_def)
  show ?thesis using build_leaf_scalar_ok[OF leaf] assms(2) r
    by (simp add: built_def top_ok_def top_levels_def top_leaf_index_def)
next
  case (T_array et)
  with assms(1) obtain leaf where leaf: "build_leaf_scalar [name, [108, 105, 115, 116], [101, 108, 101, 109, 101, 110, 116]] et (-1) 3 1 = Some leaf"
    and r: "tc = \<lparr>tc_name = name, tkind = TOP_LIST, firstLeaf = length ls, top_nleaves = 1, st_fields = []\<rparr>" "ls' = ls @ [leaf]"
    by (auto simp: build_top_column_def)
  have "name_ok [108, 105, 115, 116]" "name_ok [101, 108, 101, 109, 101, 110, 116]" by (simp_all add: name_ok_def)
  with build_leaf_scalar_ok[OF leaf] assms(2) r show ?thesis
    by (simp add: built_def top_ok_def top_levels_def top_leaf_index_def)
next
  case (T_composite fs)
  with assms(1) obtain tbl where tbl: "build_fields name fs ls = Some (tbl, ls')"
    and r: "tc = \<lparr>tc_name = name, tkind = TOP_STRUCT, firstLeaf = length ls, top_nleaves = live_fields tbl, st_fields = tbl\<rparr>"
    by (auto simp: build_top_column_def)
  have fs: "length fs < 2 ^ 31" "\<forall>f \<in> set fs. name_ok (fst f)" using assms(3) T_composite by (auto simp: type_ok_def)
  note b = build_fields_ok[OF tbl assms(2) fs(2)]
  have "live_fields tbl \<le> length tbl" by (simp add: live_fields_def)
  moreover have "\<forall>li \<in> set (map snd (live tbl)). li < length ls' \<and> leaf_ok (ls' ! li)"
    using b[THEN conjunct1] by (force simp: built_def nth_append)
  ultimately show ?thesis using b r assms(2) fs(1)
    by (simp add: top_ok_def top_levels_def top_leaf_index_def)
qed

lemma build_tops_ok:
  assumes "build_tops as ls = Inr (tcs, ls')" and "\<forall>a \<in> set as. name_ok (fst a) \<and> type_ok (snd a)"
  shows "built ls ls' (concat (map top_leaf_index tcs)) \<and> (\<forall>tc \<in> set tcs. top_ok ls' tc \<and> top_levels ls' tc) \<and>
    length tcs = length as"
  using assms
proof (induction as arbitrary: ls tcs)
  case Nil
  then show ?case by (simp add: built_def)
next
  case (Cons a as)
  then obtain tc ls1 t where tc: "build_top_column (fst a) (snd a) ls = Some (tc, ls1)"
    and t: "build_tops as ls1 = Inr (t, ls')" "tcs = tc # t"
    by (auto simp: res_bind_Inr split: option.splits prod.splits)
  have b: "built ls ls1 (top_leaf_index tc) \<and> top_ok ls1 tc \<and> top_levels ls1 tc"
    using build_top_column_ok[OF tc] Cons.prems(2) by simp
  have ih: "built ls1 ls' (concat (map top_leaf_index t))" "\<forall>tc \<in> set t. top_ok ls' tc \<and> top_levels ls' tc" "length t = length as"
    using Cons.IH[OF t(1)] Cons.prems(2) by auto
  then obtain l where "ls' = ls1 @ l" by (auto simp: built_def)
  with top_ok_append[of ls1 tc l] b have "top_ok ls' tc \<and> top_levels ls' tc" by simp
  with built_trans[OF b[THEN conjunct1] ih(1)] ih t(2) show ?case by simp
qed

definition columns_ok :: "TopColumn list \<Rightarrow> PqLeaf list \<Rightarrow> bool" where
  "columns_ok tops ls \<longleftrightarrow> tops \<noteq> [] \<and> concat (map top_leaf_index tops) = [0..<length ls] \<and> (\<forall>c \<in> set ls. leaf_ok c) \<and>
     (\<forall>tc \<in> set tops. top_ok ls tc \<and> top_levels ls tc \<and> (tkind tc = TOP_STRUCT \<longrightarrow> 0 < top_nleaves tc))"

definition atts_ok :: "(byte list \<times> pq_type option) list \<Rightarrow> bool" where
  "atts_ok atts \<longleftrightarrow> atts \<noteq> [] \<and> (\<forall>a \<in> set atts. name_ok (fst a) \<and> (\<forall>ty. snd a = Some ty \<longrightarrow> type_ok ty \<and>
     (\<forall>fs. ty = T_composite fs \<longrightarrow> (\<exists>f \<in> set fs. snd f \<noteq> None))))"

lemma build_fields_live:
  "build_fields tn fs ls = Some (tbl, ls') \<Longrightarrow> live_fields tbl = live_fields fs"
proof (induction fs arbitrary: ls tbl ls')
  case (Cons f fs)
  then show ?case by (fastforce simp: live_fields_def split: option.splits)
qed (simp add: live_fields_def)

lemma build_tops_nonempty_structs:
  assumes "build_tops as ls = Inr (tcs, ls')" and "\<forall>a \<in> set as. \<forall>fs. snd a = T_composite fs \<longrightarrow> (\<exists>f \<in> set fs. snd f \<noteq> None)"
  shows "\<forall>tc \<in> set tcs. tkind tc = TOP_STRUCT \<longrightarrow> 0 < top_nleaves tc"
  using assms
proof (induction as arbitrary: ls tcs)
  case (Cons a as)
  then obtain tc ls1 t where tc: "build_top_column (fst a) (snd a) ls = Some (tc, ls1)"
    and t: "build_tops as ls1 = Inr (t, ls')" "tcs = tc # t"
    by (auto simp: res_bind_Inr split: option.splits prod.splits)
  have "0 < top_nleaves tc" if k: "tkind tc = TOP_STRUCT"
  proof (cases "snd a")
    case (T_composite fs)
    with tc obtain tbl where tbl: "build_fields (fst a) fs ls = Some (tbl, ls1)" "top_nleaves tc = live_fields tbl"
      by (auto simp: build_top_column_def)
    have "\<exists>f \<in> set fs. snd f \<noteq> None" using Cons.prems(2) T_composite by auto
    then have "0 < live_fields fs" by (auto simp: live_fields_def filter_empty_conv)
    then show ?thesis using tbl build_fields_live[OF tbl(1)] by simp
  qed (use tc k in \<open>auto simp: build_top_column_def\<close>)
  with Cons.IH[OF t(1)] Cons.prems(2) t(2) show ?case by auto
qed simp

lemma build_columns_ok:
  assumes "build_columns atts = Inr (tops, ls)" and "atts_ok atts"
  shows "columns_ok tops ls"
proof -
  let ?as = "map (\<lambda>a. (fst a, the (snd a))) atts"
  have b: "build_tops ?as [] = Inr (tops, ls)" and all: "\<forall>a \<in> set atts. snd a \<noteq> None"
    using assms(1) by (auto simp: build_columns_def split: if_splits)
  have as: "\<forall>a \<in> set ?as. name_ok (fst a) \<and> type_ok (snd a)"
     "\<forall>a \<in> set ?as. \<forall>fs. snd a = T_composite fs \<longrightarrow> (\<exists>f \<in> set fs. snd f \<noteq> None)" "?as \<noteq> []"
    using assms(2) all by (auto simp: atts_ok_def)
  from build_tops_ok[OF b as(1)] build_tops_nonempty_structs[OF b as(2)] as(3) show ?thesis
    by (auto simp: columns_ok_def built_def)
qed

lemma columns_export_ok:
  assumes "columns_ok tops ls" and "88 * length (schema_items tops ls) \<le> MaxAllocSize" and "32 * length gs \<le> MaxAllocSize"
  shows "export_ok tops ls gs"
proof -
  have "length ls = length (concat (map top_leaf_index tops))" using assms(1) by (simp add: columns_ok_def)
  also have "\<dots> \<le> length (concat (map (top_items ls) tops))"
  proof -
    have "length (top_leaf_index tc) \<le> length (top_items ls tc)" for tc
      by (cases "tkind tc") (simp_all add: top_leaf_index_def top_items_def)
    then show ?thesis by (induction tops) (simp_all add: add_mono)
  qed
  finally have "length ls \<le> length (schema_items tops ls)" by (simp add: schema_items_def)
  with assms show ?thesis by (auto simp: export_ok_def columns_ok_def)
qed

text \<open>The reader's leaves are the writer's, in order, with the writer's level bounds.\<close>

lemma leaves_match:
  assumes "columns_ok tops ls"
  shows "map (\<lambda>l. (max_def l, max_rep l)) (concat (map (top_leaves ls) tops)) = map (\<lambda>c. (lf_max_def c, lf_max_rep c)) ls"
    and "map (\<lambda>l. phys_type (leaf_sc l)) (concat (map (top_leaves ls) tops)) = map ptype ls"
proof -
  have one: "map (\<lambda>l. (max_def l, max_rep l)) (top_leaves ls tc) = map (\<lambda>i. (lf_max_def (ls ! i), lf_max_rep (ls ! i))) (top_leaf_index tc)"
    and two: "map (\<lambda>l. phys_type (leaf_sc l)) (top_leaves ls tc) = map (\<lambda>i. ptype (ls ! i)) (top_leaf_index tc)"
    if "tc \<in> set tops" for tc
    using assms that
    by (cases "tkind tc"; force simp: columns_ok_def top_levels_def top_leaves_def top_leaf_index_def leaf_info_def
        leaf_schema_def converted_fallback_def schema_col_init_def Let_def)+
  have ix: "map f (concat (map top_leaf_index tops)) = map f [0..<length ls]" for f :: "nat \<Rightarrow> 'b"
    using assms by (simp add: columns_ok_def)
  have "map (\<lambda>l. (max_def l, max_rep l)) (concat (map (top_leaves ls) tops)) =
      map (\<lambda>i. (lf_max_def (ls ! i), lf_max_rep (ls ! i))) (concat (map top_leaf_index tops))"
    using one by (simp add: map_concat comp_def cong: map_cong)
  also have "\<dots> = map (\<lambda>c. (lf_max_def c, lf_max_rep c)) ls"
    unfolding ix by (rule nth_equalityI) simp_all
  finally show "map (\<lambda>l. (max_def l, max_rep l)) (concat (map (top_leaves ls) tops)) = map (\<lambda>c. (lf_max_def c, lf_max_rep c)) ls" .
  have "map (\<lambda>l. phys_type (leaf_sc l)) (concat (map (top_leaves ls) tops)) = map (\<lambda>i. ptype (ls ! i)) (concat (map top_leaf_index tops))"
    using two by (simp add: map_concat comp_def cong: map_cong)
  also have "\<dots> = map ptype ls" unfolding ix by (rule nth_equalityI) simp_all
  finally show "map (\<lambda>l. phys_type (leaf_sc l)) (concat (map (top_leaves ls) tops)) = map ptype ls" .
qed

subsection \<open>The checks on row groups\<close>

text \<open>The counts an exporter records: no group has more rows than a leaf has entries, and the rows add up.\<close>

definition counts_ok :: "PqLeaf list \<Rightarrow> u64 \<Rightarrow> PqOutGroup list \<Rightarrow> bool" where
  "counts_ok ls rows gs \<longleftrightarrow> sint rows = sum_list (map (\<lambda>g. sint (og_numRows g)) gs) \<and>
     (\<forall>g \<in> set gs. 0 \<le> sint (og_numRows g) \<and> (\<forall>i < length ls. sint (og_numRows g) \<le> sint (numValues (og_cols g ! i)) \<and>
        sint (numValues (og_cols g ! i)) \<le> int (MaxAllocSize div 8)))"

lemma check_chunks_ok:
  assumes "\<forall>ch \<in> set cs. 0 \<le> num_values ch \<and> rows \<le> num_values ch \<and> num_values ch \<le> int (MaxAllocSize div 8) \<and>
      def_hist_len ch = -1 \<and> rep_hist_len ch = -1"
  shows "check_chunks lvs rows ci cs = Inr ()"
  using assms by (induction cs arbitrary: ci) auto

lemma check_groups_ok:
  assumes "list_all2 (group_matches F ls buf) gs rs" and "ncols pf = length ls"
    and "\<forall>g \<in> set gs. 0 \<le> sint (og_numRows g) \<and> (\<forall>i < length ls. sint (og_numRows g) \<le> sint (numValues (og_cols g ! i)) \<and>
        sint (numValues (og_cols g ! i)) \<le> int (MaxAllocSize div 8))"
  shows "check_groups pf acc rs = Inr (acc + sum_list (map (\<lambda>g. sint (og_numRows g)) gs))"
  using assms(1,3)
proof (induction gs rs arbitrary: acc rule: list_all2_induct)
  case (Cons g gs r rs)
  from Cons.hyps(1) obtain cs where cs: "chunks r = Some cs" "map (chunk_view buf) cs = map (\<lambda>i. chunk_written F (ls ! i) (og_cols g ! i)) [0..<length ls]"
    and r: "rg_num_rows r = sint (og_numRows g)" "rg_has_num_rows r" "nchunks r = length ls" by (auto simp: group_matches_def)
  have "\<forall>ch \<in> set cs. 0 \<le> num_values ch \<and> rg_num_rows r \<le> num_values ch \<and> num_values ch \<le> int (MaxAllocSize div 8) \<and>
      def_hist_len ch = -1 \<and> rep_hist_len ch = -1"
  proof
    fix ch assume "ch \<in> set cs"
    then have "chunk_view buf ch \<in> set (map (\<lambda>i. chunk_written F (ls ! i) (og_cols g ! i)) [0..<length ls])"
      unfolding cs(2)[symmetric] by simp
    then obtain i where i: "i < length ls" "chunk_view buf ch = chunk_written F (ls ! i) (og_cols g ! i)" by auto
    with Cons.prems have b: "0 \<le> sint (og_numRows g)" "sint (og_numRows g) \<le> sint (numValues (og_cols g ! i))"
      "sint (numValues (og_cols g ! i)) \<le> int (MaxAllocSize div 8)" by simp_all
    from i(2) have "num_values ch = sint (numValues (og_cols g ! i))" "def_hist_len ch = -1" "rep_hist_len ch = -1"
      by (simp_all add: chunk_view_def chunk_written_def)
    with b r(1) show "0 \<le> num_values ch \<and> rg_num_rows r \<le> num_values ch \<and> num_values ch \<le> int (MaxAllocSize div 8) \<and>
      def_hist_len ch = -1 \<and> rep_hist_len ch = -1" by simp
  qed
  from check_chunks_ok[OF this] Cons.IH Cons.prems cs r assms(2) show ?case by (simp add: add.assoc)
qed simp

lemma no_bad_repetition: "elems pf = map snd (schema_items tops ls) \<Longrightarrow> pq_bad_repetition pf = None"
  by (auto simp: pq_bad_repetition_def find_None_iff schema_items_def top_items_def leaf_item_def group_item_def
      split: TopKind.splits)

subsection \<open>An exported footer\<close>

lemma exported_footer:
  assumes "build_columns atts = Inr (tops, ls)" and "atts_ok atts"
    and "88 * length (schema_items tops ls) \<le> MaxAllocSize" and "32 * length gs \<le> MaxAllocSize"
  obtains pf where "parse_file_metadata (Suc (Suc (Suc d))) (write_file_metadata F tops ls rows gs) = Inr (True, pf)"
    and "file_matches F tops ls rows gs (write_file_metadata F tops ls rows gs) pf"
  using footer_reads[OF columns_export_ok[OF build_columns_ok[OF assms(1,2)] assms(3,4)]] .

lemma row_groups_accepted:
  assumes "file_matches F tops ls rows gs buf pf" and "columns_ok tops ls" and "counts_ok ls rows gs"
  shows "pq_check_row_groups pf = Inr ()"
proof -
  have "ncols pf = length ls"
    using assms(1) leaves_match(2)[OF assms(2), THEN arg_cong, of length] by (simp add: file_matches_def)
  moreover have "list_all2 (group_matches F ls buf) gs (rgs pf)" using assms(1) by (simp add: file_matches_def)
  ultimately show ?thesis
    using check_groups_ok[of F ls buf gs "rgs pf" pf 0] assms(1,3)
    by (auto simp: pq_check_row_groups_def file_matches_def counts_ok_def)
qed

text \<open>
  A composite without live fields is exported as a group of no children and no leaves. The reader
  takes an element without children for a leaf, so it counts one leaf where the row groups carry
  no chunk, and refuses the first row group.
\<close>

lemma empty_composite_refused:
  "\<exists>tops. build_columns [([97], Some (T_composite []))] = Inr (tops, []) \<and>
     (\<exists>lvs. walk_children (walk_schema (Suc d) (map snd (schema_items tops [])) 0 0 1) (length tops) (1, []) = Inr (True, 2, lvs) \<and>
        length lvs = 1 \<and>
        (\<forall>pf g gs. ncols pf = length lvs \<and> group_matches F [] buf rg g \<longrightarrow>
           check_groups pf 0 (g # gs) = Inl (malformed ''row group carries a wrong number of column chunks'')))"
  by (auto simp: build_columns_def build_top_column_def live_fields_def schema_items_def top_items_def group_item_def live_def
      group_matches_def)

text \<open>A table for the witnesses: an integer column and an array of texts.\<close>

definition sample_table :: "(byte list \<times> pq_type option) list" where
  "sample_table = [([97], Some (T_scalar 23 (-1))), ([98], Some (T_array 25))]"

definition sample_leaf :: "byte list list \<Rightarrow> ParquetKind \<Rightarrow> int \<Rightarrow> int \<Rightarrow> nat \<Rightarrow> nat \<Rightarrow> PqLeaf" where
  "sample_leaf path k p c df rep = \<lparr>lf_path = path, lf_kind = k, ptype = p, convType = c, tsAdjusted = -1, typeLength = 0,
     lf_precision = 0, lf_scale = 0, convertText = False, lf_max_def = df, lf_max_rep = rep, lf_defs = [], lf_reps = [],
     lf_values = [], boolbits = [], nEntries = 0, lf_st = pqstats_reset\<rparr>"

definition sample_tops :: "TopColumn list" where
  "sample_tops = [\<lparr>tc_name = [97], tkind = TOP_SCALAR, firstLeaf = 0, top_nleaves = 1, st_fields = []\<rparr>,
     \<lparr>tc_name = [98], tkind = TOP_LIST, firstLeaf = 1, top_nleaves = 1, st_fields = []\<rparr>]"

definition sample_leaves :: "PqLeaf list" where
  "sample_leaves = [sample_leaf [[97]] P_INT32 1 (-1) 1 0,
     sample_leaf [[98], [108, 105, 115, 116], [101, 108, 101, 109, 101, 110, 116]] P_UTF8 6 0 3 1]"

definition sample_group :: PqOutGroup where
  "sample_group =
     (let m = \<lparr>dataPageOffset = 4, totalSize = 40, numValues = 2, cm_st = pqstats_reset\<rparr>
      in \<lparr>og_cols = [m, m\<lparr>dataPageOffset := 44\<rparr>], totalByteSize = 80, og_numRows = 2\<rparr>)"

lemma sample_counts: "counts_ok sample_leaves 2 [sample_group]"
  by (auto simp: counts_ok_def sample_leaves_def sample_group_def MaxAllocSize_def less_Suc_eq)

lemma sample_built:
  "build_columns sample_table = Inr (sample_tops, sample_leaves)" "atts_ok sample_table"
  "88 * length (schema_items sample_tops sample_leaves) \<le> MaxAllocSize"
  by (simp_all add: build_columns_def build_top_column_def build_leaf_scalar_def parquet_kind_for_type_def kind_def Let_def
      sample_table_def sample_tops_def sample_leaves_def sample_leaf_def atts_ok_def name_ok_def type_ok_def
      schema_items_def top_items_def MaxAllocSize_def)

section \<open>Properties\<close>

text \<open>
  C12: Parsing a footer is safe on every sequence of bytes. The parse always ends: it returns, or
  raises the stack-depth error or the refusal of an allocation, and nothing else. When it
  accepts the file, the result is well formed: every schema element has a name and a count of
  children that is not negative, there is at least one leaf column and fewer than there are
  schema elements (so the leaf array, sized by the elements, is not overrun), each leaf is an
  element without children whose repetition bound is at most its definition bound, each row group
  has as many chunks as it says, and the minimum and maximum of every chunk that has one lie
  inside the footer.
\<close>

theorem parsed_footer_well_formed:
  "(\<forall>e. parse_file_metadata d buf = Inl e \<longrightarrow>
      e = Corrupt ''stack depth limit exceeded'' \<or> e = Corrupt ''invalid memory alloc request size'') \<and>
   (\<forall>pf. parse_file_metadata d buf = Inr (True, pf) \<longrightarrow> file_wf buf pf)"
proof (intro conjI allI impI)
  let ?r = "\<lparr>tc_buf = buf, tc_pos = 0, tc_error = False\<rparr>"
  have fine: "pq_fine ?r (tc_struct (parse_file_field d) file_init ?r)" by (rule file_meta.parser_fine) simp
  show "e = stack_error \<or> e = alloc_error" if "parse_file_metadata d buf = Inl e" for e
  proof (cases "tc_struct (parse_file_field d) file_init ?r")
    case (Inl e')
    with fine that show ?thesis by (simp add: parse_file_metadata_def)
  next
    case (Inr p)
    obtain pf r where p: "p = (pf, r)" by fastforce
    let ?w = "walk_children (walk_schema d (elems pf) 0 0 1) (nat (num_children (hd (elems pf)))) (1, [])"
    have "walk_fine (elems pf) (1, []) ?w" by (rule walk_children_fine, rule walk_schema_fine) simp
    then have "?w = Inl e' \<Longrightarrow> e' = stack_error" for e' by (simp add: walk_fine_def)
    with that Inr p show ?thesis
      by (cases ?w) (auto simp: parse_file_metadata_def finish_file_metadata_def Let_def split: if_splits option.splits prod.splits)
  qed
  fix pf assume a: "parse_file_metadata d buf = Inr (True, pf)"
  then obtain pf0 r where l: "tc_struct (parse_file_field d) file_init ?r = Inr (pf0, r)"
    and f: "finish_file_metadata d pf0 r = Inr (True, pf)" by (auto simp: parse_file_metadata_def res_bind_Inr)
  have "file_in buf pf0" using file_state.struct_keep[OF l] by (simp add: file_in_def file_init_def)
  from finish_file_wf[OF f this] show "file_wf buf pf" .
qed

theorem parsed_footer_well_formed_witness:
  "\<forall>F. \<exists>pf. parse_file_metadata (Suc (Suc (Suc 0))) (write_file_metadata F sample_tops sample_leaves 0 []) = Inr (True, pf) \<and>
     file_wf (write_file_metadata F sample_tops sample_leaves 0 []) pf"
proof
  fix F
  obtain pf where "parse_file_metadata (Suc (Suc (Suc 0))) (write_file_metadata F sample_tops sample_leaves 0 []) = Inr (True, pf)"
    by (rule exported_footer[OF sample_built, of "[]" 0 F 0]) simp_all
  then show "\<exists>pf. parse_file_metadata (Suc (Suc (Suc 0))) (write_file_metadata F sample_tops sample_leaves 0 []) = Inr (True, pf) \<and>
     file_wf (write_file_metadata F sample_tops sample_leaves 0 []) pf"
    using parsed_footer_well_formed[of "Suc (Suc (Suc 0))" "write_file_metadata F sample_tops sample_leaves 0 []"] by blast
qed

text \<open>
  C11: The footer the exporter writes is read back by the importer as what was written. For every
  table of at least one column whose columns the exporter accepts, with names that are C strings, no composite without
  fields and counts that fit one allocation, parsing the written footer succeeds with three
  levels of stack left and gives the schema elements written, one leaf per exported leaf in the
  same order with the writer's physical type and level bounds, the row count, and per row group
  its row count and, per column chunk, the codec, value count, page offset, size and the exact
  bytes of its bounds where the exporter wrote any. No element has an invalid repetition, and
  when the recorded counts agree (no group has more rows than a leaf has entries, and the groups
  sum to the file) the importer's check of the row groups accepts the file.
\<close>

theorem parquet_footer_roundtrip:
  assumes "build_columns atts = Inr (tops, ls)" and "atts_ok atts"
    and "88 * length (schema_items tops ls) \<le> MaxAllocSize" and "32 * length gs \<le> MaxAllocSize"
  shows "\<exists>pf. parse_file_metadata (Suc (Suc (Suc d))) (write_file_metadata F tops ls rows gs) = Inr (True, pf) \<and>
     elems pf = map snd (schema_items tops ls) \<and> ntop pf = int (length tops) \<and>
     map (\<lambda>l. (phys_type (leaf_sc l), max_def l, max_rep l)) (leaves pf) = map (\<lambda>c. (ptype c, lf_max_def c, lf_max_rep c)) ls \<and>
     pf_num_rows pf = sint rows \<and> list_all2 (group_matches F ls (write_file_metadata F tops ls rows gs)) gs (rgs pf) \<and>
     pq_bad_repetition pf = None \<and> (counts_ok ls rows gs \<longrightarrow> pq_check_row_groups pf = Inr ())"
proof -
  let ?w = "write_file_metadata F tops ls rows gs"
  obtain pf where pf: "parse_file_metadata (Suc (Suc (Suc d))) ?w = Inr (True, pf)" and m: "file_matches F tops ls rows gs ?w pf"
    by (rule exported_footer[OF assms])
  have ok: "columns_ok tops ls" by (rule build_columns_ok[OF assms(1,2)])
  have "map (\<lambda>l. (phys_type (leaf_sc l), max_def l, max_rep l)) (leaves pf) = map (\<lambda>c. (ptype c, lf_max_def c, lf_max_rep c)) ls"
    using leaves_match[OF ok] m
    by (auto simp: file_matches_def list_eq_iff_nth_eq)
  with pf m ok show ?thesis
    by (intro exI[of _ pf] conjI impI) (auto simp: file_matches_def no_bad_repetition intro: row_groups_accepted)
qed

theorem parquet_footer_roundtrip_witness:
  "\<forall>F. \<exists>pf g. parse_file_metadata (Suc (Suc (Suc 0))) (write_file_metadata F sample_tops sample_leaves 2 [sample_group]) = Inr (True, pf) \<and>
     map (\<lambda>l. (phys_type (leaf_sc l), max_def l, max_rep l)) (leaves pf) = [(1, 1, 0), (6, 3, 1)] \<and>
     rgs pf = [g] \<and> rg_num_rows g = 2 \<and> pq_check_row_groups pf = Inr ()"
proof
  fix F
  obtain pf where pf: "parse_file_metadata (Suc (Suc (Suc 0))) (write_file_metadata F sample_tops sample_leaves 2 [sample_group]) = Inr (True, pf)"
    and l: "map (\<lambda>l. (phys_type (leaf_sc l), max_def l, max_rep l)) (leaves pf) = map (\<lambda>c. (ptype c, lf_max_def c, lf_max_rep c)) sample_leaves"
    and g: "list_all2 (group_matches F sample_leaves (write_file_metadata F sample_tops sample_leaves 2 [sample_group])) [sample_group] (rgs pf)"
    and c: "counts_ok sample_leaves 2 [sample_group] \<longrightarrow> pq_check_row_groups pf = Inr ()"
    using parquet_footer_roundtrip[OF sample_built, of "[sample_group]" 0 F 2] by (auto simp: MaxAllocSize_def)
  obtain r where r: "rgs pf = [r]" "rg_num_rows r = 2"
    using g by (auto simp: list_all2_Cons1 group_matches_def sample_group_def)
  from pf l r c[rule_format, OF sample_counts]
  show "\<exists>pf g. parse_file_metadata (Suc (Suc (Suc 0))) (write_file_metadata F sample_tops sample_leaves 2 [sample_group]) = Inr (True, pf) \<and>
     map (\<lambda>l. (phys_type (leaf_sc l), max_def l, max_rep l)) (leaves pf) = [(1, 1, 0), (6, 3, 1)] \<and>
     rgs pf = [g] \<and> rg_num_rows g = 2 \<and> pq_check_row_groups pf = Inr ()"
    by (intro exI[of _ pf] exI[of _ r] conjI) (simp_all add: sample_leaves_def sample_leaf_def)
qed

end
