(* ===== verification/Parquet_Levels.thy ===== *)
theory Parquet_Levels
  imports Parquet_Writer
begin

section \<open>Levels and booleans of a Parquet page\<close>

text \<open>
  \<open>rle_bitpack_decode\<close> and \<open>decode_plain_bools\<close> of \<open>src/columnar_parquet_reader.c\<close>, against the
  exporter's \<open>build_rle_levels\<close> and \<open>build_values\<close>. The decoder returns the array it filled, or
  \<open>None\<close> for \<open>return false\<close>. Its loop reads at least one byte of the buffer per run, which is its
  termination proof.
\<close>

function rle_header :: "byte list \<Rightarrow> nat \<Rightarrow> u64 \<Rightarrow> nat \<Rightarrow> (u64 \<times> nat) option" where
  "rle_header buf pos header shift =
     (if pos < length buf
      then let b = buf ! pos;
               header = header OR push_bit shift (ucast (b AND 0x7f))
           in if b AND 0x80 = 0 then Some (header, pos + 1)
              else if shift + 7 > 63 then None
              else rle_header buf (pos + 1) header (shift + 7)
      else Some (header, pos))"
  by auto
termination by (relation "measure (\<lambda>(buf, pos, header, shift). 64 - shift)") auto

declare rle_header.simps [simp del]

definition rle_value :: "byte list \<Rightarrow> nat \<Rightarrow> nat \<Rightarrow> nat \<Rightarrow> u32" where
  "rle_value buf pos bw v =
     fold (\<lambda>b val. if bit (buf ! (pos + (v * bw + b) div 8)) ((v * bw + b) mod 8) then val OR push_bit b 1 else val)
       [0..<bw] 0"

definition rle_run_value :: "byte list \<Rightarrow> nat \<Rightarrow> nat \<Rightarrow> u32" where
  "rle_run_value buf pos nbytes = fold (\<lambda>i val. val OR push_bit (8 * i) (ucast (buf ! (pos + i)))) [0..<nbytes] 0"

lemma rle_header_pos:
  "rle_header buf pos h s = Some (h', pos') \<Longrightarrow>
   pos \<le> pos' \<and> (pos < length buf \<longrightarrow> pos < pos') \<and> (pos \<le> length buf \<longrightarrow> pos' \<le> length buf)"
proof (induction buf pos h s rule: rle_header.induct)
  case (1 buf pos h s)
  note eq = 1(2)[unfolded rle_header.simps[of buf pos h s] Let_def]
  show ?case
  proof (cases "pos < length buf \<and> buf ! pos AND 0x80 \<noteq> 0 \<and> \<not> s + 7 > 63")
    case True
    with eq have r: "rle_header buf (pos + 1) (h OR push_bit s (ucast (buf ! pos AND 0x7f))) (s + 7) = Some (h', pos')" by simp
    from 1(1)[OF _ refl refl _ _ r] True show ?thesis by auto
  qed (use eq in \<open>auto split: if_splits\<close>)
qed

lemma rle_header_end: "length buf \<le> pos \<Longrightarrow> rle_header buf pos h s = Some (h, pos)"
  by (subst rle_header.simps) simp

text \<open>The main loop; \<open>out\<close> is what was produced.\<close>

function rle_bitpack_loop :: "byte list \<Rightarrow> nat \<Rightarrow> nat \<Rightarrow> nat \<Rightarrow> u32 list \<Rightarrow> u32 list option" where
  "rle_bitpack_loop buf bw count pos out =
     (if length out < count
      then case rle_header buf pos 0 0 of
             None \<Rightarrow> None
           | Some (header, pos') \<Rightarrow>
               if header AND 1 \<noteq> 0
               then let ngroups = unat (drop_bit 1 header)
                    in if ngroups > (length buf - pos') div bw then None
                       else let n = min (ngroups * 8) (count - length out)
                            in rle_bitpack_loop buf bw count (pos' + ngroups * bw)
                                 (out @ map (rle_value buf pos' bw) [0..<n])
               else let runlen = unat (drop_bit 1 header);
                        nbytes = (bw + 7) div 8
                    in if nbytes > length buf - pos' then None
                       else if nbytes = 0 then None
                       else rle_bitpack_loop buf bw count (pos' + nbytes)
                              (out @ replicate (min runlen (count - length out)) (rle_run_value buf pos' nbytes))
      else Some out)"
  by pat_completeness auto
termination
proof (relation "measure (\<lambda>(buf, bw, count, pos, out). length buf - pos)", goal_cases)
  case (2 buf bw count pos out p header pos' ngroups n)
  then have h: "rle_header buf pos 0 0 = Some (header, pos')" by simp
  have "pos < length buf"
    using 2(4) h rle_header_end[of buf pos 0 0] by (metis Pair_inject and_zero_eq linorder_not_less option.inject zero_and_eq)
  with rle_header_pos[OF h] show ?case by auto
next
  case (3 buf bw count pos out p header pos' runlen nbytes)
  then have "rle_header buf pos 0 0 = Some (header, pos')" by simp
  with rle_header_pos[of buf pos 0 0 header pos'] 3 show ?case by auto
qed simp

declare rle_bitpack_loop.simps [simp del]

definition rle_bitpack_decode :: "byte list \<Rightarrow> int \<Rightarrow> nat \<Rightarrow> u32 list option" where
  "rle_bitpack_decode buf bit_width count =
     (if bit_width = 0 then Some (replicate count 0)
      else if bit_width < 0 \<or> bit_width > 32 then None
      else rle_bitpack_loop buf (nat bit_width) count 0 [])"

definition decode_plain_bools :: "byte list \<Rightarrow> nat \<Rightarrow> bool list option" where
  "decode_plain_bools buf n =
     (if (n + 7) div 8 > length buf then None else Some (map (\<lambda>i. bit (buf ! (i div 8)) (i mod 8)) [0..<n]))"

text \<open>
  The level sections of a v1 data page, in \<open>decode_leaf_entries\<close>: a length of four bytes and then
  the run, first the repetition levels and then the definition levels, each only when its bound
  is not zero. The result is the levels and the offset of the values.
\<close>

definition v1_section :: "byte list \<Rightarrow> nat \<Rightarrow> nat \<Rightarrow> nat \<Rightarrow> (u32 list \<times> nat) option" where
  "v1_section pb maxlevel npage off =
     (if off + 4 > length pb then None
      else let llen = u32_of (drop off pb); off = off + 4
           in if off + llen > length pb then None
              else map_option (\<lambda>ls. (ls, off + llen))
                     (rle_bitpack_decode (take llen (drop off pb)) (int (pq_bits_for maxlevel)) npage))"

definition v1_levels :: "byte list \<Rightarrow> nat \<Rightarrow> nat \<Rightarrow> nat \<Rightarrow> (u32 list \<times> u32 list \<times> nat) option" where
  "v1_levels pb maxdef maxrep npage =
     (case (if maxrep > 0 then v1_section pb maxrep npage 0 else Some (replicate npage 0, 0)) of
        None \<Rightarrow> None
      | Some (preps, off) \<Rightarrow>
          map_option (\<lambda>(pdefs, off). (pdefs, preps, off))
            (if maxdef > 0 then v1_section pb maxdef npage off else Some (replicate npage 0, off)))"

text \<open>The number of values behind the levels.\<close>

definition v1_present :: "nat \<Rightarrow> u32 list \<Rightarrow> nat" where
  "v1_present maxdef pdefs = (if maxdef > 0 then length (filter (\<lambda>d. d = of_nat maxdef) pdefs) else length pdefs)"

section \<open>What the exporter packs is unpacked\<close>

lemma length_set_packed_bit [simp]: "length (set_packed_bit p bs) = length bs"
  by (simp add: set_packed_bit_def)

lemma bufbit_set_packed_bit:
  assumes "q < 8 * length bs"
  shows "bufbit (set_packed_bit q bs) p \<longleftrightarrow> bufbit bs p \<or> p = q"
proof -
  have "p = q \<longleftrightarrow> p div 8 = q div 8 \<and> p mod 8 = q mod 8" by (metis div_mult_mod_eq)
  moreover have "q div 8 < length bs" using assms by linarith
  ultimately show ?thesis by (auto simp: set_packed_bit_def bufbit_def nth_list_update bit_simps)
qed

lemma pack_run:
  assumes "s + w \<le> 8 * length buf"
  shows "length (fold (\<lambda>b packed. if Q b then set_packed_bit (s + b) packed else packed) [0..<w] buf) = length buf \<and>
    (bufbit (fold (\<lambda>b packed. if Q b then set_packed_bit (s + b) packed else packed) [0..<w] buf) p \<longleftrightarrow>
       bufbit buf p \<or> s \<le> p \<and> p < s + w \<and> Q (p - s))"
  using assms
proof (induction w arbitrary: p)
  case (Suc w)
  let ?b = "fold (\<lambda>b packed. if Q b then set_packed_bit (s + b) packed else packed) [0..<w] buf"
  have fit: "s + w \<le> 8 * length buf" "s + w < 8 * length buf" using Suc.prems by simp_all
  have ih: "length ?b = length buf" "bufbit ?b p \<longleftrightarrow> bufbit buf p \<or> s \<le> p \<and> p < s + w \<and> Q (p - s)"
    using Suc.IH[OF fit(1), of p] by blast+
  have step: "fold (\<lambda>b packed. if Q b then set_packed_bit (s + b) packed else packed) [0..<Suc w] buf =
      (if Q w then set_packed_bit (s + w) ?b else ?b)" by simp
  have "bufbit (set_packed_bit (s + w) ?b) p \<longleftrightarrow> bufbit ?b p \<or> p = s + w"
    using ih(1) fit(2) by (intro bufbit_set_packed_bit) simp
  moreover have "s \<le> p \<and> p < s + Suc w \<and> Q (p - s) \<longleftrightarrow> s \<le> p \<and> p < s + w \<and> Q (p - s) \<or> p = s + w \<and> Q w"
    by (cases "p = s + w") auto
  ultimately have "bufbit (if Q w then set_packed_bit (s + w) ?b else ?b) p \<longleftrightarrow>
      bufbit buf p \<or> s \<le> p \<and> p < s + Suc w \<and> Q (p - s)" using ih(2) by (cases "Q w") (simp_all only: if_True if_False, blast+)
  then show ?case unfolding step using ih(1) by (cases "Q w") simp_all
qed auto

lemma pack_bools_bits: "length (pack_bools bits) = (length bits + 7) div 8"
  "bufbit (pack_bools bits) p \<longleftrightarrow> p < length bits \<and> bits ! p \<noteq> 0"
  using pack_run[of 0 "length bits" "replicate ((length bits + 7) div 8) 0" "\<lambda>i. bits ! i \<noteq> 0" p, unfolded add_0]
    pack_bytes_cover[of "length bits"]
  by (simp_all add: pack_bools_def)

lemma pack_levels_bits:
  assumes "0 < bw"
  shows "length (pack_levels levels n bw) = (n + 7) div 8 * bw"
    and "bufbit (pack_levels levels n bw) p \<longleftrightarrow> p < n * bw \<and> bit (levels ! (p div bw)) (p mod bw)"
proof -
  let ?buf = "replicate ((n + 7) div 8 * bw) (0 :: byte)"
  let ?f = "\<lambda>i packed. fold (\<lambda>b packed. if bit (levels ! i) b then set_packed_bit (i * bw + b) packed else packed) [0..<bw] packed"
  have "m \<le> n \<Longrightarrow> length (fold ?f [0..<m] ?buf) = length ?buf \<and>
      (bufbit (fold ?f [0..<m] ?buf) p \<longleftrightarrow> p < m * bw \<and> bit (levels ! (p div bw)) (p mod bw))" for m
  proof (induction m)
    case (Suc m)
    have "(m + 1) * bw \<le> 8 * ((n + 7) div 8) * bw" using Suc.prems pack_bytes_cover[of n] by (intro mult_le_mono1) simp
    then have fit: "m * bw + bw \<le> 8 * length (fold ?f [0..<m] ?buf)" using Suc by (simp add: algebra_simps)
    have "m * bw \<le> p \<and> p < m * bw + bw \<Longrightarrow> p div bw = m \<and> p mod bw = p - m * bw"
      by (metis add_diff_cancel_left' add_mult_distrib2 div_nat_eqI minus_mod_eq_div_mult modulo_nat_def mult.commute mult_Suc_right add.commute)
    with pack_run[OF fit, of "\<lambda>b. bit (levels ! m) b" p] Suc show ?case by (auto simp: add.commute)
  qed simp
  from this[of n] show "length (pack_levels levels n bw) = (n + 7) div 8 * bw"
    and "bufbit (pack_levels levels n bw) p \<longleftrightarrow> p < n * bw \<and> bit (levels ! (p div bw)) (p mod bw)"
    by (simp_all add: pack_levels_def)
qed

lemma bit_or_fold:
  assumes "bw \<le> 32"
  shows "bit (fold (\<lambda>b val. if P b then val OR push_bit b 1 else val) [0..<bw] (0 :: u32)) j \<longleftrightarrow> j < bw \<and> P j"
  using assms
proof (induction bw)
  case (Suc bw)
  then show ?case by (auto simp: bit_simps less_Suc_eq)
qed simp

lemma rle_value_bits:
  assumes "bw \<le> 32" and "v * bw + bw \<le> 8 * length packed"
  shows "bit (rle_value (pre @ packed) (length pre) bw v) j \<longleftrightarrow> j < bw \<and> bufbit packed (v * bw + j)"
proof -
  have "(v * bw + j) div 8 < length packed" if "j < bw" using that assms(2) by linarith
  then show ?thesis unfolding rle_value_def bit_or_fold[OF assms(1)] by (auto simp: bufbit_def)
qed

lemma rle_value_reads:
  assumes "0 < bw" "bw \<le> 8" "v < n" "n \<le> length levels" "unat (levels ! v) < 2 ^ bw"
  shows "rle_value (pre @ pack_levels levels n bw) (length pre) bw v = ucast (levels ! v)"
proof (rule bit_eqI)
  fix j assume "possible_bit TYPE(u32) j"
  have "(v + 1) * bw \<le> 8 * ((n + 7) div 8) * bw" using assms(3) pack_bytes_cover[of n] by (intro mult_le_mono1) simp
  then have fit: "v * bw + bw \<le> 8 * length (pack_levels levels n bw)" by (simp add: pack_levels_bits assms(1) algebra_simps)
  have "(v + 1) * bw \<le> n * bw" using assms(3) by (intro mult_le_mono1) simp
  then have "j < bw \<Longrightarrow> v * bw + j < n * bw" by simp
  then have a: "j < bw \<Longrightarrow> bufbit (pack_levels levels n bw) (v * bw + j) \<longleftrightarrow> bit (levels ! v) j"
    using assms(1) by (simp add: pack_levels_bits)
  have "take_bit bw (levels ! v) = levels ! v"
    using assms(5) by (simp add: word_unat_eq_iff unsigned_take_bit_eq take_bit_nat_eq_self)
  then have "bit (levels ! v) j \<Longrightarrow> j < bw" by (metis bit_take_bit_iff)
  with a show "bit (rle_value (pre @ pack_levels levels n bw) (length pre) bw v) j \<longleftrightarrow> bit (ucast (levels ! v) :: u32) j"
    using rle_value_bits[OF _ fit] assms(2) \<open>possible_bit TYPE(u32) j\<close> by (auto simp: bit_ucast_iff)
qed

lemma rle_header_is_varint:
  "tc_varint_loop \<lparr>tc_buf = buf, tc_pos = pos, tc_error = False\<rparr> h s = (v, r) \<Longrightarrow> \<not> tc_error r \<Longrightarrow>
   rle_header buf pos h s = Some (v, tc_pos r)"
proof (induction buf pos h s rule: rle_header.induct)
  case (1 buf pos h s)
  note eq = 1(2)[unfolded tc_varint_loop.simps[of _ h s] Let_def tc_advance_def tc_fail_def, simplified]
  show ?case
  proof (cases "pos < length buf \<and> buf ! pos AND 0x80 \<noteq> 0 \<and> \<not> s + 7 > 63")
    case True
    with eq have "tc_varint_loop \<lparr>tc_buf = buf, tc_pos = pos + 1, tc_error = False\<rparr> (h OR push_bit s (ucast (buf ! pos AND 0x7f))) (s + 7) = (v, r)"
      by simp
    from 1(1)[OF _ refl refl _ _ this 1(3)] True show ?thesis by (subst rle_header.simps) simp
  qed (use eq 1(3) in \<open>auto simp: rle_header.simps[of buf pos h s] split: if_splits\<close>)
qed

lemma rle_header_reads: "rle_header (tc_varint v @ rest) 0 0 0 = Some (v, length (tc_varint v))"
  using rle_header_is_varint[of "tc_varint v @ rest" 0 0 0] varint_reads[of "[]" v rest]
  by (simp add: PgColumnarThriftVarint_def tc_on_def)

lemma run_header: "(push_bit 1 x OR 1 :: u64) AND 1 \<noteq> 0" "drop_bit 1 (push_bit 1 x OR 1 :: u64) = take_bit 63 x"
proof -
  have "bit ((push_bit 1 x OR 1 :: u64) AND 1) 0" by (simp only: bit_and_iff bit_or_iff bit_1_iff) simp
  then show "(push_bit 1 x OR 1 :: u64) AND 1 \<noteq> 0" by force
  show "drop_bit 1 (push_bit 1 x OR 1 :: u64) = take_bit 63 x"
    by (rule bit_eqI)
      (simp only: bit_drop_bit_eq comp_def bit_or_iff bit_push_bit_iff bit_1_iff bit_take_bit_iff, auto dest: bit_imp_possible_bit)
qed

lemma rle_levels_read:
  assumes "0 < bw" "bw \<le> 8" "n = length levels" "n < 2 ^ 62" "\<forall>l \<in> set levels. unat l < 2 ^ bw"
  shows "rle_bitpack_decode (tc_varint (push_bit 1 (of_nat ((n + 7) div 8)) OR 1) @ pack_levels levels n bw) (int bw) n =
    Some (map ucast levels)"
proof -
  let ?g = "(n + 7) div 8" and ?h = "push_bit 1 (of_nat ((n + 7) div 8)) OR 1 :: u64"
  let ?buf = "tc_varint ?h @ pack_levels levels n bw"
  note h = run_header[of "of_nat ?g"]
  have "?g < 2 ^ 62" using assms(4) by simp
  then have g: "unat (drop_bit 1 ?h) = ?g"
    unfolding h(2) by (simp add: unsigned_take_bit_eq unat_of_nat take_bit_nat_eq_self)
  have fits: "\<not> ?g > (length ?buf - length (tc_varint ?h)) div bw" using assms(1) by (simp add: pack_levels_bits)
  have vals: "map (rle_value ?buf (length (tc_varint ?h)) bw) [0..<n] = map ucast levels"
    by (rule nth_equalityI) (use assms in \<open>simp_all add: rle_value_reads\<close>)
  have mn: "min (?g * 8) n = n" using pack_bytes_cover[of n] by simp
  have "rle_bitpack_loop ?buf bw n 0 [] = Some (map ucast levels)" if "0 < n"
  proof -
    have "rle_bitpack_loop ?buf bw n 0 [] = rle_bitpack_loop ?buf bw n (length (tc_varint ?h) + ?g * bw) (map ucast levels)"
      by (subst rle_bitpack_loop.simps) (use that h(1) g fits vals mn in \<open>simp add: rle_header_reads Let_def\<close>)
    also have "\<dots> = Some (map ucast levels)"
      by (subst rle_bitpack_loop.simps) (simp add: assms(3))
    finally show ?thesis .
  qed
  moreover have "rle_bitpack_loop ?buf bw 0 0 [] = Some []" by (subst rle_bitpack_loop.simps) simp
  ultimately show ?thesis using assms(1-3) by (cases "n = 0") (auto simp: rle_bitpack_decode_def)
qed

lemma decode_plain_bools_reads:
  assumes "n = length bits"
  shows "decode_plain_bools (pack_bools bits @ rest) n = Some (map (\<lambda>b. b \<noteq> 0) bits)"
proof -
  have "bit ((pack_bools bits @ rest) ! (i div 8)) (i mod 8) \<longleftrightarrow> bits ! i \<noteq> 0" if "i < length bits" for i
  proof -
    have "i div 8 < length (pack_bools bits)" using that unfolding pack_bools_bits by linarith
    then show ?thesis using pack_bools_bits(2)[of bits i] that by (simp add: nth_append bufbit_def)
  qed
  then show ?thesis using assms by (auto simp: decode_plain_bools_def pack_bools_bits(1) intro: nth_equalityI)
qed

lemma pq_bits_for_bounds:
  assumes "0 < m" "m < 2 ^ k" "k < 31"
  shows "0 < pq_bits_for m" "m < 2 ^ pq_bits_for m" "pq_bits_for m \<le> k"
proof -
  let ?t = "takeWhile (\<lambda>b. 2 ^ b \<le> m) [0..<31]"
  have e: "pq_bits_for m = length ?t" using assms(1) by (simp add: pq_bits_for_def)
  have "[0..<31] = 0 # [1..<31]" by (simp add: upt_conv_Cons)
  then show "0 < pq_bits_for m" using e assms(1) by (simp only:) simp
  have le: "length ?t \<le> k"
  proof (rule ccontr)
    assume a: "\<not> length ?t \<le> k"
    then have "?t ! k \<in> set ?t" by simp
    moreover have "?t ! k = k" using a assms(3) by (simp add: takeWhile_nth)
    ultimately show False using assms(2) set_takeWhileD by fastforce
  qed
  then show "pq_bits_for m \<le> k" using e by simp
  have "length ?t < length [0..<31]" using le assms(3) by simp
  then have "\<not> 2 ^ ([0..<31] ! length ?t) \<le> m" by (rule nth_length_takeWhile)
  then show "m < 2 ^ pq_bits_for m" using e le assms(3) by simp
qed

subsection \<open>A page body\<close>

definition page_levels_ok :: "nat \<Rightarrow> nat \<Rightarrow> byte list \<Rightarrow> bool" where
  "page_levels_ok maxlevel n levels \<longleftrightarrow> length levels = n \<and> (\<forall>l \<in> set levels. unat l \<le> maxlevel)"

definition rle_section :: "byte list \<Rightarrow> nat \<Rightarrow> nat \<Rightarrow> byte list" where
  "rle_section levels n bw = tc_varint (push_bit 1 (of_nat ((n + 7) div 8)) OR 1) @ pack_levels levels n bw"

lemma build_rle_levels_section:
  "build_rle_levels out levels n bw = out @ le_bytes 4 (of_nat (length (rle_section levels n bw))) @ rle_section levels n bw"
  unfolding build_rle_levels_def rle_section_def Let_def put_varint_append append_Nil ..

lemma v1_section_reads:
  assumes "page_levels_ok m n levels" "0 < m" "m < 256" "n < 2 ^ 62" and s: "length (rle_section levels n (pq_bits_for m)) < 2 ^ 32"
  shows "v1_section (build_rle_levels out levels n (pq_bits_for m) @ rest) m n (length out) =
    Some (map ucast levels, length (build_rle_levels out levels n (pq_bits_for m)))"
proof -
  let ?b = "pq_bits_for m"
  have b: "0 < ?b" "m < 2 ^ ?b" "?b \<le> 8" using pq_bits_for_bounds[of m 8] assms(2,3) by simp_all
  have "\<forall>l \<in> set levels. unat l < 2 ^ ?b" using assms(1) b(2) by (auto simp: page_levels_ok_def)
  with b assms have r: "rle_bitpack_decode (rle_section levels n ?b) (int ?b) n = Some (map ucast levels)"
    unfolding rle_section_def by (intro rle_levels_read) (auto simp: page_levels_ok_def)
  have u: "u32_of (le_bytes 4 (of_nat (length (rle_section levels n ?b))) @ x) = length (rle_section levels n ?b)" for x
    using s by (simp add: u32_of_def byte_simps unsigned_take_bit_eq unat_of_nat take_bit_nat_eq_self)
  show ?thesis
    by (simp add: v1_section_def build_rle_levels_section u r Let_def)
qed

end
