(* ===== verification/Spec2Isabelle.thy ===== *)
theory Spec2Isabelle
  imports Sequential_Scan Curve Txn_Refinement Parquet_Roundtrip Parquet_Levels
begin

section \<open>A verification library for pgColumnar\<close>

text \<open>
  pgColumnar is a columnar table access method for PostgreSQL, written in C under
  \<open>src/src\<close>. A table's rows are buffered in memory by column, in chunk groups of a fixed
  number of rows; a full row group is flushed: every column becomes one chunk (validity
  bitmap, one encoded vector per chunk group, block compression), with a descriptor, zone-map
  rows and an optional bloom filter kept in catalog tables, and the chunks are written to a
  byte range of the relation's pages. A reader finds the row groups in the catalog, skips
  what the zone maps and the filter exclude, reads the byte range and decodes the vectors.
  Space of rewritten groups is recorded in a free-space list and reused.

  \<^bold>\<open>Theories and the code they model\<close>

  \<^item> \<open>Columnar_Prelude\<close>: types of the model (\<open>byte\<close>, \<open>u16\<close>, \<open>u32\<close>, \<open>u64\<close>, results with
    \<open>decode_error\<close>), little-endian conversions, and the lemma collections shared by the rest.
  \<^item> \<open>columnar_encoding.c\<close>. \<open>Bitpack\<close>: the word-at-a-time packing of fields and its reference
    versions. \<open>Encoding_Int\<close>: RLE, frame of reference, delta, delta of delta. \<open>Bitstream\<close>
    and \<open>Gorilla\<close>: the bit writer and reader and the XOR codec for floats. \<open>Encoding_Alp\<close>:
    the decimal codec for floats with exceptions. \<open>Probe\<close>: the linear-probing discipline of
    the file's hash tables, as the locale \<open>open_table\<close>. \<open>Encoding_Dict\<close>: the dictionary codec.
    \<open>Fsst\<close>, \<open>Fsst_Build\<close>: the string-symbol codec, its matcher, and the trainer.
    \<open>Encode_Chunk\<close>: the sample, the candidate choice, the decoder dispatch.
  \<^item> \<open>Value_Stream\<close>: the append, read and skip of one value (\<open>PgColumnarEncodeValue\<close> and its
    partners in \<open>columnar_reader.c\<close> and \<open>columnar.h\<close>).
  \<^item> \<open>Compression\<close>: \<open>columnar_compression.c\<close>. \<open>Encdesc\<close>: \<open>columnar_encdesc.h\<close>.
    \<open>Bloom\<close>: \<open>columnar_bloom.c\<close>. \<open>Sketch\<close>: \<open>columnar_sketch.c\<close>. \<open>Curve\<close>: \<open>columnar_curve.c\<close>.
  \<^item> \<open>columnar_write_state.c\<close>. \<open>Chunk_Buffer\<close>: \<open>build_column_def\<close> and the per-column body of
    \<open>PgColumnarWriteRow\<close>, with the running summaries. \<open>Zone_Map\<close>: the zone-map rows and the
    bloom filter of \<open>flush_one_column\<close>. \<open>Column_Chunk\<close>: \<open>flush_one_column\<close> whole and the reader's
    \<open>pgcolumnar_native_decode_chunk\<close>. \<open>Row_Group\<close>: the write state, \<open>PgColumnarWriteRow\<close> whole,
    \<open>PgColumnarBufferedRowByNumber\<close>, \<open>flush_row_group\<close> with the catalog rows it inserts.
  \<^item> \<open>Storage\<close>: \<open>columnar_storage.c\<close>, the metapage, the reservations, logical reads and
    writes over pages, the item-pointer mapping.
  \<^item> \<open>Reclaim\<close>: the free-space list and end truncation (\<open>columnar_metadata.c\<close>,
    \<open>columnar_vacuum.c\<close>), with the histories of operations as the relation \<open>reclaim_run\<close>.
  \<^item> \<open>columnar_reader.c\<close>. \<open>Skip_Predicate\<close>: scan keys turned into predicates, exclusion of row
    groups and vectors by zone maps and bloom filters, the adaptive order. \<open>Group_Scan\<close>: the
    sequential scan, \<open>pgcolumnar_native_load_group\<close> and \<open>pgcolumnar_native_next_row\<close> with what
    they call. \<open>Scan_Rows\<close>, \<open>Scan_Load\<close>, \<open>Scan_Result\<close> and \<open>Sequential_Scan\<close> hold its proof, in
    that order: the walk over the rows of a loaded group, the loading of a stored group, the
    selection of vectors, the scan of all groups.
  \<^item> \<open>Delete_Vector\<close>: \<open>columnar_delete_vector.c\<close> and the row checks of \<open>columnar_row_lock.c\<close>,
    marking rows deleted in a buffer and flushing the marks into the catalog's bitmaps.
  \<^item> \<open>Kept_Registry\<close>: the discipline of buffers that outlive the subtransaction reading them, as
    the locale \<open>kept_registry\<close>. \<open>Write_Registry\<close>: the registries of write states and of delete
    buffers, both interpretations of it, and the handlers of \<open>columnar_tableam.c\<close> over a session
    (insert, delete, update, scan start, statement end, transaction and subtransaction
    callbacks). \<open>Write_Txn\<close>: the specification of a transaction as a stack of row sets, the
    histories \<open>session_run\<close>, and the simulation. \<open>Txn_Refinement\<close>: the rest of it and the
    properties.
  \<^item> \<open>Thrift\<close>: \<open>columnar_thrift.c\<close>, the compact-protocol reader and writer. The locales
    \<open>thrift_body\<close> and \<open>thrift_parser\<close> state what a handler of one field owes the loop over a
    struct, and give its end on every input. \<open>Parquet_Meta\<close>: the footer and page-header parsers of
    \<open>columnar_parquet_reader.c\<close> with the checks of what they read, each handler an interpretation of
    these locales. \<open>Parquet_Writer\<close>: \<open>columnar_parquet.c\<close>, the leaves of a table, the shredding of
    rows, page bodies, statistics and the footer. \<open>Parquet_Roundtrip\<close>: every piece written is read
    back, and the two properties of the footer. \<open>Parquet_Levels\<close>: the decoder of levels and
    booleans of a page, against what the exporter packs.

  \<^bold>\<open>How the parts fit\<close>

  The value stream of a column is the interface between the write state and the codecs: a codec
  is correct when it returns the stream (\<open>encode_chunk_roundtrip\<close>), a chunk when its vectors
  come back with their validity (\<open>column_chunk_roundtrip\<close>), a row group when its chunks and
  their catalog rows describe it (\<open>group_stored\<close>, \<open>flush_row_group_stores\<close>), a file when no
  placement touches a reachable range (\<open>reclaim_keeps_reachable_data\<close>). Pruning uses only what a
  flush promises of the metadata it writes (\<open>flush_skip_metadata\<close>, \<open>pruning_keeps_matching_rows\<close>).
  These two hold for columns of every width. Decoding does not: the writer picks run-length
  encoding at every positive width and the reader accepts it at 1, 2, 4 and 8 only, so
  \<open>column_chunk_roundtrip\<close> asks for such a width or a variable length, and \<open>scan_returns_rows\<close>, which
  puts the parts together (over stored groups the scan ends and returns the rows), asks
  \<open>readable_chunk\<close> of the chunks it decodes.
  Which rows the catalog shows is the transactions' side: \<open>scan_reads_own_writes\<close> and
  \<open>commit_persists_writes\<close> say that flushes, kept buffers and aborts leave exactly the live rows.
  Parquet is a second way out of a table and back: \<open>parquet_footer_roundtrip\<close> says that the footer
  of an export describes the same leaves, groups and bounds to the import, and
  \<open>parsed_footer_well_formed\<close> what the import may rely on for any bytes at all.

  \<^bold>\<open>Conventions\<close>

  Errors the code raises are \<open>Inl\<close> values of \<open>result\<close>; a C buffer is the list of its bytes and a
  cursor the rest of it, so a read past the end is visible; integers are words where wrapping
  matters and naturals where the code checks the range. Every function is total: loops that are
  not structural carry a measure (the candidate loops of the codecs, the FSST trainer, the
  free-space search, the scan loop, which either moves to a later group or to a later row);
  a loop over the fields of a Thrift struct has one more than the buffer's length as fuel, since
  every field takes a byte, and recursion that \<open>check_stack_depth\<close> guards takes the frames left;
  where the C loop ends only under an invariant of its table, the model has as much fuel as the
  table has slots and running out is \<open>Loop_Exhausted\<close>, which the theorems exclude.

  Code outside the repository is an argument: PostgreSQL's datum and type support (\<open>pg_datum\<close>,
  \<open>type_entry\<close>, \<open>pred_catalog\<close>), its bit operations (\<open>bitutils\<close>) and HyperLogLog estimate, the
  floating-point unit (\<open>fpu\<close>, \<open>libm\<close>), the compression libraries (\<open>codec_lib\<close>), the contents of
  fresh memory (\<open>se_junk\<close>) and the executor's qual (\<open>row_filter\<close>). What the theorems need of
  them are predicates such as \<open>pg_datum_ok\<close> and \<open>codec_lib_ok\<close>, each met by an instance the
  witnesses use.

  \<^bold>\<open>Not modelled\<close>

  The buffer manager, WAL, locks and memory contexts of PostgreSQL (an operation runs alone
  on its state, and a call that raises an error is not followed further); the catalog access
  below the lists of rows; the worker pools of parallel
  flush, copy, export and scan; projections; the planner and executor nodes and the
  vectorised execution, which work on PostgreSQL's expression trees; the decoding of
  the values of Parquet pages, its codecs, paths and foreign data wrapper; the other interchange formats
  (Arrow, Avro, Iceberg) and the object stores.
\<close>

end
